(* ===== verification/Go_Base.thy ===== *)
theory Go_Base
  imports Main "HOL-Library.Word"
begin

text \<open>
  Prelude of the development: the Go notions every component model shares.

  \<^item> A Go function that may return an error, panic, or (for a loop that has no bound of its
    own) run for ever is a HOL function into \<open>('e, 'a) outcome\<close>: \<open>Inl (Fail e)\<close> is the returned
    error \<open>e\<close>, \<open>Inl Panic\<close> a run-time panic (index or slice bounds out of range, \<open>make\<close> with a bad
    length, negative shift), \<open>Inl NoFuel\<close> the exhaustion of a loop bound that the component's
    termination theorem shows never to happen.
  \<^item> \<open>obind\<close> sequences such computations: the first fault wins, as an early \<open>return\<close> does.
  \<^item> Bytes are \<open>8 word\<close>; \<open>uint64\<close>/\<open>uint32\<close> values are \<open>64 word\<close>/\<open>32 word\<close>; \<open>int\<close> and \<open>int64\<close> are
    \<open>int\<close>, converted from words by \<open>sint\<close> (the two's-complement reading Go's conversion takes);
    \<open>i64\<close> and \<open>i32\<close> write the wrap-around of an \<open>int64\<close>/\<open>int32\<close> result out where it matters.
  \<^item> \<open>le_nat\<close>/\<open>nat_le\<close> are encoding/binary's little-endian reads and writes.
\<close>

section \<open>Outcomes of Go code\<close>

datatype 'e fault = Fail 'e | Panic | NoFuel

type_synonym ('e, 'a) outcome = "'e fault + 'a"

definition obind :: "('e, 'a) outcome \<Rightarrow> ('a \<Rightarrow> ('e, 'b) outcome) \<Rightarrow> ('e, 'b) outcome" where
  "obind m f = (case m of Inl e \<Rightarrow> Inl e | Inr x \<Rightarrow> f x)"

lemma obind_simps [simp]:
  "obind (Inl e) f = Inl e"
  "obind (Inr x) f = f x"
  by (simp_all add: obind_def)

lemma obind_cong [fundef_cong]:
  assumes "m = m'" and "\<And>x. m' = Inr x \<Longrightarrow> f x = g x"
  shows "obind m f = obind m' g"
  using assms by (simp add: obind_def split: sum.splits)

lemma obind_eq_Inr: "obind m f = Inr y \<longleftrightarrow> (\<exists>x. m = Inr x \<and> f x = Inr y)"
  by (cases m) simp_all

lemma obind_eq_Inl: "obind m f = Inl e \<longleftrightarrow> m = Inl e \<or> (\<exists>x. m = Inr x \<and> f x = Inl e)"
  by (cases m) simp_all

lemma obind_InrE:
  assumes "obind m f = Inr y"
  obtains x where "m = Inr x" "f x = Inr y"
  using assms by (auto simp: obind_eq_Inr)

text \<open>A guard that returns an error, and one that panics.\<close>

definition fail_if :: "bool \<Rightarrow> 'e \<Rightarrow> ('e, 'a) outcome \<Rightarrow> ('e, 'a) outcome" where
  "fail_if c e k = (if c then Inl (Fail e) else k)"

definition panic_if :: "bool \<Rightarrow> ('e, 'a) outcome \<Rightarrow> ('e, 'a) outcome" where
  "panic_if c k = (if c then Inl Panic else k)"

lemma fail_if_cong [fundef_cong]:
  "c = c' \<Longrightarrow> e = e' \<Longrightarrow> (\<not> c' \<Longrightarrow> k = k') \<Longrightarrow> fail_if c e k = fail_if c' e' k'"
  by (simp add: fail_if_def)

lemma panic_if_cong [fundef_cong]:
  "c = c' \<Longrightarrow> (\<not> c' \<Longrightarrow> k = k') \<Longrightarrow> panic_if c k = panic_if c' k'"
  by (simp add: panic_if_def)

lemma guard_simps [simp]:
  "fail_if False e k = k" "fail_if True e k = Inl (Fail e)"
  "panic_if False k = k" "panic_if True k = Inl Panic"
  by (simp_all add: fail_if_def panic_if_def)

lemma guard_eq_Inr:
  "fail_if c e k = Inr y \<longleftrightarrow> \<not> c \<and> k = Inr y"
  "panic_if c k = Inr y \<longleftrightarrow> \<not> c \<and> k = Inr y"
  by (simp_all add: fail_if_def panic_if_def)

text \<open>The facts that take a successful computation apart.\<close>

lemmas outcome_Inr = obind_eq_Inr guard_eq_Inr

text \<open>No \<open>NoFuel\<close>: the loop bounds chosen suffice.\<close>

definition returns :: "('e, 'a) outcome \<Rightarrow> bool" where
  "returns m \<longleftrightarrow> m \<noteq> Inl NoFuel"

lemma returns_simps [simp]:
  "returns (Inr x)" "returns (Inl (Fail e))" "returns (Inl Panic)" "\<not> returns (Inl NoFuel)"
  by (simp_all add: returns_def)

lemma returns_obind: "returns m \<Longrightarrow> (\<And>x. m = Inr x \<Longrightarrow> returns (f x)) \<Longrightarrow> returns (obind m f)"
  by (cases m) (simp_all add: returns_def)

lemma returns_guard:
  "(\<not> c \<Longrightarrow> returns k) \<Longrightarrow> returns (fail_if c e k)"
  "(\<not> c \<Longrightarrow> returns k) \<Longrightarrow> returns (panic_if c k)"
  by (simp_all add: fail_if_def panic_if_def)

lemma returns_if: "(c \<Longrightarrow> returns m) \<Longrightarrow> (\<not> c \<Longrightarrow> returns k) \<Longrightarrow> returns (if c then m else k)"
  by simp

lemma returns_pair: "(\<And>a b. p = (a, b) \<Longrightarrow> returns (f a b)) \<Longrightarrow> returns (case p of (a, b) \<Rightarrow> f a b)"
  by (cases p) simp

lemma returns_let: "(\<And>x. x = v \<Longrightarrow> returns (f x)) \<Longrightarrow> returns (let x = v in f x)"
  by (simp add: Let_def)

lemmas returns_intros = returns_obind returns_guard returns_if returns_pair returns_let

section \<open>Machine integers\<close>

type_synonym byte = "8 word"
type_synonym u32 = "32 word"
type_synonym u64 = "64 word"

definition i32 :: "int \<Rightarrow> int" where
  "i32 x = signed_take_bit 31 x"

definition i64 :: "int \<Rightarrow> int" where
  "i64 x = signed_take_bit 63 x"

lemma i32_id: "- (2 ^ 31) \<le> x \<Longrightarrow> x < 2 ^ 31 \<Longrightarrow> i32 x = x"
  unfolding i32_def by (rule signed_take_bit_int_eq_self) simp_all

lemma i64_id: "- (2 ^ 63) \<le> x \<Longrightarrow> x < 2 ^ 63 \<Longrightarrow> i64 x = x"
  unfolding i64_def by (rule signed_take_bit_int_eq_self) simp_all

lemma i32_range: "- (2 ^ 31) \<le> i32 x \<and> i32 x < 2 ^ 31"
  unfolding i32_def
  using signed_take_bit_int_greater_eq_minus_exp [of 31 x] signed_take_bit_int_less_exp [of 31 x]
  by simp

lemma signed_wrap_cases:
  fixes u m :: int
  assumes "0 \<le> u" "u < 2 * m"
  shows "(u + m) mod (2 * m) - m = (if u < m then u else u - 2 * m)"
proof (cases "u < m")
  case True
  with assms show ?thesis by (simp add: mod_pos_pos_trivial)
next
  case False
  have "(u + m) mod (2 * m) = (u + m - 2 * m) mod (2 * m)"
    by (rule minus_mod_self2 [symmetric])
  also have "\<dots> = u - m"
    using assms False by (simp add: mod_pos_pos_trivial)
  finally show ?thesis using False by simp
qed

lemma sint_uint_cases: "sint (w :: 64 word) = (if uint w < 2 ^ 63 then uint w else uint w - 2 ^ 64)"
proof -
  have "sint w = (uint w + 2 ^ 63) mod (2 * 2 ^ 63) - 2 ^ 63"
    by (simp add: sint_uint signed_take_bit_eq_take_bit_shift take_bit_eq_mod)
  also have "\<dots> = (if uint w < 2 ^ 63 then uint w else uint w - 2 * 2 ^ 63)"
    using uint_lt2p [of w] by (intro signed_wrap_cases) simp_all
  finally show ?thesis by simp
qed

lemma sint_nonneg_uint: "0 \<le> sint (w :: 64 word) \<Longrightarrow> sint w = uint w"
  using sint_uint_cases [of w] uint_lt2p [of w] by (auto split: if_splits)

text \<open>
  \<open>make([]T, n)\<close> panics for a negative length and for one whose size in bytes exceeds the
  address space of the Go allocator (\<open>maxAlloc = 2 ^ 48\<close> on 64-bit platforms). Running out of
  physical memory below that bound is not modelled.
\<close>

definition make_ok :: "int \<Rightarrow> int \<Rightarrow> bool" where
  "make_ok elem_size n \<longleftrightarrow> 0 \<le> n \<and> n * elem_size \<le> 2 ^ 48"

section \<open>Little-endian numbers\<close>

fun le_nat :: "byte list \<Rightarrow> nat" where
  "le_nat [] = 0"
| "le_nat (b # bs) = unat b + 256 * le_nat bs"

fun nat_le :: "nat \<Rightarrow> nat \<Rightarrow> byte list" where
  "nat_le 0 n = []"
| "nat_le (Suc k) n = word_of_nat (n mod 256) # nat_le k (n div 256)"

lemma length_nat_le [simp]: "length (nat_le k n) = k"
  by (induction k arbitrary: n) simp_all

lemma unat_byte_mod [simp]: "unat (word_of_nat (n mod 256) :: byte) = n mod 256"
  by (simp add: unat_of_nat)

lemma unat_byte_of_nat: "n < 256 \<Longrightarrow> unat (word_of_nat n :: byte) = n"
  by (simp add: unat_of_nat)

lemma le_nat_nat_le: "le_nat (nat_le k n) = n mod 256 ^ k"
proof (induction k arbitrary: n)
  case (Suc k)
  have "n mod 256 + 256 * (n div 256 mod 256 ^ k) = n mod (256 * 256 ^ k)"
    by (metis add.commute mod_mult2_eq mult.commute)
  then show ?case by (simp add: Suc)
qed simp

lemma le_nat_nat_le_id: "n < 256 ^ k \<Longrightarrow> le_nat (nat_le k n) = n"
  by (simp add: le_nat_nat_le)

lemma unat_byte_less [simp]: "unat (b :: byte) < 256"
  using unsigned_less [of b, where 'a = nat] by simp

lemma unat_byte_le: "unat (b :: byte) \<le> 255"
  using unat_byte_less [of b] by linarith

lemma le_nat_less: "le_nat bs < 256 ^ length bs"
proof (induction bs)
  case (Cons b bs)
  have "unat b + 256 * le_nat bs < 256 + 256 * le_nat bs"
    by simp
  also have "\<dots> = 256 * Suc (le_nat bs)"
    by simp
  also have "\<dots> \<le> 256 * 256 ^ length bs"
    using Cons.IH by (intro mult_le_mono2) (simp add: Suc_le_eq)
  finally show ?case by simp
qed simp

lemma nat_le_le_nat: "nat_le (length bs) (le_nat bs) = bs"
proof (induction bs)
  case (Cons b bs)
  have "(unat b + 256 * le_nat bs) mod 256 = unat b" "(unat b + 256 * le_nat bs) div 256 = le_nat bs"
    using unat_byte_le [of b] by simp_all
  with Cons show ?case by simp
qed simp

text \<open>\<open>binary.LittleEndian.UintN\<close> on a slice: it panics on fewer than \<open>k\<close> bytes.\<close>

definition read_le :: "nat \<Rightarrow> byte list \<Rightarrow> ('e, nat) outcome" where
  "read_le k src = (if length src < k then Inl Panic else Inr (le_nat (take k src)))"

lemma read_le_enough [simp]: "k \<le> length src \<Longrightarrow> read_le k src = Inr (le_nat (take k src))"
  by (simp add: read_le_def)

lemma returns_read_le [simp]: "returns (read_le k src)"
  by (simp add: read_le_def)

section \<open>Bits of a byte\<close>

unbundle bit_operations_syntax

lemma word_and_mask_mod: "w AND (2 ^ n - 1) = w mod 2 ^ n" for w :: "'a::len word"
  by (simp flip: mask_eq_exp_minus_1 take_bit_eq_mask add: take_bit_eq_mod)

lemma unat_byte_and:
  "unat (w AND 3) = unat w mod 4" "unat (w AND 7) = unat w mod 8"
  "unat (w AND 127) = unat w mod 128" "unat (w AND 1) = unat w mod 2"
  for w :: byte
  using word_and_mask_mod [of w 2] word_and_mask_mod [of w 3] word_and_mask_mod [of w 7]
    word_and_mask_mod [of w 1]
  by (simp_all add: unat_mod)

lemma unat_byte_drop2: "unat (drop_bit 2 w) = unat w div 4" for w :: byte
  by (simp add: drop_bit_eq_div unat_div)

lemma unat_byte_and_E0: "unat (w AND 0xE0) = 32 * (unat w div 32)" for w :: byte
proof -
  have "(0xE0 :: byte) = push_bit 5 (mask 3)"
    by (simp add: mask_eq_exp_minus_1 push_bit_eq_mult)
  moreover have "w AND push_bit 5 (mask 3) = push_bit 5 (drop_bit 5 w)"
    by (rule bit_word_eqI) (auto simp: bit_simps)
  ultimately have "w AND 0xE0 = push_bit 5 (drop_bit 5 w)"
    by simp
  then have "w AND 0xE0 = drop_bit 5 w * 32"
    by (simp add: push_bit_eq_mult)
  moreover have "unat (drop_bit 5 w) = unat w div 32"
    by (simp add: drop_bit_eq_div unat_div)
  moreover have "unat w div 32 * 32 < 256"
    using unat_byte_less [of w] by linarith
  ultimately show ?thesis
    by (simp add: unat_word_ariths)
qed

section \<open>Lists\<close>

lemma take_nat_le [simp]: "take k (nat_le k n @ xs) = nat_le k n" "drop k (nat_le k n @ xs) = xs"
  by simp_all

end
