(* ===== verification/Parquet_Snappy.thy ===== *)
theory Parquet_Snappy
  imports Go_Base
begin

text \<open>
  src/data/parquet/snappy.go: the raw Snappy block decoder and its \<open>uvarint\<close> reader.

  \<open>uvarint\<close>, \<open>load_uint24\<close> and \<open>snappy_decode\<close> are the Go functions; the \<open>switch\<close> of the decode loop
  is \<open>snappy_step\<close>, with \<open>snappy_literal_len\<close> and \<open>snappy_copy\<close> for the code of its branches. The
  specification is \<open>snappy_code\<close>, the wire formats of a literal and of the three copies as Google's
  format_description.txt gives them, and \<open>run_elem\<close>, what an element does to the output.
\<close>

section \<open>The code\<close>

text \<open>The errors the package data/parquet returns.\<close>

datatype pq_error = ErrCorrupt | ErrBadEncoding | ErrBadCompact | ErrBadParquet | ErrRead
  | ErrColumnNotFound "byte list" | ErrEncoding int | ErrCodec int

type_synonym 'a pq = "(pq_error, 'a) outcome"

fun uvarint_loop :: "nat \<Rightarrow> u64 \<Rightarrow> nat \<Rightarrow> byte list \<Rightarrow> (u64 \<times> nat) pq" where
  "uvarint_loop index value shift [] = Inl (Fail ErrCorrupt)"
| "uvarint_loop index value shift (b # bs) =
     (if b < 0x80 then
        fail_if (index > 9 \<or> (index = 9 \<and> b > 1)) ErrCorrupt
          (Inr (value OR push_bit shift (ucast b), index + 1))
      else uvarint_loop (index + 1) (value OR push_bit shift (ucast (b AND 0x7F))) (shift + 7) bs)"

definition uvarint :: "byte list \<Rightarrow> (u64 \<times> nat) pq" where
  "uvarint src = uvarint_loop 0 0 0 src"

fun load_uint24 :: "byte list \<Rightarrow> u32 pq" where
  "load_uint24 (b0 # b1 # b2 # bs) =
     Inr (ucast b0 OR push_bit 8 (ucast b1) OR push_bit 16 (ucast b2))"
| "load_uint24 _ = Inl Panic"

text \<open>The length of a literal and the input after the length bytes.\<close>

definition snappy_literal_len :: "byte \<Rightarrow> byte list \<Rightarrow> (nat \<times> byte list) pq" where
  "snappy_literal_len tag src =
     (let t = unat (drop_bit 2 tag) in
      if t = 60 then fail_if (length src < 1) ErrCorrupt (Inr (unat (src ! 0) + 1, drop 1 src))
      else if t = 61 then fail_if (length src < 2) ErrCorrupt
        (obind (read_le 2 src) (\<lambda>n. Inr (n + 1, drop 2 src)))
      else if t = 62 then fail_if (length src < 3) ErrCorrupt
        (obind (load_uint24 src) (\<lambda>n. Inr (unat n + 1, drop 3 src)))
      else if t = 63 then fail_if (length src < 4) ErrCorrupt
        (obind (read_le 4 src) (\<lambda>n. Inr (n + 1, drop 4 src)))
      else Inr (t + 1, src))"

text \<open>The copy loop: byte by byte, so that a copy may read what it has just written.\<close>

fun copy_loop :: "nat \<Rightarrow> nat \<Rightarrow> byte list \<Rightarrow> (byte list) pq" where
  "copy_loop 0 i dst = Inr dst"
| "copy_loop (Suc n) i dst =
     (if i < length dst then copy_loop n (Suc i) (dst @ [dst ! i]) else Inl Panic)"

definition snappy_copy ::
  "nat \<Rightarrow> nat \<Rightarrow> byte list \<Rightarrow> byte list \<Rightarrow> nat \<Rightarrow> (byte list \<times> byte list \<times> nat) pq" where
  "snappy_copy copy_length offset src dst pos =
     fail_if (offset \<le> 0 \<or> offset > pos) ErrCorrupt
       (obind (copy_loop copy_length (pos - offset) dst)
         (\<lambda>dst'. Inr (src, dst', pos + copy_length)))"

text \<open>One round of the loop: the tag byte is already taken off \<open>src\<close>.\<close>

definition snappy_step ::
  "byte \<Rightarrow> byte list \<Rightarrow> byte list \<Rightarrow> nat \<Rightarrow> (byte list \<times> byte list \<times> nat) pq" where
  "snappy_step tag src dst pos =
     (let kind = unat (tag AND 3) in
      if kind = 0 then
        obind (snappy_literal_len tag src) (\<lambda>(lit_len, src).
          fail_if (length src < lit_len) ErrCorrupt
            (Inr (drop lit_len src, dst @ take lit_len src, pos + lit_len)))
      else if kind = 1 then
        fail_if (length src < 1) ErrCorrupt
          (snappy_copy (4 + unat (drop_bit 2 tag AND 7))
             (push_bit 3 (unat (tag AND 0xE0)) OR unat (src ! 0)) (drop 1 src) dst pos)
      else if kind = 2 then
        fail_if (length src < 2) ErrCorrupt
          (obind (read_le 2 src) (\<lambda>offset.
             snappy_copy (1 + unat (drop_bit 2 tag)) offset (drop 2 src) dst pos))
      else
        fail_if (length src < 4) ErrCorrupt
          (obind (read_le 4 src) (\<lambda>offset.
             snappy_copy (1 + unat (drop_bit 2 tag)) offset (drop 4 src) dst pos)))"

lemma snappy_copy_src: "snappy_copy n offset src dst pos = Inr (src', r) \<Longrightarrow> src' = src"
  by (auto simp: snappy_copy_def outcome_Inr)

lemma snappy_literal_len_shorter:
  "snappy_literal_len tag src = Inr (n, src') \<Longrightarrow> length src' \<le> length src"
  by (auto simp: snappy_literal_len_def Let_def outcome_Inr split: if_splits)

lemma snappy_step_shorter:
  assumes "snappy_step tag src dst pos = Inr (src', dst', pos')"
  shows "length src' \<le> length src"
  using assms
  by (auto simp: snappy_step_def Let_def outcome_Inr split: if_splits
      dest!: snappy_literal_len_shorter snappy_copy_src)

function snappy_loop :: "byte list \<Rightarrow> byte list \<Rightarrow> nat \<Rightarrow> (byte list \<times> nat) pq" where
  "snappy_loop [] dst pos = Inr (dst, pos)"
| "snappy_loop (tag # src) dst pos =
     obind (snappy_step tag src dst pos) (\<lambda>(src', dst', pos'). snappy_loop src' dst' pos')"
  by pat_completeness auto
termination
  by (relation "measure (\<lambda>(src, dst, pos). length src)") (auto dest: snappy_step_shorter)

definition snappy_decode :: "byte list \<Rightarrow> (byte list) pq" where
  "snappy_decode src =
     obind (uvarint src) (\<lambda>(len, consumed).
       panic_if (\<not> make_ok 1 (uint len))
         (obind (snappy_loop (drop consumed src) [] 0) (\<lambda>(dst, pos).
            fail_if (int pos \<noteq> sint len) ErrCorrupt (Inr dst))))"

section \<open>Base-128 varints\<close>

text \<open>The encoding \<open>uvarint\<close> reads: seven bits a byte, low group first, bit 7 on all but the last.\<close>

fun uvarint_enc :: "nat \<Rightarrow> byte list" where
  "uvarint_enc n =
     (if n < 128 then [word_of_nat n]
      else word_of_nat (128 + n mod 128) # uvarint_enc (n div 128))"

declare uvarint_enc.simps [simp del]

lemma or_push_bit_of_nat:
  assumes "m < 2 ^ k"
  shows "word_of_nat m OR push_bit k (word_of_nat n) = (word_of_nat (m + n * 2 ^ k) :: 'a::len word)"
proof -
  have "(word_of_nat m :: 'a word) = take_bit k (word_of_nat m)"
    using assms by (simp add: take_bit_of_nat take_bit_nat_eq_self)
  then have "\<not> bit (word_of_nat m :: 'a word) i" if "k \<le> i" for i
    using that by (metis bit_take_bit_iff not_le)
  then have "word_of_nat m OR push_bit k (word_of_nat n) =
      word_of_nat m + (push_bit k (word_of_nat n) :: 'a word)"
    by (intro disjunctive_add [symmetric]) (auto simp: bit_simps)
  then show ?thesis by (simp add: push_bit_eq_mult)
qed

lemma ucast_byte_of_nat:
  assumes "n < 256"
  shows "(ucast (word_of_nat n :: byte) :: u64) = word_of_nat n"
proof -
  have "(ucast (word_of_nat n :: byte) :: u64) = word_of_nat (unat (word_of_nat n :: byte))"
    by simp
  then show ?thesis using assms by (simp add: unat_of_nat)
qed

lemma uvarint_loop_enc:
  assumes "m < 2 ^ (7 * i)" "m + n * 2 ^ (7 * i) < 2 ^ 64" "0 < n \<or> i = 0"
  shows "uvarint_loop i (word_of_nat m) (7 * i) (uvarint_enc n @ rest) =
    Inr (word_of_nat (m + n * 2 ^ (7 * i)), i + length (uvarint_enc n))"
  using assms
proof (induction n arbitrary: i m rule: uvarint_enc.induct)
  case (1 n)
  define P :: nat where "P = 2 ^ (7 * i)"
  have small: "P < 2 ^ 64" if "0 < n"
    using 1(3) mult_le_mono1 [of 1 n P] that unfolding P_def by linarith
  show ?case
  proof (cases "n < 128")
    case True
    have "i \<le> 9" if "0 < n"
      using small [OF that] power_less_imp_less_exp [of "2::nat" "7 * i" 64]
      unfolding P_def by simp
    moreover have "n \<le> 1" if "i = 9"
      using 1(3) that by simp
    ultimately have "\<not> (i > 9 \<or> (i = 9 \<and> (word_of_nat n :: byte) > 1))"
      using 1(4) True by (auto simp: word_less_nat_alt unat_of_nat)
    moreover have "(word_of_nat n :: byte) < 0x80"
      using True by (simp add: word_less_nat_alt unat_of_nat)
    ultimately show ?thesis
      using True 1(2) by (auto simp: fail_if_def uvarint_enc.simps [of n] ucast_byte_of_nat or_push_bit_of_nat)
  next
    case False
    let ?b = "word_of_nat (128 + n mod 128) :: byte"
    let ?m = "m + n mod 128 * P"
    have ub: "unat ?b = 128 + n mod 128"
      by (rule unat_byte_of_nat) (use mod_less_divisor [of 128 n] in linarith)
    have b: "\<not> ?b < 0x80"
      by (simp add: word_less_nat_alt ub del: of_nat_add)
    have "unat (?b AND 0x7F) = unat (word_of_nat (n mod 128) :: byte)"
      by (simp add: unat_byte_and ub unat_of_nat del: of_nat_add)
    then have low: "?b AND 0x7F = word_of_nat (n mod 128)"
      by (rule word_unat_eq_iff [THEN iffD2])
    have P128: "2 ^ (7 * Suc i) = 128 * P"
      by (simp add: P_def power_add)
    have "n mod 128 * P + n div 128 * (128 * P) = (n mod 128 + n div 128 * 128) * P"
      by (simp only: add_mult_distrib mult.assoc)
    also have "\<dots> = n * P"
      by (simp only: mod_div_mult_eq)
    finally have sum: "?m + n div 128 * 2 ^ (7 * Suc i) = m + n * P"
      unfolding P128 by simp
    have "n mod 128 * P + P \<le> 128 * P"
      using mult_le_mono1 [of "Suc (n mod 128)" 128 P] mod_less_divisor [of 128 n] by (simp add: Suc_le_eq)
    then have "?m < 2 ^ (7 * Suc i)"
      using 1(2) unfolding P128 P_def by linarith
    moreover have "?m + n div 128 * 2 ^ (7 * Suc i) < 2 ^ 64"
      unfolding sum by (simp only: 1(3) P_def)
    moreover have "0 < n div 128 \<or> Suc i = 0"
      using False by simp
    ultimately have "uvarint_loop (Suc i) (word_of_nat ?m) (7 * Suc i) (uvarint_enc (n div 128) @ rest) =
        Inr (word_of_nat (?m + n div 128 * 2 ^ (7 * Suc i)), Suc i + length (uvarint_enc (n div 128)))"
      by (rule 1(1) [OF False])
    note IH = this [unfolded sum]
    have "word_of_nat m OR push_bit (7 * i) (ucast (?b AND 0x7F)) = (word_of_nat ?m :: u64)"
      unfolding low P_def using 1(2)
      by (simp add: ucast_byte_of_nat or_push_bit_of_nat del: of_nat_add of_nat_mult)
    then show ?thesis
      using b False IH
      by (simp add: uvarint_enc.simps [of n] P_def add.commute del: of_nat_add of_nat_mult)
  qed
qed

lemma uvarint_enc_roundtrip:
  "n < 2 ^ 64 \<Longrightarrow> uvarint (uvarint_enc n @ rest) = Inr (word_of_nat n, length (uvarint_enc n))"
  using uvarint_loop_enc [of 0 0 n rest] by (simp add: uvarint_def)

section \<open>What a Snappy block means\<close>

text \<open>
  An element of a block appends a literal, or repeats \<open>len\<close> bytes starting \<open>off\<close> back from the end
  of the output; where \<open>off < len\<close> the repetition is periodic.
\<close>

datatype snappy_elem = Literal "byte list" | Copy nat nat

fun run_elem :: "snappy_elem \<Rightarrow> byte list \<Rightarrow> byte list" where
  "run_elem (Literal bs) out = out @ bs"
| "run_elem (Copy off len) out =
     out @ map (\<lambda>i. out ! (length out - off + i mod off)) [0..<len]"

fun elem_ok :: "snappy_elem \<Rightarrow> byte list \<Rightarrow> bool" where
  "elem_ok (Literal bs) out \<longleftrightarrow> True"
| "elem_ok (Copy off len) out \<longleftrightarrow> 0 < off \<and> off \<le> length out"

fun run_elems :: "snappy_elem list \<Rightarrow> byte list \<Rightarrow> byte list option" where
  "run_elems [] out = Some out"
| "run_elems (e # es) out = (if elem_ok e out then run_elems es (run_elem e out) else None)"

text \<open>The five wire formats of an element (a literal has its length in the tag or in 1 to 4 bytes).\<close>

inductive snappy_code :: "snappy_elem \<Rightarrow> byte list \<Rightarrow> bool" where
  literal_short: "1 \<le> length bs \<Longrightarrow> length bs \<le> 60 \<Longrightarrow>
    snappy_code (Literal bs) (word_of_nat (4 * (length bs - 1)) # bs)"
| literal_long: "1 \<le> k \<Longrightarrow> k \<le> 4 \<Longrightarrow> 1 \<le> length bs \<Longrightarrow> length bs \<le> 256 ^ k \<Longrightarrow>
    snappy_code (Literal bs) (word_of_nat (4 * (59 + k)) # nat_le k (length bs - 1) @ bs)"
| copy_1: "4 \<le> len \<Longrightarrow> len < 12 \<Longrightarrow> off < 2048 \<Longrightarrow>
    snappy_code (Copy off len)
      [word_of_nat (1 + 4 * (len - 4) + 32 * (off div 256)), word_of_nat (off mod 256)]"
| copy_2: "1 \<le> len \<Longrightarrow> len \<le> 64 \<Longrightarrow> off < 65536 \<Longrightarrow>
    snappy_code (Copy off len) (word_of_nat (2 + 4 * (len - 1)) # nat_le 2 off)"
| copy_4: "1 \<le> len \<Longrightarrow> len \<le> 64 \<Longrightarrow> off < 2 ^ 32 \<Longrightarrow>
    snappy_code (Copy off len) (word_of_nat (3 + 4 * (len - 1)) # nat_le 4 off)"

inductive snappy_body :: "snappy_elem list \<Rightarrow> byte list \<Rightarrow> bool" where
  body_Nil: "snappy_body [] []"
| body_Cons: "snappy_code e cs \<Longrightarrow> snappy_body es bs \<Longrightarrow> snappy_body (e # es) (cs @ bs)"

lemma copy_loop_periodic:
  assumes "0 < off" "off \<le> length out"
  shows "copy_loop n (length out - off + k)
      (out @ map (\<lambda>i. out ! (length out - off + i mod off)) [0..<k]) =
    Inr (out @ map (\<lambda>i. out ! (length out - off + i mod off)) [0..<k + n])"
proof (induction n arbitrary: k)
  case (Suc n)
  let ?per = "\<lambda>k. out @ map (\<lambda>i. out ! (length out - off + i mod off)) [0..<k]"
  have "?per k ! (length out - off + k) = out ! (length out - off + k mod off)"
  proof (cases "k < off")
    case True
    then have "length out - off + k < length out"
      using assms by linarith
    with True show ?thesis by (simp add: nth_append)
  next
    case False
    then have "length out - off + k = length out + (k - off)" "(k - off) mod off = k mod off"
      using assms by (simp_all add: le_mod_geq [symmetric])
    with False assms show ?thesis by (simp add: nth_append)
  qed
  then have "?per k @ [?per k ! (length out - off + k)] = ?per (Suc k)"
    by simp
  moreover have "length out - off + k < length (?per k)"
    using assms by simp
  ultimately show ?case
    using Suc.IH [of "Suc k"] by simp
qed simp

lemma snappy_copy_run:
  "snappy_copy len off src out (length out) =
    (if elem_ok (Copy off len) out
     then Inr (src, run_elem (Copy off len) out, length (run_elem (Copy off len) out))
     else Inl (Fail ErrCorrupt))"
  using copy_loop_periodic [of off out len 0] by (simp add: snappy_copy_def)

text \<open>Reading the fields of a tag byte and of the length bytes.\<close>

lemma tag_fields:
  assumes "r < 4" "q < 64"
  shows "unat ((word_of_nat (r + 4 * q) :: byte) AND 3) = r"
    and "unat (drop_bit 2 (word_of_nat (r + 4 * q) :: byte)) = q"
    and "unat (drop_bit 2 (word_of_nat (r + 4 * q) :: byte) AND 7) = q mod 8"
    and "unat ((word_of_nat (r + 4 * q) :: byte) AND 0xE0) = 32 * (q div 8)"
proof -
  have t: "unat (word_of_nat (r + 4 * q) :: byte) = r + 4 * q"
    using assms by (intro unat_byte_of_nat) linarith
  have "(r + 4 * q) div 32 = (r + 4 * q) div 4 div 8"
    by (simp flip: div_mult2_eq)
  moreover have "(r + 4 * q) div 4 = q"
    using assms by simp
  ultimately show "unat ((word_of_nat (r + 4 * q) :: byte) AND 3) = r"
    and "unat (drop_bit 2 (word_of_nat (r + 4 * q) :: byte)) = q"
    and "unat (drop_bit 2 (word_of_nat (r + 4 * q) :: byte) AND 7) = q mod 8"
    and "unat ((word_of_nat (r + 4 * q) :: byte) AND 0xE0) = 32 * (q div 8)"
    using assms
    by (simp_all only: unat_byte_and unat_byte_and_E0 unat_byte_drop2 t) simp_all
qed

lemma load_uint24_le:
  assumes "3 \<le> length src"
  obtains w where "load_uint24 src = Inr w" "unat w = le_nat (take 3 src)"
proof -
  from assms obtain b0 b1 b2 bs where src: "src = b0 # b1 # b2 # bs"
    by (metis One_nat_def Suc_le_length_iff numeral_3_eq_3)
  let ?n = "unat b0 + unat b1 * 2 ^ 8 + unat b2 * 2 ^ 16"
  have lt: "unat b0 < 2 ^ 8" "unat b0 + unat b1 * 2 ^ 8 < 2 ^ 16" "?n < 2 ^ 24"
    using unat_byte_le [of b0] unat_byte_le [of b1] unat_byte_le [of b2] by simp_all
  have "(ucast b0 OR push_bit 8 (ucast b1) OR push_bit 16 (ucast b2) :: u32) =
      (word_of_nat (unat b0) OR push_bit 8 (word_of_nat (unat b1))) OR push_bit 16 (word_of_nat (unat b2))"
    by (simp add: or.assoc)
  also have "\<dots> = word_of_nat ?n"
    by (simp only: or_push_bit_of_nat lt)
  finally have "unat (ucast b0 OR push_bit 8 (ucast b1) OR push_bit 16 (ucast b2) :: u32) = ?n"
    using lt(3) by (simp add: unat_of_nat del: of_nat_add of_nat_mult)
  with src that show thesis by (simp add: numeral_3_eq_3)
qed

lemma or_push_bit_nat: "m < 256 \<Longrightarrow> push_bit 8 n OR m = m + n * 256" for m n :: nat
proof -
  assume "m < 256"
  then have "m = take_bit 8 m" by (simp add: take_bit_nat_eq_self)
  then have "\<not> bit m i" if "8 \<le> i" for i
    using that by (metis bit_take_bit_iff not_le)
  then have "push_bit 8 n OR m = push_bit 8 n + m"
    by (intro disjunctive_add [symmetric]) (auto simp: bit_simps)
  then show ?thesis by (simp add: push_bit_eq_mult)
qed

text \<open>The decoder's round on a coded element is the element's effect on the output.\<close>

definition elem_outcome :: "snappy_elem \<Rightarrow> byte list \<Rightarrow> byte list \<Rightarrow> (byte list \<times> byte list \<times> nat) pq" where
  "elem_outcome e rest out =
     (if elem_ok e out then Inr (rest, run_elem e out, length (run_elem e out))
      else Inl (Fail ErrCorrupt))"

lemma snappy_step_literal:
  assumes "snappy_literal_len (word_of_nat (4 * q)) src = Inr (length bs, bs @ rest)" "q < 64"
  shows "snappy_step (word_of_nat (4 * q)) src out (length out) = elem_outcome (Literal bs) rest out"
  using assms tag_fields(1) [of 0 q] by (simp add: snappy_step_def elem_outcome_def)

lemma snappy_literal_len_long:
  assumes "1 \<le> k" "k \<le> 4" "unat (drop_bit 2 tag) = 59 + k"
  shows "snappy_literal_len tag src =
    fail_if (length src < k) ErrCorrupt (Inr (le_nat (take k src) + 1, drop k src))"
proof -
  have "k = 1 \<or> k = 2 \<or> k = 3 \<or> k = 4"
    using assms by linarith
  then show ?thesis
  proof (elim disjE)
    assume k: "k = 1"
    have "le_nat (take 1 src) = unat (src ! 0)" if "src \<noteq> []"
      using that by (cases src) simp_all
    then show ?thesis using k assms(3) by (simp add: snappy_literal_len_def fail_if_def)
  next
    assume k: "k = 3"
    show ?thesis
    proof (cases "length src < 3")
      case False
      then obtain w where "load_uint24 src = Inr w" "unat w = le_nat (take 3 src)"
        using load_uint24_le [of src] by auto
      with k False assms(3) show ?thesis by (simp add: snappy_literal_len_def)
    qed (use k assms(3) in \<open>simp add: snappy_literal_len_def\<close>)
  qed (use assms(3) in \<open>simp_all add: snappy_literal_len_def fail_if_def\<close>)
qed

lemma snappy_literal_long:
  assumes "1 \<le> k" "k \<le> 4" "1 \<le> length bs" "length bs \<le> 256 ^ k"
  shows "snappy_literal_len (word_of_nat (4 * (59 + k))) (nat_le k (length bs - 1) @ bs @ rest) =
    Inr (length bs, bs @ rest)"
proof -
  have "unat (drop_bit 2 (word_of_nat (4 * (59 + k)) :: byte)) = 59 + k"
    using tag_fields(2) [of 0 "59 + k"] assms by simp
  moreover have "le_nat (nat_le k (length bs - 1)) = length bs - 1"
    using assms by (intro le_nat_nat_le_id) linarith
  ultimately show ?thesis
    using assms by (simp add: snappy_literal_len_long)
qed

lemma snappy_step_copy1:
  "q < 64 \<Longrightarrow> snappy_step (word_of_nat (1 + 4 * q)) (b # rest) out (length out) =
    elem_outcome (Copy (push_bit 3 (32 * (q div 8)) OR unat b) (4 + q mod 8)) rest out"
  using tag_fields [of 1 q]
  by (simp add: snappy_step_def snappy_copy_run elem_outcome_def Let_def del: of_nat_add of_nat_mult)

lemma snappy_step_copy2:
  assumes "q < 64" "off < 256 ^ 2"
  shows "snappy_step (word_of_nat (2 + 4 * q)) (nat_le 2 off @ rest) out (length out) =
    elem_outcome (Copy off (1 + q)) rest out"
  using tag_fields(1,2) [of 2 q] assms le_nat_nat_le_id [of off 2]
  by (simp add: snappy_step_def snappy_copy_run elem_outcome_def Let_def del: of_nat_add of_nat_mult)

lemma snappy_step_copy4:
  assumes "q < 64" "off < 256 ^ 4"
  shows "snappy_step (word_of_nat (3 + 4 * q)) (nat_le 4 off @ rest) out (length out) =
    elem_outcome (Copy off (1 + q)) rest out"
  using tag_fields(1,2) [of 3 q] assms le_nat_nat_le_id [of off 4]
  by (simp add: snappy_step_def snappy_copy_run elem_outcome_def Let_def del: of_nat_add of_nat_mult)

lemma snappy_step_code:
  assumes "snappy_code e cs"
  obtains tag cs' where "cs = tag # cs'"
    and "\<And>rest out. snappy_step tag (cs' @ rest) out (length out) = elem_outcome e rest out"
  using assms
proof cases
  case (literal_short bs)
  have "snappy_literal_len (word_of_nat (4 * (length bs - 1))) (bs @ rest) = Inr (length bs, bs @ rest)" for rest
  proof -
    obtain q where "length bs = Suc q" "q < 60"
      using literal_short by (cases "length bs") auto
    then show ?thesis
      using tag_fields(2) [of 0 q] by (simp add: snappy_literal_len_def)
  qed
  with literal_short that show thesis by (simp add: snappy_step_literal del: of_nat_diff of_nat_mult)
next
  case (literal_long k bs)
  then have "snappy_step (word_of_nat (4 * (59 + k))) ((nat_le k (length bs - 1) @ bs) @ rest) out (length out) =
      elem_outcome (Literal bs) rest out" for rest out
    unfolding append_assoc by (intro snappy_step_literal snappy_literal_long) simp_all
  with literal_long that show thesis by blast
next
  case (copy_1 len off)
  let ?q = "len - 4 + 8 * (off div 256)"
  have "len - 4 < 8" "off div 256 < 8"
    using copy_1 by linarith+
  then have q: "?q < 64" "?q mod 8 = len - 4" "?q div 8 = off div 256"
    by (simp_all only: mod_mult_self2 mod_less div_mult_self2 div_less add_0_right add_0)
  have "push_bit 3 (32 * (off div 256)) = push_bit 8 (off div 256)"
    by (simp add: push_bit_eq_mult)
  then have off: "push_bit 3 (32 * (off div 256)) OR off mod 256 = off"
    by (simp add: or_push_bit_nat)
  have "snappy_step (word_of_nat (1 + 4 * ?q)) (word_of_nat (off mod 256) # rest) out (length out) =
      elem_outcome (Copy off len) rest out" for rest out
    using snappy_step_copy1 [OF q(1)] copy_1(3) by (simp only: q off unat_byte_mod) simp
  moreover have "1 + 4 * ?q = 1 + 4 * (len - 4) + 32 * (off div 256)"
    by simp
  ultimately show thesis
    using that copy_1 by (metis append_Cons append_Nil)
next
  case (copy_2 len off)
  then have "snappy_step (word_of_nat (2 + 4 * (len - 1))) (nat_le 2 off @ rest) out (length out) =
      elem_outcome (Copy off len) rest out" for rest out
    using snappy_step_copy2 [of "len - 1" off] by simp
  with copy_2 that show thesis by blast
next
  case (copy_4 len off)
  then have "snappy_step (word_of_nat (3 + 4 * (len - 1))) (nat_le 4 off @ rest) out (length out) =
      elem_outcome (Copy off len) rest out" for rest out
    using snappy_step_copy4 [of "len - 1" off] by simp
  with copy_4 that show thesis by blast
qed

lemma snappy_loop_body:
  assumes "snappy_body es bs"
  shows "snappy_loop bs out (length out) =
    (case run_elems es out of None \<Rightarrow> Inl (Fail ErrCorrupt) | Some out' \<Rightarrow> Inr (out', length out'))"
  using assms
proof (induction arbitrary: out)
  case (body_Cons e cs es bs)
  obtain tag cs' where "cs = tag # cs'"
    and "snappy_step tag (cs' @ bs) out (length out) = elem_outcome e bs out"
    using snappy_step_code [OF body_Cons.hyps(1)] by metis
  then show ?case using body_Cons.IH by (simp add: elem_outcome_def)
qed simp

text \<open>Conversely, a round that succeeds has read one coded element.\<close>

lemma tag_split:
  fixes tag :: byte
  obtains r q where "r < 4" "q < 64" "tag = word_of_nat (r + 4 * q)"
proof
  show "unat tag mod 4 < 4" by simp
  show "unat tag div 4 < 64" using unat_byte_le [of tag] by linarith
  show "tag = word_of_nat (unat tag mod 4 + 4 * (unat tag div 4))" unfolding mod_mult_div_eq by simp
qed

lemma elem_outcome_src: "elem_outcome e rest out = Inr (src', out', pos') \<Longrightarrow> src' = rest"
  by (simp add: elem_outcome_def split: if_splits)

lemma snappy_step_le_split:
  assumes "k \<le> length src"
  obtains off where "off < 256 ^ k" "src = nat_le k off @ drop k src"
proof (rule that [of "le_nat (take k src)"])
  show "le_nat (take k src) < 256 ^ k"
    using le_nat_less [of "take k src"] assms by simp
  show "src = nat_le k (le_nat (take k src)) @ drop k src"
    using nat_le_le_nat [of "take k src"] assms by simp
qed

lemma snappy_step_copy1_code:
  assumes "q < 64"
  shows "snappy_code (Copy (push_bit 3 (32 * (q div 8)) OR unat b) (4 + q mod 8)) [word_of_nat (1 + 4 * q), b]"
proof -
  let ?off = "unat b + (q div 8) * 256"
  have "push_bit 3 (32 * (q div 8)) = push_bit 8 (q div 8)"
    by (simp add: push_bit_eq_mult)
  then have off: "push_bit 3 (32 * (q div 8)) OR unat b = ?off"
    by (simp add: or_push_bit_nat)
  have div: "?off div 256 = q div 8" and mod: "word_of_nat (?off mod 256) = b"
    using unat_byte_le [of b] by (simp_all add: div_mult_self1 del: of_nat_add)
  have "q div 8 < 8"
    using assms by linarith
  then have "?off < 2048"
    using unat_byte_le [of b] by linarith
  moreover have "1 + 4 * (4 + q mod 8 - 4) + 32 * (?off div 256) = 1 + 4 * q"
    unfolding div by presburger
  ultimately show ?thesis
    using copy_1 [of "4 + q mod 8" ?off] unfolding off mod by simp
qed

lemma snappy_literal_len_code:
  assumes "snappy_literal_len (word_of_nat (4 * q)) src = Inr (n, src1)" "n \<le> length src1" "q < 64"
  obtains cs where "snappy_code (Literal (take n src1)) cs" "word_of_nat (4 * q) # src = cs @ drop n src1"
proof (cases "q < 60")
  case True
  with assms have "n = q + 1" "src1 = src"
    using tag_fields(2) [of 0 q] by (simp_all add: snappy_literal_len_def)
  then show thesis
    using that [of "word_of_nat (4 * q) # take n src1"] literal_short [of "take n src1"] assms(2) True
    by simp
next
  case False
  define k where "k = q - 59"
  have k: "1 \<le> k" "k \<le> 4" "q = 59 + k"
    using False assms(3) by (simp_all add: k_def)
  have len: "k \<le> length src" "n = le_nat (take k src) + 1" "src1 = drop k src"
    using assms(1) tag_fields(2) [of 0 q] k snappy_literal_len_long [OF k(1,2)]
    by (auto simp: outcome_Inr)
  have pre: "nat_le k (n - 1) = take k src" "n \<le> 256 ^ k"
    using nat_le_le_nat [of "take k src"] le_nat_less [of "take k src"] len by simp_all
  have "snappy_code (Literal (take n src1)) (word_of_nat (4 * q) # take k src @ take n src1)"
    using literal_long [OF k(1,2), of "take n src1"] pre len(2) assms(2) k(3) by simp
  then show thesis
    using that len by (metis append_Cons append_assoc append_take_drop_id)
qed

lemma snappy_step_complete:
  assumes step: "snappy_step tag src out (length out) = Inr (src', out', pos')"
  obtains e cs where "snappy_code e cs" "tag # src = cs @ src'"
    and "elem_outcome e src' out = Inr (src', out', pos')"
proof -
  obtain r q where rq: "r < 4" "q < 64" and tag: "tag = word_of_nat (r + 4 * q)"
    by (rule tag_split)
  note fields = tag_fields [OF rq]
  have "r = 0 \<or> r = 1 \<or> r = 2 \<or> r = 3"
    using rq by linarith
  then show thesis
  proof (elim disjE)
    assume r: "r = 0"
    from step obtain n src1 where lit: "snappy_literal_len tag src = Inr (n, src1)" "n \<le> length src1"
      and out: "src' = drop n src1" "out' = out @ take n src1" "pos' = length out + n"
      using fields(1) tag r by (auto simp: snappy_step_def outcome_Inr)
    from lit tag r rq obtain cs where "snappy_code (Literal (take n src1)) cs" "tag # src = cs @ drop n src1"
      using snappy_literal_len_code [of q src n src1] by (metis add_0)
    then show thesis
      using that lit(2) by (simp add: elem_outcome_def out)
  next
    assume r: "r = 1"
    with step fields(1) tag have "src \<noteq> []"
      by (auto simp: snappy_step_def)
    then obtain b rest where src: "src = b # rest"
      by (cases src) auto
    from step have "elem_outcome (Copy (push_bit 3 (32 * (q div 8)) OR unat b) (4 + q mod 8)) rest out =
        Inr (src', out', pos')"
      by (simp only: src tag r snappy_step_copy1 [OF rq(2)])
    with that snappy_step_copy1_code [OF rq(2), of b] show thesis
      unfolding src tag r by (metis append_Cons append_Nil elem_outcome_src)
  next
    assume r: "r = 2"
    with step fields(1) tag have "2 \<le> length src"
      by (auto simp: snappy_step_def fail_if_def split: if_splits)
    then obtain off where off: "off < 256 ^ 2" and src: "src = nat_le 2 off @ drop 2 src"
      by (rule snappy_step_le_split)
    from step have "elem_outcome (Copy off (1 + q)) (drop 2 src) out = Inr (src', out', pos')"
      by (subst (asm) src) (simp only: tag r snappy_step_copy2 [OF rq(2) off])
    moreover have "snappy_code (Copy off (1 + q)) (tag # nat_le 2 off)"
      using copy_2 [of "1 + q" off] rq off by (simp add: tag r del: of_nat_add of_nat_mult)
    ultimately show thesis
      using that src elem_outcome_src by (metis append_Cons)
  next
    assume r: "r = 3"
    with step fields(1) tag have "4 \<le> length src"
      by (auto simp: snappy_step_def fail_if_def split: if_splits)
    then obtain off where off: "off < 256 ^ 4" and src: "src = nat_le 4 off @ drop 4 src"
      by (rule snappy_step_le_split)
    from step have "elem_outcome (Copy off (1 + q)) (drop 4 src) out = Inr (src', out', pos')"
      by (subst (asm) src) (simp only: tag r snappy_step_copy4 [OF rq(2) off])
    moreover have "snappy_code (Copy off (1 + q)) (tag # nat_le 4 off)"
      using copy_4 [of "1 + q" off] rq off by (simp add: tag r del: of_nat_add of_nat_mult)
    ultimately show thesis
      using that src elem_outcome_src by (metis append_Cons)
  qed
qed

lemma snappy_loop_complete:
  assumes "snappy_loop src out (length out) = Inr (out', pos')"
  obtains es where "snappy_body es src" "run_elems es out = Some out'" "pos' = length out'"
  using assms
proof (induction src out "length out" arbitrary: thesis rule: snappy_loop.induct)
  case (1 dst)
  then show ?case using snappy_body.body_Nil by fastforce
next
  case (2 tag src dst)
  from "2.prems"(2) obtain src1 dst1 pos1 where step: "snappy_step tag src dst (length dst) = Inr (src1, dst1, pos1)"
    and rest: "snappy_loop src1 dst1 pos1 = Inr (out', pos')"
    by (auto simp: outcome_Inr)
  from step obtain e cs where e: "snappy_code e cs" "tag # src = cs @ src1"
    and "elem_outcome e src1 dst = Inr (src1, dst1, pos1)"
    by (rule snappy_step_complete)
  then have ok: "elem_ok e dst" "dst1 = run_elem e dst" "pos1 = length dst1"
    by (auto simp: elem_outcome_def split: if_splits)
  obtain es where "snappy_body es src1" "run_elems es dst1 = Some out'" "pos' = length out'"
    using "2.hyps" [OF step refl] ok(3) rest by blast
  with e ok show ?case
    using "2.prems"(1) [of "e # es"] snappy_body.body_Cons [OF e(1)] by simp
qed

section \<open>Properties\<close>

text \<open>
  C13. The Snappy decoder accepts exactly the well-formed blocks and returns what they denote: it
  returns \<open>out\<close> iff the input is a varint with the length of \<open>out\<close> (at most the allocator's bound)
  followed by coded elements, in any of the five wire formats, whose execution from the empty
  output (each copy within the output so far, overlapping copies repeating their period) is \<open>out\<close>.
\<close>

theorem snappy_decode_iff:
  "snappy_decode src = Inr out \<longleftrightarrow>
    (\<exists>len consumed es. uvarint src = Inr (len, consumed) \<and> uint len = int (length out) \<and>
       length out \<le> 2 ^ 48 \<and> snappy_body es (drop consumed src) \<and> run_elems es [] = Some out)"
  (is "?L \<longleftrightarrow> ?R")
proof
  assume ?L
  then obtain len consumed pos where u: "uvarint src = Inr (len, consumed)" "make_ok 1 (uint len)"
    and l: "snappy_loop (drop consumed src) [] (length ([] :: byte list)) = Inr (out, pos)" "int pos = sint len"
    by (auto simp: snappy_decode_def outcome_Inr)
  from l(1) obtain es where "snappy_body es (drop consumed src)" "run_elems es [] = Some out" "pos = length out"
    by (rule snappy_loop_complete)
  with u l(2) show ?R by (auto simp: make_ok_def sint_uint_cases split: if_splits)
next
  assume ?R
  then obtain len consumed es where "uvarint src = Inr (len, consumed)" "uint len = int (length out)"
    "length out \<le> 2 ^ 48" "snappy_body es (drop consumed src)" "run_elems es [] = Some out"
    by blast
  then show ?L
    using snappy_loop_body [of es "drop consumed src" "[]"]
    by (simp add: snappy_decode_def make_ok_def sint_uint_cases)
qed

text \<open>
  Varint round trip: \<open>uvarint\<close> reads every 64-bit number back from its base-128 encoding,
  whatever follows it, and reports the length of the encoding as the bytes consumed.
\<close>

theorem uvarint_reads_encoding:
  assumes "n < 2 ^ 64"
  shows "uvarint (uvarint_enc n @ rest) = Inr (word_of_nat n, length (uvarint_enc n))"
  using assms by (rule uvarint_enc_roundtrip)

theorem uvarint_reads_encoding_witness:
  "uvarint (uvarint_enc 300 @ [7]) = Inr (300, length (uvarint_enc 300))"
  using uvarint_reads_encoding [of 300 "[7]"] by simp

end
