(* ===== verification/Parquet_Encoding.thy ===== *)
theory Parquet_Encoding
  imports Parquet_Snappy
begin

text \<open>
  src/data/parquet/encoding.go: PLAIN values and the RLE/bit-packed hybrid of dictionary indices.

  Every Go function has one definition of its name; a bit-packed run of
  \<open>decodeRLEBitPacked\<close> is \<open>bit_packed_run\<close>, the loop over the runs \<open>rle_loop\<close>. A slice the decoders receive has no capacity beyond its length
  (the reader makes it with its exact size), so slicing past the length panics.
\<close>

section \<open>The code\<close>

text \<open>Slicing \<open>data[lo:hi]\<close>: it panics unless \<open>0 \<le> lo \<le> hi \<le> len(data)\<close>.\<close>

definition go_slice :: "'a list \<Rightarrow> int \<Rightarrow> int \<Rightarrow> ('e, 'a list) outcome" where
  "go_slice xs lo hi =
     (if 0 \<le> lo \<and> lo \<le> hi \<and> hi \<le> int (length xs)
      then Inr (take (nat (hi - lo)) (drop (nat lo) xs)) else Inl Panic)"

fun plain_byte_array_loop :: "nat \<Rightarrow> byte list \<Rightarrow> (byte list list) pq" where
  "plain_byte_array_loop 0 data = Inr []"
| "plain_byte_array_loop (Suc n) data =
     obind (uvarint data) (\<lambda>(len, consumed).
       let data = drop consumed data in
       fail_if (sint len > int (length data)) ErrBadEncoding
         (obind (go_slice data 0 (sint len)) (\<lambda>value.
            obind (go_slice data (sint len) (int (length data))) (\<lambda>data.
              obind (plain_byte_array_loop n data) (\<lambda>out. Inr (value # out))))))"

definition decode_plain_byte_array :: "byte list \<Rightarrow> int \<Rightarrow> (byte list list) pq" where
  "decode_plain_byte_array data count =
     panic_if (\<not> make_ok 24 count) (plain_byte_array_loop (nat count) data)"

definition decode_plain_int32 :: "byte list \<Rightarrow> int \<Rightarrow> (int list) pq" where
  "decode_plain_int32 data count =
     fail_if (int (length data) < i64 (count * 4)) ErrBadEncoding
       (panic_if (\<not> make_ok 4 count)
         (Inr (map (\<lambda>index. i32 (int (le_nat (take 4 (drop (index * 4) data))))) [0..<nat count])))"

definition decode_plain_int64 :: "byte list \<Rightarrow> int \<Rightarrow> (int list) pq" where
  "decode_plain_int64 data count =
     fail_if (int (length data) < i64 (count * 8)) ErrBadEncoding
       (panic_if (\<not> make_ok 8 count)
         (Inr (map (\<lambda>index. i64 (int (le_nat (take 8 (drop (index * 8) data))))) [0..<nat count])))"

function dict_width_loop :: "nat \<Rightarrow> nat \<Rightarrow> nat" where
  "dict_width_loop dict_size width = (if 2 ^ width < dict_size then dict_width_loop dict_size (width + 1) else width)"
  by pat_completeness auto
termination
proof (relation "measure (\<lambda>(dict_size, width). dict_size - width)")
  fix dict_size width :: nat
  assume "2 ^ width < dict_size"
  then have "width < dict_size" using less_exp [of width] by linarith
  then show "((dict_size, width + 1), dict_size, width) \<in> measure (\<lambda>(dict_size, width). dict_size - width)"
    by simp
qed simp

declare dict_width_loop.simps [simp del]

definition compute_dict_bit_width :: "nat \<Rightarrow> nat" where
  "compute_dict_bit_width dict_size = (if dict_size \<le> 1 then 1 else dict_width_loop dict_size 0)"

fun read_bits_loop :: "byte list \<Rightarrow> nat \<Rightarrow> nat \<Rightarrow> nat \<Rightarrow> u64 \<Rightarrow> u64 pq" where
  "read_bits_loop buffer bit_offset 0 bit_index value = Inr value"
| "read_bits_loop buffer bit_offset (Suc n) bit_index value =
     (let b = bit_offset + bit_index in
      panic_if (length buffer \<le> b div 8)
        (read_bits_loop buffer bit_offset n (bit_index + 1)
          (if (drop_bit (b mod 8) (buffer ! (b div 8))) AND 1 = 1
           then value OR push_bit bit_index 1 else value)))"

definition read_bits_le :: "byte list \<Rightarrow> nat \<Rightarrow> nat \<Rightarrow> u64 pq" where
  "read_bits_le buffer bit_offset bit_width = read_bits_loop buffer bit_offset bit_width 0 0"

text \<open>Values of one group of eight, while fewer than \<open>count\<close> are out.\<close>

fun group_loop :: "byte list \<Rightarrow> nat \<Rightarrow> nat \<Rightarrow> nat \<Rightarrow> nat \<Rightarrow> int list \<Rightarrow> (int list) pq" where
  "group_loop bytes bit_width count 0 value_index out = Inr out"
| "group_loop bytes bit_width count (Suc n) value_index out =
     (if length out < count then
        obind (read_bits_le bytes (value_index * bit_width) bit_width) (\<lambda>v.
          group_loop bytes bit_width count n (value_index + 1) (out @ [sint (ucast v :: u32)]))
      else Inr out)"

fun bit_packed_run ::
  "byte list \<Rightarrow> nat \<Rightarrow> nat \<Rightarrow> nat \<Rightarrow> nat \<Rightarrow> int list \<Rightarrow> (int list) pq" where
  "bit_packed_run data bit_width count 0 grp out = Inr out"
| "bit_packed_run data bit_width count (Suc n) grp out =
     obind (go_slice data (int (grp * bit_width)) (int ((grp + 1) * bit_width))) (\<lambda>bytes.
       obind (group_loop bytes bit_width count 8 0 out) (\<lambda>out.
         bit_packed_run data bit_width count n (grp + 1) out))"

text \<open>The repeated value of an RLE run, sign-extended from \<open>bitWidth\<close> bits.\<close>

fun rle_value_loop :: "byte list \<Rightarrow> nat \<Rightarrow> u32 \<Rightarrow> u32" where
  "rle_value_loop [] i value = value"
| "rle_value_loop (b # bs) i value = rle_value_loop bs (i + 1) (value OR push_bit (8 * i) (ucast b))"

definition rle_value :: "byte list \<Rightarrow> nat \<Rightarrow> int pq" where
  "rle_value bytes bit_width =
     (let value = rle_value_loop bytes 0 0 in
      if bit_width < 32 then
        panic_if (bit_width < 1)
          (Inr (sint (if value AND push_bit (bit_width - 1) 1 \<noteq> 0
                      then value OR NOT (push_bit bit_width 1 - 1) else value)))
      else Inr (sint value))"

text \<open>
  The loop over runs. Its fuel is one unit a run; a run takes at least one byte, so a unit for each
  byte and one more is enough (\<open>rle_loop_returns\<close>).
\<close>

fun rle_loop :: "nat \<Rightarrow> byte list \<Rightarrow> nat \<Rightarrow> nat \<Rightarrow> int list \<Rightarrow> (int list) pq" where
  "rle_loop 0 data bit_width count out = Inl NoFuel"
| "rle_loop (Suc fuel) data bit_width count out =
     (if length out < count then
        obind (uvarint data) (\<lambda>(header, consumed).
          let data = drop consumed data;
              num_values = sint (drop_bit 1 header);
              byte_width = (bit_width + 7) div 8
          in fail_if (num_values \<le> 0) ErrBadEncoding
            (if header AND 1 = 1 then
               fail_if (int (length data) < i64 (num_values * int bit_width)) ErrBadEncoding
                 (obind (bit_packed_run data bit_width count (nat num_values) 0 out) (\<lambda>out.
                    obind (go_slice data (i64 (num_values * int bit_width)) (int (length data))) (\<lambda>data.
                      rle_loop fuel data bit_width count out)))
             else
               fail_if (length data < byte_width) ErrBadEncoding
                 (obind (rle_value (take byte_width data) bit_width) (\<lambda>value.
                    rle_loop fuel (drop byte_width data) bit_width count
                      (out @ replicate (min (nat num_values) (count - length out)) value)))))
      else Inr (take count out))"

definition decode_rle_bit_packed :: "byte list \<Rightarrow> nat \<Rightarrow> int \<Rightarrow> (int list) pq" where
  "decode_rle_bit_packed data bit_width count =
     fail_if (length data < 4) ErrBadEncoding
       (panic_if (\<not> make_ok 4 count)
         (rle_loop (Suc (length data)) (drop 4 data) bit_width (nat count) []))"

section \<open>Bits of a little-endian buffer\<close>

lemma uvarint_loop_consumed:
  "uvarint_loop index value shift bs = Inr (v, consumed) \<Longrightarrow> index < consumed \<and> consumed \<le> index + length bs"
  by (induction index "value" shift bs rule: uvarint_loop.induct)
    (fastforce simp: outcome_Inr split: if_splits)+

lemma uvarint_consumed:
  "uvarint bs = Inr (v, consumed) \<Longrightarrow> 0 < consumed \<and> consumed \<le> length bs"
  using uvarint_loop_consumed [of 0 0 0 bs v consumed] by (simp add: uvarint_def)

lemma returns_uvarint_loop [simp]: "returns (uvarint_loop index value shift bs)"
  by (induction index "value" shift bs rule: uvarint_loop.induct) (auto simp: fail_if_def)

lemma returns_uvarint [simp]: "returns (uvarint bs)"
  by (simp add: uvarint_def)

lemma returns_go_slice [simp]: "returns (go_slice xs lo hi)"
  by (simp add: go_slice_def)

lemma bit_le_nat: "bit (le_nat bs) n \<longleftrightarrow> n div 8 < length bs \<and> bit (bs ! (n div 8)) (n mod 8)"
proof (induction bs arbitrary: n)
  case (Cons b bs)
  have "le_nat (b # bs) = push_bit 8 (le_nat bs) OR unat b"
    by (simp add: or_push_bit_nat)
  then have "bit (le_nat (b # bs)) n \<longleftrightarrow> 8 \<le> n \<and> bit (le_nat bs) (n - 8) \<or> bit (unat b) n"
    by (simp only: bit_simps) auto
  moreover have "bit (unat b) n \<longleftrightarrow> n < 8 \<and> bit b n"
    using bit_imp_le_length [of b n] by (auto simp: bit_unsigned_iff)
  ultimately show ?case
  proof (cases "n < 8")
    case False
    obtain m where "n = 8 + m" using False by (metis le_Suc_ex not_less)
    then have "n div 8 = Suc (m div 8)" "n mod 8 = m mod 8" "8 \<le> n" "n - 8 = m"
      by simp_all
    with Cons.IH [of m] \<open>bit (le_nat (b # bs)) n \<longleftrightarrow> _\<close> \<open>bit (unat b) n \<longleftrightarrow> _\<close>
    show ?thesis by (simp del: le_nat.simps)
  qed simp
qed simp

lemma byte_test_bit: "drop_bit k x AND 1 = 1 \<longleftrightarrow> bit x k" for x :: byte
  by (simp add: and_one_eq bit_iff_odd_drop_bit odd_iff_mod_2_eq_one)

lemma read_bits_loop_eq:
  assumes "bit_offset + bit_index + n \<le> 8 * length buffer" "bit_index + n \<le> 64"
  shows "read_bits_loop buffer bit_offset n bit_index
      (word_of_nat (take_bit bit_index (drop_bit bit_offset (le_nat buffer)))) =
    Inr (word_of_nat (take_bit (bit_index + n) (drop_bit bit_offset (le_nat buffer))))"
  using assms
proof (induction n arbitrary: bit_index)
  case (Suc n)
  let ?L = "drop_bit bit_offset (le_nat buffer)"
  let ?b = "bit_offset + bit_index"
  have range: "?b div 8 < length buffer"
    using Suc.prems by linarith
  have test: "drop_bit (?b mod 8) (buffer ! (?b div 8)) AND 1 = 1 \<longleftrightarrow> bit ?L bit_index"
    using range by (simp add: byte_test_bit bit_drop_bit_eq bit_le_nat)
  have "(if bit ?L bit_index then word_of_nat (take_bit bit_index ?L) OR push_bit bit_index 1
      else word_of_nat (take_bit bit_index ?L)) = (word_of_nat (take_bit (bit_index + 1) ?L) :: u64)"
    using Suc.prems(2)
    by (intro bit_word_eqI) (auto simp: bit_simps less_Suc_eq)
  then have "read_bits_loop buffer bit_offset (Suc n) bit_index (word_of_nat (take_bit bit_index ?L)) =
      read_bits_loop buffer bit_offset n (bit_index + 1) (word_of_nat (take_bit (bit_index + 1) ?L))"
    using range by (simp only: read_bits_loop.simps Let_def test panic_if_def not_le [symmetric] if_False)
  with Suc show ?case by simp
qed simp

lemma read_bits_le_eq:
  assumes "bit_offset + bit_width \<le> 8 * length buffer" "bit_width \<le> 64"
  shows "read_bits_le buffer bit_offset bit_width =
    Inr (word_of_nat (le_nat buffer div 2 ^ bit_offset mod 2 ^ bit_width))"
  using read_bits_loop_eq [of bit_offset 0 bit_width buffer] assms
  by (simp add: read_bits_le_def take_bit_eq_mod drop_bit_eq_div)

section \<open>The hybrid encoding as a stream of runs\<close>

text \<open>
  A run is a list of groups of eight values packed into \<open>w\<close> bits each, or one value repeated. The
  values are what the format encodes; \<open>signed_of w\<close> is what the decoder makes of a repeated one.
\<close>

datatype hybrid_run = Packed "nat list list" | Repeat nat nat

fun pack_bits :: "nat \<Rightarrow> nat list \<Rightarrow> nat" where
  "pack_bits w [] = 0"
| "pack_bits w (v # vs) = v + 2 ^ w * pack_bits w vs"

definition signed_of :: "nat \<Rightarrow> nat \<Rightarrow> int" where
  "signed_of w v = (if v < 2 ^ (w - 1) then int v else int v - 2 ^ w)"

fun run_code :: "nat \<Rightarrow> hybrid_run \<Rightarrow> byte list" where
  "run_code w (Packed gs) =
     uvarint_enc (2 * length gs + 1) @ concat (map (\<lambda>vs. nat_le w (pack_bits w vs)) gs)"
| "run_code w (Repeat n v) = uvarint_enc (2 * n) @ nat_le ((w + 7) div 8) v"

fun run_values :: "nat \<Rightarrow> hybrid_run \<Rightarrow> int list" where
  "run_values w (Packed gs) = map int (concat gs)"
| "run_values w (Repeat n v) = replicate n (signed_of w v)"

fun run_ok :: "nat \<Rightarrow> hybrid_run \<Rightarrow> bool" where
  "run_ok w (Packed gs) \<longleftrightarrow> 0 < length gs \<and> length gs < 2 ^ 58 \<and>
     (\<forall>vs \<in> set gs. length vs = 8 \<and> (\<forall>v \<in> set vs. v < 2 ^ w))"
| "run_ok w (Repeat n v) \<longleftrightarrow> 0 < n \<and> n < 2 ^ 63 \<and> v < 2 ^ w"

lemma pack_bits_less: "\<forall>v \<in> set vs. v < 2 ^ w \<Longrightarrow> pack_bits w vs < 2 ^ (w * length vs)"
proof (induction vs)
  case (Cons v vs)
  then have "v + 1 \<le> 2 ^ w" "pack_bits w vs + 1 \<le> 2 ^ (w * length vs)"
    by simp_all
  then have "2 ^ w * (pack_bits w vs + 1) \<le> (2 ^ w * 2 ^ (w * length vs) :: nat)"
    by (intro mult_le_mono2)
  with \<open>v + 1 \<le> 2 ^ w\<close> show ?case by (simp add: power_add)
qed simp

lemma pack_bits_nth:
  "\<forall>v \<in> set vs. v < 2 ^ w \<Longrightarrow> i < length vs \<Longrightarrow> pack_bits w vs div 2 ^ (i * w) mod 2 ^ w = vs ! i"
proof (induction vs arbitrary: i)
  case (Cons v vs)
  show ?case
  proof (cases i)
    case 0
    with Cons.prems show ?thesis by simp
  next
    case (Suc j)
    have "pack_bits w (v # vs) div 2 ^ (i * w) = pack_bits w (v # vs) div 2 ^ w div 2 ^ (j * w)"
      by (simp add: Suc power_add div_mult2_eq)
    also have "pack_bits w (v # vs) div 2 ^ w = pack_bits w vs"
      using Cons.prems(1) by simp
    finally show ?thesis using Cons Suc by simp
  qed
qed simp

lemma sint_ucast_small:
  "n < 2 ^ 31 \<Longrightarrow> sint (ucast (word_of_nat n :: u64) :: u32) = int n"
  by (simp add: sint_uint unsigned_ucast_eq uint_nat unat_of_nat take_bit_nat_eq_self
      signed_take_bit_int_eq_self)

lemma group_loop_values:
  assumes "length vs = 8" "\<forall>v \<in> set vs. v < 2 ^ w" "w \<le> 31" "i + n = 8"
  shows "group_loop (nat_le w (pack_bits w vs)) w count n i out =
    Inr (out @ take (count - length out) (map int (drop i vs)))"
  using assms(4)
proof (induction n arbitrary: i out)
  case (Suc n)
  have "pack_bits w vs < 256 ^ w"
    using pack_bits_less [OF assms(2)] assms(1) power_mult [of "2::nat" 8 w] by (simp add: mult.commute)
  then have "le_nat (nat_le w (pack_bits w vs)) = pack_bits w vs"
    by (rule le_nat_nat_le_id)
  moreover have "i * w + w \<le> 8 * w"
    using Suc.prems mult_le_mono1 [of "i + 1" 8 w] by simp
  moreover have v: "vs ! i < 2 ^ w" "i < length vs"
    using assms(1,2) Suc.prems by simp_all
  ultimately have "read_bits_le (nat_le w (pack_bits w vs)) (i * w) w = Inr (word_of_nat (vs ! i))"
    using assms(2,3) by (simp add: read_bits_le_eq pack_bits_nth)
  moreover have "vs ! i < 2 ^ 31"
    using v(1) power_increasing [OF assms(3), of "2::nat"] by linarith
  moreover have "drop i vs = vs ! i # drop (i + 1) vs"
    using v(2) by (simp add: Cons_nth_drop_Suc)
  ultimately show ?case
  proof (cases "length out < count")
    case True
    then obtain k where "count = length out + Suc k"
      using less_imp_Suc_add by fastforce
    with Suc \<open>read_bits_le _ _ _ = _\<close> \<open>vs ! i < 2 ^ 31\<close> \<open>drop i vs = _\<close> show ?thesis
      by (simp add: sint_ucast_small)
  qed simp
qed (use assms(1) in simp)

lemma bit_packed_run_values:
  assumes "\<forall>vs \<in> set (pre @ gs). length vs = 8 \<and> (\<forall>v \<in> set vs. v < 2 ^ w)" "w \<le> 31"
  shows "bit_packed_run (concat (map (\<lambda>vs. nat_le w (pack_bits w vs)) (pre @ gs)) @ rest)
      w count (length gs) (length pre) out =
    Inr (out @ take (count - length out) (map int (concat gs)))"
  using assms(1)
proof (induction gs arbitrary: pre out)
  case (Cons vs gs)
  let ?code = "\<lambda>vs. nat_le w (pack_bits w vs)"
  define data where "data = concat (map ?code (pre @ vs # gs)) @ rest"
  define out' where "out' = out @ take (count - length out) (map int vs)"
  have pre: "length (concat (map ?code pre)) = length pre * w"
    by (induction pre) simp_all
  then have "(go_slice data (int (length pre * w)) (int ((length pre + 1) * w)) :: byte list pq) = Inr (?code vs)"
    by (simp add: go_slice_def data_def flip: of_nat_mult of_nat_add of_nat_Suc)
  moreover have "group_loop (?code vs) w count 8 0 out = Inr out'"
    using Cons.prems assms(2) group_loop_values [of vs w 0 8 count out] by (simp add: out'_def)
  ultimately have "bit_packed_run data w count (length (vs # gs)) (length pre) out =
      bit_packed_run data w count (length gs) (length (pre @ [vs])) out'"
    by simp
  also have "\<dots> = Inr (out' @ take (count - length out') (map int (concat gs)))"
    using Cons.IH [of "pre @ [vs]" out'] Cons.prems by (simp add: data_def)
  also have "out' @ take (count - length out') (map int (concat gs)) =
      out @ take (count - length out) (map int (concat (vs # gs)))"
    by (cases "length vs \<le> count - length out") (simp_all add: out'_def)
  finally show ?case by (simp only: data_def)
qed simp

lemma rle_value_loop_le:
  "m < 2 ^ (8 * i) \<Longrightarrow> rle_value_loop bs i (word_of_nat m) = word_of_nat (m + le_nat bs * 2 ^ (8 * i))"
proof (induction bs arbitrary: i m)
  case (Cons b bs)
  let ?m = "m + unat b * 2 ^ (8 * i)"
  have "(ucast b :: u32) = word_of_nat (unat b)"
    by simp
  then have or: "word_of_nat m OR push_bit (8 * i) (ucast b) = (word_of_nat ?m :: u32)"
    using Cons.prems by (simp only: or_push_bit_of_nat)
  have "?m + 1 \<le> 2 ^ (8 * i) + unat b * 2 ^ (8 * i)"
    using Cons.prems by simp
  also have "\<dots> = (unat b + 1) * 2 ^ (8 * i)"
    by simp
  also have "\<dots> \<le> 256 * 2 ^ (8 * i)"
    using unat_byte_le [of b] by (intro mult_le_mono1) simp
  finally have "?m < 2 ^ (8 * (i + 1))"
    by (simp add: power_add)
  from Cons.IH [OF this] show ?case
    by (simp only: rle_value_loop.simps or) (simp add: algebra_simps power_add)
qed simp

lemma rle_value_signed:
  assumes "1 \<le> w" "w \<le> 31" "v < 2 ^ w"
  shows "rle_value (nat_le ((w + 7) div 8) v) w = Inr (signed_of w v)"
proof -
  have v31: "v < 2 ^ 31"
    using assms(3) power_increasing [OF assms(2), of "2::nat"] by linarith
  have "(2::nat) ^ w \<le> 2 ^ (8 * ((w + 7) div 8))"
    by (rule power_increasing) linarith+
  then have "v < 256 ^ ((w + 7) div 8)"
    using assms(3) power_mult [of "2::nat" 8 "(w + 7) div 8"] by simp
  then have val: "rle_value_loop (nat_le ((w + 7) div 8) v) 0 0 = word_of_nat v"
    using rle_value_loop_le [of 0 0 "nat_le ((w + 7) div 8) v"] by (simp add: le_nat_nat_le_id)
  have tb: "take_bit w v = v"
    using assms(3) by (simp add: take_bit_nat_eq_self)
  have sign: "(word_of_nat v :: u32) AND push_bit (w - 1) 1 \<noteq> 0 \<longleftrightarrow> \<not> v < 2 ^ (w - 1)"
  proof -
    have "v div 2 ^ (w - 1) < 2"
      using assms(1,3) by (simp add: less_mult_imp_div_less flip: power_Suc)
    then have "odd (v div 2 ^ (w - 1)) \<longleftrightarrow> \<not> v < 2 ^ (w - 1)"
      by (auto simp: less_2_cases_iff div_eq_0_iff)
    moreover have "bit (word_of_nat v :: u32) (w - 1) \<longleftrightarrow> bit v (w - 1)"
      using assms(2) by (auto simp: bit_simps)
    moreover have "bit v (w - 1) \<longleftrightarrow> odd (v div 2 ^ (w - 1))"
      by (rule bit_iff_odd)
    ultimately show ?thesis
      using bit_iff_and_push_bit_not_eq_0 [of "word_of_nat v :: u32" "w - 1"] by simp
  qed
  have ext: "sint (word_of_nat v OR NOT (push_bit w 1 - 1) :: u32) = int v - 2 ^ w"
  proof -
    have mask: "(push_bit w 1 - 1 :: u32) = mask w"
      by (simp add: mask_eq_exp_minus_1 push_bit_eq_mult)
    have "i < w" if "bit v i" for i
      using that tb by (metis bit_take_bit_iff)
    then have "word_of_nat v OR NOT (mask w) = word_of_nat v + (NOT (mask w) :: u32)"
      by (intro disjunctive_add [symmetric]) (auto simp: bit_simps)
    also have "\<dots> = word_of_int (int v - 2 ^ w)"
      by (simp flip: minus_exp_eq_not_mask)
    finally have eq: "(word_of_nat v OR NOT (mask w) :: u32) = word_of_int (int v - 2 ^ w)" .
    have "sint (word_of_nat v OR NOT (mask w) :: u32) = signed_take_bit 31 (int v - 2 ^ w)"
      unfolding eq by (simp only: sint_sbintrunc') simp
    moreover have "(2::int) ^ w \<le> 2 ^ 31"
      using assms(2) by (intro power_increasing) simp_all
    moreover have "int v < 2 ^ w"
      using assms(3) by (metis of_nat_less_iff of_nat_numeral of_nat_power)
    ultimately have "sint (word_of_nat v OR NOT (mask w) :: u32) = int v - 2 ^ w"
      using signed_take_bit_int_eq_self [of 31 "int v - 2 ^ w"] by linarith
    then show ?thesis
      by (simp only: mask)
  qed
  have "sint (word_of_nat v :: u32) = int v"
    using v31 by (simp add: sint_uint uint_nat unat_of_nat take_bit_nat_eq_self signed_take_bit_int_eq_self)
  then show ?thesis
    using assms(1,2) unfolding rle_value_def val Let_def sign ext signed_of_def
    by (cases "v < 2 ^ (w - 1)") (simp_all only: if_True if_False not_True_eq_False not_False_eq_True ext
      panic_if_def, simp_all)
qed

text \<open>One round of the loop on one coded run appends the run's values, up to \<open>count\<close>.\<close>

lemma i64_small: "0 \<le> x \<Longrightarrow> x < 2 ^ 63 \<Longrightarrow> i64 x = x"
  by (rule i64_id) simp_all

lemma sint_of_nat_small: "n < 2 ^ 63 \<Longrightarrow> sint (word_of_nat n :: u64) = int n"
  by (simp add: sint_uint_cases uint_nat unat_of_nat take_bit_nat_eq_self)

lemma header_fields:
  assumes "n < 2 ^ 63" "b < 2"
  shows "sint (drop_bit 1 (word_of_nat (2 * n + b) :: u64)) = int n"
    and "(word_of_nat (2 * n + b) :: u64) AND 1 = 1 \<longleftrightarrow> b = 1"
proof -
  have u: "unat (word_of_nat (2 * n + b) :: u64) = 2 * n + b"
    using assms by (simp add: unat_of_nat take_bit_nat_eq_self del: of_nat_add of_nat_mult)
  have "unat (drop_bit 1 (word_of_nat (2 * n + b) :: u64)) = (2 * n + b) div 2"
    by (simp add: drop_bit_eq_div unat_div u del: of_nat_add of_nat_mult)
  also have "\<dots> = n"
    using assms(2) by linarith
  finally have "drop_bit 1 (word_of_nat (2 * n + b) :: u64) = word_of_nat n"
    using assms(1) by (simp add: word_unat_eq_iff unat_of_nat take_bit_nat_eq_self del: of_nat_add of_nat_mult)
  with assms(1) show "sint (drop_bit 1 (word_of_nat (2 * n + b) :: u64)) = int n"
    by (simp only: sint_of_nat_small)
  have "unat ((word_of_nat (2 * n + b) :: u64) AND 1) = (2 * n + b) mod 2"
    by (simp add: and_one_eq unat_mod u del: of_nat_add of_nat_mult)
  also have "\<dots> = b"
    using assms(2) by presburger
  finally show "(word_of_nat (2 * n + b) :: u64) AND 1 = 1 \<longleftrightarrow> b = 1"
    by (simp add: word_unat_eq_iff del: of_nat_add of_nat_mult)
qed

lemma rle_loop_run:
  assumes "1 \<le> w" "w \<le> 31" "run_ok w r" "length out < count"
  shows "rle_loop (Suc fuel) (run_code w r @ rest) w count out =
    rle_loop fuel rest w count (out @ take (count - length out) (run_values w r))"
proof (cases r)
  case (Packed gs)
  let ?n = "length gs"
  have n: "0 < ?n" "?n < 2 ^ 58" using assms(3) Packed by simp_all
  have "?n * w \<le> ?n * 31"
    using assms(2) by (rule mult_le_mono2)
  also have "\<dots> < 2 ^ 63"
    using n(2) by simp
  finally have "?n * w < 2 ^ 63" .
  then have wrap: "i64 (int ?n * int w) = int (?n * w)"
    by (subst i64_small) (simp_all flip: of_nat_mult)
  have len: "length (concat (map (\<lambda>vs. nat_le w (pack_bits w vs)) gs)) = ?n * w"
    by (induction gs) simp_all
  have run: "bit_packed_run (concat (map (\<lambda>vs. nat_le w (pack_bits w vs)) gs) @ rest) w count ?n 0 out =
      Inr (out @ take (count - length out) (run_values w r))"
    using bit_packed_run_values [of "[]" gs w rest count out] assms(2,3) Packed by simp
  have u: "uvarint (uvarint_enc (2 * ?n + 1) @ bs) =
      Inr (word_of_nat (2 * ?n + 1), length (uvarint_enc (2 * ?n + 1)))" for bs
    using n by (intro uvarint_enc_roundtrip) simp
  have h: "sint (drop_bit 1 (word_of_nat (2 * ?n + 1) :: u64)) = int ?n"
    "(word_of_nat (2 * ?n + 1) :: u64) AND 1 = 1"
    using header_fields [of ?n 1] n by simp_all
  have sl: "(go_slice (concat (map (\<lambda>vs. nat_le w (pack_bits w vs)) gs) @ rest)
      (int (?n * w)) (int (?n * w + length rest)) :: byte list pq) = Inr rest"
    using len by (simp add: go_slice_def flip: of_nat_mult of_nat_add)
  show ?thesis
    using assms(4) n(1)
    by (simp only: Packed run_code.simps append_assoc rle_loop.simps if_True u obind_simps prod.case
        append_eq_conv_conj drop_append Let_def h)
      (simp add: len wrap run [unfolded Packed] sl [simplified] Packed)
next
  case (Repeat n v)
  let ?k = "(w + 7) div 8"
  have n: "0 < n" "n < 2 ^ 63" "v < 2 ^ w" using assms(3) Repeat by simp_all
  have u: "uvarint (uvarint_enc (2 * n) @ bs) =
      Inr (word_of_nat (2 * n), length (uvarint_enc (2 * n)))" for bs
    using n by (intro uvarint_enc_roundtrip) simp
  have h: "sint (drop_bit 1 (word_of_nat (2 * n) :: u64)) = int n"
    "(word_of_nat (2 * n) :: u64) AND 1 \<noteq> 1"
    using header_fields [of n 0] n by simp_all
  have val: "rle_value (nat_le ?k v) w = Inr (signed_of w v)"
    using assms(1,2) n(3) by (rule rle_value_signed)
  have rep: "replicate (min n (count - length out)) x = take (count - length out) (replicate n x)" for x :: int
    by (simp add: min.commute)
  show ?thesis
    using assms(4) n(1)
    by (simp only: Repeat run_code.simps append_assoc rle_loop.simps if_True u obind_simps prod.case
        append_eq_conv_conj drop_append Let_def h if_False)
      (simp add: val rep)
qed

lemma rle_loop_runs:
  assumes "1 \<le> w" "w \<le> 31"
  shows "\<forall>r \<in> set runs. run_ok w r \<Longrightarrow> length out \<le> count \<Longrightarrow> length runs < fuel \<Longrightarrow>
    count \<le> length out + length (concat (map (run_values w) runs)) \<Longrightarrow>
    rle_loop fuel (concat (map (run_code w) runs) @ rest) w count out =
      Inr (take count (out @ concat (map (run_values w) runs)))"
proof (induction runs arbitrary: out fuel)
  case Nil
  then obtain f where "fuel = Suc f" by (cases fuel) simp_all
  with Nil show ?case by simp
next
  case (Cons r runs)
  then obtain f where fuel: "fuel = Suc f" "length runs < f" by (cases fuel) simp_all
  show ?case
  proof (cases "length out < count")
    case True
    define out' where "out' = out @ take (count - length out) (run_values w r)"
    have out': "length out' = min count (length out + length (run_values w r))"
      using True by (simp add: out'_def)
    have "rle_loop fuel (concat (map (run_code w) (r # runs)) @ rest) w count out =
        rle_loop f (concat (map (run_code w) runs) @ rest) w count out'"
      using rle_loop_run [OF assms, of r out count f] Cons.prems(1) True
      by (simp add: fuel out'_def del: rle_loop.simps)
    also have "\<dots> = Inr (take count (out' @ concat (map (run_values w) runs)))"
      using Cons.prems fuel out' by (intro Cons.IH) simp_all
    also have "take count (out' @ concat (map (run_values w) runs)) =
        take count (out @ concat (map (run_values w) (r # runs)))"
      using True by (simp add: out'_def out' min_def)
    finally show ?thesis .
  next
    case False
    with Cons.prems show ?thesis by (simp add: fuel)
  qed
qed

lemma run_code_nonempty: "0 < length (run_code w r)"
proof -
  have "uvarint_enc n \<noteq> []" for n by (subst uvarint_enc.simps) simp
  then show ?thesis by (cases r) simp_all
qed

lemma runs_le_code: "length runs \<le> length (concat (map (run_code w) runs))"
proof (induction runs)
  case (Cons r runs)
  with run_code_nonempty [of w r] show ?case by (simp del: length_greater_0_conv)
qed simp

declare rle_loop.simps [simp del]

section \<open>The decoders always return, with the number of values asked for\<close>

lemma read_bits_loop_returns [simp]: "returns (read_bits_loop buffer o' n i value)"
  by (induction buffer o' n i "value" rule: read_bits_loop.induct)
    (simp_all add: Let_def panic_if_def)

lemma group_loop_returns [simp]: "returns (group_loop bs w count n i out)"
  by (induction bs w count n i out rule: group_loop.induct)
    (auto intro!: returns_intros simp: read_bits_le_def)

lemma bit_packed_run_returns [simp]: "returns (bit_packed_run data w count n g out)"
  by (induction data w count n g out rule: bit_packed_run.induct)
    (auto intro!: returns_intros)

lemma rle_value_returns [simp]: "returns (rle_value bs w)"
  by (simp add: rle_value_def Let_def panic_if_def)

lemma go_slice_length: "go_slice xs lo hi = Inr ys \<Longrightarrow> length ys \<le> length xs"
  by (auto simp: go_slice_def split: if_splits)

lemma rle_loop_returns: "length data < fuel \<Longrightarrow> returns (rle_loop fuel data w count out)"
proof (induction fuel arbitrary: data out)
  case (Suc fuel)
  show ?case
    unfolding rle_loop.simps
  proof (intro returns_intros returns_uvarint bit_packed_run_returns returns_go_slice
      rle_value_returns returns_simps; hypsubst_thin?)
    fix h c data' and lo hi :: int
    assume "uvarint data = Inr (h, c)"
    then have short: "length (drop c data) < fuel"
      using uvarint_consumed Suc.prems by fastforce
    then show "returns (rle_loop fuel (drop k (drop c data)) w count out')" for k out'
      by (intro Suc.IH) simp
    assume "go_slice (drop c data) lo hi = (Inr data' :: byte list pq)"
    with short show "returns (rle_loop fuel data' w count out')" for out'
      by (intro Suc.IH) (auto dest: go_slice_length)
  qed
qed simp

lemma rle_loop_length:
  "rle_loop fuel data w count out = Inr xs \<Longrightarrow> length xs = count"
proof (induction fuel arbitrary: data out)
  case (Suc fuel)
  then show ?case
    by (auto simp: rle_loop.simps outcome_Inr Let_def case_prod_beta split: if_splits)
qed (simp add: rle_loop.simps)

lemma plain_byte_array_loop_length:
  "plain_byte_array_loop n data = Inr out \<Longrightarrow> length out = n"
  by (induction n data arbitrary: out rule: plain_byte_array_loop.induct)
    (auto simp: outcome_Inr Let_def)

lemma plain_byte_array_loop_returns [simp]: "returns (plain_byte_array_loop n data)"
  by (induction n data rule: plain_byte_array_loop.induct)
    (auto intro!: returns_intros)

lemma decode_plain_byte_array_length:
  "decode_plain_byte_array data count = Inr out \<Longrightarrow> int (length out) = count"
  by (auto simp: decode_plain_byte_array_def outcome_Inr make_ok_def dest: plain_byte_array_loop_length)

lemma decode_plain_int64_length:
  "decode_plain_int64 data count = Inr out \<Longrightarrow> int (length out) = count"
  by (auto simp: decode_plain_int64_def outcome_Inr make_ok_def)

lemma decode_plain_int32_length:
  "decode_plain_int32 data count = Inr out \<Longrightarrow> int (length out) = count"
  by (auto simp: decode_plain_int32_def outcome_Inr make_ok_def)

lemma decode_rle_bit_packed_length:
  "decode_rle_bit_packed data w count = Inr out \<Longrightarrow> int (length out) = count"
  by (auto simp: decode_rle_bit_packed_def outcome_Inr make_ok_def dest: rle_loop_length)

lemma decode_rle_bit_packed_returns [simp]: "returns (decode_rle_bit_packed data w count)"
  by (auto simp: decode_rle_bit_packed_def intro!: returns_intros rle_loop_returns)

section \<open>Plain byte arrays and the dictionary's bit width\<close>

definition plain_code :: "byte list \<Rightarrow> byte list" where
  "plain_code v = uvarint_enc (length v) @ v"

lemma plain_byte_array_loop_code:
  "\<forall>v \<in> set vs. length v < 2 ^ 63 \<Longrightarrow>
    plain_byte_array_loop (length vs) (concat (map plain_code vs) @ rest) = Inr vs"
proof (induction vs)
  case (Cons v vs)
  have u: "uvarint (uvarint_enc (length v) @ bs) =
      Inr (word_of_nat (length v), length (uvarint_enc (length v)))" for bs
    using Cons.prems by (intro uvarint_enc_roundtrip) simp
  have "sint (word_of_nat (length v) :: u64) = int (length v)"
    using Cons.prems by (intro sint_of_nat_small) simp
  with Cons show ?case
    by (simp add: plain_code_def u go_slice_def)
qed simp

lemma dict_width_loop_le: "dict_width_loop n w \<le> v \<longleftrightarrow> w \<le> v \<and> n \<le> 2 ^ v"
  if "w = 0 \<or> 2 ^ (w - 1) < n"
  using that
proof (induction n w rule: dict_width_loop.induct)
  case (1 n w)
  show ?case
  proof (cases "2 ^ w < n")
    case True
    have "w \<noteq> v" if "n \<le> 2 ^ v"
      using that True by auto
    with 1 True show ?thesis
      by (subst dict_width_loop.simps) auto
  next
    case False
    moreover have "n \<le> 2 ^ v" if "w \<le> v"
      using False power_increasing [OF that, of "2::nat"] by linarith
    ultimately show ?thesis
      by (subst dict_width_loop.simps) auto
  qed
qed

lemma compute_dict_bit_width_least:
  "compute_dict_bit_width n \<le> v \<longleftrightarrow> 1 \<le> v \<and> n \<le> 2 ^ v"
proof (cases "n \<le> 1")
  case True
  then have "n \<le> 2 ^ v"
    using one_le_power [of "2::nat" v] by linarith
  with True show ?thesis by (simp add: compute_dict_bit_width_def)
next
  case False
  then have "\<not> n \<le> 2 ^ 0" by simp
  then have "n \<le> 2 ^ v \<Longrightarrow> 1 \<le> v"
    by (cases v) simp_all
  with False show ?thesis
    by (auto simp: compute_dict_bit_width_def dict_width_loop_le)
qed

section \<open>Properties\<close>

text \<open>What the decoder gives for any valid runs: it reads a repeated value as signed.\<close>

lemma decode_rle_signed_runs:
  assumes "1 \<le> w" "w \<le> 31" "\<forall>r \<in> set runs. run_ok w r" "length skipped = 4" "count \<le> 2 ^ 46"
    "count \<le> length (concat (map (run_values w) runs))"
  shows "decode_rle_bit_packed (skipped @ concat (map (run_code w) runs) @ rest) w (int count) =
    Inr (take count (concat (map (run_values w) runs)))"
proof -
  have "make_ok 4 (int count)"
    using assms(5) by (simp add: make_ok_def)
  moreover have "length runs < Suc (length (skipped @ concat (map (run_code w) runs) @ rest))"
    using runs_le_code [of runs w] by simp
  ultimately show ?thesis
    using assms rle_loop_runs [OF assms(1,2,3), of "[]" count _ rest]
    by (simp add: decode_rle_bit_packed_def)
qed

text \<open>The indices that a run stands for in the format: unsigned numbers of \<open>w\<close> bits.\<close>

fun encoded_indices :: "hybrid_run \<Rightarrow> nat list" where
  "encoded_indices (Packed gs) = concat gs"
| "encoded_indices (Repeat n v) = replicate n v"

fun repeats_below :: "nat \<Rightarrow> hybrid_run \<Rightarrow> bool" where
  "repeats_below bound (Packed gs) \<longleftrightarrow> True"
| "repeats_below bound (Repeat n v) \<longleftrightarrow> v < bound"

lemma run_values_encoded: "repeats_below (2 ^ (w - 1)) r \<Longrightarrow> run_values w r = map int (encoded_indices r)"
  by (cases r) (simp_all add: signed_of_def)

text \<open>
  C20. Dictionary indices: for any sequence of valid runs of the RLE/bit-packed hybrid at a bit width from 1 to 31 in which
  no repeated index has its top bit set, after the four bytes the decoder skips and before any other bytes, the decoder gives
  the first \<open>count\<close> of the indices the runs encode, bit-packed ones in the order of their bits.
\<close>

theorem decode_rle_bit_packed_runs:
  assumes "1 \<le> w" "w \<le> 31" "\<forall>r \<in> set runs. run_ok w r \<and> repeats_below (2 ^ (w - 1)) r" "length skipped = 4" "count \<le> 2 ^ 46"
    "count \<le> length (concat (map encoded_indices runs))"
  shows "decode_rle_bit_packed (skipped @ concat (map (run_code w) runs) @ rest) w (int count) =
    Inr (map int (take count (concat (map encoded_indices runs))))"
proof -
  have "map (run_values w) runs = map (map int \<circ> encoded_indices) runs"
    using assms(3) run_values_encoded by simp
  then have indices: "concat (map (run_values w) runs) = map int (concat (map encoded_indices runs))"
    by (simp only: map_concat map_map)
  have ok: "\<forall>r \<in> set runs. run_ok w r" using assms(3) by simp
  have len: "count \<le> length (concat (map (run_values w) runs))"
    unfolding indices length_map by (rule assms(6))
  show ?thesis
    using decode_rle_signed_runs [OF assms(1,2) ok assms(4,5) len, of rest] by (simp only: indices take_map)
qed

theorem decode_rle_bit_packed_runs_witness:
  "decode_rle_bit_packed ([8, 0, 0, 0] @ concat (map (run_code 3)
      [Packed [[0, 1, 2, 3, 4, 5, 6, 7]], Repeat 3 2, Repeat 2 1]) @ [9]) 3 (int 12) =
    Inr [0, 1, 2, 3, 4, 5, 6, 7, 2, 2, 2, 1]"
proof -
  let ?runs = "[Packed [[0, 1, 2, 3, 4, 5, 6, 7]], Repeat 3 2, Repeat 2 1]"
  have "decode_rle_bit_packed ([8, 0, 0, 0] @ concat (map (run_code 3) ?runs) @ [9]) 3 (int 12) =
      Inr (map int (take 12 (concat (map encoded_indices ?runs))))"
    by (rule decode_rle_bit_packed_runs) simp_all
  also have "map int (take 12 (concat (map encoded_indices ?runs))) = [0, 1, 2, 3, 4, 5, 6, 7, 2, 2, 2, 1]"
    by code_simp
  finally show ?thesis .
qed

text \<open>
  The decoder of the hybrid terminates on every input, a truncated or corrupt one included: its
  loop over runs never outlives its fuel, one unit a byte. When it succeeds it has produced exactly
  the number of values asked for.
\<close>

theorem decode_rle_bit_packed_total:
  "returns (decode_rle_bit_packed data w count) \<and>
    (case decode_rle_bit_packed data w count of Inl e \<Rightarrow> True | Inr out \<Rightarrow> int (length out) = count)"
  by (auto dest: decode_rle_bit_packed_length split: sum.split)

text \<open>
  The bit width chosen for a dictionary is the least positive one that tells its entries apart.
\<close>

theorem compute_dict_bit_width_iff:
  "compute_dict_bit_width n \<le> v \<longleftrightarrow> 1 \<le> v \<and> n \<le> 2 ^ v"
  by (rule compute_dict_bit_width_least)

text \<open>
  Plain byte arrays: length-prefixed values (the prefix a varint) are read back in order, and
  bytes after the last one are ignored.
\<close>

theorem decode_plain_byte_array_roundtrip:
  assumes "\<forall>v \<in> set vs. length v < 2 ^ 63" "length vs \<le> 2 ^ 43"
  shows "decode_plain_byte_array (concat (map plain_code vs) @ rest) (int (length vs)) = Inr vs"
proof -
  have "make_ok 24 (int (length vs))"
    using assms(2) by (simp add: make_ok_def)
  then show ?thesis
    using plain_byte_array_loop_code [OF assms(1)] by (simp add: decode_plain_byte_array_def)
qed

theorem decode_plain_byte_array_roundtrip_witness:
  "decode_plain_byte_array (concat (map plain_code [[104, 105], [], [33]]) @ [7])
      (int (length [[104, 105], [], [33 :: byte]])) = Inr [[104, 105], [], [33]]"
  by (rule decode_plain_byte_array_roundtrip) simp_all


text \<open>
  An index of a repeated run whose top bit is set comes out negative: with a dictionary of two entries, bit width 1, a run of
  three ones is read as minus ones, where the same values bit-packed are read as ones.
\<close>

lemma rle_index_sign_extended:
  "decode_rle_bit_packed [2, 0, 0, 0, 6, 1] 1 3 = Inr [- 1, - 1, - 1]"
  "decode_rle_bit_packed [2, 0, 0, 0, 3, 7] 1 3 = Inr [1, 1, 1]"
  by code_simp+

end
