(* ===== verification/Parquet_Compact.thy ===== *)
theory Parquet_Compact
  imports Parquet_Encoding
begin

text \<open>
  src/data/parquet/compact.go: the reader of Thrift's compact protocol.

  \<open>compact_reader\<close> is the Go struct; a method is a function from the reader to its result and the
  reader after it, \<open>rbind\<close> sequences two. A method that returns an error is never followed by another
  use of the reader in the package, so an error carries no reader. \<open>parses\<close> is the contract every
  method and every parser built on them keeps; \<open>reads p bs x\<close> says that \<open>p\<close> consumes exactly the
  bytes \<open>bs\<close> and returns \<open>x\<close>, whatever follows them.
\<close>

section \<open>The code\<close>

record compact_reader =
  data :: "byte list"
  pos :: nat
  last_field_id :: int

type_synonym 'a reading = "compact_reader \<Rightarrow> ('a \<times> compact_reader) pq"

definition rbind :: "'a reading \<Rightarrow> ('a \<Rightarrow> 'b reading) \<Rightarrow> 'b reading" where
  "rbind m f r = obind (m r) (\<lambda>(x, r). f x r)"

definition rret :: "'a \<Rightarrow> 'a reading" where
  "rret x r = Inr (x, r)"

definition rfail :: "pq_error \<Rightarrow> 'a reading" where
  "rfail e r = Inl (Fail e)"

definition new_compact_reader :: "byte list \<Rightarrow> compact_reader" where
  "new_compact_reader bs = \<lparr>data = bs, pos = 0, last_field_id = 0\<rparr>"

definition read_byte :: "byte reading" where
  "read_byte r =
     fail_if (pos r \<ge> length (data r)) ErrBadCompact
       (Inr (data r ! pos r, r\<lparr>pos := pos r + 1\<rparr>))"

fun read_uvarint_loop :: "byte list \<Rightarrow> nat \<Rightarrow> u64 \<Rightarrow> nat \<Rightarrow> (u64 \<times> nat) pq" where
  "read_uvarint_loop [] p value shift = Inl (Fail ErrBadCompact)"
| "read_uvarint_loop (b # bs) p value shift =
     (if b < 0x80 then Inr (value OR push_bit shift (ucast b), p + 1)
      else read_uvarint_loop bs (p + 1) (value OR push_bit shift (ucast (b AND 0x7F))) (shift + 7))"

definition read_uvarint :: "u64 reading" where
  "read_uvarint r =
     obind (read_uvarint_loop (drop (pos r) (data r)) (pos r) 0 0) (\<lambda>(value, p). Inr (value, r\<lparr>pos := p\<rparr>))"

definition read_zigzag :: "int reading" where
  "read_zigzag = rbind read_uvarint (\<lambda>encoded. rret (sint (drop_bit 1 encoded XOR - (encoded AND 1))))"

definition read_binary :: "byte list reading" where
  "read_binary = rbind read_uvarint (\<lambda>len r.
     fail_if (sint len > int (length (data r)) - int (pos r)) ErrBadCompact
       (obind (go_slice (data r) (int (pos r)) (int (pos r) + sint len)) (\<lambda>raw.
          Inr (raw, r\<lparr>pos := pos r + nat (sint len)\<rparr>))))"

text \<open>The bits of the \<open>float64\<close>; no caller reads the value.\<close>

definition read_double :: "u64 reading" where
  "read_double r =
     fail_if (pos r + 8 > length (data r)) ErrBadCompact
       (obind (read_le 8 (drop (pos r) (data r))) (\<lambda>bits.
          Inr (word_of_nat bits, r\<lparr>pos := pos r + 8\<rparr>)))"

definition field_found :: "byte \<Rightarrow> int \<Rightarrow> (int \<times> byte) option reading" where
  "field_found typ field_id r = Inr (Some (field_id, typ), r\<lparr>last_field_id := field_id\<rparr>)"

definition read_field_header :: "(int \<times> byte) option reading" where
  "read_field_header = rbind read_byte (\<lambda>header.
     if header = 0 then rret None
     else
       let typ = header AND 0x0F; delta = unat (drop_bit 4 header)
       in if delta = 0 then
            rbind read_uvarint (\<lambda>encoded.
              field_found typ (sint ((ucast (drop_bit 1 encoded) :: 16 word) XOR - ucast (encoded AND 1))))
          else (\<lambda>r. field_found typ (last_field_id r + int delta) r))"

definition enter_struct :: "compact_reader \<Rightarrow> int \<times> compact_reader" where
  "enter_struct r = (last_field_id r, r\<lparr>last_field_id := 0\<rparr>)"

definition exit_struct :: "int \<Rightarrow> compact_reader \<Rightarrow> compact_reader" where
  "exit_struct previous r = r\<lparr>last_field_id := previous\<rparr>"

text \<open>\<open>enterStruct\<close> before and the deferred \<open>exitStruct\<close> after the body of a struct parser.\<close>

definition in_struct :: "'a reading \<Rightarrow> 'a reading" where
  "in_struct body r =
     (let (previous, r) = enter_struct r
      in obind (body r) (\<lambda>(x, r). Inr (x, exit_struct previous r)))"

text \<open>
  The \<open>for\<close> loop all struct parsers share: read a field header, stop at the stop field, let \<open>step\<close>
  handle the field. A header takes at least one byte, so a unit of fuel for each byte left and
  one more is enough (\<open>parses_read_fields\<close>).
\<close>

primrec field_loop :: "nat \<Rightarrow> (int \<Rightarrow> byte \<Rightarrow> 's \<Rightarrow> 's reading) \<Rightarrow> 's \<Rightarrow> 's reading" where
  "field_loop 0 step s = (\<lambda>r. Inl NoFuel)"
| "field_loop (Suc n) step s = rbind read_field_header (\<lambda>h.
     case h of None \<Rightarrow> rret s
     | Some (field_id, typ) \<Rightarrow> rbind (step field_id typ s) (\<lambda>s. field_loop n step s))"

definition remaining :: "compact_reader \<Rightarrow> nat" where
  "remaining r = length (data r) - pos r"

definition read_fields :: "(int \<Rightarrow> byte \<Rightarrow> 's \<Rightarrow> 's reading) \<Rightarrow> 's \<Rightarrow> 's reading" where
  "read_fields step s r = field_loop (Suc (remaining r)) step s r"

text \<open>The counted loops over list and map elements.\<close>

primrec repeat_read :: "nat \<Rightarrow> 'a reading \<Rightarrow> 'a list reading" where
  "repeat_read 0 p = rret []"
| "repeat_read (Suc n) p = rbind p (\<lambda>x. rbind (repeat_read n p) (\<lambda>xs. rret (x # xs)))"

definition discard :: "'a reading \<Rightarrow> unit reading" where
  "discard p = rbind p (\<lambda>_. rret ())"

definition read_list_header :: "(int \<times> byte) reading" where
  "read_list_header = rbind read_byte (\<lambda>header.
     let len = unat (drop_bit 4 header); elem_type = header AND 0x0F
     in if len = 15 then rbind read_uvarint (\<lambda>encoded. rret (sint encoded, elem_type))
        else rret (int len, elem_type))"

definition skip_list :: "(byte \<Rightarrow> unit reading) \<Rightarrow> unit reading" where
  "skip_list skip = rbind read_list_header (\<lambda>(len, elem_type).
     discard (repeat_read (nat len) (skip elem_type)))"

definition skip_struct :: "(byte \<Rightarrow> unit reading) \<Rightarrow> unit reading" where
  "skip_struct skip = in_struct (read_fields (\<lambda>field_id typ s. skip typ) ())"

definition skip_map :: "(byte \<Rightarrow> unit reading) \<Rightarrow> unit reading" where
  "skip_map skip = rbind read_uvarint (\<lambda>len.
     if len = 0 then rret ()
     else rbind read_byte (\<lambda>types.
       discard (repeat_read (nat (sint len))
         (rbind (skip (drop_bit 4 types)) (\<lambda>_. skip (types AND 0x0F))))))"

text \<open>
  \<open>skipValue\<close>, with the nesting depth as fuel: a container takes at least one byte before its
  elements, so a unit for each byte left and one more is enough (\<open>parses_skip\<close>).
\<close>

primrec skip_value :: "nat \<Rightarrow> byte \<Rightarrow> unit reading" where
  "skip_value 0 = (\<lambda>typ r. Inl NoFuel)"
| "skip_value (Suc depth) = (\<lambda>typ.
     if typ = 1 \<or> typ = 2 then rret ()
     else if typ = 3 then discard read_byte
     else if typ = 4 \<or> typ = 5 \<or> typ = 6 then discard read_uvarint
     else if typ = 7 then discard read_double
     else if typ = 8 then discard read_binary
     else if typ = 9 \<or> typ = 10 then skip_list (skip_value depth)
     else if typ = 12 then skip_struct (skip_value depth)
     else if typ = 11 then skip_map (skip_value depth)
     else rfail ErrBadCompact)"

definition skip :: "byte \<Rightarrow> unit reading" where
  "skip typ r = skip_value (Suc (remaining r)) typ r"

section \<open>The contract of a parser\<close>

text \<open>
  On a reader whose position is within its data, a parser returns (its loops never run out of
  fuel), keeps the data, and never moves the position back or past the end. \<open>parses_below n\<close> asks it
  only where fewer than \<open>n\<close> bytes are left; \<open>consumes\<close> that a success takes at least one byte.
\<close>

definition wf_reader :: "compact_reader \<Rightarrow> bool" where
  "wf_reader r \<longleftrightarrow> pos r \<le> length (data r)"

definition advances :: "compact_reader \<Rightarrow> compact_reader \<Rightarrow> bool" where
  "advances r r' \<longleftrightarrow> data r' = data r \<and> pos r \<le> pos r' \<and> pos r' \<le> length (data r)"

definition onwards :: "'a reading \<Rightarrow> bool" where
  "onwards p \<longleftrightarrow> (\<forall>r x r'. p r = Inr (x, r') \<longrightarrow> pos r \<le> pos r')"

definition parses_below :: "nat \<Rightarrow> 'a reading \<Rightarrow> bool" where
  "parses_below n p \<longleftrightarrow> (\<forall>r. wf_reader r \<and> remaining r < n \<longrightarrow>
     returns (p r) \<and> (\<forall>x r'. p r = Inr (x, r') \<longrightarrow> advances r r'))"

definition parses :: "'a reading \<Rightarrow> bool" where
  "parses p \<longleftrightarrow> (\<forall>n. parses_below n p)"

definition consumes :: "'a reading \<Rightarrow> bool" where
  "consumes p \<longleftrightarrow> (\<forall>r x r'. p r = Inr (x, r') \<longrightarrow> pos r < pos r')"

lemma parses_below_mono: "parses_below n p \<Longrightarrow> m \<le> n \<Longrightarrow> parses_below m p"
  by (auto simp: parses_below_def)

lemma parsesD: "parses p \<Longrightarrow> parses_below n p"
  by (simp add: parses_def)

lemma parses_belowI:
  assumes "\<And>r. wf_reader r \<Longrightarrow> remaining r < n \<Longrightarrow> returns (p r)"
    and "\<And>r x r'. wf_reader r \<Longrightarrow> remaining r < n \<Longrightarrow> p r = Inr (x, r') \<Longrightarrow> advances r r'"
  shows "parses_below n p"
  using assms by (auto simp: parses_below_def)

lemma advances_trans: "advances r r' \<Longrightarrow> advances r' r'' \<Longrightarrow> advances r r''"
  by (simp add: advances_def)

lemma advances_wf: "advances r r' \<Longrightarrow> wf_reader r' \<and> remaining r' \<le> remaining r"
  by (auto simp: advances_def wf_reader_def remaining_def)

lemma parses_below_bind [intro]:
  assumes "parses_below n m" "\<And>x. parses_below n (f x)"
  shows "parses_below n (rbind m f)"
proof (rule parses_belowI)
  fix r assume r: "wf_reader r" "remaining r < n"
  have step: "wf_reader r1 \<and> remaining r1 < n \<and> advances r r1" if "m r = Inr (x, r1)" for x r1
    using assms(1) r that advances_wf [of r r1] by (auto simp: parses_below_def)
  show "returns (rbind m f r)"
    unfolding rbind_def using assms r step by (intro returns_intros) (auto simp: parses_below_def)
  fix y r' assume "rbind m f r = Inr (y, r')"
  then obtain x r1 where "m r = Inr (x, r1)" "f x r1 = Inr (y, r')"
    by (auto simp: rbind_def obind_eq_Inr)
  with step assms(2) [of x] show "advances r r'"
    by (auto simp: parses_below_def intro: advances_trans)
qed

lemma parses_below_bind_consumes:
  assumes "parses_below (Suc n) m" "consumes m" "\<And>x. parses_below n (f x)"
  shows "parses_below (Suc n) (rbind m f)"
proof (rule parses_belowI)
  fix r assume r: "wf_reader r" "remaining r < Suc n"
  have step: "wf_reader r1 \<and> remaining r1 < n \<and> advances r r1" if "m r = Inr (x, r1)" for x r1
  proof -
    have "advances r r1" "pos r < pos r1"
      using assms(1,2) r that by (auto simp: parses_below_def consumes_def)
    then show ?thesis
      using r by (auto simp: advances_def wf_reader_def remaining_def)
  qed
  show "returns (rbind m f r)"
    unfolding rbind_def using assms r step by (intro returns_intros) (auto simp: parses_below_def)
  fix y r' assume "rbind m f r = Inr (y, r')"
  then obtain x r1 where "m r = Inr (x, r1)" "f x r1 = Inr (y, r')"
    by (auto simp: rbind_def obind_eq_Inr)
  with step assms(3) [of x] show "advances r r'"
    by (auto simp: parses_below_def intro: advances_trans)
qed

lemma parses_bind: "parses m \<Longrightarrow> (\<And>x. parses (f x)) \<Longrightarrow> parses (rbind m f)"
  by (auto simp: parses_def)

lemma onwards_rules:
  "onwards (rret x)" "onwards (field_found typ field_id)" "onwards (\<lambda>r. field_found typ (g r) r)"
  "consumes p \<Longrightarrow> onwards p" "onwards p \<Longrightarrow> (\<And>x. onwards (f x)) \<Longrightarrow> onwards (rbind p f)"
  by (force simp: onwards_def consumes_def rret_def field_found_def rbind_def outcome_Inr)+

lemma consumes_bind: "consumes p \<Longrightarrow> (\<And>x. onwards (f x)) \<Longrightarrow> consumes (rbind p f)"
  by (force simp: onwards_def consumes_def rbind_def outcome_Inr)

lemma parses_simps [intro]:
  "parses (rret x)" "parses (rfail e)"
  by (auto simp: parses_def parses_below_def rret_def rfail_def wf_reader_def advances_def)

lemma returns_read_uvarint_loop [simp]: "returns (read_uvarint_loop bs p v k)"
  by (induction bs p v k rule: read_uvarint_loop.induct) simp_all

lemma read_uvarint_loop_pos:
  "read_uvarint_loop bs p v k = Inr (x, q) \<Longrightarrow> p < q \<and> q \<le> p + length bs"
  by (induction bs p v k rule: read_uvarint_loop.induct) (fastforce split: if_splits)+

lemma parsesI:
  assumes "\<And>r. wf_reader r \<Longrightarrow> returns (p r)"
    and "\<And>r x r'. wf_reader r \<Longrightarrow> p r = Inr (x, r') \<Longrightarrow> advances r r'"
  shows "parses p"
  using assms by (auto simp: parses_def parses_below_def)

lemma parses_read_byte [intro]: "parses read_byte"
  by (rule parsesI) (auto simp: read_byte_def wf_reader_def advances_def outcome_Inr intro!: returns_intros)

lemma parses_read_uvarint [intro]: "parses read_uvarint"
proof (rule parsesI)
  show "wf_reader r \<Longrightarrow> returns (read_uvarint r)" for r
    unfolding read_uvarint_def by (intro returns_intros) simp_all
  show "advances r r'" if "wf_reader r" "read_uvarint r = Inr (x, r')" for r x r'
    using that by (auto simp: read_uvarint_def outcome_Inr wf_reader_def advances_def
        dest!: read_uvarint_loop_pos)
qed

lemma consumes_read_byte: "consumes read_byte"
  by (auto simp: consumes_def read_byte_def outcome_Inr)

lemma consumes_read_uvarint: "consumes read_uvarint"
  by (auto simp: consumes_def read_uvarint_def outcome_Inr dest: read_uvarint_loop_pos)

lemma parses_field_found [intro]:
  "parses (field_found typ field_id)" "parses (\<lambda>r. field_found typ (g r) r)"
  by (auto intro!: parsesI simp: field_found_def advances_def wf_reader_def)

lemma parses_read_zigzag [intro]: "parses read_zigzag"
  unfolding read_zigzag_def by (intro parses_bind) auto

lemma parses_read_binary [intro]: "parses read_binary"
  unfolding read_binary_def
proof (intro parses_bind parses_read_uvarint parsesI)
  fix len :: u64 and r r' :: compact_reader and x
  show "returns (fail_if (sint len > int (length (data r)) - int (pos r)) ErrBadCompact
      (obind (go_slice (data r) (int (pos r)) (int (pos r) + sint len)) (\<lambda>raw.
         Inr (raw, r\<lparr>pos := pos r + nat (sint len)\<rparr>))))"
    by (intro returns_intros) simp_all
  assume "fail_if (sint len > int (length (data r)) - int (pos r)) ErrBadCompact
      (obind (go_slice (data r) (int (pos r)) (int (pos r) + sint len)) (\<lambda>raw.
         Inr (raw, r\<lparr>pos := pos r + nat (sint len)\<rparr>))) = Inr (x, r')"
  then show "advances r r'"
    by (auto simp: outcome_Inr go_slice_def advances_def split: if_splits)
qed

lemma parses_read_double [intro]: "parses read_double"
proof (rule parsesI)
  show "wf_reader r \<Longrightarrow> returns (read_double r)" for r
    unfolding read_double_def by (intro returns_intros) simp_all
qed (auto simp: read_double_def outcome_Inr advances_def)

lemma parses_read_field_header [intro]: "parses read_field_header"
  unfolding read_field_header_def Let_def
  by (intro parses_bind parses_read_byte) (auto intro!: parses_bind)

lemma consumes_read_field_header: "consumes read_field_header"
  unfolding read_field_header_def Let_def
  by (intro consumes_bind consumes_read_byte)
    (auto intro!: onwards_rules(1,2,3,5) onwards_rules(4) [OF consumes_read_uvarint])

lemma in_struct_eq:
  "in_struct body r = obind (body (r\<lparr>last_field_id := 0\<rparr>))
     (\<lambda>(x, r'). Inr (x, r'\<lparr>last_field_id := last_field_id r\<rparr>))"
  by (simp add: in_struct_def enter_struct_def exit_struct_def)

lemma parses_below_in_struct [intro]:
  assumes "parses_below n p"
  shows "parses_below n (in_struct p)"
proof (rule parses_belowI)
  fix r assume r: "wf_reader r" "remaining r < n"
  then have "wf_reader (r\<lparr>last_field_id := 0\<rparr>)" "remaining (r\<lparr>last_field_id := 0\<rparr>) < n"
    by (simp_all add: wf_reader_def remaining_def)
  then have p: "returns (p (r\<lparr>last_field_id := 0\<rparr>))"
    "\<And>x r'. p (r\<lparr>last_field_id := 0\<rparr>) = Inr (x, r') \<Longrightarrow> advances (r\<lparr>last_field_id := 0\<rparr>) r'"
    using assms unfolding parses_below_def by blast+
  from p(1) show "returns (in_struct p r)"
    unfolding in_struct_eq by (intro returns_intros returns_simps)
  fix x r' assume "in_struct p r = Inr (x, r')"
  then obtain r2 where "p (r\<lparr>last_field_id := 0\<rparr>) = Inr (x, r2)" "r' = r2\<lparr>last_field_id := last_field_id r\<rparr>"
    by (auto simp: in_struct_eq outcome_Inr)
  with p(2) show "advances r r'"
    by (force simp: advances_def)
qed

lemma parses_in_struct [intro]: "parses p \<Longrightarrow> parses (in_struct p)"
  by (auto simp: parses_def)

lemma parses_field_loop:
  assumes "\<And>field_id typ s. parses_below m (step field_id typ s)"
  shows "n \<le> Suc m \<Longrightarrow> parses_below n (field_loop n step s)"
proof (induction n arbitrary: s)
  case (Suc n)
  have "\<And>field_id typ s. parses_below n (step field_id typ s)"
    using Suc.prems by (intro parses_below_mono [OF assms]) simp
  moreover have "\<And>s. parses_below n (field_loop n step s)"
    using Suc by simp
  ultimately have "parses_below n (case h of None \<Rightarrow> rret s
      | Some (field_id, typ) \<Rightarrow> rbind (step field_id typ s) (\<lambda>s. field_loop n step s))" for h
    by (cases h) (auto intro!: parses_below_bind intro: parsesD parses_simps)
  then show ?case
    unfolding field_loop.simps
    by (intro parses_below_bind_consumes consumes_read_field_header)
      (auto intro: parsesD)
qed (simp add: parses_below_def)

lemma parses_below_read_fields:
  assumes "\<And>field_id typ s. parses_below m (step field_id typ s)"
  shows "parses_below (Suc m) (read_fields step s)"
proof (rule parses_belowI)
  fix r assume r: "wf_reader r" "remaining r < Suc m"
  have loop: "parses_below (Suc (remaining r)) (field_loop (Suc (remaining r)) step s)"
    using r(2) by (intro parses_field_loop [OF assms]) simp
  with r show "returns (read_fields step s r)"
    unfolding read_fields_def parses_below_def by blast
  fix x r' assume "read_fields step s r = Inr (x, r')"
  with loop r show "advances r r'"
    unfolding read_fields_def parses_below_def by blast
qed

lemma parses_read_fields [intro]:
  "(\<And>field_id typ s. parses (step field_id typ s)) \<Longrightarrow> parses (read_fields step s)"
  unfolding parses_def
  by (intro allI parses_below_mono [OF parses_below_read_fields, OF _ le_SucI [OF order_refl]]) simp

lemma parses_advances:
  "parses_below n p \<Longrightarrow> wf_reader r \<Longrightarrow> remaining r < n \<Longrightarrow> p r = Inr (x, r') \<Longrightarrow> advances r r'"
  unfolding parses_below_def by blast

lemma read_fields_progress:
  assumes "\<And>field_id typ s. parses (step field_id typ s)"
    and "wf_reader r" "read_fields step s r = Inr (x, r')"
  shows "pos r < pos r'"
proof -
  let ?f = "\<lambda>h. case h of None \<Rightarrow> rret s
    | Some (field_id, typ) \<Rightarrow> rbind (step field_id typ s) (\<lambda>s. field_loop (remaining r) step s)"
  from assms(3) obtain h r1 where r1: "read_field_header r = Inr (h, r1)" "?f h r1 = Inr (x, r')"
    by (auto simp: read_fields_def rbind_def obind_eq_Inr)
  then have "pos r < pos r1"
    using consumes_read_field_header by (auto simp: consumes_def)
  moreover have "wf_reader r1" "remaining r1 < remaining r"
    using parses_advances [OF parsesD [OF parses_read_field_header] assms(2) lessI r1(1)]
      assms(2) \<open>pos r < pos r1\<close>
    by (auto simp: advances_def wf_reader_def remaining_def)
  moreover have "parses_below (remaining r) (field_loop (remaining r) step s)" for s
    using assms(1) by (intro parses_field_loop [where m = "remaining r"]) (auto intro: parsesD)
  then have "parses_below (remaining r) (?f h)"
    using assms(1) by (cases h) (auto intro!: parses_below_bind intro: parsesD)
  ultimately have "pos r < pos r1" "advances r1 r'"
    using r1(2) by (auto intro: parses_advances)
  then show ?thesis
    by (simp add: advances_def)
qed

lemma parses_below_repeat [intro]: "parses_below n p \<Longrightarrow> parses_below n (repeat_read k p)"
  by (induction k) (auto intro: parsesD)

lemma parses_repeat [intro]: "parses p \<Longrightarrow> parses (repeat_read k p)"
  by (auto simp: parses_def)

lemma parses_discard [intro]: "parses p \<Longrightarrow> parses (discard p)"
  unfolding discard_def by (intro parses_bind) auto

lemma parses_below_discard [intro]: "parses_below n p \<Longrightarrow> parses_below n (discard p)"
  unfolding discard_def by (intro parses_below_bind) (auto intro: parsesD)

lemma parses_read_list_header [intro]: "parses read_list_header"
  unfolding read_list_header_def Let_def by (intro parses_bind) (auto intro!: parses_bind)

lemma consumes_read_list_header: "consumes read_list_header"
  unfolding read_list_header_def Let_def
  by (intro consumes_bind consumes_read_byte)
    (auto intro!: onwards_rules(1,5) onwards_rules(4) [OF consumes_read_uvarint])

lemma parses_skip_value: "parses_below depth (skip_value depth typ)"
proof (induction depth arbitrary: "typ")
  case (Suc depth)
  have elems: "parses_below depth (discard (repeat_read n (skip_value depth ty)))" for n ty
    by (intro parses_below_discard parses_below_repeat Suc.IH)
  then have list: "parses_below (Suc depth) (skip_list (skip_value depth))"
    unfolding skip_list_def
    by (intro parses_below_bind_consumes consumes_read_list_header) (auto intro: parsesD)
  have pair: "parses_below depth (rbind read_byte (\<lambda>types. discard (repeat_read (nat n)
      (rbind (skip_value depth (drop_bit 4 types)) (\<lambda>_. skip_value depth (types AND 0x0F))))))" for n
    by (intro parses_below_bind parses_below_discard parses_below_repeat Suc.IH)
      (auto intro: parsesD)
  have map: "parses_below (Suc depth) (skip_map (skip_value depth))"
    unfolding skip_map_def
    by (intro parses_below_bind_consumes consumes_read_uvarint)
      (auto intro: parsesD pair)
  have struct: "parses_below (Suc depth) (skip_struct (skip_value depth))"
    unfolding skip_struct_def
    by (intro parses_below_in_struct parses_below_read_fields Suc.IH)
  show ?case
    using list map struct by (auto intro!: parsesD)
qed (simp add: parses_below_def)

lemma parses_skip [intro]: "parses (skip typ)"
proof (rule parsesI)
  fix r assume "wf_reader r"
  with parses_skip_value [of "Suc (remaining r)" "typ"] show "returns (skip typ r)" "\<And>x r'. skip typ r = Inr (x, r') \<Longrightarrow> advances r r'"
    unfolding skip_def parses_below_def by blast+
qed

text \<open>A parser started on a fresh reader.\<close>

lemma parses_new:
  assumes "parses p"
  shows "returns (p (new_compact_reader bs))"
    and "p (new_compact_reader bs) = Inr (x, r) \<Longrightarrow> data r = bs \<and> pos r \<le> length bs"
proof -
  have "wf_reader (new_compact_reader bs)" "remaining (new_compact_reader bs) < Suc (length bs)"
    by (simp_all add: wf_reader_def new_compact_reader_def remaining_def)
  then show "returns (p (new_compact_reader bs))"
    "p (new_compact_reader bs) = Inr (x, r) \<Longrightarrow> data r = bs \<and> pos r \<le> length bs"
    using parsesD [OF assms, of "Suc (length bs)"]
    by (auto simp: parses_below_def advances_def new_compact_reader_def)
qed

section \<open>Encodings and what reads them\<close>

definition reads :: "'a reading \<Rightarrow> byte list \<Rightarrow> 'a \<Rightarrow> bool" where
  "reads p bs x \<longleftrightarrow> (\<forall>r rest. wf_reader r \<and> drop (pos r) (data r) = bs @ rest \<longrightarrow>
     p r = Inr (x, r\<lparr>pos := pos r + length bs\<rparr>))"

lemma readsI:
  assumes "\<And>r rest. wf_reader r \<Longrightarrow> drop (pos r) (data r) = bs @ rest \<Longrightarrow>
    p r = Inr (x, r\<lparr>pos := pos r + length bs\<rparr>)"
  shows "reads p bs x"
  using assms by (simp add: reads_def)

text \<open>Where a reader stands after the bytes \<open>bs\<close>.\<close>

lemma after_bytes:
  assumes "wf_reader r" "drop (pos r) (data r) = bs @ rest"
  shows "wf_reader (r\<lparr>pos := pos r + length bs\<rparr>)"
    and "drop (pos r + length bs) (data r) = rest"
    and "length (data r) = pos r + length bs + length rest"
proof -
  have "length (drop (pos r) (data r)) = length bs + length rest"
    using assms(2) by simp
  then show "length (data r) = pos r + length bs + length rest"
    using assms(1) by (simp add: wf_reader_def)
  then show "wf_reader (r\<lparr>pos := pos r + length bs\<rparr>)"
    by (simp add: wf_reader_def)
  have "drop (pos r + length bs) (data r) = drop (length bs) (drop (pos r) (data r))"
    by (simp add: add.commute)
  then show "drop (pos r + length bs) (data r) = rest"
    by (simp only: assms(2)) simp
qed

lemma reads_rret: "reads (rret x) [] x"
  by (rule readsI) (simp add: rret_def)

lemma reads_bind:
  assumes "reads m bs x" "reads (f x) cs y"
  shows "reads (rbind m f) (bs @ cs) y"
proof (rule readsI)
  fix r rest
  assume r: "wf_reader r" "drop (pos r) (data r) = (bs @ cs) @ rest"
  then have "m r = Inr (x, r\<lparr>pos := pos r + length bs\<rparr>)"
    using assms(1) by (simp add: reads_def)
  moreover have "f x (r\<lparr>pos := pos r + length bs\<rparr>) =
      Inr (y, r\<lparr>pos := pos r + length bs, pos := pos r + length bs + length cs\<rparr>)"
    using assms(2) r after_bytes [of r bs "cs @ rest"] by (simp add: reads_def)
  ultimately show "rbind m f r = Inr (y, r\<lparr>pos := pos r + length (bs @ cs)\<rparr>)"
    by (simp add: rbind_def add.assoc)
qed

lemma reads_map: "reads m bs x \<Longrightarrow> reads (rbind m (\<lambda>x. rret (f x))) bs (f x)"
  using reads_bind [of m bs x "\<lambda>x. rret (f x)", OF _ reads_rret] by simp

lemma reads_read_byte: "reads read_byte [b] b"
proof (rule readsI)
  fix r rest
  assume r: "wf_reader r" "drop (pos r) (data r) = [b] @ rest"
  then have "pos r < length (data r)"
    using after_bytes(3) [OF r] by simp
  moreover from this have "data r ! pos r = b"
    using r(2) by (metis append_Cons hd_drop_conv_nth list.sel(1))
  ultimately show "read_byte r = Inr (b, r\<lparr>pos := pos r + length [b]\<rparr>)"
    by (simp add: read_byte_def)
qed

lemma read_uvarint_loop_eq:
  "uvarint_loop index v k bs = Inr (x, c) \<Longrightarrow> read_uvarint_loop bs p v k = Inr (x, p + (c - index))"
proof (induction index v k bs arbitrary: p rule: uvarint_loop.induct)
  case (2 index v k b bs)
  have "Suc (c - Suc index) = c - index"
    if "uvarint_loop (Suc index) w l bs = Inr (x, c)" for w l
    using uvarint_loop_consumed [OF that] by (intro Suc_diff_Suc) simp
  with 2 show ?case
    by (auto simp: fail_if_def split: if_splits)
qed simp

lemma reads_read_uvarint:
  assumes "n < 2 ^ 64"
  shows "reads read_uvarint (uvarint_enc n) (word_of_nat n)"
proof (rule readsI)
  fix r :: compact_reader and rest
  assume "drop (pos r) (data r) = uvarint_enc n @ rest"
  moreover have "read_uvarint_loop (uvarint_enc n @ rest) (pos r) 0 0 =
      Inr (word_of_nat n, pos r + length (uvarint_enc n))"
    using read_uvarint_loop_eq [OF uvarint_enc_roundtrip [OF assms, unfolded uvarint_def]] by simp
  ultimately show "read_uvarint r = Inr (word_of_nat n, r\<lparr>pos := pos r + length (uvarint_enc n)\<rparr>)"
    by (simp add: read_uvarint_def)
qed

definition zigzag_nat :: "int \<Rightarrow> nat" where
  "zigzag_nat v = nat (if 0 \<le> v then 2 * v else - 2 * v - 1)"

lemma zigzag_cases:
  obtains n where "v = int n" "zigzag_nat v = 2 * n" | n where "v = - int n - 1" "zigzag_nat v = 2 * n + 1"
proof (cases "0 \<le> v")
  case True
  then have "v = int (nat v)" "zigzag_nat v = 2 * nat v"
    by (simp_all add: zigzag_nat_def nat_mult_distrib)
  then show thesis by (rule that)
next
  case False
  then have "v = - int (nat (- v - 1)) - 1" "zigzag_nat v = 2 * nat (- v - 1) + 1"
    by (simp_all add: zigzag_nat_def)
  then show thesis by (rule that)
qed

lemma sint_not: "sint (NOT w) = - sint w - 1" for w :: "'a::len word"
proof -
  have "NOT w = w XOR - 1" by simp
  then show ?thesis by (simp only: signed_xor_eq) (simp add: not_int_def)
qed

lemma zigzag_decode:
  assumes "- (2 ^ 63) \<le> v" "v < 2 ^ 63"
  shows "sint (drop_bit 1 (word_of_nat (zigzag_nat v)) XOR - (word_of_nat (zigzag_nat v) AND 1) :: u64) = v"
proof (cases rule: zigzag_cases [of v])
  case (1 n)
  then have "n < 2 ^ 63" using assms by simp
  with header_fields [of n 0] have "sint (drop_bit 1 (word_of_nat (2 * n) :: u64)) = int n"
    "(word_of_nat (2 * n) :: u64) AND 1 = 0"
    by (simp_all add: and_one_eq odd_iff_mod_2_eq_one)
  with 1 show ?thesis by simp
next
  case (2 n)
  then have "n < 2 ^ 63" using assms by simp
  with header_fields [of n 1] have "sint (drop_bit 1 (word_of_nat (2 * n + 1) :: u64)) = int n"
    "(word_of_nat (2 * n + 1) :: u64) AND 1 = 1"
    by simp_all
  with 2 show ?thesis by (simp add: sint_not del: of_nat_add of_nat_mult)
qed

lemma reads_read_zigzag:
  assumes "- (2 ^ 63) \<le> v" "v < 2 ^ 63"
  shows "reads read_zigzag (uvarint_enc (zigzag_nat v)) v"
proof -
  have "zigzag_nat v < 2 ^ 64"
    using assms by (simp add: zigzag_nat_def nat_less_iff)
  from reads_map [OF reads_read_uvarint [OF this],
      of "\<lambda>encoded. sint (drop_bit 1 encoded XOR - (encoded AND 1))"]
  show ?thesis
    by (simp only: read_zigzag_def zigzag_decode [OF assms])
qed

lemma reads_read_binary:
  assumes "length v < 2 ^ 63"
  shows "reads read_binary (plain_code v) v"
proof -
  have s: "sint (word_of_nat (length v) :: u64) = int (length v)"
    using assms by (rule sint_of_nat_small)
  have "reads (\<lambda>r. fail_if (sint (word_of_nat (length v) :: u64) > int (length (data r)) - int (pos r)) ErrBadCompact
      (obind (go_slice (data r) (int (pos r)) (int (pos r) + sint (word_of_nat (length v) :: u64))) (\<lambda>raw.
         Inr (raw, r\<lparr>pos := pos r + nat (sint (word_of_nat (length v) :: u64))\<rparr>)))) v v"
    unfolding s
  proof (rule readsI)
    fix r :: compact_reader and rest
    assume r: "wf_reader r" "drop (pos r) (data r) = v @ rest"
    show "fail_if (int (length v) > int (length (data r)) - int (pos r)) ErrBadCompact
      (obind (go_slice (data r) (int (pos r)) (int (pos r) + int (length v))) (\<lambda>raw.
         Inr (raw, r\<lparr>pos := pos r + nat (int (length v))\<rparr>))) = Inr (v, r\<lparr>pos := pos r + length v\<rparr>)"
      using after_bytes(3) [OF r] r(2) by (simp add: go_slice_def flip: of_nat_add)
  qed
  moreover have "length v < 2 ^ 64"
    using assms by simp
  ultimately show ?thesis
    unfolding read_binary_def plain_code_def by (intro reads_bind [OF reads_read_uvarint])
qed

lemma nibbles:
  assumes "d < 16" "t < 16"
  shows "(word_of_nat (16 * d + t) :: byte) AND 0x0F = word_of_nat t"
    and "unat (drop_bit 4 (word_of_nat (16 * d + t) :: byte)) = d"
    and "(word_of_nat (16 * d + t) :: byte) = 0 \<longleftrightarrow> d = 0 \<and> t = 0"
proof -
  have "16 * d + t < 256" using assms by linarith
  then have u: "unat (word_of_nat (16 * d + t) :: byte) = 16 * d + t"
    by (rule unat_byte_of_nat)
  have "unat ((word_of_nat (16 * d + t) :: byte) AND (2 ^ 4 - 1)) = (16 * d + t) mod 16"
    by (simp only: word_and_mask_mod unat_mod u) (simp add: unat_mod)
  then show "(word_of_nat (16 * d + t) :: byte) AND 0x0F = word_of_nat t"
    using assms by (simp add: word_unat_eq_iff unat_byte_of_nat del: of_nat_add of_nat_mult)
  show "unat (drop_bit 4 (word_of_nat (16 * d + t) :: byte)) = d"
    using assms(2) by (simp add: drop_bit_eq_div unat_div u del: of_nat_add of_nat_mult)
  show "(word_of_nat (16 * d + t) :: byte) = 0 \<longleftrightarrow> d = 0 \<and> t = 0"
    by (simp add: word_unat_eq_iff u del: of_nat_add of_nat_mult)
qed

definition list_header_code :: "nat \<Rightarrow> nat \<Rightarrow> byte list" where
  "list_header_code n ty =
     (if n < 15 then [word_of_nat (16 * n + ty)] else word_of_nat (16 * 15 + ty) # uvarint_enc n)"

lemma reads_list_header:
  assumes "n < 2 ^ 63" "ty < 16"
  shows "reads read_list_header (list_header_code n ty) (int n, word_of_nat ty)"
proof (cases "n < 15")
  case True
  have "reads read_list_header ([word_of_nat (16 * n + ty)] @ []) (int n, word_of_nat ty)"
    unfolding read_list_header_def
    by (rule reads_bind [OF reads_read_byte]) (use True assms nibbles [of n ty] in \<open>simp add: reads_rret Let_def
        del: of_nat_add of_nat_mult\<close>)
  with True show ?thesis by (simp add: list_header_code_def del: of_nat_add of_nat_mult)
next
  case False
  have "reads (rbind read_uvarint (\<lambda>encoded. rret (sint encoded, word_of_nat ty :: byte))) (uvarint_enc n)
      (int n, word_of_nat ty)"
    using reads_map [OF reads_read_uvarint [of n], of "\<lambda>encoded. (sint encoded, word_of_nat ty :: byte)"] assms
    by (simp add: sint_of_nat_small)
  then have "reads read_list_header ([word_of_nat (16 * 15 + ty)] @ uvarint_enc n) (int n, word_of_nat ty)"
    unfolding read_list_header_def
    by (intro reads_bind [OF reads_read_byte]) (use assms nibbles [of 15 ty] in \<open>simp add: Let_def
        del: of_nat_add of_nat_mult\<close>)
  with False show ?thesis by (simp add: list_header_code_def del: of_nat_add of_nat_mult)
qed

lemma reads_repeat:
  "(\<And>x. x \<in> set xs \<Longrightarrow> reads p (code x) (f x)) \<Longrightarrow>
    reads (repeat_read (length xs) p) (concat (map code xs)) (map f xs)"
proof (induction xs)
  case (Cons x xs)
  then have "reads (rbind (repeat_read (length xs) p) (\<lambda>ys. rret (f x # ys))) (concat (map code xs)) (map f (x # xs))"
    by (simp add: reads_map)
  with Cons.prems [of x] show ?case by (auto intro: reads_bind)
qed (simp add: reads_rret)

subsection \<open>Structs\<close>

text \<open>
  A field is its id, its type code and the bytes of its value; the id is coded as the distance from
  the previous one where that is 1 to 15, in the long form otherwise.
\<close>

type_synonym field = "int \<times> nat \<times> byte list"

definition field_header_code :: "int \<Rightarrow> int \<Rightarrow> nat \<Rightarrow> byte list" where
  "field_header_code prev field_id ty =
     (if 1 \<le> field_id - prev \<and> field_id - prev \<le> 15
      then [word_of_nat (16 * nat (field_id - prev) + ty)]
      else word_of_nat (16 * 0 + ty) # uvarint_enc (zigzag_nat field_id))"

fun fields_code :: "int \<Rightarrow> field list \<Rightarrow> byte list" where
  "fields_code prev [] = [0]"
| "fields_code prev ((field_id, ty, bs) # fs) = field_header_code prev field_id ty @ bs @ fields_code field_id fs"

definition field_ok :: "field \<Rightarrow> bool" where
  "field_ok = (\<lambda>(field_id, ty, bs). - (2 ^ 15) \<le> field_id \<and> field_id < 2 ^ 15 \<and> 0 < ty \<and> ty < 16)"

text \<open>The state after \<open>step\<close> has read the fields one by one.\<close>

inductive decodes :: "(int \<Rightarrow> byte \<Rightarrow> 's \<Rightarrow> 's reading) \<Rightarrow> 's \<Rightarrow> field list \<Rightarrow> 's \<Rightarrow> bool"
  for step :: "int \<Rightarrow> byte \<Rightarrow> 's \<Rightarrow> 's reading" where
  decodes_nil: "decodes step s [] s"
| decodes_cons: "field_ok (field_id, ty, bs) \<Longrightarrow> reads (step field_id (word_of_nat ty) s) bs s1 \<Longrightarrow>
    decodes step s1 fs s2 \<Longrightarrow> decodes step s ((field_id, ty, bs) # fs) s2"

lemma field_id_decode:
  assumes "- (2 ^ 15) \<le> v" "v < 2 ^ 15"
  shows "sint ((ucast (drop_bit 1 (word_of_nat (zigzag_nat v) :: u64)) :: 16 word) XOR
    - ucast ((word_of_nat (zigzag_nat v) :: u64) AND 1)) = v"
proof -
  have d: "drop_bit 1 (word_of_nat (2 * n + b) :: u64) = word_of_nat n"
    "(word_of_nat (2 * n + b) :: u64) AND 1 = word_of_nat b" if "n < 2 ^ 15" "b < 2" for n b
  proof -
    have u: "unat (word_of_nat (2 * n + b) :: u64) = 2 * n + b"
      using that by (simp add: unat_of_nat take_bit_nat_eq_self del: of_nat_add of_nat_mult)
    have "(2 * n + b) div 2 = n"
      using that(2) by linarith
    moreover have "(2 * n + b) mod 2 = b"
      using that(2) by presburger
    ultimately show "drop_bit 1 (word_of_nat (2 * n + b) :: u64) = word_of_nat n"
      "(word_of_nat (2 * n + b) :: u64) AND 1 = word_of_nat b"
      using that u by (simp_all add: word_unat_eq_iff drop_bit_eq_div and_one_eq unat_div unat_mod unat_of_nat
          take_bit_nat_eq_self del: of_nat_add of_nat_mult)
  qed
  have s: "sint (ucast (word_of_nat n :: u64) :: 16 word) = int n" if "n < 2 ^ 15" for n
    using that by (simp add: sint_uint unsigned_ucast_eq uint_nat unat_of_nat take_bit_nat_eq_self
        signed_take_bit_int_eq_self)
  show ?thesis
  proof (cases rule: zigzag_cases [of v])
    case (1 n)
    then have "n < 2 ^ 15" using assms by simp
    with d [of n 0] s [of n] 1 show ?thesis by simp
  next
    case (2 n)
    then have "n < 2 ^ 15" using assms by simp
    with d [of n 1] s [of n] 2 show ?thesis by (simp add: sint_not del: of_nat_add of_nat_mult)
  qed
qed

lemma read_field_header_code:
  assumes "wf_reader r" "drop (pos r) (data r) = field_header_code (last_field_id r) field_id ty @ rest"
    and "field_ok (field_id, ty, bs)"
  shows "read_field_header r = Inr (Some (field_id, word_of_nat ty),
    r\<lparr>pos := pos r + length (field_header_code (last_field_id r) field_id ty), last_field_id := field_id\<rparr>)"
proof (cases "1 \<le> field_id - last_field_id r \<and> field_id - last_field_id r \<le> 15")
  case True
  let ?d = "nat (field_id - last_field_id r)"
  have code: "field_header_code (last_field_id r) field_id ty = [word_of_nat (16 * ?d + ty)]"
    using True by (simp add: field_header_code_def del: of_nat_add of_nat_mult)
  have "?d < 16" "ty < 16" "?d \<noteq> 0" "int ?d = field_id - last_field_id r"
    using True assms(3) by (auto simp: field_ok_def)
  moreover have "read_byte r = Inr (word_of_nat (16 * ?d + ty), r\<lparr>pos := pos r + 1\<rparr>)"
    using reads_read_byte [of "word_of_nat (16 * ?d + ty)"] assms(1,2) unfolding code reads_def
    by (simp del: of_nat_add of_nat_mult)
  ultimately show ?thesis
    using nibbles [of ?d ty] unfolding code
    by (simp add: read_field_header_def rbind_def field_found_def Let_def del: of_nat_add of_nat_mult)
next
  case False
  let ?u = "word_of_nat (zigzag_nat field_id) :: u64"
  have code: "field_header_code (last_field_id r) field_id ty =
      [word_of_nat (16 * 0 + ty)] @ uvarint_enc (zigzag_nat field_id)"
    using False unfolding field_header_code_def by (simp only: if_False append.simps)
  have id: "- (2 ^ 15) \<le> field_id" "field_id < 2 ^ 15" and ty: "ty < 16" "ty \<noteq> 0"
    using assms(3) by (auto simp: field_ok_def)
  then have "zigzag_nat field_id < 2 ^ 64"
    by (simp add: zigzag_nat_def nat_less_iff)
  then have "reads (rbind read_byte (\<lambda>h. rbind read_uvarint (\<lambda>u. rret (h, u))))
      ([word_of_nat (16 * 0 + ty)] @ uvarint_enc (zigzag_nat field_id)) (word_of_nat (16 * 0 + ty), ?u)"
    by (intro reads_bind [OF reads_read_byte] reads_map reads_read_uvarint)
  then have "rbind read_byte (\<lambda>h. rbind read_uvarint (\<lambda>u. rret (h, u))) r =
      Inr ((word_of_nat (16 * 0 + ty), ?u), r\<lparr>pos := pos r + length (field_header_code (last_field_id r) field_id ty)\<rparr>)"
    using assms(1,2) unfolding code reads_def by blast
  then obtain r1 where "read_byte r = Inr (word_of_nat (16 * 0 + ty), r1)"
    "read_uvarint r1 = Inr (?u, r\<lparr>pos := pos r + length (field_header_code (last_field_id r) field_id ty)\<rparr>)"
    by (auto simp: rbind_def rret_def obind_eq_Inr)
  with ty nibbles [of 0 ty] field_id_decode [OF id] show ?thesis
    by (simp add: read_field_header_def rbind_def field_found_def Let_def)
qed

lemma field_loop_decodes:
  assumes "decodes step s fs s'"
  shows "length fs < n \<Longrightarrow> wf_reader r \<Longrightarrow> drop (pos r) (data r) = fields_code (last_field_id r) fs @ rest \<Longrightarrow>
    \<exists>prev. field_loop n step s r =
      Inr (s', r\<lparr>pos := pos r + length (fields_code (last_field_id r) fs), last_field_id := prev\<rparr>)"
  using assms
proof (induction arbitrary: n r)
  case (decodes_nil s)
  then obtain m where n: "n = Suc m" by (cases n) simp_all
  have "read_byte r = Inr (0, r\<lparr>pos := pos r + 1\<rparr>)"
    using reads_read_byte [of 0] decodes_nil by (simp add: reads_def)
  then have "field_loop n step s r = Inr (s, r\<lparr>pos := pos r + 1, last_field_id := last_field_id r\<rparr>)"
    by (simp add: n read_field_header_def rbind_def rret_def)
  then show ?case by (intro exI [of _ "last_field_id r"]) simp
next
  case (decodes_cons field_id ty bs s s1 fs s2)
  then obtain m where n: "n = Suc m" by (cases n) simp_all
  let ?h = "field_header_code (last_field_id r) field_id ty"
  define r1 where "r1 = r\<lparr>pos := pos r + length ?h, last_field_id := field_id\<rparr>"
  define r2 where "r2 = r1\<lparr>pos := pos r1 + length bs\<rparr>"
  have split: "drop (pos r) (data r) = ?h @ bs @ fields_code field_id fs @ rest"
    using decodes_cons.prems by simp
  have header: "read_field_header r = Inr (Some (field_id, word_of_nat ty), r1)"
    unfolding r1_def using decodes_cons.prems(2) split decodes_cons.hyps(1) by (rule read_field_header_code)
  have r1: "wf_reader r1" "drop (pos r1) (data r1) = bs @ fields_code field_id fs @ rest"
    using after_bytes(1,2) [OF decodes_cons.prems(2) split] by (simp_all add: r1_def wf_reader_def)
  then have step: "step field_id (word_of_nat ty) s r1 = Inr (s1, r2)"
    using decodes_cons.hyps(2) unfolding r2_def reads_def by blast
  have r2: "wf_reader r2" "drop (pos r2) (data r2) = fields_code (last_field_id r2) fs @ rest"
    using after_bytes(1,2) [OF r1] by (simp_all add: r2_def r1_def wf_reader_def)
  then obtain prev where "field_loop m step s1 r2 =
      Inr (s2, r2\<lparr>pos := pos r2 + length (fields_code (last_field_id r2) fs), last_field_id := prev\<rparr>)"
    using decodes_cons.IH [of m r2] decodes_cons.prems(1) n by auto
  then show ?case
    using header step by (auto simp: n rbind_def r2_def r1_def add.assoc)
qed

lemma length_fields_code: "length fs < length (fields_code prev fs)"
proof (induction prev fs rule: fields_code.induct)
  case (2 prev field_id ty bs fs)
  then show ?case by (simp add: field_header_code_def)
qed simp

lemma read_fields_decodes:
  assumes "decodes step s fs s'" "wf_reader r" "drop (pos r) (data r) = fields_code (last_field_id r) fs @ rest"
  shows "\<exists>prev. read_fields step s r =
    Inr (s', r\<lparr>pos := pos r + length (fields_code (last_field_id r) fs), last_field_id := prev\<rparr>)"
proof -
  have "length (fields_code (last_field_id r) fs) \<le> remaining r"
    using after_bytes(3) [OF assms(2,3)] by (simp add: remaining_def)
  then have "length fs < Suc (remaining r)"
    using length_fields_code [of fs "last_field_id r"] by simp
  from field_loop_decodes [OF assms(1) this assms(2,3)] show ?thesis
    by (simp only: read_fields_def)
qed

lemma reads_struct:
  assumes "decodes step s fs s'"
  shows "reads (in_struct (read_fields step s)) (fields_code 0 fs) s'"
proof (rule readsI)
  fix r rest
  assume r: "wf_reader r" "drop (pos r) (data r) = fields_code 0 fs @ rest"
  let ?r = "r\<lparr>last_field_id := 0\<rparr>"
  have "wf_reader ?r" "drop (pos ?r) (data ?r) = fields_code (last_field_id ?r) fs @ rest"
    using r by (simp_all add: wf_reader_def)
  from read_fields_decodes [OF assms this]
  show "in_struct (read_fields step s) r = Inr (s', r\<lparr>pos := pos r + length (fields_code 0 fs)\<rparr>)"
    by (auto simp: in_struct_eq)
qed

section \<open>Properties\<close>

text \<open>
  Zigzag integers: every \<open>int64\<close> is read back from the varint of its zigzag encoding, and the
  reader stands right behind it.
\<close>

theorem read_zigzag_roundtrip:
  assumes "- (2 ^ 63) \<le> v" "v < 2 ^ 63"
  shows "read_zigzag (new_compact_reader (uvarint_enc (zigzag_nat v) @ rest)) =
    Inr (v, (new_compact_reader (uvarint_enc (zigzag_nat v) @ rest))\<lparr>pos := length (uvarint_enc (zigzag_nat v))\<rparr>)"
proof -
  let ?r = "new_compact_reader (uvarint_enc (zigzag_nat v) @ rest)"
  have "wf_reader ?r" "drop (pos ?r) (data ?r) = uvarint_enc (zigzag_nat v) @ rest" "pos ?r = 0"
    by (simp_all add: new_compact_reader_def wf_reader_def)
  with reads_read_zigzag [OF assms] show ?thesis
    by (simp add: reads_def)
qed

theorem read_zigzag_roundtrip_witness:
  "read_zigzag (new_compact_reader (uvarint_enc (zigzag_nat (- 3)) @ [7])) =
    Inr (- 3, (new_compact_reader (uvarint_enc (zigzag_nat (- 3)) @ [7]))\<lparr>pos := length (uvarint_enc (zigzag_nat (- 3)))\<rparr>)"
  by (rule read_zigzag_roundtrip) simp_all

text \<open>
  Skipping a value of unknown type always ends, whatever the bytes and however deep the value
  nests, and leaves the reader within its data, not before where it was.
\<close>

theorem skip_total:
  assumes "pos r \<le> length (data r)"
  shows "returns (skip ty r) \<and>
    (\<forall>r'. skip ty r = Inr ((), r') \<longrightarrow> data r' = data r \<and> pos r \<le> pos r' \<and> pos r' \<le> length (data r))"
proof -
  have "wf_reader r" "remaining r < Suc (remaining r)"
    using assms by (simp_all add: wf_reader_def)
  with parsesD [OF parses_skip, of "Suc (remaining r)" ty] show ?thesis
    unfolding parses_below_def advances_def by blast
qed

theorem skip_total_witness:
  "returns (skip 12 (new_compact_reader [0x15, 2, 0x19, 0x38, 1, 65, 0, 0]))"
  using skip_total [of "new_compact_reader [0x15, 2, 0x19, 0x38, 1, 65, 0, 0]" 12]
  by (simp add: new_compact_reader_def)

end
