(* ===== verification/Parquet_Metadata.thy ===== *)
theory Parquet_Metadata
  imports Parquet_Compact
begin

text \<open>
  src/data/parquet/metadata.go and the page-header parsers of src/data/parquet/reader.go.

  The Go structs are records; a pointer that may be nil is an option. A struct parser is the shared
  loop \<open>read_fields\<close> with the function's \<open>switch\<close> as its \<open>step\<close>. The locale \<open>struct_parser\<close> is the
  interface of that loop: what it asks of a \<open>switch\<close>, and what a parser then guarantees; it is
  interpreted on each of the eight parsers.
\<close>

section \<open>The code\<close>

record schema_element =
  se_typ :: int
  se_type_length :: int
  se_repetition :: int
  se_name :: "byte list"
  se_num_children :: int

record column_metadata =
  cm_typ :: int
  cm_encodings :: "int list"
  cm_path :: "byte list list"
  cm_codec :: int
  cm_num_values :: int
  cm_total_uncompressed :: int
  cm_total_compressed :: int
  cm_data_page_offset :: int
  cm_dictionary_page_offset :: int

record column_chunk =
  cc_file_path :: "byte list"
  cc_file_offset :: int
  cc_meta :: "column_metadata option"

record row_group =
  rg_columns :: "column_chunk list"
  rg_total_byte_size :: int
  rg_num_rows :: int

record file_metadata =
  fm_version :: int
  fm_schema :: "schema_element list"
  fm_num_rows :: int
  fm_row_groups :: "row_group list"

record data_page_header =
  dp_num_values :: int
  dp_encoding :: int
  dp_def_level :: int
  dp_rep_level :: int

record dictionary_page_header =
  di_num_values :: int
  di_encoding :: int

record raw_page_header =
  ph_typ :: int
  ph_uncompressed_size :: int
  ph_compressed_size :: int
  ph_header_len :: int
  ph_data :: "data_page_header option"
  ph_dictionary :: "dictionary_page_header option"

text \<open>Storing what \<open>p\<close> reads in the struct, and the \<open>int32\<close> fields.\<close>

definition store :: "'a reading \<Rightarrow> ('a \<Rightarrow> 's) \<Rightarrow> 's reading" where
  "store p upd = rbind p (\<lambda>v. rret (upd v))"

definition ignore :: "byte \<Rightarrow> 's \<Rightarrow> 's reading" where
  "ignore ty s = rbind (skip ty) (\<lambda>_. rret s)"

definition read_i32 :: "int reading" where
  "read_i32 = rbind read_zigzag (\<lambda>v. rret (i32 v))"

definition read_string :: "byte list reading" where
  "read_string = read_binary"

text \<open>\<open>make([]T, size)\<close> and the loop that fills it.\<close>

definition read_elems :: "int \<Rightarrow> int \<Rightarrow> 'a reading \<Rightarrow> 'a list reading" where
  "read_elems elem_size len p r = panic_if (\<not> make_ok elem_size len) (repeat_read (nat len) p r)"

definition read_typed_list :: "byte \<Rightarrow> int \<Rightarrow> 'a reading \<Rightarrow> 'a list reading" where
  "read_typed_list ty elem_size p = rbind read_list_header (\<lambda>(len, elem_type).
     if elem_type \<noteq> ty then rfail ErrBadCompact else read_elems elem_size len p)"

definition read_i32_list :: "int list reading" where
  "read_i32_list = rbind read_list_header (\<lambda>(len, elem_type).
     read_elems 4 len (if elem_type = 4 \<or> elem_type = 5 \<or> elem_type = 6 then read_i32 else rfail ErrBadCompact))"

definition read_string_list :: "byte list list reading" where
  "read_string_list = read_typed_list 8 16 read_string"

definition schema_element_step :: "int \<Rightarrow> byte \<Rightarrow> schema_element \<Rightarrow> schema_element reading" where
  "schema_element_step field_id ty e =
     (if field_id = 1 then store read_i32 (\<lambda>v. e\<lparr>se_typ := v\<rparr>)
      else if field_id = 2 then store read_i32 (\<lambda>v. e\<lparr>se_type_length := v\<rparr>)
      else if field_id = 3 then store read_i32 (\<lambda>v. e\<lparr>se_repetition := v\<rparr>)
      else if field_id = 4 then store read_string (\<lambda>v. e\<lparr>se_name := v\<rparr>)
      else if field_id = 5 then store read_i32 (\<lambda>v. e\<lparr>se_num_children := v\<rparr>)
      else ignore ty e)"

definition schema_element_zero :: schema_element where
  "schema_element_zero = \<lparr>se_typ = 0, se_type_length = 0, se_repetition = 0, se_name = [], se_num_children = 0\<rparr>"

definition parse_schema_element :: "schema_element reading" where
  "parse_schema_element = in_struct (read_fields schema_element_step schema_element_zero)"

definition parse_schema_element_list :: "schema_element list reading" where
  "parse_schema_element_list = read_typed_list 12 40 parse_schema_element"

definition column_metadata_step :: "int \<Rightarrow> byte \<Rightarrow> column_metadata \<Rightarrow> column_metadata reading" where
  "column_metadata_step field_id ty m =
     (if field_id = 1 then store read_i32 (\<lambda>v. m\<lparr>cm_typ := v\<rparr>)
      else if field_id = 2 then store read_i32_list (\<lambda>v. m\<lparr>cm_encodings := v\<rparr>)
      else if field_id = 3 then store read_string_list (\<lambda>v. m\<lparr>cm_path := v\<rparr>)
      else if field_id = 4 then store read_i32 (\<lambda>v. m\<lparr>cm_codec := v\<rparr>)
      else if field_id = 5 then store read_zigzag (\<lambda>v. m\<lparr>cm_num_values := v\<rparr>)
      else if field_id = 6 then store read_zigzag (\<lambda>v. m\<lparr>cm_total_uncompressed := v\<rparr>)
      else if field_id = 7 then store read_zigzag (\<lambda>v. m\<lparr>cm_total_compressed := v\<rparr>)
      else if field_id = 9 then store read_zigzag (\<lambda>v. m\<lparr>cm_data_page_offset := v\<rparr>)
      else if field_id = 11 then store read_zigzag (\<lambda>v. m\<lparr>cm_dictionary_page_offset := v\<rparr>)
      else ignore ty m)"

definition column_metadata_zero :: column_metadata where
  "column_metadata_zero = \<lparr>cm_typ = 0, cm_encodings = [], cm_path = [], cm_codec = 0, cm_num_values = 0,
     cm_total_uncompressed = 0, cm_total_compressed = 0, cm_data_page_offset = 0, cm_dictionary_page_offset = 0\<rparr>"

definition parse_column_metadata :: "column_metadata reading" where
  "parse_column_metadata = in_struct (read_fields column_metadata_step column_metadata_zero)"

definition column_chunk_step :: "int \<Rightarrow> byte \<Rightarrow> column_chunk \<Rightarrow> column_chunk reading" where
  "column_chunk_step field_id ty c =
     (if field_id = 1 then store read_string (\<lambda>v. c\<lparr>cc_file_path := v\<rparr>)
      else if field_id = 2 then store read_zigzag (\<lambda>v. c\<lparr>cc_file_offset := v\<rparr>)
      else if field_id = 3 then
        (if ty \<noteq> 12 then ignore ty c
         else store parse_column_metadata (\<lambda>v. c\<lparr>cc_meta := Some v\<rparr>))
      else ignore ty c)"

definition column_chunk_zero :: column_chunk where
  "column_chunk_zero = \<lparr>cc_file_path = [], cc_file_offset = 0, cc_meta = None\<rparr>"

definition parse_column_chunk :: "column_chunk reading" where
  "parse_column_chunk = in_struct (read_fields column_chunk_step column_chunk_zero)"

definition parse_column_chunk_list :: "column_chunk list reading" where
  "parse_column_chunk_list = read_typed_list 12 32 parse_column_chunk"

definition row_group_step :: "int \<Rightarrow> byte \<Rightarrow> row_group \<Rightarrow> row_group reading" where
  "row_group_step field_id ty g =
     (if field_id = 1 then store parse_column_chunk_list (\<lambda>v. g\<lparr>rg_columns := v\<rparr>)
      else if field_id = 2 then store read_zigzag (\<lambda>v. g\<lparr>rg_total_byte_size := v\<rparr>)
      else if field_id = 3 then store read_zigzag (\<lambda>v. g\<lparr>rg_num_rows := v\<rparr>)
      else ignore ty g)"

definition row_group_zero :: row_group where
  "row_group_zero = \<lparr>rg_columns = [], rg_total_byte_size = 0, rg_num_rows = 0\<rparr>"

definition parse_row_group :: "row_group reading" where
  "parse_row_group = in_struct (read_fields row_group_step row_group_zero)"

definition parse_row_group_list :: "row_group list reading" where
  "parse_row_group_list = read_typed_list 12 40 parse_row_group"

definition file_metadata_step :: "int \<Rightarrow> byte \<Rightarrow> file_metadata \<Rightarrow> file_metadata reading" where
  "file_metadata_step field_id ty m =
     (if field_id = 1 then store read_i32 (\<lambda>v. m\<lparr>fm_version := v\<rparr>)
      else if field_id = 2 then store parse_schema_element_list (\<lambda>v. m\<lparr>fm_schema := v\<rparr>)
      else if field_id = 3 then store read_zigzag (\<lambda>v. m\<lparr>fm_num_rows := v\<rparr>)
      else if field_id = 4 then store parse_row_group_list (\<lambda>v. m\<lparr>fm_row_groups := v\<rparr>)
      else ignore ty m)"

definition file_metadata_zero :: file_metadata where
  "file_metadata_zero = \<lparr>fm_version = 0, fm_schema = [], fm_num_rows = 0, fm_row_groups = []\<rparr>"

definition parse_file_metadata :: "byte list \<Rightarrow> file_metadata pq" where
  "parse_file_metadata bs =
     obind (read_fields file_metadata_step file_metadata_zero (new_compact_reader bs)) (\<lambda>(m, r). Inr m)"

text \<open>reader.go: the headers of the pages.\<close>

definition data_page_header_step :: "int \<Rightarrow> byte \<Rightarrow> data_page_header \<Rightarrow> data_page_header reading" where
  "data_page_header_step field_id ty h =
     (if field_id = 1 then store read_i32 (\<lambda>v. h\<lparr>dp_num_values := v\<rparr>)
      else if field_id = 2 then store read_i32 (\<lambda>v. h\<lparr>dp_encoding := v\<rparr>)
      else if field_id = 3 then store read_i32 (\<lambda>v. h\<lparr>dp_def_level := v\<rparr>)
      else if field_id = 4 then store read_i32 (\<lambda>v. h\<lparr>dp_rep_level := v\<rparr>)
      else ignore ty h)"

definition parse_data_page_header :: "data_page_header reading" where
  "parse_data_page_header = in_struct (read_fields data_page_header_step
     \<lparr>dp_num_values = 0, dp_encoding = 0, dp_def_level = 0, dp_rep_level = 0\<rparr>)"

definition dictionary_page_header_step ::
  "int \<Rightarrow> byte \<Rightarrow> dictionary_page_header \<Rightarrow> dictionary_page_header reading" where
  "dictionary_page_header_step field_id ty h =
     (if field_id = 1 then store read_i32 (\<lambda>v. h\<lparr>di_num_values := v\<rparr>)
      else if field_id = 2 then store read_i32 (\<lambda>v. h\<lparr>di_encoding := v\<rparr>)
      else ignore ty h)"

definition parse_dictionary_page_header :: "dictionary_page_header reading" where
  "parse_dictionary_page_header =
     in_struct (read_fields dictionary_page_header_step \<lparr>di_num_values = 0, di_encoding = 0\<rparr>)"

definition page_header_step :: "int \<Rightarrow> byte \<Rightarrow> raw_page_header \<Rightarrow> raw_page_header reading" where
  "page_header_step field_id ty h =
     (if field_id = 1 then store read_i32 (\<lambda>v. h\<lparr>ph_typ := v\<rparr>)
      else if field_id = 2 then store read_i32 (\<lambda>v. h\<lparr>ph_uncompressed_size := v\<rparr>)
      else if field_id = 3 then store read_i32 (\<lambda>v. h\<lparr>ph_compressed_size := v\<rparr>)
      else if field_id = 5 then store parse_data_page_header (\<lambda>v. h\<lparr>ph_data := Some v\<rparr>)
      else if field_id = 7 then store parse_dictionary_page_header (\<lambda>v. h\<lparr>ph_dictionary := Some v\<rparr>)
      else ignore ty h)"

definition page_header_zero :: raw_page_header where
  "page_header_zero = \<lparr>ph_typ = 0, ph_uncompressed_size = 0, ph_compressed_size = 0, ph_header_len = 0,
     ph_data = None, ph_dictionary = None\<rparr>"

definition parse_page_header :: "byte list \<Rightarrow> (raw_page_header \<times> nat) pq" where
  "parse_page_header bs =
     obind (read_fields page_header_step page_header_zero (new_compact_reader bs)) (\<lambda>(h, r). Inr (h, pos r))"

section \<open>The interface of a struct parser\<close>

lemma parses_store [intro]: "parses p \<Longrightarrow> parses (store p upd)"
  unfolding store_def by (intro parses_bind) auto

lemma parses_ignore [intro]: "parses (ignore ty s)"
  unfolding ignore_def by (intro parses_bind) auto

lemma parses_read_i32 [intro]: "parses read_i32"
  unfolding read_i32_def by (intro parses_bind) auto

lemma parses_read_string [intro]: "parses read_string"
  by (auto simp: read_string_def)

lemma parses_read_elems [intro]:
  assumes "parses p"
  shows "parses (read_elems elem_size len p)"
proof (rule parsesI)
  fix r assume "wf_reader r"
  moreover have "parses_below (Suc (remaining r)) (repeat_read (nat len) p)"
    using parses_repeat [OF assms] by (simp add: parses_def)
  ultimately show "returns (read_elems elem_size len p r)"
    "\<And>x r'. read_elems elem_size len p r = Inr (x, r') \<Longrightarrow> advances r r'"
    by (auto simp: read_elems_def parses_below_def outcome_Inr intro!: returns_intros)
qed

lemma parses_read_typed_list [intro]: "parses p \<Longrightarrow> parses (read_typed_list ty elem_size p)"
  unfolding read_typed_list_def by (intro parses_bind) auto

lemma parses_read_i32_list [intro]: "parses read_i32_list"
  unfolding read_i32_list_def by (intro parses_bind) (auto split: prod.split)

lemma parses_read_string_list [intro]: "parses read_string_list"
  by (auto simp: read_string_list_def)

lemma store_reads: "reads p bs v \<Longrightarrow> x = upd v \<Longrightarrow> reads (store p upd) bs x"
  unfolding store_def by (simp add: reads_map)

locale struct_parser =
  fixes step :: "int \<Rightarrow> byte \<Rightarrow> 's \<Rightarrow> 's reading" and init :: 's
  assumes step_parses: "parses (step field_id ty s)"
begin

lemma nested_parses: "parses (in_struct (read_fields step init))"
  by (intro parses_in_struct parses_read_fields step_parses)

lemma toplevel_parses: "parses (read_fields step init)"
  by (intro parses_read_fields step_parses)

lemma toplevel_returns: "returns (read_fields step init (new_compact_reader bs))"
  using toplevel_parses by (rule parses_new)

lemma toplevel_bound: "read_fields step init (new_compact_reader bs) = Inr (s, r) \<Longrightarrow> pos r \<le> length bs"
  using parses_new(2) [OF toplevel_parses] by blast

lemma toplevel_progress: "read_fields step init (new_compact_reader bs) = Inr (s, r) \<Longrightarrow> 0 < pos r"
  by (drule read_fields_progress [OF step_parses, rotated])
    (simp_all add: new_compact_reader_def wf_reader_def)

lemma toplevel_reads:
  assumes "decodes step init fs s"
  shows "\<exists>prev. read_fields step init (new_compact_reader (fields_code 0 fs @ rest)) =
    Inr (s, \<lparr>data = fields_code 0 fs @ rest, pos = length (fields_code 0 fs), last_field_id = prev\<rparr>)"
  using read_fields_decodes [OF assms, of "new_compact_reader (fields_code 0 fs @ rest)" rest]
  by (simp add: new_compact_reader_def wf_reader_def)

end

interpretation schema_element_parser: struct_parser schema_element_step schema_element_zero
  by unfold_locales (auto simp: schema_element_step_def)

lemma parses_schema_element_list [intro]: "parses parse_schema_element_list"
  unfolding parse_schema_element_list_def parse_schema_element_def
  using schema_element_parser.nested_parses by auto

interpretation column_metadata_parser: struct_parser column_metadata_step column_metadata_zero
  by unfold_locales (auto simp: column_metadata_step_def)

interpretation column_chunk_parser: struct_parser column_chunk_step column_chunk_zero
  using column_metadata_parser.nested_parses
  by unfold_locales (auto simp: column_chunk_step_def parse_column_metadata_def)

lemma parses_column_chunk_list [intro]: "parses parse_column_chunk_list"
  unfolding parse_column_chunk_list_def parse_column_chunk_def
  using column_chunk_parser.nested_parses by auto

interpretation row_group_parser: struct_parser row_group_step row_group_zero
  by unfold_locales (auto simp: row_group_step_def)

lemma parses_row_group_list [intro]: "parses parse_row_group_list"
  unfolding parse_row_group_list_def parse_row_group_def
  using row_group_parser.nested_parses by auto

interpretation file_metadata_parser: struct_parser file_metadata_step file_metadata_zero
  by unfold_locales (auto simp: file_metadata_step_def)

interpretation data_page_header_parser: struct_parser data_page_header_step
  "\<lparr>dp_num_values = 0, dp_encoding = 0, dp_def_level = 0, dp_rep_level = 0\<rparr>"
  by unfold_locales (auto simp: data_page_header_step_def)

interpretation dictionary_page_header_parser: struct_parser dictionary_page_header_step
  "\<lparr>di_num_values = 0, di_encoding = 0\<rparr>"
  by unfold_locales (auto simp: dictionary_page_header_step_def)

interpretation page_header_parser: struct_parser page_header_step page_header_zero
  using data_page_header_parser.nested_parses dictionary_page_header_parser.nested_parses
  by unfold_locales
    (auto simp: page_header_step_def parse_data_page_header_def parse_dictionary_page_header_def)

lemma returns_parse_file_metadata [simp]: "returns (parse_file_metadata bs)"
  unfolding parse_file_metadata_def
  by (intro returns_intros file_metadata_parser.toplevel_returns returns_simps)

lemma returns_parse_page_header [simp]: "returns (parse_page_header bs)"
  unfolding parse_page_header_def
  by (intro returns_intros page_header_parser.toplevel_returns returns_simps)

lemma parse_page_header_bound: "parse_page_header bs = Inr (h, n) \<Longrightarrow> 0 < n \<and> n \<le> length bs"
  by (auto simp: parse_page_header_def outcome_Inr
      dest: page_header_parser.toplevel_bound page_header_parser.toplevel_progress)

section \<open>Encodings of the structs\<close>

text \<open>
  What a writer of the format puts in the file: every field present, in the order of its id (the
  column metadata only when there is one), with the type codes of parquet.thrift.
\<close>

definition z :: "int \<Rightarrow> byte list" where
  "z v = uvarint_enc (zigzag_nat v)"

definition is_i32 :: "int \<Rightarrow> bool" where
  "is_i32 v \<longleftrightarrow> - (2 ^ 31) \<le> v \<and> v < 2 ^ 31"

definition is_i64 :: "int \<Rightarrow> bool" where
  "is_i64 v \<longleftrightarrow> - (2 ^ 63) \<le> v \<and> v < 2 ^ 63"

definition list_code :: "nat \<Rightarrow> ('a \<Rightarrow> byte list) \<Rightarrow> 'a list \<Rightarrow> byte list" where
  "list_code ty code xs = list_header_code (length xs) ty @ concat (map code xs)"

definition schema_element_fields :: "schema_element \<Rightarrow> field list" where
  "schema_element_fields e =
     [(1, 5, z (se_typ e)), (2, 5, z (se_type_length e)), (3, 5, z (se_repetition e)),
      (4, 8, plain_code (se_name e)), (5, 5, z (se_num_children e))]"

definition schema_element_ok :: "schema_element \<Rightarrow> bool" where
  "schema_element_ok e \<longleftrightarrow> is_i32 (se_typ e) \<and> is_i32 (se_type_length e) \<and> is_i32 (se_repetition e) \<and>
     length (se_name e) < 2 ^ 63 \<and> is_i32 (se_num_children e)"

definition column_metadata_fields :: "column_metadata \<Rightarrow> field list" where
  "column_metadata_fields m =
     [(1, 5, z (cm_typ m)), (2, 9, list_code 5 z (cm_encodings m)), (3, 9, list_code 8 plain_code (cm_path m)),
      (4, 5, z (cm_codec m)), (5, 6, z (cm_num_values m)), (6, 6, z (cm_total_uncompressed m)),
      (7, 6, z (cm_total_compressed m)), (9, 6, z (cm_data_page_offset m)),
      (11, 6, z (cm_dictionary_page_offset m))]"

definition column_metadata_ok :: "column_metadata \<Rightarrow> bool" where
  "column_metadata_ok m \<longleftrightarrow> is_i32 (cm_typ m) \<and>
     (\<forall>e \<in> set (cm_encodings m). is_i32 e) \<and> length (cm_encodings m) \<le> 2 ^ 46 \<and>
     (\<forall>s \<in> set (cm_path m). length s < 2 ^ 63) \<and> length (cm_path m) \<le> 2 ^ 44 \<and>
     is_i32 (cm_codec m) \<and> is_i64 (cm_num_values m) \<and> is_i64 (cm_total_uncompressed m) \<and>
     is_i64 (cm_total_compressed m) \<and> is_i64 (cm_data_page_offset m) \<and> is_i64 (cm_dictionary_page_offset m)"

definition column_chunk_fields :: "column_chunk \<Rightarrow> field list" where
  "column_chunk_fields c =
     [(1, 8, plain_code (cc_file_path c)), (2, 6, z (cc_file_offset c))] @
     (case cc_meta c of None \<Rightarrow> [] | Some m \<Rightarrow> [(3, 12, fields_code 0 (column_metadata_fields m))])"

definition column_chunk_ok :: "column_chunk \<Rightarrow> bool" where
  "column_chunk_ok c \<longleftrightarrow> length (cc_file_path c) < 2 ^ 63 \<and> is_i64 (cc_file_offset c) \<and>
     (case cc_meta c of None \<Rightarrow> True | Some m \<Rightarrow> column_metadata_ok m)"

definition row_group_fields :: "row_group \<Rightarrow> field list" where
  "row_group_fields g =
     [(1, 9, list_code 12 (\<lambda>c. fields_code 0 (column_chunk_fields c)) (rg_columns g)),
      (2, 6, z (rg_total_byte_size g)), (3, 6, z (rg_num_rows g))]"

definition row_group_ok :: "row_group \<Rightarrow> bool" where
  "row_group_ok g \<longleftrightarrow> (\<forall>c \<in> set (rg_columns g). column_chunk_ok c) \<and> length (rg_columns g) \<le> 2 ^ 42 \<and>
     is_i64 (rg_total_byte_size g) \<and> is_i64 (rg_num_rows g)"

definition file_metadata_fields :: "file_metadata \<Rightarrow> field list" where
  "file_metadata_fields m =
     [(1, 5, z (fm_version m)),
      (2, 9, list_code 12 (\<lambda>e. fields_code 0 (schema_element_fields e)) (fm_schema m)),
      (3, 6, z (fm_num_rows m)),
      (4, 9, list_code 12 (\<lambda>g. fields_code 0 (row_group_fields g)) (fm_row_groups m))]"

definition file_metadata_ok :: "file_metadata \<Rightarrow> bool" where
  "file_metadata_ok m \<longleftrightarrow> is_i32 (fm_version m) \<and>
     (\<forall>e \<in> set (fm_schema m). schema_element_ok e) \<and> length (fm_schema m) \<le> 2 ^ 42 \<and>
     is_i64 (fm_num_rows m) \<and>
     (\<forall>g \<in> set (fm_row_groups m). row_group_ok g) \<and> length (fm_row_groups m) \<le> 2 ^ 42"

section \<open>Reading the encodings back\<close>

text \<open>A field whose \<open>step\<close> does \<open>upd\<close> to the struct.\<close>

definition field_reads :: "(int \<Rightarrow> byte \<Rightarrow> 's \<Rightarrow> 's reading) \<Rightarrow> field \<Rightarrow> ('s \<Rightarrow> 's) \<Rightarrow> bool" where
  "field_reads step f upd \<longleftrightarrow> field_ok f \<and>
     (case f of (field_id, ty, bs) \<Rightarrow> \<forall>s. reads (step field_id (word_of_nat ty) s) bs (upd s))"

lemma decodes_updates:
  "list_all2 (field_reads step) fs upds \<Longrightarrow> decodes step s fs (fold (\<lambda>upd. upd) upds s)"
proof (induction fs arbitrary: upds s)
  case (Cons f fs)
  then obtain upd upds' where "upds = upd # upds'" "field_reads step f upd" "list_all2 (field_reads step) fs upds'"
    by (auto simp: list_all2_Cons1)
  moreover from this have "decodes step (upd s) fs (fold (\<lambda>upd. upd) upds' (upd s))"
    using Cons.IH by blast
  ultimately show ?case
    by (cases f) (auto simp: field_reads_def intro: decodes_cons)
qed (simp add: decodes_nil)

lemma reads_i32: "is_i32 v \<Longrightarrow> reads read_i32 (z v) v"
  using reads_map [OF reads_read_zigzag [of v], of i32] i32_id [of v]
  by (simp add: is_i32_def read_i32_def z_def)

lemma reads_i64: "is_i64 v \<Longrightarrow> reads read_zigzag (z v) v"
  by (simp add: is_i64_def z_def reads_read_zigzag)

lemma reads_string: "length v < 2 ^ 63 \<Longrightarrow> reads read_string (plain_code v) v"
  unfolding read_string_def by (rule reads_read_binary)

lemma reads_elems:
  assumes "\<And>x. x \<in> set xs \<Longrightarrow> reads p (code x) x" "int (length xs) * elem_size \<le> 2 ^ 48"
  shows "reads (read_elems elem_size (int (length xs)) p) (concat (map code xs)) xs"
proof -
  have "make_ok elem_size (int (length xs))"
    using assms(2) by (simp add: make_ok_def)
  then have "read_elems elem_size (int (length xs)) p = repeat_read (length xs) p"
    by (simp add: read_elems_def fun_eq_iff)
  with reads_repeat [of xs p code "\<lambda>x. x"] assms(1) show ?thesis by simp
qed

lemma reads_typed_list:
  assumes "\<And>x. x \<in> set xs \<Longrightarrow> reads p (code x) x" "int (length xs) * elem_size \<le> 2 ^ 48"
    "ty < 16" "length xs < 2 ^ 63"
  shows "reads (read_typed_list (word_of_nat ty) elem_size p) (list_code ty code xs) xs"
  unfolding read_typed_list_def list_code_def using assms
  by (intro reads_bind [OF reads_list_header]) (simp_all add: reads_elems)

lemma reads_i32_list:
  assumes "\<forall>v \<in> set vs. is_i32 v" "length vs \<le> 2 ^ 46"
  shows "reads read_i32_list (list_code 5 z vs) vs"
proof -
  have "reads read_i32_list (list_header_code (length vs) 5 @ concat (map z vs)) vs"
    unfolding read_i32_list_def using assms
    by (intro reads_bind [OF reads_list_header]) (simp_all add: reads_elems reads_i32)
  then show ?thesis by (simp add: list_code_def)
qed

lemma reads_string_list:
  assumes "\<forall>v \<in> set vs. length v < 2 ^ 63" "length vs \<le> 2 ^ 44"
  shows "reads read_string_list (list_code 8 plain_code vs) vs"
  unfolding read_string_list_def
  using reads_typed_list [of vs read_string plain_code 16 8] assms by (simp add: reads_string)

lemmas field_reads_simps = field_reads_def field_ok_def store_reads [OF reads_i32]
  store_reads [OF reads_i64] store_reads [OF reads_string]

lemma reads_schema_element:
  assumes "schema_element_ok e"
  shows "reads parse_schema_element (fields_code 0 (schema_element_fields e)) e"
proof -
  let ?upds = "[se_typ_update (\<lambda>_. se_typ e), se_type_length_update (\<lambda>_. se_type_length e),
    se_repetition_update (\<lambda>_. se_repetition e), se_name_update (\<lambda>_. se_name e),
    se_num_children_update (\<lambda>_. se_num_children e)]"
  have "list_all2 (field_reads schema_element_step) (schema_element_fields e) ?upds"
    using assms by (simp add: schema_element_fields_def schema_element_ok_def schema_element_step_def field_reads_simps)
  from reads_struct [OF decodes_updates [OF this], of schema_element_zero] show ?thesis
    by (cases e) (simp add: parse_schema_element_def schema_element_zero_def)
qed

lemma reads_column_metadata:
  assumes "column_metadata_ok m"
  shows "reads parse_column_metadata (fields_code 0 (column_metadata_fields m)) m"
proof -
  let ?upds = "[cm_typ_update (\<lambda>_. cm_typ m), cm_encodings_update (\<lambda>_. cm_encodings m),
    cm_path_update (\<lambda>_. cm_path m), cm_codec_update (\<lambda>_. cm_codec m),
    cm_num_values_update (\<lambda>_. cm_num_values m), cm_total_uncompressed_update (\<lambda>_. cm_total_uncompressed m),
    cm_total_compressed_update (\<lambda>_. cm_total_compressed m),
    cm_data_page_offset_update (\<lambda>_. cm_data_page_offset m),
    cm_dictionary_page_offset_update (\<lambda>_. cm_dictionary_page_offset m)]"
  have "list_all2 (field_reads column_metadata_step) (column_metadata_fields m) ?upds"
    using assms by (simp add: column_metadata_fields_def column_metadata_ok_def column_metadata_step_def
        field_reads_simps store_reads [OF reads_i32_list] store_reads [OF reads_string_list])
  from reads_struct [OF decodes_updates [OF this], of column_metadata_zero] show ?thesis
    by (cases m) (simp add: parse_column_metadata_def column_metadata_zero_def)
qed

lemma reads_column_chunk:
  assumes "column_chunk_ok c"
  shows "reads parse_column_chunk (fields_code 0 (column_chunk_fields c)) c"
proof -
  let ?upds = "[cc_file_path_update (\<lambda>_. cc_file_path c), cc_file_offset_update (\<lambda>_. cc_file_offset c)] @
    (case cc_meta c of None \<Rightarrow> [] | Some m \<Rightarrow> [cc_meta_update (\<lambda>_. Some m)])"
  have "list_all2 (field_reads column_chunk_step) (column_chunk_fields c) ?upds"
    using assms by (auto simp: column_chunk_fields_def column_chunk_ok_def column_chunk_step_def
        field_reads_simps store_reads [OF reads_column_metadata] split: option.split)
  from reads_struct [OF decodes_updates [OF this], of column_chunk_zero] show ?thesis
    by (cases c; cases "cc_meta c") (simp_all add: parse_column_chunk_def column_chunk_zero_def)
qed

lemma reads_column_chunk_list:
  assumes "\<forall>c \<in> set cs. column_chunk_ok c" "length cs \<le> 2 ^ 42"
  shows "reads parse_column_chunk_list (list_code 12 (\<lambda>c. fields_code 0 (column_chunk_fields c)) cs) cs"
  unfolding parse_column_chunk_list_def
  using reads_typed_list [of cs parse_column_chunk _ 32 12] assms by (simp add: reads_column_chunk)

lemma reads_row_group:
  assumes "row_group_ok g"
  shows "reads parse_row_group (fields_code 0 (row_group_fields g)) g"
proof -
  let ?upds = "[rg_columns_update (\<lambda>_. rg_columns g), rg_total_byte_size_update (\<lambda>_. rg_total_byte_size g),
    rg_num_rows_update (\<lambda>_. rg_num_rows g)]"
  have "list_all2 (field_reads row_group_step) (row_group_fields g) ?upds"
    using assms by (simp add: row_group_fields_def row_group_ok_def row_group_step_def
        field_reads_simps store_reads [OF reads_column_chunk_list])
  from reads_struct [OF decodes_updates [OF this], of row_group_zero] show ?thesis
    by (cases g) (simp add: parse_row_group_def row_group_zero_def)
qed

lemma decodes_file_metadata:
  assumes "file_metadata_ok m"
  shows "decodes file_metadata_step file_metadata_zero (file_metadata_fields m) m"
proof -
  let ?upds = "[fm_version_update (\<lambda>_. fm_version m), fm_schema_update (\<lambda>_. fm_schema m),
    fm_num_rows_update (\<lambda>_. fm_num_rows m), fm_row_groups_update (\<lambda>_. fm_row_groups m)]"
  have schema: "reads parse_schema_element_list (list_code 12 (\<lambda>e. fields_code 0 (schema_element_fields e)) (fm_schema m)) (fm_schema m)"
    unfolding parse_schema_element_list_def
    using reads_typed_list [of "fm_schema m" parse_schema_element _ 40 12] assms
    by (simp add: reads_schema_element file_metadata_ok_def)
  have groups: "reads parse_row_group_list (list_code 12 (\<lambda>g. fields_code 0 (row_group_fields g)) (fm_row_groups m)) (fm_row_groups m)"
    unfolding parse_row_group_list_def
    using reads_typed_list [of "fm_row_groups m" parse_row_group _ 40 12] assms
    by (simp add: reads_row_group file_metadata_ok_def)
  have "list_all2 (field_reads file_metadata_step) (file_metadata_fields m) ?upds"
    using assms by (simp add: file_metadata_fields_def file_metadata_ok_def file_metadata_step_def
        field_reads_simps store_reads [OF schema] store_reads [OF groups])
  from decodes_updates [OF this, of file_metadata_zero] show ?thesis
    by (cases m) (simp add: file_metadata_zero_def)
qed

subsection \<open>Page headers\<close>

definition data_page_fields :: "data_page_header \<Rightarrow> field list" where
  "data_page_fields h =
     [(1, 5, z (dp_num_values h)), (2, 5, z (dp_encoding h)), (3, 5, z (dp_def_level h)), (4, 5, z (dp_rep_level h))]"

definition data_page_ok :: "data_page_header \<Rightarrow> bool" where
  "data_page_ok h \<longleftrightarrow> is_i32 (dp_num_values h) \<and> is_i32 (dp_encoding h) \<and> is_i32 (dp_def_level h) \<and> is_i32 (dp_rep_level h)"

definition dictionary_page_fields :: "dictionary_page_header \<Rightarrow> field list" where
  "dictionary_page_fields h = [(1, 5, z (di_num_values h)), (2, 5, z (di_encoding h))]"

definition dictionary_page_ok :: "dictionary_page_header \<Rightarrow> bool" where
  "dictionary_page_ok h \<longleftrightarrow> is_i32 (di_num_values h) \<and> is_i32 (di_encoding h)"

definition page_header_fields :: "raw_page_header \<Rightarrow> field list" where
  "page_header_fields h =
     [(1, 5, z (ph_typ h)), (2, 5, z (ph_uncompressed_size h)), (3, 5, z (ph_compressed_size h))] @
     (case ph_data h of None \<Rightarrow> [] | Some d \<Rightarrow> [(5, 12, fields_code 0 (data_page_fields d))]) @
     (case ph_dictionary h of None \<Rightarrow> [] | Some d \<Rightarrow> [(7, 12, fields_code 0 (dictionary_page_fields d))])"

definition page_header_ok :: "raw_page_header \<Rightarrow> bool" where
  "page_header_ok h \<longleftrightarrow> is_i32 (ph_typ h) \<and> is_i32 (ph_uncompressed_size h) \<and> is_i32 (ph_compressed_size h) \<and>
     ph_header_len h = 0 \<and>
     (case ph_data h of None \<Rightarrow> True | Some d \<Rightarrow> data_page_ok d) \<and>
     (case ph_dictionary h of None \<Rightarrow> True | Some d \<Rightarrow> dictionary_page_ok d)"

lemma reads_data_page_header:
  assumes "data_page_ok h"
  shows "reads parse_data_page_header (fields_code 0 (data_page_fields h)) h"
proof -
  let ?upds = "[dp_num_values_update (\<lambda>_. dp_num_values h), dp_encoding_update (\<lambda>_. dp_encoding h),
    dp_def_level_update (\<lambda>_. dp_def_level h), dp_rep_level_update (\<lambda>_. dp_rep_level h)]"
  have "list_all2 (field_reads data_page_header_step) (data_page_fields h) ?upds"
    using assms by (simp add: data_page_fields_def data_page_ok_def data_page_header_step_def field_reads_simps)
  from reads_struct [OF decodes_updates [OF this],
      of "\<lparr>dp_num_values = 0, dp_encoding = 0, dp_def_level = 0, dp_rep_level = 0\<rparr>"] show ?thesis
    unfolding parse_data_page_header_def by (cases h) simp
qed

lemma reads_dictionary_page_header:
  assumes "dictionary_page_ok h"
  shows "reads parse_dictionary_page_header (fields_code 0 (dictionary_page_fields h)) h"
proof -
  let ?upds = "[di_num_values_update (\<lambda>_. di_num_values h), di_encoding_update (\<lambda>_. di_encoding h)]"
  have "list_all2 (field_reads dictionary_page_header_step) (dictionary_page_fields h) ?upds"
    using assms by (simp add: dictionary_page_fields_def dictionary_page_ok_def
        dictionary_page_header_step_def field_reads_simps)
  from reads_struct [OF decodes_updates [OF this], of "\<lparr>di_num_values = 0, di_encoding = 0\<rparr>"] show ?thesis
    unfolding parse_dictionary_page_header_def by (cases h) simp
qed

lemma decodes_page_header:
  assumes "page_header_ok h"
  shows "decodes page_header_step page_header_zero (page_header_fields h) h"
proof -
  let ?upds = "[ph_typ_update (\<lambda>_. ph_typ h), ph_uncompressed_size_update (\<lambda>_. ph_uncompressed_size h),
      ph_compressed_size_update (\<lambda>_. ph_compressed_size h)] @
    (case ph_data h of None \<Rightarrow> [] | Some d \<Rightarrow> [ph_data_update (\<lambda>_. Some d)]) @
    (case ph_dictionary h of None \<Rightarrow> [] | Some d \<Rightarrow> [ph_dictionary_update (\<lambda>_. Some d)])"
  have "list_all2 (field_reads page_header_step) (page_header_fields h) ?upds"
    using assms by (auto simp: page_header_fields_def page_header_ok_def page_header_step_def field_reads_simps
        store_reads [OF reads_data_page_header] store_reads [OF reads_dictionary_page_header] split: option.split)
  from decodes_updates [OF this, of page_header_zero] show ?thesis
    using assms by (cases h; cases "ph_data h"; cases "ph_dictionary h")
      (simp_all add: page_header_zero_def page_header_ok_def)
qed

section \<open>Properties\<close>

text \<open>
  C18. Footer round trip: whatever file metadata a writer encodes in Thrift's compact protocol, with
  all nested schema elements, row groups, column chunks and column metadata, the parser returns
  exactly that metadata, and ignores bytes after the final stop field.
\<close>

theorem parse_file_metadata_roundtrip:
  assumes "file_metadata_ok m"
  shows "parse_file_metadata (fields_code 0 (file_metadata_fields m) @ rest) = Inr m"
  using file_metadata_parser.toplevel_reads [OF decodes_file_metadata [OF assms], of rest]
  by (auto simp: parse_file_metadata_def)

theorem parse_file_metadata_roundtrip_witness:
  "parse_file_metadata (fields_code 0 (file_metadata_fields
      \<lparr>fm_version = 1, fm_schema = [\<lparr>se_typ = 6, se_type_length = 0, se_repetition = 0, se_name = [116], se_num_children = 0\<rparr>],
       fm_num_rows = 3, fm_row_groups = [\<lparr>rg_columns = [\<lparr>cc_file_path = [], cc_file_offset = 4, cc_meta = None\<rparr>],
         rg_total_byte_size = 20, rg_num_rows = 3\<rparr>]\<rparr>) @ []) =
    Inr \<lparr>fm_version = 1, fm_schema = [\<lparr>se_typ = 6, se_type_length = 0, se_repetition = 0, se_name = [116], se_num_children = 0\<rparr>],
       fm_num_rows = 3, fm_row_groups = [\<lparr>rg_columns = [\<lparr>cc_file_path = [], cc_file_offset = 4, cc_meta = None\<rparr>],
         rg_total_byte_size = 20, rg_num_rows = 3\<rparr>]\<rparr>"
  by (rule parse_file_metadata_roundtrip)
    (simp add: file_metadata_ok_def schema_element_ok_def row_group_ok_def column_chunk_ok_def is_i32_def is_i64_def)

text \<open>
  Page-header round trip: an encoded page header, of a data page, a dictionary page or both, is
  read back, together with its length in bytes, which is where the page's data begins.
\<close>

theorem parse_page_header_roundtrip:
  assumes "page_header_ok h"
  shows "parse_page_header (fields_code 0 (page_header_fields h) @ rest) =
    Inr (h, length (fields_code 0 (page_header_fields h)))"
  using page_header_parser.toplevel_reads [OF decodes_page_header [OF assms], of rest]
  by (auto simp: parse_page_header_def)

theorem parse_page_header_roundtrip_witness:
  "parse_page_header (fields_code 0 (page_header_fields
      \<lparr>ph_typ = 0, ph_uncompressed_size = 12, ph_compressed_size = 12, ph_header_len = 0,
       ph_data = Some \<lparr>dp_num_values = 3, dp_encoding = 8, dp_def_level = 3, dp_rep_level = 3\<rparr>, ph_dictionary = None\<rparr>) @ [1, 2]) =
    Inr (\<lparr>ph_typ = 0, ph_uncompressed_size = 12, ph_compressed_size = 12, ph_header_len = 0,
       ph_data = Some \<lparr>dp_num_values = 3, dp_encoding = 8, dp_def_level = 3, dp_rep_level = 3\<rparr>, ph_dictionary = None\<rparr>,
      length (fields_code 0 (page_header_fields
      \<lparr>ph_typ = 0, ph_uncompressed_size = 12, ph_compressed_size = 12, ph_header_len = 0,
       ph_data = Some \<lparr>dp_num_values = 3, dp_encoding = 8, dp_def_level = 3, dp_rep_level = 3\<rparr>, ph_dictionary = None\<rparr>)))"
  by (rule parse_page_header_roundtrip) (simp add: page_header_ok_def data_page_ok_def is_i32_def)

text \<open>
  On arbitrary bytes the footer parser and the page-header parser always come to an end, and a
  page header never claims more bytes than there are.
\<close>

theorem parsers_total:
  "returns (parse_file_metadata bs) \<and> returns (parse_page_header bs) \<and>
    (case parse_page_header bs of Inl e \<Rightarrow> True | Inr (h, n) \<Rightarrow> n \<le> length bs)"
  by (auto split: sum.split dest: parse_page_header_bound)

end
