(* ===== verification/Parquet_Reader.thy ===== *)
theory Parquet_Reader
  imports Parquet_Metadata
begin

text \<open>
  src/data/parquet/reader.go: opening a file and reading its columns.

  A file is the list of its bytes; opening it by name, \<open>Stat\<close> and \<open>Close\<close> are not modelled. \<open>read_at\<close>
  is \<open>ReadAt\<close> on such a file: the bytes there are and whether there were fewer than asked for
  (\<open>io.EOF\<close>). Any error of the operating system is the one error \<open>ErrRead\<close>.
\<close>

section \<open>The code\<close>

definition read_at :: "byte list \<Rightarrow> nat \<Rightarrow> int \<Rightarrow> (byte list \<times> bool) pq" where
  "read_at file len off =
     fail_if (off < 0) ErrRead
       (let got = take len (drop (nat off) file) in Inr (got, length got < len))"

text \<open>\<open>ReadAt\<close> where the caller takes \<open>io.EOF\<close> for an error too.\<close>

definition read_full :: "byte list \<Rightarrow> nat \<Rightarrow> int \<Rightarrow> (byte list) pq" where
  "read_full file len off = obind (read_at file len off) (\<lambda>(got, eof). fail_if eof ErrRead (Inr got))"

record parquet_reader =
  rd_file :: "byte list"
  rd_meta :: file_metadata

definition par1 :: "byte list" where
  "par1 = [80, 65, 82, 49]"

definition open_parquet :: "byte list \<Rightarrow> parquet_reader pq" where
  "open_parquet file =
     (let file_size = int (length file) in
      fail_if (file_size < 12) ErrBadParquet
        (obind (read_full file 8 (file_size - 8)) (\<lambda>tail.
           fail_if (drop 4 tail \<noteq> par1) ErrBadParquet
             (obind (read_le 4 (take 4 tail)) (\<lambda>meta_len.
                fail_if (int meta_len \<le> 0 \<or> int meta_len > file_size - 8) ErrBadParquet
                  (panic_if (\<not> make_ok 1 (int meta_len))
                    (obind (read_full file meta_len (file_size - 8 - int meta_len)) (\<lambda>meta_bytes.
                       obind (parse_file_metadata meta_bytes) (\<lambda>meta.
                         Inr \<lparr>rd_file = file, rd_meta = meta\<rparr>)))))))))"

definition num_row_groups :: "parquet_reader \<Rightarrow> nat" where
  "num_row_groups rd = length (fm_row_groups (rd_meta rd))"

definition num_rows :: "parquet_reader \<Rightarrow> int" where
  "num_rows rd = fm_num_rows (rd_meta rd)"

text \<open>Indexing a Go slice with an \<open>int\<close>.\<close>

definition go_index :: "'a list \<Rightarrow> int \<Rightarrow> ('e, 'a) outcome" where
  "go_index xs i = panic_if (i < 0 \<or> i \<ge> int (length xs)) (Inr (xs ! nat i))"

definition row_group_num_rows :: "parquet_reader \<Rightarrow> int \<Rightarrow> int pq" where
  "row_group_num_rows rd i = obind (go_index (fm_row_groups (rd_meta rd)) i) (\<lambda>g. Inr (rg_num_rows g))"

text \<open>The name of a flat column: the last component of its path.\<close>

definition chunk_name :: "column_chunk \<Rightarrow> byte list option" where
  "chunk_name c =
     (case cc_meta c of None \<Rightarrow> None
      | Some m \<Rightarrow> if cm_path m = [] then None else Some (last (cm_path m)))"

fun add_names :: "column_chunk list \<Rightarrow> byte list list \<Rightarrow> byte list list" where
  "add_names [] names = names"
| "add_names (c # cs) names =
     (case chunk_name c of None \<Rightarrow> add_names cs names
      | Some name \<Rightarrow> add_names cs (if name \<in> set names then names else names @ [name]))"

definition column_names :: "parquet_reader \<Rightarrow> byte list list" where
  "column_names rd = add_names (concat (map rg_columns (fm_row_groups (rd_meta rd)))) []"

definition find_chunk :: "parquet_reader \<Rightarrow> int \<Rightarrow> byte list \<Rightarrow> (column_chunk option) pq" where
  "find_chunk rd i name =
     obind (go_index (fm_row_groups (rd_meta rd)) i) (\<lambda>g.
       Inr (find (\<lambda>c. chunk_name c = Some name) (rg_columns g)))"

definition decode_dict_int :: "byte list \<Rightarrow> int" where
  "decode_dict_int encoded =
     (if length encoded = 4 then i32 (int (le_nat encoded))
      else if length encoded = 8 then i32 (int (le_nat encoded))
      else 0)"

definition decompress :: "byte list \<Rightarrow> int \<Rightarrow> (byte list) pq" where
  "decompress bs codec =
     (if codec = 0 then Inr bs
      else if codec = 1 then snappy_decode bs
      else Inl (Fail (ErrCodec codec)))"

definition read_page_at :: "byte list \<Rightarrow> int \<Rightarrow> int \<Rightarrow> (raw_page_header \<times> byte list) pq" where
  "read_page_at file offset codec =
     obind (read_at file (2 ^ 16) offset) (\<lambda>(window, _).
       obind (parse_page_header window) (\<lambda>(header, consumed).
         let header = header\<lparr>ph_header_len := int consumed\<rparr> in
         panic_if (\<not> make_ok 1 (ph_compressed_size header))
           (obind (read_full file (nat (ph_compressed_size header)) (i64 (offset + int consumed))) (\<lambda>compressed.
              obind (decompress compressed codec) (\<lambda>page_data. Inr (header, page_data))))))"

record raw_page =
  rp_num_values :: int
  rp_encoding :: int
  rp_data :: "byte list"

definition next_offset :: "int \<Rightarrow> raw_page_header \<Rightarrow> int" where
  "next_offset offset h = i64 (offset + i64 (ph_header_len h + ph_compressed_size h))"

text \<open>
  The loop over the pages of a chunk. A page it goes on from begins within the file and is at least
  a byte long, so a unit of fuel for each byte, and two more, are enough (\<open>pages_loop_returns\<close>).
\<close>

fun pages_loop :: "nat \<Rightarrow> byte list \<Rightarrow> column_metadata \<Rightarrow> int \<Rightarrow> int \<Rightarrow> raw_page list \<Rightarrow> (raw_page list) pq" where
  "pages_loop 0 file m tot offset pages = Inl NoFuel"
| "pages_loop (Suc fuel) file m tot offset pages =
     (if tot < cm_num_values m then
        obind (read_page_at file offset (cm_codec m)) (\<lambda>(header, page_data).
          if ph_typ header = 2 then pages_loop fuel file m tot (next_offset offset header) pages
          else (case ph_data header of
              None \<Rightarrow> Inl (Fail ErrBadParquet)
            | Some d \<Rightarrow> pages_loop fuel file m (i64 (tot + dp_num_values d)) (next_offset offset header)
                (pages @ [\<lparr>rp_num_values = dp_num_values d, rp_encoding = dp_encoding d, rp_data = page_data\<rparr>])))
      else Inr pages)"

definition read_dictionary :: "byte list \<Rightarrow> column_metadata \<Rightarrow> (byte list list) pq" where
  "read_dictionary file m =
     (if cm_dictionary_page_offset m > 0 then
        obind (read_page_at file (cm_dictionary_page_offset m) (cm_codec m)) (\<lambda>(header, page_data).
          case ph_dictionary header of
            None \<Rightarrow> Inl (Fail ErrBadParquet)
          | Some d \<Rightarrow> decode_plain_byte_array page_data (di_num_values d))
      else Inr [])"

definition read_pages :: "byte list \<Rightarrow> column_chunk \<Rightarrow> (byte list list \<times> raw_page list) pq" where
  "read_pages file chunk =
     (case cc_meta chunk of
        None \<Rightarrow> Inl (Fail ErrBadParquet)
      | Some m \<Rightarrow>
          obind (read_dictionary file m) (\<lambda>dict.
            let offset = (if cm_data_page_offset m = 0 then cc_file_offset chunk else cm_data_page_offset m) in
            obind (pages_loop (Suc (Suc (length file))) file m 0 offset []) (\<lambda>pages.
              Inr (dict, pages))))"

text \<open>The entries of the dictionary the indices name.\<close>

fun dict_lookup :: "byte list list \<Rightarrow> int list \<Rightarrow> (byte list list) pq" where
  "dict_lookup dict [] = Inr []"
| "dict_lookup dict (i # is) =
     fail_if (i < 0 \<or> i \<ge> int (length dict)) ErrBadEncoding
       (obind (dict_lookup dict is) (\<lambda>vs. Inr (dict ! nat i # vs)))"

definition dict_page_values :: "byte list list \<Rightarrow> raw_page \<Rightarrow> (byte list list) pq" where
  "dict_page_values dict page =
     obind (decode_rle_bit_packed (rp_data page) (compute_dict_bit_width (length dict)) (rp_num_values page))
       (dict_lookup dict)"

definition bytes_page :: "byte list list \<Rightarrow> raw_page \<Rightarrow> (byte list list) pq" where
  "bytes_page dict page =
     (if rp_encoding page = 0 then decode_plain_byte_array (rp_data page) (rp_num_values page)
      else if rp_encoding page = 8 then dict_page_values dict page
      else Inl (Fail (ErrEncoding (rp_encoding page))))"

definition int_page :: "int \<Rightarrow> byte list list \<Rightarrow> raw_page \<Rightarrow> (int list) pq" where
  "int_page ptyp dict page =
     (if rp_encoding page = 0 then
        (if ptyp = 1 then decode_plain_int32 (rp_data page) (rp_num_values page)
         else decode_plain_int64 (rp_data page) (rp_num_values page))
      else if rp_encoding page = 8 then
        obind (dict_page_values dict page) (\<lambda>vs. Inr (map decode_dict_int vs))
      else Inl (Fail (ErrEncoding (rp_encoding page))))"

fun append_pages :: "(raw_page \<Rightarrow> ('a list) pq) \<Rightarrow> raw_page list \<Rightarrow> ('a list) pq" where
  "append_pages f [] = Inr []"
| "append_pages f (p # ps) = obind (f p) (\<lambda>vs. obind (append_pages f ps) (\<lambda>out. Inr (vs @ out)))"

definition read_column_values :: "byte list \<Rightarrow> column_chunk \<Rightarrow> (byte list list) pq" where
  "read_column_values file chunk =
     obind (read_pages file chunk) (\<lambda>(dict, pages). append_pages (bytes_page dict) pages)"

definition with_chunk :: "parquet_reader \<Rightarrow> int \<Rightarrow> byte list \<Rightarrow> (column_chunk \<Rightarrow> 'a pq) \<Rightarrow> 'a pq" where
  "with_chunk rd i name f =
     obind (find_chunk rd i name) (\<lambda>c. case c of
         None \<Rightarrow> Inl (Fail (ErrColumnNotFound name))
       | Some chunk \<Rightarrow> f chunk)"

definition read_column_bytes :: "parquet_reader \<Rightarrow> int \<Rightarrow> byte list \<Rightarrow> (byte list list) pq" where
  "read_column_bytes rd i name = with_chunk rd i name (read_column_values (rd_file rd))"

text \<open>A Go string is its bytes, so \<open>string(value)\<close> is the value.\<close>

definition read_column_strings :: "parquet_reader \<Rightarrow> int \<Rightarrow> byte list \<Rightarrow> (byte list list) pq" where
  "read_column_strings rd i name =
     with_chunk rd i name (\<lambda>chunk. obind (read_column_values (rd_file rd) chunk) (\<lambda>values. Inr values))"

definition read_column_int64 :: "parquet_reader \<Rightarrow> int \<Rightarrow> byte list \<Rightarrow> (int list) pq" where
  "read_column_int64 rd i name =
     with_chunk rd i name (\<lambda>chunk.
       obind (read_pages (rd_file rd) chunk) (\<lambda>(dict, pages).
         append_pages (int_page (case cc_meta chunk of None \<Rightarrow> 0 | Some m \<Rightarrow> cm_typ m) dict) pages))"

section \<open>Everything returns\<close>

lemma returns_read_at [simp]: "returns (read_at file len off)"
  by (simp add: read_at_def Let_def fail_if_def)

lemma returns_read_full [simp]: "returns (read_full file len off)"
  unfolding read_full_def by (intro returns_intros returns_read_at returns_simps)

lemma returns_load_uint24 [simp]: "returns (load_uint24 src)"
  by (cases src rule: load_uint24.cases) simp_all

lemma returns_copy_loop [simp]: "returns (copy_loop n i dst)"
  by (induction n i dst rule: copy_loop.induct) simp_all

lemma returns_snappy_copy [simp]: "returns (snappy_copy n offset src dst p)"
  unfolding snappy_copy_def by (intro returns_intros returns_copy_loop returns_simps)

lemma returns_snappy_literal_len [simp]: "returns (snappy_literal_len tag src)"
  unfolding snappy_literal_len_def by (intro returns_intros returns_read_le returns_load_uint24 returns_simps)

lemma returns_snappy_step [simp]: "returns (snappy_step tag src dst p)"
  unfolding snappy_step_def
  by (intro returns_intros returns_read_le returns_snappy_copy returns_snappy_literal_len returns_simps)

lemma returns_snappy_loop: "returns (snappy_loop src dst p)"
proof (induction src dst p rule: snappy_loop.induct)
  case (2 tag src dst p)
  then show ?case
    unfolding snappy_loop.simps by (intro returns_intros) simp_all
qed simp

lemma returns_snappy_decode [simp]: "returns (snappy_decode bs)"
  unfolding snappy_decode_def
  by (intro returns_intros returns_uvarint returns_snappy_loop returns_simps)

lemma returns_decompress [simp]: "returns (decompress bs codec)"
  by (simp add: decompress_def)

lemma returns_read_page_at [simp]: "returns (read_page_at file offset codec)"
  unfolding read_page_at_def
  by (intro returns_intros returns_read_at returns_parse_page_header returns_read_full
      returns_decompress returns_simps)

text \<open>The next page begins behind this one, within \<open>int64\<close>, or at a negative offset after a wrap.\<close>

lemma i64_wrap: "0 \<le> x \<Longrightarrow> x < 2 ^ 64 \<Longrightarrow> i64 x = x \<or> i64 x < 0"
proof -
  assume x: "0 \<le> x" "x < 2 ^ 64"
  have "i64 x = (x + 2 ^ 63) mod (2 * 2 ^ 63) - 2 ^ 63"
    by (simp add: i64_def signed_take_bit_eq_take_bit_shift take_bit_eq_mod)
  also have "\<dots> = (if x < 2 ^ 63 then x else x - 2 * 2 ^ 63)"
    using x by (intro signed_wrap_cases) simp_all
  finally show ?thesis using x by auto
qed

lemma i64_range: "i64 x < 2 ^ 63"
  unfolding i64_def using signed_take_bit_int_less_exp [of 63 x] by simp

lemma read_page_at_facts:
  assumes "read_page_at file offset codec = Inr (h, page_data)"
  shows "0 \<le> offset" "offset < int (length file)" "0 < ph_header_len h" "ph_header_len h \<le> 2 ^ 16"
    "0 \<le> ph_compressed_size h" "ph_compressed_size h \<le> 2 ^ 48"
proof -
  from assms obtain window eof header consumed where
    w: "read_at file (2 ^ 16) offset = Inr (window, eof)"
    and p: "parse_page_header window = Inr (header, consumed)"
    and h: "h = header\<lparr>ph_header_len := int consumed\<rparr>" "make_ok 1 (ph_compressed_size header)"
    by (auto simp: read_page_at_def outcome_Inr Let_def)
  have c: "0 < consumed" "consumed \<le> length window"
    using parse_page_header_bound [OF p] by simp_all
  from w have "0 \<le> offset" "window = take (2 ^ 16) (drop (nat offset) file)"
    by (auto simp: read_at_def outcome_Inr Let_def)
  with c have "0 < length (drop (nat offset) file)" "consumed \<le> 2 ^ 16"
    by auto
  with c h \<open>0 \<le> offset\<close> show "0 \<le> offset" "offset < int (length file)" "0 < ph_header_len h"
    "ph_header_len h \<le> 2 ^ 16" "0 \<le> ph_compressed_size h" "ph_compressed_size h \<le> 2 ^ 48"
    by (auto simp: make_ok_def)
qed

lemma next_offset:
  assumes "read_page_at file offset codec = Inr (h, page_data)" "offset < 2 ^ 63"
  shows "next_offset offset h < 2 ^ 63" "next_offset offset h < 0 \<or> offset < next_offset offset h"
proof -
  note facts = read_page_at_facts [OF assms(1)]
  have "i64 (ph_header_len h + ph_compressed_size h) = ph_header_len h + ph_compressed_size h"
    using facts by (intro i64_small) simp_all
  with facts assms(2) i64_wrap [of "offset + (ph_header_len h + ph_compressed_size h)"]
  show "next_offset offset h < 0 \<or> offset < next_offset offset h"
    by (auto simp: next_offset_def)
  show "next_offset offset h < 2 ^ 63"
    by (simp add: next_offset_def i64_range del: power_numeral)
qed

lemma read_page_at_negative: "offset < 0 \<Longrightarrow> read_page_at file offset codec = Inl (Fail ErrRead)"
  by (simp add: read_page_at_def read_at_def)

lemma pages_loop_returns:
  "int (length file) - offset < int fuel \<Longrightarrow> offset < 2 ^ 63 \<Longrightarrow> 0 < fuel \<Longrightarrow>
    returns (pages_loop fuel file m tot offset pages)"
proof (induction fuel arbitrary: tot offset pages)
  case (Suc fuel)
  have step: "returns (pages_loop fuel file m t (next_offset offset h) ps)"
    if page: "read_page_at file offset (cm_codec m) = Inr (h, d)" for h d t ps
  proof (cases "next_offset offset h < 0")
    case True
    obtain f where "fuel = Suc f"
      using read_page_at_facts(2) [OF page] Suc.prems(1) by (cases fuel) simp_all
    with True show ?thesis
      by (simp add: read_page_at_negative)
  next
    case False
    then have "offset < next_offset offset h" "next_offset offset h < 2 ^ 63"
      using next_offset [OF page Suc.prems(2)] by auto
    with Suc.prems read_page_at_facts(2) [OF page] show ?thesis
      by (intro Suc.IH) simp_all
  qed
  then show ?case
    unfolding pages_loop.simps
    by (intro returns_intros returns_read_page_at) (auto split: option.split)
qed simp

lemma append_pages_returns: "(\<And>p. returns (f p)) \<Longrightarrow> returns (append_pages f ps)"
  by (induction ps) (auto intro!: returns_intros)

lemma dict_lookup_returns [simp]: "returns (dict_lookup dict is)"
  by (induction "is") (auto intro!: returns_intros)

lemma decode_plain_returns [simp]:
  "returns (decode_plain_byte_array bs n)" "returns (decode_plain_int32 bs n)" "returns (decode_plain_int64 bs n)"
  by (auto simp: decode_plain_byte_array_def decode_plain_int32_def decode_plain_int64_def intro!: returns_intros)

lemma dict_page_values_returns [simp]: "returns (dict_page_values dict p)"
  unfolding dict_page_values_def by (intro returns_intros) simp_all

lemma bytes_page_returns [simp]: "returns (bytes_page dict p)"
  by (simp add: bytes_page_def)

lemma int_page_returns [simp]: "returns (int_page t dict p)"
  unfolding int_page_def by (intro returns_intros) simp_all

lemma read_dictionary_returns [simp]: "returns (read_dictionary file m)"
  unfolding read_dictionary_def
  by (intro returns_intros returns_read_page_at) (auto split: option.split)

lemma pages_loop_start: "returns (pages_loop (Suc (Suc (length file))) file m tot offset pages)"
proof -
  have step: "returns (pages_loop (Suc (length file)) file m t (next_offset offset h) ps)"
    for h :: raw_page_header and t ps
  proof (cases "next_offset offset h < 0")
    case True
    then show ?thesis by (simp add: read_page_at_negative)
  next
    case False
    moreover have "next_offset offset h < 2 ^ 63"
      unfolding next_offset_def by (rule i64_range)
    ultimately show ?thesis by (intro pages_loop_returns) simp_all
  qed
  show ?thesis
    unfolding pages_loop.simps(2) [of "Suc (length file)"]
    by (intro returns_intros returns_read_page_at)
      (auto split: option.split simp del: pages_loop.simps intro: step)
qed

lemma read_pages_returns [simp]: "returns (read_pages file chunk)"
  unfolding read_pages_def
  by (cases "cc_meta chunk")
    (auto intro!: returns_intros pages_loop_start simp del: pages_loop.simps)

lemma read_column_values_returns [simp]: "returns (read_column_values file chunk)"
  unfolding read_column_values_def by (intro returns_intros append_pages_returns) simp_all

lemma with_chunk_returns: "(\<And>chunk. returns (f chunk)) \<Longrightarrow> returns (with_chunk rd i name f)"
  unfolding with_chunk_def find_chunk_def go_index_def
  by (intro returns_intros) (auto split: option.split)

section \<open>How many values a column has\<close>

text \<open>\<open>yields p Q\<close>: what \<open>p\<close> returns has the property \<open>Q\<close>.\<close>

definition yields :: "'a reading \<Rightarrow> ('a \<Rightarrow> bool) \<Rightarrow> bool" where
  "yields p Q \<longleftrightarrow> (\<forall>r x r'. p r = Inr (x, r') \<longrightarrow> Q x)"

lemma yields_bind: "yields m P \<Longrightarrow> (\<And>x. P x \<Longrightarrow> yields (f x) Q) \<Longrightarrow> yields (rbind m f) Q"
  by (fastforce simp: yields_def rbind_def outcome_Inr)

lemma yields_rret [simp]: "yields (rret x) Q \<longleftrightarrow> Q x"
  by (simp add: yields_def rret_def)

lemma yields_True [simp]: "yields p (\<lambda>x. True)"
  by (simp add: yields_def)

lemma yields_store: "yields p P \<Longrightarrow> (\<And>x. P x \<Longrightarrow> Q (upd x)) \<Longrightarrow> yields (store p upd) Q"
  unfolding store_def by (rule yields_bind [where P = P]) simp_all

lemma yields_store_any: "(\<And>x. Q (upd x)) \<Longrightarrow> yields (store p upd) Q"
  by (rule yields_store [where P = "\<lambda>x. True"]) simp_all

lemma yields_ignore: "Q s \<Longrightarrow> yields (ignore ty s) Q"
  unfolding ignore_def by (rule yields_bind [where P = "\<lambda>x. True"]) simp_all

lemma yields_read_i32: "yields read_i32 is_i32"
  unfolding read_i32_def using i32_range
  by (intro yields_bind [where P = "\<lambda>x. True"]) (simp_all add: is_i32_def)

lemma yields_field_loop:
  assumes "\<And>field_id ty s. Q s \<Longrightarrow> yields (step field_id ty s) Q"
  shows "Q s \<Longrightarrow> yields (field_loop n step s) Q"
proof (induction n arbitrary: s)
  case (Suc n)
  then show ?case
    unfolding field_loop.simps
    by (intro yields_bind [where P = "\<lambda>x. True"])
      (auto split: option.split intro!: yields_bind [where P = Q] assms)
qed (simp add: yields_def)

lemma yields_read_fields:
  assumes "\<And>field_id ty s. Q s \<Longrightarrow> yields (step field_id ty s) Q" "Q s"
  shows "yields (read_fields step s) Q"
  using yields_field_loop [of Q step, OF assms] unfolding yields_def read_fields_def by blast

lemma yields_in_struct: "yields p Q \<Longrightarrow> yields (in_struct p) Q"
  by (fastforce simp: yields_def in_struct_eq outcome_Inr)

lemma yields_data_page_header: "yields parse_data_page_header (\<lambda>d. is_i32 (dp_num_values d))"
  unfolding parse_data_page_header_def
  by (intro yields_in_struct yields_read_fields)
    (auto simp: data_page_header_step_def is_i32_def
      intro!: yields_store_any yields_ignore yields_store [OF yields_read_i32 [unfolded is_i32_def]])

definition counted_header :: "raw_page_header \<Rightarrow> bool" where
  "counted_header h \<longleftrightarrow> (case ph_data h of None \<Rightarrow> True | Some d \<Rightarrow> is_i32 (dp_num_values d))"

lemma parse_page_header_counted:
  assumes "parse_page_header bs = Inr (h, n)"
  shows "counted_header h"
proof -
  have "yields (read_fields page_header_step page_header_zero) counted_header"
    by (intro yields_read_fields)
      (auto simp: page_header_step_def page_header_zero_def counted_header_def
        intro!: yields_store_any yields_ignore yields_store [OF yields_data_page_header])
  with assms show ?thesis
    by (fastforce simp: parse_page_header_def outcome_Inr yields_def)
qed

lemma read_page_at_counted: "read_page_at file offset codec = Inr (h, d) \<Longrightarrow> counted_header h"
  by (auto simp: read_page_at_def outcome_Inr Let_def counted_header_def
      dest!: parse_page_header_counted split: option.splits)

text \<open>The values of the pages: the running total is their sum, and reaches the chunk's count.\<close>

definition page_sum :: "raw_page list \<Rightarrow> int" where
  "page_sum ps = sum_list (map rp_num_values ps)"

lemma page_sum_append: "page_sum (ps @ [p]) = page_sum ps + rp_num_values p"
  by (simp add: page_sum_def)

lemma page_sum_bound: "\<forall>p \<in> set ps. is_i32 (rp_num_values p) \<Longrightarrow> \<bar>page_sum ps\<bar> \<le> 2 ^ 31 * int (length ps)"
proof (induction ps)
  case (Cons p ps)
  then have "\<bar>rp_num_values p\<bar> \<le> 2 ^ 31" "\<bar>page_sum ps\<bar> \<le> 2 ^ 31 * int (length ps)"
    by (auto simp: is_i32_def)
  then show ?case
    by (simp add: page_sum_def abs_le_iff)
qed (simp add: page_sum_def)

lemma pages_loop_total:
  assumes "length file < 2 ^ 32"
  shows "pages_loop fuel file m (page_sum pages) offset pages = Inr out \<Longrightarrow>
    \<forall>p \<in> set pages. is_i32 (rp_num_values p) \<Longrightarrow> length pages \<le> length file \<Longrightarrow>
    (0 \<le> offset \<longrightarrow> int (length pages) \<le> offset) \<Longrightarrow> cm_num_values m \<le> page_sum out"
proof (induction fuel arbitrary: offset pages)
  case (Suc fuel)
  show ?case
  proof (cases "page_sum pages < cm_num_values m")
    case True
    with Suc.prems(1) obtain h d where page: "read_page_at file offset (cm_codec m) = Inr (h, d)"
      and rest: "(if ph_typ h = 2 then pages_loop fuel file m (page_sum pages) (next_offset offset h) pages
          else (case ph_data h of None \<Rightarrow> Inl (Fail ErrBadParquet)
            | Some dp \<Rightarrow> pages_loop fuel file m (i64 (page_sum pages + dp_num_values dp)) (next_offset offset h)
                (pages @ [\<lparr>rp_num_values = dp_num_values dp, rp_encoding = dp_encoding dp, rp_data = d\<rparr>]))) = Inr out"
      by (auto simp: outcome_Inr)
    note offset = read_page_at_facts(1,2) [OF page]
    have "offset < 2 ^ 63"
      using offset(2) assms by simp
    then have next_off: "next_offset offset h < 0 \<or> offset < next_offset offset h"
      using next_offset [OF page] by simp
    have len: "length pages + 1 \<le> length file"
      using Suc.prems(4) offset by simp
    show ?thesis
    proof (cases "ph_typ h = 2")
      case True
      with rest Suc.prems(2,3,4) next_off offset show ?thesis
        by (intro Suc.IH [of pages "next_offset offset h"]) auto
    next
      case False
      with rest obtain dp where dp: "ph_data h = Some dp"
        and loop: "pages_loop fuel file m (i64 (page_sum pages + dp_num_values dp)) (next_offset offset h)
          (pages @ [\<lparr>rp_num_values = dp_num_values dp, rp_encoding = dp_encoding dp, rp_data = d\<rparr>]) = Inr out"
        by (auto split: option.splits)
      let ?ps = "pages @ [\<lparr>rp_num_values = dp_num_values dp, rp_encoding = dp_encoding dp, rp_data = d\<rparr>]"
      have i32: "\<forall>p \<in> set ?ps. is_i32 (rp_num_values p)"
        using read_page_at_counted [OF page] dp Suc.prems(2) by (auto simp: counted_header_def)
      then have "\<bar>page_sum ?ps\<bar> \<le> 2 ^ 31 * int (length ?ps)"
        by (rule page_sum_bound)
      also have "\<dots> < 2 ^ 63"
        using len assms by simp
      finally have "i64 (page_sum pages + dp_num_values dp) = page_sum ?ps"
        by (simp add: page_sum_append i64_id abs_less_iff)
      with loop i32 len next_off offset Suc.prems(4) show ?thesis
        by (intro Suc.IH [of ?ps "next_offset offset h"]) auto
    qed
  qed (use Suc.prems in simp)
qed simp

lemma read_pages_total:
  assumes "length file < 2 ^ 32" "cc_meta chunk = Some m" "read_pages file chunk = Inr (dict, pages)"
  shows "cm_num_values m \<le> page_sum pages"
  using pages_loop_total [OF assms(1), of _ m "[]"] assms(2,3)
  by (auto simp: read_pages_def outcome_Inr page_sum_def Let_def simp del: pages_loop.simps)

lemma dict_lookup_eq:
  "dict_lookup dict is = Inr vs \<longleftrightarrow>
    (\<forall>i \<in> set is. 0 \<le> i \<and> i < int (length dict)) \<and> vs = map (\<lambda>i. dict ! nat i) is"
  by (induction "is" arbitrary: vs) (auto simp: outcome_Inr)

lemma dict_page_values_length:
  "dict_page_values dict p = Inr vs \<Longrightarrow> int (length vs) = rp_num_values p"
  by (auto simp: dict_page_values_def outcome_Inr dict_lookup_eq dest: decode_rle_bit_packed_length)

lemma bytes_page_length: "bytes_page dict p = Inr vs \<Longrightarrow> int (length vs) = rp_num_values p"
  by (auto simp: bytes_page_def dest: dict_page_values_length decode_plain_byte_array_length split: if_splits)

lemma int_page_length: "int_page t dict p = Inr vs \<Longrightarrow> int (length vs) = rp_num_values p"
  by (auto simp: int_page_def outcome_Inr dest: dict_page_values_length decode_plain_int32_length
      decode_plain_int64_length split: if_splits)

lemma append_pages_length:
  "(\<And>p vs. f p = Inr vs \<Longrightarrow> int (length vs) = rp_num_values p) \<Longrightarrow>
    append_pages f ps = Inr out \<Longrightarrow> int (length out) = page_sum ps"
proof (induction ps arbitrary: out)
  case (Cons p ps)
  then obtain vs rest where "f p = Inr vs" "append_pages f ps = Inr rest" "out = vs @ rest"
    by (auto simp: outcome_Inr)
  with Cons.IH [of rest] Cons.prems(1) [of p vs] Cons.prems(1) show ?case
    by (simp add: page_sum_def)
qed (simp add: page_sum_def)

section \<open>A file as a writer lays it out\<close>

text \<open>
  A stored page is its header, its bytes in the file and its content after decompression. The pages
  of a chunk follow one another; the dictionary page may stand anywhere.
\<close>

type_synonym stored_page = "raw_page_header \<times> byte list \<times> byte list"

definition page_bytes :: "stored_page \<Rightarrow> byte list" where
  "page_bytes = (\<lambda>(h, body, content). fields_code 0 (page_header_fields h) @ body)"

definition stored_ok :: "int \<Rightarrow> stored_page \<Rightarrow> bool" where
  "stored_ok codec = (\<lambda>(h, body, content).
     page_header_ok h \<and> ph_compressed_size h = int (length body) \<and> decompress body codec = Inr content)"

definition data_page_of :: "stored_page \<Rightarrow> raw_page \<Rightarrow> bool" where
  "data_page_of = (\<lambda>(h, body, content) p. ph_typ h \<noteq> 2 \<and> 0 < rp_num_values p \<and>
     (\<exists>d. ph_data h = Some d \<and> rp_num_values p = dp_num_values d \<and> rp_encoding p = dp_encoding d \<and>
        rp_data p = content))"

lemma uvarint_loop_bound: "uvarint_loop index v k bs = Inr (x, c) \<Longrightarrow> c \<le> 10"
  by (induction index v k bs rule: uvarint_loop.induct) (auto simp: outcome_Inr split: if_splits)

lemma length_z: "is_i32 v \<Longrightarrow> length (z v) \<le> 10"
proof -
  assume "is_i32 v"
  then have "zigzag_nat v < 2 ^ 64"
    by (simp add: is_i32_def zigzag_nat_def nat_less_iff)
  from uvarint_loop_bound [OF uvarint_enc_roundtrip [OF this, of "[]", unfolded uvarint_def]]
  show ?thesis by (simp add: z_def)
qed

lemma length_field_header: "1 \<le> i - prev \<and> i - prev \<le> 15 \<Longrightarrow> length (field_header_code prev i ty) = 1"
  by (simp add: field_header_code_def)

lemma length_page_header:
  assumes "page_header_ok h"
  shows "length (fields_code 0 (page_header_fields h)) \<le> 2 ^ 16"
proof -
  have d: "length (fields_code 0 (data_page_fields d)) \<le> 45" if "data_page_ok d" for d
    using that length_z [of "dp_num_values d"] length_z [of "dp_encoding d"] length_z [of "dp_def_level d"]
      length_z [of "dp_rep_level d"]
    by (simp add: data_page_fields_def data_page_ok_def length_field_header)
  have i: "length (fields_code 0 (dictionary_page_fields d)) \<le> 23" if "dictionary_page_ok d" for d
    using that length_z [of "di_num_values d"] length_z [of "di_encoding d"]
    by (simp add: dictionary_page_fields_def dictionary_page_ok_def length_field_header)
  have zs: "length (z (ph_typ h)) \<le> 10" "length (z (ph_uncompressed_size h)) \<le> 10"
    "length (z (ph_compressed_size h)) \<le> 10"
    using assms by (simp_all add: page_header_ok_def length_z)
  show ?thesis
    using assms zs by (cases "ph_data h"; cases "ph_dictionary h")
      (auto simp: page_header_fields_def page_header_ok_def length_field_header dest!: d i)
qed

lemma read_at_drop: "0 \<le> off \<Longrightarrow> drop (nat off) file = bs \<Longrightarrow>
    read_at file len off = Inr (take len bs, length bs < len)"
  by (auto simp: read_at_def Let_def)

lemma read_page_at_stored:
  assumes "0 \<le> off" "off < 2 ^ 62" "drop (nat off) file = page_bytes (h, body, content) @ rest"
    and "stored_ok codec (h, body, content)"
  shows "read_page_at file off codec =
    Inr (h\<lparr>ph_header_len := int (length (fields_code 0 (page_header_fields h)))\<rparr>, content)"
proof -
  let ?code = "fields_code 0 (page_header_fields h)"
  have ok: "page_header_ok h" "ph_compressed_size h = int (length body)" "decompress body codec = Inr content"
    using assms(4) by (simp_all add: stored_ok_def)
  then have body: "length body < 2 ^ 31"
    by (simp add: page_header_ok_def is_i32_def)
  have code: "length ?code \<le> 2 ^ 16"
    using ok(1) by (rule length_page_header)
  have "take (2 ^ 16) (page_bytes (h, body, content) @ rest) =
      ?code @ take (2 ^ 16 - length ?code) (body @ rest)"
    using code by (simp add: page_bytes_def)
  moreover have "parse_page_header (?code @ bs) = Inr (h, length ?code)" for bs
    using page_header_parser.toplevel_reads [OF decodes_page_header [OF ok(1)], of bs]
    by (auto simp: parse_page_header_def)
  ultimately have window: "parse_page_header (take (2 ^ 16) (page_bytes (h, body, content) @ rest)) = Inr (h, length ?code)"
    by (simp only:)
  have off: "i64 (off + int (length ?code)) = off + int (length ?code)"
    using assms(1,2) code by (intro i64_small) simp_all
  have "drop (nat (off + int (length ?code))) file = drop (length ?code) (drop (nat off) file)"
    using assms(1) by (simp add: nat_add_distrib add.commute)
  also have "\<dots> = body @ rest"
    unfolding assms(3) by (simp add: page_bytes_def)
  finally have "read_full file (length body) (off + int (length ?code)) = Inr body"
    using assms(1) by (simp add: read_full_def read_at_drop)
  with window off ok body show ?thesis
    by (simp add: read_page_at_def read_at_drop [OF assms(1,3)] Let_def make_ok_def)
qed

lemma pages_loop_stored:
  "list_all2 data_page_of sps ps \<Longrightarrow> \<forall>sp \<in> set sps. stored_ok (cm_codec m) sp \<Longrightarrow> length sps < fuel \<Longrightarrow>
    0 \<le> off \<Longrightarrow> off + int (length (concat (map page_bytes sps))) < 2 ^ 62 \<Longrightarrow>
    drop (nat off) file = concat (map page_bytes sps) @ rest \<Longrightarrow>
    0 \<le> tot \<Longrightarrow> cm_num_values m = tot + page_sum ps \<Longrightarrow> cm_num_values m < 2 ^ 63 \<Longrightarrow>
    pages_loop fuel file m tot off acc = Inr (acc @ ps)"
proof (induction sps ps arbitrary: fuel off tot acc rule: list_all2_induct)
  case Nil
  then show ?case by (cases fuel) (simp_all add: page_sum_def)
next
  case (Cons sp sps p ps)
  obtain h body content where sp: "sp = (h, body, content)" by (cases sp)
  obtain f where fuel: "fuel = Suc f" using Cons.prems(2) by (cases fuel) simp_all
  let ?len = "int (length (fields_code 0 (page_header_fields h)))"
  let ?h = "h\<lparr>ph_header_len := ?len\<rparr>"
  obtain d where d: "ph_typ h \<noteq> 2" "ph_data h = Some d" "0 < rp_num_values p" "dp_num_values d = rp_num_values p"
    and p: "p = \<lparr>rp_num_values = dp_num_values d, rp_encoding = dp_encoding d, rp_data = content\<rparr>"
    using Cons.hyps(1) by (cases p) (auto simp: data_page_of_def sp)
  have nonneg: "0 \<le> page_sum ps"
    using Cons.hyps(2) by (induction sps ps rule: list_all2_induct) (auto simp: page_sum_def data_page_of_def)
  have ok: "stored_ok (cm_codec m) (h, body, content)"
    using Cons.prems(1) sp by simp
  then have size: "ph_compressed_size h = int (length body)"
    by (simp add: stored_ok_def)
  have page: "read_page_at file off (cm_codec m) = Inr (?h, content)"
    using Cons.prems(3,4,5) ok by (intro read_page_at_stored [where body = body]) (simp_all add: sp page_bytes_def)
  have len: "int (length (page_bytes sp)) = ?len + int (length body)"
    by (simp add: sp page_bytes_def)
  have noff: "next_offset off ?h = off + int (length (page_bytes sp))"
    using Cons.prems(3,4) len size by (simp add: next_offset_def i64_small)
  have tot: "i64 (tot + dp_num_values d) = tot + rp_num_values p"
    using Cons.prems(6,7,8) d nonneg by (simp add: i64_small page_sum_def)
  have "drop (nat (off + int (length (page_bytes sp)))) file = drop (length (page_bytes sp)) (drop (nat off) file)"
    using Cons.prems(3) by (simp add: nat_add_distrib add.commute)
  then have drop: "drop (nat (off + int (length (page_bytes sp)))) file = concat (map page_bytes sps) @ rest"
    by (simp only: Cons.prems(5)) simp
  have "tot < cm_num_values m"
    using Cons.prems(7) d(3) nonneg by (simp add: page_sum_def)
  then have "pages_loop fuel file m tot off acc =
      pages_loop f file m (tot + rp_num_values p) (off + int (length (page_bytes sp))) (acc @ [p])"
    using d(1,2) page noff tot by (simp add: fuel p [symmetric])
  also have "\<dots> = Inr ((acc @ [p]) @ ps)"
  proof (rule Cons.IH [OF _ _ _ _ drop])
    show "\<forall>sp \<in> set sps. stored_ok (cm_codec m) sp" "length sps < f"
      using Cons.prems(1,2) fuel by simp_all
    show "0 \<le> off + int (length (page_bytes sp))" "0 \<le> tot + rp_num_values p" "cm_num_values m < 2 ^ 63"
      using Cons.prems(3,6,8) d(3) by simp_all
    show "off + int (length (page_bytes sp)) + int (length (concat (map page_bytes sps))) < 2 ^ 62"
      using Cons.prems(4) by simp
    show "cm_num_values m = tot + rp_num_values p + page_sum ps"
      using Cons.prems(7) by (simp add: page_sum_def)
  qed
  finally show ?case by simp
qed

lemma append_pages_values:
  "list_all2 (\<lambda>p vs. f p = Inr vs) ps vss \<Longrightarrow> append_pages f ps = Inr (concat vss)"
  by (induction ps vss rule: list_all2_induct) simp_all

lemma length_page_bytes: "0 < length (page_bytes sp)"
proof -
  obtain h body content where sp: "sp = (h, body, content)" by (cases sp)
  have "0 < length (fields_code 0 (page_header_fields h))"
    using length_fields_code [of "page_header_fields h" 0] by linarith
  then show ?thesis by (simp add: sp page_bytes_def del: length_greater_0_conv)
qed

lemma stored_pages_length: "length sps \<le> length (concat (map page_bytes sps))"
proof (induction sps)
  case (Cons sp sps)
  with length_page_bytes [of sp] show ?case by (simp del: length_greater_0_conv)
qed simp

section \<open>A stored column\<close>

lemma stored_column_values:
  assumes chunk: "cc_meta chunk = Some m"
    and dict_page: "0 < cm_dictionary_page_offset m" "cm_dictionary_page_offset m < 2 ^ 62"
      "drop (nat (cm_dictionary_page_offset m)) file = page_bytes (dh, dbody, dcontent) @ after_dict"
      "stored_ok (cm_codec m) (dh, dbody, dcontent)" "ph_dictionary dh = Some di"
      "decode_plain_byte_array dcontent (di_num_values di) = Inr dict"
    and data_pages: "0 < cm_data_page_offset m"
      "cm_data_page_offset m + int (length (concat (map page_bytes sps))) < 2 ^ 62"
      "drop (nat (cm_data_page_offset m)) file = concat (map page_bytes sps) @ rest"
      "\<forall>sp \<in> set sps. stored_ok (cm_codec m) sp" "list_all2 data_page_of sps ps"
      "cm_num_values m = page_sum ps" "cm_num_values m < 2 ^ 63"
    and "values": "list_all2 (\<lambda>p vs. bytes_page dict p = Inr vs) ps vss"
  shows "read_column_values file chunk = Inr (concat vss)"
proof -
  have "read_page_at file (cm_dictionary_page_offset m) (cm_codec m) =
      Inr (dh\<lparr>ph_header_len := int (length (fields_code 0 (page_header_fields dh)))\<rparr>, dcontent)"
    using dict_page by (intro read_page_at_stored) simp_all
  then have d: "read_dictionary file m = Inr dict"
    using dict_page by (simp add: read_dictionary_def)
  have "length (concat (map page_bytes sps)) \<le> length (drop (nat (cm_data_page_offset m)) file)"
    by (simp add: data_pages(3))
  then have "length sps < Suc (Suc (length file))"
    using stored_pages_length [of sps] by simp
  then have "pages_loop (Suc (Suc (length file))) file m 0 (cm_data_page_offset m) [] = Inr ([] @ ps)"
    using data_pages by (intro pages_loop_stored) simp_all
  then show ?thesis
    using d chunk data_pages(1) append_pages_values [OF "values"]
    by (simp add: read_column_values_def read_pages_def Let_def del: pages_loop.simps)
qed

definition example_dict_header :: raw_page_header where
  "example_dict_header = \<lparr>ph_typ = 2, ph_uncompressed_size = 4, ph_compressed_size = 4, ph_header_len = 0,
     ph_data = None, ph_dictionary = Some \<lparr>di_num_values = 2, di_encoding = 0\<rparr>\<rparr>"

definition example_data_header :: raw_page_header where
  "example_data_header = \<lparr>ph_typ = 0, ph_uncompressed_size = 6, ph_compressed_size = 6, ph_header_len = 0,
     ph_data = Some \<lparr>dp_num_values = 3, dp_encoding = 8, dp_def_level = 3, dp_rep_level = 3\<rparr>, ph_dictionary = None\<rparr>"

definition example_dict_page :: stored_page where
  "example_dict_page = (example_dict_header, [1, 97, 1, 98], [1, 97, 1, 98])"

definition example_data_page :: stored_page where
  "example_data_page = (example_data_header, [2, 0, 0, 0, 3, 2], [2, 0, 0, 0, 3, 2])"

definition example_raw_page :: raw_page where
  "example_raw_page = \<lparr>rp_num_values = 3, rp_encoding = 8, rp_data = [2, 0, 0, 0, 3, 2]\<rparr>"

definition example_metadata :: column_metadata where
  "example_metadata = \<lparr>cm_typ = 6, cm_encodings = [8], cm_path = [[116]],
      cm_codec = 0, cm_num_values = 3, cm_total_uncompressed = 0, cm_total_compressed = 0,
      cm_data_page_offset = 4 + int (length (page_bytes example_dict_page)), cm_dictionary_page_offset = 4\<rparr>"

definition example_chunk :: column_chunk where
  "example_chunk = \<lparr>cc_file_path = [], cc_file_offset = 0, cc_meta = Some example_metadata\<rparr>"

definition example_file :: "byte list" where
  "example_file = par1 @ page_bytes example_dict_page @ concat (map page_bytes [example_data_page])"

lemmas example_defs = example_dict_header_def example_data_header_def example_dict_page_def
  example_data_page_def example_raw_page_def example_metadata_def example_chunk_def

lemma length_par1: "length par1 = 4"
  by (simp add: par1_def)

lemma example_dictionary: "decode_plain_byte_array [1, 97, 1, 98] 2 = Inr [[97], [98]]"
  by code_simp

lemma example_page: "bytes_page [[97], [98]] example_raw_page = Inr [[97], [98], [97]]"
  by code_simp

lemma example_short: "length (page_bytes example_dict_page) < 2 ^ 17" "length (page_bytes example_data_page) < 2 ^ 17"
  using length_page_header [of example_dict_header] length_page_header [of example_data_header]
  by (simp_all add: example_defs page_bytes_def page_header_ok_def data_page_ok_def dictionary_page_ok_def is_i32_def)

lemma example_stored: "stored_ok 0 example_dict_page" "stored_ok 0 example_data_page"
  "data_page_of example_data_page example_raw_page"
  by (simp_all add: example_defs stored_ok_def data_page_of_def decompress_def page_header_ok_def data_page_ok_def
      dictionary_page_ok_def is_i32_def)

lemma example_offsets:
  "drop (nat (cm_dictionary_page_offset example_metadata)) example_file =
    page_bytes example_dict_page @ page_bytes example_data_page"
  "drop (nat (cm_data_page_offset example_metadata)) example_file = page_bytes example_data_page"
  by (simp_all add: example_file_def example_metadata_def length_par1 nat_add_distrib)

lemma example_column:
  "read_column_values example_file example_chunk = Inr (concat [[[97], [98], [97]]])"
  by (rule stored_column_values [where m = example_metadata and dh = example_dict_header and
        dbody = "[1, 97, 1, 98]" and dcontent = "[1, 97, 1, 98]" and after_dict = "page_bytes example_data_page" and
        di = "\<lparr>di_num_values = 2, di_encoding = 0\<rparr>" and dict = "[[97], [98]]" and
        sps = "[example_data_page]" and rest = "[]" and ps = "[example_raw_page]"])
    (use example_stored example_offsets example_short example_page example_dictionary in
      \<open>simp_all add: example_chunk_def example_metadata_def example_dict_page_def example_dict_header_def page_sum_def
        example_raw_page_def\<close>)

definition example_reader :: parquet_reader where
  "example_reader = \<lparr>rd_file = example_file, rd_meta = file_metadata_zero\<lparr>fm_row_groups :=
     [row_group_zero\<lparr>rg_columns := [example_chunk]\<rparr>]\<rparr>\<rparr>"

lemma example_find: "find_chunk example_reader 0 [116] = Inr (Some example_chunk)"
  by (simp add: find_chunk_def go_index_def example_reader_def chunk_name_def example_chunk_def example_metadata_def)

section \<open>Properties\<close>

text \<open>
  C19. Opening any file and reading any of its columns comes to an end: no chain of page headers, no
  negative value counts and no offset, however corrupt, makes the loop over the pages run for ever.
\<close>

theorem reader_total:
  "returns (open_parquet file) \<and> returns (read_column_bytes rd i name) \<and>
    returns (read_column_strings rd i name) \<and> returns (read_column_int64 rd i name)"
proof (intro conjI)
  show "returns (open_parquet file)"
    unfolding open_parquet_def
    by (intro returns_intros returns_read_full returns_read_le returns_parse_file_metadata returns_simps)
  show "returns (read_column_bytes rd i name)"
    unfolding read_column_bytes_def by (rule with_chunk_returns) simp
  show "returns (read_column_strings rd i name)"
    unfolding read_column_strings_def by (rule with_chunk_returns) (auto intro!: returns_intros)
  show "returns (read_column_int64 rd i name)"
    unfolding read_column_int64_def
    by (rule with_chunk_returns) (auto intro!: returns_intros append_pages_returns)
qed

text \<open>
  No values are lost: where reading a column of a file under 4 GiB succeeds, the result has at
  least as many values as the chunk's metadata announces, for byte-array and for integer columns.
\<close>

theorem read_column_enough:
  assumes "length (rd_file rd) < 2 ^ 32" "find_chunk rd i name = Inr (Some chunk)" "cc_meta chunk = Some m"
  shows "(\<forall>out. read_column_bytes rd i name = Inr out \<longrightarrow> cm_num_values m \<le> int (length out)) \<and>
    (\<forall>out. read_column_int64 rd i name = Inr out \<longrightarrow> cm_num_values m \<le> int (length out))"
proof (intro conjI allI impI)
  fix out assume "read_column_bytes rd i name = Inr out"
  then obtain dict pages where "read_pages (rd_file rd) chunk = Inr (dict, pages)"
    and "append_pages (bytes_page dict) pages = Inr out"
    using assms(2) by (auto simp: read_column_bytes_def with_chunk_def read_column_values_def outcome_Inr)
  with read_pages_total [OF assms(1,3)] append_pages_length [of "bytes_page dict", OF bytes_page_length]
  show "cm_num_values m \<le> int (length out)" by force
next
  fix out assume "read_column_int64 rd i name = Inr out"
  then obtain dict pages where "read_pages (rd_file rd) chunk = Inr (dict, pages)"
    and "append_pages (int_page (cm_typ m) dict) pages = Inr out"
    using assms(2,3) by (auto simp: read_column_int64_def with_chunk_def outcome_Inr)
  with read_pages_total [OF assms(1,3)] append_pages_length [of "int_page (cm_typ m) dict", OF int_page_length]
  show "cm_num_values m \<le> int (length out)" by force
qed

theorem read_column_enough_witness:
  "read_column_bytes example_reader 0 [116] = Inr (concat [[[97], [98], [97]]]) \<and>
    cm_num_values example_metadata \<le> int (length (concat [[[97], [98], [97 :: byte]]]))"
proof -
  have "length (rd_file example_reader) < 2 ^ 32"
    using example_short by (simp add: example_reader_def example_file_def length_par1)
  moreover have "cc_meta example_chunk = Some example_metadata"
    by (simp add: example_chunk_def)
  moreover have "read_column_bytes example_reader 0 [116] = Inr (concat [[[97], [98], [97]]])"
    using example_find example_column
    by (simp add: read_column_bytes_def with_chunk_def) (simp add: example_reader_def)
  ultimately show ?thesis
    using read_column_enough [OF _ example_find] by blast
qed

text \<open>
  C1. A dictionary-encoded or plain column as a writer lays it out is read completely and in order:
  with the dictionary page at its offset and the data pages one after the other at theirs (each
  compressed with the chunk's codec, together holding the announced number of values), the result
  is the concatenation of the values of the pages, decoded against the dictionary.
\<close>

theorem read_column_values_stored:
  assumes chunk: "cc_meta chunk = Some m"
    and dict_page: "0 < cm_dictionary_page_offset m" "cm_dictionary_page_offset m < 2 ^ 62"
      "drop (nat (cm_dictionary_page_offset m)) file = page_bytes (dh, dbody, dcontent) @ after_dict"
      "stored_ok (cm_codec m) (dh, dbody, dcontent)" "ph_dictionary dh = Some di"
      "decode_plain_byte_array dcontent (di_num_values di) = Inr dict"
    and data_pages: "0 < cm_data_page_offset m"
      "cm_data_page_offset m + int (length (concat (map page_bytes sps))) < 2 ^ 62"
      "drop (nat (cm_data_page_offset m)) file = concat (map page_bytes sps) @ rest"
      "\<forall>sp \<in> set sps. stored_ok (cm_codec m) sp" "list_all2 data_page_of sps ps"
      "cm_num_values m = page_sum ps" "cm_num_values m < 2 ^ 63"
    and "values": "list_all2 (\<lambda>p vs. bytes_page dict p = Inr vs) ps vss"
  shows "read_column_values file chunk = Inr (concat vss)"
  by (rule stored_column_values [OF chunk dict_page data_pages "values"])

theorem read_column_values_stored_witness:
  "read_column_values example_file example_chunk = Inr (concat [[[97], [98], [97]]])"
  by (rule read_column_values_stored [where m = example_metadata and dh = example_dict_header and
        dbody = "[1, 97, 1, 98]" and dcontent = "[1, 97, 1, 98]" and after_dict = "page_bytes example_data_page" and
        di = "\<lparr>di_num_values = 2, di_encoding = 0\<rparr>" and dict = "[[97], [98]]" and
        sps = "[example_data_page]" and rest = "[]" and ps = "[example_raw_page]"])
    (use example_stored example_offsets example_short example_page example_dictionary in
      \<open>simp_all add: example_chunk_def example_metadata_def example_dict_page_def example_dict_header_def page_sum_def
        example_raw_page_def\<close>)

text \<open>
  Opening a file a writer closed properly gives the metadata it wrote: any bytes, the encoded
  metadata, its length in four bytes and the magic \<open>PAR1\<close>.
\<close>

theorem open_parquet_roundtrip:
  assumes "file_metadata_ok m" "length (fields_code 0 (file_metadata_fields m)) < 2 ^ 32"
    and "file = before @ fields_code 0 (file_metadata_fields m) @
      nat_le 4 (length (fields_code 0 (file_metadata_fields m))) @ par1"
    and "4 \<le> length before"
  shows "open_parquet file = Inr \<lparr>rd_file = file, rd_meta = m\<rparr>"
proof -
  let ?code = "fields_code 0 (file_metadata_fields m)"
  have n: "0 < length ?code"
    using length_fields_code [of "file_metadata_fields m" 0] by linarith
  have p: "length par1 = 4" by (simp add: par1_def)
  have len: "length file = length before + length ?code + 8"
    by (simp add: assms(3) p)
  have "drop (length before + length ?code) file = nat_le 4 (length ?code) @ par1"
    by (simp add: assms(3))
  then have tail: "read_full file 8 (int (length file) - 8) = Inr (nat_le 4 (length ?code) @ par1)"
    using len p by (simp add: read_full_def read_at_def Let_def nat_diff_distrib flip: of_nat_add)
  have le: "le_nat (take 4 (nat_le 4 (length ?code))) = length ?code"
    using assms(2) by (simp add: le_nat_nat_le_id)
  have meta: "read_full file (length ?code) (int (length file) - 8 - int (length ?code)) = Inr ?code"
    using len by (simp add: read_full_def read_at_def Let_def assms(3))
  have "parse_file_metadata ?code = Inr m"
    using file_metadata_parser.toplevel_reads [OF decodes_file_metadata [OF assms(1)], of "[]"]
    by (auto simp: parse_file_metadata_def)
  then show ?thesis
    using tail meta le n assms(2,4) len
    by (simp add: open_parquet_def Let_def make_ok_def del: nat_le.simps)
qed

definition example_footer :: file_metadata where
  "example_footer = \<lparr>fm_version = 1, fm_schema = [], fm_num_rows = 0, fm_row_groups = []\<rparr>"

theorem open_parquet_roundtrip_witness:
  "open_parquet (par1 @ fields_code 0 (file_metadata_fields example_footer) @
      nat_le 4 (length (fields_code 0 (file_metadata_fields example_footer))) @ par1) =
    Inr \<lparr>rd_file = par1 @ fields_code 0 (file_metadata_fields example_footer) @
      nat_le 4 (length (fields_code 0 (file_metadata_fields example_footer))) @ par1,
      rd_meta = example_footer\<rparr>"
proof (rule open_parquet_roundtrip [where before = par1])
  have "length (fields_code 0 (file_metadata_fields example_footer)) < 100"
    by code_simp
  also have "(100 :: nat) < 2 ^ 32"
    by simp
  finally show "length (fields_code 0 (file_metadata_fields example_footer)) < 2 ^ 32" .
  show "file_metadata_ok example_footer"
    by (simp add: example_footer_def file_metadata_ok_def is_i32_def is_i64_def)
  show "4 \<le> length par1"
    by (simp add: length_par1)
qed (rule refl)

text \<open>
  A dictionary index outside the dictionary is an error: a dictionary-encoded page is accepted
  iff its indices decode and each of them names an entry, and its values are then those entries.
\<close>

theorem dict_page_values_iff:
  "dict_page_values dict p = Inr vs \<longleftrightarrow>
    (\<exists>indices. decode_rle_bit_packed (rp_data p) (compute_dict_bit_width (length dict)) (rp_num_values p) = Inr indices \<and>
      set indices \<subseteq> {0..<int (length dict)} \<and> vs = map (\<lambda>i. dict ! nat i) indices)"
  by (auto simp: dict_page_values_def obind_eq_Inr dict_lookup_eq subset_eq)

end
