(* ===== verification/Lru.thy ===== *)
theory Lru
  imports Go_Base "HOL-Library.AList"
begin

text \<open>
  The interface that the domain-model bank (src/bank/bank.go) and the KV cache
  (src/inference/cache.go) share: a Go map of entries, a slice with their keys, least recently used
  first, and a count of the bytes they take. The locale \<open>lru_store\<close> has the operations both
  components have (add, touch, remove) with the laws the clients rely on; its lemmas show that the
  three fields stay consistent and what a loop that evicts until a budget is met leaves behind.
  A Go map is an association list with distinct keys.
\<close>

section \<open>Removing from the order\<close>

text \<open>The loop over the slice that cuts out the first occurrence of a key.\<close>

fun cut_key :: "'k \<Rightarrow> 'k list \<Rightarrow> 'k list" where
  "cut_key k [] = []"
| "cut_key k (x # xs) = (if x = k then xs else x # cut_key k xs)"

lemma cut_key_remove1 [simp]: "cut_key k xs = remove1 k xs"
  by (induction xs) auto

section \<open>Evicting until a budget is met\<close>

partial_function (option) evict_while ::
  "('s \<Rightarrow> bool) \<Rightarrow> ('s \<Rightarrow> 'k option) \<Rightarrow> ('k \<Rightarrow> 's \<Rightarrow> 's) \<Rightarrow> 's \<Rightarrow> 's option" where
  "evict_while over victim drop_key s =
     (if over s then
        (case victim s of
           None \<Rightarrow> Some s
         | Some k \<Rightarrow> evict_while over victim drop_key (drop_key k s))
      else Some s)"

declare evict_while.simps [code]

text \<open>
  If the victims are the keys \<open>ks\<close> in this order, the loop ends, with the fewest evictions after
  which the budget is met, or with all of them.
\<close>

lemma evict_while_ends:
  assumes "\<And>n. n \<le> length ks \<Longrightarrow>
    victim (fold drop_key (take n ks) s) = (if n < length ks then Some (ks ! n) else None)"
  shows "\<exists>n \<le> length ks. evict_while over victim drop_key s = Some (fold drop_key (take n ks) s) \<and>
    (\<forall>m < n. over (fold drop_key (take m ks) s)) \<and> (over (fold drop_key (take n ks) s) \<longrightarrow> n = length ks)"
  using assms
proof (induction ks arbitrary: s)
  case Nil
  then have "victim s = None" by simp
  then show ?case
    by (subst evict_while.simps) simp
next
  case (Cons k ks)
  show ?case
  proof (cases "over s")
    case False
    then show ?thesis
      by (subst evict_while.simps) (intro exI [of _ 0], simp)
  next
    case True
    have "victim s = Some k"
      using Cons.prems [of 0] by simp
    with True have step: "evict_while over victim drop_key s = evict_while over victim drop_key (drop_key k s)"
      by (subst evict_while.simps) simp
    have "victim (fold drop_key (take n ks) (drop_key k s)) = (if n < length ks then Some (ks ! n) else None)"
      if "n \<le> length ks" for n
      using Cons.prems [of "Suc n"] that by simp
    from Cons.IH [OF this] obtain n where n: "n \<le> length ks"
      "evict_while over victim drop_key (drop_key k s) = Some (fold drop_key (take n ks) (drop_key k s))"
      "\<forall>m < n. over (fold drop_key (take m ks) (drop_key k s))"
      "over (fold drop_key (take n ks) (drop_key k s)) \<longrightarrow> n = length ks"
      by blast
    have "over (fold drop_key (take m (k # ks)) s)" if "m < Suc n" for m
      using that n(3) True by (cases m) auto
    moreover have "evict_while over victim drop_key s = Some (fold drop_key (take (Suc n) (k # ks)) s)"
      using n(2) step by simp
    moreover have "over (fold drop_key (take (Suc n) (k # ks)) s) \<longrightarrow> Suc n = length (k # ks)"
      using n(4) by simp
    ultimately show ?thesis
      using n(1) by (intro exI [of _ "Suc n"] conjI) (simp_all only: length_Cons Suc_le_mono, blast)
  qed
qed

text \<open>Another way to drop the victims that agrees with \<open>drop_key\<close> on the states passed through.\<close>

lemma evict_while_agrees:
  assumes "\<And>n. n \<le> length ks \<Longrightarrow>
    victim (fold drop_key (take n ks) s) = (if n < length ks then Some (ks ! n) else None)"
    and "\<And>n. n < length ks \<Longrightarrow>
      drop_other (ks ! n) (fold drop_key (take n ks) s) = drop_key (ks ! n) (fold drop_key (take n ks) s)"
  shows "evict_while over victim drop_other s = evict_while over victim drop_key s"
  using assms
proof (induction ks arbitrary: s)
  case Nil
  then have "victim s = None" by simp
  then show ?case
    by (subst (1 2) evict_while.simps) simp
next
  case (Cons k ks)
  have "victim (fold drop_key (take n ks) (drop_key k s)) = (if n < length ks then Some (ks ! n) else None)"
    if "n \<le> length ks" for n
    using Cons.prems(1) [of "Suc n"] that by simp
  moreover have "drop_other (ks ! n) (fold drop_key (take n ks) (drop_key k s)) =
      drop_key (ks ! n) (fold drop_key (take n ks) (drop_key k s))" if "n < length ks" for n
    using Cons.prems(2) [of "Suc n"] that by simp
  ultimately have "evict_while over victim drop_other (drop_key k s) = evict_while over victim drop_key (drop_key k s)"
    by (rule Cons.IH)
  moreover have "victim s = Some k" "drop_other k s = drop_key k s"
    using Cons.prems(1) [of 0] Cons.prems(2) [of 0] by simp_all
  ultimately show ?case
    by (subst (1 2) evict_while.simps) simp
qed

section \<open>The interface\<close>

text \<open>Consistency of the map of entries, the order and the byte count (an \<open>int64\<close>).\<close>

definition entry_sum :: "('e \<Rightarrow> int) \<Rightarrow> ('k \<times> 'e) list \<Rightarrow> int" where
  "entry_sum size_of es = sum_list (map (size_of \<circ> snd) es)"

definition lru_ok :: "('e \<Rightarrow> int) \<Rightarrow> ('k \<times> 'e) list \<Rightarrow> 'k list \<Rightarrow> int \<Rightarrow> bool" where
  "lru_ok size_of es ks n \<longleftrightarrow>
     distinct (map fst es) \<and> distinct ks \<and> set ks = fst ` set es \<and> n = i64 (entry_sum size_of es)"

lemma i64_add: "i64 (i64 a + b) = i64 (a + b)"
proof -
  have "take_bit 64 (i64 a + b) = take_bit 64 (take_bit 64 (i64 a) + take_bit 64 b)"
    by (simp only: take_bit_add)
  also have "take_bit 64 (i64 a) = take_bit 64 a"
    by (simp add: i64_def take_bit_signed_take_bit)
  also have "take_bit 64 (take_bit 64 a + take_bit 64 b) = take_bit 64 (a + b)"
    by (simp only: take_bit_add)
  finally show ?thesis
    by (simp add: i64_def signed_take_bit_eq_iff_take_bit_eq)
qed

lemma i64_diff: "i64 (i64 a - b) = i64 (a - b)"
  using i64_add [of a "- b"] by simp

lemma entry_sum_update:
  "k \<notin> fst ` set es \<Longrightarrow> entry_sum size_of (AList.update k e es) = entry_sum size_of es + size_of e"
  by (induction es) (auto simp: entry_sum_def)

lemma entry_sum_delete:
  "distinct (map fst es) \<Longrightarrow> map_of es k = Some e \<Longrightarrow>
    entry_sum size_of (AList.delete k es) = entry_sum size_of es - size_of e"
proof (induction es)
  case (Cons p es)
  obtain k' e' where p: "p = (k', e')" by force
  show ?case
  proof (cases "k' = k")
    case True
    with Cons.prems(1) p have "AList.delete k es = es"
      by (force intro: delete_idem)
    with True Cons.prems p show ?thesis
      by (simp add: entry_sum_def)
  next
    case False
    with Cons p show ?thesis
      by (auto simp: entry_sum_def)
  qed
qed simp

lemma set_update_subset: "set (AList.update k e es) \<subseteq> insert (k, e) (set es)"
  by (induction es) auto

locale lru_store =
  fixes entries :: "'s \<Rightarrow> ('k \<times> 'e) list"
    and order :: "'s \<Rightarrow> 'k list"
    and used :: "'s \<Rightarrow> int"
    and size_of :: "'e \<Rightarrow> int"
    and touch :: "'k \<Rightarrow> 's \<Rightarrow> 's"
    and drop_key :: "'k \<Rightarrow> 's \<Rightarrow> 's"
    and add :: "'k \<Rightarrow> 'e \<Rightarrow> 's \<Rightarrow> 's"
  assumes touch: "entries (touch k s) = entries s" "order (touch k s) = remove1 k (order s) @ [k]"
      "used (touch k s) = used s"
    and drop_absent: "map_of (entries s) k = None \<Longrightarrow> entries (drop_key k s) = entries s"
    and drop_present: "map_of (entries s) k = Some e \<Longrightarrow>
      entries (drop_key k s) = AList.delete k (entries s) \<and> order (drop_key k s) = remove1 k (order s) \<and>
      used (drop_key k s) = i64 (used s - size_of e)"
    and add: "entries (add k e s) = AList.update k e (entries s)" "order (add k e s) = order s @ [k]"
      "used (add k e s) = i64 (used s + size_of e)"
begin

definition ok :: "'s \<Rightarrow> bool" where
  "ok s \<longleftrightarrow> lru_ok size_of (entries s) (order s) (used s)"

lemma okD:
  assumes "ok s"
  shows "distinct (order s)" "set (order s) = fst ` set (entries s)" "distinct (map fst (entries s))"
    "used s = i64 (entry_sum size_of (entries s))"
  using assms by (simp_all add: ok_def lru_ok_def)

lemma present: "ok s \<Longrightarrow> k \<in> set (order s) \<Longrightarrow> \<exists>e. map_of (entries s) k = Some e"
  using okD(2) by (metis map_of_eq_None_iff not_None_eq)

lemma ok_touch: "ok s \<Longrightarrow> k \<in> set (order s) \<Longrightarrow> ok (touch k s)"
  by (auto simp: ok_def lru_ok_def touch)

lemma ok_drop:
  assumes "ok s" "k \<in> set (order s)"
  shows "ok (drop_key k s)" "order (drop_key k s) = remove1 k (order s)"
    "entries (drop_key k s) = AList.delete k (entries s)"
proof -
  obtain e where e: "map_of (entries s) k = Some e"
    using present [OF assms] by blast
  note facts = drop_present [OF e] okD [OF assms(1)]
  have "fst ` set (AList.delete k (entries s)) = set (removeAll k (map fst (entries s)))"
    by (simp flip: delete_keys)
  with facts have "set (remove1 k (order s)) = fst ` set (AList.delete k (entries s))"
    by (simp add: set_remove1_eq)
  with facts show "ok (drop_key k s)" "order (drop_key k s) = remove1 k (order s)"
    "entries (drop_key k s) = AList.delete k (entries s)"
    by (simp_all add: ok_def lru_ok_def distinct_delete entry_sum_delete [OF _ e] i64_diff)
qed

lemma ok_add:
  assumes "ok s" "k \<notin> set (order s)"
  shows "ok (add k e s)"
  using assms okD [OF assms(1)]
  by (auto simp: ok_def lru_ok_def add distinct_update dom_update entry_sum_update i64_add)

lemma ok_drop_many:
  assumes "ok s" "order s = xs @ ys" "n \<le> length xs"
  shows "ok (fold drop_key (take n xs) s)" "order (fold drop_key (take n xs) s) = drop n xs @ ys"
    "entries (fold drop_key (take n xs) s) = fold AList.delete (take n xs) (entries s)"
  using assms
proof (induction xs arbitrary: s n)
  case (Cons x xs)
  { case 1 then show ?case using Cons.IH(1) ok_drop [of s x] by (cases n) auto }
  { case 2 then show ?case using Cons.IH(2) ok_drop [of s x] by (cases n) auto }
  { case 3 then show ?case using Cons.IH(3) ok_drop [of s x] by (cases n) auto }
qed simp_all

text \<open>
  The eviction loop of a client whose victims are the keys at the front of the order that satisfy \<open>P\<close>:
  it ends, in a consistent state that lacks the first \<open>n\<close> of them, and \<open>n\<close> is the least number that
  meets the budget (or all). The client may drop a victim in a way of its own.
\<close>

lemma victims:
  assumes "ok s" "order s = xs @ ys" "\<forall>x \<in> set xs. P x" "\<forall>y \<in> set ys. \<not> P y"
    and "\<And>t. ok t \<Longrightarrow> set (order t) \<subseteq> set (order s) \<Longrightarrow> victim t = find P (order t)"
    and "n \<le> length xs"
  shows "victim (fold drop_key (take n xs) s) = (if n < length xs then Some (xs ! n) else None)"
proof -
  note facts = ok_drop_many [OF assms(1,2,6)]
  have "set (drop n xs @ ys) \<subseteq> set (order s)"
    using assms(2) set_drop_subset [of n xs] by auto
  with facts have v: "victim (fold drop_key (take n xs) s) = find P (drop n xs @ ys)"
    using assms(5) [of "fold drop_key (take n xs) s"] by simp
  show ?thesis
  proof (cases "n < length xs")
    case True
    then show ?thesis
      using assms(3) by (simp add: v Cons_nth_drop_Suc [symmetric])
  next
    case False
    with assms(4) have "find P (drop n xs @ ys) = None"
      by (simp add: find_None_iff)
    with v False show ?thesis by (simp only: if_False)
  qed
qed

lemma evict_ends:
  assumes "ok s" "order s = xs @ ys" "\<forall>x \<in> set xs. P x" "\<forall>y \<in> set ys. \<not> P y"
    and "\<And>t. ok t \<Longrightarrow> set (order t) \<subseteq> set (order s) \<Longrightarrow> victim t = find P (order t)"
    and "\<And>t k. ok t \<Longrightarrow> victim t = Some k \<Longrightarrow> k \<in> set (order t) \<Longrightarrow> drop_other k t = drop_key k t"
  shows "\<exists>n \<le> length xs. \<exists>t. evict_while over victim drop_other s = Some t \<and> t = fold drop_key (take n xs) s \<and>
    ok t \<and> order t = drop n xs @ ys \<and> entries t = fold AList.delete (take n xs) (entries s) \<and>
    (\<forall>m < n. over (fold drop_key (take m xs) s)) \<and> (over t \<longrightarrow> n = length xs)"
proof -
  note next_victim = victims [OF assms(1-5)]
  have "drop_other (xs ! n) (fold drop_key (take n xs) s) = drop_key (xs ! n) (fold drop_key (take n xs) s)"
    if "n < length xs" for n
  proof -
    have "n \<le> length xs" using that by simp
    note facts = ok_drop_many [OF assms(1,2) this]
    have "xs ! n \<in> set (drop n xs @ ys)"
      using that by (simp add: Cons_nth_drop_Suc [symmetric])
    with facts next_victim [of n] that show ?thesis
      by (intro assms(6)) simp_all
  qed
  then have "evict_while over victim drop_other s = evict_while over victim drop_key s"
    by (intro evict_while_agrees [of xs] next_victim)
  moreover from evict_while_ends [OF next_victim] obtain n where n: "n \<le> length xs"
    "evict_while over victim drop_key s = Some (fold drop_key (take n xs) s)"
    "\<forall>m < n. over (fold drop_key (take m xs) s)" "over (fold drop_key (take n xs) s) \<longrightarrow> n = length xs"
    by blast
  moreover note ok_drop_many [OF assms(1,2) n(1)]
  ultimately have "evict_while over victim drop_other s = Some (fold drop_key (take n xs) s) \<and>
      fold drop_key (take n xs) s = fold drop_key (take n xs) s \<and> ok (fold drop_key (take n xs) s) \<and>
      order (fold drop_key (take n xs) s) = drop n xs @ ys \<and>
      entries (fold drop_key (take n xs) s) = fold AList.delete (take n xs) (entries s) \<and>
      (\<forall>m < n. over (fold drop_key (take m xs) s)) \<and> (over (fold drop_key (take n xs) s) \<longrightarrow> n = length xs)"
    by (simp only: simp_thms)
  with n(1) show ?thesis by blast
qed

end

end
