(* ===== verification/Bpe.thy ===== *)
theory Bpe
  imports Go_Base "HOL-Library.AList"
begin

text \<open>
  src/tokenizer/bpe.go: training of the byte-pair encoding.

  \<open>train_bpe\<close> is the trainer with its bookkeeping: the pair counts, the inverted index from a pair to
  the pieces it occurs in, the set of touched pairs and the heap with its stale entries. Go leaves
  the iteration order of a map open; the two loops over a map take it from the arguments \<open>ord_i\<close>
  (pieces) and \<open>ord_p\<close> (pairs). The specification is \<open>naive_bpe\<close>, which counts all pairs afresh in
  every round. container/heap's \<open>Pop\<close> is \<open>heap_pop\<close>: it takes an entry no other one is \<open>Less\<close> than.
  Memory is taken to suffice: a number of merges for which \<open>make\<close> panics is not modelled.
\<close>

section \<open>The code\<close>

type_synonym sym_pair = "nat \<times> nat"

record pair_entry =
  pe_pair :: sym_pair
  pe_count :: int

definition entry_less :: "pair_entry \<Rightarrow> pair_entry \<Rightarrow> bool" where
  "entry_less a b =
     (if pe_count a \<noteq> pe_count b then pe_count a > pe_count b
      else if fst (pe_pair a) \<noteq> fst (pe_pair b) then fst (pe_pair a) < fst (pe_pair b)
      else snd (pe_pair a) < snd (pe_pair b))"

fun best_entry :: "pair_entry \<Rightarrow> pair_entry list \<Rightarrow> pair_entry" where
  "best_entry e [] = e"
| "best_entry e (x # xs) = best_entry (if entry_less x e then x else e) xs"

definition heap_pop :: "pair_entry \<Rightarrow> pair_entry list \<Rightarrow> pair_entry \<times> pair_entry list" where
  "heap_pop e es = (let entry = best_entry e es in (entry, remove1 entry (e # es)))"

text \<open>The token ranks: a Go map from token bytes to ids.\<close>

type_synonym ranks = "(byte list \<times> nat) list"

record bpe_state =
  symbols :: "nat list list"
  pair_count :: "sym_pair \<Rightarrow> int"
  pair_members :: "sym_pair \<Rightarrow> nat list"
  touched :: "sym_pair list"
  merge_heap :: "pair_entry list"
  token_bytes :: "byte list list"
  bpe_ranks :: ranks

definition adj_pairs :: "nat list \<Rightarrow> sym_pair list" where
  "adj_pairs xs = zip xs (tl xs)"

definition add_pair :: "nat \<Rightarrow> sym_pair \<Rightarrow> bpe_state \<Rightarrow> bpe_state" where
  "add_pair i p st =
     st\<lparr>pair_count := (pair_count st)(p := pair_count st p + 1),
        touched := List.insert p (touched st),
        pair_members := (pair_members st)(p := List.insert i (pair_members st p))\<rparr>"

definition add_piece_pairs :: "nat \<Rightarrow> bpe_state \<Rightarrow> bpe_state" where
  "add_piece_pairs i st = fold (add_pair i) (adj_pairs (symbols st ! i)) st"

definition remove_pair :: "nat \<Rightarrow> sym_pair \<Rightarrow> bpe_state \<Rightarrow> bpe_state" where
  "remove_pair i p st =
     st\<lparr>pair_count := (pair_count st)(p := pair_count st p - 1),
        touched := List.insert p (touched st),
        pair_members := (pair_members st)(p := removeAll i (pair_members st p))\<rparr>"

definition remove_piece_pairs :: "nat \<Rightarrow> bpe_state \<Rightarrow> bpe_state" where
  "remove_piece_pairs i st = fold (remove_pair i) (adj_pairs (symbols st ! i)) st"

fun merge_pairs :: "nat \<Rightarrow> nat \<Rightarrow> nat \<Rightarrow> nat list \<Rightarrow> nat list" where
  "merge_pairs left right merged (x # y # xs) =
     (if x = left \<and> y = right then merged # merge_pairs left right merged xs
      else x # merge_pairs left right merged (y # xs))"
| "merge_pairs left right merged xs = xs"

text \<open>Popping the heap until an entry still has the count of its pair.\<close>

lemma best_entry_in: "best_entry e es \<in> set (e # es)"
  by (induction es arbitrary: e) auto

function pop_valid :: "(sym_pair \<Rightarrow> int) \<Rightarrow> pair_entry list \<Rightarrow> pair_entry option \<times> pair_entry list" where
  "pop_valid counts [] = (None, [])"
| "pop_valid counts (e # es) =
     (let (entry, rest) = heap_pop e es in
      if counts (pe_pair entry) = pe_count entry \<and> pe_count entry > 0 then (Some entry, rest)
      else pop_valid counts rest)"
  by pat_completeness auto
termination
proof (relation "measure (\<lambda>(counts, es). length es)")
  fix counts e es x entry rest
  assume "x = heap_pop e es" "(entry, rest) = x"
  then show "((counts, rest), counts, e # es) \<in> measure (\<lambda>(counts, es). length es)"
    using best_entry_in [of e es] by (auto simp: heap_pop_def Let_def length_remove1 dest: length_pos_if_in_set)
qed simp

definition update_piece :: "nat \<Rightarrow> nat \<Rightarrow> nat \<Rightarrow> nat \<Rightarrow> bpe_state \<Rightarrow> bpe_state" where
  "update_piece left right merged i st =
     (let st = remove_piece_pairs i st;
          st = st\<lparr>symbols := (symbols st)[i := merge_pairs left right merged (symbols st ! i)]\<rparr>
      in add_piece_pairs i st)"

definition push_entries :: "sym_pair list \<Rightarrow> bpe_state \<Rightarrow> bpe_state" where
  "push_entries ps st =
     st\<lparr>merge_heap := merge_heap st @ map (\<lambda>p. \<lparr>pe_pair = p, pe_count = pair_count st p\<rparr>) ps\<rparr>"

text \<open>One round: \<open>None\<close> where no pair is left to merge.\<close>

definition merge_round ::
  "(nat list \<Rightarrow> nat list) \<Rightarrow> (sym_pair list \<Rightarrow> sym_pair list) \<Rightarrow> bpe_state \<Rightarrow> bpe_state option" where
  "merge_round ord_i ord_p st =
     (case pop_valid (pair_count st) (merge_heap st) of
        (None, rest) \<Rightarrow> None
      | (Some entry, rest) \<Rightarrow>
          (let (left, right) = pe_pair entry;
               new_symbol = length (token_bytes st);
               bytes = token_bytes st ! left @ token_bytes st ! right;
               piece_list = ord_i (pair_members st (pe_pair entry));
               st = st\<lparr>merge_heap := rest, token_bytes := token_bytes st @ [bytes],
                       bpe_ranks := AList.update bytes new_symbol (bpe_ranks st), touched := []\<rparr>;
               st = fold (update_piece left right new_symbol) piece_list st
           in Some (push_entries (ord_p (touched st)) st)))"

fun merge_rounds ::
  "(nat list \<Rightarrow> nat list) \<Rightarrow> (sym_pair list \<Rightarrow> sym_pair list) \<Rightarrow> nat \<Rightarrow> bpe_state \<Rightarrow> bpe_state" where
  "merge_rounds ord_i ord_p 0 st = st"
| "merge_rounds ord_i ord_p (Suc n) st =
     (case merge_round ord_i ord_p st of None \<Rightarrow> st | Some st' \<Rightarrow> merge_rounds ord_i ord_p n st')"

definition byte_symbols :: "byte list \<Rightarrow> nat list" where
  "byte_symbols piece = map unat piece"

definition byte_tokens :: "byte list list" where
  "byte_tokens = map (\<lambda>b. [word_of_nat b]) [0..<256]"

definition byte_ranks :: ranks where
  "byte_ranks = map (\<lambda>b. ([word_of_nat b], b)) [0..<256]"

text \<open>The initial state. The keys of \<open>pairCount\<close> the heap is filled from are the pairs touched so far.\<close>

definition bpe_init :: "(sym_pair list \<Rightarrow> sym_pair list) \<Rightarrow> byte list list \<Rightarrow> bpe_state" where
  "bpe_init ord_p pieces =
     (let st = \<lparr>symbols = map byte_symbols pieces, pair_count = (\<lambda>_. 0), pair_members = (\<lambda>_. []),
                touched = [], merge_heap = [], token_bytes = byte_tokens, bpe_ranks = byte_ranks\<rparr>;
          st = fold add_piece_pairs [0..<length pieces] st
      in push_entries (ord_p (touched st)) st)"

text \<open>A negative number of merges panics: \<open>tokenBytes\<close> cannot be made or holds fewer than 256 tokens.\<close>

definition train_bpe ::
  "(nat list \<Rightarrow> nat list) \<Rightarrow> (sym_pair list \<Rightarrow> sym_pair list) \<Rightarrow> byte list list \<Rightarrow> int \<Rightarrow> (unit, ranks) outcome" where
  "train_bpe ord_i ord_p pieces num_merges =
     panic_if (num_merges < 0)
       (Inr (bpe_ranks (merge_rounds ord_i ord_p (nat num_merges) (bpe_init ord_p pieces))))"

section \<open>The specification: count all pairs in every round\<close>

definition total_count :: "nat list list \<Rightarrow> sym_pair \<Rightarrow> int" where
  "total_count syms p = sum_list (map (\<lambda>xs. int (count_list (adj_pairs xs) p)) syms)"

definition all_entries :: "nat list list \<Rightarrow> pair_entry list" where
  "all_entries syms =
     map (\<lambda>p. \<lparr>pe_pair = p, pe_count = total_count syms p\<rparr>) (concat (map adj_pairs syms))"

text \<open>The pair that occurs most often, the smallest one among several.\<close>

definition most_frequent :: "nat list list \<Rightarrow> sym_pair option" where
  "most_frequent syms =
     (case all_entries syms of [] \<Rightarrow> None | e # es \<Rightarrow> Some (pe_pair (best_entry e es)))"

fun naive_rounds :: "nat \<Rightarrow> nat list list \<Rightarrow> byte list list \<Rightarrow> ranks \<Rightarrow> ranks" where
  "naive_rounds 0 syms tokens ranks = ranks"
| "naive_rounds (Suc n) syms tokens ranks =
     (case most_frequent syms of None \<Rightarrow> ranks
      | Some (left, right) \<Rightarrow>
          (let bytes = tokens ! left @ tokens ! right
           in naive_rounds n (map (merge_pairs left right (length tokens)) syms) (tokens @ [bytes])
                (AList.update bytes (length tokens) ranks)))"

definition naive_bpe :: "byte list list \<Rightarrow> nat \<Rightarrow> ranks" where
  "naive_bpe pieces n = naive_rounds n (map byte_symbols pieces) byte_tokens byte_ranks"

section \<open>The heap order\<close>

lemma entry_less_irrefl: "\<not> entry_less a a"
  by (simp add: entry_less_def)

lemma entry_less_trans: "entry_less a b \<Longrightarrow> entry_less b c \<Longrightarrow> entry_less a c"
  by (auto simp: entry_less_def split: if_splits)

lemma entry_less_total: "entry_less a b \<or> a = b \<or> entry_less b a"
  by (cases a; cases b) (auto simp: entry_less_def prod_eq_iff)

lemma best_entry_least: "x \<in> set (e # es) \<Longrightarrow> \<not> entry_less x (best_entry e es)"
proof (induction es arbitrary: e x)
  case Nil
  then show ?case by (simp add: entry_less_irrefl)
next
  case (Cons y ys)
  define m where "m = (if entry_less y e then y else e)"
  define b where "b = best_entry m ys"
  have "\<not> entry_less m b"
    using Cons.IH [of m m] by (simp add: b_def)
  moreover have "e = m \<or> entry_less m e" "y = m \<or> entry_less m y"
    using entry_less_total [of y e] by (auto simp: m_def)
  ultimately have "\<not> entry_less e b" "\<not> entry_less y b"
    by (metis entry_less_trans)+
  moreover have "\<not> entry_less z b" if "z \<in> set ys" for z
    using that Cons.IH [of z m] by (simp add: b_def)
  ultimately show ?case using Cons.prems by (auto simp: b_def m_def)
qed

lemma pop_valid_None:
  "pop_valid counts es = (None, rest) \<Longrightarrow> \<forall>e \<in> set es. \<not> (counts (pe_pair e) = pe_count e \<and> pe_count e > 0)"
proof (induction counts es rule: pop_valid.induct)
  case (2 counts e es)
  let ?entry = "best_entry e es"
  have entry: "heap_pop e es = (?entry, remove1 ?entry (e # es))"
    by (simp add: heap_pop_def Let_def)
  have bad: "\<not> (counts (pe_pair ?entry) = pe_count ?entry \<and> pe_count ?entry > 0)"
    using 2(2) by (auto simp: entry split: if_splits)
  moreover have "\<forall>x \<in> set (remove1 ?entry (e # es)). \<not> (counts (pe_pair x) = pe_count x \<and> pe_count x > 0)"
    using 2(2) bad by (intro 2(1) [OF refl entry [symmetric]]) (auto simp: entry)
  ultimately show ?case
    by (metis in_set_remove1)
qed simp

lemma pop_valid_Some:
  "pop_valid counts es = (Some entry, rest) \<Longrightarrow>
    counts (pe_pair entry) = pe_count entry \<and> pe_count entry > 0 \<and> entry \<in> set es \<and>
    (\<forall>e \<in> set es. counts (pe_pair e) = pe_count e \<and> pe_count e > 0 \<longrightarrow>
       \<not> entry_less e entry \<and> (e \<noteq> entry \<longrightarrow> e \<in> set rest))"
proof (induction counts es rule: pop_valid.induct)
  case (2 counts e es)
  let ?entry = "best_entry e es"
  have entry: "heap_pop e es = (?entry, remove1 ?entry (e # es))"
    by (simp add: heap_pop_def Let_def)
  show ?case
  proof (cases "counts (pe_pair ?entry) = pe_count ?entry \<and> pe_count ?entry > 0")
    case True
    with 2(2) have "entry = ?entry" "rest = remove1 ?entry (e # es)"
      by (auto simp: entry)
    with True show ?thesis
      using best_entry_in [of e es] best_entry_least [of _ e es] by (metis in_set_remove1)
  next
    case False
    then have "pop_valid counts (remove1 ?entry (e # es)) = (Some entry, rest)"
      using 2(2) by (auto simp: entry)
    note IH = 2(1) [OF refl entry [symmetric] False this]
    have "x \<in> set (remove1 ?entry (e # es))" if "x \<in> set (e # es)" "counts (pe_pair x) = pe_count x \<and> pe_count x > 0" for x
      using that False by (metis in_set_remove1)
    with IH show ?thesis
      by (meson notin_set_remove1)
  qed
qed simp

section \<open>The bookkeeping\<close>

text \<open>What Go promises of a map's iteration: every key once, in some order.\<close>

definition iterates :: "('a list \<Rightarrow> 'a list) \<Rightarrow> bool" where
  "iterates ord \<longleftrightarrow> (\<forall>xs. distinct xs \<longrightarrow> distinct (ord xs) \<and> set (ord xs) = set xs)"

text \<open>The part of the state a change of the pair index leaves alone.\<close>

definition same_rest :: "bpe_state \<Rightarrow> bpe_state \<Rightarrow> bool" where
  "same_rest st st' \<longleftrightarrow> merge_heap st' = merge_heap st \<and> token_bytes st' = token_bytes st \<and> bpe_ranks st' = bpe_ranks st"

lemma fold_add_pair:
  "pair_count (fold (add_pair i) ps st) p = pair_count st p + int (count_list ps p)"
  "set (touched (fold (add_pair i) ps st)) = set (touched st) \<union> set ps"
  "distinct (touched st) \<Longrightarrow> distinct (touched (fold (add_pair i) ps st))"
  "set (pair_members (fold (add_pair i) ps st) p) = set (pair_members st p) \<union> (if p \<in> set ps then {i} else {})"
  "symbols (fold (add_pair i) ps st) = symbols st"
  "same_rest st (fold (add_pair i) ps st)"
  by (induction ps arbitrary: st) (auto simp: add_pair_def same_rest_def)

lemma fold_remove_pair:
  "pair_count (fold (remove_pair i) ps st) p = pair_count st p - int (count_list ps p)"
  "set (touched (fold (remove_pair i) ps st)) = set (touched st) \<union> set ps"
  "distinct (touched st) \<Longrightarrow> distinct (touched (fold (remove_pair i) ps st))"
  "set (pair_members (fold (remove_pair i) ps st) p) = set (pair_members st p) - (if p \<in> set ps then {i} else {})"
  "symbols (fold (remove_pair i) ps st) = symbols st"
  "same_rest st (fold (remove_pair i) ps st)"
  by (induction ps arbitrary: st) (auto simp: remove_pair_def same_rest_def)

lemma fold_add_pair_distinct:
  "distinct (pair_members st p) \<Longrightarrow> distinct (pair_members (fold (add_pair i) ps st) p)"
proof (induction ps arbitrary: st)
  case (Cons q ps)
  then have "distinct (pair_members (add_pair i q st) p)"
    by (cases "p = q") (simp_all add: add_pair_def)
  with Cons.IH show ?case by simp
qed simp

lemma fold_remove_pair_distinct:
  "distinct (pair_members st p) \<Longrightarrow> distinct (pair_members (fold (remove_pair i) ps st) p)"
proof (induction ps arbitrary: st)
  case (Cons q ps)
  then have "distinct (pair_members (remove_pair i q st) p)"
    by (cases "p = q") (simp_all add: remove_pair_def distinct_removeAll)
  with Cons.IH show ?case by simp
qed simp

text \<open>The pair index is right: the counts are the true ones, the members the pieces with the pair.\<close>

definition index_ok :: "bpe_state \<Rightarrow> bool" where
  "index_ok st \<longleftrightarrow> distinct (touched st) \<and>
     (\<forall>p. pair_count st p = total_count (symbols st) p \<and> distinct (pair_members st p) \<and>
       set (pair_members st p) = {i. i < length (symbols st) \<and> p \<in> set (adj_pairs (symbols st ! i))})"

lemma index_okD:
  assumes "index_ok st"
  shows "distinct (touched st)" "pair_count st p = total_count (symbols st) p" "distinct (pair_members st p)"
    "set (pair_members st p) = {i. i < length (symbols st) \<and> p \<in> set (adj_pairs (symbols st ! i))}"
  using assms unfolding index_ok_def by blast+

lemma total_count_update:
  assumes "i < length syms"
  shows "total_count (syms[i := xs]) p =
    total_count syms p - int (count_list (adj_pairs (syms ! i)) p) + int (count_list (adj_pairs xs) p)"
  using assms
proof (induction syms arbitrary: i)
  case (Cons ys syms)
  then show ?case by (cases i) (simp_all add: total_count_def)
qed simp

lemma update_piece_facts:
  fixes l r m :: nat
  assumes "i < length (symbols st)"
  defines "st' \<equiv> update_piece l r m i st" and "old \<equiv> adj_pairs (symbols st ! i)"
    and "new \<equiv> adj_pairs (merge_pairs l r m (symbols st ! i))"
  shows "symbols st' = (symbols st)[i := merge_pairs l r m (symbols st ! i)]"
    and "pair_count st' p = pair_count st p - int (count_list old p) + int (count_list new p)"
    and "set (touched st') = set (touched st) \<union> set old \<union> set new"
    and "distinct (touched st) \<Longrightarrow> distinct (touched st')"
    and "set (pair_members st' p) = set (pair_members st p) - (if p \<in> set old then {i} else {}) \<union>
      (if p \<in> set new then {i} else {})"
    and "distinct (pair_members st p) \<Longrightarrow> distinct (pair_members st' p)"
    and "same_rest st st'"
proof -
  define st1 where "st1 = fold (remove_pair i) old st"
  define st2 where "st2 = st1\<lparr>symbols := (symbols st)[i := merge_pairs l r m (symbols st ! i)]\<rparr>"
  have "symbols st1 = symbols st"
    by (simp add: st1_def fold_remove_pair)
  then have st': "st' = fold (add_pair i) new st2"
    using assms(1) by (simp add: st'_def update_piece_def remove_piece_pairs_def add_piece_pairs_def Let_def
        st1_def st2_def old_def new_def)
  have st2: "symbols st2 = (symbols st)[i := merge_pairs l r m (symbols st ! i)]"
    "pair_count st2 = pair_count st1" "touched st2 = touched st1" "pair_members st2 = pair_members st1"
    "same_rest st st2"
    using fold_remove_pair(6) [of st i old] by (simp_all add: st2_def same_rest_def st1_def)
  show "symbols st' = (symbols st)[i := merge_pairs l r m (symbols st ! i)]"
    "pair_count st' p = pair_count st p - int (count_list old p) + int (count_list new p)"
    "set (touched st') = set (touched st) \<union> set old \<union> set new"
    "distinct (touched st) \<Longrightarrow> distinct (touched st')"
    "set (pair_members st' p) = set (pair_members st p) - (if p \<in> set old then {i} else {}) \<union>
      (if p \<in> set new then {i} else {})"
    "distinct (pair_members st p) \<Longrightarrow> distinct (pair_members st' p)"
    by (simp_all add: st' fold_add_pair st2 st1_def fold_remove_pair fold_add_pair_distinct
        fold_remove_pair_distinct)
  show "same_rest st st'"
    using fold_add_pair(6) [of st2 i new] st2(5) by (simp add: st' same_rest_def)
qed

lemma update_piece_ok:
  assumes "index_ok st" "i < length (symbols st)"
  shows "index_ok (update_piece l r m i st)"
proof -
  note facts = update_piece_facts [OF assms(2), where l = l and r = r and m = m]
  show ?thesis
    unfolding index_ok_def
  proof (intro conjI allI)
    fix p
    show "distinct (touched (update_piece l r m i st))" "distinct (pair_members (update_piece l r m i st) p)"
      using index_okD(1,3) [OF assms(1)] facts(4) facts(6) [of p] by blast+
    show "pair_count (update_piece l r m i st) p = total_count (symbols (update_piece l r m i st)) p"
      using index_okD(2) [OF assms(1), of p] assms(2) by (simp add: facts(1,2) total_count_update)
    show "set (pair_members (update_piece l r m i st) p) =
        {j. j < length (symbols (update_piece l r m i st)) \<and> p \<in> set (adj_pairs (symbols (update_piece l r m i st) ! j))}"
      using index_okD(4) [OF assms(1), of p] assms(2) by (auto simp: facts(1,5) nth_list_update)
  qed
qed

lemma fold_update_piece:
  "index_ok st \<Longrightarrow> distinct is \<Longrightarrow> \<forall>i \<in> set is. i < length (symbols st) \<Longrightarrow>
    index_ok (fold (update_piece l r m) is st) \<and> same_rest st (fold (update_piece l r m) is st) \<and>
    length (symbols (fold (update_piece l r m) is st)) = length (symbols st) \<and>
    (\<forall>j < length (symbols st). symbols (fold (update_piece l r m) is st) ! j =
       (if j \<in> set is then merge_pairs l r m (symbols st ! j) else symbols st ! j)) \<and>
    set (touched st) \<subseteq> set (touched (fold (update_piece l r m) is st)) \<and>
    (\<forall>i \<in> set is. set (adj_pairs (symbols st ! i)) \<subseteq> set (touched (fold (update_piece l r m) is st))) \<and>
    (\<forall>p. p \<notin> set (touched (fold (update_piece l r m) is st)) \<longrightarrow>
       pair_count (fold (update_piece l r m) is st) p = pair_count st p)"
proof (induction "is" arbitrary: st)
  case Nil
  then show ?case by (simp add: same_rest_def)
next
  case (Cons i "is")
  let ?st1 = "update_piece l r m i st"
  let ?st2 = "fold (update_piece l r m) is ?st1"
  have i: "i < length (symbols st)" using Cons.prems(3) by simp
  note facts = update_piece_facts [OF i, where l = l and r = r and m = m]
  have IH: "index_ok ?st2 \<and> same_rest ?st1 ?st2 \<and> length (symbols ?st2) = length (symbols ?st1) \<and>
    (\<forall>j < length (symbols ?st1). symbols ?st2 ! j =
       (if j \<in> set is then merge_pairs l r m (symbols ?st1 ! j) else symbols ?st1 ! j)) \<and>
    set (touched ?st1) \<subseteq> set (touched ?st2) \<and>
    (\<forall>i \<in> set is. set (adj_pairs (symbols ?st1 ! i)) \<subseteq> set (touched ?st2)) \<and>
    (\<forall>p. p \<notin> set (touched ?st2) \<longrightarrow> pair_count ?st2 p = pair_count ?st1 p)"
    using Cons.prems update_piece_ok [OF Cons.prems(1) i] by (intro Cons.IH) (auto simp: facts(1))
  have keep: "pair_count ?st1 p = pair_count st p" if "p \<notin> set (touched ?st1)" for p
    using that by (simp add: facts(2,3) count_list_0_iff)
  have "same_rest st ?st2"
    using IH facts(7) by (simp add: same_rest_def)
  moreover have "symbols ?st2 ! j = (if j \<in> set (i # is) then merge_pairs l r m (symbols st ! j) else symbols st ! j)"
    if "j < length (symbols st)" for j
    using IH that Cons.prems(2) by (cases "j = i") (auto simp: facts(1))
  moreover have "set (adj_pairs (symbols st ! j)) \<subseteq> set (touched ?st2)" if "j \<in> set (i # is)" for j
  proof (cases "j = i")
    case True
    with IH facts(3) show ?thesis by blast
  next
    case False
    with that have "symbols ?st1 ! j = symbols st ! j" "j \<in> set is"
      by (simp_all add: facts(1))
    with IH show ?thesis by fastforce
  qed
  moreover have "length (symbols ?st2) = length (symbols st)"
    using IH facts(1) by simp
  moreover have "set (touched st) \<subseteq> set (touched ?st2)"
    using IH facts(3) by blast
  moreover have "pair_count ?st2 p = pair_count st p" if "p \<notin> set (touched ?st2)" for p
  proof -
    have "p \<notin> set (touched ?st1)" using IH that by blast
    with IH that keep show ?thesis by metis
  qed
  moreover have "index_ok ?st2"
    using IH by blast
  ultimately show ?case
    unfolding fold_simps by blast
qed

lemma adj_pairs_Cons: "adj_pairs (x # y # xs) = (x, y) # adj_pairs (y # xs)"
  by (simp add: adj_pairs_def)

lemma merge_pairs_absent: "(l, r) \<notin> set (adj_pairs xs) \<Longrightarrow> merge_pairs l r m xs = xs"
  by (induction l r m xs rule: merge_pairs.induct) (auto simp: adj_pairs_Cons)

section \<open>One round of the trainer is one round of the specification\<close>

definition heap_ok :: "bpe_state \<Rightarrow> bool" where
  "heap_ok st \<longleftrightarrow> (\<forall>p. pair_count st p > 0 \<longrightarrow> \<lparr>pe_pair = p, pe_count = pair_count st p\<rparr> \<in> set (merge_heap st))"

lemma total_count_pos: "total_count syms p > 0 \<longleftrightarrow> p \<in> set (concat (map adj_pairs syms))"
proof (induction syms)
  case (Cons xs syms)
  have "0 \<le> total_count syms p"
    unfolding total_count_def by (rule sum_list_nonneg) auto
  moreover have "total_count (xs # syms) p = int (count_list (adj_pairs xs) p) + total_count syms p"
    by (simp add: total_count_def)
  moreover have "count_list (adj_pairs xs) p = 0 \<longleftrightarrow> p \<notin> set (adj_pairs xs)"
    by (rule count_list_0_iff)
  ultimately show ?case using Cons.IH by (cases "p \<in> set (adj_pairs xs)") auto
qed (simp add: total_count_def)

lemma pop_valid_most_frequent:
  assumes "index_ok st" "heap_ok st"
  shows "case pop_valid (pair_count st) (merge_heap st) of
      (None, rest) \<Rightarrow> most_frequent (symbols st) = None
    | (Some entry, rest) \<Rightarrow> most_frequent (symbols st) = Some (pe_pair entry) \<and> pair_count st (pe_pair entry) > 0 \<and>
        (\<forall>p. p \<noteq> pe_pair entry \<and> pair_count st p > 0 \<longrightarrow> \<lparr>pe_pair = p, pe_count = pair_count st p\<rparr> \<in> set rest)"
proof -
  obtain popped rest where pop: "pop_valid (pair_count st) (merge_heap st) = (popped, rest)"
    by (cases "pop_valid (pair_count st) (merge_heap st)")
  have count: "pair_count st = total_count (symbols st)"
    using assms(1) by (auto simp: index_ok_def)
  have in_all: "e \<in> set (all_entries (symbols st)) \<longleftrightarrow> pe_count e = pair_count st (pe_pair e) \<and> pe_count e > 0" for e
    using total_count_pos [of "symbols st" "pe_pair e"] by (cases e) (auto simp: all_entries_def count)
  have in_heap: "e \<in> set (merge_heap st)" if "e \<in> set (all_entries (symbols st))" for e
    using assms(2) that unfolding in_all heap_ok_def by (cases e) auto
  show ?thesis
  proof (cases popped)
    case None
    then have "all_entries (symbols st) = []"
      using pop_valid_None [of "pair_count st" "merge_heap st" rest] pop in_heap in_all
      by (metis list.set_intros(1) neq_Nil_conv)
    with None pop show ?thesis by (simp add: most_frequent_def)
  next
    case (Some entry)
    note found = pop_valid_Some [OF pop [unfolded Some]]
    then have entry: "entry \<in> set (all_entries (symbols st))"
      by (simp add: in_all)
    then obtain e es where es: "all_entries (symbols st) = e # es"
      by (cases "all_entries (symbols st)") auto
    have best: "best_entry e es \<in> set (all_entries (symbols st))"
      using best_entry_in [of e es] by (simp add: es)
    have "\<not> entry_less entry (best_entry e es)"
      using best_entry_least [of entry e es] entry by (simp add: es)
    moreover have "\<not> entry_less (best_entry e es) entry"
      using found best in_heap in_all by force
    ultimately have "best_entry e es = entry"
      using entry_less_total by blast
    moreover have "\<lparr>pe_pair = p, pe_count = pair_count st p\<rparr> \<in> set rest"
      if "p \<noteq> pe_pair entry" "pair_count st p > 0" for p
    proof -
      let ?e = "\<lparr>pe_pair = p, pe_count = pair_count st p\<rparr>"
      have "?e \<in> set (merge_heap st)"
        using that(2) assms(2) unfolding heap_ok_def by blast
      with found have "pair_count st (pe_pair ?e) = pe_count ?e \<and> 0 < pe_count ?e \<longrightarrow>
          \<not> entry_less ?e entry \<and> (?e \<noteq> entry \<longrightarrow> ?e \<in> set rest)"
        by blast
      with that show ?thesis by auto
    qed
    ultimately show ?thesis
      using found pop Some by (simp add: most_frequent_def es)
  qed
qed

lemma push_entries_simps [simp]:
  "symbols (push_entries ps st) = symbols st" "token_bytes (push_entries ps st) = token_bytes st"
  "bpe_ranks (push_entries ps st) = bpe_ranks st" "pair_count (push_entries ps st) = pair_count st"
  "index_ok (push_entries ps st) \<longleftrightarrow> index_ok st"
  by (simp_all add: push_entries_def index_ok_def)

lemma push_entries_heap_ok:
  assumes "\<And>p. p \<notin> set ps \<Longrightarrow> pair_count st p > 0 \<Longrightarrow>
    \<lparr>pe_pair = p, pe_count = pair_count st p\<rparr> \<in> set (merge_heap st)"
  shows "heap_ok (push_entries ps st)"
  using assms by (auto simp: heap_ok_def push_entries_def)

lemma merge_round_None:
  assumes "index_ok st" "heap_ok st" "merge_round ord_i ord_p st = None"
  shows "most_frequent (symbols st) = None"
  using pop_valid_most_frequent [OF assms(1,2)] assms(3)
  by (auto simp: merge_round_def Let_def split: prod.splits option.splits)

lemma merge_round_Some:
  assumes ok: "index_ok st" "heap_ok st" and ord: "iterates ord_i" "iterates ord_p"
    and round: "merge_round ord_i ord_p st = Some st'"
  shows "\<exists>l r. most_frequent (symbols st) = Some (l, r) \<and>
    symbols st' = map (merge_pairs l r (length (token_bytes st))) (symbols st) \<and>
    token_bytes st' = token_bytes st @ [token_bytes st ! l @ token_bytes st ! r] \<and>
    bpe_ranks st' = AList.update (token_bytes st ! l @ token_bytes st ! r) (length (token_bytes st)) (bpe_ranks st) \<and>
    index_ok st' \<and> heap_ok st'"
proof -
  from round obtain entry rest where pop: "pop_valid (pair_count st) (merge_heap st) = (Some entry, rest)"
    by (auto simp: merge_round_def split: prod.splits option.splits)
  obtain l r where lr: "pe_pair entry = (l, r)" by (cases "pe_pair entry")
  let ?m = "length (token_bytes st)"
  let ?bytes = "token_bytes st ! l @ token_bytes st ! r"
  define idxs where "idxs = ord_i (pair_members st (l, r))"
  define st1 where "st1 = st\<lparr>merge_heap := rest, token_bytes := token_bytes st @ [?bytes],
    bpe_ranks := AList.update ?bytes ?m (bpe_ranks st), touched := []\<rparr>"
  define st2 where "st2 = fold (update_piece l r ?m) idxs st1"
  have st': "st' = push_entries (ord_p (touched st2)) st2"
    using round pop lr by (simp add: merge_round_def Let_def st2_def st1_def idxs_def)
  have popped: "most_frequent (symbols st) = Some (l, r)" "pair_count st (l, r) > 0"
    "\<And>p. p \<noteq> (l, r) \<Longrightarrow> pair_count st p > 0 \<Longrightarrow> \<lparr>pe_pair = p, pe_count = pair_count st p\<rparr> \<in> set rest"
    using pop_valid_most_frequent [OF ok] by (auto simp: pop lr)
  have st1: "index_ok st1" "symbols st1 = symbols st" "pair_count st1 = pair_count st" "merge_heap st1 = rest"
    "token_bytes st1 = token_bytes st @ [?bytes]" "bpe_ranks st1 = AList.update ?bytes ?m (bpe_ranks st)"
    using ok(1) by (simp_all add: st1_def index_ok_def)
  have "set idxs = set (pair_members st (l, r))" "distinct idxs"
    using ord(1) index_okD(3) [OF ok(1)] unfolding iterates_def idxs_def by blast+
  then have idx_facts: "distinct idxs" "set idxs = {i. i < length (symbols st) \<and> (l, r) \<in> set (adj_pairs (symbols st ! i))}"
    using index_okD(4) [OF ok(1)] by simp_all
  have fold: "index_ok st2 \<and> same_rest st1 st2 \<and> length (symbols st2) = length (symbols st) \<and>
      (\<forall>j < length (symbols st). symbols st2 ! j =
         (if j \<in> set idxs then merge_pairs l r ?m (symbols st ! j) else symbols st ! j)) \<and>
      (\<forall>i \<in> set idxs. set (adj_pairs (symbols st ! i)) \<subseteq> set (touched st2)) \<and>
      (\<forall>p. p \<notin> set (touched st2) \<longrightarrow> pair_count st2 p = pair_count st p)"
    using fold_update_piece [OF st1(1) idx_facts(1), of l r ?m] idx_facts(2) unfolding st1 st2_def by blast
  have "symbols st2 = map (merge_pairs l r ?m) (symbols st)"
  proof (rule nth_equalityI)
    show "symbols st2 ! j = map (merge_pairs l r ?m) (symbols st) ! j" if "j < length (symbols st2)" for j
      using fold that idx_facts(2) merge_pairs_absent [of l r "symbols st ! j" ?m] by auto
  qed (use fold in simp)
  moreover have "heap_ok st'"
    unfolding st'
  proof (rule push_entries_heap_ok)
    fix p assume p: "p \<notin> set (ord_p (touched st2))" "pair_count st2 p > 0"
    have "distinct (touched st2)"
      using fold index_okD(1) by blast
    with p(1) ord(2) have untouched: "p \<notin> set (touched st2)"
      unfolding iterates_def by blast
    have "(l, r) \<in> set (touched st2)"
    proof -
      have "total_count (symbols st) (l, r) > 0"
        using popped(2) index_okD(2) [OF ok(1)] by simp
      then obtain xs where "xs \<in> set (symbols st)" "(l, r) \<in> set (adj_pairs xs)"
        unfolding total_count_pos by auto
      then obtain i where "i < length (symbols st)" "(l, r) \<in> set (adj_pairs (symbols st ! i))"
        by (metis in_set_conv_nth)
      with fold idx_facts(2) show ?thesis by blast
    qed
    with untouched have "p \<noteq> (l, r)" by blast
    moreover have "pair_count st2 p = pair_count st p"
      using fold untouched by blast
    ultimately show "\<lparr>pe_pair = p, pe_count = pair_count st2 p\<rparr> \<in> set (merge_heap st2)"
      using popped(3) p(2) fold st1(4) by (simp add: same_rest_def)
  qed
  ultimately show ?thesis
    using popped(1) fold st1 st' by (auto simp: same_rest_def)
qed

lemma merge_rounds_naive:
  assumes "iterates ord_i" "iterates ord_p"
  shows "index_ok st \<Longrightarrow> heap_ok st \<Longrightarrow>
    bpe_ranks (merge_rounds ord_i ord_p n st) = naive_rounds n (symbols st) (token_bytes st) (bpe_ranks st)"
proof (induction n arbitrary: st)
  case (Suc n)
  show ?case
  proof (cases "merge_round ord_i ord_p st")
    case None
    with merge_round_None [OF Suc.prems None] show ?thesis by simp
  next
    case (Some st')
    with merge_round_Some [OF Suc.prems assms Some] Suc.IH [of st'] show ?thesis
      by (auto simp: Let_def)
  qed
qed simp

lemma add_piece_pairs_fold:
  assumes "symbols st = syms" "n \<le> length syms" "pair_count st = (\<lambda>_. 0)" "pair_members st = (\<lambda>_. [])" "touched st = []"
  defines "st' \<equiv> fold add_piece_pairs [0..<n] st"
  shows "symbols st' = syms \<and> same_rest st st' \<and> distinct (touched st') \<and>
    set (touched st') = set (concat (map adj_pairs (take n syms))) \<and>
    (\<forall>p. pair_count st' p = total_count (take n syms) p \<and> distinct (pair_members st' p) \<and>
      set (pair_members st' p) = {i. i < n \<and> p \<in> set (adj_pairs (syms ! i))})"
  using assms(2) unfolding st'_def
proof (induction n)
  case 0
  then show ?case using assms by (simp add: same_rest_def total_count_def)
next
  case (Suc n)
  let ?st = "fold add_piece_pairs [0..<n] st"
  have IH: "symbols ?st = syms" "same_rest st ?st" "distinct (touched ?st)"
    "set (touched ?st) = set (concat (map adj_pairs (take n syms)))"
    "\<And>p. pair_count ?st p = total_count (take n syms) p" "\<And>p. distinct (pair_members ?st p)"
    "\<And>p. set (pair_members ?st p) = {i. i < n \<and> p \<in> set (adj_pairs (syms ! i))}"
    using Suc.IH Suc_leD [OF Suc.prems] by blast+
  have step: "fold add_piece_pairs [0..<Suc n] st = fold (add_pair n) (adj_pairs (syms ! n)) ?st"
    using IH(1) by (simp add: add_piece_pairs_def)
  have take: "take (Suc n) syms = take n syms @ [syms ! n]"
    using Suc.prems by (simp add: take_Suc_conv_app_nth)
  show ?case
    unfolding step
  proof (intro conjI allI)
    show "same_rest st (fold (add_pair n) (adj_pairs (syms ! n)) ?st)"
      using IH(2) fold_add_pair(6) [of ?st n "adj_pairs (syms ! n)"] by (simp add: same_rest_def)
    show "set (pair_members (fold (add_pair n) (adj_pairs (syms ! n)) ?st) p) =
        {i. i < Suc n \<and> p \<in> set (adj_pairs (syms ! i))}" for p
      using IH(7) by (auto simp: fold_add_pair less_Suc_eq)
  qed (simp_all add: IH fold_add_pair fold_add_pair_distinct take total_count_def)
qed

lemma bpe_init_ok:
  assumes "iterates ord_p"
  shows "index_ok (bpe_init ord_p pieces)" "heap_ok (bpe_init ord_p pieces)"
    "symbols (bpe_init ord_p pieces) = map byte_symbols pieces"
    "token_bytes (bpe_init ord_p pieces) = byte_tokens" "bpe_ranks (bpe_init ord_p pieces) = byte_ranks"
proof -
  let ?syms = "map byte_symbols pieces"
  define st where "st = \<lparr>symbols = ?syms, pair_count = (\<lambda>_. 0), pair_members = (\<lambda>_. []),
    touched = [], merge_heap = [], token_bytes = byte_tokens, bpe_ranks = byte_ranks\<rparr>"
  define st1 where "st1 = fold add_piece_pairs [0..<length pieces] st"
  have init: "bpe_init ord_p pieces = push_entries (ord_p (touched st1)) st1"
    by (simp add: bpe_init_def st1_def st_def Let_def)
  have start: "symbols st = ?syms" "length pieces \<le> length ?syms" "pair_count st = (\<lambda>_. 0)"
    "pair_members st = (\<lambda>_. [])" "touched st = []"
    by (simp_all add: st_def)
  have all: "take (length pieces) ?syms = ?syms" by simp
  note facts = add_piece_pairs_fold [OF start, folded st1_def, unfolded all]
  have st1: "symbols st1 = ?syms" "same_rest st st1" "distinct (touched st1)"
    "set (touched st1) = set (concat (map adj_pairs ?syms))"
    and counts: "\<And>p. pair_count st1 p = total_count ?syms p" "\<And>p. distinct (pair_members st1 p)"
    "\<And>p. set (pair_members st1 p) = {i. i < length pieces \<and> p \<in> set (adj_pairs (?syms ! i))}"
    using facts by blast+
  show "index_ok (bpe_init ord_p pieces)"
  proof -
    have "index_ok st1"
      using st1(1,3) counts by (simp add: index_ok_def)
    then show ?thesis by (simp add: init)
  qed
  show "heap_ok (bpe_init ord_p pieces)"
    unfolding init
  proof (rule push_entries_heap_ok)
    fix p assume p: "p \<notin> set (ord_p (touched st1))" "pair_count st1 p > 0"
    then have "p \<in> set (touched st1)"
      using total_count_pos [of ?syms p] by (simp add: counts st1(4))
    moreover have "set (ord_p (touched st1)) = set (touched st1)"
      using assms st1(3) unfolding iterates_def by blast
    ultimately show "\<lparr>pe_pair = p, pe_count = pair_count st1 p\<rparr> \<in> set (merge_heap st1)"
      using p(1) by blast
  qed
  show "symbols (bpe_init ord_p pieces) = ?syms" "token_bytes (bpe_init ord_p pieces) = byte_tokens"
    "bpe_ranks (bpe_init ord_p pieces) = byte_ranks"
    using st1 by (simp_all add: init same_rest_def st_def)
qed

lemma train_bpe_eq:
  assumes "iterates ord_i" "iterates ord_p"
  shows "train_bpe ord_i ord_p pieces n = panic_if (n < 0) (Inr (naive_bpe pieces (nat n)))"
  using merge_rounds_naive [OF assms bpe_init_ok(1,2) [OF assms(2)]] bpe_init_ok(3,4,5) [OF assms(2)]
  by (simp add: train_bpe_def naive_bpe_def)

section \<open>No two tokens have the same bytes\<close>

text \<open>
  A merge reads a piece from left to right, so what becomes of a part of a piece whose two ends stay
  symbol boundaries does not depend on what stands around it. Hence at any time two such parts with
  the same bytes consist of the same symbols, and a part with the bytes of a token is that token.
\<close>

definition bytes_of :: "byte list list \<Rightarrow> nat list \<Rightarrow> byte list" where
  "bytes_of tokens u = concat (map (\<lambda>s. tokens ! s) u)"

definition stretches :: "nat list list \<Rightarrow> nat list set" where
  "stretches syms = {u. \<exists>xs \<in> set syms. \<exists>a b. xs = a @ u @ b}"

definition symbols_ok :: "nat list list \<Rightarrow> byte list list \<Rightarrow> bool" where
  "symbols_ok syms tokens \<longleftrightarrow>
     (\<forall>xs \<in> set syms. \<forall>s \<in> set xs. s < length tokens) \<and>
     (\<forall>u \<in> stretches syms. \<forall>v \<in> stretches syms. bytes_of tokens u = bytes_of tokens v \<longrightarrow> u = v) \<and>
     (\<forall>u \<in> stretches syms. \<forall>k < length tokens. bytes_of tokens u = tokens ! k \<longrightarrow> u = [k])"

lemma merge_pairs_split:
  "merge_pairs l r m xs = a' @ w' \<Longrightarrow> \<exists>a w. xs = a @ w \<and> merge_pairs l r m a = a' \<and> merge_pairs l r m w = w'"
proof (induction l r m xs arbitrary: a' rule: merge_pairs.induct)
  case (1 l r m x y xs)
  show ?case
  proof (cases a')
    case Nil
    with 1 show ?thesis by (intro exI [of _ "[]"] exI [of _ "x # y # xs"]) simp
  next
    case (Cons c cs)
    show ?thesis
    proof (cases "x = l \<and> y = r")
      case True
      with 1(3) Cons have "merge_pairs l r m xs = cs @ w'" "c = m" by auto
      with 1(1) [OF True] obtain a w where "xs = a @ w" "merge_pairs l r m a = cs" "merge_pairs l r m w = w'"
        by blast
      with True \<open>c = m\<close> Cons show ?thesis
        by (intro exI [of _ "x # y # a"] exI [of _ w]) simp
    next
      case False
      with 1(3) Cons have "merge_pairs l r m (y # xs) = cs @ w'" "c = x" by (simp_all split: if_splits)
      with 1(2) [OF False] obtain a w where aw: "y # xs = a @ w" "merge_pairs l r m a = cs" "merge_pairs l r m w = w'"
        by blast
      have "merge_pairs l r m (x # a) = x # merge_pairs l r m a"
        using aw(1) False by (cases a) auto
      with aw \<open>c = x\<close> Cons show ?thesis
        by (intro exI [of _ "x # a"] exI [of _ w]) simp
    qed
  qed
next
  fix l r m a' w'
  assume "merge_pairs l r m [] = a' @ w'"
  then show "\<exists>a w. [] = a @ w \<and> merge_pairs l r m a = a' \<and> merge_pairs l r m w = w'"
    by simp
next
  fix l r m v a' w'
  assume "merge_pairs l r m [v] = a' @ w'"
  then have "(a' = [] \<and> w' = [v]) \<or> (a' = [v] \<and> w' = [])"
    by (auto simp: Cons_eq_append_conv)
  then show "\<exists>a w. [v] = a @ w \<and> merge_pairs l r m a = a' \<and> merge_pairs l r m w = w'"
    by (intro exI [of _ a'] exI [of _ w']) auto
qed

lemma stretches_merge:
  assumes "u' \<in> stretches (map (merge_pairs l r m) syms)"
  shows "\<exists>u \<in> stretches syms. u' = merge_pairs l r m u"
proof -
  from assms obtain xs a' b' where xs: "xs \<in> set syms" "merge_pairs l r m xs = a' @ u' @ b'"
    by (auto simp: stretches_def)
  from merge_pairs_split [OF xs(2)] obtain a w where w: "xs = a @ w" "merge_pairs l r m w = u' @ b'"
    by blast
  from merge_pairs_split [OF w(2)] obtain u b where u: "w = u @ b" "merge_pairs l r m u = u'"
    by blast
  have "u \<in> stretches syms"
    using xs(1) w(1) u(1) unfolding stretches_def by blast
  with u(2) show ?thesis by blast
qed

lemma bytes_of_append: "\<forall>s \<in> set u. s < length tokens \<Longrightarrow> bytes_of (tokens @ extra) u = bytes_of tokens u"
  by (induction u) (simp_all add: bytes_of_def nth_append)

lemma bytes_of_merge:
  assumes "tokens ! m = tokens ! l @ tokens ! r"
  shows "bytes_of tokens (merge_pairs l r m xs) = bytes_of tokens xs"
  using assms by (induction l r m xs rule: merge_pairs.induct) (auto simp: bytes_of_def)

lemma stretches_symbols: "u \<in> stretches syms \<Longrightarrow> \<forall>xs \<in> set syms. \<forall>s \<in> set xs. s < n \<Longrightarrow> \<forall>s \<in> set u. s < n"
  by (auto simp: stretches_def)

lemma set_merge_pairs: "set (merge_pairs l r m xs) \<subseteq> insert m (set xs)"
  by (induction l r m xs rule: merge_pairs.induct) auto

lemma adj_pairs_part: "(l, r) \<in> set (adj_pairs xs) \<Longrightarrow> \<exists>a b. xs = a @ [l, r] @ b"
proof (induction xs)
  case (Cons x xs)
  show ?case
  proof (cases xs)
    case Nil
    with Cons.prems show ?thesis by (simp add: adj_pairs_def)
  next
    case (Cons y ys)
    with Cons.prems have "(l, r) = (x, y) \<or> (l, r) \<in> set (adj_pairs xs)"
      by (simp add: adj_pairs_Cons)
    then show ?thesis
    proof
      assume "(l, r) = (x, y)"
      with Cons show ?thesis by (intro exI [of _ "[]"] exI [of _ ys]) simp
    next
      assume "(l, r) \<in> set (adj_pairs xs)"
      with \<open>(l, r) \<in> set (adj_pairs xs) \<Longrightarrow> _\<close> obtain a b where "xs = a @ [l, r] @ b" by blast
      then show ?thesis by (intro exI [of _ "x # a"] exI [of _ b]) simp
    qed
  qed
qed (simp add: adj_pairs_def)

lemma symbols_ok_merge:
  assumes ok: "symbols_ok syms tokens" and pair: "[l, r] \<in> stretches syms"
  defines "bytes \<equiv> tokens ! l @ tokens ! r"
  shows "symbols_ok (map (merge_pairs l r (length tokens)) syms) (tokens @ [bytes])"
    and "bytes \<notin> set tokens"
proof -
  let ?m = "length tokens"
  let ?tokens = "tokens @ [bytes]"
  have small: "\<forall>xs \<in> set syms. \<forall>s \<in> set xs. s < ?m"
    and same: "\<And>u v. u \<in> stretches syms \<Longrightarrow> v \<in> stretches syms \<Longrightarrow> bytes_of tokens u = bytes_of tokens v \<Longrightarrow> u = v"
    and token: "\<And>u k. u \<in> stretches syms \<Longrightarrow> k < ?m \<Longrightarrow> bytes_of tokens u = tokens ! k \<Longrightarrow> u = [k]"
    using ok unfolding symbols_ok_def by blast+
  have lr: "l < ?m" "r < ?m"
    using stretches_symbols [OF pair small] by simp_all
  then have new: "?tokens ! ?m = ?tokens ! l @ ?tokens ! r"
    by (simp add: bytes_def nth_append)
  have pair_bytes: "bytes_of tokens [l, r] = bytes"
    by (simp add: bytes_of_def bytes_def)
  have old: "\<exists>u \<in> stretches syms. u' = merge_pairs l r ?m u \<and> bytes_of ?tokens u' = bytes_of tokens u"
    if "u' \<in> stretches (map (merge_pairs l r ?m) syms)" for u'
  proof -
    from stretches_merge [OF that] obtain u where u: "u \<in> stretches syms" "u' = merge_pairs l r ?m u" by blast
    have "bytes_of ?tokens u' = bytes_of ?tokens u"
      using bytes_of_merge [OF new] by (simp add: u(2))
    also have "\<dots> = bytes_of tokens u"
      using stretches_symbols [OF u(1) small] by (rule bytes_of_append)
    finally show ?thesis using u by blast
  qed
  show "bytes \<notin> set tokens"
  proof
    assume "bytes \<in> set tokens"
    then obtain k where "k < ?m" "tokens ! k = bytes" by (auto simp: in_set_conv_nth)
    with token [OF pair, of k] pair_bytes show False by simp
  qed
  show "symbols_ok (map (merge_pairs l r ?m) syms) ?tokens"
    unfolding symbols_ok_def
  proof (intro conjI ballI allI impI)
    fix xs s assume "xs \<in> set (map (merge_pairs l r ?m) syms)" "s \<in> set xs"
    with small set_merge_pairs show "s < length ?tokens"
      by (fastforce simp: less_Suc_eq)
  next
    fix u' v' assume "u' \<in> stretches (map (merge_pairs l r ?m) syms)" "v' \<in> stretches (map (merge_pairs l r ?m) syms)"
      "bytes_of ?tokens u' = bytes_of ?tokens v'"
    with old [of u'] old [of v'] same show "u' = v'" by metis
  next
    fix u' k assume u': "u' \<in> stretches (map (merge_pairs l r ?m) syms)" and k: "k < length ?tokens"
      "bytes_of ?tokens u' = ?tokens ! k"
    from old [OF u'] obtain u where u: "u \<in> stretches syms" "u' = merge_pairs l r ?m u"
      "bytes_of tokens u = ?tokens ! k"
      using k(2) by auto
    show "u' = [k]"
    proof (cases "k < ?m")
      case True
      with u token [of u k] show ?thesis by (simp add: nth_append)
    next
      case False
      with k(1) have "k = ?m" by simp
      with u pair_bytes same [OF u(1) pair] show ?thesis by simp
    qed
  qed
qed

lemma symbols_ok_init: "symbols_ok (map byte_symbols pieces) byte_tokens"
proof -
  have tokens: "length byte_tokens = 256" "\<And>k. k < 256 \<Longrightarrow> byte_tokens ! k = [word_of_nat k]"
    by (simp_all add: byte_tokens_def)
  have small: "\<forall>xs \<in> set (map byte_symbols pieces). \<forall>s \<in> set xs. s < 256"
    by (auto simp: byte_symbols_def)
  have bytes: "map unat (bytes_of byte_tokens u) = u" if "u \<in> stretches (map byte_symbols pieces)" for u
    using stretches_symbols [OF that small]
    by (induction u) (simp_all add: bytes_of_def tokens unat_byte_of_nat)
  show ?thesis
    unfolding symbols_ok_def tokens(1)
  proof (intro conjI ballI allI impI)
    fix u v assume "u \<in> stretches (map byte_symbols pieces)" "v \<in> stretches (map byte_symbols pieces)"
      "bytes_of byte_tokens u = bytes_of byte_tokens v"
    then show "u = v" using bytes by metis
  next
    fix u k assume "u \<in> stretches (map byte_symbols pieces)" "k < 256" "bytes_of byte_tokens u = byte_tokens ! k"
    then show "u = [k]" using bytes [of u] by (simp add: tokens unat_byte_of_nat)
  qed (use small in blast)
qed

text \<open>The ranks number the tokens in the order of their creation.\<close>

definition numbered :: "byte list list \<Rightarrow> ranks" where
  "numbered tokens = zip tokens [0..<length tokens]"

lemma update_new: "k \<notin> fst ` set al \<Longrightarrow> AList.update k v al = al @ [(k, v)]"
  by (induction al) auto

lemma numbered_update: "bytes \<notin> set tokens \<Longrightarrow>
    AList.update bytes (length tokens) (numbered tokens) = numbered (tokens @ [bytes])"
  by (subst update_new) (auto simp: numbered_def dest: set_zip_leftD)

lemma most_frequent_part:
  assumes "most_frequent syms = Some (l, r)"
  shows "[l, r] \<in> stretches syms"
proof -
  from assms obtain e es where es: "all_entries syms = e # es" "pe_pair (best_entry e es) = (l, r)"
    by (auto simp: most_frequent_def split: list.splits)
  then have "best_entry e es \<in> set (all_entries syms)"
    using best_entry_in [of e es] by simp
  with es(2) obtain xs where "xs \<in> set syms" "(l, r) \<in> set (adj_pairs xs)"
    by (auto simp: all_entries_def)
  then show ?thesis
    using adj_pairs_part by (fastforce simp: stretches_def)
qed

lemma naive_rounds_tokens:
  "symbols_ok syms tokens \<Longrightarrow> distinct tokens \<Longrightarrow> [] \<notin> set tokens \<Longrightarrow>
    \<exists>extra. naive_rounds n syms tokens (numbered tokens) = numbered (tokens @ extra) \<and>
      distinct (tokens @ extra) \<and> [] \<notin> set extra \<and> length extra \<le> n"
proof (induction n arbitrary: syms tokens)
  case 0
  then show ?case by (intro exI [of _ "[]"]) simp
next
  case (Suc n)
  show ?case
  proof (cases "most_frequent syms")
    case None
    with Suc.prems show ?thesis by (intro exI [of _ "[]"]) simp
  next
    case (Some p)
    obtain l r where p: "p = (l, r)" by (cases p)
    let ?bytes = "tokens ! l @ tokens ! r"
    have pair: "[l, r] \<in> stretches syms"
      using Some p by (simp add: most_frequent_part)
    note merged = symbols_ok_merge [OF Suc.prems(1) pair]
    have "\<forall>s \<in> set [l, r]. s < length tokens"
      using pair Suc.prems(1) unfolding symbols_ok_def by (blast dest: stretches_symbols)
    then have "?bytes \<noteq> []"
      using Suc.prems(3) by (auto simp: in_set_conv_nth)
    then obtain extra where "naive_rounds n (map (merge_pairs l r (length tokens)) syms) (tokens @ [?bytes])
          (numbered (tokens @ [?bytes])) = numbered ((tokens @ [?bytes]) @ extra)"
      "distinct ((tokens @ [?bytes]) @ extra)" "[] \<notin> set extra" "length extra \<le> n"
      using Suc.IH [OF merged(1)] merged(2) Suc.prems by auto
    with \<open>?bytes \<noteq> []\<close> show ?thesis
      by (intro exI [of _ "?bytes # extra"]) (simp add: Some p Let_def numbered_update [OF merged(2)])
  qed
qed

lemma byte_ranks_numbered: "byte_ranks = numbered byte_tokens"
  by (rule nth_equalityI) (simp_all add: byte_ranks_def numbered_def byte_tokens_def)

lemma distinct_byte_tokens: "distinct byte_tokens"
  unfolding byte_tokens_def distinct_map
  by (auto intro!: inj_onI) (metis unat_byte_of_nat)

lemma trained_vocabulary:
  assumes "iterates ord_i" "iterates ord_p"
  shows "case train_bpe ord_i ord_p pieces n of
      Inl e \<Rightarrow> n < 0
    | Inr ranks \<Rightarrow> \<exists>extra. ranks = numbered (byte_tokens @ extra) \<and> distinct (byte_tokens @ extra) \<and>
        [] \<notin> set extra \<and> int (length extra) \<le> n"
proof (cases "n < 0")
  case True
  then show ?thesis by (simp add: train_bpe_def)
next
  case False
  have "[] \<notin> set byte_tokens"
    by (auto simp: byte_tokens_def)
  then obtain extra where "naive_bpe pieces (nat n) = numbered (byte_tokens @ extra)"
    "distinct (byte_tokens @ extra)" "[] \<notin> set extra" "length extra \<le> nat n"
    using naive_rounds_tokens [OF symbols_ok_init [of pieces] distinct_byte_tokens, of "nat n"]
    by (auto simp: naive_bpe_def byte_ranks_numbered)
  with False show ?thesis
    by (auto simp: train_bpe_eq [OF assms])
qed

section \<open>Properties\<close>

text \<open>
  C24. The trainer's bookkeeping is right: with incremental pair counts, the inverted index and the
  lazily cleaned heap it produces exactly the ranks of the naive algorithm, which in each round counts
  all pairs of all pieces and merges the most frequent one (the smallest of several), whatever order
  Go's map iterations take.
\<close>

theorem train_bpe_naive:
  assumes "iterates ord_i" "iterates ord_p" "0 \<le> n"
  shows "train_bpe ord_i ord_p pieces n = Inr (naive_bpe pieces (nat n))"
  using train_bpe_eq [OF assms(1,2)] assms(3) by simp

theorem train_bpe_naive_witness:
  "train_bpe rev (\<lambda>ps. ps) [[97, 98, 97, 98], [98, 97, 98]] 3 = Inr (naive_bpe [[97, 98, 97, 98], [98, 97, 98]] 3)"
  using train_bpe_naive [of rev "\<lambda>ps. ps" 3 "[[97, 98, 97, 98], [98, 97, 98]]"]
  by (simp add: iterates_def)

text \<open>
  The trained vocabulary is a numbering: the tokens are pairwise different and not empty, the
  256 single bytes come first, each merge adds one more token with the next id (no merge ever
  recreates the bytes of an earlier token), and there are at most as many as merges asked for.
\<close>

theorem train_bpe_vocabulary:
  assumes "iterates ord_i" "iterates ord_p"
  shows "case train_bpe ord_i ord_p pieces n of
      Inl e \<Rightarrow> n < 0
    | Inr ranks \<Rightarrow> \<exists>extra. ranks = numbered (byte_tokens @ extra) \<and> distinct (byte_tokens @ extra) \<and>
        [] \<notin> set extra \<and> int (length extra) \<le> n"
  using assms by (rule trained_vocabulary)

theorem train_bpe_vocabulary_witness:
  "case train_bpe rev (\<lambda>ps. ps) [[97, 98, 97, 98], [98, 97, 98]] 3 of
      Inl e \<Rightarrow> (3::int) < 0
    | Inr ranks \<Rightarrow> \<exists>extra. ranks = numbered (byte_tokens @ extra) \<and> distinct (byte_tokens @ extra) \<and>
        [] \<notin> set extra \<and> int (length extra) \<le> 3"
  by (rule train_bpe_vocabulary) (simp_all add: iterates_def)

text \<open>
  A merge loses nothing: replacing the pair by a symbol that stands for both keeps the bytes of
  every piece.
\<close>

theorem merge_pairs_lossless:
  fixes tokens :: "byte list list"
  assumes "tokens ! m = tokens ! l @ tokens ! r"
  shows "concat (map (\<lambda>s. tokens ! s) (merge_pairs l r m xs)) = concat (map (\<lambda>s. tokens ! s) xs)"
  using bytes_of_merge [OF assms] by (simp add: bytes_of_def)

theorem merge_pairs_lossless_witness:
  "concat (map (\<lambda>s. [[1], [2 :: byte], [1, 2]] ! s) (merge_pairs 0 1 2 [0, 1, 1, 0, 1])) =
    concat (map (\<lambda>s. [[1], [2 :: byte], [1, 2]] ! s) [0, 1, 1, 0, 1])"
  by (rule merge_pairs_lossless) simp

end
