(* ===== verification/Splitter.thy ===== *)
theory Splitter
  imports Go_Base
begin

text \<open>
  src/tokenizer/splitter.go: splitting a text into the pieces BPE works on.

  A text is the list of its code points, what \<open>[]rune(text)\<close> gives for valid UTF-8 (for other strings
  Go first replaces each invalid byte by U+FFFD). The matchers look only forward from their index, so
  here they take the runes from the index on and return how many they match, 0 for no match. The
  classes of package unicode are the record \<open>unicode\<close>, an argument of all definitions.
\<close>

section \<open>The code\<close>

type_synonym rune = nat

record unicode =
  is_letter :: "rune \<Rightarrow> bool"
  is_number :: "rune \<Rightarrow> bool"
  is_space :: "rune \<Rightarrow> bool"
  to_lower :: "rune \<Rightarrow> rune"

definition is_newline :: "rune \<Rightarrow> bool" where
  "is_newline c \<longleftrightarrow> c = 13 \<or> c = 10"

definition match_contraction :: "unicode \<Rightarrow> rune list \<Rightarrow> nat option" where
  "match_contraction U rs =
     (case rs of [] \<Rightarrow> None
      | c # rest \<Rightarrow>
          if c \<noteq> 39 then None
          else if length rest \<ge> 2 \<and>
              map (to_lower U) (take 2 rest) \<in> {[108, 108], [118, 101], [114, 101]} then Some 3
          else if length rest \<ge> 1 \<and> to_lower U (hd rest) \<in> {115, 100, 109, 116} then Some 2
          else None)"

definition starts_with :: "(rune \<Rightarrow> bool) \<Rightarrow> rune list \<Rightarrow> bool" where
  "starts_with P rs = (case rs of [] \<Rightarrow> False | c # _ \<Rightarrow> P c)"

definition match_letter :: "unicode \<Rightarrow> rune list \<Rightarrow> nat" where
  "match_letter U rs =
     (case rs of [] \<Rightarrow> 0
      | c # _ \<Rightarrow>
          let cursor = (if \<not> is_newline c \<and> \<not> is_letter U c \<and> \<not> is_number U c then 1 else 0)
          in if \<not> starts_with (is_letter U) (drop cursor rs) then 0
             else cursor + length (takeWhile (is_letter U) (drop cursor rs)))"

definition match_number :: "unicode \<Rightarrow> rune list \<Rightarrow> nat" where
  "match_number U rs =
     (if \<not> starts_with (is_number U) rs then 0
      else if starts_with (is_number U) (drop 1 rs) then 2 else 1)"

definition is_symbol :: "unicode \<Rightarrow> rune \<Rightarrow> bool" where
  "is_symbol U c \<longleftrightarrow> \<not> is_space U c \<and> \<not> is_letter U c \<and> \<not> is_number U c"

definition match_punctuation :: "unicode \<Rightarrow> rune list \<Rightarrow> nat" where
  "match_punctuation U rs =
     (let start = (if starts_with (\<lambda>c. c = 32) rs then 1 else 0);
          n = length (takeWhile (is_symbol U) (drop start rs))
      in if n = 0 then 0
         else start + n + length (takeWhile is_newline (drop (start + n) rs)))"

fun newline_loop :: "unicode \<Rightarrow> rune list \<Rightarrow> nat \<Rightarrow> nat option \<Rightarrow> nat option" where
  "newline_loop U [] cursor last_newline = last_newline"
| "newline_loop U (c # cs) cursor last_newline =
     (if is_space U c
      then newline_loop U cs (cursor + 1) (if is_newline c then Some cursor else last_newline)
      else last_newline)"

definition match_newline :: "unicode \<Rightarrow> rune list \<Rightarrow> nat" where
  "match_newline U rs = (case newline_loop U rs 0 None of None \<Rightarrow> 0 | Some i \<Rightarrow> i + 1)"

definition match_whitespace :: "unicode \<Rightarrow> rune list \<Rightarrow> nat" where
  "match_whitespace U rs = length (takeWhile (is_space U) rs)"

text \<open>The alternatives in their order; the last line is the code's fallback of a single rune.\<close>

definition piece_length :: "unicode \<Rightarrow> rune list \<Rightarrow> nat" where
  "piece_length U rs =
     (case match_contraction U rs of Some n \<Rightarrow> n
      | None \<Rightarrow>
          if match_letter U rs > 0 then match_letter U rs
          else if match_number U rs > 0 then match_number U rs
          else if match_punctuation U rs > 0 then match_punctuation U rs
          else if match_newline U rs > 0 then match_newline U rs
          else if match_whitespace U rs > 0 then match_whitespace U rs
          else 1)"

lemma piece_length_pos: "0 < piece_length U rs"
  by (auto simp: piece_length_def match_contraction_def split: option.split list.splits if_splits)

function split_pieces :: "unicode \<Rightarrow> rune list \<Rightarrow> rune list list" where
  "split_pieces U [] = []"
| "split_pieces U (r # rs) =
     (let n = piece_length U (r # rs) in take n (r # rs) # split_pieces U (drop n (r # rs)))"
  by pat_completeness auto
termination
proof (relation "measure (\<lambda>(U, rs). length rs)")
  fix U r rs n
  assume "n = piece_length U (r # rs)"
  then have "0 < n" using piece_length_pos by simp
  then show "((U, drop n (r # rs)), U, r # rs) \<in> measure (\<lambda>(U, rs). length rs)"
    by (cases n) auto
qed simp

declare split_pieces.simps(2) [simp del]

text \<open>\<open>string(runes)\<close>: UTF-8, with U+FFFD for what is no Unicode scalar value.\<close>

definition utf8_rune :: "rune \<Rightarrow> byte list" where
  "utf8_rune r =
     (let r = (if r < 0xD800 \<or> 0xDFFF < r \<and> r < 0x110000 then r else 0xFFFD) in
      if r < 0x80 then [word_of_nat r]
      else if r < 0x800 then [word_of_nat (0xC0 + r div 64), word_of_nat (0x80 + r mod 64)]
      else if r < 0x10000 then
        [word_of_nat (0xE0 + r div 4096), word_of_nat (0x80 + r div 64 mod 64), word_of_nat (0x80 + r mod 64)]
      else [word_of_nat (0xF0 + r div 262144), word_of_nat (0x80 + r div 4096 mod 64),
        word_of_nat (0x80 + r div 64 mod 64), word_of_nat (0x80 + r mod 64)])"

definition utf8 :: "rune list \<Rightarrow> byte list" where
  "utf8 rs = concat (map utf8_rune rs)"

section \<open>The pieces are a partition of the text\<close>

lemma concat_split_pieces: "concat (split_pieces U rs) = rs"
proof (induction U rs rule: split_pieces.induct)
  case (2 U r rs)
  have "concat (split_pieces U (r # rs)) =
      take (piece_length U (r # rs)) (r # rs) @ drop (piece_length U (r # rs)) (r # rs)"
    by (simp only: split_pieces.simps(2) Let_def concat.simps 2 [OF refl])
  then show ?case by (simp only: append_take_drop_id)
qed simp

lemma split_pieces_nonempty: "p \<in> set (split_pieces U rs) \<Longrightarrow> p \<noteq> []"
proof (induction U rs rule: split_pieces.induct)
  case (2 U r rs)
  then show ?case
    using piece_length_pos [of U "r # rs"]
    by (auto simp: split_pieces.simps(2) Let_def simp del: drop_Cons)
qed simp

lemma utf8_concat: "utf8 (concat ps) = concat (map utf8 ps)"
  by (induction ps) (simp_all add: utf8_def)

lemma starts_with_takeWhile: "starts_with P rs \<longleftrightarrow> 0 < length (takeWhile P rs)"
  by (cases rs) (simp_all add: starts_with_def)

text \<open>What the splitter relies on of the tables of package unicode.\<close>

definition classes_ok :: "unicode \<Rightarrow> bool" where
  "classes_ok U \<longleftrightarrow>
     is_space U 32 \<and> is_space U 10 \<and> is_space U 13 \<and>
     (\<forall>c. \<not> (is_letter U c \<and> is_number U c) \<and> \<not> (is_space U c \<and> is_letter U c) \<and> \<not> (is_space U c \<and> is_number U c)) \<and>
     \<not> is_number U 39 \<and>
     (\<forall>c. is_number U c \<longrightarrow> to_lower U c \<notin> {115, 100, 109, 116, 108, 118, 101, 114})"

lemma set_takeWhile: "c \<in> set (takeWhile P rs) \<Longrightarrow> P c"
  by (auto dest: set_takeWhileD)

lemma take_cursor: "take (k + length (takeWhile P (drop k rs))) rs = take k rs @ takeWhile P (drop k rs)"
  by (metis append_take_drop_id take_add takeWhile_eq_take)

lemma match_letter_numbers:
  assumes "classes_ok U" "0 < match_letter U rs" "c \<in> set (take (match_letter U rs) rs)"
  shows "\<not> is_number U c"
proof -
  obtain a as where rs: "rs = a # as"
    using assms(2) by (cases rs) (simp_all add: match_letter_def)
  define k :: nat where "k = (if \<not> is_newline a \<and> \<not> is_letter U a \<and> \<not> is_number U a then 1 else 0)"
  have "match_letter U rs = (if \<not> starts_with (is_letter U) (drop k rs) then 0
      else k + length (takeWhile (is_letter U) (drop k rs)))"
    by (simp add: match_letter_def rs Let_def k_def)
  with assms(2) have len: "match_letter U rs = k + length (takeWhile (is_letter U) (drop k rs))"
    by (simp split: if_splits)
  have "c \<in> set (take k rs) \<or> is_letter U c"
    using assms(3) unfolding len take_cursor by (auto dest: set_takeWhile)
  moreover have "\<not> is_number U c" if "c \<in> set (take k rs)"
    using that by (auto simp: rs k_def split: if_splits)
  ultimately show ?thesis using assms(1) by (auto simp: classes_ok_def)
qed

lemma match_punctuation_numbers:
  assumes "classes_ok U" "c \<in> set (take (match_punctuation U rs) rs)"
  shows "\<not> is_number U c"
proof -
  let ?k = "if starts_with (\<lambda>c. c = 32) rs then 1 else 0 :: nat"
  let ?n = "length (takeWhile (is_symbol U) (drop ?k rs))"
  have "c \<in> set (take (?k + ?n + length (takeWhile is_newline (drop (?k + ?n) rs))) rs)"
    using assms(2) unfolding match_punctuation_def Let_def by (auto split: if_splits)
  then have "c \<in> set (take ?k rs) \<or> is_symbol U c \<or> is_newline c"
    unfolding take_cursor by (auto dest: set_takeWhile)
  moreover have "c = 32" if "c \<in> set (take ?k rs)"
    using that by (cases rs) (auto simp: starts_with_def split: if_splits)
  ultimately show ?thesis
    using assms(1) by (auto simp: classes_ok_def is_symbol_def is_newline_def)
qed

lemma newline_loop_bound:
  "newline_loop U rs k last_nl = Some i \<Longrightarrow> last_nl = Some i \<or> i < k + length (takeWhile (is_space U) rs)"
  by (induction U rs k last_nl rule: newline_loop.induct) (fastforce split: if_splits)+

lemma match_newline_space: "c \<in> set (take (match_newline U rs) rs) \<Longrightarrow> is_space U c"
proof -
  assume c: "c \<in> set (take (match_newline U rs) rs)"
  have "match_newline U rs \<le> length (takeWhile (is_space U) rs)"
    using newline_loop_bound [of U rs 0 None] by (auto simp: match_newline_def split: option.split)
  then have "set (take (match_newline U rs) rs) \<subseteq> set (takeWhile (is_space U) rs)"
    by (metis set_take_subset_set_take takeWhile_eq_take)
  with c show ?thesis by (auto dest: set_takeWhile)
qed

lemma match_contraction_numbers:
  assumes "classes_ok U" "match_contraction U rs = Some n" "c \<in> set (take n rs)"
  shows "\<not> is_number U c"
proof -
  obtain a as where rs: "rs = a # as" "a = 39"
    using assms(2) by (cases rs) (auto simp: match_contraction_def split: if_splits)
  have "c = 39 \<or> to_lower U c \<in> {115, 100, 109, 116, 108, 118, 101, 114}"
    using assms(2,3) by (cases as; cases "tl as")
      (auto simp: rs match_contraction_def numeral_eq_Suc split: if_splits)
  then show ?thesis using assms(1) unfolding classes_ok_def by blast
qed

lemma match_number_piece:
  assumes "0 < match_number U rs"
  shows "length (take (match_number U rs) rs) \<le> 2" "\<forall>c \<in> set (take (match_number U rs) rs). is_number U c"
proof -
  obtain a as where rs: "rs = a # as" "is_number U a"
    using assms by (cases rs) (auto simp: match_number_def starts_with_def split: if_splits)
  show "length (take (match_number U rs) rs) \<le> 2" "\<forall>c \<in> set (take (match_number U rs) rs). is_number U c"
    using rs(2) by (cases as; simp add: rs(1) match_number_def starts_with_def)+
qed

lemma piece_numbers:
  assumes "classes_ok U" "rs \<noteq> []" "c \<in> set (take (piece_length U rs) rs)" "is_number U c"
  shows "length (take (piece_length U rs) rs) \<le> 2 \<and> (\<forall>d \<in> set (take (piece_length U rs) rs). is_number U d)"
proof -
  have space: "\<not> is_space U c"
    using assms(1,4) by (auto simp: classes_ok_def)
  have contraction: "match_contraction U rs = None"
    using match_contraction_numbers [OF assms(1)] assms(3,4) by (fastforce simp: piece_length_def split: option.splits)
  have letter: "\<not> 0 < match_letter U rs"
  proof
    assume "0 < match_letter U rs"
    then have "piece_length U rs = match_letter U rs"
      using contraction by (simp add: piece_length_def)
    then show False
      using match_letter_numbers [OF assms(1)] assms(3,4) \<open>0 < match_letter U rs\<close> by simp
  qed
  show ?thesis
  proof (cases "0 < match_number U rs")
    case True
    with contraction letter match_number_piece [OF True] show ?thesis by (simp add: piece_length_def)
  next
    case False
  have punct: "\<not> 0 < match_punctuation U rs"
  proof
    assume "0 < match_punctuation U rs"
    then have "piece_length U rs = match_punctuation U rs"
      using contraction letter False by (simp add: piece_length_def)
    then show False
      using match_punctuation_numbers [OF assms(1)] assms(3,4) \<open>0 < match_punctuation U rs\<close> by simp
  qed
    have newline: "\<not> 0 < match_newline U rs"
    proof
      assume "0 < match_newline U rs"
      then have "piece_length U rs = match_newline U rs"
        using contraction letter False punct by (simp add: piece_length_def)
      then show False
        using match_newline_space [of c U rs] assms(3) space by simp
    qed
    have white: "\<not> 0 < match_whitespace U rs"
    proof
      assume "0 < match_whitespace U rs"
      then have "piece_length U rs = match_whitespace U rs"
        using contraction letter False punct newline by (simp add: piece_length_def)
      moreover have "take (match_whitespace U rs) rs = takeWhile (is_space U) rs"
        by (simp add: match_whitespace_def flip: takeWhile_eq_take)
      ultimately show False
        using assms(3) space by (auto dest: set_takeWhile)
    qed
    have "piece_length U rs = 1"
      using contraction letter False punct newline white by (simp add: piece_length_def)
    with assms(2,3,4) show ?thesis by (cases rs) auto
  qed
qed

lemma some_alternative:
  assumes "is_space U 32" "rs \<noteq> []"
  shows "match_letter U rs > 0 \<or> match_number U rs > 0 \<or> match_punctuation U rs > 0 \<or> match_whitespace U rs > 0"
proof -
  obtain c cs where rs: "rs = c # cs" using assms(2) by (cases rs) auto
  have "match_letter U rs > 0" if "is_letter U c"
    using that by (simp add: rs match_letter_def starts_with_def Let_def)
  moreover have "match_number U rs > 0" if "is_number U c"
    using that by (simp add: rs match_number_def starts_with_def)
  moreover have "match_whitespace U rs > 0" if "is_space U c"
    using that by (simp add: rs match_whitespace_def)
  moreover have "match_punctuation U rs > 0" if "is_symbol U c" "c \<noteq> 32"
    using that by (simp add: rs match_punctuation_def starts_with_def Let_def)
  moreover have "c \<noteq> 32" if "\<not> is_space U c"
    using assms(1) that by auto
  ultimately show ?thesis unfolding is_symbol_def
    by (cases "is_letter U c"; cases "is_number U c"; cases "is_space U c") simp_all
qed

section \<open>Properties\<close>

text \<open>
  Splitting loses nothing: the pieces, none of them empty, are a partition of the text, for any
  Unicode tables; so the bytes of the pieces are the bytes of the text.
\<close>

theorem split_pieces_partition:
  "concat (split_pieces U rs) = rs \<and> [] \<notin> set (split_pieces U rs) \<and>
    concat (map utf8 (split_pieces U rs)) = utf8 rs"
  using concat_split_pieces [of U rs] split_pieces_nonempty [of "[]" U rs]
  by (metis utf8_concat)

text \<open>
  Numbers are split into pieces of at most two digits: a piece with a number rune holds nothing
  else and at most two of them (\<open>\\p{N}{1,2}\<close>), never glued to letters, signs or space.
\<close>

theorem number_pieces:
  assumes "classes_ok U" "p \<in> set (split_pieces U rs)" "c \<in> set p" "is_number U c"
  shows "length p \<le> 2 \<and> (\<forall>d \<in> set p. is_number U d)"
  using assms
proof (induction U rs rule: split_pieces.induct)
  case (2 U r rs)
  have "p = take (piece_length U (r # rs)) (r # rs) \<or> p \<in> set (split_pieces U (drop (piece_length U (r # rs)) (r # rs)))"
    using 2(3) by (simp only: split_pieces.simps(2) Let_def set_simps insert_iff)
  with 2 piece_numbers [OF 2(2), of "r # rs" c] show ?case
    by (auto simp del: take_Cons drop_Cons)
qed simp

definition example_unicode :: unicode where
  "example_unicode = \<lparr>is_letter = (\<lambda>c. 97 \<le> c \<and> c \<le> 122), is_number = (\<lambda>c. 48 \<le> c \<and> c \<le> 57),
     is_space = (\<lambda>c. c = 32 \<or> c = 10 \<or> c = 13), to_lower = (\<lambda>c. if 65 \<le> c \<and> c \<le> 90 then c + 32 else c)\<rparr>"

theorem number_pieces_witness:
  "[97, 98] \<in> set (split_pieces example_unicode [97, 98, 49, 50, 51]) \<and>
    length [49, 50] \<le> 2 \<and> is_number example_unicode 49 \<and> is_number example_unicode 50"
proof -
  have "split_pieces example_unicode [97, 98, 49, 50, 51] = [[97, 98], [49, 50], [51]]"
    by code_simp
  moreover have "classes_ok example_unicode"
    by (auto simp: classes_ok_def example_unicode_def)
  moreover have "is_number example_unicode 49"
    by (simp add: example_unicode_def)
  ultimately show ?thesis
    using number_pieces [of example_unicode "[49, 50]" "[97, 98, 49, 50, 51]" 49] by simp
qed

end
