(* ===== verification/Tokenizer.thy ===== *)
theory Tokenizer
  imports Bpe Splitter
begin

text \<open>
  src/tokenizer/tokenizer.go and special.go: the tokenizer's state, encoding and decoding.

  A Go map from strings is an association list with distinct keys (\<open>AList.update\<close> is assignment,
  \<open>map_of\<close> lookup); the strings are lists of bytes. \<open>EncodeBatch\<close> encodes every text on its own, in
  parallel: it is \<open>map\<close> of \<open>encode\<close>. The JSON file format of Save and LoadTokenizer is not modelled.
\<close>

section \<open>The code\<close>

definition ascii :: "string \<Rightarrow> byte list" where
  "ascii s = map (\<lambda>c. word_of_nat (of_char c)) s"

definition special_tokens :: "byte list list" where
  "special_tokens = map ascii
     [''<|bos|>'', ''<|user_start|>'', ''<|user_end|>'', ''<|assistant_start|>'', ''<|assistant_end|>'',
      ''<|tool_start|>'', ''<|tool_end|>'', ''<|tool_output_start|>'', ''<|tool_output_end|>'',
      ''<|think_start|>'', ''<|think_end|>'']"

record tokenizer =
  mergeable_ranks :: ranks
  special_ids :: "(byte list \<times> nat) list"
  special_names :: "(nat \<times> byte list) list"
  tk_bytes :: "byte list list"
  tk_vocab_size :: nat
  tk_bos :: nat

text \<open>\<open>tok.tokenBytes[rank] = []byte(tokenText)\<close> for every rank: a rank past the vocabulary panics.\<close>

fun store_ranks :: "ranks \<Rightarrow> byte list list \<Rightarrow> (unit, byte list list) outcome" where
  "store_ranks [] bytes = Inr bytes"
| "store_ranks ((text, rank) # ranks) bytes =
     panic_if (rank \<ge> length bytes) (store_ranks ranks (bytes[rank := text]))"

fun store_specials :: "nat \<Rightarrow> byte list list \<Rightarrow> tokenizer \<Rightarrow> tokenizer" where
  "store_specials token_id [] tok = tok"
| "store_specials token_id (name # names) tok =
     store_specials (token_id + 1) names
       (tok\<lparr>special_ids := AList.update name token_id (special_ids tok),
            special_names := AList.update token_id name (special_names tok),
            tk_bytes := (tk_bytes tok)[token_id := name]\<rparr>)"

definition lookup0 :: "('k \<times> nat) list \<Rightarrow> 'k \<Rightarrow> nat" where
  "lookup0 al k = (case map_of al k of None \<Rightarrow> 0 | Some v \<Rightarrow> v)"

definition new_tokenizer :: "ranks \<Rightarrow> byte list list \<Rightarrow> (unit, tokenizer) outcome" where
  "new_tokenizer ranks specials =
     (let n = length ranks; vocab_size = n + length specials in
      obind (store_ranks ranks (replicate vocab_size [])) (\<lambda>bytes.
        let tok = store_specials n specials
              \<lparr>mergeable_ranks = ranks, special_ids = [], special_names = [], tk_bytes = bytes,
               tk_vocab_size = vocab_size, tk_bos = 0\<rparr>
        in Inr (tok\<lparr>tk_bos := lookup0 (special_ids tok) (ascii ''<|bos|>'')\<rparr>)))"

definition encode_special :: "tokenizer \<Rightarrow> byte list \<Rightarrow> (unit, nat) outcome" where
  "encode_special tok name = (case map_of (special_ids tok) name of None \<Rightarrow> Inl Panic | Some i \<Rightarrow> Inr i)"

definition is_special :: "tokenizer \<Rightarrow> int \<Rightarrow> bool" where
  "is_special tok token_id \<longleftrightarrow> 0 \<le> token_id \<and> map_of (special_names tok) (nat token_id) \<noteq> None"

definition special_token_ids :: "tokenizer \<Rightarrow> nat list" where
  "special_token_ids tok = sort (map snd (special_ids tok))"

text \<open>The scan for the adjacent parts of least rank: the index and the rank of the best so far.\<close>

fun find_best :: "ranks \<Rightarrow> byte list list \<Rightarrow> nat \<Rightarrow> (nat \<times> nat) option \<Rightarrow> (nat \<times> nat) option" where
  "find_best ranks (p # q # ps) index best =
     find_best ranks (q # ps) (index + 1)
       (case map_of ranks (p @ q) of
          None \<Rightarrow> best
        | Some rank \<Rightarrow> (case best of
              None \<Rightarrow> Some (index, rank)
            | Some (_, best_rank) \<Rightarrow> if rank < best_rank then Some (index, rank) else best))"
| "find_best ranks _ index best = best"

definition merge_parts :: "nat \<Rightarrow> byte list list \<Rightarrow> byte list list" where
  "merge_parts i parts = take i parts @ [parts ! i @ parts ! (i + 1)] @ drop (i + 2) parts"

lemma find_best_bound:
  "find_best ranks parts index best = Some (i, rank) \<Longrightarrow>
    best = Some (i, rank) \<or> (index \<le> i \<and> i + 1 < index + length parts)"
proof (induction ranks parts index best rule: find_best.induct)
  case (1 ranks p q ps index best)
  then have "find_best ranks (q # ps) (index + 1)
       (case map_of ranks (p @ q) of None \<Rightarrow> best
        | Some rank \<Rightarrow> (case best of None \<Rightarrow> Some (index, rank)
            | Some (_, best_rank) \<Rightarrow> if rank < best_rank then Some (index, rank) else best)) = Some (i, rank)"
    by simp
  from 1(1) [OF this] show ?case
    by (auto split: option.splits if_splits prod.splits)
qed auto

function merge_loop :: "ranks \<Rightarrow> byte list list \<Rightarrow> byte list list" where
  "merge_loop ranks parts =
     (case find_best ranks parts 0 None of None \<Rightarrow> parts
      | Some (i, _) \<Rightarrow> merge_loop ranks (merge_parts i parts))"
  by pat_completeness auto
termination
proof (relation "measure (\<lambda>(ranks, parts). length parts)")
  fix ranks parts x i r
  assume "find_best ranks parts 0 None = Some x" "(i, r) = x"
  then have "i + 1 < length parts"
    using find_best_bound [of ranks parts 0 None i r] by auto
  then show "((ranks, merge_parts i parts), ranks, parts) \<in> measure (\<lambda>(ranks, parts). length parts)"
    by (simp add: merge_parts_def)
qed simp

declare merge_loop.simps [simp del]

definition bpe_merge_piece :: "tokenizer \<Rightarrow> byte list \<Rightarrow> byte list list" where
  "bpe_merge_piece tok piece = merge_loop (mergeable_ranks tok) (map (\<lambda>b. [b]) piece)"

definition encode :: "unicode \<Rightarrow> tokenizer \<Rightarrow> rune list \<Rightarrow> nat list" where
  "encode U tok txt =
     concat (map (\<lambda>piece. map (lookup0 (mergeable_ranks tok)) (bpe_merge_piece tok (utf8 piece)))
       (split_pieces U txt))"

definition encode_batch :: "unicode \<Rightarrow> tokenizer \<Rightarrow> rune list list \<Rightarrow> nat list list" where
  "encode_batch U tok txts = map (encode U tok) txts"

definition single_token_bytes :: "tokenizer \<Rightarrow> int \<Rightarrow> byte list" where
  "single_token_bytes tok token_id =
     (if 0 \<le> token_id \<and> token_id < int (length (tk_bytes tok)) then tk_bytes tok ! nat token_id else [])"

definition decode :: "tokenizer \<Rightarrow> int list \<Rightarrow> byte list" where
  "decode tok ids = concat (map (single_token_bytes tok) ids)"

definition byte_count :: "tokenizer \<Rightarrow> int \<Rightarrow> nat" where
  "byte_count tok token_id = (if is_special tok token_id then 0 else length (single_token_bytes tok token_id))"

section \<open>Merging keeps the bytes and stays in the vocabulary\<close>

lemma merge_parts_concat: "i + 1 < length parts \<Longrightarrow> concat (merge_parts i parts) = concat parts"
proof -
  assume i: "i + 1 < length parts"
  then have "drop i parts = parts ! i # parts ! (i + 1) # drop (i + 2) parts"
    by (simp add: Cons_nth_drop_Suc)
  then have "concat (merge_parts i parts) = concat (take i parts @ drop i parts)"
    by (simp add: merge_parts_def)
  then show ?thesis by simp
qed

lemma find_best_rank:
  "find_best ranks parts index best = Some (i, rank) \<Longrightarrow>
    best = Some (i, rank) \<or> (index \<le> i \<and> map_of ranks (parts ! (i - index) @ parts ! (i - index + 1)) = Some rank)"
proof (induction ranks parts index best rule: find_best.induct)
  case (1 ranks p q ps index best)
  then have "find_best ranks (q # ps) (index + 1)
       (case map_of ranks (p @ q) of None \<Rightarrow> best
        | Some rank \<Rightarrow> (case best of None \<Rightarrow> Some (index, rank)
            | Some (_, best_rank) \<Rightarrow> if rank < best_rank then Some (index, rank) else best)) = Some (i, rank)"
    by simp
  from 1(1) [OF this] show ?case
  proof (elim disjE conjE)
    assume "index + 1 \<le> i" "map_of ranks ((q # ps) ! (i - (index + 1)) @ (q # ps) ! (i - (index + 1) + 1)) = Some rank"
    moreover from this(1) obtain j where "i = index + 1 + j" by (metis le_Suc_ex)
    ultimately show ?case by simp
  qed (auto split: option.splits if_splits prod.splits)
qed auto

lemma merge_loop_parts:
  "\<forall>p \<in> set parts. map_of ranks p \<noteq> None \<Longrightarrow>
    concat (merge_loop ranks parts) = concat parts \<and> (\<forall>p \<in> set (merge_loop ranks parts). map_of ranks p \<noteq> None)"
proof (induction ranks parts rule: merge_loop.induct)
  case (1 ranks parts)
  show ?case
  proof (cases "find_best ranks parts 0 None")
    case None
    with 1(2) show ?thesis by (simp add: merge_loop.simps)
  next
    case (Some x)
    obtain i rank where x: "x = (i, rank)" by (cases x)
    have i: "i + 1 < length parts" "map_of ranks (parts ! i @ parts ! (i + 1)) = Some rank"
      using find_best_bound [OF Some [unfolded x]] find_best_rank [OF Some [unfolded x]] by simp_all
    have "\<forall>p \<in> set (merge_parts i parts). map_of ranks p \<noteq> None"
      using 1(2) i(2) by (auto simp: merge_parts_def dest: in_set_takeD in_set_dropD)
    with 1(1) [OF Some, of i rank] x i(1) show ?thesis
      using Some by (subst (1 2) merge_loop.simps) (simp add: merge_parts_concat)
  qed
qed

text \<open>What the loop leaves cannot be merged further.\<close>

lemma find_best_None: "find_best ranks parts index best = None \<Longrightarrow>
    best = None \<and> (\<forall>i. i + 1 < length parts \<longrightarrow> map_of ranks (parts ! i @ parts ! (i + 1)) = None)"
proof (induction ranks parts index best rule: find_best.induct)
  case (1 ranks p q ps index best)
  then have "find_best ranks (q # ps) (index + 1)
       (case map_of ranks (p @ q) of None \<Rightarrow> best
        | Some rank \<Rightarrow> (case best of None \<Rightarrow> Some (index, rank)
            | Some (_, best_rank) \<Rightarrow> if rank < best_rank then Some (index, rank) else best)) = None"
    by simp
  note IH = 1(1) [OF this]
  then have "map_of ranks (p @ q) = None" "best = None"
    by (auto split: option.splits if_splits prod.splits)
  moreover have "map_of ranks ((p # q # ps) ! i @ (p # q # ps) ! (i + 1)) = None" if "i + 1 < length (p # q # ps)" for i
    using IH that \<open>map_of ranks (p @ q) = None\<close> by (cases i) auto
  ultimately show ?case by blast
qed auto

lemma merge_loop_done:
  "i + 1 < length (merge_loop ranks parts) \<Longrightarrow>
    map_of ranks (merge_loop ranks parts ! i @ merge_loop ranks parts ! (i + 1)) = None"
proof (induction ranks parts rule: merge_loop.induct)
  case (1 ranks parts)
  show ?case
  proof (cases "find_best ranks parts 0 None")
    case None
    with 1(2) find_best_None [OF None] show ?thesis by (simp add: merge_loop.simps)
  next
    case (Some x)
    with 1 show ?thesis
      by (cases x) (simp add: merge_loop.simps [of ranks parts])
  qed
qed

section \<open>A tokenizer made from a numbering of its tokens\<close>

lemma map_of_numbered:
  assumes "distinct tokens"
  shows "map_of (numbered tokens) p = Some i \<longleftrightarrow> i < length tokens \<and> tokens ! i = p"
proof -
  have "map fst (numbered tokens) = tokens"
    by (simp add: numbered_def)
  then have "map_of (numbered tokens) p = Some i \<longleftrightarrow> (p, i) \<in> set (numbered tokens)"
    using assms by (intro map_of_eq_Some_iff) simp
  then show ?thesis
    by (auto simp: numbered_def set_zip)
qed

lemma store_ranks_zip:
  "k + length ts \<le> length bytes \<Longrightarrow>
    store_ranks (zip ts [k..<k + length ts]) bytes = Inr (take k bytes @ ts @ drop (k + length ts) bytes)"
proof (induction ts arbitrary: k bytes)
  case (Cons t ts)
  have "store_ranks (zip (t # ts) [k..<k + length (t # ts)]) bytes =
      store_ranks (zip ts [Suc k..<Suc k + length ts]) (bytes[k := t])"
    using Cons.prems by (simp add: upt_conv_Cons del: upt_Suc)
  also have "\<dots> = Inr (take (Suc k) (bytes[k := t]) @ ts @ drop (Suc k + length ts) (bytes[k := t]))"
    using Cons.prems by (intro Cons.IH) simp
  finally show ?case
    using Cons.prems by (simp add: take_Suc_conv_app_nth)
qed simp

lemma store_ranks_numbered:
  "length tokens \<le> length bytes \<Longrightarrow> store_ranks (numbered tokens) bytes = Inr (tokens @ drop (length tokens) bytes)"
  using store_ranks_zip [of 0 tokens bytes] by (simp add: numbered_def)

lemma store_specials_facts:
  "mergeable_ranks (store_specials token_id names tok) = mergeable_ranks tok"
  "length (tk_bytes (store_specials token_id names tok)) = length (tk_bytes tok)"
  "i < token_id \<Longrightarrow> i < length (tk_bytes tok) \<Longrightarrow> tk_bytes (store_specials token_id names tok) ! i = tk_bytes tok ! i"
  "i < length names \<Longrightarrow> token_id + length names \<le> length (tk_bytes tok) \<Longrightarrow>
    tk_bytes (store_specials token_id names tok) ! (token_id + i) = names ! i"
  "tk_vocab_size (store_specials token_id names tok) = tk_vocab_size tok"
proof (induction token_id names tok arbitrary: i rule: store_specials.induct)
  case (2 token_id name names tok)
  {
    case 4
    then show ?case using 2(3) 2(4) by (cases i) auto
  }
qed auto

lemma store_specials_names:
  "map_of (special_names (store_specials token_id names tok)) i =
    (if token_id \<le> i \<and> i < token_id + length names then Some (names ! (i - token_id)) else map_of (special_names tok) i)"
proof (induction token_id names tok rule: store_specials.induct)
  case (2 token_id name names tok)
  then show ?case
    by (auto simp: update_conv' nth_Cons' Suc_diff_le)
qed auto

lemma store_specials_old:
  "name \<notin> set names \<Longrightarrow> map_of (special_ids (store_specials token_id names tok)) name = map_of (special_ids tok) name"
  by (induction token_id names tok rule: store_specials.induct) (auto simp: update_conv')

lemma store_specials_ids:
  "distinct names \<Longrightarrow> i < length names \<Longrightarrow>
    map_of (special_ids (store_specials token_id names tok)) (names ! i) = Some (token_id + i)"
proof (induction token_id names tok arbitrary: i rule: store_specials.induct)
  case (2 token_id name names tok)
  then show ?case
    by (cases i) (simp_all add: store_specials_old update_conv')
qed simp

text \<open>What \<open>new_tokenizer\<close> makes of it.\<close>

definition tokenizer_of :: "byte list list \<Rightarrow> byte list list \<Rightarrow> tokenizer \<Rightarrow> bool" where
  "tokenizer_of tokens specials tok \<longleftrightarrow>
     mergeable_ranks tok = numbered tokens \<and> tk_bytes tok = tokens @ specials \<and>
     tk_vocab_size tok = length tokens + length specials \<and>
     (\<forall>i. map_of (special_names tok) i =
       (if length tokens \<le> i \<and> i < length tokens + length specials then Some (specials ! (i - length tokens)) else None)) \<and>
     (distinct specials \<longrightarrow> (\<forall>i < length specials. map_of (special_ids tok) (specials ! i) = Some (length tokens + i))) \<and>
     tk_bos tok = lookup0 (special_ids tok) (ascii ''<|bos|>'')"

lemma new_tokenizer_numbered:
  "\<exists>tok. new_tokenizer (numbered tokens) specials = Inr tok \<and> tokenizer_of tokens specials tok"
proof -
  let ?n = "length tokens"
  let ?bytes = "tokens @ replicate (length specials) []"
  have len: "length (numbered tokens) = ?n"
    by (simp add: numbered_def)
  have store: "store_ranks (numbered tokens) (replicate (?n + length specials) []) = Inr ?bytes"
    by (subst store_ranks_numbered) simp_all
  define tok0 where "tok0 = \<lparr>mergeable_ranks = numbered tokens, special_ids = [], special_names = [],
    tk_bytes = ?bytes, tk_vocab_size = ?n + length specials, tk_bos = 0\<rparr>"
  define tok1 where "tok1 = store_specials ?n specials tok0"
  define tok where "tok = tok1\<lparr>tk_bos := lookup0 (special_ids tok1) (ascii ''<|bos|>'')\<rparr>"
  have "tk_bytes tok1 = tokens @ specials"
  proof (rule nth_equalityI)
    show len1: "length (tk_bytes tok1) = length (tokens @ specials)"
      by (simp add: tok1_def store_specials_facts(2) tok0_def)
    show "tk_bytes tok1 ! i = (tokens @ specials) ! i" if "i < length (tk_bytes tok1)" for i
    proof (cases "i < ?n")
      case True
      then show ?thesis
        by (simp add: tok1_def store_specials_facts(3) tok0_def nth_append)
    next
      case False
      then obtain j where "i = ?n + j" by (metis le_Suc_ex not_less)
      with that len1 have j: "i = ?n + j" "j < length specials" by simp_all
      then show ?thesis
        by (simp add: tok1_def store_specials_facts(4) tok0_def nth_append)
    qed
  qed
  moreover have "new_tokenizer (numbered tokens) specials = Inr tok"
    by (simp add: new_tokenizer_def len store Let_def tok_def tok1_def tok0_def)
  ultimately show ?thesis
    by (intro exI [of _ tok])
      (simp add: tokenizer_of_def tok_def tok1_def store_specials_facts store_specials_names store_specials_ids tok0_def)
qed

lemma concat_concat_map: "concat (concat (map f xs)) = concat (map (\<lambda>x. concat (f x)) xs)"
  by (induction xs) simp_all

lemma trained_tokenizer:
  assumes "iterates ord_i" "iterates ord_p" "train_bpe ord_i ord_p pieces n = Inr ranks"
  shows "\<exists>extra tok. ranks = numbered (byte_tokens @ extra) \<and> distinct (byte_tokens @ extra) \<and>
    new_tokenizer ranks specials = Inr tok \<and> tokenizer_of (byte_tokens @ extra) specials tok"
proof -
  have "\<exists>extra. ranks = numbered (byte_tokens @ extra) \<and> distinct (byte_tokens @ extra)"
    using trained_vocabulary [OF assms(1,2), where n = n and pieces = pieces] assms(3) by auto
  with new_tokenizer_numbered [of _ specials] show ?thesis by blast
qed

lemma example_training:
  obtains ranks where "iterates (rev :: nat list \<Rightarrow> nat list)" "iterates (\<lambda>ps. ps :: sym_pair list)"
    "train_bpe rev (\<lambda>ps. ps) [[97, 98, 97, 98]] 2 = Inr ranks"
proof -
  have "iterates (rev :: nat list \<Rightarrow> nat list)" "iterates (\<lambda>ps. ps :: sym_pair list)"
    by (simp_all add: iterates_def)
  moreover from this have "train_bpe rev (\<lambda>ps. ps) [[97, 98, 97, 98]] 2 = Inr (naive_bpe [[97, 98, 97, 98]] 2)"
    by (simp add: train_bpe_eq)
  ultimately show thesis by (rule that)
qed

section \<open>Decoding what was encoded\<close>

lemma byte_token: "i < 256 \<Longrightarrow> (byte_tokens @ extra) ! i = [word_of_nat i]"
  by (simp add: byte_tokens_def nth_append)

lemma encode_piece:
  assumes made: "tokenizer_of (byte_tokens @ extra) specials tok" and distinct: "distinct (byte_tokens @ extra)"
  shows "concat (map (\<lambda>p. single_token_bytes tok (int (lookup0 (mergeable_ranks tok) p))) (bpe_merge_piece tok piece)) = piece"
    and "\<forall>p \<in> set (bpe_merge_piece tok piece). lookup0 (mergeable_ranks tok) p < length (byte_tokens @ extra)"
proof -
  let ?tokens = "byte_tokens @ extra"
  have tok: "mergeable_ranks tok = numbered ?tokens" "distinct ?tokens" and bytes: "tk_bytes tok = ?tokens @ specials"
    using made distinct by (simp_all add: tokenizer_of_def)
  have "map_of (numbered ?tokens) [b] = Some (unat b)" for b
  proof -
    have "unat b < length ?tokens"
      using unat_byte_le [of b] by (simp add: byte_tokens_def)
    then show ?thesis
      using map_of_numbered [OF tok(2), of "[b]" "unat b"] byte_token [of "unat b" extra] by simp
  qed
  then have start: "\<forall>p \<in> set (map (\<lambda>b. [b]) piece). map_of (numbered ?tokens) p \<noteq> None"
    by auto
  have loop: "concat (bpe_merge_piece tok piece) = piece"
    "\<forall>p \<in> set (bpe_merge_piece tok piece). map_of (numbered ?tokens) p \<noteq> None"
    using merge_loop_parts [OF start] by (simp_all add: bpe_merge_piece_def tok(1))
  have each: "lookup0 (mergeable_ranks tok) p < length ?tokens \<and>
      single_token_bytes tok (int (lookup0 (mergeable_ranks tok) p)) = p"
    if "p \<in> set (bpe_merge_piece tok piece)" for p
  proof -
    from that loop(2) obtain i where i: "map_of (numbered ?tokens) p = Some i" by auto
    then have "i < length ?tokens" "?tokens ! i = p"
      using map_of_numbered [OF tok(2)] by simp_all
    then have "tk_bytes tok ! i = p" "i < length (tk_bytes tok)"
      unfolding bytes by (simp_all only: nth_append if_True length_append trans_less_add1)
    with i \<open>i < length ?tokens\<close> show ?thesis
      by (simp add: lookup0_def tok(1) single_token_bytes_def)
  qed
  then show "\<forall>p \<in> set (bpe_merge_piece tok piece). lookup0 (mergeable_ranks tok) p < length ?tokens"
    by blast
  have "map (\<lambda>p. single_token_bytes tok (int (lookup0 (mergeable_ranks tok) p))) (bpe_merge_piece tok piece) =
      bpe_merge_piece tok piece"
    using each by (simp add: map_idI)
  then show "concat (map (\<lambda>p. single_token_bytes tok (int (lookup0 (mergeable_ranks tok) p))) (bpe_merge_piece tok piece)) = piece"
    by (simp only: loop(1))
qed

lemma encode_facts:
  assumes made: "tokenizer_of (byte_tokens @ extra) specials tok" and distinct: "distinct (byte_tokens @ extra)"
  shows "concat (map (\<lambda>i. single_token_bytes tok (int i)) (encode U tok txt)) = utf8 txt"
    and "\<forall>i \<in> set (encode U tok txt). i < length (byte_tokens @ extra)"
proof -
  have "concat (map (\<lambda>i. single_token_bytes tok (int i)) (encode U tok txt)) =
      concat (map (\<lambda>piece. concat (map (\<lambda>p. single_token_bytes tok (int (lookup0 (mergeable_ranks tok) p)))
        (bpe_merge_piece tok (utf8 piece)))) (split_pieces U txt))"
    by (simp add: encode_def map_concat comp_def concat_concat_map)
  also have "\<dots> = concat (map utf8 (split_pieces U txt))"
    by (simp only: encode_piece(1) [OF assms])
  also have "\<dots> = utf8 txt"
    by (simp only: concat_split_pieces flip: utf8_concat)
  finally show "concat (map (\<lambda>i. single_token_bytes tok (int i)) (encode U tok txt)) = utf8 txt" .
  show "\<forall>i \<in> set (encode U tok txt). i < length (byte_tokens @ extra)"
    using encode_piece(2) [OF assms] by (auto simp: encode_def simp del: length_append)
qed

section \<open>Properties\<close>

text \<open>
  C25. Encode and decode are inverse on every trained vocabulary: the trainer's ranks always make a
  tokenizer, and decoding the encoding of any text gives back its bytes, whatever the Unicode tables.
\<close>

theorem encode_decode_roundtrip:
  assumes "iterates ord_i" "iterates ord_p" "train_bpe ord_i ord_p pieces n = Inr ranks"
  shows "\<exists>tok. new_tokenizer ranks specials = Inr tok \<and> (\<forall>txt. decode tok (map int (encode U tok txt)) = utf8 txt)"
proof -
  from trained_tokenizer [OF assms, of specials] obtain extra tok where
    tok: "new_tokenizer ranks specials = Inr tok" "tokenizer_of (byte_tokens @ extra) specials tok" "distinct (byte_tokens @ extra)"
    by blast
  have "decode tok (map int (encode U tok t)) = utf8 t" for t
    using encode_facts(1) [OF tok(2,3), of U t] by (simp add: decode_def comp_def)
  with tok(1) show ?thesis by blast
qed

theorem encode_decode_roundtrip_witness:
  "\<exists>ranks tok. train_bpe rev (\<lambda>ps. ps) [[97, 98, 97, 98]] 2 = Inr ranks \<and> new_tokenizer ranks special_tokens = Inr tok \<and>
    (\<forall>txt. decode tok (map int (encode example_unicode tok txt)) = utf8 txt)"
  by (rule example_training) (use encode_decode_roundtrip in blast)

text \<open>
  Bits per byte are counted over the right number of bytes: on every trained vocabulary the byte
  counts of a text's tokens add up to the length of the text in UTF-8.
\<close>

theorem encode_byte_count:
  assumes "iterates ord_i" "iterates ord_p" "train_bpe ord_i ord_p pieces n = Inr ranks"
    "new_tokenizer ranks specials = Inr tok"
  shows "sum_list (map (\<lambda>i. byte_count tok (int i)) (encode U tok txt)) = length (utf8 txt)"
proof -
  from trained_tokenizer [OF assms(1-3), of specials] assms(4) obtain extra where
    tok: "tokenizer_of (byte_tokens @ extra) specials tok" "distinct (byte_tokens @ extra)"
    by auto
  note facts = encode_facts [OF tok, of U "txt"]
  have "\<not> is_special tok (int i)" if "i \<in> set (encode U tok txt)" for i
    using facts(2) that tok(1) by (auto simp: is_special_def tokenizer_of_def)
  then have "map (\<lambda>i. byte_count tok (int i)) (encode U tok txt) =
      map length (map (\<lambda>i. single_token_bytes tok (int i)) (encode U tok txt))"
    by (simp add: byte_count_def)
  then have "sum_list (map (\<lambda>i. byte_count tok (int i)) (encode U tok txt)) =
      length (concat (map (\<lambda>i. single_token_bytes tok (int i)) (encode U tok txt)))"
    by (simp only: length_concat)
  then show ?thesis
    by (simp only: facts(1))
qed

theorem encode_byte_count_witness:
  "\<exists>ranks tok. train_bpe rev (\<lambda>ps. ps) [[97, 98, 97, 98]] 2 = Inr ranks \<and> new_tokenizer ranks special_tokens = Inr tok \<and>
    sum_list (map (\<lambda>i. byte_count tok (int i)) (encode example_unicode tok [97, 98, 32, 0x20AC])) = length (utf8 [97, 98, 32, 0x20AC])"
proof (rule example_training)
  fix ranks
  assume ranks: "iterates (rev :: nat list \<Rightarrow> nat list)" "iterates (\<lambda>ps. ps :: sym_pair list)"
    "train_bpe rev (\<lambda>ps. ps) [[97, 98, 97, 98]] 2 = Inr ranks"
  with trained_tokenizer obtain tok where "new_tokenizer ranks special_tokens = Inr tok" by blast
  with encode_byte_count [OF ranks] ranks(3) show ?thesis by blast
qed

text \<open>
  Special tokens keep clear of the text tokens: with different names they get the ids right
  above the trained vocabulary in their order, \<open>is_special\<close> holds of exactly these ids, and no text ever
  encodes to one of them.
\<close>

theorem special_tokens_separate:
  assumes "iterates ord_i" "iterates ord_p" "train_bpe ord_i ord_p pieces n = Inr ranks"
    "new_tokenizer ranks specials = Inr tok" "distinct specials"
  shows "(\<forall>i < length specials. encode_special tok (specials ! i) = Inr (length ranks + i)) \<and>
    (\<forall>i. is_special tok (int i) \<longleftrightarrow> length ranks \<le> i \<and> i < tk_vocab_size tok) \<and>
    (\<forall>txt. \<forall>i \<in> set (encode U tok txt). i < length ranks)"
proof -
  from trained_tokenizer [OF assms(1-3), of specials] assms(4) obtain extra where
    tok: "tokenizer_of (byte_tokens @ extra) specials tok" "distinct (byte_tokens @ extra)"
    and ranks: "ranks = numbered (byte_tokens @ extra)"
    by auto
  have len: "length ranks = length (byte_tokens @ extra)"
    by (simp add: ranks numbered_def)
  show ?thesis
    using encode_facts(2) [OF tok, of U] tok(1) assms(5)
    unfolding tokenizer_of_def len [symmetric] by (simp add: encode_special_def is_special_def)
qed

theorem special_tokens_separate_witness:
  "\<exists>ranks tok. train_bpe rev (\<lambda>ps. ps) [[97, 98, 97, 98]] 2 = Inr ranks \<and> new_tokenizer ranks special_tokens = Inr tok \<and>
    encode_special tok (special_tokens ! 1) = Inr (length ranks + 1)"
proof (rule example_training)
  fix ranks
  assume ranks: "iterates (rev :: nat list \<Rightarrow> nat list)" "iterates (\<lambda>ps. ps :: sym_pair list)"
    "train_bpe rev (\<lambda>ps. ps) [[97, 98, 97, 98]] 2 = Inr ranks"
  with trained_tokenizer obtain tok where tok: "new_tokenizer ranks special_tokens = Inr tok" by blast
  have "distinct special_tokens" "(1::nat) < length special_tokens"
    by code_simp+
  with special_tokens_separate [OF ranks tok] ranks(3) tok show ?thesis by blast
qed

text \<open>
  BPE merging of a piece: the parts concatenate to the piece, each is a token of the vocabulary if
  the single bytes are, and no two adjacent ones could be merged into another token.
\<close>

theorem bpe_merge_piece_complete:
  assumes "\<forall>b. map_of (mergeable_ranks tok) [b] \<noteq> None"
  shows "concat (bpe_merge_piece tok piece) = piece \<and>
    (\<forall>p \<in> set (bpe_merge_piece tok piece). map_of (mergeable_ranks tok) p \<noteq> None) \<and>
    (\<forall>i. i + 1 < length (bpe_merge_piece tok piece) \<longrightarrow>
      map_of (mergeable_ranks tok) (bpe_merge_piece tok piece ! i @ bpe_merge_piece tok piece ! (i + 1)) = None)"
  using assms merge_loop_parts [of "map (\<lambda>b. [b]) piece" "mergeable_ranks tok"]
    merge_loop_done [of _ "mergeable_ranks tok" "map (\<lambda>b. [b]) piece"]
  by (simp add: bpe_merge_piece_def)

definition example_tokenizer :: tokenizer where
  "example_tokenizer = \<lparr>mergeable_ranks = numbered (byte_tokens @ [[97, 98]]), special_ids = [], special_names = [],
     tk_bytes = byte_tokens @ [[97, 98]], tk_vocab_size = 257, tk_bos = 0\<rparr>"

theorem bpe_merge_piece_complete_witness:
  "concat (bpe_merge_piece example_tokenizer [97, 98, 97]) = [97, 98, 97]"
proof -
  have "distinct (byte_tokens @ [[97, 98]])"
    using distinct_byte_tokens by (auto simp: byte_tokens_def)
  then have "map_of (numbered (byte_tokens @ [[97, 98]])) [b] = Some (unat b)" for b
    using map_of_numbered [of "byte_tokens @ [[97, 98]]" "[b]" "unat b"] byte_token [of "unat b" "[[97, 98]]"]
      unat_byte_le [of b]
    by (simp add: byte_tokens_def)
  then have "\<forall>b. map_of (mergeable_ranks example_tokenizer) [b] \<noteq> None"
    by (simp add: example_tokenizer_def)
  then show ?thesis
    using bpe_merge_piece_complete [of example_tokenizer "[97, 98, 97]"] by blast
qed

end
