(* ===== verification/Bank.thy ===== *)
theory Bank
  imports Lru Tokenizer "HOL-Library.Multiset" "HOL-Library.List_Lexorder" "HOL-Library.Char_ord"
begin

text \<open>
  src/bank/bank.go: the bank of domain models.

  Identifiers and paths are HOL strings. \<open>checkpoint.LoadAny\<close> with \<open>checkpoint.LoadModel\<close> is the
  argument \<open>loader\<close>: from a path it gives an error text, or the model with its vocabulary size and
  number of parameters. Every operation holds the bank's mutex from its first to its last statement,
  so concurrent use is a sequence of operations, and \<open>bank_reach\<close> collects the states such
  sequences lead to. \<open>evict_locked\<close> is a loop without a bound of its own: \<open>None\<close> stands for not
  returning. The manifest's JSON text is decoded by encoding/json; \<open>load_manifest\<close> starts from the
  decoded value.
\<close>

section \<open>The code\<close>

record domain =
  dm_id :: string
  dm_name :: string
  dm_checkpoint :: string
  dm_data_dirs :: "string list"
  dm_description :: string

record manifest =
  mf_version :: int
  mf_tokenizer :: string
  mf_router :: string
  mf_domains :: "domain list"

datatype bank_error =
  ManifestUnreadable string
| NoDomains
| DomainWithoutId
| DuplicateDomain string
| UnknownDomain string
| LoadFailed string string
| VocabMismatch string int int

fun check_domains :: "string list \<Rightarrow> domain list \<Rightarrow> (bank_error, unit) outcome" where
  "check_domains seen [] = Inr ()"
| "check_domains seen (d # ds) =
     fail_if (dm_id d = '''') DomainWithoutId
       (fail_if (dm_id d \<in> set seen) (DuplicateDomain (dm_id d))
         (check_domains (dm_id d # seen) ds))"

definition load_manifest :: "(string + manifest) \<Rightarrow> (bank_error, manifest) outcome" where
  "load_manifest decoded =
     (case decoded of Inl e \<Rightarrow> Inl (Fail (ManifestUnreadable e))
      | Inr m \<Rightarrow> fail_if (mf_domains m = []) NoDomains
          (obind (check_domains [] (mf_domains m)) (\<lambda>_. Inr m)))"

definition domain_by_id :: "manifest \<Rightarrow> string \<Rightarrow> domain option" where
  "domain_by_id m i = find (\<lambda>d. dm_id d = i) (mf_domains m)"

definition manifest_ids :: "manifest \<Rightarrow> string list" where
  "manifest_ids m = map dm_id (mf_domains m)"

record bank_options =
  max_bytes :: int
  max_models :: int

record 'm bank_entry =
  be_domain :: domain
  be_model :: 'm
  be_bytes :: int
  be_used :: u64

record 'm bank =
  bk_manifest :: manifest
  bk_tokenizer :: tokenizer
  bk_vocab_size :: int
  bk_options :: bank_options
  bk_entries :: "(string \<times> 'm bank_entry) list"
  bk_order :: "string list"
  bk_bytes :: int
  bk_clock :: u64

definition new_bank :: "manifest \<Rightarrow> tokenizer \<Rightarrow> bank_options \<Rightarrow> 'm bank" where
  "new_bank m tok opts =
     \<lparr>bk_manifest = m, bk_tokenizer = tok, bk_vocab_size = int (tk_vocab_size tok), bk_options = opts,
      bk_entries = [], bk_order = [], bk_bytes = 0, bk_clock = 0\<rparr>"

definition bank_touch :: "string \<Rightarrow> 'm bank \<Rightarrow> 'm bank" where
  "bank_touch i b = b\<lparr>bk_order := cut_key i (bk_order b) @ [i]\<rparr>"

definition bank_remove :: "string \<Rightarrow> 'm bank \<Rightarrow> 'm bank" where
  "bank_remove i b =
     (case map_of (bk_entries b) i of
        None \<Rightarrow> b
      | Some e \<Rightarrow> b\<lparr>bk_entries := AList.delete i (bk_entries b), bk_bytes := i64 (bk_bytes b - be_bytes e),
                     bk_order := cut_key i (bk_order b)\<rparr>)"

definition bank_over :: "'m bank \<Rightarrow> bool" where
  "bank_over b \<longleftrightarrow>
     (max_models (bk_options b) > 0 \<and> int (length (bk_entries b)) > max_models (bk_options b)) \<or>
     (max_bytes (bk_options b) > 0 \<and> bk_bytes b > max_bytes (bk_options b))"

text \<open>The first id but \<open>keep\<close>; the code's \<open>victim == ""\<close> says that there is none.\<close>

definition bank_victim :: "string \<Rightarrow> 'm bank \<Rightarrow> string option" where
  "bank_victim keep b =
     (let victim = (case find (\<lambda>i. i \<noteq> keep) (bk_order b) of None \<Rightarrow> '''' | Some i \<Rightarrow> i)
      in if victim = '''' then None else Some victim)"

definition bank_evict :: "string \<Rightarrow> 'm bank \<Rightarrow> 'm bank option" where
  "bank_evict keep b = evict_while bank_over (bank_victim keep) bank_remove b"

definition bank_add :: "string \<Rightarrow> 'm bank_entry \<Rightarrow> 'm bank \<Rightarrow> 'm bank" where
  "bank_add i e b =
     b\<lparr>bk_entries := AList.update i e (bk_entries b), bk_order := bk_order b @ [i],
       bk_bytes := i64 (bk_bytes b + be_bytes e)\<rparr>"

record 'm loaded =
  ld_vocab :: int
  ld_model :: 'm
  ld_params :: int

type_synonym 'm loader = "string \<Rightarrow> string + 'm loaded"

definition acquire :: "'m loader \<Rightarrow> string \<Rightarrow> 'm bank \<Rightarrow> ((bank_error + 'm) \<times> 'm bank) option" where
  "acquire loader i b =
     (let b = b\<lparr>bk_clock := bk_clock b + 1\<rparr> in
      case map_of (bk_entries b) i of
        Some existing \<Rightarrow>
          Some (Inr (be_model existing),
            bank_touch i (b\<lparr>bk_entries := AList.update i (existing\<lparr>be_used := bk_clock b\<rparr>) (bk_entries b)\<rparr>))
      | None \<Rightarrow>
          (case domain_by_id (bk_manifest b) i of
             None \<Rightarrow> Some (Inl (UnknownDomain i), b)
           | Some d \<Rightarrow>
               (case loader (dm_checkpoint d) of
                  Inl e \<Rightarrow> Some (Inl (LoadFailed i e), b)
                | Inr l \<Rightarrow>
                    if ld_vocab l \<noteq> bk_vocab_size b
                    then Some (Inl (VocabMismatch i (ld_vocab l) (bk_vocab_size b)), b)
                    else
                      (let resident = \<lparr>be_domain = d, be_model = ld_model l,
                             be_bytes = i64 (i64 (ld_params l) * 4), be_used = bk_clock b\<rparr>
                       in map_option (\<lambda>b. (Inr (be_model resident), b)) (bank_evict i (bank_add i resident b))))))"

fun acquire_many ::
  "'m loader \<Rightarrow> string list \<Rightarrow> 'm bank \<Rightarrow> ('m list \<times> string list \<times> bank_error option \<times> 'm bank) option" where
  "acquire_many loader [] b = Some ([], [], None, b)"
| "acquire_many loader (i # is) b =
     (case acquire loader i b of
        None \<Rightarrow> None
      | Some (Inl e, b) \<Rightarrow> Some ([], [], Some e, b)
      | Some (Inr m, b) \<Rightarrow>
          map_option (\<lambda>(ms, loaded, e, b). (m # ms, i # loaded, e, b)) (acquire_many loader is b))"

definition resident :: "'m bank \<Rightarrow> string list" where
  "resident b = rev (bk_order b)"

definition sorted_domains :: "'m bank \<Rightarrow> domain list" where
  "sorted_domains b = sort_key dm_id (mf_domains (bk_manifest b))"

inductive bank_reach :: "'m loader \<Rightarrow> 'm bank \<Rightarrow> 'm bank \<Rightarrow> bool" for loader b0 where
  start: "bank_reach loader b0 b0"
| acquired: "bank_reach loader b0 b \<Longrightarrow> acquire loader i b = Some (r, b') \<Longrightarrow> bank_reach loader b0 b'"

section \<open>The bank is an LRU store\<close>

interpretation bank: lru_store bk_entries bk_order bk_bytes be_bytes bank_touch bank_remove bank_add
  by unfold_locales (simp_all add: bank_touch_def bank_remove_def bank_add_def)

text \<open>What loading the domain's checkpoint without a bank gives.\<close>

definition direct :: "'m loader \<Rightarrow> manifest \<Rightarrow> int \<Rightarrow> string \<Rightarrow> bank_error + 'm loaded" where
  "direct loader m vocab i =
     (case domain_by_id m i of None \<Rightarrow> Inl (UnknownDomain i)
      | Some d \<Rightarrow> (case loader (dm_checkpoint d) of Inl e \<Rightarrow> Inl (LoadFailed i e)
          | Inr l \<Rightarrow> if ld_vocab l \<noteq> vocab then Inl (VocabMismatch i (ld_vocab l) vocab) else Inr l))"

definition loaded_bytes :: "'m loaded \<Rightarrow> int" where
  "loaded_bytes l = i64 (i64 (ld_params l) * 4)"

text \<open>The budget, for a list of ids with their sizes.\<close>

definition fits :: "bank_options \<Rightarrow> (string \<Rightarrow> int) \<Rightarrow> string list \<Rightarrow> bool" where
  "fits opts size_of is \<longleftrightarrow>
     (max_models opts > 0 \<longrightarrow> int (length is) \<le> max_models opts) \<and>
     (max_bytes opts > 0 \<longrightarrow> i64 (sum_list (map size_of is)) \<le> max_bytes opts)"

definition direct_bytes :: "'m loader \<Rightarrow> manifest \<Rightarrow> int \<Rightarrow> string \<Rightarrow> int" where
  "direct_bytes loader m vocab i = (case direct loader m vocab i of Inl e \<Rightarrow> 0 | Inr l \<Rightarrow> loaded_bytes l)"

section \<open>The states a bank can reach\<close>

definition same_config :: "manifest \<Rightarrow> int \<Rightarrow> bank_options \<Rightarrow> 'm bank \<Rightarrow> bool" where
  "same_config m vocab opts b \<longleftrightarrow> bk_manifest b = m \<and> bk_vocab_size b = vocab \<and> bk_options b = opts"

text \<open>What is resident for an id is what loading its checkpoint gives.\<close>

definition entries_sound :: "'m loader \<Rightarrow> manifest \<Rightarrow> int \<Rightarrow> 'm bank \<Rightarrow> bool" where
  "entries_sound loader m vocab b \<longleftrightarrow>
     (\<forall>i e. (i, e) \<in> set (bk_entries b) \<longrightarrow> i \<noteq> '''' \<and>
       (\<exists>l. direct loader m vocab i = Inr l \<and> be_model e = ld_model l \<and> be_bytes e = loaded_bytes l))"

definition bank_core :: "'m loader \<Rightarrow> manifest \<Rightarrow> int \<Rightarrow> bank_options \<Rightarrow> 'm bank \<Rightarrow> bool" where
  "bank_core loader m vocab opts b \<longleftrightarrow>
     same_config m vocab opts b \<and> bank.ok b \<and> entries_sound loader m vocab b"

definition bank_inv :: "'m loader \<Rightarrow> manifest \<Rightarrow> int \<Rightarrow> bank_options \<Rightarrow> 'm bank \<Rightarrow> bool" where
  "bank_inv loader m vocab opts b \<longleftrightarrow>
     bank_core loader m vocab opts b \<and> (bank_over b \<longrightarrow> length (bk_order b) \<le> 1)"

lemma coreD:
  assumes "bank_core loader m vocab opts b"
  shows "same_config m vocab opts b" "bank.ok b" "entries_sound loader m vocab b"
  using assms by (simp_all add: bank_core_def)

lemma direct_id:
  assumes "load_manifest (Inr m) = Inr m" "direct loader m vocab i = Inr l"
  shows "i \<noteq> ''''"
proof -
  have "'''' \<notin> dm_id ` set ds" if "check_domains seen ds = Inr ()" for seen ds
    using that by (induction seen ds rule: check_domains.induct) (auto simp: guard_eq_Inr)
  moreover have "check_domains [] (mf_domains m) = Inr ()"
    using assms(1) by (auto simp: load_manifest_def outcome_Inr)
  moreover have "i \<in> dm_id ` set (mf_domains m)"
    using assms(2) by (auto simp: direct_def domain_by_id_def find_Some_iff split: option.splits)
  ultimately show ?thesis by metis
qed

lemma core_remove:
  assumes "bank_core loader m vocab opts b" "i \<in> set (bk_order b)"
  shows "bank_core loader m vocab opts (bank_remove i b)"
proof -
  have "same_config m vocab opts (bank_remove i b)"
    using coreD(1) [OF assms(1)] by (simp add: same_config_def bank_remove_def split: option.split)
  moreover have "entries_sound loader m vocab (bank_remove i b)"
    using coreD(3) [OF assms(1)] bank.ok_drop(3) [OF coreD(2) [OF assms(1)] assms(2)]
    by (auto simp: entries_sound_def AList.delete_eq)
  ultimately show ?thesis
    using bank.ok_drop(1) [OF coreD(2) [OF assms(1)] assms(2)] by (simp add: bank_core_def)
qed

lemma core_remove_many:
  assumes "bank_core loader m vocab opts b" "bk_order b = xs @ ys" "n \<le> length xs"
  shows "bank_core loader m vocab opts (fold bank_remove (take n xs) b)"
  using assms
proof (induction xs arbitrary: b n)
  case (Cons x xs)
  then have "bank_core loader m vocab opts (bank_remove x b)" "bk_order (bank_remove x b) = xs @ ys"
    using core_remove [OF Cons.prems(1), of x] bank.ok_drop(2) [OF coreD(2) [OF Cons.prems(1)], of x] by auto
  with Cons.IH Cons.prems show ?case by (cases n) auto
qed simp

text \<open>In such a state the budget is one on the list of resident ids.\<close>

lemma over_fits:
  assumes "bank_core loader m vocab opts b"
  shows "bank_over b \<longleftrightarrow> \<not> fits opts (direct_bytes loader m vocab) (bk_order b)"
proof -
  note ok = bank.okD [OF coreD(2) [OF assms]]
  have sz: "\<forall>(i, e) \<in> set (bk_entries b). be_bytes e = direct_bytes loader m vocab i"
    using coreD(3) [OF assms] by (fastforce simp: entries_sound_def direct_bytes_def)
  have keys: "mset (map fst (bk_entries b)) = mset (bk_order b)"
    using ok(1,2,3) set_eq_iff_mset_eq_distinct [of "map fst (bk_entries b)" "bk_order b"] by simp
  have "entry_sum be_bytes (bk_entries b) = sum_list (map (direct_bytes loader m vocab) (map fst (bk_entries b)))"
    unfolding entry_sum_def using sz by (intro arg_cong [of _ _ sum_list]) auto
  also have "\<dots> = sum_mset (image_mset (direct_bytes loader m vocab) (mset (map fst (bk_entries b))))"
    by (metis mset_map sum_mset_sum_list)
  also have "\<dots> = sum_list (map (direct_bytes loader m vocab) (bk_order b))"
    unfolding keys by (metis mset_map sum_mset_sum_list)
  finally have "bk_bytes b = i64 (sum_list (map (direct_bytes loader m vocab) (bk_order b)))"
    using ok(4) by simp
  moreover have "length (bk_entries b) = length (bk_order b)"
    using keys by (metis length_map mset_eq_length)
  ultimately show ?thesis
    using coreD(1) [OF assms] by (auto simp: bank_over_def fits_def same_config_def)
qed

lemma fits_rev [simp]: "fits opts sz (rev xs) = fits opts sz xs"
  by (simp add: fits_def rev_map [symmetric] sum_list_rev)

lemma bank_start: "bank_inv loader m (int (tk_vocab_size tok)) opts (new_bank m tok opts)"
  by (simp add: bank_inv_def bank_core_def same_config_def entries_sound_def new_bank_def bank.ok_def
      lru_ok_def entry_sum_def i64_def)

text \<open>A hit: the id moves to the recent end, nothing else changes.\<close>

lemma core_hit:
  fixes c u :: u64
  assumes "bank_core loader m vocab opts b" "map_of (bk_entries b) i = Some e"
  defines "b' \<equiv> bank_touch i (b\<lparr>bk_clock := c, bk_entries := AList.update i (e\<lparr>be_used := u\<rparr>) (bk_entries b)\<rparr>)"
  shows "bank_core loader m vocab opts b'" "bk_order b' = remove1 i (bk_order b) @ [i]"
    "\<exists>l. direct loader m vocab i = Inr l \<and> be_model e = ld_model l" "i \<in> set (bk_order b)"
proof -
  let ?es = "AList.update i (e\<lparr>be_used := u\<rparr>) (bk_entries b)"
  note ok = bank.okD [OF coreD(2) [OF assms(1)]]
  have mem: "(i, e) \<in> set (bk_entries b)"
    using assms(2) by (rule map_of_SomeD)
  with coreD(3) [OF assms(1)] show "\<exists>l. direct loader m vocab i = Inr l \<and> be_model e = ld_model l"
    by (auto simp: entries_sound_def)
  show i: "i \<in> set (bk_order b)"
    using mem ok(2) by force
  have keys: "map fst ?es = map fst (bk_entries b)"
    using mem by (force simp: update_keys)
  have same: "map (be_bytes \<circ> snd) (AList.update i (e\<lparr>be_used := u\<rparr>) es) = map (be_bytes \<circ> snd) es"
    if "map_of es i = Some e" for es
    using that by (induction es) (auto split: if_splits)
  have sets: "fst ` set ?es = fst ` set (bk_entries b)"
    using arg_cong [OF keys, of set] by simp
  have "bank.ok (b\<lparr>bk_clock := c, bk_entries := ?es\<rparr>)"
    using ok keys sets same [OF assms(2)] by (simp add: bank.ok_def lru_ok_def entry_sum_def)
  from bank.ok_touch [OF this, of i] i have "bank.ok b'"
    unfolding b'_def by simp
  moreover have "entries_sound loader m vocab b'"
  proof -
    note sound = coreD(3) [OF assms(1), unfolded entries_sound_def, rule_format]
    have "j \<noteq> [] \<and> (\<exists>l. direct loader m vocab j = Inr l \<and> be_model f = ld_model l \<and> be_bytes f = loaded_bytes l)"
      if "(j, f) \<in> set ?es" for j f
    proof -
      from that set_update_subset have "(j, f) = (i, e\<lparr>be_used := u\<rparr>) \<or> (j, f) \<in> set (bk_entries b)"
        by fastforce
      then show ?thesis
      proof
        assume "(j, f) = (i, e\<lparr>be_used := u\<rparr>)"
        with sound [OF mem] show ?thesis by simp
      qed (rule sound)
    qed
    then show ?thesis
      by (simp add: entries_sound_def b'_def bank_touch_def)
  qed
  ultimately show "bank_core loader m vocab opts b'"
    using coreD(1) [OF assms(1)] by (simp add: bank_core_def same_config_def b'_def bank_touch_def)
  show "bk_order b' = remove1 i (bk_order b) @ [i]"
    by (simp add: b'_def bank_touch_def)
qed

text \<open>A miss: the loaded model is added, then the oldest others go until the budget is met.\<close>

lemma core_add:
  assumes "bank_core loader m vocab opts b" "map_of (bk_entries b) i = None" "i \<noteq> ''''"
    "direct loader m vocab i = Inr l" "be_model e = ld_model l" "be_bytes e = loaded_bytes l"
  shows "bank_core loader m vocab opts (bank_add i e b)" "bk_order (bank_add i e b) = bk_order b @ [i]"
    "i \<notin> set (bk_order b)"
proof -
  show i: "i \<notin> set (bk_order b)"
    using bank.okD(2) [OF coreD(2) [OF assms(1)]] assms(2) by (simp add: map_of_eq_None_iff)
  have "set (bk_entries (bank_add i e b)) \<subseteq> insert (i, e) (set (bk_entries b))"
    using set_update_subset by (simp add: bank_add_def)
  then have "entries_sound loader m vocab (bank_add i e b)"
    using coreD(3) [OF assms(1)] assms(3-6) by (auto simp: entries_sound_def)
  then show "bank_core loader m vocab opts (bank_add i e b)"
    using coreD(1) [OF assms(1)] bank.ok_add [OF coreD(2) [OF assms(1)] i, of e]
    by (simp add: bank_core_def same_config_def bank_add_def)
  show "bk_order (bank_add i e b) = bk_order b @ [i]"
    by (simp add: bank_add_def)
qed

lemma core_ids: "bank_core loader m vocab opts b \<Longrightarrow> '''' \<notin> set (bk_order b)"
  using bank.okD(2) coreD(2,3) by (fastforce simp: entries_sound_def)

lemma core_evict:
  assumes "bank_core loader m vocab opts b" "bk_order b = is @ [i]" "i \<notin> set is"
  shows "\<exists>n \<le> length is. \<exists>b'. bank_evict i b = Some b' \<and> bank_core loader m vocab opts b' \<and>
    bk_order b' = drop n is @ [i] \<and> (bank_over b' \<longrightarrow> n = length is) \<and>
    (\<forall>k < n. \<not> fits opts (direct_bytes loader m vocab) (drop k is @ [i]))"
proof -
  have "bank_victim i b' = find (\<lambda>j. j \<noteq> i) (bk_order b')"
    if "bank.ok b'" "set (bk_order b') \<subseteq> set (bk_order b)" for b'
  proof (cases "find (\<lambda>j. j \<noteq> i) (bk_order b')")
    case (Some j)
    then have "j \<in> set (bk_order b')" by (auto simp: find_Some_iff)
    with Some core_ids [OF assms(1)] that(2) show ?thesis by (auto simp: bank_victim_def)
  qed (simp add: bank_victim_def)
  then have "\<exists>n \<le> length is. \<exists>t. evict_while bank_over (bank_victim i) bank_remove b = Some t \<and>
      t = fold bank_remove (take n is) b \<and> bank.ok t \<and> bk_order t = drop n is @ [i] \<and>
      bk_entries t = fold AList.delete (take n is) (bk_entries b) \<and>
      (\<forall>k < n. bank_over (fold bank_remove (take k is) b)) \<and> (bank_over t \<longrightarrow> n = length is)"
    using assms(3) by (intro bank.evict_ends [OF coreD(2) [OF assms(1)] assms(2), where P = "\<lambda>j. j \<noteq> i"]) auto
  then obtain n b' where n: "n \<le> length is" "bank_evict i b = Some b'" "b' = fold bank_remove (take n is) b"
    "bk_order b' = drop n is @ [i]" "bank_over b' \<longrightarrow> n = length is"
    "\<forall>k < n. bank_over (fold bank_remove (take k is) b)"
    unfolding bank_evict_def by blast
  have "\<not> fits opts (direct_bytes loader m vocab) (drop k is @ [i])" if "k < n" for k
    using that n(1,6) over_fits [OF core_remove_many [OF assms(1,2), of k]]
      bank.ok_drop_many(2) [OF coreD(2) [OF assms(1)] assms(2), of k] by auto
  with n core_remove_many [OF assms(1,2) n(1)] show ?thesis
    by blast
qed

text \<open>What one call does.\<close>

definition kept :: "bank_options \<Rightarrow> (string \<Rightarrow> int) \<Rightarrow> string list \<Rightarrow> string list \<Rightarrow> bool" where
  "kept opts sz recent is \<longleftrightarrow>
     (\<exists>k. 1 \<le> k \<and> is = take k recent \<and> (fits opts sz is \<or> k = 1) \<and>
       (\<forall>j. k < j \<and> j \<le> length recent \<longrightarrow> \<not> fits opts sz (take j recent)))"

lemma kept_all: "recent \<noteq> [] \<Longrightarrow> fits opts sz recent \<or> length recent = 1 \<Longrightarrow> kept opts sz recent recent"
  unfolding kept_def by (intro exI [of _ "length recent"]) (auto simp: Suc_le_eq)

lemma acquire_facts:
  assumes "load_manifest (Inr m) = Inr m" "bank_inv loader m vocab opts b"
  shows "\<exists>r b'. acquire loader i b = Some (r, b') \<and> bank_inv loader m vocab opts b' \<and>
    (case direct loader m vocab i of
       Inl e \<Rightarrow> r = Inl e \<and> resident b' = resident b
     | Inr l \<Rightarrow> r = Inr (ld_model l) \<and>
         kept opts (direct_bytes loader m vocab) (i # removeAll i (resident b)) (resident b'))"
proof -
  let ?sz = "direct_bytes loader m vocab"
  have core: "bank_core loader m vocab opts b" and few: "bank_over b \<longrightarrow> length (bk_order b) \<le> 1"
    using assms(2) by (auto simp: bank_inv_def)
  define c where "c = b\<lparr>bk_clock := bk_clock b + 1\<rparr>"
  have c: "bank_core loader m vocab opts c" "bk_order c = bk_order b" "bk_entries c = bk_entries b"
    "bank_over c = bank_over b"
    using core by (simp_all add: c_def bank_core_def same_config_def entries_sound_def bank.ok_def bank_over_def)
  note config = coreD(1) [OF c(1), unfolded same_config_def]
  note order = bank.okD [OF coreD(2) [OF core]]
  show ?thesis
  proof (cases "map_of (bk_entries b) i")
    case (Some e)
    define b' where "b' = bank_touch i (b\<lparr>bk_clock := bk_clock c, bk_entries := AList.update i (e\<lparr>be_used := bk_clock c\<rparr>) (bk_entries b)\<rparr>)"
    note hit = core_hit(1,2) [OF core Some, where c = "bk_clock c" and u = "bk_clock c", folded b'_def]
      core_hit(3,4) [OF core Some]
    have run: "acquire loader i b = Some (Inr (be_model e), b')"
      using Some by (simp add: acquire_def b'_def c_def)
    have recent: "resident b' = i # removeAll i (resident b)"
      using hit(2) order(1) by (simp add: resident_def distinct_remove1_removeAll removeAll_filter_not_eq rev_filter)
    have same: "mset (bk_order b') = mset (bk_order b)"
      using hit(2,4) by simp
    have "fits opts ?sz (bk_order b') = fits opts ?sz (bk_order b)"
      using same unfolding fits_def by (metis mset_eq_length mset_map sum_mset_sum_list)
    then have over: "bank_over b' = bank_over b"
      using over_fits [OF hit(1)] over_fits [OF core] by simp
    have len: "length (bk_order b') = length (bk_order b)"
      using same mset_eq_length by blast
    have "bank_inv loader m vocab opts b'"
      using hit(1) few over len by (simp add: bank_inv_def)
    moreover have "kept opts ?sz (i # removeAll i (resident b)) (resident b')"
    proof -
      have "fits opts ?sz (resident b') \<or> length (resident b') = 1"
        using over_fits [OF hit(1)] few over len hit(2)
        unfolding resident_def fits_rev by (auto simp: le_Suc_eq)
      then show ?thesis
        using recent kept_all [of "resident b'" opts ?sz] by simp
    qed
    ultimately show ?thesis
      using run hit(3) by auto
  next
    case None
    show ?thesis
    proof (cases "direct loader m vocab i")
      case (Inl e)
      then have "acquire loader i b = Some (Inl e, c)"
        using None config by (auto simp: acquire_def direct_def c_def split: option.splits sum.splits if_splits)
      with Inl c few show ?thesis
        by (simp add: bank_inv_def resident_def)
    next
      case (Inr l)
      then obtain d where d: "domain_by_id m i = Some d" "loader (dm_checkpoint d) = Inr l" "ld_vocab l = vocab"
        by (auto simp: direct_def split: option.splits sum.splits if_splits)
      define e where "e = \<lparr>be_domain = d, be_model = ld_model l, be_bytes = loaded_bytes l, be_used = bk_clock c\<rparr>"
      have "map_of (bk_entries c) i = None"
        using None c(3) by simp
      note add = core_add [OF c(1) this direct_id [OF assms(1) Inr] Inr, of e, unfolded c(2)]
      have i: "i \<notin> set (bk_order b)"
        using add by (simp add: e_def)
      from core_evict [OF add(1,2) i] obtain n b' where n: "n \<le> length (bk_order b)"
        "bank_evict i (bank_add i e c) = Some b'" "bank_core loader m vocab opts b'"
        "bk_order b' = drop n (bk_order b) @ [i]" "bank_over b' \<longrightarrow> n = length (bk_order b)"
        "\<forall>k < n. \<not> fits opts ?sz (drop k (bk_order b) @ [i])"
        by (auto simp: e_def)
      have run: "acquire loader i b = Some (Inr (ld_model l), b')"
        using None d config n(2) by (simp add: acquire_def c_def [symmetric] e_def loaded_bytes_def)
          (simp add: c_def)
      let ?recent = "i # rev (bk_order b)"
      have cut: "take (Suc (length (bk_order b) - k)) ?recent = rev (drop k (bk_order b) @ [i])"
        if "k \<le> length (bk_order b)" for k
        using that by (simp add: rev_drop)
      have "kept opts ?sz ?recent (resident b')"
        unfolding kept_def
      proof (intro exI [of _ "Suc (length (bk_order b) - n)"] conjI allI impI)
        show "resident b' = take (Suc (length (bk_order b) - n)) ?recent"
          using cut [OF n(1)] n(4) by (simp add: resident_def)
        show "fits opts ?sz (resident b') \<or> Suc (length (bk_order b) - n) = 1"
          using over_fits [OF n(3)] n(5) by (auto simp: resident_def)
        fix j assume j: "Suc (length (bk_order b) - n) < j \<and> j \<le> length ?recent"
        then have "length (bk_order b) - (j - 1) < n" "j = Suc (length (bk_order b) - (length (bk_order b) - (j - 1)))"
          by auto
        with n(6) cut [of "length (bk_order b) - (j - 1)"] show "\<not> fits opts ?sz (take j ?recent)"
          by (metis diff_le_self fits_rev)
      qed simp
      moreover have "removeAll i (resident b) = rev (bk_order b)"
        using i by (simp add: resident_def)
      moreover have "bank_inv loader m vocab opts b'"
        using n by (auto simp: bank_inv_def)
      ultimately show ?thesis
        using run Inr by auto
    qed
  qed
qed

lemma reach_inv:
  assumes "bank_reach loader (new_bank m tok opts) b" "load_manifest (Inr m) = Inr m"
  shows "bank_inv loader m (int (tk_vocab_size tok)) opts b"
  using assms
proof (induction rule: bank_reach.induct)
  case start
  then show ?case by (simp add: bank_start)
next
  case (acquired b i r b')
  from acquire_facts [OF acquired.prems acquired.IH [OF acquired.prems], of i] acquired.hyps(2)
  show ?case by auto
qed

lemma acquire_many_facts:
  assumes "load_manifest (Inr m) = Inr m" "bank_inv loader m vocab opts b"
  shows "\<exists>ms loaded e b'. acquire_many loader is b = Some (ms, loaded, e, b') \<and> bank_inv loader m vocab opts b' \<and>
    loaded = takeWhile (\<lambda>i. \<not> isl (direct loader m vocab i)) is \<and>
    list_all2 (\<lambda>i model. \<exists>l. direct loader m vocab i = Inr l \<and> model = ld_model l) loaded ms \<and>
    (case e of None \<Rightarrow> loaded = is
     | Some err \<Rightarrow> length loaded < length is \<and> direct loader m vocab (is ! length loaded) = Inl err)"
  using assms(2)
proof (induction "is" arbitrary: b)
  case (Cons i "is")
  from acquire_facts [OF assms(1) Cons.prems, of i] obtain r b1 where one: "acquire loader i b = Some (r, b1)"
    "bank_inv loader m vocab opts b1" "case direct loader m vocab i of Inl e \<Rightarrow> r = Inl e | Inr l \<Rightarrow> r = Inr (ld_model l)"
    by (cases "direct loader m vocab i") auto
  show ?case
  proof (cases "direct loader m vocab i")
    case (Inl e)
    with one show ?thesis by auto
  next
    case (Inr l)
    from Cons.IH [OF one(2)] obtain ms loaded e b' where rest:
      "acquire_many loader is b1 = Some (ms, loaded, e, b')" "bank_inv loader m vocab opts b'"
      "loaded = takeWhile (\<lambda>i. \<not> isl (direct loader m vocab i)) is"
      "list_all2 (\<lambda>i model. \<exists>l. direct loader m vocab i = Inr l \<and> model = ld_model l) loaded ms"
      "case e of None \<Rightarrow> loaded = is
       | Some err \<Rightarrow> length loaded < length is \<and> direct loader m vocab (is ! length loaded) = Inl err"
      by blast
    have "acquire_many loader (i # is) b = Some (ld_model l # ms, i # loaded, e, b')"
      using one(1,3) Inr rest(1) by simp
    moreover have "i # loaded = takeWhile (\<lambda>i. \<not> isl (direct loader m vocab i)) (i # is)"
      using rest(3) Inr by simp
    moreover have "list_all2 (\<lambda>i model. \<exists>l. direct loader m vocab i = Inr l \<and> model = ld_model l) (i # loaded) (ld_model l # ms)"
      using rest(4) Inr by simp
    moreover have "case e of None \<Rightarrow> i # loaded = i # is
       | Some err \<Rightarrow> length (i # loaded) < length (i # is) \<and> direct loader m vocab ((i # is) ! length (i # loaded)) = Inl err"
      using rest(5) by (cases e) simp_all
    ultimately show ?thesis
      using rest(2) by blast
  qed
qed simp

text \<open>Two domains of 40 bytes each and a budget for one of them.\<close>

definition example_manifest :: manifest where
  "example_manifest = \<lparr>mf_version = 1, mf_tokenizer = [], mf_router = [],
     mf_domains = [\<lparr>dm_id = ''a'', dm_name = [], dm_checkpoint = ''pa'', dm_data_dirs = [], dm_description = []\<rparr>,
       \<lparr>dm_id = ''b'', dm_name = [], dm_checkpoint = ''pb'', dm_data_dirs = [], dm_description = []\<rparr>]\<rparr>"

definition example_loader :: "nat loader" where
  "example_loader path = (if path = ''pa'' then Inr \<lparr>ld_vocab = 267, ld_model = 1, ld_params = 10\<rparr>
     else if path = ''pb'' then Inr \<lparr>ld_vocab = 267, ld_model = 2, ld_params = 10\<rparr> else Inl ''missing'')"

definition blank_tokenizer :: tokenizer where
  "blank_tokenizer = \<lparr>mergeable_ranks = [], special_ids = [], special_names = [], tk_bytes = [], tk_vocab_size = 267, tk_bos = 0\<rparr>"

definition example_bank :: "nat bank" where
  "example_bank = new_bank example_manifest blank_tokenizer \<lparr>max_bytes = 60, max_models = 0\<rparr>"

lemma blank_vocab [simp]: "tk_vocab_size blank_tokenizer = 267"
  by (simp add: blank_tokenizer_def)

lemma acquired_case:
  "(case x of Some (Inr n, b) \<Rightarrow> P n b | _ \<Rightarrow> False) \<Longrightarrow> \<exists>n b. x = Some (Inr n, b) \<and> P n b"
  by (cases x; cases "fst (the x)") (auto split: prod.splits)

section \<open>Properties\<close>

text \<open>
  C31. The bank never answers from stale or foreign data and never hangs: after any sequence of
  calls, Acquire returns, and what it returns is what loading the domain's checkpoint directly would
  give, the error included. The resident ids are then the requested id followed by the others in
  order of recency, cut to the longest beginning that meets the budget (or to the requested id alone);
  a failed call evicts nothing.
\<close>

theorem acquire_lru:
  assumes "bank_reach loader (new_bank m tok opts) b" "load_manifest (Inr m) = Inr m"
  shows "\<exists>r b'. acquire loader i b = Some (r, b') \<and>
    (case direct loader m (int (tk_vocab_size tok)) i of
       Inl e \<Rightarrow> r = Inl e \<and> resident b' = resident b
     | Inr l \<Rightarrow> r = Inr (ld_model l) \<and>
         kept opts (direct_bytes loader m (int (tk_vocab_size tok))) (i # removeAll i (resident b)) (resident b'))"
  using acquire_facts [OF assms(2) reach_inv [OF assms], of i] by blast

theorem acquire_lru_witness:
  "\<exists>b b'. acquire example_loader ''a'' example_bank = Some (Inr 1, b) \<and>
    acquire example_loader ''b'' b = Some (Inr 2, b') \<and> resident b' = [''b'']"
proof -
  have m: "load_manifest (Inr example_manifest) = Inr example_manifest"
    by code_simp
  have "case acquire example_loader ''a'' example_bank of Some (Inr n, b) \<Rightarrow> n = 1 \<and>
      (case acquire example_loader ''b'' b of Some (Inr k, b') \<Rightarrow> resident b' = [''b''] | _ \<Rightarrow> False) | _ \<Rightarrow> False"
    by code_simp
  from acquired_case [OF this] obtain b where a: "acquire example_loader ''a'' example_bank = Some (Inr 1, b)"
    "case acquire example_loader ''b'' b of Some (Inr k, b') \<Rightarrow> resident b' = [''b''] | _ \<Rightarrow> False"
    by blast
  from acquired_case [OF a(2)] a(1) obtain k b' where b: "acquire example_loader ''a'' example_bank = Some (Inr 1, b)"
    "acquire example_loader ''b'' b = Some (Inr k, b')" "resident b' = [''b'']"
    by blast
  have "direct example_loader example_manifest 267 ''b'' = Inr \<lparr>ld_vocab = 267, ld_model = 2, ld_params = 10\<rparr>"
    by code_simp
  with acquire_lru [OF bank_reach.acquired [OF bank_reach.start b(1) [unfolded example_bank_def]] m, of "''b''"] b
  show ?thesis by simp
qed

text \<open>
  C39. In every state a sequence of calls leads to, the map of entries, the recency list and the byte
  count agree, and the budget is met or a single model is resident.
\<close>

theorem bank_invariant:
  assumes "bank_reach loader (new_bank m tok opts) b" "load_manifest (Inr m) = Inr m"
  shows "lru_ok be_bytes (bk_entries b) (bk_order b) (bk_bytes b) \<and>
    (\<not> bank_over b \<or> length (bk_entries b) \<le> 1)"
proof -
  have core: "bank_core loader m (int (tk_vocab_size tok)) opts b" and few: "bank_over b \<longrightarrow> length (bk_order b) \<le> 1"
    using reach_inv [OF assms] by (auto simp: bank_inv_def)
  note ok = bank.okD [OF coreD(2) [OF core]]
  have "card (set (map fst (bk_entries b))) = length (bk_entries b)"
    using ok(3) by (metis distinct_card length_map)
  then have "length (bk_entries b) = length (bk_order b)"
    using ok(1,2) by (simp flip: distinct_card)
  with few coreD(2) [OF core] show ?thesis
    by (auto simp: bank.ok_def)
qed

theorem bank_invariant_witness:
  "\<exists>b. acquire example_loader ''a'' example_bank = Some (Inr 1, b) \<and> bk_bytes b = 40 \<and>
    lru_ok be_bytes (bk_entries b) (bk_order b) (bk_bytes b)"
proof -
  have m: "load_manifest (Inr example_manifest) = Inr example_manifest"
    by code_simp
  have "case acquire example_loader ''a'' example_bank of Some (Inr n, b) \<Rightarrow> n = 1 \<and> bk_bytes b = 40 | _ \<Rightarrow> False"
    by code_simp
  from acquired_case [OF this] obtain b where b: "acquire example_loader ''a'' example_bank = Some (Inr 1, b)" "bk_bytes b = 40"
    by blast
  with bank_invariant [OF bank_reach.acquired [OF bank_reach.start b(1) [unfolded example_bank_def]] m] show ?thesis
    by blast
qed

text \<open>
  AcquireMany returns the models of the requested domains in their order, as direct loading would
  give them, up to the first one that fails, whose error it returns.
\<close>

theorem acquire_many_direct:
  assumes "bank_reach loader (new_bank m tok opts) b" "load_manifest (Inr m) = Inr m"
  shows "\<exists>ms loaded e b'. acquire_many loader is b = Some (ms, loaded, e, b') \<and>
    loaded = takeWhile (\<lambda>i. \<not> isl (direct loader m (int (tk_vocab_size tok)) i)) is \<and>
    list_all2 (\<lambda>i model. \<exists>l. direct loader m (int (tk_vocab_size tok)) i = Inr l \<and> model = ld_model l) loaded ms \<and>
    (case e of None \<Rightarrow> loaded = is
     | Some err \<Rightarrow> length loaded < length is \<and> direct loader m (int (tk_vocab_size tok)) (is ! length loaded) = Inl err)"
  using acquire_many_facts [OF assms(2) reach_inv [OF assms], of "is"] by blast

theorem acquire_many_direct_witness:
  "\<exists>ms b'. acquire_many example_loader [''b'', ''a'', ''c''] example_bank = Some (ms, [''b'', ''a''], Some (UnknownDomain ''c''), b')"
proof -
  have m: "load_manifest (Inr example_manifest) = Inr example_manifest"
    by code_simp
  have d: "\<not> isl (direct example_loader example_manifest 267 ''a'')" "\<not> isl (direct example_loader example_manifest 267 ''b'')"
    "direct example_loader example_manifest 267 ''c'' = Inl (UnknownDomain ''c'')"
    by code_simp+
  then have "takeWhile (\<lambda>i. \<not> isl (direct example_loader example_manifest 267 i)) [''b'', ''a'', ''c''] = [''b'', ''a'']"
    by simp
  moreover obtain ms loaded e b' where run:
    "acquire_many example_loader [''b'', ''a'', ''c''] example_bank = Some (ms, loaded, e, b')"
    "loaded = takeWhile (\<lambda>i. \<not> isl (direct example_loader example_manifest (int (tk_vocab_size blank_tokenizer)) i)) [''b'', ''a'', ''c'']"
    "case e of None \<Rightarrow> loaded = [''b'', ''a'', ''c'']
     | Some err \<Rightarrow> length loaded < length [''b'', ''a'', ''c''] \<and>
         direct example_loader example_manifest (int (tk_vocab_size blank_tokenizer)) ([''b'', ''a'', ''c''] ! length loaded) = Inl err"
    unfolding example_bank_def using acquire_many_direct [OF bank_reach.start m] by blast
  ultimately show ?thesis
    using d(3) by (cases e) (simp_all add: nth_Cons_numeral)
qed

end
