(* ===== verification/Model_Config.thy ===== *)
theory Model_Config
  imports Go_Base Complex_Main "HOL-Library.Signed_Division"
begin

text \<open>
  src/model/config.go and preset.go: the model configuration, its consistency check, the presets, the
  roles of layers, and the parameter counts that flops.go and mla.go derive from a configuration alone.

  Configuration numbers are far from the 64-bit bounds, so \<open>int\<close> is unbounded here; Go's \<open>/\<close> and \<open>%\<close>,
  which truncate, are \<open>sdiv\<close> and \<open>smod\<close>. A \<open>float32\<close> setting is the rational it denotes. Validate
  panics, which is \<open>Inl Panic\<close>; so is a division by zero. A pattern is its bytes: a pattern with a
  character outside ASCII is refused rune by rune in Go and byte by byte here.
\<close>

section \<open>The configuration\<close>

record config =
  sequence_len :: int
  vocab_size :: int
  num_layer :: int
  num_head :: int
  num_kv_head :: int
  embed_dim :: int
  window_pattern :: string
  rotary_dims :: int
  compression_ratio :: int
  sparse_top_k :: int
  indexer_dim :: int
  indexer_heads :: int
  indexer_loss_weight :: rat
  indexer_pool :: int
  indexer_candidates :: int
  reuse_pattern :: string
  swa_window :: int
  ced :: bool
  head_wise_muon :: bool
  query_compression_dim :: int
  kv_latent_dim :: int
  mla_latent :: int
  mla_rotary_dims :: int
  num_experts :: int
  num_experts_per_token :: int
  expert_hidden_dim :: int
  shared_expert_hidden_dim :: int
  moe_clamp :: rat
  moe_scale :: rat
  router_bias_update :: rat
  moe_balance_weight :: rat

definition zero_config :: config where
  "zero_config = \<lparr>sequence_len = 0, vocab_size = 0, num_layer = 0, num_head = 0, num_kv_head = 0, embed_dim = 0,
     window_pattern = '''', rotary_dims = 0, compression_ratio = 0, sparse_top_k = 0, indexer_dim = 0,
     indexer_heads = 0, indexer_loss_weight = 0, indexer_pool = 0, indexer_candidates = 0, reuse_pattern = '''',
     swa_window = 0, ced = False, head_wise_muon = False, query_compression_dim = 0, kv_latent_dim = 0,
     mla_latent = 0, mla_rotary_dims = 0, num_experts = 0, num_experts_per_token = 0, expert_hidden_dim = 0,
     shared_expert_hidden_dim = 0, moe_clamp = 0, moe_scale = 0, router_bias_update = 0, moe_balance_weight = 0\<rparr>"

text \<open>Division and remainder, which panic for the divisor zero.\<close>

definition go_div :: "int \<Rightarrow> int \<Rightarrow> (unit, int) outcome" where
  "go_div a b = panic_if (b = 0) (Inr (a sdiv b))"

definition go_mod :: "int \<Rightarrow> int \<Rightarrow> (unit, int) outcome" where
  "go_mod a b = panic_if (b = 0) (Inr (a smod b))"

definition moe_enabled :: "config \<Rightarrow> bool" where
  "moe_enabled c \<longleftrightarrow> num_experts c > 0"

definition moe_active_experts :: "config \<Rightarrow> int" where
  "moe_active_experts c =
     (if num_experts_per_token c \<le> 0 then 0
      else if num_experts_per_token c > num_experts c then num_experts c
      else num_experts_per_token c)"

definition moe_effective_clamp :: "config \<Rightarrow> rat" where
  "moe_effective_clamp c = (if moe_clamp c = 0 then 10 else moe_clamp c)"

definition moe_effective_scale :: "config \<Rightarrow> rat" where
  "moe_effective_scale c = (if moe_scale c = 0 then 1 else moe_scale c)"

definition moe_expert_hidden :: "config \<Rightarrow> int" where
  "moe_expert_hidden c = (if expert_hidden_dim c > 0 then expert_hidden_dim c else embed_dim c)"

definition moe_shared_hidden :: "config \<Rightarrow> int" where
  "moe_shared_hidden c = (if shared_expert_hidden_dim c > 0 then shared_expert_hidden_dim c else moe_expert_hidden c)"

definition apply_moe_defaults :: "config \<Rightarrow> config" where
  "apply_moe_defaults c =
     (if \<not> moe_enabled c then c
      else
        (let c = (if expert_hidden_dim c \<le> 0 then c\<lparr>expert_hidden_dim := embed_dim c\<rparr> else c);
             c = (if shared_expert_hidden_dim c \<le> 0 then c\<lparr>shared_expert_hidden_dim := expert_hidden_dim c\<rparr> else c);
             c = (if num_experts_per_token c \<le> 0 then c\<lparr>num_experts_per_token := 2\<rparr> else c)
         in if num_experts_per_token c > num_experts c then c\<lparr>num_experts_per_token := num_experts c\<rparr> else c))"

definition query_rank :: "config \<Rightarrow> int" where
  "query_rank c = (if query_compression_dim c \<le> 0 then 0 else query_compression_dim c)"

definition kv_rank :: "config \<Rightarrow> int" where
  "kv_rank c = (if kv_latent_dim c \<le> 0 then 0 else kv_latent_dim c)"

definition mla_enabled :: "config \<Rightarrow> bool" where
  "mla_enabled c \<longleftrightarrow> mla_latent c > 0"

definition head_dim :: "config \<Rightarrow> (unit, int) outcome" where
  "head_dim c = go_div (embed_dim c) (num_head c)"

definition mla_rotary_dimension :: "config \<Rightarrow> (unit, int) outcome" where
  "mla_rotary_dimension c =
     obind (head_dim c) (\<lambda>d.
       if mla_rotary_dims c \<le> 0 then
         (let width = d sdiv 2;
              width = (if width > 64 then 64 else width);
              width = (if width smod 2 \<noteq> 0 then width - 1 else width)
          in Inr width)
       else
         panic_if (mla_rotary_dims c > d)
           (panic_if (mla_rotary_dims c smod 2 \<noteq> 0) (Inr (mla_rotary_dims c))))"

definition mla_content_dim :: "config \<Rightarrow> (unit, int) outcome" where
  "mla_content_dim c = obind (head_dim c) (\<lambda>d. obind (mla_rotary_dimension c) (\<lambda>r. Inr (d - r)))"

definition compression :: "config \<Rightarrow> int" where
  "compression c = (if compression_ratio c \<le> 1 then 1 else compression_ratio c)"

definition swa_window_size :: "config \<Rightarrow> int" where
  "swa_window_size c = (if swa_window c < 0 then 0 else swa_window c)"

definition rotary_dimension :: "config \<Rightarrow> (unit, int) outcome" where
  "rotary_dimension c =
     (if mla_enabled c then mla_rotary_dimension c
      else
        obind (head_dim c) (\<lambda>d.
          if rotary_dims c \<le> 0 then Inr d
          else panic_if (rotary_dims c > d) (panic_if (rotary_dims c smod 2 \<noteq> 0) (Inr (rotary_dims c)))))"

text \<open>Layers are counted from 0; the encoder is what lies before the split.\<close>

definition ced_split :: "config \<Rightarrow> int" where
  "ced_split c = (if \<not> ced c then 0 else num_layer c sdiv 2)"

definition is_encoder_layer :: "config \<Rightarrow> nat \<Rightarrow> bool" where
  "is_encoder_layer c layer \<longleftrightarrow> ced_split c > 0 \<and> int layer < ced_split c"

definition is_decoder_layer :: "config \<Rightarrow> nat \<Rightarrow> bool" where
  "is_decoder_layer c layer \<longleftrightarrow> ced_split c > 0 \<and> int layer \<ge> ced_split c"

datatype reuse_mode = ReuseFull | ReuseReindex | ReuseReuse

definition reuse_half_start :: "config \<Rightarrow> nat \<Rightarrow> nat" where
  "reuse_half_start c layer =
     (if ced c \<and> int layer \<ge> ced_split c \<and> ced_split c > 0 then nat (ced_split c) else 0)"

definition reuse_mode_at :: "config \<Rightarrow> nat \<Rightarrow> reuse_mode" where
  "reuse_mode_at c layer =
     (let pattern = reuse_pattern c in
      if pattern = [] then ReuseFull
      else
        (let ch = pattern ! ((layer - reuse_half_start c layer) mod length pattern) in
         if ch = CHR ''R'' \<or> ch = CHR ''r'' then ReuseReindex
         else if ch = CHR ''U'' \<or> ch = CHR ''u'' then ReuseReuse
         else ReuseFull))"

definition owns_compressed :: "config \<Rightarrow> nat \<Rightarrow> bool" where
  "owns_compressed c layer \<longleftrightarrow> reuse_mode_at c layer = ReuseFull"

definition owns_indexer :: "config \<Rightarrow> nat \<Rightarrow> bool" where
  "owns_indexer c layer \<longleftrightarrow> sparse_top_k c > 0 \<and> reuse_mode_at c layer \<noteq> ReuseReuse"

text \<open>The search downwards from \<open>index\<close> (exclusive) to the start of the half (inclusive).\<close>

fun producer_loop :: "config \<Rightarrow> nat \<Rightarrow> nat \<Rightarrow> nat option" where
  "producer_loop c start 0 = None"
| "producer_loop c start (Suc i) =
     (if i < start then None
      else if reuse_mode_at c i = ReuseFull then Some i
      else producer_loop c start i)"

definition reuse_producer :: "config \<Rightarrow> nat \<Rightarrow> nat" where
  "reuse_producer c layer =
     (if reuse_mode_at c layer = ReuseFull then layer
      else (case producer_loop c (reuse_half_start c layer) layer of Some i \<Rightarrow> i | None \<Rightarrow> layer))"

definition indexer_candidate_budget :: "config \<Rightarrow> int" where
  "indexer_candidate_budget c =
     (if indexer_candidates c > 0 then indexer_candidates c
      else (let budget = 8 * sparse_top_k c in if budget < 64 then 64 else budget))"

definition indexer_defaults :: "config \<Rightarrow> int \<times> int" where
  "indexer_defaults c =
     (if indexer_dim c \<le> 0 then 64 else indexer_dim c, if indexer_heads c \<le> 0 then 1 else indexer_heads c)"

section \<open>Validate\<close>

definition valid_window_char :: "char \<Rightarrow> bool" where
  "valid_window_char ch \<longleftrightarrow> ch \<in> set ''LSls''"

definition valid_reuse_char :: "char \<Rightarrow> bool" where
  "valid_reuse_char ch \<longleftrightarrow> ch \<in> set ''FRUfru''"

definition validate_mla :: "config \<Rightarrow> (unit, unit) outcome" where
  "validate_mla c =
     (if mla_enabled c then
        panic_if (compression c > 1)
       (panic_if (ced c)
       (panic_if (sparse_top_k c > 0)
       (panic_if (reuse_pattern c \<noteq> [])
       (panic_if (query_compression_dim c > 0 \<or> kv_latent_dim c > 0)
       (panic_if (head_wise_muon c)
       (obind (mla_content_dim c) (\<lambda>d. panic_if (d \<le> 0) (Inr ()))))))))
      else Inr ())"

definition validate_reuse :: "config \<Rightarrow> (unit, unit) outcome" where
  "validate_reuse c =
     (if reuse_pattern c \<noteq> [] then
        panic_if (compression c \<le> 1)
       (panic_if (\<not> list_all valid_reuse_char (reuse_pattern c))
       (panic_if (reuse_mode_at c 0 \<noteq> ReuseFull) (Inr ())))
      else Inr ())"

definition validate_ced :: "config \<Rightarrow> (unit, unit) outcome" where
  "validate_ced c =
     (if ced c then
        panic_if (compression c \<le> 1)
       (panic_if (swa_window_size c \<le> 0)
       (panic_if (num_layer c < 2)
       (panic_if (reuse_pattern c \<noteq> [] \<and> reuse_mode_at c (nat (ced_split c)) \<noteq> ReuseFull) (Inr ()))))
      else Inr ())"

definition validate_moe :: "config \<Rightarrow> (unit, unit) outcome" where
  "validate_moe c =
     panic_if (num_experts c < 0)
       (if num_experts c > 0 then
          panic_if (num_experts_per_token c < 0 \<or> num_experts_per_token c > num_experts c)
         (panic_if (expert_hidden_dim c < 0)
         (panic_if (shared_expert_hidden_dim c < 0)
         (panic_if (moe_scale c < 0)
         (panic_if (router_bias_update c < 0) (Inr ())))))
        else
          panic_if (num_experts_per_token c \<noteq> 0 \<or> expert_hidden_dim c \<noteq> 0 \<or> shared_expert_hidden_dim c \<noteq> 0) (Inr ()))"

definition validate :: "config \<Rightarrow> (unit, unit) outcome" where
  "validate c =
     obind (go_mod (embed_dim c) (num_head c)) (\<lambda>r.
     panic_if (r \<noteq> 0)
    (panic_if (num_kv_head c > num_head c)
    (obind (go_mod (num_head c) (num_kv_head c)) (\<lambda>r.
     panic_if (r \<noteq> 0)
    (panic_if (\<not> list_all valid_window_char (window_pattern c))
    (panic_if (sparse_top_k c > 0 \<and> compression c \<le> 1)
    (panic_if (swa_window c < 0)
    (panic_if (query_compression_dim c < 0)
    (panic_if (kv_latent_dim c < 0)
    (panic_if (mla_latent c < 0)
    (panic_if (mla_rotary_dims c < 0)
    (obind (validate_mla c) (\<lambda>_.
     obind (validate_reuse c) (\<lambda>_.
     obind (validate_ced c) (\<lambda>_. validate_moe c)))))))))))))))"

section \<open>Deriving configurations\<close>

definition config_for_depth_ratio ::
  "int \<Rightarrow> int \<Rightarrow> int \<Rightarrow> int \<Rightarrow> int \<Rightarrow> string \<Rightarrow> int \<Rightarrow> (unit, config) outcome" where
  "config_for_depth_ratio depth vocab aspect_ratio hdim seq_len pattern kv_head_ratio =
     panic_if (kv_head_ratio < 1)
       (let base = depth * aspect_ratio in
        obind (go_div (base + hdim - 1) hdim) (\<lambda>q.
          (let model_dimension = q * hdim in
           obind (go_div model_dimension hdim) (\<lambda>num_heads.
             panic_if (num_heads smod kv_head_ratio \<noteq> 0)
               (let rotary = (if hdim < 64 then hdim else 64);
                    rotary = (if rotary smod 2 \<noteq> 0 then rotary - 1 else rotary);
                    c = zero_config\<lparr>sequence_len := seq_len, vocab_size := vocab, num_layer := depth,
                          num_head := num_heads, num_kv_head := num_heads sdiv kv_head_ratio,
                          embed_dim := model_dimension, window_pattern := pattern, rotary_dims := rotary\<rparr>
                in obind (validate c) (\<lambda>_. Inr c))))))"

definition config_for_depth :: "int \<Rightarrow> int \<Rightarrow> int \<Rightarrow> int \<Rightarrow> int \<Rightarrow> string \<Rightarrow> (unit, config) outcome" where
  "config_for_depth depth vocab aspect_ratio hdim seq_len pattern =
     config_for_depth_ratio depth vocab aspect_ratio hdim seq_len pattern 1"

definition moe_experts_for_depth :: "int \<Rightarrow> int" where
  "moe_experts_for_depth depth = (let experts = 2 * depth in if experts < 8 then 8 else experts)"

definition padded_vocab :: "config \<Rightarrow> int" where
  "padded_vocab c = ((vocab_size c + 64 - 1) sdiv 64) * 64"

text \<open>
  The window of each layer. The code's \<open>-((-config.SequenceLen / 4) / 128) * 128\<close> parses as below. A
  pattern character that is neither L nor S leaves Go's zero value.
\<close>

definition short_window :: "config \<Rightarrow> int" where
  "short_window c = - ((- sequence_len c sdiv 4) sdiv 128) * 128"

definition window_size_at :: "config \<Rightarrow> nat \<Rightarrow> int \<times> int" where
  "window_size_at c layer =
     (let ch = window_pattern c ! (layer mod length (window_pattern c)) in
      if ch = CHR ''L'' \<or> ch = CHR ''l'' then (sequence_len c, 0)
      else if ch = CHR ''S'' \<or> ch = CHR ''s'' then (short_window c, 0)
      else (0, 0))"

definition window_sizes :: "config \<Rightarrow> (unit, (int \<times> int) list) outcome" where
  "window_sizes c =
     panic_if (num_layer c < 0)
       (panic_if (num_layer c > 0 \<and> window_pattern c = [])
         (let sizes = map (window_size_at c) [0..<nat (num_layer c)] in
          panic_if (num_layer c - 1 < 0)
            (Inr (sizes[nat (num_layer c - 1) := (sequence_len c, 0)]))))"

definition moe_router_bias_update :: "config \<Rightarrow> rat" where
  "moe_router_bias_update c = (if router_bias_update c \<le> 0 then 1 / 1000 else router_bias_update c)"

definition moe_balance_loss_weight :: "config \<Rightarrow> rat" where
  "moe_balance_loss_weight c =
     (if moe_balance_weight c < 0 then 0
      else if moe_balance_weight c = 0 then 1 / 10000
      else moe_balance_weight c)"

definition indexer_weight :: "config \<Rightarrow> rat" where
  "indexer_weight c = (if indexer_loss_weight c \<le> 0 then 1 else indexer_loss_weight c)"

section \<open>Presets\<close>

datatype preset = PresetFlash | PresetLatent | PresetDense

definition uses_sinkhorn :: "preset \<Rightarrow> bool" where
  "uses_sinkhorn p \<longleftrightarrow> p \<noteq> PresetDense"

definition default_kv_head_count :: "int \<Rightarrow> int" where
  "default_kv_head_count n = (if n smod 2 = 0 then n sdiv 2 else n)"

definition apply_default_grouped_query :: "config \<Rightarrow> config" where
  "apply_default_grouped_query c =
     (if num_kv_head c \<noteq> num_head c \<or> num_head c = 0 then c
      else (let kv = default_kv_head_count (num_head c) in
            if kv < num_kv_head c then c\<lparr>num_kv_head := kv\<rparr> else c))"

definition enable_moe :: "config \<Rightarrow> config" where
  "enable_moe c =
     (let c = (if num_experts c \<le> 0 then c\<lparr>num_experts := moe_experts_for_depth (num_layer c)\<rparr> else c);
          c = (if num_experts_per_token c \<le> 0 then c\<lparr>num_experts_per_token := 2\<rparr> else c)
      in apply_moe_defaults c)"

definition apply_flash_preset :: "config \<Rightarrow> config" where
  "apply_flash_preset c =
     (let c = (apply_default_grouped_query c)\<lparr>head_wise_muon := True\<rparr>;
          c = (if compression c \<le> 1 then c\<lparr>compression_ratio := 4\<rparr> else c);
          c = (if sparse_top_k c \<le> 0 then c\<lparr>sparse_top_k := 8\<rparr> else c);
          c = (if indexer_pool c \<le> 1 then c\<lparr>indexer_pool := 8\<rparr> else c);
          c = (if reuse_pattern c = [] then c\<lparr>reuse_pattern := ''FRU''\<rparr> else c);
          c = (if swa_window c \<le> 0 then c\<lparr>swa_window := 128\<rparr> else c);
          c = (if num_layer c \<ge> 2 then c\<lparr>ced := True\<rparr> else c)
      in enable_moe c)"

definition apply_latent_preset :: "config \<Rightarrow> config" where
  "apply_latent_preset c =
     (let c = (apply_default_grouped_query c)\<lparr>head_wise_muon := False\<rparr>;
          c = (if mla_latent c \<le> 0 then c\<lparr>mla_latent := embed_dim c sdiv 2\<rparr> else c)
      in enable_moe c)"

definition apply_preset :: "preset \<Rightarrow> config \<Rightarrow> config" where
  "apply_preset p c =
     (case p of PresetDense \<Rightarrow> c | PresetLatent \<Rightarrow> apply_latent_preset c | PresetFlash \<Rightarrow> apply_flash_preset c)"

definition config_for_preset ::
  "preset \<Rightarrow> int \<Rightarrow> int \<Rightarrow> int \<Rightarrow> int \<Rightarrow> int \<Rightarrow> string \<Rightarrow> (unit, config) outcome" where
  "config_for_preset p depth vocab aspect_ratio hdim seq_len pattern =
     obind (config_for_depth depth vocab aspect_ratio hdim seq_len pattern) (\<lambda>c.
       let c = apply_preset p c in obind (validate c) (\<lambda>_. Inr c))"

section \<open>Parameter counts\<close>

definition mla_params_for_config :: "config \<Rightarrow> (unit, int) outcome" where
  "mla_params_for_config c =
     obind (head_dim c) (\<lambda>d. obind (mla_rotary_dimension c) (\<lambda>rope.
       let content = d - rope; latent = mla_latent c; e = embed_dim c; q = num_head c; kv = num_kv_head c in
       Inr (latent * e + q * content * latent + q * rope * e + latent * e + kv * content * latent +
            kv * d * latent + kv * rope * e)))"

definition moe_ffn_params_for_config :: "config \<Rightarrow> int \<times> int" where
  "moe_ffn_params_for_config c =
     (let e = embed_dim c in
      if \<not> moe_enabled c then (8 * e * e, 8 * e * e)
      else
        (let shared = 3 * e * moe_shared_hidden c;
             per_expert = 3 * e * moe_expert_hidden c;
             router = e * num_experts c
         in (shared + num_experts c * per_expert + router, shared + moe_active_experts c * per_expert + router)))"

definition per_block_params :: "config \<Rightarrow> int \<Rightarrow> (unit, int) outcome" where
  "per_block_params c ffn =
     (let e = embed_dim c;
          query = (if query_rank c > 0 then 2 * e * query_rank c else e * e);
          kv = (if kv_rank c > 0 then 3 * e * kv_rank c else 2 * e * e)
      in if mla_enabled c then obind (mla_params_for_config c) (\<lambda>mla. Inr (mla + e * e + ffn))
         else Inr (query + kv + e * e + ffn))"

definition scaling_params_for_config :: "config \<Rightarrow> (unit, int) outcome" where
  "scaling_params_for_config c =
     (let c = apply_moe_defaults c in
      obind (validate c) (\<lambda>_.
        obind (per_block_params c (fst (moe_ffn_params_for_config c))) (\<lambda>per_block.
          let value_embeddings = (num_layer c + 1) sdiv 2;
              matrices = num_layer c * per_block + value_embeddings * (12 * num_kv_head c)
          in Inr (matrices + embed_dim c * padded_vocab c))))"

section \<open>Lemmas\<close>

lemma go_mod_Inr: "go_mod a b = Inr r \<longleftrightarrow> b \<noteq> 0 \<and> r = a smod b"
  by (auto simp: go_mod_def guard_eq_Inr)

lemma go_div_Inr: "go_div a b = Inr r \<longleftrightarrow> b \<noteq> 0 \<and> r = a sdiv b"
  by (auto simp: go_div_def guard_eq_Inr)

lemma smod_zero_iff: "a smod b = 0 \<longleftrightarrow> b dvd (a :: int)"
  by (auto simp: signed_modulo_int_def mod_eq_0_iff_dvd sgn_eq_0_iff)

lemma sdiv_nonneg: "0 \<le> a \<Longrightarrow> 0 \<le> b \<Longrightarrow> a sdiv b = a div (b :: int)"
  by (cases "a = 0"; cases "b = 0") (simp_all add: signed_divide_int_def sgn_if)

lemma smod_nonneg: "0 \<le> a \<Longrightarrow> a smod 2 = a mod (2 :: int)"
  by (cases "a = 0") (simp_all add: signed_modulo_int_def sgn_if)

text \<open>What a validated configuration satisfies.\<close>

lemma validate_reuse_full:
  assumes "validate c = Inr ()" "reuse_pattern c \<noteq> []"
  shows "reuse_mode_at c 0 = ReuseFull" "ced c \<Longrightarrow> reuse_mode_at c (nat (ced_split c)) = ReuseFull"
  using assms by (auto simp: validate_def outcome_Inr validate_reuse_def validate_ced_def)

lemma validate_split:
  assumes "validate c = Inr ()" "ced c"
  shows "1 \<le> ced_split c"
proof -
  have "2 \<le> num_layer c"
    using assms by (auto simp: validate_def outcome_Inr validate_ced_def)
  then show ?thesis
    using assms(2) by (simp add: ced_split_def sdiv_nonneg)
qed

lemma half_start_le: "reuse_half_start c layer \<le> layer"
  by (auto simp: reuse_half_start_def)

lemma half_start_between:
  "reuse_half_start c layer \<le> i \<Longrightarrow> i \<le> layer \<Longrightarrow> reuse_half_start c i = reuse_half_start c layer"
  by (auto simp: reuse_half_start_def split: if_splits)

lemma half_start_full:
  assumes "validate c = Inr ()"
  shows "reuse_mode_at c (reuse_half_start c layer) = ReuseFull"
proof (cases "reuse_pattern c = []")
  case False
  then show ?thesis
    using validate_reuse_full [OF assms False] by (auto simp: reuse_half_start_def)
qed (simp add: reuse_mode_at_def)

lemma producer_loop_Some:
  assumes "start < n" "reuse_mode_at c start = ReuseFull"
  shows "\<exists>i. producer_loop c start n = Some i \<and> start \<le> i \<and> i < n \<and> reuse_mode_at c i = ReuseFull \<and>
    (\<forall>j. i < j \<and> j < n \<longrightarrow> reuse_mode_at c j \<noteq> ReuseFull)"
  using assms(1)
proof (induction n)
  case (Suc n)
  show ?case
  proof (cases "reuse_mode_at c n = ReuseFull")
    case True
    with Suc.prems show ?thesis by auto
  next
    case False
    with assms(2) Suc.prems have "start < n" by (cases "start = n") auto
    from Suc.IH [OF this] obtain i where "producer_loop c start n = Some i" "start \<le> i" "i < n"
      "reuse_mode_at c i = ReuseFull" "\<forall>j. i < j \<and> j < n \<longrightarrow> reuse_mode_at c j \<noteq> ReuseFull"
      by blast
    with False Suc.prems show ?thesis
      by (intro exI [of _ i]) (auto simp: less_Suc_eq)
  qed
qed simp

lemma encoder_half_start:
  "1 \<le> ced_split c \<or> \<not> ced c \<Longrightarrow> reuse_half_start c i = reuse_half_start c j \<Longrightarrow> is_encoder_layer c i = is_encoder_layer c j"
  by (auto simp: reuse_half_start_def is_encoder_layer_def ced_split_def split: if_splits)

lemma short_window_eq: "0 \<le> sequence_len c \<Longrightarrow> short_window c = 128 * (sequence_len c div 512)"
  by (simp add: short_window_def sdiv_nonneg div_mult2_eq' zdiv_zmult2_eq [symmetric] flip: div_mult2_eq)

section \<open>Configurations built from the depth\<close>

definition model_heads :: "int \<Rightarrow> int \<Rightarrow> int \<Rightarrow> int" where
  "model_heads depth aspect_ratio hdim = (depth * aspect_ratio + hdim - 1) div hdim"

lemma model_heads_bounds:
  assumes "1 \<le> depth" "1 \<le> aspect_ratio" "1 \<le> hdim"
  shows "1 \<le> model_heads depth aspect_ratio hdim"
    "depth * aspect_ratio \<le> model_heads depth aspect_ratio hdim * hdim"
    "model_heads depth aspect_ratio hdim * hdim < depth * aspect_ratio + hdim"
proof -
  let ?b = "depth * aspect_ratio"
  have b: "1 \<le> ?b"
    using assms(1,2) by (simp add: int_one_le_iff_zero_less)
  have "(?b + hdim - 1) div hdim * hdim + (?b + hdim - 1) mod hdim = ?b + hdim - 1"
    by (rule div_mult_mod_eq)
  moreover have "0 \<le> (?b + hdim - 1) mod hdim" "(?b + hdim - 1) mod hdim < hdim"
    using assms(3) by simp_all
  ultimately show lower: "?b \<le> model_heads depth aspect_ratio hdim * hdim"
    and "model_heads depth aspect_ratio hdim * hdim < ?b + hdim"
    unfolding model_heads_def by linarith+
  from lower b assms(3) show "1 \<le> model_heads depth aspect_ratio hdim"
    by (smt (verit) mult_nonpos_nonneg)
qed

definition depth_config :: "int \<Rightarrow> int \<Rightarrow> int \<Rightarrow> int \<Rightarrow> int \<Rightarrow> string \<Rightarrow> config" where
  "depth_config depth vocab heads hdim seq_len pattern =
     zero_config\<lparr>sequence_len := seq_len, vocab_size := vocab, num_layer := depth, num_head := heads,
       num_kv_head := heads, embed_dim := heads * hdim, window_pattern := pattern,
       rotary_dims := (let rotary = (if hdim < 64 then hdim else 64) in if rotary smod 2 \<noteq> 0 then rotary - 1 else rotary)\<rparr>"

lemma smod_multiple: "(a * b) smod b = (0 :: int)" "(a * b) smod a = (0 :: int)"
  by (simp_all add: smod_zero_iff)

lemma sdiv_multiple:
  "0 \<le> a \<Longrightarrow> 1 \<le> b \<Longrightarrow> (a * b) sdiv b = (a :: int)"
  "1 \<le> a \<Longrightarrow> 0 \<le> b \<Longrightarrow> (a * b) sdiv a = (b :: int)"
  by (simp_all add: sdiv_nonneg)

lemma config_for_depth_eq:
  assumes "1 \<le> depth" "1 \<le> aspect_ratio" "1 \<le> hdim" "list_all valid_window_char pattern"
  shows "config_for_depth depth vocab aspect_ratio hdim seq_len pattern =
    Inr (depth_config depth vocab (model_heads depth aspect_ratio hdim) hdim seq_len pattern)"
proof -
  let ?h = "model_heads depth aspect_ratio hdim"
  note bounds = model_heads_bounds [OF assms(1-3)]
  have "0 \<le> depth * aspect_ratio"
    using assms(1,2) by simp
  then have q: "(depth * aspect_ratio + hdim - 1) sdiv hdim = ?h"
    using assms(3) by (simp add: sdiv_nonneg model_heads_def)
  have one: "a smod 1 = 0" "a sdiv 1 = a" for a :: int
    by (simp_all add: smod_zero_iff)
  have valid: "validate (zero_config\<lparr>sequence_len := seq_len, vocab_size := vocab, num_layer := depth, num_head := ?h,
       num_kv_head := ?h, embed_dim := ?h * hdim, window_pattern := pattern, rotary_dims := r\<rparr>) = Inr ()" for r
    using assms(4) bounds(1)
    by (simp add: validate_def go_mod_def zero_config_def smod_multiple validate_mla_def mla_enabled_def
        validate_reuse_def validate_ced_def validate_moe_def compression_def smod_zero_iff)
  show ?thesis
    using assms(3) q bounds(1)
    by (simp add: config_for_depth_def config_for_depth_ratio_def Let_def go_div_def sdiv_multiple one depth_config_def valid)
qed

lemma kv_heads:
  assumes "1 \<le> h"
  shows "1 \<le> default_kv_head_count h" "default_kv_head_count h \<le> h" "default_kv_head_count h dvd h"
  using assms by (auto simp: default_kv_head_count_def smod_nonneg sdiv_nonneg)

lemma grouped_query_eq:
  "1 \<le> num_head c \<Longrightarrow> num_kv_head c = num_head c \<Longrightarrow>
    apply_default_grouped_query c = c\<lparr>num_kv_head := default_kv_head_count (num_head c)\<rparr>"
  using kv_heads(2) [of "num_head c"] by (simp add: apply_default_grouped_query_def Let_def)

lemma reuse_mode_at_start:
  "reuse_pattern c = CHR ''F'' # p \<Longrightarrow> reuse_half_start c layer = layer \<Longrightarrow> reuse_mode_at c layer = ReuseFull"
  by (simp add: reuse_mode_at_def)

lemma experts_at_least: "8 \<le> moe_experts_for_depth depth"
  by (simp add: moe_experts_for_depth_def Let_def)

lemma head_dim_multiple: "embed_dim c = num_head c * d \<Longrightarrow> 1 \<le> num_head c \<Longrightarrow> 0 \<le> d \<Longrightarrow> head_dim c = Inr d"
  by (simp add: head_dim_def go_div_def sdiv_multiple)

lemma enable_moe_eq:
  assumes "num_experts c = 0" "num_experts_per_token c = 0" "expert_hidden_dim c = 0" "shared_expert_hidden_dim c = 0" "1 \<le> embed_dim c"
  shows "enable_moe c = c\<lparr>num_experts := moe_experts_for_depth (num_layer c), num_experts_per_token := 2,
    expert_hidden_dim := embed_dim c, shared_expert_hidden_dim := embed_dim c\<rparr>"
  using assms experts_at_least [of "num_layer c"]
  by (simp add: enable_moe_def apply_moe_defaults_def moe_enabled_def Let_def)

text \<open>A configuration none of whose options is set.\<close>

definition plain_config :: "config \<Rightarrow> bool" where
  "plain_config c \<longleftrightarrow> compression_ratio c = 0 \<and> sparse_top_k c = 0 \<and> indexer_pool c = 0 \<and> reuse_pattern c = [] \<and>
     swa_window c = 0 \<and> \<not> ced c \<and> query_compression_dim c = 0 \<and> kv_latent_dim c = 0 \<and> mla_latent c = 0 \<and>
     mla_rotary_dims c = 0 \<and> num_experts c = 0 \<and> num_experts_per_token c = 0 \<and> expert_hidden_dim c = 0 \<and>
     shared_expert_hidden_dim c = 0 \<and> moe_scale c = 0 \<and> router_bias_update c = 0"

definition base_config :: "int \<Rightarrow> config \<Rightarrow> bool" where
  "base_config hdim c \<longleftrightarrow> plain_config c \<and> 1 \<le> num_layer c \<and> 1 \<le> num_head c \<and> 1 \<le> hdim \<and>
     num_kv_head c = num_head c \<and> embed_dim c = num_head c * hdim \<and> list_all valid_window_char (window_pattern c)"

lemma base_size: "base_config hdim c \<Longrightarrow> 1 \<le> embed_dim c"
  by (simp add: base_config_def int_one_le_iff_zero_less)

lemma flash_eq:
  assumes "base_config hdim c"
  shows "apply_flash_preset c = c\<lparr>num_kv_head := default_kv_head_count (num_head c), head_wise_muon := True,
      compression_ratio := 4, sparse_top_k := 8, indexer_pool := 8, reuse_pattern := ''FRU'', swa_window := 128,
      ced := (num_layer c \<ge> 2), num_experts := moe_experts_for_depth (num_layer c), num_experts_per_token := 2,
      expert_hidden_dim := embed_dim c, shared_expert_hidden_dim := embed_dim c\<rparr>"
proof -
  have "apply_default_grouped_query c = c\<lparr>num_kv_head := default_kv_head_count (num_head c)\<rparr>"
    using assms by (intro grouped_query_eq) (simp_all add: base_config_def)
  moreover have "ced c = False"
    using assms by (simp add: base_config_def plain_config_def)
  then have "c\<lparr>ced := False\<rparr> = c" by simp
  ultimately show ?thesis
    using assms base_size [OF assms]
    by (simp add: apply_flash_preset_def Let_def compression_def base_config_def plain_config_def enable_moe_eq)
qed

lemma latent_eq:
  assumes "base_config hdim c"
  shows "apply_latent_preset c = c\<lparr>num_kv_head := default_kv_head_count (num_head c), head_wise_muon := False,
      mla_latent := embed_dim c div 2, num_experts := moe_experts_for_depth (num_layer c), num_experts_per_token := 2,
      expert_hidden_dim := embed_dim c, shared_expert_hidden_dim := embed_dim c\<rparr>"
proof -
  have "apply_default_grouped_query c = c\<lparr>num_kv_head := default_kv_head_count (num_head c)\<rparr>"
    using assms by (intro grouped_query_eq) (simp_all add: base_config_def)
  then show ?thesis
    using assms base_size [OF assms]
    by (simp add: apply_latent_preset_def Let_def base_config_def plain_config_def enable_moe_eq sdiv_nonneg)
qed

lemma base_basics:
  assumes "base_config hdim c" "1 \<le> kv" "kv \<le> num_head c" "kv dvd num_head c"
    and d: "num_head d = num_head c" "embed_dim d = embed_dim c" "num_kv_head d = kv" "window_pattern d = window_pattern c"
      "sparse_top_k d > 0 \<longrightarrow> compression d > 1" "0 \<le> swa_window d" "query_compression_dim d = 0" "kv_latent_dim d = 0"
      "0 \<le> mla_latent d" "mla_rotary_dims d = 0"
    and "validate_mla d = Inr ()" "validate_reuse d = Inr ()" "validate_ced d = Inr ()" "validate_moe d = Inr ()"
  shows "validate d = Inr ()"
proof -
  have "list_all valid_window_char (window_pattern d)"
    using assms(1) d by (simp add: base_config_def)
  moreover have "(embed_dim d) smod (num_head d) = 0" "num_head d smod kv = 0" "num_head d \<noteq> 0"
    using assms(1,4) d by (auto simp: base_config_def smod_zero_iff)
  ultimately show ?thesis
    using assms(2,3) d assms(11-) by (auto simp: validate_def go_mod_def outcome_Inr panic_if_def)
qed

lemma moe_valid:
  assumes "num_experts d = moe_experts_for_depth n" "num_experts_per_token d = 2" "expert_hidden_dim d = e"
    "shared_expert_hidden_dim d = e" "1 \<le> e" "moe_scale d = 0" "router_bias_update d = 0"
  shows "validate_moe d = Inr ()"
  using assms experts_at_least [of n] by (simp add: validate_moe_def)

lemma flash_valid:
  assumes base: "base_config hdim c"
  shows "validate (apply_flash_preset c) = Inr ()"
proof -
  define d where "d = apply_flash_preset c"
  note d = d_def [unfolded flash_eq [OF base]]
  have base': "1 \<le> num_layer c" "1 \<le> num_head c" "query_compression_dim c = 0" "kv_latent_dim c = 0"
    "mla_latent c = 0" "mla_rotary_dims c = 0" "moe_scale c = 0" "router_bias_update c = 0"
    using base by (simp_all add: base_config_def plain_config_def)
  have fields: "reuse_pattern d = ''FRU''" "compression_ratio d = 4" "swa_window d = 128" "ced d \<longleftrightarrow> num_layer c \<ge> 2"
    "num_layer d = num_layer c" "mla_latent d = 0"
    using base' by (simp_all add: d)
  have split: "ced_split d = (if num_layer c \<ge> 2 then num_layer c div 2 else 0)"
    using base' by (simp add: ced_split_def fields sdiv_nonneg)
  have "reuse_pattern d = CHR ''F'' # ''RU''" "reuse_half_start d 0 = 0" "reuse_half_start d (nat (ced_split d)) = nat (ced_split d)"
    using split base' by (auto simp: reuse_half_start_def fields)
  then have modes: "reuse_mode_at d 0 = ReuseFull" "reuse_mode_at d (nat (ced_split d)) = ReuseFull"
    by (simp_all add: reuse_mode_at_start)
  have "validate_reuse d = Inr ()"
    using modes by (simp add: validate_reuse_def compression_def fields valid_reuse_char_def)
  moreover have "validate_ced d = Inr ()"
    using modes by (auto simp: validate_ced_def compression_def swa_window_size_def fields)
  moreover have "validate_mla d = Inr ()"
    by (simp add: validate_mla_def mla_enabled_def fields)
  moreover have "validate_moe d = Inr ()"
    using base' base_size [OF base] by (intro moe_valid [of d "num_layer c" "embed_dim c"]) (simp_all add: d)
  ultimately have "validate d = Inr ()"
    using base' kv_heads [of "num_head c"]
    by (intro base_basics [OF base, of "default_kv_head_count (num_head c)"]) (simp_all add: d compression_def)
  then show ?thesis
    by (simp add: d_def)
qed

lemma latent_valid:
  assumes base: "base_config hdim c"
  shows "validate (apply_latent_preset c) = Inr ()"
proof -
  define d where "d = apply_latent_preset c"
  note d = d_def [unfolded latent_eq [OF base]]
  have base': "1 \<le> num_head c" "1 \<le> hdim" "embed_dim c = num_head c * hdim" "query_compression_dim c = 0" "kv_latent_dim c = 0"
    "mla_latent c = 0" "mla_rotary_dims c = 0" "moe_scale c = 0" "router_bias_update c = 0" "compression_ratio c = 0"
    "sparse_top_k c = 0" "reuse_pattern c = []" "\<not> ced c" "swa_window c = 0"
    using base by (simp_all add: base_config_def plain_config_def)
  have hd: "head_dim d = Inr hdim"
    using base' by (intro head_dim_multiple) (simp_all add: d)
  obtain r where r: "mla_rotary_dimension d = Inr r" "r < hdim"
  proof -
    define w where "w = (if hdim div 2 > 64 then 64 else hdim div 2)"
    have "w < hdim"
      using base'(2) unfolding w_def by (auto split: if_splits)
    then have "(if w smod 2 \<noteq> 0 then w - 1 else w) < hdim" by simp
    moreover have "mla_rotary_dimension d = Inr (if w smod 2 \<noteq> 0 then w - 1 else w)"
      using hd base' by (simp add: mla_rotary_dimension_def Let_def w_def sdiv_nonneg d)
    ultimately show ?thesis using that by blast
  qed
  then have "validate_mla d = Inr ()"
    using base' hd by (simp add: validate_mla_def mla_content_dim_def compression_def d)
  moreover have "validate_reuse d = Inr ()" "validate_ced d = Inr ()"
    using base' by (simp_all add: validate_reuse_def validate_ced_def d)
  moreover have "validate_moe d = Inr ()"
    using base' base_size [OF base] by (intro moe_valid [of d "num_layer c" "embed_dim c"]) (simp_all add: d)
  ultimately have "validate d = Inr ()"
    using base' base_size [OF base] kv_heads [of "num_head c"]
    by (intro base_basics [OF base, of "default_kv_head_count (num_head c)"]) (simp_all add: d compression_def)
  then show ?thesis
    by (simp add: d_def)
qed

lemma depth_config_base:
  assumes "1 \<le> depth" "1 \<le> heads" "1 \<le> hdim" "list_all valid_window_char pattern"
  shows "base_config hdim (depth_config depth vocab heads hdim seq_len pattern)"
  using assms by (simp add: base_config_def plain_config_def depth_config_def zero_config_def)

lemma base_valid: "base_config hdim c \<Longrightarrow> validate c = Inr ()"
  by (rule base_basics [of hdim c "num_head c" c])
    (simp_all add: base_config_def plain_config_def validate_mla_def mla_enabled_def validate_reuse_def validate_ced_def validate_moe_def)

lemma preset_keeps:
  assumes "base_config hdim c"
  shows "num_layer (apply_preset p c) = num_layer c" "num_head (apply_preset p c) = num_head c"
    "embed_dim (apply_preset p c) = embed_dim c" "vocab_size (apply_preset p c) = vocab_size c"
    "sequence_len (apply_preset p c) = sequence_len c"
  by (cases p; simp add: apply_preset_def flash_eq [OF assms] latent_eq [OF assms])+

section \<open>Properties\<close>

text \<open>
  The single dial is safe: for every positive depth, aspect ratio and head dimension and every
  pattern of L and S, each preset gives a configuration (no panic) that passes Validate, has the head
  dimension asked for, and the least width that is a multiple of it and at least depth times ratio.
\<close>

theorem config_for_preset_valid:
  assumes "1 \<le> depth" "1 \<le> aspect_ratio" "1 \<le> hdim" "list_all valid_window_char pattern"
  shows "\<exists>c. config_for_preset p depth vocab aspect_ratio hdim seq_len pattern = Inr c \<and> validate c = Inr () \<and>
    head_dim c = Inr hdim \<and> num_layer c = depth \<and>
    embed_dim c = num_head c * hdim \<and> depth * aspect_ratio \<le> embed_dim c \<and> embed_dim c < depth * aspect_ratio + hdim"
proof -
  let ?h = "model_heads depth aspect_ratio hdim"
  let ?c = "depth_config depth vocab ?h hdim seq_len pattern"
  note bounds = model_heads_bounds [OF assms(1-3)]
  have base: "base_config hdim ?c"
    using assms bounds(1) by (intro depth_config_base)
  have valid: "validate (apply_preset p ?c) = Inr ()"
    using base_valid [OF base] flash_valid [OF base] latent_valid [OF base] by (cases p) (simp_all add: apply_preset_def)
  have fields: "num_layer ?c = depth" "num_head ?c = ?h" "embed_dim ?c = ?h * hdim"
    by (simp_all add: depth_config_def)
  note kept = preset_keeps [OF base, of p, unfolded fields]
  have "head_dim (apply_preset p ?c) = Inr hdim"
    using kept bounds(1) assms(3) by (intro head_dim_multiple) simp_all
  moreover have "config_for_preset p depth vocab aspect_ratio hdim seq_len pattern = Inr (apply_preset p ?c)"
    using valid by (simp add: config_for_preset_def config_for_depth_eq [OF assms] Let_def)
  ultimately show ?thesis
    using valid kept bounds(2,3) by (intro exI [of _ "apply_preset p ?c"]) simp
qed

theorem config_for_preset_valid_witness:
  "\<exists>c. config_for_preset PresetFlash 20 131072 96 64 2048 ''L'' = Inr c \<and> validate c = Inr () \<and> head_dim c = Inr 64"
  using config_for_preset_valid [of 20 96 64 "''L''" PresetFlash 131072 2048] by (auto simp: valid_window_char_def)

text \<open>
  Under a validated configuration every layer finds a producer of compressed keys and values: the
  nearest layer at or before it that owns them, and never one from the other half of the
  encoder-decoder split.
\<close>

theorem reuse_producer_nearest:
  assumes "validate c = Inr ()"
  shows "reuse_producer c layer \<le> layer \<and> owns_compressed c (reuse_producer c layer) \<and>
    is_encoder_layer c (reuse_producer c layer) = is_encoder_layer c layer \<and>
    (\<forall>i. reuse_producer c layer < i \<and> i \<le> layer \<longrightarrow> \<not> owns_compressed c i)"
proof (cases "reuse_mode_at c layer = ReuseFull")
  case True
  then show ?thesis by (auto simp: reuse_producer_def owns_compressed_def)
next
  case False
  let ?start = "reuse_half_start c layer"
  have full: "reuse_mode_at c ?start = ReuseFull"
    by (rule half_start_full [OF assms])
  with False have "?start < layer"
    using half_start_le [of c layer] by (cases "?start = layer") auto
  from producer_loop_Some [OF this full] obtain i where i: "producer_loop c ?start layer = Some i" "?start \<le> i" "i < layer"
    "reuse_mode_at c i = ReuseFull" "\<forall>j. i < j \<and> j < layer \<longrightarrow> reuse_mode_at c j \<noteq> ReuseFull"
    by blast
  have "is_encoder_layer c i = is_encoder_layer c layer"
    using validate_split [OF assms] half_start_between [OF i(2)] i(3) by (intro encoder_half_start) auto
  with i False show ?thesis
    by (auto simp: reuse_producer_def owns_compressed_def le_less)
qed

theorem reuse_producer_nearest_witness:
  "let c = zero_config\<lparr>num_layer := 4, num_head := 1, num_kv_head := 1, embed_dim := 16, compression_ratio := 4,
       swa_window := 8, ced := True, reuse_pattern := ''FU''\<rparr> in
    reuse_producer c 3 = 2 \<and> is_decoder_layer c 2 \<and> owns_compressed c (reuse_producer c 3)"
proof -
  let ?c = "zero_config\<lparr>num_layer := 4, num_head := 1, num_kv_head := 1, embed_dim := 16, compression_ratio := 4,
       swa_window := 8, ced := True, reuse_pattern := ''FU''\<rparr>"
  have "validate ?c = Inr ()" "reuse_producer ?c 3 = 2" "is_decoder_layer ?c 2"
    by code_simp+
  with reuse_producer_nearest [of ?c 3] show ?thesis
    unfolding Let_def by blast
qed

text \<open>
  The windows as the code computes them: one for each layer, the last one the full context; an S
  layer's is 128 * (T div 512), the quarter of the context rounded down (not up) to a multiple of 128, so it
  is zero for every context below 512.
\<close>

theorem window_sizes_floor:
  assumes "1 \<le> num_layer c" "window_pattern c \<noteq> []" "list_all valid_window_char (window_pattern c)" "0 \<le> sequence_len c"
  shows "\<exists>ws. window_sizes c = Inr ws \<and> length ws = nat (num_layer c) \<and> last ws = (sequence_len c, 0) \<and>
    (\<forall>i < length ws. ws ! i = (sequence_len c, 0) \<or> ws ! i = (128 * (sequence_len c div 512), 0)) \<and>
    (sequence_len c < 512 \<longrightarrow> 128 * (sequence_len c div 512) = 0)"
proof -
  define ws where "ws = (map (window_size_at c) [0..<nat (num_layer c)])[nat (num_layer c - 1) := (sequence_len c, 0)]"
  have run: "window_sizes c = Inr ws"
    using assms(1,2) by (simp add: window_sizes_def Let_def ws_def)
  have len: "length ws = nat (num_layer c)" "nat (num_layer c - 1) = length ws - 1"
    using assms(1) by (simp_all add: ws_def nat_diff_distrib)
  have pick: "window_size_at c i = (sequence_len c, 0) \<or> window_size_at c i = (128 * (sequence_len c div 512), 0)" for i
  proof -
    have "valid_window_char (window_pattern c ! (i mod length (window_pattern c)))"
      using assms(2,3) by (simp add: list_all_length)
    then show ?thesis
      by (auto simp: window_size_at_def short_window_eq [OF assms(4)] valid_window_char_def Let_def)
  qed
  have each: "ws ! i = (sequence_len c, 0) \<or> ws ! i = (128 * (sequence_len c div 512), 0)" if "i < length ws" for i
    using that pick [of i] by (cases "i = nat (num_layer c - 1)") (simp_all add: ws_def)
  have "last ws = (sequence_len c, 0)"
  proof -
    have "ws \<noteq> []" using len(1) assms(1) by auto
    then have "last ws = ws ! (length ws - 1)" by (rule last_conv_nth)
    also have "\<dots> = ws ! nat (num_layer c - 1)"
      by (simp only: len(2))
    also have "\<dots> = (sequence_len c, 0)"
      using assms(1) unfolding ws_def by (intro nth_list_update_eq) simp
    finally show ?thesis .
  qed
  with run len(1) each assms(4) show ?thesis
    by (intro exI [of _ ws]) (simp add: div_pos_pos_trivial)
qed

theorem window_sizes_floor_witness:
  "window_sizes (zero_config\<lparr>num_layer := 2, window_pattern := ''SL'', sequence_len := 256\<rparr>) = Inr [(0, 0), (256, 0)]"
proof -
  let ?c = "zero_config\<lparr>num_layer := 2, window_pattern := ''SL'', sequence_len := 256\<rparr>"
  have "window_sizes ?c = Inr [(0, 0), (256, 0)]"
    by code_simp
  moreover obtain ws where "window_sizes ?c = Inr ws" "last ws = (256, 0)"
    using window_sizes_floor [of ?c] by (auto simp: zero_config_def valid_window_char_def)
  ultimately show ?thesis by simp
qed

end
