(* ===== verification/Render.thy ===== *)
theory Render
  imports Tokenizer Complex_Main "HOL-Library.Code_Target_Nat"
begin

text \<open>
  src/tokenizer/render.go: rendering a conversation to token ids and a loss mask.

  Texts are lists of runes; roles, part types and the keys of \<open>Extra\<close> are HOL strings. A value of the
  \<open>map[string]any\<close> is \<open>any_value\<close>; a \<open>float64\<close> or \<open>float32\<close> is taken as the rational number it denotes
  (NaN and the infinities are left out, their conversion to \<open>int\<close> is up to the implementation), and
  the integer types are one constructor.
\<close>

section \<open>The code\<close>

datatype any_value = AnyBool bool | AnyInt int | AnyFloat rat | AnyString "rune list" | AnyOther

record message_part =
  mp_type :: string
  mp_text :: "rune list"

record message =
  msg_role :: string
  msg_content :: "rune list"
  msg_thinking :: "rune list"
  msg_parts :: "message_part list"

record conversation =
  conv_messages :: "message list"
  conv_extra :: "(string \<times> any_value) list"

definition runes :: "string \<Rightarrow> rune list" where
  "runes s = map of_char s"

fun digits :: "nat \<Rightarrow> rune list" where
  "digits n = (if n < 10 then [48 + n] else digits (n div 10) @ [48 + n mod 10])"

declare digits.simps [simp del]

definition decimal :: "int \<Rightarrow> rune list" where
  "decimal i = (if i < 0 then 45 # digits (nat (- i)) else digits (nat i))"

definition reasoning_effort_instruction :: "int \<Rightarrow> rune list" where
  "reasoning_effort_instruction effort =
     runes ''Reasoning Effort: '' @ decimal effort @
     runes '' (range 1--100; higher values request more thorough reasoning)''"

definition thinking_instruction :: "bool \<Rightarrow> rune list" where
  "thinking_instruction enabled =
     (if enabled then runes ''Thinking mode: enabled (reason inside <|think_start|>...<|think_end|> before the final answer)''
      else runes ''Thinking mode: disabled (answer directly, without a reasoning trace)'')"

definition trim_space :: "unicode \<Rightarrow> rune list \<Rightarrow> rune list" where
  "trim_space U s = rev (dropWhile (is_space U) (rev (dropWhile (is_space U) s)))"

definition quoted :: "string \<Rightarrow> rune list" where
  "quoted s = [34] @ runes s @ [34]"

definition logical_instruction :: "rune list" where
  "logical_instruction =
     runes ''While reasoning, start by stating what the user wants, think in the first person '' @
     runes ''('' @ quoted ''I think...'' @ runes '', '' @ quoted ''Let me check...'' @
     runes ''), question your assumptions, and call out any '' @
     runes ''logical fallacies or ambiguities you notice.''"

definition thinking_style_instruction :: "unicode \<Rightarrow> rune list \<Rightarrow> rune list" where
  "thinking_style_instruction U style =
     (let key = map (to_lower U) (trim_space U style) in
      if key = runes ''logical'' then logical_instruction
      else if key = [] then []
      else style)"

definition thinking_style :: "unicode \<Rightarrow> conversation \<Rightarrow> (rune list) option" where
  "thinking_style U conv =
     (case map_of (conv_extra conv) ''thinking_style'' of
        Some (AnyString style) \<Rightarrow> if trim_space U style = [] then None else Some style
      | _ \<Rightarrow> None)"

definition thinking_enabled :: "conversation \<Rightarrow> bool option" where
  "thinking_enabled conv =
     (case map_of (conv_extra conv) ''thinking'' of
        Some (AnyBool b) \<Rightarrow> Some b
      | Some (AnyInt i) \<Rightarrow> Some (i \<noteq> 0)
      | Some (AnyFloat f) \<Rightarrow> Some (f \<noteq> 0)
      | _ \<Rightarrow> None)"

definition truncate_rat :: "rat \<Rightarrow> int" where
  "truncate_rat q = (if q < 0 then - \<lfloor>- q\<rfloor> else \<lfloor>q\<rfloor>)"

definition reasoning_effort :: "conversation \<Rightarrow> int option" where
  "reasoning_effort conv =
     (case map_of (conv_extra conv) ''effort'' of
        Some (AnyInt i) \<Rightarrow> Some i
      | Some (AnyFloat f) \<Rightarrow> Some (truncate_rat f)
      | _ \<Rightarrow> None)"

fun count_reasoning :: "nat \<Rightarrow> nat \<Rightarrow> nat list \<Rightarrow> bool \<Rightarrow> nat \<Rightarrow> nat" where
  "count_reasoning start stop [] thinking n = n"
| "count_reasoning start stop (i # is) thinking n =
     (if i = start then count_reasoning start stop is True n
      else if i = stop then count_reasoning start stop is False n
      else count_reasoning start stop is thinking (if thinking then n + 1 else n))"

definition reasoning_token_count :: "tokenizer \<Rightarrow> nat list \<Rightarrow> (unit, nat) outcome" where
  "reasoning_token_count tok ids =
     obind (encode_special tok (ascii ''<|think_start|>'')) (\<lambda>start.
       obind (encode_special tok (ascii ''<|think_end|>'')) (\<lambda>stop.
         Inr (count_reasoning start stop ids False 0)))"

text \<open>The instructions, joined by newlines, and where they go in the list of messages.\<close>

definition instructions :: "unicode \<Rightarrow> conversation \<Rightarrow> rune list list" where
  "instructions U conv =
     (case reasoning_effort conv of None \<Rightarrow> [] | Some effort \<Rightarrow> [reasoning_effort_instruction effort]) @
     (case thinking_enabled conv of None \<Rightarrow> []
      | Some enabled \<Rightarrow> thinking_instruction enabled #
          (if enabled then
             (case thinking_style U conv of None \<Rightarrow> []
              | Some style \<Rightarrow> (let i = thinking_style_instruction U style in if i \<noteq> [] then [i] else []))
           else []))"

fun join_lines :: "rune list list \<Rightarrow> rune list" where
  "join_lines [] = []"
| "join_lines [s] = s"
| "join_lines (s # ss) = s @ [10] @ join_lines ss"

definition system_message :: "rune list \<Rightarrow> message" where
  "system_message s = \<lparr>msg_role = ''system'', msg_content = s, msg_thinking = [], msg_parts = []\<rparr>"

definition with_instructions :: "rune list list \<Rightarrow> message list \<Rightarrow> message list" where
  "with_instructions is messages =
     (if is = [] then messages
      else (case messages of
          m # ms \<Rightarrow> if msg_role m = ''system'' then system_message (join_lines is @ [10, 10] @ msg_content m) # ms
                     else system_message (join_lines is) # messages
        | [] \<Rightarrow> [system_message (join_lines is)]))"

text \<open>A leading system message is merged into the message after it.\<close>

fun merge_system :: "message list \<Rightarrow> message list" where
  "merge_system (s # m # ms) =
     (if msg_role s = ''system'' then m\<lparr>msg_content := msg_content s @ [10, 10] @ msg_content m\<rparr> # ms
      else s # m # ms)"
| "merge_system ms = ms"

record special_set =
  ss_bos :: nat
  ss_user_start :: nat
  ss_user_end :: nat
  ss_assistant_start :: nat
  ss_assistant_end :: nat
  ss_tool_start :: nat
  ss_tool_end :: nat
  ss_tool_output_start :: nat
  ss_tool_output_end :: nat
  ss_think_start :: nat
  ss_think_end :: nat

definition specials_of :: "tokenizer \<Rightarrow> (unit, special_set) outcome" where
  "specials_of tok =
     obind (encode_special tok (ascii ''<|user_start|>'')) (\<lambda>us.
     obind (encode_special tok (ascii ''<|user_end|>'')) (\<lambda>ue.
     obind (encode_special tok (ascii ''<|assistant_start|>'')) (\<lambda>as.
     obind (encode_special tok (ascii ''<|assistant_end|>'')) (\<lambda>ae.
     obind (encode_special tok (ascii ''<|tool_start|>'')) (\<lambda>ts.
     obind (encode_special tok (ascii ''<|tool_end|>'')) (\<lambda>te.
     obind (encode_special tok (ascii ''<|tool_output_start|>'')) (\<lambda>os.
     obind (encode_special tok (ascii ''<|tool_output_end|>'')) (\<lambda>oe.
     obind (encode_special tok (ascii ''<|think_start|>'')) (\<lambda>hs.
     obind (encode_special tok (ascii ''<|think_end|>'')) (\<lambda>he.
       Inr \<lparr>ss_bos = tk_bos tok, ss_user_start = us, ss_user_end = ue, ss_assistant_start = as,
            ss_assistant_end = ae, ss_tool_start = ts, ss_tool_end = te, ss_tool_output_start = os,
            ss_tool_output_end = oe, ss_think_start = hs, ss_think_end = he\<rparr>))))))))))"

text \<open>Ids with their mask: \<open>add\<close> appends a list of ids under one mask value.\<close>

type_synonym marked = "(nat \<times> nat) list"

definition mark :: "nat list \<Rightarrow> nat \<Rightarrow> marked" where
  "mark ids m = map (\<lambda>i. (i, m)) ids"

definition render_thinking :: "(rune list \<Rightarrow> nat list) \<Rightarrow> special_set \<Rightarrow> rune list \<Rightarrow> marked" where
  "render_thinking enc ss s =
     mark [ss_think_start ss] 1 @ (if s \<noteq> [] then mark (enc s) 1 else []) @ mark [ss_think_end ss] 1"

definition render_part :: "(rune list \<Rightarrow> nat list) \<Rightarrow> special_set \<Rightarrow> message_part \<Rightarrow> marked" where
  "render_part enc ss part =
     (if mp_type part = ''thinking'' then render_thinking enc ss (mp_text part)
      else if mp_type part = ''text'' then mark (enc (mp_text part)) 1
      else if mp_type part = ''tool_call'' then
        mark [ss_tool_start ss] 1 @ mark (enc (mp_text part)) 1 @ mark [ss_tool_end ss] 1
      else if mp_type part = ''tool_output'' then
        mark [ss_tool_output_start ss] 0 @ mark (enc (mp_text part)) 0 @ mark [ss_tool_output_end ss] 0
      else [])"

definition render_message :: "(rune list \<Rightarrow> nat list) \<Rightarrow> special_set \<Rightarrow> message \<Rightarrow> marked" where
  "render_message enc ss m =
     (if msg_role m = ''user'' then
        mark [ss_user_start ss] 0 @ mark (enc (msg_content m)) 0 @ mark [ss_user_end ss] 0
      else
        mark [ss_assistant_start ss] 0 @
        (if msg_parts m = [] then
           (if msg_thinking m \<noteq> [] then render_thinking enc ss (msg_thinking m) else []) @
           mark (enc (msg_content m)) 1
         else concat (map (render_part enc ss) (msg_parts m))) @
        mark [ss_assistant_end ss] 1)"

definition render_conversation ::
  "unicode \<Rightarrow> tokenizer \<Rightarrow> conversation \<Rightarrow> int \<Rightarrow> (unit, nat list \<times> nat list) outcome" where
  "render_conversation U tok conv max_tokens =
     (let messages = with_instructions (instructions U conv) (conv_messages conv) in
      if messages = [] then Inr ([], [])
      else
        obind (specials_of tok) (\<lambda>ss.
          let marked = mark [ss_bos ss] 0 @ concat (map (render_message (encode U tok) ss) (merge_system messages))
          in if int (length marked) > max_tokens
             then panic_if (max_tokens < 0)
               (Inr (take (nat max_tokens) (map fst marked), take (nat max_tokens) (map snd marked)))
             else Inr (map fst marked, map snd marked)))"

definition render_for_completion :: "unicode \<Rightarrow> tokenizer \<Rightarrow> conversation \<Rightarrow> (unit, nat list) outcome" where
  "render_for_completion U tok conv =
     panic_if (conv_messages conv = [])
       (obind (render_conversation U tok \<lparr>conv_messages = butlast (conv_messages conv), conv_extra = conv_extra conv\<rparr> (2 ^ 30))
         (\<lambda>(ids, _).
           obind (encode_special tok (ascii ''<|assistant_start|>'')) (\<lambda>as.
             if thinking_enabled conv = Some True then
               obind (encode_special tok (ascii ''<|think_start|>'')) (\<lambda>hs. Inr (ids @ [as, hs]))
             else Inr (ids @ [as]))))"

section \<open>Rendering, message by message\<close>

definition rendered :: "unicode \<Rightarrow> tokenizer \<Rightarrow> special_set \<Rightarrow> message list \<Rightarrow> marked" where
  "rendered U tok ss messages = mark [ss_bos ss] 0 @ concat (map (render_message (encode U tok) ss) messages)"

lemma render_conversation_eq:
  assumes "render_conversation U tok conv max_tokens = Inr (ids, marks)"
    "with_instructions (instructions U conv) (conv_messages conv) \<noteq> []"
  shows "\<exists>ss k. specials_of tok = Inr ss \<and>
    ids = take k (map fst (rendered U tok ss (merge_system (with_instructions (instructions U conv) (conv_messages conv))))) \<and>
    marks = take k (map snd (rendered U tok ss (merge_system (with_instructions (instructions U conv) (conv_messages conv))))) \<and>
    int k \<le> max 0 max_tokens \<and> (int (length ids) < max_tokens \<longrightarrow>
      k = length (rendered U tok ss (merge_system (with_instructions (instructions U conv) (conv_messages conv)))))"
proof -
  let ?ms = "merge_system (with_instructions (instructions U conv) (conv_messages conv))"
  from assms obtain ss where ss: "specials_of tok = Inr ss"
    and body: "(if int (length (rendered U tok ss ?ms)) > max_tokens
             then panic_if (max_tokens < 0)
               (Inr (take (nat max_tokens) (map fst (rendered U tok ss ?ms)), take (nat max_tokens) (map snd (rendered U tok ss ?ms))))
             else Inr (map fst (rendered U tok ss ?ms), map snd (rendered U tok ss ?ms))) = (Inr (ids, marks) :: (unit, _) outcome)"
    unfolding render_conversation_def Let_def rendered_def by (auto simp: obind_eq_Inr)
  show ?thesis
  proof (cases "int (length (rendered U tok ss ?ms)) > max_tokens")
    case True
    with body have "0 \<le> max_tokens" by (simp add: guard_eq_Inr)
    with True body have take: "ids = take (nat max_tokens) (map fst (rendered U tok ss ?ms))"
      "marks = take (nat max_tokens) (map snd (rendered U tok ss ?ms))"
      by (auto simp: guard_eq_Inr)
    with True \<open>0 \<le> max_tokens\<close> have "int (length ids) = max_tokens" by simp
    with take ss \<open>0 \<le> max_tokens\<close> show ?thesis
      by (intro exI [of _ ss] exI [of _ "nat max_tokens"]) simp
  next
    case False
    with body ss show ?thesis
      by (intro exI [of _ ss] exI [of _ "length (rendered U tok ss ?ms)"]) auto
  qed
qed

lemma render_conversation_empty:
  "with_instructions (instructions U conv) (conv_messages conv) = [] \<Longrightarrow>
    render_conversation U tok conv max_tokens = Inr ([], [])"
  by (simp add: render_conversation_def)

definition bits :: "marked \<Rightarrow> bool" where
  "bits xs \<longleftrightarrow> (\<forall>x \<in> set xs. snd x \<in> {0, 1})"

lemma bits_simps [simp]:
  "bits (mark ids 0)" "bits (mark ids 1)" "bits (mark ids (Suc 0))" "bits []"
  "bits (xs @ ys) \<longleftrightarrow> bits xs \<and> bits ys" "bits (concat xss) \<longleftrightarrow> (\<forall>xs \<in> set xss. bits xs)"
  by (auto simp: bits_def mark_def)

lemma bits_part: "bits (render_part enc ss p)"
  by (simp add: render_part_def render_thinking_def)

lemma bits_message: "bits (render_message enc ss m)"
  by (simp add: render_message_def render_thinking_def bits_part)

lemma bits_rendered: "bits (rendered U tok ss ms)"
  by (simp add: rendered_def bits_message)

text \<open>The ids the model is trained to produce.\<close>

definition trained :: "marked \<Rightarrow> nat list" where
  "trained xs = map fst (filter (\<lambda>(i, m). m = 1) xs)"

lemma trained_simps:
  "trained (xs @ ys) = trained xs @ trained ys" "trained (mark ids 0) = []" "trained (mark ids 1) = ids"
  "trained [] = []"
  by (simp_all add: trained_def mark_def filter_map comp_def)

lemma trained_concat: "trained (concat xss) = concat (map trained xss)"
  by (induction xss) (simp_all add: trained_simps)

lemma instructions_cong: "conv_extra c = conv_extra d \<Longrightarrow> instructions U c = instructions U d"
proof -
  assume "conv_extra c = conv_extra d"
  then have "reasoning_effort c = reasoning_effort d" "thinking_enabled c = thinking_enabled d"
    "thinking_style U c = thinking_style U d"
    by (simp_all add: reasoning_effort_def thinking_enabled_def thinking_style_def)
  then show ?thesis by (simp only: instructions_def)
qed

text \<open>Messages that differ only in what the user or a tool said.\<close>

fun part_alike :: "message_part \<Rightarrow> message_part \<Rightarrow> bool" where
  "part_alike p q \<longleftrightarrow> mp_type p = mp_type q \<and> (mp_type p = ''tool_output'' \<or> mp_text p = mp_text q)"

fun message_alike :: "message \<Rightarrow> message \<Rightarrow> bool" where
  "message_alike m n \<longleftrightarrow> msg_role m = msg_role n \<and>
     (msg_role m = ''user'' \<or>
       msg_content m = msg_content n \<and> msg_thinking m = msg_thinking n \<and> list_all2 part_alike (msg_parts m) (msg_parts n))"

lemma trained_part: "part_alike p q \<Longrightarrow> trained (render_part enc ss p) = trained (render_part enc ss q)"
  by (auto simp: render_part_def trained_simps)

lemma trained_message:
  assumes "message_alike m n"
  shows "trained (render_message enc ss m) = trained (render_message enc ss n)"
proof (cases "msg_role m = ''user''")
  case True
  with assms show ?thesis by (auto simp: render_message_def trained_simps)
next
  case False
  then have alike: "msg_role n \<noteq> ''user''" "msg_content m = msg_content n" "msg_thinking m = msg_thinking n"
    "list_all2 part_alike (msg_parts m) (msg_parts n)"
    using assms by auto
  have "map (\<lambda>p. trained (render_part enc ss p)) (msg_parts m) = map (\<lambda>p. trained (render_part enc ss p)) (msg_parts n)"
    using alike(4) by (induction rule: list_all2_induct) (simp_all add: trained_part del: part_alike.simps)
  moreover have "msg_parts m = [] \<longleftrightarrow> msg_parts n = []"
    using alike(4) by (auto dest: list_all2_lengthD)
  ultimately show ?thesis
    using False alike(1,2,3) by (simp add: render_message_def trained_simps trained_concat comp_def)
qed

lemma trained_rendered:
  "list_all2 message_alike ms ns \<Longrightarrow> trained (rendered U tok ss ms) = trained (rendered U tok ss ns)"
  by (induction rule: list_all2_induct)
    (simp_all add: rendered_def trained_simps trained_message del: message_alike.simps)

lemma prepared_alike:
  assumes "list_all2 message_alike ms ns" "ms \<noteq> []" "msg_role (hd ms) = ''user''"
  shows "list_all2 message_alike (merge_system (with_instructions is ms)) (merge_system (with_instructions is ns))"
proof -
  obtain m ms' n ns' where ms: "ms = m # ms'" "ns = n # ns'" "message_alike m n" "list_all2 message_alike ms' ns'"
    using assms(1,2) by (cases ms) (auto simp: list_all2_Cons1)
  have role: "msg_role m = ''user''" "msg_role n = ''user''"
    using assms(3) ms by auto
  show ?thesis
  proof (cases "is = []")
    case True
    have "merge_system (m # ms') = m # ms'" "merge_system (n # ns') = n # ns'"
      using role by (cases ms'; cases ns'; simp)+
    with True ms show ?thesis by (simp add: with_instructions_def del: message_alike.simps)
  next
    case False
    with role ms show ?thesis by (simp add: with_instructions_def system_message_def)
  qed
qed

lemma specials_of_fields:
  assumes "specials_of tok = Inr ss"
  shows "encode_special tok (ascii ''<|assistant_start|>'') = Inr (ss_assistant_start ss)"
    and "encode_special tok (ascii ''<|think_start|>'') = Inr (ss_think_start ss)"
  using assms by (auto simp: specials_of_def obind_eq_Inr)

text \<open>A tokenizer with the special tokens and four more, and two conversations, for the examples.\<close>

definition plain_tokenizer :: tokenizer where
  "plain_tokenizer = \<lparr>mergeable_ranks = [([49], 11), ([107], 12), ([111], 13), ([111, 107], 14)],
     special_ids = zip special_tokens [0, 1, 2, 3, 4, 5, 6, 7, 8, 9, 10],
     special_names = zip [0, 1, 2, 3, 4, 5, 6, 7, 8, 9, 10] special_tokens,
     tk_bytes = special_tokens @ [[49], [107], [111], [111, 107]], tk_vocab_size = 15, tk_bos = 0\<rparr>"

definition example_conversation :: "rune list \<Rightarrow> conversation" where
  "example_conversation question =
     \<lparr>conv_messages = [\<lparr>msg_role = ''user'', msg_content = question, msg_thinking = [], msg_parts = []\<rparr>,
        \<lparr>msg_role = ''assistant'', msg_content = [111, 107], msg_thinking = [104], msg_parts = []\<rparr>],
      conv_extra = []\<rparr>"

section \<open>Properties\<close>

text \<open>
  Ids and loss mask go together: a rendering has one mask value for each id, 0 or 1, and no more
  than the allowed number of them.
\<close>

theorem render_conversation_mask:
  assumes "render_conversation U tok conv max_tokens = Inr (ids, marks)"
  shows "length ids = length marks \<and> set marks \<subseteq> {0, 1} \<and> length ids \<le> nat max_tokens"
proof (cases "with_instructions (instructions U conv) (conv_messages conv) = []")
  case True
  with assms render_conversation_empty show ?thesis by simp
next
  case False
  let ?ms = "merge_system (with_instructions (instructions U conv) (conv_messages conv))"
  from render_conversation_eq [OF assms False] obtain ss k where
    "ids = take k (map fst (rendered U tok ss ?ms))" "marks = take k (map snd (rendered U tok ss ?ms))"
    "int k \<le> max 0 max_tokens"
    by blast
  moreover have "set (take k (map snd (rendered U tok ss ?ms))) \<subseteq> {0, 1}"
    using bits_rendered [of U tok ss ?ms] unfolding bits_def by (fastforce dest!: in_set_takeD)
  ultimately show ?thesis by auto
qed

theorem render_conversation_mask_witness:
  "render_conversation example_unicode plain_tokenizer
      \<lparr>conv_messages = [\<lparr>msg_role = ''user'', msg_content = [49], msg_thinking = [], msg_parts = []\<rparr>,
        \<lparr>msg_role = ''assistant'', msg_content = [111, 107], msg_thinking = [], msg_parts = []\<rparr>], conv_extra = []\<rparr> 100 =
      Inr ([0, 1, 11, 2, 3, 14, 4], [0, 0, 0, 0, 0, 1, 1]) \<and>
    length [0, 1, 11, 2, 3, 14, 4 :: nat] = length [0, 0, 0, 0, 0, 1, 1 :: nat]"
proof -
  have "render_conversation example_unicode plain_tokenizer
      \<lparr>conv_messages = [\<lparr>msg_role = ''user'', msg_content = [49], msg_thinking = [], msg_parts = []\<rparr>,
        \<lparr>msg_role = ''assistant'', msg_content = [111, 107], msg_thinking = [], msg_parts = []\<rparr>], conv_extra = []\<rparr> 100 =
      Inr ([0, 1, 11, 2, 3, 14, 4], [0, 0, 0, 0, 0, 1, 1])"
    by code_simp
  then show ?thesis
    using render_conversation_mask by blast
qed

text \<open>
  C26. The loss sees nothing the user or a tool said: for two conversations that begin with a user
  message and differ only in the contents of user messages and tool outputs, the ids with mask 1 of
  their (untruncated) renderings are the same.
\<close>

theorem trained_ids_independent:
  assumes "render_conversation U tok conv max_tokens = Inr (ids, marks)" "int (length ids) < max_tokens"
    and "render_conversation U tok conv' max_tokens = Inr (ids', marks')" "int (length ids') < max_tokens"
    and "list_all2 message_alike (conv_messages conv) (conv_messages conv')" "conv_extra conv' = conv_extra conv"
    and "conv_messages conv \<noteq> []" "msg_role (hd (conv_messages conv)) = ''user''"
  shows "trained (zip ids marks) = trained (zip ids' marks')"
proof -
  let ?p = "\<lambda>c. merge_system (with_instructions (instructions U c) (conv_messages c))"
  have same: "instructions U conv' = instructions U conv"
    using assms(6) by (rule instructions_cong)
  have ne: "with_instructions (instructions U c) (conv_messages c) \<noteq> []" if "conv_messages c \<noteq> []" for c
    using that by (auto simp: with_instructions_def split: list.split)
  have "conv_messages conv' \<noteq> []"
    using assms(5,7) by auto
  then obtain ss ss' where ss: "specials_of tok = Inr ss" "zip ids marks = rendered U tok ss (?p conv)"
    and ss': "specials_of tok = Inr ss'" "zip ids' marks' = rendered U tok ss' (?p conv')"
    using render_conversation_eq [OF assms(1) ne] render_conversation_eq [OF assms(3) ne] assms(2,4,7)
    by (auto simp: zip_map_fst_snd)
  have "list_all2 message_alike (?p conv) (?p conv')"
    using prepared_alike [OF assms(5,7,8)] same by simp
  then show ?thesis
    using ss ss' trained_rendered by auto
qed

theorem trained_ids_independent_witness:
  "\<exists>ids marks ids' marks'.
    render_conversation example_unicode plain_tokenizer (example_conversation [49]) 500 = Inr (ids, marks) \<and>
    render_conversation example_unicode plain_tokenizer (example_conversation [50, 33]) 500 = Inr (ids', marks') \<and>
    trained (zip ids marks) = trained (zip ids' marks')"
proof -
  have "case render_conversation example_unicode plain_tokenizer (example_conversation [49]) 500 of
      Inr (ids, _) \<Rightarrow> int (length ids) < 500 | _ \<Rightarrow> False"
    "case render_conversation example_unicode plain_tokenizer (example_conversation [50, 33]) 500 of
      Inr (ids, _) \<Rightarrow> int (length ids) < 500 | _ \<Rightarrow> False"
    by code_simp+
  then obtain ids marks ids' marks' where r:
    "render_conversation example_unicode plain_tokenizer (example_conversation [49]) 500 = Inr (ids, marks)"
    "render_conversation example_unicode plain_tokenizer (example_conversation [50, 33]) 500 = Inr (ids', marks')"
    "int (length ids) < 500" "int (length ids') < 500"
    by (auto split: sum.splits prod.splits)
  have alike: "list_all2 message_alike (conv_messages (example_conversation [49])) (conv_messages (example_conversation [50, 33]))"
    "conv_extra (example_conversation [50, 33]) = conv_extra (example_conversation [49])"
    "conv_messages (example_conversation [49]) \<noteq> []" "msg_role (hd (conv_messages (example_conversation [49]))) = ''user''"
    by (simp_all add: example_conversation_def)
  show ?thesis
    using trained_ids_independent [OF r(1,3) r(2,4) alike] r(1,2) by blast
qed

text \<open>
  Generation starts where training was: where the last message of a conversation is an assistant's
  (with a reasoning trace if thinking is enabled) and there is a turn before it, the prompt that
  RenderForCompletion primes is a prefix of the rendering the model is trained on.
\<close>

theorem completion_prompt_prefix:
  assumes "render_conversation U tok conv (2 ^ 30) = Inr (ids, marks)" "int (length ids) < 2 ^ 30"
    and "render_for_completion U tok conv = Inr prompt"
    and "conv_messages conv = m # ms @ [reply]" "msg_role m \<noteq> ''system'' \<or> ms \<noteq> []" "msg_role reply \<noteq> ''user''"
    and "thinking_enabled conv = Some True \<longrightarrow> msg_parts reply = [] \<and> msg_thinking reply \<noteq> []"
  shows "\<exists>rest. ids = prompt @ rest"
proof -
  let ?is = "instructions U conv"
  define w where "w = with_instructions ?is (m # ms)"
  define conv' where "conv' = \<lparr>conv_messages = m # ms, conv_extra = conv_extra conv\<rparr>"
  have "is": "instructions U conv' = ?is"
    by (rule instructions_cong) (simp add: conv'_def)
  have full: "with_instructions ?is (conv_messages conv) = w @ [reply]"
    by (simp add: assms(4) w_def with_instructions_def)
  have merged: "merge_system (w @ [reply]) = merge_system w @ [reply]"
  proof -
    have "(\<exists>x. w = [x] \<and> msg_role x \<noteq> ''system'') \<or> (\<exists>x y zs. w = x # y # zs)"
      using assms(5) by (cases ms) (auto simp: w_def with_instructions_def)
    then show ?thesis by auto
  qed
  from render_conversation_eq [OF assms(1)] full merged assms(2) obtain ss where ss: "specials_of tok = Inr ss"
    and ids: "ids = map fst (rendered U tok ss (merge_system w @ [reply]))"
    by auto
  let ?pre = "rendered U tok ss (merge_system w)"
  have split: "rendered U tok ss (merge_system w @ [reply]) = ?pre @ render_message (encode U tok) ss reply"
    by (simp add: rendered_def)
  have "int (length ?pre) \<le> 2 ^ 30"
    using assms(2) by (simp add: ids split)
  moreover have "w \<noteq> []"
    by (simp add: w_def with_instructions_def)
  moreover have w': "with_instructions (instructions U conv') (conv_messages conv') = w"
    unfolding "is" by (simp add: conv'_def w_def)
  ultimately have prompt': "render_conversation U tok conv' (2 ^ 30) = Inr (map fst ?pre, map snd ?pre)"
    using ss unfolding render_conversation_def Let_def by (simp add: rendered_def)
  have "butlast (conv_messages conv) = m # ms"
    by (simp add: assms(4) butlast_append)
  then have "{conv'} = {\<lparr>conv_messages = butlast (conv_messages conv), conv_extra = conv_extra conv\<rparr>}"
    by (simp add: conv'_def)
  with assms(3,4) prompt' specials_of_fields [OF ss] have prompt: "prompt = map fst ?pre @ (ss_assistant_start ss #
      (if thinking_enabled conv = Some True then [ss_think_start ss] else []))"
    by (auto simp: render_for_completion_def split: if_splits)
  have reply: "\<exists>rest. map fst (render_message (encode U tok) ss reply) = ss_assistant_start ss #
      (if thinking_enabled conv = Some True then [ss_think_start ss] else []) @ rest"
    using assms(6,7) by (auto simp: render_message_def render_thinking_def mark_def)
  then show ?thesis
    by (auto simp: prompt ids split)
qed

theorem completion_prompt_prefix_witness:
  "\<exists>ids marks prompt rest.
    render_conversation example_unicode plain_tokenizer (example_conversation [49]) (2 ^ 30) = Inr (ids, marks) \<and>
    render_for_completion example_unicode plain_tokenizer (example_conversation [49]) = Inr prompt \<and>
    ids = prompt @ rest"
proof -
  have "case render_conversation example_unicode plain_tokenizer (example_conversation [49]) (2 ^ 30) of
      Inr (ids, _) \<Rightarrow> int (length ids) < 2 ^ 30 | _ \<Rightarrow> False"
    "case render_for_completion example_unicode plain_tokenizer (example_conversation [49]) of
      Inr _ \<Rightarrow> True | _ \<Rightarrow> False"
    by code_simp+
  then obtain ids marks prompt where r:
    "render_conversation example_unicode plain_tokenizer (example_conversation [49]) (2 ^ 30) = Inr (ids, marks)"
    "int (length ids) < 2 ^ 30"
    "render_for_completion example_unicode plain_tokenizer (example_conversation [49]) = Inr prompt"
    by (auto split: sum.splits prod.splits)
  let ?user = "\<lparr>msg_role = ''user'', msg_content = [49], msg_thinking = [], msg_parts = []\<rparr>"
  let ?reply = "\<lparr>msg_role = ''assistant'', msg_content = [111, 107], msg_thinking = [104], msg_parts = []\<rparr>"
  have "conv_messages (example_conversation [49]) = ?user # [] @ [?reply]"
    by (simp add: example_conversation_def)
  from completion_prompt_prefix [OF r this] r(1,3) show ?thesis
    by auto
qed


text \<open>
  Reasoning tokens: the count adds up the tokens strictly inside the reasoning spans; the first
  span contributes its length, and what follows it is counted on its own.
\<close>

theorem reasoning_count_spans:
  assumes "start \<noteq> stop" "start \<notin> set before" "start \<notin> set inside" "stop \<notin> set inside" "stop \<notin> set before"
  shows "count_reasoning start stop (before @ start # inside @ stop # after) False 0 =
    length inside + count_reasoning start stop after False 0"
proof -
  have shift: "count_reasoning start stop ids t (n + k) = n + count_reasoning start stop ids t k" for ids t n k
  proof (induction ids arbitrary: t k)
    case (Cons i ids)
    have "count_reasoning start stop ids t (n + k + 1) = n + count_reasoning start stop ids t (k + 1)" for t
      using Cons.IH [of t "k + 1"] by (simp only: add.assoc)
    with Cons.IH show ?case by simp
  qed simp
  have skip: "count_reasoning start stop (before @ ids) False 0 = count_reasoning start stop ids False 0" for ids
    using assms(2,5) by (induction before) auto
  have inside: "count_reasoning start stop (inside @ ids) True n = count_reasoning start stop ids True (n + length inside)" for ids n
    using assms(3,4) by (induction inside arbitrary: n) auto
  show ?thesis
    using assms(1) shift [of after False "length inside" 0] by (simp add: skip inside)
qed

theorem reasoning_count_spans_witness:
  "count_reasoning 9 10 ([1] @ 9 # [2, 3] @ 10 # [4, 9, 5, 10]) False 0 = length [2, 3 :: nat] + 1"
proof -
  have "count_reasoning 9 10 [4, 9, 5, 10] False 0 = 1"
    by code_simp
  then show ?thesis
    using reasoning_count_spans [of 9 10 "[1]" "[2, 3]" "[4, 9, 5, 10]"] by simp
qed

end
