(* ===== verification/Dataloader.thy ===== *)
theory Dataloader
  imports Render "HOL-Library.Multiset"
begin

text \<open>
  src/data/dataloader.go: packing documents and conversations into training batches.

  A provider is a Go closure with a state of its own; here it is the sequence of its answers, and the
  loader counts the calls. A tensor of shape \<open>[B, T]\<close> is the list of its rows. Scratch buffers are lists of
  the fixed length \<open>T + 1\<close>, kept from row to row. The refill loops end only if the provider lets them:
  they are partial functions, and \<open>None\<close> stands for not returning.
\<close>

section \<open>Packing\<close>

definition to_int32 :: "nat list \<Rightarrow> int list" where
  "to_int32 ids = map (\<lambda>i. i32 (int i)) ids"

text \<open>Go's \<open>copy(dst[pos:], src)\<close>, which stops at the end of \<open>dst\<close>.\<close>

definition copy_at :: "nat \<Rightarrow> 'a list \<Rightarrow> 'a list \<Rightarrow> 'a list" where
  "copy_at pos src dst = take (length dst) (take pos dst @ src @ drop (pos + length src) dst)"

definition fill_from :: "nat \<Rightarrow> nat \<Rightarrow> 'a \<Rightarrow> 'a list \<Rightarrow> 'a list" where
  "fill_from pos n x dst = copy_at pos (replicate n x) dst"

text \<open>The scan for the longest item that fits: its index and length, or no index and length 0.\<close>

fun best_fit :: "nat \<Rightarrow> nat list \<Rightarrow> nat \<Rightarrow> nat option \<times> nat \<Rightarrow> nat option \<times> nat" where
  "best_fit remaining [] index best = best"
| "best_fit remaining (n # ns) index (best_index, best_len) =
     best_fit remaining ns (index + 1)
       (if n \<le> remaining \<and> n > best_len then (Some index, n) else (best_index, best_len))"

text \<open>The scan for the first shortest item.\<close>

fun shortest_index :: "nat list \<Rightarrow> nat list \<Rightarrow> nat \<Rightarrow> nat \<Rightarrow> nat" where
  "shortest_index all [] index shortest = shortest"
| "shortest_index all (n # ns) index shortest =
     shortest_index all ns (index + 1) (if n < all ! shortest then index else shortest)"

definition remove_nth :: "nat \<Rightarrow> 'a list \<Rightarrow> 'a list" where
  "remove_nth i xs = take i xs @ drop (i + 1) xs"

section \<open>PretrainLoader\<close>

type_synonym 'pos doc_provider = "nat \<Rightarrow> rune list list \<times> 'pos"

record 'pos pretrain_loader =
  pl_tok :: tokenizer
  pl_B :: nat
  pl_T :: nat
  pl_buffer_size :: int
  pl_calls :: nat
  pl_doc_buffer :: "int list list"
  pl_state :: 'pos
  pl_scratch :: "int list"
  pl_segment_scratch :: "int list"

definition new_pretrain_loader :: "tokenizer \<Rightarrow> nat \<Rightarrow> nat \<Rightarrow> int \<Rightarrow> 'pos \<Rightarrow> 'pos pretrain_loader" where
  "new_pretrain_loader tok B T buffer_size zero =
     \<lparr>pl_tok = tok, pl_B = B, pl_T = T, pl_buffer_size = (if buffer_size \<le> 0 then 1000 else buffer_size),
      pl_calls = 0, pl_doc_buffer = [], pl_state = zero, pl_scratch = replicate (T + 1) 0,
      pl_segment_scratch = replicate (T + 1) 0\<rparr>"

definition document_row :: "unicode \<Rightarrow> tokenizer \<Rightarrow> rune list \<Rightarrow> int list" where
  "document_row U tok doc = i32 (int (tk_bos tok)) # to_int32 (encode U tok doc)"

definition pull_documents :: "unicode \<Rightarrow> 'pos doc_provider \<Rightarrow> 'pos pretrain_loader \<Rightarrow> 'pos pretrain_loader" where
  "pull_documents U provider l =
     (let (docs, pos) = provider (pl_calls l) in
      l\<lparr>pl_calls := pl_calls l + 1, pl_state := pos,
        pl_doc_buffer := pl_doc_buffer l @ map (document_row U (pl_tok l)) docs\<rparr>)"

partial_function (option) pretrain_refill ::
  "unicode \<Rightarrow> 'pos doc_provider \<Rightarrow> 'pos pretrain_loader \<Rightarrow> 'pos pretrain_loader option" where
  "pretrain_refill U provider l =
     (if int (length (pl_doc_buffer l)) < pl_buffer_size l
      then pretrain_refill U provider (pull_documents U provider l)
      else Some l)"

declare pretrain_refill.simps [code]

text \<open>One document goes into the row at \<open>pos\<close>: the longest that fits, or a beginning of the shortest.\<close>

definition place_document :: "bool \<Rightarrow> nat \<Rightarrow> int \<Rightarrow> 'pos pretrain_loader \<Rightarrow> (unit, nat \<times> 'pos pretrain_loader) outcome" where
  "place_document with_segments pos segment l =
     (let remaining = pl_T l + 1 - pos;
          lens = map length (pl_doc_buffer l);
          put = (\<lambda>i doc. l\<lparr>pl_doc_buffer := remove_nth i (pl_doc_buffer l),
                   pl_scratch := copy_at pos doc (pl_scratch l),
                   pl_segment_scratch := (if with_segments then fill_from pos (length doc) segment (pl_segment_scratch l)
                                          else pl_segment_scratch l)\<rparr>) in
      case best_fit remaining lens 0 (None, 0) of
        (Some i, n) \<Rightarrow> Inr (pos + n, put i (pl_doc_buffer l ! i))
      | (None, _) \<Rightarrow>
          panic_if (pl_doc_buffer l = [])
            (let i = shortest_index lens lens 0 0; doc = pl_doc_buffer l ! i in
             panic_if (length doc < remaining) (Inr (pos + remaining, put i (take remaining doc)))))"

partial_function (option) pack_row ::
  "unicode \<Rightarrow> 'pos doc_provider \<Rightarrow> bool \<Rightarrow> nat \<Rightarrow> int \<Rightarrow> 'pos pretrain_loader \<Rightarrow>
    (unit, 'pos pretrain_loader) outcome option" where
  "pack_row U provider with_segments pos segment l =
     (if pos < pl_T l + 1 then
        Option.bind (pretrain_refill U provider l) (\<lambda>l.
          (case place_document with_segments pos segment l of
             Inl e \<Rightarrow> Some (Inl e)
           | Inr (pos, l) \<Rightarrow> pack_row U provider with_segments pos (i32 (segment + 1)) l))
      else Some (Inr l))"

declare pack_row.simps [code]

record batch =
  bt_inputs :: "int list list"
  bt_targets :: "int list list"
  bt_segments :: "int list list"

definition add_row :: "'pos pretrain_loader \<Rightarrow> bool \<Rightarrow> batch \<Rightarrow> batch" where
  "add_row l with_segments b =
     \<lparr>bt_inputs = bt_inputs b @ [take (pl_T l) (pl_scratch l)],
      bt_targets = bt_targets b @ [take (pl_T l) (drop 1 (pl_scratch l))],
      bt_segments = (if with_segments then bt_segments b @ [take (pl_T l) (pl_segment_scratch l)] else [])\<rparr>"

fun pretrain_rows ::
  "unicode \<Rightarrow> 'pos doc_provider \<Rightarrow> bool \<Rightarrow> nat \<Rightarrow> batch \<Rightarrow> 'pos pretrain_loader \<Rightarrow>
    (unit, batch \<times> 'pos pretrain_loader) outcome option" where
  "pretrain_rows U provider with_segments 0 b l = Some (Inr (b, l))"
| "pretrain_rows U provider with_segments (Suc n) b l =
     (case pack_row U provider with_segments 0 0 l of
        None \<Rightarrow> None
      | Some (Inl e) \<Rightarrow> Some (Inl e)
      | Some (Inr l) \<Rightarrow> pretrain_rows U provider with_segments n (add_row l with_segments b) l)"

definition empty_batch :: batch where
  "empty_batch = \<lparr>bt_inputs = [], bt_targets = [], bt_segments = []\<rparr>"

definition pretrain_next ::
  "unicode \<Rightarrow> 'pos doc_provider \<Rightarrow> bool \<Rightarrow> 'pos pretrain_loader \<Rightarrow>
    (unit, batch \<times> 'pos \<times> 'pos pretrain_loader) outcome option" where
  "pretrain_next U provider with_segments l =
     map_option (\<lambda>r. obind r (\<lambda>(b, l). Inr (b, pl_state l, l)))
       (pretrain_rows U provider with_segments (pl_B l) empty_batch l)"

section \<open>SFTLoader\<close>

type_synonym conv_provider = "nat \<Rightarrow> conversation list option"

record conv_with_mask =
  cw_ids :: "int list"
  cw_mask :: "int list"

record sft_loader =
  sl_tok :: tokenizer
  sl_B :: nat
  sl_T :: nat
  sl_buffer_size :: int
  sl_calls :: nat
  sl_conv_buffer :: "conv_with_mask list"
  sl_done :: bool
  sl_scratch :: "int list"
  sl_mask_scratch :: "int list"
  sl_segment_scratch :: "int list"

definition new_sft_loader :: "tokenizer \<Rightarrow> nat \<Rightarrow> nat \<Rightarrow> int \<Rightarrow> sft_loader" where
  "new_sft_loader tok B T buffer_size =
     \<lparr>sl_tok = tok, sl_B = B, sl_T = T, sl_buffer_size = (if buffer_size \<le> 0 then 100 else buffer_size),
      sl_calls = 0, sl_conv_buffer = [], sl_done = False, sl_scratch = replicate (T + 1) 0,
      sl_mask_scratch = replicate (T + 1) 0, sl_segment_scratch = replicate (T + 1) 0\<rparr>"

fun render_all :: "unicode \<Rightarrow> tokenizer \<Rightarrow> conversation list \<Rightarrow> (unit, conv_with_mask list) outcome" where
  "render_all U tok [] = Inr []"
| "render_all U tok (c # cs) =
     obind (render_conversation U tok c (2 ^ 30)) (\<lambda>(ids, marks).
       obind (render_all U tok cs) (\<lambda>rest.
         Inr (\<lparr>cw_ids = to_int32 ids, cw_mask = to_int32 marks\<rparr> # rest)))"

partial_function (option) sft_refill ::
  "unicode \<Rightarrow> conv_provider \<Rightarrow> sft_loader \<Rightarrow> (unit, sft_loader) outcome option" where
  "sft_refill U provider l =
     (if int (length (sl_conv_buffer l)) < sl_buffer_size l then
        (case provider (sl_calls l) of
           None \<Rightarrow> Some (Inr (l\<lparr>sl_calls := sl_calls l + 1, sl_done := True\<rparr>))
         | Some convs \<Rightarrow>
             (case render_all U (sl_tok l) convs of
                Inl e \<Rightarrow> Some (Inl e)
              | Inr rows \<Rightarrow>
                  sft_refill U provider
                    (l\<lparr>sl_calls := sl_calls l + 1, sl_conv_buffer := sl_conv_buffer l @ rows\<rparr>)))
      else Some (Inr l))"

declare sft_refill.simps [code]

definition place_conversation :: "bool \<Rightarrow> nat \<Rightarrow> int \<Rightarrow> sft_loader \<Rightarrow> (nat \<times> sft_loader) option" where
  "place_conversation with_segments pos segment l =
     (case best_fit (sl_T l + 1 - pos) (map (length \<circ> cw_ids) (sl_conv_buffer l)) 0 (None, 0) of
        (Some i, n) \<Rightarrow>
          (let c = sl_conv_buffer l ! i in
           Some (pos + n, l\<lparr>sl_conv_buffer := remove_nth i (sl_conv_buffer l),
             sl_scratch := copy_at pos (cw_ids c) (sl_scratch l),
             sl_mask_scratch := copy_at pos (cw_mask c) (sl_mask_scratch l),
             sl_segment_scratch := (if with_segments then fill_from pos (length (cw_ids c)) segment (sl_segment_scratch l)
                                    else sl_segment_scratch l)\<rparr>))
      | (None, _) \<Rightarrow> None)"

text \<open>The packing loop: how far the row is filled, the next segment number, and the loader.\<close>

partial_function (option) sft_pack ::
  "unicode \<Rightarrow> conv_provider \<Rightarrow> bool \<Rightarrow> nat \<Rightarrow> int \<Rightarrow> sft_loader \<Rightarrow>
    (unit, nat \<times> int \<times> sft_loader) outcome option" where
  "sft_pack U provider with_segments pos segment l =
     (if pos < sl_T l + 1 then
        Option.bind (if sl_conv_buffer l = [] then sft_refill U provider l else Some (Inr l)) (\<lambda>r.
          (case r of
             Inl e \<Rightarrow> Some (Inl e)
           | Inr l \<Rightarrow>
               if sl_conv_buffer l = [] then Some (Inr (pos, segment, l))
               else (case place_conversation with_segments pos segment l of
                   None \<Rightarrow> Some (Inr (pos, segment, l))
                 | Some (pos, l) \<Rightarrow> sft_pack U provider with_segments pos (i32 (segment + 1)) l)))
      else Some (Inr (pos, segment, l)))"

declare sft_pack.simps [code]

definition sft_pad :: "bool \<Rightarrow> nat \<Rightarrow> int \<Rightarrow> sft_loader \<Rightarrow> sft_loader" where
  "sft_pad with_segments pos segment l =
     (let n = sl_T l + 1 - pos in
      l\<lparr>sl_scratch := fill_from pos n (i32 (int (tk_bos (sl_tok l)))) (sl_scratch l),
        sl_mask_scratch := fill_from pos n 0 (sl_mask_scratch l),
        sl_segment_scratch := (if with_segments then fill_from pos n segment (sl_segment_scratch l)
                               else sl_segment_scratch l)\<rparr>)"

definition sft_targets :: "sft_loader \<Rightarrow> int list" where
  "sft_targets l = map (\<lambda>i. if sl_mask_scratch l ! (i + 1) = 1 then sl_scratch l ! (i + 1) else - 1) [0..<sl_T l]"

definition sft_add_row :: "sft_loader \<Rightarrow> bool \<Rightarrow> batch \<Rightarrow> batch" where
  "sft_add_row l with_segments b =
     \<lparr>bt_inputs = bt_inputs b @ [take (sl_T l) (sl_scratch l)],
      bt_targets = bt_targets b @ [sft_targets l],
      bt_segments = (if with_segments then bt_segments b @ [take (sl_T l) (sl_segment_scratch l)] else [])\<rparr>"

text \<open>Rows that the loop does not reach keep the zeros of the new tensors.\<close>

definition zero_rows :: "nat \<Rightarrow> nat \<Rightarrow> bool \<Rightarrow> batch \<Rightarrow> batch" where
  "zero_rows n T with_segments b =
     \<lparr>bt_inputs = bt_inputs b @ replicate n (replicate T 0),
      bt_targets = bt_targets b @ replicate n (replicate T 0),
      bt_segments = (if with_segments then bt_segments b @ replicate n (replicate T 0) else [])\<rparr>"

fun sft_rows ::
  "unicode \<Rightarrow> conv_provider \<Rightarrow> bool \<Rightarrow> nat \<Rightarrow> batch \<Rightarrow> sft_loader \<Rightarrow>
    (unit, batch \<times> sft_loader) outcome option" where
  "sft_rows U provider with_segments 0 b l = Some (Inr (b, l))"
| "sft_rows U provider with_segments (Suc n) b l =
     (case sft_refill U provider l of
        None \<Rightarrow> None
      | Some (Inl e) \<Rightarrow> Some (Inl e)
      | Some (Inr l) \<Rightarrow>
          if sl_conv_buffer l = [] then Some (Inr (zero_rows (Suc n) (sl_T l) with_segments b, l\<lparr>sl_done := True\<rparr>))
          else (case sft_pack U provider with_segments 0 0 l of
              None \<Rightarrow> None
            | Some (Inl e) \<Rightarrow> Some (Inl e)
            | Some (Inr (pos, segment, l)) \<Rightarrow>
                (let l = sft_pad with_segments pos segment l
                 in sft_rows U provider with_segments n (sft_add_row l with_segments b) l)))"

text \<open>\<open>None\<close> inside is the answer \<open>ok = false\<close>.\<close>

definition sft_next ::
  "unicode \<Rightarrow> conv_provider \<Rightarrow> bool \<Rightarrow> sft_loader \<Rightarrow> (unit, batch option \<times> sft_loader) outcome option" where
  "sft_next U provider with_segments l =
     (if sl_done l \<and> sl_conv_buffer l = [] then Some (Inr (None, l))
      else map_option (\<lambda>r. obind r (\<lambda>(b, l). Inr (Some b, l))) (sft_rows U provider with_segments (sl_B l) empty_batch l))"

section \<open>Lemmas: the scans and the scratch buffers\<close>

lemma best_fit_facts:
  assumes "best_fit remaining ns k (b, n0) = (r, n)"
  shows "n0 \<le> n \<and> (\<forall>m \<in> set ns. m \<le> remaining \<longrightarrow> m \<le> n) \<and>
    ((r, n) = (b, n0) \<or> (\<exists>j < length ns. r = Some (k + j) \<and> n = ns ! j \<and> n \<le> remaining \<and> n0 < n))"
  using assms
proof (induction ns arbitrary: k b n0)
  case (Cons m ns)
  show ?case
  proof (cases "m \<le> remaining \<and> m > n0")
    case True
    with Cons.prems have "best_fit remaining ns (k + 1) (Some k, m) = (r, n)" by simp
    from Cons.IH [OF this] consider "m \<le> n" "\<forall>x \<in> set ns. x \<le> remaining \<longrightarrow> x \<le> n" "r = Some k" "n = m"
      | j where "m \<le> n" "\<forall>x \<in> set ns. x \<le> remaining \<longrightarrow> x \<le> n" "j < length ns" "r = Some (k + 1 + j)" "n = ns ! j" "n \<le> remaining"
      by auto
    then show ?thesis
    proof cases
      case 1
      with True show ?thesis by (intro conjI disjI2 exI [of _ 0]) auto
    next
      case 2
      with True show ?thesis by (intro conjI disjI2 exI [of _ "Suc j"]) auto
    qed
  next
    case False
    with Cons.prems have "best_fit remaining ns (k + 1) (b, n0) = (r, n)" by auto
    from Cons.IH [OF this] consider "n0 \<le> n" "\<forall>x \<in> set ns. x \<le> remaining \<longrightarrow> x \<le> n" "(r, n) = (b, n0)"
      | j where "n0 < n" "\<forall>x \<in> set ns. x \<le> remaining \<longrightarrow> x \<le> n" "j < length ns" "r = Some (k + 1 + j)" "n = ns ! j" "n \<le> remaining"
      by auto
    then show ?thesis
    proof cases
      case 1
      with False show ?thesis by auto
    next
      case 2
      with False show ?thesis by (intro conjI disjI2 exI [of _ "Suc j"]) auto
    qed
  qed
qed simp

lemma shortest_index_facts:
  assumes "ns = drop k all" "s < length all" "\<forall>m \<in> set (take k all). all ! s \<le> m"
  shows "shortest_index all ns k s < length all \<and> (\<forall>m \<in> set all. all ! shortest_index all ns k s \<le> m)"
  using assms
proof (induction ns arbitrary: k s)
  case Nil
  then show ?case by simp
next
  case (Cons n ns)
  have k: "k < length all"
  proof (rule ccontr)
    assume "\<not> k < length all"
    with Cons.prems(1) show False by simp
  qed
  with Cons.prems(1) have kn: "n = all ! k" "ns = drop (k + 1) all"
    by (simp_all add: Cons_nth_drop_Suc [symmetric])
  let ?s = "if n < all ! s then k else s"
  have "\<forall>m \<in> set (take (k + 1) all). all ! ?s \<le> m"
    using Cons.prems(3) k kn(1) by (auto simp: take_Suc_conv_app_nth)
  from Cons.IH [OF kn(2) _ this] show ?case
    using Cons.prems(2) k kn(1) by simp
qed

lemma copy_at_facts:
  assumes "pos + length src \<le> length dst"
  shows "length (copy_at pos src dst) = length dst" "take (pos + length src) (copy_at pos src dst) = take pos dst @ src"
proof -
  have pos: "pos \<le> length dst" using assms by simp
  have "length (take pos dst @ src @ drop (pos + length src) dst) = length dst"
    using assms pos by simp
  then have *: "copy_at pos src dst = (take pos dst @ src) @ drop (pos + length src) dst"
    unfolding copy_at_def by (subst take_all) simp_all
  show "length (copy_at pos src dst) = length dst"
    using assms pos by (simp add: *)
  show "take (pos + length src) (copy_at pos src dst) = take pos dst @ src"
    unfolding * using pos by (simp add: min.absorb2)
qed

lemma fill_from_facts:
  assumes "pos + n \<le> length dst"
  shows "length (fill_from pos n x dst) = length dst" "take (pos + n) (fill_from pos n x dst) = take pos dst @ replicate n x"
  using copy_at_facts [of pos "replicate n x" dst] assms by (simp_all add: fill_from_def)

lemma mset_remove_nth: "i < length xs \<Longrightarrow> add_mset (xs ! i) (mset (remove_nth i xs)) = mset xs"
proof -
  assume i: "i < length xs"
  have "mset xs = mset (take i xs @ xs ! i # drop (Suc i) xs)"
    by (simp only: id_take_nth_drop [OF i, symmetric])
  then show ?thesis by (simp add: remove_nth_def)
qed

lemma set_remove_nth: "set (remove_nth i xs) \<subseteq> set xs"
  by (auto simp: remove_nth_def dest: in_set_takeD in_set_dropD)

section \<open>Lemmas: the pretraining loader\<close>

text \<open>What the provider gives between two of its calls, and the invariant of the loader.\<close>

definition pulled :: "unicode \<Rightarrow> 'pos doc_provider \<Rightarrow> tokenizer \<Rightarrow> nat \<Rightarrow> nat \<Rightarrow> int list list" where
  "pulled U provider tok a b = concat (map (\<lambda>i. map (document_row U tok) (fst (provider i))) [a..<b])"

definition pretrain_ok :: "'pos pretrain_loader \<Rightarrow> bool" where
  "pretrain_ok l \<longleftrightarrow> 0 < pl_buffer_size l \<and> length (pl_scratch l) = pl_T l + 1 \<and>
     length (pl_segment_scratch l) = pl_T l + 1 \<and>
     (\<forall>doc \<in> set (pl_doc_buffer l). \<exists>ids. doc = i32 (int (tk_bos (pl_tok l))) # ids)"

text \<open>From \<open>l\<close> to \<open>l'\<close> the documents \<open>used\<close> left the buffer, and everything pulled entered it.\<close>

definition consumed :: "unicode \<Rightarrow> 'pos doc_provider \<Rightarrow> 'pos pretrain_loader \<Rightarrow> int list list \<Rightarrow> 'pos pretrain_loader \<Rightarrow> bool" where
  "consumed U provider l used l' \<longleftrightarrow>
     pl_tok l' = pl_tok l \<and> pl_B l' = pl_B l \<and> pl_T l' = pl_T l \<and> pl_buffer_size l' = pl_buffer_size l \<and>
     pl_calls l \<le> pl_calls l' \<and>
     mset (pl_doc_buffer l) + mset (pulled U provider (pl_tok l) (pl_calls l) (pl_calls l')) =
       mset used + mset (pl_doc_buffer l')"

lemma pulled_append:
  "a \<le> b \<Longrightarrow> b \<le> c \<Longrightarrow> pulled U provider tok a c = pulled U provider tok a b @ pulled U provider tok b c"
  using upt_add_eq_append [of a b "c - b"] by (simp add: pulled_def)

lemma consumed_trans:
  assumes "consumed U provider l us l'" "consumed U provider l' vs l''"
  shows "consumed U provider l (us @ vs) l''"
proof -
  have "pulled U provider (pl_tok l) (pl_calls l) (pl_calls l'') =
      pulled U provider (pl_tok l) (pl_calls l) (pl_calls l') @ pulled U provider (pl_tok l) (pl_calls l') (pl_calls l'')"
    using assms by (intro pulled_append) (simp_all add: consumed_def)
  with assms show ?thesis
    by (auto simp: consumed_def add.assoc intro: order_trans) (metis add.assoc)
qed

lemma consumed_refl: "consumed U provider l [] l"
  by (simp add: consumed_def pulled_def)

lemma pull_documents_facts:
  assumes "pretrain_ok l"
  shows "pretrain_ok (pull_documents U provider l)" "consumed U provider l [] (pull_documents U provider l)"
    "pl_scratch (pull_documents U provider l) = pl_scratch l"
    "pl_segment_scratch (pull_documents U provider l) = pl_segment_scratch l"
    "pl_calls (pull_documents U provider l) = pl_calls l + 1"
    "length (pl_doc_buffer (pull_documents U provider l)) = length (pl_doc_buffer l) + length (fst (provider (pl_calls l)))"
  using assms
  by (auto simp: pull_documents_def pretrain_ok_def consumed_def pulled_def document_row_def split: prod.split)

text \<open>
  Induction for a refill loop: a round shrinks what the buffer lacks, or is an idle call of a provider
  that is not idle forever.
\<close>

lemma refill_induct:
  fixes lacks calls :: "'s \<Rightarrow> nat"
  assumes busy: "\<forall>n. \<exists>m \<ge> n. busy m"
    and step: "\<And>s. (\<And>t. lacks t < lacks s \<or> lacks t \<le> lacks s \<and> calls t = calls s + 1 \<and> \<not> busy (calls s) \<Longrightarrow> P t) \<Longrightarrow> P s"
  shows "P s"
proof -
  let ?next = "\<lambda>n. LEAST m. n \<le> m \<and> busy m"
  have waits: "?next (n + 1) - (n + 1) < ?next n - n" if "\<not> busy n" for n
  proof -
    have ex: "\<exists>m. n \<le> m \<and> busy m" using busy by blast
    have "n < ?next n"
      using LeastI_ex [OF ex] that by (metis le_neq_implies_less)
    moreover have "?next (n + 1) \<le> ?next n"
      using LeastI_ex [OF ex] calculation by (intro Least_le) simp
    ultimately show ?thesis by simp
  qed
  show ?thesis
  proof (induction s rule: wf_induct_rule [OF wf_measures, of "[lacks, \<lambda>s. ?next (calls s) - calls s]"])
    case (1 s)
    show ?case
      by (rule step, rule 1) (use waits [of "calls s"] in auto)
  qed
qed

lemma refill_total:
  assumes productive: "\<forall>n. \<exists>m \<ge> n. fst (provider m) \<noteq> []"
  shows "pretrain_ok l \<Longrightarrow> \<exists>l'. pretrain_refill U provider l = Some l' \<and> pretrain_ok l' \<and> consumed U provider l [] l' \<and>
    pl_scratch l' = pl_scratch l \<and> pl_segment_scratch l' = pl_segment_scratch l \<and> pl_doc_buffer l' \<noteq> []"
proof (induction l rule: refill_induct [OF productive, where calls = pl_calls
      and lacks = "\<lambda>l. nat (pl_buffer_size l - int (length (pl_doc_buffer l)))"])
  case (1 l)
  show ?case
  proof (cases "int (length (pl_doc_buffer l)) < pl_buffer_size l")
    case False
    then have "pretrain_refill U provider l = Some l"
      by (subst pretrain_refill.simps) simp
    moreover have "pl_doc_buffer l \<noteq> []"
      using False 1(2) by (auto simp: pretrain_ok_def)
    ultimately show ?thesis
      using 1(2) consumed_refl by blast
  next
    case True
    let ?u = "pull_documents U provider l"
    note pull = pull_documents_facts [OF 1(2), of U provider]
    have "pl_buffer_size ?u = pl_buffer_size l" using pull(2) by (simp add: consumed_def)
    with True 1(1) [OF _ pull(1)] obtain l' where "pretrain_refill U provider ?u = Some l'" "pretrain_ok l'"
      "consumed U provider ?u [] l'" "pl_scratch l' = pl_scratch ?u" "pl_segment_scratch l' = pl_segment_scratch ?u"
      "pl_doc_buffer l' \<noteq> []"
      using pull(5,6) by (cases "fst (provider (pl_calls l)) = []") auto
    moreover have "pretrain_refill U provider l = pretrain_refill U provider ?u"
      using True by (subst pretrain_refill.simps) simp
    ultimately show ?thesis
      using pull consumed_trans [OF pull(2), of "[]" l'] by auto
  qed
qed

text \<open>The refill loop returns exactly when the provider gives enough documents.\<close>

lemma refill_returns:
  "pl_buffer_size l \<le> int (length (pl_doc_buffer l) + length (pulled U provider (pl_tok l) (pl_calls l) (pl_calls l + n))) \<Longrightarrow>
    \<exists>l'. pretrain_refill U provider l = Some l'"
proof (induction n arbitrary: l)
  case 0
  then show ?case by (subst pretrain_refill.simps) (simp add: pulled_def)
next
  case (Suc n)
  let ?u = "pull_documents U provider l"
  have u: "pl_buffer_size ?u = pl_buffer_size l" "pl_tok ?u = pl_tok l" "pl_calls ?u = pl_calls l + 1"
    "length (pl_doc_buffer ?u) = length (pl_doc_buffer l) + length (fst (provider (pl_calls l)))"
    by (simp_all add: pull_documents_def split: prod.split)
  have "pulled U provider (pl_tok l) (pl_calls l) (pl_calls l + Suc n) =
      pulled U provider (pl_tok l) (pl_calls l) (pl_calls l + 1) @ pulled U provider (pl_tok l) (pl_calls l + 1) (pl_calls l + 1 + n)"
    by (subst pulled_append [of _ "pl_calls l + 1"]) simp_all
  with Suc.prems have "\<exists>l'. pretrain_refill U provider ?u = Some l'"
    by (intro Suc.IH) (simp add: u, simp add: pulled_def)
  then show ?case by (subst pretrain_refill.simps) simp
qed

lemma refill_returned:
  assumes "pretrain_refill U provider l = Some l'"
  shows "\<exists>n. pl_buffer_size l \<le> int (length (pl_doc_buffer l) + length (pulled U provider (pl_tok l) (pl_calls l) (pl_calls l + n)))"
proof (rule pretrain_refill.raw_induct [OF _ assms, where P = "\<lambda>U provider l _. \<exists>n. pl_buffer_size l \<le>
      int (length (pl_doc_buffer l) + length (pulled U provider (pl_tok l) (pl_calls l) (pl_calls l + n)))"])
  fix refill U l l' and provider :: "'a doc_provider"
  assume IH: "\<And>U provider l l'. refill U provider l = Some l' \<Longrightarrow> \<exists>n. pl_buffer_size l \<le>
      int (length (pl_doc_buffer l) + length (pulled U provider (pl_tok l) (pl_calls l) (pl_calls l + n)))"
    and body: "(if int (length (pl_doc_buffer l)) < pl_buffer_size l
      then refill U provider (pull_documents U provider l) else Some l) = Some l'"
  show "\<exists>n. pl_buffer_size l \<le>
      int (length (pl_doc_buffer l) + length (pulled U provider (pl_tok l) (pl_calls l) (pl_calls l + n)))"
  proof (cases "int (length (pl_doc_buffer l)) < pl_buffer_size l")
    case False
    then show ?thesis by (intro exI [of _ 0]) simp
  next
    case True
    let ?u = "pull_documents U provider l"
    have u: "pl_buffer_size ?u = pl_buffer_size l" "pl_tok ?u = pl_tok l" "pl_calls ?u = pl_calls l + 1"
      "length (pl_doc_buffer ?u) = length (pl_doc_buffer l) + length (fst (provider (pl_calls l)))"
      by (simp_all add: pull_documents_def split: prod.split)
    from True body have "refill U provider ?u = Some l'" by simp
    from IH [OF this] obtain n where "pl_buffer_size ?u \<le>
        int (length (pl_doc_buffer ?u) + length (pulled U provider (pl_tok ?u) (pl_calls ?u) (pl_calls ?u + n)))" ..
    moreover have "pulled U provider (pl_tok l) (pl_calls l) (pl_calls l + Suc n) =
        pulled U provider (pl_tok l) (pl_calls l) (pl_calls l + 1) @ pulled U provider (pl_tok l) (pl_calls l + 1) (pl_calls l + 1 + n)"
      by (subst pulled_append [of _ "pl_calls l + 1"]) simp_all
    ultimately show ?thesis
      by (intro exI [of _ "Suc n"]) (simp add: u, simp add: pulled_def)
  qed
qed

text \<open>
  The refill loop of the pretraining loader returns if and only if the provider gives, in finitely
  many calls, the documents that the buffer lacks: on a source that runs dry, \<open>Next\<close> hangs.
\<close>
theorem pretrain_refill_returns_iff:
  "pretrain_refill U provider l \<noteq> None \<longleftrightarrow>
    (\<exists>n. pl_buffer_size l \<le>
       int (length (pl_doc_buffer l) + length (pulled U provider (pl_tok l) (pl_calls l) (pl_calls l + n))))"
  using refill_returns refill_returned by blast

text \<open>One placed document: a whole one that fits, or the beginning of a shortest one.\<close>

definition starts_with_bos :: "tokenizer \<Rightarrow> int list \<Rightarrow> bool" where
  "starts_with_bos tok doc \<longleftrightarrow> doc \<noteq> [] \<and> hd doc = i32 (int (tk_bos tok))"

lemma pretrain_ok_bos: "pretrain_ok l \<Longrightarrow> doc \<in> set (pl_doc_buffer l) \<Longrightarrow> starts_with_bos (pl_tok l) doc"
  by (auto simp: pretrain_ok_def starts_with_bos_def)

lemma put_document:
  assumes ok: "pretrain_ok l" and i: "i < length (pl_doc_buffer l)"
    and seg: "length seg = pl_T l + 1" and scr: "length scr = pl_T l + 1"
  shows "pretrain_ok (l\<lparr>pl_doc_buffer := remove_nth i (pl_doc_buffer l), pl_scratch := scr, pl_segment_scratch := seg\<rparr>)"
    "consumed U provider l [pl_doc_buffer l ! i]
      (l\<lparr>pl_doc_buffer := remove_nth i (pl_doc_buffer l), pl_scratch := scr, pl_segment_scratch := seg\<rparr>)"
  using ok seg scr mset_remove_nth [OF i] set_remove_nth [of i "pl_doc_buffer l"]
  by (auto simp: pretrain_ok_def consumed_def pulled_def)

lemma place_document_facts:
  assumes ok: "pretrain_ok l" and nonempty: "pl_doc_buffer l \<noteq> []" and pos: "pos < pl_T l + 1"
  obtains doc n l' where "place_document ws pos seg l = Inr (pos + n, l')" "pretrain_ok l'"
    "consumed U provider l [doc] l'" "starts_with_bos (pl_tok l) doc" "n = min (length doc) (pl_T l + 1 - pos)"
    "take (pos + n) (pl_scratch l') = take pos (pl_scratch l) @ take n doc"
    "ws \<longrightarrow> take (pos + n) (pl_segment_scratch l') = take pos (pl_segment_scratch l) @ replicate n seg"
    "pl_T l + 1 - pos < length doc \<longrightarrow> (\<forall>d \<in> set (pl_doc_buffer l'). length doc \<le> length d)"
proof -
  let ?rem = "pl_T l + 1 - pos"
  let ?lens = "map length (pl_doc_buffer l)"
  obtain r n where best: "best_fit ?rem ?lens 0 (None, 0) = (r, n)" by fastforce
  note facts = best_fit_facts [OF best]
  let ?put = "\<lambda>i doc. l\<lparr>pl_doc_buffer := remove_nth i (pl_doc_buffer l), pl_scratch := copy_at pos doc (pl_scratch l),
      pl_segment_scratch := (if ws then fill_from pos (length doc) seg (pl_segment_scratch l) else pl_segment_scratch l)\<rparr>"
  have put: "pretrain_ok (?put i doc)" "consumed U provider l [pl_doc_buffer l ! i] (?put i doc)"
      "take (pos + length doc) (pl_scratch (?put i doc)) = take pos (pl_scratch l) @ doc"
      "ws \<Longrightarrow> take (pos + length doc) (pl_segment_scratch (?put i doc)) = take pos (pl_segment_scratch l) @ replicate (length doc) seg"
    if i: "i < length (pl_doc_buffer l)" and fits: "pos + length doc \<le> pl_T l + 1" for i doc
  proof -
    have len: "length (if ws then fill_from pos (length doc) seg (pl_segment_scratch l) else pl_segment_scratch l) = pl_T l + 1"
      "length (copy_at pos doc (pl_scratch l)) = pl_T l + 1"
      using ok fits by (simp_all add: pretrain_ok_def copy_at_facts fill_from_facts)
    show "pretrain_ok (?put i doc)" "consumed U provider l [pl_doc_buffer l ! i] (?put i doc)"
      by (rule put_document [OF ok i len])+
    show "take (pos + length doc) (pl_scratch (?put i doc)) = take pos (pl_scratch l) @ doc"
      "ws \<Longrightarrow> take (pos + length doc) (pl_segment_scratch (?put i doc)) = take pos (pl_segment_scratch l) @ replicate (length doc) seg"
      using ok fits by (simp_all add: pretrain_ok_def copy_at_facts fill_from_facts)
  qed
  show thesis
  proof (cases r)
    case (Some i)
    with facts have i: "i < length (pl_doc_buffer l)" "n = length (pl_doc_buffer l ! i)" "n \<le> ?rem" by auto
    have fits: "pos + length (pl_doc_buffer l ! i) \<le> pl_T l + 1"
      using i pos by simp
    show thesis
    proof (rule that)
      show "place_document ws pos seg l = Inr (pos + n, ?put i (pl_doc_buffer l ! i))"
        using best Some by (simp add: place_document_def)
      show "starts_with_bos (pl_tok l) (pl_doc_buffer l ! i)"
        using pretrain_ok_bos [OF ok] i by simp
    qed (use put [OF i(1) fits] i in \<open>simp_all\<close>)
  next
    case None
    let ?i = "shortest_index ?lens ?lens 0 0"
    have i: "?i < length (pl_doc_buffer l)" "\<forall>m \<in> set ?lens. ?lens ! ?i \<le> m"
      using shortest_index_facts [of ?lens 0 ?lens 0] nonempty by auto
    let ?doc = "pl_doc_buffer l ! ?i"
    have bos: "starts_with_bos (pl_tok l) ?doc"
      using pretrain_ok_bos [OF ok] i(1) by simp
    have "n = 0" using facts None by auto
    with facts i(1) bos have long: "?rem < length ?doc"
      by (force simp: starts_with_bos_def not_le [symmetric])
    have fits: "pos + length (take ?rem ?doc) \<le> pl_T l + 1"
      using pos long by simp
    have n: "length (take ?rem ?doc) = ?rem" using long by simp
    show thesis
    proof (rule that)
      show "place_document ws pos seg l = Inr (pos + ?rem, ?put ?i (take ?rem ?doc))"
        using best None nonempty long by (simp add: place_document_def panic_if_def Let_def)
      show "?rem < length ?doc \<longrightarrow> (\<forall>d \<in> set (pl_doc_buffer (?put ?i (take ?rem ?doc))). length ?doc \<le> length d)"
        using i set_remove_nth [of ?i "pl_doc_buffer l"] by auto
    qed (use put [OF i(1) fits] bos long n in \<open>simp_all\<close>)
  qed
qed

text \<open>The numbers of the documents, one per token.\<close>

fun segment_labels :: "int \<Rightarrow> int list list \<Rightarrow> int list" where
  "segment_labels s [] = []"
| "segment_labels s (doc # docs) = replicate (length doc) s @ segment_labels (i32 (s + 1)) docs"

text \<open>The documents of a row fill \<open>n\<close> places, and only the last of them is cropped.\<close>

definition fills :: "nat \<Rightarrow> int list list \<Rightarrow> bool" where
  "fills n docs \<longleftrightarrow> n \<le> length (concat docs) \<and> (docs \<noteq> [] \<longrightarrow> length (concat (butlast docs)) < n)"

lemma fills_Cons: "doc \<noteq> [] \<Longrightarrow> 0 < n \<Longrightarrow> fills (n - min (length doc) n) docs \<Longrightarrow> fills n (doc # docs)"
  by (cases docs) (auto simp: fills_def min_def split: if_splits)

lemma take_labels:
  "take n (segment_labels s (doc # docs)) =
    replicate (min (length doc) n) s @ take (n - min (length doc) n) (segment_labels (i32 (s + 1)) docs)"
  by (simp add: min_def)

lemma pack_row_facts:
  assumes productive: "\<forall>n. \<exists>m \<ge> n. fst (provider m) \<noteq> []"
  shows "pretrain_ok l \<Longrightarrow> pos \<le> pl_T l + 1 \<Longrightarrow>
    \<exists>l' docs. pack_row U provider ws pos seg l = Some (Inr l') \<and> pretrain_ok l' \<and> consumed U provider l docs l' \<and>
      (\<forall>doc \<in> set docs. starts_with_bos (pl_tok l) doc) \<and> fills (pl_T l + 1 - pos) docs \<and>
      pl_scratch l' = take pos (pl_scratch l) @ take (pl_T l + 1 - pos) (concat docs) \<and>
      (ws \<longrightarrow> pl_segment_scratch l' = take pos (pl_segment_scratch l) @ take (pl_T l + 1 - pos) (segment_labels seg docs)) \<and>
      (pl_T l + 1 - pos < length (concat docs) \<longrightarrow> (\<forall>d \<in> set (pl_doc_buffer l'). length (last docs) \<le> length d))"
proof (induction "pl_T l + 1 - pos" arbitrary: l pos seg rule: less_induct)
  case less
  show ?case
  proof (cases "pos < pl_T l + 1")
    case False
    with less.prems show ?thesis
      by (intro exI [of _ l] exI [of _ "[]"])
        (subst pack_row.simps, simp add: consumed_refl fills_def pretrain_ok_def)
  next
    case pos: True
    obtain l1 where l1: "pretrain_refill U provider l = Some l1" "pretrain_ok l1" "consumed U provider l [] l1"
        "pl_scratch l1 = pl_scratch l" "pl_segment_scratch l1 = pl_segment_scratch l" "pl_doc_buffer l1 \<noteq> []"
      using refill_total [OF productive less.prems(1)] by blast
    have T1: "pl_T l1 = pl_T l" "pl_tok l1 = pl_tok l" using l1(3) by (auto simp: consumed_def)
    with pos have pos1: "pos < pl_T l1 + 1" by simp
    obtain doc n l2 where l2: "place_document ws pos seg l1 = Inr (pos + n, l2)" "pretrain_ok l2"
        "consumed U provider l1 [doc] l2" "starts_with_bos (pl_tok l1) doc" "n = min (length doc) (pl_T l1 + 1 - pos)"
        "take (pos + n) (pl_scratch l2) = take pos (pl_scratch l1) @ take n doc"
        "ws \<longrightarrow> take (pos + n) (pl_segment_scratch l2) = take pos (pl_segment_scratch l1) @ replicate n seg"
        "pl_T l1 + 1 - pos < length doc \<longrightarrow> (\<forall>d \<in> set (pl_doc_buffer l2). length doc \<le> length d)"
      by (rule place_document_facts [OF l1(2,6) pos1, where ws = ws and seg = seg and U = U and provider = provider])
    have T2: "pl_T l2 = pl_T l" "pl_tok l2 = pl_tok l" using l2(3) T1 by (auto simp: consumed_def)
    have doc: "doc \<noteq> []" using l2(4) by (simp add: starts_with_bos_def)
    then have n: "0 < n" "pos + n \<le> pl_T l2 + 1" "pl_T l2 + 1 - (pos + n) < pl_T l + 1 - pos"
      using l2(5) pos T1 T2 by (cases doc; simp; linarith)+
    from less.hyps [OF n(3) l2(2) n(2), of "i32 (seg + 1)"] obtain l' docs where
      l': "pack_row U provider ws (pos + n) (i32 (seg + 1)) l2 = Some (Inr l')" "pretrain_ok l'" "consumed U provider l2 docs l'"
        "\<forall>doc \<in> set docs. starts_with_bos (pl_tok l2) doc" "fills (pl_T l2 + 1 - (pos + n)) docs"
        "pl_scratch l' = take (pos + n) (pl_scratch l2) @ take (pl_T l2 + 1 - (pos + n)) (concat docs)"
        "ws \<longrightarrow> pl_segment_scratch l' = take (pos + n) (pl_segment_scratch l2) @
          take (pl_T l2 + 1 - (pos + n)) (segment_labels (i32 (seg + 1)) docs)"
        "pl_T l2 + 1 - (pos + n) < length (concat docs) \<longrightarrow> (\<forall>d \<in> set (pl_doc_buffer l'). length (last docs) \<le> length d)"
      by blast
    have left: "pl_T l2 + 1 - (pos + n) = pl_T l + 1 - pos - min (length doc) (pl_T l + 1 - pos)"
      using l2(5) T1 T2 by simp
    have fills: "fills (pl_T l + 1 - pos) (doc # docs)"
      using l'(5) pos unfolding left by (intro fills_Cons [OF doc]) simp_all
    show ?thesis
    proof (intro exI [of _ l'] exI [of _ "doc # docs"] conjI impI)
      show "pack_row U provider ws pos seg l = Some (Inr l')"
        using pos l1(1) l2(1) l'(1) by (subst pack_row.simps) simp
      show "consumed U provider l (doc # docs) l'"
        using consumed_trans [OF l1(3) consumed_trans [OF l2(3) l'(3)]] by simp
      show "\<forall>doc \<in> set (doc # docs). starts_with_bos (pl_tok l) doc"
        using l2(4) l'(4) T1 T2 by simp
      show "pl_scratch l' = take pos (pl_scratch l) @ take (pl_T l + 1 - pos) (concat (doc # docs))"
        using l'(6) l2(5,6) l1(4) T1 T2 by (simp add: min_def)
      show "pl_segment_scratch l' = take pos (pl_segment_scratch l) @ take (pl_T l + 1 - pos) (segment_labels seg (doc # docs))" if ws
        using that l'(7) l2(5,7) l1(5) T1 T2 left by (simp add: take_labels del: segment_labels.simps)
      show "\<forall>d \<in> set (pl_doc_buffer l'). length (last (doc # docs)) \<le> length d"
        if long: "pl_T l + 1 - pos < length (concat (doc # docs))"
      proof (cases "docs = []")
        case True
        with l'(1,5) long n(2) have "l' = l2" "pl_T l1 + 1 - pos < length doc"
          using T1 T2 l2(5) by (auto simp: fills_def pack_row.simps)
        then show ?thesis using l2(8) True by simp
      next
        case False
        then have "pl_T l2 + 1 - (pos + n) < length (concat docs)"
          using l'(5) long left by (auto simp: fills_def min_def split: if_splits)
        then show ?thesis using l'(8) False by simp
      qed
    qed (use l' fills in simp_all)
  qed
qed

lemma consumed_fields:
  assumes "consumed U provider l used l'"
  shows "pl_tok l' = pl_tok l" "pl_B l' = pl_B l" "pl_T l' = pl_T l"
  using assms by (simp_all add: consumed_def)

text \<open>A row of the batch, as a function of the documents that the loader packed into it.\<close>

definition row_ok :: "tokenizer \<Rightarrow> nat \<Rightarrow> int list list \<Rightarrow> bool" where
  "row_ok tok T docs \<longleftrightarrow> fills (T + 1) docs \<and> list_all (starts_with_bos tok) docs"

definition batch_of :: "bool \<Rightarrow> nat \<Rightarrow> int list list list \<Rightarrow> batch" where
  "batch_of ws T rows =
     \<lparr>bt_inputs = map (\<lambda>docs. take T (concat docs)) rows,
      bt_targets = map (\<lambda>docs. take T (drop 1 (concat docs))) rows,
      bt_segments = (if ws then map (\<lambda>docs. take T (segment_labels 0 docs)) rows else [])\<rparr>"

lemma add_row_batch:
  assumes "pl_scratch l = take (pl_T l + 1) (concat docs)" "ws \<longrightarrow> pl_segment_scratch l = take (pl_T l + 1) (segment_labels 0 docs)"
  shows "add_row l ws (batch_of ws (pl_T l) rows) = batch_of ws (pl_T l) (rows @ [docs])"
  using assms by (auto simp: add_row_def batch_of_def min_def drop_take)

lemma pretrain_rows_facts:
  assumes productive: "\<forall>n. \<exists>m \<ge> n. fst (provider m) \<noteq> []"
  shows "pretrain_ok l \<Longrightarrow>
    \<exists>l' rows. pretrain_rows U provider ws n (batch_of ws (pl_T l) before) l = Some (Inr (batch_of ws (pl_T l) (before @ rows), l')) \<and>
      pretrain_ok l' \<and> consumed U provider l (concat rows) l' \<and> length rows = n \<and> list_all (row_ok (pl_tok l) (pl_T l)) rows"
proof (induction n arbitrary: l before)
  case 0
  then show ?case by (intro exI [of _ l] exI [of _ "[]"]) (simp add: consumed_refl)
next
  case (Suc n)
  obtain l1 docs where l1: "pack_row U provider ws 0 0 l = Some (Inr l1)" "pretrain_ok l1" "consumed U provider l docs l1"
      "\<forall>doc \<in> set docs. starts_with_bos (pl_tok l) doc" "fills (pl_T l + 1) docs"
      "pl_scratch l1 = take (pl_T l + 1) (concat docs)" "ws \<longrightarrow> pl_segment_scratch l1 = take (pl_T l + 1) (segment_labels 0 docs)"
    using pack_row_facts [OF productive Suc.prems, of 0 U ws 0] by auto
  note fields = consumed_fields [OF l1(3)]
  obtain l' rows where l': "pretrain_rows U provider ws n (batch_of ws (pl_T l1) (before @ [docs])) l1 =
        Some (Inr (batch_of ws (pl_T l1) ((before @ [docs]) @ rows), l'))"
      "pretrain_ok l'" "consumed U provider l1 (concat rows) l'" "length rows = n" "list_all (row_ok (pl_tok l1) (pl_T l1)) rows"
    using Suc.IH [OF l1(2)] by blast
  have "add_row l1 ws (batch_of ws (pl_T l) before) = batch_of ws (pl_T l) (before @ [docs])"
    using add_row_batch [of l1 docs ws before] l1(6,7) by (simp add: fields)
  then have "pretrain_rows U provider ws (Suc n) (batch_of ws (pl_T l) before) l =
      Some (Inr (batch_of ws (pl_T l) (before @ docs # rows), l'))"
    using l1(1) l'(1) by (simp add: fields)
  moreover have "consumed U provider l (concat (docs # rows)) l'"
    using consumed_trans [OF l1(3) l'(3)] by simp
  moreover have "row_ok (pl_tok l) (pl_T l) docs"
    using l1(4,5) by (simp add: row_ok_def list_all_iff)
  ultimately show ?case
    using l'(2,4,5) by (intro exI [of _ l'] exI [of _ "docs # rows"]) (simp add: fields)
qed

text \<open>
  C27. \<open>Next\<close> of the pretraining loader returns on every productive provider, and the batch is made of
  whole documents: each of the \<open>B\<close> rows is the first \<open>T + 1\<close> tokens of a run of documents that all begin
  with BOS, of which only the last is cropped; inputs and targets are that run, shifted by one; segments
  number its documents; and each document pulled from the provider is used once or still in the buffer.
\<close>
theorem pretrain_next_packs:
  assumes "\<forall>n. \<exists>m \<ge> n. fst (provider m) \<noteq> []" "pretrain_ok l"
  shows "\<exists>rows l'. pretrain_next U provider ws l = Some (Inr (batch_of ws (pl_T l) rows, pl_state l', l')) \<and>
    pretrain_ok l' \<and> consumed U provider l (concat rows) l' \<and> length rows = pl_B l \<and> list_all (row_ok (pl_tok l) (pl_T l)) rows"
proof -
  have "empty_batch = batch_of ws (pl_T l) []"
    by (simp add: empty_batch_def batch_of_def)
  then show ?thesis
    using pretrain_rows_facts [OF assms, of U ws "pl_B l" "[]"] by (auto simp: pretrain_next_def)
qed

theorem pretrain_next_packs_witness:
  "\<exists>rows l'. pretrain_next example_unicode (\<lambda>_. ([[97, 98], [99]], (0 :: int))) True
      (new_pretrain_loader example_tokenizer 2 3 0 0) =
      Some (Inr (batch_of True 3 rows, pl_state l', l')) \<and>
    consumed example_unicode (\<lambda>_. ([[97, 98], [99]], 0)) (new_pretrain_loader example_tokenizer 2 3 0 0) (concat rows) l' \<and>
    length rows = 2 \<and> list_all (row_ok example_tokenizer 3) rows"
  using pretrain_next_packs [of "\<lambda>_. ([[97, 98], [99]], 0 :: int)" "new_pretrain_loader example_tokenizer 2 3 0 0"
      example_unicode True]
  by (auto simp: new_pretrain_loader_def pretrain_ok_def)

section \<open>Lemmas: the SFT loader\<close>

definition sft_pulled :: "unicode \<Rightarrow> conv_provider \<Rightarrow> tokenizer \<Rightarrow> nat \<Rightarrow> nat \<Rightarrow> conv_with_mask list" where
  "sft_pulled U provider tok a b =
     concat (map (\<lambda>i. case provider i of None \<Rightarrow> []
       | Some convs \<Rightarrow> (case render_all U tok convs of Inl _ \<Rightarrow> [] | Inr rows \<Rightarrow> rows)) [a..<b])"

definition sft_ok :: "sft_loader \<Rightarrow> bool" where
  "sft_ok l \<longleftrightarrow> 0 < sl_buffer_size l \<and> length (sl_scratch l) = sl_T l + 1 \<and> length (sl_mask_scratch l) = sl_T l + 1 \<and>
     length (sl_segment_scratch l) = sl_T l + 1 \<and> (\<forall>c \<in> set (sl_conv_buffer l). length (cw_mask c) = length (cw_ids c))"

definition sft_consumed :: "unicode \<Rightarrow> conv_provider \<Rightarrow> sft_loader \<Rightarrow> conv_with_mask list \<Rightarrow> sft_loader \<Rightarrow> bool" where
  "sft_consumed U provider l used l' \<longleftrightarrow>
     sl_tok l' = sl_tok l \<and> sl_B l' = sl_B l \<and> sl_T l' = sl_T l \<and> sl_buffer_size l' = sl_buffer_size l \<and>
     sl_calls l \<le> sl_calls l' \<and>
     mset (sl_conv_buffer l) + mset (sft_pulled U provider (sl_tok l) (sl_calls l) (sl_calls l')) =
       mset used + mset (sl_conv_buffer l')"

definition endless :: "conv_provider \<Rightarrow> bool" where
  "endless provider \<longleftrightarrow> (\<forall>n. provider n \<noteq> None)"

text \<open>A provider that gives conversations or ends, and a tokenizer that renders what it gives.\<close>

definition sft_source :: "unicode \<Rightarrow> conv_provider \<Rightarrow> tokenizer \<Rightarrow> bool" where
  "sft_source U provider tok \<longleftrightarrow> (\<forall>n. \<exists>m \<ge> n. provider m \<noteq> Some []) \<and>
     (\<forall>m convs. provider m = Some convs \<longrightarrow> (\<exists>rows. render_all U tok convs = Inr rows))"

lemma sft_pulled_append:
  "a \<le> b \<Longrightarrow> b \<le> c \<Longrightarrow> sft_pulled U provider tok a c = sft_pulled U provider tok a b @ sft_pulled U provider tok b c"
  using upt_add_eq_append [of a b "c - b"] by (simp add: sft_pulled_def)

lemma sft_consumed_trans:
  assumes "sft_consumed U provider l us l'" "sft_consumed U provider l' vs l''"
  shows "sft_consumed U provider l (us @ vs) l''"
proof -
  have "sft_pulled U provider (sl_tok l) (sl_calls l) (sl_calls l'') =
      sft_pulled U provider (sl_tok l) (sl_calls l) (sl_calls l') @ sft_pulled U provider (sl_tok l) (sl_calls l') (sl_calls l'')"
    using assms by (intro sft_pulled_append) (simp_all add: sft_consumed_def)
  with assms show ?thesis
    by (auto simp: sft_consumed_def add.assoc intro: order_trans) (metis add.assoc)
qed

lemma sft_consumed_refl: "sft_consumed U provider l [] l"
  by (simp add: sft_consumed_def sft_pulled_def)

lemma sft_consumed_fields:
  assumes "sft_consumed U provider l used l'"
  shows "sl_tok l' = sl_tok l" "sl_B l' = sl_B l" "sl_T l' = sl_T l"
  using assms by (simp_all add: sft_consumed_def)

lemma render_all_lengths:
  "render_all U tok convs = Inr rows \<Longrightarrow>
    length rows = length convs \<and> (\<forall>c \<in> set rows. length (cw_mask c) = length (cw_ids c))"
proof (induction convs arbitrary: rows)
  case (Cons c convs)
  then obtain ids marks rest where 1: "render_conversation U tok c (2 ^ 30) = Inr (ids, marks)"
      "render_all U tok convs = Inr rest" "rows = \<lparr>cw_ids = to_int32 ids, cw_mask = to_int32 marks\<rparr> # rest"
    by (auto simp: obind_eq_Inr)
  have "length ids = length marks"
    using render_conversation_eq [OF 1(1)] render_conversation_empty [of U c tok "2 ^ 30"] 1(1)
    by (cases "with_instructions (instructions U c) (conv_messages c) = []") auto
  with 1 Cons.IH [OF 1(2)] show ?case by (simp add: to_int32_def)
qed simp

lemma sft_pull_facts:
  assumes "sft_ok l" "provider (sl_calls l) = Some convs" "render_all U (sl_tok l) convs = Inr rows"
  defines "u \<equiv> l\<lparr>sl_calls := sl_calls l + 1, sl_conv_buffer := sl_conv_buffer l @ rows\<rparr>"
  shows "sft_ok u" "sft_consumed U provider l [] u"
    "length (sl_conv_buffer u) = length (sl_conv_buffer l) + length convs"
  using assms(1,2) render_all_lengths [OF assms(3)] assms(3)
  by (auto simp: u_def sft_ok_def sft_consumed_def sft_pulled_def)

lemma sft_refill_total:
  assumes source: "sft_source U provider tok"
  shows "sft_ok l \<Longrightarrow> sl_tok l = tok \<Longrightarrow>
    \<exists>l'. sft_refill U provider l = Some (Inr l') \<and> sft_ok l' \<and> sft_consumed U provider l [] l' \<and>
      sl_scratch l' = sl_scratch l \<and> sl_mask_scratch l' = sl_mask_scratch l \<and>
      sl_segment_scratch l' = sl_segment_scratch l \<and> (sl_conv_buffer l' = [] \<longrightarrow> sl_done l') \<and>
      (endless provider \<longrightarrow> sl_conv_buffer l' \<noteq> [] \<and> sl_done l' = sl_done l)"
proof (induction l rule: refill_induct [where calls = sl_calls and busy = "\<lambda>m. provider m \<noteq> Some []"
      and lacks = "\<lambda>l. nat (sl_buffer_size l - int (length (sl_conv_buffer l)))"])
  case 1
  show ?case using source by (simp add: sft_source_def)
next
  case (2 l)
  consider "\<not> int (length (sl_conv_buffer l)) < sl_buffer_size l"
    | "int (length (sl_conv_buffer l)) < sl_buffer_size l" "provider (sl_calls l) = None"
    | convs where "int (length (sl_conv_buffer l)) < sl_buffer_size l" "provider (sl_calls l) = Some convs"
    by fastforce
  then show ?case
  proof cases
    case 1
    then have "sft_refill U provider l = Some (Inr l)"
      by (subst sft_refill.simps) simp
    moreover have "sl_conv_buffer l \<noteq> []"
      using 1 2(2) by (auto simp: sft_ok_def)
    ultimately show ?thesis using 2(2) sft_consumed_refl by blast
  next
    case 2
    then have "sft_refill U provider l = Some (Inr (l\<lparr>sl_calls := sl_calls l + 1, sl_done := True\<rparr>))"
      by (subst sft_refill.simps) simp
    moreover have "\<not> endless provider" using 2(2) by (auto simp: endless_def)
    ultimately show ?thesis
      using \<open>sft_ok l\<close> 2(2)
      by (simp add: sft_ok_def sft_consumed_def sft_pulled_def)
  next
    case (3 convs)
    then obtain rows where rows: "render_all U (sl_tok l) convs = Inr rows"
      using source \<open>sl_tok l = tok\<close> unfolding sft_source_def by blast
    let ?u = "l\<lparr>sl_calls := sl_calls l + 1, sl_conv_buffer := sl_conv_buffer l @ rows\<rparr>"
    note u = sft_pull_facts [where provider = provider, OF \<open>sft_ok l\<close> 3(2) rows]
    have "\<exists>l'. sft_refill U provider ?u = Some (Inr l') \<and> sft_ok l' \<and> sft_consumed U provider ?u [] l' \<and>
      sl_scratch l' = sl_scratch ?u \<and> sl_mask_scratch l' = sl_mask_scratch ?u \<and>
      sl_segment_scratch l' = sl_segment_scratch ?u \<and> (sl_conv_buffer l' = [] \<longrightarrow> sl_done l') \<and>
      (endless provider \<longrightarrow> sl_conv_buffer l' \<noteq> [] \<and> sl_done l' = sl_done ?u)"
      using 3 u(3) \<open>sl_tok l = tok\<close> by (intro 2(1) u(1)) auto
    moreover have "sft_refill U provider l = sft_refill U provider ?u"
      using 3 rows by (subst sft_refill.simps) simp
    ultimately show ?thesis
      using sft_consumed_trans [OF u(2)] by auto
  qed
qed


lemma put_conversation:
  assumes ok: "sft_ok l" and i: "i < length (sl_conv_buffer l)"
    and lens: "length scr = sl_T l + 1" "length msk = sl_T l + 1" "length seg = sl_T l + 1"
  shows "sft_ok (l\<lparr>sl_conv_buffer := remove_nth i (sl_conv_buffer l), sl_scratch := scr, sl_mask_scratch := msk, sl_segment_scratch := seg\<rparr>)"
    "sft_consumed U provider l [sl_conv_buffer l ! i]
      (l\<lparr>sl_conv_buffer := remove_nth i (sl_conv_buffer l), sl_scratch := scr, sl_mask_scratch := msk, sl_segment_scratch := seg\<rparr>)"
  using ok lens mset_remove_nth [OF i] set_remove_nth [of i "sl_conv_buffer l"]
  by (auto simp: sft_ok_def sft_consumed_def sft_pulled_def)

lemma place_conversation_None:
  assumes "place_conversation ws pos seg l = None" "c \<in> set (sl_conv_buffer l)" "pos \<le> sl_T l + 1"
  shows "cw_ids c = [] \<or> sl_T l + 1 < pos + length (cw_ids c)"
proof -
  obtain r n where best: "best_fit (sl_T l + 1 - pos) (map (length \<circ> cw_ids) (sl_conv_buffer l)) 0 (None, 0) = (r, n)"
    by fastforce
  with assms(1) have "r = None"
    by (auto simp: place_conversation_def Let_def split: option.splits)
  with best_fit_facts [OF best] have "\<forall>m \<in> set (map (length \<circ> cw_ids) (sl_conv_buffer l)). m \<le> sl_T l + 1 - pos \<longrightarrow> m \<le> 0"
    by auto
  with assms(2) have "length (cw_ids c) \<le> sl_T l + 1 - pos \<longrightarrow> length (cw_ids c) \<le> 0" by auto
  with assms(3) show ?thesis by (cases "cw_ids c = []") auto
qed

lemma place_conversation_Some:
  assumes place: "place_conversation ws pos seg l = Some (pos', l')" and ok: "sft_ok l" and pos: "pos \<le> sl_T l + 1"
  obtains c where "cw_ids c \<noteq> []" "length (cw_mask c) = length (cw_ids c)" "pos' = pos + length (cw_ids c)" "pos' \<le> sl_T l + 1"
    "sft_ok l'" "sft_consumed U provider l [c] l'"
    "take pos' (sl_scratch l') = take pos (sl_scratch l) @ cw_ids c"
    "take pos' (sl_mask_scratch l') = take pos (sl_mask_scratch l) @ cw_mask c"
    "ws \<longrightarrow> take pos' (sl_segment_scratch l') = take pos (sl_segment_scratch l) @ replicate (length (cw_ids c)) seg"
proof -
  obtain r n where best: "best_fit (sl_T l + 1 - pos) (map (length \<circ> cw_ids) (sl_conv_buffer l)) 0 (None, 0) = (r, n)"
    by fastforce
  with place obtain i where r: "r = Some i" by (auto simp: place_conversation_def split: option.splits)
  let ?c = "sl_conv_buffer l ! i"
  from best_fit_facts [OF best] r have i: "i < length (sl_conv_buffer l)" "n = length (cw_ids ?c)" "n \<le> sl_T l + 1 - pos" "0 < n"
    by auto
  let ?seg = "if ws then fill_from pos (length (cw_ids ?c)) seg (sl_segment_scratch l) else sl_segment_scratch l"
  have l': "pos' = pos + n" "l' = l\<lparr>sl_conv_buffer := remove_nth i (sl_conv_buffer l), sl_scratch := copy_at pos (cw_ids ?c) (sl_scratch l),
      sl_mask_scratch := copy_at pos (cw_mask ?c) (sl_mask_scratch l), sl_segment_scratch := ?seg\<rparr>"
    using place best r by (auto simp: place_conversation_def Let_def)
  have mask: "length (cw_mask ?c) = length (cw_ids ?c)"
    using ok i(1) by (simp add: sft_ok_def)
  have fits: "pos + length (cw_ids ?c) \<le> sl_T l + 1"
    using i pos by simp
  have lens: "length (copy_at pos (cw_ids ?c) (sl_scratch l)) = sl_T l + 1"
      "length (copy_at pos (cw_mask ?c) (sl_mask_scratch l)) = sl_T l + 1" "length ?seg = sl_T l + 1"
    using ok fits mask by (simp_all add: sft_ok_def copy_at_facts fill_from_facts)
  show thesis
  proof (rule that)
    show "cw_ids ?c \<noteq> []" "pos' = pos + length (cw_ids ?c)" "pos' \<le> sl_T l + 1" using i l'(1) fits by auto
    show "sft_ok l'" "sft_consumed U provider l [?c] l'"
      unfolding l'(2) by (rule put_conversation [OF ok i(1) lens])+
    show "take pos' (sl_scratch l') = take pos (sl_scratch l) @ cw_ids ?c"
      using copy_at_facts(2) [of pos "cw_ids ?c" "sl_scratch l"] ok fits i l' by (simp add: sft_ok_def)
    show "take pos' (sl_mask_scratch l') = take pos (sl_mask_scratch l) @ cw_mask ?c"
      using copy_at_facts(2) [of pos "cw_mask ?c" "sl_mask_scratch l"] ok fits i l' mask by (simp add: sft_ok_def)
    show "ws \<longrightarrow> take pos' (sl_segment_scratch l') = take pos (sl_segment_scratch l) @ replicate (length (cw_ids ?c)) seg"
      using fill_from_facts(2) [of pos "length (cw_ids ?c)" "sl_segment_scratch l" seg] ok fits i l' by (simp add: sft_ok_def)
  qed (rule mask)
qed

lemma segment_labels_append:
  "segment_labels s (xs @ ys) = segment_labels s xs @ segment_labels (((\<lambda>s. i32 (s + 1)) ^^ length xs) s) ys"
  by (induction xs arbitrary: s) (simp_all add: funpow_Suc_right del: funpow.simps)

lemma length_segment_labels: "length (segment_labels s docs) = length (concat docs)"
  by (induction docs arbitrary: s) simp_all

lemma place_keeps_going: "place_conversation ws pos seg l = Some (pos', l') \<Longrightarrow> sl_done l' = sl_done l"
  by (auto simp: place_conversation_def Let_def split: prod.splits option.splits)

lemma sft_pack_facts:
  assumes source: "sft_source U provider tok"
  shows "sft_ok l \<Longrightarrow> sl_tok l = tok \<Longrightarrow> pos \<le> sl_T l + 1 \<Longrightarrow>
    \<exists>pos' l' convs. sft_pack U provider ws pos seg l =
        Some (Inr (pos', ((\<lambda>s. i32 (s + 1)) ^^ length convs) seg, l')) \<and> sft_ok l' \<and> sft_consumed U provider l convs l' \<and>
      list_all (\<lambda>c. cw_ids c \<noteq> [] \<and> length (cw_mask c) = length (cw_ids c)) convs \<and>
      pos' = pos + length (concat (map cw_ids convs)) \<and> pos' \<le> sl_T l + 1 \<and>
      take pos' (sl_scratch l') = take pos (sl_scratch l) @ concat (map cw_ids convs) \<and>
      take pos' (sl_mask_scratch l') = take pos (sl_mask_scratch l) @ concat (map cw_mask convs) \<and>
      (ws \<longrightarrow> take pos' (sl_segment_scratch l') = take pos (sl_segment_scratch l) @ segment_labels seg (map cw_ids convs)) \<and>
      (\<forall>c \<in> set (sl_conv_buffer l'). cw_ids c = [] \<or> sl_T l + 1 < pos' + length (cw_ids c)) \<and>
      (endless provider \<longrightarrow> sl_done l' = sl_done l)"
proof (induction "sl_T l + 1 - pos" arbitrary: l pos seg rule: less_induct)
  case less
  have stop: ?case if "sft_pack U provider ws pos seg l = Some (Inr (pos, seg, l1))" "sft_ok l1" "sft_consumed U provider l [] l1"
      "sl_scratch l1 = sl_scratch l" "sl_mask_scratch l1 = sl_mask_scratch l" "sl_segment_scratch l1 = sl_segment_scratch l"
      "\<forall>c \<in> set (sl_conv_buffer l1). cw_ids c = [] \<or> sl_T l + 1 < pos + length (cw_ids c)"
      "endless provider \<longrightarrow> sl_done l1 = sl_done l" for l1
    using that less.prems by (intro exI [of _ pos] exI [of _ l1] exI [of _ "[]"]) simp
  show ?case
  proof (cases "pos < sl_T l + 1")
    case False
    then have "sft_pack U provider ws pos seg l = Some (Inr (pos, seg, l))"
      by (subst sft_pack.simps) simp
    moreover have "\<forall>c \<in> set (sl_conv_buffer l). cw_ids c = [] \<or> sl_T l + 1 < pos + length (cw_ids c)"
      using False by (auto simp flip: length_0_conv)
    ultimately show ?thesis
      using stop [of l] less.prems sft_consumed_refl by simp
  next
    case pos: True
    obtain l1 where l1: "(if sl_conv_buffer l = [] then sft_refill U provider l else Some (Inr l)) = Some (Inr l1)"
        "sft_ok l1" "sft_consumed U provider l [] l1"
        "sl_scratch l1 = sl_scratch l" "sl_mask_scratch l1 = sl_mask_scratch l" "sl_segment_scratch l1 = sl_segment_scratch l"
        "endless provider \<longrightarrow> sl_done l1 = sl_done l"
      using sft_refill_total [OF source less.prems(1,2)] less.prems(1) sft_consumed_refl by (cases "sl_conv_buffer l = []") auto
    note T1 = sft_consumed_fields [OF l1(3)]
    show ?thesis
    proof (cases "sl_conv_buffer l1 = [] \<or> place_conversation ws pos seg l1 = None")
      case True
      then have "sft_pack U provider ws pos seg l = Some (Inr (pos, seg, l1))"
        using pos l1(1) by (subst sft_pack.simps) auto
      moreover have "\<forall>c \<in> set (sl_conv_buffer l1). cw_ids c = [] \<or> sl_T l + 1 < pos + length (cw_ids c)"
        using True pos place_conversation_None [of ws pos seg l1] T1 by force
      ultimately show ?thesis
        using stop l1 by simp
    next
      case False
      then obtain pos1 l2 where place: "place_conversation ws pos seg l1 = Some (pos1, l2)" by auto
      have "pos \<le> sl_T l1 + 1" using pos T1 by simp
      from place l1(2) this obtain c where c: "cw_ids c \<noteq> []" "length (cw_mask c) = length (cw_ids c)"
          "pos1 = pos + length (cw_ids c)" "pos1 \<le> sl_T l1 + 1"
          "sft_ok l2" "sft_consumed U provider l1 [c] l2"
          "take pos1 (sl_scratch l2) = take pos (sl_scratch l1) @ cw_ids c"
          "take pos1 (sl_mask_scratch l2) = take pos (sl_mask_scratch l1) @ cw_mask c"
          "ws \<longrightarrow> take pos1 (sl_segment_scratch l2) = take pos (sl_segment_scratch l1) @ replicate (length (cw_ids c)) seg"
        by (rule place_conversation_Some [where U = U and provider = provider])
      note T2 = sft_consumed_fields [OF c(6)]
      have "sl_T l2 + 1 - pos1 < sl_T l + 1 - pos" "pos1 \<le> sl_T l2 + 1" "sl_tok l2 = tok"
        using pos c(1,3,4) T1 T2 less.prems(2) by (cases "cw_ids c"; simp)+
      from less.hyps [OF this(1) c(5) this(3,2), of "i32 (seg + 1)"] obtain pos' l' convs where
        l': "sft_pack U provider ws pos1 (i32 (seg + 1)) l2 =
            Some (Inr (pos', ((\<lambda>s. i32 (s + 1)) ^^ length convs) (i32 (seg + 1)), l'))" "sft_ok l'" "sft_consumed U provider l2 convs l'"
          "list_all (\<lambda>c. cw_ids c \<noteq> [] \<and> length (cw_mask c) = length (cw_ids c)) convs"
          "pos' = pos1 + length (concat (map cw_ids convs))" "pos' \<le> sl_T l2 + 1"
          "take pos' (sl_scratch l') = take pos1 (sl_scratch l2) @ concat (map cw_ids convs)"
          "take pos' (sl_mask_scratch l') = take pos1 (sl_mask_scratch l2) @ concat (map cw_mask convs)"
          "ws \<longrightarrow> take pos' (sl_segment_scratch l') = take pos1 (sl_segment_scratch l2) @ segment_labels (i32 (seg + 1)) (map cw_ids convs)"
          "\<forall>c \<in> set (sl_conv_buffer l'). cw_ids c = [] \<or> sl_T l2 + 1 < pos' + length (cw_ids c)"
          "endless provider \<longrightarrow> sl_done l' = sl_done l2"
        by blast
      have "sft_pack U provider ws pos seg l = sft_pack U provider ws pos1 (i32 (seg + 1)) l2"
        using pos l1(1) place False by (subst sft_pack.simps) simp
      moreover have "sft_consumed U provider l (c # convs) l'"
        using sft_consumed_trans [OF l1(3) sft_consumed_trans [OF c(6) l'(3)]] by simp
      ultimately show ?thesis
        using l' c T1 T2 l1(4-7) place_keeps_going [OF place]
        by (intro exI [of _ pos'] exI [of _ l'] exI [of _ "c # convs"]) (simp add: funpow_Suc_right del: funpow.simps)
    qed
  qed
qed


text \<open>A row of the batch: whole conversations, and BOS to the end of the row with mask 0.\<close>

definition padding :: "nat \<Rightarrow> conv_with_mask list \<Rightarrow> nat" where
  "padding T convs = T + 1 - length (concat (map cw_ids convs))"

definition row_ids :: "tokenizer \<Rightarrow> nat \<Rightarrow> conv_with_mask list \<Rightarrow> int list" where
  "row_ids tok T convs = concat (map cw_ids convs) @ replicate (padding T convs) (i32 (int (tk_bos tok)))"

definition row_mask :: "nat \<Rightarrow> conv_with_mask list \<Rightarrow> int list" where
  "row_mask T convs = concat (map cw_mask convs) @ replicate (padding T convs) 0"

definition sft_row_ok :: "nat \<Rightarrow> conv_with_mask list \<Rightarrow> bool" where
  "sft_row_ok T convs \<longleftrightarrow> length (concat (map cw_ids convs)) \<le> T + 1 \<and>
     list_all (\<lambda>c. cw_ids c \<noteq> [] \<and> length (cw_mask c) = length (cw_ids c)) convs"

definition sft_batch_of :: "bool \<Rightarrow> tokenizer \<Rightarrow> nat \<Rightarrow> conv_with_mask list list \<Rightarrow> batch" where
  "sft_batch_of ws tok T rows =
     \<lparr>bt_inputs = map (\<lambda>convs. take T (row_ids tok T convs)) rows,
      bt_targets = map (\<lambda>convs. map2 (\<lambda>i m. if m = 1 then i else - 1) (drop 1 (row_ids tok T convs)) (drop 1 (row_mask T convs))) rows,
      bt_segments = (if ws then map (\<lambda>convs. take T (segment_labels 0 (map cw_ids convs @ [replicate (padding T convs) 0]))) rows else [])\<rparr>"

lemma length_concat_masks:
  "list_all (\<lambda>c. cw_ids c \<noteq> [] \<and> length (cw_mask c) = length (cw_ids c)) convs \<Longrightarrow>
    length (concat (map cw_mask convs)) = length (concat (map cw_ids convs))"
  by (induction convs) auto

lemma row_lengths:
  assumes "sft_row_ok T convs"
  shows "length (row_ids tok T convs) = T + 1" "length (row_mask T convs) = T + 1"
  using assms length_concat_masks [of convs] by (auto simp: sft_row_ok_def row_ids_def row_mask_def padding_def)

lemma fill_rest:
  assumes "length dst = n" "pos \<le> n" "take pos dst = xs"
  shows "fill_from pos (n - pos) x dst = xs @ replicate (n - pos) x"
proof -
  have "pos + (n - pos) \<le> length dst" using assms by simp
  from fill_from_facts [OF this, of x] assms show ?thesis by simp
qed

lemma sft_pad_facts:
  assumes ok: "sft_ok l" and row: "sft_row_ok (sl_T l) convs" and pos: "pos = length (concat (map cw_ids convs))"
    and prefix: "take pos (sl_scratch l) = concat (map cw_ids convs)" "take pos (sl_mask_scratch l) = concat (map cw_mask convs)"
      "ws \<longrightarrow> take pos (sl_segment_scratch l) = segment_labels 0 (map cw_ids convs)"
  defines "l' \<equiv> sft_pad ws pos (((\<lambda>s. i32 (s + 1)) ^^ length convs) 0) l"
  shows "sl_scratch l' = row_ids (sl_tok l) (sl_T l) convs" "sl_mask_scratch l' = row_mask (sl_T l) convs"
    "ws \<longrightarrow> sl_segment_scratch l' = segment_labels 0 (map cw_ids convs @ [replicate (padding (sl_T l) convs) 0])"
    "sft_ok l'"
proof -
  have le: "pos \<le> sl_T l + 1" and pad: "padding (sl_T l) convs = sl_T l + 1 - pos"
    using row pos by (simp_all add: sft_row_ok_def padding_def)
  have lens: "length (sl_scratch l) = sl_T l + 1" "length (sl_mask_scratch l) = sl_T l + 1" "length (sl_segment_scratch l) = sl_T l + 1"
    using ok by (simp_all add: sft_ok_def)
  have fields: "sl_scratch l' = fill_from pos (sl_T l + 1 - pos) (i32 (int (tk_bos (sl_tok l)))) (sl_scratch l)"
      "sl_mask_scratch l' = fill_from pos (sl_T l + 1 - pos) 0 (sl_mask_scratch l)"
      "sl_segment_scratch l' = (if ws then fill_from pos (sl_T l + 1 - pos) (((\<lambda>s. i32 (s + 1)) ^^ length convs) 0) (sl_segment_scratch l)
        else sl_segment_scratch l)"
      "sl_T l' = sl_T l" "sl_buffer_size l' = sl_buffer_size l" "sl_conv_buffer l' = sl_conv_buffer l"
    by (simp_all add: l'_def sft_pad_def Let_def)
  show "sl_scratch l' = row_ids (sl_tok l) (sl_T l) convs"
    unfolding fields row_ids_def pad by (rule fill_rest [OF lens(1) le prefix(1)])
  show "sl_mask_scratch l' = row_mask (sl_T l) convs"
    unfolding fields row_mask_def pad by (rule fill_rest [OF lens(2) le prefix(2)])
  show "ws \<longrightarrow> sl_segment_scratch l' = segment_labels 0 (map cw_ids convs @ [replicate (padding (sl_T l) convs) 0])"
  proof
    assume ws
    with prefix(3) have "take pos (sl_segment_scratch l) = segment_labels 0 (map cw_ids convs)" by simp
    from fill_rest [OF lens(3) le this] \<open>ws\<close>
    show "sl_segment_scratch l' = segment_labels 0 (map cw_ids convs @ [replicate (padding (sl_T l) convs) 0])"
      by (simp add: fields segment_labels_append pad)
  qed
  have "pos + (sl_T l + 1 - pos) \<le> sl_T l + 1" using le by simp
  then show "sft_ok l'"
    using ok lens by (simp add: sft_ok_def fields fill_from_facts)
qed

lemma sft_add_row_batch:
  assumes row: "sft_row_ok (sl_T l) convs" and scr: "sl_scratch l = row_ids (sl_tok l) (sl_T l) convs"
    and msk: "sl_mask_scratch l = row_mask (sl_T l) convs"
    and seg: "ws \<longrightarrow> sl_segment_scratch l = segment_labels 0 (map cw_ids convs @ [replicate (padding (sl_T l) convs) 0])"
  shows "sft_add_row l ws (sft_batch_of ws (sl_tok l) (sl_T l) rows) = sft_batch_of ws (sl_tok l) (sl_T l) (rows @ [convs])"
proof -
  have "sft_targets l = map2 (\<lambda>i m. if m = 1 then i else - 1) (drop 1 (row_ids (sl_tok l) (sl_T l) convs)) (drop 1 (row_mask (sl_T l) convs))"
    using row_lengths [OF row] by (intro nth_equalityI) (simp_all add: sft_targets_def scr msk)
  with scr seg show ?thesis
    by (simp add: sft_add_row_def sft_batch_of_def)
qed


lemma zero_rows_0: "zero_rows 0 T ws (sft_batch_of ws tok T rows) = sft_batch_of ws tok T rows"
  by (simp add: zero_rows_def sft_batch_of_def)

text \<open>Every conversation, buffered or still to come, has tokens and fits a row; and what a row then cannot be is empty.\<close>

definition row_fit :: "nat \<Rightarrow> conv_with_mask \<Rightarrow> bool" where
  "row_fit T c \<longleftrightarrow> cw_ids c \<noteq> [] \<and> length (cw_ids c) \<le> T + 1"

definition all_fit :: "unicode \<Rightarrow> conv_provider \<Rightarrow> sft_loader \<Rightarrow> bool" where
  "all_fit U provider l \<longleftrightarrow> list_all (row_fit (sl_T l)) (sl_conv_buffer l) \<and>
     (\<forall>n convs rows. provider n = Some convs \<longrightarrow> render_all U (sl_tok l) convs = Inr rows \<longrightarrow> list_all (row_fit (sl_T l)) rows)"

lemma all_fit_pulled:
  assumes "all_fit U provider l"
  shows "list_all (row_fit (sl_T l)) (sft_pulled U provider (sl_tok l) a b)"
proof -
  have "list_all (row_fit (sl_T l)) (case provider i of None \<Rightarrow> []
       | Some convs \<Rightarrow> (case render_all U (sl_tok l) convs of Inl _ \<Rightarrow> [] | Inr rows \<Rightarrow> rows))" for i
    using assms by (simp add: all_fit_def split: option.split sum.split)
  then show ?thesis by (auto simp: sft_pulled_def list_all_iff)
qed

lemma all_fit_consumed:
  assumes "all_fit U provider l" "sft_consumed U provider l used l'"
  shows "all_fit U provider l'"
proof -
  have "set used \<union> set (sl_conv_buffer l') = set (sl_conv_buffer l) \<union> set (sft_pulled U provider (sl_tok l) (sl_calls l) (sl_calls l'))"
    using assms(2) unfolding sft_consumed_def by (metis set_mset_mset set_mset_union)
  then have "list_all (row_fit (sl_T l)) (sl_conv_buffer l')"
    using assms(1) all_fit_pulled [OF assms(1)] by (auto simp: all_fit_def list_all_iff)
  with assms show ?thesis by (simp add: all_fit_def sft_consumed_def)
qed

lemma first_place:
  assumes "all_fit U provider l" "sl_conv_buffer l \<noteq> []" "sft_consumed U provider l convs l'"
    "\<forall>c \<in> set (sl_conv_buffer l'). cw_ids c = [] \<or> sl_T l + 1 < length (concat (map cw_ids convs)) + length (cw_ids c)"
  shows "convs \<noteq> []"
proof
  assume "convs = []"
  obtain c where c: "c \<in> set (sl_conv_buffer l)" using assms(2) by (cases "sl_conv_buffer l") auto
  then have "c \<in># mset (sl_conv_buffer l')"
    using assms(3) \<open>convs = []\<close> unfolding sft_consumed_def by (metis add_0 mset.simps(1) set_mset_mset union_iff)
  with assms(4) \<open>convs = []\<close> have "cw_ids c = [] \<or> sl_T l + 1 < length (cw_ids c)" by simp
  moreover have "row_fit (sl_T l) c" using assms(1) c by (simp add: all_fit_def list_all_iff)
  ultimately show False by (auto simp: row_fit_def)
qed

lemma sft_rows_facts:
  assumes source: "sft_source U provider tok"
  shows "sft_ok l \<Longrightarrow> sl_tok l = tok \<Longrightarrow>
    \<exists>l' rows k. sft_rows U provider ws n (sft_batch_of ws tok (sl_T l) before) l =
        Some (Inr (zero_rows k (sl_T l) ws (sft_batch_of ws tok (sl_T l) (before @ rows)), l')) \<and>
      sft_ok l' \<and> sft_consumed U provider l (concat rows) l' \<and> list_all (sft_row_ok (sl_T l)) rows \<and>
      length rows + k = n \<and> (0 < k \<longrightarrow> sl_done l' \<and> sl_conv_buffer l' = []) \<and>
      (endless provider \<longrightarrow> k = 0 \<and> sl_done l' = sl_done l) \<and> (all_fit U provider l \<longrightarrow> [] \<notin> set rows)"
proof (induction n arbitrary: l before)
  case 0
  then show ?case
    by (intro exI [of _ l] exI [of _ "[]"] exI [of _ 0]) (simp add: sft_consumed_refl zero_rows_0)
next
  case (Suc n)
  obtain l1 where l1: "sft_refill U provider l = Some (Inr l1)" "sft_ok l1" "sft_consumed U provider l [] l1"
      "endless provider \<longrightarrow> sl_conv_buffer l1 \<noteq> [] \<and> sl_done l1 = sl_done l"
    using sft_refill_total [OF source Suc.prems] by blast
  note T1 = sft_consumed_fields [OF l1(3)]
  show ?case
  proof (cases "sl_conv_buffer l1 = []")
    case True
    have "sft_consumed U provider l (concat []) (l1\<lparr>sl_done := True\<rparr>)" "sft_ok (l1\<lparr>sl_done := True\<rparr>)"
      using l1(2,3) by (simp_all add: sft_consumed_def sft_ok_def)
    moreover have "\<not> endless provider" using l1(4) True by blast
    ultimately show ?thesis using True l1(1)
      by (intro exI [of _ "l1\<lparr>sl_done := True\<rparr>"] exI [of _ "[]"] exI [of _ "Suc n"]) (simp add: T1)
  next
    case False
    have "sl_tok l1 = tok" "0 \<le> sl_T l1 + 1" using Suc.prems(2) T1 by simp_all
    from sft_pack_facts [OF source l1(2) this, of ws 0] obtain pos l2 convs where
      pack: "sft_pack U provider ws 0 0 l1 = Some (Inr (pos, ((\<lambda>s. i32 (s + 1)) ^^ length convs) 0, l2))" "sft_ok l2"
        "sft_consumed U provider l1 convs l2"
        "list_all (\<lambda>c. cw_ids c \<noteq> [] \<and> length (cw_mask c) = length (cw_ids c)) convs"
        "pos = length (concat (map cw_ids convs))" "pos \<le> sl_T l1 + 1"
        "take pos (sl_scratch l2) = concat (map cw_ids convs)" "take pos (sl_mask_scratch l2) = concat (map cw_mask convs)"
        "ws \<longrightarrow> take pos (sl_segment_scratch l2) = segment_labels 0 (map cw_ids convs)"
        "\<forall>c \<in> set (sl_conv_buffer l2). cw_ids c = [] \<or> sl_T l1 + 1 < pos + length (cw_ids c)"
        "endless provider \<longrightarrow> sl_done l2 = sl_done l1"
      by auto
    note T2 = sft_consumed_fields [OF pack(3)]
    have row: "sft_row_ok (sl_T l2) convs"
      using pack(4-6) T2 by (simp add: sft_row_ok_def)
    define l3 where "l3 = sft_pad ws pos (((\<lambda>s. i32 (s + 1)) ^^ length convs) 0) l2"
    note pad = sft_pad_facts [OF pack(2) row pack(5,7,8,9), folded l3_def]
    have T3: "sl_tok l3 = sl_tok l2" "sl_T l3 = sl_T l2" "sl_B l3 = sl_B l2" "sl_calls l3 = sl_calls l2"
        "sl_buffer_size l3 = sl_buffer_size l2" "sl_conv_buffer l3 = sl_conv_buffer l2" "sl_done l3 = sl_done l2"
      by (simp_all add: l3_def sft_pad_def Let_def)
    have consumed: "sft_consumed U provider l convs l3"
      using sft_consumed_trans [OF l1(3) pack(3)] by (simp add: sft_consumed_def T3)
    have some: "convs \<noteq> []" if "all_fit U provider l"
      using first_place [OF all_fit_consumed [OF that l1(3)] False pack(3)] pack(5,10) by simp
    have "sft_add_row l3 ws (sft_batch_of ws tok (sl_T l) before) = sft_batch_of ws tok (sl_T l) (before @ [convs])"
      using sft_add_row_batch [of l3 convs ws before] row pad(1-3) T1 T2 T3 Suc.prems(2) by simp
    then have step: "sft_rows U provider ws (Suc n) (sft_batch_of ws tok (sl_T l) before) l =
        sft_rows U provider ws n (sft_batch_of ws tok (sl_T l3) (before @ [convs])) l3"
      using l1(1) False pack(1) T1 T2 T3 by (simp add: Let_def l3_def [symmetric])
    have "sl_tok l3 = tok" using T1 T2 T3 Suc.prems(2) by simp
    from Suc.IH [OF pad(4) this, of "before @ [convs]"] obtain l' rows k where
      rest: "sft_rows U provider ws n (sft_batch_of ws tok (sl_T l3) (before @ [convs])) l3 =
          Some (Inr (zero_rows k (sl_T l3) ws (sft_batch_of ws tok (sl_T l3) ((before @ [convs]) @ rows)), l'))"
        "sft_ok l'" "sft_consumed U provider l3 (concat rows) l'" "list_all (sft_row_ok (sl_T l3)) rows" "length rows + k = n"
        "0 < k \<longrightarrow> sl_done l' \<and> sl_conv_buffer l' = []" "endless provider \<longrightarrow> k = 0 \<and> sl_done l' = sl_done l3"
        "all_fit U provider l3 \<longrightarrow> [] \<notin> set rows"
      by blast
    have "sft_consumed U provider l (concat (convs # rows)) l'"
      using sft_consumed_trans [OF consumed rest(3)] by simp
    moreover have "[] \<notin> set (convs # rows)" if "all_fit U provider l"
      using some [OF that] rest(8) all_fit_consumed [OF that consumed] by auto
    ultimately show ?thesis
      using step rest(1-7) l1(4) pack(11) row T1 T2 T3
      by (intro exI [of _ l'] exI [of _ "convs # rows"] exI [of _ k]) simp
  qed
qed

text \<open>
  \<open>Next\<close> of the SFT loader on any source that goes on or ends. Only when the source and the buffer are empty are rows
  missing, and those are left zero, their targets included.
\<close>
lemma sft_next_general:
  assumes "sft_source U provider (sl_tok l)" "sft_ok l" "\<not> (sl_done l \<and> sl_conv_buffer l = [])"
  shows "\<exists>l' rows k. sft_next U provider ws l =
        Some (Inr (Some (zero_rows k (sl_T l) ws (sft_batch_of ws (sl_tok l) (sl_T l) rows)), l')) \<and>
      sft_ok l' \<and> sft_consumed U provider l (concat rows) l' \<and> list_all (sft_row_ok (sl_T l)) rows \<and>
      length rows + k = sl_B l \<and> (0 < k \<longrightarrow> sl_done l' \<and> sl_conv_buffer l' = []) \<and>
      (endless provider \<longrightarrow> k = 0 \<and> sl_done l' = sl_done l) \<and> (all_fit U provider l \<longrightarrow> [] \<notin> set rows)"
proof -
  have "empty_batch = sft_batch_of ws (sl_tok l) (sl_T l) []"
    by (simp add: empty_batch_def sft_batch_of_def)
  then show ?thesis
    using sft_rows_facts [OF assms(1) assms(2) refl, of ws "sl_B l" "[]"] assms(3) unfolding append_Nil sft_next_def by (elim exE) force
qed

text \<open>
  C28. On a source that does not end and whose conversations all render to at least one token and to no more than a row holds, \<open>Next\<close>
  of the SFT loader returns a full batch and crops nothing: each row is one or more whole conversations and then BOS; a target is
  the next token where its mask is 1 and -1 elsewhere, so padding never trains; of the conversations pulled, those in the
  batch have left the buffer and all others are in it. The loader is left as the next call needs it.
\<close>
theorem sft_next_packs:
  assumes "sft_source U provider (sl_tok l)" "sft_ok l" "endless provider" "all_fit U provider l" "\<not> sl_done l"
  shows "\<exists>l' rows. sft_next U provider ws l = Some (Inr (Some (sft_batch_of ws (sl_tok l) (sl_T l) rows), l')) \<and>
      length rows = sl_B l \<and> list_all (sft_row_ok (sl_T l)) rows \<and> [] \<notin> set rows \<and>
      sft_consumed U provider l (concat rows) l' \<and> sft_ok l' \<and> all_fit U provider l' \<and> \<not> sl_done l'"
proof -
  have "\<not> (sl_done l \<and> sl_conv_buffer l = [])" using assms(5) by simp
  from sft_next_general [OF assms(1,2) this, of ws] assms(3,4) obtain l' rows where
    "sft_next U provider ws l = Some (Inr (Some (zero_rows 0 (sl_T l) ws (sft_batch_of ws (sl_tok l) (sl_T l) rows)), l'))"
    "sft_ok l'" "sft_consumed U provider l (concat rows) l'" "list_all (sft_row_ok (sl_T l)) rows" "length rows = sl_B l" "[] \<notin> set rows" "sl_done l' = sl_done l"
    by force
  with all_fit_consumed [OF assms(4)] assms(5) show ?thesis by (auto simp: zero_rows_0)
qed

theorem sft_next_packs_witness:
  "\<exists>l' c. sft_next example_unicode (\<lambda>_. Some [example_conversation [49]]) True (new_sft_loader plain_tokenizer 2 12 2) =
        Some (Inr (Some (sft_batch_of True plain_tokenizer 12 [[c], [c]]), l')) \<and>
      cw_ids c = [0, 1, 11, 2, 3, 9, 0, 10, 14, 4] \<and> cw_mask c = [0, 0, 0, 0, 0, 1, 1, 1, 1, 1]"
proof -
  let ?c = "\<lparr>cw_ids = [0, 1, 11, 2, 3, 9, 0, 10, 14, 4], cw_mask = [0, 0, 0, 0, 0, 1, 1, 1, 1, 1]\<rparr> :: conv_with_mask"
  let ?provider = "(\<lambda>_. Some [example_conversation [49]]) :: conv_provider"
  let ?l = "new_sft_loader plain_tokenizer 2 12 2"
  have render: "render_all example_unicode plain_tokenizer [example_conversation [49]] = Inr [?c]" by code_simp
  have hyps: "sft_source example_unicode ?provider (sl_tok ?l)" "sft_ok ?l" "endless ?provider" "all_fit example_unicode ?provider ?l" "\<not> sl_done ?l"
    using render by (auto simp: sft_source_def sft_ok_def endless_def all_fit_def row_fit_def new_sft_loader_def)
  from sft_next_packs [OF hyps, of True] obtain l' rows where
    next_batch: "sft_next example_unicode ?provider True ?l = Some (Inr (Some (sft_batch_of True plain_tokenizer 12 rows), l'))"
      "length rows = 2" "list_all (sft_row_ok 12) rows" "[] \<notin> set rows" "sft_consumed example_unicode ?provider ?l (concat rows) l'"
    by (auto simp: new_sft_loader_def)
  have only: "c = ?c" if "c \<in> set (concat rows)" for c
  proof -
    have "mset (sft_pulled example_unicode ?provider plain_tokenizer 0 (sl_calls l')) = mset (concat rows) + mset (sl_conv_buffer l')"
      using next_batch(5) by (simp add: sft_consumed_def new_sft_loader_def)
    then have "set (concat rows) \<subseteq> set (sft_pulled example_unicode ?provider plain_tokenizer 0 (sl_calls l'))"
      by (metis set_mset_mset mset_subset_eq_add_left set_mset_mono)
    also have "\<dots> \<subseteq> {?c}" using render by (auto simp: sft_pulled_def)
    finally show ?thesis using that by blast
  qed
  have row: "r = [?c]" if "r \<in> set rows" for r
  proof -
    have r: "r \<noteq> []" "sft_row_ok 12 r" "\<forall>c \<in> set r. c = ?c" using that next_batch(3,4) only by (auto simp: list_all_iff)
    then have eq: "r = replicate (length r) ?c" by (simp add: replicate_length_same)
    have "length (concat (map cw_ids (replicate n ?c))) = n * 10" for n by (induction n) simp_all
    from this [of "length r"] have "length (concat (map cw_ids r)) = length r * 10" using eq by simp
    with r(2) have "length r * 10 \<le> 13" by (simp add: sft_row_ok_def)
    moreover have "0 < length r" using r(1) by simp
    ultimately have "length r = 1" by linarith
    with eq show ?thesis by (metis replicate_Suc replicate_0 One_nat_def)
  qed
  obtain r1 r2 where "rows = [r1, r2]" using next_batch(2) by (auto simp: length_Suc_conv numeral_2_eq_2)
  with row have "rows = [[?c], [?c]]" by simp
  with next_batch(1) show ?thesis by (intro exI [of _ l'] exI [of _ ?c]) simp
qed

definition nothing_fits :: "sft_loader \<Rightarrow> bool" where
  "nothing_fits l \<longleftrightarrow> list_all (\<lambda>c. cw_ids c = [] \<or> sl_T l + 1 < length (cw_ids c)) (sl_conv_buffer l)"

lemma nothing_fits_place:
  assumes "nothing_fits l"
  shows "place_conversation ws 0 seg l = None"
proof -
  obtain r n where best: "best_fit (sl_T l + 1 - 0) (map (length \<circ> cw_ids) (sl_conv_buffer l)) 0 (None, 0) = (r, n)"
    by fastforce
  have "r = None"
  proof (rule ccontr)
    assume "r \<noteq> None"
    then obtain i where i: "i < length (sl_conv_buffer l)" "n = length (cw_ids (sl_conv_buffer l ! i))" "n \<le> sl_T l + 1" "0 < n"
      using best_fit_facts [OF best] by auto
    with assms nth_mem [OF i(1)] show False
      by (auto simp: nothing_fits_def list_all_iff)
  qed
  with best show ?thesis by (simp add: place_conversation_def)
qed

lemma sft_rows_stuck:
  "sft_ok l \<Longrightarrow> nothing_fits l \<Longrightarrow> sl_conv_buffer l \<noteq> [] \<Longrightarrow> sl_buffer_size l \<le> int (length (sl_conv_buffer l)) \<Longrightarrow>
    \<exists>l'. sft_rows U provider ws n (sft_batch_of ws (sl_tok l) (sl_T l) before) l =
        Some (Inr (sft_batch_of ws (sl_tok l) (sl_T l) (before @ replicate n []), l')) \<and> sl_conv_buffer l' = sl_conv_buffer l"
proof (induction n arbitrary: l before)
  case (Suc n)
  have refill: "sft_refill U provider l = Some (Inr l)"
    using Suc.prems(4) by (subst sft_refill.simps) simp
  have pack: "sft_pack U provider ws 0 0 l = Some (Inr (0, 0, l))"
    using Suc.prems(3) nothing_fits_place [OF Suc.prems(2)] by (subst sft_pack.simps) simp
  have row: "sft_row_ok (sl_T l) []" by (simp add: sft_row_ok_def)
  define l3 where "l3 = sft_pad ws 0 0 l"
  have prefix: "take 0 (sl_scratch l) = concat (map cw_ids [])" "take 0 (sl_mask_scratch l) = concat (map cw_mask [])"
      "ws \<longrightarrow> take 0 (sl_segment_scratch l) = segment_labels 0 (map cw_ids [])" "0 = length (concat (map cw_ids []))"
    by simp_all
  have l3': "l3 = sft_pad ws 0 (((\<lambda>s. i32 (s + 1)) ^^ length ([] :: conv_with_mask list)) 0) l"
    by (simp add: l3_def)
  note pad = sft_pad_facts [OF Suc.prems(1) row prefix(4,1,2,3), folded l3']
  have T3: "sl_tok l3 = sl_tok l" "sl_T l3 = sl_T l" "sl_buffer_size l3 = sl_buffer_size l" "sl_conv_buffer l3 = sl_conv_buffer l"
    by (simp_all add: l3_def sft_pad_def Let_def)
  have "sft_add_row l3 ws (sft_batch_of ws (sl_tok l) (sl_T l) before) = sft_batch_of ws (sl_tok l) (sl_T l) (before @ [[]])"
    using sft_add_row_batch [of l3 "[]" ws before] row pad T3 by simp
  with refill pack Suc.prems(3) have "sft_rows U provider ws (Suc n) (sft_batch_of ws (sl_tok l) (sl_T l) before) l =
      sft_rows U provider ws n (sft_batch_of ws (sl_tok l3) (sl_T l3) (before @ [[]])) l3"
    by (simp add: Let_def l3_def [symmetric] T3)
  moreover have "nothing_fits l3"
    using Suc.prems(2) by (simp add: nothing_fits_def T3)
  ultimately show ?case
    using Suc.IH [of l3 "before @ [[]]"] pad(4) Suc.prems(3,4) T3 by (simp add: replicate_app_Cons_same)
qed simp

text \<open>
  When the buffer is full of conversations that are longer than a row (or render to nothing), \<open>Next\<close> still
  answers \<open>ok = true\<close>: the batch is padding only, every target is -1, and the buffer is as before, so
  every later call does the same and the rest of the data is never read.
\<close>
theorem sft_overlong_stuck:
  assumes "sft_ok l" "nothing_fits l" "sl_conv_buffer l \<noteq> []" "sl_buffer_size l \<le> int (length (sl_conv_buffer l))"
  shows "\<exists>l'. sft_next U provider ws l =
      Some (Inr (Some (sft_batch_of ws (sl_tok l) (sl_T l) (replicate (sl_B l) [])), l')) \<and> sl_conv_buffer l' = sl_conv_buffer l"
proof -
  have "empty_batch = sft_batch_of ws (sl_tok l) (sl_T l) []"
    by (simp add: empty_batch_def sft_batch_of_def)
  then show ?thesis
    using sft_rows_stuck [OF assms, of U provider ws "sl_B l" "[]"] assms(3) by (auto simp: sft_next_def)
qed

theorem sft_overlong_stuck_witness:
  "\<exists>l'. sft_next example_unicode (\<lambda>_. None) False
      ((new_sft_loader example_tokenizer 1 2 1)\<lparr>sl_conv_buffer := [\<lparr>cw_ids = [0, 5, 6, 7], cw_mask = [0, 1, 1, 1]\<rparr>]\<rparr>) =
      Some (Inr (Some \<lparr>bt_inputs = [[0, 0]], bt_targets = [[- 1, - 1]], bt_segments = []\<rparr>, l')) \<and>
    sl_conv_buffer l' = [\<lparr>cw_ids = [0, 5, 6, 7], cw_mask = [0, 1, 1, 1]\<rparr>]"
proof -
  have "sft_batch_of False example_tokenizer 2 (replicate 1 []) = \<lparr>bt_inputs = [[0, 0]], bt_targets = [[- 1, - 1]], bt_segments = []\<rparr>"
    by code_simp
  then show ?thesis
    using sft_overlong_stuck [of "(new_sft_loader example_tokenizer 1 2 1)
        \<lparr>sl_conv_buffer := [\<lparr>cw_ids = [0, 5, 6, 7], cw_mask = [0, 1, 1, 1]\<rparr>]\<rparr>" example_unicode "\<lambda>_. None" False]
    by (simp add: new_sft_loader_def sft_ok_def nothing_fits_def)
qed

end
