(* ===== verification/Pool.thy ===== *)
theory Pool
  imports Go_Base "HOL-Library.Signed_Division"
begin

text \<open>
  src/internal/parallel/pool.go: ranges shared out among workers.

  \<open>runtime.GOMAXPROCS(0)\<close> is the parameter \<open>procs\<close>. A fan-out is described by the work of each goroutine: the
  list of the indices (\<open>For\<close>) or the range (\<open>Chunks\<close>, \<open>Reduce\<close>) it is started with. A call \<open>fn(index)\<close> is a
  program over the shared memory, and what the goroutines do together is the step relation \<open>for_step\<close>, where a step is one
  read or one write of one location by any goroutine: the calls of different goroutines interleave inside. A nil pool
  is \<open>None\<close>; using its field panics.
\<close>

section \<open>Pools\<close>

record pool =
  pool_workers :: int
  min_chunk :: int

definition new_pool :: "int \<Rightarrow> int \<Rightarrow> pool" where
  "new_pool procs workers = \<lparr>pool_workers = (if workers \<le> 0 then procs else workers), min_chunk = 4096\<rparr>"

definition with_min_chunk :: "int \<Rightarrow> int \<Rightarrow> pool \<Rightarrow> pool" where
  "with_min_chunk procs m p = \<lparr>pool_workers = (if pool_workers p \<le> 0 then procs else pool_workers p), min_chunk = m\<rparr>"

definition workers :: "int \<Rightarrow> pool option \<Rightarrow> int" where
  "workers procs pool =
     (case pool of None \<Rightarrow> procs | Some p \<Rightarrow> if pool_workers p \<le> 0 then procs else pool_workers p)"

definition kernel_pool :: "int \<Rightarrow> pool \<Rightarrow> pool" where
  "kernel_pool procs default_pool = with_min_chunk procs 1 default_pool"

section \<open>The static partition\<close>

definition chunk_bound :: "int \<Rightarrow> int \<Rightarrow> int \<Rightarrow> int \<Rightarrow> int" where
  "chunk_bound start stop n worker =
     i64 (start + i64 (i64 (stop - start) * worker) sdiv n)"

definition worker_count :: "int \<Rightarrow> pool \<Rightarrow> int \<Rightarrow> int \<Rightarrow> int" where
  "worker_count procs p start stop =
     (let w = workers procs (Some p) in if w > i64 (stop - start) then i64 (stop - start) else w)"

definition partition_range :: "int \<Rightarrow> pool \<Rightarrow> int \<Rightarrow> int \<Rightarrow> (int \<times> int) list" where
  "partition_range procs p start stop =
     (let n = worker_count procs p start stop in
      map (\<lambda>w. (chunk_bound start stop n (int w), chunk_bound start stop n (int w + 1))) [0..<nat n])"

text \<open>The indices each goroutine of \<open>For\<close> visits, in its order; the inline loop is one such list.\<close>

definition pool_for :: "int \<Rightarrow> pool option \<Rightarrow> int \<Rightarrow> int \<Rightarrow> (unit, int list list) outcome" where
  "pool_for procs pool start stop =
     (if stop \<le> start then Inr []
      else case pool of None \<Rightarrow> Inl Panic
      | Some p \<Rightarrow>
          if i64 (stop - start) < min_chunk p then Inr [[start..stop - 1]]
          else Inr (map (\<lambda>(lo, hi). [lo..hi - 1]) (partition_range procs p start stop)))"

definition pool_chunks :: "int \<Rightarrow> pool option \<Rightarrow> int \<Rightarrow> int \<Rightarrow> (unit, (int \<times> int) list) outcome" where
  "pool_chunks procs pool start stop =
     (if stop \<le> start then Inr []
      else case pool of None \<Rightarrow> Inl Panic
      | Some p \<Rightarrow>
          if i64 (stop - start) < min_chunk p then Inr [(start, stop)]
          else Inr (partition_range procs p start stop))"

text \<open>The partial results land in the slot of their worker, and are combined from the first slot on.\<close>

definition pool_reduce ::
  "'r \<Rightarrow> (int \<Rightarrow> int \<Rightarrow> 'r) \<Rightarrow> ('r \<Rightarrow> 'r \<Rightarrow> 'r) \<Rightarrow> int \<Rightarrow> pool option \<Rightarrow> int \<Rightarrow> int \<Rightarrow> (unit, 'r) outcome" where
  "pool_reduce zero reduce combine procs pool start stop =
     (if stop \<le> start then Inr zero
      else case pool of None \<Rightarrow> Inl Panic
      | Some p \<Rightarrow>
          if i64 (stop - start) < min_chunk p then Inr (reduce start stop)
          else
            (case map (\<lambda>(lo, hi). reduce lo hi) (partition_range procs p start stop) of
               [] \<Rightarrow> Inl Panic
             | partial # partials \<Rightarrow> Inr (foldl combine partial partials)))"

section \<open>Goroutines\<close>

text \<open>What a call does to the shared memory: it reads a location and goes on with the value, or writes one, or ends.\<close>

datatype ('l, 'v) action = Return | Read 'l "'v \<Rightarrow> ('l, 'v) action" | Write 'l 'v "('l, 'v) action"

type_synonym ('l, 'v) goroutine = "('l, 'v) action \<times> int list"

text \<open>A goroutine is the rest of its running call and the indices still to come.\<close>

definition start_all :: "int list list \<Rightarrow> ('l, 'v) goroutine list" where
  "start_all tasks = map (Pair Return) tasks"

inductive for_step ::
  "(int \<Rightarrow> ('l, 'v) action) \<Rightarrow> ('l, 'v) goroutine list \<times> ('l \<Rightarrow> 'v) \<Rightarrow> ('l, 'v) goroutine list \<times> ('l \<Rightarrow> 'v) \<Rightarrow> bool" for fn where
  calls: "w < length gs \<Longrightarrow> gs ! w = (Return, i # rest) \<Longrightarrow> for_step fn (gs, m) (gs[w := (fn i, rest)], m)"
| reads: "w < length gs \<Longrightarrow> gs ! w = (Read l k, rest) \<Longrightarrow> for_step fn (gs, m) (gs[w := (k (m l), rest)], m)"
| writes: "w < length gs \<Longrightarrow> gs ! w = (Write l x p, rest) \<Longrightarrow> for_step fn (gs, m) (gs[w := (p, rest)], m(l := x))"

inductive_cases for_stepE: "for_step fn (gs, m) c"

text \<open>\<open>Wait\<close> returns when every goroutine has returned.\<close>

definition all_done :: "('l, 'v) goroutine list \<Rightarrow> bool" where
  "all_done gs \<longleftrightarrow> list_all (\<lambda>g. case g of (Return, []) \<Rightarrow> True | _ \<Rightarrow> False) gs"

text \<open>A call by itself, and the loop over a range by itself.\<close>

primrec run_call :: "('l, 'v) action \<Rightarrow> ('l \<Rightarrow> 'v) \<Rightarrow> 'l \<Rightarrow> 'v" where
  "run_call Return m = m"
| "run_call (Read l k) m = run_call (k (m l)) m"
| "run_call (Write l x p) m = run_call p (m(l := x))"

definition sequential :: "(int \<Rightarrow> ('l, 'v) action) \<Rightarrow> int list \<Rightarrow> ('l \<Rightarrow> 'v) \<Rightarrow> 'l \<Rightarrow> 'v" where
  "sequential fn indices m = fold (\<lambda>i. run_call (fn i)) indices m"

text \<open>
  The freedom from data races that callers of \<open>For\<close> have to see to: a call touches nothing outside its own locations,
  and what one call writes no other call reads or writes.
\<close>

inductive confined :: "'l set \<Rightarrow> 'l set \<Rightarrow> ('l, 'v) action \<Rightarrow> bool" for R W where
  "confined R W Return"
| "l \<in> R \<union> W \<Longrightarrow> (\<And>x. confined R W (k x)) \<Longrightarrow> confined R W (Read l k)"
| "l \<in> W \<Longrightarrow> confined R W p \<Longrightarrow> confined R W (Write l x p)"

inductive_cases confined_ReadE: "confined R W (Read l k)"
inductive_cases confined_WriteE: "confined R W (Write l x p)"

definition race_free :: "(int \<Rightarrow> ('l, 'v) action) \<Rightarrow> (int \<Rightarrow> 'l set) \<Rightarrow> (int \<Rightarrow> 'l set) \<Rightarrow> int set \<Rightarrow> bool" where
  "race_free fn R W I \<longleftrightarrow>
     (\<forall>i \<in> I. confined (R i) (W i) (fn i)) \<and> (\<forall>i \<in> I. \<forall>j \<in> I. i \<noteq> j \<longrightarrow> W i \<inter> (R j \<union> W j) = {})"

section \<open>Lemmas: the partition\<close>

text \<open>What keeps the index arithmetic of the partition inside \<open>int\<close>.\<close>

definition range_ok :: "int \<Rightarrow> pool \<Rightarrow> int \<Rightarrow> int \<Rightarrow> bool" where
  "range_ok procs p start stop \<longleftrightarrow> 0 < procs \<and> - (2 ^ 63) \<le> start \<and> stop < 2 ^ 63 \<and> stop - start < 2 ^ 63 \<and>
     (stop - start) * worker_count procs p start stop < 2 ^ 63"

lemma worker_count_bounds:
  assumes "range_ok procs p start stop" "start < stop"
  shows "0 < worker_count procs p start stop" "worker_count procs p start stop \<le> stop - start"
    "worker_count procs p start stop \<le> workers procs (Some p)"
  using assms i64_id [of "stop - start"] by (auto simp: range_ok_def worker_count_def workers_def Let_def)

lemma chunk_bound_exact:
  assumes ok: "range_ok procs p start stop" and "start < stop" and w: "0 \<le> w" "w \<le> worker_count procs p start stop"
  defines "n \<equiv> worker_count procs p start stop"
  shows "chunk_bound start stop n w = start + (stop - start) * w div n" "start \<le> chunk_bound start stop n w" "chunk_bound start stop n w \<le> stop"
proof -
  note n = worker_count_bounds [OF assms(1,2), folded n_def]
  let ?len = "stop - start"
  have len: "i64 ?len = ?len"
    using ok \<open>start < stop\<close> by (intro i64_id) (simp_all add: range_ok_def)
  have prod: "0 \<le> ?len * w" "?len * w \<le> ?len * n"
    using w \<open>start < stop\<close> by (auto simp: n_def intro: mult_left_mono)
  then have prod64: "i64 (?len * w) = ?len * w"
    using ok by (intro i64_id) (simp_all add: range_ok_def n_def)
  have quot: "0 \<le> ?len * w div n" "?len * w div n \<le> ?len"
    using prod n(1) zdiv_mono1 [OF prod(2) n(1)] by (simp_all add: pos_imp_zdiv_nonneg_iff)
  have "?len * w sdiv n = ?len * w div n"
    using prod(1) n(1) by (cases "?len * w = 0") (auto simp: signed_divide_int_def sgn_if)
  moreover have "i64 (start + ?len * w div n) = start + ?len * w div n"
    using ok quot by (intro i64_id) (simp_all add: range_ok_def)
  ultimately show "chunk_bound start stop n w = start + ?len * w div n"
    by (simp add: chunk_bound_def len prod64)
  with quot show "start \<le> chunk_bound start stop n w" "chunk_bound start stop n w \<le> stop" by simp_all
qed

lemma chunk_bound_less:
  assumes ok: "range_ok procs p start stop" and "start < stop" and w: "0 \<le> w" "w < worker_count procs p start stop"
  defines "n \<equiv> worker_count procs p start stop"
  shows "chunk_bound start stop n w < chunk_bound start stop n (w + 1)"
proof -
  note n = worker_count_bounds [OF assms(1,2), folded n_def]
  have "(stop - start) * w + n \<le> (stop - start) * (w + 1)"
    using n(2) by (simp add: algebra_simps)
  then have "((stop - start) * w + n) div n \<le> (stop - start) * (w + 1) div n"
    using n(1) by (rule zdiv_mono1)
  moreover have "((stop - start) * w + n) div n = (stop - start) * w div n + 1"
    using n(1) by (intro div_add_self2) simp
  ultimately show ?thesis
    using chunk_bound_exact(1) [OF ok \<open>start < stop\<close>, of w] chunk_bound_exact(1) [OF ok \<open>start < stop\<close>, of "w + 1"] w
    by (simp add: n_def)
qed

lemma chunk_bound_ends:
  assumes "range_ok procs p start stop" "start < stop"
  defines "n \<equiv> worker_count procs p start stop"
  shows "chunk_bound start stop n 0 = start" "chunk_bound start stop n n = stop"
  using worker_count_bounds [OF assms(1,2)] chunk_bound_exact(1) [OF assms(1,2), of 0] chunk_bound_exact(1) [OF assms(1,2), of n]
  by (simp_all add: n_def)

lemma concat_ranges:
  fixes b :: "nat \<Rightarrow> int"
  assumes "\<And>w. w < k \<Longrightarrow> b w < b (w + 1)"
  shows "b 0 \<le> b k \<and> concat (map (\<lambda>w. [b w..b (w + 1) - 1]) [0..<k]) = [b 0..b k - 1]"
  using assms
proof (induction k)
  case (Suc k)
  then have "b 0 \<le> b k" "concat (map (\<lambda>w. [b w..b (w + 1) - 1]) [0..<k]) = [b 0..b k - 1]" "b k < b (k + 1)" by auto
  moreover have "[b 0..b (k + 1) - 1] = [b 0..b k - 1] @ [b k..b (k + 1) - 1]"
    using calculation by (intro upto_split1) simp_all
  ultimately show ?case by simp
qed simp

lemma foldl_ranges:
  fixes b :: "nat \<Rightarrow> int"
  assumes "\<And>w. w \<le> k \<Longrightarrow> b w < b (w + 1)" "\<And>w. lo \<le> b w" "\<And>w. w \<le> k + 1 \<Longrightarrow> b w \<le> hi"
    "\<And>x y z. lo \<le> x \<Longrightarrow> x < y \<Longrightarrow> y < z \<Longrightarrow> z \<le> hi \<Longrightarrow> combine (reduce x y) (reduce y z) = reduce x z"
  shows "foldl combine (reduce (b 0) (b 1)) (map (\<lambda>w. reduce (b w) (b (w + 1))) [1..<k + 1]) = reduce (b 0) (b (k + 1))"
  using assms(1,3)
proof (induction k)
  case (Suc k)
  have "b 0 < b (k + 1)"
  proof -
    have "b 0 < b (j + 1)" if "j \<le> k" for j
      using that
    proof (induction j)
      case 0
      then show ?case using Suc.prems(1) [of 0] by simp
    next
      case (Suc j)
      then show ?case using \<open>\<And>w. w \<le> Suc k \<Longrightarrow> b w < b (w + 1)\<close> [of "Suc j"] by simp
    qed
    then show ?thesis by simp
  qed
  then have "combine (reduce (b 0) (b (k + 1))) (reduce (b (k + 1)) (b (k + 2))) = reduce (b 0) (b (k + 2))"
    using Suc.prems(1) [of "k + 1"] Suc.prems(2) [of "k + 2"] assms(2) [of 0] by (intro assms(4)) simp_all
  with Suc show ?case by simp
qed simp


lemma partition_bounds:
  assumes ok: "range_ok procs p start stop" and "start < stop"
  obtains k b where "partition_range procs p start stop = map (\<lambda>w. (b w, b (w + 1))) [0..<Suc k]"
    "b 0 = start" "b (Suc k) = stop" "\<And>w. w < Suc k \<Longrightarrow> b w < b (w + 1)" "\<And>w. start \<le> b w" "\<And>w. w \<le> Suc k \<Longrightarrow> b w \<le> stop"
    "int (Suc k) \<le> workers procs (Some p)"
proof -
  let ?n = "worker_count procs p start stop"
  let ?b = "\<lambda>w. if int w \<le> ?n then chunk_bound start stop ?n (int w) else stop"
  note n = worker_count_bounds [OF assms]
  have suc: "nat ?n = Suc (nat ?n - 1)" "int (Suc (nat ?n - 1)) = ?n" using n(1) by simp_all
  show thesis
  proof (rule that [of ?b "nat ?n - 1"])
    show "partition_range procs p start stop = map (\<lambda>w. (?b w, ?b (w + 1))) [0..<Suc (nat ?n - 1)]"
      using n(1) unfolding partition_range_def Let_def suc(1) [symmetric] by (intro map_cong) (auto simp: add.commute)
    show "?b 0 = start" using n(1) chunk_bound_ends(1) [OF assms] by simp
    show "?b (Suc (nat ?n - 1)) = stop" using n(1) chunk_bound_ends(2) [OF assms] by (simp add: suc(2))
    show "?b w < ?b (w + 1)" if "w < Suc (nat ?n - 1)" for w
      using that n(1) chunk_bound_less [OF assms, of "int w"] by (auto simp: add.commute)
    show "start \<le> ?b w" for w
      using chunk_bound_exact(2) [OF assms, of "int w"] \<open>start < stop\<close> by simp
    show "?b w \<le> stop" if "w \<le> Suc (nat ?n - 1)" for w
      using chunk_bound_exact(3) [OF assms, of "int w"] by simp
    show "int (Suc (nat ?n - 1)) \<le> workers procs (Some p)" using n(3) suc(2) by simp
  qed
qed

lemma pool_for_tasks:
  assumes "range_ok procs p start stop"
  obtains tasks where "pool_for procs (Some p) start stop = Inr tasks" "concat tasks = [start..stop - 1]"
    "list_all (\<lambda>t. t \<noteq> []) tasks" "int (length tasks) \<le> workers procs (Some p)"
proof (cases "stop \<le> start")
  case True
  have "0 \<le> workers procs (Some p)" using assms by (simp add: range_ok_def workers_def)
  with True show thesis by (intro that [of "[]"]) (simp_all add: pool_for_def)
next
  case False
  then have lt: "start < stop" by simp
  show thesis
  proof (cases "i64 (stop - start) < min_chunk p")
    case True
    have "1 \<le> workers procs (Some p)" using assms by (auto simp: range_ok_def workers_def)
    with True False show thesis by (intro that [of "[[start..stop - 1]]"]) (simp_all add: pool_for_def)
  next
    case inline: False
    obtain k b where kb: "partition_range procs p start stop = map (\<lambda>w. (b w, b (w + 1))) [0..<Suc k]"
        "b 0 = start" "b (Suc k) = stop" "\<And>w. w < Suc k \<Longrightarrow> b w < b (w + 1)" "\<And>w. start \<le> b w" "\<And>w. w \<le> Suc k \<Longrightarrow> b w \<le> stop"
        "int (Suc k) \<le> workers procs (Some p)"
      by (rule partition_bounds [OF assms lt]) blast
    let ?tasks = "map (\<lambda>w. [b w..b (w + 1) - 1]) [0..<Suc k]"
    show thesis
    proof (rule that [of ?tasks])
      show "pool_for procs (Some p) start stop = Inr ?tasks"
        using False inline by (simp add: pool_for_def kb(1) comp_def del: upt_Suc)
      show "concat ?tasks = [start..stop - 1]"
        using concat_ranges [of "Suc k" b] kb(2-4) by (simp del: upt_Suc)
      show "list_all (\<lambda>t. t \<noteq> []) ?tasks"
        using kb(4) by (fastforce simp: list_all_iff simp del: upt_Suc)
    qed (use kb(7) in simp)
  qed
qed

section \<open>Properties\<close>

text \<open>
  \<open>For\<close> hands every index of the range to exactly one goroutine: the work lists, one after the other, are the
  range in order; none is empty, and there are at most as many as the pool has workers.
\<close>
theorem pool_for_partition:
  assumes "range_ok procs p start stop"
  shows "\<exists>tasks. pool_for procs (Some p) start stop = Inr tasks \<and> concat tasks = [start..stop - 1] \<and>
    list_all (\<lambda>t. t \<noteq> []) tasks \<and> int (length tasks) \<le> workers procs (Some p)"
  by (rule pool_for_tasks [OF assms]) blast

theorem pool_for_partition_witness:
  "range_ok 8 \<lparr>pool_workers = 3, min_chunk = 1\<rparr> 5 15 \<and>
    (\<exists>tasks. pool_for 8 (Some \<lparr>pool_workers = 3, min_chunk = 1\<rparr>) 5 15 = Inr tasks \<and> concat tasks = [5..15 - 1] \<and>
      list_all (\<lambda>t. t \<noteq> []) tasks \<and> int (length tasks) \<le> workers 8 (Some \<lparr>pool_workers = 3, min_chunk = 1\<rparr>))"
proof -
  have "range_ok 8 \<lparr>pool_workers = 3, min_chunk = 1\<rparr> 5 15"
    by code_simp
  then show ?thesis
    using pool_for_partition [of 8 "\<lparr>pool_workers = 3, min_chunk = 1\<rparr>" 5 15] by blast
qed

section \<open>Lemmas: interleavings\<close>

lemma confined_mono: "confined R W p \<Longrightarrow> R \<subseteq> R' \<Longrightarrow> W \<subseteq> W' \<Longrightarrow> confined R' W' p"
  by (induction rule: confined.induct) (auto intro: confined.intros)

text \<open>What a goroutine still does by itself, and that what it may not touch it neither changes nor depends on.\<close>

definition run_goroutine :: "(int \<Rightarrow> ('l, 'v) action) \<Rightarrow> ('l, 'v) goroutine \<Rightarrow> ('l \<Rightarrow> 'v) \<Rightarrow> 'l \<Rightarrow> 'v" where
  "run_goroutine fn g m = sequential fn (snd g) (run_call (fst g) m)"

definition within :: "(int \<Rightarrow> ('l, 'v) action) \<Rightarrow> 'l set \<Rightarrow> 'l set \<Rightarrow> ('l, 'v) goroutine \<Rightarrow> bool" where
  "within fn R W g \<longleftrightarrow> confined R W (fst g) \<and> (\<forall>i \<in> set (snd g). confined R W (fn i))"

lemma confined_keeps: "confined R W p \<Longrightarrow> l \<notin> W \<Longrightarrow> run_call p m l = m l"
  by (induction arbitrary: m rule: confined.induct) auto

lemma confined_frame: "confined R W p \<Longrightarrow> l \<notin> R \<union> W \<Longrightarrow> run_call p (m(l := x)) = (run_call p m)(l := x)"
proof (induction arbitrary: m rule: confined.induct)
  case (3 l' p x')
  then have "m(l := x, l' := x') = m(l' := x', l := x)" by (intro fun_upd_twist) auto
  with 3 show ?case by (simp only: run_call.simps simp_thms)
qed auto

lemma sequential_Cons [simp]: "sequential fn [] m = m" "sequential fn (i # is) m = sequential fn is (run_call (fn i) m)"
  by (simp_all add: sequential_def)

lemma within_keeps:
  assumes "within fn R W g" "l \<notin> W"
  shows "run_goroutine fn g m l = m l"
proof -
  have "sequential fn is m' l = m' l" if "\<forall>i \<in> set is. confined R W (fn i)" for "is" m'
    using that assms(2) by (induction "is" arbitrary: m') (simp_all add: confined_keeps [of R W])
  with assms show ?thesis by (simp add: run_goroutine_def within_def confined_keeps [of R W])
qed

lemma within_frame:
  assumes "within fn R W g" "l \<notin> R \<union> W"
  shows "run_goroutine fn g (m(l := x)) = (run_goroutine fn g m)(l := x)"
proof -
  have "sequential fn is (m'(l := x)) = (sequential fn is m')(l := x)" if "\<forall>i \<in> set is. confined R W (fn i)" for "is" m'
    using that assms(2) by (induction "is" arbitrary: m') (simp_all add: confined_frame [of R W])
  with assms show ?thesis by (simp add: run_goroutine_def within_def confined_frame [of R W])
qed

text \<open>The goroutines one after the other, and what a step of one of them leaves of that.\<close>

abbreviation run_rest :: "(int \<Rightarrow> ('l, 'v) action) \<Rightarrow> ('l, 'v) goroutine list \<Rightarrow> ('l \<Rightarrow> 'v) \<Rightarrow> 'l \<Rightarrow> 'v" where
  "run_rest fn gs \<equiv> fold (run_goroutine fn) gs"

definition apart :: "('i \<Rightarrow> 'l set) \<Rightarrow> ('i \<Rightarrow> 'l set) \<Rightarrow> 'i set \<Rightarrow> bool" where
  "apart R W I \<longleftrightarrow> (\<forall>i \<in> I. \<forall>j \<in> I. i \<noteq> j \<longrightarrow> W i \<inter> (R j \<union> W j) = {})"

lemma rest_keeps:
  assumes "\<forall>g \<in> set gs. \<exists>R W. within fn R W g \<and> l \<notin> W"
  shows "run_rest fn gs m l = m l"
  using assms by (induction gs arbitrary: m) (auto simp: within_keeps)

lemma rest_frame:
  assumes "\<forall>g \<in> set gs. \<exists>R W. within fn R W g \<and> l \<notin> R \<union> W"
  shows "run_rest fn gs (m(l := x)) = (run_rest fn gs m)(l := x)"
  using assms
proof (induction gs arbitrary: m)
  case (Cons g gs)
  then obtain R W where "within fn R W g" "l \<notin> R \<union> W" by auto
  note frame = within_frame [OF this]
  have "run_rest fn (g # gs) (m(l := x)) = run_rest fn gs ((run_goroutine fn g m)(l := x))"
    by (simp only: fold_simps frame)
  also have "\<dots> = (run_rest fn gs (run_goroutine fn g m))(l := x)" using Cons.prems by (intro Cons.IH) simp
  finally show ?case by (simp only: fold_simps)
qed simp

definition all_within ::
  "(int \<Rightarrow> ('l, 'v) action) \<Rightarrow> (nat \<Rightarrow> 'l set) \<Rightarrow> (nat \<Rightarrow> 'l set) \<Rightarrow> ('l, 'v) goroutine list \<Rightarrow> bool" where
  "all_within fn R W gs \<longleftrightarrow> (\<forall>w < length gs. within fn (R w) (W w) (gs ! w))"

lemma step_rest:
  assumes "for_step fn (gs, m) (gs', m')" "all_within fn R W gs" "apart R W {..<length gs}"
  shows "run_rest fn gs' m' = run_rest fn gs m \<and> all_within fn R W gs' \<and> length gs' = length gs"
proof -
  from assms(1) obtain w g where w: "w < length gs" "gs' = gs[w := g]"
    and local: "(\<exists>i rest. gs ! w = (Return, i # rest) \<and> g = (fn i, rest) \<and> m' = m) \<or>
      (\<exists>l k rest. gs ! w = (Read l k, rest) \<and> g = (k (m l), rest) \<and> m' = m) \<or>
      (\<exists>l x p rest. gs ! w = (Write l x p, rest) \<and> g = (p, rest) \<and> m' = m(l := x))"
    by (auto elim!: for_stepE)
  have here: "within fn (R w) (W w) (gs ! w)" using assms(2) w(1) by (simp add: all_within_def)
  have g: "within fn (R w) (W w) g"
    using local here by (auto simp: within_def elim!: confined_ReadE confined_WriteE)
  have others: "\<exists>R' W'. within fn R' W' g' \<and> (l \<in> R w \<union> W w \<longrightarrow> l \<notin> W') \<and> (l \<in> W w \<longrightarrow> l \<notin> R' \<union> W')"
    if "g' \<in> set (take w gs)" for g' l
  proof -
    from that obtain v where v: "v < w" "g' = gs ! v" using w(1) by (auto simp: in_set_conv_nth)
    then have "within fn (R v) (W v) g'" "W v \<inter> (R w \<union> W w) = {}" "W w \<inter> (R v \<union> W v) = {}"
      using assms(2,3) w(1) by (simp_all add: all_within_def apart_def)
    then show ?thesis by blast
  qed
  let ?before = "run_rest fn (take w gs)"
  have "run_goroutine fn g (?before m') = run_goroutine fn (gs ! w) (?before m)"
    using local
  proof (elim disjE exE conjE)
    fix i rest assume "gs ! w = (Return, i # rest)" "g = (fn i, rest)" "m' = m"
    then show ?thesis by (simp add: run_goroutine_def)
  next
    fix l k rest assume read: "gs ! w = (Read l k, rest)" "g = (k (m l), rest)" "m' = m"
    then have "l \<in> R w \<union> W w" using here by (auto simp: within_def elim: confined_ReadE)
    then have "?before m l = m l" using others by (intro rest_keeps) blast
    with read show ?thesis by (simp add: run_goroutine_def)
  next
    fix l x p rest assume wr: "gs ! w = (Write l x p, rest)" "g = (p, rest)" "m' = m(l := x)"
    then have "l \<in> W w" using here by (auto simp: within_def elim: confined_WriteE)
    then have "?before (m(l := x)) = (?before m)(l := x)" using others by (intro rest_frame) blast
    with wr show ?thesis by (simp add: run_goroutine_def)
  qed
  moreover have "run_rest fn gs m = run_rest fn (drop (Suc w) gs) (run_goroutine fn (gs ! w) (?before m))"
    by (subst id_take_nth_drop [OF w(1)]) simp
  moreover have "run_rest fn gs' m' = run_rest fn (drop (Suc w) gs) (run_goroutine fn g (?before m'))"
    by (simp add: w upd_conv_take_nth_drop)
  ultimately have "run_rest fn gs' m' = run_rest fn gs m" by simp
  moreover have "all_within fn R W gs'"
    using assms(2) g w by (auto simp: all_within_def nth_list_update)
  ultimately show ?thesis by (simp add: w(2))
qed

lemma steps_rest:
  assumes "(for_step fn)\<^sup>*\<^sup>* (gs, m) (gs', m')" "all_within fn R W gs" "apart R W {..<length gs}"
  shows "run_rest fn gs' m' = run_rest fn gs m \<and> all_within fn R W gs' \<and> length gs' = length gs"
  using assms(1)
proof (induction rule: rtranclp_induct2)
  case (step gs1 m1 gs2 m2)
  with step_rest [OF step(2), of R W] assms(3) show ?case by simp
qed (simp add: assms(2))

lemma rest_done: "all_done gs \<Longrightarrow> run_rest fn gs m = m"
  by (induction gs arbitrary: m) (auto simp: all_done_def run_goroutine_def split: prod.splits action.splits list.splits)

text \<open>One goroutine can run to its end whatever the others wait for, so every run can be finished.\<close>

lemma goroutine_to_end:
  assumes "w < length gs"
  shows "\<exists>m'. (for_step fn)\<^sup>*\<^sup>* (gs, m) (gs[w := (Return, [])], m')"
proof -
  have call: "\<exists>m'. (for_step fn)\<^sup>*\<^sup>* (gs[w := (p, rest)], m) (gs[w := (Return, rest)], m')" for p rest m
  proof (induction p arbitrary: m)
    case (Read l k)
    have "for_step fn (gs[w := (Read l k, rest)], m) (gs[w := (k (m l), rest)], m)"
      using for_step.reads [of w "gs[w := (Read l k, rest)]" l k rest fn m] assms by simp
    moreover obtain m' where "(for_step fn)\<^sup>*\<^sup>* (gs[w := (k (m l), rest)], m) (gs[w := (Return, rest)], m')"
      using Read [of "k (m l)" m] by auto
    ultimately show ?case by (blast intro: converse_rtranclp_into_rtranclp)
  next
    case (Write l x p)
    have "for_step fn (gs[w := (Write l x p, rest)], m) (gs[w := (p, rest)], m(l := x))"
      using for_step.writes [of w "gs[w := (Write l x p, rest)]" l x p rest fn m] assms by simp
    with Write [of "m(l := x)"] show ?case by (blast intro: converse_rtranclp_into_rtranclp)
  qed blast
  have "\<exists>m'. (for_step fn)\<^sup>*\<^sup>* (gs[w := (Return, rest)], m) (gs[w := (Return, [])], m')" for rest m
  proof (induction rest arbitrary: m)
    case (Cons i rest)
    have "for_step fn (gs[w := (Return, i # rest)], m) (gs[w := (fn i, rest)], m)"
      using for_step.calls [of w "gs[w := (Return, i # rest)]" i rest fn m] assms by simp
    moreover obtain m1 where "(for_step fn)\<^sup>*\<^sup>* (gs[w := (fn i, rest)], m) (gs[w := (Return, rest)], m1)"
      using call [of "fn i" rest m] by blast
    moreover obtain m2 where "(for_step fn)\<^sup>*\<^sup>* (gs[w := (Return, rest)], m1) (gs[w := (Return, [])], m2)"
      using Cons [of m1] by blast
    ultimately show ?case by (blast intro: converse_rtranclp_into_rtranclp rtranclp_trans)
  qed blast
  note indices = this
  obtain m1 where one: "(for_step fn)\<^sup>*\<^sup>* (gs, m) (gs[w := (Return, snd (gs ! w))], m1)"
    using call [of "fst (gs ! w)" "snd (gs ! w)" m] by auto
  obtain m2 where "(for_step fn)\<^sup>*\<^sup>* (gs[w := (Return, snd (gs ! w))], m1) (gs[w := (Return, [])], m2)"
    using indices [of "snd (gs ! w)" m1] by blast
  from rtranclp_trans [OF one this] show ?thesis by blast
qed

lemma run_to_end: "\<exists>gs' m'. (for_step fn)\<^sup>*\<^sup>* (gs, m) (gs', m') \<and> all_done gs'"
proof -
  have "\<exists>gs' m'. (for_step fn)\<^sup>*\<^sup>* (gs, m) (gs', m') \<and> length gs' = length gs \<and> (\<forall>v < n. gs' ! v = (Return, []))"
    if "n \<le> length gs" for n
    using that
  proof (induction n)
    case (Suc n)
    then obtain gs1 m1 where one: "(for_step fn)\<^sup>*\<^sup>* (gs, m) (gs1, m1)" "length gs1 = length gs" "\<forall>v < n. gs1 ! v = (Return, [])"
      by auto
    with Suc.prems obtain m2 where "(for_step fn)\<^sup>*\<^sup>* (gs1, m1) (gs1[n := (Return, [])], m2)"
      using goroutine_to_end [of n gs1 fn m1] by auto
    with one Suc.prems show ?case
      by (intro exI [of _ "gs1[n := (Return, [])]"] exI [of _ m2]) (auto simp: less_Suc_eq intro: rtranclp_trans)
  qed blast
  from this [of "length gs"] show ?thesis by (fastforce simp: all_done_def list_all_length)
qed

lemma start_rest: "run_rest fn (start_all tasks) m = sequential fn (concat tasks) m"
  by (induction tasks arbitrary: m) (simp_all add: start_all_def run_goroutine_def sequential_def)

lemma distinct_concat_apart:
  "distinct (concat tasks) \<Longrightarrow> v < length tasks \<Longrightarrow> w < length tasks \<Longrightarrow> v \<noteq> w \<Longrightarrow> set (tasks ! v) \<inter> set (tasks ! w) = {}"
proof (induction tasks arbitrary: v w)
  case (Cons t tasks)
  then show ?case by (cases v; cases w) (fastforce simp: set_conv_nth [of tasks])+
qed simp

text \<open>
  C32. \<open>For\<close> over code without data races is deterministic. Suppose that every call \<open>fn(index)\<close> stays within its own
  locations and that no call reads or writes what another one writes. Then, however the reads and writes of the goroutines
  interleave, every run can go on until all of them have returned, and when they have, the memory is what the sequential loop
  over the range leaves.
\<close>
theorem pool_for_deterministic:
  assumes "range_ok procs p start stop" "pool_for procs (Some p) start stop = Inr tasks"
    "race_free fn R W {start..<stop}"
    "(for_step fn)\<^sup>*\<^sup>* (start_all tasks, m) (gs, m')"
  shows "(\<exists>gs' m''. (for_step fn)\<^sup>*\<^sup>* (gs, m') (gs', m'') \<and> all_done gs') \<and>
    (all_done gs \<longrightarrow> m' = sequential fn [start..stop - 1] m)"
proof (intro conjI run_to_end impI)
  assume "all_done gs"
  have tasks: "concat tasks = [start..stop - 1]"
    using assms(2) by (auto intro: pool_for_tasks [OF assms(1)])
  let ?R = "\<lambda>w. \<Union>i \<in> set (tasks ! w). R i" and ?W = "\<lambda>w. \<Union>i \<in> set (tasks ! w). W i"
  have index: "i \<in> {start..<stop}" if "w < length tasks" "i \<in> set (tasks ! w)" for w i
  proof -
    have "i \<in> set (concat tasks)" using that by auto
    then show ?thesis unfolding tasks by simp
  qed
  have "all_within fn ?R ?W (start_all tasks)"
    unfolding all_within_def within_def
  proof (intro allI impI conjI ballI)
    fix w i assume w: "w < length (start_all tasks)" "i \<in> set (snd (start_all tasks ! w))"
    then have "confined (R i) (W i) (fn i)"
      using assms(3) index by (auto simp: race_free_def start_all_def)
    then show "confined (?R w) (?W w) (fn i)" using w by (auto simp: start_all_def intro: confined_mono)
  qed (simp add: start_all_def confined.intros)
  moreover have "apart ?R ?W {..<length (start_all tasks)}"
    unfolding apart_def
  proof (intro ballI impI)
    fix v w assume vw: "v \<in> {..<length (start_all tasks)}" "w \<in> {..<length (start_all tasks)}" "v \<noteq> w"
    have "W i \<inter> (R j \<union> W j) = {}" if "i \<in> set (tasks ! v)" "j \<in> set (tasks ! w)" for i j
    proof -
      have "i \<noteq> j"
        using distinct_concat_apart [of tasks v w] that vw by (auto simp: tasks start_all_def)
      with that vw index assms(3) show ?thesis by (auto simp: race_free_def start_all_def)
    qed
    then show "?W v \<inter> (?R w \<union> ?W w) = {}" by blast
  qed
  ultimately have "run_rest fn gs m' = run_rest fn (start_all tasks) m"
    using steps_rest [OF assms(4)] by blast
  with \<open>all_done gs\<close> show "m' = sequential fn [start..stop - 1] m"
    by (simp add: rest_done start_rest tasks)
qed

text \<open>Two goroutines that copy, one element a call, with both of them inside a call: the first has read and not yet written.\<close>

definition copy_call :: "int \<Rightarrow> (int, int) action" where
  "copy_call i = Read i (\<lambda>x. Write (i + 10) (x + i) Return)"

theorem pool_for_deterministic_witness:
  "\<exists>gs m. pool_for 2 (Some \<lparr>pool_workers = 2, min_chunk = 0\<rparr>) 0 3 = Inr [[0], [1, 2]] \<and>
    for_step copy_call ([(Return, [0]), (Return, [1, 2])], id) ([(copy_call 0, []), (Return, [1, 2])], id) \<and>
    for_step copy_call ([(copy_call 0, []), (Return, [1, 2])], id) ([(copy_call 0, []), (copy_call 1, [2])], id) \<and>
    for_step copy_call ([(copy_call 0, []), (copy_call 1, [2])], id) ([(Write 10 0 Return, []), (copy_call 1, [2])], id) \<and>
    for_step copy_call ([(Write 10 0 Return, []), (copy_call 1, [2])], id) ([(Write 10 0 Return, []), (Write 11 2 Return, [2])], id) \<and>
    (for_step copy_call)\<^sup>*\<^sup>* ([(Write 10 0 Return, []), (Write 11 2 Return, [2])], id) (gs, m) \<and>
    all_done gs \<and> m = id(10 := 0, 11 := 2, 12 := 4)"
proof -
  have ok: "range_ok 2 \<lparr>pool_workers = 2, min_chunk = 0\<rparr> 0 3"
    by code_simp
  have tasks: "pool_for 2 (Some \<lparr>pool_workers = 2, min_chunk = 0\<rparr>) 0 3 = Inr [[0], [1, 2]]"
    by code_simp
  have free: "race_free copy_call (\<lambda>i. {i}) (\<lambda>i. {i + 10}) {0..<3}"
    by (auto simp: race_free_def copy_call_def intro!: confined.intros)
  have s1: "for_step copy_call ([(Return, [0]), (Return, [1, 2])], id) ([(copy_call 0, []), (Return, [1, 2])], id)"
    using for_step.calls [of 0 "[(Return, [0]), (Return, [1, 2])]" 0 "[]" copy_call id] by simp
  have s2: "for_step copy_call ([(copy_call 0, []), (Return, [1, 2])], id) ([(copy_call 0, []), (copy_call 1, [2])], id)"
    using for_step.calls [of 1 "[(copy_call 0, []), (Return, [1, 2])]" 1 "[2]" copy_call id] by simp
  have s3: "for_step copy_call ([(copy_call 0, []), (copy_call 1, [2])], id) ([(Write 10 0 Return, []), (copy_call 1, [2])], id)"
    using for_step.reads [of 0 "[(copy_call 0, []), (copy_call 1, [2])]" 0 "\<lambda>x. Write 10 x Return" "[]" copy_call id]
    by (simp add: copy_call_def)
  have s4: "for_step copy_call ([(Write 10 0 Return, []), (copy_call 1, [2])], id) ([(Write 10 0 Return, []), (Write 11 2 Return, [2])], id)"
    using for_step.reads [of 1 "[(Write 10 0 Return, []), (copy_call 1, [2])]" 1 "\<lambda>x. Write 11 (x + 1) Return" "[2]" copy_call id]
    by (simp add: copy_call_def)
  have start: "start_all [[0], [1, 2]] = [(Return, [0]), (Return, [1, 2 :: int])]"
    by (simp add: start_all_def)
  have upto: "(for_step copy_call)\<^sup>*\<^sup>* (start_all [[0], [1, 2]], id) ([(Write 10 0 Return, []), (Write 11 2 Return, [2])], id)"
    unfolding start using s1 s2 s3 s4 by (meson converse_rtranclp_into_rtranclp r_into_rtranclp)
  from pool_for_deterministic [OF ok tasks free upto] obtain gs m where
    rest: "(for_step copy_call)\<^sup>*\<^sup>* ([(Write 10 0 Return, []), (Write 11 2 Return, [2])], id) (gs, m)" "all_done gs"
    by blast
  have "m = sequential copy_call [0..3 - 1] id"
    using pool_for_deterministic [OF ok tasks free rtranclp_trans [OF upto rest(1)]] rest(2) by blast
  also have "\<dots> = id(10 := 0, 11 := 2, 12 := 4)"
    by (simp add: upto_rec1 copy_call_def)
  finally show ?thesis using tasks s1 s2 s3 s4 rest by blast
qed

text \<open>
  \<open>Reduce\<close> gives what one call over the whole range would: with a \<open>combine\<close> that joins the results of
  adjacent ranges, the outcome does not depend on the number of workers. No commutativity is needed.
\<close>
theorem pool_reduce_sequential:
  assumes "range_ok procs p start stop"
    "\<forall>x y z. start \<le> x \<and> x < y \<and> y < z \<and> z \<le> stop \<longrightarrow> combine (reduce x y) (reduce y z) = reduce x z"
  shows "pool_reduce zero reduce combine procs (Some p) start stop =
    Inr (if stop \<le> start then zero else reduce start stop)"
proof (cases "stop \<le> start \<or> i64 (stop - start) < min_chunk p")
  case True
  then show ?thesis by (auto simp: pool_reduce_def)
next
  case False
  then have lt: "start < stop" by simp
  obtain k b where kb: "partition_range procs p start stop = map (\<lambda>w. (b w, b (w + 1))) [0..<Suc k]"
      "b 0 = start" "b (Suc k) = stop" "\<And>w. w < Suc k \<Longrightarrow> b w < b (w + 1)" "\<And>w. start \<le> b w" "\<And>w. w \<le> Suc k \<Longrightarrow> b w \<le> stop"
    by (rule partition_bounds [OF assms(1) lt]) blast
  have "map (\<lambda>(lo, hi). reduce lo hi) (partition_range procs p start stop) =
      reduce (b 0) (b 1) # map (\<lambda>w. reduce (b w) (b (w + 1))) [1..<k + 1]"
    unfolding kb(1) by (subst upt_conv_Cons) (simp_all del: upt_Suc)
  moreover have "foldl combine (reduce (b 0) (b 1)) (map (\<lambda>w. reduce (b w) (b (w + 1))) [1..<k + 1]) = reduce (b 0) (b (k + 1))"
    using kb(4-6) assms(2) by (intro foldl_ranges [of k b start stop]) simp_all
  ultimately show ?thesis
    using False kb(2,3) by (simp add: pool_reduce_def)
qed

theorem pool_reduce_sequential_witness:
  "pool_reduce 0 (\<lambda>lo hi. \<Sum>i \<in> {lo..<hi}. i) (+) 2 (Some \<lparr>pool_workers = 2, min_chunk = 0\<rparr>) 0 3 = Inr (3 :: int)"
proof -
  have ok: "range_ok 2 \<lparr>pool_workers = 2, min_chunk = 0\<rparr> 0 3"
    by code_simp
  have "\<forall>x y z. (0 :: int) \<le> x \<and> x < y \<and> y < z \<and> z \<le> 3 \<longrightarrow> (\<Sum>i \<in> {x..<y}. i) + (\<Sum>i \<in> {y..<z}. i) = (\<Sum>i \<in> {x..<z}. i)"
  proof (intro allI impI)
    fix x y z :: int
    assume "0 \<le> x \<and> x < y \<and> y < z \<and> z \<le> 3"
    then have "{x..<z} = {x..<y} \<union> {y..<z}" by auto
    then show "(\<Sum>i \<in> {x..<y}. i) + (\<Sum>i \<in> {y..<z}. i) = (\<Sum>i \<in> {x..<z}. i)"
      by (simp add: sum.union_disjoint)
  qed
  moreover have "(\<Sum>i \<in> {0..<3 :: int}. i) = 3"
    by code_simp
  ultimately show ?thesis
    using pool_reduce_sequential [OF ok, of "(+)" "\<lambda>lo hi. \<Sum>i \<in> {lo..<hi}. i" 0] by simp
qed

text \<open>The zero value of \<open>Pool\<close> does not run everything inline, as its comment says: two indices go to two goroutines.\<close>

lemma zero_pool_fans_out:
  "pool_for 4 (Some \<lparr>pool_workers = 0, min_chunk = 0\<rparr>) 0 2 = Inr [[0], [1]]"
  by code_simp

end
