(* ===== verification/Tools.thy ===== *)
theory Tools
  imports Go_Base "HOL-Library.Sublist"
begin

text \<open>
  src/inference/tooluse.go: the registry of tools and the built-in calculator.

  A tool is its name and its \<open>Call\<close> (\<open>None\<close>: not understood). Strings are lists of characters; every string
  the calculator looks into has passed a check that allows ASCII only, so characters are bytes and runes at
  once. The parser's position is the text from it on. float64 arithmetic is a record of operations, so what is
  proved holds of any arithmetic. \<open>Inl (Fail ())\<close> is \<open>ok = false\<close>; the recursion of the parser carries fuel.
\<close>

section \<open>The registry\<close>

type_synonym tool = "string \<times> (string \<Rightarrow> string option)"

definition register_tool :: "tool \<Rightarrow> tool list \<Rightarrow> tool list" where
  "register_tool t registry = registry @ [t]"

fun execute_tool :: "tool list \<Rightarrow> string \<Rightarrow> (string \<times> string) option" where
  "execute_tool [] expr = None"
| "execute_tool ((name, call) # registry) expr =
     (case call expr of Some result \<Rightarrow> Some (name, result) | None \<Rightarrow> execute_tool registry expr)"

definition execute :: "tool list \<Rightarrow> string \<Rightarrow> string option" where
  "execute registry expr = map_option snd (execute_tool registry expr)"

section \<open>Strings\<close>

definition is_digit :: "char \<Rightarrow> bool" where
  "is_digit c \<longleftrightarrow> c \<in> set ''0123456789''"

definition digit_of :: "char \<Rightarrow> nat" where
  "digit_of c = of_char c - 48"

definition lower_char :: "char \<Rightarrow> char" where
  "lower_char c = (let n = of_char c :: nat in if 65 \<le> n \<and> n \<le> 90 then char_of (n + 32) else c)"

definition contains :: "string \<Rightarrow> string \<Rightarrow> bool" where
  "contains s sub \<longleftrightarrow> list_ex (prefix sub) (suffixes s)"

fun index_of :: "string \<Rightarrow> string \<Rightarrow> nat option" where
  "index_of [] sub = (if sub = [] then Some 0 else None)"
| "index_of (c # s) sub = (if prefix sub (c # s) then Some 0 else map_option Suc (index_of s sub))"

text \<open>Occurrences that do not overlap, and one more than the characters for the empty string.\<close>

fun count_skip :: "nat \<Rightarrow> string \<Rightarrow> string \<Rightarrow> nat" where
  "count_skip (Suc k) (c # s) sub = count_skip k s sub"
| "count_skip 0 (c # s) sub = (if prefix sub (c # s) then 1 + count_skip (length sub - 1) s sub else count_skip 0 s sub)"
| "count_skip k [] sub = 0"

definition count_of :: "string \<Rightarrow> string \<Rightarrow> nat" where
  "count_of s sub = (if sub = [] then length s + 1 else count_skip 0 s sub)"

definition trim_blank :: "string \<Rightarrow> string" where
  "trim_blank s = rev (dropWhile (\<lambda>c. c = CHR '' '') (rev (dropWhile (\<lambda>c. c = CHR '' '') s)))"

definition skip_blank :: "string \<Rightarrow> string" where
  "skip_blank s = dropWhile (\<lambda>c. c = CHR '' '') s"

definition unquote :: "string \<Rightarrow> string option" where
  "unquote s =
     (if length s < 2 then None
      else if hd s = CHR 0x22 \<and> last s = CHR 0x22 \<or> hd s = CHR 0x27 \<and> last s = CHR 0x27 then Some (butlast (tl s))
      else None)"

section \<open>The arithmetic parser\<close>

record 'f float_ops =
  fl_zero :: 'f
  fl_ten :: 'f
  fl_tenth :: 'f
  fl_digit :: "nat \<Rightarrow> 'f"
  fl_add :: "'f \<Rightarrow> 'f \<Rightarrow> 'f"
  fl_sub :: "'f \<Rightarrow> 'f \<Rightarrow> 'f"
  fl_mul :: "'f \<Rightarrow> 'f \<Rightarrow> 'f"
  fl_div :: "'f \<Rightarrow> 'f \<Rightarrow> 'f"
  fl_neg :: "'f \<Rightarrow> 'f"
  fl_is_zero :: "'f \<Rightarrow> bool"
  fl_format :: "'f \<Rightarrow> string"

definition whole_value :: "'f float_ops \<Rightarrow> string \<Rightarrow> 'f" where
  "whole_value F ds = foldl (\<lambda>v c. fl_add F (fl_mul F v (fl_ten F)) (fl_digit F (digit_of c))) (fl_zero F) ds"

definition fraction_value :: "'f float_ops \<Rightarrow> 'f \<Rightarrow> string \<Rightarrow> 'f" where
  "fraction_value F v ds =
     fst (foldl (\<lambda>(v, fraction) c. (fl_add F v (fl_mul F (fl_digit F (digit_of c)) fraction), fl_mul F fraction (fl_tenth F)))
       (v, fl_tenth F) ds)"

definition number :: "'f float_ops \<Rightarrow> string \<Rightarrow> (unit, 'f \<times> string) outcome" where
  "number F s =
     (let whole = takeWhile is_digit s; rest = dropWhile is_digit s in
      if rest \<noteq> [] \<and> hd rest = CHR ''.'' then
        (let decimals = takeWhile is_digit (tl rest) in
         fail_if (whole = [] \<and> decimals = []) ()
           (Inr (fraction_value F (whole_value F whole) decimals, dropWhile is_digit (tl rest))))
      else fail_if (whole = []) () (Inr (whole_value F whole, rest)))"

text \<open>
  The methods \<open>expr\<close>, \<open>term\<close> (each with its loop over operators) and \<open>factor\<close> call each other: one
  function, told which of them runs.
\<close>

datatype 'f arith_method = Expr | ExprLoop 'f | Term | TermLoop 'f | Factor

primrec arith :: "'f float_ops \<Rightarrow> nat \<Rightarrow> 'f arith_method \<Rightarrow> string \<Rightarrow> (unit, 'f \<times> string) outcome" where
  "arith F 0 m s = Inl NoFuel"
| "arith F (Suc n) m s =
     (case m of
        Expr \<Rightarrow> obind (arith F n Term s) (\<lambda>(v, s). arith F n (ExprLoop v) s)
      | ExprLoop v \<Rightarrow>
          (case skip_blank s of
             [] \<Rightarrow> Inr (v, [])
           | c # s' \<Rightarrow>
               if c \<noteq> CHR ''+'' \<and> c \<noteq> CHR ''-'' then Inr (v, c # s')
               else obind (arith F n Term s') (\<lambda>(r, s).
                 arith F n (ExprLoop (if c = CHR ''+'' then fl_add F v r else fl_sub F v r)) s))
      | Term \<Rightarrow> obind (arith F n Factor s) (\<lambda>(v, s). arith F n (TermLoop v) s)
      | TermLoop v \<Rightarrow>
          (case skip_blank s of
             [] \<Rightarrow> Inr (v, [])
           | c # s' \<Rightarrow>
               if c \<noteq> CHR ''*'' \<and> c \<noteq> CHR ''/'' then Inr (v, c # s')
               else obind (arith F n Factor s') (\<lambda>(r, s).
                 if c = CHR ''*'' then arith F n (TermLoop (fl_mul F v r)) s
                 else fail_if (fl_is_zero F r) () (arith F n (TermLoop (fl_div F v r)) s)))
      | Factor \<Rightarrow>
          (case skip_blank s of
             [] \<Rightarrow> Inl (Fail ())
           | c # s' \<Rightarrow>
               if c = CHR ''-'' then obind (arith F n Factor s') (\<lambda>(v, s). Inr (fl_neg F v, s))
               else if c = CHR ''('' then
                 obind (arith F n Expr s') (\<lambda>(v, s).
                   (case skip_blank s of
                      [] \<Rightarrow> Inl (Fail ())
                    | d # s \<Rightarrow> fail_if (d \<noteq> CHR '')'') () (Inr (v, s))))
               else number F (c # s')))"

definition arith_parse :: "'f float_ops \<Rightarrow> nat \<Rightarrow> string \<Rightarrow> (unit, 'f) outcome" where
  "arith_parse F n s = obind (arith F n Expr s) (\<lambda>(v, s). fail_if (skip_blank s \<noteq> []) () (Inr v))"

definition eval_arithmetic :: "'f float_ops \<Rightarrow> string \<Rightarrow> (unit, 'f) outcome" where
  "eval_arithmetic F s = arith_parse F (3 * length s + 3) s"

section \<open>The calculator\<close>

definition is_arithmetic :: "string \<Rightarrow> bool" where
  "is_arithmetic s \<longleftrightarrow> list_all (\<lambda>c. is_digit c \<or> c \<in> set ''*+-/.() '') s \<and> s \<noteq> []"

definition forbidden_words :: "string list" where
  "forbidden_words =
     [''__'', ''import'', ''exec'', ''eval'', ''compile'', ''open'', ''file'', ''input'', ''globals'', ''locals'',
      ''vars'', ''dir'', ''getattr'', ''setattr'', ''delattr'', ''hasattr'']"

definition is_count_char :: "char \<Rightarrow> bool" where
  "is_count_char c \<longleftrightarrow> (let n = of_char c :: nat in 97 \<le> n \<and> n \<le> 122 \<or> 65 \<le> n \<and> n \<le> 90) \<or> is_digit c \<or>
     c = CHR 0x27 \<or> c = CHR 0x22 \<or> c \<in> set ''.()_ ''"

definition is_count_expression :: "string \<Rightarrow> bool" where
  "is_count_expression s \<longleftrightarrow> list_all is_count_char s \<and>
     \<not> list_ex (contains (map lower_char s)) forbidden_words \<and> contains s ''.count(''"

definition eval_count :: "string \<Rightarrow> nat option" where
  "eval_count s =
     (case index_of s ''.count('' of
        None \<Rightarrow> None
      | Some i \<Rightarrow>
          (let literal = trim_blank (take i s); argument = trim_blank (drop (i + length ''.count('') s) in
           if \<not> suffix '')'' argument then None
           else Option.bind (unquote literal) (\<lambda>text.
             Option.bind (unquote (trim_blank (butlast argument))) (\<lambda>sub. Some (count_of text sub)))))"

fun decimal_digits :: "nat \<Rightarrow> string" where
  "decimal_digits n = (if n < 10 then [char_of (48 + n)] else decimal_digits (n div 10) @ [char_of (48 + n mod 10)])"

definition calculator :: "'f float_ops \<Rightarrow> string \<Rightarrow> string option" where
  "calculator F expr0 =
     (let expr = filter (\<lambda>c. c \<noteq> CHR '','') expr0 in
      if is_arithmetic expr then
        (if contains expr ''**'' then None
         else (case eval_arithmetic F expr of Inr v \<Rightarrow> Some (fl_format F v) | Inl _ \<Rightarrow> None))
      else if is_count_expression expr then map_option decimal_digits (eval_count expr)
      else None)"

definition new_calculator :: "'f float_ops \<Rightarrow> tool list" where
  "new_calculator F = register_tool (''calculator'', calculator F) []"


section \<open>Lemmas: the fuel\<close>

lemma skip_blank_facts: "length (skip_blank s) \<le> length s" "skip_blank s = c # s' \<Longrightarrow> length s' < length s"
proof -
  show le: "length (skip_blank s) \<le> length s"
    by (simp add: skip_blank_def length_dropWhile_le)
  show "skip_blank s = c # s' \<Longrightarrow> length s' < length s"
    using le by simp
qed

lemma number_shorter: "number F s = Inr (v, s') \<Longrightarrow> length s' < length s"
proof -
  let ?rest = "dropWhile is_digit s"
  have "length (takeWhile is_digit s) + length ?rest = length s"
    by (metis length_append takeWhile_dropWhile_id)
  then have whole: "length ?rest < length s" if "takeWhile is_digit s \<noteq> []"
    using that by (cases "takeWhile is_digit s") auto
  have le: "length (dropWhile is_digit (tl ?rest)) \<le> length (tl ?rest)" "length ?rest \<le> length s"
    by (rule length_dropWhile_le)+
  have point: "length (dropWhile is_digit (tl ?rest)) < length s" if "?rest \<noteq> []"
    using le that by (cases ?rest) auto
  assume "number F s = Inr (v, s')"
  then show ?thesis
    using whole point by (auto simp: number_def Let_def guard_eq_Inr split: if_splits)
qed

text \<open>Factors and terms take something, the loops may take nothing.\<close>

fun takes :: "'f arith_method \<Rightarrow> nat" where
  "takes (ExprLoop v) = 0"
| "takes (TermLoop v) = 0"
| "takes m = 1"

lemma arith_shorter: "arith F n m s = Inr (v, s') \<Longrightarrow> length s' + takes m \<le> length s"
proof (induction n arbitrary: m s v s')
  case (Suc n)
  note IH = Suc.IH
  show ?case
  proof (cases m)
    case Expr
    with Suc.prems obtain w t where "arith F n Term s = Inr (w, t)" "arith F n (ExprLoop w) t = Inr (v, s')"
      by (auto simp: obind_eq_Inr)
    with IH [of Term] IH [of "ExprLoop w"] Expr show ?thesis by force
  next
    case Term
    with Suc.prems obtain w t where "arith F n Factor s = Inr (w, t)" "arith F n (TermLoop w) t = Inr (v, s')"
      by (auto simp: obind_eq_Inr)
    with IH [of Factor] IH [of "TermLoop w"] Term show ?thesis by force
  next
    case (ExprLoop w)
    show ?thesis
    proof (cases "skip_blank s")
      case (Cons c s1)
      note short = skip_blank_facts(2) [OF Cons]
      show ?thesis
      proof (cases "c \<noteq> CHR ''+'' \<and> c \<noteq> CHR ''-''")
        case True
        with Suc.prems ExprLoop Cons skip_blank_facts(1) [of s] show ?thesis by auto
      next
        case False
        then obtain r t where "arith F n Term s1 = Inr (r, t)"
            "arith F n (ExprLoop (if c = CHR ''+'' then fl_add F w r else fl_sub F w r)) t = Inr (v, s')"
          using Suc.prems ExprLoop Cons by (auto simp: obind_eq_Inr split: if_splits)
        with IH [of Term s1 r t] IH [of "ExprLoop (if c = CHR ''+'' then fl_add F w r else fl_sub F w r)" t v s'] short ExprLoop
        show ?thesis by simp
      qed
    qed (use Suc.prems ExprLoop in simp)
  next
    case (TermLoop w)
    show ?thesis
    proof (cases "skip_blank s")
      case (Cons c s1)
      note short = skip_blank_facts(2) [OF Cons]
      show ?thesis
      proof (cases "c \<noteq> CHR ''*'' \<and> c \<noteq> CHR ''/''")
        case True
        with Suc.prems TermLoop Cons skip_blank_facts(1) [of s] show ?thesis by auto
      next
        case False
        then obtain r t x where "arith F n Factor s1 = Inr (r, t)" "arith F n (TermLoop x) t = Inr (v, s')"
          using Suc.prems TermLoop Cons by (auto simp: obind_eq_Inr guard_eq_Inr split: if_splits)
        with IH [of Factor s1 r t] IH [of "TermLoop x" t v s'] short TermLoop
        show ?thesis by simp
      qed
    qed (use Suc.prems TermLoop in simp)
  next
    case Factor
    show ?thesis
    proof (cases "skip_blank s")
      case (Cons c s1)
      note short = skip_blank_facts(2) [OF Cons]
      consider "c = CHR ''-''" | "c = CHR ''(''" | "c \<noteq> CHR ''-''" "c \<noteq> CHR ''(''" by blast
      then show ?thesis
      proof cases
        case 1
        then obtain w where "arith F n Factor s1 = Inr (w, s')"
          using Suc.prems Factor Cons by (auto simp: obind_eq_Inr)
        with IH [of Factor s1 w s'] short Factor show ?thesis by simp
      next
        case 2
        then obtain w t where t: "arith F n Expr s1 = Inr (w, t)"
            "(case skip_blank t of [] \<Rightarrow> Inl (Fail ()) | d # s \<Rightarrow> fail_if (d \<noteq> CHR '')'') () (Inr (w, s))) = Inr (v, s')"
          using Suc.prems Factor Cons by (auto simp: obind_eq_Inr)
        then obtain d where "skip_blank t = d # s'"
          by (cases "skip_blank t") (auto simp: guard_eq_Inr)
        with t(1) IH [of Expr s1 w t] skip_blank_facts(2) [of t d s'] short Factor show ?thesis by simp
      next
        case 3
        then show ?thesis
          using Suc.prems Factor Cons number_shorter [of F "c # s1" v s'] skip_blank_facts(1) [of s] by simp
      qed
    qed (use Suc.prems Factor in simp)
  qed
qed simp

text \<open>How much fuel a method needs on a text of a given length.\<close>

fun fuel_for :: "'f arith_method \<Rightarrow> nat" where
  "fuel_for Expr = 3"
| "fuel_for Term = 2"
| "fuel_for Factor = 1"
| "fuel_for (ExprLoop v) = 2"
| "fuel_for (TermLoop v) = 1"

lemma arith_returns: "3 * length s + fuel_for m \<le> n \<Longrightarrow> returns (arith F n m s)"
proof (induction n arbitrary: m s)
  case 0
  then show ?case by (cases m) simp_all
next
  case (Suc n)
  have num: "returns (number F t)" for t
    by (auto simp: number_def Let_def intro!: returns_intros)
  have rec: "returns (arith F n m' t)" if "length t < length s" for m' :: "'a arith_method" and t
    using that Suc.prems by (intro Suc.IH) (cases m; cases m'; simp)
  have loops: "returns (arith F n (ExprLoop v) t)" if "length t < length s" for v t
    using that by (rule rec)
  show ?case
  proof (cases m)
    case Expr
    have "returns (arith F n Term s)" using Suc.prems Expr by (intro Suc.IH) simp
    moreover have "returns (arith F n (ExprLoop v) t)" if "arith F n Term s = Inr (v, t)" for v t
      using arith_shorter [OF that] by (intro rec) simp
    ultimately show ?thesis using Expr by (auto intro!: returns_obind)
  next
    case Term
    have "returns (arith F n Factor s)" using Suc.prems Term by (intro Suc.IH) simp
    moreover have "returns (arith F n (TermLoop v) t)" if "arith F n Factor s = Inr (v, t)" for v t
      using arith_shorter [OF that] by (intro rec) simp
    ultimately show ?thesis using Term by (auto intro!: returns_obind)
  next
    case (ExprLoop w)
    then show ?thesis
      using arith_shorter [of F n Term] skip_blank_facts(2) [of s]
      by (auto split: list.split intro!: returns_obind rec) fastforce+
  next
    case (TermLoop w)
    then show ?thesis
      using arith_shorter [of F n Factor] skip_blank_facts(2) [of s]
      by (auto split: list.split intro!: returns_obind returns_guard rec) fastforce+
  next
    case Factor
    then show ?thesis
      using skip_blank_facts(2) [of s] num
      by (auto split: list.split intro!: returns_obind returns_guard rec)
  qed
qed


lemma arith_mono: "returns (arith F n m s) \<Longrightarrow> n \<le> k \<Longrightarrow> arith F k m s = arith F n m s"
proof (induction n arbitrary: k m s)
  case (Suc n)
  then obtain k' where k: "k = Suc k'" "n \<le> k'" by (cases k) auto
  have rec: "arith F k' m' t = arith F n m' t" if "returns (arith F n m' t)" for m' t
    using Suc.IH [OF that k(2)] .
  have bind: "obind (arith F k' m' t) f = obind (arith F n m' t) g"
    if "returns (obind (arith F n m' t) g)" "\<And>x. returns (g x) \<Longrightarrow> f x = g x" for m' t and f g :: "'a \<times> string \<Rightarrow> (unit, 'a \<times> string) outcome"
    using that rec [of m' t] by (cases "arith F n m' t") (auto simp: returns_def)
  have guard: "fail_if c () (arith F k' m' t) = fail_if c () (arith F n m' t)" if "returns (fail_if c () (arith F n m' t))" for c m' t
    using that rec [of m' t] by (cases c) auto
  show ?case
  proof (cases m)
    case Expr
    with Suc.prems(1) show ?thesis unfolding k(1) by (auto intro!: bind rec)
  next
    case Term
    with Suc.prems(1) show ?thesis unfolding k(1) by (auto intro!: bind rec)
  next
    case (ExprLoop w)
    with Suc.prems(1) show ?thesis
      unfolding k(1) by (auto split: list.splits intro!: bind rec)
  next
    case (TermLoop w)
    with Suc.prems(1) show ?thesis
      unfolding k(1) by (auto split: list.splits if_splits intro!: bind rec guard)
  next
    case Factor
    with Suc.prems(1) show ?thesis
      unfolding k(1) by (auto split: list.splits if_splits intro!: bind rec)
  qed
qed simp

text \<open>So the parser has one answer, whatever the fuel beyond the bound.\<close>

lemma arith_enough:
  assumes "arith F n m s = r" "r \<noteq> Inl NoFuel" "3 * length s + fuel_for m \<le> k"
  shows "arith F k m s = r"
proof -
  have "returns (arith F n m s)" "returns (arith F k m s)"
    using assms arith_returns by (simp_all add: returns_def)
  then show ?thesis
    using arith_mono [of F n m s k] arith_mono [of F k m s n] assms(1) by (cases "n \<le> k") auto
qed

text \<open>
  Evaluating an arithmetic expression comes to an end on every text: the fuel of the model is enough, whatever the
  nesting.
\<close>
theorem eval_arithmetic_total: "returns (eval_arithmetic F s)"
  using arith_returns [of s Expr "3 * length s + 3" F]
  by (auto simp: eval_arithmetic_def arith_parse_def intro!: returns_intros)

section \<open>Expressions and what they denote\<close>

datatype 'f aexp = Num string "string option" | Neg "'f aexp" | Add "'f aexp" "'f aexp" | Sub "'f aexp" "'f aexp" |
  Mul "'f aexp" "'f aexp" | Div "'f aexp" "'f aexp"


fun aexp_value :: "'f float_ops \<Rightarrow> 'f aexp \<Rightarrow> (unit, 'f) outcome" where
  "aexp_value F (Num ds None) = Inr (whole_value F ds)"
| "aexp_value F (Num ds (Some fs)) = Inr (fraction_value F (whole_value F ds) fs)"
| "aexp_value F (Neg a) = obind (aexp_value F a) (\<lambda>v. Inr (fl_neg F v))"
| "aexp_value F (Add a b) = obind (aexp_value F a) (\<lambda>v. obind (aexp_value F b) (\<lambda>w. Inr (fl_add F v w)))"
| "aexp_value F (Sub a b) = obind (aexp_value F a) (\<lambda>v. obind (aexp_value F b) (\<lambda>w. Inr (fl_sub F v w)))"
| "aexp_value F (Mul a b) = obind (aexp_value F a) (\<lambda>v. obind (aexp_value F b) (\<lambda>w. Inr (fl_mul F v w)))"
| "aexp_value F (Div a b) =
     obind (aexp_value F a) (\<lambda>v. obind (aexp_value F b) (\<lambda>w. fail_if (fl_is_zero F w) () (Inr (fl_div F v w))))"

definition paren :: "bool \<Rightarrow> string \<Rightarrow> string" where
  "paren b s = (if b then ''('' @ s @ '')'' else s)"

text \<open>The text of an expression in a place for a sum (0), a product (1) or a factor (2): parentheses only where needed.\<close>

fun show_at :: "nat \<Rightarrow> 'f aexp \<Rightarrow> string" where
  "show_at l (Num ds None) = ds"
| "show_at l (Num ds (Some fs)) = ds @ ''.'' @ fs"
| "show_at l (Neg a) = ''-'' @ show_at 2 a"
| "show_at l (Add a b) = paren (l > 0) (show_at 0 a @ ''+'' @ show_at 1 b)"
| "show_at l (Sub a b) = paren (l > 0) (show_at 0 a @ ''-'' @ show_at 1 b)"
| "show_at l (Mul a b) = paren (l > 1) (show_at 1 a @ ''*'' @ show_at 2 b)"
| "show_at l (Div a b) = paren (l > 1) (show_at 1 a @ ''/'' @ show_at 2 b)"

fun aexp_ok :: "'f aexp \<Rightarrow> bool" where
  "aexp_ok (Num ds None) \<longleftrightarrow> ds \<noteq> [] \<and> list_all is_digit ds"
| "aexp_ok (Num ds (Some fs)) \<longleftrightarrow> ds @ fs \<noteq> [] \<and> list_all is_digit ds \<and> list_all is_digit fs"
| "aexp_ok (Neg a) \<longleftrightarrow> aexp_ok a"
| "aexp_ok (Add a b) \<longleftrightarrow> aexp_ok a \<and> aexp_ok b"
| "aexp_ok (Sub a b) \<longleftrightarrow> aexp_ok a \<and> aexp_ok b"
| "aexp_ok (Mul a b) \<longleftrightarrow> aexp_ok a \<and> aexp_ok b"
| "aexp_ok (Div a b) \<longleftrightarrow> aexp_ok a \<and> aexp_ok b"

section \<open>Lemmas: the parser without fuel\<close>

definition parse_with :: "'f float_ops \<Rightarrow> 'f arith_method \<Rightarrow> string \<Rightarrow> (unit, 'f \<times> string) outcome" where
  "parse_with F m s = arith F (3 * length s + fuel_for m) m s"

lemma arith_parse_with: "3 * length s + fuel_for m \<le> n \<Longrightarrow> arith F n m s = parse_with F m s"
  using arith_returns [of s m "3 * length s + fuel_for m" F] arith_mono by (auto simp: parse_with_def)

lemma fuel_for_le: "fuel_for m \<le> 3"
  by (cases m) simp_all

text \<open>A fuel \<open>k\<close>, however large, that is enough for a text and all that is left of it.\<close>

lemma parse_with_unfold:
  "\<exists>k. (\<forall>m. parse_with F m s = arith F (Suc k) m s) \<and>
    (\<forall>m t. length t \<le> length s \<longrightarrow> arith F k m t = parse_with F m t)"
proof (intro exI conjI allI impI)
  show "parse_with F m s = arith F (Suc (3 * length s + 3)) m s" for m
    using arith_parse_with [of s m "Suc (3 * length s + 3)" F] fuel_for_le [of m] by simp
  show "arith F (3 * length s + 3) m t = parse_with F m t" if "length t \<le> length s" for m t
    using arith_parse_with [of t m "3 * length s + 3" F] fuel_for_le [of m] that by simp
qed

lemma parse_with_shorter: "parse_with F m s = Inr (v, t) \<Longrightarrow> length t + takes m \<le> length s"
  unfolding parse_with_def by (rule arith_shorter)

lemma parse_with_then:
  "(\<And>v t. length t \<le> length s \<Longrightarrow> f (v, t) = g (v, t)) \<Longrightarrow> obind (parse_with F m s) f = obind (parse_with F m s) g"
  using parse_with_shorter [of F m s] by (cases "parse_with F m s") fastforce+

lemma parse_simps:
  "parse_with F Expr s = obind (parse_with F Term s) (\<lambda>(v, s). parse_with F (ExprLoop v) s)"
  "parse_with F Term s = obind (parse_with F Factor s) (\<lambda>(v, s). parse_with F (TermLoop v) s)"
proof -
  obtain k where k: "\<And>m. parse_with F m s = arith F (Suc k) m s"
      "\<And>m t. length t \<le> length s \<Longrightarrow> arith F k m t = parse_with F m t"
    using parse_with_unfold [of F "s"] by blast
  show "parse_with F Expr s = obind (parse_with F Term s) (\<lambda>(v, s). parse_with F (ExprLoop v) s)"
    by (simp add: k(1) [of Expr] k(2)) (rule parse_with_then, simp add: k(2))
  show "parse_with F Term s = obind (parse_with F Factor s) (\<lambda>(v, s). parse_with F (TermLoop v) s)"
    by (simp add: k(1) [of Term] k(2)) (rule parse_with_then, simp add: k(2))
qed

lemma skip_blank_nonblank [simp]: "c \<noteq> CHR '' '' \<Longrightarrow> skip_blank (c # s) = c # s" "skip_blank [] = []"
  by (simp_all add: skip_blank_def)

lemma parse_loop_simps:
  "op = CHR ''+'' \<or> op = CHR ''-'' \<Longrightarrow> parse_with F (ExprLoop v) (op # s) =
    obind (parse_with F Term s) (\<lambda>(r, s). parse_with F (ExprLoop (if op = CHR ''+'' then fl_add F v r else fl_sub F v r)) s)"
  "op = CHR ''*'' \<or> op = CHR ''/'' \<Longrightarrow> parse_with F (TermLoop v) (op # s) =
    obind (parse_with F Factor s) (\<lambda>(r, s). if op = CHR ''*'' then parse_with F (TermLoop (fl_mul F v r)) s
      else fail_if (fl_is_zero F r) () (parse_with F (TermLoop (fl_div F v r)) s))"
proof -
  obtain k where k: "\<And>m. parse_with F m (op # s) = arith F (Suc k) m (op # s)"
      "\<And>m t. length t \<le> length (op # s) \<Longrightarrow> arith F k m t = parse_with F m t"
    using parse_with_unfold [of F "op # s"] by blast
  then have inner: "\<And>m t. length t \<le> length s \<Longrightarrow> arith F k m t = parse_with F m t" by simp
  show "parse_with F (ExprLoop v) (op # s) =
    obind (parse_with F Term s) (\<lambda>(r, s). parse_with F (ExprLoop (if op = CHR ''+'' then fl_add F v r else fl_sub F v r)) s)"
    if "op = CHR ''+'' \<or> op = CHR ''-''"
    using that by (auto simp: k(1) inner intro!: parse_with_then)
  show "parse_with F (TermLoop v) (op # s) =
    obind (parse_with F Factor s) (\<lambda>(r, s). if op = CHR ''*'' then parse_with F (TermLoop (fl_mul F v r)) s
      else fail_if (fl_is_zero F r) () (parse_with F (TermLoop (fl_div F v r)) s))"
    if "op = CHR ''*'' \<or> op = CHR ''/''"
    using that by (auto simp: k(1) inner intro!: parse_with_then)
qed

definition stops :: "string \<Rightarrow> string \<Rightarrow> bool" where
  "stops cs t \<longleftrightarrow> t = [] \<or> hd t \<in> set cs"

lemma parse_loop_stop:
  "stops ''+-)'' t \<Longrightarrow> parse_with F (TermLoop v) t = Inr (v, t)" "stops '')'' t \<Longrightarrow> parse_with F (ExprLoop v) t = Inr (v, t)"
proof -
  obtain k where k: "\<And>m. parse_with F m t = arith F (Suc k) m t"
    using parse_with_unfold [of F "t"] by blast
  show "parse_with F (TermLoop v) t = Inr (v, t)" if "stops ''+-)'' t"
    unfolding k using that by (cases t) (auto simp: stops_def)
  show "parse_with F (ExprLoop v) t = Inr (v, t)" if "stops '')'' t"
    unfolding k using that by (cases t) (auto simp: stops_def)
qed

lemma parse_factor_simps:
  "parse_with F Factor (CHR ''-'' # s) = obind (parse_with F Factor s) (\<lambda>(v, s). Inr (fl_neg F v, s))"
  "parse_with F Factor (CHR ''('' # s) =
    obind (parse_with F Expr s) (\<lambda>(v, s).
      (case skip_blank s of [] \<Rightarrow> Inl (Fail ()) | d # s \<Rightarrow> fail_if (d \<noteq> CHR '')'') () (Inr (v, s))))"
  "c \<notin> set ''-( '' \<Longrightarrow> parse_with F Factor (c # s) = number F (c # s)"
proof -
  obtain k where k: "\<And>m. parse_with F m (CHR ''-'' # s) = arith F (Suc k) m (CHR ''-'' # s)"
      "\<And>m t. length t \<le> length (CHR ''-'' # s) \<Longrightarrow> arith F k m t = parse_with F m t"
    using parse_with_unfold [of F "CHR ''-'' # s"] by blast
  show "parse_with F Factor (CHR ''-'' # s) = obind (parse_with F Factor s) (\<lambda>(v, s). Inr (fl_neg F v, s))"
    by (simp add: k(1)) (simp add: k(2))
  obtain k where k: "\<And>m. parse_with F m (CHR ''('' # s) = arith F (Suc k) m (CHR ''('' # s)"
      "\<And>m t. length t \<le> length (CHR ''('' # s) \<Longrightarrow> arith F k m t = parse_with F m t"
    using parse_with_unfold [of F "CHR ''('' # s"] by blast
  show "parse_with F Factor (CHR ''('' # s) =
    obind (parse_with F Expr s) (\<lambda>(v, s).
      (case skip_blank s of [] \<Rightarrow> Inl (Fail ()) | d # s \<Rightarrow> fail_if (d \<noteq> CHR '')'') () (Inr (v, s))))"
    by (simp add: k(1)) (simp add: k(2))
  obtain k where k: "\<And>m. parse_with F m (c # s) = arith F (Suc k) m (c # s)"
    using parse_with_unfold [of F "c # s"] by blast
  show "c \<notin> set ''-( '' \<Longrightarrow> parse_with F Factor (c # s) = number F (c # s)"
    by (simp add: k)
qed

lemma number_simps:
  assumes "list_all is_digit ds" "stops ''+-*/)'' t"
  shows "ds \<noteq> [] \<Longrightarrow> number F (ds @ t) = Inr (whole_value F ds, t)"
    "list_all is_digit fs \<Longrightarrow> ds @ fs \<noteq> [] \<Longrightarrow>
      number F (ds @ CHR ''.'' # fs @ t) = Inr (fraction_value F (whole_value F ds) fs, t)"
proof -
  have split: "takeWhile is_digit (xs @ u) = xs" "dropWhile is_digit (xs @ u) = u"
    if "list_all is_digit xs" "u = [] \<or> \<not> is_digit (hd u)" for xs u
    using that by (induction xs) (cases u; auto)+
  have t: "t = [] \<or> \<not> is_digit (hd t)" "t = [] \<or> hd t \<noteq> CHR ''.''"
    using assms(2) by (auto simp: stops_def is_digit_def)
  show "ds \<noteq> [] \<Longrightarrow> number F (ds @ t) = Inr (whole_value F ds, t)"
    using split [OF assms(1) t(1)] t(2) by (auto simp: number_def Let_def)
  have "\<not> is_digit (CHR ''.'')" by (simp add: is_digit_def)
  then show "list_all is_digit fs \<Longrightarrow> ds @ fs \<noteq> [] \<Longrightarrow>
      number F (ds @ CHR ''.'' # fs @ t) = Inr (fraction_value F (whole_value F ds) fs, t)"
    using split [OF assms(1), of "CHR ''.'' # fs @ t"] split [of fs t] t(1) by (auto simp: number_def Let_def)
qed


lemma parse_paren:
  assumes "parse_with F Expr (s @ CHR '')'' # t) = obind v (\<lambda>v. Inr (v, CHR '')'' # t))"
  shows "parse_with F Factor (paren True s @ t) = obind v (\<lambda>v. Inr (v, t))"
  using assms by (cases v) (simp_all add: paren_def parse_factor_simps)

text \<open>A text read in its place leaves the loop of that place to go on with the value.\<close>

definition reads_factor :: "'f float_ops \<Rightarrow> 'f aexp \<Rightarrow> bool" where
  "reads_factor F e \<longleftrightarrow>
     (\<forall>t. stops ''+-*/)'' t \<longrightarrow> parse_with F Factor (show_at 2 e @ t) = obind (aexp_value F e) (\<lambda>v. Inr (v, t)))"

definition reads_term :: "'f float_ops \<Rightarrow> 'f aexp \<Rightarrow> bool" where
  "reads_term F e \<longleftrightarrow>
     (\<forall>t. stops ''+-*/)'' t \<longrightarrow>
       parse_with F Term (show_at 1 e @ t) = obind (aexp_value F e) (\<lambda>v. parse_with F (TermLoop v) t))"

definition reads_expr :: "'f float_ops \<Rightarrow> 'f aexp \<Rightarrow> bool" where
  "reads_expr F e \<longleftrightarrow>
     (\<forall>t. stops ''+-)'' t \<longrightarrow>
       parse_with F Expr (show_at 0 e @ t) = obind (aexp_value F e) (\<lambda>v. parse_with F (ExprLoop v) t))"

lemma stops_weaken: "stops ''+-)'' t \<Longrightarrow> stops ''+-*/)'' t" "stops '')'' t \<Longrightarrow> stops ''+-)'' t"
  by (auto simp: stops_def)

lemma stops_Cons: "stops cs (c # t) \<longleftrightarrow> c \<in> set cs" "stops cs []"
  by (simp_all add: stops_def)

lemma obind_assoc: "obind (obind m f) g = obind m (\<lambda>x. obind (f x) g)"
  by (cases m) simp_all

lemma obind_branch:
  "obind (if c then m else m') f = (if c then obind m f else obind m' f)"
  "obind (fail_if c e m) f = fail_if c e (obind m f)"
  by (simp_all add: fail_if_def)

lemma reads_term_of_factor: "reads_factor F e \<Longrightarrow> show_at 1 e = show_at 2 e \<Longrightarrow> reads_term F e"
  by (simp add: reads_term_def reads_factor_def parse_simps(2) obind_assoc)

lemma reads_expr_of_term: "reads_term F e \<Longrightarrow> show_at 0 e = show_at 1 e \<Longrightarrow> reads_expr F e"
  by (simp add: reads_term_def reads_expr_def parse_simps(1) obind_assoc stops_weaken parse_loop_stop)

lemma reads_factor_of_expr: "reads_expr F e \<Longrightarrow> show_at 2 e = paren True (show_at 0 e) \<Longrightarrow> reads_factor F e"
  by (simp add: reads_factor_def reads_expr_def parse_paren stops_Cons parse_loop_stop del: One_nat_def)

lemma reads_atom: "reads_factor F e \<Longrightarrow> show_at 1 e = show_at 2 e \<Longrightarrow> show_at 0 e = show_at 1 e \<Longrightarrow>
    reads_factor F e \<and> reads_term F e \<and> reads_expr F e"
  using reads_term_of_factor reads_expr_of_term by blast

lemma reads_term_read:
  "reads_term F e \<Longrightarrow> stops ''+-)'' t \<Longrightarrow> parse_with F Term (show_at 1 e @ t) = obind (aexp_value F e) (\<lambda>v. Inr (v, t))"
  by (simp add: reads_term_def stops_weaken parse_loop_stop)

lemma reads_sum:
  assumes "reads_expr F a" "reads_term F b" "op = CHR ''+'' \<or> op = CHR ''-''"
    "show_at 0 e = show_at 0 a @ op # show_at 1 b"
    "aexp_value F e = obind (aexp_value F a) (\<lambda>v. obind (aexp_value F b) (\<lambda>w.
      Inr (if op = CHR ''+'' then fl_add F v w else fl_sub F v w)))"
  shows "reads_expr F e"
  unfolding reads_expr_def
proof (intro allI impI)
  fix t
  assume t: "stops ''+-)'' t"
  have "parse_with F Expr (show_at 0 a @ op # show_at 1 b @ t) =
      obind (aexp_value F a) (\<lambda>v. parse_with F (ExprLoop v) (op # show_at 1 b @ t))"
    using assms(1,3) by (auto simp: reads_expr_def stops_Cons)
  then show "parse_with F Expr (show_at 0 e @ t) = obind (aexp_value F e) (\<lambda>v. parse_with F (ExprLoop v) t)"
    using assms(3-5) reads_term_read [OF assms(2) t] by (simp add: parse_loop_simps obind_assoc)
qed

lemma reads_product:
  assumes "reads_term F a" "reads_factor F b" "op = CHR ''*'' \<or> op = CHR ''/''"
    "show_at 1 e = show_at 1 a @ op # show_at 2 b"
    "aexp_value F e = obind (aexp_value F a) (\<lambda>v. obind (aexp_value F b) (\<lambda>w.
      if op = CHR ''*'' then Inr (fl_mul F v w) else fail_if (fl_is_zero F w) () (Inr (fl_div F v w))))"
  shows "reads_term F e"
  unfolding reads_term_def
proof (intro allI impI)
  fix t
  assume t: "stops ''+-*/)'' t"
  have "parse_with F Term (show_at 1 a @ op # show_at 2 b @ t) =
      obind (aexp_value F a) (\<lambda>v. parse_with F (TermLoop v) (op # show_at 2 b @ t))"
    using assms(1,3) by (auto simp: reads_term_def stops_Cons)
  moreover have "parse_with F Factor (show_at 2 b @ t) = obind (aexp_value F b) (\<lambda>v. Inr (v, t))"
    using assms(2) t by (simp add: reads_factor_def)
  ultimately show "parse_with F Term (show_at 1 e @ t) = obind (aexp_value F e) (\<lambda>v. parse_with F (TermLoop v) t)"
    using assms(3-5) by (simp add: parse_loop_simps obind_assoc obind_branch cong: if_cong)
qed


lemma reads_sum_all:
  "reads_expr F e \<Longrightarrow> show_at 2 e = paren True (show_at 0 e) \<Longrightarrow> show_at 1 e = show_at 2 e \<Longrightarrow>
    reads_factor F e \<and> reads_term F e \<and> reads_expr F e"
  using reads_factor_of_expr reads_term_of_factor by blast

lemma reads_product_all:
  "reads_term F e \<Longrightarrow> show_at 0 e = show_at 1 e \<Longrightarrow> show_at 2 e = paren True (show_at 0 e) \<Longrightarrow>
    reads_factor F e \<and> reads_term F e \<and> reads_expr F e"
  using reads_expr_of_term reads_factor_of_expr by blast

lemma reads_number:
  assumes "aexp_ok (Num ds fs)"
  shows "reads_factor F (Num ds fs)"
  unfolding reads_factor_def
proof (intro allI impI)
  fix t
  assume t: "stops ''+-*/)'' t"
  show "parse_with F Factor (show_at 2 (Num ds fs) @ t) = obind (aexp_value F (Num ds fs)) (\<lambda>v. Inr (v, t))"
  proof (cases fs)
    case None
    with assms have ds: "ds \<noteq> []" "list_all is_digit ds" by simp_all
    then obtain d ds' where "ds = d # ds'" "d \<notin> set ''-( ''" by (cases ds) (auto simp: is_digit_def)
    then show ?thesis
      using number_simps(1) [OF ds(2) t ds(1)] None by (simp add: parse_factor_simps)
  next
    case (Some fs')
    with assms have ds: "ds @ fs' \<noteq> []" "list_all is_digit ds" "list_all is_digit fs'" by auto
    have "parse_with F Factor (ds @ CHR ''.'' # fs' @ t) = number F (ds @ CHR ''.'' # fs' @ t)"
      using ds(2) by (cases ds) (auto simp: parse_factor_simps is_digit_def)
    then show ?thesis
      using number_simps(2) [OF ds(2) t ds(3,1)] Some by simp
  qed
qed

lemma reads_all: "aexp_ok e \<Longrightarrow> reads_factor F e \<and> reads_term F e \<and> reads_expr F e"
proof (induction e)
  case (Num ds fs)
  then show ?case
    by (intro reads_atom reads_number) (cases fs; simp)+
next
  case (Neg a)
  then have "reads_factor F a" by simp
  have "parse_with F Factor (CHR ''-'' # show_at 2 a @ t) = obind (aexp_value F a) (\<lambda>v. Inr (fl_neg F v, t))"
    if "stops ''+-*/)'' t" for t
    using that \<open>reads_factor F a\<close> unfolding parse_factor_simps(1) reads_factor_def by (simp add: obind_assoc)
  then have "reads_factor F (Neg a)"
    unfolding reads_factor_def show_at.simps aexp_value.simps obind_assoc obind_simps append.simps by blast
  then show ?case by (rule reads_atom) simp_all
next
  case (Add a b)
  then have ab: "reads_expr F a" "reads_term F b" by simp_all
  have "reads_expr F (Add a b)"
    by (rule reads_sum [OF ab, of "CHR ''+''"]) (simp_all add: paren_def)
  then show ?case
    by (rule reads_sum_all) (simp_all add: paren_def)
next
  case (Sub a b)
  then have ab: "reads_expr F a" "reads_term F b" by simp_all
  have "reads_expr F (Sub a b)"
    by (rule reads_sum [OF ab, of "CHR ''-''"]) (simp_all add: paren_def)
  then show ?case
    by (rule reads_sum_all) (simp_all add: paren_def)
next
  case (Mul a b)
  then have ab: "reads_term F a" "reads_factor F b" by simp_all
  have "reads_term F (Mul a b)"
    by (rule reads_product [OF ab, of "CHR ''*''"]) (simp_all add: paren_def)
  then show ?case
    by (rule reads_product_all) (simp_all add: paren_def)
next
  case (Div a b)
  then have ab: "reads_term F a" "reads_factor F b" by simp_all
  have "reads_term F (Div a b)"
    by (rule reads_product [OF ab, of "CHR ''/''"]) (simp_all add: paren_def)
  then show ?case
    by (rule reads_product_all) (simp_all add: paren_def)
qed

text \<open>
  C23. The calculator evaluates a text as its expression means: the operators of equal rank from the left, products
  before sums, a minus sign before a factor, parentheses first; a division by zero anywhere is the only
  failure. It holds for any arithmetic of the numbers.
\<close>
theorem eval_arithmetic_value:
  assumes "aexp_ok e"
  shows "eval_arithmetic F (show_at 0 e) = aexp_value F e"
proof -
  have "parse_with F Expr (show_at 0 e @ []) = obind (aexp_value F e) (\<lambda>v. parse_with F (ExprLoop v) [])"
    using reads_all [OF assms, of F] unfolding reads_expr_def by (blast intro: stops_Cons(2))
  then have "parse_with F Expr (show_at 0 e) = obind (aexp_value F e) (\<lambda>v. Inr (v, []))"
    by (simp add: parse_loop_stop stops_Cons)
  then show ?thesis
    by (simp add: eval_arithmetic_def arith_parse_def parse_with_def obind_assoc) (cases "aexp_value F e"; simp)
qed

definition int_ops :: "int float_ops" where
  "int_ops = \<lparr>fl_zero = 0, fl_ten = 10, fl_tenth = 0, fl_digit = int, fl_add = (+), fl_sub = (-), fl_mul = (*),
     fl_div = (div), fl_neg = uminus, fl_is_zero = (\<lambda>x. x = 0), fl_format = (\<lambda>x. decimal_digits (nat x))\<rparr>"

theorem eval_arithmetic_value_witness:
  "eval_arithmetic int_ops ''12-(3+4)*-2'' = Inr (26 :: int)"
proof -
  let ?e = "Sub (Num ''12'' None) (Mul (Add (Num ''3'' None) (Num ''4'' None)) (Neg (Num ''2'' None)))"
  have "aexp_ok ?e" "show_at 0 ?e = ''12-(3+4)*-2''" "aexp_value int_ops ?e = Inr 26"
    by code_simp+
  then show ?thesis
    using eval_arithmetic_value [of ?e int_ops] by simp
qed

text \<open>
  Commas are removed before anything else, also inside quotes: counting the comma in a text looks for the
  empty string instead and answers one more than the length.
\<close>

lemma count_commas:
  "calculator F (CHR 0x22 # ''a,b'' @ CHR 0x22 # ''.count('' @ CHR 0x22 # '','' @ CHR 0x22 # '')'') = Some ''3''"
  by code_simp

text \<open>
  \<open>ExecuteTool\<close> answers with the first tool, in the order of registration, that understands the expression, and
  only then with a result.
\<close>
theorem execute_tool_first:
  "execute_tool registry expr = Some (name, result) \<longleftrightarrow>
    (\<exists>before call after. registry = before @ (name, call) # after \<and> call expr = Some result \<and>
      list_all (\<lambda>(_, call). call expr = None) before)"
proof (induction registry)
  case (Cons t registry)
  obtain n c where t: "t = (n, c)" by fastforce
  show ?case
  proof (cases "c expr")
    case None
    then have "execute_tool (t # registry) expr = execute_tool registry expr" by (simp add: t)
    moreover have "(\<exists>before call after. t # registry = before @ (name, call) # after \<and> call expr = Some result \<and>
        list_all (\<lambda>(_, call). call expr = None) before) \<longleftrightarrow>
      (\<exists>before call after. registry = before @ (name, call) # after \<and> call expr = Some result \<and>
        list_all (\<lambda>(_, call). call expr = None) before)" (is "?l \<longleftrightarrow> ?r")
    proof
      assume ?l
      then obtain before call after where b: "t # registry = before @ (name, call) # after" "call expr = Some result"
        "list_all (\<lambda>(_, call). call expr = None) before" by blast
      with None t obtain before' where "before = t # before'" by (cases before) auto
      with b show ?r by auto
    next
      assume ?r
      then obtain before call after where "registry = before @ (name, call) # after" "call expr = Some result"
        "list_all (\<lambda>(_, call). call expr = None) before" by blast
      with None t show ?l by (intro exI [of _ "t # before"] exI [of _ call] exI [of _ after]) simp
    qed
    ultimately show ?thesis using Cons.IH by simp
  next
    case (Some r)
    then have "before = []" if "t # registry = before @ (name, call) # after" "list_all (\<lambda>(_, call). call expr = None) before"
      for before call after
      using that t by (cases before) auto
    with Some t show ?thesis by fastforce
  qed
qed simp

end
