(* ===== verification/Engine.thy ===== *)
theory Engine
  imports Tokenizer Tools
begin

text \<open>
  src/inference/engine.go and ensemble.go: the generation loop around the model.

  The model is a parameter. What the loop takes from it is one column of sampled ids per step; the logits are a
  function of the columns fed so far and the generator of their number, so a sampler is a function of the
  columns. A tool call is a function from the bytes of the expression to the text of the result. The consumer of
  the stream is a function of everything yielded so far. Tokens are Go's \<open>int\<close>.
\<close>

section \<open>Rows\<close>

record gen_ids =
  gi_bos :: int
  gi_assistant_end :: int
  gi_tool_start :: int
  gi_tool_end :: int
  gi_output_start :: int
  gi_output_end :: int
  gi_think_start :: int
  gi_think_end :: int

definition gen_ids_of :: "tokenizer \<Rightarrow> (unit, gen_ids) outcome" where
  "gen_ids_of tok =
     obind (encode_special tok (ascii ''<|tool_start|>'')) (\<lambda>ts.
     obind (encode_special tok (ascii ''<|tool_end|>'')) (\<lambda>te.
     obind (encode_special tok (ascii ''<|tool_output_start|>'')) (\<lambda>os.
     obind (encode_special tok (ascii ''<|tool_output_end|>'')) (\<lambda>oe.
     obind (encode_special tok (ascii ''<|assistant_end|>'')) (\<lambda>ae.
     obind (encode_special tok (ascii ''<|think_start|>'')) (\<lambda>hs.
     obind (encode_special tok (ascii ''<|think_end|>'')) (\<lambda>he.
       Inr \<lparr>gi_bos = int (tk_bos tok), gi_assistant_end = int ae, gi_tool_start = int ts, gi_tool_end = int te,
            gi_output_start = int os, gi_output_end = int oe, gi_think_start = int hs, gi_think_end = int he\<rparr>)))))))"

record row_state =
  rs_current :: "int list"
  rs_forced :: "int list"
  rs_in_tool :: bool
  rs_tool_tokens :: "int list"
  rs_in_thinking :: bool
  rs_thinking_tokens :: int
  rs_completed :: bool

record gen_options =
  go_thinking :: bool
  go_budget :: int

definition tracks_thinking :: "gen_options \<Rightarrow> bool" where
  "tracks_thinking opts \<longleftrightarrow> go_thinking opts \<or> go_budget opts > 0"

definition new_row :: "gen_ids \<Rightarrow> gen_options \<Rightarrow> int list \<Rightarrow> row_state" where
  "new_row G opts prompt =
     \<lparr>rs_current = prompt, rs_forced = [], rs_in_tool = False, rs_tool_tokens = [],
      rs_in_thinking = (tracks_thinking opts \<and> prompt \<noteq> [] \<and> last prompt = gi_think_start G),
      rs_thinking_tokens = 0, rs_completed = False\<rparr>"

type_synonym tool_run = "byte list \<Rightarrow> rune list option"

text \<open>The expression is decoded, run, and its result encoded: the tokens to force, if the tools understood it.\<close>

definition tool_result :: "unicode \<Rightarrow> tokenizer \<Rightarrow> tool_run \<Rightarrow> int list \<Rightarrow> int list option" where
  "tool_result U tok run tokens = map_option (\<lambda>result. map int (encode U tok result)) (run (decode tok tokens))"

definition tool_switch :: "gen_ids \<Rightarrow> (int list \<Rightarrow> int list option) \<Rightarrow> int \<Rightarrow> row_state \<Rightarrow> row_state" where
  "tool_switch G call t s =
     (if t = gi_tool_start G then s\<lparr>rs_in_tool := True, rs_tool_tokens := []\<rparr>
      else if t = gi_tool_end G \<and> rs_in_tool s then
        (let forced = (case (if rs_tool_tokens s \<noteq> [] then call (rs_tool_tokens s) else None) of
                         Some result \<Rightarrow> rs_forced s @ [gi_output_start G] @ result @ [gi_output_end G]
                       | None \<Rightarrow> rs_forced s)
         in s\<lparr>rs_in_tool := False, rs_forced := forced, rs_tool_tokens := []\<rparr>)
      else if rs_in_tool s then s\<lparr>rs_tool_tokens := rs_tool_tokens s @ [t]\<rparr>
      else s)"

definition thinking_switch :: "gen_ids \<Rightarrow> gen_options \<Rightarrow> int \<Rightarrow> row_state \<Rightarrow> row_state" where
  "thinking_switch G opts t s =
     (if \<not> tracks_thinking opts then s
      else if t = gi_think_start G then s\<lparr>rs_in_thinking := True, rs_thinking_tokens := 0\<rparr>
      else if t = gi_think_end G \<and> rs_in_thinking s then s\<lparr>rs_in_thinking := False\<rparr>
      else if rs_in_thinking s then
        (let n = rs_thinking_tokens s + 1 in
         s\<lparr>rs_thinking_tokens := n,
           rs_forced := (if go_budget opts > 0 \<and> n \<ge> go_budget opts then rs_forced s @ [gi_think_end G] else rs_forced s)\<rparr>)
      else s)"

text \<open>One row takes one token: the first forced one, or the sampled one. The mask is 1 for a sampled token.\<close>

definition row_step ::
  "gen_ids \<Rightarrow> (int list \<Rightarrow> int list option) \<Rightarrow> gen_options \<Rightarrow> int \<Rightarrow> row_state \<Rightarrow> (int \<times> nat) \<times> row_state" where
  "row_step G call opts sampled s =
     (let (t, m, s) = (case rs_forced s of [] \<Rightarrow> (sampled, 1, s) | f # fs \<Rightarrow> (f, 0, s\<lparr>rs_forced := fs\<rparr>));
          s = s\<lparr>rs_current := rs_current s @ [t],
                rs_completed := (rs_completed s \<or> t = gi_assistant_end G \<or> t = gi_bos G)\<rparr>
      in ((t, m), thinking_switch G opts t (tool_switch G call t s)))"

section \<open>The loop\<close>

type_synonym column = "(int \<times> nat) list"
type_synonym sampler = "column list \<Rightarrow> int list"

partial_function (option) gen_loop ::
  "gen_ids \<Rightarrow> (int list \<Rightarrow> int list option) \<Rightarrow> gen_options \<Rightarrow> sampler \<Rightarrow> (column list \<Rightarrow> bool) \<Rightarrow> int \<Rightarrow>
    int \<Rightarrow> column list \<Rightarrow> row_state list \<Rightarrow> column list option" where
  "gen_loop G call opts sampler yield max_tokens generated out rows =
     (if max_tokens > 0 \<and> generated \<ge> max_tokens \<or> list_all rs_completed rows then Some out
      else
        (let stepped = map2 (row_step G call opts) (sampler out) rows; out = out @ [map fst stepped] in
         if yield out then gen_loop G call opts sampler yield max_tokens (generated + 1) out (map snd stepped)
         else Some out))"

declare gen_loop.simps [code]

definition generate_with ::
  "gen_ids \<Rightarrow> (int list \<Rightarrow> int list option) \<Rightarrow> gen_options \<Rightarrow> sampler \<Rightarrow> (column list \<Rightarrow> bool) \<Rightarrow> int list \<Rightarrow> nat \<Rightarrow> int \<Rightarrow>
    column list option" where
  "generate_with G call opts sampler yield prompt num_samples max_tokens =
     gen_loop G call opts sampler yield max_tokens 0 [] (replicate num_samples (new_row G opts prompt))"

text \<open>The ensemble's loop is the same over combined logits, and calls no tool when its registry is nil.\<close>

definition ensemble_call :: "unicode \<Rightarrow> tokenizer \<Rightarrow> tool_run option \<Rightarrow> int list \<Rightarrow> int list option" where
  "ensemble_call U tok tools tokens = (case tools of None \<Rightarrow> None | Some run \<Rightarrow> tool_result U tok run tokens)"

definition ensemble_generate_with ::
  "unicode \<Rightarrow> tokenizer \<Rightarrow> tool_run option \<Rightarrow> gen_ids \<Rightarrow> gen_options \<Rightarrow> sampler \<Rightarrow> (column list \<Rightarrow> bool) \<Rightarrow> int list \<Rightarrow> nat \<Rightarrow>
    int \<Rightarrow> column list option" where
  "ensemble_generate_with U tok tools G opts sampler yield prompt num_samples max_tokens =
     gen_loop G (ensemble_call U tok tools) opts sampler yield max_tokens 0 []
       (replicate num_samples (new_row G opts prompt))"

section \<open>Collecting a batch\<close>

record batch_row =
  br_tokens :: "int list"
  br_masks :: "nat list"
  br_completed :: bool

definition collect_token :: "gen_ids \<Rightarrow> int \<times> nat \<Rightarrow> batch_row \<Rightarrow> batch_row" where
  "collect_token G tm r =
     (if br_completed r then r
      else if fst tm = gi_assistant_end G \<or> fst tm = gi_bos G then r\<lparr>br_completed := True\<rparr>
      else r\<lparr>br_tokens := br_tokens r @ [fst tm], br_masks := br_masks r @ [snd tm]\<rparr>)"

definition new_batch :: "int list \<Rightarrow> nat \<Rightarrow> batch_row list" where
  "new_batch prompt n = replicate n \<lparr>br_tokens = prompt, br_masks = replicate (length prompt) 0, br_completed = False\<rparr>"

definition collect :: "gen_ids \<Rightarrow> int list \<Rightarrow> nat \<Rightarrow> column list \<Rightarrow> batch_row list" where
  "collect G prompt n out = foldl (\<lambda>rows column. map2 (collect_token G) column rows) (new_batch prompt n) out"

definition generate_batch_with ::
  "gen_ids \<Rightarrow> (int list \<Rightarrow> int list option) \<Rightarrow> gen_options \<Rightarrow> sampler \<Rightarrow> int list \<Rightarrow> nat \<Rightarrow> int \<Rightarrow>
    (int list list \<times> nat list list) option" where
  "generate_batch_with G call opts sampler prompt n max_tokens =
     map_option (\<lambda>out. (map br_tokens (collect G prompt n out), map br_masks (collect G prompt n out)))
       (generate_with G call opts sampler (\<lambda>out. list_ex (\<lambda>r. \<not> br_completed r) (collect G prompt n out)) prompt n max_tokens)"

section \<open>The prompt\<close>

text \<open>
  Where the prefill starts: the snapshot pool first, then the prefix store (whose state gets its local window
  replayed), each only without the encoder-decoder split; and the tokens that are left to feed.
\<close>

definition prefill_from ::
  "bool \<Rightarrow> (int list \<Rightarrow> ('kv \<times> nat) option) option \<Rightarrow> (int list \<Rightarrow> ('kv \<times> nat) option) option \<Rightarrow>
    ('kv \<Rightarrow> int list \<Rightarrow> nat \<Rightarrow> 'kv) \<Rightarrow> int list \<Rightarrow> 'kv option \<times> int list" where
  "prefill_from ced swa store replay tokens =
     (case (if ced then None else Option.bind swa (\<lambda>lookup. lookup tokens)) of
        Some (kv, n) \<Rightarrow> (Some kv, drop n tokens)
      | None \<Rightarrow>
          (case (if ced then None else Option.bind store (\<lambda>lookup. lookup tokens)) of
             Some (kv, n) \<Rightarrow> (Some (replay kv tokens n), drop n tokens)
           | None \<Rightarrow> (None, tokens)))"

definition prefill_capacity :: "bool \<Rightarrow> bool \<Rightarrow> int \<Rightarrow> int list \<Rightarrow> int" where
  "prefill_capacity caching ced sequence_len tokens =
     (if caching \<and> \<not> ced then sequence_len else int (length tokens))"


section \<open>Lemmas: one row\<close>

fun row_run :: "gen_ids \<Rightarrow> (int list \<Rightarrow> int list option) \<Rightarrow> gen_options \<Rightarrow> int list \<Rightarrow> row_state \<Rightarrow> column \<times> row_state" where
  "row_run G call opts [] s = ([], s)"
| "row_run G call opts (x # xs) s =
     (let (tm, s1) = row_step G call opts x s; (tms, s2) = row_run G call opts xs s1 in (tm # tms, s2))"

lemma row_run_Cons:
  "row_run G call opts (x # xs) s =
    (fst (row_step G call opts x s) # fst (row_run G call opts xs (snd (row_step G call opts x s))),
     snd (row_run G call opts xs (snd (row_step G call opts x s))))"
  by (simp add: Let_def split: prod.splits)

declare row_run.simps(2) [simp del]

lemma row_run_append:
  "row_run G call opts (xs @ ys) s =
    (fst (row_run G call opts xs s) @ fst (row_run G call opts ys (snd (row_run G call opts xs s))),
     snd (row_run G call opts ys (snd (row_run G call opts xs s))))"
  by (induction xs arbitrary: s) (simp_all add: row_run_Cons)

lemma length_row_run [simp]: "length (fst (row_run G call opts xs s)) = length xs"
  by (induction xs arbitrary: s) (simp_all add: row_run_Cons)

text \<open>The token a row takes, and the mask.\<close>

definition taken :: "int \<Rightarrow> row_state \<Rightarrow> int" where
  "taken x s = (case rs_forced s of [] \<Rightarrow> x | f # fs \<Rightarrow> f)"

lemma switch_fields [simp]:
  "rs_completed (tool_switch G call t s) = rs_completed s" "rs_completed (thinking_switch G opts t s) = rs_completed s"
  "rs_current (tool_switch G call t s) = rs_current s" "rs_current (thinking_switch G opts t s) = rs_current s"
  "rs_in_thinking (tool_switch G call t s) = rs_in_thinking s" "rs_thinking_tokens (tool_switch G call t s) = rs_thinking_tokens s"
  "rs_in_tool (thinking_switch G opts t s) = rs_in_tool s" "rs_tool_tokens (thinking_switch G opts t s) = rs_tool_tokens s"
  by (simp_all add: tool_switch_def thinking_switch_def Let_def)

lemma row_step_fst: "fst (row_step G call opts x s) = (taken x s, if rs_forced s = [] then 1 else 0)"
  by (simp add: row_step_def taken_def Let_def split: list.split)

lemma row_step_completed:
  "rs_completed (snd (row_step G call opts x s)) \<longleftrightarrow>
    rs_completed s \<or> taken x s = gi_assistant_end G \<or> taken x s = gi_bos G"
  by (simp add: row_step_def taken_def Let_def split: list.split)

lemma row_step_current: "rs_current (snd (row_step G call opts x s)) = rs_current s @ [taken x s]"
  by (simp add: row_step_def taken_def Let_def split: list.split)

definition terminal :: "gen_ids \<Rightarrow> int \<times> nat \<Rightarrow> bool" where
  "terminal G tm \<longleftrightarrow> fst tm = gi_assistant_end G \<or> fst tm = gi_bos G"

lemma row_run_completed:
  "rs_completed (snd (row_run G call opts xs s)) \<longleftrightarrow>
    rs_completed s \<or> list_ex (terminal G) (fst (row_run G call opts xs s))"
proof (induction xs arbitrary: s)
  case (Cons x xs)
  have "fst (fst (row_step G call opts x s)) = taken x s" by (simp add: row_step_fst)
  then show ?case
    using Cons.IH [of "snd (row_step G call opts x s)"] row_step_completed [of G call opts x s]
    by (auto simp: row_run_Cons terminal_def)
qed simp

section \<open>Lemmas: the loop, row by row\<close>

text \<open>The samples a row was offered along a run.\<close>

definition offered :: "sampler \<Rightarrow> nat \<Rightarrow> column list \<Rightarrow> int list" where
  "offered sampler i out = map (\<lambda>k. sampler (take k out) ! i) [0..<length out]"

lemma offered_snoc: "offered sampler i (out @ [c]) = offered sampler i out @ [sampler out ! i]"
  by (simp add: offered_def)

definition rows_after :: "gen_ids \<Rightarrow> (int list \<Rightarrow> int list option) \<Rightarrow> gen_options \<Rightarrow> sampler \<Rightarrow> row_state \<Rightarrow> nat \<Rightarrow>
    column list \<Rightarrow> row_state list \<Rightarrow> bool" where
  "rows_after G call opts sampler s0 n out rows \<longleftrightarrow>
     length rows = n \<and> list_all (\<lambda>c. length c = n) out \<and>
     (\<forall>i < n. row_run G call opts (offered sampler i out) s0 = (map (\<lambda>c. c ! i) out, rows ! i))"

lemma rows_after_step:
  assumes rows: "rows_after G call opts sampler s0 n out rows" and len: "length (sampler out) = n"
  defines "stepped \<equiv> map2 (row_step G call opts) (sampler out) rows"
  shows "rows_after G call opts sampler s0 n (out @ [map fst stepped]) (map snd stepped)"
proof -
  have "row_run G call opts (offered sampler i (out @ [map fst stepped])) s0 =
      (map (\<lambda>c. c ! i) (out @ [map fst stepped]), map snd stepped ! i)" if i: "i < n" for i
    using rows len i
    by (simp add: rows_after_def stepped_def offered_snoc row_run_append row_run_Cons)
  with rows len show ?thesis
    by (simp add: rows_after_def stepped_def)
qed

lemma gen_loop_facts:
  assumes sampler: "\<forall>out. length (sampler out) = n" and pos: "max_tokens > 0"
  shows "rows_after G call opts sampler s0 n out rows \<Longrightarrow> generated = int (length out) \<Longrightarrow> generated \<le> max_tokens \<Longrightarrow>
    (out = [] \<or> yield out) \<Longrightarrow>
    \<exists>out' rows'. gen_loop G call opts sampler yield max_tokens generated out rows = Some out' \<and>
      rows_after G call opts sampler s0 n out' rows' \<and> int (length out') \<le> max_tokens \<and>
      (int (length out') < max_tokens \<longrightarrow> list_all rs_completed rows' \<or> out' \<noteq> [] \<and> \<not> yield out') \<and>
      (\<forall>k. 0 < k \<longrightarrow> k < length out' \<longrightarrow> length out \<le> k \<longrightarrow> yield (take k out')) \<and> take (length out) out' = out"
proof (induction "nat (max_tokens - generated)" arbitrary: generated out rows rule: less_induct)
  case less
  show ?case
  proof (cases "generated \<ge> max_tokens \<or> list_all rs_completed rows")
    case True
    then have "gen_loop G call opts sampler yield max_tokens generated out rows = Some out"
      using pos by (subst gen_loop.simps) auto
    with less.prems True show ?thesis
      by (intro exI [of _ out] exI [of _ rows]) auto
  next
    case False
    define stepped where "stepped = map2 (row_step G call opts) (sampler out) rows"
    let ?out = "out @ [map fst stepped]"
    have after: "rows_after G call opts sampler s0 n ?out (map snd stepped)"
      unfolding stepped_def using rows_after_step [OF less.prems(1)] sampler by blast
    show ?thesis
    proof (cases "yield ?out")
      case True
      have go: "gen_loop G call opts sampler yield max_tokens generated out rows =
          gen_loop G call opts sampler yield max_tokens (generated + 1) ?out (map snd stepped)"
        using False True by (subst gen_loop.simps) (simp add: Let_def stepped_def [symmetric])
      have next_step: "nat (max_tokens - (generated + 1)) < nat (max_tokens - generated)" "generated + 1 = int (length ?out)"
          "generated + 1 \<le> max_tokens" "?out = [] \<or> yield ?out"
        using False less.prems(2) True by auto
      from less.hyps [OF next_step(1) after next_step(2-4)]
      obtain out' rows' where *: "gen_loop G call opts sampler yield max_tokens generated out rows = Some out'"
          "rows_after G call opts sampler s0 n out' rows'" "int (length out') \<le> max_tokens"
          "int (length out') < max_tokens \<longrightarrow> list_all rs_completed rows' \<or> out' \<noteq> [] \<and> \<not> yield out'"
          "\<forall>k. 0 < k \<longrightarrow> k < length out' \<longrightarrow> length ?out \<le> k \<longrightarrow> yield (take k out')" "take (length ?out) out' = ?out"
        unfolding go by blast
      have prefix: "take (length out) out' = out"
      proof -
        have "take (length out) out' = take (length out) (take (length ?out) out')" by simp
        also have "\<dots> = out" unfolding *(6) by simp
        finally show ?thesis .
      qed
      have "yield (take k out')" if "0 < k" "k < length out'" "length out \<le> k" for k
      proof (cases "k = length out")
        case True
        with that(1) less.prems(4) prefix show ?thesis by auto
      next
        case False
        with that *(5) show ?thesis by simp
      qed
      with * prefix show ?thesis by blast
    next
      case False': False
      have "gen_loop G call opts sampler yield max_tokens generated out rows = Some ?out"
        using False False' by (subst gen_loop.simps) (simp add: Let_def stepped_def [symmetric])
      moreover have "yield (take k ?out)" if "0 < k" "k < length ?out" "length out \<le> k" for k
        using that less.prems(4) by auto
      ultimately show ?thesis
        using after False False' less.prems(2) by (intro exI [of _ ?out] exI [of _ "map snd stepped"]) auto
    qed
  qed
qed


text \<open>
  C40. With a positive token limit, generation ends for every model, every tool and every consumer: after at most
  that many columns, and before only if all rows have produced a terminal token or the consumer stopped.
\<close>
theorem generate_terminates:
  assumes "\<forall>out. length (sampler out) = n" "max_tokens > 0"
  shows "\<exists>out. generate_with G call opts sampler yield prompt n max_tokens = Some out \<and> int (length out) \<le> max_tokens \<and>
    (int (length out) < max_tokens \<longrightarrow>
      (\<forall>i < n. list_ex (\<lambda>c. terminal G (c ! i)) out) \<or> out \<noteq> [] \<and> \<not> yield out)"
proof -
  let ?row = "new_row G opts prompt"
  have "rows_after G call opts sampler ?row n [] (replicate n ?row)"
    by (simp add: rows_after_def offered_def)
  from gen_loop_facts [OF assms this, of 0 yield] assms(2) obtain out rows where
    out: "generate_with G call opts sampler yield prompt n max_tokens = Some out"
      "rows_after G call opts sampler ?row n out rows" "int (length out) \<le> max_tokens"
      "int (length out) < max_tokens \<longrightarrow> list_all rs_completed rows \<or> out \<noteq> [] \<and> \<not> yield out"
    by (auto simp: generate_with_def)
  have "list_ex (\<lambda>c. terminal G (c ! i)) out" if "list_all rs_completed rows" "i < n" for i
  proof -
    have "rs_completed (rows ! i)" "row_run G call opts (offered sampler i out) ?row = (map (\<lambda>c. c ! i) out, rows ! i)"
      using that out(2) by (auto simp: rows_after_def list_all_length)
    then show ?thesis
      using row_run_completed [of G call opts "offered sampler i out" ?row]
      by (auto simp: new_row_def list_ex_iff)
  qed
  with out show ?thesis by blast
qed

definition example_ids :: gen_ids where
  "example_ids = \<lparr>gi_bos = 0, gi_assistant_end = 1, gi_tool_start = 2, gi_tool_end = 3, gi_output_start = 4,
     gi_output_end = 5, gi_think_start = 6, gi_think_end = 7\<rparr>"

theorem generate_terminates_witness:
  "\<exists>out. generate_with example_ids (\<lambda>_. None) \<lparr>go_thinking = True, go_budget = 2\<rparr>
        (\<lambda>_. [9, 1]) (\<lambda>_. True) [0, 6] 2 5 = Some out \<and> length out \<le> 5"
  using generate_terminates [of "\<lambda>_. [9, 1]" 2 5 example_ids "\<lambda>_. None"
        "\<lparr>go_thinking = True, go_budget = 2\<rparr>" "\<lambda>_. True" "[0, 6]"] by auto

section \<open>Lemmas: collecting\<close>

definition row_tokens :: "gen_ids \<Rightarrow> (int \<times> nat) list \<Rightarrow> (int \<times> nat) list" where
  "row_tokens G tms = takeWhile (\<lambda>tm. \<not> terminal G tm) tms"

lemma collect_row:
  "foldl (\<lambda>r tm. collect_token G tm r) r tms =
    (if br_completed r then r
     else r\<lparr>br_tokens := br_tokens r @ map fst (row_tokens G tms), br_masks := br_masks r @ map snd (row_tokens G tms),
            br_completed := list_ex (terminal G) tms\<rparr>)"
  by (induction tms arbitrary: r) (auto simp: collect_token_def row_tokens_def terminal_def)

lemma collect_nth:
  "list_all (\<lambda>c. length c = n) out \<Longrightarrow> length rows = n \<Longrightarrow>
    length (foldl (\<lambda>rows column. map2 (collect_token G) column rows) rows out) = n \<and>
    (\<forall>i < n. foldl (\<lambda>rows column. map2 (collect_token G) column rows) rows out ! i =
      foldl (\<lambda>r tm. collect_token G tm r) (rows ! i) (map (\<lambda>c. c ! i) out))"
  by (induction out arbitrary: rows) simp_all

lemma collect_facts:
  assumes "list_all (\<lambda>c. length c = n) out"
  shows "length (collect G prompt n out) = n"
    "i < n \<Longrightarrow> collect G prompt n out ! i =
      \<lparr>br_tokens = prompt @ map fst (row_tokens G (map (\<lambda>c. c ! i) out)),
       br_masks = replicate (length prompt) 0 @ map snd (row_tokens G (map (\<lambda>c. c ! i) out)),
       br_completed = list_ex (\<lambda>c. terminal G (c ! i)) out\<rparr>"
  using collect_nth [OF assms, of "new_batch prompt n" G]
  by (simp_all add: collect_def new_batch_def collect_row list_ex_iff)

text \<open>
  C21. Each row of a batch is the prompt followed by what the row's stream has up to, and without, its first
  terminal token, with the stream's masks and zeros on the prompt; generation goes on until every row has
  one or the limit is reached.
\<close>
theorem generate_batch_rows:
  assumes "\<forall>out. length (sampler out) = n" "max_tokens > 0"
  shows "\<exists>out. generate_batch_with G call opts sampler prompt n max_tokens =
      Some (map (\<lambda>i. prompt @ map fst (row_tokens G (map (\<lambda>c. c ! i) out))) [0..<n],
            map (\<lambda>i. replicate (length prompt) 0 @ map snd (row_tokens G (map (\<lambda>c. c ! i) out))) [0..<n]) \<and>
    (\<forall>i < n. map (\<lambda>c. c ! i) out = fst (row_run G call opts (offered sampler i out) (new_row G opts prompt))) \<and>
    (int (length out) < max_tokens \<longrightarrow> (\<forall>i < n. list_ex (\<lambda>c. terminal G (c ! i)) out))"
proof -
  let ?row = "new_row G opts prompt"
  let ?yield = "\<lambda>out. list_ex (\<lambda>r. \<not> br_completed r) (collect G prompt n out)"
  have "rows_after G call opts sampler ?row n [] (replicate n ?row)"
    by (simp add: rows_after_def offered_def)
  from gen_loop_facts [OF assms this, of 0 ?yield] assms(2) obtain out rows where
    out: "generate_with G call opts sampler ?yield prompt n max_tokens = Some out"
      "rows_after G call opts sampler ?row n out rows" "int (length out) \<le> max_tokens"
      "int (length out) < max_tokens \<longrightarrow> list_all rs_completed rows \<or> out \<noteq> [] \<and> \<not> ?yield out"
    by (auto simp: generate_with_def)
  have run: "row_run G call opts (offered sampler i out) ?row = (map (\<lambda>c. c ! i) out, rows ! i)" if "i < n" for i
    using out(2) that by (simp add: rows_after_def)
  have lens: "list_all (\<lambda>c. length c = n) out" using out(2) by (simp add: rows_after_def)
  note facts = collect_facts(1) [OF lens, of G prompt] collect_facts(2) [OF lens, of _ G prompt]
  have "list_ex (\<lambda>c. terminal G (c ! i)) out" if "int (length out) < max_tokens" "i < n" for i
    using that out(4)
  proof (elim impE disjE)
    assume "list_all rs_completed rows"
    then have "rs_completed (rows ! i)" using out(2) that by (simp add: rows_after_def list_all_length)
    then show ?thesis
      using run [OF that(2)] row_run_completed [of G call opts "offered sampler i out" ?row]
      by (auto simp: new_row_def list_ex_iff)
  next
    assume "out \<noteq> [] \<and> \<not> ?yield out"
    then have "br_completed (collect G prompt n out ! i)"
      using facts(1) that(2) nth_mem [of i "collect G prompt n out"] by (simp add: list_ex_iff)
    then show ?thesis using facts(2) [OF that(2)] by simp
  qed
  moreover have "map br_tokens (collect G prompt n out) = map (\<lambda>i. prompt @ map fst (row_tokens G (map (\<lambda>c. c ! i) out))) [0..<n]"
      "map br_masks (collect G prompt n out) =
        map (\<lambda>i. replicate (length prompt) 0 @ map snd (row_tokens G (map (\<lambda>c. c ! i) out))) [0..<n]"
    using facts by (auto intro: nth_equalityI)
  ultimately show ?thesis
    using out(1) run by (intro exI [of _ out]) (simp add: generate_batch_with_def)
qed

theorem generate_batch_rows_witness:
  "generate_batch_with example_ids (\<lambda>_. None) \<lparr>go_thinking = False, go_budget = 0\<rparr>
      (\<lambda>out. if length out < 2 then [8, 9] else [1, 9]) [0] 2 3 = Some ([[0, 8, 8], [0, 9, 9, 9]], [[0, 1, 1], [0, 1, 1, 1]]) \<and>
    (\<exists>a b. generate_batch_with example_ids (\<lambda>_. None) \<lparr>go_thinking = False, go_budget = 0\<rparr>
      (\<lambda>out. if length out < 2 then [8, 9] else [1, 9]) [0] 2 3 = Some (a, b) \<and> length a = 2)"
proof
  show "generate_batch_with example_ids (\<lambda>_. None) \<lparr>go_thinking = False, go_budget = 0\<rparr>
      (\<lambda>out. if length out < 2 then [8, 9] else [1, 9]) [0] 2 3 = Some ([[0, 8, 8], [0, 9, 9, 9]], [[0, 1, 1], [0, 1, 1, 1]])"
    by code_simp
  have len: "\<forall>out :: column list. length (if length out < 2 then [8, 9] else [1, 9 :: int]) = 2" by simp
  have pos: "(3 :: int) > 0" by simp
  show "\<exists>a b. generate_batch_with example_ids (\<lambda>_. None) \<lparr>go_thinking = False, go_budget = 0\<rparr>
      (\<lambda>out. if length out < 2 then [8, 9] else [1, 9]) [0] 2 3 = Some (a, b) \<and> length a = 2"
    using generate_batch_rows [OF len pos, of example_ids "\<lambda>_. None" "\<lparr>go_thinking = False, go_budget = 0\<rparr>" "[0]"]
    by (elim exE conjE) (intro exI conjI, assumption, simp)
qed


section \<open>Lemmas: forced tokens\<close>

lemma row_step_forced: "rs_forced s = f # fs \<Longrightarrow> row_step G call opts x s = row_step G call opts y s"
  by (simp add: row_step_def)

text \<open>What is in the queue comes out in order, whatever is sampled meanwhile, and more can only queue up behind.\<close>

lemma tool_switch_forced: "\<exists>tail. rs_forced (tool_switch G call t s) = rs_forced s @ tail"
  by (auto simp: tool_switch_def Let_def split: option.split)

lemma thinking_switch_forced: "\<exists>tail. rs_forced (thinking_switch G opts t s) = rs_forced s @ tail"
  by (simp add: thinking_switch_def Let_def)

lemma row_step_queue: "\<exists>tail. rs_forced (snd (row_step G call opts x s)) = tl (rs_forced s) @ tail"
proof -
  obtain t s1 where "snd (row_step G call opts x s) = thinking_switch G opts t (tool_switch G call t s1)" "rs_forced s1 = tl (rs_forced s)"
    by (cases "rs_forced s") (simp_all add: row_step_def)
  moreover obtain u where "rs_forced (tool_switch G call t s1) = rs_forced s1 @ u"
    using tool_switch_forced by blast
  moreover obtain v where "rs_forced (thinking_switch G opts t (tool_switch G call t s1)) = rs_forced (tool_switch G call t s1) @ v"
    using thinking_switch_forced by blast
  ultimately show ?thesis by simp
qed

lemma forced_in_order:
  "rs_forced s = fs @ tail \<Longrightarrow> length xs = length fs \<Longrightarrow>
    fst (row_run G call opts xs s) = map (\<lambda>t. (t, 0)) fs \<and>
    (\<exists>tail'. rs_forced (snd (row_run G call opts xs s)) = tail @ tail')"
proof (induction fs arbitrary: xs s tail)
  case Nil
  then show ?case by simp
next
  case (Cons f fs)
  then obtain x ys where xs: "xs = x # ys" "length ys = length fs" by (cases xs) auto
  obtain tail' where "rs_forced (snd (row_step G call opts x s)) = fs @ tail @ tail'"
    using row_step_queue [of G call opts x s] Cons.prems(1) by auto
  from Cons.IH [OF this xs(2)] show ?case
    using Cons.prems(1) by (auto simp: xs(1) row_run_Cons row_step_fst taken_def)
qed

text \<open>
  C22. When a row closes a tool call that the tools understand, the result is what the row says next: the opening
  marker, exactly the tokens of the result, the closing marker, all with mask 0, whatever the model samples.
\<close>
theorem tool_result_forced:
  assumes "rs_forced s = []" "rs_in_tool s" "rs_tool_tokens s \<noteq> []" "call (rs_tool_tokens s) = Some result"
    "gi_tool_end G \<noteq> gi_tool_start G" "length xs = length result + 2"
  shows "fst (row_run G call opts (gi_tool_end G # xs) s) =
    (gi_tool_end G, 1) # map (\<lambda>t. (t, 0)) (gi_output_start G # result @ [gi_output_end G])"
proof -
  let ?s1 = "snd (row_step G call opts (gi_tool_end G) s)"
  let ?s0 = "s\<lparr>rs_current := rs_current s @ [gi_tool_end G],
      rs_completed := (rs_completed s \<or> gi_tool_end G = gi_assistant_end G \<or> gi_tool_end G = gi_bos G)\<rparr>"
  have step: "?s1 = thinking_switch G opts (gi_tool_end G) (tool_switch G call (gi_tool_end G) ?s0)"
    using assms(1) by (simp add: row_step_def)
  have "rs_forced (tool_switch G call (gi_tool_end G) ?s0) = gi_output_start G # result @ [gi_output_end G]"
    using assms(1-5) by (simp add: tool_switch_def)
  then obtain tail where queue: "rs_forced ?s1 = (gi_output_start G # result @ [gi_output_end G]) @ tail"
    using thinking_switch_forced [of G opts "gi_tool_end G" "tool_switch G call (gi_tool_end G) ?s0"] step by auto
  have "length xs = length (gi_output_start G # result @ [gi_output_end G])" using assms(6) by simp
  from forced_in_order [OF queue this, of G call opts] show ?thesis
    using assms(1) by (simp add: row_run_Cons row_step_fst taken_def)
qed

theorem tool_result_forced_witness:
  "fst (row_run example_ids (\<lambda>ts. Some [8, 8]) \<lparr>go_thinking = False, go_budget = 0\<rparr> [gi_tool_end example_ids, 1, 1, 1, 1]
      \<lparr>rs_current = [0], rs_forced = [], rs_in_tool = True, rs_tool_tokens = [9], rs_in_thinking = False,
       rs_thinking_tokens = 0, rs_completed = False\<rparr>) = [(3, 1), (4, 0), (8, 0), (8, 0), (5, 0)]"
  using tool_result_forced [of "\<lparr>rs_current = [0], rs_forced = [], rs_in_tool = True, rs_tool_tokens = [9], rs_in_thinking = False,
       rs_thinking_tokens = 0, rs_completed = False\<rparr>" "\<lambda>ts. Some [8, 8]" "[8, 8]" example_ids "[1, 1, 1, 1]"
       "\<lparr>go_thinking = False, go_budget = 0\<rparr>"]
  by (simp add: example_ids_def)


section \<open>Lemmas: the thinking budget\<close>

definition ids_distinct :: "gen_ids \<Rightarrow> bool" where
  "ids_distinct G \<longleftrightarrow> distinct [gi_tool_start G, gi_tool_end G, gi_output_start G, gi_output_end G, gi_think_start G, gi_think_end G]"

text \<open>Results are texts: at most \<open>R\<close> tokens, and no special token among them.\<close>

definition quiet_tools :: "gen_ids \<Rightarrow> (int list \<Rightarrow> int list option) \<Rightarrow> nat \<Rightarrow> bool" where
  "quiet_tools G call R \<longleftrightarrow> (\<forall>ts result. call ts = Some result \<longrightarrow> length result \<le> R \<and>
     set result \<inter> {gi_tool_start G, gi_tool_end G, gi_think_start G, gi_think_end G} = {})"

text \<open>The queue is what is left of a tool result, and then closing markers; one of them if the budget is used up.\<close>

definition budget_queue :: "gen_ids \<Rightarrow> gen_options \<Rightarrow> nat \<Rightarrow> row_state \<Rightarrow> int list \<Rightarrow> nat \<Rightarrow> bool" where
  "budget_queue G opts R s as k \<longleftrightarrow> rs_forced s = as @ replicate k (gi_think_end G) \<and> length as \<le> R + 2 \<and>
     set as \<inter> {gi_tool_start G, gi_tool_end G, gi_think_start G, gi_think_end G} = {} \<and> 0 \<le> rs_thinking_tokens s \<and>
     (rs_in_thinking s \<and> go_budget opts \<le> rs_thinking_tokens s \<longrightarrow> 0 < k)"

text \<open>What a row does next with a token of the queue, or a sampled one.\<close>

definition accept :: "gen_ids \<Rightarrow> int \<Rightarrow> row_state \<Rightarrow> row_state" where
  "accept G t s = s\<lparr>rs_current := rs_current s @ [t], rs_forced := tl (rs_forced s),
     rs_completed := (rs_completed s \<or> t = gi_assistant_end G \<or> t = gi_bos G)\<rparr>"

lemma row_step_accept:
  "snd (row_step G call opts x s) = thinking_switch G opts (taken x s) (tool_switch G call (taken x s) (accept G (taken x s) s))"
  by (cases s) (simp add: row_step_def taken_def accept_def split: list.split)

lemma accept_fields [simp]:
  "rs_in_thinking (accept G t s) = rs_in_thinking s" "rs_thinking_tokens (accept G t s) = rs_thinking_tokens s"
  "rs_forced (accept G t s) = tl (rs_forced s)"
  by (simp_all add: accept_def)

lemma tool_switch_quiet:
  assumes "quiet_tools G call R" "ids_distinct G"
  obtains as where "rs_forced (tool_switch G call t s) = rs_forced s @ as" "length as \<le> R + 2" "t \<noteq> gi_tool_end G \<longrightarrow> as = []"
    "set as \<inter> {gi_tool_start G, gi_tool_end G, gi_think_start G, gi_think_end G} = {}"
proof (cases "t \<noteq> gi_tool_start G \<and> t = gi_tool_end G \<and> rs_in_tool s \<and> rs_tool_tokens s \<noteq> [] \<and> call (rs_tool_tokens s) \<noteq> None")
  case True
  then obtain result where r: "call (rs_tool_tokens s) = Some result" by auto
  have "length result \<le> R" "set result \<inter> {gi_tool_start G, gi_tool_end G, gi_think_start G, gi_think_end G} = {}"
    using assms(1) r unfolding quiet_tools_def by blast+
  with True r assms(2) show thesis
    by (intro that [of "gi_output_start G # result @ [gi_output_end G]"]) (auto simp: tool_switch_def ids_distinct_def)
next
  case False
  then show thesis
    by (intro that [of "[]"]) (auto simp: tool_switch_def Let_def split: option.split)
qed

lemma budget_queue_step:
  assumes ok: "budget_queue G opts R s as k" and budget: "go_budget opts > 0" and tools: "quiet_tools G call R" "ids_distinct G"
    and s'_def: "s' = snd (row_step G call opts x s)"
  obtains as' k' where "budget_queue G opts R s' as' k'"
    "x \<noteq> gi_think_start G \<Longrightarrow> rs_in_thinking s \<Longrightarrow> rs_in_thinking s' \<Longrightarrow>
      (if 0 < k then 0 < k' \<and> length as' < length as
       else 0 < k' \<or> rs_thinking_tokens s' = rs_thinking_tokens s + 1)"
proof -
  let ?t = "taken x s"
  let ?s1 = "accept G ?t s"
  let ?s2 = "tool_switch G call ?t ?s1"
  obtain add where add: "rs_forced ?s2 = rs_forced ?s1 @ add" "length add \<le> R + 2" "?t \<noteq> gi_tool_end G \<longrightarrow> add = []"
      "set add \<inter> {gi_tool_start G, gi_tool_end G, gi_think_start G, gi_think_end G} = {}"
    using tool_switch_quiet [OF tools, of ?t ?s1] by metis
  have q: "rs_forced s = as @ replicate k (gi_think_end G)" "length as \<le> R + 2"
      "set as \<inter> {gi_tool_start G, gi_tool_end G, gi_think_start G, gi_think_end G} = {}" "0 \<le> rs_thinking_tokens s"
      "rs_in_thinking s \<and> go_budget opts \<le> rs_thinking_tokens s \<longrightarrow> 0 < k"
    using ok by (auto simp: budget_queue_def)
  have fields: "rs_in_thinking ?s2 = rs_in_thinking s" "rs_thinking_tokens ?s2 = rs_thinking_tokens s"
    "rs_forced ?s1 = tl (rs_forced s)" by simp_all
  have track: "tracks_thinking opts" using budget by (simp add: tracks_thinking_def)
  have s': "s' = thinking_switch G opts ?t ?s2" unfolding s'_def by (rule row_step_accept)
  have distinct: "gi_think_start G \<noteq> gi_think_end G" "gi_tool_end G \<noteq> gi_think_end G" "gi_tool_end G \<noteq> gi_think_start G"
    using tools(2) by (auto simp: ids_distinct_def)
  define k1 where "k1 = (if as = [] then k - 1 else k)"
  define as1 where "as1 = (if as = [] \<and> k = 0 then add else tl as)"
  have forced2: "rs_forced ?s2 = as1 @ replicate k1 (gi_think_end G)"
  proof (cases "rs_forced s = []")
    case True
    then show ?thesis using add(1) fields(3) q(1) by (simp add: as1_def k1_def)
  next
    case False
    then have "?t \<in> set (rs_forced s)" by (simp add: taken_def split: list.split)
    then have "add = []" using add(3) q(1,3) distinct(2) by auto
    with False q(1) add(1) fields(3) show ?thesis
      by (cases as; cases k) (simp_all add: as1_def k1_def)
  qed
  have as1: "length as1 \<le> R + 2" "set as1 \<inter> {gi_tool_start G, gi_tool_end G, gi_think_start G, gi_think_end G} = {}"
  proof -
    have "set (tl as) \<subseteq> set as" by (cases as) auto
    with add(2,4) q(2,3) show "length as1 \<le> R + 2"
        "set as1 \<inter> {gi_tool_start G, gi_tool_end G, gi_think_start G, gi_think_end G} = {}"
      by (auto simp: as1_def)
  qed
  have head: "?t = (if as \<noteq> [] then hd as else if 0 < k then gi_think_end G else x)"
    using q(1) by (cases as; cases k) (simp_all add: taken_def)
  show thesis
  proof (cases "?t \<noteq> gi_think_start G \<and> ?t \<noteq> gi_think_end G \<and> rs_in_thinking s")
    case counted: True
    let ?n = "rs_thinking_tokens s + 1"
    define k2 where "k2 = (if go_budget opts \<le> ?n then Suc k1 else k1)"
    have new: "rs_forced s' = as1 @ replicate k2 (gi_think_end G)" "rs_thinking_tokens s' = ?n" "rs_in_thinking s' = rs_in_thinking s"
      unfolding s' using counted track budget forced2
      by (simp_all add: thinking_switch_def k2_def Let_def replicate_append_same [symmetric])
    show thesis
    proof (rule that [of as1 k2])
      show "budget_queue G opts R s' as1 k2"
        using as1 new q(4) by (auto simp: budget_queue_def k2_def)
      show "if 0 < k then 0 < k2 \<and> length as1 < length as else 0 < k2 \<or> rs_thinking_tokens s' = rs_thinking_tokens s + 1"
      proof (cases "0 < k")
        case True
        with counted head have "as \<noteq> []" by auto
        with True show ?thesis by (simp add: k1_def k2_def as1_def)
      qed (simp add: new(2))
    qed
  next
    case other: False
    have new: "rs_forced s' = as1 @ replicate k1 (gi_think_end G)" "0 \<le> rs_thinking_tokens s'"
      unfolding s' using other forced2 q(4) by (auto simp: thinking_switch_def fields Let_def)
    have in_thinking: "rs_in_thinking s' \<longrightarrow> ?t = gi_think_start G \<and> rs_thinking_tokens s' = 0"
      unfolding s' using other track distinct(1) by (auto simp: thinking_switch_def fields Let_def split: if_splits)
    show thesis
    proof (rule that [of as1 k1])
      show "budget_queue G opts R s' as1 k1"
        using as1 new in_thinking budget by (auto simp: budget_queue_def)
      show "if 0 < k then 0 < k1 \<and> length as1 < length as else 0 < k1 \<or> rs_thinking_tokens s' = rs_thinking_tokens s + 1"
        if "x \<noteq> gi_think_start G" "rs_in_thinking s'"
      proof -
        have "?t \<noteq> gi_think_start G"
          using head that(1) q(3) distinct(1) by (cases as) (auto split: if_splits)
        with in_thinking that(2) show ?thesis by simp
      qed
    qed
  qed
qed

lemma budget_closes:
  assumes budget: "go_budget opts > 0" and tools: "quiet_tools G call R" "ids_distinct G"
  shows "budget_queue G opts R s as k \<Longrightarrow> gi_think_start G \<notin> set xs \<Longrightarrow>
    (if 0 < k then length as + 1 else nat (go_budget opts - rs_thinking_tokens s) + R + 3) \<le> length xs \<Longrightarrow>
    \<exists>m \<le> length xs. \<not> rs_in_thinking (snd (row_run G call opts (take m xs) s))"
proof (induction xs arbitrary: s as k)
  case Nil
  then show ?case by (auto split: if_splits)
next
  case (Cons x xs)
  show ?case
  proof (cases "rs_in_thinking s \<and> rs_in_thinking (snd (row_step G call opts x s))")
    case False
    then show ?thesis
    proof (cases "rs_in_thinking s")
      case True
      with False show ?thesis by (intro exI [of _ 1]) (simp add: row_run_Cons)
    next
      case False
      then show ?thesis by (intro exI [of _ 0]) simp
    qed
  next
    case True
    let ?s = "snd (row_step G call opts x s)"
    obtain as' k' where next_queue: "budget_queue G opts R ?s as' k'"
      and moved: "if 0 < k then 0 < k' \<and> length as' < length as
        else 0 < k' \<or> rs_thinking_tokens ?s = rs_thinking_tokens s + 1"
      using budget_queue_step [OF Cons.prems(1) budget tools refl, of x] True Cons.prems(2) by (metis list.set_intros(1))
    have "rs_in_thinking s \<and> go_budget opts \<le> rs_thinking_tokens s \<longrightarrow> 0 < k"
      using Cons.prems(1) by (simp add: budget_queue_def)
    moreover have "length as' \<le> R + 2" "rs_in_thinking ?s \<and> go_budget opts \<le> rs_thinking_tokens ?s \<longrightarrow> 0 < k'"
      using next_queue by (simp_all add: budget_queue_def)
    ultimately have "(if 0 < k' then length as' + 1 else nat (go_budget opts - rs_thinking_tokens ?s) + R + 3) \<le> length xs"
      using moved Cons.prems(3) True by (auto split: if_splits)
    from Cons.IH [OF next_queue _ this] Cons.prems(2) obtain m where
      "m \<le> length xs" "\<not> rs_in_thinking (snd (row_run G call opts (take m xs) ?s))" by auto
    then show ?thesis by (intro exI [of _ "Suc m"]) (simp add: row_run_Cons)
  qed
qed

lemma budget_queue_run:
  assumes "go_budget opts > 0" "quiet_tools G call R" "ids_distinct G"
  shows "budget_queue G opts R s as k \<Longrightarrow> \<exists>as k. budget_queue G opts R (snd (row_run G call opts xs s)) as k"
proof (induction xs arbitrary: s as k)
  case (Cons x xs)
  obtain as' k' where "budget_queue G opts R (snd (row_step G call opts x s)) as' k'"
    using budget_queue_step [OF Cons.prems assms refl, of x] by metis
  from Cons.IH [OF this] show ?case by (simp add: row_run_Cons)
qed auto

text \<open>
  With a thinking budget and tools whose results have at most \<open>R\<close> tokens, none of them a marker: whatever a row has done
  before, if from then on the opening marker is not sampled again, then a trace that is open is closed within the budget,
  \<open>R\<close> and three more steps. (Where the marker is sampled again and again the trace stays open: \<open>budget_evaded\<close>.)
\<close>
theorem thinking_budget_closes:
  assumes "go_budget opts > 0" "quiet_tools G call R" "ids_distinct G"
    "gi_think_start G \<notin> set xs" "length xs = nat (go_budget opts) + R + 3"
  shows "\<exists>m \<le> length xs. \<not> rs_in_thinking (snd (row_run G call opts (ys @ take m xs) (new_row G opts prompt)))"
proof -
  have "budget_queue G opts R (new_row G opts prompt) [] 0"
    using assms(1) by (simp add: budget_queue_def new_row_def)
  from budget_queue_run [OF assms(1-3) this] obtain as k where
    q: "budget_queue G opts R (snd (row_run G call opts ys (new_row G opts prompt))) as k" by blast
  have "(if 0 < k then length as + 1 else nat (go_budget opts - rs_thinking_tokens (snd (row_run G call opts ys (new_row G opts prompt)))) + R + 3)
      \<le> length xs"
    using q assms(5) by (auto simp: budget_queue_def)
  from budget_closes [OF assms(1-3) q assms(4) this] show ?thesis
    by (simp add: row_run_append)
qed

theorem thinking_budget_closes_witness:
  "\<exists>m \<le> 5. \<not> rs_in_thinking (snd (row_run example_ids (\<lambda>_. None) \<lparr>go_thinking = False, go_budget = 2\<rparr>
      ([6, 9] @ take m [9, 9, 9, 9, 9]) (new_row example_ids \<lparr>go_thinking = False, go_budget = 2\<rparr> [0])))"
proof -
  have "quiet_tools example_ids (\<lambda>_. None) 0" by (simp add: quiet_tools_def)
  moreover have "ids_distinct example_ids" by code_simp
  moreover have "gi_think_start example_ids \<notin> set [9, 9, 9, 9, 9]" by code_simp
  moreover have "(5 :: nat) = length [9, 9, 9, 9, 9 :: int]" by simp
  ultimately show ?thesis
    using thinking_budget_closes [of "\<lparr>go_thinking = False, go_budget = 2\<rparr>" example_ids "\<lambda>_. None" 0 "[9, 9, 9, 9, 9]" "[6, 9]" "[0]"]
    by (simp add: eval_nat_numeral)
qed

text \<open>
  The exception is needed: sampling the opening marker again starts the count again, so a model that repeats it
  keeps the trace open for ever, without a single forced token.
\<close>

lemma budget_evaded:
  assumes "ids_distinct G" "1 < go_budget opts" "x \<notin> {gi_tool_start G, gi_tool_end G, gi_think_start G, gi_think_end G}"
    "rs_in_thinking s" "rs_forced s = []" "rs_thinking_tokens s = 0" "\<not> rs_in_tool s"
  shows "rs_in_thinking (snd (row_run G call opts (concat (replicate n [x, gi_think_start G])) s)) \<and>
    rs_forced (snd (row_run G call opts (concat (replicate n [x, gi_think_start G])) s)) = []"
  using assms(4-7)
proof (induction n arbitrary: s)
  case (Suc n)
  let ?s = "snd (row_run G call opts [x, gi_think_start G] s)"
  have "rs_in_thinking ?s" "rs_forced ?s = []" "rs_thinking_tokens ?s = 0" "\<not> rs_in_tool ?s"
    using Suc.prems assms(1-3)
    by (auto simp: row_run_Cons row_step_accept taken_def accept_def tool_switch_def thinking_switch_def tracks_thinking_def ids_distinct_def)
  from Suc.IH [OF this] show ?case
    using row_run_append [of G call opts "[x, gi_think_start G]" "concat (replicate n [x, gi_think_start G])" s] by simp
qed simp

text \<open>A tool result that is still queued when the budget runs out is counted too, and queues closing markers that nothing needs.\<close>

lemma spurious_think_ends:
  "map fst (fst (row_run example_ids (\<lambda>_. Some [8]) \<lparr>go_thinking = True, go_budget = 3\<rparr> [2, 9, 3, 9, 9, 9, 9, 9, 9, 9]
      (new_row example_ids \<lparr>go_thinking = True, go_budget = 3\<rparr> [0, 6]))) = [2, 9, 3, 4, 8, 5, 7, 7, 7, 7]"
  by code_simp

end
