(* ===== verification/Speculative.thy ===== *)
theory Speculative
  imports Engine Model_Config
begin

text \<open>
  src/inference/speculative.go: greedy decoding with a draft model, and the choices of sampler.go it shares.

  The target model and its KV cache are parameters: a new cache has a capacity, and a forward pass takes ids and a cache
  and gives one row of logits per id, or panics (\<open>None\<close>), as it does when the ids do not fit the cache
  (src/model/transformer.go, src/model/kvcache.go). Logits are the elements of a linear order (float32 without NaN);
  confidences are rationals. The consumer of the stream is a function of the tokens given to it so far.
\<close>

section \<open>Choices over logits\<close>

fun argmax_loop :: "'f::linorder list \<Rightarrow> nat \<Rightarrow> nat \<Rightarrow> 'f \<Rightarrow> nat" where
  "argmax_loop [] index best value = best"
| "argmax_loop (x # xs) index best value =
     (if x > value then argmax_loop xs (index + 1) index x else argmax_loop xs (index + 1) best value)"

definition argmax_slice :: "'f::linorder list \<Rightarrow> nat" where
  "argmax_slice xs = (case xs of [] \<Rightarrow> 0 | x # xs \<Rightarrow> argmax_loop xs 1 0 x)"

definition argmax_row :: "'f::linorder list list \<Rightarrow> nat \<Rightarrow> nat" where
  "argmax_row rows i = argmax_slice (rows ! i)"

text \<open>How many candidates are worth verifying: while the product of the confidences stays at the threshold.\<close>

fun schedule_loop :: "rat list \<Rightarrow> rat \<Rightarrow> rat \<Rightarrow> nat \<Rightarrow> nat" where
  "schedule_loop [] threshold survival limit = limit"
| "schedule_loop (c # cs) threshold survival limit =
     (if survival * c < threshold then limit else schedule_loop cs threshold (survival * c) (limit + 1))"

definition scheduled_length :: "rat list \<Rightarrow> rat \<Rightarrow> nat" where
  "scheduled_length confidences threshold =
     (let limit = schedule_loop confidences threshold 1 1 in if limit < 1 then 1 else limit)"

section \<open>The engine's side\<close>

record ('c, 'f) target_model =
  tm_new :: "int \<Rightarrow> 'c"
  tm_forward :: "int list \<Rightarrow> 'c \<Rightarrow> ('f list list \<times> 'c) option"
  tm_position :: "'c \<Rightarrow> int"
  tm_set_position :: "'c \<Rightarrow> int \<Rightarrow> 'c"
  tm_set_previous :: "'c \<Rightarrow> int \<Rightarrow> 'c"

text \<open>A DSpark drafter gives tokens and confidences, a plain one tokens.\<close>

datatype drafter =
  DSpark "int list \<Rightarrow> nat \<Rightarrow> int list \<times> rat list" |
  Drafter "int list \<Rightarrow> nat \<Rightarrow> int list"

record spec_options =
  so_speculative :: bool
  so_draft_length :: int
  so_threshold :: rat
  so_sequence_len :: int
  so_assistant_end :: int
  so_bos :: int

definition speculative_eligible :: "bool \<Rightarrow> drafter option \<Rightarrow> config \<Rightarrow> int \<Rightarrow> rat \<Rightarrow> bool" where
  "speculative_eligible speculative D c num_samples temperature \<longleftrightarrow>
     speculative \<and> D \<noteq> None \<and> compression c = 1 \<and> num_samples = 1 \<and> temperature \<le> 0"

definition draft_block :: "spec_options \<Rightarrow> int" where
  "draft_block E = (if so_draft_length E < 2 then 5 else so_draft_length E)"

definition effective_threshold :: "spec_options \<Rightarrow> rat" where
  "effective_threshold E = (if so_threshold E \<le> 0 then 1 / 2 else so_threshold E)"

definition candidates :: "spec_options \<Rightarrow> drafter \<Rightarrow> int list \<Rightarrow> int \<Rightarrow> nat \<Rightarrow> int list" where
  "candidates E D sequence first draft_count =
     (if draft_count = 0 then [first]
      else case D of
        DSpark draft \<Rightarrow>
          (let (drafted, confidences) = draft (sequence @ [first]) draft_count; cs = first # drafted;
               limit = scheduled_length confidences (effective_threshold E)
           in if limit < length cs then take limit cs else cs)
      | Drafter draft \<Rightarrow> first # draft (sequence @ [first]) draft_count)"

text \<open>The longest prefix of drafted tokens that the target would have chosen.\<close>

fun matched_loop :: "'f::linorder list list \<Rightarrow> int list \<Rightarrow> nat \<Rightarrow> nat" where
  "matched_loop verified [] m = m"
| "matched_loop verified (c # cs) m = (if int (argmax_row verified m) = c then matched_loop verified cs (m + 1) else m)"

record emit_state =
  em_sequence :: "int list"
  em_emitted :: int
  em_out :: "int list"

definition emit :: "spec_options \<Rightarrow> (int list \<Rightarrow> bool) \<Rightarrow> int \<Rightarrow> int \<Rightarrow> emit_state \<Rightarrow> bool \<times> emit_state" where
  "emit E yield max_tokens t s =
     (if t = so_assistant_end E \<or> t = so_bos E then (False, s)
      else if \<not> yield (em_out s @ [t]) then (False, s\<lparr>em_out := em_out s @ [t]\<rparr>)
      else (em_emitted s + 1 < max_tokens,
            s\<lparr>em_sequence := em_sequence s @ [t], em_emitted := em_emitted s + 1, em_out := em_out s @ [t]\<rparr>))"

fun emit_all :: "spec_options \<Rightarrow> (int list \<Rightarrow> bool) \<Rightarrow> int \<Rightarrow> int list \<Rightarrow> emit_state \<Rightarrow> bool \<times> emit_state" where
  "emit_all E yield max_tokens [] s = (True, s)"
| "emit_all E yield max_tokens (t # ts) s =
     (let (go, s) = emit E yield max_tokens t s in if go then emit_all E yield max_tokens ts s else (False, s))"

definition forward_pass :: "('c, 'f) target_model \<Rightarrow> int list \<Rightarrow> 'c \<Rightarrow> (unit, 'f list list \<times> 'c) outcome" where
  "forward_pass K ids cache = (case tm_forward K ids cache of None \<Rightarrow> Inl Panic | Some r \<Rightarrow> Inr r)"

text \<open>One round: draft, verify, accept, emit. \<open>None\<close> is a full context window.\<close>

definition spec_round ::
  "('c, 'f::linorder) target_model \<Rightarrow> spec_options \<Rightarrow> drafter \<Rightarrow> (int list \<Rightarrow> bool) \<Rightarrow> int \<Rightarrow>
    int option \<Rightarrow> 'f list \<Rightarrow> 'c \<Rightarrow> emit_state \<Rightarrow> (unit, (bool \<times> emit_state \<times> int \<times> 'c) option) outcome" where
  "spec_round K E D yield max_tokens pending last_logits cache s =
     (let first = (case pending of Some t \<Rightarrow> t | None \<Rightarrow> int (argmax_slice last_logits));
          room = so_sequence_len E - tm_position K cache;
          block = (if draft_block E > room then room else draft_block E)
      in if block < 1 then Inr None
         else
           (let cs = candidates E D (em_sequence s) first (nat (block - 1)); base = tm_position K cache
            in obind (forward_pass K cs cache) (\<lambda>(verified, cache).
              let matched = matched_loop verified (tl cs) 0;
                  accepted = 1 + matched;
                  cache = tm_set_previous K (tm_set_position K cache (base + int accepted)) (cs ! (accepted - 1));
                  next_token = (if matched < length cs - 1 then argmax_row verified matched
                                else argmax_row verified (length cs - 1));
                  (go, s) = emit_all E yield max_tokens (take accepted cs) s
              in Inr (Some (go, s, int next_token, cache)))))"

partial_function (option) spec_loop ::
  "('c, 'f::linorder) target_model \<Rightarrow> spec_options \<Rightarrow> drafter \<Rightarrow> (int list \<Rightarrow> bool) \<Rightarrow> int \<Rightarrow>
    int option \<Rightarrow> 'f list \<Rightarrow> 'c \<Rightarrow> emit_state \<Rightarrow> (unit, int list) outcome option" where
  "spec_loop K E D yield max_tokens pending last_logits cache s =
     (if em_emitted s < max_tokens then
        (case spec_round K E D yield max_tokens pending last_logits cache s of
           Inl e \<Rightarrow> Some (Inl e)
         | Inr None \<Rightarrow> Some (Inr (em_out s))
         | Inr (Some (go, s, next_token, cache)) \<Rightarrow>
             if go then spec_loop K E D yield max_tokens (Some next_token) last_logits cache s else Some (Inr (em_out s)))
      else Some (Inr (em_out s)))"

declare spec_loop.simps [code]

definition speculative_generate ::
  "('c, 'f::linorder) target_model \<Rightarrow> spec_options \<Rightarrow> drafter \<Rightarrow> (int list \<Rightarrow> bool) \<Rightarrow> int list \<Rightarrow> int \<Rightarrow>
    (unit, int list) outcome option" where
  "speculative_generate K E D yield tokens max_tokens =
     (if tokens = [] then Some (Inr [])
      else
        (case forward_pass K tokens (tm_new K (so_sequence_len E)) of
           Inl e \<Rightarrow> Some (Inl e)
         | Inr (logits, cache) \<Rightarrow>
             spec_loop K E D yield max_tokens None (logits ! (length tokens - 1)) cache
               \<lparr>em_sequence = tokens, em_emitted = 0, em_out = []\<rparr>))"

section \<open>Greedy decoding, the reference\<close>

fun greedy_stream :: "(int list \<Rightarrow> 'f::linorder list) \<Rightarrow> int list \<Rightarrow> nat \<Rightarrow> int list" where
  "greedy_stream logits ts 0 = []"
| "greedy_stream logits ts (Suc n) =
     (let t = int (argmax_slice (logits ts)) in t # greedy_stream logits (ts @ [t]) n)"

fun deliver :: "spec_options \<Rightarrow> (int list \<Rightarrow> bool) \<Rightarrow> int list \<Rightarrow> int list \<Rightarrow> int list" where
  "deliver E yield out [] = out"
| "deliver E yield out (t # ts) =
     (if t = so_assistant_end E \<or> t = so_bos E then out
      else if yield (out @ [t]) then deliver E yield (out @ [t]) ts else out @ [t])"

text \<open>
  What the code relies on of the target model, with a cache made for \<open>cap\<close> positions and ids below \<open>vocab\<close>, and
  \<open>holds c ts\<close> for "the cache \<open>c\<close> is that of the prefix \<open>ts\<close>": as long as the ids fit the cache, a forward
  pass gives after each id the logits of the prefix so far; and taking the position back, with the embedding of the last token
  kept restored, gives the cache of the shorter prefix. Nothing is asked of a pass that does not fit.
\<close>

definition ids_below :: "nat \<Rightarrow> int list \<Rightarrow> bool" where
  "ids_below vocab ids \<longleftrightarrow> list_all (\<lambda>t. 0 \<le> t \<and> t < int vocab) ids"

definition exact_cache ::
  "('c, 'f) target_model \<Rightarrow> int \<Rightarrow> nat \<Rightarrow> (int list \<Rightarrow> 'f list) \<Rightarrow> ('c \<Rightarrow> int list \<Rightarrow> bool) \<Rightarrow> bool" where
  "exact_cache K cap vocab logits holds \<longleftrightarrow>
     0 < vocab \<and> (\<forall>ts. length (logits ts) = vocab) \<and> holds (tm_new K cap) [] \<and>
     (\<forall>c ts ids. holds c ts \<longrightarrow> ids \<noteq> [] \<longrightarrow> ids_below vocab ids \<longrightarrow> int (length ts + length ids) \<le> cap \<longrightarrow>
        (\<exists>c'. tm_forward K ids c = Some (map (\<lambda>i. logits (ts @ take (Suc i) ids)) [0..<length ids], c') \<and> holds c' (ts @ ids))) \<and>
     (\<forall>c ts. holds c ts \<longrightarrow> tm_position K c = int (length ts)) \<and>
     (\<forall>c ts n. holds c ts \<longrightarrow> 0 < n \<longrightarrow> n \<le> length ts \<longrightarrow>
        holds (tm_set_previous K (tm_set_position K c (int n)) (ts ! (n - 1))) (take n ts))"

text \<open>Drafters give at most as many tokens as asked for, all of them ids of the vocabulary.\<close>

definition drafter_ok :: "nat \<Rightarrow> drafter \<Rightarrow> bool" where
  "drafter_ok vocab D \<longleftrightarrow>
     (case D of
        DSpark draft \<Rightarrow> (\<forall>ts n. length (fst (draft ts n)) \<le> n \<and> ids_below vocab (fst (draft ts n)))
      | Drafter draft \<Rightarrow> (\<forall>ts n. length (draft ts n) \<le> n \<and> ids_below vocab (draft ts n)))"

section \<open>Lemmas\<close>

lemma exact_cacheD:
  assumes "exact_cache K cap vocab logits holds" "holds c ts"
  shows "ids \<noteq> [] \<Longrightarrow> ids_below vocab ids \<Longrightarrow> int (length ts + length ids) \<le> cap \<Longrightarrow>
      \<exists>c'. forward_pass K ids c = Inr (map (\<lambda>i. logits (ts @ take (Suc i) ids)) [0..<length ids], c') \<and> holds c' (ts @ ids)"
    "tm_position K c = int (length ts)"
    "0 < n \<Longrightarrow> n \<le> length ts \<Longrightarrow> holds (tm_set_previous K (tm_set_position K c (int n)) (ts ! (n - 1))) (take n ts)"
proof -
  show "\<exists>c'. forward_pass K ids c = Inr (map (\<lambda>i. logits (ts @ take (Suc i) ids)) [0..<length ids], c') \<and> holds c' (ts @ ids)"
    if "ids \<noteq> []" "ids_below vocab ids" "int (length ts + length ids) \<le> cap"
  proof -
    have "\<exists>c'. tm_forward K ids c = Some (map (\<lambda>i. logits (ts @ take (Suc i) ids)) [0..<length ids], c') \<and> holds c' (ts @ ids)"
      using assms that unfolding exact_cache_def by blast
    then show ?thesis by (auto simp: forward_pass_def)
  qed
qed (use assms in \<open>unfold exact_cache_def, blast+\<close>)

lemma argmax_loop_bound: "best < index \<Longrightarrow> argmax_loop xs index best x < index + length xs"
proof (induction xs arbitrary: index best x)
  case (Cons y xs)
  from Cons.IH [of index "index + 1" y] Cons.IH [of best "index + 1" x] Cons.prems show ?case by simp
qed simp

lemma argmax_below: "xs \<noteq> [] \<Longrightarrow> argmax_slice xs < length xs"
  using argmax_loop_bound [of 0 1 "tl xs" "List.hd xs"] by (cases xs) (simp_all add: argmax_slice_def)

lemma ids_below_simps [simp]:
  "ids_below vocab []" "ids_below vocab (t # ts) \<longleftrightarrow> 0 \<le> t \<and> t < int vocab \<and> ids_below vocab ts"
  "ids_below vocab (ts @ us) \<longleftrightarrow> ids_below vocab ts \<and> ids_below vocab us"
  by (simp_all add: ids_below_def)

lemma ids_below_take: "ids_below vocab ts \<Longrightarrow> ids_below vocab (take n ts)"
  unfolding ids_below_def list_all_iff using in_set_takeD by fast

lemma length_greedy [simp]: "length (greedy_stream logits ts n) = n"
  by (induction n arbitrary: ts) (simp_all add: Let_def)

lemma greedy_add:
  "greedy_stream logits ts (m + n) =
    greedy_stream logits ts m @ greedy_stream logits (ts @ greedy_stream logits ts m) n"
  by (induction m arbitrary: ts) (simp_all add: Let_def)

lemma greedy_take: "m \<le> n \<Longrightarrow> take m (greedy_stream logits ts n) = greedy_stream logits ts m"
  using greedy_add [of logits ts m "n - m"] by simp

lemma candidates_facts:
  assumes "drafter_ok vocab D"
  obtains ds where "candidates E D sequence first n = first # ds" "length ds \<le> n" "ids_below vocab ds"
proof -
  have pos: "0 < scheduled_length cs th" for cs th
    by (simp add: scheduled_length_def Let_def)
  show thesis
  proof (cases "n = 0")
    case True
    then show thesis by (intro that [of "[]"]) (simp_all add: candidates_def)
  next
    case False
    show thesis
    proof (cases D)
      case (Drafter draft)
      with assms False show thesis
        by (intro that [of "draft (sequence @ [first]) n"]) (simp_all add: candidates_def drafter_ok_def)
    next
      case (DSpark draft)
      obtain ds cs where d: "draft (sequence @ [first]) n = (ds, cs)" by fastforce
      obtain k where k: "scheduled_length cs (effective_threshold E) = Suc k"
        using pos [of cs "effective_threshold E"] gr0_implies_Suc by blast
      have "length (fst (draft (sequence @ [first]) n)) \<le> n \<and> ids_below vocab (fst (draft (sequence @ [first]) n))"
        using assms DSpark by (simp add: drafter_ok_def)
      then have len: "length ds \<le> n" "ids_below vocab ds" by (simp_all add: d)
      have "candidates E D sequence first n = first # (if k < length ds then take k ds else ds)"
        using False by (simp add: candidates_def DSpark d k)
      with len show thesis by (intro that [of "if k < length ds then take k ds else ds"]) (simp_all add: ids_below_take)
    qed
  qed
qed

lemma matched_loop_bound: "m \<le> matched_loop verified cs m \<and> matched_loop verified cs m \<le> m + length cs"
proof (induction cs arbitrary: m)
  case (Cons c cs)
  from Cons.IH [of "m + 1"] show ?case by simp
qed simp

lemma matched_loop_nth: "i < matched_loop verified cs m \<Longrightarrow> m \<le> i \<Longrightarrow> int (argmax_row verified i) = cs ! (i - m)"
proof (induction cs arbitrary: m)
  case (Cons c cs)
  show ?case
  proof (cases "i = m")
    case True
    with Cons.prems show ?thesis by (auto split: if_splits)
  next
    case False
    with Cons.prems Cons.IH [of "m + 1"] show ?thesis by (auto split: if_splits simp: nth_Cons')
  qed
qed simp


text \<open>The accepted candidates are the target's own greedy choices, and so is the token carried over.\<close>

lemma accepted_greedy:
  assumes verified: "verified = map (\<lambda>i. logits (ts @ take (Suc i) (first # ds))) [0..<Suc (length ds)]"
    and first: "first = int (argmax_slice (logits ts))"
  defines "m \<equiv> matched_loop verified ds 0"
  shows "take (Suc m) (first # ds) = greedy_stream logits ts (Suc m)"
    "int (argmax_row verified m) = int (argmax_slice (logits (ts @ greedy_stream logits ts (Suc m))))"
proof -
  have m: "m \<le> length ds" using matched_loop_bound [of 0 verified ds] by (simp add: m_def)
  have row: "argmax_row verified i = argmax_slice (logits (ts @ take (Suc i) (first # ds)))" if "i \<le> length ds" for i
    using that unfolding verified argmax_row_def by (subst nth_map) (simp_all del: upt_Suc)
  have "take (Suc k) (first # ds) = greedy_stream logits ts (Suc k)" if "k \<le> m" for k
    using that
  proof (induction k)
    case 0
    then show ?case by (simp add: first Let_def)
  next
    case (Suc k)
    have "ds ! k = int (argmax_row verified k)"
      using matched_loop_nth [of k verified ds 0] Suc.prems by (simp add: m_def)
    also have "\<dots> = int (argmax_slice (logits (ts @ greedy_stream logits ts (Suc k))))"
      using row [of k] Suc.IH Suc.prems m by simp
    finally have "take (Suc (Suc k)) (first # ds) = greedy_stream logits ts (Suc k) @ greedy_stream logits (ts @ greedy_stream logits ts (Suc k)) 1"
      using Suc m take_Suc_conv_app_nth [of "Suc k" "first # ds"] by (simp add: Let_def)
    then show ?case using greedy_add [of logits ts "Suc k" 1] by simp
  qed
  then show pre: "take (Suc m) (first # ds) = greedy_stream logits ts (Suc m)" by simp
  show "int (argmax_row verified m) = int (argmax_slice (logits (ts @ greedy_stream logits ts (Suc m))))"
    using row [OF m] pre by simp
qed

lemma emit_all_facts:
  assumes "em_emitted s < max_tokens" "emit_all E yield max_tokens ts s = (go, s')"
  shows "if go then em_sequence s' = em_sequence s @ ts \<and> em_emitted s' = em_emitted s + int (length ts) \<and> em_emitted s' < max_tokens \<and>
      (\<forall>us. deliver E yield (em_out s) (take (nat (max_tokens - em_emitted s)) (ts @ us)) =
        deliver E yield (em_out s') (take (nat (max_tokens - em_emitted s')) us))
    else (\<forall>us. deliver E yield (em_out s) (take (nat (max_tokens - em_emitted s)) (ts @ us)) = em_out s')"
  using assms
proof (induction ts arbitrary: s)
  case (Cons t ts)
  obtain k where k: "nat (max_tokens - em_emitted s) = Suc k" "k = nat (max_tokens - (em_emitted s + 1))"
    using Cons.prems(1) by (cases "nat (max_tokens - em_emitted s)") (auto simp: nat_diff_distrib)
  consider "t = so_assistant_end E \<or> t = so_bos E"
    | "\<not> (t = so_assistant_end E \<or> t = so_bos E)" "\<not> yield (em_out s @ [t])"
    | "\<not> (t = so_assistant_end E \<or> t = so_bos E)" "yield (em_out s @ [t])"
    by blast
  then show ?case
  proof cases
    case 1
    with Cons.prems k show ?thesis by (auto simp: emit_def)
  next
    case 2
    with Cons.prems k show ?thesis by (auto simp: emit_def)
  next
    case 3
    let ?s = "s\<lparr>em_sequence := em_sequence s @ [t], em_emitted := em_emitted s + 1, em_out := em_out s @ [t]\<rparr>"
    show ?thesis
    proof (cases "em_emitted s + 1 < max_tokens")
      case True
      with 3 Cons.prems(2) have "emit_all E yield max_tokens ts ?s = (go, s')" by (simp add: emit_def)
      from Cons.IH [OF _ this] True 3 k show ?thesis by (auto split: if_splits)
    next
      case False
      with 3 Cons.prems(2) have "go = False" "s' = ?s" by (auto simp: emit_def)
      moreover have "k = 0" using False k(2) by simp
      ultimately show ?thesis using 3 k(1) by simp
    qed
  qed
qed simp

lemma spec_loop_greedy:
  assumes exact: "exact_cache K (so_sequence_len E) vocab logits holds" and D: "drafter_ok vocab D"
  shows "holds cache (em_sequence s) \<Longrightarrow>
    (case pending of Some t \<Rightarrow> t | None \<Rightarrow> int (argmax_slice last_logits)) = int (argmax_slice (logits (em_sequence s))) \<Longrightarrow>
    spec_loop K E D yield max_tokens pending last_logits cache s =
      Some (Inr (deliver E yield (em_out s) (take (nat (max_tokens - em_emitted s))
        (greedy_stream logits (em_sequence s) (nat (so_sequence_len E - int (length (em_sequence s))))))))"
proof (induction "nat (max_tokens - em_emitted s)" arbitrary: s cache pending rule: less_induct)
  case less
  let ?seq = "em_sequence s"
  let ?room = "so_sequence_len E - int (length ?seq)"
  have position: "tm_position K cache = int (length ?seq)"
    using exact_cacheD(2) [OF exact less.prems(1)] .
  show ?case
  proof (cases "em_emitted s < max_tokens \<and> 1 \<le> ?room")
    case False
    then show ?thesis
    proof (cases "em_emitted s < max_tokens")
      case True
      with False have "?room < 1" by simp
      then have "spec_round K E D yield max_tokens pending last_logits cache s = Inr None"
        by (simp add: spec_round_def position Let_def draft_block_def)
      with True \<open>?room < 1\<close> show ?thesis by (subst spec_loop.simps) simp
    next
      case False
      then show ?thesis by (subst spec_loop.simps) simp
    qed
  next
    case True
    define first where "first = int (argmax_slice (logits ?seq))"
    let ?block = "if draft_block E > ?room then ?room else draft_block E"
    have block: "1 \<le> ?block" "?block \<le> ?room" using True by (auto simp: draft_block_def)
    obtain ds where cs: "candidates E D ?seq first (nat (?block - 1)) = first # ds" "length ds \<le> nat (?block - 1)" "ids_below vocab ds"
      using candidates_facts [OF D] by blast
    have "length (logits ?seq) = vocab" "0 < vocab" using exact by (simp_all add: exact_cache_def)
    moreover from this have "logits ?seq \<noteq> []" by auto
    ultimately have "ids_below vocab (first # ds)"
      using argmax_below [of "logits ?seq"] cs(3) by (simp add: first_def)
    moreover have "int (length ?seq + length (first # ds)) \<le> so_sequence_len E" using cs(2) block by simp
    ultimately obtain verified cache1 where fwd: "forward_pass K (first # ds) cache = Inr (verified, cache1)"
      and verified: "verified = map (\<lambda>i. logits (?seq @ take (Suc i) (first # ds))) [0..<Suc (length ds)]"
      and cache1: "holds cache1 (?seq @ first # ds)"
      using exact_cacheD(1) [OF exact less.prems(1), of "first # ds"] by (metis length_Cons list.discI)
    define m where "m = matched_loop verified ds 0"
    have m: "m \<le> length ds" using matched_loop_bound [of 0 verified ds] by (simp add: m_def)
    note greedy = accepted_greedy [OF verified first_def, folded m_def]
    let ?acc = "greedy_stream logits ?seq (Suc m)"
    define cache2 where "cache2 = tm_set_previous K (tm_set_position K cache1 (int (length ?seq) + int (Suc m))) ((first # ds) ! m)"
    have cache2: "holds cache2 (?seq @ ?acc)"
    proof -
      have "holds (tm_set_previous K (tm_set_position K cache1 (int (length ?seq + Suc m))) ((?seq @ first # ds) ! (length ?seq + Suc m - 1)))
          (take (length ?seq + Suc m) (?seq @ first # ds))"
        using m by (intro exact_cacheD(3) [OF exact cache1]) simp_all
      then show ?thesis
        using greedy(1) by (simp add: cache2_def nth_append add.assoc [symmetric] add.commute del: greedy_stream.simps)
    qed
    obtain go s1 where emitted: "emit_all E yield max_tokens ?acc s = (go, s1)" by fastforce
    have round: "spec_round K E D yield max_tokens pending last_logits cache s =
        Inr (Some (go, s1, int (argmax_row verified m), cache2))"
    proof -
      have same: "(case pending of None \<Rightarrow> int (argmax_slice last_logits) | Some t \<Rightarrow> t) = first"
        using less.prems(2) by (simp add: first_def)
      have "\<not> m < length ds \<longrightarrow> argmax_row verified (length ds) = argmax_row verified m"
        using m by auto
      moreover have "take (Suc m) (first # ds) = ?acc" by (rule greedy(1))
      ultimately show ?thesis
        using block(1) cs(1) fwd emitted
        by (simp add: spec_round_def position same Let_def m_def [symmetric] cache2_def
            del: emit_all.simps greedy_stream.simps take_Suc_Cons)
    qed
    have room: "Suc m \<le> nat ?room" using m cs(2) block by simp
    have stream: "greedy_stream logits ?seq (nat ?room) =
        ?acc @ greedy_stream logits (?seq @ ?acc) (nat (so_sequence_len E - int (length (?seq @ ?acc))))"
    proof -
      have "nat (so_sequence_len E - int (length (?seq @ ?acc))) = nat ?room - Suc m"
        by (simp only: length_append length_greedy)
      moreover have "nat ?room = Suc m + (nat ?room - Suc m)" using room by simp
      ultimately show ?thesis by (metis greedy_add)
    qed
    note facts = emit_all_facts [OF conjunct1 [OF True] emitted]
    show ?thesis
    proof (cases go)
      case False
      with facts True round stream show ?thesis by (subst spec_loop.simps) simp
    next
      case go: True
      have s1: "em_sequence s1 = ?seq @ ?acc" "em_emitted s1 = em_emitted s + int (Suc m)" "em_emitted s1 < max_tokens"
        using facts go by (simp_all del: greedy_stream.simps)
      have "spec_loop K E D yield max_tokens (Some (int (argmax_row verified m))) last_logits cache2 s1 =
          Some (Inr (deliver E yield (em_out s1) (take (nat (max_tokens - em_emitted s1))
            (greedy_stream logits (em_sequence s1) (nat (so_sequence_len E - int (length (em_sequence s1))))))))"
        using s1 cache2 greedy(2) by (intro less.hyps) simp_all
      with facts go True round stream s1(1) show ?thesis by (subst spec_loop.simps) (simp del: greedy_stream.simps)
    qed
  qed
qed

text \<open>
  C2. With a positive token limit and a prompt of ids that fits the context window, speculative decoding gives the consumer
  the tokens that greedy decoding with the target model chooses, one by one, without a panic and always coming to an end,
  whatever the drafter proposes and however confident it is. The stream stops at the token limit, at the end of the
  context window, when the consumer refuses, or at the first \<open>assistant_end\<close> or BOS token, which is itself not given to
  the consumer. The target model is asked to be exact only on passes that fit its cache.
\<close>
theorem speculative_is_greedy:
  assumes "exact_cache K (so_sequence_len E) vocab logits holds" "drafter_ok vocab D"
    "tokens \<noteq> []" "ids_below vocab tokens" "int (length tokens) \<le> so_sequence_len E" "0 < max_tokens"
  shows "speculative_generate K E D yield tokens max_tokens =
    Some (Inr (deliver E yield [] (take (nat max_tokens)
      (greedy_stream logits tokens (nat (so_sequence_len E - int (length tokens)))))))"
proof -
  have "holds (tm_new K (so_sequence_len E)) []" using assms(1) by (simp add: exact_cache_def)
  then obtain cache where
    fwd: "forward_pass K tokens (tm_new K (so_sequence_len E)) = Inr (map (\<lambda>i. logits (take (Suc i) tokens)) [0..<length tokens], cache)"
    and cache: "holds cache tokens"
    using exact_cacheD(1) [OF assms(1), of _ "[]" tokens] assms(3-5) by auto
  then show ?thesis
    using spec_loop_greedy [OF assms(1,2), where cache = cache and s = "\<lparr>em_sequence = tokens, em_emitted = 0, em_out = []\<rparr>"
        and pending = None and last_logits = "logits tokens" and yield = yield and max_tokens = max_tokens]
      assms(3) by (simp add: speculative_generate_def)
qed

text \<open>
  A target that counts: after a prefix it prefers the next number modulo 5. Its cache has slots for \<open>cap\<close> tokens, of which those
  before the position are live; taking the position back leaves the slots as they are, and a pass over the end panics.
\<close>

record slot_cache =
  sl_slots :: "int list"
  sl_position :: nat
  sl_previous :: int

definition counting_logits :: "int list \<Rightarrow> int list" where
  "counting_logits ts = map (\<lambda>i. if int i = (last ts + 1) mod 5 then 1 else 0) [0..<5]"

definition counting_model :: "(slot_cache, int) target_model" where
  "counting_model = \<lparr>tm_new = (\<lambda>cap. \<lparr>sl_slots = replicate (nat cap) 0, sl_position = 0, sl_previous = 0\<rparr>),
     tm_forward = (\<lambda>ids c.
       if sl_position c + length ids > length (sl_slots c) then None
       else (let live = take (sl_position c) (sl_slots c) in
         Some (map (\<lambda>i. counting_logits (live @ take (Suc i) ids)) [0..<length ids],
           \<lparr>sl_slots = live @ ids @ drop (sl_position c + length ids) (sl_slots c), sl_position = sl_position c + length ids,
            sl_previous = last ids\<rparr>))),
     tm_position = (\<lambda>c. int (sl_position c)), tm_set_position = (\<lambda>c n. c\<lparr>sl_position := nat n\<rparr>),
     tm_set_previous = (\<lambda>c t. c\<lparr>sl_previous := t\<rparr>)\<rparr>"

definition slots_hold :: "nat \<Rightarrow> slot_cache \<Rightarrow> int list \<Rightarrow> bool" where
  "slots_hold cap c ts \<longleftrightarrow> length (sl_slots c) = cap \<and> sl_position c = length ts \<and> length ts \<le> cap \<and>
     take (length ts) (sl_slots c) = ts \<and> (ts \<noteq> [] \<longrightarrow> sl_previous c = last ts)"

lemma counting_exact: "exact_cache counting_model (int cap) 5 counting_logits (slots_hold cap)"
proof -
  have "slots_hold cap (tm_set_previous counting_model (tm_set_position counting_model c (int n)) (ts ! (n - 1))) (take n ts)"
    if "slots_hold cap c ts" "0 < n" "n \<le> length ts" for c ts n
  proof -
    have "take n (sl_slots c) = take n (take (length ts) (sl_slots c))" using that(3) by simp
    then have "take n (sl_slots c) = take n ts" using that(1) by (simp only: slots_hold_def)
    moreover have "last (take n ts) = ts ! (n - 1)" using that(2,3) by (subst last_conv_nth) auto
    ultimately show ?thesis using that by (simp add: slots_hold_def counting_model_def)
  qed
  then show ?thesis
    by (auto simp: exact_cache_def counting_model_def slots_hold_def counting_logits_def Let_def)
qed

abbreviation "counting_options \<equiv> \<lparr>so_speculative = True, so_draft_length = 4, so_threshold = 0, so_sequence_len = 100,
  so_assistant_end = 4, so_bos = 9\<rparr>"

theorem speculative_is_greedy_witness:
  "speculative_generate counting_model counting_options (Drafter (\<lambda>ts n. take n [2, 2, 2])) (\<lambda>_. True) [0] 10 = Some (Inr [1, 2, 3])"
proof -
  have exact: "exact_cache counting_model (so_sequence_len counting_options) 5 counting_logits (slots_hold 100)"
    using counting_exact [of 100] by simp
  have D: "drafter_ok 5 (Drafter (\<lambda>ts n. take n [2, 2, 2]))"
    by (simp add: drafter_ok_def ids_below_take)
  have "deliver counting_options (\<lambda>_. True) [] (greedy_stream counting_logits [0] 10) = [1, 2, 3]"
    by code_simp
  then show ?thesis
    using speculative_is_greedy [OF exact D, of "[0]" 10 "\<lambda>_. True"] by (simp add: greedy_take)
qed

text \<open>
  Eligibility asks for no compression, and a model with latent attention has none: it is eligible, though the cache that
  \<open>speculativeGenerate\<close> makes is not one the latent attention layer accepts.
\<close>

lemma latent_model_eligible:
  "speculative_eligible True (Some D) (zero_config\<lparr>mla_latent := 64\<rparr>) 1 0"
  by (simp add: speculative_eligible_def compression_def zero_config_def)

text \<open>A prompt that a forward pass does not accept, such as one longer than the context window, panics.\<close>

lemma long_prompt_panics:
  assumes "tm_forward K tokens (tm_new K (so_sequence_len E)) = None" "tokens \<noteq> []"
  shows "speculative_generate K E D yield tokens max_tokens = Some (Inl Panic)"
  using assms by (simp add: speculative_generate_def forward_pass_def)

text \<open>With no token limit the engine goes on until a terminal token; speculation gives nothing.\<close>

lemma speculative_unlimited:
  assumes "tm_forward K tokens (tm_new K (so_sequence_len E)) = Some r" "max_tokens \<le> 0"
  shows "speculative_generate K E D yield tokens max_tokens = Some (Inr [])"
proof (cases "tokens = []")
  case False
  with assms show ?thesis
    by (cases r) (simp add: speculative_generate_def forward_pass_def, subst spec_loop.simps, simp)
qed (simp add: speculative_generate_def)

end
