(* ===== verification/Cache.thy ===== *)
theory Cache
  imports Lru "HOL-Library.Multiset"
begin

text \<open>
  src/inference/prefix.go and cache.go: the KV prefix caches of the inference engine.

  A KV state is a value of the type \<open>'kv\<close>; what the caches ask of \<open>model.KVBuffer\<close> is the record
  \<open>kv_ops\<close>. \<open>Clone\<close> makes a deep copy, so a stored state is a HOL value. \<open>crypto/sha256\<close> is the
  argument \<open>hash\<close>, the time read from the clock the argument \<open>now\<close>, and the order in which Go visits the
  map of entries the argument \<open>ord\<close>. The disk tier is a map from paths (directory and name) to file contents;
  the argument \<open>io\<close> says whether the operating system performs the call's file operation. Every method
  holds the mutex throughout. \<open>None\<close> from \<open>cache_store\<close> stands for an eviction loop that does not end.
\<close>

section \<open>The code\<close>

record 'kv kv_ops =
  kv_bytes :: "'kv \<Rightarrow> int"
  kv_compressed :: "'kv \<Rightarrow> bool"
  kv_strip :: "'kv \<Rightarrow> 'kv"
  kv_marshal :: "'kv \<Rightarrow> byte list option"
  kv_unmarshal :: "byte list \<Rightarrow> 'kv option"

text \<open>The comparison loop both caches have; the code has checked that \<open>tokens\<close> is the longer list.\<close>

fun tokens_match :: "int list \<Rightarrow> int list \<Rightarrow> bool" where
  "tokens_match [] tokens \<longleftrightarrow> True"
| "tokens_match (x # xs) [] \<longleftrightarrow> False"
| "tokens_match (x # xs) (y # ys) \<longleftrightarrow> x = y \<and> tokens_match xs ys"

subsection \<open>prefix.go\<close>

record 'kv prefix_cache =
  pc_max_prefix :: int
  pc_tokens :: "int list"
  pc_state :: "'kv option"

definition new_prefix_cache :: "int \<Rightarrow> 'kv prefix_cache" where
  "new_prefix_cache n = \<lparr>pc_max_prefix = n, pc_tokens = [], pc_state = None\<rparr>"

definition prefix_lookup :: "int list \<Rightarrow> 'kv prefix_cache \<Rightarrow> ('kv \<times> nat) option" where
  "prefix_lookup tokens c =
     (case pc_state c of
        None \<Rightarrow> None
      | Some s \<Rightarrow>
          if pc_max_prefix c > 0 \<and> int (length (pc_tokens c)) > pc_max_prefix c then None
          else if length (pc_tokens c) = 0 \<or> length (pc_tokens c) \<ge> length tokens then None
          else if \<not> tokens_match (pc_tokens c) tokens then None
          else Some (s, length (pc_tokens c)))"

definition prefix_store :: "int list \<Rightarrow> 'kv option \<Rightarrow> 'kv prefix_cache \<Rightarrow> 'kv prefix_cache" where
  "prefix_store tokens state c =
     (case state of None \<Rightarrow> c | Some s \<Rightarrow> c\<lparr>pc_tokens := tokens, pc_state := Some s\<rparr>)"

definition prefix_invalidate :: "'kv prefix_cache \<Rightarrow> 'kv prefix_cache" where
  "prefix_invalidate c = c\<lparr>pc_tokens := [], pc_state := None\<rparr>"

subsection \<open>cache.go\<close>

record cache_options =
  co_max_entries :: int
  co_max_bytes :: int
  co_ttl :: int
  co_disk_dir :: string
  co_strip_swa :: bool

type_synonym path = "string \<times> string"

record 'kv cache_entry =
  ce_tokens :: "int list"
  ce_state :: "'kv option"
  ce_disk :: "path option"
  ce_size :: int
  ce_stored_at :: int
  ce_used_at :: int

record 'kv cache =
  cm_options :: cache_options
  cm_entries :: "(string \<times> 'kv cache_entry) list"
  cm_order :: "string list"
  cm_bytes :: int
  cm_files :: "(path \<times> byte list) list"

definition effective_options :: "bool \<Rightarrow> cache_options \<Rightarrow> cache_options" where
  "effective_options mkdir_ok opts =
     (if co_disk_dir opts \<noteq> [] \<and> \<not> mkdir_ok then opts\<lparr>co_disk_dir := []\<rparr> else opts)"

definition new_cache :: "(path \<times> byte list) list \<Rightarrow> bool \<Rightarrow> cache_options \<Rightarrow> 'kv cache" where
  "new_cache files mkdir_ok opts =
     \<lparr>cm_options = effective_options mkdir_ok opts, cm_entries = [], cm_order = [], cm_bytes = 0, cm_files = files\<rparr>"

definition cache_key :: "(byte list \<Rightarrow> string) \<Rightarrow> int list \<Rightarrow> string" where
  "cache_key hash tokens = hash (concat (map (\<lambda>t. nat_le 4 (nat (t mod 2 ^ 32))) tokens))"

definition cache_touch :: "string \<Rightarrow> 'kv cache \<Rightarrow> 'kv cache" where
  "cache_touch k c = c\<lparr>cm_order := cut_key k (cm_order c) @ [k]\<rparr>"

definition cache_remove_entry :: "string \<Rightarrow> 'kv cache_entry \<Rightarrow> 'kv cache \<Rightarrow> 'kv cache" where
  "cache_remove_entry k e c =
     (let c = c\<lparr>cm_entries := AList.delete k (cm_entries c), cm_bytes := i64 (cm_bytes c - ce_size e)\<rparr>;
          c = (case ce_disk e of None \<Rightarrow> c | Some p \<Rightarrow> c\<lparr>cm_files := AList.delete p (cm_files c)\<rparr>)
      in c\<lparr>cm_order := cut_key k (cm_order c)\<rparr>)"

text \<open>The lookup of a key, followed by the removal of its entry.\<close>

definition cache_drop :: "string \<Rightarrow> 'kv cache \<Rightarrow> 'kv cache" where
  "cache_drop k c =
     (case map_of (cm_entries c) k of None \<Rightarrow> c | Some e \<Rightarrow> cache_remove_entry k e c)"

definition cache_oldest :: "'kv cache \<Rightarrow> string option" where
  "cache_oldest c = (case cm_order c of [] \<Rightarrow> None | k # ks \<Rightarrow> Some k)"

definition cache_evict_oldest :: "string \<Rightarrow> 'kv cache \<Rightarrow> 'kv cache" where
  "cache_evict_oldest k c = cache_drop k (c\<lparr>cm_order := tl (cm_order c)\<rparr>)"

definition over_entries :: "'kv cache \<Rightarrow> bool" where
  "over_entries c \<longleftrightarrow>
     co_max_entries (cm_options c) > 0 \<and> int (length (cm_entries c)) > co_max_entries (cm_options c)"

definition over_bytes :: "'kv cache \<Rightarrow> bool" where
  "over_bytes c \<longleftrightarrow> co_max_bytes (cm_options c) > 0 \<and> cm_bytes c > co_max_bytes (cm_options c)"

definition cache_evict :: "'kv cache \<Rightarrow> 'kv cache option" where
  "cache_evict c =
     Option.bind (evict_while over_entries cache_oldest cache_evict_oldest c)
       (evict_while over_bytes cache_oldest cache_evict_oldest)"

definition cache_expire :: "int \<Rightarrow> 'kv cache \<Rightarrow> 'kv cache" where
  "cache_expire now c =
     (if co_ttl (cm_options c) \<le> 0 then c
      else fold cache_drop
        (map fst (filter (\<lambda>(k, e). now - ce_stored_at e > co_ttl (cm_options c)) (cm_entries c))) c)"

fun best_prefix :: "int list \<Rightarrow> (string \<times> 'kv cache_entry) list \<Rightarrow> string \<times> nat \<Rightarrow> string \<times> nat" where
  "best_prefix tokens [] best = best"
| "best_prefix tokens ((k, e) # es) (best_key, best_length) =
     (if length (ce_tokens e) = 0 \<or> length (ce_tokens e) \<ge> length tokens \<or> length (ce_tokens e) \<le> best_length
      then best_prefix tokens es (best_key, best_length)
      else if tokens_match (ce_tokens e) tokens then best_prefix tokens es (k, length (ce_tokens e))
      else best_prefix tokens es (best_key, best_length))"

definition load_kv_file :: "'kv kv_ops \<Rightarrow> bool \<Rightarrow> path \<Rightarrow> 'kv cache \<Rightarrow> 'kv option" where
  "load_kv_file ops io p c =
     (if io then Option.bind (map_of (cm_files c) p) (kv_unmarshal ops) else None)"

definition cache_lookup ::
  "'kv kv_ops \<Rightarrow> ((string \<times> 'kv cache_entry) list \<Rightarrow> (string \<times> 'kv cache_entry) list) \<Rightarrow> bool \<Rightarrow> int \<Rightarrow>
    int list \<Rightarrow> 'kv cache \<Rightarrow> ('kv \<times> nat) option \<times> 'kv cache" where
  "cache_lookup ops ord io now tokens c =
     (let c = cache_expire now c;
          (best_key, best_length) = best_prefix tokens (ord (cm_entries c)) ([], 0) in
      if best_key = [] then (None, c)
      else
        (case map_of (cm_entries c) best_key of
           None \<Rightarrow> (None, c)
         | Some e \<Rightarrow>
             (let c = cache_touch best_key
                        (c\<lparr>cm_entries := AList.update best_key (e\<lparr>ce_used_at := now\<rparr>) (cm_entries c)\<rparr>) in
              case ce_state e of
                Some s \<Rightarrow> (Some (s, best_length), c)
              | None \<Rightarrow>
                  (case Option.bind (ce_disk e) (\<lambda>p. load_kv_file ops io p c) of
                     None \<Rightarrow> (None, cache_remove_entry best_key e c)
                   | Some s \<Rightarrow> (Some (s, best_length), c)))))"

text \<open>\<open>saveKVFile\<close>: the file is replaced at once (by a rename) or not at all.\<close>

definition save_kv_file :: "'kv kv_ops \<Rightarrow> bool \<Rightarrow> path \<Rightarrow> 'kv \<Rightarrow> 'kv cache \<Rightarrow> 'kv cache option" where
  "save_kv_file ops io p s c =
     (case kv_marshal ops s of None \<Rightarrow> None
      | Some data \<Rightarrow> if io then Some (c\<lparr>cm_files := AList.update p data (cm_files c)\<rparr>) else None)"

definition cache_add :: "string \<Rightarrow> 'kv cache_entry \<Rightarrow> 'kv cache \<Rightarrow> 'kv cache" where
  "cache_add k e c =
     c\<lparr>cm_entries := AList.update k e (cm_entries c), cm_order := cm_order c @ [k],
       cm_bytes := i64 (cm_bytes c + ce_size e)\<rparr>"

text \<open>What \<open>Store\<close> keeps of a state, and the cache with its entry, before eviction.\<close>

definition stored_form :: "'kv kv_ops \<Rightarrow> cache_options \<Rightarrow> 'kv \<Rightarrow> 'kv" where
  "stored_form ops opts s = (if co_strip_swa opts \<and> kv_compressed ops s then kv_strip ops s else s)"

definition cache_insert ::
  "'kv kv_ops \<Rightarrow> (byte list \<Rightarrow> string) \<Rightarrow> bool \<Rightarrow> int \<Rightarrow> int list \<Rightarrow> 'kv \<Rightarrow> 'kv cache \<Rightarrow> 'kv cache" where
  "cache_insert ops hash io now tokens s c =
     (let key = cache_key hash tokens;
          c = cache_drop key c;
          stored = stored_form ops (cm_options c) s;
          e = \<lparr>ce_tokens = tokens, ce_state = None, ce_disk = None, ce_size = kv_bytes ops stored,
               ce_stored_at = now, ce_used_at = now\<rparr> in
      if co_disk_dir (cm_options c) \<noteq> [] then
        (let p = (co_disk_dir (cm_options c), key @ ''.kv'') in
         case save_kv_file ops io p stored c of
           Some c \<Rightarrow> cache_add key (e\<lparr>ce_disk := Some p\<rparr>) c
         | None \<Rightarrow> cache_add key (e\<lparr>ce_state := Some stored\<rparr>) c)
      else cache_add key (e\<lparr>ce_state := Some stored\<rparr>) c)"

definition cache_store ::
  "'kv kv_ops \<Rightarrow> (byte list \<Rightarrow> string) \<Rightarrow> bool \<Rightarrow> int \<Rightarrow> int list \<Rightarrow> 'kv option \<Rightarrow> 'kv cache \<Rightarrow> 'kv cache option" where
  "cache_store ops hash io now tokens state c =
     (case state of None \<Rightarrow> Some c
      | Some s \<Rightarrow> cache_evict (cache_insert ops hash io now tokens s c))"

definition cache_invalidate :: "'kv cache \<Rightarrow> 'kv cache" where
  "cache_invalidate c =
     c\<lparr>cm_files := fold (\<lambda>(k, e) files. case ce_disk e of None \<Rightarrow> files | Some p \<Rightarrow> AList.delete p files)
                     (cm_entries c) (cm_files c),
       cm_entries := [], cm_order := [], cm_bytes := 0\<rparr>"

definition cache_len :: "'kv cache \<Rightarrow> nat" where
  "cache_len c = length (cm_entries c)"

section \<open>The cache manager is an LRU store\<close>

interpretation cache: lru_store cm_entries cm_order cm_bytes ce_size cache_touch cache_drop cache_add
  by unfold_locales
    (auto simp: cache_touch_def cache_drop_def cache_remove_entry_def cache_add_def Let_def split: option.split)

section \<open>The states a cache can reach\<close>

text \<open>
  Runs of a cache, with the last state stored for each token sequence since the last \<open>Invalidate\<close>.
\<close>

inductive cache_reach ::
  "'kv kv_ops \<Rightarrow> (byte list \<Rightarrow> string) \<Rightarrow> 'kv cache \<Rightarrow> 'kv cache \<Rightarrow> (int list \<rightharpoonup> 'kv) \<Rightarrow> bool"
  for ops hash c0 where
  start: "cache_reach ops hash c0 c0 Map.empty"
| stored: "cache_reach ops hash c0 c h \<Longrightarrow> cache_store ops hash io now tokens (Some s) c = Some c' \<Longrightarrow>
    cache_reach ops hash c0 c' (h(tokens \<mapsto> s))"
| looked_up: "cache_reach ops hash c0 c h \<Longrightarrow> set (ord (cm_entries (cache_expire now c))) = set (cm_entries (cache_expire now c)) \<Longrightarrow>
    cache_lookup ops ord io now tokens c = (r, c') \<Longrightarrow> cache_reach ops hash c0 c' h"
| invalidated: "cache_reach ops hash c0 c h \<Longrightarrow> cache_reach ops hash c0 (cache_invalidate c) Map.empty"

text \<open>An entry holds what was stored for its tokens, in memory or in the file of its key.\<close>

definition entry_sound ::
  "'kv kv_ops \<Rightarrow> (byte list \<Rightarrow> string) \<Rightarrow> cache_options \<Rightarrow> (path \<times> byte list) list \<Rightarrow> (int list \<rightharpoonup> 'kv) \<Rightarrow> string \<Rightarrow> 'kv cache_entry \<Rightarrow> bool" where
  "entry_sound ops hash opts files h k e \<longleftrightarrow>
     cache_key hash (ce_tokens e) = k \<and>
     (\<exists>s. h (ce_tokens e) = Some s \<and>
       (case ce_disk e of
          None \<Rightarrow> ce_state e = Some (stored_form ops opts s)
        | Some p \<Rightarrow> ce_state e = None \<and> p = (co_disk_dir opts, k @ ''.kv'') \<and>
            kv_marshal ops (stored_form ops opts s) \<noteq> None \<and> map_of files p = kv_marshal ops (stored_form ops opts s)))"

definition cache_inv ::
  "'kv kv_ops \<Rightarrow> (byte list \<Rightarrow> string) \<Rightarrow> cache_options \<Rightarrow> 'kv cache \<Rightarrow> (int list \<rightharpoonup> 'kv) \<Rightarrow> bool" where
  "cache_inv ops hash opts c h \<longleftrightarrow> cm_options c = opts \<and> cache.ok c \<and>
     (\<forall>k e. (k, e) \<in> set (cm_entries c) \<longrightarrow> entry_sound ops hash opts (cm_files c) h k e)"

lemma invD:
  assumes "cache_inv ops hash opts c h"
  shows "cm_options c = opts" "cache.ok c" "(k, e) \<in> set (cm_entries c) \<Longrightarrow> entry_sound ops hash opts (cm_files c) h k e"
  using assms by (simp_all add: cache_inv_def)

lemma entry_sound_cong:
  assumes "entry_sound ops hash opts files h k e"
    and "h' (ce_tokens e) = h (ce_tokens e)" "map_of files' (co_disk_dir opts, k @ ''.kv'') = map_of files (co_disk_dir opts, k @ ''.kv'')"
  shows "entry_sound ops hash opts files' h' k e"
  using assms unfolding entry_sound_def by (auto split: option.splits)

lemma entry_sound_used [simp]:
  "entry_sound ops hash opts files h k (e\<lparr>ce_used_at := t\<rparr>) = entry_sound ops hash opts files h k e"
  by (cases "ce_disk e") (simp_all add: entry_sound_def)

lemma cache_drop_simps [simp]:
  "cm_options (cache_drop k c) = cm_options c"
  "cm_files (cache_drop k c) = (case map_of (cm_entries c) k of None \<Rightarrow> cm_files c
     | Some e \<Rightarrow> (case ce_disk e of None \<Rightarrow> cm_files c | Some p \<Rightarrow> AList.delete p (cm_files c)))"
  by (simp_all add: cache_drop_def cache_remove_entry_def Let_def split: option.split)

lemma inv_drop:
  assumes "cache_inv ops hash opts c h" "map_of (cm_entries c) k = Some e0"
  shows "cache_inv ops hash opts (cache_drop k c) h" "cm_entries (cache_drop k c) = AList.delete k (cm_entries c)"
    "cm_order (cache_drop k c) = remove1 k (cm_order c)"
proof -
  have k: "k \<in> set (cm_order c)"
    using assms(2) cache.okD(2) [OF invD(2) [OF assms(1)]] by (force dest: map_of_SomeD)
  note drop = cache.ok_drop [OF invD(2) [OF assms(1)] k]
  show "cm_entries (cache_drop k c) = AList.delete k (cm_entries c)" "cm_order (cache_drop k c) = remove1 k (cm_order c)"
    by (rule drop(3), rule drop(2))
  have "entry_sound ops hash opts (cm_files (cache_drop k c)) h k' e"
    if "(k', e) \<in> set (cm_entries (cache_drop k c))" for k' e
  proof -
    have e: "(k', e) \<in> set (cm_entries c)" "k' \<noteq> k"
      using that drop(3) by (auto simp: AList.delete_eq)
    have "map_of (cm_files (cache_drop k c)) (co_disk_dir opts, k' @ ''.kv'') = map_of (cm_files c) (co_disk_dir opts, k' @ ''.kv'')"
      using invD(3) [OF assms(1) map_of_SomeD [OF assms(2)]] assms(2) e(2)
      by (auto simp: entry_sound_def split: option.split)
    with invD(3) [OF assms(1) e(1)] show ?thesis
      by (rule entry_sound_cong [OF _ refl])
  qed
  with drop(1) invD(1) [OF assms(1)] show "cache_inv ops hash opts (cache_drop k c) h"
    by (simp add: cache_inv_def)
qed

lemma inv_drop_any: "cache_inv ops hash opts c h \<Longrightarrow> cache_inv ops hash opts (cache_drop k c) h"
  by (cases "map_of (cm_entries c) k") (simp add: cache_drop_def, rule inv_drop(1))

lemma inv_drops: "cache_inv ops hash opts c h \<Longrightarrow> cache_inv ops hash opts (fold cache_drop ks c) h"
  by (induction ks arbitrary: c) (simp_all add: inv_drop_any)

lemma inv_expire: "cache_inv ops hash opts c h \<Longrightarrow> cache_inv ops hash opts (cache_expire now c) h"
  by (simp add: cache_expire_def inv_drops)

lemma inv_evict:
  assumes "cache_inv ops hash opts c h"
  shows "\<exists>c' n. cache_evict c = Some c' \<and> c' = fold cache_drop (take n (cm_order c)) c \<and> cache_inv ops hash opts c' h \<and>
    cm_order c' = drop n (cm_order c) \<and> \<not> over_entries c' \<and> \<not> over_bytes c' \<and>
    (\<forall>m < n. over_entries (fold cache_drop (take m (cm_order c)) c) \<or> over_bytes (fold cache_drop (take m (cm_order c)) c))"
proof -
  have loop: "\<exists>c' n. evict_while over cache_oldest cache_evict_oldest d = Some c' \<and> n \<le> length (cm_order d) \<and>
      c' = fold cache_drop (take n (cm_order d)) d \<and> cache_inv ops hash opts c' h \<and> cm_order c' = drop n (cm_order d) \<and>
      (\<forall>m < n. over (fold cache_drop (take m (cm_order d)) d)) \<and> (over c' \<longrightarrow> n = length (cm_order d))"
    if d: "cache_inv ops hash opts d h" for over d
  proof -
    have "cache_oldest t = find (\<lambda>_. True) (cm_order t)" for t :: "'a cache"
      by (simp add: cache_oldest_def split: list.split)
    moreover have "cache_evict_oldest k t = cache_drop k t" if ok: "cache.ok t" and "cache_oldest t = Some k" for k and t :: "'a cache"
    proof -
      obtain ks where ks: "cm_order t = k # ks"
        using \<open>cache_oldest t = Some k\<close> by (auto simp: cache_oldest_def split: list.splits)
      then obtain e where "map_of (cm_entries t) k = Some e"
        using cache.present [OF ok, of k] by auto
      then show ?thesis
        using ks cache.okD(1) [OF ok]
        by (simp add: cache_evict_oldest_def cache_drop_def cache_remove_entry_def Let_def remove1_idem split: option.split)
    qed
    ultimately have "\<exists>n \<le> length (cm_order d). \<exists>t. evict_while over cache_oldest cache_evict_oldest d = Some t \<and>
        t = fold cache_drop (take n (cm_order d)) d \<and> cache.ok t \<and> cm_order t = drop n (cm_order d) @ [] \<and>
        cm_entries t = fold AList.delete (take n (cm_order d)) (cm_entries d) \<and>
        (\<forall>m < n. over (fold cache_drop (take m (cm_order d)) d)) \<and> (over t \<longrightarrow> n = length (cm_order d))"
      by (intro cache.evict_ends [OF invD(2) [OF d], where P = "\<lambda>_. True"]) simp_all
    then show ?thesis
      using inv_drops [OF d] by (simp only: append_Nil2) blast
  qed
  have empty: "\<not> over_entries d" "\<not> over_bytes d" if "cache_inv ops hash opts d h" "cm_order d = []" for d
    using cache.okD(2,4) [OF invD(2) [OF that(1)]] that(2)
    by (simp_all add: over_entries_def over_bytes_def entry_sum_def i64_def)
  from loop [OF assms, of over_entries] obtain c1 n1 where c1: "evict_while over_entries cache_oldest cache_evict_oldest c = Some c1"
    "n1 \<le> length (cm_order c)" "c1 = fold cache_drop (take n1 (cm_order c)) c" "cache_inv ops hash opts c1 h"
    "cm_order c1 = drop n1 (cm_order c)" "\<forall>m < n1. over_entries (fold cache_drop (take m (cm_order c)) c)"
    "over_entries c1 \<longrightarrow> n1 = length (cm_order c)"
    by blast
  from loop [OF c1(4), of over_bytes] obtain c2 n2 where c2: "evict_while over_bytes cache_oldest cache_evict_oldest c1 = Some c2"
    "n2 \<le> length (cm_order c1)" "c2 = fold cache_drop (take n2 (cm_order c1)) c1" "cache_inv ops hash opts c2 h"
    "cm_order c2 = drop n2 (cm_order c1)" "\<forall>m < n2. over_bytes (fold cache_drop (take m (cm_order c1)) c1)"
    "over_bytes c2 \<longrightarrow> n2 = length (cm_order c1)"
    by blast
  have both: "fold cache_drop (take m (cm_order c1)) c1 = fold cache_drop (take (n1 + m) (cm_order c)) c" for m
    unfolding c1(5) by (simp add: c1(3) take_add)
  have e1: "\<not> over_entries c1"
    using c1(5,7) empty(1) [OF c1(4)] by auto
  have "length (cm_entries d) = length (cm_order d)" if "cache_inv ops hash opts d h" for d
    using cache.okD(1,2,3) [OF invD(2) [OF that]] by (metis distinct_card length_map set_map)
  then have "\<not> over_entries c2"
    using e1 c2(5) c1(4) c2(4) invD(1) [OF c1(4)] invD(1) [OF c2(4)] by (auto simp: over_entries_def)
  moreover have "\<not> over_bytes c2"
    using c2(5,7) empty(2) [OF c2(4)] by auto
  moreover have "over_entries (fold cache_drop (take m (cm_order c)) c) \<or> over_bytes (fold cache_drop (take m (cm_order c)) c)"
    if "m < n1 + n2" for m
  proof (cases "m < n1")
    case False
    with that have "m - n1 < n2" "n1 + (m - n1) = m" by simp_all
    with c2(6) both [of "m - n1"] show ?thesis by metis
  qed (use c1(6) in blast)
  ultimately show ?thesis
    using c1(1,5) c2(1,3,4,5) both [of n2]
    by (intro exI [of _ c2] exI [of _ "n1 + n2"]) (simp add: cache_evict_def add.commute)
qed

lemma inv_add:
  assumes "cache_inv ops hash opts c h" "k \<notin> set (cm_order c)" "entry_sound ops hash opts (cm_files c) h k e"
  shows "cache_inv ops hash opts (cache_add k e c) h"
proof -
  have "set (cm_entries (cache_add k e c)) \<subseteq> insert (k, e) (set (cm_entries c))"
    by (simp add: cache_add_def set_update_subset)
  moreover have "cm_files (cache_add k e c) = cm_files c" "cm_options (cache_add k e c) = cm_options c"
    by (simp_all add: cache_add_def)
  ultimately show ?thesis
    using assms cache.ok_add [OF invD(2) [OF assms(1)] assms(2), of e] by (fastforce simp: cache_inv_def)
qed

lemma inv_insert:
  assumes "cache_inv ops hash opts c h"
  shows "cache_inv ops hash opts (cache_insert ops hash io now tokens s c) (h(tokens \<mapsto> s))"
    "cm_order (cache_insert ops hash io now tokens s c) =
      removeAll (cache_key hash tokens) (cm_order c) @ [cache_key hash tokens]"
proof -
  let ?k = "cache_key hash tokens" let ?f = "stored_form ops opts s" let ?p = "(co_disk_dir opts, ?k @ ''.kv'')"
  define d where "d = cache_drop ?k c"
  note order = cache.okD(1,2) [OF invD(2) [OF assms]]
  have d: "cache_inv ops hash opts d h" "cm_order d = removeAll ?k (cm_order c)" "?k \<notin> fst ` set (cm_entries d)"
  proof -
    show "cache_inv ops hash opts d h"
      unfolding d_def by (rule inv_drop_any [OF assms])
    show "cm_order d = removeAll ?k (cm_order c)" "?k \<notin> fst ` set (cm_entries d)"
    proof (atomize (full), cases "map_of (cm_entries c) ?k")
      case None
      with order(2) show "cm_order d = removeAll ?k (cm_order c) \<and> ?k \<notin> fst ` set (cm_entries d)"
        unfolding d_def cache_drop_def None by (auto simp: map_of_eq_None_iff [symmetric] None)
    next
      case (Some e)
      with order(1) inv_drop(2,3) [OF assms Some] show "cm_order d = removeAll ?k (cm_order c) \<and> ?k \<notin> fst ` set (cm_entries d)"
        by (simp add: d_def distinct_remove1_removeAll delete_notin_dom)
    qed
  qed
  then have k: "?k \<notin> set (cm_order d)" by simp
  have h: "cache_inv ops hash opts d (h(tokens \<mapsto> s))"
  proof -
    have "entry_sound ops hash opts (cm_files d) (h(tokens \<mapsto> s)) k e" if "(k, e) \<in> set (cm_entries d)" for k e
    proof -
      have "k \<noteq> ?k" using that d(3) by force
      with invD(3) [OF d(1) that] have "ce_tokens e \<noteq> tokens"
        by (auto simp: entry_sound_def)
      then show ?thesis
        using invD(3) [OF d(1) that] by (simp add: entry_sound_def)
    qed
    with d(1) show ?thesis by (simp add: cache_inv_def)
  qed
  have opts: "cm_options d = opts" by (rule invD(1) [OF d(1)])
  let ?e = "\<lparr>ce_tokens = tokens, ce_state = None, ce_disk = None, ce_size = kv_bytes ops ?f, ce_stored_at = now, ce_used_at = now\<rparr>"
  have memory: "cache_inv ops hash opts (cache_add ?k (?e\<lparr>ce_state := Some ?f\<rparr>) d) (h(tokens \<mapsto> s))"
    by (rule inv_add [OF h k]) (simp add: entry_sound_def)
  have disk: "cache_inv ops hash opts (cache_add ?k (?e\<lparr>ce_disk := Some ?p\<rparr>) (d\<lparr>cm_files := AList.update ?p data (cm_files d)\<rparr>)) (h(tokens \<mapsto> s))"
    if data: "kv_marshal ops ?f = Some data" for data
  proof (intro inv_add)
    have "entry_sound ops hash opts (AList.update ?p data (cm_files d)) (h(tokens \<mapsto> s)) k e" if "(k, e) \<in> set (cm_entries d)" for k e
    proof (rule entry_sound_cong [OF invD(3) [OF h that]])
      have "k \<noteq> ?k" using that d(3) by force
      then show "map_of (AList.update ?p data (cm_files d)) (co_disk_dir opts, k @ ''.kv'') = map_of (cm_files d) (co_disk_dir opts, k @ ''.kv'')"
        by (simp add: update_conv')
    qed simp
    with h show "cache_inv ops hash opts (d\<lparr>cm_files := AList.update ?p data (cm_files d)\<rparr>) (h(tokens \<mapsto> s))"
      by (simp add: cache_inv_def cache.ok_def)
  qed (use k data in \<open>simp_all add: entry_sound_def update_conv'\<close>)
  have insert: "cache_insert ops hash io now tokens s c =
      (if co_disk_dir opts \<noteq> [] \<and> io then
         (case kv_marshal ops ?f of
            None \<Rightarrow> cache_add ?k (?e\<lparr>ce_state := Some ?f\<rparr>) d
          | Some data \<Rightarrow> cache_add ?k (?e\<lparr>ce_disk := Some ?p\<rparr>) (d\<lparr>cm_files := AList.update ?p data (cm_files d)\<rparr>))
       else cache_add ?k (?e\<lparr>ce_state := Some ?f\<rparr>) d)"
    by (auto simp: cache_insert_def Let_def save_kv_file_def opts d_def [symmetric] invD(1) [OF assms] split: option.split)
  show "cache_inv ops hash opts (cache_insert ops hash io now tokens s c) (h(tokens \<mapsto> s))"
    using memory disk unfolding insert by (auto split: option.split)
  show "cm_order (cache_insert ops hash io now tokens s c) = removeAll ?k (cm_order c) @ [?k]"
    unfolding insert by (simp add: cache_add_def d(2) split: option.split)
qed

lemma store_facts:
  assumes "cache_inv ops hash opts c h" and c1_def: "c1 = cache_insert ops hash io now tokens s c"
  shows "\<exists>c' n. cache_store ops hash io now tokens (Some s) c = Some c' \<and> cache_inv ops hash opts c' (h(tokens \<mapsto> s)) \<and>
    cm_order c1 = removeAll (cache_key hash tokens) (cm_order c) @ [cache_key hash tokens] \<and>
    c' = fold cache_drop (take n (cm_order c1)) c1 \<and> cm_order c' = drop n (cm_order c1) \<and>
    \<not> over_entries c' \<and> \<not> over_bytes c' \<and>
    (\<forall>m < n. over_entries (fold cache_drop (take m (cm_order c1)) c1) \<or> over_bytes (fold cache_drop (take m (cm_order c1)) c1))"
proof -
  note insert = inv_insert [OF assms(1), of io now tokens s, folded c1_def]
  have "cache_store ops hash io now tokens (Some s) c = cache_evict c1"
    by (simp add: cache_store_def c1_def)
  with inv_evict [OF insert(1)] insert(2) show ?thesis
    by (simp only: simp_thms) metis
qed

text \<open>The scan for the longest prefix.\<close>

lemma tokens_match_iff: "tokens_match xs ys \<longleftrightarrow> (\<exists>zs. ys = xs @ zs)"
  by (induction xs ys rule: tokens_match.induct) auto

definition candidate :: "int list \<Rightarrow> 'kv cache_entry \<Rightarrow> bool" where
  "candidate tokens e \<longleftrightarrow> ce_tokens e \<noteq> [] \<and> (\<exists>zs. zs \<noteq> [] \<and> tokens = ce_tokens e @ zs)"

lemma candidate_iff:
  "candidate tokens e \<longleftrightarrow>
    length (ce_tokens e) \<noteq> 0 \<and> length (ce_tokens e) < length tokens \<and> tokens_match (ce_tokens e) tokens"
  by (auto simp: candidate_def tokens_match_iff)

lemma best_prefix_facts:
  assumes "best_prefix tokens es (bk, bl) = (k, n)"
  shows "bl \<le> n \<and> (\<forall>(j, e) \<in> set es. candidate tokens e \<longrightarrow> length (ce_tokens e) \<le> n) \<and>
    (k = bk \<and> n = bl \<or> (\<exists>e. (k, e) \<in> set es \<and> candidate tokens e \<and> n = length (ce_tokens e)))"
  using assms
proof (induction es arbitrary: bk bl)
  case (Cons p es)
  obtain j e where p: "p = (j, e)" by force
  show ?case
  proof (cases "candidate tokens e \<and> bl < length (ce_tokens e)")
    case True
    with Cons.prems p have "best_prefix tokens es (j, length (ce_tokens e)) = (k, n)"
      by (simp add: candidate_iff split: if_splits)
    from Cons.IH [OF this] True p show ?thesis by auto
  next
    case False
    then have "\<not> candidate tokens e \<or> length (ce_tokens e) \<le> bl" by auto
    moreover from False Cons.prems p have "best_prefix tokens es (bk, bl) = (k, n)"
      by (auto simp: candidate_iff split: if_splits)
    note Cons.IH [OF this]
    ultimately show ?thesis
      using p by auto
  qed
qed simp

lemma inv_hit:
  assumes "cache_inv ops hash opts c h" "(k, e) \<in> set (cm_entries c)"
    and c'_def: "c' = cache_touch k (c\<lparr>cm_entries := AList.update k (e\<lparr>ce_used_at := now\<rparr>) (cm_entries c)\<rparr>)"
  shows "cache_inv ops hash opts c' h" "map_of (cm_entries c') k = Some (e\<lparr>ce_used_at := now\<rparr>)"
    "cm_files c' = cm_files c" "map_of (cm_entries c) k = Some e"
proof -
  let ?e = "e\<lparr>ce_used_at := now\<rparr>"
  let ?es = "AList.update k ?e (cm_entries c)"
  note ok = cache.okD [OF invD(2) [OF assms(1)]]
  show lookup: "map_of (cm_entries c) k = Some e"
    using ok(3) assms(2) by simp
  have k: "k \<in> set (cm_order c)"
    using assms(2) ok(2) by force
  have keys: "map fst ?es = map fst (cm_entries c)"
    using assms(2) by (force simp: update_keys)
  have same: "map (ce_size \<circ> snd) (AList.update k ?e es) = map (ce_size \<circ> snd) es" if "map_of es k = Some e" for es
    using that by (induction es) (auto split: if_splits)
  have sets: "fst ` set ?es = fst ` set (cm_entries c)"
    using arg_cong [OF keys, of set] by simp
  have "cache.ok (c\<lparr>cm_entries := ?es\<rparr>)"
    using ok keys sets same [OF lookup] by (simp add: cache.ok_def lru_ok_def entry_sum_def)
  from cache.ok_touch [OF this, of k] k have ok': "cache.ok c'"
    by (simp add: c'_def)
  have "entry_sound ops hash opts (cm_files c) h j f" if "(j, f) \<in> set ?es" for j f
  proof -
    from that set_update_subset have "(j, f) = (k, ?e) \<or> (j, f) \<in> set (cm_entries c)"
      by fastforce
    then show ?thesis
    proof
      assume "(j, f) = (k, ?e)"
      with invD(3) [OF assms(1,2)] show ?thesis by simp
    qed (rule invD(3) [OF assms(1)])
  qed
  with ok' invD(1) [OF assms(1)] show "cache_inv ops hash opts c' h"
    by (simp add: cache_inv_def c'_def cache_touch_def)
  show "map_of (cm_entries c') k = Some ?e" "cm_files c' = cm_files c"
    by (simp_all add: c'_def cache_touch_def update_conv')
qed

lemma lookup_facts:
  assumes "cache_inv ops hash opts c h" "\<And>bs. hash bs \<noteq> []"
    and "set (ord (cm_entries (cache_expire now c))) = set (cm_entries (cache_expire now c))"
    and "cache_lookup ops ord io now tokens c = (r, c')"
  shows "cache_inv ops hash opts c' h"
    and "case r of
      Some (s', n) \<Rightarrow> 0 < n \<and> n < length tokens \<and>
        (\<exists>s. h (take n tokens) = Some s \<and>
          (s' = stored_form ops opts s \<or> Option.bind (kv_marshal ops (stored_form ops opts s)) (kv_unmarshal ops) = Some s')) \<and>
        (\<forall>(k, e) \<in> set (cm_entries (cache_expire now c)). candidate tokens e \<longrightarrow> length (ce_tokens e) \<le> n)
    | None \<Rightarrow> (\<forall>(k, e) \<in> set (cm_entries (cache_expire now c)). \<not> candidate tokens e) \<or>
        (\<exists>k e s. (k, e) \<in> set (cm_entries (cache_expire now c)) \<and> ce_disk e \<noteq> None \<and> candidate tokens e \<and> h (ce_tokens e) = Some s \<and>
          (io \<longrightarrow> Option.bind (kv_marshal ops (stored_form ops opts s)) (kv_unmarshal ops) = None))"
proof -
  define d where "d = cache_expire now c"
  have d: "cache_inv ops hash opts d h"
    unfolding d_def by (rule inv_expire [OF assms(1)])
  obtain k n where best: "best_prefix tokens (ord (cm_entries d)) ([], 0) = (k, n)" by force
  note scan = best_prefix_facts [OF best, unfolded assms(3) [folded d_def]]
  have "cache_inv ops hash opts c' h \<and> (case r of
      Some (s', n) \<Rightarrow> 0 < n \<and> n < length tokens \<and>
        (\<exists>s. h (take n tokens) = Some s \<and>
          (s' = stored_form ops opts s \<or> Option.bind (kv_marshal ops (stored_form ops opts s)) (kv_unmarshal ops) = Some s')) \<and>
        (\<forall>(k, e) \<in> set (cm_entries d). candidate tokens e \<longrightarrow> length (ce_tokens e) \<le> n)
    | None \<Rightarrow> (\<forall>(k, e) \<in> set (cm_entries d). \<not> candidate tokens e) \<or>
        (\<exists>k e s. (k, e) \<in> set (cm_entries d) \<and> ce_disk e \<noteq> None \<and> candidate tokens e \<and> h (ce_tokens e) = Some s \<and>
          (io \<longrightarrow> Option.bind (kv_marshal ops (stored_form ops opts s)) (kv_unmarshal ops) = None)))"
  proof (cases "k = []")
    case True
    then have "\<nexists>e. (k, e) \<in> set (cm_entries d)"
      using invD(3) [OF d] assms(2) by (fastforce simp: entry_sound_def cache_key_def)
    with scan have "n = 0" by auto
    with scan have none: "\<forall>(k, e) \<in> set (cm_entries d). \<not> candidate tokens e"
      by (auto simp: candidate_def)
    have "r = None" "c' = d"
      using assms(4) True best by (simp_all add: cache_lookup_def d_def Let_def)
    with none d show ?thesis by simp
  next
    case False
    with scan obtain e where e: "(k, e) \<in> set (cm_entries d)" "candidate tokens e" "n = length (ce_tokens e)"
      by auto
    define d' where "d' = cache_touch k (d\<lparr>cm_entries := AList.update k (e\<lparr>ce_used_at := now\<rparr>) (cm_entries d)\<rparr>)"
    note hit = inv_hit [OF d e(1) d'_def]
    obtain s where s: "cache_key hash (ce_tokens e) = k" "h (ce_tokens e) = Some s"
      and place: "case ce_disk e of None \<Rightarrow> ce_state e = Some (stored_form ops opts s)
        | Some p \<Rightarrow> ce_state e = None \<and> kv_marshal ops (stored_form ops opts s) \<noteq> None \<and>
            map_of (cm_files d) p = kv_marshal ops (stored_form ops opts s)"
      using invD(3) [OF d e(1)] by (auto simp: entry_sound_def split: option.splits)
    have bounds: "0 < n" "n < length tokens" "take n tokens = ce_tokens e"
      using e(2,3) by (auto simp: candidate_def)
    have run: "(case ce_state e of Some s \<Rightarrow> (Some (s, n), d')
        | None \<Rightarrow> (case Option.bind (ce_disk e) (\<lambda>p. load_kv_file ops io p d') of
            None \<Rightarrow> (None, cache_remove_entry k e d') | Some s \<Rightarrow> (Some (s, n), d'))) = (r, c')"
      using assms(4) False best hit(4) unfolding cache_lookup_def Let_def d_def [symmetric] d'_def
      by simp
    have removed: "cache_inv ops hash opts (cache_remove_entry k e d') h"
    proof -
      have "cache_remove_entry k e d' = cache_drop k d'"
        using hit(2) by (simp add: cache_drop_def cache_remove_entry_def)
      then show ?thesis using inv_drop_any [OF hit(1)] by simp
    qed
    let ?reread = "Option.bind (kv_marshal ops (stored_form ops opts s)) (kv_unmarshal ops)"
    have "r = None \<and> c' = cache_remove_entry k e d' \<and> ce_disk e \<noteq> None \<and> (io \<longrightarrow> ?reread = None) \<or>
        c' = d' \<and> (\<exists>s'. r = Some (s', n) \<and> (s' = stored_form ops opts s \<or> ?reread = Some s'))"
      using run place hit(3) by (cases "ce_disk e"; cases io) (auto simp: load_kv_file_def split: option.splits)
    then consider (gone) "r = None" "c' = cache_remove_entry k e d'" "ce_disk e \<noteq> None" "io \<longrightarrow> ?reread = None"
      | (found) s' where "c' = d'" "r = Some (s', n)" "s' = stored_form ops opts s \<or> ?reread = Some s'"
      by blast
    then show ?thesis
    proof cases
      case gone
      then show ?thesis
        unfolding gone(1) option.case using removed e(1,2) s(2) by blast
    next
      case found
      with hit(1) bounds s(2) scan show ?thesis by simp
    qed
  qed
  then show "cache_inv ops hash opts c' h"
    and "case r of
      Some (s', n) \<Rightarrow> 0 < n \<and> n < length tokens \<and>
        (\<exists>s. h (take n tokens) = Some s \<and>
          (s' = stored_form ops opts s \<or> Option.bind (kv_marshal ops (stored_form ops opts s)) (kv_unmarshal ops) = Some s')) \<and>
        (\<forall>(k, e) \<in> set (cm_entries (cache_expire now c)). candidate tokens e \<longrightarrow> length (ce_tokens e) \<le> n)
    | None \<Rightarrow> (\<forall>(k, e) \<in> set (cm_entries (cache_expire now c)). \<not> candidate tokens e) \<or>
        (\<exists>k e s. (k, e) \<in> set (cm_entries (cache_expire now c)) \<and> ce_disk e \<noteq> None \<and> candidate tokens e \<and> h (ce_tokens e) = Some s \<and>
          (io \<longrightarrow> Option.bind (kv_marshal ops (stored_form ops opts s)) (kv_unmarshal ops) = None))"
    unfolding d_def by (rule conjunct1, rule conjunct2)
qed

lemma inv_invalidate: "cache_inv ops hash opts c h \<Longrightarrow> cache_inv ops hash opts (cache_invalidate c) Map.empty"
  by (simp add: cache_inv_def cache_invalidate_def cache.ok_def lru_ok_def entry_sum_def i64_def)

lemma inv_new:
  "cache_inv ops hash (effective_options ok opts) (new_cache files ok opts) Map.empty"
  by (simp add: cache_inv_def new_cache_def cache.ok_def lru_ok_def entry_sum_def i64_def)

lemma reach_inv_cache:
  assumes "cache_reach ops hash (new_cache files ok opts) c h" "\<And>bs. hash bs \<noteq> []"
  shows "cache_inv ops hash (effective_options ok opts) c h"
  using assms(1)
proof (induction rule: cache_reach.induct)
  case start
  show ?case by (rule inv_new)
next
  case (stored c h io now tokens s c')
  from store_facts [OF stored.IH refl, of io now tokens s] obtain c2 where
    "cache_store ops hash io now tokens (Some s) c = Some c2"
    "cache_inv ops hash (effective_options ok opts) c2 (h(tokens \<mapsto> s))"
    by blast
  with stored.hyps(2) show ?case by (simp del: fun_upd_apply fun_upd_def)
next
  case (looked_up c h ord now io tokens r c')
  then show ?case
    using lookup_facts(1) [OF looked_up.IH assms(2)] by blast
next
  case (invalidated c h)
  then show ?case by (blast intro: inv_invalidate)
qed

text \<open>The single-entry cache.\<close>

inductive prefix_reach :: "'kv prefix_cache \<Rightarrow> 'kv prefix_cache \<Rightarrow> (int list \<times> 'kv) option \<Rightarrow> bool" for c0 where
  "prefix_reach c0 c0 None"
| "prefix_reach c0 c h \<Longrightarrow> prefix_reach c0 (prefix_store tokens (Some s) c) (Some (tokens, s))"
| "prefix_reach c0 c h \<Longrightarrow> prefix_reach c0 (prefix_store tokens None c) h"
| "prefix_reach c0 c h \<Longrightarrow> prefix_reach c0 (prefix_invalidate c) None"

text \<open>States that are byte counts, for the examples.\<close>

definition byte_ops :: "nat kv_ops" where
  "byte_ops = \<lparr>kv_bytes = int, kv_compressed = (\<lambda>s. s > 100), kv_strip = (\<lambda>s. s - 50),
     kv_marshal = (\<lambda>s. Some (nat_le 4 s)), kv_unmarshal = (\<lambda>bs. if length bs = 4 then Some (le_nat bs) else None)\<rparr>"

definition example_hash :: "byte list \<Rightarrow> string" where
  "example_hash bs = CHR ''h'' # map (\<lambda>b. char_of (unat b)) bs"

definition example_cache :: "nat cache" where
  "example_cache = new_cache [] True
     \<lparr>co_max_entries = 2, co_max_bytes = 200, co_ttl = 0, co_disk_dir = ''kv'', co_strip_swa = True\<rparr>"

lemma store_case: "(case x of Some c \<Rightarrow> P c | None \<Rightarrow> False) \<Longrightarrow> \<exists>c. x = Some c \<and> P c"
  by (cases x) auto

section \<open>Properties\<close>

text \<open>
  A cache hit is never wrong: whatever was stored, evicted, expired or invalidated before, a state
  that Lookup returns with length n is (up to stripping and the round trip through its file) the one
  last stored for exactly the first n tokens of the request; n is positive, leaves a token to prefill
  and is the longest such prefix in the cache. A miss means that no entry qualifies, or that the
  snapshot of one could not be read back from disk.
\<close>

theorem cache_lookup_sound:
  assumes "cache_reach ops hash (new_cache files ok opts) c h" "\<And>bs. hash bs \<noteq> []"
    and "set (ord (cm_entries (cache_expire now c))) = set (cm_entries (cache_expire now c))"
    and "cache_lookup ops ord io now tokens c = (r, c')"
  shows "case r of
      Some (s', n) \<Rightarrow> 0 < n \<and> n < length tokens \<and>
        (\<exists>s. h (take n tokens) = Some s \<and>
          (s' = stored_form ops (effective_options ok opts) s \<or> Option.bind (kv_marshal ops (stored_form ops (effective_options ok opts) s)) (kv_unmarshal ops) = Some s')) \<and>
        (\<forall>(k, e) \<in> set (cm_entries (cache_expire now c)). candidate tokens e \<longrightarrow> length (ce_tokens e) \<le> n)
    | None \<Rightarrow> (\<forall>(k, e) \<in> set (cm_entries (cache_expire now c)). \<not> candidate tokens e) \<or>
        (\<exists>k e s. (k, e) \<in> set (cm_entries (cache_expire now c)) \<and> ce_disk e \<noteq> None \<and> candidate tokens e \<and> h (ce_tokens e) = Some s \<and>
          (io \<longrightarrow> Option.bind (kv_marshal ops (stored_form ops (effective_options ok opts) s)) (kv_unmarshal ops) = None))"
  by (rule lookup_facts(2) [OF reach_inv_cache [OF assms(1,2)] assms(2-4)])

theorem cache_lookup_sound_witness:
  "\<exists>c c'. cache_store byte_ops example_hash True 0 [7, 8] (Some 120) example_cache = Some c \<and>
    cache_lookup byte_ops rev True 5 [7, 8, 9] c = (Some (70, 2), c') \<and> [7, 8] = take 2 [7, 8, 9 :: int]"
proof -
  have "case cache_store byte_ops example_hash True 0 [7, 8] (Some 120) example_cache of
      Some c \<Rightarrow> fst (cache_lookup byte_ops rev True 5 [7, 8, 9] c) = Some (70, 2) | None \<Rightarrow> False"
    by code_simp
  from store_case [OF this] obtain c c' where c: "cache_store byte_ops example_hash True 0 [7, 8] (Some 120) example_cache = Some c"
    "cache_lookup byte_ops rev True 5 [7, 8, 9] c = (Some (70, 2), c')"
    by (metis prod.collapse)
  have "0 < (2 :: nat) \<and> 2 < length [7, 8, 9 :: int] \<and> [[7, 8] \<mapsto> 120 :: nat] (take 2 [7, 8, 9 :: int]) \<noteq> None"
    using cache_lookup_sound [OF cache_reach.stored [OF cache_reach.start c(1) [unfolded example_cache_def]] _ _ c(2)]
    by (auto simp: example_hash_def)
  with c show ?thesis by (auto split: if_splits)
qed

text \<open>
  After any run, Store returns; it puts the sequence's entry at the recent end and then drops the
  least recently used entries, as few as the limits on count and bytes allow: before each eviction a
  limit was exceeded, after the last one both hold.
\<close>

theorem cache_store_evicts:
  assumes "cache_reach ops hash (new_cache files ok opts) c h" "\<And>bs. hash bs \<noteq> []"
    and "c1 = cache_insert ops hash io now tokens s c"
  shows "\<exists>c' n. cache_store ops hash io now tokens (Some s) c = Some c' \<and>
    cm_order c1 = removeAll (cache_key hash tokens) (cm_order c) @ [cache_key hash tokens] \<and>
    c' = fold cache_drop (take n (cm_order c1)) c1 \<and> cm_order c' = drop n (cm_order c1) \<and>
    \<not> over_entries c' \<and> \<not> over_bytes c' \<and>
    (\<forall>m < n. over_entries (fold cache_drop (take m (cm_order c1)) c1) \<or> over_bytes (fold cache_drop (take m (cm_order c1)) c1))"
  using store_facts [OF reach_inv_cache [OF assms(1,2)] assms(3)] by blast

theorem cache_store_evicts_witness:
  "\<exists>c'. cache_store byte_ops example_hash True 0 [7, 8] (Some 300) example_cache = Some c' \<and> \<not> over_bytes c'"
  using cache_store_evicts [OF cache_reach.start [of byte_ops example_hash "example_cache", unfolded example_cache_def] _ refl,
      of True 0 "[7, 8]" 300]
  by (auto simp: example_cache_def example_hash_def)

text \<open>
  In every state a run leads to, the map of entries, the recency list and the byte count agree.
\<close>

theorem cache_invariant:
  assumes "cache_reach ops hash (new_cache files ok opts) c h" "\<And>bs. hash bs \<noteq> []"
  shows "lru_ok ce_size (cm_entries c) (cm_order c) (cm_bytes c)"
  using invD(2) [OF reach_inv_cache [OF assms]] by (simp add: cache.ok_def)

theorem cache_invariant_witness:
  "lru_ok ce_size (cm_entries example_cache) (cm_order example_cache) (cm_bytes example_cache)"
  using cache_invariant [OF cache_reach.start [of byte_ops example_hash "example_cache", unfolded example_cache_def]]
  by (simp add: example_cache_def example_hash_def)

text \<open>
  The single-entry cache: a hit returns the state of the last Store since the last Invalidate, and
  its whole token sequence is a nonempty strict prefix of the request no longer than the bound; there
  is a hit whenever this is the case.
\<close>

theorem prefix_lookup_iff:
  assumes "prefix_reach (new_prefix_cache bound) c h"
  shows "prefix_lookup tokens c = Some (s, n) \<longleftrightarrow>
    (\<exists>stored rest. h = Some (stored, s) \<and> n = length stored \<and> stored \<noteq> [] \<and> rest \<noteq> [] \<and> tokens = stored @ rest \<and>
      \<not> (bound > 0 \<and> int n > bound))"
proof -
  have inv: "pc_max_prefix c = bound \<and> (case h of None \<Rightarrow> pc_state c = None
      | Some (stored, s) \<Rightarrow> pc_tokens c = stored \<and> pc_state c = Some s)"
    using assms
  proof (induction rule: prefix_reach.induct)
    case (3 c h tokens)
    have same: "prefix_store tokens None c = c"
      by (simp add: prefix_store_def)
    show ?case unfolding same by (rule 3(2))
  qed (simp_all add: new_prefix_cache_def prefix_store_def prefix_invalidate_def)
  then show ?thesis
    by (auto simp: prefix_lookup_def tokens_match_iff split: option.splits)
qed

theorem prefix_lookup_iff_witness:
  "prefix_lookup [1, 2, 3] (prefix_store [1, 2] (Some (5 :: nat)) (new_prefix_cache 0)) = Some (5, 2)"
proof -
  have "prefix_reach (new_prefix_cache 0) (prefix_store [1, 2] (Some (5 :: nat)) (new_prefix_cache 0)) (Some ([1, 2], 5))"
    by (rule prefix_reach.intros(2) [OF prefix_reach.intros(1)])
  from prefix_lookup_iff [OF this, of "[1, 2, 3]" 5 2] show ?thesis by simp
qed

end
