(* ===== verification/Go_Slices.thy ===== *)
theory Go_Slices
  imports Go_Base
begin

text \<open>
  Slices of slices and the loops over them, for the components that fill buffers in place.

  \<open>ofold\<close> is a \<open>for\<close> loop over a state, stopped by the first fault. \<open>copy_into off src dst\<close> is
  \<open>copy(dst[off:], src)\<close>, \<open>prefix_of n xs\<close> is \<open>xs[:n]\<close>, \<open>elem_at xs i\<close> is \<open>xs[i]\<close>,
  \<open>slice_of i j xs\<close> is \<open>xs[i:j]\<close>, \<open>suffix_of i xs\<close> is \<open>xs[i:]\<close>, \<open>cell xss l i\<close> is \<open>xss[l][i]\<close> and \<open>update_cell\<close> an
  assignment to it; each panics out of range. The slices here have no capacity beyond their length.
\<close>

section \<open>Loops\<close>

primrec ofold :: "('b \<Rightarrow> 's \<Rightarrow> ('e, 's) outcome) \<Rightarrow> 'b list \<Rightarrow> 's \<Rightarrow> ('e, 's) outcome" where
  "ofold f [] s = Inr s"
| "ofold f (x # xs) s = obind (f x s) (ofold f xs)"

primrec omap :: "('b \<Rightarrow> ('e, 'a) outcome) \<Rightarrow> 'b list \<Rightarrow> ('e, 'a list) outcome" where
  "omap f [] = Inr []"
| "omap f (x # xs) = obind (f x) (\<lambda>y. obind (omap f xs) (\<lambda>ys. Inr (y # ys)))"

lemma ofold_append: "ofold f (xs @ ys) s = obind (ofold f xs s) (ofold f ys)"
  by (induction xs arbitrary: s) (simp_all add: obind_def split: sum.split)

lemma ofold_concat: "ofold f (concat xss) s = ofold (ofold f) xss s"
  by (induction xss arbitrary: s) (simp_all add: ofold_append obind_def split: sum.split)

lemma ofold_map: "ofold f (map g xs) s = ofold (\<lambda>x. f (g x)) xs s"
  by (induction xs arbitrary: s) (simp_all add: obind_def split: sum.split)

lemma ofold_cong [fundef_cong]:
  assumes "xs = ys" "s = t" "\<And>x s. x \<in> set ys \<Longrightarrow> f x s = g x s"
  shows "ofold f xs s = ofold g ys t"
proof -
  have "ofold f ys t = ofold g ys t"
    using assms(3) by (induction ys arbitrary: t) (simp_all add: obind_def split: sum.split)
  with assms(1,2) show ?thesis by simp
qed

text \<open>The rule for loops: an invariant over the part of the range that is done.\<close>

lemma ofold_rule:
  assumes "I [] s" and "\<And>done x rest s. xs = done @ x # rest \<Longrightarrow> I done s \<Longrightarrow> \<exists>s'. f x s = Inr s' \<and> I (done @ [x]) s'"
  shows "\<exists>s'. ofold f xs s = Inr s' \<and> I xs s'"
proof -
  have "\<exists>s'. ofold f ys s = Inr s' \<and> I ys s'" if "xs = ys @ zs" for ys zs
    using that
  proof (induction ys arbitrary: zs rule: rev_induct)
    case (snoc y ys)
    from snoc.IH [of "y # zs"] snoc.prems obtain s1 where s1: "ofold f ys s = Inr s1" "I ys s1" by auto
    from assms(2) [of ys y zs s1] snoc.prems s1(2) obtain s2 where "f y s1 = Inr s2" "I (ys @ [y]) s2" by auto
    with s1(1) show ?case by (simp add: ofold_append)
  qed (simp add: assms(1))
  then show ?thesis by simp
qed

lemma ofold_inv:
  assumes "P s" "\<And>x s. x \<in> set xs \<Longrightarrow> P s \<Longrightarrow> \<exists>s'. f x s = Inr s' \<and> P s'"
  shows "\<exists>s'. ofold f xs s = Inr s' \<and> P s'"
  using ofold_rule [of "\<lambda>_. P" s xs f] assms by auto

lemma ofold_keeps:
  assumes "ofold f xs s = Inr s'" "P s" "\<And>x s s'. x \<in> set xs \<Longrightarrow> f x s = Inr s' \<Longrightarrow> P s \<Longrightarrow> P s'"
  shows "P s'"
  using assms by (induction xs arbitrary: s) (auto simp: obind_eq_Inr)

lemma omap_Inr: "omap f xs = Inr ys \<longleftrightarrow> list_all2 (\<lambda>x y. f x = Inr y) xs ys"
  by (induction xs arbitrary: ys) (auto simp: obind_eq_Inr list_all2_Cons1)

lemma omap_map: "(\<And>x. x \<in> set xs \<Longrightarrow> f x = Inr (g x)) \<Longrightarrow> omap f xs = Inr (map g xs)"
  by (induction xs) simp_all

lemma omap_replicate: "f x = Inr y \<Longrightarrow> omap f (replicate n x) = Inr (replicate n y)"
  by (induction n) simp_all

section \<open>Slices\<close>

definition prefix_of :: "int \<Rightarrow> 'a list \<Rightarrow> ('e, 'a list) outcome" where
  "prefix_of n xs = panic_if (n < 0 \<or> n > int (length xs)) (Inr (take (nat n) xs))"

definition copy_into :: "int \<Rightarrow> 'a list \<Rightarrow> 'a list \<Rightarrow> ('e, 'a list) outcome" where
  "copy_into off src dst =
     panic_if (off < 0 \<or> off > int (length dst))
       (Inr (take (nat off) dst @ take (length dst - nat off) src @ drop (nat off + length src) dst))"

definition elem_at :: "'a list \<Rightarrow> nat \<Rightarrow> ('e, 'a) outcome" where
  "elem_at xs i = panic_if (i \<ge> length xs) (Inr (xs ! i))"

definition slice_of :: "nat \<Rightarrow> nat \<Rightarrow> 'a list \<Rightarrow> ('e, 'a list) outcome" where
  "slice_of i j xs = panic_if (j < i \<or> length xs < j) (Inr (take (j - i) (drop i xs)))"

definition suffix_of :: "nat \<Rightarrow> 'a list \<Rightarrow> ('e, 'a list) outcome" where
  "suffix_of i xs = panic_if (length xs < i) (Inr (drop i xs))"

lemma slices_ok [simp]:
  "i < length xs \<Longrightarrow> elem_at xs i = Inr (xs ! i)" "i \<le> j \<Longrightarrow> j \<le> length xs \<Longrightarrow> slice_of i j xs = Inr (take (j - i) (drop i xs))"
  "i \<le> length xs \<Longrightarrow> suffix_of i xs = Inr (drop i xs)"
  by (simp_all add: elem_at_def slice_of_def suffix_of_def)

lemma slices_Inr:
  "elem_at xs i = Inr x \<longleftrightarrow> i < length xs \<and> x = xs ! i"
  "slice_of i j xs = Inr ys \<longleftrightarrow> i \<le> j \<and> j \<le> length xs \<and> ys = take (j - i) (drop i xs)"
  by (auto simp: elem_at_def slice_of_def guard_eq_Inr)

definition cell :: "'a list list \<Rightarrow> nat \<Rightarrow> nat \<Rightarrow> ('e, 'a) outcome" where
  "cell xss l i = panic_if (l \<ge> length xss \<or> i \<ge> length (xss ! l)) (Inr (xss ! l ! i))"

definition put_cell :: "nat \<Rightarrow> nat \<Rightarrow> 'a \<Rightarrow> 'a list list \<Rightarrow> 'a list list" where
  "put_cell l i x xss = xss[l := (xss ! l)[i := x]]"

definition update_cell :: "nat \<Rightarrow> nat \<Rightarrow> ('a \<Rightarrow> ('e, 'a) outcome) \<Rightarrow> 'a list list \<Rightarrow> ('e, 'a list list) outcome" where
  "update_cell l i f xss = obind (cell xss l i) (\<lambda>x. obind (f x) (\<lambda>y. Inr (put_cell l i y xss)))"

lemma prefix_of_ok [simp]: "0 \<le> n \<Longrightarrow> n \<le> int (length xs) \<Longrightarrow> prefix_of n xs = Inr (take (nat n) xs)"
  by (simp add: prefix_of_def)

lemma prefix_of_Inr: "prefix_of n xs = Inr ys \<longleftrightarrow> 0 \<le> n \<and> n \<le> int (length xs) \<and> ys = take (nat n) xs"
  by (auto simp: prefix_of_def guard_eq_Inr)

lemma copy_into_length: "copy_into off src dst = Inr ys \<Longrightarrow> length ys = length dst"
  by (auto simp: copy_into_def guard_eq_Inr)

lemma copy_into_fits:
  assumes "0 \<le> off" "nat off + length src \<le> length dst"
  shows "copy_into off src dst = Inr (take (nat off) dst @ src @ drop (nat off + length src) dst)"
proof -
  have "off \<le> int (length dst)" using assms by linarith
  with assms show ?thesis by (simp add: copy_into_def)
qed

lemma copy_into_prefix:
  assumes "0 \<le> off" "nat off + length src \<le> length dst" "copy_into off src dst = Inr ys"
  shows "take (nat off + length src) ys = take (nat off) dst @ src"
    "n \<le> nat off \<Longrightarrow> take n ys = take n dst"
    "nat off + length src \<le> n \<Longrightarrow> drop n ys = drop n dst"
  using assms by (auto simp: copy_into_fits)

text \<open>Slices of the same shape: as many rows, each as long as before.\<close>

definition same_shape :: "'a list list \<Rightarrow> 'b list list \<Rightarrow> bool" where
  "same_shape xss yss \<longleftrightarrow> map length xss = map length yss"

lemma same_shape_refl [simp]: "same_shape xss xss"
  by (simp add: same_shape_def)

lemma same_shapeD:
  assumes "same_shape xss yss"
  shows "length xss = length yss" "l < length yss \<Longrightarrow> length (xss ! l) = length (yss ! l)"
  using assms by (auto simp: same_shape_def list_eq_iff_nth_eq dest: arg_cong [of _ _ length])

lemma cell_ok [simp]: "l < length xss \<Longrightarrow> i < length (xss ! l) \<Longrightarrow> cell xss l i = Inr (xss ! l ! i)"
  by (simp add: cell_def)

lemma cell_Inr: "cell xss l i = Inr x \<longleftrightarrow> l < length xss \<and> i < length (xss ! l) \<and> x = xss ! l ! i"
  by (auto simp: cell_def guard_eq_Inr)

lemma put_cell_simps [simp]:
  "length (put_cell l i x xss) = length xss"
  "length (put_cell l i x xss ! k) = length (xss ! k)"
  by (simp add: put_cell_def) (cases "k = l \<and> l < length xss", auto simp: put_cell_def list_update_beyond)

lemma put_cell_nth:
  "l < length xss \<Longrightarrow> i < length (xss ! l) \<Longrightarrow>
    put_cell l i x xss ! k ! j = (if k = l \<and> j = i then x else xss ! k ! j)"
  by (simp add: put_cell_def nth_list_update)

lemma put_cell_shape [simp]: "same_shape (put_cell l i x xss) xss"
  by (simp add: same_shape_def list_eq_iff_nth_eq)

lemma put_cell_same [simp]: "put_cell l i (xss ! l ! i) xss = xss"
  by (simp add: put_cell_def)

lemma update_cell_Inr:
  "update_cell l i f xss = Inr yss \<longleftrightarrow>
    l < length xss \<and> i < length (xss ! l) \<and> (\<exists>y. f (xss ! l ! i) = Inr y \<and> yss = put_cell l i y xss)"
  by (auto simp: update_cell_def outcome_Inr cell_Inr)

lemma update_cell_shape: "update_cell l i f xss = Inr yss \<Longrightarrow> same_shape yss xss"
  by (auto simp: update_cell_Inr)

text \<open>A predicate of every cell.\<close>

definition all_cells :: "('a \<Rightarrow> bool) \<Rightarrow> 'a list list \<Rightarrow> bool" where
  "all_cells P xss \<longleftrightarrow> (\<forall>xs \<in> set xss. \<forall>x \<in> set xs. P x)"

lemma all_cells_nth: "all_cells P xss \<Longrightarrow> l < length xss \<Longrightarrow> i < length (xss ! l) \<Longrightarrow> P (xss ! l ! i)"
  by (simp add: all_cells_def) (meson nth_mem)

lemma all_cells_iff: "all_cells P xss \<longleftrightarrow> (\<forall>l < length xss. \<forall>i < length (xss ! l). P (xss ! l ! i))"
  by (auto simp: all_cells_def Ball_set_list_all list_all_length)

lemma all_cells_put:
  assumes "all_cells P xss" "P x"
  shows "all_cells P (put_cell l i x xss)"
proof (cases "l < length xss \<and> i < length (xss ! l)")
  case True
  with assms show ?thesis by (simp add: all_cells_iff put_cell_nth)
next
  case False
  then have "put_cell l i x xss = xss" by (auto simp: put_cell_def list_update_beyond)
  with assms show ?thesis by simp
qed

text \<open>
  A loop that assigns to distinct cells, each from its old content only: every cell listed gets its new
  content, the others keep theirs.
\<close>

lemma ofold_update_cells:
  assumes "distinct ps" "\<And>l i. (l, i) \<in> set ps \<Longrightarrow> l < length xss \<and> i < length (xss ! l) \<and> f l i (xss ! l ! i) = Inr (g l i)"
  shows "\<exists>yss. ofold (\<lambda>(l, i). update_cell l i (f l i)) ps xss = Inr yss \<and>
      (same_shape yss xss \<and> (\<forall>l < length xss. \<forall>i < length (xss ! l). yss ! l ! i = (if (l, i) \<in> set ps then g l i else xss ! l ! i)))"
proof (rule ofold_rule [where I = "\<lambda>qs yss. same_shape yss xss \<and>
      (\<forall>l < length xss. \<forall>i < length (xss ! l). yss ! l ! i = (if (l, i) \<in> set qs then g l i else xss ! l ! i))"])
  fix qs p rest yss
  assume ps: "ps = qs @ p # rest" and I: "same_shape yss xss \<and>
    (\<forall>l < length xss. \<forall>i < length (xss ! l). yss ! l ! i = (if (l, i) \<in> set qs then g l i else xss ! l ! i))"
  obtain l i where p: "p = (l, i)" by (cases p)
  have li: "l < length xss" "i < length (xss ! l)" "f l i (xss ! l ! i) = Inr (g l i)"
    using assms(2) [of l i] ps p by auto
  have new: "(l, i) \<notin> set qs" using assms(1) ps p by auto
  have old: "l < length yss" "i < length (yss ! l)" "yss ! l ! i = xss ! l ! i"
    using I li new by (auto dest: same_shapeD)
  have "update_cell l i (f l i) yss = Inr (put_cell l i (g l i) yss)"
    using old li by (simp add: update_cell_def)
  moreover have "same_shape (put_cell l i (g l i) yss) xss"
    using I put_cell_shape [of l i "g l i" yss] by (simp add: same_shape_def)
  ultimately show "\<exists>s'. (case p of (l, i) \<Rightarrow> update_cell l i (f l i)) yss = Inr s' \<and> (same_shape s' xss \<and>
    (\<forall>l < length xss. \<forall>i < length (xss ! l). s' ! l ! i = (if (l, i) \<in> set (qs @ [p]) then g l i else xss ! l ! i)))"
    using I old p by (auto simp: put_cell_nth)
qed simp



lemma ofold_fold: "(\<And>x s. x \<in> set xs \<Longrightarrow> f x s = Inr (g x s)) \<Longrightarrow> ofold f xs s = Inr (fold g xs s)"
  by (induction xs arbitrary: s) simp_all

text \<open>Row \<open>i\<close> of flat data of that many columns.\<close>

definition row_of :: "nat \<Rightarrow> nat \<Rightarrow> 'a list \<Rightarrow> 'a list" where
  "row_of width i xs = take width (drop (i * width) xs)"

lemma row_of_nth:
  assumes "(i + 1) * width \<le> length xs" "j < width"
  shows "row_of width i xs ! j = xs ! (i * width + j)"
proof -
  have "i * width + width \<le> length xs" using assms(1) by (simp add: algebra_simps)
  then show ?thesis using assms(2) by (simp add: row_of_def)
qed

lemma row_of_length [simp]: "(i + 1) * width \<le> length xs \<Longrightarrow> length (row_of width i xs) = width"
  by (simp add: row_of_def algebra_simps)

lemma returns_ofold: "(\<And>x s. x \<in> set xs \<Longrightarrow> returns (f x s)) \<Longrightarrow> returns (ofold f xs s)"
  by (induction xs arbitrary: s) (auto intro!: returns_intros)

lemma returns_omap: "(\<And>x. x \<in> set xs \<Longrightarrow> returns (f x)) \<Longrightarrow> returns (omap f xs)"
  by (induction xs) (auto intro!: returns_intros)

end
