(* ===== verification/Go_Float.thy ===== *)
theory Go_Float
  imports Go_Slices
begin

text \<open>
  float32 values and the tensors of src/tensors/tensor.go.

  A \<open>float32\<close> is the word of its 32 bits (IEEE 754 binary32: sign, exponent, fraction). Go's comparisons are written
  out on the bits: a NaN compares with nothing, and the two zeros are equal. Arithmetic rounds; what code computes
  with is a record of operations, of which nothing is assumed.
\<close>

section \<open>Values\<close>

type_synonym f32 = "32 word"

definition f32_nan :: "f32 \<Rightarrow> bool" where
  "f32_nan x \<longleftrightarrow> 0x7F800000 < uint (take_bit 31 x)"

definition f32_key :: "f32 \<Rightarrow> int" where
  "f32_key x = (if bit x 31 then - uint (take_bit 31 x) else uint (take_bit 31 x))"

definition f32_gt :: "f32 \<Rightarrow> f32 \<Rightarrow> bool" where
  "f32_gt x y \<longleftrightarrow> \<not> f32_nan x \<and> \<not> f32_nan y \<and> f32_key x > f32_key y"

definition f32_eq :: "f32 \<Rightarrow> f32 \<Rightarrow> bool" where
  "f32_eq x y \<longleftrightarrow> \<not> f32_nan x \<and> \<not> f32_nan y \<and> f32_key x = f32_key y"

definition neg_inf :: f32 where
  "neg_inf = 0xFF800000"

definition no_nan :: "f32 list \<Rightarrow> bool" where
  "no_nan xs \<longleftrightarrow> (\<forall>x \<in> set xs. \<not> f32_nan x)"

lemma no_nan_simps [simp]:
  "no_nan []" "no_nan (x # xs) \<longleftrightarrow> \<not> f32_nan x \<and> no_nan xs" "no_nan (xs @ ys) \<longleftrightarrow> no_nan xs \<and> no_nan ys"
  by (auto simp: no_nan_def)

lemma no_nan_nth: "no_nan xs \<Longrightarrow> i < length xs \<Longrightarrow> \<not> f32_nan (xs ! i)"
  by (simp add: no_nan_def)

lemma no_nan_take: "no_nan xs \<Longrightarrow> no_nan (take n xs)"
  by (auto simp: no_nan_def dest: in_set_takeD)

lemma no_nan_drop: "no_nan xs \<Longrightarrow> no_nan (drop n xs)"
  by (auto simp: no_nan_def dest: in_set_dropD)

lemma f32_compare:
  "\<not> f32_nan x \<Longrightarrow> \<not> f32_nan y \<Longrightarrow> f32_gt x y \<longleftrightarrow> f32_key y < f32_key x"
  "\<not> f32_nan x \<Longrightarrow> \<not> f32_nan y \<Longrightarrow> f32_eq x y \<longleftrightarrow> f32_key x = f32_key y"
  by (simp_all add: f32_gt_def f32_eq_def)

lemma neg_inf_least:
  assumes "\<not> f32_nan x"
  shows "f32_key neg_inf \<le> f32_key x" "\<not> f32_nan neg_inf"
proof -
  have inf: "uint (take_bit 31 neg_inf) = 0x7F800000" "bit neg_inf 31"
    unfolding neg_inf_def by code_simp+
  moreover have "uint (take_bit 31 x) \<le> 0x7F800000"
    using assms by (simp add: f32_nan_def)
  moreover have "- 0x7F800000 \<le> uint (take_bit 31 x)" by (rule order_trans [OF _ uint_ge_0]) simp
  ultimately show "f32_key neg_inf \<le> f32_key x" "\<not> f32_nan neg_inf"
    by (simp_all add: f32_key_def f32_nan_def)
qed

definition f32_neg :: "f32 \<Rightarrow> f32" where
  "f32_neg x = x XOR 0x80000000"

text \<open>The arithmetic: \<open>acc + x * y\<close> may be rounded once or twice, as the compiler chooses.\<close>

record float_ops =
  fo_add :: "f32 \<Rightarrow> f32 \<Rightarrow> f32"
  fo_mul :: "f32 \<Rightarrow> f32 \<Rightarrow> f32"
  fo_div :: "f32 \<Rightarrow> f32 \<Rightarrow> f32"
  fo_muladd :: "f32 \<Rightarrow> f32 \<Rightarrow> f32 \<Rightarrow> f32"

text \<open>Operations for examples: those of the machine words.\<close>

definition example_ops :: float_ops where
  "example_ops = \<lparr>fo_add = \<lambda>x y. x + y, fo_mul = \<lambda>x y. x * y, fo_div = \<lambda>x y. x div y, fo_muladd = \<lambda>acc x y. acc + x * y\<rparr>"

section \<open>Tensors\<close>

record tensor =
  ts_shape :: "nat list"
  ts_data :: "f32 list"

text \<open>\<open>tensors.New\<close> panics on an empty shape and on an empty dimension.\<close>

definition new_tensor :: "nat list \<Rightarrow> ('e, tensor) outcome" where
  "new_tensor shape = panic_if (shape = [] \<or> 0 \<in> set shape) (Inr \<lparr>ts_shape = shape, ts_data = replicate (prod_list shape) 0\<rparr>)"

text \<open>\<open>tensors.NewWithData\<close> also panics when the data does not fill the shape.\<close>

definition with_data :: "nat list \<Rightarrow> f32 list \<Rightarrow> ('e, tensor) outcome" where
  "with_data shape d = panic_if (shape = [] \<or> 0 \<in> set shape \<or> length d \<noteq> prod_list shape) (Inr \<lparr>ts_shape = shape, ts_data = d\<rparr>)"

definition numel :: "tensor \<Rightarrow> nat" where
  "numel t = length (ts_data t)"

definition reshape :: "nat list \<Rightarrow> tensor \<Rightarrow> ('e, tensor) outcome" where
  "reshape shape t = panic_if (0 \<in> set shape \<or> prod_list shape \<noteq> numel t) (Inr (t\<lparr>ts_shape := shape\<rparr>))"

text \<open>\<open>shape[i]\<close>.\<close>

definition shape_dim :: "nat \<Rightarrow> tensor \<Rightarrow> ('e, nat) outcome" where
  "shape_dim i t = panic_if (i \<ge> length (ts_shape t)) (Inr (ts_shape t ! i))"

end
