(* ===== verification/Kv_Buffer.thy ===== *)
theory Kv_Buffer
  imports Go_Float
begin

text \<open>
  src/model/kvcache.go: the key/value cache of a model, and the compression tail that compress_attention.go keeps
  in it.

  Nothing here computes with a \<open>float32\<close>, so it is its 32 bits. Sizes and indices the code takes from a checked
  configuration are \<open>nat\<close>; positions and counts are \<open>int\<close>. The buffers of a layer are indexed by row or by
  row * heads + head, as in the code; a nil slice is the empty list, and the buffers have at least one layer,
  row and head. A buffer owns its slices: what a method returns is a copy of what the Go slice shows then.
\<close>

section \<open>Tensors\<close>

text \<open>The errors of the package's codec; the buffer's own methods only panic.\<close>

datatype kv_error = ErrInvalidKVCache | ErrUnexpectedEOF

definition copy_data :: "int \<Rightarrow> f32 list \<Rightarrow> tensor \<Rightarrow> (kv_error, tensor) outcome" where
  "copy_data off src t = obind (copy_into off src (ts_data t)) (\<lambda>d. Inr (t\<lparr>ts_data := d\<rparr>))"

definition data_prefix :: "int \<Rightarrow> tensor \<Rightarrow> (kv_error, f32 list) outcome" where
  "data_prefix n t = prefix_of n (ts_data t)"

section \<open>The buffer\<close>

record kv_buffer =
  kb_batch :: nat
  kb_max_len :: nat
  kb_layers :: nat
  kb_heads :: nat
  kb_head_dim :: nat
  kb_key :: "tensor list list"
  kb_value :: "tensor list list"
  kb_length :: int
  kb_previous :: "tensor option"
  kb_ratio :: nat
  kb_max_blocks :: nat
  kb_embedding :: nat
  kb_kv_width :: nat
  kb_tail_hidden :: "f32 list list list"
  kb_tail_key :: "f32 list list list"
  kb_tail_value :: "f32 list list list"
  kb_tail_length :: "int list list"
  kb_comp_key :: "tensor list list"
  kb_comp_value :: "tensor list list"
  kb_comp_count :: "int list list"
  kb_index_width :: nat
  kb_index_key :: "tensor list list"
  kb_latent_width :: nat
  kb_rope_width :: nat
  kb_latent :: "tensor list list"
  kb_rope :: "tensor list list"
  kb_stripped :: bool

text \<open>A grid of fresh tensors: for each layer \<open>n\<close> of one shape, none where the layer is not selected.\<close>

definition layer_tensors :: "nat \<Rightarrow> nat list \<Rightarrow> (kv_error, tensor list) outcome" where
  "layer_tensors n shape = omap (\<lambda>_. new_tensor shape) [0..<n]"

definition selected :: "bool list option \<Rightarrow> nat \<Rightarrow> (kv_error, bool) outcome" where
  "selected allocate layer =
     (case allocate of None \<Rightarrow> Inr True | Some flags \<Rightarrow> panic_if (layer \<ge> length flags) (Inr (flags ! layer)))"

definition per_layer :: "bool list option \<Rightarrow> nat \<Rightarrow> (kv_error, 'a list) outcome \<Rightarrow> (kv_error, 'a list list) outcome" where
  "per_layer allocate layers fresh =
     omap (\<lambda>layer. obind (selected allocate layer) (\<lambda>s. if s then fresh else Inr [])) [0..<layers]"

definition new_kv_buffer :: "nat \<Rightarrow> nat \<Rightarrow> nat \<Rightarrow> nat \<Rightarrow> nat \<Rightarrow> (kv_error, kv_buffer) outcome" where
  "new_kv_buffer batch max_len layers heads head_dim =
     obind (per_layer None layers (layer_tensors (batch * heads) [max_len, head_dim])) (\<lambda>keys.
     obind (per_layer None layers (layer_tensors (batch * heads) [max_len, head_dim])) (\<lambda>values.
       Inr \<lparr>kb_batch = batch, kb_max_len = max_len, kb_layers = layers, kb_heads = heads, kb_head_dim = head_dim,
            kb_key = keys, kb_value = values, kb_length = 0, kb_previous = None,
            kb_ratio = 0, kb_max_blocks = 0, kb_embedding = 0, kb_kv_width = 0,
            kb_tail_hidden = [], kb_tail_key = [], kb_tail_value = [], kb_tail_length = [],
            kb_comp_key = [], kb_comp_value = [], kb_comp_count = [],
            kb_index_width = 0, kb_index_key = [], kb_latent_width = 0, kb_rope_width = 0,
            kb_latent = [], kb_rope = [], kb_stripped = False\<rparr>))"

section \<open>Position and embedding\<close>

definition kv_position :: "kv_buffer \<Rightarrow> int" where
  "kv_position c = kb_length c"

definition kv_advance :: "int \<Rightarrow> kv_buffer \<Rightarrow> kv_buffer" where
  "kv_advance n c = c\<lparr>kb_length := i32 (kb_length c + i32 n)\<rparr>"

definition kv_set_position :: "int \<Rightarrow> kv_buffer \<Rightarrow> (kv_error, kv_buffer) outcome" where
  "kv_set_position p c = panic_if (p < 0 \<or> p > int (kb_max_len c)) (Inr (c\<lparr>kb_length := i32 p\<rparr>))"

definition kv_reset :: "kv_buffer \<Rightarrow> kv_buffer" where
  "kv_reset c = c\<lparr>kb_length := 0, kb_previous := None\<rparr>"

definition kv_set_previous :: "tensor option \<Rightarrow> kv_buffer \<Rightarrow> kv_buffer" where
  "kv_set_previous e c = c\<lparr>kb_previous := e\<rparr>"

section \<open>Keys and values\<close>

definition head_index :: "kv_buffer \<Rightarrow> nat \<Rightarrow> nat \<Rightarrow> nat" where
  "head_index c row head = row * kb_heads c + head"

text \<open>Both buffers get their copy; the answer is what attention may read: the prefix with the new rows.\<close>

definition write_key_value ::
  "nat \<Rightarrow> nat \<Rightarrow> nat \<Rightarrow> f32 list \<Rightarrow> f32 list \<Rightarrow> kv_buffer \<Rightarrow> (kv_error, (f32 list \<times> f32 list) \<times> kv_buffer) outcome" where
  "write_key_value layer row head new_key new_value c =
     panic_if (kb_head_dim c = 0)
       (let i = head_index c row head;
            position = kb_length c;
            token_count = int (length new_key div kb_head_dim c);
            off = position * int (kb_head_dim c);
            end_at = (position + token_count) * int (kb_head_dim c)
        in obind (update_cell layer i (copy_data off new_key) (kb_key c)) (\<lambda>keys.
           obind (update_cell layer i (copy_data off new_value) (kb_value c)) (\<lambda>values.
           obind (data_prefix end_at (keys ! layer ! i)) (\<lambda>full_key.
           obind (data_prefix end_at (values ! layer ! i)) (\<lambda>full_value.
             Inr ((full_key, full_value), c\<lparr>kb_key := keys, kb_value := values\<rparr>))))))"

section \<open>Compression\<close>

definition enable_compression_layers ::
  "nat \<Rightarrow> nat \<Rightarrow> nat \<Rightarrow> nat \<Rightarrow> bool list option \<Rightarrow> kv_buffer \<Rightarrow> (kv_error, kv_buffer) outcome" where
  "enable_compression_layers ratio embedding kv_width max_blocks allocate c =
     panic_if (kb_heads c = 0)
       (let head_dim = kv_width div kb_heads c; n = kb_batch c * kb_heads c; layers = kb_layers c in
        obind (per_layer allocate layers (Inr (replicate (kb_batch c) (replicate (ratio * embedding) 0)))) (\<lambda>hidden.
        obind (per_layer allocate layers (Inr (replicate n (replicate (ratio * head_dim) 0)))) (\<lambda>tails.
        obind (per_layer allocate layers (layer_tensors n [max_blocks, head_dim])) (\<lambda>blocks.
          Inr (c\<lparr>kb_ratio := ratio, kb_max_blocks := max_blocks, kb_embedding := embedding, kb_kv_width := kv_width,
                 kb_tail_hidden := hidden, kb_tail_key := tails, kb_tail_value := tails,
                 kb_tail_length := replicate layers (replicate (kb_batch c) 0),
                 kb_comp_key := blocks, kb_comp_value := blocks,
                 kb_comp_count := replicate layers (replicate (kb_batch c) 0)\<rparr>)))))"

definition enable_indexer_keys_layers :: "nat \<Rightarrow> bool list option \<Rightarrow> kv_buffer \<Rightarrow> (kv_error, kv_buffer) outcome" where
  "enable_indexer_keys_layers width allocate c =
     obind (per_layer allocate (kb_layers c) (layer_tensors (kb_batch c * kb_heads c) [kb_max_blocks c, width])) (\<lambda>keys.
       Inr (c\<lparr>kb_index_width := width, kb_index_key := keys\<rparr>))"

definition compression_enabled :: "kv_buffer \<Rightarrow> bool" where
  "compression_enabled c \<longleftrightarrow> kb_ratio c > 1"

definition append_indexer_key :: "nat \<Rightarrow> nat \<Rightarrow> nat \<Rightarrow> f32 list \<Rightarrow> kv_buffer \<Rightarrow> (kv_error, kv_buffer) outcome" where
  "append_indexer_key layer row head key c =
     (if kb_index_key c = [] then Inr c
      else panic_if (layer \<ge> length (kb_index_key c))
        (if kb_index_key c ! layer = [] then Inr c
         else obind (cell (kb_comp_count c) layer row) (\<lambda>count.
           obind (update_cell layer (head_index c row head) (copy_data (count * int (kb_index_width c)) key) (kb_index_key c)) (\<lambda>keys.
             Inr (c\<lparr>kb_index_key := keys\<rparr>)))))"

definition indexer_key :: "nat \<Rightarrow> nat \<Rightarrow> nat \<Rightarrow> int \<Rightarrow> kv_buffer \<Rightarrow> (kv_error, f32 list) outcome" where
  "indexer_key layer row head count c =
     (if kb_index_key c = [] then Inr []
      else panic_if (layer \<ge> length (kb_index_key c))
        (if kb_index_key c ! layer = [] then Inr []
         else obind (cell (kb_index_key c) layer (head_index c row head)) (data_prefix (count * int (kb_index_width c)))))"

definition tail_key :: "nat \<Rightarrow> nat \<Rightarrow> kv_buffer \<Rightarrow> (kv_error, f32 list) outcome" where
  "tail_key layer i c = cell (kb_tail_key c) layer i"

definition tail_value :: "nat \<Rightarrow> nat \<Rightarrow> kv_buffer \<Rightarrow> (kv_error, f32 list) outcome" where
  "tail_value layer i c = cell (kb_tail_value c) layer i"

definition tail_hidden :: "nat \<Rightarrow> nat \<Rightarrow> kv_buffer \<Rightarrow> (kv_error, f32 list) outcome" where
  "tail_hidden layer row c = cell (kb_tail_hidden c) layer row"

definition tail_length :: "nat \<Rightarrow> nat \<Rightarrow> kv_buffer \<Rightarrow> (kv_error, int) outcome" where
  "tail_length layer row c = cell (kb_tail_length c) layer row"

text \<open>\<open>xs[i*w:(i+1)*w]\<close>.\<close>

definition row_slice :: "nat \<Rightarrow> nat \<Rightarrow> f32 list \<Rightarrow> (kv_error, f32 list) outcome" where
  "row_slice w i xs = obind (prefix_of (int ((i + 1) * w)) xs) (\<lambda>ys. Inr (drop (i * w) ys))"

definition append_tail_row ::
  "nat \<Rightarrow> nat \<Rightarrow> f32 list \<Rightarrow> f32 list \<Rightarrow> f32 list \<Rightarrow> kv_buffer \<Rightarrow> (kv_error, kv_buffer) outcome" where
  "append_tail_row layer row hidden key value c =
     obind (cell (kb_tail_length c) layer row) (\<lambda>position.
     panic_if (kb_heads c = 0)
       (let head_dim = kb_kv_width c div kb_heads c;
            put = (\<lambda>xs head. \<lambda>tails. obind (row_slice head_dim head xs) (\<lambda>new.
                     update_cell layer (head_index c row head) (copy_into (position * int head_dim) new) tails))
        in obind (update_cell layer row (copy_into (position * int (kb_embedding c)) hidden) (kb_tail_hidden c)) (\<lambda>hiddens.
           obind (ofold (put key) [0..<kb_heads c] (kb_tail_key c)) (\<lambda>keys.
           obind (ofold (put value) [0..<kb_heads c] (kb_tail_value c)) (\<lambda>values.
             Inr (c\<lparr>kb_tail_hidden := hiddens, kb_tail_key := keys, kb_tail_value := values,
                    kb_tail_length := put_cell layer row (position + 1) (kb_tail_length c)\<rparr>))))))"

definition reset_tail :: "nat \<Rightarrow> nat \<Rightarrow> kv_buffer \<Rightarrow> (kv_error, kv_buffer) outcome" where
  "reset_tail layer row c =
     obind (update_cell layer row (\<lambda>_. Inr 0) (kb_tail_length c)) (\<lambda>ls. Inr (c\<lparr>kb_tail_length := ls\<rparr>))"

definition row_width :: "tensor \<Rightarrow> (kv_error, nat) outcome" where
  "row_width t = panic_if (length (ts_shape t) < 2) (Inr (ts_shape t ! 1))"

definition append_compressed :: "nat \<Rightarrow> nat \<Rightarrow> nat \<Rightarrow> f32 list \<Rightarrow> f32 list \<Rightarrow> kv_buffer \<Rightarrow> (kv_error, kv_buffer) outcome" where
  "append_compressed layer row head key value c =
     obind (cell (kb_comp_count c) layer row) (\<lambda>count.
     obind (cell (kb_comp_key c) layer (head_index c row head)) (\<lambda>t.
     obind (row_width t) (\<lambda>head_dim.
     obind (update_cell layer (head_index c row head) (copy_data (count * int head_dim) key) (kb_comp_key c)) (\<lambda>keys.
     obind (update_cell layer (head_index c row head) (copy_data (count * int head_dim) value) (kb_comp_value c)) (\<lambda>values.
       Inr (c\<lparr>kb_comp_key := keys, kb_comp_value := values\<rparr>))))))"

definition advance_compressed_count :: "nat \<Rightarrow> kv_buffer \<Rightarrow> (kv_error, kv_buffer) outcome" where
  "advance_compressed_count layer c =
     obind (ofold (\<lambda>row. update_cell layer row (\<lambda>n. Inr (n + 1))) [0..<kb_batch c] (kb_comp_count c)) (\<lambda>counts.
       Inr (c\<lparr>kb_comp_count := counts\<rparr>))"

definition compressed_count :: "nat \<Rightarrow> nat \<Rightarrow> kv_buffer \<Rightarrow> (kv_error, int) outcome" where
  "compressed_count layer row c = cell (kb_comp_count c) layer row"

definition compressed_rows :: "tensor list list \<Rightarrow> nat \<Rightarrow> nat \<Rightarrow> int \<Rightarrow> (kv_error, f32 list) outcome" where
  "compressed_rows grid layer i count =
     panic_if (layer \<ge> length grid)
       (if grid ! layer = [] then Inr []
        else obind (cell grid layer i) (\<lambda>t. obind (row_width t) (\<lambda>w. data_prefix (count * int w) t)))"

definition compressed_key :: "nat \<Rightarrow> nat \<Rightarrow> nat \<Rightarrow> int \<Rightarrow> kv_buffer \<Rightarrow> (kv_error, f32 list) outcome" where
  "compressed_key layer row head count c = compressed_rows (kb_comp_key c) layer (head_index c row head) count"

definition compressed_value :: "nat \<Rightarrow> nat \<Rightarrow> nat \<Rightarrow> int \<Rightarrow> kv_buffer \<Rightarrow> (kv_error, f32 list) outcome" where
  "compressed_value layer row head count c = compressed_rows (kb_comp_value c) layer (head_index c row head) count"

definition compressed_block :: "nat \<Rightarrow> nat \<Rightarrow> nat \<Rightarrow> nat \<Rightarrow> kv_buffer \<Rightarrow> (kv_error, f32 list) outcome" where
  "compressed_block layer row head block c =
     obind (cell (kb_comp_key c) layer (head_index c row head)) (\<lambda>t. obind (row_width t) (\<lambda>w.
       row_slice w block (ts_data t)))"

section \<open>Latent attention\<close>

definition enable_mla :: "nat \<Rightarrow> nat \<Rightarrow> kv_buffer \<Rightarrow> (kv_error, kv_buffer) outcome" where
  "enable_mla latent_width rope_width c =
     obind (per_layer None (kb_layers c) (layer_tensors (kb_batch c) [kb_max_len c, latent_width])) (\<lambda>latents.
     obind (per_layer None (kb_layers c) (layer_tensors (kb_batch c) [kb_max_len c, rope_width])) (\<lambda>ropes.
       Inr (c\<lparr>kb_latent_width := latent_width, kb_rope_width := rope_width, kb_latent := latents, kb_rope := ropes\<rparr>)))"

definition kv_mla_enabled :: "kv_buffer \<Rightarrow> bool" where
  "kv_mla_enabled c \<longleftrightarrow> kb_latent c \<noteq> []"

definition append_mla_latent_at :: "nat \<Rightarrow> nat \<Rightarrow> nat \<Rightarrow> f32 list \<Rightarrow> kv_buffer \<Rightarrow> (kv_error, kv_buffer) outcome" where
  "append_mla_latent_at layer batch row latent c =
     obind (update_cell layer batch (copy_data ((kb_length c + int row) * int (kb_latent_width c)) latent) (kb_latent c))
       (\<lambda>ls. Inr (c\<lparr>kb_latent := ls\<rparr>))"

definition append_mla_rope_key_at :: "nat \<Rightarrow> nat \<Rightarrow> nat \<Rightarrow> f32 list \<Rightarrow> kv_buffer \<Rightarrow> (kv_error, kv_buffer) outcome" where
  "append_mla_rope_key_at layer batch row key c =
     obind (update_cell layer batch (copy_data ((kb_length c + int row) * int (kb_rope_width c)) key) (kb_rope c))
       (\<lambda>rs. Inr (c\<lparr>kb_rope := rs\<rparr>))"

definition mla_latent :: "nat \<Rightarrow> nat \<Rightarrow> int \<Rightarrow> kv_buffer \<Rightarrow> (kv_error, f32 list) outcome" where
  "mla_latent layer batch count c =
     (if kb_latent c = [] then Inr [] else obind (cell (kb_latent c) layer batch) (data_prefix (count * int (kb_latent_width c))))"

definition mla_rope_key :: "nat \<Rightarrow> nat \<Rightarrow> int \<Rightarrow> kv_buffer \<Rightarrow> (kv_error, f32 list) outcome" where
  "mla_rope_key layer batch count c =
     (if kb_rope c = [] then Inr [] else obind (cell (kb_rope c) layer batch) (data_prefix (count * int (kb_rope_width c))))"

section \<open>Whole buffers\<close>

text \<open>Copying \<open>n\<close> elements of one buffer's data to the front of another's: \<open>copy(dst.Data[:n], src.Data[:n])\<close>.\<close>

definition copy_front :: "int \<Rightarrow> tensor \<Rightarrow> int \<Rightarrow> tensor \<Rightarrow> (kv_error, tensor) outcome" where
  "copy_front m src n dst =
     obind (data_prefix n dst) (\<lambda>d. obind (data_prefix m src) (\<lambda>s.
       Inr (dst\<lparr>ts_data := take (length d) s @ drop (min (length d) (length s)) (ts_data dst)\<rparr>)))"

text \<open>Every cell \<open>(row, head)\<close> of a layer gets the front of the source's cell \<open>head\<close>.\<close>

definition replicate_heads ::
  "nat \<Rightarrow> nat \<Rightarrow> (tensor \<Rightarrow> (kv_error, int) outcome) \<Rightarrow> (tensor \<Rightarrow> (kv_error, int) outcome) \<Rightarrow> nat \<Rightarrow> tensor list list \<Rightarrow> tensor list list \<Rightarrow>
    (kv_error, tensor list list) outcome" where
  "replicate_heads batch heads dst_len src_len layer src dst =
     ofold (\<lambda>(row, head) grid.
         obind (cell src layer head) (\<lambda>s. obind (src_len s) (\<lambda>m. obind (dst_len s) (\<lambda>n.
           update_cell layer (row * heads + head) (copy_front m s n) grid))))
       (List.product [0..<batch] [0..<heads]) dst"

definition width_times :: "int \<Rightarrow> tensor \<Rightarrow> (kv_error, int) outcome" where
  "width_times count t = obind (row_width t) (\<lambda>w. Inr (count * int w))"

definition copy_indexer_keys :: "kv_buffer \<Rightarrow> nat \<Rightarrow> int \<Rightarrow> kv_buffer \<Rightarrow> (kv_error, kv_buffer) outcome" where
  "copy_indexer_keys src layer count dst =
     (if kb_index_key dst = [] \<or> kb_index_key src = [] then Inr dst
      else panic_if (layer \<ge> length (kb_index_key dst) \<or> layer \<ge> length (kb_index_key src))
        (if kb_index_key dst ! layer = [] \<or> kb_index_key src ! layer = [] then Inr dst
         else obind (replicate_heads (kb_batch dst) (kb_heads dst) (width_times count) (width_times count) layer
                (kb_index_key src) (kb_index_key dst)) (\<lambda>keys. Inr (dst\<lparr>kb_index_key := keys\<rparr>))))"

text \<open>\<open>copy(dst[layer][batch], src[layer][0])\<close> for every batch row.\<close>

definition copy_tails :: "nat \<Rightarrow> nat \<Rightarrow> f32 list list list \<Rightarrow> f32 list list list \<Rightarrow> (kv_error, f32 list list list) outcome" where
  "copy_tails batch layer src dst =
     ofold (\<lambda>row grid. obind (cell src layer 0) (\<lambda>xs. update_cell layer row (copy_into 0 xs) grid)) [0..<batch] dst"

definition prefill_compressed_layer :: "kv_buffer \<Rightarrow> nat \<Rightarrow> kv_buffer \<Rightarrow> (kv_error, kv_buffer) outcome" where
  "prefill_compressed_layer src layer dst =
     obind (cell (kb_comp_count src) layer 0) (\<lambda>count.
     obind (ofold (\<lambda>row. update_cell layer row (\<lambda>_. Inr count)) [0..<kb_batch dst] (kb_comp_count dst)) (\<lambda>counts.
     panic_if (layer \<ge> length (kb_comp_key dst))
       (let dst = dst\<lparr>kb_comp_count := counts\<rparr> in
        if kb_comp_key dst ! layer = [] then copy_indexer_keys src layer count dst
        else
          obind (copy_tails (kb_batch dst) layer (kb_tail_hidden src) (kb_tail_hidden dst)) (\<lambda>hiddens.
          obind (copy_tails (kb_batch dst) layer (kb_tail_key src) (kb_tail_key dst)) (\<lambda>keys.
          obind (copy_tails (kb_batch dst) layer (kb_tail_value src) (kb_tail_value dst)) (\<lambda>values.
          obind (cell (kb_tail_length src) layer 0) (\<lambda>len.
          obind (ofold (\<lambda>row. update_cell layer row (\<lambda>_. Inr len)) [0..<kb_batch dst] (kb_tail_length dst)) (\<lambda>lens.
          obind (replicate_heads (kb_batch dst) (kb_heads dst) (width_times count) (width_times count) layer
                   (kb_comp_key src) (kb_comp_key dst)) (\<lambda>comp_keys.
          obind (replicate_heads (kb_batch dst) (kb_heads dst) (width_times count) (width_times count) layer
                   (kb_comp_value src) (kb_comp_value dst)) (\<lambda>comp_values.
            copy_indexer_keys src layer count
              (dst\<lparr>kb_tail_hidden := hiddens, kb_tail_key := keys, kb_tail_value := values, kb_tail_length := lens,
                   kb_comp_key := comp_keys, kb_comp_value := comp_values\<rparr>)))))))))))"

definition prefill_grid :: "nat \<Rightarrow> nat \<Rightarrow> nat \<Rightarrow> int \<Rightarrow> int \<Rightarrow> tensor list list \<Rightarrow> tensor list list \<Rightarrow> (kv_error, tensor list list) outcome" where
  "prefill_grid layers batch heads n m src dst =
     ofold (\<lambda>layer. replicate_heads batch heads (\<lambda>_. Inr n) (\<lambda>_. Inr m) layer src) [0..<layers] dst"

definition expand_previous :: "nat \<Rightarrow> tensor \<Rightarrow> (kv_error, tensor) outcome" where
  "expand_previous batch e =
     panic_if (length (ts_shape e) < 3)
       (let channels = ts_shape e ! 2 in
        obind (new_tensor [batch, 1, channels]) (\<lambda>t.
        obind (data_prefix (int channels) e) (\<lambda>row.
          Inr (t\<lparr>ts_data := concat (replicate batch row)\<rparr>))))"

definition kv_prefill_from :: "kv_buffer \<Rightarrow> kv_buffer \<Rightarrow> (kv_error, kv_buffer) outcome" where
  "kv_prefill_from dst src =
     panic_if (kv_position dst \<noteq> 0)
       (let n = kv_position src * int (kb_head_dim dst); m = kv_position src * int (kb_head_dim src);
            layers = kb_layers dst; batch = kb_batch dst in
        obind (prefill_grid layers batch (kb_heads dst) n m (kb_key src) (kb_key dst)) (\<lambda>keys.
        obind (prefill_grid layers batch (kb_heads dst) n m (kb_value src) (kb_value dst)) (\<lambda>values.
        let dst = dst\<lparr>kb_key := keys, kb_value := values\<rparr> in
        obind (if compression_enabled dst then ofold (prefill_compressed_layer src) [0..<layers] dst else Inr dst) (\<lambda>dst.
        obind (if kb_latent dst \<noteq> [] then
                 (let lw = kv_position src * int (kb_latent_width dst); rw = kv_position src * int (kb_rope_width dst) in
                  obind (prefill_grid layers batch 1 lw lw (kb_latent src) (kb_latent dst)) (\<lambda>latents.
                  obind (prefill_grid layers batch 1 rw rw (kb_rope src) (kb_rope dst)) (\<lambda>ropes.
                    Inr (dst\<lparr>kb_latent := latents, kb_rope := ropes\<rparr>))))
               else Inr dst) (\<lambda>dst.
        let dst = dst\<lparr>kb_length := kb_length src\<rparr> in
        (case kb_previous src of
           None \<Rightarrow> Inr dst
         | Some e \<Rightarrow> obind (expand_previous batch e) (\<lambda>e. Inr (dst\<lparr>kb_previous := Some e\<rparr>))))))))"

text \<open>\<open>Clone\<close> copies each group of fields under the guard the code gives it.\<close>

definition kv_clone :: "kv_buffer \<Rightarrow> kv_buffer" where
  "kv_clone c =
     \<lparr>kb_batch = kb_batch c, kb_max_len = kb_max_len c, kb_layers = kb_layers c, kb_heads = kb_heads c,
      kb_head_dim = kb_head_dim c, kb_key = kb_key c, kb_value = kb_value c, kb_length = kb_length c,
      kb_previous = kb_previous c,
      kb_ratio = (if kb_ratio c > 1 then kb_ratio c else 0),
      kb_max_blocks = (if kb_ratio c > 1 then kb_max_blocks c else 0),
      kb_embedding = (if kb_ratio c > 1 then kb_embedding c else 0),
      kb_kv_width = (if kb_ratio c > 1 then kb_kv_width c else 0),
      kb_tail_hidden = (if kb_ratio c > 1 then kb_tail_hidden c else []),
      kb_tail_key = (if kb_ratio c > 1 then map2 (\<lambda>h k. if h = [] then [] else k) (kb_tail_hidden c) (kb_tail_key c) else []),
      kb_tail_value = (if kb_ratio c > 1 then map2 (\<lambda>h k. if h = [] then [] else k) (kb_tail_hidden c) (kb_tail_value c) else []),
      kb_tail_length = (if kb_ratio c > 1 then kb_tail_length c else []),
      kb_comp_key = (if kb_ratio c > 1 then map2 (\<lambda>h k. if h = [] then [] else k) (kb_tail_hidden c) (kb_comp_key c) else []),
      kb_comp_value = (if kb_ratio c > 1 then map2 (\<lambda>h k. if h = [] then [] else k) (kb_tail_hidden c) (kb_comp_value c) else []),
      kb_comp_count = (if kb_ratio c > 1 then kb_comp_count c else []),
      kb_index_width = (if kb_index_key c \<noteq> [] then kb_index_width c else 0),
      kb_index_key = kb_index_key c,
      kb_latent_width = (if kb_latent c \<noteq> [] then kb_latent_width c else 0),
      kb_rope_width = (if kb_latent c \<noteq> [] then kb_rope_width c else 0),
      kb_latent = kb_latent c, kb_rope = (if kb_latent c \<noteq> [] then kb_rope c else []),
      kb_stripped = kb_stripped c\<rparr>"

definition grid_bytes :: "tensor list list \<Rightarrow> nat" where
  "grid_bytes grid = sum_list (map (\<lambda>ts. sum_list (map (\<lambda>t. numel t * 4) ts)) grid)"

definition rows_bytes :: "f32 list list list \<Rightarrow> nat" where
  "rows_bytes grid = sum_list (map (\<lambda>rows. sum_list (map (\<lambda>r. length r * 4) rows)) grid)"

definition compressed_bytes_allocated :: "kv_buffer \<Rightarrow> nat" where
  "compressed_bytes_allocated c = grid_bytes (kb_comp_key c) + grid_bytes (kb_comp_value c) + grid_bytes (kb_index_key c)"

definition bytes_allocated :: "kv_buffer \<Rightarrow> nat" where
  "bytes_allocated c =
     grid_bytes (kb_key c) + grid_bytes (kb_value c) + grid_bytes (kb_comp_key c) + grid_bytes (kb_comp_value c) +
     grid_bytes (kb_index_key c) + rows_bytes (kb_tail_hidden c) + rows_bytes (kb_tail_key c) + rows_bytes (kb_tail_value c) +
     grid_bytes (kb_latent c) + grid_bytes (kb_rope c) +
     (case kb_previous c of None \<Rightarrow> 0 | Some e \<Rightarrow> numel e * 4)"

definition clear_data :: "tensor \<Rightarrow> tensor" where
  "clear_data t = t\<lparr>ts_data := replicate (length (ts_data t)) 0\<rparr>"

definition strip_raw :: "kv_buffer \<Rightarrow> kv_buffer" where
  "strip_raw c =
     (if kb_ratio c \<le> 1 then c
      else c\<lparr>kb_key := map (map clear_data) (kb_key c), kb_value := map (map clear_data) (kb_value c), kb_stripped := True\<rparr>)"

section \<open>The compression tail\<close>

text \<open>
  \<open>compressTail\<close> and \<open>appendGlobalTail\<close> of compress_attention.go. The compressor's and the indexer's forward
  passes are parameters: from the buffered hidden and key (or value) rows to the entry, from the entry to its
  indexer key.
\<close>

record tail_ops =
  to_compress :: "f32 list \<Rightarrow> f32 list \<Rightarrow> f32 list"
  to_project :: "(f32 list \<Rightarrow> f32 list) option"

definition compress_head :: "tail_ops \<Rightarrow> nat \<Rightarrow> nat \<Rightarrow> nat \<Rightarrow> nat \<Rightarrow> nat \<Rightarrow> f32 list \<Rightarrow> nat \<Rightarrow> kv_buffer \<Rightarrow> (kv_error, kv_buffer) outcome" where
  "compress_head ops ratio embedding head_dim layer row hidden head c =
     obind (obind (tail_key layer (head_index c row head) c) (with_data [1, ratio, head_dim])) (\<lambda>key.
     obind (obind (tail_value layer (head_index c row head) c) (with_data [1, ratio, head_dim])) (\<lambda>value.
     obind (append_compressed layer row head (to_compress ops hidden (ts_data key)) (to_compress ops hidden (ts_data value)) c) (\<lambda>c.
       (case to_project ops of
          None \<Rightarrow> Inr c
        | Some project \<Rightarrow> append_indexer_key layer row head (project (to_compress ops hidden (ts_data key))) c))))"

definition compress_tail :: "tail_ops \<Rightarrow> nat \<Rightarrow> nat \<Rightarrow> nat \<Rightarrow> nat \<Rightarrow> nat \<Rightarrow> nat \<Rightarrow> kv_buffer \<Rightarrow> (kv_error, kv_buffer) outcome" where
  "compress_tail ops ratio heads embedding head_dim batch layer c =
     obind (ofold (\<lambda>row c.
         obind (obind (tail_hidden layer row c) (with_data [1, ratio, embedding])) (\<lambda>hidden.
           ofold (compress_head ops ratio embedding head_dim layer row (ts_data hidden)) [0..<heads] c)) [0..<batch] c) (\<lambda>c.
     obind (advance_compressed_count layer c) (\<lambda>c.
       ofold (reset_tail layer) [0..<batch] c))"

definition append_position ::
  "tail_ops \<Rightarrow> nat \<Rightarrow> nat \<Rightarrow> nat \<Rightarrow> tensor \<Rightarrow> tensor \<Rightarrow> tensor \<Rightarrow> nat \<Rightarrow> nat \<Rightarrow> nat \<Rightarrow> nat \<Rightarrow> nat \<Rightarrow> kv_buffer \<Rightarrow> (kv_error, kv_buffer) outcome" where
  "append_position ops ratio heads layer hidden key value batch seq_len embedding head_dim position c =
     obind (ofold (\<lambda>row c.
         let i = row * seq_len + position in
         obind (row_slice embedding i (ts_data hidden)) (\<lambda>h.
         obind (row_slice (heads * head_dim) i (ts_data key)) (\<lambda>k.
         obind (row_slice (heads * head_dim) i (ts_data value)) (\<lambda>v.
           append_tail_row layer row h k v c)))) [0..<batch] c) (\<lambda>c.
     obind (tail_length layer 0 c) (\<lambda>n.
       if n = int ratio then compress_tail ops ratio heads embedding head_dim batch layer c else Inr c))"

definition append_global_tail ::
  "tail_ops \<Rightarrow> nat \<Rightarrow> nat \<Rightarrow> nat \<Rightarrow> tensor \<Rightarrow> tensor \<Rightarrow> tensor \<Rightarrow> nat \<Rightarrow> nat \<Rightarrow> nat \<Rightarrow> nat \<Rightarrow> kv_buffer \<Rightarrow> (kv_error, kv_buffer) outcome" where
  "append_global_tail ops ratio heads layer hidden key value batch seq_len embedding head_dim c =
     ofold (append_position ops ratio heads layer hidden key value batch seq_len embedding head_dim) [0..<seq_len] c"

section \<open>Well-formed buffers\<close>

definition tensor_ok :: "nat list \<Rightarrow> tensor \<Rightarrow> bool" where
  "tensor_ok shape t \<longleftrightarrow> ts_shape t = shape \<and> length (ts_data t) = prod_list shape"

text \<open>A layer's slice is nil or has one buffer for each index.\<close>

definition grid_ok :: "nat \<Rightarrow> nat \<Rightarrow> ('a \<Rightarrow> bool) \<Rightarrow> 'a list list \<Rightarrow> bool" where
  "grid_ok layers n P grid \<longleftrightarrow> length grid = layers \<and> (\<forall>xs \<in> set grid. xs = [] \<or> length xs = n) \<and> all_cells P grid"

definition full_grid :: "nat \<Rightarrow> nat \<Rightarrow> ('a \<Rightarrow> bool) \<Rightarrow> 'a list list \<Rightarrow> bool" where
  "full_grid layers n P grid \<longleftrightarrow> length grid = layers \<and> (\<forall>xs \<in> set grid. length xs = n) \<and> all_cells P grid"

definition owned :: "'a list list \<Rightarrow> bool list" where
  "owned grid = map (\<lambda>xs. xs \<noteq> []) grid"

definition compression_ok :: "kv_buffer \<Rightarrow> bool" where
  "compression_ok c \<longleftrightarrow>
     (let n = kb_batch c * kb_heads c in
      kb_kv_width c = kb_heads c * kb_head_dim c \<and> 0 < kb_max_blocks c \<and> 0 < kb_embedding c \<and>
      grid_ok (kb_layers c) (kb_batch c) (\<lambda>r. length r = kb_ratio c * kb_embedding c) (kb_tail_hidden c) \<and>
      grid_ok (kb_layers c) n (\<lambda>r. length r = kb_ratio c * kb_head_dim c) (kb_tail_key c) \<and>
      grid_ok (kb_layers c) n (\<lambda>r. length r = kb_ratio c * kb_head_dim c) (kb_tail_value c) \<and>
      grid_ok (kb_layers c) n (tensor_ok [kb_max_blocks c, kb_head_dim c]) (kb_comp_key c) \<and>
      grid_ok (kb_layers c) n (tensor_ok [kb_max_blocks c, kb_head_dim c]) (kb_comp_value c) \<and>
      owned (kb_tail_key c) = owned (kb_tail_hidden c) \<and> owned (kb_tail_value c) = owned (kb_tail_hidden c) \<and>
      owned (kb_comp_key c) = owned (kb_tail_hidden c) \<and> owned (kb_comp_value c) = owned (kb_tail_hidden c) \<and>
      full_grid (kb_layers c) (kb_batch c) (\<lambda>k. 0 \<le> k \<and> k \<le> int (kb_ratio c)) (kb_tail_length c) \<and>
      full_grid (kb_layers c) (kb_batch c) (\<lambda>k. 0 \<le> k \<and> k \<le> int (kb_max_blocks c)) (kb_comp_count c))"

definition no_compression :: "kv_buffer \<Rightarrow> bool" where
  "no_compression c \<longleftrightarrow>
     kb_ratio c = 0 \<and> kb_max_blocks c = 0 \<and> kb_embedding c = 0 \<and> kb_kv_width c = 0 \<and>
     kb_tail_hidden c = [] \<and> kb_tail_key c = [] \<and> kb_tail_value c = [] \<and> kb_tail_length c = [] \<and>
     kb_comp_key c = [] \<and> kb_comp_value c = [] \<and> kb_comp_count c = [] \<and> kb_index_key c = []"

definition kv_ok :: "kv_buffer \<Rightarrow> bool" where
  "kv_ok c \<longleftrightarrow>
     0 < kb_batch c \<and> 0 < kb_layers c \<and> 0 < kb_heads c \<and> 0 < kb_head_dim c \<and> 0 < kb_max_len c \<and> kb_max_len c < 2 ^ 31 \<and>
     full_grid (kb_layers c) (kb_batch c * kb_heads c) (tensor_ok [kb_max_len c, kb_head_dim c]) (kb_key c) \<and>
     full_grid (kb_layers c) (kb_batch c * kb_heads c) (tensor_ok [kb_max_len c, kb_head_dim c]) (kb_value c) \<and>
     0 \<le> kb_length c \<and> kb_length c \<le> int (kb_max_len c) \<and>
     (\<forall>e. kb_previous c = Some e \<longrightarrow> (\<exists>channels > 0. tensor_ok [kb_batch c, 1, channels] e)) \<and>
     (if kb_ratio c > 1 then compression_ok c else no_compression c) \<and>
     (if kb_index_key c = [] then kb_index_width c = 0
      else 0 < kb_index_width c \<and>
        grid_ok (kb_layers c) (kb_batch c * kb_heads c) (tensor_ok [kb_max_blocks c, kb_index_width c]) (kb_index_key c)) \<and>
     (if kb_latent c = [] then kb_rope c = [] \<and> kb_latent_width c = 0 \<and> kb_rope_width c = 0
      else 0 < kb_latent_width c \<and> 0 < kb_rope_width c \<and>
        full_grid (kb_layers c) (kb_batch c) (tensor_ok [kb_max_len c, kb_latent_width c]) (kb_latent c) \<and>
        full_grid (kb_layers c) (kb_batch c) (tensor_ok [kb_max_len c, kb_rope_width c]) (kb_rope c)) \<and>
     (kb_stripped c \<longrightarrow> kb_ratio c > 1)"

section \<open>Lemmas: fresh buffers\<close>

definition zero_tensor :: "nat list \<Rightarrow> tensor" where
  "zero_tensor shape = \<lparr>ts_shape = shape, ts_data = replicate (prod_list shape) 0\<rparr>"

lemma new_tensor_ok [simp]: "shape \<noteq> [] \<Longrightarrow> 0 \<notin> set shape \<Longrightarrow> new_tensor shape = Inr (zero_tensor shape)"
  by (simp add: new_tensor_def zero_tensor_def)

lemma layer_tensors_ok [simp]:
  "shape \<noteq> [] \<Longrightarrow> 0 \<notin> set shape \<Longrightarrow> layer_tensors n shape = Inr (replicate n (zero_tensor shape))"
  using omap_map [of "[0..<n]" "\<lambda>_. new_tensor shape" "\<lambda>_. zero_tensor shape"]
  by (simp add: layer_tensors_def map_replicate_const)

lemma per_layer_all [simp]: "per_layer None n (Inr x) = Inr (replicate n x)"
  using omap_map [of "[0..<n]" "\<lambda>layer. obind (selected None layer) (\<lambda>s. if s then Inr x else Inr [])" "\<lambda>_. x"]
  by (simp add: per_layer_def selected_def map_replicate_const)

lemma zero_tensor_like: "tensor_ok shape t \<Longrightarrow> zero_tensor shape = \<lparr>ts_shape = ts_shape t, ts_data = replicate (length (ts_data t)) 0\<rparr>"
  by (simp add: tensor_ok_def zero_tensor_def)

lemma full_gridD:
  assumes "full_grid layers n P grid"
  shows "length grid = layers" "l < layers \<Longrightarrow> length (grid ! l) = n" "l < layers \<Longrightarrow> i < n \<Longrightarrow> P (grid ! l ! i)"
  using assms by (auto simp: full_grid_def all_cells_iff)

lemma grid_okD:
  assumes "grid_ok layers n P grid"
  shows "length grid = layers" "l < layers \<Longrightarrow> grid ! l \<noteq> [] \<Longrightarrow> length (grid ! l) = n"
    "l < layers \<Longrightarrow> grid ! l \<noteq> [] \<Longrightarrow> i < n \<Longrightarrow> P (grid ! l ! i)"
  using assms by (auto simp: grid_ok_def all_cells_iff)

lemma owned_length: "owned xss = owned yss \<Longrightarrow> length xss = length yss"
  by (metis length_map owned_def)

lemma owned_nil:
  assumes "owned xss = owned yss" "l < length yss"
  shows "xss ! l = [] \<longleftrightarrow> yss ! l = []"
proof -
  have "owned xss ! l = owned yss ! l" by (simp add: assms(1))
  then show ?thesis using assms owned_length [OF assms(1)] by (simp add: owned_def)
qed

lemma mult_le_bound: "0 \<le> x \<Longrightarrow> x \<le> int r \<Longrightarrow> 0 \<le> x * int w \<and> x * int w \<le> int (r * w)"
  by (simp add: mult_right_mono)

lemma row_of_head: "i < batch * heads \<Longrightarrow> i div heads < (batch :: nat)"
  by (simp add: less_mult_imp_div_less)

text \<open>The parts of a well-formed compression state, and what they say of a layer.\<close>

lemma compression_okD:
  assumes "compression_ok c"
  shows "kb_kv_width c = kb_heads c * kb_head_dim c" "0 < kb_max_blocks c" "0 < kb_embedding c"
    "grid_ok (kb_layers c) (kb_batch c) (\<lambda>r. length r = kb_ratio c * kb_embedding c) (kb_tail_hidden c)"
    "grid_ok (kb_layers c) (kb_batch c * kb_heads c) (\<lambda>r. length r = kb_ratio c * kb_head_dim c) (kb_tail_key c)"
    "grid_ok (kb_layers c) (kb_batch c * kb_heads c) (\<lambda>r. length r = kb_ratio c * kb_head_dim c) (kb_tail_value c)"
    "grid_ok (kb_layers c) (kb_batch c * kb_heads c) (tensor_ok [kb_max_blocks c, kb_head_dim c]) (kb_comp_key c)"
    "grid_ok (kb_layers c) (kb_batch c * kb_heads c) (tensor_ok [kb_max_blocks c, kb_head_dim c]) (kb_comp_value c)"
    "owned (kb_tail_key c) = owned (kb_tail_hidden c)" "owned (kb_tail_value c) = owned (kb_tail_hidden c)"
    "owned (kb_comp_key c) = owned (kb_tail_hidden c)" "owned (kb_comp_value c) = owned (kb_tail_hidden c)"
    "full_grid (kb_layers c) (kb_batch c) (\<lambda>k. 0 \<le> k \<and> k \<le> int (kb_ratio c)) (kb_tail_length c)"
    "full_grid (kb_layers c) (kb_batch c) (\<lambda>k. 0 \<le> k \<and> k \<le> int (kb_max_blocks c)) (kb_comp_count c)"
  using assms by (simp_all add: compression_ok_def Let_def)

lemma layer_owned:
  assumes "compression_ok c" "l < kb_layers c"
  shows "kb_tail_key c ! l = [] \<longleftrightarrow> kb_tail_hidden c ! l = []" "kb_tail_value c ! l = [] \<longleftrightarrow> kb_tail_hidden c ! l = []"
    "kb_comp_key c ! l = [] \<longleftrightarrow> kb_tail_hidden c ! l = []" "kb_comp_value c ! l = [] \<longleftrightarrow> kb_tail_hidden c ! l = []"
  using assms(2) grid_okD(1) [OF compression_okD(4) [OF assms(1)]]
  by (simp_all add: owned_nil [OF compression_okD(9) [OF assms(1)]] owned_nil [OF compression_okD(10) [OF assms(1)]]
      owned_nil [OF compression_okD(11) [OF assms(1)]] owned_nil [OF compression_okD(12) [OF assms(1)]])

lemmas layer_counts = full_gridD [OF compression_okD(13)] full_gridD [OF compression_okD(14)]
lemmas layer_hidden = grid_okD [OF compression_okD(4)]
lemmas layer_tails = grid_okD [OF compression_okD(5)] grid_okD [OF compression_okD(6)]
lemmas layer_blocks = grid_okD [OF compression_okD(7)] grid_okD [OF compression_okD(8)]

lemma new_kv_buffer_ok:
  assumes "0 < max_len" "0 < head_dim"
  shows "new_kv_buffer batch max_len layers heads head_dim =
    Inr \<lparr>kb_batch = batch, kb_max_len = max_len, kb_layers = layers, kb_heads = heads, kb_head_dim = head_dim,
      kb_key = replicate layers (replicate (batch * heads) (zero_tensor [max_len, head_dim])),
      kb_value = replicate layers (replicate (batch * heads) (zero_tensor [max_len, head_dim])), kb_length = 0, kb_previous = None,
      kb_ratio = 0, kb_max_blocks = 0, kb_embedding = 0, kb_kv_width = 0,
      kb_tail_hidden = [], kb_tail_key = [], kb_tail_value = [], kb_tail_length = [],
      kb_comp_key = [], kb_comp_value = [], kb_comp_count = [],
      kb_index_width = 0, kb_index_key = [], kb_latent_width = 0, kb_rope_width = 0,
      kb_latent = [], kb_rope = [], kb_stripped = False\<rparr>"
  using assms by (simp add: new_kv_buffer_def)

lemma kv_ok_dims:
  assumes "kv_ok c"
  shows "0 < kb_batch c" "0 < kb_layers c" "0 < kb_heads c" "0 < kb_head_dim c" "0 < kb_max_len c"
    "0 \<le> kb_length c" "kb_length c \<le> int (kb_max_len c)"
    "full_grid (kb_layers c) (kb_batch c * kb_heads c) (tensor_ok [kb_max_len c, kb_head_dim c]) (kb_key c)"
    "full_grid (kb_layers c) (kb_batch c * kb_heads c) (tensor_ok [kb_max_len c, kb_head_dim c]) (kb_value c)"
  using assms by (simp_all add: kv_ok_def)

section \<open>An example\<close>

text \<open>Two heads of width 1, three tokens of which two are merged to an entry: one row is left in the tail.\<close>

definition example_kv :: kv_buffer where
  "example_kv =
     \<lparr>kb_batch = 1, kb_max_len = 4, kb_layers = 1, kb_heads = 2, kb_head_dim = 1,
      kb_key = [[\<lparr>ts_shape = [4, 1], ts_data = [1, 2, 3, 9]\<rparr>, \<lparr>ts_shape = [4, 1], ts_data = [4, 5, 6, 9]\<rparr>]],
      kb_value = [[\<lparr>ts_shape = [4, 1], ts_data = [1, 1, 1, 9]\<rparr>, \<lparr>ts_shape = [4, 1], ts_data = [2, 2, 2, 9]\<rparr>]],
      kb_length = 3, kb_previous = Some \<lparr>ts_shape = [1, 1, 2], ts_data = [7, 8]\<rparr>,
      kb_ratio = 2, kb_max_blocks = 2, kb_embedding = 1, kb_kv_width = 2,
      kb_tail_hidden = [[[5, 9]]], kb_tail_key = [[[3, 9], [6, 9]]], kb_tail_value = [[[1, 9], [2, 9]]], kb_tail_length = [[1]],
      kb_comp_key = [[\<lparr>ts_shape = [2, 1], ts_data = [12, 9]\<rparr>, \<lparr>ts_shape = [2, 1], ts_data = [45, 9]\<rparr>]],
      kb_comp_value = [[\<lparr>ts_shape = [2, 1], ts_data = [11, 9]\<rparr>, \<lparr>ts_shape = [2, 1], ts_data = [22, 9]\<rparr>]], kb_comp_count = [[1]],
      kb_index_width = 1,
      kb_index_key = [[\<lparr>ts_shape = [2, 1], ts_data = [13, 9]\<rparr>, \<lparr>ts_shape = [2, 1], ts_data = [46, 9]\<rparr>]],
      kb_latent_width = 0, kb_rope_width = 0, kb_latent = [], kb_rope = [], kb_stripped = False\<rparr>"

lemma example_kv_ok: "kv_ok example_kv"
proof -
  have "compression_ok example_kv"
    unfolding compression_ok_def example_kv_def
    by (simp add: Let_def grid_ok_def full_grid_def all_cells_def tensor_ok_def owned_def)
  then show ?thesis
    unfolding kv_ok_def
    by (simp add: example_kv_def full_grid_def grid_ok_def all_cells_def tensor_ok_def)
qed

end
