(* ===== verification/Kv_Codec.thy ===== *)
theory Kv_Codec
  imports Kv_Buffer
begin

text \<open>
  src/model/kvcache_codec.go: the binary format of a KV buffer.

  The writer's methods give the bytes they append. The reader is what is left of the data and whether an error was
  recorded (there is only one it records); \<open>kvr\<close> is a method of it, which may also panic, as slicing a buffer beyond
  its length does. Filling a buffer's front is \<open>read_front\<close>.
\<close>

section \<open>Writing\<close>

definition kv_magic :: "byte list" where
  "kv_magic = [71, 79, 78, 65, 75, 86, 0, 1]"

definition put_u32 :: "nat \<Rightarrow> byte list" where
  "put_u32 n = nat_le 4 n"

definition put_i32 :: "int \<Rightarrow> byte list" where
  "put_i32 x = nat_le 4 (nat (x mod 2 ^ 32))"

definition put_f32s :: "f32 list \<Rightarrow> byte list" where
  "put_f32s xs = concat (map (\<lambda>x. nat_le 4 (unat x)) xs)"

definition put_front :: "int \<Rightarrow> f32 list \<Rightarrow> (kv_error, byte list) outcome" where
  "put_front n xs = obind (prefix_of n xs) (\<lambda>ys. Inr (put_f32s ys))"

text \<open>Appending in sequence, and in a loop.\<close>

definition then_put :: "(kv_error, byte list) outcome \<Rightarrow> (kv_error, byte list) outcome \<Rightarrow> (kv_error, byte list) outcome" where
  "then_put a b = obind a (\<lambda>x. obind b (\<lambda>y. Inr (x @ y)))"

definition put_each :: "('a \<Rightarrow> (kv_error, byte list) outcome) \<Rightarrow> 'a list \<Rightarrow> (kv_error, byte list) outcome" where
  "put_each f xs = obind (omap f xs) (\<lambda>bs. Inr (concat bs))"

definition flag :: "nat \<Rightarrow> bool \<Rightarrow> nat" where
  "flag k b = (if b then 2 ^ k else 0)"

definition kv_flags :: "kv_buffer \<Rightarrow> nat" where
  "kv_flags c =
     flag 4 (kb_latent c \<noteq> []) OR flag 0 (kb_ratio c > 1) OR flag 1 (kb_index_key c \<noteq> []) OR
     flag 2 (kb_previous c \<noteq> None) OR flag 3 (kb_stripped c)"

definition kv_layer_flags :: "kv_buffer \<Rightarrow> nat \<Rightarrow> nat" where
  "kv_layer_flags c layer =
     flag 0 (kb_tail_hidden c ! layer \<noteq> []) OR flag 1 (kb_comp_key c ! layer \<noteq> []) OR
     flag 2 (kb_index_key c \<noteq> [] \<and> kb_index_key c ! layer \<noteq> [])"

definition put_header :: "kv_buffer \<Rightarrow> byte list" where
  "put_header c =
     put_u32 (kb_batch c) @ put_u32 (kb_max_len c) @ put_u32 (kb_layers c) @ put_u32 (kb_heads c) @
     put_u32 (kb_head_dim c) @ put_i32 (kb_length c) @ put_u32 (kb_ratio c) @ put_u32 (kb_max_blocks c) @
     put_u32 (kb_embedding c) @ put_u32 (kb_kv_width c) @ put_u32 (kb_index_width c) @ put_u32 (kb_latent_width c) @
     put_u32 (kb_rope_width c) @ put_u32 (kv_flags c)"

definition put_layer :: "kv_buffer \<Rightarrow> nat \<Rightarrow> (kv_error, byte list) outcome" where
  "put_layer c layer =
     (let heads = kb_heads c; flags = kv_layer_flags c layer;
          lens = kb_tail_length c ! layer; counts = kb_comp_count c ! layer;
          used = (\<lambda>i. lens ! (i div heads)); count = (\<lambda>i. counts ! (i div heads)) in
      then_put (Inr (put_u32 flags))
     (then_put (Inr (concat (map (\<lambda>row. put_i32 (i32 (lens ! row)) @ put_i32 (i32 (counts ! row))) [0..<kb_batch c])))
     (then_put (if bit flags 0 then
          then_put (put_each (\<lambda>row. put_front (lens ! row * int (kb_embedding c)) (kb_tail_hidden c ! layer ! row)) [0..<kb_batch c])
            (put_each (\<lambda>i. then_put (put_front (used i * int (kb_head_dim c)) (kb_tail_key c ! layer ! i))
                             (put_front (used i * int (kb_head_dim c)) (kb_tail_value c ! layer ! i))) [0..<kb_batch c * heads])
        else Inr [])
     (then_put (if bit flags 1 then
          put_each (\<lambda>i. then_put (put_front (count i * int (kb_head_dim c)) (ts_data (kb_comp_key c ! layer ! i)))
                          (put_front (count i * int (kb_head_dim c)) (ts_data (kb_comp_value c ! layer ! i)))) [0..<kb_batch c * heads]
        else Inr [])
       (if bit flags 2 then
          put_each (\<lambda>i. put_front (count i * int (kb_index_width c)) (ts_data (kb_index_key c ! layer ! i))) [0..<kb_batch c * heads]
        else Inr [])))))"

definition kv_marshal_binary :: "kv_buffer \<Rightarrow> (kv_error, byte list) outcome" where
  "kv_marshal_binary c =
     (let n = kb_length c; flags = kv_flags c in
      then_put (Inr kv_magic)
     (then_put (Inr (put_header c))
     (then_put (if \<not> kb_stripped c then
          put_each (\<lambda>layer.
            put_each (\<lambda>i. then_put (put_front (n * int (kb_head_dim c)) (ts_data (kb_key c ! layer ! i)))
                            (put_front (n * int (kb_head_dim c)) (ts_data (kb_value c ! layer ! i))))
              [0..<length (kb_key c ! layer)]) [0..<kb_layers c]
        else Inr [])
     (then_put (if kb_ratio c > 1 then put_each (put_layer c) [0..<kb_layers c] else Inr [])
     (then_put (if bit flags 4 then
          put_each (\<lambda>layer.
            put_each (\<lambda>row. then_put (put_front (n * int (kb_latent_width c)) (ts_data (kb_latent c ! layer ! row)))
                              (put_front (n * int (kb_rope_width c)) (ts_data (kb_rope c ! layer ! row))))
              [0..<kb_batch c]) [0..<kb_layers c]
        else Inr [])
       (case kb_previous c of
          None \<Rightarrow> Inr []
        | Some e \<Rightarrow> panic_if (length (ts_shape e) < 3) (then_put (Inr (put_u32 (ts_shape e ! 2))) (Inr (put_f32s (ts_data e))))))))))"

section \<open>Reading\<close>

record kv_reader =
  kr_rest :: "byte list"
  kr_err :: bool

type_synonym 'a kvr = "kv_reader \<Rightarrow> (kv_error, 'a \<times> kv_reader) outcome"

definition kret :: "'a \<Rightarrow> 'a kvr" where
  "kret x = (\<lambda>r. Inr (x, r))"

definition kbind :: "'a kvr \<Rightarrow> ('a \<Rightarrow> 'b kvr) \<Rightarrow> 'b kvr" where
  "kbind p f = (\<lambda>r. obind (p r) (\<lambda>(x, r). f x r))"

definition klift :: "(kv_error, 'a) outcome \<Rightarrow> 'a kvr" where
  "klift m = (\<lambda>r. obind m (\<lambda>x. Inr (x, r)))"

primrec keach :: "('b \<Rightarrow> 'a kvr) \<Rightarrow> 'b list \<Rightarrow> 'a list kvr" where
  "keach f [] = kret []"
| "keach f (x # xs) = kbind (f x) (\<lambda>y. kbind (keach f xs) (\<lambda>ys. kret (y # ys)))"

definition need :: "nat \<Rightarrow> kv_reader \<Rightarrow> bool" where
  "need n r \<longleftrightarrow> \<not> kr_err r \<and> n \<le> length (kr_rest r)"

definition get_u32 :: "nat kvr" where
  "get_u32 r =
     (if need 4 r then Inr (le_nat (take 4 (kr_rest r)), r\<lparr>kr_rest := drop 4 (kr_rest r)\<rparr>)
      else Inr (0, r\<lparr>kr_err := True\<rparr>))"

definition get_i32 :: "int kvr" where
  "get_i32 = kbind get_u32 (\<lambda>n. kret (i32 (int n)))"

fun f32s_of :: "nat \<Rightarrow> byte list \<Rightarrow> f32 list" where
  "f32s_of 0 bs = []"
| "f32s_of (Suc n) bs = word_of_nat (le_nat (take 4 bs)) # f32s_of n (drop 4 bs)"

definition get_f32s :: "f32 list \<Rightarrow> f32 list kvr" where
  "get_f32s dst r =
     (if need (4 * length dst) r then
        Inr (f32s_of (length dst) (kr_rest r), r\<lparr>kr_rest := drop (4 * length dst) (kr_rest r)\<rparr>)
      else Inr (dst, r\<lparr>kr_err := True\<rparr>))"

definition read_front :: "int \<Rightarrow> f32 list \<Rightarrow> f32 list kvr" where
  "read_front n xs = kbind (klift (prefix_of n xs)) (\<lambda>front. kbind (get_f32s front) (\<lambda>ys. kret (ys @ drop (nat n) xs)))"

definition read_tensor :: "int \<Rightarrow> tensor \<Rightarrow> tensor kvr" where
  "read_tensor n t = kbind (read_front n (ts_data t)) (\<lambda>d. kret (t\<lparr>ts_data := d\<rparr>))"

text \<open>The loop of two grids' layers in turn.\<close>

definition read_pairs :: "(nat \<Rightarrow> 'a kvr) \<Rightarrow> (nat \<Rightarrow> 'b kvr) \<Rightarrow> nat \<Rightarrow> ('a list \<times> 'b list) kvr" where
  "read_pairs p q n =
     kbind (keach (\<lambda>i. kbind (p i) (\<lambda>x. kbind (q i) (\<lambda>y. kret (x, y)))) [0..<n]) (\<lambda>xys. kret (map fst xys, map snd xys))"

definition read_grids :: "(nat \<Rightarrow> nat \<Rightarrow> 'a kvr) \<Rightarrow> (nat \<Rightarrow> nat \<Rightarrow> 'b kvr) \<Rightarrow> nat list \<Rightarrow> ('a list list \<times> 'b list list) kvr" where
  "read_grids p q ns =
     kbind (keach (\<lambda>l. read_pairs (p l) (q l) (ns ! l)) [0..<length ns]) (\<lambda>xys. kret (map fst xys, map snd xys))"

record kv_layer =
  kl_lens :: "int list"
  kl_counts :: "int list"
  kl_hidden :: "f32 list list"
  kl_tail_key :: "f32 list list"
  kl_tail_value :: "f32 list list"
  kl_comp_key :: "tensor list"
  kl_comp_value :: "tensor list"
  kl_index_key :: "tensor list"

text \<open>One layer; \<open>indexer\<close> says whether the buffer has a slice for indexer keys to put them into.\<close>

definition read_layer :: "kv_buffer \<Rightarrow> bool \<Rightarrow> nat \<Rightarrow> kv_layer kvr" where
  "read_layer c indexer index_width =
     (let batch = kb_batch c; heads = kb_heads c; n = batch * heads; hd = kb_head_dim c; ratio = kb_ratio c in
      kbind get_u32 (\<lambda>flags.
      kbind (read_pairs (\<lambda>_. get_i32) (\<lambda>_. get_i32) batch) (\<lambda>(lens, counts).
      kbind (if bit flags 0 then
               kbind (keach (\<lambda>row. read_front (lens ! row * int (kb_embedding c)) (replicate (ratio * kb_embedding c) 0)) [0..<batch]) (\<lambda>hidden.
               kbind (read_pairs (\<lambda>i. read_front (lens ! (i div heads) * int hd) (replicate (ratio * hd) 0))
                                 (\<lambda>i. read_front (lens ! (i div heads) * int hd) (replicate (ratio * hd) 0)) n) (\<lambda>(keys, values).
                 kret (hidden, keys, values)))
             else kret ([], [], [])) (\<lambda>(hidden, keys, values).
      kbind (if bit flags 1 then
               kbind (klift (layer_tensors n [kb_max_blocks c, hd])) (\<lambda>fresh.
                 read_pairs (\<lambda>i. read_tensor (counts ! (i div heads) * int hd) (fresh ! i))
                            (\<lambda>i. read_tensor (counts ! (i div heads) * int hd) (fresh ! i)) n)
             else kret ([], [])) (\<lambda>(comp_keys, comp_values).
      kbind (if bit flags 2 then
               kbind (klift (panic_if (\<not> indexer) (layer_tensors n [kb_max_blocks c, index_width]))) (\<lambda>fresh.
                 keach (\<lambda>i. read_tensor (counts ! (i div heads) * int index_width) (fresh ! i)) [0..<n])
             else kret []) (\<lambda>index_keys.
        kret \<lparr>kl_lens = lens, kl_counts = counts, kl_hidden = hidden, kl_tail_key = keys, kl_tail_value = values,
              kl_comp_key = comp_keys, kl_comp_value = comp_values, kl_index_key = index_keys\<rparr>))))))"

definition kfail_if :: "bool \<Rightarrow> 'a kvr \<Rightarrow> 'a kvr" where
  "kfail_if b p = (\<lambda>r. fail_if b ErrInvalidKVCache (p r))"

definition kstop :: "'a kvr \<Rightarrow> 'a kvr" where
  "kstop p = (\<lambda>r. fail_if (kr_err r) ErrUnexpectedEOF (p r))"

text \<open>The header's fields in their order, then the parts the flags announce.\<close>

definition read_header :: "(kv_buffer \<times> nat \<times> nat) kvr" where
  "read_header =
     kbind get_u32 (\<lambda>batch. kbind get_u32 (\<lambda>max_len. kbind get_u32 (\<lambda>layers. kbind get_u32 (\<lambda>heads.
     kbind get_u32 (\<lambda>head_dim. kbind get_i32 (\<lambda>len. kbind get_u32 (\<lambda>ratio. kbind get_u32 (\<lambda>max_blocks.
     kbind get_u32 (\<lambda>embedding. kbind get_u32 (\<lambda>kv_width. kbind get_u32 (\<lambda>index_width. kbind get_u32 (\<lambda>latent_width.
     kbind get_u32 (\<lambda>rope_width. kbind get_u32 (\<lambda>flags.
     kstop (kfail_if (batch = 0 \<or> layers = 0 \<or> heads = 0 \<or> head_dim = 0 \<or> max_len = 0)
       (kfail_if (len < 0 \<or> len > int max_len)
         (kbind (klift (new_kv_buffer batch max_len layers heads head_dim)) (\<lambda>c.
           kret (c\<lparr>kb_length := len, kb_stripped := bit flags 3,
                   kb_ratio := ratio, kb_max_blocks := max_blocks, kb_embedding := embedding, kb_kv_width := kv_width,
                   kb_latent_width := latent_width, kb_rope_width := rope_width\<rparr>, index_width, flags)))))))))))))))))))"

definition read_raw :: "kv_buffer \<Rightarrow> kv_buffer kvr" where
  "read_raw c =
     (if kb_stripped c then kret c
      else kbind (read_grids (\<lambda>l i. read_tensor (kb_length c * int (kb_head_dim c)) (kb_key c ! l ! i))
                    (\<lambda>l i. read_tensor (kb_length c * int (kb_head_dim c)) (kb_value c ! l ! i)) (map length (kb_key c))) (\<lambda>(keys, values).
             kret (c\<lparr>kb_key := keys, kb_value := values\<rparr>)))"

definition read_compression :: "nat \<Rightarrow> nat \<Rightarrow> kv_buffer \<Rightarrow> kv_buffer kvr" where
  "read_compression flags index_width c =
     (if bit flags 0 then
        kbind (keach (\<lambda>_. read_layer c (bit flags 1) index_width) [0..<kb_layers c]) (\<lambda>ls.
          kret (c\<lparr>kb_tail_hidden := map kl_hidden ls, kb_tail_key := map kl_tail_key ls, kb_tail_value := map kl_tail_value ls,
                  kb_tail_length := map kl_lens ls, kb_comp_key := map kl_comp_key ls, kb_comp_value := map kl_comp_value ls,
                  kb_comp_count := map kl_counts ls,
                  kb_index_width := (if bit flags 1 then index_width else 0),
                  kb_index_key := (if bit flags 1 then map kl_index_key ls else [])\<rparr>))
      else kret (c\<lparr>kb_ratio := 0, kb_max_blocks := 0, kb_embedding := 0, kb_kv_width := 0\<rparr>))"

definition read_mla :: "nat \<Rightarrow> kv_buffer \<Rightarrow> kv_buffer kvr" where
  "read_mla flags c =
     (if bit flags 4 then
        kbind (klift (enable_mla (kb_latent_width c) (kb_rope_width c) c)) (\<lambda>c.
        kbind (read_grids (\<lambda>l i. read_tensor (kb_length c * int (kb_latent_width c)) (kb_latent c ! l ! i))
                 (\<lambda>l i. read_tensor (kb_length c * int (kb_rope_width c)) (kb_rope c ! l ! i))
                 (replicate (kb_layers c) (kb_batch c))) (\<lambda>(latents, ropes).
          kret (c\<lparr>kb_latent := latents, kb_rope := ropes\<rparr>)))
      else kret (c\<lparr>kb_latent_width := 0, kb_rope_width := 0\<rparr>))"

definition read_previous :: "nat \<Rightarrow> kv_buffer \<Rightarrow> kv_buffer kvr" where
  "read_previous flags c =
     (if bit flags 2 then
        kbind get_u32 (\<lambda>channels.
          kfail_if (channels = 0)
            (kbind (klift (new_tensor [kb_batch c, 1, channels])) (\<lambda>t.
             kbind (get_f32s (ts_data t)) (\<lambda>d.
               kret (c\<lparr>kb_previous := Some (t\<lparr>ts_data := d\<rparr>)\<rparr>)))))
      else kret c)"

definition read_buffer :: "kv_buffer kvr" where
  "read_buffer =
     kbind read_header (\<lambda>(c, index_width, flags).
     kbind (read_raw c) (\<lambda>c.
     kbind (read_compression flags index_width c) (\<lambda>c.
     kbind (read_mla flags c) (\<lambda>c.
     kbind (read_previous flags c) (\<lambda>c. kstop (kret c))))))"

definition unmarshal_kv_buffer :: "byte list \<Rightarrow> (kv_error, kv_buffer) outcome" where
  "unmarshal_kv_buffer bs =
     fail_if (length bs < length kv_magic \<or> take (length kv_magic) bs \<noteq> kv_magic) ErrInvalidKVCache
       (obind (read_buffer \<lparr>kr_rest = drop (length kv_magic) bs, kr_err = False\<rparr>) (\<lambda>(c, _). Inr c))"

section \<open>What a round trip keeps\<close>

definition trim_data :: "int \<Rightarrow> f32 list \<Rightarrow> f32 list" where
  "trim_data n xs = take (nat n) xs @ replicate (length xs - nat n) 0"

definition trim_tensor :: "int \<Rightarrow> tensor \<Rightarrow> tensor" where
  "trim_tensor n t = t\<lparr>ts_data := trim_data n (ts_data t)\<rparr>"

text \<open>The entries of a layer, index \<open>i\<close> with the count of its row.\<close>

definition trim_heads :: "(int \<Rightarrow> 'a \<Rightarrow> 'a) \<Rightarrow> nat \<Rightarrow> nat \<Rightarrow> int list \<Rightarrow> 'a list \<Rightarrow> 'a list" where
  "trim_heads trim heads w counts xs = map (\<lambda>i. trim (counts ! (i div heads) * int w) (xs ! i)) [0..<length xs]"

definition trimmed :: "kv_buffer \<Rightarrow> kv_buffer" where
  "trimmed c =
     (let raw = (\<lambda>grid. if kb_stripped c then map (map clear_data) grid
                         else map (map (trim_tensor (kb_length c * int (kb_head_dim c)))) grid) in
      c\<lparr>kb_key := raw (kb_key c), kb_value := raw (kb_value c),
        kb_tail_hidden := map2 (trim_heads trim_data 1 (kb_embedding c)) (kb_tail_length c) (kb_tail_hidden c),
        kb_tail_key := map2 (trim_heads trim_data (kb_heads c) (kb_head_dim c)) (kb_tail_length c) (kb_tail_key c),
        kb_tail_value := map2 (trim_heads trim_data (kb_heads c) (kb_head_dim c)) (kb_tail_length c) (kb_tail_value c),
        kb_comp_key := map2 (trim_heads trim_tensor (kb_heads c) (kb_head_dim c)) (kb_comp_count c) (kb_comp_key c),
        kb_comp_value := map2 (trim_heads trim_tensor (kb_heads c) (kb_head_dim c)) (kb_comp_count c) (kb_comp_value c),
        kb_index_key := map2 (trim_heads trim_tensor (kb_heads c) (kb_index_width c)) (kb_comp_count c) (kb_index_key c),
        kb_latent := map (map (trim_tensor (kb_length c * int (kb_latent_width c)))) (kb_latent c),
        kb_rope := map (map (trim_tensor (kb_length c * int (kb_rope_width c)))) (kb_rope c)\<rparr>)"

text \<open>The header has 32 bits for each size.\<close>

definition sizes_fit :: "kv_buffer \<Rightarrow> bool" where
  "sizes_fit c \<longleftrightarrow>
     list_all (\<lambda>n. n < 2 ^ 31) [kb_batch c, kb_max_len c, kb_layers c, kb_heads c, kb_head_dim c, kb_ratio c, kb_max_blocks c,
       kb_embedding c, kb_kv_width c, kb_index_width c, kb_latent_width c, kb_rope_width c] \<and>
     (\<forall>e. kb_previous c = Some e \<longrightarrow> list_all (\<lambda>n. n < 2 ^ 31) (ts_shape e))"

section \<open>Lemmas: decoding what was written\<close>

definition kv_decodes :: "'a kvr \<Rightarrow> byte list \<Rightarrow> 'a \<Rightarrow> bool" where
  "kv_decodes p bs x \<longleftrightarrow>
     (\<forall>rest. p \<lparr>kr_rest = bs @ rest, kr_err = False\<rparr> = Inr (x, \<lparr>kr_rest = rest, kr_err = False\<rparr>))"

text \<open>A writer and the reader of what it writes.\<close>

definition coded :: "(kv_error, byte list) outcome \<Rightarrow> 'a kvr \<Rightarrow> 'a \<Rightarrow> bool" where
  "coded w p x \<longleftrightarrow> (\<exists>bs. w = Inr bs \<and> kv_decodes p bs x)"

lemma codedI: "kv_decodes p bs x \<Longrightarrow> coded (Inr bs) p x"
  by (simp add: coded_def)

lemma kv_decodes_ret [intro]: "kv_decodes (kret x) [] x"
  by (simp add: kv_decodes_def kret_def)

lemma kv_decodes_bind: "kv_decodes p bs x \<Longrightarrow> kv_decodes (f x) cs y \<Longrightarrow> kv_decodes (kbind p f) (bs @ cs) y"
  by (simp add: kv_decodes_def kbind_def)

lemma kv_decodes_lift: "kv_decodes (f x) bs y \<Longrightarrow> m = Inr x \<Longrightarrow> kv_decodes (kbind (klift m) f) bs y"
  by (simp add: kv_decodes_def kbind_def klift_def)

lemma coded_bind: "coded w p x \<Longrightarrow> coded v (f x) y \<Longrightarrow> coded (then_put w v) (kbind p f) y"
  by (auto simp: coded_def then_put_def intro: kv_decodes_bind)

lemma coded_put: "kv_decodes p bs x \<Longrightarrow> coded v (f x) y \<Longrightarrow> coded (then_put (Inr bs) v) (kbind p f) y"
  by (rule coded_bind [OF codedI])

lemma coded_map: "coded w p x \<Longrightarrow> kv_decodes (f x) [] y \<Longrightarrow> coded w (kbind p f) y"
  using kv_decodes_bind [of p _ x f "[]" y] by (auto simp: coded_def)

lemma coded_lift: "m = Inr x \<Longrightarrow> coded w (f x) y \<Longrightarrow> coded w (kbind (klift m) f) y"
  by (auto simp: coded_def intro: kv_decodes_lift)

lemma coded_skip: "coded w p x \<Longrightarrow> coded (then_put (Inr []) w) p x"
  by (auto simp: coded_def then_put_def)

lemma coded_each:
  assumes "\<And>x. x \<in> set xs \<Longrightarrow> coded (w x) (p x) (g x)"
  shows "coded (put_each w xs) (keach p xs) (map g xs)"
  using assms
proof (induction xs)
  case Nil
  then show ?case by (auto simp: coded_def put_each_def)
next
  case (Cons x xs)
  have "coded (put_each w xs) (keach p xs) (map g xs)" using Cons by simp
  then obtain cs bs where "omap w xs = Inr cs" "kv_decodes (keach p xs) (concat cs) (map g xs)" "w x = Inr bs" "kv_decodes (p x) bs (g x)"
    using Cons.prems [of x] by (auto simp: coded_def put_each_def obind_eq_Inr)
  moreover have "kv_decodes (kbind (p x) (\<lambda>y. kbind (keach p xs) (\<lambda>ys. kret (y # ys)))) (bs @ concat cs @ []) (g x # map g xs)"
    using calculation by (blast intro: kv_decodes_bind)
  ultimately show ?case by (simp add: coded_def put_each_def)
qed

lemma coded_pair: "coded w p x \<Longrightarrow> coded v q y \<Longrightarrow>
    coded (then_put w v) (kbind p (\<lambda>x. kbind q (\<lambda>y. kret (x, y)))) (x, y)"
  by (rule coded_bind) (auto intro: coded_map)

lemma coded_pairs:
  assumes "\<And>i. i < n \<Longrightarrow> coded (w i) (p i) (g i)" "\<And>i. i < n \<Longrightarrow> coded (v i) (q i) (h i)"
  shows "coded (put_each (\<lambda>i. then_put (w i) (v i)) [0..<n]) (read_pairs p q n) (map g [0..<n], map h [0..<n])"
proof -
  have "coded (put_each (\<lambda>i. then_put (w i) (v i)) [0..<n])
      (keach (\<lambda>i. kbind (p i) (\<lambda>x. kbind (q i) (\<lambda>y. kret (x, y)))) [0..<n]) (map (\<lambda>i. (g i, h i)) [0..<n])"
    by (intro coded_each coded_pair) (auto intro: assms)
  then show ?thesis
    unfolding read_pairs_def by (rule coded_map) (simp add: comp_def kv_decodes_ret)
qed

lemma coded_grids:
  assumes "\<And>l i. l < length ns \<Longrightarrow> i < ns ! l \<Longrightarrow> coded (w l i) (p l i) (g l i)"
    "\<And>l i. l < length ns \<Longrightarrow> i < ns ! l \<Longrightarrow> coded (v l i) (q l i) (h l i)"
  shows "coded (put_each (\<lambda>l. put_each (\<lambda>i. then_put (w l i) (v l i)) [0..<ns ! l]) [0..<length ns]) (read_grids p q ns)
    (map (\<lambda>l. map (g l) [0..<ns ! l]) [0..<length ns], map (\<lambda>l. map (h l) [0..<ns ! l]) [0..<length ns])"
proof -
  have "coded (put_each (\<lambda>l. put_each (\<lambda>i. then_put (w l i) (v l i)) [0..<ns ! l]) [0..<length ns])
      (keach (\<lambda>l. read_pairs (p l) (q l) (ns ! l)) [0..<length ns])
      (map (\<lambda>l. (map (g l) [0..<ns ! l], map (h l) [0..<ns ! l])) [0..<length ns])"
    by (intro coded_each coded_pairs) (auto intro: assms)
  then show ?thesis
    unfolding read_grids_def by (rule coded_map) (simp add: comp_def kv_decodes_ret)
qed

lemma kv_decodes_u32: "n < 2 ^ 32 \<Longrightarrow> kv_decodes get_u32 (put_u32 n) n"
  by (simp add: kv_decodes_def get_u32_def put_u32_def need_def le_nat_nat_le_id)

lemma kv_decodes_i32:
  assumes "- (2 ^ 31) \<le> x" "x < 2 ^ 31"
  shows "kv_decodes get_i32 (put_i32 x) x"
proof -
  have "kv_decodes get_u32 (put_i32 x @ []) (nat (x mod 2 ^ 32))"
    using kv_decodes_u32 [of "nat (x mod 2 ^ 32)"] by (simp add: put_u32_def put_i32_def nat_less_iff)
  then have "kv_decodes get_i32 (put_i32 x @ []) (i32 (int (nat (x mod 2 ^ 32))))"
    unfolding get_i32_def by (simp add: kv_decodes_def kbind_def kret_def)
  moreover have "i32 (x mod 2 ^ 32) = x"
  proof -
    have "i32 (x mod 2 ^ 32) = i32 x"
      by (simp add: i32_def signed_take_bit_eq_iff_take_bit_eq take_bit_eq_mod)
    then show ?thesis using assms by (simp add: i32_id)
  qed
  ultimately show ?thesis by simp
qed

lemma length_put_f32s [simp]: "length (put_f32s xs) = 4 * length xs"
  by (induction xs) (simp_all add: put_f32s_def)

lemma f32s_of_put: "f32s_of (length xs) (put_f32s xs @ rest) = xs"
proof (induction xs)
  case (Cons x xs)
  have "unat x < 256 ^ 4" using unsigned_less [of x, where 'a = nat] by simp
  then have "take 4 (put_f32s (x # xs) @ rest) = nat_le 4 (unat x)" "le_nat (nat_le 4 (unat x)) = unat x"
    "drop 4 (put_f32s (x # xs) @ rest) = put_f32s xs @ rest"
    by (simp_all add: put_f32s_def le_nat_nat_le_id)
  with Cons show ?case by simp
qed (simp add: put_f32s_def)

lemma kv_decodes_f32s: "length xs = length dst \<Longrightarrow> kv_decodes (get_f32s dst) (put_f32s xs) xs"
  using f32s_of_put [of xs] by (simp add: kv_decodes_def get_f32s_def need_def)

lemma coded_front:
  assumes "0 \<le> n" "n \<le> int (length xs)" "length dst = length xs"
  shows "coded (put_front n xs) (read_front n dst) (take (nat n) xs @ drop (nat n) dst)"
proof -
  have "kv_decodes (kbind (get_f32s (take (nat n) dst)) (\<lambda>ys. kret (ys @ drop (nat n) dst)))
      (put_f32s (take (nat n) xs) @ []) (take (nat n) xs @ drop (nat n) dst)"
    using assms by (intro kv_decodes_bind [OF kv_decodes_f32s] kv_decodes_ret) simp
  with assms show ?thesis
    by (auto simp: coded_def put_front_def read_front_def intro: kv_decodes_lift)
qed

lemma coded_front_zero:
  assumes "0 \<le> n" "n \<le> int (length xs)" "m = length xs"
  shows "coded (put_front n xs) (read_front n (replicate m 0)) (trim_data n xs)"
  using coded_front [OF assms(1,2), of "replicate m 0"] assms(3) by (simp add: trim_data_def)

lemma coded_tensor:
  assumes "0 \<le> n" "n \<le> int (length (ts_data t))" "fresh = \<lparr>ts_shape = ts_shape t, ts_data = replicate (length (ts_data t)) 0\<rparr>"
  shows "coded (put_front n (ts_data t)) (read_tensor n fresh) (trim_tensor n t)"
proof -
  have "fresh\<lparr>ts_data := trim_data n (ts_data t)\<rparr> = trim_tensor n t"
    by (simp add: assms(3) trim_tensor_def)
  then have "kv_decodes (kret (fresh\<lparr>ts_data := trim_data n (ts_data t)\<rparr>)) [] (trim_tensor n t)"
    by (simp add: kv_decodes_ret)
  then show ?thesis
    unfolding read_tensor_def using coded_front_zero [OF assms(1,2) refl] assms(3) by (auto intro: coded_map)
qed

lemma coded_zero_tensor:
  assumes "0 \<le> n" "n \<le> int (prod_list shape)" "tensor_ok shape t"
  shows "coded (put_front n (ts_data t)) (read_tensor n (zero_tensor shape)) (trim_tensor n t)"
  using assms by (intro coded_tensor) (simp_all add: zero_tensor_like tensor_ok_def)

lemma flag_bit [simp]: "bit (flag k b) j \<longleftrightarrow> b \<and> j = k"
  by (auto simp: flag_def bit_simps)

lemma kv_flags_bits:
  "bit (kv_flags c) 0 \<longleftrightarrow> kb_ratio c > 1" "bit (kv_flags c) (Suc 0) \<longleftrightarrow> kb_index_key c \<noteq> []"
  "bit (kv_flags c) 2 \<longleftrightarrow> kb_previous c \<noteq> None" "bit (kv_flags c) 3 \<longleftrightarrow> kb_stripped c"
  "bit (kv_flags c) 4 \<longleftrightarrow> kb_latent c \<noteq> []"
  by (simp_all add: kv_flags_def bit_or_iff)

lemma layer_flags_bits:
  "bit (kv_layer_flags c l) 0 \<longleftrightarrow> kb_tail_hidden c ! l \<noteq> []" "bit (kv_layer_flags c l) (Suc 0) \<longleftrightarrow> kb_comp_key c ! l \<noteq> []"
  "bit (kv_layer_flags c l) 2 \<longleftrightarrow> kb_index_key c \<noteq> [] \<and> kb_index_key c ! l \<noteq> []"
  by (simp_all add: kv_layer_flags_def bit_or_iff)

lemma flags_small: "kv_flags c < 2 ^ 32" "kv_layer_flags c l < 2 ^ 32"
proof -
  have small: "a OR b < 2 ^ 32" if "a < 2 ^ 32" "b < 2 ^ 32" for a b :: nat
  proof -
    have "take_bit 32 (a OR b) = a OR b" using that by (simp add: take_bit_nat_eq_self)
    then show ?thesis by (metis take_bit_nat_less_exp)
  qed
  have flag: "flag k b < 2 ^ 32" if "k < 32" for k b
    using that power_strict_increasing [of k 32 "2 :: nat"] by (auto simp: flag_def)
  show "kv_flags c < 2 ^ 32" "kv_layer_flags c l < 2 ^ 32"
    unfolding kv_flags_def kv_layer_flags_def by (intro small flag; simp)+
qed

section \<open>Lemmas: one layer\<close>

definition trimmed_layer :: "kv_buffer \<Rightarrow> nat \<Rightarrow> kv_layer" where
  "trimmed_layer c l =
     \<lparr>kl_lens = kb_tail_length c ! l, kl_counts = kb_comp_count c ! l,
      kl_hidden = trim_heads trim_data 1 (kb_embedding c) (kb_tail_length c ! l) (kb_tail_hidden c ! l),
      kl_tail_key = trim_heads trim_data (kb_heads c) (kb_head_dim c) (kb_tail_length c ! l) (kb_tail_key c ! l),
      kl_tail_value = trim_heads trim_data (kb_heads c) (kb_head_dim c) (kb_tail_length c ! l) (kb_tail_value c ! l),
      kl_comp_key = trim_heads trim_tensor (kb_heads c) (kb_head_dim c) (kb_comp_count c ! l) (kb_comp_key c ! l),
      kl_comp_value = trim_heads trim_tensor (kb_heads c) (kb_head_dim c) (kb_comp_count c ! l) (kb_comp_value c ! l),
      kl_index_key = (if kb_index_key c = [] then []
                      else trim_heads trim_tensor (kb_heads c) (kb_index_width c) (kb_comp_count c ! l) (kb_index_key c ! l))\<rparr>"

lemma trim_heads_Nil [simp]: "trim_heads trim heads w counts [] = []"
  by (simp add: trim_heads_def)

lemma put_each_pure: "put_each (\<lambda>x. Inr (g x)) xs = Inr (concat (map g xs))"
  by (induction xs) (auto simp: put_each_def obind_def split: sum.splits)

lemma then_put_pure [simp]: "then_put (Inr a) (Inr b) = Inr (a @ b)"
  by (simp add: then_put_def)

text \<open>The two counters of a row.\<close>

lemma kv_decodes_counters:
  assumes "\<And>i. i < n \<Longrightarrow> 0 \<le> xs ! i \<and> xs ! i < 2 ^ 31" "\<And>i. i < n \<Longrightarrow> 0 \<le> ys ! i \<and> ys ! i < 2 ^ 31"
    "length xs = n" "length ys = n"
  shows "kv_decodes (read_pairs (\<lambda>_. get_i32) (\<lambda>_. get_i32) n)
    (concat (map (\<lambda>i. put_i32 (i32 (xs ! i)) @ put_i32 (i32 (ys ! i))) [0..<n])) (xs, ys)"
proof -
  have "coded (put_each (\<lambda>i. then_put (Inr (put_i32 (i32 (xs ! i)))) (Inr (put_i32 (i32 (ys ! i))))) [0..<n])
      (read_pairs (\<lambda>_. get_i32) (\<lambda>_. get_i32) n) (map (\<lambda>i. xs ! i) [0..<n], map (\<lambda>i. ys ! i) [0..<n])"
  proof (intro coded_pairs codedI)
    fix i assume "i < n"
    then show "kv_decodes get_i32 (put_i32 (i32 (xs ! i))) (xs ! i)" "kv_decodes get_i32 (put_i32 (i32 (ys ! i))) (ys ! i)"
      using assms(1,2) [of i] by (simp_all add: i32_id kv_decodes_i32)
  qed
  then show ?thesis
    using map_nth [of xs] map_nth [of ys] assms(3,4) by (simp add: put_each_pure coded_def)
qed

lemma coded_heads:
  assumes "\<And>i. i < n \<Longrightarrow> coded (w i) (p i) (trim (counts ! (i div heads) * int k) (xs ! i))" "length xs = n"
  shows "coded (put_each w [0..<n]) (keach p [0..<n]) (trim_heads trim heads k counts xs)"
  unfolding trim_heads_def assms(2) by (rule coded_each) (simp add: assms(1))

lemma coded_head_pairs:
  assumes "\<And>i. i < n \<Longrightarrow> coded (w i) (p i) (trim (counts ! (i div heads) * int k) (xs ! i))"
    "\<And>i. i < n \<Longrightarrow> coded (v i) (q i) (trim (counts ! (i div heads) * int k) (ys ! i))"
    "length xs = n" "length ys = n"
  shows "coded (put_each (\<lambda>i. then_put (w i) (v i)) [0..<n]) (read_pairs p q n)
    (trim_heads trim heads k counts xs, trim_heads trim heads k counts ys)"
  unfolding trim_heads_def assms(3,4) by (rule coded_pairs) (simp_all add: assms(1,2))

definition same_geometry :: "kv_buffer \<Rightarrow> kv_buffer \<Rightarrow> bool" where
  "same_geometry d c \<longleftrightarrow>
     kb_batch d = kb_batch c \<and> kb_max_len d = kb_max_len c \<and> kb_layers d = kb_layers c \<and> kb_heads d = kb_heads c \<and>
     kb_head_dim d = kb_head_dim c \<and> kb_ratio d = kb_ratio c \<and> kb_max_blocks d = kb_max_blocks c \<and> kb_embedding d = kb_embedding c"

lemma coded_part:
  assumes "b = c" "b \<Longrightarrow> coded w p x" "\<not> b \<Longrightarrow> x = y"
  shows "coded (if b then w else Inr []) (if c then p else kret y) x"
  using assms by (auto intro: codedI kv_decodes_ret)

lemma coded_layer:
  assumes ok: "kv_ok c" and fit: "sizes_fit c" and l: "l < kb_layers c" and ratio: "kb_ratio c > 1"
    and d: "same_geometry d c"
  shows "coded (put_layer c l) (read_layer d (kb_index_key c \<noteq> []) (kb_index_width c)) (trimmed_layer c l)"
proof -
  have comp: "compression_ok c" and dims: "0 < kb_heads c" "0 < kb_head_dim c"
    and index: "kb_index_key c \<noteq> [] \<Longrightarrow> 0 < kb_index_width c \<and>
      grid_ok (kb_layers c) (kb_batch c * kb_heads c) (tensor_ok [kb_max_blocks c, kb_index_width c]) (kb_index_key c)"
    using ok ratio by (auto simp: kv_ok_def split: if_splits)
  have d_simps: "kb_batch d = kb_batch c" "kb_heads d = kb_heads c" "kb_head_dim d = kb_head_dim c" "kb_ratio d = kb_ratio c"
    "kb_max_blocks d = kb_max_blocks c" "kb_embedding d = kb_embedding c"
    using d by (simp_all add: same_geometry_def)
  let ?n = "kb_batch c * kb_heads c"
  let ?lens = "kb_tail_length c ! l" and ?counts = "kb_comp_count c ! l"
  note counts = layer_counts [OF comp]
  have len: "0 \<le> ?lens ! row \<and> ?lens ! row \<le> int (kb_ratio c)" "0 \<le> ?counts ! row \<and> ?counts ! row \<le> int (kb_max_blocks c)"
    if "row < kb_batch c" for row
    using counts(3) [of l row] counts(6) [of l row] l that by auto
  have head: "i div kb_heads c < kb_batch c" if "i < ?n" for i
    using that row_of_head by simp
  have small: "int (kb_ratio c) < 2 ^ 31" "int (kb_max_blocks c) < 2 ^ 31"
    using fit by (simp_all add: sizes_fit_def)
  have counters: "kv_decodes (read_pairs (\<lambda>_. get_i32) (\<lambda>_. get_i32) (kb_batch c))
      (concat (map (\<lambda>row. put_i32 (i32 (?lens ! row)) @ put_i32 (i32 (?counts ! row))) [0..<kb_batch c])) (?lens, ?counts)"
    by (intro kv_decodes_counters) (use len small counts l in \<open>force+\<close>)
  have tails: "coded (put_front (?lens ! (i div kb_heads c) * int (kb_head_dim c)) xs)
      (read_front (?lens ! (i div kb_heads c) * int (kb_head_dim c)) (replicate (kb_ratio c * kb_head_dim c) 0))
      (trim_data (?lens ! (i div kb_heads c) * int (kb_head_dim c)) xs)"
    if "i < ?n" "length xs = kb_ratio c * kb_head_dim c" for i xs
    using mult_le_bound [of "?lens ! (i div kb_heads c)" "kb_ratio c" "kb_head_dim c"] len(1) [OF head [OF that(1)]] that(2)
    by (intro coded_front_zero) auto
  have hidden: "coded (put_front (?lens ! row * int (kb_embedding c)) xs)
      (read_front (?lens ! row * int (kb_embedding c)) (replicate (kb_ratio c * kb_embedding c) 0))
      (trim_data (?lens ! row * int (kb_embedding c)) xs)"
    if "row < kb_batch c" "length xs = kb_ratio c * kb_embedding c" for row xs
    using mult_le_bound [of "?lens ! row" "kb_ratio c" "kb_embedding c"] len(1) [OF that(1)] that(2)
    by (intro coded_front_zero) auto
  have block: "coded (put_front (?counts ! (i div kb_heads c) * int w) (ts_data t))
      (read_tensor (?counts ! (i div kb_heads c) * int w) (zero_tensor [kb_max_blocks c, w]))
      (trim_tensor (?counts ! (i div kb_heads c) * int w) t)"
    if "i < ?n" "tensor_ok [kb_max_blocks c, w] t" for i w t
    using mult_le_bound [of "?counts ! (i div kb_heads c)" "kb_max_blocks c" w] len(2) [OF head [OF that(1)]] that(2)
    by (intro coded_zero_tensor) auto
  have fresh: "layer_tensors ?n [kb_max_blocks c, w] = Inr (replicate ?n (zero_tensor [kb_max_blocks c, w]))" if "0 < w" for w
    using that compression_okD(2) [OF comp] by simp
  let ?owned = "kb_tail_hidden c ! l \<noteq> []"
  note hidden_ok = layer_hidden [OF comp] and tails_ok = layer_tails [OF comp] and blocks_ok = layer_blocks [OF comp]
    and owns = layer_owned [OF comp l]
  have A: "coded (then_put (put_each (\<lambda>row. put_front (?lens ! row * int (kb_embedding c)) (kb_tail_hidden c ! l ! row)) [0..<kb_batch c])
        (put_each (\<lambda>i. then_put (put_front (?lens ! (i div kb_heads c) * int (kb_head_dim c)) (kb_tail_key c ! l ! i))
                         (put_front (?lens ! (i div kb_heads c) * int (kb_head_dim c)) (kb_tail_value c ! l ! i))) [0..<?n]))
      (kbind (keach (\<lambda>row. read_front (?lens ! row * int (kb_embedding c)) (replicate (kb_ratio c * kb_embedding c) 0)) [0..<kb_batch c]) (\<lambda>hidden.
       kbind (read_pairs (\<lambda>i. read_front (?lens ! (i div kb_heads c) * int (kb_head_dim c)) (replicate (kb_ratio c * kb_head_dim c) 0))
                         (\<lambda>i. read_front (?lens ! (i div kb_heads c) * int (kb_head_dim c)) (replicate (kb_ratio c * kb_head_dim c) 0)) ?n)
         (\<lambda>(keys, values). kret (hidden, keys, values))))
      (kl_hidden (trimmed_layer c l), kl_tail_key (trimmed_layer c l), kl_tail_value (trimmed_layer c l))"
    if "?owned"
  proof (rule coded_bind)
    show "coded (put_each (\<lambda>row. put_front (?lens ! row * int (kb_embedding c)) (kb_tail_hidden c ! l ! row)) [0..<kb_batch c])
      (keach (\<lambda>row. read_front (?lens ! row * int (kb_embedding c)) (replicate (kb_ratio c * kb_embedding c) 0)) [0..<kb_batch c])
      (kl_hidden (trimmed_layer c l))"
      unfolding trimmed_layer_def kv_layer.simps
      using that l hidden_ok by (intro coded_heads) (simp_all add: hidden)
    show "coded (put_each (\<lambda>i. then_put (put_front (?lens ! (i div kb_heads c) * int (kb_head_dim c)) (kb_tail_key c ! l ! i))
           (put_front (?lens ! (i div kb_heads c) * int (kb_head_dim c)) (kb_tail_value c ! l ! i))) [0..<?n])
      (kbind (read_pairs (\<lambda>i. read_front (?lens ! (i div kb_heads c) * int (kb_head_dim c)) (replicate (kb_ratio c * kb_head_dim c) 0))
           (\<lambda>i. read_front (?lens ! (i div kb_heads c) * int (kb_head_dim c)) (replicate (kb_ratio c * kb_head_dim c) 0)) ?n)
         (\<lambda>(keys, values). kret (kl_hidden (trimmed_layer c l), keys, values)))
      (kl_hidden (trimmed_layer c l), kl_tail_key (trimmed_layer c l), kl_tail_value (trimmed_layer c l))"
    proof (rule coded_map)
      show "coded (put_each (\<lambda>i. then_put (put_front (?lens ! (i div kb_heads c) * int (kb_head_dim c)) (kb_tail_key c ! l ! i))
           (put_front (?lens ! (i div kb_heads c) * int (kb_head_dim c)) (kb_tail_value c ! l ! i))) [0..<?n])
        (read_pairs (\<lambda>i. read_front (?lens ! (i div kb_heads c) * int (kb_head_dim c)) (replicate (kb_ratio c * kb_head_dim c) 0))
           (\<lambda>i. read_front (?lens ! (i div kb_heads c) * int (kb_head_dim c)) (replicate (kb_ratio c * kb_head_dim c) 0)) ?n)
        (kl_tail_key (trimmed_layer c l), kl_tail_value (trimmed_layer c l))"
        unfolding trimmed_layer_def kv_layer.simps
        using that l owns tails_ok by (intro coded_head_pairs tails) simp_all
    qed (simp add: kv_decodes_ret)
  qed
  have B: "coded (put_each (\<lambda>i. then_put (put_front (?counts ! (i div kb_heads c) * int (kb_head_dim c)) (ts_data (kb_comp_key c ! l ! i)))
                          (put_front (?counts ! (i div kb_heads c) * int (kb_head_dim c)) (ts_data (kb_comp_value c ! l ! i)))) [0..<?n])
      (kbind (klift (layer_tensors ?n [kb_max_blocks c, kb_head_dim c])) (\<lambda>fresh.
         read_pairs (\<lambda>i. read_tensor (?counts ! (i div kb_heads c) * int (kb_head_dim c)) (fresh ! i))
                    (\<lambda>i. read_tensor (?counts ! (i div kb_heads c) * int (kb_head_dim c)) (fresh ! i)) ?n))
      (kl_comp_key (trimmed_layer c l), kl_comp_value (trimmed_layer c l))"
    if "kb_comp_key c ! l \<noteq> []"
    unfolding trimmed_layer_def kv_layer.simps
    using that l owns blocks_ok by (intro coded_lift [OF fresh [OF dims(2)]] coded_head_pairs) (simp_all add: block)
  have C: "coded (put_each (\<lambda>i. put_front (?counts ! (i div kb_heads c) * int (kb_index_width c)) (ts_data (kb_index_key c ! l ! i))) [0..<?n])
      (kbind (klift (panic_if (\<not> kb_index_key c \<noteq> []) (layer_tensors ?n [kb_max_blocks c, kb_index_width c]))) (\<lambda>fresh.
         keach (\<lambda>i. read_tensor (?counts ! (i div kb_heads c) * int (kb_index_width c)) (fresh ! i)) [0..<?n]))
      (kl_index_key (trimmed_layer c l))"
    if "kb_index_key c \<noteq> [] \<and> kb_index_key c ! l \<noteq> []"
  proof (rule coded_lift)
    show "panic_if (\<not> kb_index_key c \<noteq> []) (layer_tensors ?n [kb_max_blocks c, kb_index_width c]) =
        Inr (replicate ?n (zero_tensor [kb_max_blocks c, kb_index_width c]))"
      using that index compression_okD(2) [OF comp] by simp
    show "coded (put_each (\<lambda>i. put_front (?counts ! (i div kb_heads c) * int (kb_index_width c)) (ts_data (kb_index_key c ! l ! i))) [0..<?n])
       (keach (\<lambda>i. read_tensor (?counts ! (i div kb_heads c) * int (kb_index_width c))
          (replicate ?n (zero_tensor [kb_max_blocks c, kb_index_width c]) ! i)) [0..<?n]) (kl_index_key (trimmed_layer c l))"
      using that l grid_okD [OF conjunct2 [OF index]] unfolding trimmed_layer_def kv_layer.simps
      by (simp, intro coded_heads) (simp_all add: block)
  qed
  have nil: "kb_tail_hidden c ! l = [] \<Longrightarrow> kb_tail_key c ! l = []" "kb_tail_hidden c ! l = [] \<Longrightarrow> kb_tail_value c ! l = []"
    "kb_comp_key c ! l = [] \<Longrightarrow> kb_comp_value c ! l = []"
    using owns by simp_all
  have kl: "kret \<lparr>kl_lens = ?lens, kl_counts = ?counts, kl_hidden = kl_hidden (trimmed_layer c l),
      kl_tail_key = kl_tail_key (trimmed_layer c l), kl_tail_value = kl_tail_value (trimmed_layer c l),
      kl_comp_key = kl_comp_key (trimmed_layer c l), kl_comp_value = kl_comp_value (trimmed_layer c l),
      kl_index_key = kl_index_key (trimmed_layer c l)\<rparr> = kret (trimmed_layer c l)"
    by (simp add: trimmed_layer_def)
  show ?thesis
    unfolding put_layer_def read_layer_def Let_def d_simps
    apply (rule coded_put [OF kv_decodes_u32 [OF flags_small(2)]])
    apply (rule coded_put [OF counters])
    apply (simp only: prod.case layer_flags_bits One_nat_def)
    apply (rule coded_bind [OF coded_part [OF refl A]])
      apply assumption
     apply (simp add: trimmed_layer_def nil)
    apply (simp only: prod.case)
    apply (rule coded_bind [OF coded_part [OF refl B]])
      apply assumption
     apply (simp add: trimmed_layer_def nil)
    apply (simp only: prod.case)
    apply (rule coded_map [OF coded_part [OF refl C]])
      apply assumption
     apply (simp add: trimmed_layer_def)
    apply (auto simp: kl kv_decodes_ret)
    done
qed

section \<open>Lemmas: the whole buffer\<close>

lemma kv_decodes_last: "kv_decodes p bs x \<Longrightarrow> kv_decodes (f x) [] y \<Longrightarrow> kv_decodes (kbind p f) bs y"
  using kv_decodes_bind [of p bs x f "[]" y] by simp

lemma kv_decodes_stop: "kv_decodes p bs x \<Longrightarrow> kv_decodes (kstop p) bs x"
  by (auto simp: kv_decodes_def kstop_def)

lemma kv_decodes_fail_if: "\<not> b \<Longrightarrow> kv_decodes p bs x \<Longrightarrow> kv_decodes (kfail_if b p) bs x"
  by (auto simp: kv_decodes_def kfail_if_def)

text \<open>The buffer after the header has been read, and after the raw keys and values.\<close>

definition header_buffer :: "kv_buffer \<Rightarrow> kv_buffer" where
  "header_buffer c =
     (let grid = replicate (kb_layers c) (replicate (kb_batch c * kb_heads c) (zero_tensor [kb_max_len c, kb_head_dim c])) in
      \<lparr>kb_batch = kb_batch c, kb_max_len = kb_max_len c, kb_layers = kb_layers c, kb_heads = kb_heads c,
       kb_head_dim = kb_head_dim c, kb_key = grid, kb_value = grid, kb_length = kb_length c, kb_previous = None,
       kb_ratio = kb_ratio c, kb_max_blocks = kb_max_blocks c, kb_embedding = kb_embedding c, kb_kv_width = kb_kv_width c,
       kb_tail_hidden = [], kb_tail_key = [], kb_tail_value = [], kb_tail_length = [],
       kb_comp_key = [], kb_comp_value = [], kb_comp_count = [],
       kb_index_width = 0, kb_index_key = [], kb_latent_width = kb_latent_width c, kb_rope_width = kb_rope_width c,
       kb_latent = [], kb_rope = [], kb_stripped = kb_stripped c\<rparr>)"

lemma sizes_fitD:
  assumes "sizes_fit c"
  shows "kb_batch c < 2 ^ 32" "kb_max_len c < 2 ^ 32" "kb_layers c < 2 ^ 32" "kb_heads c < 2 ^ 32" "kb_head_dim c < 2 ^ 32"
    "kb_ratio c < 2 ^ 32" "kb_max_blocks c < 2 ^ 32" "kb_embedding c < 2 ^ 32" "kb_kv_width c < 2 ^ 32"
    "kb_index_width c < 2 ^ 32" "kb_latent_width c < 2 ^ 32" "kb_rope_width c < 2 ^ 32" "kb_max_len c < 2 ^ 31"
  using assms by (auto simp: sizes_fit_def)

lemma kv_decodes_header:
  assumes "kv_ok c" "sizes_fit c"
  shows "kv_decodes read_header (put_header c) (header_buffer c, kb_index_width c, kv_flags c)"
proof -
  note dims = kv_ok_dims [OF assms(1)] and fit = sizes_fitD [OF assms(2)]
  have len: "- (2 ^ 31) \<le> kb_length c" "kb_length c < 2 ^ 31" using dims(6,7) fit(13) by auto
  show ?thesis
    unfolding read_header_def put_header_def
    apply (rule kv_decodes_bind [OF kv_decodes_u32], fact)+
         apply (rule kv_decodes_bind [OF kv_decodes_i32 [OF len]])
         apply (rule kv_decodes_bind [OF kv_decodes_u32], fact)+
    apply (rule kv_decodes_last [OF kv_decodes_u32 [OF flags_small(1)]])
    apply (rule kv_decodes_stop)
    apply (intro kv_decodes_fail_if)
      apply (use dims in simp, use dims in simp)
    apply (rule kv_decodes_lift [OF _ new_kv_buffer_ok [OF dims(5,4)]])
    apply (simp add: header_buffer_def kv_flags_bits Let_def kv_decodes_ret)
    done
qed

lemma grid_map:
  assumes "length xss = n" "\<And>l. l < n \<Longrightarrow> length (xss ! l) = m"
  shows "map (\<lambda>l. map (\<lambda>i. f (xss ! l ! i)) [0..<replicate n m ! l]) [0..<n] = map (map f) xss"
  using assms by (auto simp: list_eq_iff_nth_eq)

lemma put_each_cong: "(\<And>x. x \<in> set xs \<Longrightarrow> f x = g x) \<Longrightarrow> put_each f xs = put_each g xs"
  by (induction xs) (simp_all add: put_each_def obind_def split: sum.splits)

text \<open>Two full grids written in turn are read back, each buffer trimmed to its front.\<close>

lemma coded_full_grids:
  assumes "full_grid layers n (tensor_ok [rows, w]) xss" "full_grid layers n (tensor_ok [rows, v]) yss"
    "0 \<le> p" "p \<le> int rows" "\<And>l. l < layers \<Longrightarrow> m l = n"
  shows "coded (put_each (\<lambda>l. put_each (\<lambda>i. then_put (put_front (p * int w) (ts_data (xss ! l ! i)))
        (put_front (p * int v) (ts_data (yss ! l ! i)))) [0..<m l]) [0..<layers])
    (read_grids (\<lambda>l i. read_tensor (p * int w) (replicate layers (replicate n (zero_tensor [rows, w])) ! l ! i))
      (\<lambda>l i. read_tensor (p * int v) (replicate layers (replicate n (zero_tensor [rows, v])) ! l ! i)) (replicate layers n))
    (map (map (trim_tensor (p * int w))) xss, map (map (trim_tensor (p * int v))) yss)"
proof -
  note xs = full_gridD [OF assms(1)] and ys = full_gridD [OF assms(2)]
  have "coded (put_each (\<lambda>l. put_each (\<lambda>i. then_put (put_front (p * int w) (ts_data (xss ! l ! i)))
        (put_front (p * int v) (ts_data (yss ! l ! i)))) [0..<replicate layers n ! l]) [0..<length (replicate layers n)])
    (read_grids (\<lambda>l i. read_tensor (p * int w) (replicate layers (replicate n (zero_tensor [rows, w])) ! l ! i))
      (\<lambda>l i. read_tensor (p * int v) (replicate layers (replicate n (zero_tensor [rows, v])) ! l ! i)) (replicate layers n))
    (map (\<lambda>l. map (\<lambda>i. trim_tensor (p * int w) (xss ! l ! i)) [0..<replicate layers n ! l]) [0..<length (replicate layers n)],
     map (\<lambda>l. map (\<lambda>i. trim_tensor (p * int v) (yss ! l ! i)) [0..<replicate layers n ! l]) [0..<length (replicate layers n)])"
    using mult_le_bound [OF assms(3,4)] xs(3) ys(3) by (intro coded_grids) (auto intro!: coded_zero_tensor)
  moreover have "put_each (\<lambda>l. put_each (w' l) [0..<replicate layers n ! l]) [0..<layers] = put_each (\<lambda>l. put_each (w' l) [0..<m l]) [0..<layers]"
    for w' :: "nat \<Rightarrow> nat \<Rightarrow> _" using assms(5) by (intro put_each_cong) simp
  ultimately show ?thesis
    using grid_map [OF xs(1,2), of "trim_tensor (p * int w)"] grid_map [OF ys(1,2), of "trim_tensor (p * int v)"] by simp
qed

definition raw_buffer :: "kv_buffer \<Rightarrow> kv_buffer" where
  "raw_buffer c = (header_buffer c)\<lparr>kb_key := kb_key (trimmed c), kb_value := kb_value (trimmed c)\<rparr>"

lemma clear_full_grid:
  assumes "full_grid layers n (tensor_ok shape) grid"
  shows "map (map clear_data) grid = replicate layers (replicate n (zero_tensor shape))"
proof -
  note g = full_gridD [OF assms]
  show ?thesis
    by (intro nth_equalityI)
      (auto simp: g intro!: nth_equalityI simp: clear_data_def zero_tensor_like [OF g(3)])
qed

lemma coded_raw:
  assumes "kv_ok c"
  shows "coded (if \<not> kb_stripped c then
        put_each (\<lambda>layer.
          put_each (\<lambda>i. then_put (put_front (kb_length c * int (kb_head_dim c)) (ts_data (kb_key c ! layer ! i)))
                          (put_front (kb_length c * int (kb_head_dim c)) (ts_data (kb_value c ! layer ! i))))
            [0..<length (kb_key c ! layer)]) [0..<kb_layers c]
      else Inr [])
    (read_raw (header_buffer c)) (raw_buffer c)"
proof (cases "kb_stripped c")
  case True
  then show ?thesis
    using clear_full_grid [OF kv_ok_dims(8) [OF assms]] clear_full_grid [OF kv_ok_dims(9) [OF assms]]
    by (auto intro!: codedI simp: read_raw_def raw_buffer_def header_buffer_def trimmed_def Let_def kv_decodes_ret)
next
  case False
  note dims = kv_ok_dims [OF assms]
  let ?h = "header_buffer c"
  have "coded (put_each (\<lambda>layer.
          put_each (\<lambda>i. then_put (put_front (kb_length c * int (kb_head_dim c)) (ts_data (kb_key c ! layer ! i)))
                          (put_front (kb_length c * int (kb_head_dim c)) (ts_data (kb_value c ! layer ! i))))
            [0..<length (kb_key c ! layer)]) [0..<kb_layers c])
      (kbind (read_grids (\<lambda>l i. read_tensor (kb_length ?h * int (kb_head_dim ?h)) (kb_key ?h ! l ! i))
          (\<lambda>l i. read_tensor (kb_length ?h * int (kb_head_dim ?h)) (kb_value ?h ! l ! i)) (map length (kb_key ?h)))
        (\<lambda>(keys, values). kret (?h\<lparr>kb_key := keys, kb_value := values\<rparr>))) (raw_buffer c)"
  proof (rule coded_map)
    show "coded (put_each (\<lambda>layer.
          put_each (\<lambda>i. then_put (put_front (kb_length c * int (kb_head_dim c)) (ts_data (kb_key c ! layer ! i)))
                          (put_front (kb_length c * int (kb_head_dim c)) (ts_data (kb_value c ! layer ! i))))
            [0..<length (kb_key c ! layer)]) [0..<kb_layers c])
       (read_grids (\<lambda>l i. read_tensor (kb_length ?h * int (kb_head_dim ?h)) (kb_key ?h ! l ! i))
          (\<lambda>l i. read_tensor (kb_length ?h * int (kb_head_dim ?h)) (kb_value ?h ! l ! i)) (map length (kb_key ?h)))
       (map (map (trim_tensor (kb_length c * int (kb_head_dim c)))) (kb_key c),
        map (map (trim_tensor (kb_length c * int (kb_head_dim c)))) (kb_value c))"
      using coded_full_grids [OF dims(8,9,6,7), of "\<lambda>l. length (kb_key c ! l)"] full_gridD(2) [OF dims(8)]
      by (simp add: header_buffer_def Let_def)
  qed (use False in \<open>simp add: raw_buffer_def trimmed_def Let_def kv_decodes_ret\<close>)
  with False show ?thesis
    by (simp add: read_raw_def header_buffer_def Let_def)
qed

text \<open>After the compression state.\<close>

definition comp_buffer :: "kv_buffer \<Rightarrow> kv_buffer" where
  "comp_buffer c = (raw_buffer c)\<lparr>
     kb_tail_hidden := kb_tail_hidden (trimmed c), kb_tail_key := kb_tail_key (trimmed c),
     kb_tail_value := kb_tail_value (trimmed c), kb_tail_length := kb_tail_length c,
     kb_comp_key := kb_comp_key (trimmed c), kb_comp_value := kb_comp_value (trimmed c), kb_comp_count := kb_comp_count c,
     kb_index_width := kb_index_width c, kb_index_key := kb_index_key (trimmed c)\<rparr>"

lemma map2_trim_heads:
  assumes "length counts = n" "length xss = n"
  shows "map (\<lambda>l. trim_heads trim heads w (counts ! l) (xss ! l)) [0..<n] = map2 (trim_heads trim heads w) counts xss"
  using assms by (intro nth_equalityI) simp_all

lemma coded_compression:
  assumes "kv_ok c" "sizes_fit c"
  shows "coded (if kb_ratio c > 1 then put_each (put_layer c) [0..<kb_layers c] else Inr [])
    (read_compression (kv_flags c) (kb_index_width c) (raw_buffer c)) (comp_buffer c)"
proof (cases "kb_ratio c > 1")
  case True
  let ?r = "raw_buffer c" and ?ls = "map (trimmed_layer c) [0..<kb_layers c]"
  have geo: "same_geometry ?r c" and layers: "kb_layers ?r = kb_layers c"
    by (simp_all add: same_geometry_def raw_buffer_def header_buffer_def Let_def)
  have comp: "compression_ok c" using assms(1) True by (simp add: kv_ok_def)
  have lens: "length (kb_tail_length c) = kb_layers c" "length (kb_comp_count c) = kb_layers c"
    "length (kb_tail_hidden c) = kb_layers c" "length (kb_tail_key c) = kb_layers c" "length (kb_tail_value c) = kb_layers c"
    "length (kb_comp_key c) = kb_layers c" "length (kb_comp_value c) = kb_layers c"
    using layer_counts [OF comp] layer_hidden [OF comp] layer_tails [OF comp] layer_blocks [OF comp] by blast+
  have index: "kb_index_key c \<noteq> [] \<Longrightarrow> length (kb_index_key c) = kb_layers c" "kb_index_key c = [] \<Longrightarrow> kb_index_width c = 0"
    using assms(1) by (auto simp: kv_ok_def grid_ok_def split: if_splits)
  have result: "?r\<lparr>kb_tail_hidden := map kl_hidden ?ls, kb_tail_key := map kl_tail_key ?ls, kb_tail_value := map kl_tail_value ?ls,
      kb_tail_length := map kl_lens ?ls, kb_comp_key := map kl_comp_key ?ls, kb_comp_value := map kl_comp_value ?ls,
      kb_comp_count := map kl_counts ?ls, kb_index_width := (if bit (kv_flags c) 1 then kb_index_width c else 0),
      kb_index_key := (if bit (kv_flags c) 1 then map kl_index_key ?ls else [])\<rparr> = comp_buffer c"
    using index map_nth [of "kb_tail_length c"] map_nth [of "kb_comp_count c"]
    by (simp add: comp_buffer_def trimmed_layer_def trimmed_def comp_def kv_flags_bits lens map2_trim_heads)
  have "coded (put_each (put_layer c) [0..<kb_layers c])
      (keach (\<lambda>_. read_layer ?r (bit (kv_flags c) 1) (kb_index_width c)) [0..<kb_layers c]) ?ls"
    using coded_layer [OF assms _ True geo] by (intro coded_each) (simp add: kv_flags_bits)
  then have "coded (put_each (put_layer c) [0..<kb_layers c])
      (read_compression (kv_flags c) (kb_index_width c) ?r) (comp_buffer c)"
    using True unfolding read_compression_def layers kv_flags_bits(1)
    by (simp only: if_True) (rule coded_map, assumption, simp only: result kv_decodes_ret)
  with True show ?thesis by simp
next
  case False
  then have "no_compression c" using assms(1) by (simp add: kv_ok_def)
  moreover have "kb_index_width c = 0" using assms(1) calculation by (simp add: kv_ok_def no_compression_def)
  ultimately have "raw_buffer c\<lparr>kb_ratio := 0, kb_max_blocks := 0, kb_embedding := 0, kb_kv_width := 0\<rparr> = comp_buffer c"
    by (simp add: comp_buffer_def raw_buffer_def header_buffer_def trimmed_def no_compression_def Let_def)
  with False show ?thesis
    by (auto intro!: codedI simp: read_compression_def kv_flags_bits kv_decodes_ret)
qed

text \<open>After the latents, and at last the embedding.\<close>

definition mla_buffer :: "kv_buffer \<Rightarrow> kv_buffer" where
  "mla_buffer c = (comp_buffer c)\<lparr>kb_latent := kb_latent (trimmed c), kb_rope := kb_rope (trimmed c)\<rparr>"

lemma comp_buffer_simps:
  "kb_latent_width (comp_buffer c) = kb_latent_width c" "kb_rope_width (comp_buffer c) = kb_rope_width c"
  "kb_layers (comp_buffer c) = kb_layers c" "kb_batch (comp_buffer c) = kb_batch c" "kb_max_len (comp_buffer c) = kb_max_len c"
  "kb_length (comp_buffer c) = kb_length c" "kb_latent (comp_buffer c) = []" "kb_rope (comp_buffer c) = []"
  "kb_previous (comp_buffer c) = None"
  by (simp_all add: comp_buffer_def raw_buffer_def header_buffer_def Let_def)

lemma coded_mla:
  assumes "kv_ok c"
  shows "coded (if bit (kv_flags c) 4 then
        put_each (\<lambda>layer.
          put_each (\<lambda>row. then_put (put_front (kb_length c * int (kb_latent_width c)) (ts_data (kb_latent c ! layer ! row)))
                            (put_front (kb_length c * int (kb_rope_width c)) (ts_data (kb_rope c ! layer ! row))))
            [0..<kb_batch c]) [0..<kb_layers c]
      else Inr [])
    (read_mla (kv_flags c) (comp_buffer c)) (mla_buffer c)"
proof (cases "kb_latent c = []")
  case True
  then have "kb_rope c = []" "kb_latent_width c = 0" "kb_rope_width c = 0" using assms by (simp_all add: kv_ok_def)
  with True have "comp_buffer c\<lparr>kb_latent_width := 0, kb_rope_width := 0\<rparr> = mla_buffer c"
    by (simp add: mla_buffer_def comp_buffer_def raw_buffer_def header_buffer_def trimmed_def Let_def)
  with True show ?thesis
    by (auto intro!: codedI simp: read_mla_def kv_flags_bits kv_decodes_ret)
next
  case False
  then have mla: "0 < kb_latent_width c" "0 < kb_rope_width c"
    "full_grid (kb_layers c) (kb_batch c) (tensor_ok [kb_max_len c, kb_latent_width c]) (kb_latent c)"
    "full_grid (kb_layers c) (kb_batch c) (tensor_ok [kb_max_len c, kb_rope_width c]) (kb_rope c)"
    using assms by (simp_all add: kv_ok_def)
  note dims = kv_ok_dims [OF assms]
  let ?b = "comp_buffer c"
  let ?l = "replicate (kb_layers c) (replicate (kb_batch c) (zero_tensor [kb_max_len c, kb_latent_width c]))"
  let ?r = "replicate (kb_layers c) (replicate (kb_batch c) (zero_tensor [kb_max_len c, kb_rope_width c]))"
  have enable: "enable_mla (kb_latent_width ?b) (kb_rope_width ?b) ?b =
      (Inr (?b\<lparr>kb_latent := ?l, kb_rope := ?r\<rparr>) :: (kv_error, kv_buffer) outcome)"
    using mla dims(5) by (simp add: enable_mla_def comp_buffer_simps)
  show ?thesis
    unfolding read_mla_def kv_flags_bits
    using coded_full_grids [OF mla(3,4) dims(6,7), of "\<lambda>_. kb_batch c"]
    apply (simp only: False not_False_eq_True if_True)
    apply (rule coded_lift [OF enable])
    apply (rule coded_map)
     apply (simp add: comp_buffer_simps)
    apply (simp add: mla_buffer_def trimmed_def Let_def kv_decodes_ret)
    done
qed

lemma coded_previous:
  assumes "kv_ok c" "sizes_fit c"
  shows "coded (case kb_previous c of
        None \<Rightarrow> Inr []
      | Some e \<Rightarrow> panic_if (length (ts_shape e) < 3) (then_put (Inr (put_u32 (ts_shape e ! 2))) (Inr (put_f32s (ts_data e)))))
    (read_previous (kv_flags c) (mla_buffer c)) (trimmed c)"
proof (cases "kb_previous c")
  case None
  then have "mla_buffer c = trimmed c"
    by (simp add: mla_buffer_def comp_buffer_def raw_buffer_def header_buffer_def trimmed_def Let_def)
  with None show ?thesis
    by (auto intro!: codedI simp: read_previous_def kv_flags_bits kv_decodes_ret)
next
  case (Some e)
  then obtain channels where e: "0 < channels" "tensor_ok [kb_batch c, 1, channels] e"
    using assms(1) by (auto simp: kv_ok_def)
  then have shape: "ts_shape e = [kb_batch c, 1, channels]" "length (ts_data e) = kb_batch c * channels"
    by (simp_all add: tensor_ok_def)
  have fits: "channels < 2 ^ 32" using assms(2) Some shape by (simp add: sizes_fit_def)
  have batch: "kb_batch (mla_buffer c) = kb_batch c" by (simp add: mla_buffer_def comp_buffer_simps)
  have fresh: "new_tensor [kb_batch c, 1, channels] = (Inr (zero_tensor [kb_batch c, 1, channels]) :: (kv_error, tensor) outcome)"
    using e(1) kv_ok_dims(1) [OF assms(1)] by simp
  have result: "mla_buffer c\<lparr>kb_previous := Some (zero_tensor [kb_batch c, 1, channels]\<lparr>ts_data := ts_data e\<rparr>)\<rparr> = trimmed c"
    using Some shape(1) by (cases e)
      (simp add: mla_buffer_def comp_buffer_def raw_buffer_def header_buffer_def trimmed_def zero_tensor_def Let_def)
  have "kv_decodes (read_previous (kv_flags c) (mla_buffer c)) (put_u32 channels @ put_f32s (ts_data e)) (trimmed c)"
    unfolding read_previous_def kv_flags_bits batch
    apply (simp only: Some option.distinct not_False_eq_True if_True)
    apply (rule kv_decodes_bind [OF kv_decodes_u32 [OF fits]])
    apply (rule kv_decodes_fail_if)
    using e(1) apply simp
    apply (rule kv_decodes_lift [OF _ fresh])
    apply (rule kv_decodes_last [OF kv_decodes_f32s])
     apply (simp add: shape zero_tensor_def)
    apply (simp only: result kv_decodes_ret)
    done
  with Some shape show ?thesis by (simp add: codedI)
qed

text \<open>What is written is read back, up to the unused rest of the buffers.\<close>

lemma coded_buffer:
  assumes "kv_ok c" "sizes_fit c"
  shows "\<exists>bs. kv_marshal_binary c = Inr (kv_magic @ bs) \<and> kv_decodes read_buffer bs (trimmed c)"
proof -
  note parts = coded_raw [OF assms(1)] coded_compression [OF assms] coded_mla [OF assms(1)]
  have "\<exists>bs. kv_marshal_binary c = then_put (Inr kv_magic) (Inr bs) \<and> kv_decodes read_buffer bs (trimmed c)"
  proof -
    let ?body = "then_put (Inr (put_header c))
     (then_put (if \<not> kb_stripped c then
          put_each (\<lambda>layer.
            put_each (\<lambda>i. then_put (put_front (kb_length c * int (kb_head_dim c)) (ts_data (kb_key c ! layer ! i)))
                            (put_front (kb_length c * int (kb_head_dim c)) (ts_data (kb_value c ! layer ! i))))
              [0..<length (kb_key c ! layer)]) [0..<kb_layers c]
        else Inr [])
     (then_put (if kb_ratio c > 1 then put_each (put_layer c) [0..<kb_layers c] else Inr [])
     (then_put (if bit (kv_flags c) 4 then
          put_each (\<lambda>layer.
            put_each (\<lambda>row. then_put (put_front (kb_length c * int (kb_latent_width c)) (ts_data (kb_latent c ! layer ! row)))
                              (put_front (kb_length c * int (kb_rope_width c)) (ts_data (kb_rope c ! layer ! row))))
              [0..<kb_batch c]) [0..<kb_layers c]
        else Inr [])
       (case kb_previous c of
          None \<Rightarrow> Inr []
        | Some e \<Rightarrow> panic_if (length (ts_shape e) < 3) (then_put (Inr (put_u32 (ts_shape e ! 2))) (Inr (put_f32s (ts_data e))))))))"
    have "coded ?body read_buffer (trimmed c)"
      unfolding read_buffer_def
      apply (rule coded_put [OF kv_decodes_header [OF assms]])
      apply (simp only: prod.case)
      apply (rule coded_bind [OF parts(1)])
      apply (rule coded_bind [OF parts(2)])
      apply (rule coded_bind [OF parts(3)])
      apply (rule coded_map [OF coded_previous [OF assms]])
      apply (intro kv_decodes_stop kv_decodes_ret)
      done
    then obtain bs where "?body = Inr bs" "kv_decodes read_buffer bs (trimmed c)" by (auto simp: coded_def)
    moreover have "kv_marshal_binary c = then_put (Inr kv_magic) ?body"
      by (simp add: kv_marshal_binary_def Let_def)
    ultimately show ?thesis by auto
  qed
  then show ?thesis by simp
qed

lemma unmarshal_magic:
  "unmarshal_kv_buffer (kv_magic @ bs) = obind (read_buffer \<lparr>kr_rest = bs, kr_err = False\<rparr>) (\<lambda>(c, _). Inr c)"
  by (simp add: unmarshal_kv_buffer_def)

text \<open>
  C14. A well-formed KV buffer is written without an error and read back as it was, with the elements behind the live
  part of each buffer zeroed (those of the raw keys and values altogether if they were stripped): positions, counts,
  compression tails, compressed entries, indexer keys, latents and the embedding included.
\<close>
theorem kv_codec_roundtrip:
  assumes "kv_ok c" "sizes_fit c"
  shows "obind (kv_marshal_binary c) unmarshal_kv_buffer = Inr (trimmed c)"
proof -
  obtain bs where bs: "kv_marshal_binary c = Inr (kv_magic @ bs)" "kv_decodes read_buffer bs (trimmed c)"
    using coded_buffer [OF assms] by blast
  from bs(2) have "read_buffer \<lparr>kr_rest = bs @ [], kr_err = False\<rparr> = Inr (trimmed c, \<lparr>kr_rest = [], kr_err = False\<rparr>)"
    unfolding kv_decodes_def by blast
  with bs(1) show ?thesis by (simp add: unmarshal_magic)
qed

lemma example_kv_fits: "sizes_fit example_kv"
  by (simp add: sizes_fit_def example_kv_def)

theorem kv_codec_roundtrip_witness:
  "\<exists>c. obind (kv_marshal_binary example_kv) unmarshal_kv_buffer = Inr c \<and> kb_tail_key c = [[[3, 0], [6, 0]]] \<and> kb_length c = 3"
proof -
  have "kb_tail_key (trimmed example_kv) = [[[3, 0], [6, 0]]]" "kb_length (trimmed example_kv) = 3"
    by code_simp+
  then show ?thesis
    using kv_codec_roundtrip [OF example_kv_ok example_kv_fits] by blast
qed

end
