(* ===== verification/Kv_Cache.thy ===== *)
theory Kv_Cache
  imports Cache Kv_Codec
begin

text \<open>
  The cache manager of src/inference/cache.go over the KV buffers of src/model: the operations that \<open>Cache\<close> takes as a
  parameter are those of \<open>Kv_Buffer\<close> and \<open>Kv_Codec\<close>. A panic while reading a file back counts as a failed read; a file
  the cache has written never causes one.
\<close>

section \<open>The operations\<close>

definition ok_value :: "('e, 'a) outcome \<Rightarrow> 'a option" where
  "ok_value m = (case m of Inr x \<Rightarrow> Some x | Inl e \<Rightarrow> None)"

definition kv_buffer_ops :: "kv_buffer kv_ops" where
  "kv_buffer_ops =
     \<lparr>kv_bytes = (\<lambda>c. int (bytes_allocated c)), kv_compressed = compression_enabled, kv_strip = strip_raw,
      kv_marshal = (\<lambda>c. ok_value (kv_marshal_binary c)), kv_unmarshal = (\<lambda>bs. ok_value (unmarshal_kv_buffer bs))\<rparr>"

lemma ok_value_simps [simp]: "ok_value (Inr x) = Some x" "ok_value (Inl e) = None"
  by (simp_all add: ok_value_def)

section \<open>Stripping and trimming\<close>

lemma tensor_ok_clear [simp]: "tensor_ok shape (clear_data t) \<longleftrightarrow> tensor_ok shape t"
  by (simp add: tensor_ok_def clear_data_def)

lemma full_grid_map:
  "(\<And>t. P t \<Longrightarrow> Q (f t)) \<Longrightarrow> full_grid layers n P grid \<Longrightarrow> full_grid layers n Q (map (map f) grid)"
  by (simp add: full_grid_def all_cells_def)

lemma strip_raw_ok:
  assumes "kv_ok c"
  shows "kv_ok (strip_raw c)"
proof (cases "kb_ratio c \<le> 1")
  case False
  then have "compression_ok (c\<lparr>kb_key := x, kb_value := y, kb_stripped := z\<rparr>)" for x y z
    using assms by (simp add: kv_ok_def compression_ok_def Let_def)
  with assms False show ?thesis
    by (auto simp: strip_raw_def kv_ok_def intro: full_grid_map [of "tensor_ok shape" for shape, rotated])
qed (use assms in \<open>simp add: strip_raw_def\<close>)

lemma strip_raw_fits: "sizes_fit c \<Longrightarrow> sizes_fit (strip_raw c)"
  by (simp add: strip_raw_def sizes_fit_def)

lemma stored_form_ok:
  assumes "kv_ok s" "sizes_fit s"
  shows "kv_ok (stored_form kv_buffer_ops opts s)" "sizes_fit (stored_form kv_buffer_ops opts s)"
  using assms by (simp_all add: stored_form_def kv_buffer_ops_def strip_raw_ok strip_raw_fits)

lemma trim_data_idem [simp]: "trim_data n (trim_data n xs) = trim_data n xs"
  by (simp add: trim_data_def min_def)

lemma trim_data_length [simp]: "length (trim_data n xs) = length xs"
  by (simp add: trim_data_def)

lemma trim_tensor_idem [simp]: "trim_tensor n (trim_tensor n t) = trim_tensor n t"
  by (simp add: trim_tensor_def)

lemma clear_data_idem [simp]: "clear_data (clear_data t) = clear_data t"
  by (simp add: clear_data_def)

lemma trim_heads_idem [simp]:
  "trim_heads trim_data heads w counts (trim_heads trim_data heads w counts xs) = trim_heads trim_data heads w counts xs"
  "trim_heads trim_tensor heads w counts (trim_heads trim_tensor heads w counts ts) = trim_heads trim_tensor heads w counts ts"
  by (simp_all add: trim_heads_def)

lemma map2_trim_idem:
  "map2 (trim_heads trim_data heads w) cs (map2 (trim_heads trim_data heads w) cs xss) = map2 (trim_heads trim_data heads w) cs xss"
  "map2 (trim_heads trim_tensor heads w) cs (map2 (trim_heads trim_tensor heads w) cs tss) =
    map2 (trim_heads trim_tensor heads w) cs tss"
  by (intro nth_equalityI; simp)+

lemma trimmed_idem [simp]: "trimmed (trimmed c) = trimmed c"
  by (simp add: trimmed_def Let_def map2_trim_idem comp_def)

lemma ops_roundtrip:
  assumes "kv_ok s" "sizes_fit s"
  shows "Option.bind (kv_marshal kv_buffer_ops s) (kv_unmarshal kv_buffer_ops) = Some (trimmed s)"
proof -
  obtain bs where "kv_marshal_binary s = Inr (kv_magic @ bs)" "kv_decodes read_buffer bs (trimmed s)"
    using coded_buffer [OF assms] by blast
  moreover have "read_buffer \<lparr>kr_rest = bs, kr_err = False\<rparr> = Inr (trimmed s, \<lparr>kr_rest = [], kr_err = False\<rparr>)"
    using calculation(2) unfolding kv_decodes_def by (metis append_Nil2)
  ultimately show ?thesis by (simp add: kv_buffer_ops_def unmarshal_magic)
qed

text \<open>
  C29. The cache over KV buffers: if all that was stored is well-formed, a hit, from memory or from disk, gives a buffer
  that agrees on all live parts with what was last stored for the matched tokens (stripped where the options ask for
  it); and where an entry qualifies, a lookup misses only when the operating system cannot read the entry's file.
\<close>
theorem kv_cache_lookup:
  assumes "cache_reach kv_buffer_ops hash (new_cache files ok opts) c h" "\<And>bs. hash bs \<noteq> []"
    and "\<And>ts s. h ts = Some s \<Longrightarrow> kv_ok s \<and> sizes_fit s"
    and "set (ord (cm_entries (cache_expire now c))) = set (cm_entries (cache_expire now c))"
    and "cache_lookup kv_buffer_ops ord io now tokens c = (r, c')"
  shows "case r of
      Some (s', n) \<Rightarrow> 0 < n \<and> n < length tokens \<and>
        (\<exists>s. h (take n tokens) = Some s \<and>
          trimmed s' = trimmed (stored_form kv_buffer_ops (effective_options ok opts) s))
    | None \<Rightarrow> (\<forall>(k, e) \<in> set (cm_entries (cache_expire now c)). \<not> candidate tokens e) \<or> \<not> io"
proof (cases r)
  case None
  note miss = lookup_facts(2) [OF reach_inv_cache [OF assms(1,2)] assms(2,4,5), unfolded None option.case]
  from miss show ?thesis
  proof (elim disjE exE conjE)
    fix k e s
    assume "h (ce_tokens e) = Some s" "io \<longrightarrow> Option.bind (kv_marshal kv_buffer_ops
        (stored_form kv_buffer_ops (effective_options ok opts) s)) (kv_unmarshal kv_buffer_ops) = None"
    then have "\<not> io" using ops_roundtrip [OF stored_form_ok] assms(3) by fastforce
    with None show ?thesis by simp
  qed (simp add: None)
next
  case (Some p)
  obtain s' n where p: "p = (s', n)" by fastforce
  from lookup_facts(2) [OF reach_inv_cache [OF assms(1,2)] assms(2,4,5), unfolded Some p option.case prod.case]
  obtain s where hit: "0 < n" "n < length tokens" "h (take n tokens) = Some s"
    "s' = stored_form kv_buffer_ops (effective_options ok opts) s \<or>
      Option.bind (kv_marshal kv_buffer_ops (stored_form kv_buffer_ops (effective_options ok opts) s)) (kv_unmarshal kv_buffer_ops) = Some s'"
    by blast
  then have "trimmed s' = trimmed (stored_form kv_buffer_ops (effective_options ok opts) s)"
    using ops_roundtrip [OF stored_form_ok] assms(3) by fastforce
  with hit Some p show ?thesis by simp
qed

definition example_kv_cache :: "kv_buffer cache" where
  "example_kv_cache = new_cache [] True
     \<lparr>co_max_entries = 2, co_max_bytes = 0, co_ttl = 0, co_disk_dir = [], co_strip_swa = True\<rparr>"

theorem kv_cache_lookup_witness:
  "\<exists>c c' s. cache_store kv_buffer_ops example_hash True 0 [7, 8] (Some example_kv) example_kv_cache = Some c \<and>
    cache_lookup kv_buffer_ops rev True 5 [7, 8, 9] c = (Some (s, 2), c') \<and>
    kb_tail_key (trimmed s) = [[[3, 0], [6, 0]]] \<and> kb_key (trimmed s) \<noteq> kb_key example_kv"
proof -
  have "case cache_store kv_buffer_ops example_hash True 0 [7, 8] (Some example_kv) example_kv_cache of
      Some c \<Rightarrow> map_option snd (fst (cache_lookup kv_buffer_ops rev True 5 [7, 8, 9] c)) = Some 2 | None \<Rightarrow> False"
    by code_simp
  from store_case [OF this] obtain c where stored_c:
    "cache_store kv_buffer_ops example_hash True 0 [7, 8] (Some example_kv) example_kv_cache = Some c"
    "map_option snd (fst (cache_lookup kv_buffer_ops rev True 5 [7, 8, 9] c)) = Some 2"
    by blast
  moreover obtain r c' where hit: "cache_lookup kv_buffer_ops rev True 5 [7, 8, 9] c = (r, c')" by fastforce
  ultimately obtain s where "r = Some (s, 2)" by auto
  with stored_c(1) hit have c:
    "cache_store kv_buffer_ops example_hash True 0 [7, 8] (Some example_kv) example_kv_cache = Some c"
    "cache_lookup kv_buffer_ops rev True 5 [7, 8, 9] c = (Some (s, 2), c')"
    by simp_all
  let ?opts = "\<lparr>co_max_entries = 2, co_max_bytes = 0, co_ttl = 0, co_disk_dir = [], co_strip_swa = True\<rparr>"
  have stored: "kv_ok s \<and> sizes_fit s" if "[[7, 8 :: int] \<mapsto> example_kv] ts = Some s" for ts s
    using that example_kv_ok example_kv_fits by (simp split: if_splits)
  have "trimmed s = trimmed (stored_form kv_buffer_ops (effective_options True ?opts) example_kv)"
    using kv_cache_lookup [OF cache_reach.stored [OF cache_reach.start c(1) [unfolded example_kv_cache_def]] _ stored _ c(2)]
    by (simp add: example_hash_def)
  moreover have "kb_tail_key (trimmed (stored_form kv_buffer_ops (effective_options True ?opts) example_kv)) = [[[3, 0], [6, 0]]]"
    "kb_key (trimmed (stored_form kv_buffer_ops (effective_options True ?opts) example_kv)) \<noteq> kb_key example_kv"
    by code_simp+
  ultimately show ?thesis using c by metis
qed

end
