(* ===== verification/Kv_Ops.thy ===== *)
theory Kv_Ops
  imports Kv_Buffer
begin

text \<open>
  What the operations of \<open>Kv_Buffer\<close> do, on well-formed buffers: keys and values are appended, positions taken back,
  a prefill is spread over the rows of a batch, and the compression tail turns a stream of rows into entries.
\<close>

section \<open>Keys and values\<close>

definition live_key :: "kv_buffer \<Rightarrow> nat \<Rightarrow> nat \<Rightarrow> nat \<Rightarrow> f32 list" where
  "live_key c layer row head = take (nat (kb_length c * int (kb_head_dim c))) (ts_data (kb_key c ! layer ! head_index c row head))"

definition live_value :: "kv_buffer \<Rightarrow> nat \<Rightarrow> nat \<Rightarrow> nat \<Rightarrow> f32 list" where
  "live_value c layer row head = take (nat (kb_length c * int (kb_head_dim c))) (ts_data (kb_value c ! layer ! head_index c row head))"

lemma head_index_bound:
  assumes "row < batch" "head < heads"
  shows "row * heads + head < batch * (heads :: nat)"
proof -
  have "row * heads + head < row * heads + heads" using assms(2) by simp
  also have "\<dots> = Suc row * heads" by simp
  also have "\<dots> \<le> batch * heads" using assms(1) by (intro mult_le_mono1) simp
  finally show ?thesis .
qed

lemma head_index_inj:
  assumes "head < heads" "head' < heads" "row * heads + head = row' * heads + (head' :: nat)"
  shows "row = row'" "head = head'"
proof -
  have "(row * heads + head) div heads = row" "(row' * heads + head') div heads = row'"
    using assms(1,2) by simp_all
  with assms(3) show "row = row'" by simp
  with assms(3) show "head = head'" by simp
qed

text \<open>Copying a token's rows to a tensor at a position: what is in front and what is behind stays.\<close>

lemma copy_data_ok:
  assumes "tensor_ok [rows, w] t" "0 \<le> p" "nat p + n \<le> rows" "length src = n * w"
  obtains t' where "copy_data (p * int w) src t = (Inr t' :: (kv_error, tensor) outcome)" "tensor_ok [rows, w] t'"
    "take ((nat p + n) * w) (ts_data t') = take (nat p * w) (ts_data t) @ src"
    "take (nat p * w) (ts_data t') = take (nat p * w) (ts_data t)"
proof -
  have len: "length (ts_data t) = rows * w" using assms(1) by (simp add: tensor_ok_def)
  have off: "nat (p * int w) = nat p * w" using assms(2) by (simp add: nat_mult_distrib)
  have fits: "nat p * w + n * w \<le> rows * w"
    using mult_le_mono1 [OF assms(3), of w] by (simp add: add_mult_distrib)
  define d where "d = take (nat p * w) (ts_data t) @ src @ drop (nat p * w + n * w) (ts_data t)"
  have "copy_into (p * int w) src (ts_data t) = (Inr d :: (kv_error, f32 list) outcome)"
    using copy_into_fits [of "p * int w" src "ts_data t"] assms(2,4) fits by (simp add: off len d_def)
  then have "copy_data (p * int w) src t = (Inr (t\<lparr>ts_data := d\<rparr>) :: (kv_error, tensor) outcome)"
    by (simp add: copy_data_def)
  moreover have "tensor_ok [rows, w] (t\<lparr>ts_data := d\<rparr>)"
    using assms(1,4) fits by (simp add: tensor_ok_def d_def)
  ultimately show ?thesis
    using assms(4) fits add_leD1 [OF fits]
    by (intro that [of "t\<lparr>ts_data := d\<rparr>"]) (simp_all add: d_def len add_mult_distrib min_absorb2 del: mult_le_cancel2)
qed

lemma data_prefix_nat: "n \<le> length (ts_data t) \<Longrightarrow> data_prefix (int n) t = Inr (take n (ts_data t))"
  by (simp add: data_prefix_def prefix_of_def)

lemma full_grid_put:
  assumes "full_grid layers n P grid" "P x"
  shows "full_grid layers n P (put_cell l i x grid)"
proof -
  have "length ys = n" if "ys \<in> set (put_cell l i x grid)" for ys
    using that full_gridD(1,2) [OF assms(1)] by (metis in_set_conv_nth put_cell_simps)
  then show ?thesis
    using assms by (simp add: full_grid_def all_cells_put)
qed

lemma kv_ok_key_value:
  assumes "kv_ok c" "full_grid (kb_layers c) (kb_batch c * kb_heads c) (tensor_ok [kb_max_len c, kb_head_dim c]) keys"
    "full_grid (kb_layers c) (kb_batch c * kb_heads c) (tensor_ok [kb_max_len c, kb_head_dim c]) vs"
  shows "kv_ok (c\<lparr>kb_key := keys, kb_value := vs\<rparr>)"
proof -
  have "compression_ok (c\<lparr>kb_key := keys, kb_value := vs\<rparr>) = compression_ok c"
    "no_compression (c\<lparr>kb_key := keys, kb_value := vs\<rparr>) = no_compression c"
    by (simp_all add: compression_ok_def no_compression_def Let_def)
  with assms show ?thesis by (simp add: kv_ok_def)
qed

lemma kv_ok_length:
  assumes "kv_ok c" "0 \<le> p" "p \<le> int (kb_max_len c)"
  shows "kv_ok (c\<lparr>kb_length := p\<rparr>)"
proof -
  have "compression_ok (c\<lparr>kb_length := p\<rparr>) = compression_ok c" "no_compression (c\<lparr>kb_length := p\<rparr>) = no_compression c"
    by (simp_all add: compression_ok_def no_compression_def Let_def)
  with assms show ?thesis by (simp add: kv_ok_def)
qed

lemma kv_ok_small: "kv_ok c \<Longrightarrow> kb_max_len c < 2 ^ 31"
  by (simp add: kv_ok_def)

lemma kv_advance_ok:
  assumes "kv_ok c" "0 \<le> n" "kb_length c + n \<le> int (kb_max_len c)"
  shows "kv_advance n c = c\<lparr>kb_length := kb_length c + n\<rparr>" "kv_ok (kv_advance n c)"
proof -
  have "i32 n = n" "i32 (kb_length c + n) = kb_length c + n"
    using assms(2,3) kv_ok_dims(6,7) [OF assms(1)] kv_ok_small [OF assms(1)] by (auto intro!: i32_id)
  then show "kv_advance n c = c\<lparr>kb_length := kb_length c + n\<rparr>" by (simp add: kv_advance_def)
  then show "kv_ok (kv_advance n c)"
    using assms kv_ok_dims(6) [OF assms(1)] by (simp add: kv_ok_length)
qed

lemma kv_set_position_ok:
  assumes "kv_ok c" "0 \<le> p" "p \<le> int (kb_max_len c)"
  shows "kv_set_position p c = Inr (c\<lparr>kb_length := p\<rparr>)" "kv_ok (c\<lparr>kb_length := p\<rparr>)"
proof -
  have "i32 p = p" using assms(2,3) kv_ok_small [OF assms(1)] by (auto intro!: i32_id)
  with assms show "kv_set_position p c = Inr (c\<lparr>kb_length := p\<rparr>)" by (simp add: kv_set_position_def)
qed (use assms in \<open>simp add: kv_ok_length\<close>)

text \<open>One write, in full.\<close>

lemma write_key_value_ok:
  assumes ok: "kv_ok c" and cell: "layer < kb_layers c" "row < kb_batch c" "head < kb_heads c"
    and len: "length k = n * kb_head_dim c" "length v = n * kb_head_dim c" and room: "kb_length c + int n \<le> int (kb_max_len c)"
  obtains tk tv where
    "write_key_value layer row head k v c = Inr ((live_key c layer row head @ k, live_value c layer row head @ v),
       c\<lparr>kb_key := put_cell layer (head_index c row head) tk (kb_key c), kb_value := put_cell layer (head_index c row head) tv (kb_value c)\<rparr>)"
    "tensor_ok [kb_max_len c, kb_head_dim c] tk" "tensor_ok [kb_max_len c, kb_head_dim c] tv"
    "take ((nat (kb_length c) + n) * kb_head_dim c) (ts_data tk) = live_key c layer row head @ k"
    "take ((nat (kb_length c) + n) * kb_head_dim c) (ts_data tv) = live_value c layer row head @ v"
    "take (nat (kb_length c) * kb_head_dim c) (ts_data tk) = live_key c layer row head"
    "take (nat (kb_length c) * kb_head_dim c) (ts_data tv) = live_value c layer row head"
proof -
  note dims = kv_ok_dims [OF ok]
  let ?i = "head_index c row head" and ?p = "kb_length c"
  have i: "?i < kb_batch c * kb_heads c" using head_index_bound [OF cell(2,3)] by (simp add: head_index_def)
  note keys = full_gridD [OF dims(8)] and vals = full_gridD [OF dims(9)]
  have tok: "tensor_ok [kb_max_len c, kb_head_dim c] (kb_key c ! layer ! ?i)" "tensor_ok [kb_max_len c, kb_head_dim c] (kb_value c ! layer ! ?i)"
    using keys(3) vals(3) cell(1) i by blast+
  have fits: "nat ?p + n \<le> kb_max_len c" using room dims(6) by linarith
  obtain tk where tk: "copy_data (?p * int (kb_head_dim c)) k (kb_key c ! layer ! ?i) = Inr tk" "tensor_ok [kb_max_len c, kb_head_dim c] tk"
    "take ((nat ?p + n) * kb_head_dim c) (ts_data tk) = take (nat ?p * kb_head_dim c) (ts_data (kb_key c ! layer ! ?i)) @ k"
    "take (nat ?p * kb_head_dim c) (ts_data tk) = take (nat ?p * kb_head_dim c) (ts_data (kb_key c ! layer ! ?i))"
    using copy_data_ok [OF tok(1) dims(6) fits len(1)] by blast
  obtain tv where tv: "copy_data (?p * int (kb_head_dim c)) v (kb_value c ! layer ! ?i) = Inr tv" "tensor_ok [kb_max_len c, kb_head_dim c] tv"
    "take ((nat ?p + n) * kb_head_dim c) (ts_data tv) = take (nat ?p * kb_head_dim c) (ts_data (kb_value c ! layer ! ?i)) @ v"
    "take (nat ?p * kb_head_dim c) (ts_data tv) = take (nat ?p * kb_head_dim c) (ts_data (kb_value c ! layer ! ?i))"
    using copy_data_ok [OF tok(2) dims(6) fits len(2)] by blast
  have live: "live_key c layer row head = take (nat ?p * kb_head_dim c) (ts_data (kb_key c ! layer ! ?i))"
    "live_value c layer row head = take (nat ?p * kb_head_dim c) (ts_data (kb_value c ! layer ! ?i))"
    using dims(6) by (simp_all add: live_key_def live_value_def nat_mult_distrib)
  have upd: "update_cell layer ?i (copy_data (?p * int (kb_head_dim c)) k) (kb_key c) = Inr (put_cell layer ?i tk (kb_key c))"
    "update_cell layer ?i (copy_data (?p * int (kb_head_dim c)) v) (kb_value c) = Inr (put_cell layer ?i tv (kb_value c))"
    using keys(1,2) vals(1,2) cell(1) i tk(1) tv(1) by (simp_all add: update_cell_def)
  have at: "put_cell layer ?i tk (kb_key c) ! layer ! ?i = tk" "put_cell layer ?i tv (kb_value c) ! layer ! ?i = tv"
    using keys(1,2) vals(1,2) cell(1) i by (simp_all add: put_cell_nth)
  have end_at: "(?p + int (length k div kb_head_dim c)) * int (kb_head_dim c) = int ((nat ?p + n) * kb_head_dim c)"
    using dims(4,6) len(1) by simp
  have within: "(nat ?p + n) * kb_head_dim c \<le> kb_max_len c * kb_head_dim c" by (rule mult_le_mono1 [OF fits])
  have "length (ts_data tk) = kb_max_len c * kb_head_dim c" "length (ts_data tv) = kb_max_len c * kb_head_dim c"
    using tk(2) tv(2) by (simp_all add: tensor_ok_def)
  then have fulls: "data_prefix (int ((nat ?p + n) * kb_head_dim c)) tk = Inr (live_key c layer row head @ k)"
    "data_prefix (int ((nat ?p + n) * kb_head_dim c)) tv = Inr (live_value c layer row head @ v)"
    using within by (simp_all only: data_prefix_nat tk(3) tv(3) live)
  have "write_key_value layer row head k v c = Inr ((live_key c layer row head @ k, live_value c layer row head @ v),
       c\<lparr>kb_key := put_cell layer ?i tk (kb_key c), kb_value := put_cell layer ?i tv (kb_value c)\<rparr>)"
    using dims(4) unfolding write_key_value_def Let_def end_at by (simp only: upd obind_simps at fulls) simp
  then show ?thesis
    using tk tv live by (intro that [where tk = tk and tv = tv]) simp_all
qed

text \<open>
  C30. Writing a token's keys and values gives attention the live rows of its head followed by the new ones. The buffer
  stays well-formed; once the position is advanced the new rows are live, no other head's buffer is touched, and
  setting the position back, as speculative decoding does, restores what was live before, in every head.
\<close>
theorem write_key_value_appends:
  assumes "kv_ok c" "layer < kb_layers c" "row < kb_batch c" "head < kb_heads c"
    "length k = n * kb_head_dim c" "length v = n * kb_head_dim c" "kb_length c + int n \<le> int (kb_max_len c)"
  shows "\<exists>c'. write_key_value layer row head k v c = Inr ((live_key c layer row head @ k, live_value c layer row head @ v), c') \<and>
    kv_ok (kv_advance (int n) c') \<and>
    live_key (kv_advance (int n) c') layer row head = live_key c layer row head @ k \<and>
    live_value (kv_advance (int n) c') layer row head = live_value c layer row head @ v \<and>
    (\<forall>l i. l \<noteq> layer \<or> i \<noteq> head_index c row head \<longrightarrow> kb_key c' ! l ! i = kb_key c ! l ! i \<and> kb_value c' ! l ! i = kb_value c ! l ! i) \<and>
    (\<exists>c''. kv_set_position (kb_length c) (kv_advance (int n) c') = Inr c'' \<and> kv_ok c'' \<and>
      (\<forall>l r h. live_key c'' l r h = live_key c l r h \<and> live_value c'' l r h = live_value c l r h))"
proof -
  let ?i = "head_index c row head" and ?hd = "kb_head_dim c"
  obtain tk tv where w: "write_key_value layer row head k v c = Inr ((live_key c layer row head @ k, live_value c layer row head @ v),
       c\<lparr>kb_key := put_cell layer ?i tk (kb_key c), kb_value := put_cell layer ?i tv (kb_value c)\<rparr>)"
    and t: "tensor_ok [kb_max_len c, ?hd] tk" "tensor_ok [kb_max_len c, ?hd] tv"
    "take ((nat (kb_length c) + n) * ?hd) (ts_data tk) = live_key c layer row head @ k"
    "take ((nat (kb_length c) + n) * ?hd) (ts_data tv) = live_value c layer row head @ v"
    "take (nat (kb_length c) * ?hd) (ts_data tk) = live_key c layer row head"
    "take (nat (kb_length c) * ?hd) (ts_data tv) = live_value c layer row head"
    using write_key_value_ok [OF assms] by blast
  define c' where "c' = c\<lparr>kb_key := put_cell layer ?i tk (kb_key c), kb_value := put_cell layer ?i tv (kb_value c)\<rparr>"
  note dims = kv_ok_dims [OF assms(1)]
  have ok': "kv_ok c'"
    unfolding c'_def by (intro kv_ok_key_value full_grid_put assms(1) dims t)
  have adv: "kv_advance (int n) c' = c'\<lparr>kb_length := kb_length c + int n\<rparr>" "kv_ok (kv_advance (int n) c')"
    using kv_advance_ok [OF ok', of "int n"] assms(7) by (simp_all add: c'_def)
  have i: "?i < kb_batch c * kb_heads c" using head_index_bound [OF assms(3,4)] by (simp add: head_index_def)
  have in_grid: "layer < length (kb_key c)" "?i < length (kb_key c ! layer)" "layer < length (kb_value c)" "?i < length (kb_value c ! layer)"
    using full_gridD(1,2) [OF dims(8)] full_gridD(1,2) [OF dims(9)] assms(2) i by simp_all
  have nat_end: "nat ((kb_length c + int n) * int ?hd) = (nat (kb_length c) + n) * ?hd"
    "nat (kb_length c * int ?hd) = nat (kb_length c) * ?hd"
    using dims(6) by (simp_all add: nat_mult_distrib nat_add_distrib)
  have live: "live_key (kv_advance (int n) c') layer row head = live_key c layer row head @ k"
    "live_value (kv_advance (int n) c') layer row head = live_value c layer row head @ v"
    unfolding adv using in_grid t(3,4)
    by (simp_all add: live_key_def live_value_def c'_def head_index_def put_cell_nth nat_end)
  have others: "kb_key c' ! l ! j = kb_key c ! l ! j \<and> kb_value c' ! l ! j = kb_value c ! l ! j" if "l \<noteq> layer \<or> j \<noteq> ?i" for l j
    using that in_grid by (auto simp: c'_def put_cell_nth)
  have "kv_set_position (kb_length c) (kv_advance (int n) c') = Inr (kv_advance (int n) c'\<lparr>kb_length := kb_length c\<rparr>)"
    "kv_ok (kv_advance (int n) c'\<lparr>kb_length := kb_length c\<rparr>)"
    using kv_set_position_ok [OF adv(2), of "kb_length c"] dims(6,7) unfolding adv(1) by (simp_all add: c'_def)
  moreover have "live_key (kv_advance (int n) c'\<lparr>kb_length := kb_length c\<rparr>) l r h = live_key c l r h \<and>
      live_value (kv_advance (int n) c'\<lparr>kb_length := kb_length c\<rparr>) l r h = live_value c l r h" for l r h
  proof (cases "l = layer \<and> head_index c r h = ?i")
    case True
    then show ?thesis
      unfolding adv(1) using in_grid t(5,6) by (simp add: live_key_def live_value_def c'_def head_index_def put_cell_nth nat_end)
  next
    case False
    then show ?thesis
      unfolding adv(1) using in_grid by (auto simp: live_key_def live_value_def c'_def head_index_def put_cell_nth)
  qed
  ultimately show ?thesis
    using w [folded c'_def] adv(2) live others by blast
qed

theorem write_key_value_appends_witness:
  "\<exists>c'. write_key_value 0 0 1 [77] [78] example_kv = Inr (([4, 5, 6, 77], [2, 2, 2, 78]), c') \<and>
    live_key (kv_advance 1 c') 0 0 1 = [4, 5, 6, 77]"
proof -
  have "live_key example_kv 0 0 1 = [4, 5, 6]" "live_value example_kv 0 0 1 = [2, 2, 2]" by code_simp+
  moreover have "(0 :: nat) < kb_layers example_kv" "0 < kb_batch example_kv" "1 < kb_heads example_kv"
    "kb_head_dim example_kv = 1" "kb_length example_kv + int 1 \<le> int (kb_max_len example_kv)"
    by (simp_all add: example_kv_def)
  ultimately show ?thesis
    using write_key_value_appends [OF example_kv_ok, of 0 0 1 "[77]" 1 "[78]"] by fastforce
qed

section \<open>Spreading a prefill over the rows of a batch\<close>

lemma ofold_update_row:
  assumes "layer < length grid" "length (grid ! layer) = n" "m \<le> n" "\<And>i. i < m \<Longrightarrow> f i (grid ! layer ! i) = Inr (g i)"
  shows "ofold (\<lambda>i. update_cell layer i (f i)) [0..<m] grid =
    Inr (grid[layer := map (\<lambda>i. if i < m then g i else grid ! layer ! i) [0..<n]])"
proof -
  have "\<exists>yss. ofold (\<lambda>(l, i). update_cell l i (f i)) (map (Pair layer) [0..<m]) grid = Inr yss \<and> (same_shape yss grid \<and>
      (\<forall>l < length grid. \<forall>i < length (grid ! l). yss ! l ! i = (if (l, i) \<in> set (map (Pair layer) [0..<m]) then g i else grid ! l ! i)))"
    using assms by (intro ofold_update_cells) (auto simp: distinct_map inj_on_def)
  then obtain yss where yss: "ofold (\<lambda>(l, i). update_cell l i (f i)) (map (Pair layer) [0..<m]) grid = Inr yss" "same_shape yss grid"
    "\<And>l i. l < length grid \<Longrightarrow> i < length (grid ! l) \<Longrightarrow>
      yss ! l ! i = (if (l, i) \<in> set (map (Pair layer) [0..<m]) then g i else grid ! l ! i)"
    by blast
  have "yss = grid[layer := map (\<lambda>i. if i < m then g i else grid ! layer ! i) [0..<n]]"
  proof (rule nth_equalityI)
    fix l assume l: "l < length yss"
    then have "length (yss ! l) = length (grid ! l)" "l < length grid" using same_shapeD [OF yss(2)] by auto
    then show "yss ! l = grid[layer := map (\<lambda>i. if i < m then g i else grid ! layer ! i) [0..<n]] ! l"
      using yss(3) [of l] assms by (intro nth_equalityI) (auto simp: nth_list_update)
  qed (use same_shapeD(1) [OF yss(2)] in simp)
  with yss(1) show ?thesis by (simp add: ofold_map)
qed

lemma product_heads: "map (\<lambda>(row, head). row * heads + head) (List.product [0..<batch] [0..<heads]) = [0..<batch * (heads :: nat)]"
proof (induction batch)
  case (Suc batch)
  have "map (\<lambda>head. batch * heads + head) [0..<heads] = [batch * heads..<batch * heads + heads]"
    by (rule nth_equalityI) simp_all
  then show ?case
    using Suc upt_add_eq_append [of 0 "batch * heads" heads] by (simp add: product_concat_map comp_def add.commute)
qed simp

definition fronted :: "nat \<Rightarrow> tensor \<Rightarrow> tensor \<Rightarrow> tensor" where
  "fronted n s d = d\<lparr>ts_data := take n (ts_data s) @ drop n (ts_data d)\<rparr>"

lemma copy_front_ok:
  assumes "n \<le> length (ts_data s)" "n \<le> length (ts_data d)"
  shows "copy_front (int n) s (int n) d = Inr (fronted n s d)"
  using assms by (simp add: copy_front_def data_prefix_nat fronted_def min_def)

lemma fronted_ok: "tensor_ok shape d \<Longrightarrow> n \<le> length (ts_data s) \<Longrightarrow> n \<le> length (ts_data d) \<Longrightarrow> tensor_ok shape (fronted n s d)"
  by (simp add: fronted_def tensor_ok_def)

lemma fronted_take: "n \<le> length (ts_data s) \<Longrightarrow> take n (ts_data (fronted n s d)) = take n (ts_data s)"
  by (simp add: fronted_def)

text \<open>A layer's buffers after the source's have been spread over its rows.\<close>

definition spread_row :: "nat \<Rightarrow> nat \<Rightarrow> tensor list \<Rightarrow> tensor list \<Rightarrow> tensor list" where
  "spread_row n heads ss ds = map (\<lambda>i. fronted n (ss ! (i mod heads)) (ds ! i)) [0..<length ds]"

lemma replicate_heads_row:
  assumes "layer < length grid" "length (grid ! layer) = batch * heads" "layer < length src" "length (src ! layer) = heads"
    and "\<And>s. s \<in> set (src ! layer) \<Longrightarrow> dl s = Inr (int n) \<and> sl s = Inr (int n) \<and> n \<le> length (ts_data s)"
    and "\<And>d. d \<in> set (grid ! layer) \<Longrightarrow> n \<le> length (ts_data d)"
  shows "replicate_heads batch heads dl sl layer src grid = Inr (grid[layer := spread_row n heads (src ! layer) (grid ! layer)])"
proof -
  let ?f = "\<lambda>i. copy_front (int n) (src ! layer ! (i mod heads)) (int n)"
  have "replicate_heads batch heads dl sl layer src grid =
      ofold (\<lambda>(row, head). update_cell layer (row * heads + head) (?f (row * heads + head))) (List.product [0..<batch] [0..<heads]) grid"
    unfolding replicate_heads_def
  proof (rule ofold_cong [OF refl refl])
    fix p g assume "p \<in> set (List.product [0..<batch] [0..<heads])"
    then obtain row head where p: "p = (row, head)" "head < heads" by auto
    then have "src ! layer ! head \<in> set (src ! layer)" using assms(4) by simp
    then show "(case p of (row, head) \<Rightarrow> \<lambda>grid. obind (cell src layer head) (\<lambda>s. obind (sl s) (\<lambda>m. obind (dl s) (\<lambda>n.
           update_cell layer (row * heads + head) (copy_front m s n) grid)))) g =
        (case p of (row, head) \<Rightarrow> update_cell layer (row * heads + head) (?f (row * heads + head))) g"
      using p assms(3,4,5) by simp
  qed
  also have "\<dots> = ofold (\<lambda>i. update_cell layer i (?f i)) (map (\<lambda>(row, head). row * heads + head) (List.product [0..<batch] [0..<heads])) grid"
    unfolding ofold_map by (rule ofold_cong) auto
  also have "\<dots> = ofold (\<lambda>i. update_cell layer i (?f i)) [0..<batch * heads] grid"
    by (simp only: product_heads)
  also have "\<dots> = Inr (grid[layer := map (\<lambda>i. if i < batch * heads then fronted n (src ! layer ! (i mod heads)) (grid ! layer ! i)
      else grid ! layer ! i) [0..<batch * heads]])"
  proof (rule ofold_update_row [OF assms(1,2)])
    fix i assume i: "i < batch * heads"
    then have "0 < heads" by (cases heads) auto
    then show "copy_front (int n) (src ! layer ! (i mod heads)) (int n) (grid ! layer ! i) =
        Inr (fronted n (src ! layer ! (i mod heads)) (grid ! layer ! i))"
      using i assms(2,4,5,6) by (intro copy_front_ok) auto
  qed simp
  also have "map (\<lambda>i. if i < batch * heads then fronted n (src ! layer ! (i mod heads)) (grid ! layer ! i)
      else grid ! layer ! i) [0..<batch * heads] = spread_row n heads (src ! layer) (grid ! layer)"
    by (simp add: spread_row_def assms(2))
  finally show ?thesis .
qed

text \<open>A loop over the layers, each of which only looks at its own.\<close>

definition upto_layer :: "nat \<Rightarrow> (nat \<Rightarrow> 'a) \<Rightarrow> 'a list \<Rightarrow> 'a list" where
  "upto_layer k h grid = map (\<lambda>l. if l < k then h l else grid ! l) [0..<length grid]"

lemma upto_layer_simps:
  "upto_layer 0 h grid = grid" "length (upto_layer k h grid) = length grid"
  "k < length grid \<Longrightarrow> upto_layer k h grid ! k = grid ! k"
  "(upto_layer k h grid)[k := h k] = upto_layer (Suc k) h grid"
  "length grid \<le> k \<Longrightarrow> upto_layer k h grid = map h [0..<length grid]"
  by (auto simp: upto_layer_def map_nth nth_list_update less_Suc_eq intro!: nth_equalityI)

lemma ofold_layers:
  assumes "\<And>l g. l < length grid \<Longrightarrow> length g = length grid \<Longrightarrow> g ! l = grid ! l \<Longrightarrow> f l g = Inr (g[l := h l])"
  shows "ofold f [0..<length grid] grid = Inr (map h [0..<length grid])"
proof -
  have "\<exists>g. ofold f [0..<length grid] grid = Inr g \<and> g = upto_layer (length [0..<length grid]) h grid"
  proof (rule ofold_rule [where I = "\<lambda>done g. g = upto_layer (length done) h grid"])
    fix ls l rest g
    assume ls: "[0..<length grid] = ls @ l # rest" and g: "g = upto_layer (length ls) h grid"
    from arg_cong [OF ls, of "\<lambda>xs. xs ! length ls"] arg_cong [OF ls, of length]
    have l: "l = length ls" "length ls < length grid" by (auto simp: nth_append)
    with g assms [of l g] show "\<exists>s'. f l g = Inr s' \<and> s' = upto_layer (length (ls @ [l])) h grid"
      by (simp add: upto_layer_simps)
  qed (simp add: upto_layer_simps)
  then show ?thesis by (simp add: upto_layer_simps)
qed

lemma prefill_grid_ok:
  assumes "full_grid layers heads (\<lambda>t. n \<le> length (ts_data t)) src" "full_grid layers (batch * heads) (\<lambda>t. n \<le> length (ts_data t)) dst"
  shows "prefill_grid layers batch heads (int n) (int n) src dst = Inr (map2 (spread_row n heads) src dst)"
proof -
  note s = full_gridD [OF assms(1)] and d = full_gridD [OF assms(2)]
  have "prefill_grid layers batch heads (int n) (int n) src dst = Inr (map (\<lambda>l. spread_row n heads (src ! l) (dst ! l)) [0..<length dst])"
    unfolding prefill_grid_def d(1) [symmetric]
  proof (rule ofold_layers)
    fix l g assume "l < length dst" "length g = length dst" "g ! l = dst ! l"
    then show "replicate_heads batch heads (\<lambda>_. Inr (int n)) (\<lambda>_. Inr (int n)) l src g =
        Inr (g[l := spread_row n heads (src ! l) (dst ! l)])"
      using s d by (subst replicate_heads_row [where n = n]) (auto simp: in_set_conv_nth)
  qed
  also have "map (\<lambda>l. spread_row n heads (src ! l) (dst ! l)) [0..<length dst] = map2 (spread_row n heads) src dst"
    using s(1) d(1) by (intro nth_equalityI) simp_all
  finally show ?thesis .
qed

text \<open>The tails: every buffer of the first rows gets the source's first.\<close>

definition spread_tail :: "nat \<Rightarrow> f32 list list \<Rightarrow> f32 list list \<Rightarrow> f32 list list" where
  "spread_tail batch ss ds = map (\<lambda>i. if i < batch then ss ! 0 else ds ! i) [0..<length ds]"

lemma copy_tails_row:
  assumes "layer < length grid" "batch \<le> length (grid ! layer)" "layer < length src" "src ! layer \<noteq> []"
    "\<And>d. d \<in> set (grid ! layer) \<Longrightarrow> length d = length (src ! layer ! 0)"
  shows "copy_tails batch layer src grid = Inr (grid[layer := spread_tail batch (src ! layer) (grid ! layer)])"
proof -
  have "copy_tails batch layer src grid = ofold (\<lambda>i. update_cell layer i (copy_into 0 (src ! layer ! 0))) [0..<batch] grid"
    unfolding copy_tails_def using assms(3,4) by (intro ofold_cong) auto
  also have "\<dots> = Inr (grid[layer := map (\<lambda>i. if i < batch then src ! layer ! 0 else grid ! layer ! i) [0..<length (grid ! layer)]])"
    using assms(1,2,5) by (intro ofold_update_row) (simp_all add: copy_into_def)
  finally show ?thesis by (simp add: spread_tail_def)
qed

section \<open>Prefilling\<close>

definition prefillable :: "kv_buffer \<Rightarrow> kv_buffer \<Rightarrow> bool" where
  "prefillable dst src \<longleftrightarrow>
     kv_ok dst \<and> kv_ok src \<and> kb_batch src = 1 \<and> kb_length dst = 0 \<and>
     kb_layers dst = kb_layers src \<and> kb_heads dst = kb_heads src \<and> kb_head_dim dst = kb_head_dim src \<and>
     kb_length src \<le> int (kb_max_len dst) \<and>
     kb_ratio dst = kb_ratio src \<and> kb_embedding dst = kb_embedding src \<and>
     owned (kb_tail_hidden dst) = owned (kb_tail_hidden src) \<and>
     all_cells (\<lambda>k. k \<le> int (kb_max_blocks dst)) (kb_comp_count src) \<and>
     kb_index_width dst = kb_index_width src \<and> owned (kb_index_key dst) = owned (kb_index_key src) \<and>
     kb_latent_width dst = kb_latent_width src \<and> kb_rope_width dst = kb_rope_width src"

definition source_count :: "kv_buffer \<Rightarrow> nat \<Rightarrow> nat" where
  "source_count src l = nat (kb_comp_count src ! l ! 0)"

text \<open>One layer of the compression state, after the source's.\<close>

definition prefilled_layer :: "kv_buffer \<Rightarrow> kv_buffer \<Rightarrow> nat \<Rightarrow> kv_buffer \<Rightarrow> kv_buffer" where
  "prefilled_layer src old l dst =
     (let batch = kb_batch old; heads = kb_heads old; n = source_count src l in
      dst\<lparr>kb_tail_hidden := (kb_tail_hidden dst)[l := spread_tail batch (kb_tail_hidden src ! l) (kb_tail_hidden old ! l)],
          kb_tail_key := (kb_tail_key dst)[l := spread_tail batch (kb_tail_key src ! l) (kb_tail_key old ! l)],
          kb_tail_value := (kb_tail_value dst)[l := spread_tail batch (kb_tail_value src ! l) (kb_tail_value old ! l)],
          kb_tail_length := (kb_tail_length dst)[l := if kb_tail_hidden old ! l = [] then kb_tail_length old ! l
                               else replicate batch (kb_tail_length src ! l ! 0)],
          kb_comp_key := (kb_comp_key dst)[l := spread_row (n * kb_head_dim old) heads (kb_comp_key src ! l) (kb_comp_key old ! l)],
          kb_comp_value := (kb_comp_value dst)[l := spread_row (n * kb_head_dim old) heads (kb_comp_value src ! l) (kb_comp_value old ! l)],
          kb_comp_count := (kb_comp_count dst)[l := replicate batch (kb_comp_count src ! l ! 0)],
          kb_index_key := (kb_index_key dst)[l := spread_row (n * kb_index_width old) heads (kb_index_key src ! l) (kb_index_key old ! l)]\<rparr>)"

lemma spread_row_Nil [simp]: "spread_row n heads ss [] = []"
  by (simp add: spread_row_def)

lemma spread_tail_Nil [simp]: "spread_tail batch ss [] = []"
  by (simp add: spread_tail_def)

lemma const_row:
  assumes "layer < length grid" "length (grid ! layer) = n"
  shows "ofold (\<lambda>i. update_cell layer i (\<lambda>_. Inr x)) [0..<n] grid = Inr (grid[layer := replicate n x])"
proof -
  have "map (\<lambda>i. if i < n then x else grid ! layer ! i) [0..<n] = replicate n x"
    by (rule nth_equalityI) simp_all
  then show ?thesis using ofold_update_row [OF assms order_refl, of "\<lambda>_ _. Inr x" "\<lambda>_. x"] by simp
qed

lemma width_times_ok: "tensor_ok [r, w] t \<Longrightarrow> 0 \<le> k \<Longrightarrow> width_times k t = Inr (int (nat k * w))"
  by (simp add: width_times_def row_width_def tensor_ok_def)

text \<open>Spreading the first \<open>count\<close> entries of a layer's source tensors.\<close>

lemma replicate_entries:
  assumes "layer < length grid" "length (grid ! layer) = batch * heads" "layer < length src" "length (src ! layer) = heads"
    "\<And>s. s \<in> set (src ! layer) \<Longrightarrow> tensor_ok [r, w] s" "\<And>d. d \<in> set (grid ! layer) \<Longrightarrow> tensor_ok [r', w] d"
    "0 \<le> count" "count \<le> int r" "count \<le> int r'"
  shows "replicate_heads batch heads (width_times count) (width_times count) layer src grid =
    Inr (grid[layer := spread_row (nat count * w) heads (src ! layer) (grid ! layer)])"
proof (rule replicate_heads_row [OF assms(1-4)])
  have "nat count \<le> r" "nat count \<le> r'" using assms(7-9) by linarith+
  then have le: "nat count * w \<le> r * w" "nat count * w \<le> r' * w" by (blast intro: mult_le_mono1)+
  show "width_times count s = Inr (int (nat count * w)) \<and> width_times count s = Inr (int (nat count * w)) \<and>
      nat count * w \<le> length (ts_data s)" if "s \<in> set (src ! layer)" for s
    using assms(5) [OF that] le(1) width_times_ok [OF assms(5) [OF that] assms(7)] by (simp add: tensor_ok_def)
  show "nat count * w \<le> length (ts_data d)" if "d \<in> set (grid ! layer)" for d
    using assms(6) [OF that] le(2) by (simp add: tensor_ok_def)
qed

text \<open>A buffer on the way: the layers before \<open>k\<close> are done.\<close>

definition prefilled_upto :: "kv_buffer \<Rightarrow> kv_buffer \<Rightarrow> nat \<Rightarrow> kv_buffer" where
  "prefilled_upto src old k =
     (let batch = kb_batch old; heads = kb_heads old; n = source_count src in
      old\<lparr>kb_tail_hidden := upto_layer k (\<lambda>l. spread_tail batch (kb_tail_hidden src ! l) (kb_tail_hidden old ! l)) (kb_tail_hidden old),
          kb_tail_key := upto_layer k (\<lambda>l. spread_tail batch (kb_tail_key src ! l) (kb_tail_key old ! l)) (kb_tail_key old),
          kb_tail_value := upto_layer k (\<lambda>l. spread_tail batch (kb_tail_value src ! l) (kb_tail_value old ! l)) (kb_tail_value old),
          kb_tail_length := upto_layer k (\<lambda>l. if kb_tail_hidden old ! l = [] then kb_tail_length old ! l
                               else replicate batch (kb_tail_length src ! l ! 0)) (kb_tail_length old),
          kb_comp_key := upto_layer k (\<lambda>l. spread_row (n l * kb_head_dim old) heads (kb_comp_key src ! l) (kb_comp_key old ! l)) (kb_comp_key old),
          kb_comp_value := upto_layer k (\<lambda>l. spread_row (n l * kb_head_dim old) heads (kb_comp_value src ! l) (kb_comp_value old ! l)) (kb_comp_value old),
          kb_comp_count := upto_layer k (\<lambda>l. replicate batch (kb_comp_count src ! l ! 0)) (kb_comp_count old),
          kb_index_key := upto_layer k (\<lambda>l. spread_row (n l * kb_index_width old) heads (kb_index_key src ! l) (kb_index_key old ! l)) (kb_index_key old)\<rparr>)"

lemma prefilled_upto_0: "prefilled_upto src old 0 = old"
  by (simp add: prefilled_upto_def upto_layer_simps Let_def)

lemma prefilled_upto_Suc: "prefilled_layer src old k (prefilled_upto src old k) = prefilled_upto src old (Suc k)"
  by (simp add: prefilled_upto_def prefilled_layer_def upto_layer_simps(4) [symmetric] Let_def)

text \<open>What \<open>prefillable\<close> says of a layer of the two compression states.\<close>

lemma prefillableD:
  assumes "prefillable dst src"
  shows "kv_ok dst" "kv_ok src" "kb_batch src = 1" "kb_length dst = 0" "kb_layers dst = kb_layers src" "kb_heads dst = kb_heads src"
    "kb_head_dim dst = kb_head_dim src" "kb_length src \<le> int (kb_max_len dst)" "kb_ratio dst = kb_ratio src"
    "kb_embedding dst = kb_embedding src" "owned (kb_tail_hidden dst) = owned (kb_tail_hidden src)"
    "all_cells (\<lambda>k. k \<le> int (kb_max_blocks dst)) (kb_comp_count src)" "kb_index_width dst = kb_index_width src"
    "owned (kb_index_key dst) = owned (kb_index_key src)" "kb_latent_width dst = kb_latent_width src" "kb_rope_width dst = kb_rope_width src"
  using assms by (simp_all add: prefillable_def)

lemma kv_ok_compression: "kv_ok c \<Longrightarrow> kb_ratio c > 1 \<Longrightarrow> compression_ok c"
  by (simp add: kv_ok_def)

lemma kv_ok_index:
  assumes "kv_ok c" "kb_index_key c \<noteq> []"
  shows "0 < kb_index_width c" "grid_ok (kb_layers c) (kb_batch c * kb_heads c) (tensor_ok [kb_max_blocks c, kb_index_width c]) (kb_index_key c)"
    "kb_ratio c > 1"
  using assms by (auto simp: kv_ok_def no_compression_def split: if_splits)

lemma prefill_counts:
  assumes "prefillable dst src" "kb_ratio dst > 1" "l < kb_layers dst"
  shows "l < length (kb_comp_count src)" "kb_comp_count src ! l \<noteq> []" "0 \<le> kb_comp_count src ! l ! 0"
    "kb_comp_count src ! l ! 0 \<le> int (kb_max_blocks src)" "kb_comp_count src ! l ! 0 \<le> int (kb_max_blocks dst)"
    "l < length (kb_tail_length src)" "kb_tail_length src ! l \<noteq> []"
proof -
  note p = prefillableD [OF assms(1)]
  have comp: "compression_ok src" using kv_ok_compression [OF p(2)] assms(2) p(9) by simp
  note counts = layer_counts [OF comp]
  have l: "l < kb_layers src" using assms(3) p(5) by simp
  show "l < length (kb_comp_count src)" "l < length (kb_tail_length src)" using counts l by simp_all
  have "length (kb_comp_count src ! l) = 1" "length (kb_tail_length src ! l) = 1" using counts l p(3) by simp_all
  then show "kb_comp_count src ! l \<noteq> []" "kb_tail_length src ! l \<noteq> []" by auto
  show "0 \<le> kb_comp_count src ! l ! 0" "kb_comp_count src ! l ! 0 \<le> int (kb_max_blocks src)"
    using counts(6) [OF l, of 0] p(3) by simp_all
  show "kb_comp_count src ! l ! 0 \<le> int (kb_max_blocks dst)"
    using all_cells_nth [OF p(12), of l 0] counts(4,5) l p(3) by simp
qed

lemma copy_indexer_keys_ok:
  assumes "prefillable dst src" "kb_ratio dst > 1" "l < kb_layers dst"
    "kb_batch d = kb_batch dst" "kb_heads d = kb_heads dst" "length (kb_index_key d) = length (kb_index_key dst)"
    "kb_index_key d ! l = kb_index_key dst ! l"
  shows "copy_indexer_keys src l (kb_comp_count src ! l ! 0) d = Inr (d\<lparr>kb_index_key := (kb_index_key d)[l :=
    spread_row (source_count src l * kb_index_width dst) (kb_heads dst) (kb_index_key src ! l) (kb_index_key dst ! l)]\<rparr>)"
proof (cases "kb_index_key dst = []")
  case True
  then show ?thesis using assms(6) by (simp add: copy_indexer_keys_def)
next
  case False
  note p = prefillableD [OF assms(1)] and cnt = prefill_counts [OF assms(1-3)]
  have src: "kb_index_key src \<noteq> []" using owned_length [OF p(14)] False by auto
  have d: "kb_index_key d \<noteq> []" using assms(6) False by auto
  note gd = kv_ok_index [OF p(1) False] and gs = kv_ok_index [OF p(2) src]
  have len: "l < length (kb_index_key d)" "l < length (kb_index_key src)"
    using grid_okD(1) [OF gd(2)] grid_okD(1) [OF gs(2)] assms(3,6) p(5) by simp_all
  have same: "kb_index_key dst ! l = [] \<longleftrightarrow> kb_index_key src ! l = []" by (rule owned_nil [OF p(14) len(2)])
  show ?thesis
  proof (cases "kb_index_key dst ! l = []")
    case True
    then have "(kb_index_key d)[l := []] = kb_index_key d" using list_update_id [of "kb_index_key d" l] assms(7) by simp
    with True src d len assms(7) show ?thesis by (simp add: copy_indexer_keys_def)
  next
    case nonempty: False
    have "replicate_heads (kb_batch d) (kb_heads d) (width_times (kb_comp_count src ! l ! 0)) (width_times (kb_comp_count src ! l ! 0)) l
        (kb_index_key src) (kb_index_key d) =
      Inr ((kb_index_key d)[l := spread_row (nat (kb_comp_count src ! l ! 0) * kb_index_width dst) (kb_heads d) (kb_index_key src ! l) (kb_index_key d ! l)])"
    proof (rule replicate_entries)
      show "length (kb_index_key d ! l) = kb_batch d * kb_heads d" "length (kb_index_key src ! l) = kb_heads d"
        using grid_okD(2) [OF gd(2) assms(3) nonempty] grid_okD(2) [OF gs(2)] nonempty same assms(3-7) p(3,5,6) by simp_all
      show "tensor_ok [kb_max_blocks src, kb_index_width dst] s" if "s \<in> set (kb_index_key src ! l)" for s
        using that gs(2) len(2) p(13) by (auto simp: grid_ok_def all_cells_def)
      show "tensor_ok [kb_max_blocks dst, kb_index_width dst] t" if "t \<in> set (kb_index_key d ! l)" for t
        using that gd(2) len(1) assms(6,7) by (auto simp: grid_ok_def all_cells_def)
    qed (use len cnt in simp_all)
    with src d len nonempty same assms(5,7) show ?thesis by (simp add: copy_indexer_keys_def source_count_def)
  qed
qed


lemma prefilled_upto_layer:
  assumes "prefillable dst src" "kb_ratio dst > 1" "l < kb_layers dst"
  shows "length (kb_tail_hidden (prefilled_upto src dst l)) = kb_layers dst" "length (kb_tail_key (prefilled_upto src dst l)) = kb_layers dst"
    "length (kb_tail_value (prefilled_upto src dst l)) = kb_layers dst" "length (kb_tail_length (prefilled_upto src dst l)) = kb_layers dst"
    "length (kb_comp_key (prefilled_upto src dst l)) = kb_layers dst" "length (kb_comp_value (prefilled_upto src dst l)) = kb_layers dst"
    "length (kb_comp_count (prefilled_upto src dst l)) = kb_layers dst"
    "length (kb_index_key (prefilled_upto src dst l)) = length (kb_index_key dst)"
    "kb_tail_hidden (prefilled_upto src dst l) ! l = kb_tail_hidden dst ! l" "kb_tail_key (prefilled_upto src dst l) ! l = kb_tail_key dst ! l"
    "kb_tail_value (prefilled_upto src dst l) ! l = kb_tail_value dst ! l" "kb_tail_length (prefilled_upto src dst l) ! l = kb_tail_length dst ! l"
    "kb_comp_key (prefilled_upto src dst l) ! l = kb_comp_key dst ! l" "kb_comp_value (prefilled_upto src dst l) ! l = kb_comp_value dst ! l"
    "kb_comp_count (prefilled_upto src dst l) ! l = kb_comp_count dst ! l"
    "kb_index_key dst \<noteq> [] \<Longrightarrow> kb_index_key (prefilled_upto src dst l) ! l = kb_index_key dst ! l"
    "kb_batch (prefilled_upto src dst l) = kb_batch dst" "kb_heads (prefilled_upto src dst l) = kb_heads dst"
proof -
  note p = prefillableD [OF assms(1)]
  have comp: "compression_ok dst" by (rule kv_ok_compression [OF p(1) assms(2)])
  note len = grid_okD(1) [OF compression_okD(4) [OF comp]] grid_okD(1) [OF compression_okD(5) [OF comp]] grid_okD(1) [OF compression_okD(6) [OF comp]]
    grid_okD(1) [OF compression_okD(7) [OF comp]] grid_okD(1) [OF compression_okD(8) [OF comp]] layer_counts(1,4) [OF comp]
  show "length (kb_tail_hidden (prefilled_upto src dst l)) = kb_layers dst" "length (kb_tail_key (prefilled_upto src dst l)) = kb_layers dst"
    "length (kb_tail_value (prefilled_upto src dst l)) = kb_layers dst" "length (kb_tail_length (prefilled_upto src dst l)) = kb_layers dst"
    "length (kb_comp_key (prefilled_upto src dst l)) = kb_layers dst" "length (kb_comp_value (prefilled_upto src dst l)) = kb_layers dst"
    "length (kb_comp_count (prefilled_upto src dst l)) = kb_layers dst"
    "length (kb_index_key (prefilled_upto src dst l)) = length (kb_index_key dst)"
    "kb_batch (prefilled_upto src dst l) = kb_batch dst" "kb_heads (prefilled_upto src dst l) = kb_heads dst"
    by (simp_all add: prefilled_upto_def Let_def len upto_layer_simps(2))
  show "kb_tail_hidden (prefilled_upto src dst l) ! l = kb_tail_hidden dst ! l" "kb_tail_key (prefilled_upto src dst l) ! l = kb_tail_key dst ! l"
    "kb_tail_value (prefilled_upto src dst l) ! l = kb_tail_value dst ! l" "kb_tail_length (prefilled_upto src dst l) ! l = kb_tail_length dst ! l"
    "kb_comp_key (prefilled_upto src dst l) ! l = kb_comp_key dst ! l" "kb_comp_value (prefilled_upto src dst l) ! l = kb_comp_value dst ! l"
    "kb_comp_count (prefilled_upto src dst l) ! l = kb_comp_count dst ! l"
    using assms(3) by (simp_all add: prefilled_upto_def Let_def len upto_layer_simps(3))
  show "kb_index_key (prefilled_upto src dst l) ! l = kb_index_key dst ! l" if "kb_index_key dst \<noteq> []"
    using assms(3) grid_okD(1) [OF kv_ok_index(2) [OF p(1) that]] by (simp add: prefilled_upto_def Let_def upto_layer_simps(3))
qed

lemma copy_indexer_keys_upto:
  assumes "prefillable dst src" "kb_ratio dst > 1" "l < kb_layers dst"
    "kb_batch d = kb_batch dst" "kb_heads d = kb_heads dst" "kb_index_key d = kb_index_key (prefilled_upto src dst l)"
  shows "copy_indexer_keys src l (kb_comp_count src ! l ! 0) d = Inr (d\<lparr>kb_index_key := (kb_index_key d)[l :=
    spread_row (source_count src l * kb_index_width dst) (kb_heads dst) (kb_index_key src ! l) (kb_index_key dst ! l)]\<rparr>)"
proof (cases "kb_index_key dst = []")
  case True
  then show ?thesis using assms(6) prefilled_upto_layer(8) [OF assms(1-3)] by (simp add: copy_indexer_keys_def)
next
  case False
  show ?thesis
    by (rule copy_indexer_keys_ok [OF assms(1-5)]) (simp_all add: assms(6) prefilled_upto_layer(8,16) [OF assms(1-3)] False)
qed

lemma copy_tails_layer:
  assumes "grid_ok layers n (\<lambda>r. length r = w) old" "grid_ok layers n' (\<lambda>r. length r = w) src" "l < layers"
    "old ! l \<noteq> []" "src ! l \<noteq> []" "batch \<le> n" "length grid = layers" "grid ! l = old ! l"
  shows "copy_tails batch l src grid = Inr (grid[l := spread_tail batch (src ! l) (old ! l)])"
proof -
  have "length (src ! l ! 0) = w"
    using grid_okD(2,3) [OF assms(2,3,5)] assms(5) by (metis length_greater_0_conv)
  moreover have "length t = w" if "t \<in> set (old ! l)" for t
    using that assms(3) grid_okD(1,2,3) [OF assms(1)] assms(4) by (metis in_set_conv_nth)
  ultimately show ?thesis
    using assms(3,5-8) grid_okD(1) [OF assms(2)] grid_okD(2) [OF assms(1,3,4)] copy_tails_row [of l grid batch src] by simp
qed

lemma replicate_blocks_layer:
  assumes "grid_ok layers (batch * heads) (tensor_ok [r', w]) old" "grid_ok layers heads (tensor_ok [r, w]) src" "l < layers"
    "old ! l \<noteq> []" "src ! l \<noteq> []" "length grid = layers" "grid ! l = old ! l" "0 \<le> count" "count \<le> int r" "count \<le> int r'"
  shows "replicate_heads batch heads (width_times count) (width_times count) l src grid =
    Inr (grid[l := spread_row (nat count * w) heads (src ! l) (old ! l)])"
proof -
  have "tensor_ok [r, w] t" if "t \<in> set (src ! l)" for t
    using that grid_okD(2,3) [OF assms(2,3,5)] by (metis in_set_conv_nth)
  moreover have "tensor_ok [r', w] t" if "t \<in> set (grid ! l)" for t
    using that grid_okD(2,3) [OF assms(1,3,4)] assms(7) by (metis in_set_conv_nth)
  moreover have "l < length grid" "l < length src" "length (grid ! l) = batch * heads" "length (src ! l) = heads"
    using assms(3,6,7) grid_okD(1) [OF assms(2)] grid_okD(2) [OF assms(2,3,5)] grid_okD(2) [OF assms(1,3,4)] by simp_all
  ultimately show ?thesis
    using replicate_entries [of l grid batch heads src r w r' count] assms(7-10) by simp
qed

lemma prefill_layer_ok:
  assumes "prefillable dst src" "kb_ratio dst > 1" "l < kb_layers dst"
  shows "prefill_compressed_layer src l (prefilled_upto src dst l) = Inr (prefilled_upto src dst (Suc l))"
proof -
  define d where "d = prefilled_upto src dst l"
  note p = prefillableD [OF assms(1)] and cnt = prefill_counts [OF assms] and up = prefilled_upto_layer [OF assms, folded d_def]
  have cd: "compression_ok dst" by (rule kv_ok_compression [OF p(1) assms(2)])
  have cs: "compression_ok src" using kv_ok_compression [OF p(2)] assms(2) p(9) by simp
  have ls: "l < kb_layers src" using assms(3) p(5) by simp
  note od = layer_owned [OF cd assms(3)] and os = layer_owned [OF cs ls]
  have own: "kb_tail_hidden dst ! l = [] \<longleftrightarrow> kb_tail_hidden src ! l = []"
    using owned_nil [OF p(11)] grid_okD(1) [OF compression_okD(4) [OF cs]] ls by simp
  have counts: "ofold (\<lambda>row. update_cell l row (\<lambda>_. Inr x)) [0..<kb_batch dst] (kb_comp_count d) = Inr ((kb_comp_count d)[l := replicate (kb_batch dst) x])"
    and lens: "ofold (\<lambda>row. update_cell l row (\<lambda>_. Inr x)) [0..<kb_batch dst] (kb_tail_length d) = Inr ((kb_tail_length d)[l := replicate (kb_batch dst) x])" for x
    by (rule const_row; simp add: up assms(3) layer_counts(2,5) [OF cd])+
  note keys = copy_indexer_keys_upto [OF assms]
  show ?thesis
  proof (cases "kb_tail_hidden dst ! l = []")
    case True
    with od have nil: "kb_tail_key dst ! l = []" "kb_tail_value dst ! l = []" "kb_comp_key dst ! l = []" "kb_comp_value dst ! l = []"
      by blast+
    have same: "(kb_tail_hidden d)[l := []] = kb_tail_hidden d" "(kb_tail_key d)[l := []] = kb_tail_key d" "(kb_tail_value d)[l := []] = kb_tail_value d"
      "(kb_tail_length d)[l := kb_tail_length dst ! l] = kb_tail_length d"
      "(kb_comp_key d)[l := []] = kb_comp_key d" "(kb_comp_value d)[l := []] = kb_comp_value d"
      using True nil by (metis list_update_id up)+
    have "prefill_compressed_layer src l d = copy_indexer_keys src l (kb_comp_count src ! l ! 0)
        (d\<lparr>kb_comp_count := (kb_comp_count d)[l := replicate (kb_batch dst) (kb_comp_count src ! l ! 0)]\<rparr>)"
      using True od assms(3) cnt by (simp add: prefill_compressed_layer_def counts up)
    also have "\<dots> = Inr (prefilled_layer src dst l d)"
      by (subst keys) (simp_all add: up d_def [symmetric] prefilled_layer_def Let_def True nil same)
    finally show ?thesis by (simp add: d_def prefilled_upto_Suc)
  next
    case False
    then have ne: "kb_tail_hidden src ! l \<noteq> []" "kb_tail_key src ! l \<noteq> []" "kb_tail_value src ! l \<noteq> []"
      "kb_comp_key src ! l \<noteq> []" "kb_comp_value src ! l \<noteq> []" "kb_tail_key dst ! l \<noteq> []" "kb_tail_value dst ! l \<noteq> []"
      "kb_comp_key dst ! l \<noteq> []" "kb_comp_value dst ! l \<noteq> []"
      using own os od by simp_all
    note shape = compression_okD(4-8) [OF cs, unfolded p(3) p(5) [symmetric] p(6) [symmetric] p(7) [symmetric] p(9) [symmetric]
        p(10) [symmetric] mult_1]
    have heads: "Suc 0 \<le> kb_heads dst" using kv_ok_dims(3) [OF p(1)] by simp
    have tails: "copy_tails (kb_batch dst) l (kb_tail_hidden src) (kb_tail_hidden d) = Inr ((kb_tail_hidden d)[l :=
        spread_tail (kb_batch dst) (kb_tail_hidden src ! l) (kb_tail_hidden dst ! l)])"
      "copy_tails (kb_batch dst) l (kb_tail_key src) (kb_tail_key d) = Inr ((kb_tail_key d)[l :=
        spread_tail (kb_batch dst) (kb_tail_key src ! l) (kb_tail_key dst ! l)])"
      "copy_tails (kb_batch dst) l (kb_tail_value src) (kb_tail_value d) = Inr ((kb_tail_value d)[l :=
        spread_tail (kb_batch dst) (kb_tail_value src ! l) (kb_tail_value dst ! l)])"
      by (rule copy_tails_layer [OF compression_okD(4) [OF cd] shape(1) assms(3) False ne(1)]; simp add: up)
         (rule copy_tails_layer [OF compression_okD(5) [OF cd] shape(2) assms(3) ne(6,2)]
               copy_tails_layer [OF compression_okD(6) [OF cd] shape(3) assms(3) ne(7,3)]; simp add: up heads)+
    have blocks: "replicate_heads (kb_batch dst) (kb_heads dst) (width_times (kb_comp_count src ! l ! 0)) (width_times (kb_comp_count src ! l ! 0)) l
        (kb_comp_key src) (kb_comp_key d) = Inr ((kb_comp_key d)[l :=
          spread_row (source_count src l * kb_head_dim dst) (kb_heads dst) (kb_comp_key src ! l) (kb_comp_key dst ! l)])"
      "replicate_heads (kb_batch dst) (kb_heads dst) (width_times (kb_comp_count src ! l ! 0)) (width_times (kb_comp_count src ! l ! 0)) l
        (kb_comp_value src) (kb_comp_value d) = Inr ((kb_comp_value d)[l :=
          spread_row (source_count src l * kb_head_dim dst) (kb_heads dst) (kb_comp_value src ! l) (kb_comp_value dst ! l)])"
      unfolding source_count_def
      by (rule replicate_blocks_layer [OF compression_okD(7) [OF cd] shape(4) assms(3) ne(8,4)]
               replicate_blocks_layer [OF compression_okD(8) [OF cd] shape(5) assms(3) ne(9,5)]; simp add: up cnt)+
    have "prefill_compressed_layer src l d = copy_indexer_keys src l (kb_comp_count src ! l ! 0)
        (d\<lparr>kb_comp_count := (kb_comp_count d)[l := replicate (kb_batch dst) (kb_comp_count src ! l ! 0)],
           kb_tail_hidden := (kb_tail_hidden d)[l := spread_tail (kb_batch dst) (kb_tail_hidden src ! l) (kb_tail_hidden dst ! l)],
           kb_tail_key := (kb_tail_key d)[l := spread_tail (kb_batch dst) (kb_tail_key src ! l) (kb_tail_key dst ! l)],
           kb_tail_value := (kb_tail_value d)[l := spread_tail (kb_batch dst) (kb_tail_value src ! l) (kb_tail_value dst ! l)],
           kb_tail_length := (kb_tail_length d)[l := replicate (kb_batch dst) (kb_tail_length src ! l ! 0)],
           kb_comp_key := (kb_comp_key d)[l := spread_row (source_count src l * kb_head_dim dst) (kb_heads dst) (kb_comp_key src ! l) (kb_comp_key dst ! l)],
           kb_comp_value := (kb_comp_value d)[l := spread_row (source_count src l * kb_head_dim dst) (kb_heads dst) (kb_comp_value src ! l) (kb_comp_value dst ! l)]\<rparr>)"
      using ne assms(3) cnt by (simp add: prefill_compressed_layer_def counts lens tails blocks up Let_def)
    also have "\<dots> = Inr (prefilled_layer src dst l d)"
      by (subst keys) (simp_all add: up d_def [symmetric] prefilled_layer_def Let_def False)
    finally show ?thesis by (simp add: d_def prefilled_upto_Suc)
  qed
qed


lemma prefill_layers_ok:
  assumes "prefillable dst src" "kb_ratio dst > 1"
  shows "ofold (prefill_compressed_layer src) [0..<kb_layers dst] dst = Inr (prefilled_upto src dst (kb_layers dst))"
proof -
  have "\<exists>d. ofold (prefill_compressed_layer src) [0..<kb_layers dst] dst = Inr d \<and> d = prefilled_upto src dst (length [0..<kb_layers dst])"
  proof (rule ofold_rule [where I = "\<lambda>done d. d = prefilled_upto src dst (length done)"])
    fix ls l rest d
    assume ls: "[0..<kb_layers dst] = ls @ l # rest" and d: "d = prefilled_upto src dst (length ls)"
    from arg_cong [OF ls, of "\<lambda>xs. xs ! length ls"] arg_cong [OF ls, of length]
    have "l = length ls" "length ls < kb_layers dst" by (auto simp: nth_append)
    with d prefill_layer_ok [OF assms, of l]
    show "\<exists>s'. prefill_compressed_layer src l d = Inr s' \<and> s' = prefilled_upto src dst (length (ls @ [l]))" by simp
  qed (simp add: prefilled_upto_0)
  then show ?thesis by simp
qed

lemma spread_row_length [simp]: "length (spread_row n heads ss ds) = length ds"
  by (simp add: spread_row_def)

lemma spread_row_front:
  assumes "row * heads + head < length ds" "head < heads" "n \<le> length (ts_data (ss ! head))"
  shows "take n (ts_data (spread_row n heads ss ds ! (row * heads + head))) = take n (ts_data (ss ! head))"
  using assms by (simp add: spread_row_def fronted_take)

lemma spread_grid_ok:
  assumes "full_grid layers (batch * heads) (tensor_ok [r, w]) dst" "full_grid layers heads (tensor_ok [r', w]) src"
    "n \<le> r * w" "n \<le> r' * w"
  shows "full_grid layers (batch * heads) (tensor_ok [r, w]) (map2 (spread_row n heads) src dst)"
    "prefill_grid layers batch heads (int n) (int n) src dst = Inr (map2 (spread_row n heads) src dst)"
proof -
  note d = full_gridD [OF assms(1)] and s = full_gridD [OF assms(2)]
  have "tensor_ok [r, w] (spread_row n heads (src ! l) (dst ! l) ! i)" if "l < layers" "i < batch * heads" for l i
  proof -
    from that(2) have "i mod heads < heads" by (cases heads) auto
    then show ?thesis
      using that d(2,3) s(3) [OF that(1), of "i mod heads"] assms(3,4)
      by (auto simp: spread_row_def intro!: fronted_ok) (auto simp: tensor_ok_def)
  qed
  then show "full_grid layers (batch * heads) (tensor_ok [r, w]) (map2 (spread_row n heads) src dst)"
    using d(1,2) s(1) by (auto simp: full_grid_def all_cells_iff in_set_conv_nth)
  show "prefill_grid layers batch heads (int n) (int n) src dst = Inr (map2 (spread_row n heads) src dst)"
    using assms by (intro prefill_grid_ok) (auto simp: full_grid_def all_cells_def tensor_ok_def)
qed

lemma spread_grid_front:
  assumes "full_grid layers (batch * heads) P dst" "full_grid layers heads (tensor_ok [r', w]) src"
    "n \<le> r' * w" "l < layers" "row < batch" "head < heads"
  shows "take n (ts_data (map2 (spread_row n heads) src dst ! l ! (row * heads + head))) = take n (ts_data (src ! l ! head))"
proof -
  have "n \<le> length (ts_data (src ! l ! head))"
    using full_gridD(3) [OF assms(2,4,6)] assms(3) by (simp add: tensor_ok_def)
  then show ?thesis
    using assms(4,6) full_gridD(1,2) [OF assms(1)] full_gridD(1) [OF assms(2)] head_index_bound [OF assms(5,6)]
    by (simp add: spread_row_front)
qed


lemma compressed_rows_ok:
  assumes "grid_ok layers n (tensor_ok [r, w]) grid" "l < layers" "i < n" "0 \<le> k" "k \<le> int r"
  shows "compressed_rows grid l i k = Inr (if grid ! l = [] then [] else take (nat k * w) (ts_data (grid ! l ! i)))"
proof (cases "grid ! l = []")
  case False
  then have t: "tensor_ok [r, w] (grid ! l ! i)" "length (grid ! l) = n" using grid_okD(2,3) [OF assms(1,2)] assms(3) by simp_all
  have "data_prefix (k * int w) (grid ! l ! i) = Inr (take (nat (k * int w)) (ts_data (grid ! l ! i)))"
    unfolding data_prefix_def using t(1) mult_le_bound [OF assms(4,5), of w] by (intro prefix_of_ok) (simp_all add: tensor_ok_def)
  moreover have "nat (k * int w) = nat k * w" using assms(4) by (simp add: nat_mult_distrib)
  ultimately show ?thesis
    using t False assms grid_okD(1) [OF assms(1)] by (simp add: compressed_rows_def row_width_def tensor_ok_def)
qed (use assms grid_okD(1) [OF assms(1)] in \<open>simp add: compressed_rows_def\<close>)

lemma indexer_key_rows:
  assumes "kb_index_key c \<noteq> [] \<Longrightarrow> grid_ok layers n (tensor_ok [r, kb_index_width c]) (kb_index_key c)" "l < layers" "head_index c row head < n"
  shows "indexer_key l row head k c = (if kb_index_key c = [] then Inr [] else compressed_rows (kb_index_key c) l (head_index c row head) k)"
proof (cases "kb_index_key c = [] \<or> kb_index_key c ! l = []")
  case False
  then have g: "grid_ok layers n (tensor_ok [r, kb_index_width c]) (kb_index_key c)" using assms(1) by simp
  from False have "tensor_ok [r, kb_index_width c] (kb_index_key c ! l ! head_index c row head)" "length (kb_index_key c ! l) = n"
    using grid_okD(2,3) [OF g assms(2)] assms(3) by simp_all
  with False show ?thesis
    using assms(2,3) grid_okD(1) [OF g] by (simp add: indexer_key_def compressed_rows_def row_width_def tensor_ok_def)
qed (auto simp: indexer_key_def compressed_rows_def)

text \<open>Spreading a layer's entries keeps the grid, and every row shows the source's.\<close>

lemma upto_all: "length grid = n \<Longrightarrow> l < n \<Longrightarrow> upto_layer n h grid ! l = h l"
  by (simp add: upto_layer_def)

lemma spread_blocks_ok:
  assumes "grid_ok layers (batch * heads) (tensor_ok [r, w]) old" "grid_ok layers heads (tensor_ok [r', w]) src"
    "owned old = owned src" "\<And>l. l < layers \<Longrightarrow> 0 \<le> k l \<and> k l \<le> int r \<and> k l \<le> int r'"
  defines "new \<equiv> upto_layer layers (\<lambda>l. spread_row (nat (k l) * w) heads (src ! l) (old ! l)) old"
  shows "grid_ok layers (batch * heads) (tensor_ok [r, w]) new"
    "l < layers \<Longrightarrow> row < batch \<Longrightarrow> head < heads \<Longrightarrow> compressed_rows new l (row * heads + head) (k l) = compressed_rows src l head (k l)"
proof -
  note o = grid_okD [OF assms(1)] and s = grid_okD [OF assms(2)]
  have new: "length new = layers" "\<And>l. l < layers \<Longrightarrow> new ! l = spread_row (nat (k l) * w) heads (src ! l) (old ! l)"
    using o(1) by (simp_all add: new_def upto_layer_simps(2) upto_all)
  have nil: "old ! l = [] \<longleftrightarrow> src ! l = []" if "l < layers" for l
    using owned_nil [OF assms(3)] that s(1) by simp
  have le: "nat (k l) * w \<le> r * w" "nat (k l) * w \<le> r' * w" if "l < layers" for l
    using assms(4) [OF that] by (intro mult_le_mono1; linarith)+
  have cells: "tensor_ok [r, w] (new ! l ! i)" if "l < layers" "old ! l \<noteq> []" "i < batch * heads" for l i
  proof -
    from that(3) have "i mod heads < heads" by (cases heads) auto
    then show ?thesis
      using that o(2,3) s(3) [OF that(1), of "i mod heads"] nil le [OF that(1)] new(2)
      by (auto simp: spread_row_def intro!: fronted_ok) (auto simp: tensor_ok_def)
  qed
  have len: "length (new ! l) = length (old ! l)" if "l < layers" for l using new(2) [OF that] by simp
  show ok: "grid_ok layers (batch * heads) (tensor_ok [r, w]) new"
    unfolding grid_ok_def all_cells_iff
  proof (intro conjI allI impI ballI)
    fix xs assume "xs \<in> set new"
    then obtain l where "l < layers" "xs = new ! l" using new(1) by (auto simp: in_set_conv_nth)
    then show "xs = [] \<or> length xs = batch * heads" using len o(2) by (metis length_0_conv)
  next
    fix l i assume "l < length new" "i < length (new ! l)"
    then show "tensor_ok [r, w] (new ! l ! i)" using new(1) len cells o(2) by (metis length_0_conv not_less_zero)
  qed (rule new(1))
  assume l: "l < layers" and row: "row < batch" and head: "head < heads"
  have i: "row * heads + head < batch * heads" by (rule head_index_bound [OF row head])
  have nl: "new ! l = [] \<longleftrightarrow> src ! l = []" using nil [OF l] len [OF l] by (metis length_0_conv)
  have "take (nat (k l) * w) (ts_data (new ! l ! (row * heads + head))) = take (nat (k l) * w) (ts_data (src ! l ! head))" if "src ! l \<noteq> []"
    unfolding new(2) [OF l]
    using that l i head nil o(2) s(3) le(2) [OF l] by (intro spread_row_front) (auto simp: tensor_ok_def)
  then show "compressed_rows new l (row * heads + head) (k l) = compressed_rows src l head (k l)"
    using compressed_rows_ok [OF ok l i] compressed_rows_ok [OF assms(2) l head] assms(4) [OF l] nl by simp
qed


text \<open>What a row of the compression state shows after the prefill.\<close>

definition same_compressed_row :: "kv_buffer \<Rightarrow> kv_buffer \<Rightarrow> nat \<Rightarrow> nat \<Rightarrow> nat \<Rightarrow> bool" where
  "same_compressed_row d src l row head \<longleftrightarrow>
     compressed_count l row d = compressed_count l 0 src \<and>
     (\<forall>k. compressed_count l 0 src = Inr k \<longrightarrow>
        compressed_key l row head k d = compressed_key l 0 head k src \<and>
        compressed_value l row head k d = compressed_value l 0 head k src \<and>
        indexer_key l row head k d = indexer_key l 0 head k src) \<and>
     (kb_tail_hidden src ! l \<noteq> [] \<longrightarrow>
        tail_length l row d = tail_length l 0 src \<and> tail_hidden l row d = tail_hidden l 0 src \<and>
        (kb_heads src = 1 \<longrightarrow> tail_key l row d = tail_key l 0 src \<and> tail_value l row d = tail_value l 0 src))"

lemma spread_tail_cell:
  assumes "grid_ok layers n P old" "grid_ok layers n' P' src" "owned old = owned src" "0 < n'" "l < layers" "src ! l \<noteq> []"
    "row < batch" "batch \<le> n"
  shows "cell (upto_layer layers (\<lambda>l. spread_tail batch (src ! l) (old ! l)) old) l row = cell src l 0"
proof -
  have "old ! l \<noteq> []" using owned_nil [OF assms(3)] grid_okD(1) [OF assms(2)] assms(5,6) by simp
  then have len: "length (old ! l) = n" "length (src ! l) = n'" "length old = layers" "length src = layers"
    using grid_okD [OF assms(1)] grid_okD [OF assms(2)] assms(5,6) by simp_all
  then show ?thesis
    using assms(4-8) by (simp add: upto_all upto_layer_simps(2) spread_tail_def)
qed

lemma prefilled_compression:
  assumes "prefillable dst src" "kb_ratio dst > 1" "l < kb_layers dst" "row < kb_batch dst" "head < kb_heads dst"
    and geometry: "kb_heads d = kb_heads dst" "kb_batch d = kb_batch dst" "kb_index_width d = kb_index_width dst"
    and parts: "kb_tail_hidden d = kb_tail_hidden (prefilled_upto src dst (kb_layers dst))" "kb_tail_key d = kb_tail_key (prefilled_upto src dst (kb_layers dst))"
      "kb_tail_value d = kb_tail_value (prefilled_upto src dst (kb_layers dst))" "kb_tail_length d = kb_tail_length (prefilled_upto src dst (kb_layers dst))"
      "kb_comp_key d = kb_comp_key (prefilled_upto src dst (kb_layers dst))" "kb_comp_value d = kb_comp_value (prefilled_upto src dst (kb_layers dst))"
      "kb_comp_count d = kb_comp_count (prefilled_upto src dst (kb_layers dst))" "kb_index_key d = kb_index_key (prefilled_upto src dst (kb_layers dst))"
  shows "same_compressed_row d src l row head"
proof -
  note p = prefillableD [OF assms(1)] and cnt = prefill_counts [OF assms(1-3)]
  have cd: "compression_ok dst" by (rule kv_ok_compression [OF p(1) assms(2)])
  have cs: "compression_ok src" using kv_ok_compression [OF p(2)] assms(2) p(9) by simp
  note D = compression_okD [OF cd]
  note S = compression_okD [OF cs, unfolded p(3) p(5) [symmetric] p(6) [symmetric] p(7) [symmetric] p(9) [symmetric] p(10) [symmetric] mult_1]
  have ls: "l < kb_layers src" using assms(3) p(5) by simp
  have own: "owned (kb_comp_key dst) = owned (kb_comp_key src)" "owned (kb_comp_value dst) = owned (kb_comp_value src)"
    "owned (kb_tail_key dst) = owned (kb_tail_key src)" "owned (kb_tail_value dst) = owned (kb_tail_value src)"
    using D(9-12) S(9-12) p(11) by simp_all
  define k where "k l = kb_comp_count src ! l ! 0" for l
  have k: "0 \<le> k l' \<and> k l' \<le> int (kb_max_blocks dst) \<and> k l' \<le> int (kb_max_blocks src)" if "l' < kb_layers dst" for l'
    using prefill_counts(3-5) [OF assms(1,2) that] by (simp add: k_def)
  have count: "compressed_count l 0 src = Inr (k l)" using cnt(1,2) by (simp add: compressed_count_def k_def)
  have "compressed_count l row d = Inr (k l)"
    using assms(3,4) full_gridD(1) [OF D(14)] by (simp add: compressed_count_def parts prefilled_upto_def Let_def upto_all upto_layer_simps(2) k_def)
  moreover have "compressed_key l row head (k l) d = compressed_key l 0 head (k l) src" "compressed_value l row head (k l) d = compressed_value l 0 head (k l) src"
    using spread_blocks_ok(2) [OF D(7) S(7) own(1) k assms(3-5)] spread_blocks_ok(2) [OF D(8) S(8) own(2) k assms(3-5)]
    by (simp_all add: compressed_key_def compressed_value_def parts geometry head_index_def prefilled_upto_def Let_def source_count_def k_def p(5))
  moreover have "indexer_key l row head (k l) d = indexer_key l 0 head (k l) src"
  proof (cases "kb_index_key dst = []")
    case True
    then have "kb_index_key src = []" "kb_index_key d = []"
      using owned_length [OF p(14)] by (simp_all add: parts prefilled_upto_def Let_def upto_layer_def)
    then show ?thesis by (simp add: indexer_key_def)
  next
    case False
    then have src: "kb_index_key src \<noteq> []" using owned_length [OF p(14)] by auto
    note G = kv_ok_index(2) [OF p(1) False]
    note H = kv_ok_index(2) [OF p(2) src, unfolded p(3) p(5) [symmetric] p(6) [symmetric] p(13) [symmetric] mult_1]
    have new: "kb_index_key d = upto_layer (kb_layers dst) (\<lambda>l. spread_row (nat (k l) * kb_index_width dst) (kb_heads dst) (kb_index_key src ! l)
        (kb_index_key dst ! l)) (kb_index_key dst)"
      by (simp add: parts prefilled_upto_def Let_def source_count_def k_def)
    note sp = spread_blocks_ok [where k = k, OF G H p(14) k, folded new]
    have "kb_index_key d \<noteq> []" using sp(1) grid_okD(1) assms(3) by fastforce
    then show ?thesis
      using src sp(2) [OF _ assms(3-5)] indexer_key_rows [of d, OF _ assms(3)] indexer_key_rows [of src, OF _ assms(3)] H sp(1)
        head_index_bound [OF assms(4,5)] assms(5) p(6,13) geometry
      by (simp add: head_index_def)
  qed
  moreover have "tail_length l row d = tail_length l 0 src \<and> tail_hidden l row d = tail_hidden l 0 src \<and>
        (kb_heads src = 1 \<longrightarrow> tail_key l row d = tail_key l 0 src \<and> tail_value l row d = tail_value l 0 src)" if "kb_tail_hidden src ! l \<noteq> []"
  proof (intro conjI impI)
    from that have old: "kb_tail_hidden dst ! l \<noteq> []" using owned_nil [OF p(11)] grid_okD(1) [OF S(4)] assms(3) by simp
    show "tail_length l row d = tail_length l 0 src"
      using assms(3,4) cnt(6,7) old full_gridD(1) [OF D(13)]
      by (simp add: tail_length_def parts prefilled_upto_def Let_def upto_all upto_layer_simps(2))
    show "tail_hidden l row d = tail_hidden l 0 src"
      using spread_tail_cell [OF D(4) S(4) p(11) _ assms(3) that assms(4)] by (simp add: tail_hidden_def parts prefilled_upto_def Let_def)
    assume one: "kb_heads src = 1"
    have ne: "kb_tail_key src ! l \<noteq> []" "kb_tail_value src ! l \<noteq> []" using layer_owned [OF cs ls] that by simp_all
    show "tail_key l row d = tail_key l 0 src"
      using spread_tail_cell [OF D(5) S(5) own(3) _ assms(3) ne(1) assms(4)] one p(6)
      by (simp add: tail_key_def parts prefilled_upto_def Let_def)
    show "tail_value l row d = tail_value l 0 src"
      using spread_tail_cell [OF D(6) S(6) own(4) _ assms(3) ne(2) assms(4)] one p(6)
      by (simp add: tail_value_def parts prefilled_upto_def Let_def)
  qed
  ultimately show ?thesis by (simp add: same_compressed_row_def count)
qed


lemma kv_ok_latent:
  assumes "kv_ok c" "kb_latent c \<noteq> []"
  shows "full_grid (kb_layers c) (kb_batch c) (tensor_ok [kb_max_len c, kb_latent_width c]) (kb_latent c)"
    "full_grid (kb_layers c) (kb_batch c) (tensor_ok [kb_max_len c, kb_rope_width c]) (kb_rope c)" "kb_rope c \<noteq> []"
  using assms by (auto simp: kv_ok_def full_grid_def split: if_splits)

lemma kv_ok_latent_iff: "kv_ok c \<Longrightarrow> kb_latent c \<noteq> [] \<longleftrightarrow> 0 < kb_latent_width c"
  by (auto simp: kv_ok_def split: if_splits)

lemma kv_ok_no_latent: "kv_ok c \<Longrightarrow> kb_latent c = [] \<Longrightarrow> kb_rope c = []"
  by (simp add: kv_ok_def)

lemma data_prefix_ok: "int n = k * int w \<Longrightarrow> n \<le> length (ts_data t) \<Longrightarrow> data_prefix (k * int w) t = Inr (take n (ts_data t))"
  by (metis data_prefix_nat)

text \<open>A grid with one buffer per row, read back up to the copied length.\<close>

lemma spread_single:
  assumes "full_grid layers batch (tensor_ok [r, w]) old" "full_grid layers 1 (tensor_ok [r', w]) src" "0 \<le> k" "k \<le> int r" "k \<le> int r'"
  obtains new where "prefill_grid layers batch 1 (k * int w) (k * int w) src old = Inr new"
    "full_grid layers batch (tensor_ok [r, w]) new"
    "\<And>l row. l < layers \<Longrightarrow> row < batch \<Longrightarrow>
      obind (cell new l row) (data_prefix (k * int w)) = obind (cell src l 0) (data_prefix (k * int w))"
proof -
  define n where "n = nat k * w"
  have n: "int n = k * int w" using assms(3) by (simp add: n_def)
  have le: "n \<le> r * w" "n \<le> r' * w" unfolding n_def using assms(3-5) by (intro mult_le_mono1; linarith)+
  have old: "full_grid layers (batch * 1) (tensor_ok [r, w]) old" using assms(1) by simp
  note g = spread_grid_ok [OF old assms(2) le]
  define new where "new = map2 (spread_row n 1) src old"
  have "obind (cell new l row) (data_prefix (k * int w)) = obind (cell src l 0) (data_prefix (k * int w))" if "l < layers" "row < batch" for l row
  proof -
    have "take n (ts_data (new ! l ! row)) = take n (ts_data (src ! l ! 0))"
      using spread_grid_front [OF old assms(2) le(2) that, of 0] by (simp add: new_def)
    moreover have "n \<le> length (ts_data (new ! l ! row))" "n \<le> length (ts_data (src ! l ! 0))"
      using full_gridD(3) [OF g(1) that(1), of row] full_gridD(3) [OF assms(2) that(1), of 0] that(2) le by (simp_all add: new_def tensor_ok_def)
    moreover have "l < length new" "row < length (new ! l)" "l < length src" "0 < length (src ! l)"
      using full_gridD(1,2) [OF g(1)] full_gridD(1,2) [OF assms(2)] that by (simp_all add: new_def)
    ultimately show ?thesis by (simp add: data_prefix_ok [OF n])
  qed
  then show thesis using that [of new] g by (simp add: new_def n)
qed


lemma prefill_raw:
  assumes "prefillable dst src"
  defines "n \<equiv> nat (kb_length src) * kb_head_dim dst"
  defines "keys \<equiv> map2 (spread_row n (kb_heads dst)) (kb_key src) (kb_key dst)"
    and "values \<equiv> map2 (spread_row n (kb_heads dst)) (kb_value src) (kb_value dst)"
  shows "int n = kb_length src * int (kb_head_dim dst)"
    "prefill_grid (kb_layers dst) (kb_batch dst) (kb_heads dst) (int n) (int n) (kb_key src) (kb_key dst) = Inr keys"
    "prefill_grid (kb_layers dst) (kb_batch dst) (kb_heads dst) (int n) (int n) (kb_value src) (kb_value dst) = Inr values"
    "prefillable (dst\<lparr>kb_key := keys, kb_value := values\<rparr>) src"
    "l < kb_layers dst \<Longrightarrow> row < kb_batch dst \<Longrightarrow> head < kb_heads dst \<Longrightarrow>
      take n (ts_data (keys ! l ! (row * kb_heads dst + head))) = take n (ts_data (kb_key src ! l ! head)) \<and>
      take n (ts_data (values ! l ! (row * kb_heads dst + head))) = take n (ts_data (kb_value src ! l ! head))"
proof -
  note p = prefillableD [OF assms(1)]
  note dd = kv_ok_dims [OF p(1)] and sd = kv_ok_dims [OF p(2), unfolded p(3) p(5) [symmetric] p(6) [symmetric] p(7) [symmetric] mult_1]
  show "int n = kb_length src * int (kb_head_dim dst)" using sd(6) by (simp add: n_def)
  have le: "n \<le> kb_max_len dst * kb_head_dim dst" "n \<le> kb_max_len src * kb_head_dim dst"
    unfolding n_def using sd(6,7) p(8) by (intro mult_le_mono1; linarith)+
  note gk = spread_grid_ok [OF dd(8) sd(8) le, folded keys_def] and gv = spread_grid_ok [OF dd(9) sd(9) le, folded values_def]
  show "prefill_grid (kb_layers dst) (kb_batch dst) (kb_heads dst) (int n) (int n) (kb_key src) (kb_key dst) = Inr keys"
    "prefill_grid (kb_layers dst) (kb_batch dst) (kb_heads dst) (int n) (int n) (kb_value src) (kb_value dst) = Inr values"
    by (rule gk gv)+
  have "compression_ok (dst\<lparr>kb_key := keys, kb_value := values\<rparr>) = compression_ok dst"
    "no_compression (dst\<lparr>kb_key := keys, kb_value := values\<rparr>) = no_compression dst"
    by (simp_all add: compression_ok_def no_compression_def)
  then have "kv_ok (dst\<lparr>kb_key := keys, kb_value := values\<rparr>)"
    using p(1) gk(1) gv(1) by (simp add: kv_ok_def)
  then show "prefillable (dst\<lparr>kb_key := keys, kb_value := values\<rparr>) src"
    using assms(1) by (simp add: prefillable_def)
  show "take n (ts_data (keys ! l ! (row * kb_heads dst + head))) = take n (ts_data (kb_key src ! l ! head)) \<and>
      take n (ts_data (values ! l ! (row * kb_heads dst + head))) = take n (ts_data (kb_value src ! l ! head))"
    if "l < kb_layers dst" "row < kb_batch dst" "head < kb_heads dst"
    unfolding keys_def values_def
    by (intro conjI spread_grid_front [OF dd(8) sd(8) le(2) that] spread_grid_front [OF dd(9) sd(9) le(2) that])
qed

lemma expand_previous_ok:
  assumes "tensor_ok [1, 1, channels] e" "0 < channels" "0 < batch"
  shows "expand_previous batch e = Inr \<lparr>ts_shape = [batch, 1, channels], ts_data = concat (replicate batch (ts_data e))\<rparr>"
  using assms data_prefix_nat [of channels e]
  by (simp add: expand_previous_def tensor_ok_def zero_tensor_def)

text \<open>The three stages of a prefill: the raw rows, the compression state, the latent rows.\<close>

lemma kv_prefill_from_stages:
  assumes "kb_length dst = 0" "int n = kb_length src * int (kb_head_dim dst)" "kb_head_dim src = kb_head_dim dst"
    "prefill_grid (kb_layers dst) (kb_batch dst) (kb_heads dst) (int n) (int n) (kb_key src) (kb_key dst) = Inr keys"
    "prefill_grid (kb_layers dst) (kb_batch dst) (kb_heads dst) (int n) (int n) (kb_value src) (kb_value dst) = Inr values"
    "d1 = dst\<lparr>kb_key := keys, kb_value := values\<rparr>"
    "d2 = (if kb_ratio dst > 1 then prefilled_upto src d1 (kb_layers dst) else d1)" "prefillable d1 src"
    "kb_latent dst \<noteq> [] \<Longrightarrow> prefill_grid (kb_layers dst) (kb_batch dst) 1 (kb_length src * int (kb_latent_width dst))
        (kb_length src * int (kb_latent_width dst)) (kb_latent src) (kb_latent dst) = Inr latents"
    "kb_latent dst \<noteq> [] \<Longrightarrow> prefill_grid (kb_layers dst) (kb_batch dst) 1 (kb_length src * int (kb_rope_width dst))
        (kb_length src * int (kb_rope_width dst)) (kb_rope src) (kb_rope dst) = Inr ropes"
    "d3 = (if kb_latent dst \<noteq> [] then d2\<lparr>kb_latent := latents, kb_rope := ropes\<rparr> else d2)"
  shows "kv_prefill_from dst src = (case kb_previous src of None \<Rightarrow> Inr (d3\<lparr>kb_length := kb_length src\<rparr>)
    | Some e \<Rightarrow> obind (expand_previous (kb_batch dst) e) (\<lambda>e. Inr (d3\<lparr>kb_length := kb_length src, kb_previous := Some e\<rparr>)))"
proof -
  have fields: "kb_latent d2 = kb_latent dst" "kb_rope d2 = kb_rope dst" "kb_latent_width d2 = kb_latent_width dst" "kb_rope_width d2 = kb_rope_width dst"
    by (simp_all add: assms(6,7) prefilled_upto_def Let_def)
  have fold: "(if compression_enabled d1 then ofold (prefill_compressed_layer src) [0..<kb_layers dst] d1 else Inr d1) = Inr d2"
    using prefill_layers_ok [OF assms(8)] by (simp add: assms(6,7) compression_enabled_def)
  note raw = assms(4,5) [unfolded assms(2)]
  show ?thesis
    unfolding kv_prefill_from_def kv_position_def Let_def assms(3) raw obind_simps assms(6) [symmetric] fold
    using assms(1,9,10) by (simp add: fields assms(11) split: option.split)
qed

lemma prefill_latents:
  assumes "prefillable dst src" "kb_latent dst \<noteq> []"
  obtains latents ropes where
    "prefill_grid (kb_layers dst) (kb_batch dst) 1 (kb_length src * int (kb_latent_width dst)) (kb_length src * int (kb_latent_width dst))
       (kb_latent src) (kb_latent dst) = Inr latents"
    "prefill_grid (kb_layers dst) (kb_batch dst) 1 (kb_length src * int (kb_rope_width dst)) (kb_length src * int (kb_rope_width dst))
       (kb_rope src) (kb_rope dst) = Inr ropes"
    "\<And>l row d. l < kb_layers dst \<Longrightarrow> row < kb_batch dst \<Longrightarrow> kb_latent d = latents \<Longrightarrow> kb_rope d = ropes \<Longrightarrow>
       kb_latent_width d = kb_latent_width dst \<Longrightarrow> kb_rope_width d = kb_rope_width dst \<Longrightarrow>
       mla_latent l row (kb_length src) d = mla_latent l 0 (kb_length src) src \<and>
       mla_rope_key l row (kb_length src) d = mla_rope_key l 0 (kb_length src) src"
proof -
  note p = prefillableD [OF assms(1)]
  have src: "kb_latent src \<noteq> []" using kv_ok_latent_iff [OF p(1)] kv_ok_latent_iff [OF p(2)] assms(2) p(15) by simp
  note D = kv_ok_latent [OF p(1) assms(2)] and S = kv_ok_latent [OF p(2) src, unfolded p(3) p(5) [symmetric] p(15,16) [symmetric]]
  note len = kv_ok_dims(6,7) [OF p(2)]
  obtain latents where latents: "prefill_grid (kb_layers dst) (kb_batch dst) 1 (kb_length src * int (kb_latent_width dst))
      (kb_length src * int (kb_latent_width dst)) (kb_latent src) (kb_latent dst) = Inr latents"
    "full_grid (kb_layers dst) (kb_batch dst) (tensor_ok [kb_max_len dst, kb_latent_width dst]) latents"
    "\<And>l row. l < kb_layers dst \<Longrightarrow> row < kb_batch dst \<Longrightarrow> obind (cell latents l row) (data_prefix (kb_length src * int (kb_latent_width dst))) =
      obind (cell (kb_latent src) l 0) (data_prefix (kb_length src * int (kb_latent_width dst)))"
    by (rule spread_single [OF D(1) S(1) len(1) p(8) len(2)]) blast
  obtain ropes where ropes: "prefill_grid (kb_layers dst) (kb_batch dst) 1 (kb_length src * int (kb_rope_width dst))
      (kb_length src * int (kb_rope_width dst)) (kb_rope src) (kb_rope dst) = Inr ropes"
    "full_grid (kb_layers dst) (kb_batch dst) (tensor_ok [kb_max_len dst, kb_rope_width dst]) ropes"
    "\<And>l row. l < kb_layers dst \<Longrightarrow> row < kb_batch dst \<Longrightarrow> obind (cell ropes l row) (data_prefix (kb_length src * int (kb_rope_width dst))) =
      obind (cell (kb_rope src) l 0) (data_prefix (kb_length src * int (kb_rope_width dst)))"
    by (rule spread_single [OF D(2) S(2) len(1) p(8) len(2)]) blast
  have "latents \<noteq> []" "ropes \<noteq> []"
    using full_gridD(1) [OF latents(2)] full_gridD(1) [OF ropes(2)] kv_ok_dims(2) [OF p(1)] by auto
  then show thesis
    using that [OF latents(1) ropes(1)] latents(3) ropes(3) src S(3) p(15,16) by (simp add: mla_latent_def mla_rope_key_def)
qed

text \<open>
  C5. Prefilling a batch from a buffer with one row makes every row of the batch look as the source's row does: the live
  keys and values of every head, the compressed entries and the indexer keys with their count, the latent rows, and the
  previous embedding. Of the compression tails, the hidden rows are copied, and the keys and values if there is one head.
\<close>
theorem prefill_from_replicates:
  assumes "prefillable dst src"
  shows "\<exists>d. kv_prefill_from dst src = Inr d \<and> kv_position d = kv_position src \<and>
    (\<forall>l row head. l < kb_layers dst \<and> row < kb_batch dst \<and> head < kb_heads dst \<longrightarrow>
       live_key d l row head = live_key src l 0 head \<and> live_value d l row head = live_value src l 0 head \<and>
       (compression_enabled dst \<longrightarrow> same_compressed_row d src l row head) \<and>
       mla_latent l row (kv_position src) d = mla_latent l 0 (kv_position src) src \<and>
       mla_rope_key l row (kv_position src) d = mla_rope_key l 0 (kv_position src) src) \<and>
    (\<forall>e. kb_previous src = Some e \<longrightarrow> map_option ts_data (kb_previous d) = Some (concat (replicate (kb_batch dst) (ts_data e))))"
proof -
  note p = prefillableD [OF assms] and raw = prefill_raw [OF assms]
  define n where "n = nat (kb_length src) * kb_head_dim dst"
  define keys where "keys = map2 (spread_row n (kb_heads dst)) (kb_key src) (kb_key dst)"
  define vals where "vals = map2 (spread_row n (kb_heads dst)) (kb_value src) (kb_value dst)"
  define d1 where "d1 = dst\<lparr>kb_key := keys, kb_value := vals\<rparr>"
  define d2 where "d2 = (if kb_ratio dst > 1 then prefilled_upto src d1 (kb_layers dst) else d1)"
  note raw = raw [folded n_def, folded keys_def vals_def, folded d1_def]
  obtain latents ropes where lr: "kb_latent dst \<noteq> [] \<Longrightarrow>
      prefill_grid (kb_layers dst) (kb_batch dst) 1 (kb_length src * int (kb_latent_width dst)) (kb_length src * int (kb_latent_width dst))
        (kb_latent src) (kb_latent dst) = Inr latents"
    "kb_latent dst \<noteq> [] \<Longrightarrow>
      prefill_grid (kb_layers dst) (kb_batch dst) 1 (kb_length src * int (kb_rope_width dst)) (kb_length src * int (kb_rope_width dst))
        (kb_rope src) (kb_rope dst) = Inr ropes"
    "\<And>l row d. kb_latent dst \<noteq> [] \<Longrightarrow> l < kb_layers dst \<Longrightarrow> row < kb_batch dst \<Longrightarrow> kb_latent d = latents \<Longrightarrow> kb_rope d = ropes \<Longrightarrow>
       kb_latent_width d = kb_latent_width dst \<Longrightarrow> kb_rope_width d = kb_rope_width dst \<Longrightarrow>
       mla_latent l row (kb_length src) d = mla_latent l 0 (kb_length src) src \<and>
       mla_rope_key l row (kb_length src) d = mla_rope_key l 0 (kb_length src) src"
    using prefill_latents [OF assms] by metis
  define d3 where "d3 = (if kb_latent dst \<noteq> [] then d2\<lparr>kb_latent := latents, kb_rope := ropes\<rparr> else d2)"
  note stages = kv_prefill_from_stages [OF p(4) raw(1) p(7) [symmetric] raw(2,3) d1_def d2_def raw(4) lr(1,2) d3_def]
  obtain d where d: "kv_prefill_from dst src = Inr d" "d = d3\<lparr>kb_length := kb_length src, kb_previous := kb_previous d\<rparr>"
    "\<forall>e. kb_previous src = Some e \<longrightarrow> map_option ts_data (kb_previous d) = Some (concat (replicate (kb_batch dst) (ts_data e)))"
  proof (cases "kb_previous src")
    case None
    then show thesis using that [of "d3\<lparr>kb_length := kb_length src\<rparr>"] stages by simp
  next
    case (Some e)
    then obtain channels where "0 < channels" "tensor_ok [1, 1, channels] e" using p(2,3) by (auto simp: kv_ok_def)
    from expand_previous_ok [OF this(2,1)] kv_ok_dims(1) [OF p(1)] Some stages that show thesis by force
  qed
  note defs = d3_def d2_def d1_def prefilled_upto_def Let_def
  have raws: "kb_key d = keys" "kb_value d = vals" "kb_length d = kb_length src"
    using arg_cong [OF d(2), of kb_key] arg_cong [OF d(2), of kb_value] arg_cong [OF d(2), of kb_length] by (simp_all add: defs)
  have geometry: "kb_heads d = kb_heads dst" "kb_batch d = kb_batch dst" "kb_head_dim d = kb_head_dim dst" "kb_index_width d = kb_index_width dst"
    "kb_latent_width d = kb_latent_width dst" "kb_rope_width d = kb_rope_width dst"
    using arg_cong [OF d(2), of kb_heads] arg_cong [OF d(2), of kb_batch] arg_cong [OF d(2), of kb_head_dim]
      arg_cong [OF d(2), of kb_index_width] arg_cong [OF d(2), of kb_latent_width] arg_cong [OF d(2), of kb_rope_width]
    by (simp_all add: defs)
  have d1: "kb_ratio d1 = kb_ratio dst" "kb_layers d1 = kb_layers dst" "kb_batch d1 = kb_batch dst" "kb_heads d1 = kb_heads dst"
    "kb_index_width d1 = kb_index_width dst"
    by (simp_all add: d1_def)
  have live: "live_key d l row head = live_key src l 0 head \<and> live_value d l row head = live_value src l 0 head"
    if "l < kb_layers dst" "row < kb_batch dst" "head < kb_heads dst" for l row head
    using raw(5) [OF that] p(7) raw(1) [symmetric]
    by (simp add: live_key_def live_value_def head_index_def raws geometry)
  have comp: "same_compressed_row d src l row head"
    if "kb_ratio dst > 1" "l < kb_layers dst" "row < kb_batch dst" "head < kb_heads dst" for l row head
  proof (rule prefilled_compression [OF raw(4), unfolded d1])
    have "kb_ratio dst > 1" by (rule that(1))
    then show "kb_tail_hidden d = kb_tail_hidden (prefilled_upto src d1 (kb_layers dst))" "kb_tail_key d = kb_tail_key (prefilled_upto src d1 (kb_layers dst))"
      "kb_tail_value d = kb_tail_value (prefilled_upto src d1 (kb_layers dst))" "kb_tail_length d = kb_tail_length (prefilled_upto src d1 (kb_layers dst))"
      "kb_comp_key d = kb_comp_key (prefilled_upto src d1 (kb_layers dst))" "kb_comp_value d = kb_comp_value (prefilled_upto src d1 (kb_layers dst))"
      "kb_comp_count d = kb_comp_count (prefilled_upto src d1 (kb_layers dst))" "kb_index_key d = kb_index_key (prefilled_upto src d1 (kb_layers dst))"
      using arg_cong [OF d(2), of kb_tail_hidden] arg_cong [OF d(2), of kb_tail_key] arg_cong [OF d(2), of kb_tail_value]
        arg_cong [OF d(2), of kb_tail_length] arg_cong [OF d(2), of kb_comp_key] arg_cong [OF d(2), of kb_comp_value]
        arg_cong [OF d(2), of kb_comp_count] arg_cong [OF d(2), of kb_index_key]
      by (simp_all add: d3_def d2_def)
  qed (use that geometry in simp_all)
  have mla: "mla_latent l row (kb_length src) d = mla_latent l 0 (kb_length src) src \<and>
      mla_rope_key l row (kb_length src) d = mla_rope_key l 0 (kb_length src) src" if "l < kb_layers dst" "row < kb_batch dst" for l row
  proof (cases "kb_latent dst = []")
    case True
    then have "kb_latent d = []" "kb_rope d = []"
      using arg_cong [OF d(2), of kb_latent] arg_cong [OF d(2), of kb_rope] kv_ok_no_latent [OF p(1)] by (simp_all add: defs)
    moreover have "kb_latent src = []" "kb_rope src = []"
      using True kv_ok_latent_iff [OF p(1)] kv_ok_latent_iff [OF p(2)] kv_ok_no_latent [OF p(2)] p(15) by simp_all
    ultimately show ?thesis by (simp add: mla_latent_def mla_rope_key_def)
  next
    case False
    then have "kb_latent d = latents" "kb_rope d = ropes"
      using arg_cong [OF d(2), of kb_latent] arg_cong [OF d(2), of kb_rope] by (simp_all add: d3_def)
    with lr(3) [OF False that] geometry show ?thesis by blast
  qed
  show ?thesis
    using d(1,3) live comp mla raws(3) by (simp add: kv_position_def compression_enabled_def)
qed


definition example_batch :: kv_buffer where
  "example_batch =
     \<lparr>kb_batch = 2, kb_max_len = 5, kb_layers = 1, kb_heads = 2, kb_head_dim = 1,
      kb_key = [replicate 4 (zero_tensor [5, 1])], kb_value = [replicate 4 (zero_tensor [5, 1])],
      kb_length = 0, kb_previous = None, kb_ratio = 2, kb_max_blocks = 2, kb_embedding = 1, kb_kv_width = 2,
      kb_tail_hidden = [replicate 2 [0, 0]], kb_tail_key = [replicate 4 [0, 0]], kb_tail_value = [replicate 4 [0, 0]],
      kb_tail_length = [[0, 0]], kb_comp_key = [replicate 4 (zero_tensor [2, 1])], kb_comp_value = [replicate 4 (zero_tensor [2, 1])],
      kb_comp_count = [[0, 0]], kb_index_width = 1, kb_index_key = [replicate 4 (zero_tensor [2, 1])],
      kb_latent_width = 0, kb_rope_width = 0, kb_latent = [], kb_rope = [], kb_stripped = False\<rparr>"

lemma example_prefillable: "prefillable example_batch example_kv"
proof -
  have "compression_ok example_batch"
    unfolding compression_ok_def example_batch_def
    by (simp add: Let_def grid_ok_def full_grid_def all_cells_def tensor_ok_def owned_def zero_tensor_def)
  then have "kv_ok example_batch"
    unfolding kv_ok_def
    by (simp add: example_batch_def full_grid_def grid_ok_def all_cells_def tensor_ok_def zero_tensor_def)
  then show ?thesis
    using example_kv_ok unfolding prefillable_def
    by (simp add: example_batch_def example_kv_def all_cells_def owned_def zero_tensor_def)
qed

theorem prefill_from_replicates_witness:
  "\<exists>d. kv_prefill_from example_batch example_kv = Inr d \<and> live_key d 0 1 1 = [4, 5, 6] \<and>
    compressed_key 0 1 1 1 d = Inr [45] \<and> indexer_key 0 1 1 1 d = Inr [46]"
proof -
  obtain d where d: "kv_prefill_from example_batch example_kv = Inr d"
    "\<forall>l row head. l < 1 \<and> row < 2 \<and> head < 2 \<longrightarrow>
      live_key d l row head = live_key example_kv l 0 head \<and> same_compressed_row d example_kv l row head"
    using prefill_from_replicates [OF example_prefillable] by (auto simp: example_batch_def compression_enabled_def)
  have "live_key d 0 1 1 = live_key example_kv 0 0 1" "same_compressed_row d example_kv 0 1 1" using d(2) by simp_all
  moreover have "live_key example_kv 0 0 1 = [4, 5, 6]" "compressed_count 0 0 example_kv = Inr 1" "compressed_key 0 0 1 1 example_kv = Inr [45]"
    "indexer_key 0 0 1 1 example_kv = Inr [46]"
    by code_simp+
  ultimately show ?thesis using d(1) by (auto simp: same_compressed_row_def)
qed

text \<open>
  With more than one head the tails are indexed by row * heads + head, but the loop copies to index \<open>batch\<close> from index 0:
  here the second head of the first row gets the first head's tail, and the second row's tails stay empty, while their
  length says that they hold a row.
\<close>
lemma prefill_tail_heads:
  "case kv_prefill_from example_batch example_kv of
     Inr d \<Rightarrow> tail_key 0 1 example_kv = Inr [6, 9] \<and> tail_key 0 1 d = Inr [3, 9] \<and>
       tail_key 0 2 d = Inr [0, 0] \<and> tail_length 0 1 d = Inr 1
   | Inl e \<Rightarrow> False"
  by code_simp

end
