(* ===== verification/Top_K.thy ===== *)
theory Top_K
  imports Go_Float "HOL-Library.Multiset" "HOL-Library.Product_Lexorder"
begin

text \<open>
  Choosing the largest of a row of scores: the bounded heap and the sort of src/model/indexer.go.

  The order is that of \<open>indexBetter\<close>: the larger value, or of equal vs the smaller index. On rows without NaN
  it is the linear order of \<open>rank\<close>, and everything here chooses a prefix of the row's indices sorted by it.
\<close>

section \<open>Sorting\<close>

text \<open>
  \<open>sort.SliceStable\<close>, by its contract: a stable sort by the order the closure gives. For an order that is linear
  there is one such result; the model inserts.
\<close>

fun insert_stable :: "('a \<Rightarrow> 'a \<Rightarrow> bool) \<Rightarrow> 'a \<Rightarrow> 'a list \<Rightarrow> 'a list" where
  "insert_stable lt_by x [] = [x]"
| "insert_stable lt_by x (y # ys) = (if lt_by y x then y # insert_stable lt_by x ys else x # y # ys)"

definition slice_stable :: "('a \<Rightarrow> 'a \<Rightarrow> bool) \<Rightarrow> 'a list \<Rightarrow> 'a list" where
  "slice_stable lt_by xs = foldr (insert_stable lt_by) xs []"

section \<open>The indexer's selection\<close>

definition index_better :: "f32 list \<Rightarrow> nat \<Rightarrow> nat \<Rightarrow> bool" where
  "index_better vs a b = (if \<not> f32_eq (vs ! a) (vs ! b) then f32_gt (vs ! a) (vs ! b) else a < b)"

definition argsort_descending :: "f32 list \<Rightarrow> nat list" where
  "argsort_descending vs = slice_stable (index_better vs) [0..<length vs]"

definition swap_cells :: "nat \<Rightarrow> nat \<Rightarrow> 'a list \<Rightarrow> 'a list" where
  "swap_cells i j xs = xs[i := xs ! j, j := xs ! i]"

lemma swap_cells_length [simp]: "length (swap_cells i j xs) = length xs"
  by (simp add: swap_cells_def)

text \<open>The heap's root is the worst index kept.\<close>

fun sift_up_index :: "f32 list \<Rightarrow> nat list \<Rightarrow> nat \<Rightarrow> nat list" where
  "sift_up_index vs heap position =
     (if position = 0 then heap
      else let parent = (position - 1) div 2 in
        if \<not> index_better vs (heap ! parent) (heap ! position) then heap
        else sift_up_index vs (swap_cells parent position heap) parent)"

function sift_down_index :: "f32 list \<Rightarrow> nat list \<Rightarrow> nat \<Rightarrow> nat list" where
  "sift_down_index vs heap position =
     (let size = length heap; left = 2 * position + 1; right = left + 1 in
      if left \<ge> size then heap
      else let worst = (if index_better vs (heap ! position) (heap ! left) then left else position);
               worst = (if right < size \<and> index_better vs (heap ! worst) (heap ! right) then right else worst) in
        if worst = position then heap
        else sift_down_index vs (swap_cells position worst heap) worst)"
  by auto
termination
  by (relation "measure (\<lambda>(vs, heap, position). length heap - position)") (auto split: if_splits)

declare sift_up_index.simps [simp del] sift_down_index.simps [simp del]

definition heap_step :: "f32 list \<Rightarrow> nat \<Rightarrow> nat \<Rightarrow> nat list \<Rightarrow> nat list" where
  "heap_step vs k index heap =
     (if length heap < k then sift_up_index vs (heap @ [index]) (length heap)
      else if index_better vs index (heap ! 0) then sift_down_index vs (heap[0 := index]) 0
      else heap)"

text \<open>Popping the worst until nothing is left, from the last place of the answer to the first.\<close>

primrec pop_ordered :: "f32 list \<Rightarrow> nat \<Rightarrow> nat list \<Rightarrow> nat list \<Rightarrow> nat list" where
  "pop_ordered vs 0 heap ordered = ordered"
| "pop_ordered vs (Suc n) heap ordered =
     pop_ordered vs n (sift_down_index vs (butlast (heap[0 := last heap])) 0) (ordered[n := heap ! 0])"

definition top_k_indices :: "f32 list \<Rightarrow> int \<Rightarrow> nat list" where
  "top_k_indices vs k =
     (if k \<le> 0 then []
      else if k \<ge> int (length vs) then argsort_descending vs
      else if k * 4 \<ge> int (length vs) then take (nat k) (argsort_descending vs)
      else let heap = fold (heap_step vs (nat k)) [0..<length vs] []
        in pop_ordered vs (length heap) heap (replicate (length heap) 0))"

section \<open>The order of a row without NaN\<close>

definition rank :: "f32 list \<Rightarrow> nat \<Rightarrow> int \<times> nat" where
  "rank vs i = (- f32_key (vs ! i), i)"

lemma rank_inj [simp]: "rank vs i = rank vs j \<longleftrightarrow> i = j"
  by (auto simp: rank_def)

lemma rank_inj_on [simp]: "inj_on (rank vs) S"
  by (simp add: inj_on_def)

lemma index_better_rank:
  assumes "no_nan vs" "a < length vs" "b < length vs"
  shows "index_better vs a b \<longleftrightarrow> rank vs a < rank vs b"
  using no_nan_nth [OF assms(1,2)] no_nan_nth [OF assms(1,3)]
  by (auto simp: index_better_def f32_compare rank_def less_prod_def)

lemma insert_stable_insort:
  assumes "\<And>y. y \<in> set xs \<Longrightarrow> lt_by y x \<longleftrightarrow> f y < (f x :: 'b :: linorder)"
  shows "insert_stable lt_by x xs = insort_key f x xs"
  using assms by (induction xs) auto

lemma slice_stable_sort:
  assumes "\<And>x y. x \<in> set xs \<Longrightarrow> y \<in> set xs \<Longrightarrow> lt_by y x \<longleftrightarrow> f y < (f x :: 'b :: linorder)"
  shows "slice_stable lt_by xs = sort_key f xs"
  using assms
proof (induction xs)
  case (Cons x xs)
  then have "slice_stable lt_by xs = sort_key f xs" by simp
  then show ?case
    using insert_stable_insort [of "sort_key f xs" lt_by x f] Cons.prems by (simp add: slice_stable_def)
qed (simp add: slice_stable_def)

lemma argsort_sort:
  assumes "no_nan vs"
  shows "argsort_descending vs = sort_key (rank vs) [0..<length vs]"
  unfolding argsort_descending_def
  by (rule slice_stable_sort) (simp add: index_better_rank [OF assms])


section \<open>The heap\<close>

definition indices_ok :: "f32 list \<Rightarrow> nat list \<Rightarrow> bool" where
  "indices_ok vs h \<longleftrightarrow> no_nan vs \<and> set h \<subseteq> {..<length vs}"

lemma indices_better:
  assumes "indices_ok vs h" "i < length h" "j < length h"
  shows "index_better vs (h ! i) (h ! j) \<longleftrightarrow> rank vs (h ! i) < rank vs (h ! j)"
  using assms by (intro index_better_rank) (auto simp: indices_ok_def subset_iff)

lemma indices_ok_mset: "mset h = mset h' \<Longrightarrow> indices_ok vs h \<longleftrightarrow> indices_ok vs h'"
  by (metis indices_ok_def set_mset_mset)

lemma mset_swap_cells: "i < length xs \<Longrightarrow> j < length xs \<Longrightarrow> mset (swap_cells i j xs) = mset xs"
  by (simp add: swap_cells_def mset_swap)

definition worst_heap :: "f32 list \<Rightarrow> nat list \<Rightarrow> bool" where
  "worst_heap vs h \<longleftrightarrow> (\<forall>c. 0 < c \<and> c < length h \<longrightarrow> rank vs (h ! c) \<le> rank vs (h ! ((c - 1) div 2)))"

text \<open>Below the root nothing is worse.\<close>

lemma worst_heap_root:
  assumes "worst_heap vs h" "i < length h"
  shows "rank vs (h ! i) \<le> rank vs (h ! 0)"
  using assms(2)
proof (induction i rule: less_induct)
  case (less i)
  show ?case
  proof (cases "i = 0")
    case False
    then have "rank vs (h ! i) \<le> rank vs (h ! ((i - 1) div 2))" using assms(1) less.prems by (simp add: worst_heap_def)
    also have "\<dots> \<le> rank vs (h ! 0)" using less False by simp
    finally show ?thesis .
  qed simp
qed

text \<open>A heap but for one place, which may be better (going up) or worse (going down) than it should.\<close>

definition heap_but :: "f32 list \<Rightarrow> nat list \<Rightarrow> nat \<Rightarrow> (nat \<Rightarrow> bool) \<Rightarrow> bool" where
  "heap_but vs h p skipped \<longleftrightarrow>
     (\<forall>c. 0 < c \<and> c < length h \<and> \<not> skipped c \<longrightarrow> rank vs (h ! c) \<le> rank vs (h ! ((c - 1) div 2))) \<and>
     (\<forall>c. 0 < p \<and> 0 < c \<and> c < length h \<and> (c - 1) div 2 = p \<longrightarrow> rank vs (h ! c) \<le> rank vs (h ! ((p - 1) div 2)))"

lemma sift_up_heap:
  assumes "indices_ok vs h" "p < length h" "heap_but vs h p (\<lambda>c. c = p)"
  shows "worst_heap vs (sift_up_index vs h p) \<and> mset (sift_up_index vs h p) = mset h"
  using assms
proof (induction vs h p rule: sift_up_index.induct)
  case (1 vs h p)
  define q where "q = (p - 1) div 2"
  show ?case
  proof (cases "p = 0 \<or> \<not> index_better vs (h ! q) (h ! p)")
    case True
    then have stop: "sift_up_index vs h p = h" by (auto simp: sift_up_index.simps [of vs h p] q_def Let_def)
    moreover have "rank vs (h ! c) \<le> rank vs (h ! ((c - 1) div 2))" if "0 < c" "c < length h" for c
    proof (cases "c = p")
      case c: True
      then have "q < length h" using that by (simp add: q_def)
      then show ?thesis
        using True c that indices_better [OF 1(2), of q p] by (auto simp: q_def not_less)
    qed (use 1(4) that in \<open>simp add: heap_but_def\<close>)
    ultimately show ?thesis by (simp add: worst_heap_def)
  next
    case False
    then have p: "0 < p" and better: "index_better vs (h ! q) (h ! p)" by auto
    have q: "q < p" "q < length h" using p 1(3) by (simp_all add: q_def)
    have rec: "sift_up_index vs h p = sift_up_index vs (swap_cells q p h) q"
      using False by (simp add: sift_up_index.simps [of vs h p] q_def Let_def)
    have lt: "rank vs (h ! q) < rank vs (h ! p)" using better indices_better [OF 1(2) q(2) 1(3)] by simp
    have ms: "mset (swap_cells q p h) = mset h" by (rule mset_swap_cells [OF q(2) 1(3)])
    have nth: "swap_cells q p h ! c = (if c = p then h ! q else if c = q then h ! p else h ! c)" if "c < length h" for c
      using that q 1(3) by (simp add: swap_cells_def nth_list_update)
    note but = 1(4) [unfolded heap_but_def, THEN conjunct1, rule_format] and children = 1(4) [unfolded heap_but_def, THEN conjunct2, rule_format]
    have "heap_but vs (swap_cells q p h) q (\<lambda>c. c = q)"
      unfolding heap_but_def
    proof (intro conjI allI impI; elim conjE)
      fix c assume c: "0 < c" "c < length (swap_cells q p h)" "c \<noteq> q"
      then have par: "(c - 1) div 2 < c" "(c - 1) div 2 < length h" by auto
      consider "c = p" | "c \<noteq> p" "(c - 1) div 2 = p" | "c \<noteq> p" "(c - 1) div 2 = q" | "c \<noteq> p" "(c - 1) div 2 \<noteq> p" "(c - 1) div 2 \<noteq> q"
        by blast
      then show "rank vs (swap_cells q p h ! c) \<le> rank vs (swap_cells q p h ! ((c - 1) div 2))"
      proof cases
        case 1
        then show ?thesis using c lt q nth q_def [symmetric] by simp
      next
        case 2
        then show ?thesis using children [of c] c par q nth p by (simp add: q_def)
      next
        case 3
        then show ?thesis using but [of c] c par q nth lt by simp
      next
        case 4
        then show ?thesis using but [of c] c par nth by simp
      qed
    next
      fix c assume c: "0 < q" "0 < c" "c < length (swap_cells q p h)" "(c - 1) div 2 = q"
      have up: "rank vs (h ! q) \<le> rank vs (h ! ((q - 1) div 2))" using but [of q] c(1) q by simp
      have "rank vs (h ! c) \<le> rank vs (h ! q)" if "c \<noteq> p" using but [of c] c that by simp
      moreover have "(q - 1) div 2 < q" "(q - 1) div 2 < length h" "c \<noteq> q" using c q by auto
      ultimately show "rank vs (swap_cells q p h ! c) \<le> rank vs (swap_cells q p h ! ((q - 1) div 2))"
        using up c nth q order_trans by (cases "c = p") auto
    qed
    moreover have "indices_ok vs (swap_cells q p h)" using 1(2) indices_ok_mset [OF ms] by simp
    ultimately show ?thesis
      using 1(1) [OF _ q_def] better p q ms rec by simp
  qed
qed


text \<open>Which place \<open>sift_down_index\<close> goes on with: the worst of a place and its children.\<close>

definition worst_child :: "f32 list \<Rightarrow> nat list \<Rightarrow> nat \<Rightarrow> nat" where
  "worst_child vs h p =
     (let w = (if index_better vs (h ! p) (h ! (2 * p + 1)) then 2 * p + 1 else p) in
      if 2 * p + 2 < length h \<and> index_better vs (h ! w) (h ! (2 * p + 2)) then 2 * p + 2 else w)"

lemma sift_down_unfold:
  "sift_down_index vs h p =
     (if 2 * p + 1 \<ge> length h \<or> worst_child vs h p = p then h
      else sift_down_index vs (swap_cells p (worst_child vs h p) h) (worst_child vs h p))"
  by (subst sift_down_index.simps) (auto simp: worst_child_def Let_def)

lemma worst_child:
  assumes "indices_ok vs h" "2 * p + 1 < length h"
  defines "w \<equiv> worst_child vs h p"
  shows "w < length h" "w = p \<or> w = 2 * p + 1 \<or> w = 2 * p + 2" "rank vs (h ! p) \<le> rank vs (h ! w)"
    "rank vs (h ! (2 * p + 1)) \<le> rank vs (h ! w)" "2 * p + 2 < length h \<Longrightarrow> rank vs (h ! (2 * p + 2)) \<le> rank vs (h ! w)"
    "w \<noteq> p \<Longrightarrow> rank vs (h ! p) < rank vs (h ! w)"
proof -
  note better = indices_better [OF assms(1)]
  have "p < length h" using assms(2) by simp
  note b = better [OF this assms(2)] better [OF this, of "2 * p + 2"] better [OF assms(2), of "2 * p + 2"]
  show "w < length h" "w = p \<or> w = 2 * p + 1 \<or> w = 2 * p + 2" "rank vs (h ! p) \<le> rank vs (h ! w)"
    "rank vs (h ! (2 * p + 1)) \<le> rank vs (h ! w)" "2 * p + 2 < length h \<Longrightarrow> rank vs (h ! (2 * p + 2)) \<le> rank vs (h ! w)"
    "w \<noteq> p \<Longrightarrow> rank vs (h ! p) < rank vs (h ! w)"
    using b assms(2) by (auto simp: w_def worst_child_def Let_def not_less split: if_splits)
qed

lemma child_cases: "0 < c \<Longrightarrow> (c - 1) div 2 = p \<longleftrightarrow> c = 2 * p + 1 \<or> c = 2 * (p :: nat) + 2"
  by auto

lemma sift_down_heap:
  assumes "indices_ok vs h" "heap_but vs h p (\<lambda>c. (c - 1) div 2 = p)"
  shows "worst_heap vs (sift_down_index vs h p) \<and> mset (sift_down_index vs h p) = mset h"
  using assms
proof (induction "length h - p" arbitrary: h p rule: less_induct)
  case less
  define w where "w = worst_child vs h p"
  note but = less.prems(2) [unfolded heap_but_def, THEN conjunct1, rule_format]
    and children = less.prems(2) [unfolded heap_but_def, THEN conjunct2, rule_format]
  show ?case
  proof (cases "2 * p + 1 \<ge> length h \<or> w = p")
    case True
    then have stop: "sift_down_index vs h p = h" by (subst sift_down_unfold) (auto simp: w_def)
    moreover have "rank vs (h ! c) \<le> rank vs (h ! ((c - 1) div 2))" if "0 < c" "c < length h" for c
    proof (cases "(c - 1) div 2 = p")
      case c: True
      then have child: "c = 2 * p + 1 \<or> c = 2 * p + 2" using child_cases [OF that(1), of p] by simp
      then have "2 * p + 1 < length h" using that by auto
      with True have "w = p" by simp
      with worst_child [OF less.prems(1) \<open>2 * p + 1 < length h\<close>] child that c show ?thesis by (auto simp: w_def)
    qed (use but that in blast)
    ultimately show ?thesis by (simp add: worst_heap_def)
  next
    case False
    then have left: "2 * p + 1 < length h" and ne: "w \<noteq> p" by simp_all
    note worst = worst_child [OF less.prems(1) left, folded w_def]
    have w: "w < length h" "p < w" "p < length h" "w = 2 * p + 1 \<or> w = 2 * p + 2" using worst(1,2) ne by auto
    have par: "(w - 1) div 2 = p" using w child_cases [of w p] by simp
    have rec: "sift_down_index vs h p = sift_down_index vs (swap_cells p w h) w"
      using False by (subst sift_down_unfold) (simp add: w_def)
    have ms: "mset (swap_cells p w h) = mset h" by (rule mset_swap_cells [OF w(3,1)])
    have nth: "swap_cells p w h ! c = (if c = w then h ! p else if c = p then h ! w else h ! c)" if "c < length h" for c
      using that w by (simp add: swap_cells_def nth_list_update)
    have "heap_but vs (swap_cells p w h) w (\<lambda>c. (c - 1) div 2 = w)"
      unfolding heap_but_def
    proof (intro conjI allI impI; elim conjE)
      fix c assume c: "0 < c" "c < length (swap_cells p w h)" "(c - 1) div 2 \<noteq> w"
      then have q: "(c - 1) div 2 < c" "(c - 1) div 2 < length h" by auto
      consider "c = w" | "c \<noteq> w" "(c - 1) div 2 = p" | "c = p" | "c \<noteq> w" "c \<noteq> p" "(c - 1) div 2 \<noteq> p" by blast
      then show "rank vs (swap_cells p w h ! c) \<le> rank vs (swap_cells p w h ! ((c - 1) div 2))"
      proof cases
        case 1
        then show ?thesis using nth w worst(3) par by simp
      next
        case 2
        then have "rank vs (h ! c) \<le> rank vs (h ! w)" using child_cases [OF c(1), of p] worst(4,5) c(2) by auto
        then show ?thesis using 2 nth c q w by simp
      next
        case 3
        then have "rank vs (h ! w) \<le> rank vs (h ! ((p - 1) div 2))" using children [of w] c(1) w par by simp
        then show ?thesis using 3 nth c q w by simp
      next
        case 4
        then show ?thesis using but [of c] c q nth by simp
      qed
    next
      fix c assume c: "0 < w" "0 < c" "c < length (swap_cells p w h)" "(c - 1) div 2 = w"
      then have "rank vs (h ! c) \<le> rank vs (h ! w)" using but [of c] w by simp
      moreover have "c \<noteq> w" "c \<noteq> p" using c w by auto
      ultimately show "rank vs (swap_cells p w h ! c) \<le> rank vs (swap_cells p w h ! ((w - 1) div 2))"
        using c w par nth by simp
    qed
    moreover have "indices_ok vs (swap_cells p w h)" using less.prems(1) indices_ok_mset [OF ms] by simp
    ultimately show ?thesis
      using less.hyps [of "swap_cells p w h" w] w ms rec by simp
  qed
qed


section \<open>The best of a row\<close>

definition best_of :: "f32 list \<Rightarrow> nat \<Rightarrow> nat set \<Rightarrow> nat set \<Rightarrow> bool" where
  "best_of vs k X S \<longleftrightarrow> S \<subseteq> X \<and> card S = min k (card X) \<and> (\<forall>s \<in> S. \<forall>x \<in> X - S. rank vs s < rank vs x)"

lemma best_of_unique:
  assumes "finite X" "best_of vs k X S" "best_of vs k X T"
  shows "S = T"
proof (rule ccontr)
  assume "S \<noteq> T"
  have fin: "finite S" "finite T" and card: "card S = card T"
    using assms by (auto simp: best_of_def intro: finite_subset)
  have "\<not> S \<subseteq> T" "\<not> T \<subseteq> S"
    using \<open>S \<noteq> T\<close> card card_subset_eq [OF fin(2), of S] card_subset_eq [OF fin(1), of T] by auto
  then obtain a b where "a \<in> S" "a \<notin> T" "b \<in> T" "b \<notin> S" by blast
  then have "rank vs a < rank vs b" "rank vs b < rank vs a"
    using assms(2,3) by (auto simp: best_of_def subset_iff)
  then show False by simp
qed

lemma best_of_take:
  assumes "distinct xs" "sorted (map (rank vs) xs)"
  shows "best_of vs k (set xs) (set (take k xs))"
proof -
  have "rank vs s < rank vs x" if "s \<in> set (take k xs)" "x \<in> set xs - set (take k xs)" for s x
  proof -
    have x: "x \<in> set (drop k xs)" using that(2) by (metis Diff_iff Un_iff append_take_drop_id set_append)
    have "sorted (map (rank vs) (take k xs) @ map (rank vs) (drop k xs))" using assms(2) by (simp flip: map_append)
    then have "rank vs s \<le> rank vs x" using that(1) x by (auto simp: sorted_append)
    moreover have "s \<noteq> x" using that by auto
    ultimately show ?thesis by (metis order_le_less rank_inj)
  qed
  moreover have "card (set (take k xs)) = min k (card (set xs))"
    using assms(1) by (simp add: distinct_card distinct_take min_def)
  ultimately show ?thesis by (auto simp: best_of_def dest: in_set_takeD)
qed

text \<open>The heap holds the best of the indices seen.\<close>

definition heap_inv :: "f32 list \<Rightarrow> nat \<Rightarrow> nat \<Rightarrow> nat list \<Rightarrow> bool" where
  "heap_inv vs k m h \<longleftrightarrow> indices_ok vs h \<and> worst_heap vs h \<and> distinct h \<and> best_of vs k {..<m} (set h)"

lemma heap_inv_mset:
  assumes "mset h' = mset h" "worst_heap vs h'" "indices_ok vs h" "distinct h" "best_of vs k {..<m} (set h)"
  shows "heap_inv vs k m h'"
  using assms mset_eq_setD [OF assms(1)] mset_eq_imp_distinct_iff [OF assms(1)] indices_ok_mset [OF assms(1)]
  by (simp add: heap_inv_def)

lemma heap_step_inv:
  assumes "heap_inv vs k m h" "m < length vs" "0 < k"
  shows "heap_inv vs k (Suc m) (heap_step vs k m h)"
proof -
  have ok: "indices_ok vs h" and heap: "worst_heap vs h" and dist: "distinct h" and best: "best_of vs k {..<m} (set h)"
    using assms(1) by (simp_all add: heap_inv_def)
  have sub: "set h \<subseteq> {..<m}" and len: "length h = min k m"
    using best distinct_card [OF dist] by (simp_all add: best_of_def)
  then have new: "m \<notin> set h" by auto
  show ?thesis
  proof (cases "length h < k")
    case True
    with len have all: "set h = {..<m}"
      using sub distinct_card [OF dist] by (intro card_subset_eq) (simp_all add: min_def split: if_splits)
    have "indices_ok vs (h @ [m])" using ok assms(2) by (simp add: indices_ok_def)
    moreover have "heap_but vs (h @ [m]) (length h) (\<lambda>c. c = length h)"
      unfolding heap_but_def
    proof (intro conjI allI impI; elim conjE)
      fix c assume "0 < c" "c < length (h @ [m])" "c \<noteq> length h"
      then have "c < length h" "(c - 1) div 2 < length h" by auto
      then show "rank vs ((h @ [m]) ! c) \<le> rank vs ((h @ [m]) ! ((c - 1) div 2))"
        using heap \<open>0 < c\<close> by (simp add: worst_heap_def nth_append)
    next
      fix c assume "0 < length h" "c < length (h @ [m])" "(c - 1) div 2 = length h"
      moreover from this have "(c - 1) div 2 < length h" by auto
      ultimately show "rank vs ((h @ [m]) ! c) \<le> rank vs ((h @ [m]) ! ((length h - 1) div 2))" by simp
    qed
    ultimately have "worst_heap vs (heap_step vs k m h) \<and> mset (heap_step vs k m h) = mset (h @ [m])"
      using sift_up_heap [of vs "h @ [m]" "length h"] True by (simp add: heap_step_def)
    moreover have "best_of vs k {..<Suc m} (set (h @ [m]))"
      using all True len by (auto simp: best_of_def min_def lessThan_Suc split: if_splits)
    ultimately show ?thesis
      using \<open>indices_ok vs (h @ [m])\<close> dist new by (intro heap_inv_mset [where h = "h @ [m]"]) auto
  next
    case False
    with len have k: "length h = k" "k \<le> m" "h \<noteq> []" using assms(3) by auto
    have root: "h ! 0 \<in> set h" "\<And>s. s \<in> set h \<Longrightarrow> rank vs s \<le> rank vs (h ! 0)"
      using k worst_heap_root [OF heap] by (auto simp: in_set_conv_nth)
    have "h ! 0 < length vs" using ok root(1) by (auto simp: indices_ok_def)
    then have better: "index_better vs m (h ! 0) \<longleftrightarrow> rank vs m < rank vs (h ! 0)"
      using ok assms(2) by (intro index_better_rank) (simp_all add: indices_ok_def)
    show ?thesis
    proof (cases "index_better vs m (h ! 0)")
      case True
      have set_upd: "set (h[0 := m]) = insert m (set h - {h ! 0})" using set_update_distinct [OF dist, of 0 m] k assms(3) by simp
      have "indices_ok vs (h[0 := m])" using ok assms(2) set_update_subset_insert [of h 0 m] by (auto simp: indices_ok_def)
      moreover have "heap_but vs (h[0 := m]) 0 (\<lambda>c. (c - 1) div 2 = 0)"
        using heap unfolding heap_but_def worst_heap_def by (auto simp: nth_list_update)
      ultimately have "worst_heap vs (heap_step vs k m h) \<and> mset (heap_step vs k m h) = mset (h[0 := m])"
        using sift_down_heap [of vs "h[0 := m]" 0] True False by (simp add: heap_step_def)
      moreover have "best_of vs k {..<Suc m} (set (h[0 := m]))"
      proof -
        have lt: "rank vs m < rank vs (h ! 0)" using True better by simp
        have "rank vs s < rank vs x" if "s \<in> insert m (set h - {h ! 0})" "x \<in> {..<Suc m} - insert m (set h - {h ! 0})" for s x
        proof (cases "x = h ! 0")
          case True
          then show ?thesis using that(1) lt root(2) by (metis DiffD1 DiffD2 insertE order_le_less rank_inj singletonI)
        next
          case False
          then have "x \<in> {..<m} - set h" using that(2) by auto
          then have "rank vs y < rank vs x" if "y \<in> set h" for y using best that by (simp add: best_of_def)
          with that(1) lt root(1) show ?thesis by (metis DiffD1 insertE less_trans)
        qed
        moreover have "card (set (h[0 := m])) = k"
          using distinct_card [OF distinct_list_update [OF dist, of m 0]] new k by auto
        moreover have "set (h[0 := m]) \<subseteq> {..<Suc m}" using sub unfolding set_upd by auto
        ultimately show ?thesis using k unfolding best_of_def set_upd by simp
      qed
      ultimately show ?thesis
        using \<open>indices_ok vs (h[0 := m])\<close> new distinct_list_update [OF dist, of m 0]
        by (intro heap_inv_mset [where h = "h[0 := m]"]) auto
    next
      case nb: False
      have "rank vs s < rank vs m" if "s \<in> set h" for s
      proof -
        have "rank vs s \<le> rank vs m" using root(2) [OF that] nb better by simp
        moreover have "s \<noteq> m" using new that by auto
        ultimately show ?thesis by (simp add: order_le_less)
      qed
      then have "best_of vs k {..<Suc m} (set h)"
        using best new k by (auto simp: best_of_def lessThan_Suc min_def)
      with ok heap dist nb False show ?thesis by (simp add: heap_step_def heap_inv_def)
    qed
  qed
qed

lemma heap_fold_inv:
  assumes "no_nan vs" "0 < k" "m \<le> length vs"
  shows "heap_inv vs k m (fold (heap_step vs k) [0..<m] [])"
  using assms(3)
proof (induction m)
  case 0
  then show ?case using assms(1) by (simp add: heap_inv_def indices_ok_def worst_heap_def best_of_def)
next
  case (Suc m)
  then show ?case using heap_step_inv [OF _ _ assms(2), of vs m] by simp
qed


lemma pop_ordered_sort:
  assumes "indices_ok vs h" "worst_heap vs h" "length h \<le> length ordered"
  shows "pop_ordered vs (length h) h ordered = sort_key (rank vs) h @ drop (length h) ordered"
  using assms
proof (induction "length h" arbitrary: h ordered)
  case (Suc n)
  then obtain x xs where h: "h = x # xs" "length xs = n" by (cases h) auto
  define rest where "rest = butlast (h[0 := last h])"
  define h' where "h' = sift_down_index vs rest 0"
  have rest: "mset rest = mset xs" "length rest = n"
  proof -
    have "rest = (if xs = [] then [] else last xs # butlast xs)" by (simp add: rest_def h(1))
    moreover have "mset (last xs # butlast xs) = mset xs" if "xs \<noteq> []"
      using append_butlast_last_id [OF that] by (metis add_mset_add_single mset.simps(2) mset_append mset_single_iff_right)
    ultimately show "mset rest = mset xs" by simp
    then show "length rest = n" using h(2) by (metis size_mset)
  qed
  have "indices_ok vs xs" using Suc.prems(1) h(1) by (simp add: indices_ok_def)
  then have ok: "indices_ok vs rest" using indices_ok_mset [OF rest(1)] by simp
  have "heap_but vs rest 0 (\<lambda>c. (c - 1) div 2 = 0)"
    unfolding heap_but_def
  proof (intro conjI allI impI; elim conjE)
    fix c assume c: "0 < c" "c < length rest" "(c - 1) div 2 \<noteq> 0"
    have nth: "rest ! i = h ! i" if "0 < i" "i < n" for i
      using that h rest(2) by (cases "xs = []") (simp_all add: rest_def nth_butlast nth_list_update)
    have "(c - 1) div 2 < n" using c rest(2) by auto
    moreover have "rank vs (h ! c) \<le> rank vs (h ! ((c - 1) div 2))"
      using Suc.prems(2) c(1,2) rest(2) h by (simp add: worst_heap_def)
    ultimately show "rank vs (rest ! c) \<le> rank vs (rest ! ((c - 1) div 2))"
      using nth [of c] nth [of "(c - 1) div 2"] c rest(2) by simp
  qed simp
  note h' = sift_down_heap [OF ok this, folded h'_def]
  have len: "length h' = n" using h' rest(2) by (metis size_mset)
  have ok': "indices_ok vs h'" using ok indices_ok_mset [of h' rest] h' by simp
  have "pop_ordered vs (length h) h ordered = pop_ordered vs n h' (ordered[n := x])"
  proof -
    have "pop_ordered vs (Suc n) h ordered = pop_ordered vs n h' (ordered[n := h ! 0])"
      unfolding pop_ordered.simps rest_def [symmetric] h'_def [symmetric] by (rule refl)
    then show ?thesis using h by simp
  qed
  also have "\<dots> = sort_key (rank vs) h' @ drop n (ordered[n := x])"
    using Suc.hyps(1) [of h' "ordered[n := x]"] ok' h' len Suc.prems(3) h by simp
  also have "drop n (ordered[n := x]) = x # drop (Suc n) ordered"
    using Suc.prems(3) h by (simp add: Cons_nth_drop_Suc [symmetric])
  also have "sort_key (rank vs) h' @ x # drop (Suc n) ordered = (sort_key (rank vs) h' @ [x]) @ drop (length h) ordered"
    using h by simp
  also have "sort_key (rank vs) h' @ [x] = sort_key (rank vs) h"
  proof (rule sort_key_inj_key_eq [symmetric])
    show "mset h = mset (sort_key (rank vs) h' @ [x])" using h' rest h by simp
    have "\<forall>y \<in> set h'. rank vs y \<le> rank vs x"
    proof
      fix y assume "y \<in> set h'"
      then have "y \<in> set h" using h' rest h(1) by (metis list.set_intros(2) mset_eq_setD)
      then obtain i where "i < length h" "y = h ! i" by (auto simp: in_set_conv_nth)
      then show "rank vs y \<le> rank vs x" using worst_heap_root [OF Suc.prems(2), of i] h(1) by simp
    qed
    then show "sorted (map (rank vs) (sort_key (rank vs) h' @ [x]))" by (simp add: sorted_append)
  qed simp
  finally show ?case .
qed simp

lemma top_k_sort:
  assumes "no_nan vs"
  shows "top_k_indices vs k = take (nat k) (argsort_descending vs)"
proof -
  define srt where "srt = sort_key (rank vs) [0..<length vs]"
  have srt: "argsort_descending vs = srt" "length srt = length vs" "distinct srt" "set srt = {..<length vs}" "sorted (map (rank vs) srt)"
    using argsort_sort [OF assms] by (auto simp: srt_def)
  have "pop_ordered vs (length h) h (replicate (length h) 0) = take (nat k) srt"
    if k: "0 < k" and h: "h = fold (heap_step vs (nat k)) [0..<length vs] []" for h
  proof -
    have inv: "heap_inv vs (nat k) (length vs) h" using heap_fold_inv [OF assms, of "nat k" "length vs"] k h by simp
    have "set h = set (take (nat k) srt)"
      by (rule best_of_unique [of "{..<length vs}" vs "nat k"])
         (use inv best_of_take [OF srt(3,5), of "nat k"] srt(4) in \<open>simp_all add: heap_inv_def\<close>)
    then have "mset h = mset (take (nat k) srt)"
      using inv srt(3) by (simp add: heap_inv_def set_eq_iff_mset_eq_distinct distinct_take)
    then have "sort_key (rank vs) h = take (nat k) srt"
      using srt(5) by (intro sort_key_inj_key_eq) (simp_all add: take_map [symmetric] sorted_wrt_take)
    then show ?thesis using pop_ordered_sort [of vs h "replicate (length h) 0"] inv by (simp add: heap_inv_def)
  qed
  then show ?thesis
    by (auto simp: top_k_indices_def Let_def srt(1,2))
qed

lemma top_k_facts:
  assumes "no_nan vs"
  shows "distinct (top_k_indices vs k)" "set (top_k_indices vs k) \<subseteq> {..<length vs}"
    "length (top_k_indices vs k) = min (nat k) (length vs)" "sorted (map (rank vs) (top_k_indices vs k))"
    "best_of vs (nat k) {..<length vs} (set (top_k_indices vs k))"
proof -
  define srt where "srt = sort_key (rank vs) [0..<length vs]"
  have t: "top_k_indices vs k = take (nat k) srt" using top_k_sort [OF assms] argsort_sort [OF assms] by (simp add: srt_def)
  have srt: "length srt = length vs" "distinct srt" "set srt = {..<length vs}" "sorted (map (rank vs) srt)" by (auto simp: srt_def)
  show "distinct (top_k_indices vs k)" "set (top_k_indices vs k) \<subseteq> {..<length vs}"
    "length (top_k_indices vs k) = min (nat k) (length vs)" "sorted (map (rank vs) (top_k_indices vs k))"
    using srt by (auto simp: t min.commute take_map [symmetric] sorted_wrt_take dest: in_set_takeD)
  show "best_of vs (nat k) {..<length vs} (set (top_k_indices vs k))"
    using best_of_take [OF srt(2,4), of "nat k"] srt(3) by (simp add: t)
qed

lemma rank_key: "rank vs i < rank vs j \<Longrightarrow> f32_key (vs ! j) \<le> f32_key (vs ! i)"
  by (auto simp: rank_def less_prod_def)

text \<open>
  C7. On a row of scores without NaN, \<open>topKIndices\<close> gives the first \<open>k\<close> indices of the stable sort by descending
  score, of equal scores the smaller index first, by whichever of its three ways it goes.
\<close>
theorem top_k_indices_argsort:
  assumes "no_nan vs"
  shows "top_k_indices vs k = take (nat k) (argsort_descending vs)"
  by (rule top_k_sort [OF assms])

theorem top_k_indices_argsort_witness:
  "top_k_indices [0x3F800000, 0x40000000, 0xBF800000, 0x40000000, 0, 0x80000000, 0x3F000000, 0xFF800000, 0] 2 = [1, 3]"
proof -
  have "no_nan [0x3F800000, 0x40000000, 0xBF800000, 0x40000000, 0, 0x80000000, 0x3F000000, 0xFF800000, 0]" by code_simp
  from top_k_indices_argsort [OF this, of 2]
  have "top_k_indices [0x3F800000, 0x40000000, 0xBF800000, 0x40000000, 0, 0x80000000, 0x3F000000, 0xFF800000, 0] 2 =
    take (nat 2) (argsort_descending [0x3F800000, 0x40000000, 0xBF800000, 0x40000000, 0, 0x80000000, 0x3F000000, 0xFF800000, 0])" .
  also have "\<dots> = [1, 3]" by code_simp
  finally show ?thesis .
qed

text \<open>
  With a NaN the order is not one, and the ways differ: here the heap drops what the sort puts first.
\<close>
lemma top_k_nan:
  "let vs = [0x3F800000, 0x7FC00000, 0x40000000, 0, 0] in top_k_indices vs 1 \<noteq> take 1 (argsort_descending vs)"
  by code_simp

end
