(* ===== verification/Indexer.thy ===== *)
theory Indexer
  imports Top_K "HOL-Library.Signed_Division"
begin

text \<open>
  src/model/indexer.go: which compressed blocks a query attends to.

  A row of scores, one for each block, comes from a kernel (src/kernels/simd/indexer.go, the default, or
  src/kernels/scalar/indexer.go), or for few rows from the loop of indexer.go itself. Blocks are chosen by score among those that precede the query's own block, in two steps:
  the best super-blocks of \<open>pool\<close> blocks each, then the best blocks in them. The linear projections that make the
  query and key rows are arguments. \<open>blockMax\<close>, which the code patches in place, is each row's own.
\<close>

section \<open>Scores\<close>

text \<open>The scalar kernel; \<open>indexerScoresScalar\<close> has the same body.\<close>

definition dot_go :: "float_ops \<Rightarrow> nat \<Rightarrow> f32 list \<Rightarrow> f32 list \<Rightarrow> (unit, f32) outcome" where
  "dot_go F n xs ys = ofold (\<lambda>i acc. obind (elem_at xs i) (\<lambda>x. obind (elem_at ys i) (\<lambda>y. Inr (fo_muladd F acc x y)))) [0..<n] 0"

definition score_go :: "float_ops \<Rightarrow> nat \<Rightarrow> nat \<Rightarrow> f32 list \<Rightarrow> f32 list \<Rightarrow> f32 list \<Rightarrow> (unit, f32) outcome" where
  "score_go F heads width weight query_row key_block =
     ofold (\<lambda>head total.
         obind (suffix_of (head * width) query_row) (\<lambda>q.
         obind (suffix_of (head * width) key_block) (\<lambda>k.
         obind (dot_go F width q k) (\<lambda>dot.
           if f32_gt dot 0 then obind (elem_at weight head) (\<lambda>w. Inr (fo_muladd F total w dot)) else Inr total)))) [0..<heads] 0"

definition indexer_scores_scalar :: "float_ops \<Rightarrow> f32 list \<Rightarrow> f32 list \<Rightarrow> f32 list \<Rightarrow> nat \<Rightarrow> nat \<Rightarrow> nat \<Rightarrow> nat \<Rightarrow> (unit, f32 list) outcome" where
  "indexer_scores_scalar F query key weight rows blocks heads width =
     obind (omap (\<lambda>row.
         obind (suffix_of (row * heads * width) query) (\<lambda>query_row.
           omap (\<lambda>block. obind (suffix_of (block * heads * width) key) (score_go F heads width weight query_row)) [0..<blocks])) [0..<rows])
       (\<lambda>scores. Inr (concat scores))"

text \<open>The maximum of each group of scores.\<close>

definition max_go :: "f32 list \<Rightarrow> nat \<Rightarrow> nat \<Rightarrow> (unit, f32) outcome" where
  "max_go row i j = ofold (\<lambda>entry maximum. obind (elem_at row entry) (\<lambda>x. Inr (if f32_gt x maximum then x else maximum))) [i..<j] neg_inf"

definition indexer_block_max :: "f32 list \<Rightarrow> nat \<Rightarrow> nat \<Rightarrow> int \<Rightarrow> (unit, f32 list) outcome" where
  "indexer_block_max scores rows blocks group_size =
     (let size = nat (max 1 group_size); groups = (blocks + size - 1) div size in
      obind (omap (\<lambda>row.
          obind (slice_of (row * blocks) ((row + 1) * blocks) scores) (\<lambda>source.
            omap (\<lambda>g. max_go source (g * size) (min (g * size + size) blocks)) [0..<groups])) [0..<rows])
        (\<lambda>maxima. Inr (concat maxima)))"

text \<open>A kernel of package kernels: scores for rows of queries, and the maxima of their groups.\<close>

record indexer_backend =
  ib_scores :: "f32 list \<Rightarrow> f32 list \<Rightarrow> f32 list \<Rightarrow> nat \<Rightarrow> nat \<Rightarrow> nat \<Rightarrow> nat \<Rightarrow> (unit, f32 list) outcome"
  ib_block_max :: "f32 list \<Rightarrow> nat \<Rightarrow> nat \<Rightarrow> int \<Rightarrow> (unit, f32 list) outcome"

definition scalar_backend :: "float_ops \<Rightarrow> indexer_backend" where
  "scalar_backend F = \<lparr>ib_scores = indexer_scores_scalar F, ib_block_max = indexer_block_max\<rparr>"

section \<open>The SIMD kernel\<close>

text \<open>
  The vector operations of package simd: the number of lanes of a vector, and on each lane \<open>MulAdd(x, y, z)\<close>, which is
  \<open>x * y + z\<close>, and \<open>Max\<close>.
\<close>

record simd_ops =
  sv_lanes :: nat
  sv_muladd :: "f32 \<Rightarrow> f32 \<Rightarrow> f32 \<Rightarrow> f32"
  sv_max :: "f32 \<Rightarrow> f32 \<Rightarrow> f32"

definition load_lanes :: "simd_ops \<Rightarrow> nat \<Rightarrow> f32 list \<Rightarrow> (unit, f32 list) outcome" where
  "load_lanes V i xs = slice_of i (i + sv_lanes V) xs"

definition sum_scalar :: "float_ops \<Rightarrow> f32 list \<Rightarrow> f32" where
  "sum_scalar F xs = fold (\<lambda>x total. fo_add F total x) xs 0"

definition max_scalar :: "f32 list \<Rightarrow> f32" where
  "max_scalar xs = (case xs of [] \<Rightarrow> 0 | x # xs \<Rightarrow> fold (\<lambda>y maximum. if f32_gt y maximum then y else maximum) xs x)"

definition dot_simd :: "float_ops \<Rightarrow> simd_ops \<Rightarrow> nat \<Rightarrow> f32 list \<Rightarrow> f32 list \<Rightarrow> (unit, f32) outcome" where
  "dot_simd F V n xs ys =
     (let lanes = sv_lanes V; full = n div lanes in
      obind (ofold (\<lambda>c acc. obind (load_lanes V (c * lanes) xs) (\<lambda>x. obind (load_lanes V (c * lanes) ys) (\<lambda>y.
          Inr (map (\<lambda>j. sv_muladd V (x ! j) (y ! j) (acc ! j)) [0..<lanes])))) [0..<full] (replicate lanes 0)) (\<lambda>acc.
      ofold (\<lambda>i total. obind (elem_at xs i) (\<lambda>x. obind (elem_at ys i) (\<lambda>y. Inr (fo_muladd F total x y)))) [full * lanes..<n]
        (sum_scalar F acc)))"

definition score_simd :: "float_ops \<Rightarrow> simd_ops \<Rightarrow> nat \<Rightarrow> nat \<Rightarrow> f32 list \<Rightarrow> f32 list \<Rightarrow> f32 list \<Rightarrow> (unit, f32) outcome" where
  "score_simd F V heads width weight query_row key_block =
     ofold (\<lambda>head total.
         obind (suffix_of (head * width) query_row) (\<lambda>q.
         obind (suffix_of (head * width) key_block) (\<lambda>k.
         obind (dot_simd F V width q k) (\<lambda>dot.
           if f32_gt dot 0 then obind (elem_at weight head) (\<lambda>w. Inr (fo_muladd F total w dot)) else Inr total)))) [0..<heads] 0"

definition indexer_scores_simd :: "float_ops \<Rightarrow> simd_ops \<Rightarrow> f32 list \<Rightarrow> f32 list \<Rightarrow> f32 list \<Rightarrow> nat \<Rightarrow> nat \<Rightarrow> nat \<Rightarrow> nat \<Rightarrow> (unit, f32 list) outcome" where
  "indexer_scores_simd F V query key weight rows blocks heads width =
     obind (omap (\<lambda>row.
         obind (suffix_of (row * heads * width) query) (\<lambda>query_row.
           omap (\<lambda>block. obind (suffix_of (block * heads * width) key) (score_simd F V heads width weight query_row)) [0..<blocks])) [0..<rows])
       (\<lambda>scores. Inr (concat scores))"

text \<open>The maximum of a group: vectors first if the group has as many columns as a vector lanes, then the rest one by one.\<close>

definition max_simd :: "simd_ops \<Rightarrow> f32 list \<Rightarrow> nat \<Rightarrow> nat \<Rightarrow> (unit, f32) outcome" where
  "max_simd V row i j =
     (let lanes = sv_lanes V; full = (j - i) div lanes in
      obind (if j - i \<ge> lanes
             then obind (load_lanes V i row) (\<lambda>acc.
               obind (ofold (\<lambda>c acc. obind (load_lanes V (i + c * lanes) row) (\<lambda>x. Inr (map2 (sv_max V) acc x))) [1..<full] acc) (\<lambda>acc.
                 Inr (max_scalar acc, i + full * lanes)))
             else Inr (neg_inf, i)) (\<lambda>(maximum, column).
      ofold (\<lambda>entry maximum. obind (elem_at row entry) (\<lambda>x. Inr (if f32_gt x maximum then x else maximum))) [column..<j] maximum))"

definition indexer_block_max_simd :: "simd_ops \<Rightarrow> f32 list \<Rightarrow> nat \<Rightarrow> nat \<Rightarrow> int \<Rightarrow> (unit, f32 list) outcome" where
  "indexer_block_max_simd V scores rows blocks group_size =
     (let size = nat (max 1 group_size); groups = (blocks + size - 1) div size in
      obind (omap (\<lambda>row.
          obind (slice_of (row * blocks) ((row + 1) * blocks) scores) (\<lambda>source.
            omap (\<lambda>g. max_simd V source (g * size) (min (g * size + size) blocks)) [0..<groups])) [0..<rows])
        (\<lambda>maxima. Inr (concat maxima)))"

definition simd_backend :: "float_ops \<Rightarrow> simd_ops \<Rightarrow> indexer_backend" where
  "simd_backend F V = \<lparr>ib_scores = indexer_scores_simd F V, ib_block_max = indexer_block_max_simd V\<rparr>"

text \<open>The backend in use: the scalar one, or the SIMD one on a machine with the given vectors.\<close>

definition indexer_backend_of :: "float_ops \<Rightarrow> simd_ops option \<Rightarrow> indexer_backend" where
  "indexer_backend_of F v = (case v of None \<Rightarrow> scalar_backend F | Some V \<Rightarrow> simd_backend F V)"

text \<open>A vector has lanes, and \<open>Max\<close> of two numbers is the larger; nothing is said of NaN, nor which zero is given.\<close>

definition simd_ok :: "simd_ops \<Rightarrow> bool" where
  "simd_ok V \<longleftrightarrow> 0 < sv_lanes V \<and> (\<forall>x y. \<not> f32_nan x \<longrightarrow> \<not> f32_nan y \<longrightarrow>
     \<not> f32_nan (sv_max V x y) \<and> f32_key (sv_max V x y) = max (f32_key x) (f32_key y))"

section \<open>Selecting by whole rows\<close>

definition top_k_rows :: "tensor \<Rightarrow> int \<Rightarrow> (unit, nat list list) outcome" where
  "top_k_rows scores k =
     obind (shape_dim 0 scores) (\<lambda>rows. obind (shape_dim 1 scores) (\<lambda>blocks.
       let k = max 0 (min k (int blocks)) in
       omap (\<lambda>row. obind (slice_of (row * blocks) ((row + 1) * blocks) (ts_data scores)) (\<lambda>xs. Inr (top_k_indices xs k))) [0..<rows]))"

text \<open>The blocks a token may attend to: those before its own block.\<close>

definition allowed_blocks :: "int \<Rightarrow> nat \<Rightarrow> int \<Rightarrow> nat \<Rightarrow> int" where
  "allowed_blocks position_offset token ratio blocks = min ((position_offset + int token) sdiv ratio) (int blocks)"

definition select_blocks :: "tensor \<Rightarrow> int \<Rightarrow> int \<Rightarrow> int \<Rightarrow> (unit, nat list list) outcome" where
  "select_blocks scores position_offset ratio top_k =
     obind (shape_dim 0 scores) (\<lambda>tokens. obind (shape_dim 1 scores) (\<lambda>blocks.
       omap (\<lambda>token. panic_if (ratio = 0)
         (let allowed = allowed_blocks position_offset token ratio blocks in
          if allowed \<le> 0 \<or> top_k \<le> 0 then Inr []
          else obind (slice_of (token * blocks) (token * blocks + nat allowed) (ts_data scores)) (\<lambda>xs.
            Inr (top_k_indices xs (min top_k allowed))))) [0..<tokens]))"

section \<open>Selecting by super-blocks\<close>

definition top_k_from_score_row :: "f32 list \<Rightarrow> nat list \<Rightarrow> int \<Rightarrow> (unit, nat list) outcome" where
  "top_k_from_score_row score_row candidates top_k =
     (if candidates = [] \<or> top_k \<le> 0 then Inr []
      else obind (omap (elem_at score_row) candidates) (\<lambda>fine. Inr (map ((!) candidates) (top_k_indices fine top_k))))"

definition select_row_block_max :: "f32 list \<Rightarrow> f32 list \<Rightarrow> int \<Rightarrow> int \<Rightarrow> int \<Rightarrow> int \<Rightarrow> (unit, nat list \<times> nat list) outcome" where
  "select_row_block_max score_row block_max allowed top_k pool budget =
     (if allowed \<le> 0 \<or> top_k \<le> 0 then Inr ([], [])
      else
        let size = nat (max 1 pool); n = nat allowed;
            groups_per_token = max 1 ((budget + int size - 1) sdiv int size);
            allowed_groups = (n + size - 1) div size in
        obind (if n mod size \<noteq> 0 then
                 obind (max_go score_row ((allowed_groups - 1) * size) n) (\<lambda>maximum.
                   panic_if (allowed_groups - 1 \<ge> length block_max) (Inr (block_max[allowed_groups - 1 := maximum])))
               else Inr block_max) (\<lambda>block_max.
        obind (prefix_of (int allowed_groups) block_max) (\<lambda>maxima.
        let candidates = concat (map (\<lambda>g. [g * size..<min (g * size + size) n]) (top_k_indices maxima groups_per_token)) in
        obind (top_k_from_score_row score_row candidates top_k) (\<lambda>selected. Inr (selected, candidates)))))"

definition select_rows :: "f32 list \<Rightarrow> f32 list \<Rightarrow> nat \<Rightarrow> nat \<Rightarrow> nat \<Rightarrow> nat \<Rightarrow> int \<Rightarrow> int \<Rightarrow> int \<Rightarrow> int \<Rightarrow> int \<Rightarrow> (unit, (nat list \<times> nat list) list) outcome" where
  "select_rows scores block_max batch seq_len blocks groups position_offset ratio top_k pool budget =
     omap (\<lambda>(b, token). panic_if (ratio = 0)
         (let row = b * seq_len + token in
          obind (slice_of (row * blocks) ((row + 1) * blocks) scores) (\<lambda>score_row.
          obind (slice_of (row * groups) ((row + 1) * groups) block_max) (\<lambda>maxima.
            select_row_block_max score_row maxima (allowed_blocks position_offset token ratio blocks) top_k pool budget))))
       (List.product [0..<batch] [0..<seq_len])"

definition select_from_score_matrix :: "indexer_backend \<Rightarrow> f32 list \<Rightarrow> nat \<Rightarrow> nat \<Rightarrow> nat \<Rightarrow> int \<Rightarrow> int \<Rightarrow> int \<Rightarrow> int \<Rightarrow> int \<Rightarrow> (unit, (nat list \<times> nat list) list) outcome" where
  "select_from_score_matrix B scores batch seq_len blocks position_offset ratio top_k pool budget =
     (if blocks = 0 then Inr (replicate (batch * seq_len) ([], []))
      else let size = nat (max 1 pool); groups = (blocks + size - 1) div size in
        obind (ib_block_max B scores (batch * seq_len) blocks (max 1 pool)) (\<lambda>block_max.
          select_rows scores block_max batch seq_len blocks groups position_offset ratio top_k (max 1 pool) budget))"


text \<open>
  \<open>selectProjectedScores\<close> scores 256 rows of a batch row at a time, by the kernel if there are at least 16 in all,
  and selects within each chunk as if its first row were the first of a sequence.
\<close>

function chunk_starts :: "nat \<Rightarrow> nat \<Rightarrow> nat \<Rightarrow> nat list" where
  "chunk_starts step start n = (if step = 0 \<or> n \<le> start then [] else start # chunk_starts step (start + step) n)"
  by auto
termination by (relation "measure (\<lambda>(step, start, n). n - start)") auto

declare chunk_starts.simps [simp del]

definition select_chunk :: "float_ops \<Rightarrow> indexer_backend \<Rightarrow> f32 list \<Rightarrow> nat \<Rightarrow> nat \<Rightarrow> bool \<Rightarrow> f32 list \<Rightarrow> f32 list \<Rightarrow> nat \<Rightarrow> nat \<Rightarrow> nat \<Rightarrow> int \<Rightarrow> int \<Rightarrow> int \<Rightarrow> int \<Rightarrow> int \<Rightarrow> nat \<Rightarrow> (unit, (nat list \<times> nat list) list) outcome" where
  "select_chunk F B weight heads width use_kernel query_batch key_batch seq_len chunk_rows blocks position_offset ratio top_k pool budget start =
     (let stop = min (start + chunk_rows) seq_len; rows = stop - start; hw = heads * width;
          groups = (blocks + nat pool - 1) div nat pool in
      obind (slice_of (start * hw) (stop * hw) query_batch) (\<lambda>query_chunk.
      obind ((if use_kernel then ib_scores B else indexer_scores_scalar F) query_chunk key_batch weight rows blocks heads width) (\<lambda>scores.
      obind (ib_block_max B scores rows blocks pool) (\<lambda>block_max.
        select_rows scores block_max 1 rows blocks groups (position_offset + int start) ratio top_k pool budget))))"

definition select_projected_scores :: "float_ops \<Rightarrow> indexer_backend \<Rightarrow> f32 list \<Rightarrow> nat \<Rightarrow> nat \<Rightarrow> f32 list \<Rightarrow> f32 list \<Rightarrow> nat \<Rightarrow> nat \<Rightarrow> nat \<Rightarrow> int \<Rightarrow> int \<Rightarrow> int \<Rightarrow> int \<Rightarrow> int \<Rightarrow> (unit, (nat list \<times> nat list) list) outcome" where
  "select_projected_scores F B weight heads width query key batch seq_len blocks position_offset ratio top_k pool budget =
     (if blocks = 0 then Inr (replicate (batch * seq_len) ([], []))
      else let hw = heads * width; chunk_rows = min 256 seq_len in
        obind (omap (\<lambda>b.
            obind (slice_of (b * blocks * hw) ((b + 1) * blocks * hw) key) (\<lambda>key_batch.
            obind (slice_of (b * seq_len * hw) ((b + 1) * seq_len * hw) query) (\<lambda>query_batch.
            obind (omap (select_chunk F B weight heads width (16 \<le> seq_len) query_batch key_batch seq_len chunk_rows blocks
                     position_offset ratio top_k (max 1 pool) budget) (chunk_starts chunk_rows 0 seq_len))
              (\<lambda>chunks. Inr (concat chunks))))) [0..<batch])
          (\<lambda>rows. Inr (concat rows)))"

text \<open>The reindexing layers: the best of blocks another layer has published, scored one by one.\<close>

definition fine_score :: "float_ops \<Rightarrow> f32 list \<Rightarrow> nat \<Rightarrow> nat \<Rightarrow> f32 list \<Rightarrow> f32 list \<Rightarrow> nat \<Rightarrow> nat \<Rightarrow> (unit, f32) outcome" where
  "fine_score F weight heads width query key query_base entry_base =
     ofold (\<lambda>head total.
         obind (ofold (\<lambda>i acc. obind (elem_at query (query_base + head * width + i)) (\<lambda>x.
                  obind (elem_at key (entry_base + head * width + i)) (\<lambda>y. Inr (fo_muladd F acc x y)))) [0..<width] 0) (\<lambda>dot.
         if f32_gt dot 0 then obind (elem_at weight head) (\<lambda>w. Inr (fo_muladd F total w dot)) else Inr total)) [0..<heads] 0"

definition fine_select :: "float_ops \<Rightarrow> f32 list \<Rightarrow> nat \<Rightarrow> nat \<Rightarrow> f32 list \<Rightarrow> f32 list \<Rightarrow> nat \<Rightarrow> nat \<Rightarrow> nat list \<Rightarrow> int \<Rightarrow> int \<Rightarrow> (unit, nat list) outcome" where
  "fine_select F weight heads width query key row batch_key_base candidates top_k max_block =
     (if candidates = [] \<or> top_k \<le> 0 then Inr []
      else let hw = heads * width; kept = filter (\<lambda>entry. int entry < max_block) candidates in
        obind (omap (\<lambda>entry. fine_score F weight heads width query key (row * hw) (batch_key_base + entry * hw)) kept) (\<lambda>fine.
          Inr (if kept = [] then [] else map ((!) kept) (top_k_indices fine top_k))))"

definition select_within_pool :: "float_ops \<Rightarrow> f32 list \<Rightarrow> nat \<Rightarrow> nat \<Rightarrow> f32 list \<Rightarrow> f32 list \<Rightarrow> nat \<Rightarrow> nat \<Rightarrow> nat \<Rightarrow> int \<Rightarrow> int \<Rightarrow> int \<Rightarrow> nat list list option \<Rightarrow> (unit, nat list list) outcome" where
  "select_within_pool F weight heads width query key batch seq_len blocks position_offset ratio top_k candidate_pool =
     omap (\<lambda>(b, token).
         let row = b * seq_len + token in
         (case candidate_pool of
            None \<Rightarrow> Inr []
          | Some pools \<Rightarrow>
              if top_k \<le> 0 \<or> length pools \<le> row then Inr []
              else panic_if (ratio = 0)
                (fine_select F weight heads width query key row (b * blocks * (heads * width)) (pools ! row) top_k
                   (allowed_blocks position_offset token ratio blocks))))
       (List.product [0..<batch] [0..<seq_len])"

section \<open>The indexer\<close>

text \<open>The two linear layers are their forward passes.\<close>

record sparse_indexer =
  ix_head_count :: nat
  ix_dim :: nat
  ix_query :: "tensor \<Rightarrow> (unit, tensor) outcome"
  ix_key :: "tensor \<Rightarrow> (unit, tensor) outcome"
  ix_head_weights :: "f32 list"

definition select_projected_with_candidates :: "float_ops \<Rightarrow> indexer_backend \<Rightarrow> sparse_indexer \<Rightarrow> tensor \<Rightarrow> f32 list \<Rightarrow> nat \<Rightarrow> int \<Rightarrow> int \<Rightarrow> int \<Rightarrow> int \<Rightarrow> int \<Rightarrow> (unit, (nat list \<times> nat list) list) outcome" where
  "select_projected_with_candidates F B ix hidden key blocks position_offset ratio top_k pool budget =
     obind (ix_query ix hidden) (\<lambda>query. obind (shape_dim 0 hidden) (\<lambda>batch. obind (shape_dim 1 hidden) (\<lambda>seq_len.
       select_projected_scores F B (ix_head_weights ix) (ix_head_count ix) (ix_dim ix) (ts_data query) key batch seq_len blocks
         position_offset ratio top_k pool budget)))"

definition select_projected :: "float_ops \<Rightarrow> indexer_backend \<Rightarrow> sparse_indexer \<Rightarrow> tensor \<Rightarrow> f32 list \<Rightarrow> nat \<Rightarrow> int \<Rightarrow> int \<Rightarrow> int \<Rightarrow> int \<Rightarrow> int \<Rightarrow> (unit, nat list list) outcome" where
  "select_projected F B ix hidden key blocks position_offset ratio top_k pool budget =
     obind (select_projected_with_candidates F B ix hidden key blocks position_offset ratio top_k pool budget) (\<lambda>rows. Inr (map fst rows))"

definition hierarchical_select :: "float_ops \<Rightarrow> indexer_backend \<Rightarrow> sparse_indexer \<Rightarrow> tensor \<Rightarrow> tensor \<Rightarrow> int \<Rightarrow> int \<Rightarrow> int \<Rightarrow> int \<Rightarrow> int \<Rightarrow> (unit, nat list list) outcome" where
  "hierarchical_select F B ix hidden compressed position_offset ratio top_k pool budget =
     obind (ix_key ix compressed) (\<lambda>key. obind (shape_dim 1 compressed) (\<lambda>blocks.
       select_projected F B ix hidden (ts_data key) blocks position_offset ratio top_k pool budget))"

definition select_within_pool_of :: "float_ops \<Rightarrow> sparse_indexer \<Rightarrow> tensor \<Rightarrow> f32 list \<Rightarrow> nat \<Rightarrow> int \<Rightarrow> int \<Rightarrow> int \<Rightarrow> nat list list option \<Rightarrow> (unit, nat list list) outcome" where
  "select_within_pool_of F ix hidden key blocks position_offset ratio top_k candidate_pool =
     obind (ix_query ix hidden) (\<lambda>query. obind (shape_dim 0 hidden) (\<lambda>batch. obind (shape_dim 1 hidden) (\<lambda>seq_len.
       select_within_pool F (ix_head_weights ix) (ix_head_count ix) (ix_dim ix) (ts_data query) key batch seq_len blocks
         position_offset ratio top_k candidate_pool)))"

text \<open>The scores of all queries against all blocks of their batch row.\<close>

definition indexer_scores :: "indexer_backend \<Rightarrow> sparse_indexer \<Rightarrow> tensor \<Rightarrow> tensor \<Rightarrow> (unit, tensor) outcome" where
  "indexer_scores B ix hidden compressed =
     obind (shape_dim 0 hidden) (\<lambda>batch. obind (shape_dim 1 hidden) (\<lambda>seq_len. obind (shape_dim 1 compressed) (\<lambda>blocks.
     let heads = ix_head_count ix; width = ix_dim ix; hw = heads * width in
     obind (obind (ix_query ix hidden) (reshape [batch * seq_len, heads, width])) (\<lambda>query.
     obind (obind (ix_key ix compressed) (reshape [batch * blocks, heads, width])) (\<lambda>key.
     obind (new_tensor [batch * seq_len, blocks]) (\<lambda>scores.
     obind (omap (\<lambda>b.
         obind (slice_of (b * seq_len * hw) ((b + 1) * seq_len * hw) (ts_data query)) (\<lambda>query_batch.
         obind (slice_of (b * blocks * hw) ((b + 1) * blocks * hw) (ts_data key)) (\<lambda>key_batch.
           ib_scores B query_batch key_batch (ix_head_weights ix) seq_len blocks heads width))) [0..<batch]) (\<lambda>parts.
       Inr (scores\<lparr>ts_data := concat parts\<rparr>))))))))"

definition new_sparse_indexer :: "(tensor \<Rightarrow> (unit, tensor) outcome) \<Rightarrow> (tensor \<Rightarrow> (unit, tensor) outcome) \<Rightarrow> int \<Rightarrow> int \<Rightarrow> (unit, sparse_indexer) outcome" where
  "new_sparse_indexer query key width head_count =
     panic_if (width < 1 \<or> head_count < 1)
       (Inr \<lparr>ix_head_count = nat head_count, ix_dim = nat width, ix_query = query, ix_key = key,
             ix_head_weights = replicate (nat head_count) 0\<rparr>)"


section \<open>The scores of a row\<close>

definition head_dot :: "float_ops \<Rightarrow> nat \<Rightarrow> f32 list \<Rightarrow> f32 list \<Rightarrow> nat \<Rightarrow> f32" where
  "head_dot F width q k head = fold (\<lambda>i acc. fo_muladd F acc (q ! (head * width + i)) (k ! (head * width + i))) [0..<width] 0"

definition index_score :: "float_ops \<Rightarrow> nat \<Rightarrow> nat \<Rightarrow> f32 list \<Rightarrow> f32 list \<Rightarrow> f32 list \<Rightarrow> f32" where
  "index_score F heads width weight q k =
     fold (\<lambda>head total. if f32_gt (head_dot F width q k head) 0 then fo_muladd F total (weight ! head) (head_dot F width q k head) else total)
       [0..<heads] 0"

lemma head_index_less: "head < heads \<Longrightarrow> i < width \<Longrightarrow> head * width + i < heads * (width :: nat)"
  using mult_le_mono1 [of "Suc head" heads width] by simp

lemma index_score_cong:
  assumes "\<And>j. j < heads * width \<Longrightarrow> q ! j = q' ! j" "\<And>j. j < heads * width \<Longrightarrow> k ! j = k' ! j"
  shows "index_score F heads width weight q k = index_score F heads width weight q' k'"
proof -
  have "head_dot F width q k head = head_dot F width q' k' head" if "head < heads" for head
    unfolding head_dot_def using assms head_index_less [OF that, of _ width] by (intro fold_cong) simp_all
  then show ?thesis
    unfolding index_score_def by (intro fold_cong) (simp_all cong: if_cong)
qed

lemma dot_go_ok:
  assumes "head * width + width \<le> length q" "head * width + width \<le> length k"
  shows "dot_go F width (drop (head * width) q) (drop (head * width) k) = Inr (head_dot F width q k head)"
  unfolding dot_go_def head_dot_def using assms by (intro ofold_fold) simp

lemma score_go_ok:
  assumes "heads * width \<le> length q" "heads * width \<le> length k" "heads \<le> length weight"
  shows "score_go F heads width weight q k = Inr (index_score F heads width weight q k)"
  unfolding score_go_def index_score_def
proof (rule ofold_fold)
  fix head total assume "head \<in> set [0..<heads]"
  then have head: "head < heads" by simp
  then have "head * width + width \<le> heads * width" using mult_le_mono1 [of "Suc head" heads width] by simp
  then have "head * width + width \<le> length q" "head * width + width \<le> length k" using assms by linarith+
  moreover from this have "head * width \<le> length q" "head * width \<le> length k" by simp_all
  ultimately show "obind (suffix_of (head * width) q) (\<lambda>q. obind (suffix_of (head * width) k) (\<lambda>k. obind (dot_go F width q k) (\<lambda>dot.
      if f32_gt dot 0 then obind (elem_at weight head) (\<lambda>w. Inr (fo_muladd F total w dot)) else Inr total))) =
    Inr (if f32_gt (head_dot F width q k head) 0 then fo_muladd F total (weight ! head) (head_dot F width q k head) else total)"
    using dot_go_ok [of head width q k F] head assms(3) by simp
qed

lemma indexer_scores_scalar_ok:
  assumes "length query = rows * (heads * width)" "length key = blocks * (heads * width)" "length weight = heads"
  shows "indexer_scores_scalar F query key weight rows blocks heads width =
    Inr (concat (map (\<lambda>row. map (\<lambda>b. index_score F heads width weight (row_of (heads * width) row query) (row_of (heads * width) b key))
      [0..<blocks]) [0..<rows]))"
proof -
  let ?hw = "heads * width"
  have fits: "(i + 1) * ?hw \<le> length xs" if "i < n" "length xs = n * ?hw" for i n :: nat and xs :: "f32 list"
    using mult_le_mono1 [of "Suc i" n ?hw] that by simp
  have "omap (\<lambda>row. obind (suffix_of (row * heads * width) query) (\<lambda>query_row.
      omap (\<lambda>block. obind (suffix_of (block * heads * width) key) (score_go F heads width weight query_row)) [0..<blocks])) [0..<rows] =
    Inr (map (\<lambda>row. map (\<lambda>b. index_score F heads width weight (row_of ?hw row query) (row_of ?hw b key)) [0..<blocks]) [0..<rows])"
  proof (rule omap_map)
    fix row assume "row \<in> set [0..<rows]"
    then have row: "(row + 1) * ?hw \<le> length query" using fits assms(1) by simp
    then have q: "row * ?hw \<le> length query" "?hw \<le> length (drop (row * ?hw) query)" by (simp_all add: add_mult_distrib)
    have "omap (\<lambda>block. obind (suffix_of (block * heads * width) key) (score_go F heads width weight (drop (row * ?hw) query))) [0..<blocks] =
      Inr (map (\<lambda>b. index_score F heads width weight (row_of ?hw row query) (row_of ?hw b key)) [0..<blocks])"
    proof (rule omap_map)
      fix b assume "b \<in> set [0..<blocks]"
      then have b: "(b + 1) * ?hw \<le> length key" using fits assms(2) by simp
      then have k: "b * ?hw \<le> length key" "?hw \<le> length (drop (b * ?hw) key)" by (simp_all add: add_mult_distrib)
      have "index_score F heads width weight (drop (row * ?hw) query) (drop (b * ?hw) key) =
          index_score F heads width weight (row_of ?hw row query) (row_of ?hw b key)"
        by (rule index_score_cong) (simp_all add: row_of_def)
      then show "obind (suffix_of (b * heads * width) key) (score_go F heads width weight (drop (row * ?hw) query)) =
          Inr (index_score F heads width weight (row_of ?hw row query) (row_of ?hw b key))"
        using k q(2) score_go_ok [of heads width "drop (row * ?hw) query" "drop (b * ?hw) key" weight F] assms(3)
        by (simp add: mult.assoc)
    qed
    then show "obind (suffix_of (row * heads * width) query) (\<lambda>query_row.
        omap (\<lambda>block. obind (suffix_of (block * heads * width) key) (score_go F heads width weight query_row)) [0..<blocks]) =
      Inr (map (\<lambda>b. index_score F heads width weight (row_of ?hw row query) (row_of ?hw b key)) [0..<blocks])"
      using q(1) by (simp add: mult.assoc)
  qed
  then show ?thesis by (simp add: indexer_scores_scalar_def)
qed


section \<open>Selecting in one row\<close>

definition row_max :: "f32 list \<Rightarrow> nat \<Rightarrow> nat \<Rightarrow> f32" where
  "row_max row i j = fold (\<lambda>entry maximum. if f32_gt (row ! entry) maximum then row ! entry else maximum) [i..<j] neg_inf"

lemma max_go_ok: "j \<le> length row \<Longrightarrow> max_go row i j = Inr (row_max row i j)"
  unfolding max_go_def row_max_def by (rule ofold_fold) simp

definition group_maxima :: "f32 list \<Rightarrow> nat \<Rightarrow> nat \<Rightarrow> f32 list" where
  "group_maxima row sz n = map (\<lambda>g. row_max row (g * sz) (min (g * sz + sz) n)) [0..<(n + sz - 1) div sz]"

text \<open>What a query selects: only the \<open>n\<close> blocks before its own play a part.\<close>

definition candidate_blocks :: "f32 list \<Rightarrow> nat \<Rightarrow> nat \<Rightarrow> int \<Rightarrow> nat list" where
  "candidate_blocks row n sz budget =
     concat (map (\<lambda>g. [g * sz..<min (g * sz + sz) n])
       (top_k_indices (group_maxima row sz n) (max 1 ((budget + int sz - 1) sdiv int sz))))"

definition best_candidates :: "f32 list \<Rightarrow> nat list \<Rightarrow> int \<Rightarrow> nat list" where
  "best_candidates row candidates top_k =
     (if candidates = [] \<or> top_k \<le> 0 then [] else map ((!) candidates) (top_k_indices (map ((!) row) candidates) top_k))"

definition row_selection :: "f32 list \<Rightarrow> int \<Rightarrow> int \<Rightarrow> int \<Rightarrow> int \<Rightarrow> nat list \<times> nat list" where
  "row_selection row allowed top_k pool budget =
     (if allowed \<le> 0 \<or> top_k \<le> 0 then ([], [])
      else let candidates = candidate_blocks row (nat allowed) (nat (max 1 pool)) budget in
        (best_candidates row candidates top_k, candidates))"

lemma indexer_block_max_ok:
  assumes "length scores = rows * blocks"
  shows "indexer_block_max scores rows blocks pool =
    Inr (concat (map (\<lambda>r. group_maxima (row_of blocks r scores) (nat (max 1 pool)) blocks) [0..<rows]))"
proof -
  define sz where "sz = nat (max 1 pool)"
  have "omap (\<lambda>row. obind (slice_of (row * blocks) ((row + 1) * blocks) scores) (\<lambda>source.
      omap (\<lambda>g. max_go source (g * sz) (min (g * sz + sz) blocks)) [0..<(blocks + sz - 1) div sz])) [0..<rows] =
    Inr (map (\<lambda>r. group_maxima (row_of blocks r scores) sz blocks) [0..<rows])"
  proof (rule omap_map)
    fix row assume "row \<in> set [0..<rows]"
    then have fits: "(row + 1) * blocks \<le> length scores" using mult_le_mono1 [of "Suc row" rows blocks] assms by simp
    then have "slice_of (row * blocks) ((row + 1) * blocks) scores = (Inr (row_of blocks row scores) :: (unit, f32 list) outcome)"
      by (simp add: row_of_def)
    moreover have "omap (\<lambda>g. max_go (row_of blocks row scores) (g * sz) (min (g * sz + sz) blocks)) [0..<(blocks + sz - 1) div sz] =
        Inr (group_maxima (row_of blocks row scores) sz blocks)"
      unfolding group_maxima_def using row_of_length [OF fits] by (intro omap_map max_go_ok) simp
    ultimately show "obind (slice_of (row * blocks) ((row + 1) * blocks) scores) (\<lambda>source.
        omap (\<lambda>g. max_go source (g * sz) (min (g * sz + sz) blocks)) [0..<(blocks + sz - 1) div sz]) =
      Inr (group_maxima (row_of blocks row scores) sz blocks)" by simp
  qed
  then show ?thesis by (simp add: indexer_block_max_def Let_def sz_def)
qed

lemma groups_bound: "0 < sz \<Longrightarrow> g < (n + sz - 1) div sz \<longleftrightarrow> g * sz < (n :: nat)"
  using less_eq_div_iff_mult_less_eq [of sz "Suc g" "n + sz - 1"] by (cases sz) (auto simp: Suc_le_eq)

lemma top_k_indices_less:
  assumes "no_nan vs" "i \<in> set (top_k_indices vs k)"
  shows "i < length vs"
  using assms(2) unfolding top_k_sort [OF assms(1)] argsort_sort [OF assms(1)] by (auto dest: in_set_takeD)


lemma patched_maxima:
  assumes "0 < n" "n \<le> blocks" "0 < sz"
  defines "groups \<equiv> (n + sz - 1) div sz"
  shows "take groups (if n mod sz \<noteq> 0 then (group_maxima row sz blocks)[groups - 1 := row_max row ((groups - 1) * sz) n]
      else group_maxima row sz blocks) = group_maxima row sz n"
    "groups \<le> length (group_maxima row sz blocks)" "0 < groups"
proof -
  have "groups \<le> (blocks + sz - 1) div sz" unfolding groups_def using assms(2) by (intro div_le_mono) simp
  then show le: "groups \<le> length (group_maxima row sz blocks)" by (simp add: group_maxima_def)
  have less: "g < groups \<longleftrightarrow> g * sz < n" for g unfolding groups_def by (rule groups_bound [OF assms(3)])
  from less [of 0] assms(1) show pos: "0 < groups" by simp
  have bound: "n \<le> groups * sz" using less [of groups] by simp
  have entry: "group_maxima row sz blocks ! g = row_max row (g * sz) (min (g * sz + sz) n)" if g: "g < groups" "g + 1 < groups \<or> n mod sz = 0" for g
  proof -
    have "g * sz + sz \<le> n"
    proof (cases "g + 1 < groups")
      case True
      then show ?thesis using less [of "g + 1"] by (simp add: algebra_simps)
    next
      case False
      with g have "groups = g + 1" "n mod sz = 0" by auto
      moreover obtain q where "n = q * sz" using \<open>n mod sz = 0\<close> using that [of "n div sz"] div_mult_mod_eq [of n sz] by simp
      moreover have "g < q" using g(1) less [of g] calculation(3) assms(3) by simp
      ultimately show ?thesis using mult_le_mono1 [of "Suc g" q sz] by simp
    qed
    then show ?thesis using g(1) le assms(2) by (simp add: group_maxima_def min_def)
  qed
  show "take groups (if n mod sz \<noteq> 0 then (group_maxima row sz blocks)[groups - 1 := row_max row ((groups - 1) * sz) n]
      else group_maxima row sz blocks) = group_maxima row sz n"
  proof (rule nth_equalityI)
    show "length (take groups (if n mod sz \<noteq> 0 then (group_maxima row sz blocks)[groups - 1 := row_max row ((groups - 1) * sz) n]
      else group_maxima row sz blocks)) = length (group_maxima row sz n)"
      using le by (simp add: group_maxima_def groups_def)
  next
    fix g assume "g < length (take groups (if n mod sz \<noteq> 0 then (group_maxima row sz blocks)[groups - 1 := row_max row ((groups - 1) * sz) n]
      else group_maxima row sz blocks))"
    then have g: "g < groups" using le by (simp split: if_splits)
    have new: "group_maxima row sz n ! g = row_max row (g * sz) (min (g * sz + sz) n)"
      using g by (simp add: group_maxima_def groups_def)
    show "take groups (if n mod sz \<noteq> 0 then (group_maxima row sz blocks)[groups - 1 := row_max row ((groups - 1) * sz) n]
      else group_maxima row sz blocks) ! g = group_maxima row sz n ! g"
    proof (cases "g + 1 < groups \<or> n mod sz = 0")
      case True
      then show ?thesis using entry [OF g True] new g by (auto simp: nth_list_update)
    next
      case False
      with g have last_group: "g = groups - 1" "n mod sz \<noteq> 0" by auto
      have "n \<le> g * sz + sz" using bound last_group(1) pos by (cases groups) auto
      then show ?thesis using last_group g le new by (simp add: min_absorb2)
    qed
  qed
qed

lemma select_row_block_max_ok:
  assumes "length row = blocks" "allowed \<le> int blocks"
  shows "select_row_block_max row (group_maxima row (nat (max 1 pool)) blocks) allowed top_k pool budget =
    Inr (row_selection row allowed top_k pool budget)"
proof (cases "allowed \<le> 0 \<or> top_k \<le> 0")
  case False
  define sz where "sz = nat (max 1 pool)"
  define n where "n = nat allowed"
  define groups where "groups = (n + sz - 1) div sz"
  have n: "0 < n" "n \<le> blocks" "0 < sz" using False assms(2) by (simp_all add: n_def sz_def nat_le_iff)
  note pm = patched_maxima(1,2) [OF n, of row, folded groups_def] patched_maxima(3) [OF n, folded groups_def]
  have cand: "candidate_blocks row n sz budget = concat (map (\<lambda>g. [g * sz..<min (g * sz + sz) n])
      (top_k_indices (group_maxima row sz n) (max 1 ((budget + int sz - 1) sdiv int sz))))"
    by (simp add: candidate_blocks_def)
  have "elem_at row c = (Inr (row ! c) :: (unit, f32) outcome)" if "c \<in> set (candidate_blocks row n sz budget)" for c
    using that n(2) assms(1) by (auto simp: cand)
  then have fine: "omap (elem_at row) (candidate_blocks row n sz budget) = (Inr (map ((!) row) (candidate_blocks row n sz budget)) :: (unit, f32 list) outcome)"
    by (rule omap_map)
  have prefix: "prefix_of (int groups) (if n mod sz \<noteq> 0 then (group_maxima row sz blocks)[groups - 1 := row_max row ((groups - 1) * sz) n]
      else group_maxima row sz blocks) = (Inr (group_maxima row sz n) :: (unit, f32 list) outcome)"
    using pm by (subst prefix_of_ok) auto
  have lt: "groups - 1 < length (group_maxima row sz blocks)" using pm(2,3) by linarith
  have "(if n mod sz \<noteq> 0 then obind (max_go row ((groups - 1) * sz) n) (\<lambda>maximum.
        panic_if (groups - 1 \<ge> length (group_maxima row sz blocks)) (Inr ((group_maxima row sz blocks)[groups - 1 := maximum])))
      else Inr (group_maxima row sz blocks)) =
    Inr (if n mod sz \<noteq> 0 then (group_maxima row sz blocks)[groups - 1 := row_max row ((groups - 1) * sz) n] else group_maxima row sz blocks)"
    using lt n(2) by (simp add: max_go_ok assms(1))
  note step = this
  show ?thesis
    unfolding select_row_block_max_def row_selection_def Let_def sz_def [symmetric] n_def [symmetric] groups_def [symmetric]
      step obind_simps prefix cand [symmetric] top_k_from_score_row_def best_candidates_def fine
    using False by simp
qed (auto simp: select_row_block_max_def row_selection_def)


lemma row_max_step: "i \<le> j \<Longrightarrow> row_max row i (Suc j) = (if f32_gt (row ! j) (row_max row i j) then row ! j else row_max row i j)"
  by (simp add: row_max_def)

lemma row_max_bound:
  assumes "no_nan row" "i \<le> j" "j \<le> length row"
  shows "\<not> f32_nan (row_max row i j) \<and> (\<forall>e. i \<le> e \<and> e < j \<longrightarrow> f32_key (row ! e) \<le> f32_key (row_max row i j)) \<and>
    (i < j \<longrightarrow> (\<exists>e. i \<le> e \<and> e < j \<and> f32_key (row ! e) = f32_key (row_max row i j)))"
  using assms(2,3)
proof (induction j rule: dec_induct)
  case base
  then show ?case using neg_inf_least(2) [of "0 :: f32"] by (simp add: row_max_def f32_nan_def neg_inf_def)
next
  case (step j)
  then have IH: "\<not> f32_nan (row_max row i j)" "\<And>e. i \<le> e \<Longrightarrow> e < j \<Longrightarrow> f32_key (row ! e) \<le> f32_key (row_max row i j)"
    "i < j \<Longrightarrow> \<exists>e. i \<le> e \<and> e < j \<and> f32_key (row ! e) = f32_key (row_max row i j)" by auto
  have nan: "\<not> f32_nan (row ! j)" using no_nan_nth [OF assms(1)] step.prems by simp
  show ?case
  proof (cases "f32_gt (row ! j) (row_max row i j)")
    case True
    then have "f32_key (row_max row i j) < f32_key (row ! j)" by (simp add: f32_gt_def)
    moreover from this have "f32_key (row ! e) \<le> f32_key (row ! j)" if "i \<le> e" "e < j" for e
      using IH(2) [OF that] by simp
    ultimately show ?thesis
      using True nan step.hyps by (auto simp: row_max_step less_Suc_eq)
  next
    case False
    then have le: "f32_key (row ! j) \<le> f32_key (row_max row i j)" using nan IH(1) by (simp add: f32_gt_def)
    have "\<exists>e. i \<le> e \<and> e < Suc j \<and> f32_key (row ! e) = f32_key (row_max row i j)"
    proof (cases "i < j")
      case True
      then show ?thesis using IH(3) by (meson less_SucI)
    next
      case False
      then have "i = j" using step.hyps by simp
      then have "row_max row i j = neg_inf" by (simp add: row_max_def)
      then have "f32_key (row ! j) = f32_key (row_max row i j)" using le neg_inf_least(1) [OF nan] by simp
      then show ?thesis using \<open>i = j\<close> by blast
    qed
    then show ?thesis using False le IH(1,2) step.hyps by (auto simp: row_max_step less_Suc_eq)
  qed
qed

lemma group_maxima_no_nan:
  assumes "no_nan row" "n \<le> length row" "0 < sz"
  shows "no_nan (group_maxima row sz n)"
proof -
  have "\<not> f32_nan (row_max row (g * sz) (min (g * sz + sz) n))" if "g < (n + sz - 1) div sz" for g
    using row_max_bound [OF assms(1), of "g * sz" "min (g * sz + sz) n"] that groups_bound [OF assms(3)] assms(2) by simp
  then show ?thesis by (auto simp: no_nan_def group_maxima_def)
qed

text \<open>
  Lists of scores that choices cannot tell apart: equal, or without NaN and equal entry by entry as numbers (a zero may
  have either sign).
\<close>

definition same_order :: "f32 list \<Rightarrow> f32 list \<Rightarrow> bool" where
  "same_order xs ys \<longleftrightarrow> xs = ys \<or> no_nan xs \<and> no_nan ys \<and> map f32_key xs = map f32_key ys"

lemma same_order_refl [simp]: "same_order xs xs"
  by (simp add: same_order_def)

lemma same_order_length: "same_order xs ys \<Longrightarrow> length xs = length ys"
  by (auto simp: same_order_def dest: map_eq_imp_length_eq)

lemma no_nan_update: "no_nan xs \<Longrightarrow> \<not> f32_nan x \<Longrightarrow> no_nan (xs[i := x])"
  unfolding no_nan_def using set_update_subset_insert [of xs i x] by auto

lemma same_order_patch:
  "same_order xs ys \<Longrightarrow> \<not> f32_nan x \<Longrightarrow> same_order (take n (xs[i := x])) (take n (ys[i := x]))"
  "same_order xs ys \<Longrightarrow> same_order (take n xs) (take n ys)"
  by (auto simp: same_order_def no_nan_take no_nan_update map_update take_map [symmetric] simp del: take_update_swap)

lemma insort_key_agree: "(\<And>y. y \<in> insert x (set xs) \<Longrightarrow> f y = g y) \<Longrightarrow> insort_key f x xs = insort_key g x xs"
proof (induction xs)
  case (Cons a xs)
  have "insort_key f x xs = insort_key g x xs" by (rule Cons.IH) (use Cons.prems in auto)
  with Cons.prems show ?case by simp
qed simp

lemma sort_key_agree: "(\<And>x. x \<in> set xs \<Longrightarrow> f x = g x) \<Longrightarrow> sort_key f xs = sort_key g xs"
proof (induction xs)
  case (Cons x xs)
  have "insort_key f x (sort_key g xs) = insort_key g x (sort_key g xs)"
    using Cons.prems by (intro insort_key_agree) simp
  with Cons show ?case by simp
qed simp

lemma same_order_top_k:
  assumes "same_order xs ys"
  shows "top_k_indices xs k = top_k_indices ys k"
proof (cases "xs = ys")
  case False
  then have nan: "no_nan xs" "no_nan ys" and keys: "map f32_key xs = map f32_key ys"
    using assms by (auto simp: same_order_def)
  have len: "length xs = length ys" using keys by (rule map_eq_imp_length_eq)
  have "rank xs i = rank ys i" if "i \<in> set [0..<length ys]" for i
    using that len arg_cong [OF keys, of "\<lambda>l. l ! i"] by (simp add: rank_def)
  then have "sort_key (rank xs) [0..<length ys] = sort_key (rank ys) [0..<length ys]"
    by (rule sort_key_agree)
  then show ?thesis by (simp add: top_k_sort nan argsort_sort len)
qed simp

lemma row_max_nan: "\<not> f32_nan (row_max row i j)"
proof -
  have "\<not> f32_nan (fold (\<lambda>entry maximum. if f32_gt (row ! entry) maximum then row ! entry else maximum) es x)" if "\<not> f32_nan x" for es x
    using that by (induction es arbitrary: x) (simp_all add: f32_gt_def)
  then show ?thesis using neg_inf_least(2) [of "0 :: f32"] by (simp add: row_max_def f32_nan_def neg_inf_def)
qed

text \<open>Maxima of the same order as those of the row lead to the same choice.\<close>

lemma select_row_block_max_like:
  assumes "length row = blocks" "allowed \<le> int blocks" "same_order m (group_maxima row (nat (max 1 pool)) blocks)"
  shows "select_row_block_max row m allowed top_k pool budget = Inr (row_selection row allowed top_k pool budget)"
proof (cases "allowed \<le> 0 \<or> top_k \<le> 0")
  case False
  define sz where "sz = nat (max 1 pool)"
  define n where "n = nat allowed"
  define groups where "groups = (n + sz - 1) div sz"
  define gm where "gm = group_maxima row sz blocks"
  define v where "v = row_max row ((groups - 1) * sz) n"
  have n: "0 < n" "n \<le> blocks" "0 < sz" using False assms(2) by (simp_all add: n_def sz_def nat_le_iff)
  have same: "same_order m gm" using assms(3) by (simp add: gm_def sz_def)
  note len = same_order_length [OF same]
  have groups: "groups \<le> length gm" "0 < groups" using patched_maxima(2) [OF n, of row] patched_maxima(3) [OF n] by (simp_all add: groups_def gm_def)
  have max: "max_go row ((groups - 1) * sz) n = Inr v" using n(2) assms(1) by (simp add: max_go_ok v_def)
  have patched: "same_order (take groups (m[groups - 1 := v])) (take groups (gm[groups - 1 := v]))" "same_order (take groups m) (take groups gm)"
    using same_order_patch [OF same] row_max_nan by (simp_all add: v_def)
  have "select_row_block_max row m allowed top_k pool budget = select_row_block_max row gm allowed top_k pool budget"
    unfolding select_row_block_max_def Let_def sz_def [symmetric] n_def [symmetric] groups_def [symmetric]
    using groups len max patched [THEN same_order_top_k] False less_le_trans [of "groups - 1" groups "length gm"]
    by (simp add: prefix_of_ok)
  then show ?thesis
    using select_row_block_max_ok [OF assms(1,2), of pool top_k budget] by (simp add: gm_def sz_def)
qed (auto simp: select_row_block_max_def row_selection_def)


section \<open>Rows of a matrix\<close>

lemma slice_row: "(r + 1) * w \<le> length xs \<Longrightarrow> slice_of (r * w) ((r + 1) * w) xs = Inr (row_of w r xs)"
  by (simp add: row_of_def)

lemma row_fits: "r < n \<Longrightarrow> length xs = n * w \<Longrightarrow> (r + 1) * w \<le> length xs"
  using mult_le_mono1 [of "Suc r" n w] by simp

lemma row_of_concat:
  assumes "\<And>r. r < n \<Longrightarrow> length (f r) = w" "i < n"
  shows "row_of w i (concat (map f [0..<n])) = f i"
  using assms
proof (induction n)
  case (Suc n)
  have len: "length (concat (map f [0..<n])) = n * w"
    using Suc.prems(1) by (induction n) simp_all
  show ?case
  proof (cases "i < n")
    case True
    then have "i * w + w \<le> n * w" using mult_le_mono1 [of "Suc i" n w] by simp
    then have "row_of w i (concat (map f [0..<n]) @ f n) = row_of w i (concat (map f [0..<n]))"
      using len by (simp add: row_of_def)
    then show ?thesis using Suc True by simp
  next
    case False
    then have "i = n" using Suc.prems(2) by simp
    then show ?thesis using len Suc.prems(1) [of n] by (simp add: row_of_def)
  qed
qed simp

lemma length_concat_rows: "(\<And>r. r < n \<Longrightarrow> length (f r) = w) \<Longrightarrow> length (concat (map f [0..<n])) = n * w"
  by (induction n) simp_all

text \<open>Part of a matrix's rows, and a row of the part.\<close>

lemma row_of_part:
  assumes "i < n"
  shows "row_of w i (take (n * w) (drop (s * w) xs)) = row_of w (s + i) xs"
proof -
  have "i * w + w \<le> n * w" using mult_le_mono1 [of "Suc i" n w] assms by simp
  then show ?thesis by (simp add: row_of_def drop_take min_absorb1 add_mult_distrib add.commute)
qed

lemma select_rows_ok:
  fixes pool :: int
  assumes "length scores = batch * seq_len * blocks" "ratio \<noteq> 0"
    and same: "\<And>r. r < batch * seq_len \<Longrightarrow> same_order (maxima r) (group_maxima (row_of blocks r scores) (nat (max 1 pool)) blocks)"
  defines "sz \<equiv> nat (max 1 pool)"
  shows "select_rows scores (concat (map maxima [0..<batch * seq_len])) batch seq_len blocks
      ((blocks + sz - 1) div sz) position_offset ratio top_k pool budget =
    Inr (map (\<lambda>(b, t). row_selection (row_of blocks (b * seq_len + t) scores) (allowed_blocks position_offset t ratio blocks) top_k pool budget)
      (List.product [0..<batch] [0..<seq_len]))"
  unfolding select_rows_def
proof (rule omap_map)
  fix p assume "p \<in> set (List.product [0..<batch] [0..<seq_len])"
  then obtain b t where p: "p = (b, t)" "b < batch" "t < seq_len" by auto
  let ?m = "concat (map maxima [0..<batch * seq_len])"
  have row: "b * seq_len + t < batch * seq_len" using mult_le_mono1 [of "Suc b" batch seq_len] p(2,3) by simp
  note fits = row_fits [OF row assms(1)]
  have len: "length (maxima r) = (blocks + sz - 1) div sz" if "r < batch * seq_len" for r
    using same_order_length [OF same [OF that]] by (simp add: group_maxima_def sz_def)
  have m: "length ?m = batch * seq_len * ((blocks + sz - 1) div sz)" by (rule length_concat_rows [OF len])
  have "row_of ((blocks + sz - 1) div sz) (b * seq_len + t) ?m = maxima (b * seq_len + t)"
    by (rule row_of_concat [OF len row])
  moreover have "select_row_block_max (row_of blocks (b * seq_len + t) scores) (maxima (b * seq_len + t))
      (allowed_blocks position_offset t ratio blocks) top_k pool budget =
    Inr (row_selection (row_of blocks (b * seq_len + t) scores) (allowed_blocks position_offset t ratio blocks) top_k pool budget)"
    by (rule select_row_block_max_like [OF row_of_length [OF fits] _ same [OF row]]) (simp add: allowed_blocks_def)
  ultimately show "(case p of (b, token) \<Rightarrow> panic_if (ratio = 0)
         (let row = b * seq_len + token in
          obind (slice_of (row * blocks) ((row + 1) * blocks) scores) (\<lambda>score_row.
          obind (slice_of (row * ((blocks + sz - 1) div sz)) ((row + 1) * ((blocks + sz - 1) div sz)) ?m) (\<lambda>maxima.
            select_row_block_max score_row maxima (allowed_blocks position_offset token ratio blocks) top_k pool budget)))) =
      Inr (case p of (b, t) \<Rightarrow> row_selection (row_of blocks (b * seq_len + t) scores) (allowed_blocks position_offset t ratio blocks) top_k pool budget)"
    using assms(2) by (simp only: p(1) prod.case Let_def guard_simps obind_simps slice_row [OF fits] slice_row [OF row_fits [OF row m]])
qed

lemma chunk_starts_concat:
  "0 < c \<Longrightarrow> concat (map (\<lambda>s. map (\<lambda>t. g (s + t)) [0..<min (s + c) n - s]) (chunk_starts c s0 n)) = map g [s0..<n]"
proof (induction c s0 n rule: chunk_starts.induct)
  case (1 c s0 n)
  have shift: "map (\<lambda>t. g (s0 + t)) [0..<m] = map g [s0..<s0 + m]" for m
    by (rule nth_equalityI) simp_all
  show ?case
  proof (cases "n \<le> s0")
    case False
    have "concat (map (\<lambda>s. map (\<lambda>t. g (s + t)) [0..<min (s + c) n - s]) (chunk_starts c s0 n)) =
        map g [s0..<min (s0 + c) n] @ map g [s0 + c..<n]"
      using 1 False shift [of "min (s0 + c) n - s0"] by (subst chunk_starts.simps) simp
    also have "\<dots> = map g [s0..<n]"
    proof (cases "s0 + c \<le> n")
      case True
      then show ?thesis using upt_add_eq_append [of s0 "s0 + c" "n - (s0 + c)"] by (simp flip: map_append)
    qed simp
    finally show ?thesis .
  qed (simp add: chunk_starts.simps)
qed

lemma chunk_starts_less: "s \<in> set (chunk_starts c s0 n) \<Longrightarrow> s < n"
  by (induction c s0 n rule: chunk_starts.induct) (subst (asm) (2) chunk_starts.simps, auto split: if_splits)


text \<open>The scores of a token of a batch row against all blocks of that row.\<close>

definition token_scores :: "(nat \<Rightarrow> nat \<Rightarrow> f32 list \<Rightarrow> f32 list \<Rightarrow> f32 list \<Rightarrow> f32) \<Rightarrow> f32 list \<Rightarrow> nat \<Rightarrow> nat \<Rightarrow> f32 list \<Rightarrow> f32 list \<Rightarrow> nat \<Rightarrow> nat \<Rightarrow> nat \<Rightarrow> nat \<Rightarrow> f32 list" where
  "token_scores score weight heads width query key seq_len blocks b t =
     map (\<lambda>j. score heads width weight (row_of (heads * width) (b * seq_len + t) query) (row_of (heads * width) (b * blocks + j) key))
       [0..<blocks]"

section \<open>The kernel interface\<close>

text \<open>
  What package kernels promises of an indexer kernel: each score is a function of its query row and its key block
  alone, whatever the number of rows, and the maxima choose as those of the groups do, on rows of scores that are \<open>fine\<close>.
\<close>

locale indexer_kernel =
  fixes B :: indexer_backend
    and score :: "nat \<Rightarrow> nat \<Rightarrow> f32 list \<Rightarrow> f32 list \<Rightarrow> f32 list \<Rightarrow> f32"
    and fine :: "f32 list \<Rightarrow> bool"
  assumes scores_law: "length query = rows * (heads * width) \<Longrightarrow> length key = blocks * (heads * width) \<Longrightarrow> length weight = heads \<Longrightarrow>
      ib_scores B query key weight rows blocks heads width =
        Inr (concat (map (\<lambda>r. map (\<lambda>b. score heads width weight (row_of (heads * width) r query) (row_of (heads * width) b key))
          [0..<blocks]) [0..<rows]))"
    and maxima_law: "length scores = rows * blocks \<Longrightarrow> \<forall>r < rows. fine (row_of blocks r scores) \<Longrightarrow>
      \<exists>maxima. ib_block_max B scores rows blocks pool = Inr (concat (map maxima [0..<rows])) \<and>
        (\<forall>r < rows. same_order (maxima r) (group_maxima (row_of blocks r scores) (nat (max 1 pool)) blocks))"
begin

lemma select_chunk_ok:
  assumes "length query = batch * seq_len * (heads * width)" "length key = batch * blocks * (heads * width)" "length weight = heads"
    "ratio \<noteq> 0" "1 \<le> pool" "b < batch" "start < seq_len"
    "\<forall>t < seq_len. fine (token_scores (if 16 \<le> seq_len then score else index_score F) weight heads width query key seq_len blocks b t)"
  shows "select_chunk F B weight heads width (16 \<le> seq_len) (row_of (seq_len * (heads * width)) b query) (row_of (blocks * (heads * width)) b key)
      seq_len chunk_rows blocks position_offset ratio top_k pool budget start =
    Inr (map (\<lambda>t. row_selection (token_scores (if 16 \<le> seq_len then score else index_score F) weight heads width query key seq_len blocks b (start + t))
        (allowed_blocks position_offset (start + t) ratio blocks) top_k pool budget) [0..<min (start + chunk_rows) seq_len - start])"
proof -
  define hw where "hw = heads * width"
  define rows where "rows = min (start + chunk_rows) seq_len - start"
  define qb where "qb = row_of (seq_len * hw) b query"
  define kb where "kb = row_of (blocks * hw) b key"
  define qc where "qc = take (rows * hw) (drop (start * hw) qb)"
  define sc where "sc = (if 16 \<le> seq_len then score else index_score F)"
  define srow where "srow t = token_scores (if 16 \<le> seq_len then score else index_score F) weight heads width query key seq_len blocks b (start + t)" for t
  have qb: "length qb = seq_len * hw" and kb: "length kb = blocks * hw"
    using row_fits [OF assms(6), of query "seq_len * hw"] row_fits [OF assms(6), of key "blocks * hw"] assms(1,2)
    by (simp_all add: qb_def kb_def hw_def mult.assoc)
  have stop: "min (start + chunk_rows) seq_len = start + rows" "start + rows \<le> seq_len" using assms(7) by (auto simp: rows_def)
  have "start * hw + rows * hw \<le> length qb" using mult_le_mono1 [OF stop(2), of hw] qb by (simp add: add_mult_distrib)
  then have slice: "slice_of (start * hw) ((start + rows) * hw) qb = (Inr qc :: (unit, f32 list) outcome)" and qc: "length qc = rows * hw"
    by (simp_all add: qc_def add_mult_distrib)
  have qrow: "row_of hw t qc = row_of hw (b * seq_len + (start + t)) query" if "t < rows" for t
  proof -
    have "row_of hw t qc = row_of hw (start + t) qb" unfolding qc_def by (rule row_of_part [OF that])
    also have "\<dots> = row_of hw (b * seq_len + (start + t)) query"
      using row_of_part [of "start + t" seq_len hw "b * seq_len" query] that stop(2) by (simp add: qb_def row_of_def mult.assoc)
    finally show ?thesis .
  qed
  have krow: "row_of hw j kb = row_of hw (b * blocks + j) key" if "j < blocks" for j
    using row_of_part [OF that, of hw "b * blocks" key] by (simp add: kb_def row_of_def mult.assoc)
  have scores: "(if 16 \<le> seq_len then ib_scores B else indexer_scores_scalar F) qc kb weight rows blocks heads width =
      Inr (concat (map srow [0..<rows]))"
  proof -
    have "(if 16 \<le> seq_len then ib_scores B else indexer_scores_scalar F) qc kb weight rows blocks heads width =
        Inr (concat (map (\<lambda>r. map (\<lambda>j. sc heads width weight (row_of hw r qc) (row_of hw j kb)) [0..<blocks]) [0..<rows]))"
      using scores_law [of qc rows heads width kb blocks weight] indexer_scores_scalar_ok [of qc rows heads width kb blocks weight F]
        qc kb assms(3) by (simp add: sc_def hw_def)
    also have "map (\<lambda>r. map (\<lambda>j. sc heads width weight (row_of hw r qc) (row_of hw j kb)) [0..<blocks]) [0..<rows] = map srow [0..<rows]"
      by (simp add: srow_def token_scores_def sc_def qrow krow hw_def [symmetric])
    finally show ?thesis .
  qed
  have len: "length (srow t) = blocks" for t by (simp add: srow_def token_scores_def)
  have flat: "length (concat (map srow [0..<rows])) = 1 * rows * blocks" using length_concat_rows [OF len] by simp
  have "row_of blocks r (concat (map srow [0..<rows])) = srow r" if "r < rows" for r
    by (rule row_of_concat [OF len that])
  moreover from this have "\<forall>r < rows. fine (row_of blocks r (concat (map srow [0..<rows])))"
    using assms(8) stop(2) by (simp add: srow_def)
  ultimately obtain maxima where maxima: "ib_block_max B (concat (map srow [0..<rows])) rows blocks pool = Inr (concat (map maxima [0..<rows]))"
    "\<And>r. r < 1 * rows \<Longrightarrow> same_order (maxima r) (group_maxima (row_of blocks r (concat (map srow [0..<rows]))) (nat (max 1 pool)) blocks)"
    and row: "\<And>r. r < rows \<Longrightarrow> row_of blocks r (concat (map srow [0..<rows])) = srow r"
    using maxima_law [OF flat [simplified], of pool] by auto
  have sel: "select_rows (concat (map srow [0..<rows])) (concat (map maxima [0..<1 * rows])) 1 rows blocks
      ((blocks + nat (max 1 pool) - 1) div nat (max 1 pool)) (position_offset + int start) ratio top_k pool budget =
    Inr (map (\<lambda>t. row_selection (srow t) (allowed_blocks (position_offset + int start) t ratio blocks) top_k pool budget) [0..<rows])"
    by (subst select_rows_ok [OF flat assms(4) maxima(2)]) (simp_all add: comp_def row)
  have shift: "allowed_blocks (position_offset + int start) t ratio blocks = allowed_blocks position_offset (start + t) ratio blocks" for t
    by (simp add: allowed_blocks_def add.assoc)
  have pool: "max 1 pool = pool" using assms(5) by simp
  show ?thesis
    unfolding select_chunk_def Let_def hw_def [symmetric] qb_def [symmetric] kb_def [symmetric] stop(1) slice obind_simps
      rows_def [symmetric] add_diff_cancel_left' scores maxima(1)
    using sel by (simp add: pool shift srow_def)
qed

theorem select_projected_scores_rows:
  assumes "length query = batch * seq_len * (heads * width)" "length key = batch * blocks * (heads * width)" "length weight = heads"
    "ratio \<noteq> 0"
    "\<forall>b < batch. \<forall>t < seq_len. fine (token_scores (if 16 \<le> seq_len then score else index_score F) weight heads width query key seq_len blocks b t)"
  shows "select_projected_scores F B weight heads width query key batch seq_len blocks position_offset ratio top_k pool budget =
    Inr (map (\<lambda>(b, t). row_selection (token_scores (if 16 \<le> seq_len then score else index_score F) weight heads width query key seq_len blocks b t)
      (allowed_blocks position_offset t ratio blocks) top_k (max 1 pool) budget) (List.product [0..<batch] [0..<seq_len]))"
proof (cases "blocks = 0")
  case True
  then have "allowed_blocks position_offset t ratio blocks \<le> 0" for t by (simp add: allowed_blocks_def)
  then show ?thesis
    using True by (simp add: select_projected_scores_def row_selection_def map_replicate_const case_prod_unfold)
next
  case False
  let ?row = "\<lambda>b t. row_selection (token_scores (if 16 \<le> seq_len then score else index_score F) weight heads width query key seq_len blocks b t)
      (allowed_blocks position_offset t ratio blocks) top_k (max 1 pool) budget"
  have "omap (\<lambda>b.
      obind (slice_of (b * blocks * (heads * width)) ((b + 1) * blocks * (heads * width)) key) (\<lambda>key_batch.
      obind (slice_of (b * seq_len * (heads * width)) ((b + 1) * seq_len * (heads * width)) query) (\<lambda>query_batch.
      obind (omap (select_chunk F B weight heads width (16 \<le> seq_len) query_batch key_batch seq_len (min 256 seq_len) blocks
               position_offset ratio top_k (max 1 pool) budget) (chunk_starts (min 256 seq_len) 0 seq_len))
        (\<lambda>chunks. Inr (concat chunks))))) [0..<batch] =
    Inr (map (\<lambda>b. map (?row b) [0..<seq_len]) [0..<batch])"
  proof (rule omap_map)
    fix b assume "b \<in> set [0..<batch]"
    then have b: "b < batch" by simp
    have k: "slice_of (b * blocks * (heads * width)) ((b + 1) * blocks * (heads * width)) key =
        (Inr (row_of (blocks * (heads * width)) b key) :: (unit, f32 list) outcome)"
      using slice_row [OF row_fits [OF b, of key "blocks * (heads * width)"]] assms(2) by (simp add: mult.assoc add_mult_distrib)
    have q: "slice_of (b * seq_len * (heads * width)) ((b + 1) * seq_len * (heads * width)) query =
        (Inr (row_of (seq_len * (heads * width)) b query) :: (unit, f32 list) outcome)"
      using slice_row [OF row_fits [OF b, of query "seq_len * (heads * width)"]] assms(1) by (simp add: mult.assoc add_mult_distrib)
    have chunks: "omap (select_chunk F B weight heads width (16 \<le> seq_len) (row_of (seq_len * (heads * width)) b query)
        (row_of (blocks * (heads * width)) b key) seq_len (min 256 seq_len) blocks position_offset ratio top_k (max 1 pool) budget)
        (chunk_starts (min 256 seq_len) 0 seq_len) =
      Inr (map (\<lambda>s. map (\<lambda>t. ?row b (s + t)) [0..<min (s + min 256 seq_len) seq_len - s]) (chunk_starts (min 256 seq_len) 0 seq_len))"
      by (rule omap_map, rule select_chunk_ok [OF assms(1-4) _ b]) (use assms(5) b in \<open>auto dest: chunk_starts_less\<close>)
    have "concat (map (\<lambda>s. map (\<lambda>t. ?row b (s + t)) [0..<min (s + min 256 seq_len) seq_len - s]) (chunk_starts (min 256 seq_len) 0 seq_len)) =
        map (?row b) [0..<seq_len]"
    proof (cases "seq_len = 0")
      case False
      then show ?thesis using chunk_starts_concat [of "min 256 seq_len" "?row b" seq_len 0] by simp
    qed (simp add: chunk_starts.simps)
    then show "obind (slice_of (b * blocks * (heads * width)) ((b + 1) * blocks * (heads * width)) key) (\<lambda>key_batch.
        obind (slice_of (b * seq_len * (heads * width)) ((b + 1) * seq_len * (heads * width)) query) (\<lambda>query_batch.
        obind (omap (select_chunk F B weight heads width (16 \<le> seq_len) query_batch key_batch seq_len (min 256 seq_len) blocks
                 position_offset ratio top_k (max 1 pool) budget) (chunk_starts (min 256 seq_len) 0 seq_len))
          (\<lambda>chunks. Inr (concat chunks)))) = Inr (map (?row b) [0..<seq_len])"
      by (simp only: k q chunks obind_simps)
  qed
  then show ?thesis
    using False by (simp add: select_projected_scores_def Let_def product_concat_map comp_def case_prod_unfold map_concat)
qed

end


interpretation scalar: indexer_kernel "scalar_backend F" "index_score F" "\<lambda>_. True" for F
proof unfold_locales
  fix scores :: "f32 list" and rows blocks pool
  assume "length scores = rows * blocks"
  from indexer_block_max_ok [OF this, of pool]
  show "\<exists>maxima. ib_block_max (scalar_backend F) scores rows blocks pool = Inr (concat (map maxima [0..<rows])) \<and>
      (\<forall>r < rows. same_order (maxima r) (group_maxima (row_of blocks r scores) (nat (max 1 pool)) blocks))"
    by (auto simp: scalar_backend_def)
qed (simp add: scalar_backend_def indexer_scores_scalar_ok)

section \<open>The SIMD kernel as a provider\<close>

definition simd_lanes :: "simd_ops \<Rightarrow> nat \<Rightarrow> f32 list \<Rightarrow> f32 list \<Rightarrow> f32 list" where
  "simd_lanes V n xs ys =
     fold (\<lambda>c acc. map (\<lambda>j. sv_muladd V (xs ! (c * sv_lanes V + j)) (ys ! (c * sv_lanes V + j)) (acc ! j)) [0..<sv_lanes V])
       [0..<n div sv_lanes V] (replicate (sv_lanes V) 0)"

definition simd_dot :: "float_ops \<Rightarrow> simd_ops \<Rightarrow> nat \<Rightarrow> f32 list \<Rightarrow> f32 list \<Rightarrow> f32" where
  "simd_dot F V n xs ys =
     fold (\<lambda>i total. fo_muladd F total (xs ! i) (ys ! i)) [n div sv_lanes V * sv_lanes V..<n] (sum_scalar F (simd_lanes V n xs ys))"

definition simd_score :: "float_ops \<Rightarrow> simd_ops \<Rightarrow> nat \<Rightarrow> nat \<Rightarrow> f32 list \<Rightarrow> f32 list \<Rightarrow> f32 list \<Rightarrow> f32" where
  "simd_score F V heads width weight q k =
     fold (\<lambda>head total. let dot = simd_dot F V width (row_of width head q) (row_of width head k) in
         if f32_gt dot 0 then fo_muladd F total (weight ! head) dot else total) [0..<heads] 0"

lemma lane_index:
  assumes "c < n div lanes"
  shows "c * lanes + lanes \<le> (n :: nat)"
proof -
  have "Suc c * lanes \<le> n div lanes * lanes" using assms by (intro mult_le_mono1) simp
  also have "\<dots> \<le> n" by simp
  finally show ?thesis by simp
qed

lemma load_lanes_ok: "i + sv_lanes V \<le> length xs \<Longrightarrow> load_lanes V i xs = Inr (take (sv_lanes V) (drop i xs))"
  by (simp add: load_lanes_def)

lemma dot_simd_ok:
  assumes "n \<le> length xs" "n \<le> length ys"
  shows "dot_simd F V n xs ys = Inr (simd_dot F V n xs ys)"
proof -
  let ?lanes = "sv_lanes V"
  have "ofold (\<lambda>c acc. obind (load_lanes V (c * ?lanes) xs) (\<lambda>x. obind (load_lanes V (c * ?lanes) ys) (\<lambda>y.
      Inr (map (\<lambda>j. sv_muladd V (x ! j) (y ! j) (acc ! j)) [0..<?lanes])))) [0..<n div ?lanes] (replicate ?lanes 0) =
    (Inr (simd_lanes V n xs ys) :: (unit, f32 list) outcome)"
    unfolding simd_lanes_def
  proof (rule ofold_fold)
    fix c acc assume "c \<in> set [0..<n div ?lanes]"
    then have "c * ?lanes + ?lanes \<le> n" using lane_index [of c n ?lanes] by simp
    then have "c * ?lanes + ?lanes \<le> length xs" "c * ?lanes + ?lanes \<le> length ys" using assms by simp_all
    then show "obind (load_lanes V (c * ?lanes) xs) (\<lambda>x. obind (load_lanes V (c * ?lanes) ys) (\<lambda>y.
        Inr (map (\<lambda>j. sv_muladd V (x ! j) (y ! j) (acc ! j)) [0..<?lanes]))) =
      Inr (map (\<lambda>j. sv_muladd V (xs ! (c * ?lanes + j)) (ys ! (c * ?lanes + j)) (acc ! j)) [0..<?lanes])"
      by (simp add: load_lanes_ok)
  qed
  moreover have "ofold (\<lambda>i total. obind (elem_at xs i) (\<lambda>x. obind (elem_at ys i) (\<lambda>y. Inr (fo_muladd F total x y))))
      [n div ?lanes * ?lanes..<n] (sum_scalar F (simd_lanes V n xs ys)) = (Inr (simd_dot F V n xs ys) :: (unit, f32) outcome)"
    unfolding simd_dot_def by (rule ofold_fold) (use assms in simp)
  ultimately show ?thesis by (simp add: dot_simd_def Let_def)
qed

text \<open>Only the first \<open>n\<close> entries play a part.\<close>

lemma simd_dot_cong:
  assumes "\<And>i. i < n \<Longrightarrow> xs ! i = xs' ! i" "\<And>i. i < n \<Longrightarrow> ys ! i = ys' ! i"
  shows "simd_dot F V n xs ys = simd_dot F V n xs' ys'"
proof -
  let ?lanes = "sv_lanes V"
  have "c * ?lanes + j < n" if "c < n div ?lanes" "j < ?lanes" for c j
    using lane_index [OF that(1)] that(2) by simp
  then have "simd_lanes V n xs ys = simd_lanes V n xs' ys'"
    unfolding simd_lanes_def using assms by (intro fold_cong) auto
  then show ?thesis
    unfolding simd_dot_def using assms by (intro fold_cong) auto
qed

lemma score_simd_ok:
  assumes "heads * width \<le> length q" "heads * width \<le> length k" "heads \<le> length weight"
  shows "score_simd F V heads width weight q k = Inr (simd_score F V heads width weight (take (heads * width) q) (take (heads * width) k))"
  unfolding score_simd_def simd_score_def
proof (rule ofold_fold)
  fix head total assume "head \<in> set [0..<heads]"
  then have head: "head < heads" by simp
  then have "head * width + width \<le> heads * width" using mult_le_mono1 [of "Suc head" heads width] by simp
  then have le: "head * width + width \<le> length q" "head * width + width \<le> length k" "head * width + width \<le> heads * width"
    using assms by linarith+
  have "dot_simd F V width (drop (head * width) q) (drop (head * width) k) =
      Inr (simd_dot F V width (drop (head * width) q) (drop (head * width) k))"
    using le by (intro dot_simd_ok) simp_all
  also have "simd_dot F V width (drop (head * width) q) (drop (head * width) k) =
      simd_dot F V width (row_of width head (take (heads * width) q)) (row_of width head (take (heads * width) k))"
    using le by (intro simd_dot_cong) (simp_all add: row_of_def drop_take)
  finally show "obind (suffix_of (head * width) q) (\<lambda>q. obind (suffix_of (head * width) k) (\<lambda>k. obind (dot_simd F V width q k) (\<lambda>dot.
      if f32_gt dot 0 then obind (elem_at weight head) (\<lambda>w. Inr (fo_muladd F total w dot)) else Inr total))) =
    Inr (let dot = simd_dot F V width (row_of width head (take (heads * width) q)) (row_of width head (take (heads * width) k)) in
      if f32_gt dot 0 then fo_muladd F total (weight ! head) dot else total)"
    using le head assms(3) by (simp add: Let_def)
qed

lemma indexer_scores_simd_ok:
  assumes "length query = rows * (heads * width)" "length key = blocks * (heads * width)" "length weight = heads"
  shows "indexer_scores_simd F V query key weight rows blocks heads width =
    Inr (concat (map (\<lambda>row. map (\<lambda>b. simd_score F V heads width weight (row_of (heads * width) row query) (row_of (heads * width) b key))
      [0..<blocks]) [0..<rows]))"
proof -
  let ?hw = "heads * width"
  have "omap (\<lambda>row. obind (suffix_of (row * heads * width) query) (\<lambda>query_row.
      omap (\<lambda>block. obind (suffix_of (block * heads * width) key) (score_simd F V heads width weight query_row)) [0..<blocks])) [0..<rows] =
    Inr (map (\<lambda>row. map (\<lambda>b. simd_score F V heads width weight (row_of ?hw row query) (row_of ?hw b key)) [0..<blocks]) [0..<rows])"
  proof (rule omap_map)
    fix row assume "row \<in> set [0..<rows]"
    then have q: "(row + 1) * ?hw \<le> length query" using row_fits [OF _ assms(1)] by simp
    have "omap (\<lambda>block. obind (suffix_of (block * heads * width) key) (score_simd F V heads width weight (drop (row * ?hw) query))) [0..<blocks] =
      Inr (map (\<lambda>b. simd_score F V heads width weight (row_of ?hw row query) (row_of ?hw b key)) [0..<blocks])"
    proof (rule omap_map)
      fix b assume "b \<in> set [0..<blocks]"
      then have k: "(b + 1) * ?hw \<le> length key" using row_fits [OF _ assms(2)] by simp
      have "score_simd F V heads width weight (drop (row * ?hw) query) (drop (b * ?hw) key) =
          Inr (simd_score F V heads width weight (row_of ?hw row query) (row_of ?hw b key))"
        using q k score_simd_ok [of heads width "drop (row * ?hw) query" "drop (b * ?hw) key" weight F V] assms(3)
        by (simp add: row_of_def add_mult_distrib)
      then show "obind (suffix_of (b * heads * width) key) (score_simd F V heads width weight (drop (row * ?hw) query)) =
          Inr (simd_score F V heads width weight (row_of ?hw row query) (row_of ?hw b key))"
        using k by (simp add: mult.assoc)
    qed
    then show "obind (suffix_of (row * heads * width) query) (\<lambda>query_row.
        omap (\<lambda>block. obind (suffix_of (block * heads * width) key) (score_simd F V heads width weight query_row)) [0..<blocks]) =
      Inr (map (\<lambda>b. simd_score F V heads width weight (row_of ?hw row query) (row_of ?hw b key)) [0..<blocks])"
      using q by (simp add: mult.assoc)
  qed
  then show ?thesis by (simp add: indexer_scores_simd_def)
qed

text \<open>Maxima by vectors: any way of taking the larger of two entries until one is left gives an entry with the greatest key.\<close>

definition greatest_of :: "f32 \<Rightarrow> f32 set \<Rightarrow> bool" where
  "greatest_of x S \<longleftrightarrow> \<not> f32_nan x \<and> (\<forall>y \<in> S. f32_key y \<le> f32_key x) \<and> (\<exists>y \<in> S. f32_key y = f32_key x)"

lemma greatest_of_key: "greatest_of x S \<Longrightarrow> greatest_of y S \<Longrightarrow> f32_key x = f32_key y"
  unfolding greatest_of_def by (metis order_antisym)

lemma greatest_of_pick:
  assumes "greatest_of x S" "\<not> f32_nan y"
  shows "greatest_of (if f32_gt y x then y else x) (insert y S)"
  using assms by (fastforce simp: greatest_of_def f32_gt_def)

lemma greatest_of_fold:
  assumes "greatest_of x S" "no_nan ys"
  shows "greatest_of (fold (\<lambda>y maximum. if f32_gt y maximum then y else maximum) ys x) (set ys \<union> S)"
  using assms
proof (induction ys arbitrary: x S)
  case (Cons y ys)
  have "greatest_of (if f32_gt y x then y else x) (insert y S)" using Cons.prems by (intro greatest_of_pick) simp_all
  from Cons.IH [OF this] Cons.prems show ?case by simp
qed simp

lemma greatest_of_union:
  assumes "\<And>j. j < n \<Longrightarrow> greatest_of (acc ! j) (S j)" "length acc = n" "0 < n"
  shows "greatest_of (max_scalar acc) (\<Union>j < n. S j)"
proof -
  have nan: "no_nan acc" using assms(1,2) by (auto simp: no_nan_def in_set_conv_nth greatest_of_def)
  obtain x xs where acc: "acc = x # xs" using assms(2,3) by (cases acc) auto
  have "greatest_of x {x}" using nan acc by (simp add: greatest_of_def)
  from greatest_of_fold [OF this, of xs] nan acc have top: "greatest_of (max_scalar acc) (set acc)"
    by (simp add: max_scalar_def insert_commute)
  have "f32_key y \<le> f32_key (max_scalar acc)" if "y \<in> S j" "j < n" for y j
  proof -
    have "f32_key y \<le> f32_key (acc ! j)" using assms(1) that by (simp add: greatest_of_def)
    also have "\<dots> \<le> f32_key (max_scalar acc)" using top that assms(2) by (simp add: greatest_of_def)
    finally show ?thesis .
  qed
  moreover obtain j where "j < n" "f32_key (acc ! j) = f32_key (max_scalar acc)"
    using top assms(2) unfolding greatest_of_def by (metis in_set_conv_nth)
  moreover from this obtain y where "y \<in> S j" "f32_key y = f32_key (acc ! j)"
    using assms(1) unfolding greatest_of_def by blast
  ultimately show ?thesis using top unfolding greatest_of_def by (metis UN_E UN_I lessThan_iff)
qed

lemma row_max_greatest:
  assumes "no_nan row" "i < j" "j \<le> length row"
  shows "greatest_of (row_max row i j) ((!) row ` {i..<j})"
  using row_max_bound [OF assms(1) _ assms(3), of i] assms(2) by (auto simp: greatest_of_def)

lemma max_simd_ok:
  assumes "simd_ok V" "no_nan row" "i < j" "j \<le> length row"
  shows "\<exists>x. max_simd V row i j = Inr x \<and> \<not> f32_nan x \<and> f32_key x = f32_key (row_max row i j)"
proof -
  define lanes where "lanes = sv_lanes V"
  define full where "full = (j - i) div lanes"
  have lanes: "0 < lanes" using assms(1) by (simp add: simd_ok_def lanes_def)
  have tail: "ofold (\<lambda>entry maximum. obind (elem_at row entry) (\<lambda>x. Inr (if f32_gt x maximum then x else maximum))) [c..<j] m =
      (Inr (fold (\<lambda>y maximum. if f32_gt y maximum then y else maximum) (map ((!) row) [c..<j]) m) :: (unit, f32) outcome)" for c m
    unfolding fold_map comp_def by (rule ofold_fold) (use assms(4) in simp)
  show ?thesis
  proof (cases "j - i \<ge> lanes")
    case False
    then have "max_simd V row i j = Inr (row_max row i j)"
      using tail [of i neg_inf] by (simp add: max_simd_def lanes_def [symmetric] Let_def row_max_def fold_map comp_def)
    then show ?thesis using row_max_nan by simp
  next
    case True
    define acc0 where "acc0 = take lanes (drop i row)"
    define step where "step c acc = map2 (sv_max V) acc (take lanes (drop (i + c * lanes) row))" for c acc
    have step_entries: "length (step c acc) = lanes" "\<And>l. l < lanes \<Longrightarrow> step c acc ! l = sv_max V (acc ! l) (row ! (i + c * lanes + l))"
      if "length acc = lanes" "i + c * lanes + lanes \<le> length row" for c acc
      using that by (simp_all add: step_def)
    have fits: "i + c * lanes + lanes \<le> j" if "c < full" for c
      using lane_index [of c "j - i" lanes] that assms(3) by (simp add: full_def)
    have one: "1 \<le> full" using True lanes by (simp add: full_def div_greater_zero_iff Suc_le_eq)
    have vectors: "length (fold step [1..<m] acc0) = lanes \<and> (\<forall>l < lanes. greatest_of (fold step [1..<m] acc0 ! l) ((\<lambda>c. row ! (i + c * lanes + l)) ` {0..<m}))"
      if "1 \<le> m" "m \<le> full" for m
      using that
    proof (induction m rule: dec_induct)
      case base
      have "i + lanes \<le> length row" using fits [of 0] one assms(4) by simp
      then show ?case using no_nan_nth [OF assms(2)] by (auto simp: acc0_def greatest_of_def)
    next
      case (step m)
      have le: "i + m * lanes + lanes \<le> length row" using fits [of m] step.prems assms(4) by simp
      let ?acc = "fold step [1..<m] acc0"
      have IH: "length ?acc = lanes" "\<And>l. l < lanes \<Longrightarrow> greatest_of (?acc ! l) ((\<lambda>c. row ! (i + c * lanes + l)) ` {0..<m})"
        using step.IH step.prems by simp_all
      have "greatest_of (sv_max V (?acc ! l) (row ! (i + m * lanes + l))) (insert (row ! (i + m * lanes + l)) ((\<lambda>c. row ! (i + c * lanes + l)) ` {0..<m}))"
        if "l < lanes" for l
      proof -
        have "\<not> f32_nan (row ! (i + m * lanes + l))" using no_nan_nth [OF assms(2)] le that by simp
        with assms(1) IH(2) [OF that] show ?thesis
          by (fastforce simp: simd_ok_def greatest_of_def max_def)
      qed
      moreover have next_acc: "fold step [1..<Suc m] acc0 = step m ?acc" using step.hyps by simp
      moreover note step_entries [OF IH(1) le]
      ultimately show ?case
        unfolding next_acc atLeast0_lessThan_Suc image_insert by simp
    qed
    note acc = vectors [OF one order_refl]
    let ?acc = "fold step [1..<full] acc0"
    have "ofold (\<lambda>c acc. obind (load_lanes V (i + c * lanes) row) (\<lambda>x. Inr (map2 (sv_max V) acc x))) [1..<full] acc0 =
        (Inr ?acc :: (unit, f32 list) outcome)"
    proof (rule ofold_fold)
      fix c acc assume "c \<in> set [1..<full]"
      then have "i + c * lanes + lanes \<le> length row" using fits [of c] assms(4) by simp
      then show "obind (load_lanes V (i + c * lanes) row) (\<lambda>x. Inr (map2 (sv_max V) acc x)) = Inr (step c acc)"
        by (simp add: load_lanes_def lanes_def [symmetric] step_def)
    qed
    moreover have "load_lanes V i row = (Inr acc0 :: (unit, f32 list) outcome)"
      using fits [of 0] one assms(4) by (simp add: load_lanes_def lanes_def [symmetric] acc0_def)
    ultimately have result: "max_simd V row i j =
        Inr (fold (\<lambda>y maximum. if f32_gt y maximum then y else maximum) (map ((!) row) [i + full * lanes..<j]) (max_scalar ?acc))"
      using True tail [of "i + full * lanes"] by (simp add: max_simd_def lanes_def [symmetric] full_def [symmetric] Let_def)
    have nan: "no_nan (map ((!) row) [i + full * lanes..<j])" using no_nan_nth [OF assms(2)] assms(4) by (auto simp: no_nan_def)
    have "greatest_of (max_scalar ?acc) (\<Union>l < lanes. (\<lambda>c. row ! (i + c * lanes + l)) ` {0..<full})"
      using acc lanes by (intro greatest_of_union) auto
    from greatest_of_fold [OF this nan]
    have top: "greatest_of (fold (\<lambda>y maximum. if f32_gt y maximum then y else maximum) (map ((!) row) [i + full * lanes..<j]) (max_scalar ?acc))
        (set (map ((!) row) [i + full * lanes..<j]) \<union> (\<Union>l < lanes. (\<lambda>c. row ! (i + c * lanes + l)) ` {0..<full}))" .
    also have "set (map ((!) row) [i + full * lanes..<j]) \<union> (\<Union>l < lanes. (\<lambda>c. row ! (i + c * lanes + l)) ` {0..<full}) = (!) row ` {i..<j}"
    proof -
      have "(\<exists>c < full. \<exists>l < lanes. e = i + c * lanes + l) \<longleftrightarrow> i \<le> e \<and> e < i + full * lanes" for e
      proof
        assume e: "i \<le> e \<and> e < i + full * lanes"
        then have "e - i < full * lanes" by linarith
        with e have "(e - i) div lanes < full" "(e - i) mod lanes < lanes" "e = i + (e - i) div lanes * lanes + (e - i) mod lanes"
          using lanes by (simp_all add: div_less_iff_less_mult)
        then show "\<exists>c < full. \<exists>l < lanes. e = i + c * lanes + l" by blast
      next
        assume "\<exists>c < full. \<exists>l < lanes. e = i + c * lanes + l"
        then obtain c l where "c < full" "l < lanes" "e = i + c * lanes + l" by blast
        then show "i \<le> e \<and> e < i + full * lanes" using mult_le_mono1 [of "Suc c" full lanes] by simp
      qed
      then have "{i..<i + full * lanes} = {e. \<exists>c < full. \<exists>l < lanes. e = i + c * lanes + l}" by auto
      moreover have "(\<Union>l < lanes. (\<lambda>c. row ! (i + c * lanes + l)) ` {0..<full}) = (!) row ` {e. \<exists>c < full. \<exists>l < lanes. e = i + c * lanes + l}"
        by force
      ultimately have "(\<Union>l < lanes. (\<lambda>c. row ! (i + c * lanes + l)) ` {0..<full}) = (!) row ` {i..<i + full * lanes}" by simp
      moreover have "full * lanes \<le> j - i" by (simp add: full_def)
      moreover from this have "i + full * lanes \<le> j" using assms(3) by linarith
      ultimately have "{i..<j} = {i + full * lanes..<j} \<union> {i..<i + full * lanes}"
        and "(\<Union>l < lanes. (\<lambda>c. row ! (i + c * lanes + l)) ` {0..<full}) = (!) row ` {i..<i + full * lanes}" by auto
      then show ?thesis by (simp only: image_Un set_map set_upt)
    qed
    finally have "greatest_of (fold (\<lambda>y maximum. if f32_gt y maximum then y else maximum) (map ((!) row) [i + full * lanes..<j]) (max_scalar ?acc))
        ((!) row ` {i..<j})" .
    with result greatest_of_key [OF this row_max_greatest [OF assms(2-4)]] show ?thesis by (simp add: greatest_of_def)
  qed
qed

lemma indexer_block_max_simd_ok:
  assumes "simd_ok V" "length scores = rows * blocks" "\<forall>r < rows. no_nan (row_of blocks r scores)"
  shows "\<exists>maxima. indexer_block_max_simd V scores rows blocks pool = Inr (concat (map maxima [0..<rows])) \<and>
    (\<forall>r < rows. same_order (maxima r) (group_maxima (row_of blocks r scores) (nat (max 1 pool)) blocks))"
proof -
  define sz where "sz = nat (max 1 pool)"
  define groups where "groups = (blocks + sz - 1) div sz"
  have sz: "0 < sz" by (simp add: sz_def)
  define maximum where "maximum r g = (case max_simd V (row_of blocks r scores) (g * sz) (min (g * sz + sz) blocks) of Inr x \<Rightarrow> x | Inl _ \<Rightarrow> 0)" for r g
  have len: "length (row_of blocks r scores) = blocks" if "r < rows" for r
    by (rule row_of_length [OF row_fits [OF that assms(2)]])
  have entry: "max_simd V (row_of blocks r scores) (g * sz) (min (g * sz + sz) blocks) = Inr (maximum r g)" "\<not> f32_nan (maximum r g)"
    "f32_key (maximum r g) = f32_key (row_max (row_of blocks r scores) (g * sz) (min (g * sz + sz) blocks))" if "r < rows" "g < groups" for r g
  proof -
    have "g * sz < min (g * sz + sz) blocks" using groups_bound [OF sz, of g blocks] that(2) sz by (simp add: groups_def)
    then show "max_simd V (row_of blocks r scores) (g * sz) (min (g * sz + sz) blocks) = Inr (maximum r g)" "\<not> f32_nan (maximum r g)"
      "f32_key (maximum r g) = f32_key (row_max (row_of blocks r scores) (g * sz) (min (g * sz + sz) blocks))"
      using max_simd_ok [OF assms(1) assms(3) [rule_format, OF that(1)], of "g * sz" "min (g * sz + sz) blocks"] len [OF that(1)]
      by (auto simp: maximum_def)
  qed
  have "omap (\<lambda>row. obind (slice_of (row * blocks) ((row + 1) * blocks) scores) (\<lambda>source.
      omap (\<lambda>g. max_simd V source (g * sz) (min (g * sz + sz) blocks)) [0..<groups])) [0..<rows] =
    Inr (map (\<lambda>r. map (maximum r) [0..<groups]) [0..<rows])"
  proof (rule omap_map)
    fix r assume "r \<in> set [0..<rows]"
    then have r: "r < rows" by simp
    have "omap (\<lambda>g. max_simd V (row_of blocks r scores) (g * sz) (min (g * sz + sz) blocks)) [0..<groups] = Inr (map (maximum r) [0..<groups])"
      by (rule omap_map) (simp add: entry(1) [OF r])
    then show "obind (slice_of (r * blocks) ((r + 1) * blocks) scores) (\<lambda>source.
        omap (\<lambda>g. max_simd V source (g * sz) (min (g * sz + sz) blocks)) [0..<groups]) = Inr (map (maximum r) [0..<groups])"
      by (simp only: slice_row [OF row_fits [OF r assms(2)]] obind_simps)
  qed
  moreover have "same_order (map (maximum r) [0..<groups]) (group_maxima (row_of blocks r scores) sz blocks)" if "r < rows" for r
    using entry(2,3) [OF that] by (auto simp: same_order_def group_maxima_def groups_def no_nan_def row_max_nan)
  ultimately show ?thesis
    by (intro exI [of _ "\<lambda>r. map (maximum r) [0..<groups]"])
       (simp add: indexer_block_max_simd_def Let_def sz_def [symmetric] groups_def [symmetric] del: One_nat_def)
qed

lemma simd_kernel: "simd_ok V \<Longrightarrow> indexer_kernel (simd_backend F V) (simd_score F V) no_nan"
  by unfold_locales (simp_all add: simd_backend_def indexer_scores_simd_ok indexer_block_max_simd_ok)

text \<open>The interpretation needs vectors with the laws; these are those of a machine with vectors of four lanes.\<close>

definition four_lanes :: "float_ops \<Rightarrow> simd_ops" where
  "four_lanes F = \<lparr>sv_lanes = 4, sv_muladd = (\<lambda>x y z. fo_muladd F z x y), sv_max = (\<lambda>x y. if f32_gt y x then y else x)\<rparr>"

lemma four_lanes_ok: "simd_ok (four_lanes F)"
  by (auto simp: simd_ok_def four_lanes_def f32_gt_def max_def)

interpretation simd4: indexer_kernel "simd_backend F (four_lanes F)" "simd_score F (four_lanes F)" no_nan for F
  by (rule simd_kernel [OF four_lanes_ok])

lemma scalar_select_rows:
  assumes "length query = batch * seq_len * (heads * width)" "length key = batch * blocks * (heads * width)" "length weight = heads"
    "ratio \<noteq> 0"
  shows "select_projected_scores F (scalar_backend F) weight heads width query key batch seq_len blocks position_offset ratio top_k pool budget =
    Inr (map (\<lambda>(b, t). row_selection (token_scores (if 16 \<le> seq_len then index_score F else index_score F) weight heads width query key seq_len blocks b t)
      (allowed_blocks position_offset t ratio blocks) top_k (max 1 pool) budget) (List.product [0..<batch] [0..<seq_len]))"
  using scalar.select_projected_scores_rows [OF assms] by simp

section \<open>Properties\<close>

text \<open>The scores that \<open>selectProjectedScores\<close> chooses by: the backend's from 16 rows on, those of the scalar loop below.\<close>

definition row_score :: "float_ops \<Rightarrow> simd_ops option \<Rightarrow> nat \<Rightarrow> nat \<Rightarrow> nat \<Rightarrow> f32 list \<Rightarrow> f32 list \<Rightarrow> f32 list \<Rightarrow> f32" where
  "row_score F v seq_len = (if 16 \<le> seq_len then (case v of None \<Rightarrow> index_score F | Some V \<Rightarrow> simd_score F V) else index_score F)"

lemma select_by_row_score:
  assumes "length query = batch * seq_len * (heads * width)" "length key = batch * blocks * (heads * width)" "length weight = heads"
    "ratio \<noteq> 0" "\<forall>V. v = Some V \<longrightarrow> simd_ok V"
    "\<forall>b < batch. \<forall>t < seq_len. v = None \<or> no_nan (token_scores (row_score F v seq_len) weight heads width query key seq_len blocks b t)"
  shows "select_projected_scores F (indexer_backend_of F v) weight heads width query key batch seq_len blocks position_offset ratio top_k pool budget =
    Inr (map (\<lambda>(b, t). row_selection (token_scores (row_score F v seq_len) weight heads width query key seq_len blocks b t)
      (allowed_blocks position_offset t ratio blocks) top_k (max 1 pool) budget) (List.product [0..<batch] [0..<seq_len]))"
proof (cases v)
  case None
  then show ?thesis using scalar_select_rows [OF assms(1-4)] by (simp add: indexer_backend_of_def row_score_def)
next
  case (Some V)
  then have V: "simd_ok V" using assms(5) by simp
  have score: "(if 16 \<le> seq_len then simd_score F V else index_score F) = row_score F v seq_len"
    by (simp add: row_score_def Some)
  have numbers: "\<forall>b < batch. \<forall>t < seq_len. no_nan (token_scores (row_score F v seq_len) weight heads width query key seq_len blocks b t)"
    using assms(6) Some by simp
  have "indexer_backend_of F v = simd_backend F V" by (simp add: indexer_backend_of_def Some)
  with indexer_kernel.select_projected_scores_rows [where F = F, OF simd_kernel [where F = F, OF V] assms(1-4), unfolded score, OF numbers]
  show ?thesis by simp
qed

text \<open>
  C6. With the SIMD backend as with the scalar one, whatever the chunks and the batch: what \<open>selectProjectedScores\<close> selects for
  a token is the selection from that token's own row of scores, and nothing else plays a part. The scores are those of the
  backend's kernel from 16 positions on and those of the scalar loop below; with the SIMD backend they are taken to be numbers,
  and \<open>Max\<close> of two numbers to be the larger.
\<close>
theorem selection_rows:
  assumes "length query = batch * seq_len * (heads * width)" "length key = batch * blocks * (heads * width)" "length weight = heads"
    "ratio \<noteq> 0" "\<forall>V. v = Some V \<longrightarrow> simd_ok V"
    "\<forall>b < batch. \<forall>t < seq_len. v = None \<or> no_nan (token_scores (row_score F v seq_len) weight heads width query key seq_len blocks b t)"
  shows "select_projected_scores F (indexer_backend_of F v) weight heads width query key batch seq_len blocks position_offset ratio top_k pool budget =
    Inr (map (\<lambda>(b, t). row_selection (token_scores (row_score F v seq_len) weight heads width query key seq_len blocks b t)
      (allowed_blocks position_offset t ratio blocks) top_k (max 1 pool) budget) (List.product [0..<batch] [0..<seq_len]))"
  by (rule select_by_row_score [OF assms])

definition example_query :: "f32 list" where
  "example_query = concat (map (\<lambda>t. [word_of_nat t, 1, 2, 0, 1]) [0..<16])"

abbreviation "example_keys \<equiv> [3, 1, 1, 2, 1, 1, 4, 4, 0, 9] :: f32 list"

abbreviation "example_select v \<equiv> select_projected_scores example_ops (indexer_backend_of example_ops v) [1] 1 5 example_query
  example_keys 1 16 2 12 6 1 2 2"

theorem selection_rows_witness:
  "\<exists>rows. example_select (Some (four_lanes example_ops)) = Inr rows \<and> rows ! 8 = ([1], [0, 1]) \<and> rows ! 9 = ([0], [0, 1])"
proof -
  let ?score = "token_scores (row_score example_ops (Some (four_lanes example_ops)) 16) [1] 1 5 example_query example_keys 16 2 0"
  have "list_all (\<lambda>t. no_nan (?score t)) [0..<16]" by code_simp
  then have numbers: "\<forall>b < 1. \<forall>t < 16. Some (four_lanes example_ops) = None \<or>
      no_nan (token_scores (row_score example_ops (Some (four_lanes example_ops)) 16) [1] 1 5 example_query example_keys 16 2 b t)"
    by (simp add: list_all_iff)
  have "length example_query = 1 * 16 * (1 * 5)" by code_simp
  from selection_rows [OF this, of example_keys 2 "[1]" 6 "Some (four_lanes example_ops)" example_ops 12 1 2 2]
  have rows: "example_select (Some (four_lanes example_ops)) = Inr (map (\<lambda>(b, t). row_selection
      (token_scores (row_score example_ops (Some (four_lanes example_ops)) 16) [1] 1 5 example_query example_keys 16 2 b t)
      (allowed_blocks 12 t 6 2) 1 (max 1 2) 2) (List.product [0..<1] [0..<16]))"
    using numbers by (simp add: four_lanes_ok)
  have "row_selection (?score 8) (allowed_blocks 12 8 6 2) 1 (max 1 2) 2 = ([1], [0, 1])"
    "row_selection (?score 9) (allowed_blocks 12 9 6 2) 1 (max 1 2) 2 = ([0], [0, 1])" by code_simp+
  with rows show ?thesis by (simp add: nth_append del: max_def)
qed

text \<open>
  What the lanes change: the SIMD kernel adds the products of one lane first. With an addition that rounds, the scores
  of the two backends are not the same.
\<close>

definition absorbing_ops :: float_ops where
  "absorbing_ops = \<lparr>fo_add = (\<lambda>x y. if 8 \<le> x \<and> y \<le> 1 then x else x + y), fo_mul = (*), fo_div = (div),
     fo_muladd = (\<lambda>acc x y. if 8 \<le> acc \<and> x * y \<le> 1 then acc else acc + x * y)\<rparr>"

lemma simd_scores_differ:
  "index_score absorbing_ops 1 8 [1] [8, 1, 1, 1, 1, 1, 1, 1] [1, 1, 1, 1, 1, 1, 1, 1] = 8"
  "simd_score absorbing_ops (four_lanes absorbing_ops) 1 8 [1] [8, 1, 1, 1, 1, 1, 1, 1] [1, 1, 1, 1, 1, 1, 1, 1] = 14"
  by code_simp+

lemma group_of: "0 < sz \<Longrightarrow> c \<in> set [g * sz..<min (g * sz + sz) n] \<longleftrightarrow> c < n \<and> c div sz = (g :: nat)"
  using less_eq_div_iff_mult_less_eq [of sz g c] div_less_iff_less_mult [of sz c "Suc g"]
  by (auto simp: add.commute)

lemma distinct_groups:
  assumes "0 < sz" "distinct gs"
  shows "distinct (concat (map (\<lambda>g. [g * sz..<min (g * sz + sz) n]) gs))"
  using assms(2)
proof (induction gs)
  case (Cons g gs)
  have "set [g * sz..<min (g * sz + sz) n] \<inter> set (concat (map (\<lambda>g. [g * sz..<min (g * sz + sz) n]) gs)) = {}"
  proof -
    have "c \<notin> set (concat (map (\<lambda>g. [g * sz..<min (g * sz + sz) n]) gs))" if "c \<in> set [g * sz..<min (g * sz + sz) n]" for c
    proof
      assume "c \<in> set (concat (map (\<lambda>g. [g * sz..<min (g * sz + sz) n]) gs))"
      then obtain g' where "g' \<in> set gs" "c \<in> set [g' * sz..<min (g' * sz + sz) n]" by auto
      then have "g \<in> set gs" using group_of [OF assms(1)] that by metis
      with Cons.prems show False by simp
    qed
    then show ?thesis by blast
  qed
  with Cons show ?case by simp
qed simp


lemma best_candidates_facts:
  assumes "no_nan row" "set cand \<subseteq> {..<length row}" "distinct cand" "0 < top_k"
  defines "sel \<equiv> best_candidates row cand top_k"
  shows "distinct sel" "set sel \<subseteq> set cand" "length sel = min (nat top_k) (length cand)"
    "sorted_wrt (\<lambda>i j. f32_key (row ! j) \<le> f32_key (row ! i)) sel"
    "\<And>s c. s \<in> set sel \<Longrightarrow> c \<in> set cand - set sel \<Longrightarrow> f32_key (row ! c) \<le> f32_key (row ! s)"
proof -
  define fine where "fine = map ((!) row) cand"
  define t where "t = top_k_indices fine top_k"
  have fine: "no_nan fine" "length fine = length cand"
    using assms(1,2) no_nan_nth [OF assms(1)] by (auto simp: fine_def no_nan_def subset_iff)
  note t = top_k_facts [OF fine(1), of top_k, folded t_def, unfolded fine(2)]
  have sel: "sel = map ((!) cand) t"
    using t(3) by (auto simp: sel_def best_candidates_def t_def fine_def top_k_indices_def argsort_descending_def slice_stable_def)
  show "distinct sel"
    unfolding sel distinct_map using t(1,2) assms(3) by (auto simp: inj_on_def nth_eq_iff_index_eq subset_iff)
  show "set sel \<subseteq> set cand" using t(2) by (auto simp: sel subset_iff)
  show "length sel = min (nat top_k) (length cand)" by (simp add: sel t(3))
  have key: "f32_key (row ! (cand ! j)) \<le> f32_key (row ! (cand ! i))" if "rank fine i \<le> rank fine j" "i < length cand" "j < length cand" for i j
    using that rank_key [of fine i j] by (cases "i = j") (auto simp: fine_def order_le_less)
  have "sorted_wrt (\<lambda>i j. rank fine i \<le> rank fine j) t" using t(4) by (simp add: sorted_map)
  then have "sorted_wrt (\<lambda>i j. f32_key (row ! (cand ! j)) \<le> f32_key (row ! (cand ! i))) t"
    by (rule sorted_wrt_mono_rel [rotated]) (use key t(2) in auto)
  then show "sorted_wrt (\<lambda>i j. f32_key (row ! j) \<le> f32_key (row ! i)) sel" by (simp add: sel sorted_wrt_map)
  show "f32_key (row ! c) \<le> f32_key (row ! s)" if sc: "s \<in> set sel" "c \<in> set cand - set sel" for s c
  proof -
    obtain x where x: "x < length cand" "c = cand ! x" "x \<notin> set t"
    proof -
      obtain x where "x < length cand" "c = cand ! x" using sc(2) by (auto simp: in_set_conv_nth)
      moreover from this have "x \<notin> set t" using sc(2) by (auto simp: sel)
      ultimately show thesis using that by blast
    qed
    obtain i where i: "i \<in> set t" "s = cand ! i" using sc(1) by (auto simp: sel)
    then have "rank fine i < rank fine x" using t(5) x by (auto simp: best_of_def)
    then show ?thesis using key [of i x] x i t(2) by auto
  qed
qed

lemma candidate_blocks_facts:
  fixes budget :: int
  assumes "no_nan row" "0 < n" "n \<le> length row" "0 < sz"
  defines "cand \<equiv> candidate_blocks row n sz budget"
  shows "distinct cand" "set cand \<subseteq> {..<n}" "cand \<noteq> []"
    "\<And>c c'. c \<in> set cand \<Longrightarrow> c' < n \<Longrightarrow> c' div sz = c div sz \<Longrightarrow> c' \<in> set cand"
    "\<And>c c'. c \<in> set cand \<Longrightarrow> c' < n \<Longrightarrow> c' \<notin> set cand \<Longrightarrow>
      \<exists>d \<in> set cand. d div sz = c div sz \<and> f32_key (row ! c') \<le> f32_key (row ! d)"
proof -
  define k where "k = max 1 ((budget + int sz - 1) sdiv int sz)"
  define gs where "gs = top_k_indices (group_maxima row sz n) k"
  have len: "length (group_maxima row sz n) = (n + sz - 1) div sz" by (simp add: group_maxima_def)
  note gs = top_k_facts [OF group_maxima_no_nan [OF assms(1,3,4)], of k, folded gs_def, unfolded len]
  have cand: "cand = concat (map (\<lambda>g. [g * sz..<min (g * sz + sz) n]) gs)"
    by (simp add: cand_def candidate_blocks_def gs_def k_def)
  have mem: "c \<in> set cand \<longleftrightarrow> c < n \<and> c div sz \<in> set gs" for c
    using group_of [OF assms(4), of c _ n] by (auto simp: cand)
  show "distinct cand" unfolding cand by (rule distinct_groups [OF assms(4) gs(1)])
  show "set cand \<subseteq> {..<n}" using mem by auto
  have less: "g \<in> set gs \<Longrightarrow> g * sz < n" for g using gs(2) groups_bound [OF assms(4), of g n] by auto
  have "0 < length gs" using gs(3) groups_bound [OF assms(4), of 0 n] assms(2) by (simp add: k_def)
  then obtain g where "g \<in> set gs" by (meson nth_mem)
  then have "g * sz \<in> set cand" using less assms(4) mem by simp
  then show "cand \<noteq> []" by auto
  show "c' \<in> set cand" if "c \<in> set cand" "c' < n" "c' div sz = c div sz" for c c'
    using that mem by metis
  show "\<exists>d \<in> set cand. d div sz = c div sz \<and> f32_key (row ! c') \<le> f32_key (row ! d)"
    if c: "c \<in> set cand" "c' < n" "c' \<notin> set cand" for c c'
  proof -
    define g g' where "g = c div sz" and "g' = c' div sz"
    have g: "g \<in> set gs" "g' \<notin> set gs" using c mem by (simp_all add: g_def g'_def)
    have "g' * sz < n" unfolding g'_def using c(2) div_times_less_eq_dividend [of c' sz] by (rule le_less_trans [rotated])
    then have "g' < (n + sz - 1) div sz" using groups_bound [OF assms(4)] by simp
    then have "rank (group_maxima row sz n) g < rank (group_maxima row sz n) g'" using gs(5) g by (auto simp: best_of_def)
    from rank_key [OF this] have max_le: "f32_key (row_max row (g' * sz) (min (g' * sz + sz) n)) \<le> f32_key (row_max row (g * sz) (min (g * sz + sz) n))"
      using \<open>g' < _\<close> gs(2) g(1) by (auto simp: group_maxima_def)
    have c': "c' \<in> set [g' * sz..<min (g' * sz + sz) n]" using group_of [OF assms(4)] c(2) by (simp add: g'_def del: set_upt)
    have "f32_key (row ! c') \<le> f32_key (row_max row (g' * sz) (min (g' * sz + sz) n))"
      using row_max_bound [OF assms(1), of "g' * sz" "min (g' * sz + sz) n"] c' assms(3) by auto
    moreover obtain e where e: "g * sz \<le> e" "e < min (g * sz + sz) n" "f32_key (row ! e) = f32_key (row_max row (g * sz) (min (g * sz + sz) n))"
    proof -
      have "min (g * sz + sz) n \<le> length row" "g * sz < min (g * sz + sz) n" using less [OF g(1)] assms(3,4) by simp_all
      then show thesis using row_max_bound [OF assms(1), of "g * sz" "min (g * sz + sz) n"] that by auto
    qed
    moreover have "e < n \<and> e div sz = g" using group_of [OF assms(4), of e g n] e by simp
    ultimately show ?thesis using max_le mem g(1) by (intro bexI [of _ e]) (auto simp: g_def)
  qed
qed


text \<open>
  C10. On scores without NaN, what a query selects lies in the candidate pool, and the pool before the query's own
  block. The pool consists of whole super-blocks, and none left out has a better best score; the selection is ordered by
  score and nothing in the pool beats it.
\<close>
theorem row_selection_sound:
  assumes "no_nan row" "length row = blocks" "0 < allowed" "allowed \<le> int blocks" "0 < top_k" "0 < pool"
  shows "\<exists>sel cand. select_row_block_max row (group_maxima row (nat pool) blocks) allowed top_k pool budget = Inr (sel, cand) \<and>
    distinct cand \<and> cand \<noteq> [] \<and> set cand \<subseteq> {..<nat allowed} \<and>
    (\<forall>c \<in> set cand. \<forall>c' < nat allowed. c' div nat pool = c div nat pool \<longrightarrow> c' \<in> set cand) \<and>
    (\<forall>c \<in> set cand. \<forall>c' < nat allowed. c' \<notin> set cand \<longrightarrow>
       (\<exists>d \<in> set cand. d div nat pool = c div nat pool \<and> f32_key (row ! c') \<le> f32_key (row ! d))) \<and>
    distinct sel \<and> set sel \<subseteq> set cand \<and> length sel = min (nat top_k) (length cand) \<and>
    sorted_wrt (\<lambda>i j. f32_key (row ! j) \<le> f32_key (row ! i)) sel \<and>
    (\<forall>s \<in> set sel. \<forall>c \<in> set cand - set sel. f32_key (row ! c) \<le> f32_key (row ! s))"
proof -
  define cand where "cand = candidate_blocks row (nat allowed) (nat pool) budget"
  have n: "0 < nat allowed" "nat allowed \<le> length row" "0 < nat pool" using assms(2-6) by auto
  note cand = candidate_blocks_facts [where budget = budget, OF assms(1) n, folded cand_def]
  have "set cand \<subseteq> {..<length row}" using cand(2) n(2) by auto
  note sel = best_candidates_facts [OF assms(1) this cand(1) assms(5)]
  have "max 1 pool = pool" using assms(6) by simp
  then have "select_row_block_max row (group_maxima row (nat pool) blocks) allowed top_k pool budget = Inr (best_candidates row cand top_k, cand)"
    using select_row_block_max_ok [OF assms(2,4), of pool top_k budget] assms(3,5) by (simp add: row_selection_def cand_def Let_def)
  then show ?thesis using cand sel by blast
qed

theorem row_selection_sound_witness:
  "\<exists>sel cand. select_row_block_max [3, 1, 4, 1, 5] (group_maxima [3, 1, 4, 1, 5] 2 5) 4 1 2 2 = Inr (sel, cand) \<and>
    set sel \<subseteq> set cand \<and> set cand \<subseteq> {..<4} \<and> length sel = 1"
proof -
  have "no_nan [3, 1, 4, 1, 5 :: f32]" by code_simp
  moreover have "nat 2 = 2" "nat 4 = 4" "nat 1 = 1" by simp_all
  ultimately obtain sel cand where "select_row_block_max [3, 1, 4, 1, 5] (group_maxima [3, 1, 4, 1, 5] 2 5) 4 1 2 2 = Inr (sel, cand)"
    "set sel \<subseteq> set cand" "set cand \<subseteq> {..<4}" "length sel = min 1 (length cand)" "cand \<noteq> []"
    using row_selection_sound [of "[3, 1, 4, 1, 5]" 5 4 1 2 2] by auto
  then show ?thesis by (cases cand) auto
qed

lemma row_max_cong: "(\<And>e. e < j \<Longrightarrow> row ! e = row' ! e) \<Longrightarrow> row_max row i j = row_max row' i j"
  unfolding row_max_def by (rule fold_cong) (simp_all cong: if_cong)

lemma row_selection_cong:
  assumes "\<And>j. int j < allowed \<Longrightarrow> row ! j = row' ! j"
  shows "row_selection row allowed top_k pool budget = row_selection row' allowed top_k pool budget"
proof -
  define n where "n = nat allowed"
  have row: "row ! j = row' ! j" if "j < n" for j using assms [of j] that by (simp add: n_def zless_nat_eq_int_zless)
  have "group_maxima row sz n = group_maxima row' sz n" for sz
    using row by (auto simp: group_maxima_def intro!: row_max_cong)
  then have cand: "candidate_blocks row n sz budget = candidate_blocks row' n sz budget" for sz
    by (simp add: candidate_blocks_def)
  have "c < n" if "c \<in> set (candidate_blocks row' n sz budget)" for c sz
    using that by (auto simp: candidate_blocks_def)
  then have scores: "map ((!) row) (candidate_blocks row' n sz budget) = map ((!) row') (candidate_blocks row' n sz budget)" for sz
    using row by simp
  have "best_candidates row (candidate_blocks row' n sz budget) top_k = best_candidates row' (candidate_blocks row' n sz budget) top_k" for sz
    unfolding best_candidates_def scores by (rule refl)
  then show ?thesis by (simp add: row_selection_def Let_def n_def [symmetric] cand)
qed

text \<open>
  A token selected on its own, as decoding does once more blocks exist, selects what it did among the other tokens of
  a prefill: if the blocks before its own have the same keys, the selections are equal.
\<close>
theorem selection_incremental:
  assumes "length query = batch * seq_len * (heads * width)" "length key = batch * blocks * (heads * width)"
    "length query' = heads * width" "length key' = blocks' * (heads * width)" "length weight = heads" "ratio \<noteq> 0"
    "b < batch" "t < seq_len" "row_of (heads * width) (b * seq_len + t) query = query'"
    "allowed = (position_offset + int t) sdiv ratio" "allowed \<le> int blocks" "allowed \<le> int blocks'"
    "\<And>j. int j < allowed \<Longrightarrow> row_of (heads * width) (b * blocks + j) key = row_of (heads * width) j key'"
    "select_projected_scores F (scalar_backend F) weight heads width query key batch seq_len blocks position_offset ratio top_k pool budget = Inr rows"
  shows "select_projected_scores F (scalar_backend F) weight heads width query' key' 1 1 blocks' (position_offset + int t) ratio top_k pool budget =
    Inr [rows ! (b * seq_len + t)]"
proof -
  let ?score = "\<lambda>b t. token_scores (index_score F) weight heads width query key seq_len blocks b t"
  have rows: "rows = map (\<lambda>(b, t). row_selection (?score b t) (allowed_blocks position_offset t ratio blocks) top_k (max 1 pool) budget)
      (List.product [0..<batch] [0..<seq_len])"
    using assms(14) scalar_select_rows [where F = F and position_offset = position_offset and top_k = top_k and pool = pool and budget = budget, OF assms(1,2,5,6)] by simp
  have "b * seq_len + t < batch * seq_len" using mult_le_mono1 [of "Suc b" batch seq_len] assms(7,8) by simp
  moreover have "List.product [0..<batch] [0..<seq_len] ! (b * seq_len + t) = (b, t)"
    using product_nth [of "b * seq_len + t" "[0..<batch]" "[0..<seq_len]"] assms(7,8) calculation by simp
  ultimately have row: "rows ! (b * seq_len + t) =
      row_selection (?score b t) (allowed_blocks position_offset t ratio blocks) top_k (max 1 pool) budget"
    by (simp add: rows)
  let ?single = "token_scores (index_score F) weight heads width query' key' 1 blocks' 0 0"
  have "select_projected_scores F (scalar_backend F) weight heads width query' key' 1 1 blocks' (position_offset + int t) ratio top_k pool budget =
      Inr [row_selection ?single (allowed_blocks (position_offset + int t) 0 ratio blocks') top_k (max 1 pool) budget]"
    using scalar_select_rows [where F = F and query = query' and batch = 1 and seq_len = 1 and heads = heads and
      width = width and key = key' and blocks = blocks' and weight = weight and ratio = ratio and position_offset = "position_offset + int t"
      and top_k = top_k and pool = pool and budget = budget] assms(3-6) by simp
  moreover have "allowed_blocks (position_offset + int t) 0 ratio blocks' = allowed" "allowed_blocks position_offset t ratio blocks = allowed"
    using assms(10-12) by (simp_all add: allowed_blocks_def)
  moreover have "row_selection ?single allowed top_k (max 1 pool) budget = row_selection (?score b t) allowed top_k (max 1 pool) budget"
  proof (rule row_selection_cong)
    fix j assume j: "int j < allowed"
    then have "j < blocks" "j < blocks'" using assms(11,12) by simp_all
    then show "?single ! j = ?score b t ! j"
      using assms(3,9) assms(13) [OF j] by (simp add: token_scores_def row_of_def)
  qed
  ultimately show ?thesis using row by simp
qed


theorem selection_incremental_witness:
  "\<exists>rows. select_projected_scores example_ops (scalar_backend example_ops) [1] 1 1 [1, 2, 3] [4, 5, 6] 1 3 3 0 1 1 1 4 = Inr rows \<and>
    select_projected_scores example_ops (scalar_backend example_ops) [1] 1 1 [3] [4, 5] 1 1 2 2 1 1 1 4 = Inr [rows ! 2]"
proof -
  obtain rows where rows: "select_projected_scores example_ops (scalar_backend example_ops) [1] 1 1 [1, 2, 3] [4, 5, 6] 1 3 3 0 1 1 1 4 = Inr rows"
    using scalar_select_rows [where F = example_ops and query = "[1, 2, 3]" and batch = 1 and seq_len = 3 and heads = 1 and
      width = 1 and key = "[4, 5, 6]" and blocks = 3 and weight = "[1]" and ratio = 1 and position_offset = 0 and top_k = 1 and pool = 1 and budget = 4]
    by simp
  have "2 = (0 + int 2) sdiv 1" by code_simp
  then have "select_projected_scores example_ops (scalar_backend example_ops) [1] 1 1 [3] [4, 5] 1 1 2 (0 + int 2) 1 1 1 4 = Inr [rows ! (0 * 3 + 2)]"
    by (intro selection_incremental [OF _ _ _ _ _ _ _ _ _ _ _ _ _ rows]) (auto simp: row_of_def less_2_cases_iff)
  then show ?thesis using rows by (simp add: numeral_2_eq_2)
qed

section \<open>The reindexing layers\<close>

lemma fine_score_ok:
  assumes "length query = rows * (heads * width)" "length key = n * (heads * width)" "length weight = heads" "row < rows" "entry < n"
  shows "fine_score F weight heads width query key (row * (heads * width)) (entry * (heads * width)) =
    Inr (index_score F heads width weight (row_of (heads * width) row query) (row_of (heads * width) entry key))"
proof -
  let ?hw = "heads * width"
  let ?q = "row_of ?hw row query" and ?k = "row_of ?hw entry key"
  have fits: "(row + 1) * ?hw \<le> length query" "(entry + 1) * ?hw \<le> length key"
    using row_fits [OF assms(4,1)] row_fits [OF assms(5,2)] by simp_all
  have elems: "elem_at query (row * ?hw + head * width + i) = (Inr (?q ! (head * width + i)) :: (unit, f32) outcome)"
    "elem_at key (entry * ?hw + head * width + i) = (Inr (?k ! (head * width + i)) :: (unit, f32) outcome)"
    if "head < heads" "i < width" for head i
    using fits head_index_less [OF that] by (simp_all add: row_of_nth add.assoc add_mult_distrib)
  have dot: "ofold (\<lambda>i acc. obind (elem_at query (row * ?hw + head * width + i)) (\<lambda>x.
      obind (elem_at key (entry * ?hw + head * width + i)) (\<lambda>y. Inr (fo_muladd F acc x y)))) [0..<width] 0 =
    (Inr (head_dot F width ?q ?k head) :: (unit, f32) outcome)" if "head < heads" for head
    unfolding head_dot_def by (rule ofold_fold) (simp add: elems [OF that])
  show ?thesis
    unfolding fine_score_def index_score_def by (rule ofold_fold) (use assms(3) in \<open>simp add: dot\<close>)
qed

text \<open>
  Where the scores come from the scalar loop, with the scalar backend for any number of rows and with the SIMD one for fewer
  than 16, a layer that reindexes with the same projections finds what the full layer selected: choosing within the pools that
  \<open>selectProjectedScores\<close> publishes, scoring only their blocks, gives its selections. (From 16 rows on the SIMD kernel
  scores by lanes and \<open>fineSelect\<close> one by one, so rounding may tell them apart: \<open>simd_scores_differ\<close>.)
\<close>
theorem reindex_same_selection:
  assumes "length query = batch * seq_len * (heads * width)" "length key = batch * blocks * (heads * width)" "length weight = heads"
    "ratio \<noteq> 0" "v = None \<or> seq_len < 16" "\<forall>V. v = Some V \<longrightarrow> simd_ok V"
    "\<forall>b < batch. \<forall>t < seq_len. v = None \<or> no_nan (token_scores (index_score F) weight heads width query key seq_len blocks b t)"
    "select_projected_scores F (indexer_backend_of F v) weight heads width query key batch seq_len blocks position_offset ratio top_k pool budget = Inr rows"
  shows "select_within_pool F weight heads width query key batch seq_len blocks position_offset ratio top_k (Some (map snd rows)) =
    Inr (map fst rows)"
proof -
  let ?hw = "heads * width"
  let ?score = "\<lambda>b t. token_scores (index_score F) weight heads width query key seq_len blocks b t"
  let ?sel = "\<lambda>(b, t). row_selection (?score b t) (allowed_blocks position_offset t ratio blocks) top_k (max 1 pool) budget"
  let ?tokens = "List.product [0..<batch] [0..<seq_len]"
  have score: "row_score F v seq_len = index_score F" using assms(5) by (auto simp: row_score_def)
  have rows: "rows = map ?sel ?tokens"
    using assms(8) select_by_row_score [where F = F and position_offset = position_offset and top_k = top_k
      and pool = pool and budget = budget, OF assms(1-4) assms(6)] assms(7) by (simp add: score)
  have "(let row = b * seq_len + token in
      if top_k \<le> 0 \<or> length (map snd rows) \<le> row then Inr []
      else panic_if (ratio = 0)
        (fine_select F weight heads width query key row (b * blocks * ?hw) (map snd rows ! row) top_k
          (allowed_blocks position_offset token ratio blocks))) = (Inr (fst (?sel (b, token))) :: (unit, nat list) outcome)"
    if "b < batch" "token < seq_len" for b token
  proof (cases "top_k \<le> 0")
    case False
    define row where "row = b * seq_len + token"
    define allowed where "allowed = allowed_blocks position_offset token ratio blocks"
    define cand where "cand = snd (?sel (b, token))"
    have row: "row < batch * seq_len" using mult_le_mono1 [of "Suc b" batch seq_len] that by (simp add: row_def)
    have "?tokens ! row = (b, token)" using product_nth [of row "[0..<batch]" "[0..<seq_len]"] that row by (simp add: row_def)
    then have pool: "map snd rows ! row = cand" using row by (simp add: rows cand_def)
    have less: "int c < allowed" if "c \<in> set cand" for c
      using that False by (auto simp: cand_def row_selection_def candidate_blocks_def allowed_def Let_def split: if_splits)
    then have kept: "filter (\<lambda>entry. int entry < allowed) cand = cand" by simp
    have scores: "omap (\<lambda>entry. fine_score F weight heads width query key (row * ?hw) (b * blocks * ?hw + entry * ?hw)) cand =
        (Inr (map ((!) (?score b token)) cand) :: (unit, f32 list) outcome)"
    proof (rule omap_map)
      fix c assume "c \<in> set cand"
      then have "int c < allowed" by (rule less)
      then have c: "c < blocks" by (simp add: allowed_def allowed_blocks_def)
      have "b * blocks + c < batch * blocks" using mult_le_mono1 [of "Suc b" batch blocks] that(1) c by simp
      then show "fine_score F weight heads width query key (row * ?hw) (b * blocks * ?hw + c * ?hw) = Inr (?score b token ! c)"
        using fine_score_ok [OF assms(1-3) row, of "b * blocks + c" F] c by (simp add: token_scores_def row_def add_mult_distrib)
    qed
    have "fst (?sel (b, token)) = best_candidates (?score b token) cand top_k"
      using False by (simp add: cand_def row_selection_def Let_def best_candidates_def)
    then have "fine_select F weight heads width query key row (b * blocks * ?hw) cand top_k allowed = Inr (fst (?sel (b, token)))"
      using False by (simp add: fine_select_def Let_def kept scores best_candidates_def)
    then show ?thesis using False row assms(4) pool by (simp add: row_def allowed_def rows)
  qed (simp add: row_selection_def)
  then have "omap (\<lambda>(b, token). let row = b * seq_len + token in
      if top_k \<le> 0 \<or> length (map snd rows) \<le> row then Inr []
      else panic_if (ratio = 0)
        (fine_select F weight heads width query key row (b * blocks * ?hw) (map snd rows ! row) top_k
          (allowed_blocks position_offset token ratio blocks))) ?tokens = (Inr (map (\<lambda>p. fst (?sel p)) ?tokens) :: (unit, nat list list) outcome)"
    by (intro omap_map) auto
  then show ?thesis unfolding select_within_pool_def option.case by (simp only: rows map_map comp_def)
qed

theorem reindex_same_selection_witness:
  "\<exists>rows. select_projected_scores example_ops (indexer_backend_of example_ops (Some (four_lanes example_ops))) [1] 1 1 [1, 2] [4, 5] 1 2 2 1 1 1 1 2 = Inr rows \<and>
    rows = [([0], [0]), ([1], [1, 0])] \<and>
    select_within_pool example_ops [1] 1 1 [1, 2] [4, 5] 1 2 2 1 1 1 (Some [[0], [1, 0]]) = Inr [[0], [1]]"
proof -
  have full: "select_projected_scores example_ops (indexer_backend_of example_ops (Some (four_lanes example_ops))) [1] 1 1 [1, 2] [4, 5] 1 2 2 1 1 1 1 2 =
      Inr [([0], [0]), ([1], [1, 0])]" by code_simp
  have "list_all (\<lambda>t. no_nan (token_scores (index_score example_ops) [1] 1 1 [1, 2] [4, 5] 2 2 0 t)) [0..<2]" by code_simp
  then have "\<forall>b < 1. \<forall>t < 2. Some (four_lanes example_ops) = None \<or> no_nan (token_scores (index_score example_ops) [1] 1 1 [1, 2] [4, 5] 2 2 b t)"
    by (simp add: list_all_iff)
  from reindex_same_selection [OF _ _ _ _ _ _ this full]
  have "select_within_pool example_ops [1] 1 1 [1, 2] [4, 5] 1 2 2 1 1 1 (Some [[0], [1, 0]]) = Inr [[0], [1]]"
    by (simp add: four_lanes_ok)
  with full show ?thesis by blast
qed

section \<open>Training and inference\<close>

text \<open>
  Training scores all tokens at once with the kernel and selects from that matrix; inference scores chunk by chunk. With
  the scalar kernel the selections are the same.
\<close>

lemma select_from_score_matrix_rows:
  assumes "length scores = batch * seq_len * blocks" "ratio \<noteq> 0"
  shows "select_from_score_matrix (scalar_backend F) scores batch seq_len blocks position_offset ratio top_k pool budget =
    Inr (map (\<lambda>(b, t). row_selection (row_of blocks (b * seq_len + t) scores) (allowed_blocks position_offset t ratio blocks) top_k (max 1 pool) budget)
      (List.product [0..<batch] [0..<seq_len]))"
proof (cases "blocks = 0")
  case True
  then have "allowed_blocks position_offset t ratio blocks \<le> 0" for t by (simp add: allowed_blocks_def)
  then show ?thesis
    using True by (simp add: select_from_score_matrix_def row_selection_def map_replicate_const case_prod_unfold)
next
  case False
  have "max 1 (max 1 pool) = max 1 pool" by simp
  then show ?thesis
    using False indexer_block_max_ok [OF assms(1), of "max 1 pool"]
      select_rows_ok [OF assms same_order_refl, of "max 1 pool" position_offset top_k budget]
    by (simp add: select_from_score_matrix_def Let_def scalar_backend_def)
qed

lemma row_of_row_of: "i < n \<Longrightarrow> row_of w i (row_of (n * w) b xs) = row_of w (b * n + i) xs"
  using row_of_part [of i n w "b * n" xs] by (simp add: row_of_def mult.assoc)

text \<open>The matrix that \<open>ScoresWithContext\<close> computes has a token's scores in each row.\<close>

lemma indexer_scores_rows:
  fixes F :: float_ops
  assumes "ts_shape hidden = batch # seq_len # hs" "ts_shape compressed = cb # blocks # cs"
    "ix_query ix hidden = Inr query" "ix_key ix compressed = Inr key"
    "length (ts_data query) = batch * seq_len * (ix_head_count ix * ix_dim ix)"
    "length (ts_data key) = batch * blocks * (ix_head_count ix * ix_dim ix)"
    "length (ix_head_weights ix) = ix_head_count ix" "0 < batch" "0 < seq_len" "0 < blocks" "0 < ix_head_count ix" "0 < ix_dim ix"
  defines "row \<equiv> token_scores (index_score F) (ix_head_weights ix) (ix_head_count ix) (ix_dim ix) (ts_data query) (ts_data key) seq_len blocks"
  shows "indexer_scores (scalar_backend F) ix hidden compressed =
    Inr \<lparr>ts_shape = [batch * seq_len, blocks], ts_data = concat (map (\<lambda>b. concat (map (row b) [0..<seq_len])) [0..<batch])\<rparr>"
proof -
  define hw where "hw = ix_head_count ix * ix_dim ix"
  have q: "reshape [batch * seq_len, ix_head_count ix, ix_dim ix] query = (Inr (query\<lparr>ts_shape := [batch * seq_len, ix_head_count ix, ix_dim ix]\<rparr>) :: (unit, tensor) outcome)"
    and k: "reshape [batch * blocks, ix_head_count ix, ix_dim ix] key = (Inr (key\<lparr>ts_shape := [batch * blocks, ix_head_count ix, ix_dim ix]\<rparr>) :: (unit, tensor) outcome)"
    using assms(5,6,8-12) by (simp_all add: reshape_def numel_def mult.assoc)
  have new: "new_tensor [batch * seq_len, blocks] = (Inr \<lparr>ts_shape = [batch * seq_len, blocks], ts_data = replicate (batch * seq_len * blocks) 0\<rparr> :: (unit, tensor) outcome)"
    using assms(8-10) by (simp add: new_tensor_def)
  have parts: "omap (\<lambda>b.
      obind (slice_of (b * seq_len * hw) ((b + 1) * seq_len * hw) (ts_data query)) (\<lambda>query_batch.
      obind (slice_of (b * blocks * hw) ((b + 1) * blocks * hw) (ts_data key)) (\<lambda>key_batch.
        ib_scores (scalar_backend F) query_batch key_batch (ix_head_weights ix) seq_len blocks (ix_head_count ix) (ix_dim ix)))) [0..<batch] =
    Inr (map (\<lambda>b. concat (map (row b) [0..<seq_len])) [0..<batch])"
  proof (rule omap_map)
    fix b assume "b \<in> set [0..<batch]"
    then have b: "b < batch" by simp
    define qb where "qb = row_of (seq_len * hw) b (ts_data query)"
    define kb where "kb = row_of (blocks * hw) b (ts_data key)"
    have fits: "(b + 1) * (seq_len * hw) \<le> length (ts_data query)" "(b + 1) * (blocks * hw) \<le> length (ts_data key)"
      using row_fits [OF b, of "ts_data query" "seq_len * hw"] row_fits [OF b, of "ts_data key" "blocks * hw"] assms(5,6)
      by (simp_all add: hw_def mult.assoc)
    have slices: "slice_of (b * seq_len * hw) ((b + 1) * seq_len * hw) (ts_data query) = (Inr qb :: (unit, f32 list) outcome)"
      "slice_of (b * blocks * hw) ((b + 1) * blocks * hw) (ts_data key) = (Inr kb :: (unit, f32 list) outcome)"
      using slice_row [OF fits(1)] slice_row [OF fits(2)] by (simp_all only: qb_def kb_def mult.assoc)
    have len: "length qb = seq_len * (ix_head_count ix * ix_dim ix)" "length kb = blocks * (ix_head_count ix * ix_dim ix)"
      using row_of_length [OF fits(1)] row_of_length [OF fits(2)] by (simp_all add: qb_def kb_def hw_def)
    have "map (\<lambda>r. map (\<lambda>j. index_score F (ix_head_count ix) (ix_dim ix) (ix_head_weights ix) (row_of hw r qb) (row_of hw j kb)) [0..<blocks]) [0..<seq_len] =
        map (row b) [0..<seq_len]"
      by (simp add: row_def token_scores_def qb_def kb_def row_of_row_of hw_def [symmetric])
    then show "obind (slice_of (b * seq_len * hw) ((b + 1) * seq_len * hw) (ts_data query)) (\<lambda>query_batch.
        obind (slice_of (b * blocks * hw) ((b + 1) * blocks * hw) (ts_data key)) (\<lambda>key_batch.
          ib_scores (scalar_backend F) query_batch key_batch (ix_head_weights ix) seq_len blocks (ix_head_count ix) (ix_dim ix))) =
      Inr (concat (map (row b) [0..<seq_len]))"
      unfolding slices obind_simps scalar.scores_law [OF len assms(7)] by (simp only: hw_def)
  qed
  show ?thesis
    using assms(1-4) parts q k new by (simp add: indexer_scores_def shape_dim_def Let_def hw_def)
qed

text \<open>
  Training and inference select alike: the scores that \<open>ScoresWithContext\<close> computes for all tokens, given to
  \<open>selectFromScoreMatrix\<close>, select what \<open>selectProjectedScores\<close> selects from the projections themselves.
\<close>
theorem training_selects_as_inference:
  assumes "ts_shape hidden = batch # seq_len # hs" "ts_shape compressed = cb # blocks # cs"
    "ix_query ix hidden = Inr query" "ix_key ix compressed = Inr key"
    "length (ts_data query) = batch * seq_len * (ix_head_count ix * ix_dim ix)"
    "length (ts_data key) = batch * blocks * (ix_head_count ix * ix_dim ix)"
    "length (ix_head_weights ix) = ix_head_count ix" "ratio \<noteq> 0" "0 < batch" "0 < seq_len" "0 < blocks" "0 < ix_head_count ix" "0 < ix_dim ix"
  shows "\<exists>scores. indexer_scores (scalar_backend F) ix hidden compressed = Inr scores \<and>
    ts_shape scores = [batch * seq_len, blocks] \<and>
    select_from_score_matrix (scalar_backend F) (ts_data scores) batch seq_len blocks position_offset ratio top_k pool budget =
    select_projected_scores F (scalar_backend F) (ix_head_weights ix) (ix_head_count ix) (ix_dim ix) (ts_data query) (ts_data key)
      batch seq_len blocks position_offset ratio top_k pool budget"
proof -
  define row where "row = token_scores (index_score F) (ix_head_weights ix) (ix_head_count ix) (ix_dim ix) (ts_data query) (ts_data key) seq_len blocks"
  define d where "d = concat (map (\<lambda>b. concat (map (row b) [0..<seq_len])) [0..<batch])"
  have scores: "indexer_scores (scalar_backend F) ix hidden compressed = Inr \<lparr>ts_shape = [batch * seq_len, blocks], ts_data = d\<rparr>"
    unfolding d_def row_def by (rule indexer_scores_rows [OF assms(1-7,9-13)])
  have row_len: "length (row b t) = blocks" for b t by (simp add: row_def token_scores_def)
  have len: "length (concat (map (row b) [0..<seq_len])) = seq_len * blocks" for b by (rule length_concat_rows [OF row_len])
  have d_len: "length d = batch * seq_len * blocks" unfolding d_def mult.assoc by (rule length_concat_rows [OF len])
  have d_row: "row_of blocks (b * seq_len + t) d = row b t" if "b < batch" "t < seq_len" for b t
    unfolding row_of_row_of [OF that(2), symmetric] d_def row_of_concat [OF len that(1)] by (rule row_of_concat [OF row_len that(2)])
  have "map (\<lambda>(b, t). row_selection (row_of blocks (b * seq_len + t) d) (allowed_blocks position_offset t ratio blocks) top_k (max 1 pool) budget)
        (List.product [0..<batch] [0..<seq_len]) =
      map (\<lambda>(b, t). row_selection (row b t) (allowed_blocks position_offset t ratio blocks) top_k (max 1 pool) budget)
        (List.product [0..<batch] [0..<seq_len])"
    by (auto simp: d_row)
  then have "select_from_score_matrix (scalar_backend F) d batch seq_len blocks position_offset ratio top_k pool budget =
      select_projected_scores F (scalar_backend F) (ix_head_weights ix) (ix_head_count ix) (ix_dim ix) (ts_data query) (ts_data key)
        batch seq_len blocks position_offset ratio top_k pool budget"
    unfolding select_from_score_matrix_rows [OF d_len assms(8)] scalar_select_rows [OF assms(5-8)] if_cancel row_def [symmetric]
    by simp
  then show ?thesis using scores by simp
qed

theorem training_selects_as_inference_witness:
  "\<exists>scores. indexer_scores (scalar_backend example_ops) \<lparr>ix_head_count = 1, ix_dim = 1, ix_query = Inr, ix_key = Inr, ix_head_weights = [1]\<rparr>
      \<lparr>ts_shape = [1, 2, 1], ts_data = [1, 2]\<rparr> \<lparr>ts_shape = [1, 3, 1], ts_data = [4, 5, 6]\<rparr> = Inr scores \<and>
    select_from_score_matrix (scalar_backend example_ops) (ts_data scores) 1 2 3 2 1 1 2 4 =
    select_projected_scores example_ops (scalar_backend example_ops) [1] 1 1 [1, 2] [4, 5, 6] 1 2 3 2 1 1 2 4"
  using training_selects_as_inference [where F = example_ops and hidden = "\<lparr>ts_shape = [1, 2, 1], ts_data = [1, 2]\<rparr>" and
      compressed = "\<lparr>ts_shape = [1, 3, 1], ts_data = [4, 5, 6]\<rparr>" and
      ix = "\<lparr>ix_head_count = 1, ix_dim = 1, ix_query = Inr, ix_key = Inr, ix_head_weights = [1]\<rparr>" and
      query = "\<lparr>ts_shape = [1, 2, 1], ts_data = [1, 2]\<rparr>" and key = "\<lparr>ts_shape = [1, 3, 1], ts_data = [4, 5, 6]\<rparr>" and
      batch = 1 and seq_len = 2 and blocks = 3 and ratio = 1 and
      position_offset = 2 and top_k = 1 and pool = 2 and budget = 4]
  by auto


text \<open>A tie between candidates of two super-blocks goes to the super-block with the better best score, not to the smaller entry.\<close>

lemma tie_goes_to_better_group:
  "select_row_block_max [5, 7, 9, 7] [7, 9] 4 2 2 4 = Inr ([2, 3], [2, 3, 0, 1])"
  by code_simp

lemma tie_by_whole_rows: "top_k_indices [5, 7, 9, 7 :: f32] 2 = [2, 1]"
  by code_simp

end
