(* ===== verification/Checkpoint.thy ===== *)
theory Checkpoint
  imports Kv_Codec Model_Config Tokenizer "HOL-Library.List_Lexorder"
begin

text \<open>
  src/model/checkpoint/checkpoint.go and merge.go: checkpoint files, and averaging the parameters of several.

  A file is a magic, the length of the metadata, the metadata as JSON, and the parameters' data in the order of their
  names. Encoding and decoding the JSON text is Go's library: two arguments, of which the theorems use that what was
  encoded decodes to the same. Reading and writing whole files is I/O; their bytes are what is modelled. A parameter
  map is the list of its entries in an order in which Go may visit it; the keys are distinct. The position in a file
  stays below the length of the file, far from \<open>int\<close>'s bound; counts taken from the file wrap as Go's do.
\<close>

section \<open>Metadata\<close>

text \<open>What \<open>encoding/json\<close> decodes into \<open>any\<close>; a number is the bits of a float64.\<close>

datatype json = JNull | JBool bool | JNumber u64 | JString "byte list" | JArray "json list" | JObject "(byte list \<times> json) list"

record param_meta =
  pm_name :: "byte list"
  pm_shape :: "int list"

record meta =
  mt_step :: int
  mt_val_bpb :: "f32 option"
  mt_config :: config
  mt_user :: "byte list \<rightharpoonup> json"
  mt_loop :: "byte list \<rightharpoonup> json"
  mt_loader :: "byte list \<rightharpoonup> json"
  mt_params :: "param_meta list"

datatype ck_error = CkMarshal | CkMagic | CkMetadata | CkJson | CkParams | CkRead

text \<open>Go's strings are ordered by their bytes; \<open>sort.Strings\<close> sorts by that order.\<close>

type_synonym 'a entries = "(byte list \<times> 'a) list"

definition sorted_names :: "'a entries \<Rightarrow> byte list list" where
  "sorted_names params = sort (map fst params)"

text \<open>\<open>params[name]\<close> for a name that is there; the nil pointer that a missing name gives is dereferenced.\<close>

definition entry_of :: "'a entries \<Rightarrow> byte list \<Rightarrow> ('e, 'a) outcome" where
  "entry_of params name = (case map_of params name of None \<Rightarrow> Inl Panic | Some t \<Rightarrow> Inr t)"

section \<open>Writing\<close>

definition ck_magic :: "byte list" where
  "ck_magic = [71, 79, 78, 65, 78, 79, 0, 1]"

definition append_f32s :: "f32 list \<Rightarrow> byte list \<Rightarrow> byte list" where
  "append_f32s source destination = fold (\<lambda>value bytes. bytes @ nat_le 4 (unat value)) source destination"

definition params_of :: "tensor entries \<Rightarrow> (ck_error, param_meta list) outcome" where
  "params_of params =
     omap (\<lambda>name. obind (entry_of params name) (\<lambda>t. Inr \<lparr>pm_name = name, pm_shape = map int (ts_shape t)\<rparr>)) (sorted_names params)"

definition save_checkpoint :: "(meta \<Rightarrow> byte list option) \<Rightarrow> meta \<Rightarrow> tensor entries \<Rightarrow> (ck_error, byte list) outcome" where
  "save_checkpoint marshal m params =
     obind (params_of params) (\<lambda>metas.
     case marshal (m\<lparr>mt_params := metas\<rparr>) of
       None \<Rightarrow> Inl (Fail CkMarshal)
     | Some js \<Rightarrow>
         obind (omap (\<lambda>name. obind (entry_of params name) (\<lambda>t. Inr (append_f32s (ts_data t) []))) (sorted_names params)) (\<lambda>parts.
           Inr (ck_magic @ nat_le 4 (length js) @ js @ concat parts)))"

section \<open>Reading\<close>

text \<open>\<open>tensors.New\<close> on dimensions read from a file. The product wraps; \<open>make\<close> refuses what cannot be allocated.\<close>

definition dims_product :: "int list \<Rightarrow> int" where
  "dims_product dims = fold (\<lambda>d n. i64 (n * d)) dims 1"

definition tensor_of_dims :: "int list \<Rightarrow> ('e, tensor) outcome" where
  "tensor_of_dims dims =
     panic_if (dims = [])
    (panic_if (\<exists>d \<in> set dims. d \<le> 0)
    (panic_if (\<not> make_ok 4 (dims_product dims))
       (Inr \<lparr>ts_shape = map nat dims, ts_data = replicate (nat (dims_product dims)) 0\<rparr>)))"

text \<open>\<open>source[index*4:]\<close> panics beyond the end, \<open>Uint32\<close> on fewer than four bytes.\<close>

definition decode_f32s :: "byte list \<Rightarrow> f32 list \<Rightarrow> ('e, f32 list) outcome" where
  "decode_f32s source destination =
     omap (\<lambda>i. obind (suffix_of (i * 4) source) (\<lambda>rest. obind (read_le 4 rest) (\<lambda>n. Inr (word_of_nat n)))) [0..<length destination]"

text \<open>One parameter: the position after it and the parameters so far.\<close>

definition load_param :: "byte list \<Rightarrow> param_meta \<Rightarrow> int \<times> (byte list \<rightharpoonup> tensor) \<Rightarrow> (ck_error, int \<times> (byte list \<rightharpoonup> tensor)) outcome" where
  "load_param data p = (\<lambda>(position, params).
     let needed = i64 (dims_product (pm_shape p) * 4) in
     fail_if (i64 (position + needed) > int (length data)) CkParams
      (obind (tensor_of_dims (pm_shape p)) (\<lambda>t.
       panic_if (needed < 0)
      (obind (decode_f32s (take (nat needed) (drop (nat position) data)) (ts_data t)) (\<lambda>xs.
         Inr (position + needed, params(pm_name p \<mapsto> t\<lparr>ts_data := xs\<rparr>)))))))"

definition load_checkpoint :: "(byte list \<Rightarrow> meta option) \<Rightarrow> byte list \<Rightarrow> (ck_error, meta \<times> (byte list \<rightharpoonup> tensor)) outcome" where
  "load_checkpoint unmarshal data =
     fail_if (length data < length ck_magic + 4 \<or> take (length ck_magic) data \<noteq> ck_magic) CkMagic
      (obind (read_le 4 (drop (length ck_magic) data)) (\<lambda>meta_length.
       let position = length ck_magic + 4 in
       fail_if (position + meta_length > length data) CkMetadata
         (case unmarshal (take meta_length (drop position data)) of
            None \<Rightarrow> Inl (Fail CkJson)
          | Some m \<Rightarrow>
              obind (ofold (load_param data) (mt_params m) (int (position + meta_length), Map.empty)) (\<lambda>(_, params). Inr (m, params)))))"

text \<open>A file that a reader cannot open is the result \<open>None\<close> of reading it.\<close>

definition load_file :: "(byte list \<Rightarrow> meta option) \<Rightarrow> byte list option \<Rightarrow> (ck_error, meta \<times> (byte list \<rightharpoonup> tensor)) outcome" where
  "load_file unmarshal file = (case file of None \<Rightarrow> Inl (Fail CkRead) | Some data \<Rightarrow> load_checkpoint unmarshal data)"

definition is_dspark :: "meta \<Rightarrow> bool" where
  "is_dspark m = (mt_user m (ascii ''dspark'') = Some (JBool True))"

section \<open>Merging\<close>

datatype merge_error = MergeNone | MergeWeights | MergeZero | MergeCount nat | MergeMissing nat "byte list" | MergeShape "byte list"

definition same_dims :: "nat list \<Rightarrow> nat list \<Rightarrow> bool" where
  "same_dims left right = (length left = length right \<and> (\<forall>i < length left. left ! i = right ! i))"

definition check_parameter :: "nat \<Rightarrow> tensor entries \<Rightarrow> byte list \<times> tensor \<Rightarrow> unit \<Rightarrow> (merge_error, unit) outcome" where
  "check_parameter index candidate = (\<lambda>(name, parameter) _.
     case map_of candidate name of
       None \<Rightarrow> Inl (Fail (MergeMissing index name))
     | Some other \<Rightarrow> fail_if (\<not> same_dims (ts_shape parameter) (ts_shape other)) (MergeShape name) (Inr ()))"

definition check_model :: "tensor entries \<Rightarrow> tensor entries list \<Rightarrow> nat \<Rightarrow> unit \<Rightarrow> (merge_error, unit) outcome" where
  "check_model reference models index = (\<lambda>_.
     fail_if (length (models ! index) \<noteq> length reference) (MergeCount index)
       (ofold (check_parameter index (models ! index)) reference ()))"

text \<open>\<open>out.Data[element] += scale * source[element]\<close> for every element of \<open>out\<close>.\<close>

definition add_scaled :: "float_ops \<Rightarrow> f32 \<Rightarrow> f32 list \<Rightarrow> f32 list \<Rightarrow> ('e, f32 list) outcome" where
  "add_scaled F scale source out = omap (\<lambda>e. obind (elem_at source e) (\<lambda>x. Inr (fo_muladd F (out ! e) scale x))) [0..<length out]"

definition merge_parameter :: "float_ops \<Rightarrow> f32 list \<Rightarrow> f32 \<Rightarrow> tensor entries list \<Rightarrow> byte list \<Rightarrow> tensor \<Rightarrow> (merge_error, tensor) outcome" where
  "merge_parameter F weights wsum models name parameter =
     obind (new_tensor (ts_shape parameter)) (\<lambda>out.
     obind (ofold (\<lambda>i xs. obind (entry_of (models ! i) name) (\<lambda>source. add_scaled F (fo_div F (weights ! i) wsum) (ts_data source) xs))
              [0..<length models] (ts_data out)) (\<lambda>xs.
       Inr (out\<lparr>ts_data := xs\<rparr>)))"

definition merge_parameters :: "float_ops \<Rightarrow> tensor entries list \<Rightarrow> f32 list \<Rightarrow> (merge_error, tensor entries) outcome" where
  "merge_parameters F models weights =
     fail_if (models = []) MergeNone
      (let weights = (if weights = [] then replicate (length models) 0x3F800000 else weights) in
       fail_if (length weights \<noteq> length models) MergeWeights
        (let wsum = fold (\<lambda>w t. fo_add F t w) weights 0 in
         fail_if (f32_eq wsum 0) MergeZero
          (let reference = models ! 0 in
           obind (ofold (check_model reference models) [1..<length models] ()) (\<lambda>_.
             omap (\<lambda>(name, parameter). obind (merge_parameter F weights wsum models name parameter) (\<lambda>t. Inr (name, t))) reference))))"


section \<open>Tensors in a file\<close>

lemma append_f32s_put: "append_f32s xs bytes = bytes @ put_f32s xs"
  unfolding append_f32s_def put_f32s_def by (induction xs arbitrary: bytes) simp_all

lemma decode_put_f32s:
  assumes "length destination = length xs"
  shows "decode_f32s (put_f32s xs) destination = Inr xs"
proof -
  have "obind (suffix_of (i * 4) (put_f32s xs)) (\<lambda>rest. obind (read_le 4 rest) (\<lambda>n. Inr (word_of_nat n))) =
      (Inr (xs ! i) :: ('a, f32) outcome)" if i: "i < length xs" for i
  proof -
    have "put_f32s xs = put_f32s (take i xs) @ nat_le 4 (unat (xs ! i)) @ put_f32s (drop (Suc i) xs)"
      using id_take_nth_drop [OF i] by (metis put_f32s_def concat_append list.simps(9) map_append concat.simps(2))
    then have "drop (i * 4) (put_f32s xs) = nat_le 4 (unat (xs ! i)) @ put_f32s (drop (Suc i) xs)"
      using i by simp
    moreover have "unat (xs ! i) < 256 ^ 4" using unsigned_less [of "xs ! i", where 'a = nat] by simp
    ultimately show ?thesis using i by (simp add: le_nat_nat_le_id)
  qed
  then have "decode_f32s (put_f32s xs) destination = Inr (map ((!) xs) [0..<length xs])"
    unfolding decode_f32s_def assms by (intro omap_map) simp
  then show ?thesis by (simp add: map_nth)
qed

definition tensor_fits :: "tensor \<Rightarrow> bool" where
  "tensor_fits t \<longleftrightarrow> ts_shape t \<noteq> [] \<and> 0 \<notin> set (ts_shape t) \<and> length (ts_data t) = prod_list (ts_shape t) \<and> 4 * length (ts_data t) \<le> 2 ^ 48"

lemma dims_product_eq:
  assumes "0 \<notin> set shape" "prod_list shape < 2 ^ 63"
  shows "dims_product (map int shape) = int (prod_list shape)"
proof -
  have "fold (\<lambda>d n. i64 (n * d)) (map int ds) (int k) = int (k * prod_list ds)" if "0 \<notin> set ds" "k * prod_list ds < 2 ^ 63" for ds k
    using that
  proof (induction ds arbitrary: k)
    case (Cons d ds)
    have "0 < prod_list ds" using Cons.prems(1) by (simp add: prod_list_zero_iff neq0_conv [symmetric] del: neq0_conv)
    then have "k * d \<le> k * prod_list (d # ds)" by simp
    then have "k * d < 2 ^ 63" using Cons.prems(2) by linarith
    then have "i64 (int k * int d) = int (k * d)" by (subst i64_id) (simp_all flip: of_nat_mult)
    then show ?case using Cons.IH [of "k * d"] Cons.prems by (simp add: mult.assoc del: of_nat_mult)
  qed simp
  from this [of shape 1] assms show ?thesis by (simp add: dims_product_def)
qed

lemma tensor_of_dims_fits:
  assumes "tensor_fits t"
  shows "dims_product (map int (ts_shape t)) = int (length (ts_data t))"
    "tensor_of_dims (map int (ts_shape t)) = Inr \<lparr>ts_shape = ts_shape t, ts_data = replicate (length (ts_data t)) 0\<rparr>"
proof -
  show p: "dims_product (map int (ts_shape t)) = int (length (ts_data t))"
    using assms dims_product_eq [of "ts_shape t"] by (simp add: tensor_fits_def)
  show "tensor_of_dims (map int (ts_shape t)) = Inr \<lparr>ts_shape = ts_shape t, ts_data = replicate (length (ts_data t)) 0\<rparr>"
    using assms by (auto simp: tensor_of_dims_def p tensor_fits_def make_ok_def comp_def gr0_conv_Suc guard_eq_Inr)
qed

text \<open>A parameter that the data holds at the position, and one that the data ends before or in.\<close>

definition meta_of :: "byte list \<times> tensor \<Rightarrow> param_meta" where
  "meta_of = (\<lambda>(name, t). \<lparr>pm_name = name, pm_shape = map int (ts_shape t)\<rparr>)"

definition entry_bytes :: "byte list \<times> tensor \<Rightarrow> byte list" where
  "entry_bytes = (\<lambda>(name, t). put_f32s (ts_data t))"

lemma load_param_ok:
  assumes "tensor_fits t" "data = pre @ put_f32s (ts_data t) @ rest" "length data < 2 ^ 63"
  shows "load_param data (meta_of (name, t)) (int (length pre), params) =
    Inr (int (length (pre @ put_f32s (ts_data t))), params(name \<mapsto> t))"
proof -
  let ?n = "length (ts_data t)"
  have needed: "i64 (dims_product (map int (ts_shape t)) * 4) = int (4 * ?n)"
    using assms(1) by (subst i64_id) (simp_all add: tensor_of_dims_fits tensor_fits_def)
  have len: "length pre + 4 * ?n \<le> length data" using assms(2) by simp
  then have fits: "i64 (int (length pre) + int (4 * ?n)) = int (length pre + 4 * ?n)" "length pre + 4 * ?n \<le> length data"
    using assms(3) by (simp_all add: i64_id)
  have source: "take (nat (int (4 * ?n))) (drop (nat (int (length pre))) data) = put_f32s (ts_data t)"
    using assms(2) by (simp add: mult.commute)
  have "decode_f32s (put_f32s (ts_data t)) (replicate ?n 0) = (Inr (ts_data t) :: (ck_error, f32 list) outcome)"
    by (rule decode_put_f32s) simp
  moreover have eta: "\<lparr>ts_shape = ts_shape t, ts_data = ts_data t\<rparr> = t" by simp
  ultimately show ?thesis
    unfolding load_param_def meta_of_def prod.case param_meta.simps Let_def needed fits(1) tensor_of_dims_fits(2) [OF assms(1)] source obind_simps
    using fits(2) by (simp add: mult.commute eta)
qed

lemma load_param_short:
  assumes "tensor_fits t" "n < pos + 4 * length (ts_data t)" "pos + 4 * length (ts_data t) < 2 ^ 63"
  shows "load_param (take n data) (meta_of (name, t)) (int pos, params) = Inl (Fail CkParams)"
proof -
  have "i64 (dims_product (map int (ts_shape t)) * 4) = int (4 * length (ts_data t))"
    using assms(1) by (subst i64_id) (simp_all add: tensor_of_dims_fits tensor_fits_def)
  moreover have "i64 (int pos + int (4 * length (ts_data t))) = int (pos + 4 * length (ts_data t))"
    using assms(3) by (subst i64_id) simp_all
  moreover have "int (length (take n data)) < int (pos + 4 * length (ts_data t))" using assms(2) by simp
  ultimately show ?thesis
    by (simp only: load_param_def meta_of_def prod.case param_meta.simps Let_def guard_simps simp_thms)
qed

lemma load_params_ok:
  assumes "\<forall>c \<in> set cs. tensor_fits (snd c)" "data = pre @ concat (map entry_bytes cs) @ rest" "length data < 2 ^ 63"
  shows "ofold (load_param data) (map meta_of cs) (int (length pre), params) =
    Inr (int (length (pre @ concat (map entry_bytes cs))), fold (\<lambda>c m. m(fst c \<mapsto> snd c)) cs params)"
  using assms(1,2)
proof (induction cs arbitrary: pre params)
  case (Cons c cs)
  obtain name t where c: "c = (name, t)" by (cases c)
  have "load_param data (meta_of c) (int (length pre), params) = Inr (int (length (pre @ entry_bytes c)), params(fst c \<mapsto> snd c))"
    using load_param_ok [of t data pre "concat (map entry_bytes cs) @ rest" name params] Cons.prems assms(3) by (simp add: c entry_bytes_def)
  moreover have "ofold (load_param data) (map meta_of cs) (int (length (pre @ entry_bytes c)), params(fst c \<mapsto> snd c)) =
      Inr (int (length ((pre @ entry_bytes c) @ concat (map entry_bytes cs))), fold (\<lambda>c m. m(fst c \<mapsto> snd c)) cs (params(fst c \<mapsto> snd c)))"
    using Cons.prems by (intro Cons.IH) simp_all
  ultimately show ?case by (simp del: fun_upd_apply)
qed simp

lemma load_params_short:
  assumes "\<forall>c \<in> set cs. tensor_fits (snd c)" "data = pre @ concat (map entry_bytes cs)" "length data < 2 ^ 63"
    "length pre \<le> n" "n < length data"
  shows "ofold (load_param (take n data)) (map meta_of cs) (int (length pre), params) = Inl (Fail CkParams)"
  using assms(1,2,4)
proof (induction cs arbitrary: pre params)
  case Nil
  then show ?case using assms(5) by simp
next
  case (Cons c cs)
  obtain name t where c: "c = (name, t)" by (cases c)
  have len: "length (entry_bytes c) = 4 * length (ts_data t)" by (simp add: c entry_bytes_def)
  show ?case
  proof (cases "n < length pre + length (entry_bytes c)")
    case True
    moreover have "length pre + length (entry_bytes c) < 2 ^ 63" using Cons.prems(2) assms(3) by simp
    ultimately show ?thesis
      using load_param_short [of t n "length pre" data name params] Cons.prems(1) len by (simp add: c)
  next
    case False
    have fits: "\<forall>c \<in> set cs. tensor_fits (snd c)" "tensor_fits t" using Cons.prems(1) by (simp_all add: c)
    have less: "length (take n data) < 2 ^ 63" using assms(3) by simp
    have "take n data = pre @ put_f32s (ts_data t) @ take (n - length (pre @ entry_bytes c)) (concat (map entry_bytes cs))"
      using False Cons.prems(2) by (simp add: c entry_bytes_def)
    then have "load_param (take n data) (meta_of c) (int (length pre), params) = Inr (int (length (pre @ entry_bytes c)), params(name \<mapsto> t))"
      using load_param_ok [OF fits(2) _ less, of pre "take (n - length (pre @ entry_bytes c)) (concat (map entry_bytes cs))" name params]
      by (simp only: c entry_bytes_def prod.case)
    moreover have "ofold (load_param (take n data)) (map meta_of cs) (int (length (pre @ entry_bytes c)), params(name \<mapsto> t)) = Inl (Fail CkParams)"
      using False Cons.prems by (intro Cons.IH [OF fits(1)]) simp_all
    ultimately show ?thesis by simp
  qed
qed


section \<open>Round trip\<close>

definition params_fit :: "tensor entries \<Rightarrow> bool" where
  "params_fit params \<longleftrightarrow> distinct (map fst params) \<and> (\<forall>c \<in> set params. tensor_fits (snd c))"

text \<open>The entries in the order of their names.\<close>

definition sorted_entries :: "'a entries \<Rightarrow> 'a entries" where
  "sorted_entries params = map (\<lambda>name. (name, the (map_of params name))) (sorted_names params)"

lemma entry_of_name:
  "name \<in> set (sorted_names params) \<Longrightarrow> entry_of params name = Inr (the (map_of params name))"
  by (force simp: entry_of_def sorted_names_def map_of_eq_None_iff split: option.splits)

lemma sorted_entries_fit:
  assumes "params_fit params"
  shows "\<forall>c \<in> set (sorted_entries params). tensor_fits (snd c)"
proof -
  have "tensor_fits (the (map_of params name))" if "name \<in> set (sorted_names params)" for name
  proof -
    obtain t where "(name, t) \<in> set params" using \<open>name \<in> _\<close> by (auto simp: sorted_names_def)
    moreover from this have "map_of params name = Some t" using assms by (simp add: params_fit_def)
    ultimately show ?thesis using assms by (auto simp: params_fit_def)
  qed
  then show ?thesis by (auto simp: sorted_entries_def)
qed

lemma fold_entries: "fold (\<lambda>c m. m(fst c \<mapsto> snd c)) cs m = m ++ map_of (rev cs)"
  by (induction cs arbitrary: m) (simp_all add: map_add_def fun_eq_iff split: option.split)

lemma map_of_sorted_entries:
  assumes "distinct (map fst params)"
  shows "map_of (rev (sorted_entries params)) = map_of params"
proof -
  have "map_of (rev (sorted_entries params)) name = map_of params name" for name
  proof -
    show ?thesis
    proof (cases "name \<in> fst ` set params")
      case True
      then obtain t where "map_of params name = Some t" by (cases "map_of params name") (auto simp: map_of_eq_None_iff)
      with True show ?thesis
        by (simp add: sorted_entries_def rev_map map_of_map_restrict restrict_map_def sorted_names_def)
    next
      case False
      then have "map_of params name = None" by (simp add: map_of_eq_None_iff)
      with False show ?thesis
        by (simp add: sorted_entries_def rev_map map_of_map_restrict restrict_map_def sorted_names_def)
    qed
  qed
  then show ?thesis by (rule ext)
qed

lemma params_of_sorted: "params_of params = Inr (map meta_of (sorted_entries params))"
proof -
  have "params_of params = Inr (map (\<lambda>name. meta_of (name, the (map_of params name))) (sorted_names params))"
    unfolding params_of_def by (rule omap_map) (simp add: entry_of_name meta_of_def)
  then show ?thesis by (simp add: sorted_entries_def comp_def)
qed

lemma save_checkpoint_bytes:
  "save_checkpoint marshal m params =
    (case marshal (m\<lparr>mt_params := map meta_of (sorted_entries params)\<rparr>) of
       None \<Rightarrow> Inl (Fail CkMarshal)
     | Some js \<Rightarrow> Inr (ck_magic @ nat_le 4 (length js) @ js @ concat (map entry_bytes (sorted_entries params))))"
proof -
  have "omap (\<lambda>name. obind (entry_of params name) (\<lambda>t. Inr (append_f32s (ts_data t) []))) (sorted_names params) =
      (Inr (map (\<lambda>name. entry_bytes (name, the (map_of params name))) (sorted_names params)) :: (ck_error, byte list list) outcome)"
    by (rule omap_map) (simp add: entry_of_name entry_bytes_def append_f32s_put)
  then have "omap (\<lambda>name. obind (entry_of params name) (\<lambda>t. Inr (append_f32s (ts_data t) []))) (sorted_names params) =
      (Inr (map entry_bytes (sorted_entries params)) :: (ck_error, byte list list) outcome)"
    by (simp add: sorted_entries_def comp_def)
  then show ?thesis by (simp add: save_checkpoint_def params_of_sorted split: option.split)
qed

text \<open>The header of a file, whole or cut off behind the metadata.\<close>

lemma load_checkpoint_header:
  assumes "length js < 2 ^ 32" "unmarshal js = Some m"
  shows "load_checkpoint unmarshal (ck_magic @ nat_le 4 (length js) @ js @ rest) =
    obind (ofold (load_param (ck_magic @ nat_le 4 (length js) @ js @ rest)) (mt_params m)
      (int (length (ck_magic @ nat_le 4 (length js) @ js)), Map.empty)) (\<lambda>(_, params). Inr (m, params))"
proof -
  have "take 4 (nat_le 4 (length js) @ js @ rest) = nat_le 4 (length js)" "le_nat (nat_le 4 (length js)) = length js"
    using assms(1) by (simp_all add: le_nat_nat_le_id)
  moreover have "drop (length ck_magic + 4) (ck_magic @ nat_le 4 (length js) @ js @ rest) = js @ rest" by simp
  ultimately show ?thesis
    using assms(2) by (simp add: load_checkpoint_def Let_def add.assoc)
qed

lemma load_saved:
  assumes "params_fit params" "save_checkpoint marshal m params = Inr data" "length data < 2 ^ 63"
    "\<And>m js. marshal m = Some js \<Longrightarrow> unmarshal js = Some m \<and> length js < 2 ^ 32"
  shows "load_checkpoint unmarshal data = Inr (m\<lparr>mt_params := map meta_of (sorted_entries params)\<rparr>, map_of params)"
proof -
  let ?cs = "sorted_entries params"
  obtain js where js: "marshal (m\<lparr>mt_params := map meta_of ?cs\<rparr>) = Some js"
    "data = (ck_magic @ nat_le 4 (length js) @ js) @ concat (map entry_bytes ?cs) @ []"
    using assms(2) by (auto simp: save_checkpoint_bytes split: option.splits)
  have "ofold (load_param data) (map meta_of ?cs) (int (length (ck_magic @ nat_le 4 (length js) @ js)), Map.empty) =
      Inr (int (length ((ck_magic @ nat_le 4 (length js) @ js) @ concat (map entry_bytes ?cs))), map_of params)"
    unfolding load_params_ok [OF sorted_entries_fit [OF assms(1)] js(2) assms(3)] fold_entries
    using map_of_sorted_entries [of params] assms(1) by (simp add: params_fit_def)
  then show ?thesis
    using load_checkpoint_header [of js unmarshal _ "concat (map entry_bytes ?cs)"] assms(4) [OF js(1)] js(2) by simp
qed

text \<open>
  C16. Loading what \<open>Save\<close> wrote gives back the metadata, with the parameters' names and shapes filled in, and every
  parameter bit for bit.
\<close>
theorem save_load_roundtrip:
  assumes "params_fit params" "save_checkpoint marshal m params = Inr data" "length data < 2 ^ 63"
    "\<And>m js. marshal m = Some js \<Longrightarrow> unmarshal js = Some m \<and> length js < 2 ^ 32"
  shows "load_checkpoint unmarshal data = Inr (m\<lparr>mt_params := map meta_of (sorted_entries params)\<rparr>, map_of params)"
  using assms by (rule load_saved)

text \<open>
  C17. A checkpoint file that was cut off anywhere is refused with an error: \<open>Load\<close> neither panics nor returns some of
  the parameters.
\<close>
theorem truncated_checkpoint_refused:
  assumes "params_fit params" "save_checkpoint marshal m params = Inr data" "length data < 2 ^ 63"
    "\<And>m js. marshal m = Some js \<Longrightarrow> unmarshal js = Some m \<and> length js < 2 ^ 32" "n < length data"
  shows "\<exists>e. load_checkpoint unmarshal (take n data) = Inl (Fail e)"
proof -
  let ?cs = "sorted_entries params"
  obtain js where js: "marshal (m\<lparr>mt_params := map meta_of ?cs\<rparr>) = Some js"
    "data = (ck_magic @ nat_le 4 (length js) @ js) @ concat (map entry_bytes ?cs)"
    using assms(2) by (auto simp: save_checkpoint_bytes split: option.splits)
  note law = assms(4) [OF js(1)]
  have magic: "length ck_magic = 8" by (simp add: ck_magic_def)
  consider "n < 12" | "12 \<le> n" "n < 12 + length js" | "12 + length js \<le> n" by linarith
  then show ?thesis
  proof cases
    case 1
    then show ?thesis by (simp add: load_checkpoint_def magic min_less_iff_disj)
  next
    case 2
    then have "take n data = ck_magic @ nat_le 4 (length js) @ take (n - 12) js" by (simp add: js(2) magic)
    moreover have "le_nat (nat_le 4 (length js)) = length js" using law by (simp add: le_nat_nat_le_id)
    ultimately show ?thesis using 2 by (simp add: load_checkpoint_def magic)
  next
    case 3
    then have cut: "take n data = ck_magic @ nat_le 4 (length js) @ js @ take (n - 12 - length js) (concat (map entry_bytes ?cs))"
      by (simp add: js(2) magic)
    have "ofold (load_param (take n data)) (map meta_of ?cs) (int (length (ck_magic @ nat_le 4 (length js) @ js)), Map.empty) = Inl (Fail CkParams)"
      using 3 by (intro load_params_short [OF sorted_entries_fit [OF assms(1)] js(2) assms(3) _ assms(5)]) (simp add: magic)
    then show ?thesis using load_checkpoint_header [of js unmarshal] law unfolding cut by simp
  qed
qed


text \<open>A codec that knows one metadata record.\<close>

definition example_params :: "tensor entries" where
  "example_params = [([98], \<lparr>ts_shape = [2], ts_data = [5, 6]\<rparr>), ([97], \<lparr>ts_shape = [1, 1], ts_data = [7]\<rparr>)]"

definition example_meta :: meta where
  "example_meta = \<lparr>mt_step = 3, mt_val_bpb = None, mt_config = zero_config, mt_user = Map.empty, mt_loop = Map.empty, mt_loader = Map.empty,
     mt_params = [\<lparr>pm_name = [97], pm_shape = [1, 1]\<rparr>, \<lparr>pm_name = [98], pm_shape = [2]\<rparr>]\<rparr>"

definition example_marshal :: "meta \<Rightarrow> byte list option" where
  "example_marshal m = (if m = example_meta then Some [123, 125] else None)"

definition example_unmarshal :: "byte list \<Rightarrow> meta option" where
  "example_unmarshal js = (if js = [123, 125] then Some example_meta else None)"

lemma example_codec: "example_marshal m = Some js \<Longrightarrow> example_unmarshal js = Some m \<and> length js < 2 ^ 32"
  by (simp add: example_marshal_def example_unmarshal_def split: if_splits)

lemma example_saved:
  "params_fit example_params"
  "map meta_of (sorted_entries example_params) = mt_params example_meta"
  "save_checkpoint example_marshal (example_meta\<lparr>mt_params := []\<rparr>) example_params =
    Inr (ck_magic @ [2, 0, 0, 0, 123, 125, 7, 0, 0, 0, 5, 0, 0, 0, 6, 0, 0, 0])"
proof -
  show "params_fit example_params" by (simp add: example_params_def params_fit_def tensor_fits_def)
  have sorted: "sorted_entries example_params = rev example_params" by code_simp
  then show metas: "map meta_of (sorted_entries example_params) = mt_params example_meta"
    by (simp add: example_params_def meta_of_def example_meta_def)
  have "example_meta\<lparr>mt_params := mt_params example_meta\<rparr> = example_meta" by simp
  moreover have "concat (map entry_bytes (sorted_entries example_params)) = [7, 0, 0, 0, 5, 0, 0, 0, 6, 0, 0, 0]"
    "nat_le 4 2 = [2, 0, 0, 0]"
    unfolding sorted by code_simp+
  ultimately show "save_checkpoint example_marshal (example_meta\<lparr>mt_params := []\<rparr>) example_params =
      Inr (ck_magic @ [2, 0, 0, 0, 123, 125, 7, 0, 0, 0, 5, 0, 0, 0, 6, 0, 0, 0])"
    by (simp add: save_checkpoint_bytes metas example_marshal_def numeral_2_eq_2)
qed

theorem save_load_roundtrip_witness:
  "load_checkpoint example_unmarshal (ck_magic @ [2, 0, 0, 0, 123, 125, 7, 0, 0, 0, 5, 0, 0, 0, 6, 0, 0, 0]) =
    Inr (example_meta, map_of example_params)"
  using save_load_roundtrip [OF example_saved(1,3) _ example_codec] by (simp add: example_saved(2) ck_magic_def)

theorem truncated_checkpoint_refused_witness:
  "\<exists>e. load_checkpoint example_unmarshal (take 20 (ck_magic @ [2, 0, 0, 0, 123, 125, 7, 0, 0, 0, 5, 0, 0, 0, 6, 0, 0, 0])) = Inl (Fail e)"
  using truncated_checkpoint_refused [OF example_saved(1,3) _ example_codec, of 20] by (simp add: ck_magic_def)

section \<open>Merging parameters\<close>

text \<open>The parameters a merge takes from the models, when they fit.\<close>

definition merged_data :: "float_ops \<Rightarrow> f32 list \<Rightarrow> f32 \<Rightarrow> tensor entries list \<Rightarrow> byte list \<Rightarrow> nat \<Rightarrow> f32" where
  "merged_data F weights wsum models name e =
     fold (\<lambda>i acc. fo_muladd F acc (fo_div F (weights ! i) wsum) (ts_data (the (map_of (models ! i) name)) ! e)) [0..<length models] 0"

text \<open>The same parameters with the same shapes.\<close>

definition shapes_of :: "tensor entries \<Rightarrow> byte list \<rightharpoonup> nat list" where
  "shapes_of model = (\<lambda>name. map_option ts_shape (map_of model name))"

lemma same_dims_eq: "same_dims left right \<longleftrightarrow> left = right"
  by (auto simp: same_dims_def intro: nth_equalityI)

lemma ofold_checks:
  assumes "\<And>x. x \<in> set xs \<Longrightarrow> f x () = Inr () \<or> (\<exists>e. f x () = Inl (Fail e))"
  shows "ofold f xs () = Inr () \<longleftrightarrow> (\<forall>x \<in> set xs. f x () = Inr ())"
    "ofold f xs () = Inr () \<or> (\<exists>e. ofold f xs () = Inl (Fail e))"
  using assms by (induction xs) (force split: option.splits)+

lemma card_dom_params: "params_fit params \<Longrightarrow> card (dom (map_of params)) = length params"
  unfolding params_fit_def dom_map_of_conv_image_fst by (metis distinct_card length_map list.set_map)

lemma check_model_shapes:
  assumes "params_fit reference" "params_fit (models ! i)"
  shows "check_model reference models i () = Inr () \<longleftrightarrow> shapes_of (models ! i) = shapes_of reference"
    "check_model reference models i () = Inr () \<or> (\<exists>e. check_model reference models i () = Inl (Fail e))"
proof -
  define model where "model = models ! i"
  define ok where "ok c = (check_parameter i model c () = Inr ())" for c
  have one: "check_parameter i model c () = Inr () \<or> (\<exists>e. check_parameter i model c () = Inl (Fail e))" for c
    by (auto simp: check_parameter_def fail_if_def split: prod.split option.split)
  note checks = ofold_checks [of reference "check_parameter i model", OF one]
  show "check_model reference models i () = Inr () \<or> (\<exists>e. check_model reference models i () = Inl (Fail e))"
    using checks(2) by (auto simp: check_model_def model_def fail_if_def)
  have ok_iff: "ok c \<longleftrightarrow> shapes_of model (fst c) = Some (ts_shape (snd c))" for c
    by (auto simp: ok_def check_parameter_def shapes_of_def same_dims_eq fail_if_def split: prod.splits option.splits)
  have entry: "shapes_of reference (fst c) = Some (ts_shape (snd c))" if "c \<in> set reference" for c
  proof -
    have "map_of reference (fst c) = Some (snd c)" using that assms(1) by (intro map_of_is_SomeI) (simp_all add: params_fit_def)
    then show ?thesis by (simp add: shapes_of_def)
  qed
  have dom: "dom (shapes_of m) = dom (map_of m)" for m by (auto simp: shapes_of_def)
  have "length model = length reference \<and> (\<forall>c \<in> set reference. ok c) \<longleftrightarrow> shapes_of model = shapes_of reference"
  proof
    assume l: "length model = length reference \<and> (\<forall>c \<in> set reference. ok c)"
    have sub: "shapes_of model name = shapes_of reference name" if name: "name \<in> dom (shapes_of reference)" for name
    proof -
      obtain t where "(name, t) \<in> set reference" using name by (auto simp: shapes_of_def dest: map_of_SomeD)
      with l entry [of "(name, t)"] show ?thesis by (force simp: ok_iff)
    qed
    then have "dom (shapes_of reference) \<subseteq> dom (shapes_of model)" by (metis domIff subsetI)
    moreover have "card (dom (shapes_of reference)) = card (dom (shapes_of model))"
      using l card_dom_params assms by (simp add: dom model_def)
    ultimately have "dom (shapes_of reference) = dom (shapes_of model)"
      by (intro card_subset_eq) (simp_all add: dom finite_dom_map_of)
    with sub show "shapes_of model = shapes_of reference" by (metis domIff ext)
  next
    assume eq: "shapes_of model = shapes_of reference"
    then have "dom (map_of model) = dom (map_of reference)" using dom by metis
    then have "length model = length reference" using card_dom_params assms by (metis model_def)
    then show "length model = length reference \<and> (\<forall>c \<in> set reference. ok c)" using eq entry by (simp add: ok_iff)
  qed
  then show "check_model reference models i () = Inr () \<longleftrightarrow> shapes_of (models ! i) = shapes_of reference"
    using checks(1) by (auto simp: check_model_def model_def ok_def fail_if_def)
qed

lemma add_scaled_ok:
  assumes "length source = length out"
  shows "add_scaled F scale source out = Inr (map (\<lambda>e. fo_muladd F (out ! e) scale (source ! e)) [0..<length out])"
  unfolding add_scaled_def using assms by (intro omap_map) simp

lemma merge_parameter_ok:
  assumes "tensor_fits parameter" "\<And>i. i < length models \<Longrightarrow> \<exists>t. map_of (models ! i) name = Some t \<and> length (ts_data t) = length (ts_data parameter)"
  shows "merge_parameter F weights wsum models name parameter =
    Inr \<lparr>ts_shape = ts_shape parameter, ts_data = map (merged_data F weights wsum models name) [0..<length (ts_data parameter)]\<rparr>"
proof -
  define n where "n = length (ts_data parameter)"
  define source where "source i = ts_data (the (map_of (models ! i) name))" for i
  have sum_up: "ofold (\<lambda>i xs. obind (entry_of (models ! i) name) (\<lambda>source. add_scaled F (fo_div F (weights ! i) wsum) (ts_data source) xs)) is xs =
      (Inr (map (\<lambda>e. fold (\<lambda>i acc. fo_muladd F acc (fo_div F (weights ! i) wsum) (source i ! e)) is (xs ! e)) [0..<n]) :: (merge_error, f32 list) outcome)"
    if "set is \<subseteq> {..<length models}" "length xs = n" for "is" xs
    using that
  proof (induction "is" arbitrary: xs)
    case Nil
    then show ?case using map_nth [of xs] by simp
  next
    case (Cons i js)
    then obtain t where "map_of (models ! i) name = Some t" "length (ts_data t) = n" using assms(2) [of i] by (auto simp: n_def)
    then have "obind (entry_of (models ! i) name) (\<lambda>source. add_scaled F (fo_div F (weights ! i) wsum) (ts_data source) xs) =
        (Inr (map (\<lambda>e. fo_muladd F (xs ! e) (fo_div F (weights ! i) wsum) (source i ! e)) [0..<n]) :: (merge_error, f32 list) outcome)"
      using Cons.prems(2) by (simp add: entry_of_def add_scaled_ok source_def)
    with Cons show ?case by simp
  qed
  have new: "new_tensor (ts_shape parameter) = (Inr \<lparr>ts_shape = ts_shape parameter, ts_data = replicate n 0\<rparr> :: (merge_error, tensor) outcome)"
    using assms(1) by (simp add: new_tensor_def tensor_fits_def n_def)
  have "map (\<lambda>e. fold (\<lambda>i acc. fo_muladd F acc (fo_div F (weights ! i) wsum) (source i ! e)) [0..<length models] (replicate n 0 ! e)) [0..<n] =
      map (merged_data F weights wsum models name) [0..<n]"
    by (simp add: merged_data_def source_def)
  moreover have "set [0..<length models] \<subseteq> {..<length models}" by auto
  ultimately show ?thesis
    unfolding merge_parameter_def new obind_simps tensor.simps using sum_up [of "[0..<length models]" "replicate n 0"] by (simp add: n_def)
qed

text \<open>
  C11. \<open>MergeParameters\<close> accepts exactly the models that have the same parameters with the same shapes, and refuses the
  others with an error. What it returns has those parameters and shapes, and each element is the sum over the models of
  the element, scaled by the model's share of the weights.
\<close>
theorem merge_parameters_iff:
  fixes F :: float_ops and models :: "tensor entries list" and weights :: "f32 list"
  defines "ws \<equiv> (if weights = [] then replicate (length models) 0x3F800000 else weights)"
  defines "wsum \<equiv> fold (\<lambda>w t. fo_add F t w) ws 0"
  assumes "models \<noteq> []" "\<forall>m \<in> set models. params_fit m" "length ws = length models" "\<not> f32_eq wsum 0"
  shows "if \<forall>m \<in> set models. shapes_of m = shapes_of (hd models) then
      merge_parameters F models weights =
        Inr (map (\<lambda>(name, t). (name, \<lparr>ts_shape = ts_shape t, ts_data = map (merged_data F ws wsum models name) [0..<length (ts_data t)]\<rparr>)) (hd models))
    else \<exists>e. merge_parameters F models weights = Inl (Fail e)"
proof -
  define reference where "reference = models ! 0"
  define merged where "merged = (omap (\<lambda>(name, t). obind (merge_parameter F ws wsum models name t) (\<lambda>t. Inr (name, t))) reference :: (merge_error, tensor entries) outcome)"
  have hd: "hd models = reference" using assms(3) by (simp add: reference_def hd_conv_nth)
  have fit: "params_fit (models ! i)" if "i < length models" for i using assms(4) that by simp
  have ref: "params_fit reference" using fit [of 0] assms(3) by (simp add: reference_def)
  have run: "merge_parameters F models weights = obind (ofold (check_model reference models) [1..<length models] ()) (\<lambda>_. merged)"
    using assms(3,5,6) by (simp add: merge_parameters_def ws_def [symmetric] wsum_def [symmetric] reference_def [symmetric] merged_def Let_def)
  have checks: "check_model reference models i () = Inr () \<longleftrightarrow> shapes_of (models ! i) = shapes_of reference"
    "check_model reference models i () = Inr () \<or> (\<exists>e. check_model reference models i () = Inl (Fail e))" if "i \<in> set [1..<length models]" for i
    using check_model_shapes [OF ref fit] that by simp_all
  note all_checks = ofold_checks [of "[1..<length models]" "check_model reference models", OF checks(2)]
  have same: "(\<forall>m \<in> set models. shapes_of m = shapes_of reference) \<longleftrightarrow> (\<forall>i \<in> set [1..<length models]. check_model reference models i () = Inr ())"
  proof
    assume "\<forall>i \<in> set [1..<length models]. check_model reference models i () = Inr ()"
    then have "shapes_of (models ! i) = shapes_of reference" if "i < length models" for i
      using that checks(1) [of i] by (cases "i = 0") (auto simp: reference_def)
    then show "\<forall>m \<in> set models. shapes_of m = shapes_of reference" by (auto simp: in_set_conv_nth)
  qed (use checks(1) in auto)
  show ?thesis
  proof (cases "\<forall>m \<in> set models. shapes_of m = shapes_of reference")
    case True
    have "(case c of (name, t) \<Rightarrow> obind (merge_parameter F ws wsum models name t) (\<lambda>t. Inr (name, t))) =
        (Inr (case c of (name, t) \<Rightarrow> (name, \<lparr>ts_shape = ts_shape t, ts_data = map (merged_data F ws wsum models name) [0..<length (ts_data t)]\<rparr>)) ::
          (merge_error, byte list \<times> tensor) outcome)" if c: "c \<in> set reference" for c
    proof -
      obtain name t where nt: "c = (name, t)" by (cases c)
      have t: "tensor_fits t" "map_of reference name = Some t" using c ref by (auto simp: nt params_fit_def)
      have "\<exists>u. map_of (models ! i) name = Some u \<and> length (ts_data u) = length (ts_data t)" if i: "i < length models" for i
      proof -
        have "shapes_of (models ! i) name = Some (ts_shape t)" using True i t(2) by (simp add: shapes_of_def)
        then obtain u where u: "map_of (models ! i) name = Some u" "ts_shape u = ts_shape t" by (auto simp: shapes_of_def)
        then have "tensor_fits u" using fit [OF i] by (force simp: params_fit_def dest: map_of_SomeD)
        then show ?thesis using u t(1) by (simp add: tensor_fits_def)
      qed
      from merge_parameter_ok [OF t(1) this] show ?thesis by (simp add: nt)
    qed
    then have "merged = Inr (map (\<lambda>(name, t). (name, \<lparr>ts_shape = ts_shape t, ts_data = map (merged_data F ws wsum models name) [0..<length (ts_data t)]\<rparr>)) reference)"
      unfolding merged_def by (rule omap_map)
    moreover have "ofold (check_model reference models) [1..<length models] () = Inr ()" using True same all_checks(1) by blast
    ultimately show ?thesis using True by (simp add: run hd)
  next
    case False
    then obtain e where "ofold (check_model reference models) [1..<length models] () = Inl (Fail e)" using same all_checks by blast
    then show ?thesis using False by (simp add: run hd)
  qed
qed

theorem merge_parameters_iff_witness:
  "merge_parameters example_ops [[([97], \<lparr>ts_shape = [2], ts_data = [8, 6]\<rparr>)], [([97], \<lparr>ts_shape = [2], ts_data = [4, 3]\<rparr>)]] [1, 0] =
    Inr [([97], \<lparr>ts_shape = [2], ts_data = [8, 6]\<rparr>)]"
proof -
  let ?models = "[[([97], \<lparr>ts_shape = [2], ts_data = [8, 6]\<rparr>)], [([97], \<lparr>ts_shape = [2], ts_data = [4, 3]\<rparr>)]] :: tensor entries list"
  have fit: "\<forall>m \<in> set ?models. params_fit m" by (simp add: params_fit_def tensor_fits_def)
  have shapes: "\<forall>m \<in> set ?models. shapes_of m = shapes_of (hd ?models)" by (simp add: shapes_of_def fun_eq_iff)
  have weights: "fold (\<lambda>w t. fo_add example_ops t w) [1, 0] 0 = 1" "\<not> f32_eq 1 0"
    and data: "map (merged_data example_ops [1, 0] 1 ?models [97]) [0..<2] = [8, 6]"
    by code_simp+
  have ws: "(if [1, 0 :: f32] = [] then replicate (length ?models) 0x3F800000 else [1, 0]) = [1, 0]" by simp
  have "merge_parameters example_ops ?models [1, 0] =
      Inr (map (\<lambda>(name, t). (name, \<lparr>ts_shape = ts_shape t, ts_data = map (merged_data example_ops [1, 0] 1 ?models name) [0..<length (ts_data t)]\<rparr>)) (hd ?models))"
    by (rule merge_parameters_iff [where F = example_ops and models = ?models and weights = "[1, 0]", unfolded ws weights(1) if_P [OF shapes]])
      (use fit weights(2) in simp_all)
  also have "\<dots> = Inr [([97], \<lparr>ts_shape = [2], ts_data = map (merged_data example_ops [1, 0] 1 ?models [97]) [0..<2]\<rparr>)]"
    by (simp add: numeral_2_eq_2)
  finally show ?thesis unfolding data .
qed


section \<open>Checkpoints in a directory\<close>

text \<open>\<open>model_%06d.gn\<close>\<close>

fun decimal :: "nat \<Rightarrow> byte list" where
  "decimal n = (if n < 10 then [word_of_nat (48 + n)] else decimal (n div 10) @ [word_of_nat (48 + n mod 10)])"

declare decimal.simps [simp del]

definition pad_zeros :: "nat \<Rightarrow> byte list \<Rightarrow> byte list" where
  "pad_zeros width ds = replicate (width - length ds) 48 @ ds"

definition model_file :: "int \<Rightarrow> byte list" where
  "model_file step =
     ascii ''model_'' @ (if step < 0 then [45] @ pad_zeros 5 (decimal (nat (- step))) else pad_zeros 6 (decimal (nat step))) @ ascii ''.gn''"

text \<open>
  The regular expression \<open>model_(\d+)\.gn$\<close>: the digits that end the stem. They are maximal, since \<open>_\<close> stands before
  them. \<open>Sscanf\<close> leaves zero for a number beyond \<open>int\<close>.
\<close>

definition is_digit :: "byte \<Rightarrow> bool" where
  "is_digit b \<longleftrightarrow> 48 \<le> b \<and> b \<le> 57"

definition match_step :: "byte list \<Rightarrow> byte list option" where
  "match_step name =
     (let stem = take (length name - 3) name; ds = rev (takeWhile is_digit (rev stem)); front = take (length stem - length ds) stem in
      if 3 \<le> length name \<and> drop (length name - 3) name = ascii ''.gn'' \<and> ds \<noteq> [] \<and>
         6 \<le> length front \<and> drop (length front - 6) front = ascii ''model_''
      then Some ds else None)"

definition scan_step :: "byte list \<Rightarrow> int" where
  "scan_step ds = (let n = fold (\<lambda>d n. 10 * n + int (unat d - 48)) ds 0 in if n < 2 ^ 63 then n else 0)"

definition find_last_step :: "byte list list option \<Rightarrow> (unit, int) outcome" where
  "find_last_step entries =
     (case entries of None \<Rightarrow> Inl (Fail ())
      | Some names \<Rightarrow>
          let last_step = fold (\<lambda>name l. case match_step name of None \<Rightarrow> l | Some ds \<Rightarrow> if scan_step ds > l then scan_step ds else l) names (- 1) in
          fail_if (last_step < 0) () (Inr last_step))"

lemma digit_value: "m < 10 \<Longrightarrow> unat (word_of_nat (48 + m) :: byte) = 48 + m"
  by (rule unat_byte_of_nat) simp

lemma decimal_digits: "list_all is_digit (decimal n)" "decimal n \<noteq> []"
proof -
  have d: "is_digit (word_of_nat (48 + m))" if "m < 10" for m
    using digit_value [OF that] that unfolding is_digit_def word_le_nat_alt by simp
  show "list_all is_digit (decimal n)"
  proof (induction n rule: decimal.induct)
    case (1 n)
    then show ?case using d [of n] d [of "n mod 10"] by (cases "n < 10") (simp_all add: decimal.simps [of n])
  qed
  show "decimal n \<noteq> []" by (simp add: decimal.simps [of n])
qed

lemma decimal_value: "fold (\<lambda>d n. 10 * n + int (unat d - 48)) (decimal n) 0 = int n"
proof (induction n rule: decimal.induct)
  case (1 n)
  have "unat (word_of_nat (48 + m) :: byte) - 48 = m" if "m < 10" for m unfolding digit_value [OF that] by simp
  moreover have "10 * int (n div 10) + int (n mod 10) = int n" by (simp add: zdiv_int zmod_int)
  ultimately show ?case using 1 by (cases "n < 10") (simp_all add: decimal.simps [of n])
qed

lemma match_model_file:
  assumes "0 \<le> step"
  shows "match_step (model_file step) = Some (pad_zeros 6 (decimal (nat step)))"
proof -
  define ds where "ds = pad_zeros 6 (decimal (nat step))"
  have ds: "list_all is_digit ds" "ds \<noteq> []"
    using decimal_digits [of "nat step"] by (auto simp: ds_def pad_zeros_def list_all_iff is_digit_def)
  have name: "model_file step = (ascii ''model_'' @ ds) @ ascii ''.gn''" using assms by (simp add: model_file_def ds_def)
  have gn: "length (ascii ''.gn'') = 3" "length (ascii ''model_'') = 6" by (simp_all add: ascii_def)
  have stem: "take (length (model_file step) - 3) (model_file step) = ascii ''model_'' @ ds"
    "drop (length (model_file step) - 3) (model_file step) = ascii ''.gn''" by (simp_all add: name gn)
  have "\<not> is_digit 95" by code_simp
  moreover have "rev (ascii ''model_'') = 95 # rev (ascii ''model'')" by code_simp
  ultimately have digits: "takeWhile is_digit (rev (ascii ''model_'' @ ds)) = rev ds"
    using ds(1) by (subst rev_append, subst takeWhile_append2) (simp_all add: list_all_iff)
  show ?thesis
    unfolding match_step_def stem Let_def digits using ds(2) by (simp add: gn name ds_def)
qed

lemma scan_model_step:
  assumes "0 \<le> step" "step < 2 ^ 63"
  shows "scan_step (pad_zeros 6 (decimal (nat step))) = step"
proof -
  have "fold (\<lambda>d n. 10 * n + int (unat d - 48)) (replicate k (48 :: byte)) 0 = 0" for k by (induction k) simp_all
  then show ?thesis using assms by (simp add: scan_step_def pad_zeros_def decimal_value)
qed

text \<open>
  In a directory with the checkpoints of some steps, as \<open>ModelPath\<close> names them, and other files, \<open>FindLastStep\<close>
  finds the largest step; with more than six digits too.
\<close>
theorem find_last_step_max:
  assumes "finite steps" "steps \<noteq> {}" "\<And>s. s \<in> steps \<Longrightarrow> 0 \<le> s \<and> s < 2 ^ 63 \<and> model_file s \<in> set names"
    "\<And>name. name \<in> set names \<Longrightarrow> match_step name = None \<or> name \<in> model_file ` steps"
  shows "find_last_step (Some names) = Inr (Max steps)"
proof -
  define found where "found name = (case match_step name of None \<Rightarrow> {} | Some ds \<Rightarrow> {scan_step ds})" for name
  have found: "found (model_file s) = {s}" if "s \<in> steps" for s
    using assms(3) [OF that] by (simp add: found_def match_model_file scan_model_step)
  have fold: "fold (\<lambda>name l. case match_step name of None \<Rightarrow> l | Some ds \<Rightarrow> if scan_step ds > l then scan_step ds else l) ns l =
      Max (insert l (\<Union> (found ` set ns)))" for ns l
  proof (induction ns arbitrary: l)
    case (Cons name ns)
    have fin: "finite (\<Union> (found ` set ns))" by (auto simp: found_def split: option.split)
    show ?case
    proof (cases "match_step name")
      case None
      then show ?thesis using Cons by (simp add: found_def)
    next
      case (Some ds)
      have "Max (insert (if scan_step ds > l then scan_step ds else l) (\<Union> (found ` set ns))) = Max (insert l (insert (scan_step ds) (\<Union> (found ` set ns))))"
        using fin by (cases "\<Union> (found ` set ns) = {}") (auto simp: max_def)
      then show ?thesis using Some Cons by (simp add: found_def)
    qed
  qed simp
  have "\<Union> (found ` set names) = steps"
  proof
    show "\<Union> (found ` set names) \<subseteq> steps"
      using assms(4) found by (fastforce simp: found_def)
    show "steps \<subseteq> \<Union> (found ` set names)" using assms(3) found by blast
  qed
  moreover have "0 \<le> Max steps" using assms(3) [OF Max_in [OF assms(1,2)]] by simp
  moreover from this have "Max (insert (- 1) steps) = Max steps" using assms(1,2) by simp
  ultimately show ?thesis by (simp add: find_last_step_def fold)
qed

theorem find_last_step_max_witness:
  "find_last_step (Some [ascii ''model_1000000.gn'', ascii ''notes.txt'', ascii ''model_000200.gn'']) = Inr 1000000"
proof -
  have "replicate 3 (48 :: byte) = [48, 48, 48]" by code_simp
  then have "model_file 200 = ascii ''model_000200.gn''" "model_file 1000000 = ascii ''model_1000000.gn''"
    by (simp_all add: model_file_def pad_zeros_def decimal.simps ascii_def)
  moreover have "match_step (ascii ''notes.txt'') = None" by code_simp
  ultimately have "find_last_step (Some [ascii ''model_1000000.gn'', ascii ''notes.txt'', ascii ''model_000200.gn'']) = Inr (Max {200, 1000000})"
    by (intro find_last_step_max) auto
  then show ?thesis by simp
qed

end
