(* ===== verification/Gguf.thy ===== *)
theory Gguf
  imports Checkpoint
begin

text \<open>
  src/model/checkpoint/gguf.go and gguf_read.go: exporting a model to a GGUF file and loading one.

  Bytes are appended as the code appends them; the tensors' offsets are patched into the finished header. The reader's
  position in the data is what is left of them; only the tensors are read at their offsets. Lengths and counts are taken
  from the file unchecked, and a slice beyond the end panics (the data have no spare capacity here). A loop up to
  \<open>int(n)\<close> runs not at all for \<open>n\<close> from \<open>2 ^ 63\<close> on. \<open>math.Float32bits\<close> and its inverse are arguments, since a
  configuration's \<open>float32\<close> is the rational it denotes.
\<close>

section \<open>Writing\<close>

definition put_uint32 :: "int \<Rightarrow> byte list" where
  "put_uint32 x = nat_le 4 (nat (x mod 2 ^ 32))"

definition put_uint64 :: "int \<Rightarrow> byte list" where
  "put_uint64 x = nat_le 8 (nat (x mod 2 ^ 64))"

definition append_string :: "byte list \<Rightarrow> byte list \<Rightarrow> byte list" where
  "append_string buffer value = buffer @ put_uint64 (int (length value)) @ value"

definition append_uint32_kv :: "byte list \<Rightarrow> byte list \<Rightarrow> int \<Rightarrow> byte list" where
  "append_uint32_kv buffer key value = append_string (buffer @ put_uint32 4) key @ put_uint32 value"

definition append_string_kv :: "byte list \<Rightarrow> byte list \<Rightarrow> byte list \<Rightarrow> byte list" where
  "append_string_kv buffer key value = append_string (append_string (buffer @ put_uint32 8) key) value"

definition append_string_array_kv :: "byte list \<Rightarrow> byte list \<Rightarrow> byte list list \<Rightarrow> byte list" where
  "append_string_array_kv buffer key values' =
     fold (\<lambda>value buffer. append_string buffer value) values'
       (append_string (buffer @ put_uint32 9) key @ put_uint32 8 @ put_uint64 (int (length values')))"

definition gguf_magic :: nat where
  "gguf_magic = 0x46554747"

text \<open>The metadata, in the order they are written.\<close>

definition gguf_metadata :: "(rat \<Rightarrow> f32) \<Rightarrow> meta \<Rightarrow> int \<Rightarrow> byte list \<Rightarrow> byte list" where
  "gguf_metadata f32_bits m width header =
     (let c = mt_config m;
          header = append_string_kv header (ascii ''general.architecture'') (ascii ''nanochat'');
          header = append_string_kv header (ascii ''general.name'') (ascii ''gonano'');
          header = append_uint32_kv header (ascii ''nanochat.context_length'') (sequence_len c);
          header = append_uint32_kv header (ascii ''nanochat.embedding_length'') (embed_dim c);
          header = append_uint32_kv header (ascii ''nanochat.block_count'') (num_layer c);
          header = append_uint32_kv header (ascii ''nanochat.head_count'') (num_head c);
          header = append_uint32_kv header (ascii ''nanochat.kv_head_count'') (num_kv_head c);
          header = append_uint32_kv header (ascii ''nanochat.head_dim'') width;
          header = append_uint32_kv header (ascii ''nanochat.vocab_size'') (vocab_size c);
          header = append_string_kv header (ascii ''nanochat.window_pattern'') (ascii (window_pattern c));
          header = append_uint32_kv header (ascii ''nanochat.step'') (mt_step m);
          header = append_string_kv header (ascii ''tokenizer.ggml.model'') (ascii ''gpt2'');
          header = append_uint32_kv header (ascii ''tokenizer.ggml.bos_token_id'') (vocab_size c - int (length special_tokens));
          header = append_string_array_kv header (ascii ''nanochat.special_tokens'') special_tokens;
          header = append_uint32_kv header (ascii ''nanochat.value_embedding_layers'') ((num_layer c + 1) sdiv 2);
          header = append_uint32_kv header (ascii ''nanochat.num_experts'') (num_experts c);
          header = append_uint32_kv header (ascii ''nanochat.num_experts_per_token'') (num_experts_per_token c);
          header = append_uint32_kv header (ascii ''nanochat.expert_hidden_dim'') (expert_hidden_dim c);
          header = append_uint32_kv header (ascii ''nanochat.shared_expert_hidden_dim'') (shared_expert_hidden_dim c);
          header = append_uint32_kv header (ascii ''nanochat.moe_clamp_bits'') (uint (f32_bits (moe_clamp c)))
      in append_uint32_kv header (ascii ''nanochat.moe_scale_bits'') (uint (f32_bits (moe_scale c))))"

text \<open>A tensor's entry with an offset yet to be patched: where that is, and the size of the data.\<close>

definition append_info :: "tensor entries \<Rightarrow> byte list \<Rightarrow> byte list \<times> (nat \<times> nat) list \<Rightarrow> (unit, byte list \<times> (nat \<times> nat) list) outcome" where
  "append_info params name = (\<lambda>(header, infos).
     obind (entry_of params name) (\<lambda>t.
       let header = append_string header name;
           header = header @ put_uint32 (int (length (ts_shape t)));
           header = fold (\<lambda>d header. header @ put_uint64 (int d)) (ts_shape t) header;
           header = header @ put_uint32 0;
           offset_at = length header
       in Inr (header @ put_uint64 0, infos @ [(offset_at, numel t * 4)])))"

definition patch_offset :: "nat \<times> nat \<Rightarrow> byte list \<times> int \<Rightarrow> byte list \<times> int" where
  "patch_offset = (\<lambda>(offset_at, size') (header, data_offset).
     (take offset_at header @ put_uint64 data_offset @ drop (offset_at + 8) header, data_offset + int size'))"

definition export_gguf :: "(rat \<Rightarrow> f32) \<Rightarrow> meta \<Rightarrow> tensor entries \<Rightarrow> (unit, byte list) outcome" where
  "export_gguf f32_bits m params =
     (let names = sorted_names params;
          header = put_uint32 (int gguf_magic) @ put_uint32 3 @ put_uint64 (int (length names)) @ put_uint64 21 in
      obind (head_dim (mt_config m)) (\<lambda>width.
      let header = gguf_metadata f32_bits m width header in
      obind (ofold (append_info params) names (header, [])) (\<lambda>(header, infos).
      let aligned = 32 * ((length header + 31) div 32);
          header = fst (fold patch_offset infos (header, int aligned));
          header = header @ replicate (aligned - length header) 0 in
      obind (omap (\<lambda>name. obind (entry_of params name) (\<lambda>t. Inr (append_f32s (ts_data t) []))) names) (\<lambda>parts.
        Inr (header @ concat parts)))))"

section \<open>Reading\<close>

datatype gguf_error = GgMagic | GgVersion | GgValue | GgType nat | GgKey "byte list" | GgTensor "byte list" nat | GgRead

datatype gguf_value = GUint32 nat | GUint64 nat | GBool bool | GString "byte list" | GArray "gguf_value list"

definition take_le :: "nat \<Rightarrow> byte list \<Rightarrow> (gguf_error, nat \<times> byte list) outcome" where
  "take_le k src = obind (read_le k src) (\<lambda>n. Inr (n, drop k src))"

definition loop_count :: "nat \<Rightarrow> nat" where
  "loop_count n = (if n < 2 ^ 63 then n else 0)"

definition read_string :: "byte list \<Rightarrow> (gguf_error, byte list \<times> byte list) outcome" where
  "read_string src = obind (take_le 8 src) (\<lambda>(n, src). panic_if (length src < n) (Inr (take n src, drop n src)))"

text \<open>A value, and the elements of an array. A value has at least a byte; two units of fuel a byte are enough.\<close>

fun read_value :: "nat \<Rightarrow> nat \<Rightarrow> byte list \<Rightarrow> (gguf_error, gguf_value \<times> byte list) outcome"
and read_elements :: "nat \<Rightarrow> nat \<Rightarrow> nat \<Rightarrow> byte list \<Rightarrow> (gguf_error, gguf_value list \<times> byte list) outcome" where
  "read_value 0 ty src = Inl NoFuel"
| "read_value (Suc fuel) ty src =
     (if ty = 4 \<or> ty = 6 then fail_if (length src < 4) GgValue (obind (take_le 4 src) (\<lambda>(n, src). Inr (GUint32 n, src)))
      else if ty = 10 then fail_if (length src < 8) GgValue (obind (take_le 8 src) (\<lambda>(n, src). Inr (GUint64 n, src)))
      else if ty = 7 then panic_if (src = []) (Inr (GBool (hd src \<noteq> 0), tl src))
      else if ty = 8 then obind (read_string src) (\<lambda>(s, src). Inr (GString s, src))
      else if ty = 9 then
        obind (take_le 4 src) (\<lambda>(element_type, src).
        obind (take_le 8 src) (\<lambda>(n, src).
        panic_if (\<not> make_ok 16 (int n))
          (obind (read_elements fuel (loop_count n) element_type src) (\<lambda>(vs, src). Inr (GArray vs, src)))))
      else Inl (Fail (GgType ty)))"
| "read_elements fuel 0 ty src = Inr ([], src)"
| "read_elements 0 (Suc n) ty src = Inl NoFuel"
| "read_elements (Suc fuel) (Suc n) ty src =
     obind (read_value fuel ty src) (\<lambda>(v, src). obind (read_elements fuel n ty src) (\<lambda>(vs, src). Inr (v # vs, src)))"

primrec read_kvs :: "nat \<Rightarrow> byte list \<Rightarrow> (byte list \<rightharpoonup> gguf_value) \<Rightarrow> (gguf_error, (byte list \<rightharpoonup> gguf_value) \<times> byte list) outcome" where
  "read_kvs 0 src metadata = Inr (metadata, src)"
| "read_kvs (Suc n) src metadata =
     obind (take_le 4 src) (\<lambda>(ty, src).
     obind (read_string src) (\<lambda>(key, src).
     obind (read_value (2 * length src + 1) ty src) (\<lambda>(v, src).
       read_kvs n src (metadata(key \<mapsto> v)))))"

record gguf_info =
  gg_name :: "byte list"
  gg_dims :: "int list"
  gg_type :: nat
  gg_offset :: int

primrec read_dims :: "nat \<Rightarrow> byte list \<Rightarrow> (gguf_error, int list \<times> byte list) outcome" where
  "read_dims 0 src = Inr ([], src)"
| "read_dims (Suc n) src =
     obind (take_le 8 src) (\<lambda>(d, src). obind (read_dims n src) (\<lambda>(ds, src). Inr (i64 (int d) # ds, src)))"

primrec read_infos :: "nat \<Rightarrow> byte list \<Rightarrow> (gguf_error, gguf_info list \<times> byte list) outcome" where
  "read_infos 0 src = Inr ([], src)"
| "read_infos (Suc n) src =
     obind (read_string src) (\<lambda>(name, src).
     obind (take_le 4 src) (\<lambda>(dimensions, src).
     obind (read_dims dimensions src) (\<lambda>(dims, src).
     obind (take_le 4 src) (\<lambda>(ty, src).
     obind (take_le 8 src) (\<lambda>(offset, src).
     obind (read_infos n src) (\<lambda>(infos, src).
       Inr (\<lparr>gg_name = name, gg_dims = dims, gg_type = ty, gg_offset = i64 (int offset)\<rparr> # infos, src)))))))"

definition get_uint32 :: "(byte list \<rightharpoonup> gguf_value) \<Rightarrow> string \<Rightarrow> (gguf_error, int) outcome" where
  "get_uint32 metadata key = (case metadata (ascii key) of Some (GUint32 n) \<Rightarrow> Inr (int n) | _ \<Rightarrow> Inl (Fail (GgKey (ascii key))))"

definition get_string :: "(byte list \<rightharpoonup> gguf_value) \<Rightarrow> string \<Rightarrow> (gguf_error, string) outcome" where
  "get_string metadata key =
     (case metadata (ascii key) of Some (GString s) \<Rightarrow> Inr (map (\<lambda>b. char_of (unat b)) s) | _ \<Rightarrow> Inl (Fail (GgKey (ascii key))))"

definition optional_uint32 :: "(byte list \<rightharpoonup> gguf_value) \<Rightarrow> string \<Rightarrow> int" where
  "optional_uint32 metadata key = (case metadata (ascii key) of Some (GUint32 n) \<Rightarrow> int n | _ \<Rightarrow> 0)"

definition optional_float32 :: "(f32 \<Rightarrow> rat) \<Rightarrow> (byte list \<rightharpoonup> gguf_value) \<Rightarrow> string \<Rightarrow> rat" where
  "optional_float32 f32_of metadata key = (case metadata (ascii key) of Some (GUint32 n) \<Rightarrow> f32_of (word_of_nat n) | _ \<Rightarrow> 0)"

definition parse_config :: "(f32 \<Rightarrow> rat) \<Rightarrow> (byte list \<rightharpoonup> gguf_value) \<Rightarrow> (gguf_error, config) outcome" where
  "parse_config f32_of metadata =
     obind (get_uint32 metadata ''nanochat.context_length'') (\<lambda>n1.
     obind (get_uint32 metadata ''nanochat.vocab_size'') (\<lambda>n2.
     obind (get_uint32 metadata ''nanochat.block_count'') (\<lambda>n3.
     obind (get_uint32 metadata ''nanochat.head_count'') (\<lambda>n4.
     obind (get_uint32 metadata ''nanochat.kv_head_count'') (\<lambda>n5.
     obind (get_uint32 metadata ''nanochat.embedding_length'') (\<lambda>n6.
     obind (get_string metadata ''nanochat.window_pattern'') (\<lambda>pattern.
     let c = zero_config\<lparr>sequence_len := n1, vocab_size := n2, num_layer := n3, num_head := n4, num_kv_head := n5, embed_dim := n6,
          window_pattern := pattern,
          num_experts := optional_uint32 metadata ''nanochat.num_experts'',
          num_experts_per_token := optional_uint32 metadata ''nanochat.num_experts_per_token'',
          expert_hidden_dim := optional_uint32 metadata ''nanochat.expert_hidden_dim'',
          shared_expert_hidden_dim := optional_uint32 metadata ''nanochat.shared_expert_hidden_dim'',
          moe_clamp := optional_float32 f32_of metadata ''nanochat.moe_clamp_bits'',
          moe_scale := optional_float32 f32_of metadata ''nanochat.moe_scale_bits''\<rparr>
     in case validate c of Inl _ \<Rightarrow> Inl Panic | Inr _ \<Rightarrow> Inr c)))))))"

definition load_tensor :: "byte list \<Rightarrow> gguf_info \<Rightarrow> (byte list \<rightharpoonup> tensor) \<Rightarrow> (gguf_error, byte list \<rightharpoonup> tensor) outcome" where
  "load_tensor data info params =
     fail_if (gg_type info \<noteq> 0) (GgTensor (gg_name info) (gg_type info))
      (obind (tensor_of_dims (gg_dims info)) (\<lambda>t.
       obind (omap (\<lambda>i. let start = i64 (gg_offset info + int i * 4) in
                 panic_if (start < 0) (obind (suffix_of (nat start) data) (\<lambda>rest. obind (read_le 4 rest) (\<lambda>n. Inr (word_of_nat n)))))
               [0..<length (ts_data t)]) (\<lambda>xs.
         Inr (params(gg_name info \<mapsto> t\<lparr>ts_data := xs\<rparr>)))))"

definition load_gguf :: "(f32 \<Rightarrow> rat) \<Rightarrow> byte list option \<Rightarrow> (gguf_error, meta \<times> (byte list \<rightharpoonup> tensor)) outcome" where
  "load_gguf f32_of file =
     (case file of None \<Rightarrow> Inl (Fail GgRead) | Some data \<Rightarrow>
      fail_if (length data < 4 \<or> le_nat (take 4 data) \<noteq> gguf_magic) GgMagic
       (obind (read_le 4 (drop 4 data)) (\<lambda>version.
        fail_if (int version > int (length data) - 4) GgVersion
       (obind (take_le 8 (drop 8 data)) (\<lambda>(num_tensors, src).
        obind (take_le 8 src) (\<lambda>(num_kv, src).
        obind (read_kvs (loop_count num_kv) src Map.empty) (\<lambda>(metadata, src).
        panic_if (\<not> make_ok 56 (int num_tensors))
       (obind (read_infos (loop_count num_tensors) src) (\<lambda>(infos, _).
        obind (parse_config f32_of metadata) (\<lambda>c.
        obind (ofold (load_tensor data) infos Map.empty) (\<lambda>params.
          Inr (\<lparr>mt_step = optional_uint32 metadata ''nanochat.step'', mt_val_bpb = None, mt_config = c, mt_user = Map.empty,
                mt_loop = Map.empty, mt_loader = Map.empty, mt_params = []\<rparr>, params))))))))))))"

text \<open>The format is chosen by the file's name.\<close>

definition to_lower :: "byte list \<Rightarrow> byte list" where
  "to_lower s = map (\<lambda>b. if 65 \<le> b \<and> b \<le> 90 then b + 32 else b) s"

definition load_any :: "(byte list \<Rightarrow> meta option) \<Rightarrow> (f32 \<Rightarrow> rat) \<Rightarrow> byte list \<Rightarrow> byte list option \<Rightarrow> (gguf_error + ck_error, meta \<times> (byte list \<rightharpoonup> tensor)) outcome" where
  "load_any unmarshal f32_of path file =
     (if ascii ''.gguf'' = drop (length path - 5) (to_lower path) \<and> 5 \<le> length path then
        (case load_gguf f32_of file of Inr r \<Rightarrow> Inr r | Inl (Fail e) \<Rightarrow> Inl (Fail (Inl e)) | Inl Panic \<Rightarrow> Inl Panic | Inl NoFuel \<Rightarrow> Inl NoFuel)
      else
        (case load_file unmarshal file of Inr r \<Rightarrow> Inr r | Inl (Fail e) \<Rightarrow> Inl (Fail (Inr e)) | Inl Panic \<Rightarrow> Inl Panic | Inl NoFuel \<Rightarrow> Inl NoFuel))"


section \<open>The file as its parts\<close>

lemma length_put_uint [simp]: "length (put_uint32 x) = 4" "length (put_uint64 x) = 8"
  by (simp_all add: put_uint32_def put_uint64_def)

definition string_bytes :: "byte list \<Rightarrow> byte list" where
  "string_bytes s = put_uint64 (int (length s)) @ s"

lemma append_string_eq: "append_string buffer s = buffer @ string_bytes s"
  by (simp add: append_string_def string_bytes_def)

text \<open>The values an export writes, and a metadata entry.\<close>

fun payload :: "gguf_value \<Rightarrow> byte list" where
  "payload (GUint32 n) = put_uint32 (int n)"
| "payload (GString s) = string_bytes s"
| "payload (GArray vs) = put_uint32 8 @ put_uint64 (int (length vs)) @ concat (map payload vs)"
| "payload _ = []"

fun type_code :: "gguf_value \<Rightarrow> int" where
  "type_code (GUint32 n) = 4"
| "type_code (GString s) = 8"
| "type_code _ = 9"

definition kv_bytes :: "byte list \<times> gguf_value \<Rightarrow> byte list" where
  "kv_bytes = (\<lambda>(key, v). put_uint32 (type_code v) @ string_bytes key @ payload v)"

definition u32_of :: "int \<Rightarrow> nat" where
  "u32_of x = nat (x mod 2 ^ 32)"

definition metadata_entries :: "(rat \<Rightarrow> f32) \<Rightarrow> meta \<Rightarrow> int \<Rightarrow> (byte list \<times> gguf_value) list" where
  "metadata_entries f32_bits m width =
     (let c = mt_config m in
      [(ascii ''general.architecture'', GString (ascii ''nanochat'')),
       (ascii ''general.name'', GString (ascii ''gonano'')),
       (ascii ''nanochat.context_length'', GUint32 (u32_of (sequence_len c))),
       (ascii ''nanochat.embedding_length'', GUint32 (u32_of (embed_dim c))),
       (ascii ''nanochat.block_count'', GUint32 (u32_of (num_layer c))),
       (ascii ''nanochat.head_count'', GUint32 (u32_of (num_head c))),
       (ascii ''nanochat.kv_head_count'', GUint32 (u32_of (num_kv_head c))),
       (ascii ''nanochat.head_dim'', GUint32 (u32_of width)),
       (ascii ''nanochat.vocab_size'', GUint32 (u32_of (vocab_size c))),
       (ascii ''nanochat.window_pattern'', GString (ascii (window_pattern c))),
       (ascii ''nanochat.step'', GUint32 (u32_of (mt_step m))),
       (ascii ''tokenizer.ggml.model'', GString (ascii ''gpt2'')),
       (ascii ''tokenizer.ggml.bos_token_id'', GUint32 (u32_of (vocab_size c - int (length special_tokens)))),
       (ascii ''nanochat.special_tokens'', GArray (map GString special_tokens)),
       (ascii ''nanochat.value_embedding_layers'', GUint32 (u32_of ((num_layer c + 1) sdiv 2))),
       (ascii ''nanochat.num_experts'', GUint32 (u32_of (num_experts c))),
       (ascii ''nanochat.num_experts_per_token'', GUint32 (u32_of (num_experts_per_token c))),
       (ascii ''nanochat.expert_hidden_dim'', GUint32 (u32_of (expert_hidden_dim c))),
       (ascii ''nanochat.shared_expert_hidden_dim'', GUint32 (u32_of (shared_expert_hidden_dim c))),
       (ascii ''nanochat.moe_clamp_bits'', GUint32 (unat (f32_bits (moe_clamp c)))),
       (ascii ''nanochat.moe_scale_bits'', GUint32 (unat (f32_bits (moe_scale c))))])"

lemma put_uint32_mod: "put_uint32 (int (u32_of x)) = put_uint32 x"
  by (simp add: put_uint32_def u32_of_def)

lemma u32_of_uint: "u32_of (uint w) = unat w" for w :: f32
  using uint_lt2p [of w] by (simp add: u32_of_def)

lemma append_kv_eq:
  "append_uint32_kv buffer key x = buffer @ kv_bytes (key, GUint32 (u32_of x))"
  "append_string_kv buffer key s = buffer @ kv_bytes (key, GString s)"
  "append_string_array_kv buffer key ss = buffer @ kv_bytes (key, GArray (map GString ss))"
proof -
  show "append_uint32_kv buffer key x = buffer @ kv_bytes (key, GUint32 (u32_of x))"
    by (simp add: append_uint32_kv_def kv_bytes_def append_string_eq put_uint32_mod)
  show "append_string_kv buffer key s = buffer @ kv_bytes (key, GString s)"
    by (simp add: append_string_kv_def kv_bytes_def append_string_eq)
  have "fold (\<lambda>value buffer. append_string buffer value) ss buffer = buffer @ concat (map (payload \<circ> GString) ss)" for buffer
    by (induction ss arbitrary: buffer) (simp_all add: append_string_eq)
  then show "append_string_array_kv buffer key ss = buffer @ kv_bytes (key, GArray (map GString ss))"
    by (simp add: append_string_array_kv_def kv_bytes_def append_string_eq)
qed

lemma gguf_metadata_eq:
  "gguf_metadata f32_bits m width header = header @ concat (map kv_bytes (metadata_entries f32_bits m width))"
  by (simp add: gguf_metadata_def metadata_entries_def Let_def append_kv_eq u32_of_uint)


text \<open>A tensor's entry, and the entries with their offsets.\<close>

definition info_front :: "byte list \<times> tensor \<Rightarrow> byte list" where
  "info_front = (\<lambda>(name, t). string_bytes name @ put_uint32 (int (length (ts_shape t))) @
     concat (map (\<lambda>d. put_uint64 (int d)) (ts_shape t)) @ put_uint32 0)"

definition info_bytes :: "int \<Rightarrow> byte list \<times> tensor \<Rightarrow> byte list" where
  "info_bytes offset c = info_front c @ put_uint64 offset"

definition data_size :: "byte list \<times> tensor \<Rightarrow> nat" where
  "data_size c = numel (snd c) * 4"

fun infos_bytes :: "int \<Rightarrow> tensor entries \<Rightarrow> byte list" where
  "infos_bytes offset [] = []"
| "infos_bytes offset (c # cs) = info_bytes offset c @ infos_bytes (offset + int (data_size c)) cs"

fun placeholders :: "nat \<Rightarrow> tensor entries \<Rightarrow> (nat \<times> nat) list" where
  "placeholders pos [] = []"
| "placeholders pos (c # cs) = (pos + length (info_front c), data_size c) # placeholders (pos + length (info_front c) + 8) cs"

lemma append_infos:
  assumes "\<forall>c \<in> set cs. map_of params (fst c) = Some (snd c)"
  shows "ofold (append_info params) (map fst cs) (header, infos) =
    Inr (header @ concat (map (info_bytes 0) cs), infos @ placeholders (length header) cs)"
  using assms
proof (induction cs arbitrary: header infos)
  case (Cons c cs)
  have dims: "fold (\<lambda>d header. header @ put_uint64 (int d)) ds buffer = buffer @ concat (map (\<lambda>d. put_uint64 (int d)) ds)" for ds buffer
    by (induction ds arbitrary: buffer) simp_all
  obtain name t where c: "c = (name, t)" by (cases c)
  have "append_info params name (header, infos) =
      Inr (header @ info_bytes 0 c, infos @ [(length header + length (info_front c), data_size c)])"
    using Cons.prems
    by (simp add: append_info_def entry_of_def c append_string_eq dims info_bytes_def info_front_def data_size_def Let_def add.left_commute add.commute)
  with Cons show ?case by (simp add: c info_bytes_def add.assoc)
qed simp

lemma patch_offsets:
  "fst (fold patch_offset (placeholders (length front) cs) (front @ concat (map (info_bytes 0) cs) @ rest, offset)) =
    front @ infos_bytes offset cs @ rest"
proof (induction cs arbitrary: front offset)
  case (Cons c cs)
  have "patch_offset (length front + length (info_front c), data_size c) (front @ concat (map (info_bytes 0) (c # cs)) @ rest, offset) =
      ((front @ info_bytes offset c) @ concat (map (info_bytes 0) cs) @ rest, offset + int (data_size c))"
    by (simp add: patch_offset_def info_bytes_def)
  moreover have "length (front @ info_bytes offset c) = length front + length (info_front c) + 8" by (simp add: info_bytes_def)
  ultimately show ?case using Cons.IH [of "front @ info_bytes offset c" "offset + int (data_size c)"] by (simp add: add.assoc)
qed simp

text \<open>The whole file: the magic and the counts, the metadata, the entries, zeros up to a multiple of 32, the data.\<close>

definition gguf_front :: "nat \<Rightarrow> byte list" where
  "gguf_front n = put_uint32 (int gguf_magic) @ put_uint32 3 @ put_uint64 (int n) @ put_uint64 21"

definition gguf_header_length :: "(rat \<Rightarrow> f32) \<Rightarrow> meta \<Rightarrow> int \<Rightarrow> tensor entries \<Rightarrow> nat" where
  "gguf_header_length f32_bits m width cs =
     length (gguf_front (length cs) @ concat (map kv_bytes (metadata_entries f32_bits m width)) @ infos_bytes 0 cs)"

definition gguf_bytes :: "(rat \<Rightarrow> f32) \<Rightarrow> meta \<Rightarrow> int \<Rightarrow> tensor entries \<Rightarrow> byte list" where
  "gguf_bytes f32_bits m width cs =
     (let n = gguf_header_length f32_bits m width cs; aligned = 32 * ((n + 31) div 32) in
      gguf_front (length cs) @ concat (map kv_bytes (metadata_entries f32_bits m width)) @ infos_bytes (int aligned) cs @
      replicate (aligned - n) 0 @ concat (map entry_bytes cs))"

lemma length_infos: "length (infos_bytes offset cs) = length (concat (map (info_bytes 0) cs))"
  by (induction cs arbitrary: offset) (simp_all add: info_bytes_def)

lemma export_gguf_bytes:
  assumes "head_dim (mt_config m) = Inr width"
  shows "export_gguf f32_bits m params = Inr (gguf_bytes f32_bits m width (sorted_entries params))"
proof -
  define cs where "cs = sorted_entries params"
  have names: "map fst cs = sorted_names params" "length cs = length (sorted_names params)"
    by (simp_all add: cs_def sorted_entries_def comp_def)
  have entries: "\<forall>c \<in> set cs. map_of params (fst c) = Some (snd c)"
    by (auto simp: cs_def sorted_entries_def sorted_names_def dest: weak_map_of_SomeI)
  define H where "H = gguf_front (length cs) @ concat (map kv_bytes (metadata_entries f32_bits m width))"
  have meta: "gguf_metadata f32_bits m width (put_uint32 (int gguf_magic) @ put_uint32 3 @ put_uint64 (int (length (sorted_names params))) @ put_uint64 21) = H"
    by (simp add: gguf_metadata_eq H_def gguf_front_def names)
  define n where "n = length (H @ concat (map (info_bytes 0) cs))"
  define aligned where "aligned = 32 * ((n + 31) div 32)"
  have infos: "ofold (append_info params) (sorted_names params) (H, []) = Inr (H @ concat (map (info_bytes 0) cs), placeholders (length H) cs)"
    using append_infos [OF entries, of H "[]"] by (simp add: names)
  have patched: "fst (fold patch_offset (placeholders (length H) cs) (H @ concat (map (info_bytes 0) cs), int aligned)) = H @ infos_bytes (int aligned) cs"
    using patch_offsets [of H cs "[]" "int aligned"] by simp
  have parts: "omap (\<lambda>name. obind (entry_of params name) (\<lambda>t. Inr (append_f32s (ts_data t) []))) (sorted_names params) =
      (Inr (map entry_bytes cs) :: (unit, byte list list) outcome)"
  proof -
    have "omap (\<lambda>name. obind (entry_of params name) (\<lambda>t. Inr (append_f32s (ts_data t) []))) (sorted_names params) =
        (Inr (map (\<lambda>name. entry_bytes (name, the (map_of params name))) (sorted_names params)) :: (unit, byte list list) outcome)"
      by (rule omap_map) (simp add: entry_of_name entry_bytes_def append_f32s_put)
    then show ?thesis by (simp add: cs_def sorted_entries_def comp_def)
  qed
  have len: "length (H @ infos_bytes (int aligned) cs) = n" "gguf_header_length f32_bits m width cs = n"
    by (simp_all add: n_def H_def gguf_header_length_def length_infos)
  show ?thesis
    unfolding export_gguf_def Let_def assms obind_simps meta infos prod.case n_def [symmetric] aligned_def [symmetric] patched len(1) parts
      gguf_bytes_def cs_def [symmetric] len(2)
    by (simp add: H_def)
qed


section \<open>Reading the parts\<close>

lemma take_le_put:
  "take_le 4 (put_uint32 x @ rest) = Inr (nat (x mod 2 ^ 32), rest)"
  "take_le 8 (put_uint64 x @ rest) = Inr (nat (x mod 2 ^ 64), rest)"
proof -
  have "le_nat (nat_le 4 (nat (x mod 2 ^ 32))) = nat (x mod 2 ^ 32)" "le_nat (nat_le 8 (nat (x mod 2 ^ 64))) = nat (x mod 2 ^ 64)"
    by (rule le_nat_nat_le_id, simp add: nat_less_iff)+
  then show "take_le 4 (put_uint32 x @ rest) = Inr (nat (x mod 2 ^ 32), rest)"
    "take_le 8 (put_uint64 x @ rest) = Inr (nat (x mod 2 ^ 64), rest)"
    by (simp_all add: take_le_def put_uint32_def put_uint64_def)
qed

lemma take_le_int:
  "n < 2 ^ 32 \<Longrightarrow> take_le 4 (put_uint32 (int n) @ rest) = Inr (n, rest)"
  "n < 2 ^ 64 \<Longrightarrow> take_le 8 (put_uint64 (int n) @ rest) = Inr (n, rest)"
  by (simp_all add: take_le_put)

lemma read_string_bytes: "length s < 2 ^ 63 \<Longrightarrow> read_string (string_bytes s @ rest) = Inr (s, rest)"
  by (simp add: read_string_def string_bytes_def take_le_int)

fun value_ok :: "gguf_value \<Rightarrow> bool" where
  "value_ok (GUint32 n) \<longleftrightarrow> n < 2 ^ 32"
| "value_ok (GString s) \<longleftrightarrow> length s < 2 ^ 63"
| "value_ok (GArray vs) \<longleftrightarrow> (\<forall>v \<in> set vs. \<exists>s. v = GString s \<and> length s < 2 ^ 63) \<and> length vs < 2 ^ 40"
| "value_ok _ \<longleftrightarrow> False"

lemma read_strings:
  assumes "\<forall>v \<in> set vs. \<exists>s. v = GString s \<and> length s < 2 ^ 63" "length vs < fuel"
  shows "read_elements fuel (length vs) 8 (concat (map payload vs) @ rest) = Inr (vs, rest)"
  using assms
proof (induction vs arbitrary: fuel)
  case (Cons v vs)
  then obtain fuel' s where "fuel = Suc (Suc fuel')" "v = GString s" "length s < 2 ^ 63"
    by (cases fuel; cases "fuel - 1") auto
  with Cons show ?case by (simp add: read_string_bytes)
qed (cases fuel; simp)

lemma read_value_payload:
  assumes "value_ok v" "case v of GArray vs \<Rightarrow> length vs + 1 < fuel | _ \<Rightarrow> 0 < fuel"
  shows "read_value fuel (nat (type_code v)) (payload v @ rest) = Inr (v, rest)"
proof -
  obtain fuel' where fuel: "fuel = Suc fuel'" using assms(2) by (cases fuel) (auto split: gguf_value.splits)
  show ?thesis
  proof (cases v)
    case (GUint32 n)
    then show ?thesis using assms(1) by (simp add: fuel take_le_int)
  next
    case (GString s)
    then show ?thesis using assms(1) by (simp add: fuel read_string_bytes)
  next
    case (GArray vs)
    have small: "take_le 4 (put_uint32 8 @ put_uint64 (int (length vs)) @ concat (map payload vs) @ rest) =
        Inr (8, put_uint64 (int (length vs)) @ concat (map payload vs) @ rest)"
      using take_le_put(1) [of 8] by simp
    have "make_ok 16 (int (length vs))" "loop_count (length vs) = length vs"
      using assms(1) GArray by (simp_all add: make_ok_def loop_count_def)
    moreover have "read_elements fuel' (length vs) 8 (concat (map payload vs) @ rest) = Inr (vs, rest)"
      using assms GArray by (intro read_strings) (simp_all add: fuel)
    ultimately show ?thesis
      using assms(1) GArray by (simp add: fuel small take_le_int(2))
  qed (use assms(1) in simp_all)
qed

lemma payload_length: "value_ok v \<Longrightarrow> (case v of GArray vs \<Rightarrow> length vs + 1 < 2 * length (payload v) + 1 | _ \<Rightarrow> True)"
proof (cases v)
  case (GArray vs)
  have "length us \<le> length (concat (map payload us))" if "\<forall>v \<in> set us. \<exists>s. v = GString s" for us
    using that by (induction us) (auto simp: string_bytes_def)
  moreover assume "value_ok v"
  moreover from this have "\<forall>v \<in> set vs. \<exists>s. v = GString s" using GArray by auto
  ultimately have "length vs \<le> length (concat (map payload vs))" by blast
  then show ?thesis using GArray by simp
qed simp_all

lemma read_kvs_bytes:
  assumes "\<forall>kv \<in> set kvs. length (fst kv) < 2 ^ 63 \<and> value_ok (snd kv)"
  shows "read_kvs (length kvs) (concat (map kv_bytes kvs) @ rest) metadata = Inr (metadata ++ map_of (rev kvs), rest)"
  using assms
proof (induction kvs arbitrary: metadata)
  case (Cons kv kvs)
  obtain key v where kv: "kv = (key, v)" by (cases kv)
  define src where "src = concat (map kv_bytes kvs) @ rest"
  have ok: "length key < 2 ^ 63" "value_ok v" using Cons.prems by (simp_all add: kv)
  have ty: "take_le 4 (put_uint32 (type_code v) @ string_bytes key @ payload v @ src) = Inr (nat (type_code v), string_bytes key @ payload v @ src)"
    using take_le_put(1) [of "type_code v"] by (cases v) simp_all
  have "read_value (2 * length (payload v @ src) + 1) (nat (type_code v)) (payload v @ src) = Inr (v, src)"
    using payload_length [OF ok(2)] by (intro read_value_payload ok) (auto split: gguf_value.splits)
  moreover have "concat (map kv_bytes (kv # kvs)) @ rest = put_uint32 (type_code v) @ string_bytes key @ payload v @ src"
    by (simp add: kv kv_bytes_def src_def)
  ultimately have "read_kvs (length (kv # kvs)) (concat (map kv_bytes (kv # kvs)) @ rest) metadata = read_kvs (length kvs) src (metadata(key \<mapsto> v))"
    by (simp only: list.size add_Suc_right add_0_right read_kvs.simps ty read_string_bytes [OF ok(1)] obind_simps prod.case)
  also have "\<dots> = Inr (metadata(key \<mapsto> v) ++ map_of (rev kvs), rest)" unfolding src_def using Cons by simp
  also have "metadata(key \<mapsto> v) ++ map_of (rev kvs) = metadata ++ map_of (rev (kv # kvs))"
    by (simp add: kv map_add_def fun_eq_iff split: option.split)
  finally show ?case .
qed simp

lemma read_dims_bytes:
  assumes "\<forall>d \<in> set shape. d < 2 ^ 63"
  shows "read_dims (length shape) (concat (map (\<lambda>d. put_uint64 (int d)) shape) @ rest) = Inr (map int shape, rest)"
  using assms by (induction shape) (simp_all add: take_le_int(2) i64_id)

text \<open>The entries read back.\<close>

fun infos_of :: "int \<Rightarrow> tensor entries \<Rightarrow> gguf_info list" where
  "infos_of offset [] = []"
| "infos_of offset (c # cs) =
     \<lparr>gg_name = fst c, gg_dims = map int (ts_shape (snd c)), gg_type = 0, gg_offset = offset\<rparr> # infos_of (offset + int (data_size c)) cs"

definition entry_ok :: "byte list \<times> tensor \<Rightarrow> bool" where
  "entry_ok c \<longleftrightarrow> length (fst c) < 2 ^ 63 \<and> length (ts_shape (snd c)) < 2 ^ 32 \<and> tensor_fits (snd c)"

lemma dims_bound:
  assumes "tensor_fits t" "d \<in> set (ts_shape t)"
  shows "d < 2 ^ 63"
proof -
  have "d dvd prod_list (ts_shape t)" using assms(2) by (rule prod_list_dvd)
  moreover have "0 < prod_list (ts_shape t)" using assms(1) by (simp add: tensor_fits_def prod_list_zero_iff neq0_conv [symmetric] del: neq0_conv)
  ultimately have "d \<le> prod_list (ts_shape t)" by (intro dvd_imp_le)
  then show ?thesis using assms(1) by (simp add: tensor_fits_def)
qed

lemma read_infos_bytes:
  assumes "\<forall>c \<in> set cs. entry_ok c" "offset + (\<Sum>c\<leftarrow>cs. int (data_size c)) < 2 ^ 63" "0 \<le> offset"
  shows "read_infos (length cs) (infos_bytes offset cs @ rest) = Inr (infos_of offset cs, rest)"
  using assms
proof (induction cs arbitrary: offset)
  case (Cons c cs)
  obtain name t where c: "c = (name, t)" by (cases c)
  define src where "src = infos_bytes (offset + int (data_size c)) cs @ rest"
  have ok: "length name < 2 ^ 63" "length (ts_shape t) < 2 ^ 32" "\<forall>d \<in> set (ts_shape t). d < 2 ^ 63"
    using Cons.prems(1) dims_bound by (auto simp: c entry_ok_def)
  have sum_pos: "0 \<le> (\<Sum>c\<leftarrow>cs. int (data_size c))" by (rule sum_list_nonneg) auto
  then have off: "offset < 2 ^ 63" using Cons.prems(2) by simp
  have ty: "take_le 4 (put_uint32 0 @ xs) = Inr (0, xs)" for xs using take_le_put(1) [of 0] by simp
  have o8: "take_le 8 (put_uint64 offset @ xs) = Inr (nat offset, xs)" for xs
    using take_le_put(2) [of offset] off Cons.prems(3) by simp
  have i64: "i64 (int (nat offset)) = offset" using off Cons.prems(3) by (simp add: i64_id)
  have IH: "read_infos (length cs) src = Inr (infos_of (offset + int (data_size c)) cs, rest)"
    unfolding src_def using Cons.prems by (intro Cons.IH) simp_all
  have "infos_bytes offset (c # cs) @ rest =
      string_bytes name @ put_uint32 (int (length (ts_shape t))) @ concat (map (\<lambda>d. put_uint64 (int d)) (ts_shape t)) @ put_uint32 0 @ put_uint64 offset @ src"
    by (simp add: c info_bytes_def info_front_def src_def)
  then have "read_infos (length (c # cs)) (infos_bytes offset (c # cs) @ rest) =
      Inr (\<lparr>gg_name = name, gg_dims = map int (ts_shape t), gg_type = 0, gg_offset = i64 (int (nat offset))\<rparr> # infos_of (offset + int (data_size c)) cs, rest)"
    by (simp only: list.size add_Suc_right add_0_right read_infos.simps read_string_bytes [OF ok(1)] take_le_int(1) [OF ok(2)] read_dims_bytes [OF ok(3)] ty o8 IH obind_simps prod.case)
  then show ?case unfolding i64 by (simp add: c)
qed simp


lemma put_f32s_nth:
  assumes "i < length xs"
  shows "drop (i * 4) (put_f32s xs @ rest) = nat_le 4 (unat (xs ! i)) @ put_f32s (drop (Suc i) xs) @ rest"
proof -
  have "put_f32s (take i xs @ xs ! i # drop (Suc i) xs) = put_f32s (take i xs) @ nat_le 4 (unat (xs ! i)) @ put_f32s (drop (Suc i) xs)"
    by (simp add: put_f32s_def)
  then have "put_f32s xs = put_f32s (take i xs) @ nat_le 4 (unat (xs ! i)) @ put_f32s (drop (Suc i) xs)"
    using id_take_nth_drop [OF assms] by simp
  then show ?thesis using assms by simp
qed

lemma load_tensor_ok:
  assumes "tensor_fits t" "data = pre @ put_f32s (ts_data t) @ rest" "length data < 2 ^ 63"
  shows "load_tensor data \<lparr>gg_name = name, gg_dims = map int (ts_shape t), gg_type = 0, gg_offset = int (length pre)\<rparr> params = Inr (params(name \<mapsto> t))"
proof -
  let ?n = "length (ts_data t)"
  have "(let start = i64 (int (length pre) + int i * 4) in
      panic_if (start < 0) (obind (suffix_of (nat start) data) (\<lambda>rest. obind (read_le 4 rest) (\<lambda>n. Inr (word_of_nat n))))) =
      (Inr (ts_data t ! i) :: (gguf_error, f32) outcome)" if i: "i < ?n" for i
  proof -
    have le: "length pre + i * 4 \<le> length data" using assms(2) i by simp
    then have "i64 (int (length pre) + int i * 4) = int (length pre + i * 4)" using assms(3) by (simp add: i64_id)
    moreover have "drop (length pre + i * 4) data = nat_le 4 (unat (ts_data t ! i)) @ put_f32s (drop (Suc i) (ts_data t)) @ rest"
      using put_f32s_nth [OF i, of rest] assms(2) by (simp add: drop_append)
    moreover have "unat (ts_data t ! i) < 256 ^ 4" using unsigned_less [of "ts_data t ! i", where 'a = nat] by simp
    moreover have "nat (int (length pre) + int i * 4) = length pre + i * 4" by simp
    ultimately show ?thesis using le by (simp add: le_nat_nat_le_id Let_def)
  qed
  then have "omap (\<lambda>i. let start = i64 (int (length pre) + int i * 4) in
      panic_if (start < 0) (obind (suffix_of (nat start) data) (\<lambda>rest. obind (read_le 4 rest) (\<lambda>n. Inr (word_of_nat n))))) [0..<?n] =
      (Inr (map ((!) (ts_data t)) [0..<?n]) :: (gguf_error, f32 list) outcome)"
    by (intro omap_map) simp
  moreover have eta: "\<lparr>ts_shape = ts_shape t, ts_data = ts_data t\<rparr> = t" by simp
  ultimately show ?thesis
    by (simp add: load_tensor_def tensor_of_dims_fits(2) [OF assms(1)] map_nth eta)
qed

lemma load_tensors_ok:
  assumes "\<forall>c \<in> set cs. tensor_fits (snd c)" "data = pre @ concat (map entry_bytes cs)" "length data < 2 ^ 63"
  shows "ofold (load_tensor data) (infos_of (int (length pre)) cs) params = Inr (fold (\<lambda>c m. m(fst c \<mapsto> snd c)) cs params)"
  using assms(1,2)
proof (induction cs arbitrary: pre params)
  case (Cons c cs)
  obtain name t where c: "c = (name, t)" by (cases c)
  have "load_tensor data \<lparr>gg_name = name, gg_dims = map int (ts_shape t), gg_type = 0, gg_offset = int (length pre)\<rparr> params = Inr (params(name \<mapsto> t))"
    using Cons.prems by (intro load_tensor_ok [OF _ _ assms(3)]) (simp_all add: c entry_bytes_def)
  moreover have "int (length pre) + int (data_size c) = int (length (pre @ entry_bytes c))"
    by (simp add: c data_size_def numel_def entry_bytes_def mult.commute)
  moreover have "ofold (load_tensor data) (infos_of (int (length (pre @ entry_bytes c))) cs) (params(name \<mapsto> t)) =
      Inr (fold (\<lambda>c m. m(fst c \<mapsto> snd c)) cs (params(name \<mapsto> t)))"
    using Cons.prems by (intro Cons.IH) simp_all
  ultimately show ?case by (simp add: c del: fun_upd_apply length_append)
qed simp

section \<open>The configuration read back\<close>

lemma ascii_inj [simp]: "ascii s = ascii t \<longleftrightarrow> s = t"
proof -
  have "inj (\<lambda>c :: char. word_of_nat (of_char c) :: byte)"
    by (rule inj_on_inverseI [where g = "\<lambda>b. char_of (unat b)"]) (simp add: unat_byte_of_nat)
  then show ?thesis unfolding ascii_def by (simp add: inj_map_eq_map)
qed

lemma ascii_chars: "map (\<lambda>b. char_of (unat b)) (ascii s) = s"
  by (simp add: ascii_def comp_def unat_byte_of_nat)

text \<open>What a GGUF file keeps of a configuration.\<close>

definition gguf_config :: "config \<Rightarrow> config" where
  "gguf_config c = zero_config\<lparr>sequence_len := sequence_len c, vocab_size := vocab_size c, num_layer := num_layer c, num_head := num_head c,
     num_kv_head := num_kv_head c, embed_dim := embed_dim c, window_pattern := window_pattern c, num_experts := num_experts c,
     num_experts_per_token := num_experts_per_token c, expert_hidden_dim := expert_hidden_dim c,
     shared_expert_hidden_dim := shared_expert_hidden_dim c, moe_clamp := moe_clamp c, moe_scale := moe_scale c\<rparr>"

definition u32_fits :: "int \<Rightarrow> bool" where
  "u32_fits x \<longleftrightarrow> 0 \<le> x \<and> x < 2 ^ 32"

definition gguf_fits :: "config \<Rightarrow> bool" where
  "gguf_fits c \<longleftrightarrow> list_all u32_fits [sequence_len c, vocab_size c, num_layer c, num_head c, num_kv_head c, embed_dim c, num_experts c,
     num_experts_per_token c, expert_hidden_dim c, shared_expert_hidden_dim c] \<and> length (window_pattern c) < 2 ^ 63"

lemma u32_of_fits: "u32_fits x \<Longrightarrow> int (u32_of x) = x"
  by (simp add: u32_fits_def u32_of_def)

lemma metadata_lookup:
  fixes f32_bits :: "rat \<Rightarrow> f32" and width :: int
  assumes "gguf_fits (mt_config m)"
  defines "metadata \<equiv> map_of (rev (metadata_entries f32_bits m width))" and "c \<equiv> mt_config m"
  shows "get_uint32 metadata ''nanochat.context_length'' = Inr (sequence_len c)"
    "get_uint32 metadata ''nanochat.vocab_size'' = Inr (vocab_size c)"
    "get_uint32 metadata ''nanochat.block_count'' = Inr (num_layer c)"
    "get_uint32 metadata ''nanochat.head_count'' = Inr (num_head c)"
    "get_uint32 metadata ''nanochat.kv_head_count'' = Inr (num_kv_head c)"
    "get_uint32 metadata ''nanochat.embedding_length'' = Inr (embed_dim c)"
    "get_string metadata ''nanochat.window_pattern'' = Inr (window_pattern c)"
    "optional_uint32 metadata ''nanochat.num_experts'' = num_experts c"
    "optional_uint32 metadata ''nanochat.num_experts_per_token'' = num_experts_per_token c"
    "optional_uint32 metadata ''nanochat.expert_hidden_dim'' = expert_hidden_dim c"
    "optional_uint32 metadata ''nanochat.shared_expert_hidden_dim'' = shared_expert_hidden_dim c"
    "optional_float32 f32_of metadata ''nanochat.moe_clamp_bits'' = f32_of (f32_bits (moe_clamp c))"
    "optional_float32 f32_of metadata ''nanochat.moe_scale_bits'' = f32_of (f32_bits (moe_scale c))"
    "optional_uint32 metadata ''nanochat.step'' = int (u32_of (mt_step m))"
  using assms(1)
  by (simp_all add: metadata_def c_def metadata_entries_def Let_def get_uint32_def get_string_def optional_uint32_def optional_float32_def
      gguf_fits_def u32_of_fits ascii_chars)

lemma parse_config_entries:
  assumes "gguf_fits (mt_config m)" "validate (gguf_config (mt_config m)) = Inr ()"
    "f32_of (f32_bits (moe_clamp (mt_config m))) = moe_clamp (mt_config m)" "f32_of (f32_bits (moe_scale (mt_config m))) = moe_scale (mt_config m)"
  shows "parse_config f32_of (map_of (rev (metadata_entries f32_bits m width))) = Inr (gguf_config (mt_config m))"
  using assms(2) unfolding parse_config_def metadata_lookup [OF assms(1)] obind_simps Let_def assms(3,4) gguf_config_def [symmetric] by simp


section \<open>Round trip\<close>

definition gguf_entries_ok :: "tensor entries \<Rightarrow> bool" where
  "gguf_entries_ok params \<longleftrightarrow> distinct (map fst params) \<and> (\<forall>c \<in> set params. entry_ok c) \<and> 56 * length params \<le> 2 ^ 48"

lemma sorted_entries_ok:
  assumes "gguf_entries_ok params"
  shows "\<forall>c \<in> set (sorted_entries params). entry_ok c" "length (sorted_entries params) = length params" "params_fit params"
proof -
  show "params_fit params" using assms by (auto simp: gguf_entries_ok_def params_fit_def entry_ok_def)
  show "length (sorted_entries params) = length params" by (simp add: sorted_entries_def sorted_names_def)
  have "entry_ok (name, the (map_of params name))" if name: "name \<in> set (sorted_names params)" for name
  proof -
    obtain t where "(name, t) \<in> set params" using name by (auto simp: sorted_names_def)
    moreover from this have "map_of params name = Some t" using assms by (simp add: gguf_entries_ok_def)
    ultimately show ?thesis using assms by (auto simp: gguf_entries_ok_def)
  qed
  then show "\<forall>c \<in> set (sorted_entries params). entry_ok c" by (auto simp: sorted_entries_def)
qed

lemma data_size_bytes: "(\<Sum>c\<leftarrow>cs. int (data_size c)) = int (length (concat (map entry_bytes cs)))"
  by (induction cs) (auto simp: data_size_def numel_def entry_bytes_def)

lemma metadata_entries_ok:
  assumes "gguf_fits (mt_config m)"
  shows "\<forall>kv \<in> set (metadata_entries f32_bits m width). length (fst kv) < 2 ^ 63 \<and> value_ok (snd kv)" "length (metadata_entries f32_bits m width) = 21"
proof -
  have "u32_of x < 2 ^ 32" for x by (simp add: u32_of_def nat_less_iff)
  moreover have "unat w < 2 ^ 32" for w :: f32 using unsigned_less [of w, where 'a = nat] by simp
  moreover have "\<forall>v \<in> set (map GString special_tokens). \<exists>s. v = GString s \<and> length s < 2 ^ 63" "length special_tokens < 2 ^ 40"
    by (simp_all add: special_tokens_def ascii_def)
  moreover have "length (ascii (window_pattern (mt_config m))) < 2 ^ 63" using assms by (simp add: gguf_fits_def ascii_def)
  ultimately show "\<forall>kv \<in> set (metadata_entries f32_bits m width). length (fst kv) < 2 ^ 63 \<and> value_ok (snd kv)"
    "length (metadata_entries f32_bits m width) = 21"
    by (simp_all add: metadata_entries_def Let_def ascii_def)
qed

lemma gguf_bytes_front:
  "gguf_bytes f32_bits m width cs = gguf_front (length cs) @ concat (map kv_bytes (metadata_entries f32_bits m width)) @ infos_bytes
      (int (32 * ((gguf_header_length f32_bits m width cs + 31) div 32))) cs @
    replicate (32 * ((gguf_header_length f32_bits m width cs + 31) div 32) - gguf_header_length f32_bits m width cs) 0 @ concat (map entry_bytes cs)"
  by (simp add: gguf_bytes_def Let_def)

text \<open>
  C15. Loading the GGUF file an export wrote gives every tensor bit for bit, and of the configuration the fields
  \<open>gguf_config\<close> keeps.
\<close>
theorem gguf_roundtrip:
  assumes "gguf_entries_ok params" "gguf_fits (mt_config m)" "u32_fits (mt_step m)"
    "f32_of (f32_bits (moe_clamp (mt_config m))) = moe_clamp (mt_config m)" "f32_of (f32_bits (moe_scale (mt_config m))) = moe_scale (mt_config m)"
    "validate (gguf_config (mt_config m)) = Inr ()" "export_gguf f32_bits m params = Inr data" "length data < 2 ^ 63"
  shows "load_gguf f32_of (Some data) =
    Inr (\<lparr>mt_step = mt_step m, mt_val_bpb = None, mt_config = gguf_config (mt_config m), mt_user = Map.empty, mt_loop = Map.empty,
          mt_loader = Map.empty, mt_params = []\<rparr>, map_of params)"
proof -
  define cs where "cs = sorted_entries params"
  note ok = sorted_entries_ok [OF assms(1), folded cs_def]
  obtain width where width: "head_dim (mt_config m) = Inr width"
    using assms(7) by (auto simp: export_gguf_def Let_def obind_eq_Inr)
  define kvs where "kvs = metadata_entries f32_bits m width"
  define n where "n = gguf_header_length f32_bits m width cs"
  define aligned where "aligned = 32 * ((n + 31) div 32)"
  define tail where "tail = replicate (aligned - n) 0 @ concat (map entry_bytes cs)"
  define infos where "infos = infos_bytes (int aligned) cs @ tail"
  define kv_part where "kv_part = concat (map kv_bytes kvs) @ infos"
  have data: "data = gguf_front (length cs) @ kv_part"
    using export_gguf_bytes [OF width, of f32_bits params] assms(7)
    by (simp add: gguf_bytes_front cs_def n_def aligned_def tail_def kvs_def kv_part_def infos_def)
  have front: "length (gguf_front (length cs) @ concat (map kv_bytes kvs) @ infos_bytes (int aligned) cs @ replicate (aligned - n) 0) = aligned"
  proof -
    have "length (gguf_front (length cs) @ concat (map kv_bytes kvs) @ infos_bytes (int aligned) cs) = n"
      by (simp add: n_def gguf_header_length_def kvs_def length_infos)
    moreover have "n \<le> aligned" unfolding aligned_def by presburger
    ultimately show ?thesis by simp
  qed
  have data': "data = (gguf_front (length cs) @ concat (map kv_bytes kvs) @ infos_bytes (int aligned) cs @ replicate (aligned - n) 0) @ concat (map entry_bytes cs)"
    by (simp add: data kv_part_def infos_def tail_def)
  have len: "length data = aligned + length (concat (map entry_bytes cs))"
    unfolding data' length_append [of _ "concat (map entry_bytes cs)"] front by (rule refl)
  have small: "56 * length cs \<le> 2 ^ 48" "length cs < 2 ^ 63" using assms(1) ok(2) by (simp_all add: gguf_entries_ok_def)
  have f4: "take_le 4 (put_uint32 (int gguf_magic) @ xs) = Inr (gguf_magic, xs)" "take_le 4 (put_uint32 3 @ xs) = Inr (3, xs)" for xs
    using take_le_put(1) [of "int gguf_magic" xs] take_le_put(1) [of 3 xs] by (simp_all add: gguf_magic_def)
  have f8: "take_le 8 (put_uint64 (int (length cs)) @ xs) = Inr (length cs, xs)" "take_le 8 (put_uint64 21 @ xs) = Inr (21, xs)" for xs
    using take_le_int(2) [of "length cs" xs] small take_le_put(2) [of 21 xs] by simp_all
  have magic: "le_nat (take 4 data) = gguf_magic" and version: "read_le 4 (drop 4 data) = (Inr 3 :: (gguf_error, nat) outcome)"
    and front8: "drop 8 data = put_uint64 (int (length cs)) @ put_uint64 21 @ kv_part"
    using f4(1) [of "drop 4 data"] f4(2) [of "drop 8 data"] by (simp_all add: data gguf_front_def take_le_def obind_eq_Inr)
  have "24 \<le> length data" by (simp add: data gguf_front_def)
  then have head: "\<not> (length data < 4 \<or> le_nat (take 4 data) \<noteq> gguf_magic)" "\<not> int 3 > int (length data) - 4" using magic by simp_all
  have kv: "read_kvs (loop_count 21) kv_part Map.empty = Inr (map_of (rev kvs), infos)"
    using read_kvs_bytes [OF metadata_entries_ok(1) [OF assms(2)], of f32_bits width infos Map.empty] metadata_entries_ok(2) [OF assms(2), of f32_bits width]
    by (simp add: kvs_def kv_part_def loop_count_def)
  have info: "read_infos (loop_count (length cs)) infos = Inr (infos_of (int aligned) cs, tail)"
    unfolding infos_def using small(2) assms(8) len
    by (subst loop_count_def) (auto intro!: read_infos_bytes [OF ok(1)] simp: data_size_bytes)
  have config: "parse_config f32_of (map_of (rev kvs)) = Inr (gguf_config (mt_config m))"
    unfolding kvs_def by (rule parse_config_entries [OF assms(2,6,4,5)])
  have tensors: "ofold (load_tensor data) (infos_of (int aligned) cs) Map.empty = Inr (map_of params)"
    using load_tensors_ok [OF sorted_entries_fit [OF ok(3)] data' [unfolded cs_def] assms(8), of Map.empty, folded cs_def, unfolded front fold_entries]
      map_of_sorted_entries [of params] assms(1) by (simp add: cs_def gguf_entries_ok_def)
  have step: "optional_uint32 (map_of (rev kvs)) ''nanochat.step'' = mt_step m"
    unfolding kvs_def metadata_lookup(14) [OF assms(2)] by (rule u32_of_fits [OF assms(3)])
  have alloc: "\<not> \<not> make_ok 56 (int (length cs))" using small by (simp add: make_ok_def)
  show ?thesis
    unfolding load_gguf_def option.case if_not_P [OF head(1)] fail_if_def version obind_simps front8 f8 prod.case kv info config tensors step
    using head alloc by (simp add: panic_if_def)
qed


theorem gguf_roundtrip_witness:
  "\<exists>data. export_gguf (\<lambda>_. 0) (example_meta\<lparr>mt_config := zero_config\<lparr>num_head := 1, num_kv_head := 1, embed_dim := 2\<rparr>\<rparr>) example_params = Inr data \<and>
    load_gguf (\<lambda>_. 0) (Some data) =
    Inr (\<lparr>mt_step = 3, mt_val_bpb = None, mt_config = zero_config\<lparr>num_head := 1, num_kv_head := 1, embed_dim := 2\<rparr>, mt_user = Map.empty,
      mt_loop = Map.empty, mt_loader = Map.empty, mt_params = []\<rparr>, map_of example_params)"
proof -
  define c where "c = zero_config\<lparr>num_head := 1, num_kv_head := 1, embed_dim := 2\<rparr>"
  define m where "m = example_meta\<lparr>mt_config := c\<rparr>"
  have width: "head_dim (mt_config m) = Inr 2" unfolding m_def c_def by code_simp
  have same: "gguf_config c = c" by (simp add: gguf_config_def c_def zero_config_def)
  have ok: "gguf_entries_ok example_params"
    by (simp add: example_params_def gguf_entries_ok_def entry_ok_def tensor_fits_def)
  have valid: "validate c = Inr ()" unfolding c_def by code_simp
  have fits: "gguf_fits (mt_config m)" "u32_fits (mt_step m)" "moe_clamp c = 0" "moe_scale c = 0"
    by (simp_all add: m_def c_def gguf_fits_def u32_fits_def zero_config_def example_meta_def)
  have sorted: "sorted_entries example_params = rev example_params" by code_simp
  have "length (gguf_bytes (\<lambda>_. 0) m 2 (sorted_entries example_params)) < 2 ^ 63"
  proof -
    have "length (concat (map kv_bytes (metadata_entries (\<lambda>_. 0) m 2))) < 2 ^ 20"
      by (simp add: metadata_entries_def kv_bytes_def string_bytes_def Let_def ascii_def special_tokens_def m_def c_def zero_config_def)
    then show ?thesis unfolding sorted
      by (simp add: gguf_bytes_front gguf_header_length_def gguf_front_def example_params_def length_infos info_bytes_def info_front_def
          string_bytes_def entry_bytes_def)
  qed
  then have "load_gguf (\<lambda>_. 0) (Some (gguf_bytes (\<lambda>_. 0) m 2 (sorted_entries example_params))) =
      Inr (\<lparr>mt_step = mt_step m, mt_val_bpb = None, mt_config = gguf_config (mt_config m), mt_user = Map.empty, mt_loop = Map.empty,
          mt_loader = Map.empty, mt_params = []\<rparr>, map_of example_params)"
    using fits valid same by (intro gguf_roundtrip [OF ok fits(1,2) _ _ _ export_gguf_bytes [OF width]]) (simp_all add: m_def)
  then show ?thesis
    using export_gguf_bytes [OF width, of "\<lambda>_. 0" example_params] same by (simp add: m_def c_def [symmetric] example_meta_def)
qed

section \<open>Reading always ends\<close>

lemma take_le_rest: "take_le k src = Inr (n, rest) \<Longrightarrow> k \<le> length src \<and> rest = drop k src"
  by (auto simp: take_le_def obind_eq_Inr read_le_def split: if_splits)

lemma read_string_rest: "read_string src = Inr (s, rest) \<Longrightarrow> length rest + 8 \<le> length src"
  by (auto simp: read_string_def outcome_Inr dest: take_le_rest)

lemma returns_take_le [simp]: "returns (take_le k src)"
  by (auto simp: take_le_def intro: returns_intros)

lemma returns_read_string [simp]: "returns (read_string src)"
  by (auto simp: read_string_def intro!: returns_intros)

text \<open>By induction on the fuel, for values and elements at once.\<close>

lemma read_rest:
  "(\<forall>ty src v rest. read_value fuel ty src = Inr (v, rest) \<longrightarrow> length rest < length src) \<and>
   (\<forall>n ty src vs rest. read_elements fuel n ty src = Inr (vs, rest) \<longrightarrow> length rest \<le> length src)"
proof (induction fuel)
  case 0
  have "length rest \<le> length src" if "read_elements 0 n ty src = Inr (vs, rest)" for n ty src vs and rest :: "byte list"
    using that by (cases n) simp_all
  then show ?case by auto
next
  case (Suc fuel)
  have v: "length rest < length src" if run: "read_value (Suc fuel) ty src = Inr (v, rest)" for ty src v rest
  proof (cases "ty = 9")
    case True
    with run obtain ws n ty' where "12 \<le> length src" "read_elements fuel n ty' (drop 12 src) = Inr (ws, rest)"
      by (auto simp: outcome_Inr dest!: take_le_rest)
    moreover from this have "length rest \<le> length (drop 12 src)" using Suc by blast
    ultimately show ?thesis by simp
  next
    case False
    with run show ?thesis
      by (auto simp: outcome_Inr neq_Nil_conv split: if_splits dest!: take_le_rest read_string_rest)
  qed
  have "length rest \<le> length src" if run: "read_elements (Suc fuel) n ty src = Inr (vs, rest)" for n ty src vs rest
  proof (cases n)
    case (Suc k)
    with run obtain v mid ws where "read_value fuel ty src = Inr (v, mid)" "read_elements fuel k ty mid = Inr (ws, rest)"
      by (auto simp: obind_eq_Inr)
    then have "length mid < length src" "length rest \<le> length mid" using \<open>_ \<and> _\<close> by blast+
    then show ?thesis by simp
  qed (use run in simp)
  with v show ?case by blast
qed

lemma read_returns:
  "(\<forall>ty src. 2 * length src + 1 \<le> fuel \<longrightarrow> returns (read_value fuel ty src)) \<and>
   (\<forall>n ty src. 2 * length src + 2 \<le> fuel \<longrightarrow> returns (read_elements fuel n ty src))"
proof (induction fuel)
  case (Suc fuel)
  have v: "returns (read_value (Suc fuel) ty src)" if len: "2 * length src + 1 \<le> Suc fuel" for ty src
  proof -
    have "returns (read_elements fuel n ty' (drop 12 src))" if "12 \<le> length src" for n ty'
    proof -
      have "2 * length (drop 12 src) + 2 \<le> fuel" using len that by simp
      then show ?thesis using Suc by blast
    qed
    then show ?thesis by (auto intro!: returns_intros dest!: take_le_rest)
  qed
  have "returns (read_elements (Suc fuel) n ty src)" if len: "2 * length src + 2 \<le> Suc fuel" for n ty src
  proof (cases n)
    case (Suc k)
    have "returns (read_value fuel ty src)" using len \<open>_ \<and> _\<close> by simp
    moreover have "returns (read_elements fuel k ty rest)" if "read_value fuel ty src = Inr (v, rest)" for v rest
    proof -
      have "length rest < length src" using that read_rest by blast
      then have "2 * length rest + 2 \<le> fuel" using len by simp
      then show ?thesis using \<open>_ \<and> _\<close> by blast
    qed
    ultimately show ?thesis using Suc by (auto intro!: returns_intros)
  qed simp
  with v show ?case by blast
qed simp

lemma returns_read_kvs [simp]: "returns (read_kvs n src metadata)"
proof (induction n arbitrary: src metadata)
  case (Suc n)
  have "returns (read_value (2 * length rest + 1) ty rest)" for ty and rest :: "byte list" using read_returns by blast
  with Suc show ?case by (auto intro!: returns_intros simp del: read_value.simps)
qed simp

lemma returns_read_dims [simp]: "returns (read_dims n src)"
  by (induction n arbitrary: src) (auto intro!: returns_intros)

lemma returns_read_infos [simp]: "returns (read_infos n src)"
  by (induction n arbitrary: src) (auto intro!: returns_intros)

lemma returns_load_tensor [simp]: "returns (load_tensor data info params)"
  by (auto simp: load_tensor_def tensor_of_dims_def suffix_of_def Let_def intro!: returns_intros returns_omap)

lemma returns_get [simp]: "returns (get_uint32 metadata key)" "returns (get_string metadata key)"
  by (auto simp: get_uint32_def get_string_def split: option.split gguf_value.split)

lemma returns_parse_config [simp]: "returns (parse_config f32_of metadata)"
proof -
  have "returns (case x of Inl _ \<Rightarrow> Inl Panic | Inr _ \<Rightarrow> Inr c)" for x :: "(unit, unit) outcome" and c :: config
    by (cases x) simp_all
  then show ?thesis unfolding parse_config_def Let_def by (intro returns_obind returns_get)
qed

text \<open>
  \<open>LoadGGUF\<close> comes to an end on every file: with a result, an error or a panic. The fuel of two units for each byte
  that is left is enough for values nested in arrays.
\<close>
theorem load_gguf_returns: "returns (load_gguf f32_of file)"
  by (auto simp: load_gguf_def intro!: returns_intros returns_ofold split: option.split)

section \<open>What does not survive, and what is not refused\<close>

text \<open>
  The rotary width is not among the fields of a GGUF file, and what \<open>ConfigForDepth\<close> sets it to is not the default: a
  model that was trained with 64 rotary dimensions of 128 is loaded with 128.
\<close>

lemma gguf_loses_rotary:
  "\<exists>c. config_for_depth 4 32768 64 128 2048 ''L'' = Inr c \<and> rotary_dimension c = Inr 64 \<and> rotary_dimension (gguf_config c) = Inr 128"
proof -
  define c where "c = zero_config\<lparr>sequence_len := 2048, vocab_size := 32768, num_layer := 4, num_head := 2, num_kv_head := 2, embed_dim := 256,
    window_pattern := ''L'', rotary_dims := 64\<rparr>"
  have "config_for_depth 4 32768 64 128 2048 ''L'' = Inr c" unfolding c_def by code_simp
  moreover have "rotary_dimension c = Inr 64" "rotary_dimension (gguf_config c) = Inr 128" unfolding c_def by code_simp+
  ultimately show ?thesis by blast
qed

text \<open>A file cut off behind its magic is not refused with an error; the loader panics.\<close>

lemma gguf_truncated_panics: "load_gguf f32_of (Some (put_uint32 (int gguf_magic))) = Inl Panic"
proof -
  have "le_nat (put_uint32 (int gguf_magic)) = gguf_magic"
    using take_le_put(1) [of "int gguf_magic" "[]"] by (simp add: take_le_def gguf_magic_def)
  then show ?thesis by (simp add: load_gguf_def read_le_def)
qed

end
