(* ===== verification/Sampler.thy ===== *)
theory Sampler
  imports Top_K
begin

text \<open>
  src/inference/sampler.go, \<open>SampleMultinomial\<close> of src/tensors/random.go, \<open>ArgMax\<close> of src/kernels/scalar/reduce.go:
  the next token from a row of logits; and \<open>TopKIndices\<close> of src/kernels/scalar/moe.go, which chooses experts.

  The random generator is a state and a function that draws the next uniform float32 from it; \<open>gumbel\<close> is the double
  logarithm of the drawn number. Both are arguments, as is float32 arithmetic. \<open>sort.Slice\<close> of the kept values is a stable sort here:
  without NaN, sorted values are the same whatever the algorithm.
\<close>

section \<open>The largest value\<close>

definition row_arg_max :: "f32 list \<Rightarrow> nat" where
  "row_arg_max vs = fold (\<lambda>i best. if f32_gt (vs ! i) (vs ! best) then i else best) [1..<length vs] 0"

section \<open>The k-th largest value\<close>

text \<open>The minimum of the kept values stands first; a larger value takes its place and moves up.\<close>

function bubble_up :: "f32 list \<Rightarrow> nat \<Rightarrow> f32 list" where
  "bubble_up kept index =
     (if index + 1 < length kept \<and> f32_gt (kept ! index) (kept ! (index + 1)) then bubble_up (swap_cells index (index + 1) kept) (index + 1)
      else kept)"
  by auto
termination by (relation "measure (\<lambda>(kept, index). length kept - index)") auto

declare bubble_up.simps [simp del]

definition keep_larger :: "f32 \<Rightarrow> f32 list \<Rightarrow> f32 list" where
  "keep_larger value kept = (if f32_gt value (kept ! 0) then bubble_up (kept[0 := value]) 0 else kept)"

definition kth_largest :: "f32 list \<Rightarrow> nat \<Rightarrow> (unit, f32) outcome" where
  "kth_largest values' rank' =
     panic_if (rank' > length values' \<or> rank' = 0)
       (Inr (fold keep_larger (drop rank' values') (slice_stable (\<lambda>x y. f32_gt y x) (take rank' values')) ! 0))"

definition f32_ge :: "f32 \<Rightarrow> f32 \<Rightarrow> bool" where
  "f32_ge x y \<longleftrightarrow> \<not> f32_nan x \<and> \<not> f32_nan y \<and> f32_key x \<ge> f32_key y"

definition mask_top_k :: "f32 list \<Rightarrow> nat \<Rightarrow> (unit, f32 list) outcome" where
  "mask_top_k logits top_k =
     obind (kth_largest logits top_k) (\<lambda>threshold. Inr (map (\<lambda>value. if f32_ge value threshold then value else neg_inf) logits))"

section \<open>Sampling\<close>

text \<open>
  \<open>score\<close> stands for \<open>value/temperature + gumbel\<close>; \<open>next\<close> draws. The state is the generator, the best index and score.
\<close>

record 'g sampling =
  sm_draw :: "'g \<Rightarrow> f32 \<times> 'g"
  sm_gumbel :: "f32 \<Rightarrow> f32"
  sm_ops :: float_ops

definition gumbel_score :: "'g sampling \<Rightarrow> f32 \<Rightarrow> f32 \<Rightarrow> f32 \<Rightarrow> f32" where
  "gumbel_score S temperature value uniform =
     (let uniform = (if f32_ge 0 uniform then 0x2B8CBCCC else uniform) in
      fo_add (sm_ops S) (fo_div (sm_ops S) value temperature) (sm_gumbel S uniform))"

definition multinomial_step :: "'g sampling \<Rightarrow> f32 \<Rightarrow> f32 list \<Rightarrow> nat \<Rightarrow> 'g \<times> nat \<times> f32 \<Rightarrow> 'g \<times> nat \<times> f32" where
  "multinomial_step S temperature logits index = (\<lambda>(g, best_index, best_score).
     let (uniform, g) = sm_draw S g; score = gumbel_score S temperature (logits ! index) uniform in
     if f32_gt score best_score then (g, index, score) else (g, best_index, best_score))"

definition sample_multinomial :: "'g sampling \<Rightarrow> 'g \<Rightarrow> f32 list \<Rightarrow> f32 \<Rightarrow> nat \<times> 'g" where
  "sample_multinomial S g logits temperature =
     (if f32_ge 0 temperature then (row_arg_max logits, g)
      else let (g, best_index, _) = fold (multinomial_step S temperature logits) [0..<length logits] (g, 0, neg_inf)
        in (best_index, g))"

definition sample_row :: "'g sampling \<Rightarrow> f32 list \<Rightarrow> 'g \<Rightarrow> f32 \<Rightarrow> int \<Rightarrow> (unit, nat \<times> 'g) outcome" where
  "sample_row S logits g temperature top_k =
     (if f32_ge 0 temperature then Inr (row_arg_max logits, g)
      else obind (if 0 < top_k \<and> top_k < int (length logits) then mask_top_k logits (nat top_k) else Inr logits) (\<lambda>row.
        Inr (sample_multinomial S g row temperature)))"

definition sample_next_token :: "'g sampling \<Rightarrow> tensor \<Rightarrow> 'g \<Rightarrow> f32 \<Rightarrow> int \<Rightarrow> (unit, nat list \<times> 'g) outcome" where
  "sample_next_token S logits g temperature top_k =
     obind (shape_dim 0 logits) (\<lambda>batch. obind (shape_dim 1 logits) (\<lambda>vocab.
       ofold (\<lambda>index (tokens, g).
           obind (slice_of (index * vocab) ((index + 1) * vocab) (ts_data logits)) (\<lambda>row.
           obind (sample_row S row g temperature top_k) (\<lambda>(token, g). Inr (tokens @ [token], g)))) [0..<batch] ([], g)))"

section \<open>Choosing experts\<close>

text \<open>Slot after slot the largest score left; a chosen score is overwritten with minus infinity.\<close>

primrec select_slots :: "nat \<Rightarrow> f32 list \<Rightarrow> nat list" where
  "select_slots 0 working = []"
| "select_slots (Suc slots) working = (let best = row_arg_max working in best # select_slots slots (working[best := neg_inf]))"

definition kernel_top_k :: "f32 list \<Rightarrow> nat \<Rightarrow> nat \<Rightarrow> int \<Rightarrow> (unit, nat list list) outcome" where
  "kernel_top_k scores rows n k =
     (if n = 0 \<or> k \<le> 0 then Inr []
      else omap (\<lambda>row. obind (slice_of (row * n) ((row + 1) * n) scores) (\<lambda>working. Inr (select_slots (nat (min k (int n))) working))) [0..<rows])"

section \<open>Facts\<close>

lemma arg_max_best:
  assumes "no_nan vs" "vs \<noteq> []"
  shows "row_arg_max vs < length vs" "j < length vs \<Longrightarrow> rank vs (row_arg_max vs) \<le> rank vs j"
proof -
  define best where "best m = fold (\<lambda>i best. if f32_gt (vs ! i) (vs ! best) then i else best) [1..<m] 0" for m
  have inv: "best m < m \<and> (\<forall>j < m. rank vs (best m) \<le> rank vs j)" if "0 < m" "m \<le> length vs" for m
    using that
  proof (induction m rule: nat_induct_non_zero)
    case 1
    then show ?case by (simp add: best_def)
  next
    case (Suc m)
    then have IH: "best m < m" "\<And>j. j < m \<Longrightarrow> rank vs (best m) \<le> rank vs j" by auto
    have step: "best (Suc m) = (if f32_gt (vs ! m) (vs ! best m) then m else best m)"
      using Suc.hyps by (simp add: best_def)
    have "f32_gt (vs ! m) (vs ! best m) \<longleftrightarrow> f32_key (vs ! best m) < f32_key (vs ! m)"
      using no_nan_nth [OF assms(1)] IH(1) Suc.prems by (intro f32_compare) simp_all
    then have new: "f32_gt (vs ! m) (vs ! best m) \<longleftrightarrow> rank vs m < rank vs (best m)"
      using IH(1) by (auto simp: rank_def less_prod_def)
    show ?case
    proof (cases "f32_gt (vs ! m) (vs ! best m)")
      case True
      have "rank vs m \<le> rank vs j" if "j < Suc m" for j
        using new True IH(2) [of j] that by (cases "j = m") auto
      then show ?thesis using True by (simp add: step)
    next
      case False
      have "rank vs (best m) \<le> rank vs j" if "j < Suc m" for j
        using new False IH(2) [of j] that by (cases "j = m") auto
      then show ?thesis using False IH(1) by (simp add: step)
    qed
  qed
  have "row_arg_max vs = best (length vs)" by (simp add: row_arg_max_def best_def)
  then show "row_arg_max vs < length vs" "j < length vs \<Longrightarrow> rank vs (row_arg_max vs) \<le> rank vs j"
    using inv [of "length vs"] assms(2) by simp_all
qed

lemma neg_inf_not_nan: "\<not> f32_nan neg_inf"
  by code_simp

lemma arg_max_unique:
  assumes "no_nan vs" "a < length vs" "\<And>j. j < length vs \<Longrightarrow> rank vs a \<le> rank vs j"
  shows "row_arg_max vs = a"
proof -
  have "vs \<noteq> []" using assms(2) by auto
  note best = arg_max_best [OF assms(1) this]
  have "rank vs (row_arg_max vs) \<le> rank vs a" "rank vs a \<le> rank vs (row_arg_max vs)" using best assms(2,3) by blast+
  then have "rank vs (row_arg_max vs) = rank vs a" by (rule antisym)
  then show ?thesis by simp
qed



text \<open>With fewer scores above minus infinity, one index is chosen again and again.\<close>

lemma select_slots_repeats: "select_slots 2 [0x3F800000, 0xFF800000] = [0, 0]"
  by code_simp


section \<open>The k-th largest\<close>

primrec insert_key :: "f32 \<Rightarrow> f32 list \<Rightarrow> f32 list" where
  "insert_key x [] = [x]"
| "insert_key x (z # zs) = (if f32_gt x z then z # insert_key x zs else x # z # zs)"

lemma bubble_up_insert: "bubble_up (ys @ x # zs) (length ys) = ys @ insert_key x zs"
proof (induction zs arbitrary: ys)
  case Nil
  then show ?case by (simp add: bubble_up.simps)
next
  case (Cons z zs)
  have "swap_cells (length ys) (length ys + 1) (ys @ x # z # zs) = (ys @ [z]) @ x # zs"
    by (simp add: swap_cells_def nth_append list_update_append)
  then show ?case
    using Cons.IH [of "ys @ [z]"] by (subst bubble_up.simps) (simp add: nth_append)
qed

lemma insert_key_insort:
  assumes "no_nan (x # zs)"
  shows "map f32_key (insert_key x zs) = insort (f32_key x) (map f32_key zs)" "set (insert_key x zs) = insert x (set zs)"
  using assms by (induction zs) (auto simp: f32_compare)

text \<open>The kept values are the largest so far, in ascending order.\<close>

lemma drop_insort:
  fixes xs :: "'a :: linorder list"
  assumes "sorted xs" "j < length xs"
  shows "drop (Suc j) (insort x xs) = (if xs ! j < x then insort x (drop (Suc j) xs) else drop j xs)"
  using assms
proof (induction xs arbitrary: j)
  case (Cons y ys)
  show ?case
  proof (cases j)
    case 0
    then show ?thesis by auto
  next
    case (Suc i)
    then have i: "i < length ys" "sorted ys" "y \<le> ys ! i" using Cons.prems by auto
    show ?thesis
    proof (cases "x \<le> y")
      case True
      then show ?thesis using Suc i by simp
    next
      case False
      then show ?thesis using Suc Cons.IH [OF i(2,1)] by simp
    qed
  qed
qed simp

lemma slice_ascending:
  assumes "no_nan xs"
  shows "map f32_key (slice_stable (\<lambda>x y. f32_gt y x) xs) = sort (map f32_key xs)" "set (slice_stable (\<lambda>x y. f32_gt y x) xs) = set xs"
proof -
  have "slice_stable (\<lambda>x y. f32_gt y x) xs = sort_key f32_key xs"
    using assms by (intro slice_stable_sort) (simp add: no_nan_def f32_compare)
  moreover have "sort (map f32_key xs) = map f32_key (sort_key f32_key xs)" by (rule properties_for_sort) simp_all
  ultimately show "map f32_key (slice_stable (\<lambda>x y. f32_gt y x) xs) = sort (map f32_key xs)" "set (slice_stable (\<lambda>x y. f32_gt y x) xs) = set xs"
    by simp_all
qed

lemma keep_larger_drop:
  assumes "no_nan (x # kept)" "map f32_key kept = drop j S" "sorted S" "j < length S"
  shows "map f32_key (keep_larger x kept) = drop (Suc j) (insort (f32_key x) S)" "set (keep_larger x kept) \<subseteq> insert x (set kept)"
proof -
  have "kept \<noteq> []" using assms(2,4) by auto
  then obtain z zs where kept: "kept = z # zs" by (cases kept) auto
  have z: "f32_key z = S ! j" "map f32_key zs = drop (Suc j) S"
    using assms(2,4) by (simp_all add: kept Cons_nth_drop_Suc [symmetric])
  have bubble: "bubble_up (x # zs) 0 = insert_key x zs" using bubble_up_insert [of "[]" x zs] by simp
  have nn: "no_nan (x # zs)" "f32_gt x z \<longleftrightarrow> S ! j < f32_key x" using assms(1) by (auto simp: kept f32_compare z(1))
  show "map f32_key (keep_larger x kept) = drop (Suc j) (insort (f32_key x) S)"
    using nn insert_key_insort(1) [OF nn(1)] assms(2) z drop_insort [OF assms(3,4), of "f32_key x"] by (simp add: keep_larger_def kept bubble)
  show "set (keep_larger x kept) \<subseteq> insert x (set kept)"
    using insert_key_insort(2) [OF nn(1)] by (auto simp: keep_larger_def kept bubble)
qed

lemma kth_largest_facts:
  assumes "no_nan vs" "0 < k" "k \<le> length vs"
  shows "\<exists>x. kth_largest vs k = Inr x \<and> x \<in> set vs \<and> f32_key x = sort (map f32_key vs) ! (length vs - k)"
proof -
  define start where "start = slice_stable (\<lambda>x y. f32_gt y x) (take k vs)"
  have inv: "map f32_key (fold keep_larger ys start) = drop (length ys) (sort (map f32_key (take k vs @ ys))) \<and>
      set (fold keep_larger ys start) \<subseteq> set (take k vs @ ys)" if "ys = take m (drop k vs)" for m ys
    using that
  proof (induction ys arbitrary: m rule: rev_induct)
    case Nil
    then show ?case using slice_ascending [of "take k vs"] no_nan_take [OF assms(1), of k] by (simp add: start_def)
  next
    case (snoc y ys)
    let ?S = "sort (map f32_key (take k vs @ ys))"
    have "ys = take (length ys) (ys @ [y])" by simp
    then have "ys = take (min (length ys) m) (drop k vs)" using snoc.prems by (metis take_take)
    from snoc.IH [OF this] have IH: "map f32_key (fold keep_larger ys start) = drop (length ys) ?S" "set (fold keep_larger ys start) \<subseteq> set (take k vs @ ys)"
      by auto
    have all: "set (take k vs @ ys @ [y]) \<subseteq> set vs" using snoc.prems set_take_subset set_drop_subset by (metis Un_subset_iff append_assoc set_append subset_trans)
    then have "no_nan (y # fold keep_larger ys start)" using assms(1) IH(2) by (auto simp: no_nan_def)
    moreover have "length ys < length ?S" using assms(2,3) by simp
    ultimately have "map f32_key (keep_larger y (fold keep_larger ys start)) = drop (Suc (length ys)) (insort (f32_key y) ?S)"
      "set (keep_larger y (fold keep_larger ys start)) \<subseteq> insert y (set (fold keep_larger ys start))"
      using keep_larger_drop [OF _ IH(1) sorted_sort, of y] by blast+
    moreover have "insort (f32_key y) ?S = sort (map f32_key (take k vs @ ys @ [y]))"
      by (rule properties_for_sort [symmetric]) (simp_all add: sorted_insort)
    ultimately show ?case using IH(2) by auto
  qed
  define kept where "kept = fold keep_larger (drop k vs) start"
  have k: "map f32_key kept = drop (length vs - k) (sort (map f32_key vs))" "set kept \<subseteq> set vs"
    using inv [of "drop k vs" "length vs"] by (simp_all add: kept_def)
  then have len: "length kept = k" using assms(3) by (metis diff_diff_cancel length_drop length_map length_sort)
  have "f32_key (kept ! 0) = map f32_key kept ! 0" using len assms(2) by simp
  also have "\<dots> = sort (map f32_key vs) ! (length vs - k)" using k(1) assms(2,3) by simp
  finally have "f32_key (kept ! 0) = sort (map f32_key vs) ! (length vs - k)" .
  moreover have "kept ! 0 \<in> set vs" using k(2) len assms(2) by (metis nth_mem subsetD)
  moreover have "kth_largest vs k = Inr (kept ! 0)" using assms(2,3) by (simp add: kth_largest_def kept_def start_def)
  ultimately show ?thesis by blast
qed


section \<open>Sampling from the best\<close>

text \<open>The numbers that \<open>n\<close> calls of the generator draw, and the score each logit of a row gets with its own.\<close>

primrec draws :: "'g sampling \<Rightarrow> nat \<Rightarrow> 'g \<Rightarrow> f32 list \<times> 'g" where
  "draws S 0 g = ([], g)"
| "draws S (Suc n) g = (let (us, g) = draws S n g; (u, g) = sm_draw S g in (us @ [u], g))"

definition first_best :: "f32 list \<Rightarrow> nat \<Rightarrow> bool" where
  "first_best scores i \<longleftrightarrow> i < length scores \<and> f32_gt (scores ! i) neg_inf \<and>
     (\<forall>j < length scores. \<not> f32_gt (scores ! j) (scores ! i)) \<and> (\<forall>j < i. \<not> f32_ge (scores ! j) (scores ! i))"

lemma draws_length: "length (fst (draws S n g)) = n"
  by (induction n) (auto simp: Let_def split: prod.splits)

lemma multinomial_run:
  fixes S :: "'g sampling" and row :: "f32 list" and temperature :: f32 and us :: "f32 list"
  assumes "draws S n g = (us, g')"
  defines "scores \<equiv> map2 (gumbel_score S temperature) row us"
  assumes "length row = n"
  shows "\<exists>i score. fold (multinomial_step S temperature row) [0..<n] (g, 0, neg_inf) = (g', i, score) \<and>
    (score = neg_inf \<and> i = 0 \<and> (\<forall>j < n. \<not> f32_gt (scores ! j) neg_inf) \<or> score = scores ! i \<and> first_best scores i)"
proof -
  let ?run = "\<lambda>m. fold (multinomial_step S temperature row) [0..<m] (g, 0, neg_inf)"
  have prefix: "fst (draws S m g) = take m us" if "m \<le> n" for m
    using that assms(1)
  proof (induction n arbitrary: us g')
    case (Suc n)
    obtain us1 g1 where one: "draws S n g = (us1, g1)" by fastforce
    obtain u g2 where two: "sm_draw S g1 = (u, g2)" by fastforce
    have us: "us = us1 @ [u]" using Suc.prems(2) by (simp add: one two)
    have len: "length us1 = n" using draws_length [of S n g] by (simp add: one)
    show ?case
    proof (cases "m \<le> n")
      case True
      then show ?thesis using Suc.IH [OF _ one] us len by simp
    next
      case False
      then have "m = Suc n" using Suc.prems(1) by simp
      then show ?thesis using Suc.prems(2) us len by simp
    qed
  qed simp
  have len: "length us = n" using draws_length [of S n g] assms(1) by simp
  have "\<exists>i score. ?run m = (snd (draws S m g), i, score) \<and>
      (score = neg_inf \<and> i = 0 \<and> (\<forall>j < m. \<not> f32_gt (scores ! j) neg_inf) \<or>
       score = scores ! i \<and> i < m \<and> f32_gt score neg_inf \<and> (\<forall>j < m. \<not> f32_gt (scores ! j) score) \<and> (\<forall>j < i. \<not> f32_ge (scores ! j) score))"
    if "m \<le> n" for m
    using that
  proof (induction m)
    case (Suc m)
    then obtain i score where IH: "?run m = (snd (draws S m g), i, score)"
      "score = neg_inf \<and> i = 0 \<and> (\<forall>j < m. \<not> f32_gt (scores ! j) neg_inf) \<or>
       score = scores ! i \<and> i < m \<and> f32_gt score neg_inf \<and> (\<forall>j < m. \<not> f32_gt (scores ! j) score) \<and> (\<forall>j < i. \<not> f32_ge (scores ! j) score)"
      by auto
    obtain us1 g1 where one: "draws S m g = (us1, g1)" by fastforce
    obtain u g2 where two: "sm_draw S g1 = (u, g2)" by fastforce
    have "take (Suc m) us = us1 @ [u]" "length us1 = m"
      using prefix [OF Suc.prems] draws_length [of S m g] by (simp_all add: one two)
    then have "us ! m = u" using nth_take [of m "Suc m" us] by (simp add: nth_append)
    then have new: "scores ! m = gumbel_score S temperature (row ! m) u"
      using Suc.prems len assms(3) by (simp add: scores_def)
    have step: "?run (Suc m) = (if f32_gt (scores ! m) score then (g2, m, scores ! m) else (g2, i, score))"
      using IH(1) by (simp add: multinomial_step_def one two new Let_def)
    have state: "snd (draws S (Suc m) g) = g2" by (simp add: one two)
    show ?case
    proof (cases "f32_gt (scores ! m) score")
      case True
      have gt: "f32_gt (scores ! m) neg_inf" using True IH(2) by (auto simp: f32_gt_def)
      have old: "\<not> f32_gt (scores ! j) score" if "j < m" for j using IH(2) that by auto
      have "\<not> f32_ge (scores ! j) (scores ! m)" if "j < m" for j
        using old [OF that] True by (auto simp: f32_gt_def f32_ge_def)
      moreover have "\<not> f32_gt (scores ! j) (scores ! m)" if "j < Suc m" for j
        using old [of j] True that by (cases "j = m") (auto simp: f32_gt_def less_Suc_eq)
      ultimately show ?thesis
        unfolding step state using True gt by (intro exI [of _ m] exI [of _ "scores ! m"]) simp
    next
      case False
      have "\<not> f32_gt (scores ! j) score" if "j < Suc m" for j
        using IH(2) False that by (cases "j = m") (auto simp: less_Suc_eq)
      with IH(2) show ?thesis
        unfolding step state using False by (intro exI [of _ i] exI [of _ score]) auto
    qed
  qed simp
  from this [of n] show ?thesis
    using assms(1,3) len by (auto simp: first_best_def scores_def)
qed

definition kept_by_top_k :: "f32 list \<Rightarrow> int \<Rightarrow> f32 \<Rightarrow> bool" where
  "kept_by_top_k logits top_k value \<longleftrightarrow> sort (map f32_key logits) ! (length logits - nat top_k) \<le> f32_key value"

text \<open>
  C8. With a positive temperature and a top-k below the vocabulary, one number is drawn for each logit, and the token that is sampled is,
  of those whose logit is at least the k-th largest, the first with the best score: its logit by the temperature plus the Gumbel
  noise of its own draw. Asked of the arithmetic, for the numbers drawn: minus infinity does not score above minus infinity,
  and not every kept logit scores minus infinity or NaN.
\<close>
theorem sample_row_top_k:
  assumes "no_nan logits" "0 < top_k" "top_k < int (length logits)" "\<not> f32_ge 0 temperature"
    "draws S (length logits) g = (us, g')"
    "\<forall>u \<in> set us. \<not> f32_gt (gumbel_score S temperature neg_inf u) neg_inf"
    "\<exists>j < length logits. kept_by_top_k logits top_k (logits ! j) \<and> f32_gt (gumbel_score S temperature (logits ! j) (us ! j)) neg_inf"
  shows "\<exists>i. sample_row S logits g temperature top_k = Inr (i, g') \<and> i < length logits \<and> kept_by_top_k logits top_k (logits ! i) \<and>
    (\<forall>j < length logits. kept_by_top_k logits top_k (logits ! j) \<longrightarrow>
      \<not> f32_gt (gumbel_score S temperature (logits ! j) (us ! j)) (gumbel_score S temperature (logits ! i) (us ! i)) \<and>
      (j < i \<longrightarrow> \<not> f32_ge (gumbel_score S temperature (logits ! j) (us ! j)) (gumbel_score S temperature (logits ! i) (us ! i))))"
proof -
  define n where "n = length logits"
  have k: "0 < nat top_k" "nat top_k \<le> length logits" using assms(2,3) by simp_all
  obtain x where x: "kth_largest logits (nat top_k) = Inr x" "x \<in> set logits" "f32_key x = sort (map f32_key logits) ! (n - nat top_k)"
    using kth_largest_facts [OF assms(1) k] by (auto simp: n_def)
  define row where "row = map (\<lambda>value. if f32_ge value x then value else neg_inf) logits"
  define scores where "scores = map2 (gumbel_score S temperature) row us"
  have len: "length us = n" using draws_length [of S n g] assms(5) by (simp add: n_def)
  have kept: "f32_ge (logits ! j) x \<longleftrightarrow> kept_by_top_k logits top_k (logits ! j)" if "j < n" for j
    using assms(1) x(2,3) that by (simp add: f32_ge_def kept_by_top_k_def no_nan_def n_def)
  have score: "scores ! j = gumbel_score S temperature (if kept_by_top_k logits top_k (logits ! j) then logits ! j else neg_inf) (us ! j)"
    if "j < n" for j
    using that len kept [OF that] by (simp add: scores_def row_def n_def)
  obtain i best where run: "fold (multinomial_step S temperature row) [0..<n] (g, 0, neg_inf) = (g', i, best)"
    "best = neg_inf \<and> i = 0 \<and> (\<forall>j < n. \<not> f32_gt (scores ! j) neg_inf) \<or> best = scores ! i \<and> first_best scores i"
    using multinomial_run [of S n g us g' row temperature] assms(5) by (auto simp: n_def row_def scores_def)
  have "\<exists>j < n. f32_gt (scores ! j) neg_inf" using assms(7) score by (auto simp: n_def)
  with run(2) have best: "first_best scores i" by blast
  then have i: "i < n" using len by (simp add: first_best_def scores_def row_def n_def)
  have "kept_by_top_k logits top_k (logits ! i)"
  proof (rule ccontr)
    assume "\<not> kept_by_top_k logits top_k (logits ! i)"
    then have "scores ! i = gumbel_score S temperature neg_inf (us ! i)" using score [OF i] by simp
    with assms(6) best i len show False by (auto simp: first_best_def)
  qed
  moreover have "sample_row S logits g temperature top_k = Inr (i, g')"
    using assms(2-4) run(1) by (simp add: sample_row_def mask_top_k_def x(1) sample_multinomial_def row_def [symmetric] n_def [symmetric])
      (simp add: row_def n_def)
  moreover have "length scores = n" using len by (simp add: scores_def row_def n_def)
  ultimately show ?thesis
    using best i score unfolding first_best_def n_def by (intro exI [of _ i]) (auto simp: n_def)
qed

text \<open>An arithmetic with an absorbing minus infinity, and draws from a list.\<close>

definition list_sampling :: "f32 list sampling" where
  "list_sampling = \<lparr>sm_draw = (\<lambda>us. (us ! 0, tl us)), sm_gumbel = (\<lambda>u. u),
     sm_ops = example_ops\<lparr>fo_add := (\<lambda>x y. if x = neg_inf then neg_inf else x + y), fo_div := (\<lambda>x y. x)\<rparr>\<rparr>"

theorem sample_row_top_k_witness:
  "sample_row list_sampling [1, 5, 3, 4] [9, 1, 7, 3, 2] 0x3F800000 2 = Inr (3, [2])"
proof -
  have drawn: "draws list_sampling (length [1, 5, 3, 4 :: f32]) [9, 1, 7, 3, 2] = ([9, 1, 7, 3], [2])" by code_simp
  have kept: "kept_by_top_k [1, 5, 3, 4] 2 x \<longleftrightarrow> 4 \<le> f32_key x" for x
  proof -
    have "sort (map f32_key [1, 5, 3, 4]) ! (length [1, 5, 3, 4 :: f32] - nat 2) = 4" by code_simp
    then show ?thesis by (simp add: kept_by_top_k_def)
  qed
  have nums: "f32_key 1 = 1" "f32_key 5 = 5" "f32_key 3 = 3" "f32_key 4 = 4" by code_simp+
  have hyps: "no_nan [1, 5, 3, 4]" "\<not> f32_ge 0 (0x3F800000 :: f32)"
    "\<forall>u \<in> set [9, 1, 7, 3]. \<not> f32_gt (gumbel_score list_sampling 0x3F800000 neg_inf u) neg_inf"
    "f32_gt (gumbel_score list_sampling 0x3F800000 ([1, 5, 3, 4] ! 1) ([9, 1, 7, 3] ! 1)) neg_inf"
    "f32_gt (gumbel_score list_sampling 0x3F800000 4 3) (gumbel_score list_sampling 0x3F800000 5 1)" by code_simp+
  have "\<exists>j < length [1, 5, 3, 4 :: f32]. kept_by_top_k [1, 5, 3, 4] 2 ([1, 5, 3, 4] ! j) \<and>
      f32_gt (gumbel_score list_sampling 0x3F800000 ([1, 5, 3, 4] ! j) ([9, 1, 7, 3] ! j)) neg_inf"
    using hyps(4) by (intro exI [of _ 1]) (simp add: kept nums)
  from sample_row_top_k [OF hyps(1) _ _ hyps(2) drawn hyps(3) this] obtain i where
    i: "sample_row list_sampling [1, 5, 3, 4] [9, 1, 7, 3, 2] 0x3F800000 2 = Inr (i, [2])" "i < 4" "4 \<le> f32_key ([1, 5, 3, 4] ! i)"
    "\<And>j. j < 4 \<Longrightarrow> 4 \<le> f32_key ([1, 5, 3, 4] ! j) \<Longrightarrow> \<not> f32_gt (gumbel_score list_sampling 0x3F800000 ([1, 5, 3, 4] ! j) ([9, 1, 7, 3] ! j))
      (gumbel_score list_sampling 0x3F800000 ([1, 5, 3, 4] ! i) ([9, 1, 7, 3] ! i))"
    by (auto simp: kept)
  have "i \<in> {0, 1, 2, 3}" using i(2) by auto
  moreover have "i \<noteq> 0" "i \<noteq> 2" using i(3) by (rule_tac notI, simp add: nums)+
  moreover have "i \<noteq> 1" using i(4) [of 3] hyps(5) by (auto simp: nums)
  ultimately show ?thesis using i(1) by auto
qed

text \<open>Equal logits are all kept: more than k may be sampled from.\<close>

lemma mask_keeps_ties: "mask_top_k [5, 5, 3] 1 = Inr [5, 5, neg_inf]"
  by code_simp

text \<open>Greedy decoding takes the first of the largest logits and draws nothing.\<close>

lemma sample_row_greedy:
  assumes "f32_ge 0 temperature" "no_nan logits" "logits \<noteq> []"
  shows "sample_row S logits g temperature top_k = Inr (hd (argsort_descending logits), g)"
proof -
  let ?order = "sort_key (rank logits) [0..<length logits]"
  have "?order \<noteq> []" using assms(3) by (metis length_0_conv length_sort length_upt minus_nat.diff_0)
  note hd = hd_in_set [OF this] list.collapse [OF this]
  have "row_arg_max logits = hd ?order"
  proof (rule arg_max_unique [OF assms(2)])
    show "hd ?order < length logits" using hd(1) by (metis atLeastLessThan_iff set_sort set_upt)
    fix j assume "j < length logits"
    then have "j \<in> set (hd ?order # tl ?order)" unfolding hd(2) by simp
    moreover have "sorted (map (rank logits) (hd ?order # tl ?order))" unfolding hd(2) by (rule sorted_sort_key)
    ultimately show "rank logits (hd ?order) \<le> rank logits j" by auto
  qed
  then show ?thesis using assms(1) by (simp add: sample_row_def argsort_sort [OF assms(2)])
qed

end
