(* ===== verification/Moe.thy ===== *)
theory Moe
  imports Sampler
begin

text \<open>
  The routed mixture of experts: \<open>forward\<close> of src/model/moe.go with the kernels \<open>MoEGateTopK\<close> and
  \<open>GroupedMatMulTransposed\<close> of src/kernels/scalar/moe.go and \<open>SwiGLU\<close> of src/kernels/scalar/elementwise.go.

  A \<open>[rows, columns]\<close> buffer is the list of its rows; tensors are cut into rows where \<open>forward\<close> reshapes its input and
  joined again for its result. float32 sums and products are \<open>float_ops\<close>. What the code computes in float64 is
  an argument: a cell of the router's product, the softmax of a row, the logistic function. The load counts are floats that
  count tokens; they are numbers here. \<open>grouped_matmul\<close> zips a row with a weight row where Go indexes: they are of one width in a
  layer \<open>NewMoE\<close> builds, and where they are not Go panics or reads on. \<open>moe_token\<close> is what the layer means: one token, its experts in ascending order.
\<close>

section \<open>State\<close>

record moe_math =
  mm_ops :: float_ops
  mm_dot :: "f32 list \<Rightarrow> f32 list \<Rightarrow> f32"
  mm_softmax :: "f32 list \<Rightarrow> f32 list"
  mm_sigmoid :: "f32 \<Rightarrow> f32"

record moe =
  mo_experts :: nat
  mo_top_k :: nat
  mo_scale :: f32
  mo_width :: nat
  mo_hidden :: nat
  mo_clamp :: f32
  mo_router :: "f32 list list"
  mo_bias :: "f32 list"
  mo_gate :: "f32 list list list"
  mo_up :: "f32 list list list"
  mo_down :: "f32 list list list"
  mo_loads :: "nat list"
  mo_total :: nat

section \<open>Kernels\<close>

definition clamp_gate :: "f32 \<Rightarrow> f32 \<Rightarrow> f32" where
  "clamp_gate x clamp = (if f32_gt clamp 0 \<and> f32_ge x clamp then clamp else x)"

definition clamp_up :: "f32 \<Rightarrow> f32 \<Rightarrow> f32" where
  "clamp_up x clamp =
     (if f32_gt clamp 0 then if f32_gt x clamp then clamp else if f32_gt (f32_neg clamp) x then f32_neg clamp else x else x)"

definition swiglu_value :: "moe_math \<Rightarrow> f32 \<Rightarrow> f32 \<Rightarrow> f32 \<Rightarrow> f32" where
  "swiglu_value M gate up clamp =
     (let gate = clamp_gate gate clamp; up = clamp_up up clamp in fo_mul (mm_ops M) (fo_mul (mm_ops M) gate (mm_sigmoid M gate)) up)"

text \<open>The indices and probabilities of the slots a row has; slots past the number of experts keep the zeros they start with.\<close>

definition moe_gate_top_k :: "moe_math \<Rightarrow> f32 list list \<Rightarrow> f32 list \<Rightarrow> nat \<Rightarrow> nat \<Rightarrow> f32 list list \<times> nat list list \<times> f32 list list" where
  "moe_gate_top_k M logits bias experts k =
     (let probs = map (mm_softmax M) logits;
          scores = map (\<lambda>row. map2 (fo_add (mm_ops M)) row bias) logits;
          limit = min k experts;
          selected = map (\<lambda>row. select_slots limit row @ replicate (k - limit) 0) scores;
          weights = map2 (\<lambda>row ids. map ((!) row) (take limit ids) @ replicate (k - limit) 0) probs selected in
      (probs, selected, weights))"

definition row_dot :: "float_ops \<Rightarrow> f32 list \<Rightarrow> f32 list \<Rightarrow> f32" where
  "row_dot F xs ws = fold (\<lambda>(x, w) total. fo_muladd F total x w) (zip xs ws) 0"

definition grouped_matmul :: "float_ops \<Rightarrow> f32 list list \<Rightarrow> f32 list list list \<Rightarrow> nat list \<Rightarrow> nat \<Rightarrow> f32 list list" where
  "grouped_matmul F input weight counts experts =
     snd (fold (\<lambda>expert (row_offset, out). (row_offset + counts ! expert,
         out @ map (\<lambda>row. map (row_dot F (input ! (row_offset + row))) (weight ! expert)) [0..<counts ! expert])) [0..<experts] (0, []))"

section \<open>Routing\<close>

definition token_counts :: "nat \<Rightarrow> nat list \<Rightarrow> nat list" where
  "token_counts experts selected = fold (\<lambda>e counts. counts[e := counts ! e + 1]) selected (replicate experts 0)"

definition expert_offsets :: "nat \<Rightarrow> nat list \<Rightarrow> nat list" where
  "expert_offsets experts counts =
     fst (fold (\<lambda>expert (offsets, cursor). (offsets[expert := cursor], cursor + counts ! expert)) [0..<experts] (replicate experts 0, 0))"

text \<open>The three buffers in expert-major order, and how far each expert's part is filled.\<close>

record gathering =
  ga_input :: "f32 list list"
  ga_rows :: "nat list"
  ga_weights :: "f32 list"
  ga_fill :: "nat list"

definition gather_slot :: "nat list \<Rightarrow> f32 list list \<Rightarrow> nat \<Rightarrow> nat \<times> f32 \<Rightarrow> gathering \<Rightarrow> gathering" where
  "gather_slot offsets flat row = (\<lambda>(expert, weight) G.
     let position = offsets ! expert + ga_fill G ! expert in
     G\<lparr>ga_input := (ga_input G)[position := flat ! row], ga_rows := (ga_rows G)[position := row],
       ga_weights := (ga_weights G)[position := weight], ga_fill := (ga_fill G)[expert := ga_fill G ! expert + 1]\<rparr>)"

definition gather_rows :: "nat \<Rightarrow> nat \<Rightarrow> nat \<Rightarrow> nat list \<Rightarrow> f32 list list \<Rightarrow> nat list list \<Rightarrow> f32 list list \<Rightarrow> gathering" where
  "gather_rows experts total' width offsets flat selected weights =
     fold (\<lambda>row. fold (gather_slot offsets flat row) (zip (selected ! row) (weights ! row))) [0..<length flat]
       \<lparr>ga_input = replicate total' (replicate width 0), ga_rows = replicate total' 0, ga_weights = replicate total' 0,
        ga_fill = replicate experts 0\<rparr>"

definition add_expert :: "float_ops \<Rightarrow> f32 \<Rightarrow> f32 list \<Rightarrow> f32 list \<Rightarrow> f32 list" where
  "add_expert F weight expert_out out = map2 (\<lambda>o' x. fo_muladd F o' weight x) out expert_out"

definition scatter_outputs :: "float_ops \<Rightarrow> f32 \<Rightarrow> nat \<Rightarrow> nat \<Rightarrow> nat \<Rightarrow> gathering \<Rightarrow> f32 list list \<Rightarrow> f32 list list" where
  "scatter_outputs F scale total' rows width G grouped_output =
     fold (\<lambda>index out.
         let weight = fo_mul F (ga_weights G ! index) scale; row = ga_rows G ! index in
         out[row := add_expert F weight (grouped_output ! index) (out ! row)]) [0..<total'] (replicate rows (replicate width 0))"

section \<open>The layer\<close>

text \<open>What a forward pass leaves for training: per expert that was chosen, its rows, weights and activations.\<close>

record expert_forward =
  ef_id :: nat
  ef_rows :: "nat list"
  ef_weights :: "f32 list"
  ef_input :: "f32 list list"
  ef_gate :: "f32 list list"
  ef_up :: "f32 list list"
  ef_hidden :: "f32 list list"
  ef_output :: "f32 list list"

definition part :: "nat \<Rightarrow> nat \<Rightarrow> 'a list \<Rightarrow> 'a list" where
  "part offset size' xs = take size' (drop offset xs)"

text \<open>The buffers of one pass.\<close>

record moe_pass =
  mp_counts :: "nat list"
  mp_offsets :: "nat list"
  mp_gathered :: gathering
  mp_gate :: "f32 list list"
  mp_up :: "f32 list list"
  mp_hidden :: "f32 list list"
  mp_output :: "f32 list list"
  mp_rows :: "f32 list list"

definition moe_run :: "moe_math \<Rightarrow> moe \<Rightarrow> f32 list list \<Rightarrow> moe_pass" where
  "moe_run M moe flat =
     (let F = mm_ops M; E = mo_experts moe; k = mo_top_k moe; width = mo_width moe; rows = length flat;
          logits = map (\<lambda>x. map (mm_dot M x) (mo_router moe)) flat;
          (probs, selected, weights) = moe_gate_top_k M logits (mo_bias moe) E k;
          counts = token_counts E (concat selected);
          offsets = expert_offsets E counts;
          G = gather_rows E (rows * k) width offsets flat selected weights;
          gate = grouped_matmul F (ga_input G) (mo_gate moe) counts E;
          up = grouped_matmul F (ga_input G) (mo_up moe) counts E;
          hidden = map2 (map2 (\<lambda>g u. swiglu_value M g u (mo_clamp moe))) gate up;
          grouped_output = grouped_matmul F hidden (mo_down moe) counts E in
      \<lparr>mp_counts = counts, mp_offsets = offsets, mp_gathered = G, mp_gate = gate, mp_up = up, mp_hidden = hidden,
       mp_output = grouped_output, mp_rows = scatter_outputs F (mo_scale moe) (rows * k) rows width G grouped_output\<rparr>)"

definition save_expert :: "moe_pass \<Rightarrow> nat \<Rightarrow> expert_forward list \<times> moe \<Rightarrow> expert_forward list \<times> moe" where
  "save_expert pass expert = (\<lambda>(experts, moe).
     let size' = mp_counts pass ! expert; offset = mp_offsets pass ! expert; G = mp_gathered pass in
     if size' = 0 then (experts, moe)
     else (experts @ [\<lparr>ef_id = expert, ef_rows = part offset size' (ga_rows G), ef_weights = part offset size' (ga_weights G),
             ef_input = part offset size' (ga_input G), ef_gate = part offset size' (mp_gate pass), ef_up = part offset size' (mp_up pass),
             ef_hidden = part offset size' (mp_hidden pass), ef_output = part offset size' (mp_output pass)\<rparr>],
           moe\<lparr>mo_loads := (mo_loads moe)[expert := mo_loads moe ! expert + size'], mo_total := mo_total moe + size'\<rparr>))"

definition moe_forward :: "moe_math \<Rightarrow> moe \<Rightarrow> tensor \<Rightarrow> bool \<Rightarrow> (unit, tensor \<times> expert_forward list \<times> moe) outcome" where
  "moe_forward M moe input training =
     (let rows = numel input div mo_width moe in
      obind (reshape [rows, mo_width moe] input) (\<lambda>flat. obind (new_tensor [rows, mo_top_k moe]) (\<lambda>_.
      let pass = moe_run M moe (map (\<lambda>row. row_of (mo_width moe) row (ts_data flat)) [0..<rows]);
          result = \<lparr>ts_shape = ts_shape input, ts_data = concat (mp_rows pass)\<rparr> in
      Inr (result, if training then fold (save_expert pass) [0..<mo_experts moe] ([], moe) else ([], moe)))))"

section \<open>What it means\<close>

text \<open>One expert on one token; a token's slots; a token's output, its experts taken in ascending order.\<close>

definition expert_output :: "moe_math \<Rightarrow> moe \<Rightarrow> f32 list \<Rightarrow> nat \<Rightarrow> f32 list" where
  "expert_output M moe x e =
     map (row_dot (mm_ops M) (map2 (\<lambda>g u. swiglu_value M g u (mo_clamp moe))
       (map (row_dot (mm_ops M) x) (mo_gate moe ! e)) (map (row_dot (mm_ops M) x) (mo_up moe ! e)))) (mo_down moe ! e)"

definition token_slots :: "moe_math \<Rightarrow> moe \<Rightarrow> f32 list \<Rightarrow> (nat \<times> f32) list" where
  "token_slots M moe x =
     (let logits = map (mm_dot M x) (mo_router moe);
          chosen = select_slots (min (mo_top_k moe) (mo_experts moe)) (map2 (fo_add (mm_ops M)) logits (mo_bias moe)) in
      map (\<lambda>e. (e, mm_softmax M logits ! e)) chosen @ replicate (mo_top_k moe - mo_experts moe) (0, 0))"

definition moe_token :: "moe_math \<Rightarrow> moe \<Rightarrow> f32 list \<Rightarrow> f32 list" where
  "moe_token M moe x =
     fold (\<lambda>(e, weight). add_expert (mm_ops M) (fo_mul (mm_ops M) weight (mo_scale moe)) (expert_output M moe x e))
       (sort_key fst (token_slots M moe x)) (replicate (mo_width moe) 0)"


section \<open>Expert-major order\<close>

text \<open>The part of an expert, where it starts, and all parts one after another: a stable sort.\<close>

abbreviation of_expert :: "nat \<Rightarrow> (nat \<times> 'a) list \<Rightarrow> (nat \<times> 'a) list" where
  "of_expert e \<equiv> filter (\<lambda>p. fst p = e)"

definition by_expert :: "nat \<Rightarrow> (nat \<times> 'a) list \<Rightarrow> (nat \<times> 'a) list" where
  "by_expert experts P = concat (map (\<lambda>e. of_expert e P) [0..<experts])"

definition starts :: "(nat \<times> 'a) list \<Rightarrow> nat \<Rightarrow> nat" where
  "starts P e = length (by_expert e P)"

lemma by_expert_Suc [simp]: "by_expert 0 P = []" "by_expert (Suc e) P = by_expert e P @ of_expert e P"
  by (simp_all add: by_expert_def)

lemma starts_Suc [simp]: "starts P 0 = 0" "starts P (Suc e) = starts P e + length (of_expert e P)"
  by (simp_all add: starts_def)

lemma set_by_expert: "set (by_expert experts P) = {p \<in> set P. fst p < experts}"
  by (auto simp: by_expert_def)

lemma by_expert_sort:
  assumes "\<forall>p \<in> set P. fst p < experts"
  shows "by_expert experts P = sort_key fst P"
proof (rule properties_for_sort_key [symmetric])
  have "mset (by_expert e P) = filter_mset (\<lambda>p. fst p < e) (mset P)" for e
  proof (induction e)
    case (Suc e)
    have "filter_mset (\<lambda>p. fst p < Suc e) (mset P) = filter_mset (\<lambda>p. fst p < e) (mset P) + filter_mset (\<lambda>p. fst p = e) (mset P)"
      by (induction P) auto
    then show ?case using Suc by simp
  qed simp
  moreover have "filter_mset (\<lambda>p. fst p < experts) (mset P) = mset P"
    using assms by (simp add: filter_mset_eq_conv)
  ultimately show "mset (by_expert experts P) = mset P" by simp
next
  fix p assume "p \<in> set (by_expert experts P)"
  then have "fst p < experts" by (simp add: set_by_expert)
  moreover have "filter (\<lambda>q. fst p = fst q) (by_expert e P) = (if fst p < e then filter (\<lambda>q. fst p = fst q) P else [])" for e
  proof (induction e)
    case (Suc e)
    have "filter (\<lambda>q. fst p = fst q) (of_expert e P) = (if fst p = e then filter (\<lambda>q. fst p = fst q) P else [])"
      by (auto simp: filter_empty_conv intro: filter_cong)
    then show ?case using Suc by auto
  qed simp
  ultimately show "filter (\<lambda>q. fst p = fst q) (by_expert experts P) = filter (\<lambda>q. fst p = fst q) P" by simp
next
  show "sorted (map fst (by_expert experts P))"
  proof (induction experts)
    case (Suc e)
    have "map fst (of_expert e P) = map (\<lambda>_. e) (of_expert e P)" by (rule map_cong) auto
    then have "sorted (map fst (of_expert e P))" by (simp add: map_replicate_const)
    with Suc show ?case by (auto simp: sorted_append set_by_expert)
  qed simp
qed

lemma starts_mono: "e < e' \<Longrightarrow> starts P e + length (of_expert e P) \<le> starts P e'"
proof (induction e')
  case (Suc e')
  then show ?case by (cases "e = e'") simp_all
qed simp

lemma place_inj:
  assumes "starts P e + j = starts P e' + j'" "j < length (of_expert e P)" "j' < length (of_expert e' P)"
  shows "e = e' \<and> j = j'"
proof -
  have "\<not> e < e'" "\<not> e' < e" using starts_mono [of e e' P] starts_mono [of e' e P] assms by auto
  then show ?thesis using assms(1) by simp
qed

lemma by_expert_split: "e < experts \<Longrightarrow> \<exists>rest. by_expert experts P = by_expert e P @ of_expert e P @ rest"
proof (induction experts)
  case (Suc experts)
  then show ?case by (cases "e = experts") auto
qed simp

lemma by_expert_nth:
  assumes "e < experts" "j < length (of_expert e P)"
  shows "by_expert experts P ! (starts P e + j) = of_expert e P ! j" "starts P e + j < length (by_expert experts P)"
proof -
  obtain rest where "by_expert experts P = by_expert e P @ of_expert e P @ rest" using by_expert_split [OF assms(1)] by blast
  then show "by_expert experts P ! (starts P e + j) = of_expert e P ! j" "starts P e + j < length (by_expert experts P)"
    using assms(2) by (simp_all add: starts_def nth_append)
qed

lemma by_expert_place:
  assumes "i < length (by_expert experts P)"
  obtains e j where "e < experts" "j < length (of_expert e P)" "i = starts P e + j"
proof -
  have "\<exists>e j. e < experts \<and> j < length (of_expert e P) \<and> i = starts P e + j"
    using assms
  proof (induction experts)
    case (Suc experts)
    show ?case
    proof (cases "i < length (by_expert experts P)")
      case True
      then show ?thesis using Suc.IH less_SucI by blast
    next
      case False
      then have "i - starts P experts < length (of_expert experts P)" "i = starts P experts + (i - starts P experts)"
        using Suc.prems by (auto simp: starts_def)
      then show ?thesis by blast
    qed
  qed simp
  then show ?thesis using that by blast
qed

lemma token_counts_nth:
  assumes "\<forall>p \<in> set P. fst p < experts"
  shows "token_counts experts (map fst P) = map (\<lambda>e. length (of_expert e P)) [0..<experts]"
  using assms
proof (induction P rule: rev_induct)
  case Nil
  then show ?case by (simp add: token_counts_def map_replicate_const)
next
  case (snoc p P)
  have "token_counts experts (map fst (P @ [p])) = (token_counts experts (map fst P))[fst p := token_counts experts (map fst P) ! fst p + 1]"
    by (simp add: token_counts_def)
  also have "\<dots> = map (\<lambda>e. length (of_expert e (P @ [p]))) [0..<experts]"
    using snoc by (intro nth_equalityI) (auto simp: nth_list_update)
  finally show ?case .
qed

lemma expert_offsets_starts:
  "expert_offsets experts (map (\<lambda>e. length (of_expert e P)) [0..<experts]) = map (starts P) [0..<experts]"
proof -
  let ?step = "\<lambda>expert (offsets, cursor). (offsets[expert := cursor], cursor + map (\<lambda>e. length (of_expert e P)) [0..<experts] ! expert)"
  have "fold ?step [0..<m] (replicate experts 0, 0) = (map (starts P) [0..<m] @ replicate (experts - m) 0, starts P m)" if "m \<le> experts" for m
    using that
  proof (induction m)
    case (Suc m)
    have "(map (starts P) [0..<m] @ replicate (experts - m) 0)[m := starts P m] = map (starts P) [0..<Suc m] @ replicate (experts - Suc m) 0"
      using Suc.prems by (intro nth_equalityI) (auto simp: nth_append nth_list_update less_Suc_eq simp del: upt_Suc)
    then show ?case using Suc by simp
  qed simp
  then show ?thesis by (simp add: expert_offsets_def)
qed

section \<open>The buffers\<close>

text \<open>Filling places part by part is the expert-major order.\<close>

lemma place_all:
  fixes h :: "nat \<times> 'a \<Rightarrow> 'b" and arr :: "'b list"
  assumes "\<forall>p \<in> set P. fst p < experts" "length arr = length (by_expert experts P)"
  shows "fst (fold (\<lambda>p (arr, filled). (arr[map (starts P) [0..<experts] ! fst p + filled ! fst p := h p], filled[fst p := filled ! fst p + 1]))
    P (arr, replicate experts 0)) = map h (by_expert experts P)"
proof -
  let ?step = "\<lambda>p (arr, filled). (arr[map (starts P) [0..<experts] ! fst p + filled ! fst p := h p], filled[fst p := filled ! fst p + 1])"
  have "\<exists>arr' filled. fold ?step D (arr, replicate experts 0) = (arr', filled) \<and> length arr' = length arr \<and>
      filled = map (\<lambda>e. length (of_expert e D)) [0..<experts] \<and>
      (\<forall>e < experts. \<forall>j < length (of_expert e D). arr' ! (starts P e + j) = h (of_expert e D ! j))" if "P = D @ R" for D R
    using that
  proof (induction D arbitrary: R rule: rev_induct)
    case Nil
    then show ?case by (simp add: map_replicate_const)
  next
    case (snoc p D)
    then obtain arr' filled where run: "fold ?step D (arr, replicate experts 0) = (arr', filled)" "length arr' = length arr"
      "filled = map (\<lambda>e. length (of_expert e D)) [0..<experts]"
      "\<And>e j. e < experts \<Longrightarrow> j < length (of_expert e D) \<Longrightarrow> arr' ! (starts P e + j) = h (of_expert e D ! j)"
      using snoc.IH [of "p # R"] by auto
    define q where "q = starts P (fst p) + length (of_expert (fst p) D)"
    have p: "fst p < experts" using snoc.prems assms(1) by simp
    have within: "length (of_expert e D) \<le> length (of_expert e P)" "length (of_expert (fst p) D) < length (of_expert (fst p) P)" for e
      using snoc.prems by simp_all
    have q: "q < length arr'" using by_expert_nth(2) [OF p within(2)] run(2) assms(2) by (simp add: q_def)
    have "arr'[q := h p] ! (starts P e + j) = h (of_expert e (D @ [p]) ! j)" if "e < experts" "j < length (of_expert e (D @ [p]))" for e j
    proof (cases "j < length (of_expert e D)")
      case True
      have "q \<noteq> starts P e + j"
      proof
        assume "q = starts P e + j"
        then have "fst p = e \<and> length (of_expert (fst p) D) = j"
          unfolding q_def by (rule place_inj) (use True within in \<open>auto intro: less_le_trans\<close>)
        with True show False by auto
      qed
      then show ?thesis using True run(4) [OF that(1) True] by (simp add: nth_append)
    next
      case False
      then have "e = fst p" "j = length (of_expert e D)" using that(2) by (auto split: if_splits)
      then show ?thesis using q by (simp add: q_def nth_append)
    qed
    moreover have "fold ?step (D @ [p]) (arr, replicate experts 0) = (arr'[q := h p], filled[fst p := filled ! fst p + 1])"
      using run(1,3) p by (simp add: q_def)
    moreover have "filled[fst p := filled ! fst p + 1] = map (\<lambda>e. length (of_expert e (D @ [p]))) [0..<experts]"
      using run(3) p by (intro nth_equalityI) (auto simp: nth_list_update)
    ultimately show ?case using run(2) by simp
  qed
  from this [of P "[]"] obtain arr' filled where run: "fold ?step P (arr, replicate experts 0) = (arr', filled)" "length arr' = length arr"
    "\<And>e j. e < experts \<Longrightarrow> j < length (of_expert e P) \<Longrightarrow> arr' ! (starts P e + j) = h (of_expert e P ! j)" by auto
  have "arr' = map h (by_expert experts P)"
  proof (rule nth_equalityI)
    fix i assume "i < length arr'"
    then have i: "i < length (by_expert experts P)" using run(2) assms(2) by simp
    then obtain e j where "e < experts" "j < length (of_expert e P)" "i = starts P e + j" by (rule by_expert_place)
    then show "arr' ! i = map h (by_expert experts P) ! i" using run(3) [of e j] by_expert_nth(1) [of e experts j P] i by simp
  qed (use run(2) assms(2) in simp)
  with run(1) show ?thesis by simp
qed

text \<open>The slots of all tokens in the order the loops visit them.\<close>

definition all_slots :: "nat \<Rightarrow> nat list list \<Rightarrow> f32 list list \<Rightarrow> (nat \<times> nat \<times> f32) list" where
  "all_slots rows selected weights =
     concat (map (\<lambda>row. map (\<lambda>(e, weight). (e, row, weight)) (zip (selected ! row) (weights ! row))) [0..<rows])"

lemma gather_all:
  assumes "\<forall>p \<in> set (all_slots (length flat) selected weights). fst p < experts"
    "offsets = map (starts (all_slots (length flat) selected weights)) [0..<experts]"
    "total' = length (all_slots (length flat) selected weights)"
  shows "ga_rows (gather_rows experts total' width offsets flat selected weights) =
      map (\<lambda>(_, row, _). row) (by_expert experts (all_slots (length flat) selected weights))"
    "ga_weights (gather_rows experts total' width offsets flat selected weights) =
      map (\<lambda>(_, _, weight). weight) (by_expert experts (all_slots (length flat) selected weights))"
    "ga_input (gather_rows experts total' width offsets flat selected weights) =
      map (\<lambda>(_, row, _). flat ! row) (by_expert experts (all_slots (length flat) selected weights))"
proof -
  let ?P = "all_slots (length flat) selected weights"
  let ?step = "\<lambda>h p (arr, filled). (arr[offsets ! fst p + filled ! fst p := h p], filled[fst p := filled ! fst p + 1])"
  define G0 where "G0 = \<lparr>ga_input = replicate total' (replicate width 0), ga_rows = replicate total' 0, ga_weights = replicate total' 0,
    ga_fill = replicate experts 0\<rparr>"
  define run where "run P G = fold (\<lambda>(e, row, weight). gather_slot offsets flat row (e, weight)) P G" for P G
  have slots: "fold (gather_slot offsets flat row) Z G = run (map (\<lambda>(e, weight). (e, row, weight)) Z) G" for row Z G
    unfolding run_def by (induction Z arbitrary: G) auto
  have "fold (\<lambda>row. fold (gather_slot offsets flat row) (zip (selected ! row) (weights ! row))) rows G =
      run (concat (map (\<lambda>row. map (\<lambda>(e, weight). (e, row, weight)) (zip (selected ! row) (weights ! row))) rows)) G" for rows G
    by (induction rows arbitrary: G) (simp_all add: slots, simp_all add: run_def)
  then have gathered: "gather_rows experts total' width offsets flat selected weights = run ?P G0"
    by (simp add: gather_rows_def all_slots_def G0_def)
  have fields: "fold (?step (\<lambda>(_, row, _). row)) P (ga_rows G, ga_fill G) = (ga_rows (run P G), ga_fill (run P G)) \<and>
      fold (?step (\<lambda>(_, _, weight). weight)) P (ga_weights G, ga_fill G) = (ga_weights (run P G), ga_fill (run P G)) \<and>
      fold (?step (\<lambda>(_, row, _). flat ! row)) P (ga_input G, ga_fill G) = (ga_input (run P G), ga_fill (run P G))" for P G
  proof (induction P arbitrary: G)
    case (Cons p P)
    obtain e row weight where p: "p = (e, row, weight)" by (cases p)
    have "run (p # P) G = run P (gather_slot offsets flat row (e, weight) G)" by (simp add: run_def p)
    then show ?case using Cons.IH [of "gather_slot offsets flat row (e, weight) G"] by (simp add: p gather_slot_def Let_def)
  qed (simp add: run_def)
  have "length (by_expert experts ?P) = total'" using by_expert_sort [OF assms(1)] assms(3) by simp
  note place = place_all [OF assms(1), folded assms(2), unfolded this]
  have G0: "ga_fill G0 = replicate experts 0" "length (ga_rows G0) = total'" "length (ga_weights G0) = total'" "length (ga_input G0) = total'"
    by (simp_all add: G0_def)
  note fields = fields [of ?P G0, unfolded G0(1)]
  have "ga_rows (run ?P G0) = fst (fold (?step (\<lambda>(_, row, _). row)) ?P (ga_rows G0, replicate experts 0))"
    using fields by (simp only: fst_conv)
  also have "\<dots> = map (\<lambda>(_, row, _). row) (by_expert experts ?P)" by (rule place [OF G0(2)])
  finally show "ga_rows (gather_rows experts total' width offsets flat selected weights) = map (\<lambda>(_, row, _). row) (by_expert experts ?P)"
    unfolding gathered .
  have "ga_weights (run ?P G0) = fst (fold (?step (\<lambda>(_, _, weight). weight)) ?P (ga_weights G0, replicate experts 0))"
    using fields by (simp only: fst_conv)
  also have "\<dots> = map (\<lambda>(_, _, weight). weight) (by_expert experts ?P)" by (rule place [OF G0(3)])
  finally show "ga_weights (gather_rows experts total' width offsets flat selected weights) = map (\<lambda>(_, _, weight). weight) (by_expert experts ?P)"
    unfolding gathered .
  have "ga_input (run ?P G0) = fst (fold (?step (\<lambda>(_, row, _). flat ! row)) ?P (ga_input G0, replicate experts 0))"
    using fields by (simp only: fst_conv)
  also have "\<dots> = map (\<lambda>(_, row, _). flat ! row) (by_expert experts ?P)" by (rule place [OF G0(4)])
  finally show "ga_input (gather_rows experts total' width offsets flat selected weights) = map (\<lambda>(_, row, _). flat ! row) (by_expert experts ?P)"
    unfolding gathered .
qed

lemma grouped_matmul_parts:
  assumes "\<forall>p \<in> set P. fst p < experts" "input = map g (by_expert experts P)"
    "counts = map (\<lambda>e. length (of_expert e P)) [0..<experts]"
  shows "grouped_matmul F input weight counts experts = map (\<lambda>p. map (row_dot F (g p)) (weight ! fst p)) (by_expert experts P)"
proof -
  let ?step = "\<lambda>expert (row_offset, out). (row_offset + counts ! expert,
      out @ map (\<lambda>row. map (row_dot F (input ! (row_offset + row))) (weight ! expert)) [0..<counts ! expert])"
  have "fold ?step [0..<m] (0, []) = (starts P m, map (\<lambda>p. map (row_dot F (g p)) (weight ! fst p)) (by_expert m P))" if "m \<le> experts" for m
    using that
  proof (induction m)
    case (Suc m)
    have "map (\<lambda>row. map (row_dot F (input ! (starts P m + row))) (weight ! m)) [0..<length (of_expert m P)] =
        map (\<lambda>p. map (row_dot F (g p)) (weight ! fst p)) (of_expert m P)"
    proof (rule nth_equalityI)
      fix j assume "j < length (map (\<lambda>row. map (row_dot F (input ! (starts P m + row))) (weight ! m)) [0..<length (of_expert m P)])"
      then have j: "j < length (of_expert m P)" by simp
      then have "fst (of_expert m P ! j) = m" using nth_mem [OF j] by auto
      moreover have "input ! (starts P m + j) = g (of_expert m P ! j)"
        using by_expert_nth [of m experts j P] Suc.prems j by (simp add: assms(2))
      ultimately show "map (\<lambda>row. map (row_dot F (input ! (starts P m + row))) (weight ! m)) [0..<length (of_expert m P)] ! j =
          map (\<lambda>p. map (row_dot F (g p)) (weight ! fst p)) (of_expert m P) ! j"
        using j by simp
    qed simp
    then show ?case using Suc by (simp add: assms(3))
  qed simp
  then show ?thesis by (simp add: grouped_matmul_def)
qed

section \<open>The layer and its meaning\<close>

lemma select_slots_length [simp]: "length (select_slots k xs) = k"
  by (induction k arbitrary: xs) (simp_all add: Let_def)

lemma row_arg_max_less: "xs \<noteq> [] \<Longrightarrow> row_arg_max xs < length xs"
proof -
  have "fold (\<lambda>i best. if f32_gt (xs ! i) (xs ! best) then i else best) is b \<in> set (b # is)" for "is" and b :: nat
    by (induction "is" arbitrary: b) auto
  from this [of "[1..<length xs]" 0] show "xs \<noteq> [] \<Longrightarrow> row_arg_max xs < length xs" by (auto simp: row_arg_max_def)
qed

lemma select_slots_bound: "xs \<noteq> [] \<Longrightarrow> e \<in> set (select_slots k xs) \<Longrightarrow> e < length xs"
proof (induction k arbitrary: xs)
  case (Suc k)
  from Suc.prems(2) consider "e = row_arg_max xs" | "e \<in> set (select_slots k (xs[row_arg_max xs := neg_inf]))"
    by (auto simp: Let_def)
  then show ?case
  proof cases
    case 2
    then have "e < length (xs[row_arg_max xs := neg_inf])" by (intro Suc.IH) (simp_all add: Suc.prems(1))
    then show ?thesis by simp
  qed (simp add: row_arg_max_less Suc.prems(1))
qed simp

lemma add_expert_length [simp]: "length (add_expert F weight x out) = min (length out) (length x)"
  by (simp add: add_expert_def)

lemma concat_length_const: "(\<And>xs. xs \<in> set xss \<Longrightarrow> length xs = n) \<Longrightarrow> length (concat xss) = length xss * n"
  by (induction xss) simp_all

lemma map2_both: "map2 f (map g xs) (map h xs) = map (\<lambda>x. f (g x) (h x)) xs"
  by (induction xs) simp_all

lemma fold_nth: "fold (\<lambda>i. f (xs ! i)) [0..<length xs] s = fold f xs s"
proof -
  have "fold f (map ((!) xs) [0..<length xs]) s = fold (\<lambda>i. f (xs ! i)) [0..<length xs] s" unfolding fold_map comp_def ..
  then show ?thesis by (simp add: map_nth)
qed

lemma scatter_all:
  assumes "ga_rows G = map row_at T" "ga_weights G = map weight_at T" "grouped_output = map out_at T"
  shows "r < rows \<Longrightarrow> scatter_outputs F scale (length T) rows width G grouped_output ! r =
    fold (\<lambda>p. add_expert F (fo_mul F (weight_at p) scale) (out_at p)) (filter (\<lambda>p. row_at p = r) T) (replicate width 0)"
    "length (scatter_outputs F scale (length T) rows width G grouped_output) = rows"
proof -
  define step where "step p out = out[row_at p := add_expert F (fo_mul F (weight_at p) scale) (out_at p) (out ! row_at p)]" for p out
  have "scatter_outputs F scale (length T) rows width G grouped_output = fold (\<lambda>i. step (T ! i)) [0..<length T] (replicate rows (replicate width 0))"
    unfolding scatter_outputs_def by (rule fold_cong) (simp_all add: assms(1-3) step_def fun_eq_iff Let_def)
  also have "\<dots> = fold step T (replicate rows (replicate width 0))" by (rule fold_nth)
  finally have run: "scatter_outputs F scale (length T) rows width G grouped_output = fold step T (replicate rows (replicate width 0))" .
  have "length (fold step T out) = length out" for out by (induction T arbitrary: out) (simp_all add: step_def)
  then show "length (scatter_outputs F scale (length T) rows width G grouped_output) = rows" by (simp add: run)
  have "fold step T out ! r = fold (\<lambda>p. add_expert F (fo_mul F (weight_at p) scale) (out_at p)) (filter (\<lambda>p. row_at p = r) T) (out ! r)"
    if "r < length out" for out
    using that
  proof (induction T arbitrary: out)
    case (Cons p T)
    then have "r < length (step p out)" by (simp add: step_def)
    from Cons.IH [OF this] Cons.prems show ?case by (simp add: step_def)
  qed simp
  from this [of "replicate rows (replicate width 0)"]
  show "r < rows \<Longrightarrow> scatter_outputs F scale (length T) rows width G grouped_output ! r =
      fold (\<lambda>p. add_expert F (fo_mul F (weight_at p) scale) (out_at p)) (filter (\<lambda>p. row_at p = r) T) (replicate width 0)"
    by (simp add: run)
qed

lemma insort_key_map: "insort_key f (g x) (map g xs) = map g (insort_key (\<lambda>x. f (g x)) x xs)"
  by (induction xs) simp_all

lemma sort_key_map: "sort_key f (map g xs) = map g (sort_key (\<lambda>x. f (g x)) xs)"
  by (induction xs) (simp_all add: insort_key_map)

lemma moe_gate_slots:
  fixes moe :: moe and M :: moe_math
  defines "E \<equiv> mo_experts moe" and "k \<equiv> mo_top_k moe"
  assumes "length (mo_router moe) = E" "length (mo_bias moe) = E"
    "moe_gate_top_k M (map (\<lambda>x. map (mm_dot M x) (mo_router moe)) flat) (mo_bias moe) E k = (probs, selected, weights)"
  shows "length selected = length flat" "r < length flat \<Longrightarrow> zip (selected ! r) (weights ! r) = token_slots M moe (flat ! r)"
    "r < length flat \<Longrightarrow> length (selected ! r) = k" "r < length flat \<Longrightarrow> length (weights ! r) = k"
proof -
  let ?logits = "\<lambda>x. map (mm_dot M x) (mo_router moe)"
  let ?chosen = "\<lambda>x. select_slots (min k E) (map2 (fo_add (mm_ops M)) (?logits x) (mo_bias moe))"
  have eqs: "selected = map (\<lambda>x. ?chosen x @ replicate (k - E) 0) flat"
    "weights = map (\<lambda>x. map ((!) (mm_softmax M (?logits x))) (?chosen x) @ replicate (k - E) 0) flat"
    using assms(5) by (auto simp: moe_gate_top_k_def Let_def map2_both comp_def min_def)
  then show "length selected = length flat" by simp
  assume r: "r < length flat"
  show "length (selected ! r) = k" "length (weights ! r) = k" using r by (auto simp: eqs)
  have "zip (cs @ replicate m 0) (map h cs @ replicate m 0) = map (\<lambda>e. (e, h e)) cs @ replicate m (0 :: nat, 0 :: f32)" for m cs h
    by (simp add: zip_map2 zip_same_conv_map comp_def)
  then show "zip (selected ! r) (weights ! r) = token_slots M moe (flat ! r)"
    using r by (simp add: eqs token_slots_def Let_def E_def k_def)
qed

lemma token_slots_bound:
  assumes "length (mo_router moe) = mo_experts moe" "length (mo_bias moe) = mo_experts moe" "0 < mo_experts moe" "(e, weight) \<in> set (token_slots M moe x)"
  shows "e < mo_experts moe"
proof -
  let ?scores = "map2 (fo_add (mm_ops M)) (map (mm_dot M x) (mo_router moe)) (mo_bias moe)"
  have "length ?scores = mo_experts moe" "?scores \<noteq> []" using assms(1-3) by auto
  then show ?thesis using assms(3,4) select_slots_bound [of ?scores e] by (auto simp: token_slots_def Let_def)
qed

definition routed :: "moe_math \<Rightarrow> moe \<Rightarrow> f32 list list \<Rightarrow> (nat \<times> nat \<times> f32) list" where
  "routed M moe flat = concat (map (\<lambda>row. map (\<lambda>(e, weight). (e, row, weight)) (token_slots M moe (flat ! row))) [0..<length flat])"

lemma routed_row:
  assumes "r < length flat"
  shows "filter (\<lambda>p. (case p of (_, row, _) \<Rightarrow> row) = r) (routed M moe flat) = map (\<lambda>(e, weight). (e, r, weight)) (token_slots M moe (flat ! r))"
proof -
  have only: "filter (\<lambda>p. (case p of (_, row, _) \<Rightarrow> row) = r) (map (\<lambda>(e, weight). (e, m, weight)) Z) =
      (if m = r then map (\<lambda>(e, weight). (e, r, weight)) Z else [])" for m and Z :: "(nat \<times> f32) list"
    by (induction Z) auto
  have "filter (\<lambda>p. (case p of (_, row, _) \<Rightarrow> row) = r) (concat (map (\<lambda>row. map (\<lambda>(e, weight). (e, row, weight)) (token_slots M moe (flat ! row))) [0..<m])) =
      (if r < m then map (\<lambda>(e, weight). (e, r, weight)) (token_slots M moe (flat ! r)) else [])" for m
  proof (induction m)
    case (Suc m)
    then show ?case using only [of m] by auto
  qed simp
  with assms show ?thesis by (simp add: routed_def)
qed

definition moe_shape :: "moe \<Rightarrow> bool" where
  "moe_shape moe \<longleftrightarrow> length (mo_router moe) = mo_experts moe \<and> length (mo_bias moe) = mo_experts moe \<and> 0 < mo_experts moe"

lemma routed_gate:
  fixes M :: moe_math and moe :: moe and flat :: "f32 list list"
  defines "P \<equiv> routed M moe flat"
  assumes "moe_shape moe" "moe_gate_top_k M (map (\<lambda>x. map (mm_dot M x) (mo_router moe)) flat) (mo_bias moe) (mo_experts moe) (mo_top_k moe) =
    (probs, selected, weights)"
  shows "P = all_slots (length flat) selected weights" "map fst P = concat selected" "length P = length flat * mo_top_k moe"
proof -
  have shape: "length (mo_router moe) = mo_experts moe" "length (mo_bias moe) = mo_experts moe" using assms(2) by (simp_all add: moe_shape_def)
  note slots = moe_gate_slots [OF shape assms(3)]
  show P: "P = all_slots (length flat) selected weights"
    unfolding P_def all_slots_def routed_def using slots(2) by (intro arg_cong [where f = concat] map_cong) auto
  have "map fst P = concat (map ((!) selected) [0..<length flat])"
    unfolding P all_slots_def map_concat map_map comp_def
    using slots(3,4) by (intro arg_cong [where f = concat] map_cong) (auto simp: comp_def case_prod_unfold)
  also have "\<dots> = concat selected" using slots(1) by (metis map_nth)
  finally show ids: "map fst P = concat selected" .
  have "length (concat selected) = length flat * mo_top_k moe"
    using concat_length_const [of selected "mo_top_k moe"] slots(1,3) by (auto simp: in_set_conv_nth)
  then show "length P = length flat * mo_top_k moe" unfolding ids [symmetric] by simp
qed

lemma routed_bound: "moe_shape moe \<Longrightarrow> \<forall>p \<in> set (routed M moe flat). fst p < mo_experts moe"
  using token_slots_bound [of moe] by (auto simp: moe_shape_def routed_def)

text \<open>What a pass holds: the parts of the experts, and in each buffer its slots in expert-major order.\<close>

lemma moe_run_fields:
  fixes M moe flat
  defines "P \<equiv> routed M moe flat"
  defines "T \<equiv> by_expert (mo_experts moe) P"
  assumes "moe_shape moe"
  shows "mp_counts (moe_run M moe flat) = map (\<lambda>e. length (of_expert e P)) [0..<mo_experts moe]"
    "mp_offsets (moe_run M moe flat) = map (starts P) [0..<mo_experts moe]"
    "ga_rows (mp_gathered (moe_run M moe flat)) = map (\<lambda>(_, row, _). row) T"
    "ga_weights (mp_gathered (moe_run M moe flat)) = map (\<lambda>(_, _, weight). weight) T"
    "ga_input (mp_gathered (moe_run M moe flat)) = map (\<lambda>(_, row, _). flat ! row) T"
    "mp_output (moe_run M moe flat) = map (\<lambda>(e, row, _). expert_output M moe (flat ! row) e) T"
    "length P = length flat * mo_top_k moe" "\<forall>p \<in> set P. fst p < mo_experts moe"
    "mp_rows (moe_run M moe flat) = scatter_outputs (mm_ops M) (mo_scale moe) (length T) (length flat) (mo_width moe)
      (mp_gathered (moe_run M moe flat)) (mp_output (moe_run M moe flat))"
proof -
  define F where "F = mm_ops M"
  define E where "E = mo_experts moe"
  define k where "k = mo_top_k moe"
  define rows where "rows = length flat"
  obtain probs selected weights where gate:
    "moe_gate_top_k M (map (\<lambda>x. map (mm_dot M x) (mo_router moe)) flat) (mo_bias moe) E k = (probs, selected, weights)"
    by (metis prod_cases3)
  note slots = routed_gate [OF assms(3) gate [unfolded E_def k_def], folded P_def rows_def k_def]
  note P = slots(1) and P_ids = slots(2) and P_len = slots(3)
  show "length P = length flat * mo_top_k moe" using P_len by (simp add: rows_def k_def)
  show bound: "\<forall>p \<in> set P. fst p < mo_experts moe" unfolding P_def by (rule routed_bound [OF assms(3)])
  define counts where "counts = token_counts E (concat selected)"
  have counts: "counts = map (\<lambda>e. length (of_expert e P)) [0..<E]"
    unfolding counts_def P_ids [symmetric] by (rule token_counts_nth [OF bound [folded E_def]])
  define offsets where "offsets = expert_offsets E counts"
  have offsets: "offsets = map (starts P) [0..<E]" unfolding offsets_def counts by (rule expert_offsets_starts)
  define G where "G = gather_rows E (rows * k) (mo_width moe) offsets flat selected weights"
  note gathered = gather_all [of flat selected weights E offsets "rows * k" "mo_width moe", folded rows_def, folded P, OF bound [folded E_def] offsets P_len [symmetric], folded G_def]
  define hidden where "hidden = map2 (map2 (\<lambda>g u. swiglu_value M g u (mo_clamp moe)))
    (grouped_matmul F (ga_input G) (mo_gate moe) counts E) (grouped_matmul F (ga_input G) (mo_up moe) counts E)"
  note grouped = grouped_matmul_parts [OF bound [folded E_def] _ counts]
  have "hidden = map (\<lambda>p. map2 (\<lambda>g u. swiglu_value M g u (mo_clamp moe)) (map (row_dot F (case p of (_, row, _) \<Rightarrow> flat ! row)) (mo_gate moe ! fst p))
      (map (row_dot F (case p of (_, row, _) \<Rightarrow> flat ! row)) (mo_up moe ! fst p))) (by_expert E P)"
    unfolding hidden_def grouped [OF gathered(3)] map2_both ..
  then have out: "grouped_matmul F hidden (mo_down moe) counts E = map (\<lambda>(e, row, _). expert_output M moe (flat ! row) e) T"
    unfolding T_def E_def [symmetric] using grouped by (simp add: expert_output_def F_def case_prod_unfold)
  have run: "moe_run M moe flat = \<lparr>mp_counts = counts, mp_offsets = offsets, mp_gathered = G,
      mp_gate = grouped_matmul F (ga_input G) (mo_gate moe) counts E, mp_up = grouped_matmul F (ga_input G) (mo_up moe) counts E,
      mp_hidden = hidden, mp_output = grouped_matmul F hidden (mo_down moe) counts E,
      mp_rows = scatter_outputs F (mo_scale moe) (rows * k) rows (mo_width moe) G (grouped_matmul F hidden (mo_down moe) counts E)\<rparr>"
    unfolding moe_run_def by (simp add: E_def [symmetric] k_def [symmetric] gate Let_def)
      (simp add: F_def counts_def offsets_def G_def hidden_def rows_def)
  have "length T = rows * k" using by_expert_sort [OF bound] P_len by (simp add: T_def)
  then show "mp_counts (moe_run M moe flat) = map (\<lambda>e. length (of_expert e P)) [0..<mo_experts moe]"
    "mp_offsets (moe_run M moe flat) = map (starts P) [0..<mo_experts moe]"
    "ga_rows (mp_gathered (moe_run M moe flat)) = map (\<lambda>(_, row, _). row) T"
    "ga_weights (mp_gathered (moe_run M moe flat)) = map (\<lambda>(_, _, weight). weight) T"
    "ga_input (mp_gathered (moe_run M moe flat)) = map (\<lambda>(_, row, _). flat ! row) T"
    "mp_output (moe_run M moe flat) = map (\<lambda>(e, row, _). expert_output M moe (flat ! row) e) T"
    "mp_rows (moe_run M moe flat) = scatter_outputs (mm_ops M) (mo_scale moe) (length T) (length flat) (mo_width moe)
      (mp_gathered (moe_run M moe flat)) (mp_output (moe_run M moe flat))"
    unfolding run using counts offsets gathered out by (simp_all add: T_def E_def F_def rows_def)
qed

lemma moe_run_rows:
  assumes "moe_shape moe"
  shows "mp_rows (moe_run M moe flat) = map (moe_token M moe) flat"
proof -
  define P where "P = routed M moe flat"
  define T where "T = by_expert (mo_experts moe) P"
  note fields = moe_run_fields [OF assms, of M flat, folded P_def, folded T_def]
  note scattered = scatter_all [where rows = "length flat" and F = "mm_ops M" and scale = "mo_scale moe" and width = "mo_width moe", OF fields(3,4,6), folded fields(9)]
  have T: "T = sort_key fst P" using by_expert_sort [OF fields(8)] by (simp add: T_def)
  show ?thesis
  proof (rule nth_equalityI)
    show len: "length (mp_rows (moe_run M moe flat)) = length (map (moe_token M moe) flat)"
      using scattered(2) by simp
    fix r assume "r < length (mp_rows (moe_run M moe flat))"
    then have r: "r < length flat" using len by simp
    have "filter (\<lambda>p. (case p of (_, row, _) \<Rightarrow> row) = r) T = sort_key fst (map (\<lambda>(e, weight). (e, r, weight)) (token_slots M moe (flat ! r)))"
      unfolding T filter_sort P_def routed_row [OF r] ..
    also have "\<dots> = map (\<lambda>(e, weight). (e, r, weight)) (sort_key (\<lambda>p. fst (case p of (e, weight) \<Rightarrow> (e, r, weight))) (token_slots M moe (flat ! r)))"
      by (rule sort_key_map)
    also have "(\<lambda>p. fst (case p of (e, weight) \<Rightarrow> (e, r, weight))) = (fst :: nat \<times> f32 \<Rightarrow> nat)" by (auto simp: fun_eq_iff)
    finally have mine: "filter (\<lambda>p. (case p of (_, row, _) \<Rightarrow> row) = r) T =
        map (\<lambda>(e, weight). (e, r, weight)) (sort_key fst (token_slots M moe (flat ! r)))" .
    have "mp_rows (moe_run M moe flat) ! r = moe_token M moe (flat ! r)"
      unfolding scattered(1) [OF r] mine fold_map moe_token_def by (rule fold_cong) (auto simp: fun_eq_iff)
    then show "mp_rows (moe_run M moe flat) ! r = map (moe_token M moe) flat ! r" using r by simp
  qed
qed

lemma moe_forward_run:
  assumes "0 < mo_top_k moe" "0 < mo_width moe" "0 < numel input" "mo_width moe dvd numel input"
    and "flat = map (\<lambda>row. row_of (mo_width moe) row (ts_data input)) [0..<numel input div mo_width moe]"
  shows "moe_forward M moe input training = Inr (\<lparr>ts_shape = ts_shape input, ts_data = concat (mp_rows (moe_run M moe flat))\<rparr>,
    if training then fold (save_expert (moe_run M moe flat)) [0..<mo_experts moe] ([], moe) else ([], moe))"
proof -
  have "0 < numel input div mo_width moe" "numel input div mo_width moe * mo_width moe = numel input"
    using assms(2-4) by (auto simp: div_greater_zero_iff dvd_imp_le)
  then show ?thesis using assms(1,2) by (simp add: moe_forward_def Let_def reshape_def new_tensor_def assms(5))
qed


definition example_math :: moe_math where
  "example_math = \<lparr>mm_ops = example_ops, mm_dot = row_dot example_ops, mm_softmax = id, mm_sigmoid = id\<rparr>"

text \<open>Two experts of one hidden value, two columns; each token goes to one.\<close>

definition example_moe :: moe where
  "example_moe = \<lparr>mo_experts = 2, mo_top_k = 1, mo_scale = 1, mo_width = 2, mo_hidden = 1, mo_clamp = 0, mo_router = [[1, 0], [0, 1]],
     mo_bias = [0, 0], mo_gate = [[[1, 1]], [[1, 2]]], mo_up = [[[1, 0]], [[0, 1]]], mo_down = [[[1], [2]], [[3], [1]]],
     mo_loads = [0, 0], mo_total = 0\<rparr>"


text \<open>The experts saved after the first \<open>m\<close>: those that were chosen, each with its part.\<close>

lemma part_of_expert:
  assumes "e < experts"
  shows "part (starts P e) (length (of_expert e P)) (map h (by_expert experts P)) = map h (of_expert e P)"
proof -
  obtain rest where "by_expert experts P = by_expert e P @ of_expert e P @ rest" using by_expert_split [OF assms] by blast
  then show ?thesis by (simp add: part_def starts_def)
qed

lemma save_experts:
  fixes M :: moe_math and moe0 :: moe and flat :: "f32 list list"
  defines "P \<equiv> routed M moe0 flat" and "pass \<equiv> moe_run M moe0 flat"
  assumes "moe_shape moe0" "length (mo_loads moe0) = mo_experts moe0" "m \<le> mo_experts moe0"
  shows "\<exists>experts moe'. fold (save_expert pass) [0..<m] ([], moe0) = (experts, moe') \<and>
    map ef_id experts = filter (\<lambda>e. of_expert e P \<noteq> []) [0..<m] \<and>
    (\<forall>ef \<in> set experts. ef_rows ef = map (\<lambda>(_, row, _). row) (of_expert (ef_id ef) P) \<and>
      ef_weights ef = map (\<lambda>(_, _, weight). weight) (of_expert (ef_id ef) P) \<and>
      ef_input ef = map ((!) flat) (ef_rows ef) \<and> ef_output ef = map (\<lambda>row. expert_output M moe0 (flat ! row) (ef_id ef)) (ef_rows ef)) \<and>
    moe' = moe0\<lparr>mo_loads := map (\<lambda>e. mo_loads moe0 ! e + (if e < m then length (of_expert e P) else 0)) [0..<mo_experts moe0],
      mo_total := mo_total moe0 + starts P m\<rparr>"
  using assms(5)
proof (induction m)
  case 0
  have "map (\<lambda>e. mo_loads moe0 ! e) [0..<mo_experts moe0] = mo_loads moe0" using assms(4) by (metis map_nth)
  then show ?case by simp
next
  case (Suc m)
  then obtain experts moe' where IH: "fold (save_expert pass) [0..<m] ([], moe0) = (experts, moe')"
    "map ef_id experts = filter (\<lambda>e. of_expert e P \<noteq> []) [0..<m]"
    "\<And>ef. ef \<in> set experts \<Longrightarrow> ef_rows ef = map (\<lambda>(_, row, _). row) (of_expert (ef_id ef) P) \<and>
      ef_weights ef = map (\<lambda>(_, _, weight). weight) (of_expert (ef_id ef) P) \<and>
      ef_input ef = map ((!) flat) (ef_rows ef) \<and> ef_output ef = map (\<lambda>row. expert_output M moe0 (flat ! row) (ef_id ef)) (ef_rows ef)"
    "moe' = moe0\<lparr>mo_loads := map (\<lambda>e. mo_loads moe0 ! e + (if e < m then length (of_expert e P) else 0)) [0..<mo_experts moe0],
      mo_total := mo_total moe0 + starts P m\<rparr>" by auto
  note fields = moe_run_fields [OF assms(3), of M flat, folded P_def pass_def]
  have m: "m < mo_experts moe0" using Suc.prems by simp
  have counts: "mp_counts pass ! m = length (of_expert m P)" "mp_offsets pass ! m = starts P m" using fields(1,2) m by simp_all
  let ?loads = "\<lambda>m. map (\<lambda>e. mo_loads moe0 ! e + (if e < m then length (of_expert e P) else 0)) [0..<mo_experts moe0]"
  have loads: "(?loads m)[m := ?loads m ! m + length (of_expert m P)] = ?loads (Suc m)"
    using m by (intro nth_equalityI) (auto simp: nth_list_update less_Suc_eq)
  show ?case
  proof (cases "of_expert m P = []")
    case True
    then have "save_expert pass m (experts, moe') = (experts, moe')" by (simp add: save_expert_def counts)
    moreover have "?loads (Suc m) = ?loads m" using True by (auto simp: less_Suc_eq)
    ultimately show ?thesis using IH True by (simp add: Let_def)
  next
    case False
    note parts = part_of_expert [OF m, of P]
    have "\<exists>ef. save_expert pass m (experts, moe') = (experts @ [ef], moe'\<lparr>mo_loads := (mo_loads moe')[m := mo_loads moe' ! m + length (of_expert m P)],
          mo_total := mo_total moe' + length (of_expert m P)\<rparr>) \<and> ef_id ef = m \<and> ef_rows ef = map (\<lambda>(_, row, _). row) (of_expert m P) \<and>
        ef_weights ef = map (\<lambda>(_, _, weight). weight) (of_expert m P) \<and> ef_input ef = map (\<lambda>(_, row, _). flat ! row) (of_expert m P) \<and>
        ef_output ef = map (\<lambda>(e, row, _). expert_output M moe0 (flat ! row) e) (of_expert m P)"
      using False by (simp add: save_expert_def counts fields(3-6) parts Let_def)
    then obtain ef where ef: "save_expert pass m (experts, moe') = (experts @ [ef], moe'\<lparr>mo_loads := (mo_loads moe')[m := mo_loads moe' ! m + length (of_expert m P)],
          mo_total := mo_total moe' + length (of_expert m P)\<rparr>)" "ef_id ef = m" "ef_rows ef = map (\<lambda>(_, row, _). row) (of_expert m P)"
        "ef_weights ef = map (\<lambda>(_, _, weight). weight) (of_expert m P)" "ef_input ef = map ((!) flat) (ef_rows ef)"
        "ef_output ef = map (\<lambda>row. expert_output M moe0 (flat ! row) m) (ef_rows ef)"
      by (auto simp: case_prod_unfold)
    have "moe'\<lparr>mo_loads := (mo_loads moe')[m := mo_loads moe' ! m + length (of_expert m P)], mo_total := mo_total moe' + length (of_expert m P)\<rparr> =
        moe0\<lparr>mo_loads := ?loads (Suc m), mo_total := mo_total moe0 + starts P (Suc m)\<rparr>"
      unfolding IH(4) loads [symmetric] by simp
    then show ?thesis using IH(1-3) ef False by (auto simp: map_append)
  qed
qed

text \<open>
  What a training pass keeps for backpropagation: for each expert that was chosen, in ascending order, the rows that chose
  it, in order, its inputs and its outputs on them. The load of an expert grows by the number of those rows, and the total
  by the number of slots.
\<close>
theorem moe_forward_training:
  assumes "moe_shape moe" "length (mo_loads moe) = mo_experts moe" "0 < mo_top_k moe" "0 < mo_width moe" "0 < numel input"
    "mo_width moe dvd numel input"
    and "flat = map (\<lambda>row. row_of (mo_width moe) row (ts_data input)) [0..<numel input div mo_width moe]"
    and "rows_of = (\<lambda>e. map (\<lambda>(_, row, _). row) (of_expert e (routed M moe flat)))"
  shows "\<exists>result experts moe'. moe_forward M moe input True = Inr (result, experts, moe') \<and>
    map ef_id experts = filter (\<lambda>e. rows_of e \<noteq> []) [0..<mo_experts moe] \<and>
    (\<forall>ef \<in> set experts. ef_rows ef = rows_of (ef_id ef) \<and> ef_input ef = map ((!) flat) (ef_rows ef) \<and>
      ef_output ef = map (\<lambda>row. expert_output M moe (flat ! row) (ef_id ef)) (ef_rows ef)) \<and>
    (\<forall>e < mo_experts moe. mo_loads moe' ! e = mo_loads moe ! e + length (rows_of e)) \<and>
    mo_total moe' = mo_total moe + numel input div mo_width moe * mo_top_k moe"
proof -
  obtain experts moe' where saved: "fold (save_expert (moe_run M moe flat)) [0..<mo_experts moe] ([], moe) = (experts, moe')"
    "map ef_id experts = filter (\<lambda>e. of_expert e (routed M moe flat) \<noteq> []) [0..<mo_experts moe]"
    "\<forall>ef \<in> set experts. ef_rows ef = rows_of (ef_id ef) \<and> ef_input ef = map ((!) flat) (ef_rows ef) \<and>
      ef_output ef = map (\<lambda>row. expert_output M moe (flat ! row) (ef_id ef)) (ef_rows ef)"
    "moe' = moe\<lparr>mo_loads := map (\<lambda>e. mo_loads moe ! e + (if e < mo_experts moe then length (of_expert e (routed M moe flat)) else 0)) [0..<mo_experts moe],
      mo_total := mo_total moe + starts (routed M moe flat) (mo_experts moe)\<rparr>"
    using save_experts [OF assms(1,2) order_refl, of M flat] by (auto simp: assms(8))
  have "starts (routed M moe flat) (mo_experts moe) = length flat * mo_top_k moe"
    using by_expert_sort [OF routed_bound [OF assms(1)]] moe_run_fields(7) [OF assms(1)] by (simp add: starts_def)
  moreover have "length flat = numel input div mo_width moe" by (simp add: assms(7))
  moreover have "filter (\<lambda>e. of_expert e (routed M moe flat) \<noteq> []) [0..<mo_experts moe] = filter (\<lambda>e. rows_of e \<noteq> []) [0..<mo_experts moe]"
    by (simp add: assms(8))
  moreover have "\<forall>e < mo_experts moe. mo_loads moe' ! e = mo_loads moe ! e + length (rows_of e)" by (simp add: saved(4) assms(8))
  ultimately show ?thesis using moe_forward_run [OF assms(3-7), of M True] saved by auto
qed

theorem moe_forward_training_witness:
  "\<exists>result experts moe'. moe_forward example_math example_moe \<lparr>ts_shape = [2, 2], ts_data = [1, 2, 3, 1]\<rparr> True = Inr (result, experts, moe') \<and>
    mo_total moe' = 2"
proof -
  let ?t = "\<lparr>ts_shape = [2, 2], ts_data = [1, 2, 3, 1]\<rparr> :: tensor"
  have "moe_shape example_moe" "length (mo_loads example_moe) = mo_experts example_moe" "0 < mo_top_k example_moe" "0 < mo_width example_moe"
    "0 < numel ?t" "mo_width example_moe dvd numel ?t"
    by (simp_all add: moe_shape_def example_moe_def numel_def)
  from moe_forward_training [OF this refl refl, of example_math] obtain result experts moe' where
    "moe_forward example_math example_moe ?t True = Inr (result, experts, moe')"
    "mo_total moe' = mo_total example_moe + numel ?t div mo_width example_moe * mo_top_k example_moe" by blast
  then show ?thesis by (simp add: example_moe_def numel_def)
qed

section \<open>Shapes\<close>

text \<open>The layer's weights: a router row and a bias for each expert, down weights as wide as a token, a load per expert.\<close>

definition moe_typed :: "moe \<Rightarrow> bool" where
  "moe_typed moe \<longleftrightarrow> moe_shape moe \<and> (\<forall>e < mo_experts moe. length (mo_down moe ! e) = mo_width moe) \<and>
     length (mo_loads moe) = mo_experts moe \<and> 0 < mo_top_k moe \<and> 0 < mo_width moe"

definition tensor_typed :: "tensor \<Rightarrow> bool" where
  "tensor_typed t \<longleftrightarrow> numel t = prod_list (ts_shape t)"

lemma moe_token_length:
  assumes "moe_typed moe"
  shows "length (moe_token M moe x) = mo_width moe"
proof -
  have "length (fold (\<lambda>(e, weight). add_expert (mm_ops M) (fo_mul (mm_ops M) weight (mo_scale moe)) (expert_output M moe x e)) slots out) =
      mo_width moe" if "\<forall>(e, weight) \<in> set slots. e < mo_experts moe" "length out = mo_width moe" for slots :: "(nat \<times> f32) list" and out
    using that
  proof (induction slots arbitrary: out)
    case (Cons slot slots)
    then show ?case using assms by (cases slot) (simp add: moe_typed_def add_expert_def expert_output_def)
  qed simp
  moreover have "\<forall>(e, weight) \<in> set (sort_key fst (token_slots M moe x)). e < mo_experts moe"
    using token_slots_bound [of moe _ _ M x] assms by (auto simp: moe_typed_def moe_shape_def)
  ultimately show ?thesis by (simp add: moe_token_def)
qed

lemma save_expert_typed: "moe_typed moe \<Longrightarrow> moe_typed (snd (save_expert pass e (experts, moe)))"
  by (simp add: save_expert_def moe_typed_def moe_shape_def Let_def)

lemma save_experts_typed: "moe_typed (snd s) \<Longrightarrow> moe_typed (snd (fold (save_expert pass) es s))"
proof (induction es arbitrary: s)
  case (Cons e es)
  then show ?case using save_expert_typed [of "snd s" pass e "fst s"] by simp
qed simp

end
