(* ===== verification/Model_Params.thy ===== *)
theory Model_Params
  imports Model_Config Go_Slices
begin

text \<open>
  The parameters of a model: the constructors of src/model/transformer.go, block.go, attention.go, mla.go, mlp.go,
  moe.go, compress.go, indexer.go and layers/linear.go, \<open>NamedParameters\<close> of params.go, and the counts that flops.go takes
  from a built model.

  A parameter is its shape; the values are zero until the weights are initialised. \<open>new_weight\<close> is \<open>tensors.New\<close>, which
  panics on an empty dimension. An attention holds either the absorbed projections or the direct ones.
\<close>

section \<open>Weights\<close>

type_synonym weight = "int list"

definition size_of :: "weight \<Rightarrow> int" where
  "size_of w = prod_list w"

definition new_weight :: "int list \<Rightarrow> (unit, weight) outcome" where
  "new_weight dims = panic_if (dims = [] \<or> (\<exists>d \<in> set dims. d \<le> 0)) (Inr dims)"

text \<open>The weight of \<open>NewLinear(in, out)\<close> and of \<open>NewEmbedding(num, dim)\<close>.\<close>

definition new_linear :: "int \<Rightarrow> int \<Rightarrow> (unit, weight) outcome" where
  "new_linear in' out = new_weight [out, in']"

definition new_embedding :: "int \<Rightarrow> int \<Rightarrow> (unit, weight) outcome" where
  "new_embedding num width = new_weight [num, width]"

section \<open>Layers\<close>

record mla_weights =
  ml_query_down :: weight
  ml_query_up :: weight
  ml_query_rope :: weight
  ml_kv_down :: weight
  ml_key_up :: weight
  ml_value_up :: weight
  ml_key_rope :: weight

record direct_weights =
  dw_query :: weight
  dw_key :: weight
  dw_value :: weight
  dw_query_down :: "weight option"
  dw_kv_down :: "weight option"

datatype projections = Absorbed mla_weights | Direct direct_weights

record attention_weights =
  at_projections :: projections
  at_output :: weight
  at_gate :: "weight option"
  at_compressor :: "(weight \<times> weight) option"
  at_indexer :: "(weight \<times> weight \<times> weight) option"
  at_mode :: reuse_mode
  at_producer :: nat
  at_decoder :: bool

record mlp_weights =
  mw_input :: weight
  mw_gate :: "weight option"
  mw_output :: weight

record moe_weights =
  ow_router :: weight
  ow_bias :: weight
  ow_gate :: weight
  ow_up :: weight
  ow_down :: weight
  ow_experts :: int
  ow_top_k :: int

record block =
  bl_attention :: attention_weights
  bl_mlp :: mlp_weights
  bl_moe :: "moe_weights option"

record transformer =
  tr_config :: config
  tr_windows :: "(int \<times> int) list"
  tr_embedding :: weight
  tr_blocks :: "block list"
  tr_head :: weight
  tr_resid :: weight
  tr_x0 :: weight
  tr_smear_gate :: weight
  tr_smear_lambda :: weight
  tr_backout :: weight
  tr_value_embeds :: "(nat \<times> weight) list"

section \<open>Constructors\<close>

definition new_mla :: "config \<Rightarrow> (unit, mla_weights) outcome" where
  "new_mla c =
     obind (head_dim c) (\<lambda>d. obind (mla_rotary_dimension c) (\<lambda>rope.
     obind (new_linear (embed_dim c) (mla_latent c)) (\<lambda>query_down.
     obind (new_linear (mla_latent c) (num_head c * (d - rope))) (\<lambda>query_up.
     obind (new_linear (embed_dim c) (num_head c * rope)) (\<lambda>query_rope.
     obind (new_linear (embed_dim c) (mla_latent c)) (\<lambda>kv_down.
     obind (new_linear (mla_latent c) (num_kv_head c * (d - rope))) (\<lambda>key_up.
     obind (new_linear (mla_latent c) (num_kv_head c * d)) (\<lambda>value_up.
     obind (new_linear (embed_dim c) (num_kv_head c * rope)) (\<lambda>key_rope.
       Inr \<lparr>ml_query_down = query_down, ml_query_up = query_up, ml_query_rope = query_rope, ml_kv_down = kv_down, ml_key_up = key_up,
            ml_value_up = value_up, ml_key_rope = key_rope\<rparr>)))))))))"

definition new_direct :: "config \<Rightarrow> int \<Rightarrow> (unit, direct_weights) outcome" where
  "new_direct c d =
     obind (if query_rank c > 0
            then obind (new_linear (embed_dim c) (query_rank c)) (\<lambda>down.
                 obind (new_linear (query_rank c) (num_head c * d)) (\<lambda>q. Inr (q, Some down)))
            else obind (new_linear (embed_dim c) (num_head c * d)) (\<lambda>q. Inr (q, None))) (\<lambda>(query, query_down).
     obind (if kv_rank c > 0
            then obind (new_linear (embed_dim c) (kv_rank c)) (\<lambda>down.
                 obind (new_linear (kv_rank c) (num_kv_head c * d)) (\<lambda>k.
                 obind (new_linear (kv_rank c) (num_kv_head c * d)) (\<lambda>v. Inr (k, v, Some down))))
            else obind (new_linear (embed_dim c) (num_kv_head c * d)) (\<lambda>k.
                 obind (new_linear (embed_dim c) (num_kv_head c * d)) (\<lambda>v. Inr (k, v, None)))) (\<lambda>(key, value', kv_down).
       Inr \<lparr>dw_query = query, dw_key = key, dw_value = value', dw_query_down = query_down, dw_kv_down = kv_down\<rparr>))"

definition new_compressor :: "int \<Rightarrow> int \<Rightarrow> int \<Rightarrow> (unit, weight \<times> weight) outcome" where
  "new_compressor width' channels ratio =
     panic_if (ratio < 1)
       (obind (new_linear width' channels) (\<lambda>logits. obind (new_weight [ratio, channels]) (\<lambda>bias. Inr (logits, bias))))"

definition new_indexer_weights :: "int \<Rightarrow> int \<Rightarrow> int \<Rightarrow> int \<Rightarrow> (unit, weight \<times> weight \<times> weight) outcome" where
  "new_indexer_weights width' width d heads =
     panic_if (d < 1 \<or> heads < 1)
       (obind (new_linear width' (d * heads)) (\<lambda>query. obind (new_linear width (d * heads)) (\<lambda>key.
        obind (new_weight [heads]) (\<lambda>head_weights. Inr (query, key, head_weights)))))"

definition new_attention :: "config \<Rightarrow> bool \<Rightarrow> nat \<Rightarrow> (unit, attention_weights) outcome" where
  "new_attention c has_value layer =
     obind (head_dim c) (\<lambda>d. obind (new_linear (embed_dim c) (embed_dim c)) (\<lambda>output.
     obind (if has_value then obind (new_linear 12 (num_kv_head c)) (\<lambda>w. Inr (Some w)) else Inr None) (\<lambda>gate.
       let mode = reuse_mode_at c layer;
           attention = \<lambda>projections compressor indexer. \<lparr>at_projections = projections, at_output = output, at_gate = gate,
             at_compressor = compressor, at_indexer = indexer, at_mode = mode, at_producer = reuse_producer c layer,
             at_decoder = is_decoder_layer c layer\<rparr> in
       if mla_enabled c then obind (new_mla c) (\<lambda>mla. Inr (attention (Absorbed mla) None None))
       else obind (new_direct c d) (\<lambda>direct.
         if compression c > 1 then
           obind (if mode = ReuseFull then obind (new_compressor (embed_dim c) d (compression c)) (\<lambda>w. Inr (Some w)) else Inr None) (\<lambda>compressor.
           obind (if sparse_top_k c > 0 \<and> mode \<noteq> ReuseReuse
                  then obind (new_indexer_weights (embed_dim c) d (fst (indexer_defaults c)) (snd (indexer_defaults c))) (\<lambda>w. Inr (Some w))
                  else Inr None) (\<lambda>indexer.
             Inr (attention (Direct direct) compressor indexer)))
         else Inr (attention (Direct direct) None None)))))"

definition new_mlp :: "int \<Rightarrow> int \<Rightarrow> bool \<Rightarrow> (unit, mlp_weights) outcome" where
  "new_mlp width' hidden swiglu =
     obind (new_linear width' hidden) (\<lambda>input.
     obind (if swiglu then obind (new_linear width' hidden) (\<lambda>w. Inr (Some w)) else Inr None) (\<lambda>gate.
     obind (new_linear hidden width') (\<lambda>output. Inr \<lparr>mw_input = input, mw_gate = gate, mw_output = output\<rparr>)))"

definition new_moe :: "config \<Rightarrow> (unit, moe_weights) outcome" where
  "new_moe c =
     (let experts = num_experts c; hidden = moe_expert_hidden c in
      obind (new_linear (embed_dim c) experts) (\<lambda>router. obind (new_weight [experts]) (\<lambda>bias.
      obind (new_weight [experts, hidden, embed_dim c]) (\<lambda>gate. obind (new_weight [experts, hidden, embed_dim c]) (\<lambda>up.
      obind (new_weight [experts, embed_dim c, hidden]) (\<lambda>down.
        Inr \<lparr>ow_router = router, ow_bias = bias, ow_gate = gate, ow_up = up, ow_down = down, ow_experts = experts,
             ow_top_k = moe_active_experts c\<rparr>))))))"

definition new_block :: "config \<Rightarrow> bool \<Rightarrow> nat \<Rightarrow> (unit, block) outcome" where
  "new_block c has_value layer =
     obind (new_attention c has_value layer) (\<lambda>attention.
       if moe_enabled c then
         obind (new_mlp (embed_dim c) (moe_shared_hidden c) True) (\<lambda>mlp. obind (new_moe c) (\<lambda>moe.
           Inr \<lparr>bl_attention = attention, bl_mlp = mlp, bl_moe = Some moe\<rparr>))
       else obind (new_mlp (embed_dim c) (4 * embed_dim c) False) (\<lambda>mlp. Inr \<lparr>bl_attention = attention, bl_mlp = mlp, bl_moe = None\<rparr>))"

definition has_value_embedding :: "nat \<Rightarrow> int \<Rightarrow> bool" where
  "has_value_embedding layer layers \<longleftrightarrow> int layer smod 2 = (layers - 1) smod 2"

text \<open>The blocks and value embeddings of the layers from \<open>0\<close>; the rotary tables are a pair of tensors of the same shape.\<close>

definition new_transformer :: "config \<Rightarrow> (unit, transformer) outcome" where
  "new_transformer c =
     (let c = apply_moe_defaults c in
      obind (validate c) (\<lambda>_. obind (rotary_dimension c) (\<lambda>rotary. obind (new_weight [sequence_len c * 10, rotary sdiv 2]) (\<lambda>_.
      obind (window_sizes c) (\<lambda>windows.
      obind (new_embedding (padded_vocab c) (embed_dim c)) (\<lambda>embedding.
      obind (new_linear (embed_dim c) (padded_vocab c)) (\<lambda>head.
      obind (new_weight [num_layer c]) (\<lambda>lambdas.
      obind (omap (\<lambda>layer.
          let has_value = (\<not> mla_enabled c \<and> has_value_embedding layer (num_layer c)) in
          obind (new_block c has_value layer) (\<lambda>block.
            if has_value then obind (head_dim c) (\<lambda>d. obind (new_embedding (padded_vocab c) (num_kv_head c * d)) (\<lambda>w. Inr (block, [(layer, w)])))
            else Inr (block, []))) [0..<nat (num_layer c)]) (\<lambda>layers.
        Inr \<lparr>tr_config = c, tr_windows = windows, tr_embedding = embedding, tr_blocks = map fst layers, tr_head = head,
             tr_resid = lambdas, tr_x0 = lambdas, tr_smear_gate = [1, 24], tr_smear_lambda = [1], tr_backout = [1],
             tr_value_embeds = concat (map snd layers)\<rparr>)))))))))"

section \<open>Names\<close>

definition digit_char :: "nat \<Rightarrow> char" where
  "digit_char d = char_of (48 + d)"

fun decimal_string :: "nat \<Rightarrow> string" where
  "decimal_string n = (if n < 10 then [digit_char n] else decimal_string (n div 10) @ [digit_char (n mod 10)])"

declare decimal_string.simps [simp del]

definition layer_name :: "nat \<Rightarrow> string \<Rightarrow> string" where
  "layer_name layer suffix = ''transformer.h.'' @ decimal_string layer @ ''.'' @ suffix"

definition value_name :: "nat \<Rightarrow> string" where
  "value_name layer = ''value_embeds.'' @ decimal_string layer @ ''.weight''"

definition optional :: "string \<Rightarrow> weight option \<Rightarrow> (string \<times> weight) list" where
  "optional name w = (case w of None \<Rightarrow> [] | Some w \<Rightarrow> [(name, w)])"

fun projection_parameters :: "projections \<Rightarrow> (string \<times> weight) list" where
  "projection_parameters (Absorbed m) =
     [(''attn.mla_q_down.weight'', ml_query_down m), (''attn.mla_q_up.weight'', ml_query_up m),
      (''attn.mla_q_rope.weight'', ml_query_rope m), (''attn.mla_kv_down.weight'', ml_kv_down m),
      (''attn.mla_k_up.weight'', ml_key_up m), (''attn.mla_v_up.weight'', ml_value_up m), (''attn.mla_k_rope.weight'', ml_key_rope m)]"
| "projection_parameters (Direct w) =
     [(''attn.c_q.weight'', dw_query w), (''attn.c_k.weight'', dw_key w), (''attn.c_v.weight'', dw_value w)] @
     optional ''attn.q_down.weight'' (dw_query_down w) @ optional ''attn.kv_down.weight'' (dw_kv_down w)"

definition attention_parameters :: "attention_weights \<Rightarrow> (string \<times> weight) list" where
  "attention_parameters a =
     projection_parameters (at_projections a) @ [(''attn.c_proj.weight'', at_output a)] @ optional ''attn.ve_gate.weight'' (at_gate a) @
     (case at_compressor a of None \<Rightarrow> []
      | Some (logits, bias) \<Rightarrow> [(''attn.compress_logits.weight'', logits), (''attn.compress_bias'', bias)]) @
     (case at_indexer a of None \<Rightarrow> []
      | Some (query, key, heads) \<Rightarrow>
          [(''attn.indexer_query.weight'', query), (''attn.indexer_key.weight'', key), (''attn.indexer_heads'', heads)])"

definition moe_parameters :: "moe_weights option \<Rightarrow> (string \<times> weight) list" where
  "moe_parameters moe = (case moe of None \<Rightarrow> []
     | Some w \<Rightarrow> [(''moe.router.weight'', ow_router w), (''moe.router_bias'', ow_bias w), (''moe.experts.gate.weight'', ow_gate w),
                  (''moe.experts.up.weight'', ow_up w), (''moe.experts.down.weight'', ow_down w)])"

definition block_parameters :: "block \<Rightarrow> (string \<times> weight) list" where
  "block_parameters b =
     attention_parameters (bl_attention b) @ [(''mlp.c_fc.weight'', mw_input (bl_mlp b))] @
     optional ''mlp.c_gate.weight'' (mw_gate (bl_mlp b)) @ [(''mlp.c_proj.weight'', mw_output (bl_mlp b))] @ moe_parameters (bl_moe b)"

text \<open>The entries that are written, in that order; the code writes them to a map.\<close>

definition parameter_entries :: "transformer \<Rightarrow> (string \<times> weight) list" where
  "parameter_entries m =
     [(''transformer.wte.weight'', tr_embedding m), (''lm_head.weight'', tr_head m)] @
     concat (map (\<lambda>(layer, b). map (\<lambda>(suffix, w). (layer_name layer suffix, w)) (block_parameters b)) (List.enumerate 0 (tr_blocks m))) @
     map (\<lambda>(layer, w). (value_name layer, w)) (tr_value_embeds m) @
     [(''resid_lambdas'', tr_resid m), (''x0_lambdas'', tr_x0 m), (''smear_gate.weight'', tr_smear_gate m),
      (''smear_lambda'', tr_smear_lambda m), (''backout_lambda'', tr_backout m)]"

definition named_parameters :: "transformer \<Rightarrow> string \<Rightarrow> weight option" where
  "named_parameters m = fold (\<lambda>(name, w) ps. ps(name \<mapsto> w)) (parameter_entries m) Map.empty"

definition total_params :: "transformer \<Rightarrow> int" where
  "total_params m = sum_list (map (\<lambda>name. size_of (the (named_parameters m name))) (remdups (map fst (parameter_entries m))))"

section \<open>Counts of a built model\<close>

definition opt_size :: "weight option \<Rightarrow> int" where
  "opt_size w = (case w of None \<Rightarrow> 0 | Some w \<Rightarrow> size_of w)"

definition mla_num_parameters :: "mla_weights \<Rightarrow> int" where
  "mla_num_parameters m = sum_list (map size_of [ml_query_down m, ml_query_up m, ml_query_rope m, ml_kv_down m, ml_key_up m,
     ml_value_up m, ml_key_rope m])"

definition moe_all_experts :: "moe_weights \<Rightarrow> int" where
  "moe_all_experts w = size_of (ow_gate w) + size_of (ow_up w) + size_of (ow_down w)"

definition moe_param_count :: "moe_weights option \<Rightarrow> int" where
  "moe_param_count moe = (case moe of None \<Rightarrow> 0 | Some w \<Rightarrow> size_of (ow_router w) + moe_all_experts w)"

text \<open>The matrices of a block: the body of the loops of \<open>MatmulParams\<close> and of \<open>NumScalingParams\<close>.\<close>

definition block_matrices :: "block \<Rightarrow> int" where
  "block_matrices b =
     (let a = bl_attention b; mlp = bl_mlp b; rest = size_of (mw_input mlp) + opt_size (mw_gate mlp) + size_of (mw_output mlp) + moe_param_count (bl_moe b) in
      case at_projections a of
        Absorbed mla \<Rightarrow> mla_num_parameters mla + size_of (at_output a) + opt_size (at_gate a) + rest
      | Direct w \<Rightarrow> size_of (dw_query w) + size_of (dw_key w) + size_of (dw_value w) + size_of (at_output a) +
          opt_size (dw_query_down w) + opt_size (dw_kv_down w) + opt_size (at_gate a) + rest)"

definition matmul_params :: "transformer \<Rightarrow> int" where
  "matmul_params m = sum_list (map block_matrices (tr_blocks m)) + size_of (tr_head m) + size_of (tr_smear_gate m)"

definition active_block :: "int \<Rightarrow> block \<Rightarrow> (unit, int) outcome" where
  "active_block total' b = (case bl_moe b of None \<Rightarrow> Inr total'
     | Some w \<Rightarrow> obind (go_div (moe_all_experts w) (ow_experts w)) (\<lambda>per_expert.
         Inr (total' - moe_all_experts w + ow_top_k w * per_expert)))"

definition active_matmul_params :: "transformer \<Rightarrow> (unit, int) outcome" where
  "active_matmul_params m = ofold (\<lambda>b total'. active_block total' b) (tr_blocks m) (matmul_params m)"

record scaling_params =
  sp_wte :: int
  sp_value_embeds :: int
  sp_head :: int
  sp_matrices :: int
  sp_scalars :: int
  sp_total :: int

definition num_scaling_params :: "transformer \<Rightarrow> scaling_params" where
  "num_scaling_params m =
     (let wte = size_of (tr_embedding m); embeds = sum_list (map (size_of \<circ> snd) (tr_value_embeds m)); head = size_of (tr_head m);
          matrices = sum_list (map block_matrices (tr_blocks m));
          scalars = size_of (tr_resid m) + size_of (tr_x0 m) + size_of (tr_smear_gate m) + size_of (tr_smear_lambda m) + size_of (tr_backout m) in
      \<lparr>sp_wte = wte, sp_value_embeds = embeds, sp_head = head, sp_matrices = matrices, sp_scalars = scalars,
       sp_total = wte + embeds + head + matrices + scalars\<rparr>)"

section \<open>The names are distinct\<close>

lemma digit_char_inj:
  assumes "d < 10" "e < 10" "digit_char d = digit_char e"
  shows "d = e"
proof -
  have "(of_char (digit_char d) :: nat) = of_char (digit_char e)" using assms(3) by simp
  with assms(1,2) show ?thesis by (simp add: digit_char_def)
qed

lemma digit_char_dot: "d < 10 \<Longrightarrow> digit_char d \<noteq> CHR ''.''"
proof
  assume "d < 10" "digit_char d = CHR ''.''"
  then have "(of_char (digit_char d) :: nat) = of_char CHR ''.''" by simp
  then have "(48 + d) mod 256 = 46" by (simp add: digit_char_def)
  with \<open>d < 10\<close> show False by simp
qed

lemma decimal_string_no_dot: "CHR ''.'' \<notin> set (decimal_string n)"
proof (induction n rule: decimal_string.induct)
  case (1 n)
  show ?case
  proof (cases "n < 10")
    case True
    then show ?thesis using digit_char_dot [of n] by (auto simp: decimal_string.simps [of n])
  next
    case False
    then show ?thesis using 1 digit_char_dot [of "n mod 10"] by (auto simp: decimal_string.simps [of n])
  qed
qed

lemma decimal_string_inj: "decimal_string n = decimal_string k \<Longrightarrow> n = k"
proof (induction n arbitrary: k rule: decimal_string.induct)
  case (1 n)
  have nonempty: "decimal_string j \<noteq> []" for j by (simp add: decimal_string.simps [of j])
  show ?case
  proof (cases "n < 10")
    case True
    then have "k < 10"
    proof (rule_tac ccontr)
      assume "\<not> k < 10"
      then have "[digit_char n] = decimal_string (k div 10) @ [digit_char (k mod 10)]"
        using 1(2) True by (simp add: decimal_string.simps [of n] decimal_string.simps [of k])
      then show False using nonempty [of "k div 10"] by (simp add: Cons_eq_append_conv)
    qed
    with True 1(2) digit_char_inj show ?thesis by (simp add: decimal_string.simps [of n] decimal_string.simps [of k])
  next
    case False
    then have k: "\<not> k < 10"
    proof (rule_tac notI)
      assume "k < 10"
      then have "[digit_char k] = decimal_string (n div 10) @ [digit_char (n mod 10)]"
        using 1(2) False by (simp add: decimal_string.simps [of n] decimal_string.simps [of k])
      then show False using nonempty [of "n div 10"] by (simp add: Cons_eq_append_conv)
    qed
    then have "decimal_string (n div 10) = decimal_string (k div 10)" "digit_char (n mod 10) = digit_char (k mod 10)"
      using 1(2) False by (simp_all add: decimal_string.simps [of n] decimal_string.simps [of k])
    then have "n div 10 = k div 10" "n mod 10 = k mod 10" using 1(1) [OF False] digit_char_inj by simp_all
    then show ?thesis by (metis div_mult_mod_eq)
  qed
qed

lemma dotted_inj:
  assumes "CHR ''.'' \<notin> set xs" "CHR ''.'' \<notin> set ys" "xs @ CHR ''.'' # s = ys @ CHR ''.'' # t"
  shows "xs = ys \<and> s = t"
  using assms
proof (induction xs arbitrary: ys)
  case Nil
  then show ?case by (cases ys) auto
next
  case (Cons x xs)
  then show ?case by (cases ys) auto
qed

lemma layer_name_inj [simp]: "layer_name l s = layer_name k t \<longleftrightarrow> l = k \<and> s = t"
  using dotted_inj [of "decimal_string l" "decimal_string k" s t] decimal_string_no_dot decimal_string_inj
  by (auto simp: layer_name_def)

lemma value_name_inj [simp]: "value_name l = value_name k \<longleftrightarrow> l = k"
  using decimal_string_inj by (auto simp: value_name_def)

lemma names_apart [simp]:
  "layer_name l s \<noteq> value_name k" "value_name k \<noteq> layer_name l s"
  by (simp_all add: layer_name_def value_name_def)

lemma projection_names:
  "distinct (map fst (projection_parameters p))"
  "name \<in> {''attn.c_proj.weight'', ''attn.ve_gate.weight'', ''attn.compress_logits.weight'', ''attn.compress_bias'',
     ''attn.indexer_query.weight'', ''attn.indexer_key.weight'', ''attn.indexer_heads''} \<Longrightarrow> (name, w) \<notin> set (projection_parameters p)"
  by (cases p; auto simp: optional_def split: option.splits)+

lemma attention_names:
  "distinct (map fst (attention_parameters a))" "(name, w) \<in> set (attention_parameters a) \<Longrightarrow> take 4 name = ''attn''"
proof -
  have "distinct (map fst (projection_parameters p @ (''attn.c_proj.weight'', w) # optional ''attn.ve_gate.weight'' g @
      (case cs of None \<Rightarrow> [] | Some (logits, bias) \<Rightarrow> [(''attn.compress_logits.weight'', logits), (''attn.compress_bias'', bias)]) @
      (case is of None \<Rightarrow> []
       | Some (query, key, heads) \<Rightarrow>
          [(''attn.indexer_query.weight'', query), (''attn.indexer_key.weight'', key), (''attn.indexer_heads'', heads)])))" for p w g cs "is"
    by (cases g; cases cs; cases "is") (auto simp: optional_def projection_names image_iff)
  then show "distinct (map fst (attention_parameters a))" by (simp add: attention_parameters_def)
  have "take 4 name = ''attn''" if "(name, w) \<in> set (projection_parameters p)" for p
    using that by (cases p) (auto simp: optional_def split: option.splits)
  then show "(name, w) \<in> set (attention_parameters a) \<Longrightarrow> take 4 name = ''attn''"
    by (auto simp: attention_parameters_def optional_def split: option.splits)
qed

lemma block_parameters_distinct: "distinct (map fst (block_parameters b))"
proof -
  have "(name, w) \<notin> set (attention_parameters a)" if "take 4 name \<noteq> ''attn''" for name w a
    using that attention_names(2) by blast
  then show ?thesis using attention_names(1)
    by (cases "bl_moe b"; cases "mw_gate (bl_mlp b)") (auto simp: block_parameters_def optional_def moe_parameters_def image_iff)
qed

lemma parameter_names_distinct:
  assumes "distinct (map fst (tr_value_embeds m))"
  shows "distinct (map fst (parameter_entries m))"
proof -
  define entries where "entries n bs = map fst (concat (map (\<lambda>(layer, b). map (\<lambda>(suffix, w). (layer_name layer suffix, w)) (block_parameters b))
    (List.enumerate n bs)))" for n bs
  have "distinct (entries n bs) \<and> set (entries n bs) \<subseteq> {layer_name l s |l s. n \<le> l}" for n bs
  proof (induction bs arbitrary: n)
    case (Cons b bs)
    have "entries n (b # bs) = map (layer_name n) (map fst (block_parameters b)) @ entries (Suc n) bs"
      by (simp add: entries_def comp_def case_prod_unfold)
    moreover have "distinct (map (layer_name n) (map fst (block_parameters b)))"
      by (subst distinct_map, intro conjI block_parameters_distinct) (simp add: inj_on_def)
    moreover have "\<exists>l s. name = layer_name l s \<and> Suc n \<le> l" if "name \<in> set (entries (Suc n) bs)" for name
      using Cons.IH [of "Suc n"] that by blast
    then have "layer_name n s \<notin> set (entries (Suc n) bs)" "name \<in> set (entries (Suc n) bs) \<Longrightarrow> \<exists>l s. name = layer_name l s \<and> n \<le> l" for name s
      using layer_name_inj by fastforce+
    ultimately show ?case unfolding distinct_append set_append set_map using Cons.IH [of "Suc n"] by (auto 0 4)
  qed (simp add: entries_def)
  then have layers: "distinct (entries 0 (tr_blocks m))" "\<And>name. name \<in> set (entries 0 (tr_blocks m)) \<Longrightarrow> \<exists>l s. name = layer_name l s"
    by blast+
  have embeds: "map fst (map (\<lambda>(layer, w). (value_name layer, w)) (tr_value_embeds m)) = map value_name (map fst (tr_value_embeds m))"
    by (simp add: comp_def case_prod_unfold)
  define V where "V = map value_name (map fst (tr_value_embeds m))"
  have "distinct V" unfolding V_def by (subst distinct_map, intro conjI assms) (simp add: inj_on_def)
  moreover have others: "layer_name l s \<notin> {''transformer.wte.weight'', ''lm_head.weight'', ''resid_lambdas'', ''x0_lambdas'', ''smear_gate.weight'',
      ''smear_lambda'', ''backout_lambda''}" "value_name l \<notin> {''transformer.wte.weight'', ''lm_head.weight'', ''resid_lambdas'', ''x0_lambdas'',
      ''smear_gate.weight'', ''smear_lambda'', ''backout_lambda''}" for l s
    by (simp_all add: layer_name_def value_name_def)
  have "name \<notin> set (entries 0 (tr_blocks m)) \<and> name \<notin> set V" if "name \<in> {''transformer.wte.weight'', ''lm_head.weight'', ''resid_lambdas'',
      ''x0_lambdas'', ''smear_gate.weight'', ''smear_lambda'', ''backout_lambda''}" for name
    using layers(2) [of name] others that unfolding V_def set_map image_image by blast
  moreover have "name \<notin> set V" if "name \<in> set (entries 0 (tr_blocks m))" for name
    using layers(2) [OF that] by (auto simp: V_def)
  ultimately have "distinct ([''transformer.wte.weight'', ''lm_head.weight''] @ entries 0 (tr_blocks m) @ V @
      [''resid_lambdas'', ''x0_lambdas'', ''smear_gate.weight'', ''smear_lambda'', ''backout_lambda''])"
    using layers(1) by auto
  then show ?thesis unfolding parameter_entries_def map_append embeds entries_def V_def by simp
qed

section \<open>Counting all parameters\<close>

text \<open>The parameters of a block that \<open>NumScalingParams\<close> leaves out.\<close>

definition uncounted :: "block \<Rightarrow> int" where
  "uncounted b =
     (case at_compressor (bl_attention b) of None \<Rightarrow> 0 | Some (logits, bias) \<Rightarrow> size_of logits + size_of bias) +
     (case at_indexer (bl_attention b) of None \<Rightarrow> 0 | Some (query, key, heads) \<Rightarrow> size_of query + size_of key + size_of heads) +
     (case bl_moe b of None \<Rightarrow> 0 | Some w \<Rightarrow> size_of (ow_bias w))"

lemma named_parameters_lookup:
  assumes "distinct (map fst (parameter_entries m))"
  shows "named_parameters m = map_of (parameter_entries m)"
proof -
  have "fold (\<lambda>(name, w) ps. ps(name \<mapsto> w)) es ps = ps ++ map_of (rev es)" for es :: "(string \<times> weight) list" and ps
    by (induction es arbitrary: ps) (auto simp: map_add_def fun_eq_iff split: option.split)
  then have "named_parameters m = map_of (rev (parameter_entries m))" by (simp add: named_parameters_def)
  also have "\<dots> = map_of (parameter_entries m)"
    using map_of_inject_set [of "rev (parameter_entries m)" "parameter_entries m"] assms by (simp add: rev_map [symmetric])
  finally show ?thesis .
qed

lemma total_params_sum:
  assumes "distinct (map fst (tr_value_embeds m))"
  shows "total_params m = sum_list (map (size_of \<circ> snd) (parameter_entries m))"
proof -
  note distinct = parameter_names_distinct [OF assms]
  have "total_params m = sum_list (map (\<lambda>name. size_of (the (named_parameters m name))) (map fst (parameter_entries m)))"
    using distinct by (simp add: total_params_def distinct_remdups_id)
  also have "\<dots> = sum_list (map (size_of \<circ> snd) (parameter_entries m))"
    unfolding map_map comp_def named_parameters_lookup [OF distinct] using distinct by (intro arg_cong [where f = sum_list] map_cong) auto
  finally show ?thesis .
qed

lemma block_parameters_size: "sum_list (map (size_of \<circ> snd) (block_parameters b)) = block_matrices b + uncounted b"
proof -
  have optional: "sum_list (map (size_of \<circ> snd) (optional name w)) = opt_size w" for name w
    by (simp add: optional_def opt_size_def split: option.split)
  have attention: "sum_list (map (size_of \<circ> snd) (attention_parameters a)) =
      sum_list (map (size_of \<circ> snd) (projection_parameters (at_projections a))) + size_of (at_output a) + opt_size (at_gate a) +
      (case at_compressor a of None \<Rightarrow> 0 | Some (logits, bias) \<Rightarrow> size_of logits + size_of bias) +
      (case at_indexer a of None \<Rightarrow> 0 | Some (query, key, heads) \<Rightarrow> size_of query + size_of key + size_of heads)" for a
    by (cases "at_compressor a"; cases "at_indexer a") (auto simp: attention_parameters_def optional)
  have moe: "sum_list (map (size_of \<circ> snd) (moe_parameters w)) = moe_param_count w + (case w of None \<Rightarrow> 0 | Some w \<Rightarrow> size_of (ow_bias w))" for w
    by (cases w) (simp_all add: moe_parameters_def moe_param_count_def moe_all_experts_def)
  show ?thesis
  proof (cases "at_projections (bl_attention b)")
    case (Absorbed mla)
    then show ?thesis
      by (simp add: block_parameters_def attention moe optional Let_def block_matrices_def mla_num_parameters_def uncounted_def)
  next
    case (Direct w)
    then show ?thesis by (simp add: block_parameters_def attention moe optional Let_def block_matrices_def uncounted_def)
  qed
qed

lemma parameter_entries_size:
  "sum_list (map (size_of \<circ> snd) (parameter_entries m)) = sp_total (num_scaling_params m) + sum_list (map uncounted (tr_blocks m))"
proof -
  have "sum_list (map (size_of \<circ> snd) (concat (map (\<lambda>(layer, b). map (\<lambda>(suffix, w). (layer_name layer suffix, w)) (block_parameters b)) (List.enumerate n bs)))) =
      sum_list (map block_matrices bs) + sum_list (map uncounted bs)" for n bs
  proof (induction bs arbitrary: n)
    case (Cons b bs)
    have "map (size_of \<circ> snd) (map (\<lambda>(suffix, w). (layer_name n suffix, w)) (block_parameters b)) = map (size_of \<circ> snd) (block_parameters b)"
      by (simp add: comp_def case_prod_unfold)
    then have "sum_list (map (size_of \<circ> snd) (map (\<lambda>(suffix, w). (layer_name n suffix, w)) (block_parameters b))) = block_matrices b + uncounted b"
      by (simp only: block_parameters_size)
    then show ?case using Cons.IH [of "Suc n"] by (simp add: comp_def del: map_map)
  qed simp
  moreover have "map (size_of \<circ> snd) (map (\<lambda>(layer, w). (value_name layer, w)) ws) = map (size_of \<circ> snd) ws" for ws
    by (simp add: comp_def case_prod_unfold)
  ultimately show ?thesis by (simp add: parameter_entries_def num_scaling_params_def Let_def del: map_map)
qed

section \<open>What the constructors build\<close>

lemma new_weight_Inr: "new_weight dims = Inr w \<longleftrightarrow> w = dims \<and> dims \<noteq> [] \<and> (\<forall>d \<in> set dims. 0 < d)"
  by (auto simp: new_weight_def guard_eq_Inr not_le)

lemma new_linear_Inr: "new_linear i out = Inr w \<longleftrightarrow> w = [out, i] \<and> 0 < i \<and> 0 < out"
  "new_embedding i out = Inr w \<longleftrightarrow> w = [i, out] \<and> 0 < i \<and> 0 < out"
  by (auto simp: new_linear_def new_embedding_def new_weight_Inr)

lemma size_of_pair [simp]: "size_of [a, b] = a * b" "size_of [a, b, c] = a * b * c" "size_of [a] = a"
  by (simp_all add: size_of_def)

lemmas built_Inr = obind_eq_Inr guard_eq_Inr new_linear_Inr new_weight_Inr

lemma new_transformer_parts:
  assumes "new_transformer c0 = Inr m" and c: "c = apply_moe_defaults c0"
  defines "value_at \<equiv> \<lambda>layer. \<not> mla_enabled c \<and> has_value_embedding layer (num_layer c)"
  shows "validate c = Inr ()" "tr_config m = c" "window_sizes c = Inr (tr_windows m)" "0 < num_layer c"
    "tr_head m = [padded_vocab c, embed_dim c]" "tr_smear_gate m = [1, 24]"
    "list_all2 (\<lambda>layer b. new_block c (value_at layer) layer = Inr b) [0..<nat (num_layer c)] (tr_blocks m)"
    "map fst (tr_value_embeds m) = filter value_at [0..<nat (num_layer c)]"
proof -
  let ?layer = "\<lambda>layer. obind (new_block c (value_at layer) layer) (\<lambda>block.
    if value_at layer then obind (head_dim c) (\<lambda>d. obind (new_embedding (padded_vocab c) (num_kv_head c * d)) (\<lambda>w. Inr (block, [(layer, w)])))
    else Inr (block, []))"
  obtain layers where built: "validate c = Inr ()" "tr_config m = c" "window_sizes c = Inr (tr_windows m)" "0 < num_layer c"
    "tr_head m = [padded_vocab c, embed_dim c]" "tr_smear_gate m = [1, 24]" "tr_blocks m = map fst layers"
    "tr_value_embeds m = concat (map snd layers)" "omap ?layer [0..<nat (num_layer c)] = Inr layers"
    using assms(1) unfolding new_transformer_def Let_def c [symmetric] value_at_def by (auto simp: built_Inr)
  then show "validate c = Inr ()" "tr_config m = c" "window_sizes c = Inr (tr_windows m)" "0 < num_layer c"
    "tr_head m = [padded_vocab c, embed_dim c]" "tr_smear_gate m = [1, 24]" by simp_all
  have "list_all2 (\<lambda>layer l. ?layer layer = Inr l) [0..<nat (num_layer c)] layers" using built(9) by (simp only: omap_Inr)
  then have each: "list_all2 (\<lambda>layer l. new_block c (value_at layer) layer = Inr (fst l) \<and> map fst (snd l) = (if value_at layer then [layer] else []))
      [0..<nat (num_layer c)] layers"
    by (rule list_all2_mono) (auto simp: built_Inr split: if_splits)
  then show "list_all2 (\<lambda>layer b. new_block c (value_at layer) layer = Inr b) [0..<nat (num_layer c)] (tr_blocks m)"
    unfolding built(7) list_all2_map2 by (rule list_all2_mono) simp
  have "map fst (concat (map snd ls)) = filter value_at ns"
    if "list_all2 (\<lambda>layer l. new_block c (value_at layer) layer = Inr (fst l) \<and> map fst (snd l) = (if value_at layer then [layer] else [])) ns ls" for ns ls
    using that by (induction ns ls rule: list_all2_induct) auto
  from this [OF each] show "map fst (tr_value_embeds m) = filter value_at [0..<nat (num_layer c)]" by (simp add: built(8))
qed

lemma new_transformer_shapes:
  assumes "new_transformer c0 = Inr m" and c: "c = apply_moe_defaults c0" and "head_dim c = Inr d"
  shows "tr_embedding m = [padded_vocab c, embed_dim c] \<and> tr_resid m = [num_layer c] \<and> tr_x0 m = [num_layer c] \<and> tr_smear_lambda m = [1] \<and>
    tr_backout m = [1] \<and> (\<forall>w \<in> set (tr_value_embeds m). snd w = [padded_vocab c, num_kv_head c * d])"
proof -
  let ?has = "\<lambda>layer. \<not> mla_enabled c \<and> has_value_embedding layer (num_layer c)"
  let ?layer = "\<lambda>layer. obind (new_block c (?has layer) layer) (\<lambda>block.
    if ?has layer then obind (head_dim c) (\<lambda>d. obind (new_embedding (padded_vocab c) (num_kv_head c * d)) (\<lambda>w. Inr (block, [(layer, w)])))
    else Inr (block, []))"
  obtain layers where built: "tr_embedding m = [padded_vocab c, embed_dim c]" "tr_resid m = [num_layer c]" "tr_x0 m = [num_layer c]"
    "tr_smear_lambda m = [1]" "tr_backout m = [1]" "tr_value_embeds m = concat (map snd layers)" "omap ?layer [0..<nat (num_layer c)] = Inr layers"
    using assms(1) unfolding new_transformer_def Let_def c [symmetric] by (auto simp: built_Inr)
  have "list_all2 (\<lambda>layer l. ?layer layer = Inr l) [0..<nat (num_layer c)] layers" using built(7) by (simp only: omap_Inr)
  then have "\<forall>l \<in> set layers. \<forall>w \<in> set (snd l). snd w = [padded_vocab c, num_kv_head c * d]"
    using assms(3) by (induction rule: list_all2_induct) (auto simp: built_Inr split: if_splits)
  with built show ?thesis by auto
qed

lemma built_windows:
  assumes "new_transformer c0 = Inr m" and c: "c = apply_moe_defaults c0"
  shows "length (tr_windows m) = nat (num_layer c)"
  using new_transformer_parts(3) [OF assms] by (auto simp: window_sizes_def guard_eq_Inr Let_def dest!: arg_cong [where f = length])

lemma built_each:
  assumes "new_transformer c0 = Inr m" and c: "c = apply_moe_defaults c0" and "b \<in> set (tr_blocks m)"
  obtains has_value layer where "new_block c has_value layer = Inr b"
proof -
  obtain i where "i < length (tr_blocks m)" "b = tr_blocks m ! i" using assms(3) by (auto simp: in_set_conv_nth)
  then show ?thesis using new_transformer_parts(7) [OF assms(1,2)] that by (auto simp: list_all2_conv_all_nth)
qed

lemma built_first:
  assumes "new_transformer c0 = Inr m" and c: "c = apply_moe_defaults c0"
  obtains b where "b \<in> set (tr_blocks m)" "length (tr_blocks m) = nat (num_layer c)"
proof -
  have len: "length (tr_blocks m) = nat (num_layer c)" using new_transformer_parts(7) [OF assms] by (auto dest: list_all2_lengthD)
  with new_transformer_parts(4) [OF assms] have "tr_blocks m ! 0 \<in> set (tr_blocks m)" by simp
  with len show ?thesis by (rule that [rotated])
qed

text \<open>
  The parameters of a built model are those of the groups \<open>NumScalingParams\<close> reports and, per block, the compressor's,
  the indexer's and the router's bias, which no group counts: the total it reports is \<open>TotalParams\<close> only without them.
\<close>
theorem total_params_groups:
  assumes "new_transformer c = Inr m"
  shows "total_params m = sp_total (num_scaling_params m) + sum_list (map uncounted (tr_blocks m))"
proof -
  have "distinct (map fst (tr_value_embeds m))" unfolding new_transformer_parts(8) [OF assms refl] by simp
  from total_params_sum [OF this] show ?thesis by (simp only: parameter_entries_size)
qed

section \<open>The formulas against a built model\<close>

text \<open>How much the formula of a block exceeds what is built: it takes keys and values as wide as the embedding.\<close>

definition overcount :: "config \<Rightarrow> int \<Rightarrow> int" where
  "overcount c d =
     (if mla_enabled c then 0 else 2 * (embed_dim c - num_kv_head c * d) * (if kv_rank c > 0 then kv_rank c else embed_dim c))"

lemma validate_heads:
  assumes "validate c = Inr ()" "head_dim c = Inr d"
  shows "num_head c * d = embed_dim c"
proof -
  have "embed_dim c smod num_head c = 0" "num_head c \<noteq> 0" "d = embed_dim c sdiv num_head c"
    using assms by (auto simp: validate_def head_dim_def go_mod_Inr go_div_Inr obind_eq_Inr guard_eq_Inr)
  moreover have "(h * k) sdiv h = k" if "h \<noteq> 0" for h k :: int
  proof -
    have "(h * k) sdiv h = (sgn h * sgn h) * (sgn k * \<bar>k\<bar>)" using that by (simp add: signed_divide_int_def sgn_mult abs_mult)
    also have "\<dots> = k" using that by (simp add: sgn_mult_abs)
    finally show ?thesis .
  qed
  ultimately show ?thesis by (auto simp: smod_zero_iff dvd_def)
qed

lemma direct_size:
  assumes "new_direct c d = Inr w" "num_head c * d = embed_dim c" "\<not> mla_enabled c"
  shows "size_of (dw_query w) + size_of (dw_key w) + size_of (dw_value w) + opt_size (dw_query_down w) + opt_size (dw_kv_down w) =
    (if query_rank c > 0 then 2 * embed_dim c * query_rank c else embed_dim c * embed_dim c) +
    (if kv_rank c > 0 then 3 * embed_dim c * kv_rank c else 2 * embed_dim c * embed_dim c) - overcount c d"
  using assms(1,3) unfolding new_direct_def
  by (cases "query_rank c > 0"; cases "kv_rank c > 0")
    (auto simp: built_Inr opt_size_def overcount_def assms(2) assms(2) [unfolded mult.commute [of "num_head c"]] algebra_simps)

lemma mla_size:
  assumes "new_mla c = Inr w"
  shows "mla_params_for_config c = Inr (mla_num_parameters w)"
  using assms unfolding new_mla_def mla_params_for_config_def
  by (auto simp: built_Inr mla_num_parameters_def Let_def algebra_simps)

lemma attention_size:
  assumes "new_attention c has_value layer = Inr a" "head_dim c = Inr d" "num_head c * d = embed_dim c"
  obtains w where "at_projections a = Direct w" "\<not> mla_enabled c" "new_direct c d = Inr w" "at_output a = [embed_dim c, embed_dim c]"
      "opt_size (at_gate a) = (if has_value then 12 * num_kv_head c else 0)"
  | w where "at_projections a = Absorbed w" "mla_enabled c" "new_mla c = Inr w" "at_output a = [embed_dim c, embed_dim c]"
      "opt_size (at_gate a) = (if has_value then 12 * num_kv_head c else 0)"
proof (cases "mla_enabled c")
  case True
  then show ?thesis using assms(1,2) that(2) unfolding new_attention_def Let_def
    by (cases has_value) (auto simp: built_Inr opt_size_def)
next
  case False
  then obtain w compressor indexer gate where "new_direct c d = Inr w" "at_projections a = Direct w" "at_output a = [embed_dim c, embed_dim c]"
    "at_gate a = gate" "if has_value then gate = Some [num_kv_head c, 12] else gate = None"
    using assms(1,2) unfolding new_attention_def Let_def
    by (cases has_value; cases "compression c > 1") (auto simp: built_Inr)
  then show ?thesis using that(1) False by (cases has_value) (auto simp: opt_size_def)
qed

lemma new_mlp_size:
  assumes "new_mlp e hidden swiglu = Inr w"
  shows "size_of (mw_input w) + opt_size (mw_gate w) + size_of (mw_output w) = (if swiglu then 3 else 2) * e * hidden"
  using assms unfolding new_mlp_def by (cases swiglu) (auto simp: built_Inr opt_size_def algebra_simps)

lemma feed_forward_size:
  assumes "new_block c has_value layer = Inr b"
  shows "size_of (mw_input (bl_mlp b)) + opt_size (mw_gate (bl_mlp b)) + size_of (mw_output (bl_mlp b)) + moe_param_count (bl_moe b) =
      fst (moe_ffn_params_for_config c)"
    "new_attention c has_value layer = Inr (bl_attention b)"
proof -
  show "new_attention c has_value layer = Inr (bl_attention b)"
    using assms unfolding new_block_def by (cases "moe_enabled c") (auto simp: obind_eq_Inr)
  show "size_of (mw_input (bl_mlp b)) + opt_size (mw_gate (bl_mlp b)) + size_of (mw_output (bl_mlp b)) + moe_param_count (bl_moe b) =
      fst (moe_ffn_params_for_config c)"
  proof (cases "moe_enabled c")
    case True
    then obtain w where "bl_moe b = Some w" "new_mlp (embed_dim c) (moe_shared_hidden c) True = Inr (bl_mlp b)" "new_moe c = Inr w"
      using assms by (auto simp: new_block_def obind_eq_Inr)
    note built = this
    have "moe_param_count (bl_moe b) = embed_dim c * num_experts c + num_experts c * (3 * embed_dim c * moe_expert_hidden c)"
      using built(1,3) by (auto simp: new_moe_def Let_def built_Inr moe_param_count_def moe_all_experts_def algebra_simps)
    then show ?thesis using True new_mlp_size [OF built(2)]
      by (simp add: Let_def moe_ffn_params_for_config_def algebra_simps)
  next
    case False
    then obtain "bl_moe b = None" "new_mlp (embed_dim c) (4 * embed_dim c) False = Inr (bl_mlp b)"
      using assms by (auto simp: new_block_def obind_eq_Inr)
    then show ?thesis using False new_mlp_size [of "embed_dim c" "4 * embed_dim c" False]
      by (simp add: Let_def moe_param_count_def moe_ffn_params_for_config_def)
  qed
qed

lemma block_size:
  assumes "new_block c has_value layer = Inr b" "head_dim c = Inr d" "num_head c * d = embed_dim c"
  shows "per_block_params c (fst (moe_ffn_params_for_config c)) =
    Inr (block_matrices b + overcount c d - (if has_value then 12 * num_kv_head c else 0))"
proof -
  note ffn = feed_forward_size [OF assms(1)]
  from ffn(2) assms(2,3) show ?thesis
  proof (cases rule: attention_size)
    case (1 w)
    then show ?thesis using direct_size [OF 1(3) assms(3) 1(2)] ffn(1)
      by (simp add: per_block_params_def Let_def block_matrices_def)
  next
    case (2 w)
    then show ?thesis using mla_size [OF 2(3)] ffn(1)
      by (simp add: per_block_params_def Let_def block_matrices_def overcount_def)
  qed
qed

lemma value_layers: "length (filter (\<lambda>layer. layer mod 2 = (n - 1) mod 2) [0..<n]) = (n + 1) div 2"
proof (induction n rule: less_induct)
  case (less n)
  consider "n = 0" | "n = 1" | k where "n = k + 2" by (metis One_nat_def Suc_1 add_2_eq_Suc' less_2_cases_iff not_less_eq less_Suc_eq_0_disj nat_neq_iff old.nat.exhaust)
  then show ?case
  proof cases
    case 3
    have "filter (\<lambda>layer. layer mod 2 = (k + 1) mod 2) [0..<k] = filter (\<lambda>layer. layer mod 2 = (k - 1) mod 2) [0..<k]"
      by (cases k) auto
    then show ?thesis using less.IH [of k] 3 by (simp add: mod_Suc)
  qed simp_all
qed

text \<open>How many layers have value embeddings: of a model with the direct projections every second, the last among them.\<close>

lemma value_layer_count:
  assumes "0 < num_layer c"
  shows "int (length (filter (\<lambda>layer. has_value_embedding layer (num_layer c)) [0..<nat (num_layer c)])) = (num_layer c + 1) sdiv 2"
proof -
  define n where "n = nat (num_layer c)"
  have n: "num_layer c = int n" "0 < n" using assms by (simp_all add: n_def)
  have "has_value_embedding layer (num_layer c) \<longleftrightarrow> layer mod 2 = (n - 1) mod 2" for layer
  proof -
    have "int n - 1 = int (n - 1)" using n(2) by simp
    then have "has_value_embedding layer (num_layer c) \<longleftrightarrow> int layer mod 2 = int (n - 1) mod 2"
      by (simp only: has_value_embedding_def n(1) smod_nonneg of_nat_0_le_iff)
    moreover have "int a mod 2 = int b mod 2 \<longleftrightarrow> a mod 2 = b mod 2" for a b
      using of_nat_eq_iff [of "a mod 2" "b mod 2", where 'a = int] by (simp add: zmod_int)
    ultimately show ?thesis by blast
  qed
  then have "length (filter (\<lambda>layer. has_value_embedding layer (num_layer c)) [0..<nat (num_layer c)]) = (n + 1) div 2"
    using value_layers [of n] by (simp add: n_def)
  then show ?thesis by (simp add: n(1) sdiv_nonneg zdiv_int)
qed

definition value_gates :: "config \<Rightarrow> int" where
  "value_gates c = (num_layer c + 1) sdiv 2 * (12 * num_kv_head c)"

lemma blocks_sum:
  assumes "new_transformer c0 = Inr m" and c: "c = apply_moe_defaults c0" and "head_dim c = Inr d"
    and "per_block_params c (fst (moe_ffn_params_for_config c)) = Inr per_block"
  shows "sum_list (map block_matrices (tr_blocks m)) =
    num_layer c * (per_block - overcount c d) + (if mla_enabled c then 0 else value_gates c)"
proof -
  note parts = new_transformer_parts [OF assms(1) c]
  let ?has = "\<lambda>layer. \<not> mla_enabled c \<and> has_value_embedding layer (num_layer c)"
  have heads: "num_head c * d = embed_dim c" by (rule validate_heads [OF parts(1) assms(3)])
  have each: "block_matrices b = per_block - overcount c d + (if has_value then 12 * num_kv_head c else 0)"
    if "new_block c has_value layer = Inr b" for has_value layer b
    using block_size [OF that assms(3) heads] assms(4) by simp
  have "sum_list (map block_matrices bs) = int (length ls) * (per_block - overcount c d) + int (length (filter ?has ls)) * (12 * num_kv_head c)"
    if "list_all2 (\<lambda>layer b. new_block c (?has layer) layer = Inr b) ls bs" for ls bs
    using that
  proof (induction ls bs rule: list_all2_induct)
    case (Cons l ls b bs)
    then show ?case using each [of "?has l" l b] by (simp add: algebra_simps split: if_splits)
  qed simp
  from this [OF parts(7)] have "sum_list (map block_matrices (tr_blocks m)) = num_layer c * (per_block - overcount c d) +
      int (length (filter ?has [0..<nat (num_layer c)])) * (12 * num_kv_head c)"
    using parts(4) by simp
  then show ?thesis using value_layer_count [OF parts(4)] by (simp add: value_gates_def)
qed

lemma built_head_dim:
  assumes "validate c = Inr ()"
  obtains d where "head_dim c = Inr d"
  using assms by (auto simp: validate_def head_dim_def go_mod_def go_div_def obind_eq_Inr guard_eq_Inr)

lemma scaling_params_built_eq:
  assumes "new_transformer c0 = Inr m" and c: "c = apply_moe_defaults c0" and "head_dim c = Inr d"
  shows "scaling_params_for_config c0 =
    Inr (matmul_params m - 24 + num_layer c * overcount c d + (if mla_enabled c then value_gates c else 0))"
proof -
  note parts = new_transformer_parts [OF assms(1) c]
  obtain b where b: "new_block c (\<not> mla_enabled c \<and> has_value_embedding 0 (num_layer c)) 0 = Inr b"
    using parts(4,7) by (cases "tr_blocks m"; cases "[0..<nat (num_layer c)]") (auto simp: upt_eq_Cons_conv)
  obtain per_block where per_block: "per_block_params c (fst (moe_ffn_params_for_config c)) = Inr per_block"
    using block_size [OF b assms(3) validate_heads [OF parts(1) assms(3)]] by blast
  have "scaling_params_for_config c0 = Inr (num_layer c * per_block + value_gates c + embed_dim c * padded_vocab c)"
    by (simp add: scaling_params_for_config_def Let_def c [symmetric] parts(1) per_block value_gates_def)
  moreover have "matmul_params m = num_layer c * (per_block - overcount c d) + (if mla_enabled c then 0 else value_gates c) +
      padded_vocab c * embed_dim c + 24"
    unfolding matmul_params_def blocks_sum [OF assms per_block] parts(5,6) by simp
  ultimately show ?thesis by (simp add: algebra_simps)
qed

text \<open>
  In general: with fewer key heads each layer is counted with key and value projections as wide as the embedding, and with the
  absorbed projections the formula counts value gates that such a model does not have. Two layers, two query heads on one
  key head:
\<close>

definition example_config :: config where
  "example_config = zero_config\<lparr>sequence_len := 8, vocab_size := 64, num_layer := 2, num_head := 2, num_kv_head := 1, embed_dim := 8,
     window_pattern := ''L''\<rparr>"

lemma example_config_built: "\<exists>m. new_transformer example_config = Inr m \<and> matmul_params m = 1956"
proof -
  have "(case new_transformer example_config of Inr m \<Rightarrow> matmul_params m = 1956 | Inl _ \<Rightarrow> False)" by code_simp
  then show ?thesis by (auto split: sum.splits)
qed

lemma grouped_overcounted:
  "\<exists>m. new_transformer example_config = Inr m \<and> matmul_params m - 24 = 1932 \<and> scaling_params_for_config example_config = Inr (1932 + 128)"
proof -
  obtain m where m: "new_transformer example_config = Inr m" "matmul_params m = 1956" using example_config_built by blast
  have "head_dim (apply_moe_defaults example_config) = Inr 4" "num_layer (apply_moe_defaults example_config) = 2"
    "overcount (apply_moe_defaults example_config) 4 = 64" "\<not> mla_enabled (apply_moe_defaults example_config)" by code_simp+
  with scaling_params_built_eq [OF m(1) refl, of 4] m show ?thesis by simp
qed

text \<open>
  With the direct projections and as many key heads as query heads, dense or with experts, the parameter count that scaling
  laws take from a configuration is that of the model built from it: the sizes of its transformer matrices and of its
  output head. (With fewer key heads it is larger: \<open>grouped_overcounted\<close>.)
\<close>
theorem scaling_params_built:
  assumes "new_transformer c0 = Inr m" "num_kv_head c0 = num_head c0" "\<not> mla_enabled c0"
  shows "scaling_params_for_config c0 = Inr (sp_matrices (num_scaling_params m) + sp_head (num_scaling_params m))"
proof -
  define c where "c = apply_moe_defaults c0"
  note parts = new_transformer_parts [OF assms(1) c_def]
  obtain d where d: "head_dim c = Inr d" using built_head_dim parts(1) by blast
  have same: "num_kv_head c = num_head c" "\<not> mla_enabled c"
    using assms(2,3) by (simp_all add: c_def apply_moe_defaults_def Let_def mla_enabled_def)
  then have "overcount c d = 0" using validate_heads [OF parts(1) d] by (simp add: overcount_def)
  moreover have "sp_matrices (num_scaling_params m) + sp_head (num_scaling_params m) = matmul_params m - 24"
    by (simp add: num_scaling_params_def matmul_params_def Let_def parts(5,6))
  ultimately show ?thesis using scaling_params_built_eq [OF assms(1) c_def d] same(2) by simp
qed

text \<open>Two layers, two heads.\<close>

definition square_config :: config where
  "square_config = example_config\<lparr>num_kv_head := 2\<rparr>"

theorem scaling_params_built_witness: "scaling_params_for_config square_config = Inr 2072"
proof -
  have "(case new_transformer square_config of Inr m \<Rightarrow> sp_matrices (num_scaling_params m) + sp_head (num_scaling_params m) = 2072 | Inl _ \<Rightarrow> False)"
    by code_simp
  then obtain m where m: "new_transformer square_config = Inr m" "sp_matrices (num_scaling_params m) + sp_head (num_scaling_params m) = 2072"
    by (auto split: sum.splits)
  have "num_kv_head square_config = num_head square_config" "\<not> mla_enabled square_config" by code_simp+
  from scaling_params_built [OF m(1) this] m(2) show ?thesis by simp
qed

theorem total_params_groups_witness:
  "\<exists>m. new_transformer example_config = Inr m \<and> total_params m = sp_total (num_scaling_params m) + sum_list (map uncounted (tr_blocks m))"
  using total_params_groups example_config_built by blast

end
