(* ===== verification/Flops.thy ===== *)
theory Flops
  imports Model_Params
begin

text \<open>
  src/model/flops.go and memory.go: what a model costs, from the built model and from its configuration.

  The counts of operations are floats in the code, which represent whole numbers exactly up to \<open>2 ^ 53\<close>; they are whole
  numbers here. Every division by two in them is of an even number.
\<close>

section \<open>Attention\<close>

definition attention_lengths :: "transformer \<Rightarrow> nat \<Rightarrow> int \<Rightarrow> (unit, int \<times> int) outcome" where
  "attention_lengths m layer context_length =
     (let c = tr_config m in
      if compression c > 1 then
        (let ratio = compression c; global = (context_length + ratio - 1) sdiv ratio; global = (if global < 1 then 1 else global);
             local = swa_window_size c; local = (if local > context_length then context_length else local)
         in Inr (global, local))
      else
        obind (elem_at (tr_windows m) layer) (\<lambda>(window, _).
          Inr (if window \<ge> 0 \<and> window < context_length then window else context_length, 0)))"

text \<open>The layers' attention, \<open>cost\<close> giving what one layer adds.\<close>

definition sum_layers :: "transformer \<Rightarrow> (nat \<Rightarrow> (unit, int) outcome) \<Rightarrow> (unit, int) outcome" where
  "sum_layers m cost = ofold (\<lambda>layer total'. obind (cost layer) (\<lambda>x. Inr (total' + x))) [0..<nat (num_layer (tr_config m))] 0"

definition estimate_flops_per_token :: "transformer \<Rightarrow> (unit, int) outcome" where
  "estimate_flops_per_token m =
     (let c = tr_config m in
      obind (head_dim c) (\<lambda>d.
      obind (sum_layers m (\<lambda>layer. obind (attention_lengths m layer (sequence_len c)) (\<lambda>(global, local).
        Inr (12 * num_head c * d * (global + local))))) (\<lambda>attention.
      obind (active_matmul_params m) (\<lambda>active. Inr (6 * active + attention)))))"

definition estimate_decode_flops :: "transformer \<Rightarrow> int \<Rightarrow> (unit, int) outcome" where
  "estimate_decode_flops m context_length =
     (let c = tr_config m in
      obind (head_dim c) (\<lambda>d.
      obind (sum_layers m (\<lambda>layer. obind (attention_lengths m layer context_length) (\<lambda>(global, local).
        Inr (4 * num_head c * d * (global + local))))) (\<lambda>attention.
      obind (active_matmul_params m) (\<lambda>active. Inr (2 * active + attention)))))"

text \<open>The pairs of a query and a key in a window of \<open>width\<close> keys.\<close>

definition window_pairs :: "int \<Rightarrow> int \<Rightarrow> int" where
  "window_pairs width tokens = width * (width + 1) sdiv 2 + (tokens - width) * width"

definition layer_pairs :: "transformer \<Rightarrow> nat \<Rightarrow> int \<Rightarrow> (unit, int) outcome" where
  "layer_pairs m layer tokens =
     obind (attention_lengths m layer tokens) (\<lambda>(global, local).
       let ratio = compression (tr_config m);
           global_pairs = (if ratio > 1 then ratio * global * (global - 1) sdiv 2 else window_pairs global tokens);
           local_pairs = (if local > 0 then window_pairs local tokens else 0)
       in Inr (global_pairs + local_pairs))"

text \<open>The causal encoder-decoder: the matrices of a block but keys and values, and those of keys and values.\<close>

definition active_experts_size :: "block \<Rightarrow> (unit, int) outcome" where
  "active_experts_size b = (case bl_moe b of None \<Rightarrow> Inr 0
     | Some w \<Rightarrow> obind (go_div (moe_all_experts w) (ow_experts w)) (\<lambda>per_expert. Inr (size_of (ow_router w) + ow_top_k w * per_expert)))"

definition ced_block_params :: "block \<Rightarrow> (unit, int \<times> int) outcome" where
  "ced_block_params b =
     (case at_projections (bl_attention b) of
        Absorbed _ \<Rightarrow> Inl Panic
      | Direct w \<Rightarrow>
          obind (active_experts_size b) (\<lambda>experts.
            Inr (size_of (dw_query w) + size_of (at_output (bl_attention b)) + size_of (mw_input (bl_mlp b)) + size_of (mw_output (bl_mlp b)) +
                 opt_size (mw_gate (bl_mlp b)) + experts + opt_size (dw_query_down w) + opt_size (dw_kv_down w) + opt_size (at_gate (bl_attention b)),
                 size_of (dw_key w) + size_of (dw_value w))))"

definition ced_layer_matmul :: "transformer \<Rightarrow> int \<Rightarrow> int \<Rightarrow> nat \<Rightarrow> (unit, int) outcome" where
  "ced_layer_matmul m num_tokens replay layer =
     obind (elem_at (tr_blocks m) layer) (\<lambda>b. obind (ced_block_params b) (\<lambda>(block_params, kv_params).
       let decoder = is_decoder_layer (tr_config m) layer; tokens = (if decoder then replay else num_tokens) in
       Inr ((if decoder then 2 * kv_params * (num_tokens + tokens) else 2 * kv_params * tokens) + 2 * block_params * tokens)))"

definition ced_layer_attention :: "transformer \<Rightarrow> int \<Rightarrow> int \<Rightarrow> int \<Rightarrow> nat \<Rightarrow> (unit, int) outcome" where
  "ced_layer_attention m d num_tokens replay layer =
     (let c = tr_config m; ratio = compression c in
      obind (attention_lengths m layer num_tokens) (\<lambda>(global, local).
        if is_decoder_layer c layer then Inr (4 * num_head c * d * replay * (global + local))
        else
          (let global_pairs = (if ratio > 1 then ratio * global * (global - 1) sdiv 2 else 0);
               local_pairs = (if local > 0 then window_pairs local num_tokens else 0)
           in Inr (4 * num_head c * d * (global_pairs + local_pairs)))))"

definition estimate_prefill_flops_ced :: "transformer \<Rightarrow> int \<Rightarrow> (unit, int) outcome" where
  "estimate_prefill_flops_ced m num_tokens =
     (let c = tr_config m; replay = (if swa_window_size c < num_tokens then swa_window_size c else num_tokens) in
      obind (head_dim c) (\<lambda>d.
      obind (sum_layers m (ced_layer_matmul m num_tokens replay)) (\<lambda>matmul.
      obind (sum_layers m (ced_layer_attention m d num_tokens replay)) (\<lambda>attention.
        Inr (matmul + 2 * size_of (tr_head m) * replay + 2 * size_of (tr_smear_gate m) * num_tokens + attention)))))"

definition estimate_prefill_flops :: "transformer \<Rightarrow> int \<Rightarrow> (unit, int) outcome" where
  "estimate_prefill_flops m num_tokens =
     (let c = tr_config m in
      if ced c then estimate_prefill_flops_ced m num_tokens
      else
        obind (head_dim c) (\<lambda>d.
        obind (sum_layers m (\<lambda>layer. obind (layer_pairs m layer num_tokens) (\<lambda>pairs. Inr (4 * num_head c * d * pairs)))) (\<lambda>attention.
        obind (active_matmul_params m) (\<lambda>active. Inr (2 * active * num_tokens + attention)))))"

section \<open>Memory\<close>

definition weight_read_bytes :: "transformer \<Rightarrow> (unit, int) outcome" where
  "weight_read_bytes m = obind (active_matmul_params m) (\<lambda>active. Inr (active * 4))"

text \<open>What one token holds per layer: two rows of heads, or the latent and the rotary key.\<close>

definition kv_token_bytes :: "config \<Rightarrow> (unit, int) outcome" where
  "kv_token_bytes c =
     (if mla_enabled c then obind (mla_rotary_dimension c) (\<lambda>rope. Inr ((mla_latent c + num_kv_head c * rope) * 4))
      else obind (head_dim c) (\<lambda>d. Inr (2 * num_kv_head c * d * 4)))"

definition kv_bytes_per_token :: "transformer \<Rightarrow> (unit, int) outcome" where
  "kv_bytes_per_token m = obind (kv_token_bytes (tr_config m)) (\<lambda>bytes. Inr (num_layer (tr_config m) * bytes))"

definition kv_read_bytes :: "transformer \<Rightarrow> int \<Rightarrow> (unit, int) outcome" where
  "kv_read_bytes m context_length =
     obind (kv_token_bytes (tr_config m)) (\<lambda>bytes.
       Inr (sum_list (map (\<lambda>(window, _).
         bytes * (if window \<ge> 0 \<and> window < context_length then window else context_length)) (tr_windows m))))"

definition total_params_for_config :: "config \<Rightarrow> (unit, int) outcome" where
  "total_params_for_config c =
     obind (scaling_params_for_config c) (\<lambda>scaling. obind (head_dim c) (\<lambda>d.
       let vocabulary = padded_vocab c;
           value_embeddings = (num_layer c + 1) sdiv 2 * vocabulary * (num_kv_head c * d);
           token_embedding = vocabulary * embed_dim c;
           scalars = 2 * num_layer c + 24 + 1 + 1
       in Inr (scaling + token_embedding + value_embeddings + scalars)))"

definition estimated_training_memory_bytes :: "config \<Rightarrow> int \<Rightarrow> int \<Rightarrow> (unit, int) outcome" where
  "estimated_training_memory_bytes c device_batch seq =
     (let device_batch = (if device_batch < 1 then 1 else device_batch); seq = (if seq < 1 then 1 else seq) in
      obind (total_params_for_config c) (\<lambda>parameters.
        Inr (12 * parameters + device_batch * seq * embed_dim c * 4 * num_layer c * 10 + 2 * 2 ^ 30)))"

text \<open>The floating-point operations a configuration's formula gives.\<close>

definition estimate_flops_for_config :: "config \<Rightarrow> (unit, int) outcome" where
  "estimate_flops_for_config c =
     (let c = apply_moe_defaults c in
      obind (validate c) (\<lambda>_. obind (per_block_params c (snd (moe_ffn_params_for_config c))) (\<lambda>per_block.
      obind (head_dim c) (\<lambda>d. obind (window_sizes c) (\<lambda>windows.
        let matmul = num_layer c * per_block + value_gates c + embed_dim c * padded_vocab c + 24;
            attention = sum_list (map (\<lambda>(window, _).
              12 * num_head c * d * (if window \<ge> 0 \<and> window < sequence_len c then window else sequence_len c)) windows)
        in Inr (6 * matmul + attention))))))"

section \<open>Sums over layers\<close>

lemma sum_layers_Inr:
  "sum_layers m cost = Inr s \<longleftrightarrow> (\<exists>x. (\<forall>layer < nat (num_layer (tr_config m)). cost layer = Inr (x layer)) \<and>
    s = (\<Sum>layer < nat (num_layer (tr_config m)). x layer))"
proof -
  have "ofold (\<lambda>layer total'. obind (cost layer) (\<lambda>x. Inr (total' + x))) [0..<n] 0 = Inr s \<longleftrightarrow>
      (\<exists>x. (\<forall>layer < n. cost layer = Inr (x layer)) \<and> s = (\<Sum>layer < n. x layer))" for n
  proof (induction n arbitrary: s)
    case (Suc n)
    have "ofold (\<lambda>layer total'. obind (cost layer) (\<lambda>x. Inr (total' + x))) [0..<Suc n] 0 = Inr s \<longleftrightarrow>
        (\<exists>s' y. (\<exists>x. (\<forall>layer < n. cost layer = Inr (x layer)) \<and> s' = (\<Sum>layer < n. x layer)) \<and> cost n = Inr y \<and> s = s' + y)"
      by (auto simp: ofold_append obind_eq_Inr Suc.IH)
    also have "\<dots> \<longleftrightarrow> (\<exists>x. (\<forall>layer < Suc n. cost layer = Inr (x layer)) \<and> s = (\<Sum>layer < Suc n. x layer))"
    proof
      assume "\<exists>s' y. (\<exists>x. (\<forall>layer < n. cost layer = Inr (x layer)) \<and> s' = (\<Sum>layer < n. x layer)) \<and> cost n = Inr y \<and> s = s' + y"
      then obtain x y where "\<forall>layer < n. cost layer = Inr (x layer)" "cost n = Inr y" "s = (\<Sum>layer < n. x layer) + y" by blast
      then have "\<forall>layer < Suc n. cost layer = Inr ((x(n := y)) layer)" "s = (\<Sum>layer < Suc n. (x(n := y)) layer)"
        by (simp_all add: less_Suc_eq)
      then show "\<exists>x. (\<forall>layer < Suc n. cost layer = Inr (x layer)) \<and> s = (\<Sum>layer < Suc n. x layer)" by blast
    next
      assume "\<exists>x. (\<forall>layer < Suc n. cost layer = Inr (x layer)) \<and> s = (\<Sum>layer < Suc n. x layer)"
      then obtain x where "\<forall>layer < Suc n. cost layer = Inr (x layer)" "s = (\<Sum>layer < Suc n. x layer)" by blast
      then have "\<forall>layer < n. cost layer = Inr (x layer)" "cost n = Inr (x n)" "s = (\<Sum>layer < n. x layer) + x n" by simp_all
      then show "\<exists>s' y. (\<exists>x. (\<forall>layer < n. cost layer = Inr (x layer)) \<and> s' = (\<Sum>layer < n. x layer)) \<and> cost n = Inr y \<and> s = s' + y"
        by blast
    qed
    finally show ?case .
  qed auto
  then show ?thesis by (simp only: sum_layers_def)
qed

lemma window_pairs_sum:
  "(\<Sum>t = 1..n. if 0 \<le> w \<and> w < int t then w else int t) = window_pairs (if 0 \<le> w \<and> w < int n then w else int n) (int n)"
proof (induction n)
  case 0
  then show ?case by (simp add: window_pairs_def)
next
  case (Suc n)
  have half: "k * (k + 1) sdiv 2 + (k + 1) = (k + 1) * (k + 2) sdiv 2" if "0 \<le> k" for k :: int
  proof -
    have "even (k * (k + 1))" by simp
    moreover have "(k + 1) * (k + 2) = k * (k + 1) + 2 * (k + 1)" by (simp add: algebra_simps)
    ultimately show ?thesis using that by (simp add: sdiv_nonneg)
  qed
  consider "0 \<le> w" "w < int n" | "w = int n" | "w < 0 \<or> int n < w" by linarith
  then show ?case
  proof cases
    case 1
    then show ?thesis using Suc by (simp add: window_pairs_def algebra_simps)
  next
    case 2
    then show ?thesis using Suc by (simp add: window_pairs_def algebra_simps)
  next
    case 3
    then have "(\<Sum>t = 1..Suc n. if 0 \<le> w \<and> w < int t then w else int t) = int n * (int n + 1) sdiv 2 + (int n + 1)"
      using Suc by (auto simp: window_pairs_def)
    also have "\<dots> = window_pairs (int (Suc n)) (int (Suc n))" using half [of "int n"] by (simp add: window_pairs_def add.commute)
    finally show ?thesis using 3 by auto
  qed
qed

text \<open>
  C12. For a model without compression and without the encoder-decoder split, prefilling \<open>n\<close> tokens costs what decoding them one
  by one costs, at the context lengths \<open>1\<close> to \<open>n\<close>: the closed form for the windowed pairs is the sum of the windows. The costs
  are whole numbers and their sum at most \<open>2 ^ 53\<close>, so that the \<open>float64\<close> of the code holds every partial sum exactly.
\<close>
theorem prefill_is_decodes:
  assumes "\<not> ced (tr_config m)" "compression (tr_config m) = 1" "0 < n"
    and "\<And>t. 1 \<le> t \<Longrightarrow> t \<le> n \<Longrightarrow> estimate_decode_flops m (int t) = Inr (f t)"
    and "(\<Sum>t = 1..n. f t) \<le> 2 ^ 53"
  shows "estimate_prefill_flops m (int n) = Inr (\<Sum>t = 1..n. f t)"
proof -
  define c where "c = tr_config m"
  define layers where "layers = nat (num_layer c)"
  define global where "global w t = (if 0 \<le> w \<and> w < int t then w else int t)" for w :: int and t :: nat
  have lengths: "attention_lengths m layer (int t) = obind (elem_at (tr_windows m) layer) (\<lambda>(w, _). Inr (global w t, 0))" for layer t
    using assms(2) by (simp add: attention_lengths_def Let_def global_def c_def)
  have decode: "\<exists>d active. head_dim c = Inr d \<and> active_matmul_params m = Inr active \<and> (\<forall>layer < layers. layer < length (tr_windows m)) \<and>
      f t = 2 * active + (\<Sum>layer < layers. 4 * num_head c * d * global (fst (tr_windows m ! layer)) t)" if t: "1 \<le> t" "t \<le> n" for t
  proof -
    obtain d attention active where parts: "head_dim c = Inr d" "active_matmul_params m = Inr active" "2 * active + attention = f t"
      "sum_layers m (\<lambda>layer. obind (attention_lengths m layer (int t)) (\<lambda>(global, local). Inr (4 * num_head c * d * (global + local)))) = Inr attention"
      using assms(4) [OF t] unfolding estimate_decode_flops_def Let_def c_def [symmetric] obind_eq_Inr sum.inject by blast
    then obtain x where x: "attention = (\<Sum>layer < layers. x layer)"
      "\<And>layer. layer < layers \<Longrightarrow> obind (attention_lengths m layer (int t)) (\<lambda>(global, local). Inr (4 * num_head c * d * (global + local))) = Inr (x layer)"
      unfolding sum_layers_Inr layers_def c_def by blast
    have "layer < length (tr_windows m) \<and> x layer = 4 * num_head c * d * global (fst (tr_windows m ! layer)) t" if "layer < layers" for layer
      using x(2) [OF that] by (auto simp: lengths obind_eq_Inr slices_Inr case_prod_unfold)
    with parts x(1) show ?thesis by auto
  qed
  from decode [of 1] assms(3) obtain d active where built: "head_dim c = Inr d" "active_matmul_params m = Inr active"
    "\<forall>layer < layers. layer < length (tr_windows m)" by auto
  have f: "f t = 2 * active + (\<Sum>layer < layers. 4 * num_head c * d * global (fst (tr_windows m ! layer)) t)" if "1 \<le> t" "t \<le> n" for t
    using decode [OF that] built by auto
  have "sum_layers m (\<lambda>layer. obind (layer_pairs m layer (int n)) (\<lambda>pairs. Inr (4 * num_head c * d * pairs))) =
      Inr (\<Sum>layer < layers. 4 * num_head c * d * window_pairs (global (fst (tr_windows m ! layer)) n) (int n))"
    unfolding sum_layers_Inr c_def [symmetric] layers_def [symmetric] using built(3) assms(2) [folded c_def]
    by (intro exI [where x = "\<lambda>layer. 4 * num_head c * d * window_pairs (global (fst (tr_windows m ! layer)) n) (int n)"] conjI refl allI impI)
      (simp add: layer_pairs_def lengths Let_def case_prod_unfold c_def [symmetric])
  then have "estimate_prefill_flops m (int n) =
      Inr (2 * active * int n + (\<Sum>layer < layers. 4 * num_head c * d * window_pairs (global (fst (tr_windows m ! layer)) n) (int n)))"
    using assms(1) built by (simp add: estimate_prefill_flops_def c_def Let_def)
  moreover have "(\<Sum>t = 1..n. f t) = 2 * active * int n + (\<Sum>layer < layers. 4 * num_head c * d * window_pairs (global (fst (tr_windows m ! layer)) n) (int n))"
  proof -
    have "(\<Sum>t = 1..n. f t) = (\<Sum>t = 1..n. 2 * active) + (\<Sum>t = 1..n. \<Sum>layer < layers. 4 * num_head c * d * global (fst (tr_windows m ! layer)) t)"
      unfolding sum.distrib [symmetric] by (rule sum.cong) (simp_all add: f)
    also have "(\<Sum>t = 1..n. \<Sum>layer < layers. 4 * num_head c * d * global (fst (tr_windows m ! layer)) t) =
        (\<Sum>layer < layers. \<Sum>t = 1..n. 4 * num_head c * d * global (fst (tr_windows m ! layer)) t)" by (rule sum.swap)
    also have "\<dots> = (\<Sum>layer < layers. 4 * num_head c * d * window_pairs (global (fst (tr_windows m ! layer)) n) (int n))"
      unfolding sum_distrib_left [symmetric] global_def window_pairs_sum ..
    finally show ?thesis by simp
  qed
  ultimately show ?thesis by simp
qed

section \<open>A built model\<close>

text \<open>
  The parameter count from which training memory is estimated, against the model: beside the small tensors the
  comment names it differs by the over-counted keys and values, and with the absorbed projections by value
  embeddings, vocabulary-sized tables that such a model does not have.
\<close>
theorem total_params_for_config_built:
  assumes "new_transformer c0 = Inr m" and c: "c = apply_moe_defaults c0" and "head_dim c = Inr d"
  shows "total_params_for_config c0 = Inr (total_params m - sum_list (map uncounted (tr_blocks m)) + num_layer c * overcount c d +
    (if mla_enabled c then value_gates c + (num_layer c + 1) sdiv 2 * padded_vocab c * (num_kv_head c * d) else 0))"
proof -
  have same: "padded_vocab c0 = padded_vocab c" "num_layer c0 = num_layer c" "num_kv_head c0 = num_kv_head c" "head_dim c0 = head_dim c"
    "embed_dim c0 = embed_dim c"
    by (simp_all add: c apply_moe_defaults_def Let_def padded_vocab_def head_dim_def)
  note parts = new_transformer_parts [OF assms(1) c]
  have fixed: "tr_embedding m = [padded_vocab c, embed_dim c]" "tr_resid m = [num_layer c]" "tr_x0 m = [num_layer c]" "tr_smear_lambda m = [1]"
    "tr_backout m = [1]" and embeds: "\<forall>w \<in> set (tr_value_embeds m). snd w = [padded_vocab c, num_kv_head c * d]"
    using new_transformer_shapes [OF assms] by simp_all
  have "sum_list (map (size_of \<circ> snd) (tr_value_embeds m)) = int (length (tr_value_embeds m)) * (padded_vocab c * (num_kv_head c * d))"
  proof -
    have "sum_list (map (size_of \<circ> snd) ws) = int (length ws) * (padded_vocab c * (num_kv_head c * d))"
      if "\<forall>w \<in> set ws. snd w = [padded_vocab c, num_kv_head c * d]" for ws :: "(nat \<times> weight) list"
      using that by (induction ws) (auto simp: algebra_simps)
    with embeds show ?thesis by blast
  qed
  moreover have "int (length (tr_value_embeds m)) = (if mla_enabled c then 0 else (num_layer c + 1) sdiv 2)"
    using value_layer_count [OF parts(4)] arg_cong [OF parts(8), of length] by simp
  ultimately have "sp_total (num_scaling_params m) = matmul_params m + padded_vocab c * embed_dim c + 2 * num_layer c + 2 +
      (if mla_enabled c then 0 else (num_layer c + 1) sdiv 2 * (padded_vocab c * (num_kv_head c * d)))"
    by (simp add: num_scaling_params_def Let_def matmul_params_def fixed parts(6))
  moreover have "total_params m = sp_total (num_scaling_params m) + sum_list (map uncounted (tr_blocks m))"
    using total_params_sum [of m] parameter_entries_size [of m] parts(8) by simp
  ultimately show ?thesis
    unfolding total_params_for_config_def same assms(3) Let_def
    by (simp add: scaling_params_built_eq [OF assms] algebra_simps)
qed

theorem total_params_for_config_built_witness:
  "\<exists>m. new_transformer example_config = Inr m \<and>
    total_params_for_config example_config = Inr (total_params m - sum_list (map uncounted (tr_blocks m)) + 2 * 64)"
proof -
  have "head_dim (apply_moe_defaults example_config) = Inr 4" "num_layer (apply_moe_defaults example_config) = 2"
    "overcount (apply_moe_defaults example_config) 4 = 64" "\<not> mla_enabled (apply_moe_defaults example_config)" by code_simp+
  then show ?thesis using total_params_for_config_built [OF _ refl, of example_config _ 4] example_config_built by auto
qed

theorem prefill_is_decodes_witness: "\<exists>m. new_transformer example_config = Inr m \<and> estimate_prefill_flops m 2 = Inr 8016"
proof -
  have "(case new_transformer example_config of Inr m \<Rightarrow> estimate_decode_flops m 1 = Inr 3976 \<and> estimate_decode_flops m 2 = Inr 4040 \<and>
      \<not> ced (tr_config m) \<and> compression (tr_config m) = 1 | Inl _ \<Rightarrow> False)" by code_simp
  then obtain m where m: "new_transformer example_config = Inr m" "estimate_decode_flops m 1 = Inr 3976" "estimate_decode_flops m 2 = Inr 4040"
    "\<not> ced (tr_config m)" "compression (tr_config m) = 1" by (auto split: sum.splits)
  have "estimate_decode_flops m (int t) = Inr (if t = 1 then 3976 else 4040)" if t: "1 \<le> t" "t \<le> 2" for t
  proof -
    have "t = 1 \<or> t = 2" using t by arith
    then show ?thesis using m(2,3) by auto
  qed
  then have "estimate_prefill_flops m (int 2) = Inr (\<Sum>t = 1..2 :: nat. if t = 1 then 3976 else 4040)"
    by (intro prefill_is_decodes m) (simp_all add: numeral_2_eq_2)
  then show ?thesis using m(1) by (simp add: numeral_2_eq_2)
qed

section \<open>The formula for operations\<close>

lemma active_built:
  assumes "new_block c has_value layer = Inr b"
  shows "active_block total' b = Inr (total' - (fst (moe_ffn_params_for_config c) - snd (moe_ffn_params_for_config c)))"
proof (cases "moe_enabled c")
  case True
  then obtain w where w: "bl_moe b = Some w" "new_moe c = Inr w" using assms by (auto simp: new_block_def obind_eq_Inr)
  define E where "E = num_experts c"
  have shape: "ow_experts w = E" "moe_all_experts w = E * (3 * embed_dim c * moe_expert_hidden c)" "0 < E" "ow_top_k w = moe_active_experts c"
    "0 < embed_dim c * moe_expert_hidden c"
    using w(2) unfolding new_moe_def Let_def by (auto simp: built_Inr moe_all_experts_def E_def algebra_simps)
  have "(E * k) sdiv E = k" if "0 < k" for k using sdiv_nonneg [of "E * k" E] shape(3) that by simp
  then have "go_div (moe_all_experts w) (ow_experts w) = Inr (3 * embed_dim c * moe_expert_hidden c)"
    using shape by (simp add: go_div_def mult.assoc)
  then show ?thesis using True w(1) shape(2,4)
    by (simp add: active_block_def moe_ffn_params_for_config_def Let_def E_def algebra_simps)
next
  case False
  then have "bl_moe b = None" using assms by (auto simp: new_block_def obind_eq_Inr)
  then show ?thesis using False by (simp add: active_block_def moe_ffn_params_for_config_def Let_def)
qed

lemma active_params_built:
  assumes "new_transformer c0 = Inr m" and c: "c = apply_moe_defaults c0"
  shows "active_matmul_params m = Inr (matmul_params m - num_layer c * (fst (moe_ffn_params_for_config c) - snd (moe_ffn_params_for_config c)))"
proof -
  let ?x = "fst (moe_ffn_params_for_config c) - snd (moe_ffn_params_for_config c)"
  have "ofold (\<lambda>b total'. active_block total' b) bs t = Inr (t - int (length bs) * ?x)" if "set bs \<subseteq> set (tr_blocks m)" for bs t
    using that
  proof (induction bs arbitrary: t)
    case (Cons b bs)
    obtain has_value layer where "new_block c has_value layer = Inr b" using built_each [OF assms, of b] Cons.prems by auto
    from active_built [OF this] Cons show ?case by (simp add: algebra_simps)
  qed simp
  moreover obtain b where "b \<in> set (tr_blocks m)" "length (tr_blocks m) = nat (num_layer c)" using built_first [OF assms] by blast
  ultimately show ?thesis using new_transformer_parts(4) [OF assms] by (simp add: active_matmul_params_def)
qed

lemma per_block_shift: "per_block_params c x = Inr p \<Longrightarrow> per_block_params c y = Inr (p - x + y)"
  by (auto simp: per_block_params_def Let_def obind_eq_Inr split: if_splits)

text \<open>In general the formula has six times the operations of the parameters it counts too many.\<close>

lemma flops_formula_general:
  assumes "new_transformer c0 = Inr m" and c: "c = apply_moe_defaults c0" and d: "head_dim c = Inr d" and "compression c = 1"
  shows "\<exists>flops. estimate_flops_per_token m = Inr flops \<and>
    estimate_flops_for_config c0 = Inr (flops + 6 * (num_layer c * overcount c d + (if mla_enabled c then value_gates c else 0)))"
proof -
  note parts = new_transformer_parts [OF assms(1) c]
  let ?ffn = "moe_ffn_params_for_config c"
  define layers where "layers = nat (num_layer c)"
  define cost where "cost window = 12 * num_head c * d * (if window \<ge> 0 \<and> window < sequence_len c then window else sequence_len c)" for window
  obtain b has_value layer where "new_block c has_value layer = Inr b" using built_first [OF assms(1) c] built_each [OF assms(1) c] by metis
  from block_size [OF this d validate_heads [OF parts(1) d]] obtain per_block where
    per_block: "per_block_params c (fst ?ffn) = Inr per_block" by blast
  have windows: "length (tr_windows m) = layers" using built_windows [OF assms(1) c] by (simp add: layers_def)
  have "sum_layers m (\<lambda>layer. obind (attention_lengths m layer (sequence_len c)) (\<lambda>(global, local). Inr (12 * num_head c * d * (global + local)))) =
      Inr (\<Sum>layer < layers. cost (fst (tr_windows m ! layer)))"
    unfolding sum_layers_Inr parts(2) layers_def [symmetric]
    by (intro exI [where x = "\<lambda>layer. cost (fst (tr_windows m ! layer))"] conjI refl allI impI)
      (simp add: attention_lengths_def parts(2) assms(4) windows cost_def case_prod_unfold Let_def)
  moreover have "(\<Sum>layer < layers. cost (fst (tr_windows m ! layer))) = sum_list (map (\<lambda>(window, _). cost window) (tr_windows m))"
    unfolding sum_list_sum_nth windows length_map by (rule sum.cong) (auto simp: windows case_prod_unfold)
  ultimately have flops: "estimate_flops_per_token m = Inr (6 * (matmul_params m - num_layer c * (fst ?ffn - snd ?ffn)) +
      sum_list (map (\<lambda>(window, _). cost window) (tr_windows m)))"
    by (simp add: estimate_flops_per_token_def parts(2) d active_params_built [OF assms(1) c])
  have formula: "estimate_flops_for_config c0 = Inr (6 * (num_layer c * (per_block - fst ?ffn + snd ?ffn) + value_gates c + embed_dim c * padded_vocab c + 24) +
      sum_list (map (\<lambda>(window, _). cost window) (tr_windows m)))"
    by (simp add: estimate_flops_for_config_def Let_def c [symmetric] parts(1,3) d per_block_shift [OF per_block] cost_def case_prod_unfold)
  have matmul: "matmul_params m = num_layer c * (per_block - overcount c d) + (if mla_enabled c then 0 else value_gates c) +
      padded_vocab c * embed_dim c + 24"
    unfolding matmul_params_def blocks_sum [OF assms(1,2) d per_block] parts(5,6) by simp
  show ?thesis
    by (intro exI conjI, rule flops, unfold formula matmul) (cases "mla_enabled c"; simp add: algebra_simps)
qed

text \<open>
  With the direct projections, as many key heads as query heads and no compression, dense or with experts, the training operations
  per token that a configuration's formula gives are those that are counted on the model built from it. They are at most
  \<open>2 ^ 53\<close>, so that the \<open>float64\<close> of the code holds every partial sum exactly.
\<close>
theorem flops_formula_built:
  assumes "new_transformer c0 = Inr m" "num_kv_head c0 = num_head c0" "\<not> mla_enabled c0" "compression c0 = 1"
    "estimate_flops_per_token m = Inr flops" "flops \<le> 2 ^ 53"
  shows "estimate_flops_for_config c0 = Inr flops"
proof -
  define c where "c = apply_moe_defaults c0"
  note parts = new_transformer_parts [OF assms(1) c_def]
  obtain d where d: "head_dim c = Inr d" using built_head_dim parts(1) by blast
  have same: "num_kv_head c = num_head c" "\<not> mla_enabled c" "compression c = 1"
    using assms(2-4) by (simp_all add: c_def apply_moe_defaults_def Let_def mla_enabled_def compression_def split: if_splits)
  then have "overcount c d = 0" using validate_heads [OF parts(1) d] by (simp add: overcount_def)
  with flops_formula_general [OF assms(1) c_def d same(3)] same(2) assms(5) show ?thesis by auto
qed

theorem flops_formula_built_witness: "estimate_flops_for_config square_config = Inr 14112"
proof -
  have "(case new_transformer square_config of Inr m \<Rightarrow> estimate_flops_per_token m = Inr 14112 | Inl _ \<Rightarrow> False)" by code_simp
  then obtain m where m: "new_transformer square_config = Inr m" "estimate_flops_per_token m = Inr 14112" by (auto split: sum.splits)
  have "num_kv_head square_config = num_head square_config" "\<not> mla_enabled square_config" "compression square_config = 1" by code_simp+
  from flops_formula_built [OF m(1) this m(2)] show ?thesis by simp
qed

end
