(* ===== verification/Optimizer_Groups.thy ===== *)
theory Optimizer_Groups
  imports Model_Params Go_Float "HOL-Library.Multiset" "HOL-Library.Product_Lexorder"
begin

text \<open>
  src/model/optimizer.go: which optimizer updates which weights. \<open>SetupOptimizer\<close> lists views of the parameters and
  bins the matrices by shape.

  A view is a parameter's name in \<open>NamedParameters\<close>, the first element of the parameter's data it covers and its
  shape; the tensors of the code are views of whole parameters or of the slices \<open>headWiseViews\<close> and \<open>expertViews\<close> cut. The code
  ranges over Go maps twice: over the value embeddings, which are taken here in layer order, and over the shapes, which it
  then sorts. The learning rates are float32; the scale \<open>float32(math.Pow(dim/768, -0.5))\<close> is an argument.
\<close>

section \<open>Views\<close>

type_synonym view = "string \<times> int \<times> weight"

definition whole :: "string \<Rightarrow> weight \<Rightarrow> view" where
  "whole name w = (name, 0, w)"

definition head_wise_views :: "string \<Rightarrow> weight \<Rightarrow> int \<Rightarrow> int \<Rightarrow> (unit, view list) outcome" where
  "head_wise_views name w heads d =
     (if heads < 1 then Inr []
      else
        obind (elem_at w 1) (\<lambda>columns. obind (elem_at w 0) (\<lambda>rows.
          panic_if (rows \<noteq> heads * d) (Inr (map (\<lambda>head. (name, int head * d * columns, [d, columns])) [0..<nat heads])))))"

definition expert_views :: "string \<Rightarrow> int \<Rightarrow> int \<Rightarrow> int \<Rightarrow> view list" where
  "expert_views name experts rows columns = map (\<lambda>e. (name, int e * rows * columns, [rows, columns])) [0..<nat experts]"

definition optional_view :: "string \<Rightarrow> weight option \<Rightarrow> view list" where
  "optional_view name w = (case w of None \<Rightarrow> [] | Some w \<Rightarrow> [whole name w])"

section \<open>Groups\<close>

datatype optimizer_kind = KindAdamW | KindMuon | KindSinkhorn

record param_group =
  pg_kind :: optimizer_kind
  pg_params :: "view list"
  pg_lr :: f32
  pg_beta1 :: f32
  pg_beta2 :: f32
  pg_eps :: f32
  pg_weight_decay :: f32
  pg_momentum :: f32
  pg_ns_steps :: nat
  pg_muon_beta2 :: f32
  pg_gamma :: f32
  pg_sinkhorn_steps :: nat
  pg_sinkhorn_tau :: f32
  pg_sinkhorn_eps :: f32

definition zero_group :: param_group where
  "zero_group = \<lparr>pg_kind = KindAdamW, pg_params = [], pg_lr = 0, pg_beta1 = 0, pg_beta2 = 0, pg_eps = 0, pg_weight_decay = 0, pg_momentum = 0,
     pg_ns_steps = 0, pg_muon_beta2 = 0, pg_gamma = 0, pg_sinkhorn_steps = 0, pg_sinkhorn_tau = 0, pg_sinkhorn_eps = 0\<rparr>"

text \<open>Float32 literals: 0.8 is \<open>0x3F4CCCCD\<close>, 0.96 \<open>0x3F75C28F\<close>, 0.995 \<open>0x3F7EB852\<close>, 0.95 \<open>0x3F733333\<close>, 1e-10 \<open>0x2EDBE6FF\<close>.\<close>

definition adamw_group :: "view list \<Rightarrow> f32 \<Rightarrow> f32 \<Rightarrow> f32 \<Rightarrow> f32 \<Rightarrow> param_group" where
  "adamw_group params lr beta1 beta2 decay = zero_group\<lparr>pg_kind := KindAdamW, pg_params := params, pg_lr := lr, pg_beta1 := beta1,
     pg_beta2 := beta2, pg_eps := 0x2EDBE6FF, pg_weight_decay := decay\<rparr>"

definition sinkhorn_group :: "view list \<Rightarrow> f32 \<Rightarrow> param_group" where
  "sinkhorn_group params lr = zero_group\<lparr>pg_kind := KindSinkhorn, pg_params := params, pg_lr := lr, pg_momentum := 0x3F733333,
     pg_gamma := 0x3E3851EC, pg_sinkhorn_steps := 11, pg_sinkhorn_tau := 0x3A83126F, pg_sinkhorn_eps := 0x1E3CE508\<rparr>"

definition muon_group :: "view list \<Rightarrow> f32 \<Rightarrow> f32 \<Rightarrow> param_group" where
  "muon_group params lr decay = zero_group\<lparr>pg_kind := KindMuon, pg_params := params, pg_lr := lr, pg_momentum := 0x3F733333, pg_ns_steps := 5,
     pg_muon_beta2 := 0x3F666666, pg_weight_decay := decay\<rparr>"

section \<open>The matrices\<close>

definition matrix_parameters :: "config \<Rightarrow> nat \<Rightarrow> block \<Rightarrow> (unit, view list) outcome" where
  "matrix_parameters c layer b =
     (let name = layer_name layer; a = bl_attention b; mlp = bl_mlp b;
          feed = [whole (name ''mlp.c_fc.weight'') (mw_input mlp), whole (name ''mlp.c_proj.weight'') (mw_output mlp)] @
            optional_view (name ''mlp.c_gate.weight'') (mw_gate mlp) in
      case at_projections a of
        Absorbed m \<Rightarrow>
          Inr (map (\<lambda>(suffix, w). whole (name suffix) w) (projection_parameters (Absorbed m)) @
            [whole (name ''attn.c_proj.weight'') (at_output a)] @ feed @ optional_view (name ''attn.ve_gate.weight'') (at_gate a))
      | Direct w \<Rightarrow>
          obind (if head_wise_muon c
                 then obind (head_dim c) (\<lambda>d. obind (head_wise_views (name ''attn.c_q.weight'') (dw_query w) (num_head c) d) (\<lambda>query.
                      obind (head_wise_views (name ''attn.c_k.weight'') (dw_key w) (num_kv_head c) d) (\<lambda>key. Inr (query @ key))))
                 else Inr [whole (name ''attn.c_q.weight'') (dw_query w), whole (name ''attn.c_k.weight'') (dw_key w)]) (\<lambda>heads.
            Inr (heads @ [whole (name ''attn.c_v.weight'') (dw_value w), whole (name ''attn.c_proj.weight'') (at_output a)] @ feed @
              optional_view (name ''attn.q_down.weight'') (dw_query_down w) @ optional_view (name ''attn.kv_down.weight'') (dw_kv_down w) @
              optional_view (name ''attn.ve_gate.weight'') (at_gate a) @
              (case at_compressor a of None \<Rightarrow> [] | Some (logits, _) \<Rightarrow> [whole (name ''attn.compress_logits.weight'') logits]) @
              (case at_indexer a of None \<Rightarrow> []
               | Some (query, key, _) \<Rightarrow> [whole (name ''attn.indexer_query.weight'') query, whole (name ''attn.indexer_key.weight'') key]))))"

definition expert_parameters :: "nat \<Rightarrow> block \<Rightarrow> (unit, view list) outcome" where
  "expert_parameters layer b =
     (let name = layer_name layer in
      case bl_moe b of None \<Rightarrow> Inr []
      | Some w \<Rightarrow>
          obind (elem_at (ow_gate w) 1) (\<lambda>hidden. obind (elem_at (ow_gate w) 2) (\<lambda>width'.
            Inr ([whole (name ''moe.router.weight'') (ow_router w)] @
              expert_views (name ''moe.experts.gate.weight'') (ow_experts w) hidden width' @
              expert_views (name ''moe.experts.up.weight'') (ow_experts w) hidden width' @
              expert_views (name ''moe.experts.down.weight'') (ow_experts w) width' hidden))))"

definition small_parameters :: "nat \<Rightarrow> block \<Rightarrow> view list" where
  "small_parameters layer b =
     (let name = layer_name layer; a = bl_attention b in
      (case at_compressor a of None \<Rightarrow> [] | Some (_, bias) \<Rightarrow> [whole (name ''attn.compress_bias'') bias]) @
      (case at_indexer a of None \<Rightarrow> [] | Some (_, _, heads) \<Rightarrow> [whole (name ''attn.indexer_heads'') heads]))"

section \<open>Binning\<close>

definition shape_key :: "view \<Rightarrow> (unit, int \<times> int) outcome" where
  "shape_key v = obind (elem_at (snd (snd v)) 0) (\<lambda>rows. obind (elem_at (snd (snd v)) 1) (\<lambda>columns. Inr (rows, columns)))"

text \<open>The inner loop of \<open>sortShapes\<close>: the shape moves left past larger ones; the prefix is reversed.\<close>

fun sift_left :: "int \<times> int \<Rightarrow> (int \<times> int) list \<Rightarrow> (int \<times> int) list" where
  "sift_left s [] = [s]"
| "sift_left s (p # ps) =
     (if fst p > fst s \<or> fst p = fst s \<and> snd p > snd s then p # sift_left s ps else s # p # ps)"

definition sort_shapes :: "(int \<times> int) list \<Rightarrow> (int \<times> int) list" where
  "sort_shapes shapes = rev (fold sift_left shapes [])"

definition muon_groups :: "view list \<Rightarrow> f32 \<Rightarrow> f32 \<Rightarrow> (unit, param_group list) outcome" where
  "muon_groups matrices lr decay =
     obind (omap shape_key matrices) (\<lambda>keys.
       Inr (map (\<lambda>shape. muon_group (map fst (filter (\<lambda>(_, key). key = shape) (zip matrices keys))) lr decay) (sort_shapes (remdups keys))))"

record learning_rates =
  lr_unembedding :: f32
  lr_embedding :: f32
  lr_matrix :: f32
  lr_decay :: f32
  lr_scalar :: f32

definition setup_optimizer :: "float_ops \<Rightarrow> (int \<Rightarrow> f32) \<Rightarrow> transformer \<Rightarrow> learning_rates \<Rightarrow> bool \<Rightarrow> (unit, param_group list) outcome" where
  "setup_optimizer F lr_scale m rates sinkhorn =
     (let c = tr_config m; blocks = List.enumerate 0 (tr_blocks m) in
      obind (omap (\<lambda>(layer, b). matrix_parameters c layer b) blocks) (\<lambda>matrices.
      obind (omap (\<lambda>(layer, b). expert_parameters layer b) blocks) (\<lambda>experts.
      let value_embeddings = map (\<lambda>(layer, w). whole (value_name layer) w) (tr_value_embeds m);
          smear = [whole ''smear_gate.weight'' (tr_smear_gate m), whole ''smear_lambda'' (tr_smear_lambda m), whole ''backout_lambda'' (tr_backout m)] @
            concat (map (\<lambda>(layer, b). small_parameters layer b) blocks);
          scale = lr_scale (embed_dim c);
          head = [whole ''lm_head.weight'' (tr_head m)]; embedding = [whole ''transformer.wte.weight'' (tr_embedding m)];
          unembedding_lr = fo_mul F (lr_unembedding rates) scale; embedding_lr = fo_mul F (lr_embedding rates) scale;
          value_lr = fo_mul F embedding_lr 0x3F000000;
          tables = (if sinkhorn then [sinkhorn_group head unembedding_lr, sinkhorn_group embedding embedding_lr,
              sinkhorn_group value_embeddings value_lr]
            else [adamw_group head unembedding_lr 0x3F4CCCCD 0x3F75C28F 0x3C23D70A,
              adamw_group embedding embedding_lr 0x3F4CCCCD 0x3F7EB852 0x3A83126F,
              adamw_group value_embeddings value_lr 0x3F4CCCCD 0x3F7EB852 0x3C23D70A]);
          scalars = [adamw_group [whole ''resid_lambdas'' (tr_resid m)] (fo_mul F (lr_scalar rates) 0x3C23D70A) 0x3F4CCCCD 0x3F733333 0x3D4CCCCD,
            adamw_group [whole ''x0_lambdas'' (tr_x0 m)] (lr_scalar rates) 0x3F75C28F 0x3F733333 0,
            adamw_group smear 0x3E4CCCCD 0x3F4CCCCD 0x3F733333 0] in
      obind (muon_groups (concat matrices @ concat experts) (lr_matrix rates) (lr_decay rates)) (\<lambda>muon. Inr (tables @ scalars @ muon)))))"

section \<open>Elements\<close>

text \<open>The elements a view covers, and those a list of views covers, counted.\<close>

definition elements :: "view \<Rightarrow> (string \<times> int) list" where
  "elements v = (case v of (name, offset, shape) \<Rightarrow> map (\<lambda>i. (name, offset + int i)) [0..<nat (size_of shape)])"

definition covered :: "view list \<Rightarrow> (string \<times> int) multiset" where
  "covered vs = mset (concat (map elements vs))"

lemma covered_simps [simp]: "covered [] = {#}" "covered (v # vs) = mset (elements v) + covered vs" "covered (vs @ ws) = covered vs + covered ws"
  by (simp_all add: covered_def)

lemma covered_concat: "covered (concat vss) = sum_list (map covered vss)"
  by (induction vss) simp_all

lemma covered_slices:
  assumes "size_of shape = s" "0 \<le> s"
  shows "concat (map (\<lambda>k. elements (name, int k * s, shape)) [0..<n]) = map (\<lambda>i. (name, int i)) [0..<nat (int n * s)]"
proof (induction n)
  case (Suc n)
  define a where "a = nat (int n * s)"
  have size: "nat (int (Suc n) * s) = a + nat s" using assms(2) by (simp add: a_def algebra_simps nat_add_distrib)
  have start: "int a = int n * s" using assms(2) by (simp add: a_def)
  have next_part: "map (\<lambda>i. (name, int i)) [a..<a + nat s] = elements (name, int n * s, shape)"
    unfolding elements_def prod.case assms(1) start [symmetric] by (rule nth_equalityI) simp_all
  have "concat (map (\<lambda>k. elements (name, int k * s, shape)) [0..<Suc n]) =
      concat (map (\<lambda>k. elements (name, int k * s, shape)) [0..<n]) @ elements (name, int n * s, shape)" by simp
  also have "\<dots> = map (\<lambda>i. (name, int i)) [0..<a] @ map (\<lambda>i. (name, int i)) [a..<a + nat s]" by (simp only: Suc a_def next_part [unfolded a_def])
  also have "\<dots> = map (\<lambda>i. (name, int i)) [0..<a + nat s]" by (simp only: map_append [symmetric] upt_add_eq_append [OF le0])
  finally show ?case by (simp only: size)
qed simp

lemma elements_whole: "elements (whole name w) = map (\<lambda>i. (name, int i)) [0..<nat (size_of w)]"
  by (simp add: elements_def whole_def)

lemma head_wise_covers:
  assumes "w = [heads * d, columns]" "0 < heads" "0 < d * columns"
  shows "\<exists>vs. head_wise_views name w heads d = Inr vs \<and> covered vs = mset (elements (whole name w))"
proof -
  have "concat (map (\<lambda>k. elements (name, int k * (d * columns), [d, columns])) [0..<nat heads]) = elements (whole name w)"
    using covered_slices [of "[d, columns]" "d * columns" name "nat heads"] assms by (simp add: elements_whole mult.assoc)
  then have "covered (map (\<lambda>head. (name, int head * d * columns, [d, columns])) [0..<nat heads]) = mset (elements (whole name w))"
    by (simp add: covered_def comp_def mult.assoc)
  then show ?thesis using assms(1,2) by (simp add: head_wise_views_def)
qed

lemma expert_covers:
  assumes "0 < experts" "0 < rows * columns"
  shows "covered (expert_views name experts rows columns) = mset (elements (whole name [experts, rows, columns]))"
proof -
  have "concat (map (\<lambda>k. elements (name, int k * (rows * columns), [rows, columns])) [0..<nat experts]) = elements (whole name [experts, rows, columns])"
    using covered_slices [of "[rows, columns]" "rows * columns" name "nat experts"] assms by (simp add: elements_whole mult.assoc)
  then show ?thesis by (simp add: expert_views_def covered_def comp_def mult.assoc)
qed

lemma optional_covers: "covered (optional_view name w) = covered (map (\<lambda>(name, w). whole name w) (optional name w))"
  by (simp add: optional_view_def optional_def split: option.split)

section \<open>Sorting and binning\<close>

lemma sift_left_mset: "mset (sift_left s ps) = add_mset s (mset ps)"
  by (induction ps) auto

lemma sift_left_sorted: "sorted (rev ps) \<Longrightarrow> sorted (rev (sift_left s ps))"
proof (induction ps)
  case (Cons p ps)
  have set: "set (sift_left s ps) = insert s (set ps)"
    using arg_cong [OF sift_left_mset, of set_mset s ps] by simp
  show ?case
  proof (cases "fst p > fst s \<or> fst p = fst s \<and> snd p > snd s")
    case True
    then have "s \<le> p" by (cases s; cases p) (auto simp: less_eq_prod_def)
    then show ?thesis using Cons True set by (auto simp: sorted_append)
  next
    case False
    then have "p \<le> s" by (cases s; cases p) (auto simp: less_eq_prod_def)
    then show ?thesis using Cons.prems False by (auto simp: sorted_append intro: order_trans)
  qed
qed simp

lemma sort_shapes_sort: "sort_shapes shapes = sort shapes"
proof (rule properties_for_sort [symmetric])
  have "mset (fold sift_left xs ps) = mset xs + mset ps" for xs ps
    by (induction xs arbitrary: ps) (simp_all add: sift_left_mset)
  from this [of shapes "[]"] show "mset (sort_shapes shapes) = mset shapes" by (simp add: sort_shapes_def)
  have "sorted (rev ps) \<Longrightarrow> sorted (rev (fold sift_left xs ps))" for xs ps
    by (induction xs arbitrary: ps) (simp_all add: sift_left_sorted)
  from this [of "[]" shapes] show "sorted (sort_shapes shapes)" by (simp add: sort_shapes_def)
qed

lemma binned_covers:
  fixes shapes :: "(int \<times> int) list"
  assumes "distinct shapes" "length keys = length ms" "set keys \<subseteq> set shapes"
  shows "covered (concat (map (\<lambda>shape. map fst (filter (\<lambda>(_, key). key = shape) (zip ms keys))) shapes)) = covered ms"
proof -
  have "covered (concat (map (\<lambda>shape. map fst (filter (\<lambda>(_, key). key = shape) ps)) shapes)) = covered (map fst ps)"
    if "set (map snd ps) \<subseteq> set shapes" for ps :: "(view \<times> int \<times> int) list"
    using that
  proof (induction ps)
    case Nil
    then show ?case by (induction shapes) simp_all
  next
    case (Cons p ps)
    have "covered (concat (map (\<lambda>shape. map fst (filter (\<lambda>(_, key). key = shape) (p # ps))) ss)) =
        (if snd p \<in> set ss then mset (elements (fst p)) else {#}) + covered (concat (map (\<lambda>shape. map fst (filter (\<lambda>(_, key). key = shape) ps)) ss))"
      if "distinct ss" for ss
      using that by (induction ss) (auto simp: case_prod_unfold ac_simps)
    from this [OF assms(1)] Cons show ?case by simp
  qed
  from this [of "zip ms keys"] assms(2,3) show ?thesis by simp
qed

section \<open>The weights of a block\<close>

text \<open>The router's correction bias, which no group updates.\<close>

definition bias_views :: "nat \<Rightarrow> block \<Rightarrow> view list" where
  "bias_views layer b = (case bl_moe b of None \<Rightarrow> [] | Some w \<Rightarrow> [whole (layer_name layer ''moe.router_bias'') (ow_bias w)])"

definition named_views :: "nat \<Rightarrow> (string \<times> weight) list \<Rightarrow> view list" where
  "named_views layer ps = map (\<lambda>(suffix, w). whole (layer_name layer suffix) w) ps"

definition matrix_view :: "view \<Rightarrow> bool" where
  "matrix_view v \<longleftrightarrow> (\<exists>rows columns. snd (snd v) = [rows, columns])"

lemma named_views_simps [simp]:
  "named_views layer [] = []" "named_views layer ((suffix, w) # ps) = whole (layer_name layer suffix) w # named_views layer ps"
  "named_views layer (ps @ qs) = named_views layer ps @ named_views layer qs"
  by (simp_all add: named_views_def)

lemma named_optional: "covered (named_views layer (optional suffix w)) = covered (optional_view (layer_name layer suffix) w)"
  by (simp add: optional_def optional_view_def split: option.split)

lemma whole_matrix [simp]: "matrix_view (whole name w) \<longleftrightarrow> (\<exists>rows columns. w = [rows, columns])"
  by (simp add: matrix_view_def whole_def)

definition matrix_weights :: "weight option \<Rightarrow> bool" where
  "matrix_weights w \<longleftrightarrow> (\<forall>x. w = Some x \<longrightarrow> (\<exists>rows columns. x = [rows, columns]))"

lemma optional_matrix: "matrix_weights w \<Longrightarrow> v \<in> set (optional_view name w) \<Longrightarrow> matrix_view v"
  by (cases w) (auto simp: optional_view_def matrix_weights_def)

text \<open>The shapes a constructor gives.\<close>

lemma direct_shapes:
  assumes "new_direct c d = Inr w"
  obtains columns columns' where "dw_query w = [num_head c * d, columns]" "dw_key w = [num_kv_head c * d, columns']" "0 < columns" "0 < columns'"
    "0 < num_kv_head c * d" "\<exists>r k. dw_value w = [r, k]" "matrix_weights (dw_query_down w)" "matrix_weights (dw_kv_down w)"
  using assms unfolding new_direct_def
  by (cases "query_rank c > 0"; cases "kv_rank c > 0") (auto simp: built_Inr matrix_weights_def)

lemma mla_shapes:
  assumes "new_mla c = Inr w" "(suffix, x) \<in> set (projection_parameters (Absorbed w))"
  shows "\<exists>r k. x = [r, k]"
  using assms unfolding new_mla_def by (auto simp: built_Inr)

lemma attention_shapes:
  assumes "new_attention c has_value layer = Inr a" "head_dim c = Inr d"
  shows "\<exists>r k. at_output a = [r, k]" "matrix_weights (at_gate a)"
    "case at_projections a of Absorbed w \<Rightarrow> new_mla c = Inr w \<and> mla_enabled c \<and> at_compressor a = None \<and> at_indexer a = None
     | Direct w \<Rightarrow> new_direct c d = Inr w \<and> \<not> mla_enabled c"
    "at_compressor a = Some (logits, bias) \<Longrightarrow> \<exists>r k. logits = [r, k]"
    "at_indexer a = Some (query, key, heads) \<Longrightarrow> \<exists>r k r' k'. query = [r, k] \<and> key = [r', k']"
  using assms unfolding new_attention_def Let_def
  by (auto simp: built_Inr matrix_weights_def new_compressor_def new_indexer_weights_def split: if_splits)

lemma mlp_shapes:
  assumes "new_block c has_value layer = Inr b"
  shows "\<exists>r k. mw_input (bl_mlp b) = [r, k]" "\<exists>r k. mw_output (bl_mlp b) = [r, k]" "matrix_weights (mw_gate (bl_mlp b))"
  using assms unfolding new_block_def new_mlp_def Let_def
  by (auto simp: built_Inr matrix_weights_def split: if_splits)

lemma moe_covers:
  assumes "new_block c has_value layer = Inr b"
  shows "\<exists>vs. expert_parameters l b = Inr vs \<and> (\<forall>v \<in> set vs. matrix_view v) \<and>
    covered vs + covered (bias_views l b) = covered (named_views l (moe_parameters (bl_moe b)))"
proof (cases "bl_moe b")
  case None
  then show ?thesis by (simp add: expert_parameters_def bias_views_def moe_parameters_def)
next
  case (Some w)
  then have "new_moe c = Inr w" using assms by (auto simp: new_block_def obind_eq_Inr split: if_splits)
  then have w: "ow_gate w = [num_experts c, moe_expert_hidden c, embed_dim c]" "ow_up w = [num_experts c, moe_expert_hidden c, embed_dim c]"
    "ow_down w = [num_experts c, embed_dim c, moe_expert_hidden c]" "ow_experts w = num_experts c" "ow_router w = [num_experts c, embed_dim c]"
    "0 < num_experts c" "0 < moe_expert_hidden c" "0 < embed_dim c"
    by (auto simp: new_moe_def Let_def built_Inr)
  let ?gate = "expert_views (layer_name l ''moe.experts.gate.weight'') (num_experts c) (moe_expert_hidden c) (embed_dim c)"
  let ?up = "expert_views (layer_name l ''moe.experts.up.weight'') (num_experts c) (moe_expert_hidden c) (embed_dim c)"
  let ?down = "expert_views (layer_name l ''moe.experts.down.weight'') (num_experts c) (embed_dim c) (moe_expert_hidden c)"
  let ?vs = "[whole (layer_name l ''moe.router.weight'') (ow_router w)] @ ?gate @ ?up @ ?down"
  have "expert_parameters l b = Inr ?vs"
    unfolding expert_parameters_def Some Let_def option.case w(1,4) by simp
  moreover have "\<forall>v \<in> set (expert_views name experts rows columns). matrix_view v" for name experts rows columns
    by (auto simp: expert_views_def matrix_view_def)
  then have "\<forall>v \<in> set ?vs. matrix_view v" using w(5) by (simp add: ball_Un)
  moreover have "covered ?vs + covered (bias_views l b) = covered (named_views l (moe_parameters (bl_moe b)))"
    unfolding bias_views_def moe_parameters_def Some option.case covered_simps named_views_simps
      expert_covers [OF w(6), of "moe_expert_hidden c" "embed_dim c", OF mult_pos_pos [OF w(7,8)]]
      expert_covers [OF w(6), of "embed_dim c" "moe_expert_hidden c", OF mult_pos_pos [OF w(8,7)]] w(1-3)
    by (simp only: ac_simps empty_neutral)
  ultimately show ?thesis by blast
qed

lemma heads_covers:
  assumes "new_direct c d = Inr w" "head_dim c = Inr d" "0 < num_head c" "0 < num_kv_head c"
  shows "\<exists>vs. (if head_wise_muon c
      then obind (head_dim c) (\<lambda>d. obind (head_wise_views qn (dw_query w) (num_head c) d) (\<lambda>query.
           obind (head_wise_views kn (dw_key w) (num_kv_head c) d) (\<lambda>key. Inr (query @ key))))
      else Inr [whole qn (dw_query w), whole kn (dw_key w)]) = (Inr vs :: (unit, view list) outcome) \<and>
    (\<forall>v \<in> set vs. matrix_view v) \<and> covered vs = mset (elements (whole qn (dw_query w))) + mset (elements (whole kn (dw_key w)))"
proof -
  obtain columns columns' where w: "dw_query w = [num_head c * d, columns]" "dw_key w = [num_kv_head c * d, columns']" "0 < columns" "0 < columns'"
    "0 < num_kv_head c * d" using direct_shapes [OF assms(1)] by metis
  have "0 < d" using w(5) assms(4) by (simp add: zero_less_mult_iff)
  then have "0 < d * columns" "0 < d * columns'" using w(3,4) by simp_all
  then obtain qs ks where views: "head_wise_views qn (dw_query w) (num_head c) d = Inr qs" "covered qs = mset (elements (whole qn (dw_query w)))"
    "head_wise_views kn (dw_key w) (num_kv_head c) d = Inr ks" "covered ks = mset (elements (whole kn (dw_key w)))"
    using head_wise_covers [OF w(1) assms(3)] head_wise_covers [OF w(2) assms(4)] by blast
  have "matrix_view v" if "head_wise_views name x heads d = Inr vs" "v \<in> set vs" for name x heads vs and v :: view
    using that by (auto simp: head_wise_views_def built_Inr slices_Inr matrix_view_def split: if_splits)
  then show ?thesis using views w(1,2) assms(2) by (cases "head_wise_muon c") (auto simp del: split_paired_All)
qed

lemma block_covers:
  assumes "new_block c has_value layer = Inr b" "head_dim c = Inr d" "\<not> mla_enabled c \<Longrightarrow> 0 < num_head c \<and> 0 < num_kv_head c"
  shows "\<exists>vs. matrix_parameters c l b = Inr vs \<and> (\<forall>v \<in> set vs. matrix_view v) \<and>
    covered vs + covered (small_parameters l b) + covered (named_views l (moe_parameters (bl_moe b))) = covered (named_views l (block_parameters b))"
proof -
  define a where "a = bl_attention b"
  note attention = attention_shapes [OF feed_forward_size(2) [OF assms(1)] assms(2), folded a_def]
  note mlp = mlp_shapes [OF assms(1)]
  define feed where "feed = [whole (layer_name l ''mlp.c_fc.weight'') (mw_input (bl_mlp b)), whole (layer_name l ''mlp.c_proj.weight'') (mw_output (bl_mlp b))] @
    optional_view (layer_name l ''mlp.c_gate.weight'') (mw_gate (bl_mlp b))"
  define gate where "gate = optional_view (layer_name l ''attn.ve_gate.weight'') (at_gate a)"
  have feed_matrix: "\<forall>v \<in> set feed. matrix_view v" "\<forall>v \<in> set gate. matrix_view v"
    using optional_matrix [OF mlp(3)] optional_matrix [OF attention(2)] mlp(1,2) by (simp_all add: feed_def gate_def)
  have named: "covered (named_views l (block_parameters b)) = covered (named_views l (projection_parameters (at_projections a))) +
      mset (elements (whole (layer_name l ''attn.c_proj.weight'') (at_output a))) + covered gate + covered feed +
      (case at_compressor a of None \<Rightarrow> {#} | Some (logits, bias) \<Rightarrow> mset (elements (whole (layer_name l ''attn.compress_logits.weight'') logits)) +
        mset (elements (whole (layer_name l ''attn.compress_bias'') bias))) +
      (case at_indexer a of None \<Rightarrow> {#} | Some (query, key, heads) \<Rightarrow> mset (elements (whole (layer_name l ''attn.indexer_query.weight'') query)) +
        mset (elements (whole (layer_name l ''attn.indexer_key.weight'') key)) + mset (elements (whole (layer_name l ''attn.indexer_heads'') heads))) +
      covered (named_views l (moe_parameters (bl_moe b)))"
    unfolding block_parameters_def attention_parameters_def a_def [symmetric] feed_def gate_def
    by (cases "at_compressor a"; cases "at_indexer a")
      (simp_all only: option.case prod.case named_views_simps covered_simps named_optional ac_simps empty_neutral split: prod.split, simp_all add: ac_simps)
  show ?thesis
  proof (cases "at_projections a")
    case (Absorbed w)
    then have none: "at_compressor a = None" "at_indexer a = None" and w: "new_mla c = Inr w" using attention(3) by auto
    let ?vs = "named_views l (projection_parameters (Absorbed w)) @ [whole (layer_name l ''attn.c_proj.weight'') (at_output a)] @ feed @ gate"
    have "matrix_parameters c l b = Inr ?vs"
      unfolding matrix_parameters_def a_def [symmetric] Let_def Absorbed projections.case feed_def gate_def named_views_def ..
    moreover have "\<forall>v \<in> set (named_views l (projection_parameters (Absorbed w))). matrix_view v"
      using mla_shapes [OF w] by (auto simp: named_views_def simp del: projection_parameters.simps)
    then have "\<forall>v \<in> set ?vs. matrix_view v" using feed_matrix attention(1) by (simp add: ball_Un del: projection_parameters.simps)
    moreover have "covered ?vs + covered (small_parameters l b) + covered (named_views l (moe_parameters (bl_moe b))) = covered (named_views l (block_parameters b))"
      unfolding named Absorbed small_parameters_def a_def [symmetric] Let_def none option.case covered_simps by (simp only: ac_simps empty_neutral append_Nil covered_simps)
    ultimately show ?thesis by blast
  next
    case (Direct w)
    then have w: "new_direct c d = Inr w" "\<not> mla_enabled c" using attention(3) by auto
    obtain hs where heads: "(if head_wise_muon c
      then obind (head_dim c) (\<lambda>d. obind (head_wise_views (layer_name l ''attn.c_q.weight'') (dw_query w) (num_head c) d) (\<lambda>query.
           obind (head_wise_views (layer_name l ''attn.c_k.weight'') (dw_key w) (num_kv_head c) d) (\<lambda>key. Inr (query @ key))))
      else Inr [whole (layer_name l ''attn.c_q.weight'') (dw_query w), whole (layer_name l ''attn.c_k.weight'') (dw_key w)]) = (Inr hs :: (unit, view list) outcome)"
      "\<forall>v \<in> set hs. matrix_view v"
      "covered hs = mset (elements (whole (layer_name l ''attn.c_q.weight'') (dw_query w))) + mset (elements (whole (layer_name l ''attn.c_k.weight'') (dw_key w)))"
      using heads_covers [OF w(1) assms(2)] assms(3) [OF w(2)] by blast
    have shapes: "\<exists>r k. dw_value w = [r, k]" "matrix_weights (dw_query_down w)" "matrix_weights (dw_kv_down w)"
      using direct_shapes [OF w(1)] by metis+
    define downs where "downs = optional_view (layer_name l ''attn.q_down.weight'') (dw_query_down w) @ optional_view (layer_name l ''attn.kv_down.weight'') (dw_kv_down w)"
    define logits where "logits = (case at_compressor a of None \<Rightarrow> [] | Some (logits, _) \<Rightarrow> [whole (layer_name l ''attn.compress_logits.weight'') logits])"
    define index where "index = (case at_indexer a of None \<Rightarrow> []
      | Some (query, key, _) \<Rightarrow> [whole (layer_name l ''attn.indexer_query.weight'') query, whole (layer_name l ''attn.indexer_key.weight'') key])"
    let ?vs = "hs @ [whole (layer_name l ''attn.c_v.weight'') (dw_value w), whole (layer_name l ''attn.c_proj.weight'') (at_output a)] @ feed @ downs @ gate @ logits @ index"
    have "matrix_parameters c l b = Inr ?vs"
      unfolding matrix_parameters_def a_def [symmetric] Let_def Direct projections.case heads(1) obind_simps feed_def gate_def downs_def logits_def index_def
      by simp
    moreover have "\<forall>v \<in> set downs. matrix_view v" using optional_matrix shapes(2,3) by (auto simp: downs_def simp del: split_paired_All)
    moreover have "\<forall>v \<in> set logits. matrix_view v" "\<forall>v \<in> set index. matrix_view v"
      using attention(4,5) by (cases "at_compressor a"; cases "at_indexer a"; simp add: logits_def index_def case_prod_unfold prod_eq_iff)+
    ultimately have parts: "matrix_parameters c l b = Inr ?vs" "\<forall>v \<in> set ?vs. matrix_view v"
      using heads(2) feed_matrix attention(1) shapes(1) by (simp_all add: ball_Un)
    have "covered (named_views l (projection_parameters (Direct w))) = covered hs + mset (elements (whole (layer_name l ''attn.c_v.weight'') (dw_value w))) + covered downs"
      unfolding projection_parameters.simps named_views_simps covered_simps named_optional downs_def heads(3) by (simp only: ac_simps empty_neutral)
    then have "covered ?vs + covered (small_parameters l b) + covered (named_views l (moe_parameters (bl_moe b))) = covered (named_views l (block_parameters b))"
      unfolding named Direct small_parameters_def a_def [symmetric] Let_def logits_def index_def
      by (cases "at_compressor a"; cases "at_indexer a") (simp_all add: ac_simps split: prod.split)
    with parts show ?thesis by blast
  qed
qed

section \<open>The groups of a model\<close>

lemma heads_positive:
  assumes "new_transformer c0 = Inr m" and c: "c = apply_moe_defaults c0" and "\<not> mla_enabled c" and d: "head_dim c = Inr d"
  shows "0 < num_head c \<and> 0 < num_kv_head c"
proof -
  obtain rotary where "rotary_dimension c = Inr rotary" "0 < rotary sdiv 2"
    using assms(1) unfolding new_transformer_def Let_def c [symmetric] by (auto simp: built_Inr)
  moreover have "0 < k" if "0 < k sdiv 2" for k :: int
    using that by (cases k "0 :: int" rule: linorder_cases) (auto simp: signed_divide_int_def)
  ultimately have "0 < d" using assms(3) d by (auto simp: rotary_dimension_def guard_eq_Inr split: if_splits)
  note parts = new_transformer_parts [OF assms(1) c]
  obtain b has_value layer where "new_block c has_value layer = Inr b" using built_first [OF assms(1) c] built_each [OF assms(1) c] by metis
  note attention = attention_shapes(3) [OF feed_forward_size(2) [OF this] d]
  then obtain w where "new_direct c d = Inr w" using assms(3) by (auto split: projections.splits)
  then have "0 < num_head c * d" "0 < num_kv_head c * d"
    unfolding new_direct_def by (auto simp: built_Inr split: if_splits)
  with \<open>0 < d\<close> show ?thesis by (simp add: zero_less_mult_iff)
qed

lemma omap_choice:
  assumes "\<And>x. x \<in> set xs \<Longrightarrow> \<exists>y. f x = Inr y \<and> P x y"
  shows "\<exists>ys. omap f xs = Inr ys \<and> list_all2 P xs ys"
  using assms
proof (induction xs)
  case (Cons x xs)
  then obtain ys where ys: "omap f xs = Inr ys" "list_all2 P xs ys" by auto
  obtain y where "f x = Inr y" "P x y" using Cons.prems [of x] by auto
  with ys show ?case by auto
qed simp

definition all_views :: "transformer \<Rightarrow> view list" where
  "all_views m = map (\<lambda>(name, w). whole name w) (parameter_entries m)"

definition updated :: "param_group list \<Rightarrow> (string \<times> int) list" where
  "updated groups = concat (map elements (concat (map pg_params groups)))"

definition frozen :: "transformer \<Rightarrow> view list" where
  "frozen m = concat (map (\<lambda>(layer, b). bias_views layer b) (List.enumerate 0 (tr_blocks m)))"

lemma blocks_covers:
  assumes "new_transformer c0 = Inr m" and c: "c = apply_moe_defaults c0"
  defines "blocks \<equiv> List.enumerate 0 (tr_blocks m)"
  shows "\<exists>matrices experts. omap (\<lambda>(layer, b). matrix_parameters c layer b) blocks = Inr matrices \<and>
    omap (\<lambda>(layer, b). expert_parameters layer b) blocks = Inr experts \<and> (\<forall>v \<in> set (concat matrices @ concat experts). matrix_view v) \<and>
    covered (concat matrices) + covered (concat experts) + covered (concat (map (\<lambda>(layer, b). small_parameters layer b) blocks)) + covered (frozen m) =
    covered (concat (map (\<lambda>(layer, b). named_views layer (block_parameters b)) blocks))"
proof -
  note parts = new_transformer_parts [OF assms(1) c]
  obtain d where d: "head_dim c = Inr d" using built_head_dim parts(1) by blast
  have built: "\<exists>has_value layer. new_block c has_value layer = Inr b" if "(l, b) \<in> set blocks" for l b
  proof -
    have "b \<in> set (tr_blocks m)" using that by (auto simp: blocks_def in_set_enumerate_eq)
    then show ?thesis by (rule built_each [OF assms(1) c]) blast
  qed
  let ?P = "\<lambda>(l, b) vs. (\<forall>v \<in> set vs. matrix_view v) \<and> covered vs + covered (small_parameters l b) +
    covered (named_views l (moe_parameters (bl_moe b))) = covered (named_views l (block_parameters b))"
  let ?Q = "\<lambda>(l, b) vs. (\<forall>v \<in> set vs. matrix_view v) \<and> covered vs + covered (bias_views l b) = covered (named_views l (moe_parameters (bl_moe b)))"
  have "\<exists>ms. omap (\<lambda>(layer, b). matrix_parameters c layer b) blocks = Inr ms \<and> list_all2 ?P blocks ms"
  proof (rule omap_choice)
    fix x assume "x \<in> set blocks"
    moreover obtain l b where x: "x = (l, b)" by (cases x)
    ultimately obtain has_value layer where "new_block c has_value layer = Inr b" using built by blast
    from block_covers [OF this d heads_positive [OF assms(1) c _ d]]
    show "\<exists>vs. (case x of (layer, b) \<Rightarrow> matrix_parameters c layer b) = Inr vs \<and> ?P x vs" by (simp add: x)
  qed
  then obtain ms where ms: "omap (\<lambda>(layer, b). matrix_parameters c layer b) blocks = Inr ms" "list_all2 ?P blocks ms" by blast
  have "\<exists>es. omap (\<lambda>(layer, b). expert_parameters layer b) blocks = Inr es \<and> list_all2 ?Q blocks es"
  proof (rule omap_choice)
    fix x assume "x \<in> set blocks"
    moreover obtain l b where x: "x = (l, b)" by (cases x)
    ultimately obtain has_value layer where "new_block c has_value layer = Inr b" using built by blast
    from moe_covers [OF this]
    show "\<exists>vs. (case x of (layer, b) \<Rightarrow> expert_parameters layer b) = Inr vs \<and> ?Q x vs" by (simp add: x)
  qed
  then obtain es where es: "omap (\<lambda>(layer, b). expert_parameters layer b) blocks = Inr es" "list_all2 ?Q blocks es" by blast
  have "(\<forall>v \<in> set (concat ms). matrix_view v) \<and> covered (concat ms) + covered (concat (map (\<lambda>(layer, b). small_parameters layer b) xs)) +
      covered (concat (map (\<lambda>(layer, b). named_views layer (moe_parameters (bl_moe b))) xs)) =
      covered (concat (map (\<lambda>(layer, b). named_views layer (block_parameters b)) xs))" if "list_all2 ?P xs ms" for xs ms
    using that
  proof (induction xs ms rule: list_all2_induct)
    case (Cons x xs vs ms)
    obtain l b where x: "x = (l, b)" by (cases x)
    from Cons have "covered vs + covered (small_parameters l b) + covered (named_views l (moe_parameters (bl_moe b))) = covered (named_views l (block_parameters b))"
      "\<forall>v \<in> set vs. matrix_view v" by (simp_all add: x)
    note this(1) [symmetric] conjunct2 [OF Cons.IH, symmetric] this(2) conjunct1 [OF Cons.IH]
    then show ?case by (simp add: x ac_simps ball_Un)
  qed simp
  note first = this [OF ms(2)]
  have "(\<forall>v \<in> set (concat es). matrix_view v) \<and> covered (concat es) + covered (concat (map (\<lambda>(layer, b). bias_views layer b) xs)) =
      covered (concat (map (\<lambda>(layer, b). named_views layer (moe_parameters (bl_moe b))) xs))" if "list_all2 ?Q xs es" for xs es
    using that
  proof (induction xs es rule: list_all2_induct)
    case (Cons x xs vs es)
    obtain l b where x: "x = (l, b)" by (cases x)
    from Cons have "covered vs + covered (bias_views l b) = covered (named_views l (moe_parameters (bl_moe b)))" "\<forall>v \<in> set vs. matrix_view v"
      by (simp_all add: x)
    note this(1) [symmetric] conjunct2 [OF Cons.IH, symmetric] this(2) conjunct1 [OF Cons.IH]
    then show ?case by (simp add: x ac_simps ball_Un)
  qed simp
  note second = this [OF es(2), folded frozen_def blocks_def]
  have "covered (concat ms) + covered (concat es) + covered (concat (map (\<lambda>(layer, b). small_parameters layer b) blocks)) + covered (frozen m) =
      covered (concat (map (\<lambda>(layer, b). named_views layer (block_parameters b)) blocks))"
    using conjunct2 [OF first, symmetric] conjunct2 [OF second, symmetric] by (simp add: frozen_def blocks_def ac_simps)
  with ms(1) es(1) first second show ?thesis by (simp add: ball_Un)
qed

lemma muon_covers:
  assumes "\<forall>v \<in> set ms. matrix_view v"
  shows "\<exists>groups. muon_groups ms lr decay = Inr groups \<and> covered (concat (map pg_params groups)) = covered ms \<and>
    (\<forall>g \<in> set groups. \<exists>rows columns. \<forall>v \<in> set (pg_params g). snd (snd v) = [rows, columns])"
proof -
  have "\<exists>keys. omap shape_key ms = Inr keys \<and> list_all2 (\<lambda>v key. snd (snd v) = [fst key, snd key]) ms keys"
    using assms by (intro omap_choice) (auto simp: matrix_view_def shape_key_def simp del: split_paired_All)
  then obtain keys where keys: "omap shape_key ms = Inr keys" "list_all2 (\<lambda>v key. snd (snd v) = [fst key, snd key]) ms keys" by blast
  let ?bin = "\<lambda>shape. map fst (filter (\<lambda>(_, key). key = shape) (zip ms keys))"
  have run: "muon_groups ms lr decay = Inr (map (\<lambda>shape. muon_group (?bin shape) lr decay) (sort (remdups keys)))"
    by (simp add: muon_groups_def keys(1) sort_shapes_sort)
  have "covered (concat (map ?bin (sort (remdups keys)))) = covered ms"
    using keys(2) by (intro binned_covers) (auto dest: list_all2_lengthD)
  moreover have "map pg_params (map (\<lambda>shape. muon_group (?bin shape) lr decay) ss) = map ?bin ss" for ss
    by (simp add: muon_group_def)
  moreover have "\<forall>v \<in> set (?bin shape). snd (snd v) = [fst shape, snd shape]" for shape
    using keys(2) by (auto simp: list_all2_iff simp del: split_paired_All split_paired_Ex)
  then have "\<exists>rows columns. \<forall>v \<in> set (pg_params (muon_group (?bin shape) lr decay)). snd (snd v) = [rows, columns]" for shape
    by (intro exI) (simp add: muon_group_def)
  then have "\<forall>g \<in> set (map (\<lambda>shape. muon_group (?bin shape) lr decay) ss). \<exists>rows columns. \<forall>v \<in> set (pg_params g). snd (snd v) = [rows, columns]" for ss
    unfolding set_map by blast
  ultimately have "covered (concat (map pg_params (map (\<lambda>shape. muon_group (?bin shape) lr decay) (sort (remdups keys))))) = covered ms"
    "\<forall>g \<in> set (map (\<lambda>shape. muon_group (?bin shape) lr decay) (sort (remdups keys))). \<exists>rows columns. \<forall>v \<in> set (pg_params g). snd (snd v) = [rows, columns]"
    by (simp_all only:)
  then show ?thesis using run by blast
qed

lemma setup_covers:
  assumes "new_transformer c0 = Inr m"
  shows "\<exists>groups. setup_optimizer F lr_scale m rates sinkhorn = Inr groups \<and> mset (updated groups) + covered (frozen m) = covered (all_views m) \<and>
    (\<forall>g \<in> set groups. pg_kind g = KindMuon \<longrightarrow> (\<exists>rows columns. \<forall>v \<in> set (pg_params g). snd (snd v) = [rows, columns]))"
proof -
  define c where "c = apply_moe_defaults c0"
  define blocks where "blocks = List.enumerate 0 (tr_blocks m)"
  note parts = new_transformer_parts [OF assms c_def]
  obtain matrices experts where built: "omap (\<lambda>(layer, b). matrix_parameters c layer b) blocks = Inr matrices"
    "omap (\<lambda>(layer, b). expert_parameters layer b) blocks = Inr experts" "\<forall>v \<in> set (concat matrices @ concat experts). matrix_view v"
    "covered (concat matrices) + covered (concat experts) + covered (concat (map (\<lambda>(layer, b). small_parameters layer b) blocks)) + covered (frozen m) =
      covered (concat (map (\<lambda>(layer, b). named_views layer (block_parameters b)) blocks))"
    using blocks_covers [OF assms c_def, folded blocks_def] by blast
  obtain muon where muon: "muon_groups (concat matrices @ concat experts) (lr_matrix rates) (lr_decay rates) = Inr muon"
    "covered (concat (map pg_params muon)) = covered (concat matrices) + covered (concat experts)"
    "\<forall>g \<in> set muon. \<exists>rows columns. \<forall>v \<in> set (pg_params g). snd (snd v) = [rows, columns]"
    using muon_covers [OF built(3), of "lr_matrix rates" "lr_decay rates"] unfolding covered_simps by blast
  define rest where "rest = [[whole ''lm_head.weight'' (tr_head m)], [whole ''transformer.wte.weight'' (tr_embedding m)],
    map (\<lambda>(layer, w). whole (value_name layer) w) (tr_value_embeds m), [whole ''resid_lambdas'' (tr_resid m)], [whole ''x0_lambdas'' (tr_x0 m)],
    [whole ''smear_gate.weight'' (tr_smear_gate m), whole ''smear_lambda'' (tr_smear_lambda m), whole ''backout_lambda'' (tr_backout m)] @
      concat (map (\<lambda>(layer, b). small_parameters layer b) blocks)]"
  obtain groups where groups: "setup_optimizer F lr_scale m rates sinkhorn = Inr (groups @ muon)" "map pg_params groups = rest"
    "\<forall>g \<in> set groups. pg_kind g \<noteq> KindMuon"
    unfolding setup_optimizer_def Let_def parts(2) blocks_def [symmetric] built(1,2) obind_simps muon(1) rest_def
    by (cases sinkhorn) (auto simp: sinkhorn_group_def adamw_group_def)
  have "covered (all_views m) = covered (concat rest) + covered (concat (map pg_params muon)) + covered (frozen m)"
  proof -
    have views: "map (\<lambda>(name, w). whole name w) (concat (map (\<lambda>(layer, b). map (\<lambda>(suffix, w). (layer_name layer suffix, w)) (block_parameters b)) xs)) =
        concat (map (\<lambda>(layer, b). named_views layer (block_parameters b)) xs)" for xs
      by (induction xs) (auto simp: named_views_def)
    have "map (\<lambda>(name, w). whole name w) (map (\<lambda>(layer, w). (value_name layer, w)) ws) = map (\<lambda>(layer, w). whole (value_name layer) w) ws" for ws
      by (simp add: case_prod_unfold)
    then show ?thesis
      unfolding all_views_def parameter_entries_def map_append views blocks_def [symmetric] covered_simps built(4) [symmetric] muon(2) rest_def
      by (simp add: ac_simps del: map_map)
  qed
  moreover have "mset (updated (groups @ muon)) = covered (concat rest) + covered (concat (map pg_params muon))"
    unfolding updated_def map_append concat_append groups(2) covered_def mset_append ..
  ultimately show ?thesis using groups muon(3) by auto
qed

lemma bias_entries:
  "(layer_name l ''moe.router_bias'', w) \<in> set (parameter_entries m) \<longleftrightarrow> whole (layer_name l ''moe.router_bias'') w \<in> set (frozen m)"
proof -
  have block: "(''moe.router_bias'', w) \<in> set (block_parameters b) \<longleftrightarrow> (\<exists>x. bl_moe b = Some x \<and> w = ow_bias x)" for b
  proof -
    have "(''moe.router_bias'', w) \<notin> set (attention_parameters a)" for a using attention_names(2) by fastforce
    then show ?thesis
      by (cases "bl_moe b"; cases "mw_gate (bl_mlp b)") (auto simp: block_parameters_def optional_def moe_parameters_def)
  qed
  have others: "layer_name l ''moe.router_bias'' \<notin> {''transformer.wte.weight'', ''lm_head.weight'', ''resid_lambdas'', ''x0_lambdas'',
      ''smear_gate.weight'', ''smear_lambda'', ''backout_lambda''}" by (simp add: layer_name_def)
  have "(layer_name l ''moe.router_bias'', w) \<in> set (parameter_entries m) \<longleftrightarrow>
      (\<exists>b. (l, b) \<in> set (List.enumerate 0 (tr_blocks m)) \<and> (''moe.router_bias'', w) \<in> set (block_parameters b))"
  proof -
    have "(layer_name l s, w) \<in> set (concat (map (\<lambda>(layer, b). map (\<lambda>(suffix, w). (layer_name layer suffix, w)) (block_parameters b)) xs)) \<longleftrightarrow>
        (\<exists>b. (l, b) \<in> set xs \<and> (s, w) \<in> set (block_parameters b))" for s xs
      by (induction xs) auto
    moreover have "(layer_name l s, w) \<notin> set (map (\<lambda>(layer, w). (value_name layer, w)) ws)" for s ws by auto
    ultimately show ?thesis using others unfolding parameter_entries_def set_append Un_iff by simp
  qed
  also have "\<dots> \<longleftrightarrow> whole (layer_name l ''moe.router_bias'') w \<in> set (frozen m)"
  proof -
    have "whole (layer_name l ''moe.router_bias'') w \<in> set (bias_views k b) \<longleftrightarrow> k = l \<and> (\<exists>x. bl_moe b = Some x \<and> w = ow_bias x)" for k b
      by (cases "bl_moe b") (auto simp: bias_views_def whole_def)
    then have "whole (layer_name l ''moe.router_bias'') w \<in> set (concat (map (\<lambda>(layer, b). bias_views layer b) xs)) \<longleftrightarrow>
        (\<exists>b. (l, b) \<in> set xs \<and> (\<exists>x. bl_moe b = Some x \<and> w = ow_bias x))" for xs
      by (induction xs) auto
    then show ?thesis unfolding block frozen_def by simp
  qed
  finally show ?thesis .
qed

lemma whole_elements: "(name, i) \<in> set (elements (whole name' w)) \<longleftrightarrow> name = name' \<and> 0 \<le> i \<and> i < size_of w"
  by (auto simp: elements_whole image_iff intro!: bexI [of _ "nat i"])

lemma views_elements:
  "(name, i) \<in> set (concat (map elements (map (\<lambda>(name, w). whole name w) ps))) \<longleftrightarrow> (\<exists>w. (name, w) \<in> set ps \<and> 0 \<le> i \<and> i < size_of w)"
  by (induction ps) (auto simp: whole_elements)

lemma all_views_distinct:
  assumes "distinct (map fst ps)"
  shows "distinct (concat (map elements (map (\<lambda>(name, w). whole name w) ps)))"
  using assms
proof (induction ps)
  case (Cons p ps)
  obtain name w where p: "p = (name, w)" by (cases p)
  have "distinct (elements (whole name w))" by (simp add: elements_whole distinct_map inj_on_def)
  moreover have "(name, i) \<notin> set (concat (map elements (map (\<lambda>(name, w). whole name w) ps)))" for i
    using Cons.prems unfolding views_elements by (force simp: p)
  then have "set (elements (whole name w)) \<inter> set (concat (map elements (map (\<lambda>(name, w). whole name w) ps))) = {}"
    unfolding elements_whole set_map by blast
  ultimately show ?case using Cons by (simp add: p)
qed simp

text \<open>
  C4. The optimizer is complete and counts nothing twice: for every model that can be built, \<open>SetupOptimizer\<close> returns groups in
  which each element of each parameter but the routers' biases stands exactly once, whether matrices are taken whole or cut into
  heads or experts. The matrices of one Muon group have one shape.
\<close>
theorem optimizer_updates_once:
  assumes "new_transformer c = Inr m"
  shows "\<exists>groups. setup_optimizer F lr_scale m rates sinkhorn = Inr groups \<and> distinct (updated groups) \<and>
    set (updated groups) = {(name, i) |name i w. named_parameters m name = Some w \<and> 0 \<le> i \<and> i < size_of w \<and>
      (\<forall>l. name \<noteq> layer_name l ''moe.router_bias'')} \<and>
    (\<forall>g \<in> set groups. pg_kind g = KindMuon \<longrightarrow> (\<exists>rows columns. \<forall>v \<in> set (pg_params g). snd (snd v) = [rows, columns]))"
proof -
  obtain groups where groups: "setup_optimizer F lr_scale m rates sinkhorn = Inr groups"
    "mset (updated groups) + covered (frozen m) = covered (all_views m)"
    "\<forall>g \<in> set groups. pg_kind g = KindMuon \<longrightarrow> (\<exists>rows columns. \<forall>v \<in> set (pg_params g). snd (snd v) = [rows, columns])"
    using setup_covers [OF assms] by blast
  have "distinct (map fst (tr_value_embeds m))" unfolding new_transformer_parts(8) [OF assms refl] by simp
  note names = parameter_names_distinct [OF this]
  define everything where "everything = concat (map elements (all_views m))"
  define biases where "biases = concat (map elements (frozen m))"
  have split: "mset (updated groups @ biases) = mset everything"
    using groups(2) by (simp add: covered_def everything_def biases_def)
  have "distinct everything" unfolding everything_def all_views_def by (rule all_views_distinct [OF names])
  then have once: "distinct (updated groups @ biases)" using mset_eq_imp_distinct_iff [OF split] by simp
  then have "set (updated groups) = set everything - set biases" using mset_eq_setD [OF split] by auto
  then have rest: "p \<in> set (updated groups) \<longleftrightarrow> p \<in> set everything \<and> p \<notin> set biases" for p by simp
  have all: "(name, i) \<in> set everything \<longleftrightarrow> (\<exists>w. named_parameters m name = Some w \<and> 0 \<le> i \<and> i < size_of w)" for name i
  proof -
    have "(name, i) \<in> set everything \<longleftrightarrow> (\<exists>w. (name, w) \<in> set (parameter_entries m) \<and> 0 \<le> i \<and> i < size_of w)"
      unfolding everything_def all_views_def by (rule views_elements)
    then show ?thesis using names by (simp add: named_parameters_lookup)
  qed
  have bias: "(name, i) \<in> set biases \<longleftrightarrow> (name, i) \<in> set everything \<and> (\<exists>l. name = layer_name l ''moe.router_bias'')" for name i
  proof -
    have "\<exists>l w. v = whole (layer_name l ''moe.router_bias'') w" if "v \<in> set (frozen m)" for v
      using that by (auto simp: frozen_def bias_views_def split: option.splits)
    then have "(name, i) \<in> set biases \<longleftrightarrow> (\<exists>l w. whole (layer_name l ''moe.router_bias'') w \<in> set (frozen m) \<and>
        (name, i) \<in> set (elements (whole (layer_name l ''moe.router_bias'') w)))"
      unfolding biases_def set_concat set_map by blast
    also have "\<dots> \<longleftrightarrow> (\<exists>l w. (layer_name l ''moe.router_bias'', w) \<in> set (parameter_entries m) \<and> name = layer_name l ''moe.router_bias'' \<and> 0 \<le> i \<and> i < size_of w)"
      unfolding bias_entries [symmetric] whole_elements ..
    also have "\<dots> \<longleftrightarrow> (name, i) \<in> set everything \<and> (\<exists>l. name = layer_name l ''moe.router_bias'')"
      unfolding everything_def all_views_def views_elements by blast
    finally show ?thesis .
  qed
  have each: "(name, i) \<in> set (updated groups) \<longleftrightarrow> (\<exists>w. named_parameters m name = Some w \<and> 0 \<le> i \<and> i < size_of w) \<and>
      (\<forall>l. name \<noteq> layer_name l ''moe.router_bias'')" for name i
    unfolding rest bias all by metis
  have "set (updated groups) = {(name, i) |name i w. named_parameters m name = Some w \<and> 0 \<le> i \<and> i < size_of w \<and>
      (\<forall>l. name \<noteq> layer_name l ''moe.router_bias'')}"   proof (rule set_eqI)
    fix p :: "string \<times> int"
    obtain name i where p: "p = (name, i)" by (cases p)
    show "p \<in> set (updated groups) \<longleftrightarrow> p \<in> {(name, i) |name i w. named_parameters m name = Some w \<and> 0 \<le> i \<and> i < size_of w \<and>
        (\<forall>l. name \<noteq> layer_name l ''moe.router_bias'')}" unfolding p each mem_Collect_eq prod.inject by blast
  qed
  with groups(1,3) once show ?thesis unfolding distinct_append by blast
qed

theorem optimizer_updates_once_witness:
  "\<exists>m groups. new_transformer example_config = Inr m \<and>
    setup_optimizer example_ops (\<lambda>_. 1) m \<lparr>lr_unembedding = 1, lr_embedding = 1, lr_matrix = 1, lr_decay = 0, lr_scalar = 1\<rparr> True = Inr groups \<and>
    distinct (updated groups)"
proof -
  obtain m where "new_transformer example_config = Inr m" using example_config_built by blast
  with optimizer_updates_once [OF this] show ?thesis by blast
qed

end
