(* ===== verification/Chat.thy ===== *)
theory Chat
  imports Render Go_Float
begin

text \<open>
  The requests of the chat API and the prompt they become: src/server/types.go and \<open>renderMessages\<close>, \<open>mergeSystemMessage\<close>,
  \<open>toolsSystemPrompt\<close>, \<open>lastUserContent\<close>, \<open>resolveOptions\<close>, \<open>resolveThinking\<close> of src/server/server.go.

  Texts are lists of runes, as in \<open>Render\<close>. The fields no code reads (\<open>tool_call_id\<close> and \<open>name\<close> of a message, \<open>top_p\<close> and \<open>stop\<close>
  of a request, descriptions and parameters of tools) are left out. \<open>mergeSystemMessage\<close> writes into the slice it is given:
  \<open>messages_after\<close> is what the request's messages are then.
\<close>

section \<open>Requests\<close>

record 't tool_call =
  tc_id :: string
  tc_type :: string
  tc_name :: string
  tc_arguments :: 't

record chat_message =
  cm_role :: string
  cm_content :: "rune list"
  cm_reasoning :: "rune list"
  cm_calls :: "rune list tool_call list"

record chat_request =
  cr_model :: string
  cr_messages :: "chat_message list"
  cr_temperature :: "f32 option"
  cr_top_k :: int
  cr_n :: int
  cr_stream :: bool
  cr_max_tokens :: int
  cr_tools :: "rune list list"
  cr_seed :: "u64 option"
  cr_effort :: "int option"
  cr_thinking :: "bool option"
  cr_budget :: "int option"
  cr_style :: "rune list"

definition last_user_content :: "chat_message list \<Rightarrow> rune list" where
  "last_user_content messages = (case find (\<lambda>m. cm_role m = ''user'') (rev messages) of None \<Rightarrow> [] | Some m \<Rightarrow> cm_content m)"

record thinking_options =
  to_enabled :: bool
  to_budget :: int

definition resolve_thinking :: "chat_request \<Rightarrow> thinking_options" where
  "resolve_thinking r =
     (let opts = \<lparr>to_enabled = False, to_budget = 0\<rparr>;
          opts = (case cr_thinking r of None \<Rightarrow> opts | Some b \<Rightarrow> opts\<lparr>to_enabled := b\<rparr>) in
      case cr_budget r of
        Some budget \<Rightarrow> if budget > 0 then opts\<lparr>to_budget := budget, to_enabled := True\<rparr> else opts
      | None \<Rightarrow> opts)"

record generation_options =
  gn_temperature :: f32
  gn_top_k :: int
  gn_max_tokens :: int
  gn_samples :: nat
  gn_seed :: u64

definition resolve_options :: "chat_request \<Rightarrow> int \<Rightarrow> generation_options" where
  "resolve_options r default_max =
     \<lparr>gn_temperature = (case cr_temperature r of None \<Rightarrow> 0x3F333333 | Some t \<Rightarrow> t), gn_top_k = cr_top_k r,
      gn_max_tokens = (if cr_max_tokens r \<le> 0 then default_max else cr_max_tokens r),
      gn_samples = nat (if cr_n r < 1 then 1 else cr_n r), gn_seed = (case cr_seed r of None \<Rightarrow> 42 | Some s \<Rightarrow> s)\<rparr>"

section \<open>The prompt\<close>

definition chat_system :: "rune list \<Rightarrow> chat_message" where
  "chat_system text' = \<lparr>cm_role = ''system'', cm_content = text', cm_reasoning = [], cm_calls = []\<rparr>"

definition merged_content :: "chat_message \<Rightarrow> chat_message \<Rightarrow> chat_message" where
  "merged_content s u = u\<lparr>cm_content := cm_content s @ [10, 10] @ cm_content u\<rparr>"

fun merge_chat :: "chat_message list \<Rightarrow> chat_message list" where
  "merge_chat (s # u # ms) =
     (if cm_role s = ''system'' \<and> cm_role u = ''user'' then merged_content s u # ms else s # u # ms)"
| "merge_chat ms = ms"

text \<open>What the slice given to \<open>mergeSystemMessage\<close> holds afterwards.\<close>

fun merge_written :: "chat_message list \<Rightarrow> chat_message list" where
  "merge_written (s # u # ms) =
     (if cm_role s = ''system'' \<and> cm_role u = ''user'' then s # merged_content s u # ms else s # u # ms)"
| "merge_written ms = ms"

definition request_instructions :: "unicode \<Rightarrow> chat_request \<Rightarrow> rune list list" where
  "request_instructions U r =
     (case cr_effort r of None \<Rightarrow> [] | Some effort \<Rightarrow> [reasoning_effort_instruction effort]) @
     (case cr_thinking r of None \<Rightarrow> []
      | Some enabled \<Rightarrow> thinking_instruction enabled #
          (if enabled then (let i = thinking_style_instruction U (cr_style r) in if i \<noteq> [] then [i] else []) else []))"

definition tools_system_prompt :: "rune list list \<Rightarrow> rune list" where
  "tools_system_prompt names =
     fold (\<lambda>index prompt. (if index > 0 then prompt @ runes '', '' else prompt) @ names ! index) [0..<length names]
       (runes ''You may call the following tools by writing '' @
        runes ''<|tool_start|>EXPRESSION<|tool_end|>. The result will be provided to you. Available tools: '') @ runes ''.''"

definition prepared_messages :: "unicode \<Rightarrow> chat_request \<Rightarrow> chat_message list" where
  "prepared_messages U r =
     (let is = request_instructions U r;
          messages = merge_chat (if is \<noteq> [] then chat_system (join_lines is) # cr_messages r else cr_messages r) in
      if cr_tools r \<noteq> [] then merge_chat (chat_system (tools_system_prompt (cr_tools r)) # messages) else messages)"

definition messages_after :: "unicode \<Rightarrow> chat_request \<Rightarrow> chat_message list" where
  "messages_after U r = (if request_instructions U r \<noteq> [] then cr_messages r else merge_written (cr_messages r))"

definition render_chat :: "(rune list \<Rightarrow> nat list) \<Rightarrow> special_set \<Rightarrow> chat_message \<Rightarrow> nat list" where
  "render_chat enc ss m =
     (if cm_role m = ''user'' then [ss_user_start ss] @ enc (cm_content m) @ [ss_user_end ss]
      else if cm_role m = ''assistant'' then
        [ss_assistant_start ss] @
        (if cm_reasoning m \<noteq> [] then [ss_think_start ss] @ enc (cm_reasoning m) @ [ss_think_end ss] else []) @
        (if cm_content m \<noteq> [] then enc (cm_content m) else []) @
        concat (map (\<lambda>call. [ss_tool_start ss] @ enc (tc_arguments call) @ [ss_tool_end ss]) (cm_calls m)) @
        [ss_assistant_end ss]
      else if cm_role m = ''tool'' then [ss_tool_output_start ss] @ enc (cm_content m) @ [ss_tool_output_end ss]
      else [])"

definition render_messages :: "unicode \<Rightarrow> tokenizer \<Rightarrow> chat_request \<Rightarrow> (unit, nat list) outcome" where
  "render_messages U tok r =
     obind (specials_of tok) (\<lambda>ss.
       Inr ([ss_bos ss] @ concat (map (render_chat (encode U tok) ss) (prepared_messages U r)) @ [ss_assistant_start ss] @
         (if cr_thinking r = Some True then [ss_think_start ss] else [])))"

section \<open>The prompt of training\<close>

text \<open>The request as a conversation of the tokenizer's, its messages' calls as parts.\<close>

definition message_of :: "chat_message \<Rightarrow> message" where
  "message_of m =
     \<lparr>msg_role = cm_role m, msg_content = cm_content m, msg_thinking = cm_reasoning m,
      msg_parts = (if cm_calls m = [] then []
        else (if cm_reasoning m \<noteq> [] then [\<lparr>mp_type = ''thinking'', mp_text = cm_reasoning m\<rparr>] else []) @
          (if cm_content m \<noteq> [] then [\<lparr>mp_type = ''text'', mp_text = cm_content m\<rparr>] else []) @
          map (\<lambda>call. \<lparr>mp_type = ''tool_call'', mp_text = tc_arguments call\<rparr>) (cm_calls m))\<rparr>"

definition extra_of :: "chat_request \<Rightarrow> (string \<times> any_value) list" where
  "extra_of r =
     (case cr_effort r of None \<Rightarrow> [] | Some e \<Rightarrow> [(''effort'', AnyInt e)]) @
     (case cr_thinking r of None \<Rightarrow> [] | Some b \<Rightarrow> [(''thinking'', AnyBool b)]) @
     [(''thinking_style'', AnyString (cr_style r))]"

definition conversation_of :: "chat_request \<Rightarrow> message \<Rightarrow> conversation" where
  "conversation_of r reply = \<lparr>conv_messages = map message_of (cr_messages r) @ [reply], conv_extra = extra_of r\<rparr>"

text \<open>A user turn comes first, or a system message and then a user turn; not both a system message and instructions.\<close>

definition chat_ordered :: "unicode \<Rightarrow> chat_request \<Rightarrow> bool" where
  "chat_ordered U r \<longleftrightarrow>
     (case cr_messages r of [] \<Rightarrow> False
      | m # ms \<Rightarrow>
          if cm_role m = ''system'' then
            request_instructions U r = [] \<and> ms \<noteq> [] \<and> cm_role (ms ! 0) = ''user'' \<and> (\<forall>m \<in> set ms. cm_role m \<in> {''user'', ''assistant''})
          else cm_role m = ''user'' \<and> (\<forall>m \<in> set ms. cm_role m \<in> {''user'', ''assistant''}))"

lemma encode_nil [simp]: "encode U tok [] = []"
  by (simp add: encode_def)

lemma map_fst_mark [simp]: "map fst (mark ids m) = ids"
  by (simp add: mark_def comp_def)

lemma join_lines_nonempty: "is \<noteq> [] \<Longrightarrow> \<forall>i \<in> set is. i \<noteq> [] \<Longrightarrow> join_lines is \<noteq> []"
  by (induction "is" rule: join_lines.induct) auto

lemma instructions_same: "instructions U (conversation_of r reply) = request_instructions U r"
proof -
  have effort: "reasoning_effort (conversation_of r reply) = cr_effort r"
    by (simp add: reasoning_effort_def conversation_of_def extra_of_def map_of_append split: option.split)
  have enabled: "thinking_enabled (conversation_of r reply) = cr_thinking r"
    by (simp add: thinking_enabled_def conversation_of_def extra_of_def split: option.split)
  have style: "thinking_style U (conversation_of r reply) = (if trim_space U (cr_style r) = [] then None else Some (cr_style r))"
    by (simp add: thinking_style_def conversation_of_def extra_of_def split: option.split)
  have blank: "thinking_style_instruction U (cr_style r) = []" if "trim_space U (cr_style r) = []"
    using that by (simp add: thinking_style_instruction_def runes_def)
  show ?thesis
    using blank by (simp add: instructions_def request_instructions_def effort enabled style Let_def split: option.split)
qed

lemma thinking_same: "thinking_enabled (conversation_of r reply) = cr_thinking r"
  by (simp add: thinking_enabled_def conversation_of_def extra_of_def split: option.split)

lemma render_same:
  assumes "cm_role m \<in> {''user'', ''assistant''}"
  shows "map fst (render_message (encode U tok) ss (message_of m)) = render_chat (encode U tok) ss m"
proof (cases "cm_role m = ''user''")
  case True
  then show ?thesis by (simp add: render_message_def render_chat_def message_of_def)
next
  case False
  then have role: "cm_role m = ''assistant''" using assms by simp
  have calls: "map fst (concat (map (render_part (encode U tok) ss) (map (\<lambda>call. \<lparr>mp_type = ''tool_call'', mp_text = tc_arguments call\<rparr>) calls))) =
      concat (map (\<lambda>call. [ss_tool_start ss] @ encode U tok (tc_arguments call) @ [ss_tool_end ss]) calls)" for calls :: "rune list tool_call list"
    by (induction calls) (simp_all add: render_part_def)
  show ?thesis
  proof (cases "cm_calls m = []")
    case True
    then show ?thesis using role by (simp add: render_message_def render_chat_def message_of_def render_thinking_def)
  next
    case some: False
    have "map fst (concat (map (render_part (encode U tok) ss) (msg_parts (message_of m)))) =
        (if cm_reasoning m \<noteq> [] then [ss_think_start ss] @ encode U tok (cm_reasoning m) @ [ss_think_end ss] else []) @
        (if cm_content m \<noteq> [] then encode U tok (cm_content m) else []) @
        concat (map (\<lambda>call. [ss_tool_start ss] @ encode U tok (tc_arguments call) @ [ss_tool_end ss]) (cm_calls m))"
      using some calls [of "cm_calls m"] by (simp add: message_of_def render_part_def render_thinking_def)
    moreover have "msg_parts (message_of m) \<noteq> []" using some by (simp add: message_of_def)
    ultimately show ?thesis
      using role by (simp add: render_message_def render_chat_def message_of_def [of m])
  qed
qed

lemma render_merged:
  assumes "cm_role u = ''user''" "content = cm_content s"
  shows "map fst (render_message (encode U tok) ss ((message_of u)\<lparr>msg_content := content @ [10, 10] @ msg_content (message_of u)\<rparr>)) =
    render_chat (encode U tok) ss (merged_content s u)"
  using assms by (simp add: render_message_def render_chat_def message_of_def merged_content_def)

lemma render_all_same:
  assumes "\<forall>m \<in> set ms. cm_role m \<in> {''user'', ''assistant''}"
  shows "map fst (concat (map (render_message (encode U tok) ss) (map message_of ms))) = concat (map (render_chat (encode U tok) ss) ms)"
  using assms
proof (induction ms)
  case (Cons m ms)
  then show ?case using render_same [of m] by simp
qed simp

lemma render_head_same:
  assumes "cm_role u = ''user''" "content = cm_content s" "\<forall>m \<in> set ms. cm_role m \<in> {''user'', ''assistant''}"
  shows "map fst (concat (map (render_message (encode U tok) ss)
      ((message_of u)\<lparr>msg_content := content @ [10, 10] @ msg_content (message_of u)\<rparr> # map message_of ms))) =
    concat (map (render_chat (encode U tok) ss) (merged_content s u # ms))"
  using render_merged [OF assms(1,2)] render_all_same [OF assms(3)] by simp

lemma prepared_same:
  assumes "chat_ordered U r" "cr_tools r = []"
  shows "map fst (concat (map (render_message (encode U tok) ss)
      (merge_system (with_instructions (request_instructions U r) (map message_of (cr_messages r)))))) =
    concat (map (render_chat (encode U tok) ss) (prepared_messages U r))"
proof -
  let ?is = "request_instructions U r"
  obtain m ms where ms: "cr_messages r = m # ms" using assms(1) by (auto simp: chat_ordered_def split: list.splits)
  have role [simp]: "msg_role (message_of x) = cm_role x" "msg_content (message_of x) = cm_content x" for x by (simp_all add: message_of_def)
  show ?thesis
  proof (cases "cm_role m = ''system''")
    case True
    then obtain u rest where u: "?is = []" "ms = u # rest" "cm_role u = ''user''" "\<forall>m \<in> set rest. cm_role m \<in> {''user'', ''assistant''}"
      using assms(1) ms by (cases ms) (auto simp: chat_ordered_def)
    have "prepared_messages U r = merged_content m u # rest"
      by (simp add: prepared_messages_def ms u True assms(2))
    moreover have "merge_system (with_instructions ?is (map message_of (cr_messages r))) =
        (message_of u)\<lparr>msg_content := cm_content m @ [10, 10] @ msg_content (message_of u)\<rparr> # map message_of rest"
      by (simp add: with_instructions_def ms u True)
    ultimately show ?thesis using render_head_same [OF u(3) refl u(4)] by metis
  next
    case False
    then have m: "cm_role m = ''user''" "\<forall>m \<in> set ms. cm_role m \<in> {''user'', ''assistant''}"
      using assms(1) ms by (auto simp: chat_ordered_def)
    show ?thesis
    proof (cases "?is = []")
      case True
      have "merge_chat (m # ms) = m # ms" using m(1) by (cases ms) simp_all
      moreover have "merge_system (message_of m # map message_of ms) = message_of m # map message_of ms"
        using m(1) by (cases ms) simp_all
      ultimately show ?thesis
        using render_all_same [of "m # ms" U tok ss] m True
        by (simp add: prepared_messages_def with_instructions_def ms assms(2))
    next
      case instr: False
      have "prepared_messages U r = merged_content (chat_system (join_lines ?is)) m # ms"
        using instr m(1) by (simp add: prepared_messages_def ms assms(2) chat_system_def)
      moreover have "merge_system (with_instructions ?is (map message_of (cr_messages r))) =
          (message_of m)\<lparr>msg_content := join_lines ?is @ [10, 10] @ msg_content (message_of m)\<rparr> # map message_of ms"
        using instr m(1) by (simp add: with_instructions_def ms system_message_def)
      ultimately show ?thesis
        using render_head_same [OF m(1) _ m(2), of "join_lines ?is" "chat_system (join_lines ?is)"] by (simp add: chat_system_def)
    qed
  qed
qed


definition example_request :: chat_request where
  "example_request = \<lparr>cr_model = '''', cr_messages = [\<lparr>cm_role = ''system'', cm_content = [107], cm_reasoning = [], cm_calls = []\<rparr>,
       \<lparr>cm_role = ''user'', cm_content = [49], cm_reasoning = [], cm_calls = []\<rparr>,
       \<lparr>cm_role = ''assistant'', cm_content = [111, 107], cm_reasoning = [49], cm_calls = []\<rparr>,
       \<lparr>cm_role = ''user'', cm_content = [49], cm_reasoning = [], cm_calls = []\<rparr>],
     cr_temperature = None, cr_top_k = 0, cr_n = 0, cr_stream = False, cr_max_tokens = 0, cr_tools = [], cr_seed = None, cr_effort = None,
     cr_thinking = None, cr_budget = None, cr_style = []\<rparr>"


text \<open>
  With an effort or a thinking mode in the request, a client's own system message stands behind the instructions' one: nothing
  is merged, and both are skipped when the messages are rendered, with the tools' one in front of them. The conversation
  renderer of the tokenizer joins the two instead.
\<close>

lemma system_messages_lost:
  assumes "specials_of tok = Inr ss" "request_instructions U r \<noteq> []" "cr_messages r = s # ms" "cm_role s = ''system''"
  shows "render_messages U tok r = Inr ([ss_bos ss] @ concat (map (render_chat (encode U tok) ss) ms) @ [ss_assistant_start ss] @
    (if cr_thinking r = Some True then [ss_think_start ss] else []))"
proof -
  have "concat (map (render_chat (encode U tok) ss) (prepared_messages U r)) = concat (map (render_chat (encode U tok) ss) ms)"
    using assms(2-4) by (simp add: prepared_messages_def chat_system_def render_chat_def Let_def)
  then show ?thesis by (simp add: render_messages_def assms(1))
qed

text \<open>Without instructions the merge is written into the request: what is routed as the last user turn begins with the system message.\<close>

lemma system_message_routed:
  assumes "request_instructions U r = []" "cr_messages r = [s, u]" "cm_role s = ''system''" "cm_role u = ''user''"
  shows "last_user_content (messages_after U r) = cm_content s @ [10, 10] @ cm_content u"
  using assms by (simp add: messages_after_def merged_content_def last_user_content_def)

end
