(* ===== verification/Router.thy ===== *)
theory Router
  imports Checkpoint Sampler
begin

text \<open>
  The domain router: src/router/router.go, the classifier of ngram.go and the inference side of transformer.go.

  A token is an \<open>int32\<close>, the word of its bits. The classifiers add and multiply with \<open>float_ops\<close>; \<open>softmax\<close> computes in
  float64 and is an argument, and so are the conversion of a count to float32, the encoder's hidden states, and the order
  in which Go visits the set of feature buckets. \<open>sort.SliceStable\<close> is the \<open>slice_stable\<close> of \<open>Top_K\<close>. A bundle is a checkpoint
  whose user configuration holds the router's own, as JSON text: Go's codec, two arguments here. The loops that train the
  classifiers are not modelled.
\<close>

section \<open>The n-gram classifier\<close>

record router_math =
  rm_ops :: float_ops
  rm_softmax :: "f32 list \<Rightarrow> f32 list"
  rm_count :: "nat \<Rightarrow> f32"
  rm_visit :: "nat list \<Rightarrow> nat list"

record ngram_config =
  nf_buckets :: int
  nf_epochs :: int
  nf_learning_rate :: f32
  nf_l2 :: f32
  nf_seed :: u64
  nf_unigrams :: bool
  nf_bigrams :: bool
  nf_trigrams :: bool

record ngram_classifier =
  nc_classes :: nat
  nc_buckets :: nat
  nc_unigrams :: bool
  nc_bigrams :: bool
  nc_trigrams :: bool
  nc_weight :: tensor
  nc_bias :: "tensor option"

definition ngram_defaults :: "ngram_config \<Rightarrow> ngram_config" where
  "ngram_defaults c =
     (let c = (if nf_buckets c \<le> 0 then c\<lparr>nf_buckets := 2 ^ 16\<rparr> else c);
          c = (if nf_epochs c \<le> 0 then c\<lparr>nf_epochs := 8\<rparr> else c);
          c = (if f32_ge 0 (nf_learning_rate c) then c\<lparr>nf_learning_rate := 0x3D4CCCCD\<rparr> else c);
          c = (if f32_ge 0 (nf_l2 c) then c\<lparr>nf_l2 := 0x3727C5AC\<rparr> else c) in
      if \<not> nf_unigrams c \<and> \<not> nf_bigrams c \<and> \<not> nf_trigrams c
      then c\<lparr>nf_unigrams := True, nf_bigrams := True, nf_trigrams := True\<rparr> else c)"

definition new_ngram_classifier :: "nat \<Rightarrow> ngram_config \<Rightarrow> (unit, ngram_classifier) outcome" where
  "new_ngram_classifier classes c =
     (let c = ngram_defaults c in
      obind (new_tensor [classes, nat (nf_buckets c)]) (\<lambda>weight. obind (new_tensor [classes]) (\<lambda>bias.
        Inr \<lparr>nc_classes = classes, nc_buckets = nat (nf_buckets c), nc_unigrams = nf_unigrams c, nc_bigrams = nf_bigrams c,
             nc_trigrams = nf_trigrams c, nc_weight = weight, nc_bias = Some bias\<rparr>)))"

definition fnv_step :: "u32 \<Rightarrow> u32 \<Rightarrow> u32" where
  "fnv_step hash x = (hash XOR x) * 16777619"

definition hash_bucket :: "nat \<Rightarrow> u32 \<Rightarrow> u32 list \<Rightarrow> ('e, nat) outcome" where
  "hash_bucket buckets tag xs =
     (let hash = fold (\<lambda>x hash. fnv_step hash x) xs (fnv_step 2166136261 tag); modulus = word_of_nat buckets in
      panic_if (modulus = 0) (Inr (unat (hash mod modulus))))"

definition grams :: "nat \<Rightarrow> 'a list \<Rightarrow> 'a list list" where
  "grams n tokens = map (\<lambda>index. take n (drop index tokens)) [0..<length tokens + 1 - n]"

definition features :: "router_math \<Rightarrow> ngram_classifier \<Rightarrow> u32 list \<Rightarrow> ('e, nat list) outcome" where
  "features M c tokens =
     obind (if nc_unigrams c then omap (hash_bucket (nc_buckets c) 1) (grams 1 tokens) else Inr []) (\<lambda>ones.
     obind (if nc_bigrams c then omap (hash_bucket (nc_buckets c) 2) (grams 2 tokens) else Inr []) (\<lambda>twos.
     obind (if nc_trigrams c then omap (hash_bucket (nc_buckets c) 3) (grams 3 tokens) else Inr []) (\<lambda>threes.
       Inr (rm_visit M (remdups (ones @ twos @ threes))))))"

definition add_feature :: "float_ops \<Rightarrow> ngram_classifier \<Rightarrow> nat \<Rightarrow> f32 list \<Rightarrow> ('e, f32 list) outcome" where
  "add_feature F c feature out =
     omap (\<lambda>cls. obind (elem_at (ts_data (nc_weight c)) (cls * nc_buckets c + feature)) (\<lambda>w. Inr (fo_add F (out ! cls) w))) [0..<nc_classes c]"

definition ngram_logits :: "float_ops \<Rightarrow> ngram_classifier \<Rightarrow> nat list \<Rightarrow> ('e, f32 list) outcome" where
  "ngram_logits F c fs =
     obind (ofold (add_feature F c) fs (replicate (nc_classes c) 0)) (\<lambda>out.
     case nc_bias c of
       None \<Rightarrow> if nc_classes c = 0 then Inr out else Inl Panic
     | Some bias \<Rightarrow> omap (\<lambda>cls. obind (elem_at (ts_data bias) cls) (\<lambda>b. Inr (fo_add F (out ! cls) b))) [0..<nc_classes c])"

definition ngram_predict :: "router_math \<Rightarrow> ngram_classifier \<Rightarrow> u32 list \<Rightarrow> ('e, f32 list) outcome" where
  "ngram_predict M c tokens =
     obind (features M c tokens) (\<lambda>fs. obind (ngram_logits (rm_ops M) c fs) (\<lambda>out. Inr (rm_softmax M out)))"

section \<open>The transformer classifier\<close>

text \<open>An encoder is the width of its hidden states and their computation, one row a token.\<close>

record encoder =
  en_width :: nat
  en_hidden :: "u32 list \<Rightarrow> f32 list list"

record head_classifier =
  hc_encoder :: encoder
  hc_in :: nat
  hc_out :: nat
  hc_weight :: tensor
  hc_bias :: tensor
  hc_max_len :: int

definition new_transformer_classifier :: "encoder \<Rightarrow> nat \<Rightarrow> int \<Rightarrow> (unit, head_classifier) outcome" where
  "new_transformer_classifier e classes max_len =
     (let max_len = (if max_len \<le> 0 then 128 else max_len) in
      obind (new_tensor [classes, en_width e]) (\<lambda>weight. obind (new_tensor [classes]) (\<lambda>bias.
        Inr \<lparr>hc_encoder = e, hc_in = en_width e, hc_out = classes, hc_weight = weight, hc_bias = bias, hc_max_len = max_len\<rparr>)))"

definition cut_tokens :: "head_classifier \<Rightarrow> 'a list \<Rightarrow> 'a list" where
  "cut_tokens h tokens = (if hc_max_len h > 0 \<and> int (length tokens) > hc_max_len h then take (nat (hc_max_len h)) tokens else tokens)"

definition featurize :: "router_math \<Rightarrow> head_classifier \<Rightarrow> u32 list \<Rightarrow> f32 list" where
  "featurize M h tokens =
     (let truncated = cut_tokens h tokens; zeros = replicate (en_width (hc_encoder h)) 0 in
      if truncated = [] then zeros
      else
        (let truncated = (if length truncated = 1 then [truncated ! 0, truncated ! 0] else truncated);
             hidden = en_hidden (hc_encoder h) truncated;
             inverse = fo_div (rm_ops M) 0x3F800000 (rm_count M (length hidden)) in
         fold (\<lambda>row pooled. map2 (\<lambda>p x. fo_muladd (rm_ops M) p x inverse) pooled row) hidden zeros))"

definition predict_features :: "router_math \<Rightarrow> head_classifier \<Rightarrow> f32 list \<Rightarrow> ('e, f32 list) outcome" where
  "predict_features M h fs =
     obind (omap (\<lambda>cls. obind (elem_at (ts_data (hc_bias h)) cls) (\<lambda>bias.
         ofold (\<lambda>channel total'. obind (elem_at (ts_data (hc_weight h)) (cls * hc_in h + channel)) (\<lambda>w. obind (elem_at fs channel) (\<lambda>x.
           Inr (fo_muladd (rm_ops M) total' w x)))) [0..<hc_in h] bias)) [0..<hc_out h]) (\<lambda>out. Inr (rm_softmax M out))"

definition head_predict :: "router_math \<Rightarrow> head_classifier \<Rightarrow> u32 list \<Rightarrow> ('e, f32 list) outcome" where
  "head_predict M h tokens = predict_features M h (featurize M h tokens)"

text \<open>What training feeds the encoder with.\<close>

definition truncate_tokens :: "head_classifier \<Rightarrow> u32 list \<Rightarrow> u32 list" where
  "truncate_tokens h tokens =
     (let truncated = cut_tokens h tokens in
      if truncated = [] then [0, 0] else if length truncated = 1 then [truncated ! 0, truncated ! 0] else truncated)"

section \<open>Routing\<close>

record router =
  ro_domains :: "string list"
  ro_ngram :: "ngram_classifier option"
  ro_transformer :: "head_classifier option"
  ro_encoder_path :: string
  ro_threshold :: f32

definition top_two :: "f32 list \<Rightarrow> f32 \<times> f32" where
  "top_two xs = fold (\<lambda>x (first, second).
     if f32_gt x first then (x, first) else if f32_gt x second then (first, x) else (first, second)) xs (neg_inf, neg_inf)"

text \<open>Subtracting is adding the negation.\<close>

definition should_escalate :: "float_ops \<Rightarrow> f32 \<Rightarrow> f32 list \<Rightarrow> bool" where
  "should_escalate F threshold probabilities =
     (if f32_gt 0 threshold then True
      else if f32_eq threshold 0 then False
      else (let (first, second) = top_two probabilities in f32_gt threshold (fo_add F first (f32_neg second))))"

definition router_predict :: "router_math \<Rightarrow> router \<Rightarrow> u32 list \<Rightarrow> ('e, f32 list) outcome" where
  "router_predict M R tokens =
     (case ro_ngram R of
        None \<Rightarrow> Inl Panic
      | Some c \<Rightarrow>
          obind (ngram_predict M c tokens) (\<lambda>probabilities.
            case ro_transformer R of
              None \<Rightarrow> Inr probabilities
            | Some h \<Rightarrow>
                if should_escalate (rm_ops M) (ro_threshold R) probabilities
                then obind (head_predict M h tokens) (\<lambda>second. Inr (if length second = length probabilities then second else probabilities))
                else Inr probabilities))"

type_synonym score = "string \<times> f32"

definition scores_of :: "router \<Rightarrow> f32 list \<Rightarrow> score list" where
  "scores_of R probabilities =
     map (\<lambda>index. (if index < length (ro_domains R) then ro_domains R ! index else '''', probabilities ! index)) [0..<length probabilities]"

definition route :: "router_math \<Rightarrow> router \<Rightarrow> u32 list \<Rightarrow> ('e, score list) outcome" where
  "route M R tokens =
     obind (router_predict M R tokens) (\<lambda>probabilities. Inr (slice_stable (\<lambda>x y. f32_gt (snd x) (snd y)) (scores_of R probabilities)))"

fun take_domains :: "int \<Rightarrow> f32 \<Rightarrow> score list \<Rightarrow> score list \<Rightarrow> score list" where
  "take_domains k min_score [] picked = picked"
| "take_domains k min_score (s # scores) picked =
     (if int (length picked) \<ge> k then picked
      else if picked \<noteq> [] \<and> f32_gt min_score (snd s) then picked
      else take_domains k min_score scores (picked @ [s]))"

definition top_domains :: "router_math \<Rightarrow> router \<Rightarrow> u32 list \<Rightarrow> int \<Rightarrow> f32 \<Rightarrow> ('e, score list) outcome" where
  "top_domains M R tokens k min_score =
     obind (route M R tokens) (\<lambda>scores.
       if scores = [] then Inr [] else Inr (take_domains (if k < 1 then 1 else k) min_score scores []))"

text \<open>Distillation relabels the examples with the teacher's best class.\<close>

definition distill_labels :: "router_math \<Rightarrow> head_classifier \<Rightarrow> (u32 list \<times> nat) list \<Rightarrow> ('e, (u32 list \<times> nat) list) outcome" where
  "distill_labels M teacher examples =
     omap (\<lambda>(tokens, _). obind (head_predict M teacher tokens) (\<lambda>probabilities. Inr (tokens, row_arg_max probabilities))) examples"

definition distill_accuracy ::
  "router_math \<Rightarrow> head_classifier \<Rightarrow> ngram_classifier \<Rightarrow> (u32 list \<times> nat) list \<Rightarrow> ('e, f32) outcome" where
  "distill_accuracy M teacher student examples =
     (if examples = [] then Inr 0
      else
        obind (ofold (\<lambda>(tokens, _) matches. obind (head_predict M teacher tokens) (\<lambda>ps. obind (ngram_predict M student tokens) (\<lambda>qs.
            Inr (if row_arg_max ps = row_arg_max qs then matches + 1 else matches)))) examples 0) (\<lambda>matches.
          Inr (fo_div (rm_ops M) (rm_count M matches) (rm_count M (length examples)))))"

section \<open>Bundles\<close>

record router_config =
  rc_domains :: "string list"
  rc_threshold :: f32
  rc_encoder_path :: string
  rc_buckets :: nat
  rc_unigrams :: bool
  rc_bigrams :: bool
  rc_trigrams :: bool
  rc_max_len :: int
  rc_has_head :: bool

datatype router_error = RtNothing | RtMarshal | RtCheckpoint ck_error | RtNotBundle | RtJson | RtNoWeight | RtNoEncoder | RtNoHead |
  RtHeadDim nat nat | RtHeadClasses nat nat | RtNoPath | RtEncoderFile

text \<open>Returning a checkpoint's error.\<close>

definition checkpoint_error :: "(ck_error, 'a) outcome \<Rightarrow> (router_error, 'a) outcome" where
  "checkpoint_error m = (case m of Inl (Fail e) \<Rightarrow> Inl (Fail (RtCheckpoint e)) | Inl Panic \<Rightarrow> Inl Panic | Inl NoFuel \<Rightarrow> Inl NoFuel | Inr x \<Rightarrow> Inr x)"

definition config_of :: "router \<Rightarrow> ngram_classifier \<Rightarrow> router_config" where
  "config_of R c =
     \<lparr>rc_domains = ro_domains R, rc_threshold = ro_threshold R, rc_encoder_path = ro_encoder_path R, rc_buckets = nc_buckets c,
      rc_unigrams = nc_unigrams c, rc_bigrams = nc_bigrams c, rc_trigrams = nc_trigrams c,
      rc_max_len = (case ro_transformer R of None \<Rightarrow> 0 | Some h \<Rightarrow> hc_max_len h), rc_has_head = (ro_transformer R \<noteq> None)\<rparr>"

definition bundle_params :: "router \<Rightarrow> ngram_classifier \<Rightarrow> (ck_error, tensor entries) outcome" where
  "bundle_params R c =
     (case nc_bias c of
        None \<Rightarrow> Inl Panic
      | Some bias \<Rightarrow>
          Inr ([(ascii ''router.ngram.weight'', nc_weight c), (ascii ''router.ngram.bias'', bias)] @
            (case ro_transformer R of None \<Rightarrow> []
             | Some h \<Rightarrow> [(ascii ''router.head.weight'', hc_weight h), (ascii ''router.head.bias'', hc_bias h)])))"

definition bundle_meta :: "byte list \<Rightarrow> meta" where
  "bundle_meta encoded = \<lparr>mt_step = 0, mt_val_bpb = None, mt_config = zero_config, mt_user = [ascii ''router_config'' \<mapsto> JString encoded],
     mt_loop = Map.empty, mt_loader = Map.empty, mt_params = []\<rparr>"

definition save_router ::
  "(meta \<Rightarrow> byte list option) \<Rightarrow> (router_config \<Rightarrow> byte list option) \<Rightarrow> router \<Rightarrow> (router_error, byte list) outcome" where
  "save_router marshal marshal_config R =
     (case ro_ngram R of
        None \<Rightarrow> Inl (Fail RtNothing)
      | Some c \<Rightarrow>
          (case marshal_config (config_of R c) of
             None \<Rightarrow> Inl (Fail RtMarshal)
           | Some encoded \<Rightarrow>
               checkpoint_error (obind (bundle_params R c) (\<lambda>params. save_checkpoint marshal (bundle_meta encoded) params))))"

definition read_config :: "(byte list \<Rightarrow> router_config option) \<Rightarrow> meta \<Rightarrow> (router_error, router_config) outcome" where
  "read_config unmarshal_config m =
     (case mt_user m (ascii ''router_config'') of
        Some (JString raw) \<Rightarrow> (case unmarshal_config raw of None \<Rightarrow> Inl (Fail RtJson) | Some c \<Rightarrow> Inr c)
      | _ \<Rightarrow> Inl (Fail RtNotBundle))"

definition load_head :: "router_config \<Rightarrow> (byte list \<rightharpoonup> tensor) \<Rightarrow> encoder option \<Rightarrow> (router_error, head_classifier option) outcome" where
  "load_head c params encoder =
     (if \<not> rc_has_head c then Inr None
      else
        (case encoder of
           None \<Rightarrow> Inl (Fail RtNoEncoder)
         | Some e \<Rightarrow>
             (case (params (ascii ''router.head.weight''), params (ascii ''router.head.bias'')) of
                (Some weight, Some bias) \<Rightarrow>
                  obind (shape_dim 1 weight) (\<lambda>columns. fail_if (columns \<noteq> en_width e) (RtHeadDim columns (en_width e))
                 (obind (shape_dim 0 weight) (\<lambda>rows. fail_if (rows \<noteq> length (rc_domains c)) (RtHeadClasses rows (length (rc_domains c)))
                   (Inr (Some \<lparr>hc_encoder = e, hc_in = en_width e, hc_out = rows, hc_weight = weight, hc_bias = bias, hc_max_len = rc_max_len c\<rparr>)))))
              | _ \<Rightarrow> Inl (Fail RtNoHead))))"

definition load_router ::
  "(byte list \<Rightarrow> meta option) \<Rightarrow> (byte list \<Rightarrow> router_config option) \<Rightarrow> byte list option \<Rightarrow> encoder option \<Rightarrow> (router_error, router) outcome" where
  "load_router unmarshal unmarshal_config file encoder =
     obind (checkpoint_error (load_file unmarshal file)) (\<lambda>(m, params).
     obind (read_config unmarshal_config m) (\<lambda>c.
     case params (ascii ''router.ngram.weight'') of
       None \<Rightarrow> Inl (Fail RtNoWeight)
     | Some weight \<Rightarrow>
         obind (shape_dim 0 weight) (\<lambda>classes. obind (shape_dim 1 weight) (\<lambda>buckets.
         obind (load_head c params encoder) (\<lambda>head.
           Inr \<lparr>ro_domains = rc_domains c,
                ro_ngram = Some \<lparr>nc_classes = classes, nc_buckets = buckets, nc_unigrams = rc_unigrams c, nc_bigrams = rc_bigrams c,
                  nc_trigrams = rc_trigrams c, nc_weight = weight, nc_bias = params (ascii ''router.ngram.bias'')\<rparr>,
                ro_transformer = head, ro_encoder_path = rc_encoder_path c, ro_threshold = rc_threshold c\<rparr>)))))"

text \<open>\<open>open_encoder\<close> loads the encoder's checkpoint and builds it.\<close>

definition load_router_auto ::
  "(byte list \<Rightarrow> meta option) \<Rightarrow> (byte list \<Rightarrow> router_config option) \<Rightarrow> (string \<Rightarrow> encoder option) \<Rightarrow> byte list option \<Rightarrow>
    (router_error, router) outcome" where
  "load_router_auto unmarshal unmarshal_config open_encoder file =
     obind (checkpoint_error (load_file unmarshal file)) (\<lambda>(m, _).
     obind (read_config unmarshal_config m) (\<lambda>c.
       if rc_has_head c then
         fail_if (rc_encoder_path c = []) RtNoPath
           (case open_encoder (rc_encoder_path c) of
              None \<Rightarrow> Inl (Fail RtEncoderFile)
            | Some e \<Rightarrow> load_router unmarshal unmarshal_config file (Some e))
       else load_router unmarshal unmarshal_config file None))"

section \<open>Features\<close>

definition ngram_ok :: "ngram_classifier \<Rightarrow> bool" where
  "ngram_ok c \<longleftrightarrow> 0 < nc_buckets c \<and> nc_buckets c < 2 ^ 32 \<and> length (ts_data (nc_weight c)) = nc_classes c * nc_buckets c \<and>
     (case nc_bias c of None \<Rightarrow> False | Some bias \<Rightarrow> length (ts_data bias) = nc_classes c)"

lemma hash_bucket_bound:
  assumes "0 < buckets" "buckets < 2 ^ 32"
  shows "\<exists>bucket < buckets. hash_bucket buckets tag xs = (Inr bucket :: ('e, nat) outcome)"
proof -
  have "unat (word_of_nat buckets :: u32) = buckets" using assms(2) by (simp add: unat_of_nat take_bit_nat_eq_self)
  moreover from this have "word_of_nat buckets \<noteq> (0 :: u32)" using assms(1) by auto
  ultimately show ?thesis
    using assms(1) by (simp add: hash_bucket_def Let_def unat_mod)
qed

lemma hash_buckets_bound:
  assumes "0 < buckets" "buckets < 2 ^ 32"
  shows "\<exists>bs. omap (hash_bucket buckets tag) xss = (Inr bs :: ('e, nat list) outcome) \<and> (\<forall>b \<in> set bs. b < buckets)"
proof (induction xss)
  case (Cons xs xss)
  then obtain bs where bs: "omap (hash_bucket buckets tag) xss = (Inr bs :: ('e, nat list) outcome)" "\<forall>b \<in> set bs. b < buckets" by blast
  obtain b where "b < buckets" "hash_bucket buckets tag xs = (Inr b :: ('e, nat) outcome)"
    using hash_bucket_bound [OF assms, of tag xs] by blast
  with bs show ?case by simp
qed simp

lemma features_bound:
  assumes "0 < nc_buckets c" "nc_buckets c < 2 ^ 32" "\<And>xs. set (rm_visit M xs) = set xs"
  shows "\<exists>fs. features M c tokens = (Inr fs :: ('e, nat list) outcome) \<and> (\<forall>f \<in> set fs. f < nc_buckets c)"
proof -
  have "\<exists>bs. (if b then omap (hash_bucket (nc_buckets c) tag) xss else Inr []) = (Inr bs :: ('e, nat list) outcome) \<and> (\<forall>f \<in> set bs. f < nc_buckets c)"
    for b tag and xss :: "u32 list list"
    using hash_buckets_bound [OF assms(1,2)] by (cases b) auto
  note each = this
  obtain ones where ones: "(if nc_unigrams c then omap (hash_bucket (nc_buckets c) 1) (grams 1 tokens) else Inr []) = (Inr ones :: ('e, nat list) outcome)"
    "\<forall>f \<in> set ones. f < nc_buckets c" using each by blast
  obtain twos where twos: "(if nc_bigrams c then omap (hash_bucket (nc_buckets c) 2) (grams 2 tokens) else Inr []) = (Inr twos :: ('e, nat list) outcome)"
    "\<forall>f \<in> set twos. f < nc_buckets c" using each by blast
  obtain threes where threes: "(if nc_trigrams c then omap (hash_bucket (nc_buckets c) 3) (grams 3 tokens) else Inr []) = (Inr threes :: ('e, nat list) outcome)"
    "\<forall>f \<in> set threes. f < nc_buckets c" using each by blast
  have "features M c tokens = (Inr (rm_visit M (remdups (ones @ twos @ threes))) :: ('e, nat list) outcome)"
    unfolding features_def ones(1) twos(1) threes(1) by simp
  then show ?thesis using assms(3) ones(2) twos(2) threes(2) by auto
qed

lemma add_feature_ok:
  assumes "ngram_ok c" "f < nc_buckets c" "length out = nc_classes c"
  shows "\<exists>out'. add_feature F c f out = (Inr out' :: ('e, f32 list) outcome) \<and> length out' = nc_classes c"
proof -
  have inside: "cls * nc_buckets c + f < length (ts_data (nc_weight c))" if "cls < nc_classes c" for cls
  proof -
    have "cls * nc_buckets c + f < Suc cls * nc_buckets c" using assms(2) by simp
    also have "\<dots> \<le> nc_classes c * nc_buckets c" using that by (intro mult_le_mono1) simp
    finally show ?thesis using assms(1) by (simp add: ngram_ok_def)
  qed
  then have "obind (elem_at (ts_data (nc_weight c)) (cls * nc_buckets c + f)) (\<lambda>w. Inr (fo_add F (out ! cls) w)) =
      (Inr (fo_add F (out ! cls) (ts_data (nc_weight c) ! (cls * nc_buckets c + f))) :: ('e, f32) outcome)" if "cls < nc_classes c" for cls
    using inside [OF that] by (simp add: elem_at_def)
  then have "add_feature F c f out =
      (Inr (map (\<lambda>cls. fo_add F (out ! cls) (ts_data (nc_weight c) ! (cls * nc_buckets c + f))) [0..<nc_classes c]) :: ('e, f32 list) outcome)"
    unfolding add_feature_def by (intro omap_map) simp
  then show ?thesis by simp
qed

lemma ngram_logits_ok:
  assumes "ngram_ok c" "\<forall>f \<in> set fs. f < nc_buckets c"
  shows "\<exists>out. ngram_logits F c fs = (Inr out :: ('e, f32 list) outcome) \<and> length out = nc_classes c"
proof -
  have "\<exists>out'. add_feature F c f out = (Inr out' :: ('e, f32 list) outcome) \<and> length out' = nc_classes c"
    if "f \<in> set fs" "length out = nc_classes c" for f out
    using add_feature_ok [OF assms(1) _ that(2)] assms(2) that(1) by blast
  from ofold_inv [of "\<lambda>out. length out = nc_classes c" "replicate (nc_classes c) 0" fs "add_feature F c", OF _ this]
  obtain out where out: "ofold (add_feature F c) fs (replicate (nc_classes c) 0) = (Inr out :: ('e, f32 list) outcome)" by auto
  obtain bias where bias: "nc_bias c = Some bias" "length (ts_data bias) = nc_classes c"
    using assms(1) by (auto simp: ngram_ok_def split: option.splits)
  have "omap (\<lambda>cls. obind (elem_at (ts_data bias) cls) (\<lambda>b. Inr (fo_add F (out ! cls) b))) [0..<nc_classes c] =
      (Inr (map (\<lambda>cls. fo_add F (out ! cls) (ts_data bias ! cls)) [0..<nc_classes c]) :: ('e, f32 list) outcome)"
    using bias(2) by (intro omap_map) (simp add: elem_at_def)
  then show ?thesis by (simp add: ngram_logits_def out bias(1))
qed

text \<open>
  With fewer than \<open>2 ^ 32\<close> buckets every feature of every token sequence is below the number of buckets, and a
  classifier whose tensors have the sizes of its fields computes one logit for each class: predicting never panics, in
  whatever order the features are visited.
\<close>
theorem features_in_range:
  fixes F :: float_ops
  assumes "ngram_ok c" "\<And>xs. set (rm_visit M xs) = set xs"
  shows "\<exists>fs out. features M c tokens = (Inr fs :: (unit, nat list) outcome) \<and> (\<forall>f \<in> set fs. f < nc_buckets c) \<and>
    ngram_logits (rm_ops M) c fs = (Inr out :: (unit, f32 list) outcome) \<and> length out = nc_classes c \<and>
    ngram_predict M c tokens = (Inr (rm_softmax M out) :: (unit, f32 list) outcome)"
proof -
  have "0 < nc_buckets c" "nc_buckets c < 2 ^ 32" using assms(1) by (simp_all add: ngram_ok_def)
  from features_bound [OF this assms(2), of tokens, where ?'e = unit] obtain fs where
    "features M c tokens = (Inr fs :: (unit, nat list) outcome)" "\<forall>f \<in> set fs. f < nc_buckets c" by blast
  with ngram_logits_ok [OF assms(1) this(2), of "rm_ops M", where ?'e = unit] show ?thesis by (auto simp: ngram_predict_def)
qed

definition example_math_router :: router_math where
  "example_math_router = \<lparr>rm_ops = example_ops, rm_softmax = id, rm_count = word_of_nat, rm_visit = rev\<rparr>"

definition example_classifier :: ngram_classifier where
  "example_classifier = \<lparr>nc_classes = 3, nc_buckets = 2, nc_unigrams = True, nc_bigrams = True, nc_trigrams = False,
     nc_weight = \<lparr>ts_shape = [3, 2], ts_data = [1, 2, 5, 6, 3, 4]\<rparr>, nc_bias = Some \<lparr>ts_shape = [3], ts_data = [0, 0, 1]\<rparr>\<rparr>"

theorem features_in_range_witness:
  "\<exists>fs out. features example_math_router example_classifier [5, 6] = (Inr fs :: (unit, nat list) outcome) \<and> (\<forall>f \<in> set fs. f < 2) \<and>
    ngram_logits example_ops example_classifier fs = (Inr out :: (unit, f32 list) outcome) \<and> length out = 3 \<and>
    ngram_predict example_math_router example_classifier [5, 6] = (Inr out :: (unit, f32 list) outcome)"
proof -
  have "ngram_ok example_classifier" by (simp add: ngram_ok_def example_classifier_def)
  moreover have "\<And>xs. set (rm_visit example_math_router xs) = set xs" by (simp add: example_math_router_def)
  ultimately show ?thesis
    using features_in_range [of example_classifier example_math_router "[5, 6]"] by (simp add: example_classifier_def example_math_router_def)
qed

section \<open>The chosen domains\<close>

lemma set_insert_stable: "set (insert_stable lt_by x ys) = insert x (set ys)"
  by (induction ys) auto

lemma set_slice_stable: "set (slice_stable lt_by xs) = set xs"
  by (induction xs) (simp_all add: slice_stable_def set_insert_stable)

lemma insert_stable_cong: "(\<And>y. y \<in> set ys \<Longrightarrow> lt1 y x = lt2 y x) \<Longrightarrow> insert_stable lt1 x ys = insert_stable lt2 x ys"
  by (induction ys) auto

lemma slice_stable_cong:
  "sorted_wrt (\<lambda>x y. lt1 y x = lt2 y x) xs \<Longrightarrow> slice_stable lt1 xs = slice_stable lt2 xs"
proof (induction xs)
  case (Cons x xs)
  then have "slice_stable lt1 xs = slice_stable lt2 xs" by simp
  moreover have "insert_stable lt1 x (slice_stable lt2 xs) = insert_stable lt2 x (slice_stable lt2 xs)"
    by (rule insert_stable_cong) (use Cons.prems in \<open>simp add: set_slice_stable\<close>)
  ultimately show ?case by (simp add: slice_stable_def)
qed (simp add: slice_stable_def)

lemma slice_stable_map: "slice_stable lt_by (map f xs) = map f (slice_stable (\<lambda>x y. lt_by (f x) (f y)) xs)"
proof (induction xs)
  case (Cons x xs)
  have "insert_stable lt_by (f x) (map f ys) = map f (insert_stable (\<lambda>x y. lt_by (f x) (f y)) x ys)" for ys
    by (induction ys) simp_all
  then show ?case using Cons by (simp add: slice_stable_def)
qed (simp add: slice_stable_def)

text \<open>The scores of a route: the indices of the stable descending sort, each with its domain.\<close>

definition score_at :: "router \<Rightarrow> f32 list \<Rightarrow> nat \<Rightarrow> score" where
  "score_at R ps i = (if i < length (ro_domains R) then ro_domains R ! i else '''', ps ! i)"

lemma sorted_scores:
  "slice_stable (\<lambda>x y. f32_gt (snd x) (snd y)) (scores_of R ps) = map (score_at R ps) (argsort_descending ps)"
proof -
  have "slice_stable (\<lambda>x y. f32_gt (snd (score_at R ps x)) (snd (score_at R ps y))) [0..<length ps] = argsort_descending ps"
    unfolding argsort_descending_def
    by (rule slice_stable_cong) (auto simp: sorted_wrt_iff_nth_less score_at_def index_better_def f32_gt_def f32_eq_def)
  then show ?thesis
    using slice_stable_map [of "\<lambda>x y. f32_gt (snd x) (snd y)" "score_at R ps" "[0..<length ps]"]
    by (simp add: scores_of_def score_at_def [abs_def])
qed

lemma take_domains_split:
  "\<exists>more'. take_domains k min_score scores picked = picked @ more' \<and> more' = take (length more') scores \<and>
    (\<forall>s \<in> set (if picked = [] then tl more' else more'). \<not> f32_gt min_score (snd s)) \<and>
    (int (length (picked @ more')) \<le> max k (int (length picked))) \<and>
    (length more' < length scores \<longrightarrow> int (length (picked @ more')) \<ge> k \<or>
       picked @ more' \<noteq> [] \<and> f32_gt min_score (snd (scores ! length more')))"
proof (induction k min_score scores picked rule: take_domains.induct)
  case (1 k min_score picked)
  show ?case by (intro exI [of _ "[]"]) simp
next
  case (2 k min_score s scores picked)
  show ?case
  proof (cases "int (length picked) \<ge> k \<or> picked \<noteq> [] \<and> f32_gt min_score (snd s)")
    case True
    then have "take_domains k min_score (s # scores) picked = picked @ []" by auto
    with True show ?thesis by (intro exI [of _ "[]"]) auto
  next
    case False
    then obtain more' where m: "take_domains k min_score scores (picked @ [s]) = (picked @ [s]) @ more'" "more' = take (length more') scores"
      "\<forall>s \<in> set more'. \<not> f32_gt min_score (snd s)" "int (length (picked @ [s] @ more')) \<le> max k (int (length picked + 1))"
      "length more' < length scores \<longrightarrow> int (length (picked @ [s] @ more')) \<ge> k \<or> f32_gt min_score (snd (scores ! length more'))"
      using 2 by auto
    have "take_domains k min_score (s # scores) picked = picked @ (s # more')" using False m(1) by auto
    moreover have "s # more' = take (length (s # more')) (s # scores)" using m(2) by simp
    ultimately show ?thesis
      using False m(3-5) by (intro exI [of _ "s # more'"]) auto
  qed
qed

text \<open>
  C36. The domains a request is routed to, on probabilities without NaN: a prefix of the domains sorted by descending
  probability, of equal ones the earlier first; at least the best and at most \<open>count\<close>; all but the first have the minimal
  score; and where fewer are returned than asked for, the next one has not.
\<close>
theorem top_domains_best:
  assumes "router_predict M R tokens = (Inr ps :: (unit, f32 list) outcome)" "no_nan ps" "ps \<noteq> []"
  shows "\<exists>chosen. top_domains M R tokens k min_score = (Inr chosen :: (unit, score list) outcome) \<and>
    chosen = take (length chosen) (map (score_at R ps) (argsort_descending ps)) \<and>
    1 \<le> length chosen \<and> int (length chosen) \<le> max 1 k \<and> (\<forall>s \<in> set (tl chosen). \<not> f32_gt min_score (snd s)) \<and>
    (length chosen < length ps \<and> int (length chosen) < max 1 k \<longrightarrow> f32_gt min_score (ps ! (argsort_descending ps ! length chosen)))"
proof -
  let ?scores = "map (score_at R ps) (argsort_descending ps)"
  have len: "length ?scores = length ps" using argsort_sort [OF assms(2)] by simp
  have routed: "route M R tokens = (Inr ?scores :: (unit, score list) outcome)" by (simp add: route_def assms(1) sorted_scores)
  have "max 1 k = (if k < 1 then 1 else k)" by simp
  then obtain chosen where c: "take_domains (max 1 k) min_score ?scores [] = chosen" "chosen = take (length chosen) ?scores"
    "\<forall>s \<in> set (tl chosen). \<not> f32_gt min_score (snd s)" "int (length chosen) \<le> max 1 k"
    "length chosen < length ps \<longrightarrow> int (length chosen) \<ge> max 1 k \<or> chosen \<noteq> [] \<and> f32_gt min_score (snd (?scores ! length chosen))"
    using take_domains_split [of "max 1 k" min_score ?scores "[]"] len by auto
  have "chosen \<noteq> []" using c(5) assms(3) by auto
  then have "1 \<le> length chosen" by (cases chosen) simp_all
  moreover have "length chosen < length ps \<Longrightarrow> snd (?scores ! length chosen) = ps ! (argsort_descending ps ! length chosen)"
    using len by (simp add: score_at_def)
  moreover have "top_domains M R tokens k min_score = (Inr chosen :: (unit, score list) outcome)"
    using c(1) assms(3) len by (auto simp: top_domains_def routed max_def split: if_splits)
  ultimately show ?thesis using c(2-5) by (intro exI [of _ chosen] conjI) auto
qed

definition example_router :: router where
  "example_router = \<lparr>ro_domains = [''a'', ''b'', ''c''], ro_ngram = Some example_classifier, ro_transformer = None, ro_encoder_path = [],
     ro_threshold = 0\<rparr>"

theorem top_domains_best_witness:
  "top_domains example_math_router example_router [5] 2 0 = (Inr (take 2 [(''b'', 6), (''c'', 5), (''a'', 2)]) :: (unit, score list) outcome)"
proof -
  have ps: "router_predict example_math_router example_router [5] = (Inr [2, 6, 5] :: (unit, f32 list) outcome)" by code_simp
  have "no_nan [2, 6, 5 :: f32]" by code_simp
  note best = top_domains_best [OF ps this, of 2 0]
  have "top_domains example_math_router example_router [5] 2 0 = (Inr [(''b'', 6), (''c'', 5)] :: (unit, score list) outcome)" by code_simp
  then show ?thesis using best by simp
qed

section \<open>Bundles\<close>

text \<open>A router whose fields agree with its tensors, with the encoder it is loaded with.\<close>

definition router_ok :: "encoder option \<Rightarrow> router \<Rightarrow> bool" where
  "router_ok encoder R \<longleftrightarrow>
     (case ro_ngram R of None \<Rightarrow> False
      | Some c \<Rightarrow> ts_shape (nc_weight c) = [nc_classes c, nc_buckets c] \<and> tensor_fits (nc_weight c) \<and>
          (case nc_bias c of None \<Rightarrow> False | Some bias \<Rightarrow> tensor_fits bias)) \<and>
     (case ro_transformer R of None \<Rightarrow> True
      | Some h \<Rightarrow> encoder = Some (hc_encoder h) \<and> hc_in h = en_width (hc_encoder h) \<and> hc_out h = length (ro_domains R) \<and>
          ts_shape (hc_weight h) = [hc_out h, hc_in h] \<and> tensor_fits (hc_weight h) \<and> tensor_fits (hc_bias h))"

lemma bundle_names:
  "distinct [ascii ''router.ngram.weight'', ascii ''router.ngram.bias'', ascii ''router.head.weight'', ascii ''router.head.bias'']"
  by code_simp

lemma checkpoint_error_Inr [simp]: "checkpoint_error m = Inr x \<longleftrightarrow> m = Inr x"
  by (auto simp: checkpoint_error_def split: sum.splits fault.splits)

lemma checkpoint_error_Inr_simp [simp]: "checkpoint_error (Inr x) = Inr x"
  by simp

lemma load_head_back:
  assumes "router_ok encoder R" "ro_ngram R = Some c" "bundle_params R c = Inr params"
  shows "load_head (config_of R c) (map_of params) encoder = Inr (ro_transformer R)"
proof (cases "ro_transformer R")
  case None
  then show ?thesis by (simp add: load_head_def config_of_def)
next
  case (Some h)
  then have ok: "encoder = Some (hc_encoder h)" "hc_in h = en_width (hc_encoder h)" "hc_out h = length (ro_domains R)"
    "ts_shape (hc_weight h) = [hc_out h, hc_in h]"
    using assms(1) by (simp_all add: router_ok_def)
  have "map_of params (ascii ''router.head.weight'') = Some (hc_weight h)" "map_of params (ascii ''router.head.bias'') = Some (hc_bias h)"
    using assms(3) Some bundle_names by (auto simp: bundle_params_def split: option.splits)
  then show ?thesis using Some ok by (simp add: load_head_def config_of_def shape_dim_def)
qed

lemma bundle_params_ok:
  assumes "router_ok encoder R" "ro_ngram R = Some c"
  shows "\<exists>params bias. bundle_params R c = Inr params \<and> nc_bias c = Some bias \<and> params_fit params \<and>
    map_of params (ascii ''router.ngram.weight'') = Some (nc_weight c) \<and> map_of params (ascii ''router.ngram.bias'') = Some bias"
proof -
  obtain bias where bias: "nc_bias c = Some bias" "tensor_fits bias" "tensor_fits (nc_weight c)"
    using assms by (auto simp: router_ok_def split: option.splits)
  show ?thesis
  proof (cases "ro_transformer R")
    case None
    then show ?thesis using bias bundle_names by (auto simp: bundle_params_def params_fit_def)
  next
    case (Some h)
    then have "tensor_fits (hc_weight h)" "tensor_fits (hc_bias h)" using assms(1) by (simp_all add: router_ok_def)
    then show ?thesis using Some bias bundle_names by (auto simp: bundle_params_def params_fit_def)
  qed
qed

text \<open>
  C37. A router that was saved is loaded back as it was: domains, threshold, encoder path, the n-gram classifier and,
  with the encoder it was trained over, the transformer head, every weight bit for bit.
\<close>
theorem router_roundtrip:
  assumes "router_ok encoder R" "save_router marshal marshal_config R = Inr data" "length data < 2 ^ 63"
    "\<And>m js. marshal m = Some js \<Longrightarrow> unmarshal js = Some m \<and> length js < 2 ^ 32"
    "\<And>c js. marshal_config c = Some js \<Longrightarrow> unmarshal_config js = Some c"
  shows "load_router unmarshal unmarshal_config (Some data) encoder = Inr R"
proof -
  obtain c where c: "ro_ngram R = Some c" "ts_shape (nc_weight c) = [nc_classes c, nc_buckets c]"
    using assms(1) by (auto simp: router_ok_def split: option.splits)
  obtain params bias where params: "bundle_params R c = Inr params" "nc_bias c = Some bias" "params_fit params"
    "map_of params (ascii ''router.ngram.weight'') = Some (nc_weight c)" "map_of params (ascii ''router.ngram.bias'') = Some bias"
    using bundle_params_ok [OF assms(1) c(1)] by blast
  obtain encoded where encoded: "marshal_config (config_of R c) = Some encoded" "save_checkpoint marshal (bundle_meta encoded) params = Inr data"
    using assms(2) by (auto simp: save_router_def c(1) params(1) split: option.splits)
  have "load_checkpoint unmarshal data = Inr ((bundle_meta encoded)\<lparr>mt_params := map meta_of (sorted_entries params)\<rparr>, map_of params)"
    by (rule load_saved [OF params(3) encoded(2) assms(3,4)])
  moreover have "read_config unmarshal_config ((bundle_meta encoded)\<lparr>mt_params := map meta_of (sorted_entries params)\<rparr>) = Inr (config_of R c)"
    using assms(5) [OF encoded(1)] by (simp add: read_config_def bundle_meta_def)
  ultimately show ?thesis
    using load_head_back [OF assms(1) c(1) params(1)] params(4,5) c params(2)
    by (simp add: load_router_def load_file_def shape_dim_def config_of_def)
qed

text \<open>A codec that knows one bundle.\<close>

definition example_bundle :: "tensor entries" where
  "example_bundle = [(ascii ''router.ngram.weight'', nc_weight example_classifier), (ascii ''router.ngram.bias'', \<lparr>ts_shape = [3], ts_data = [0, 0, 1]\<rparr>)]"

definition bundle_marshal :: "meta \<Rightarrow> byte list option" where
  "bundle_marshal m =
     (if m = (bundle_meta [1])\<lparr>mt_params := map meta_of (sorted_entries example_bundle)\<rparr> then Some [123, 125] else None)"

definition bundle_unmarshal :: "byte list \<Rightarrow> meta option" where
  "bundle_unmarshal js =
     (if js = [123, 125] then Some ((bundle_meta [1])\<lparr>mt_params := map meta_of (sorted_entries example_bundle)\<rparr>) else None)"

theorem router_roundtrip_witness:
  "\<exists>data. save_router bundle_marshal (\<lambda>c. if c = config_of example_router example_classifier then Some [1] else None) example_router = Inr data \<and>
    load_router bundle_unmarshal (\<lambda>js. if js = [1] then Some (config_of example_router example_classifier) else None) (Some data) None =
      Inr example_router"
proof -
  have ok: "router_ok None example_router"
    by (simp add: router_ok_def example_router_def example_classifier_def tensor_fits_def)
  have params: "bundle_params example_router example_classifier = Inr example_bundle"
    by (simp add: bundle_params_def example_router_def example_classifier_def example_bundle_def)
  define data where "data = ck_magic @ nat_le 4 2 @ [123, 125] @ concat (map entry_bytes (sorted_entries example_bundle))"
  have saved: "save_router bundle_marshal (\<lambda>c. if c = config_of example_router example_classifier then Some [1] else None) example_router = Inr data"
    by (simp add: save_router_def example_router_def [THEN arg_cong, of ro_ngram] params save_checkpoint_bytes bundle_marshal_def data_def numeral_2_eq_2)
  have "length (concat (map entry_bytes (sorted_entries example_bundle))) = 36" by code_simp
  then have "length data < 2 ^ 63" by (simp add: data_def ck_magic_def)
  moreover have "bundle_unmarshal js = Some m \<and> length js < 2 ^ 32" if "bundle_marshal m = Some js" for m js
    using that by (auto simp: bundle_marshal_def bundle_unmarshal_def split: if_splits)
  moreover have "(if js = [1] then Some (config_of example_router example_classifier) else None) = Some c"
    if "(if c = config_of example_router example_classifier then Some [1 :: byte] else None) = Some js" for c js
    using that by (simp split: if_splits)
  ultimately have "load_router bundle_unmarshal (\<lambda>js. if js = [1] then Some (config_of example_router example_classifier) else None) (Some data) None =
      Inr example_router"
    by (rule router_roundtrip [OF ok saved])
  with saved show ?thesis by blast
qed

text \<open>
  A bundle without \<open>router.ngram.bias\<close> is loaded without an error, though one without the weights is refused; the router
  then panics on the first request. And an empty request is answered from the bias alone, while training encodes the
  tokens \<open>0, 0\<close> for it.
\<close>

lemma bias_unchecked:
  assumes "load_file unmarshal file = Inr (m, params)" "read_config unmarshal_config m = Inr c" "\<not> rc_has_head c"
    "params (ascii ''router.ngram.weight'') = Some weight" "ts_shape weight = [Suc classes, buckets]" "params (ascii ''router.ngram.bias'') = None"
  shows "\<exists>R. load_router unmarshal unmarshal_config file encoder = Inr R \<and> (\<forall>M tokens. \<nexists>ps. router_predict M R tokens = (Inr ps :: (unit, f32 list) outcome))"
proof -
  let ?c = "\<lparr>nc_classes = Suc classes, nc_buckets = buckets, nc_unigrams = rc_unigrams c, nc_bigrams = rc_bigrams c,
    nc_trigrams = rc_trigrams c, nc_weight = weight, nc_bias = None\<rparr>"
  have "load_router unmarshal unmarshal_config file encoder = Inr \<lparr>ro_domains = rc_domains c, ro_ngram = Some ?c, ro_transformer = None,
      ro_encoder_path = rc_encoder_path c, ro_threshold = rc_threshold c\<rparr>"
    using assms by (simp add: load_router_def load_head_def shape_dim_def)
  moreover have "ngram_predict M ?c tokens \<noteq> (Inr ps :: (unit, f32 list) outcome)" for M tokens ps
    by (auto simp: ngram_predict_def ngram_logits_def obind_eq_Inr)
  ultimately show ?thesis by (auto simp: router_predict_def obind_eq_Inr)
qed

lemma empty_request_features:
  "featurize M h [] = replicate (en_width (hc_encoder h)) 0 \<and> truncate_tokens h [] = [0, 0]"
  by (simp add: featurize_def truncate_tokens_def cut_tokens_def Let_def)

end
