(* ===== verification/Server.thy ===== *)
theory Server
  imports Chat Router Bank Engine
begin

text \<open>
  The chat server: \<open>generate\<close>, \<open>selectGenerator\<close> and \<open>ensembleForScores\<close> of src/server/server.go, and the handlers of handler.go.

  What a generator yields is a sequence of columns, as in \<open>Engine\<close>; the consumer is a function of the columns so far. A run of
  a generator is \<open>generation\<close>: from the consumer to the columns, \<open>None\<close> if it does not return. Strings a model produced are
  bytes. Time stamps, identifiers made from the clock, HTTP headers but the routed domains, and the JSON encoding are left out;
  \<open>json_text\<close> is what Go's encoder does to bytes that are no UTF-8.
\<close>

section \<open>Strings\<close>

text \<open>The runes of a Go string: a byte that begins no valid encoding is U+FFFD.\<close>

definition trail :: "nat \<Rightarrow> nat \<Rightarrow> nat \<Rightarrow> byte list \<Rightarrow> bool" where
  "trail i low high bs \<longleftrightarrow> i < length bs \<and> low \<le> unat (bs ! i) \<and> unat (bs ! i) \<le> high"

definition decode_rune :: "byte list \<Rightarrow> rune \<times> nat" where
  "decode_rune bs =
     (let b0 = unat (bs ! 0); low = (\<lambda>i. unat (bs ! i) - 0x80) in
      if b0 < 0x80 then (b0, 1)
      else if 0xC2 \<le> b0 \<and> b0 \<le> 0xDF \<and> trail 1 0x80 0xBF bs then ((b0 - 0xC0) * 64 + low 1, 2)
      else if 0xE0 \<le> b0 \<and> b0 \<le> 0xEF \<and> trail 1 (if b0 = 0xE0 then 0xA0 else 0x80) (if b0 = 0xED then 0x9F else 0xBF) bs \<and> trail 2 0x80 0xBF bs
      then ((b0 - 0xE0) * 4096 + low 1 * 64 + low 2, 3)
      else if 0xF0 \<le> b0 \<and> b0 \<le> 0xF4 \<and> trail 1 (if b0 = 0xF0 then 0x90 else 0x80) (if b0 = 0xF4 then 0x8F else 0xBF) bs \<and>
        trail 2 0x80 0xBF bs \<and> trail 3 0x80 0xBF bs
      then ((b0 - 0xF0) * 262144 + low 1 * 4096 + low 2 * 64 + low 3, 4)
      else (0xFFFD, 1))"

lemma decode_rune_width: "0 < snd (decode_rune bs)"
  by (simp add: decode_rune_def Let_def)

function go_runes :: "byte list \<Rightarrow> rune list" where
  "go_runes bs = (if bs = [] then [] else fst (decode_rune bs) # go_runes (drop (snd (decode_rune bs)) bs))"
  by auto
termination by (relation "measure length") (auto simp: decode_rune_width)

declare go_runes.simps [simp del]

definition json_text :: "byte list \<Rightarrow> byte list" where
  "json_text bs = utf8 (go_runes bs)"

definition go_string :: "string \<Rightarrow> byte list" where
  "go_string s = map (\<lambda>c. word_of_nat (of_char c)) s"

definition hol_string :: "byte list \<Rightarrow> string" where
  "hol_string bs = map (\<lambda>b. char_of (unat b)) bs"

section \<open>Generating\<close>

type_synonym generation = "(column list \<Rightarrow> bool) \<Rightarrow> column list option"

record serve_row =
  sv_sampled :: "int list"
  sv_args :: "int list"
  sv_reasoning :: "int list"
  sv_in_tool :: bool
  sv_in_thinking :: bool
  sv_finished :: bool
  sv_calls :: "byte list tool_call list"

definition primed_thinking :: "gen_ids \<Rightarrow> int list \<Rightarrow> bool" where
  "primed_thinking G prompt \<longleftrightarrow> prompt \<noteq> [] \<and> last prompt = gi_think_start G"

definition new_serve_row :: "gen_ids \<Rightarrow> int list \<Rightarrow> serve_row" where
  "new_serve_row G prompt = \<lparr>sv_sampled = [], sv_args = [], sv_reasoning = [], sv_in_tool = False,
     sv_in_thinking = primed_thinking G prompt, sv_finished = False, sv_calls = []\<rparr>"

definition call_of :: "tool list \<Rightarrow> nat \<Rightarrow> byte list \<Rightarrow> byte list tool_call" where
  "call_of tools counter arguments =
     \<lparr>tc_id = ''call_'' @ decimal_digits counter, tc_type = ''function'',
      tc_name = (case execute_tool tools (hol_string arguments) of Some (name, _) \<Rightarrow> name | None \<Rightarrow> ''unknown''), tc_arguments = arguments\<rparr>"

definition serve_token :: "tokenizer \<Rightarrow> tool list \<Rightarrow> gen_ids \<Rightarrow> int \<times> nat \<Rightarrow> nat \<times> serve_row \<Rightarrow> nat \<times> serve_row" where
  "serve_token tok tools G tm s =
     (let (token, mask') = tm; (counter, row) = s in
      if sv_finished row then s
      else if token = gi_think_start G then (counter, row\<lparr>sv_in_thinking := True, sv_reasoning := []\<rparr>)
      else if token = gi_think_end G then (counter, row\<lparr>sv_in_thinking := False\<rparr>)
      else if mask' = 0 then s
      else if token = gi_tool_start G then (counter, row\<lparr>sv_in_tool := True, sv_args := []\<rparr>)
      else if token = gi_tool_end G then
        (if sv_in_tool row
         then (counter + 1, row\<lparr>sv_calls := sv_calls row @ [call_of tools counter (decode tok (sv_args row))], sv_in_tool := False, sv_args := []\<rparr>)
         else s)
      else if token = gi_assistant_end G \<or> token = gi_bos G then (counter, row\<lparr>sv_finished := True\<rparr>)
      else if sv_in_tool row then (counter, row\<lparr>sv_args := sv_args row @ [token]\<rparr>)
      else if sv_in_thinking row then (counter, row\<lparr>sv_reasoning := sv_reasoning row @ [token]\<rparr>)
      else (counter, row\<lparr>sv_sampled := sv_sampled row @ [token]\<rparr>))"

definition serve_cell :: "tokenizer \<Rightarrow> tool list \<Rightarrow> gen_ids \<Rightarrow> column \<Rightarrow> nat \<Rightarrow> nat \<times> serve_row list \<Rightarrow> nat \<times> serve_row list" where
  "serve_cell tok tools G column index s =
     (let (counter, row) = serve_token tok tools G (column ! index) (fst s, snd s ! index) in (counter, (snd s)[index := row]))"

definition serve_columns :: "tokenizer \<Rightarrow> tool list \<Rightarrow> gen_ids \<Rightarrow> int list \<Rightarrow> nat \<Rightarrow> column list \<Rightarrow> nat \<times> serve_row list" where
  "serve_columns tok tools G prompt n columns =
     fold (\<lambda>column. fold (serve_cell tok tools G column) [0..<n]) columns (0, replicate n (new_serve_row G prompt))"

record row_result =
  rr_content :: "byte list"
  rr_reasoning :: "byte list"
  rr_calls :: "byte list tool_call list"
  rr_finish :: string
  rr_prompt_len :: nat
  rr_completion :: nat

definition row_result_of :: "unicode \<Rightarrow> tokenizer \<Rightarrow> int list \<Rightarrow> serve_row \<Rightarrow> row_result" where
  "row_result_of U tok prompt row =
     \<lparr>rr_content = decode tok (sv_sampled row), rr_reasoning = decode tok (sv_reasoning row), rr_calls = sv_calls row,
      rr_finish = (if sv_finished row then ''stop'' else ''length''), rr_prompt_len = length prompt,
      rr_completion = length (sv_sampled row) + length (sv_reasoning row) +
        sum_list (map (\<lambda>call. length (encode U tok (go_runes (tc_arguments call)))) (sv_calls row))\<rparr>"

definition server_generate ::
  "unicode \<Rightarrow> tokenizer \<Rightarrow> tool list \<Rightarrow> gen_ids \<Rightarrow> int list \<Rightarrow> nat \<Rightarrow> generation \<Rightarrow> row_result list option" where
  "server_generate U tok tools G prompt n run =
     map_option (\<lambda>columns. map (row_result_of U tok prompt) (snd (serve_columns tok tools G prompt n columns)))
       (run (\<lambda>columns. \<not> list_all sv_finished (snd (serve_columns tok tools G prompt n columns))))"

section \<open>Streaming\<close>

record stream_delta =
  sd_role :: string
  sd_content :: "byte list"
  sd_reasoning :: "byte list"

record stream_chunk =
  sc_index :: nat
  sc_delta :: stream_delta
  sc_finish :: "string option"

definition empty_delta :: stream_delta where
  "empty_delta = \<lparr>sd_role = [], sd_content = [], sd_reasoning = []\<rparr>"

record stream_row =
  st_in_tool :: bool
  st_in_thinking :: bool
  st_finished :: bool

record stream_state =
  ss_completion :: nat
  ss_chunks :: "stream_chunk list"
  ss_rows :: "stream_row list"

definition set_row :: "nat \<Rightarrow> stream_row \<Rightarrow> stream_state \<Rightarrow> stream_state" where
  "set_row index row s = s\<lparr>ss_rows := (ss_rows s)[index := row]\<rparr>"

definition stream_cell :: "tokenizer \<Rightarrow> gen_ids \<Rightarrow> column \<Rightarrow> nat \<Rightarrow> stream_state \<Rightarrow> stream_state" where
  "stream_cell tok G column index s =
     (let (token, mask') = column ! index; row = ss_rows s ! index in
      if st_finished row then s
      else if token = gi_think_start G then set_row index (row\<lparr>st_in_thinking := True\<rparr>) s
      else if token = gi_think_end G then set_row index (row\<lparr>st_in_thinking := False\<rparr>) s
      else if mask' = 0 then s
      else if token = gi_tool_start G then set_row index (row\<lparr>st_in_tool := True\<rparr>) s
      else if token = gi_tool_end G then set_row index (row\<lparr>st_in_tool := False\<rparr>) s
      else if token = gi_assistant_end G \<or> token = gi_bos G then set_row index (row\<lparr>st_finished := True\<rparr>) s
      else if st_in_tool row then s
      else
        (let txt = decode tok [token];
             delta = (if st_in_thinking row then empty_delta\<lparr>sd_reasoning := txt\<rparr> else empty_delta\<lparr>sd_content := txt\<rparr>) in
         s\<lparr>ss_completion := ss_completion s + 1,
           ss_chunks := ss_chunks s @ [\<lparr>sc_index = index, sc_delta = delta, sc_finish = None\<rparr>]\<rparr>))"

definition stream_columns :: "tokenizer \<Rightarrow> gen_ids \<Rightarrow> int list \<Rightarrow> nat \<Rightarrow> column list \<Rightarrow> stream_state" where
  "stream_columns tok G prompt n columns =
     fold (\<lambda>column. fold (stream_cell tok G column) [0..<n]) columns
       \<lparr>ss_completion = 0, ss_chunks = [],
        ss_rows = replicate n \<lparr>st_in_tool = False, st_in_thinking = primed_thinking G prompt, st_finished = False\<rparr>\<rparr>"

definition role_chunk :: stream_chunk where
  "role_chunk = \<lparr>sc_index = 0, sc_delta = empty_delta\<lparr>sd_role := ''assistant''\<rparr>, sc_finish = None\<rparr>"

definition final_chunk :: "string \<Rightarrow> stream_chunk" where
  "final_chunk finish = \<lparr>sc_index = 0, sc_delta = empty_delta, sc_finish = Some finish\<rparr>"

definition stream_completion :: "tokenizer \<Rightarrow> gen_ids \<Rightarrow> int list \<Rightarrow> nat \<Rightarrow> int \<Rightarrow> generation \<Rightarrow> stream_chunk list option" where
  "stream_completion tok G prompt n max_tokens run =
     map_option (\<lambda>columns.
         let s = stream_columns tok G prompt n columns in
         [role_chunk] @ ss_chunks s @ [final_chunk (if int (ss_completion s) \<ge> max_tokens then ''length'' else ''stop'')])
       (run (\<lambda>columns. \<not> list_all st_finished (ss_rows (stream_columns tok G prompt n columns))))"

section \<open>The stream against the response\<close>

text \<open>The texts of one kind that a client collects for one choice.\<close>

definition streamed :: "(stream_delta \<Rightarrow> byte list) \<Rightarrow> nat \<Rightarrow> stream_chunk list \<Rightarrow> byte list" where
  "streamed f i chunks = concat (map (f \<circ> sc_delta) (filter (\<lambda>c. sc_index c = i) chunks))"

lemma streamed_simps [simp]:
  "streamed f i [] = []" "streamed f i (xs @ ys) = streamed f i xs @ streamed f i ys"
  "streamed f i (c # cs) = (if sc_index c = i then f (sc_delta c) else []) @ streamed f i cs"
  by (simp_all add: streamed_def)

lemma decode_nil [simp]: "decode tok [] = []"
  by (simp add: decode_def)

lemma decode_append: "decode tok (xs @ ys) = decode tok xs @ decode tok ys"
  by (simp add: decode_def)

definition row_streamed :: "tokenizer \<Rightarrow> stream_state \<Rightarrow> nat \<Rightarrow> serve_row \<Rightarrow> bool" where
  "row_streamed tok st i row \<longleftrightarrow>
     st_in_tool (ss_rows st ! i) = sv_in_tool row \<and> st_in_thinking (ss_rows st ! i) = sv_in_thinking row \<and>
     st_finished (ss_rows st ! i) = sv_finished row \<and> streamed sd_content i (ss_chunks st) = decode tok (sv_sampled row) \<and>
     suffix (decode tok (sv_reasoning row)) (streamed sd_reasoning i (ss_chunks st))"

definition rows_streamed :: "tokenizer \<Rightarrow> nat \<Rightarrow> nat \<times> serve_row list \<Rightarrow> stream_state \<Rightarrow> bool" where
  "rows_streamed tok n s st \<longleftrightarrow>
     length (snd s) = n \<and> length (ss_rows st) = n \<and> ss_completion st = length (ss_chunks st) \<and>
     (\<forall>i < n. row_streamed tok st i (snd s ! i))"

lemma cell_row:
  assumes "row_streamed tok st i row" "i < length (ss_rows st)"
  shows "row_streamed tok (stream_cell tok G column i st) i (snd (serve_token tok tools G (column ! i) (counter, row)))"
proof -
  obtain token mask' where tm: "column ! i = (token, mask')" by (cases "column ! i")
  have same: "st_in_tool (ss_rows st ! i) = sv_in_tool row" "st_in_thinking (ss_rows st ! i) = sv_in_thinking row"
    "st_finished (ss_rows st ! i) = sv_finished row" "streamed sd_content i (ss_chunks st) = decode tok (sv_sampled row)"
    "suffix (decode tok (sv_reasoning row)) (streamed sd_reasoning i (ss_chunks st))"
    using assms(1) by (simp_all add: row_streamed_def)
  have longer: "suffix (decode tok (sv_reasoning row @ [token])) (streamed sd_reasoning i (ss_chunks st) @ decode tok [token])"
    using same(5) by (auto simp: suffix_def decode_append)
  note defs = stream_cell_def serve_token_def tm Let_def set_row_def row_streamed_def empty_delta_def decode_append
  let ?quiet = "\<not> sv_finished row \<and> token \<noteq> gi_think_start G \<and> token \<noteq> gi_think_end G"
  let ?text = "?quiet \<and> mask' \<noteq> 0 \<and> token \<noteq> gi_tool_start G \<and> token \<noteq> gi_tool_end G \<and> token \<noteq> gi_assistant_end G \<and> token \<noteq> gi_bos G"
  consider (over) "sv_finished row" | (opened) "\<not> sv_finished row" "token = gi_think_start G"
    | (closed) "\<not> sv_finished row" "token \<noteq> gi_think_start G" "token = gi_think_end G" | (forced) ?quiet "mask' = 0"
    | (tool_start) ?quiet "mask' \<noteq> 0" "token = gi_tool_start G"
    | (tool_end) ?quiet "mask' \<noteq> 0" "token \<noteq> gi_tool_start G" "token = gi_tool_end G"
    | (ended) ?quiet "mask' \<noteq> 0" "token \<noteq> gi_tool_start G" "token \<noteq> gi_tool_end G" "token = gi_assistant_end G \<or> token = gi_bos G"
    | (args) ?text "sv_in_tool row" | (reasoning) ?text "\<not> sv_in_tool row" "sv_in_thinking row"
    | (content) ?text "\<not> sv_in_tool row" "\<not> sv_in_thinking row"
    by blast
  then show ?thesis
  proof cases
    case tool_end
    then show ?thesis using same assms(2) by (cases "sv_in_tool row") (simp_all add: defs)
  next
    case reasoning
    then show ?thesis using same longer by (simp add: defs)
  qed (use same assms(2) in \<open>simp_all add: defs\<close>)
qed

lemma cell_others:
  fixes tok :: tokenizer and st :: stream_state
  assumes "row_streamed tok st j row" "j \<noteq> i"
  shows "row_streamed tok (stream_cell tok G column i st) j row"
  using assms by (simp add: stream_cell_def Let_def set_row_def row_streamed_def case_prod_unfold)

lemma cell_lengths:
  "length (ss_rows (stream_cell tok G column i st)) = length (ss_rows st)"
  "ss_completion st = length (ss_chunks st) \<Longrightarrow> ss_completion (stream_cell tok G column i st) = length (ss_chunks (stream_cell tok G column i st))"
  by (simp_all add: stream_cell_def Let_def set_row_def split: prod.split)

lemma cell_streamed:
  assumes "rows_streamed tok n s st" "i < n"
  shows "rows_streamed tok n (serve_cell tok tools G column i s) (stream_cell tok G column i st)"
proof -
  have "row_streamed tok (stream_cell tok G column i st) j (snd (serve_cell tok tools G column i s) ! j)" if "j < n" for j
  proof (cases "j = i")
    case True
    then show ?thesis
      using cell_row [where tok = tok and st = st and row = "snd s ! i" and i = i and counter = "fst s"] assms
      by (simp add: rows_streamed_def serve_cell_def case_prod_unfold Let_def)
  next
    case False
    then show ?thesis
      using cell_others [where tok = tok and st = st and j = j and row = "snd s ! j" and i = i] assms that
      by (simp add: rows_streamed_def serve_cell_def case_prod_unfold Let_def)
  qed
  then show ?thesis
    using assms cell_lengths [where st = st] by (simp add: rows_streamed_def serve_cell_def case_prod_unfold Let_def)
qed

lemma column_streamed:
  assumes "rows_streamed tok n s st" "\<forall>i \<in> set is. i < n"
  shows "rows_streamed tok n (fold (serve_cell tok tools G column) is s) (fold (stream_cell tok G column) is st)"
  using assms
proof (induction "is" arbitrary: s st)
  case (Cons i "is")
  then show ?case using cell_streamed by simp
qed simp

lemma columns_streamed:
  "rows_streamed tok n (serve_columns tok tools G prompt n columns) (stream_columns tok G prompt n columns)"
proof -
  have "rows_streamed tok n (fold (\<lambda>column. fold (serve_cell tok tools G column) [0..<n]) columns s)
      (fold (\<lambda>column. fold (stream_cell tok G column) [0..<n]) columns st)" if "rows_streamed tok n s st" for s st
    using that by (induction columns arbitrary: s st) (simp_all add: column_streamed)
  then show ?thesis
    unfolding serve_columns_def stream_columns_def
    by this (simp add: rows_streamed_def row_streamed_def new_serve_row_def decode_def)
qed

lemma finished_same:
  "list_all st_finished (ss_rows (stream_columns tok G prompt n columns)) = list_all sv_finished (snd (serve_columns tok tools G prompt n columns))"
  using columns_streamed [of tok n tools G prompt columns] by (auto simp: rows_streamed_def row_streamed_def list_all_length)

text \<open>
  C34. A streamed answer is the answer: for any generator, the stream stops it where the response does, and the contents of
  a choice's chunks put together are the content of the response's choice. The response's reasoning is the end of the
  streamed one. This is about the bytes before each chunk is encoded as JSON, which loses characters that are split between
  two chunks (\<open>split_character_lost\<close>); of the finish reason nothing is said (\<open>stream_finish_wrong\<close>).
\<close>
theorem stream_matches_response:
  assumes "server_generate U tok tools G prompt n run = Some results"
  shows "\<exists>chunks finish. stream_completion tok G prompt n max_tokens run = Some ([role_chunk] @ chunks @ [final_chunk finish]) \<and>
    length results = n \<and> (\<forall>i < n. streamed sd_content i chunks = rr_content (results ! i) \<and>
      suffix (rr_reasoning (results ! i)) (streamed sd_reasoning i chunks))"
proof -
  obtain columns where columns: "run (\<lambda>columns. \<not> list_all sv_finished (snd (serve_columns tok tools G prompt n columns))) = Some columns"
    "results = map (row_result_of U tok prompt) (snd (serve_columns tok tools G prompt n columns))"
    using assms by (auto simp: server_generate_def)
  then have "run (\<lambda>columns. \<not> list_all st_finished (ss_rows (stream_columns tok G prompt n columns))) = Some columns"
    by (simp only: finished_same [of tok G prompt n _ tools])
  then show ?thesis
    using columns_streamed [of tok n tools G prompt columns] columns(2)
    by (auto simp: stream_completion_def rows_streamed_def row_streamed_def row_result_of_def Let_def)
qed

definition server_ids :: gen_ids where
  "server_ids = \<lparr>gi_bos = 0, gi_assistant_end = 4, gi_tool_start = 5, gi_tool_end = 6, gi_output_start = 7, gi_output_end = 8,
     gi_think_start = 9, gi_think_end = 10\<rparr>"

definition example_columns :: "column list" where
  "example_columns = [[(9, 1), (11, 1)], [(12, 1), (5, 1)], [(10, 1), (11, 1)], [(14, 1), (6, 1)], [(4, 1), (13, 0)], [(4, 1), (4, 1)]]"

theorem stream_matches_response_witness:
  "\<exists>results chunks finish. server_generate example_unicode plain_tokenizer [] server_ids [3] 2 (\<lambda>_. Some example_columns) = Some results \<and>
    stream_completion plain_tokenizer server_ids [3] 2 10 (\<lambda>_. Some example_columns) = Some ([role_chunk] @ chunks @ [final_chunk finish]) \<and>
    streamed sd_content 0 chunks = [111, 107] \<and> streamed sd_content 1 chunks = [49] \<and> map rr_reasoning results = [[107], []]"
proof -
  have results: "map_option (map (\<lambda>r. (rr_content r, rr_reasoning r, rr_finish r)))
      (server_generate example_unicode plain_tokenizer [] server_ids [3] 2 (\<lambda>_. Some example_columns)) =
    Some [([111, 107], [107], ''stop''), ([49], [], ''stop'')]" by code_simp
  then obtain rs where rs: "server_generate example_unicode plain_tokenizer [] server_ids [3] 2 (\<lambda>_. Some example_columns) = Some rs"
    "map (\<lambda>r. (rr_content r, rr_reasoning r, rr_finish r)) rs = [([111, 107], [107], ''stop''), ([49], [], ''stop'')]" by auto
  from stream_matches_response [OF rs(1), of 10] obtain chunks finish where chunks:
    "stream_completion plain_tokenizer server_ids [3] 2 10 (\<lambda>_. Some example_columns) = Some ([role_chunk] @ chunks @ [final_chunk finish])"
    "\<forall>i < 2. streamed sd_content i chunks = rr_content (rs ! i)" by blast
  with rs show ?thesis
    by (intro exI [of _ rs] exI [of _ chunks] exI [of _ finish]) (auto simp: map_eq_Cons_conv numeral_2_eq_2 less_Suc_eq all_conj_distrib)
qed

text \<open>A second trace replaces the first in the response; the stream has shown both.\<close>

lemma reasoning_replaced:
  "map_option (map rr_reasoning) (server_generate example_unicode plain_tokenizer [] server_ids [3] 1
      (\<lambda>_. Some [[(9, 1)], [(12, 1)], [(10, 1)], [(11, 1)], [(9, 1)], [(13, 1)], [(10, 1)], [(4, 1)]])) = Some [[111]]"
  "map_option (streamed sd_reasoning 0) (stream_completion plain_tokenizer server_ids [3] 1 20
      (\<lambda>_. Some [[(9, 1)], [(12, 1)], [(10, 1)], [(11, 1)], [(9, 1)], [(13, 1)], [(10, 1)], [(4, 1)]])) = Some [107, 111]"
  by code_simp+

text \<open>
  Two choices of one token each, with a limit of two: both end by themselves, but the stream, which counts the tokens of all
  choices, says that it was cut. And a choice that was cut in a tool call is reported as ended.
\<close>

lemma stream_finish_wrong:
  "map_option (map rr_finish) (server_generate example_unicode plain_tokenizer [] server_ids [3] 2
      (\<lambda>_. Some [[(11, 1), (11, 1)], [(4, 1), (4, 1)]])) = Some [''stop'', ''stop'']"
  "map_option (\<lambda>chunks. sc_finish (last chunks)) (stream_completion plain_tokenizer server_ids [3] 2 2
      (\<lambda>_. Some [[(11, 1), (11, 1)], [(4, 1), (4, 1)]])) = Some (Some ''length'')"
  "map_option (map rr_finish) (server_generate example_unicode plain_tokenizer [] server_ids [3] 1 (\<lambda>_. Some [[(5, 1)], [(11, 1)]])) = Some [''length'']"
  "map_option (\<lambda>chunks. sc_finish (last chunks)) (stream_completion plain_tokenizer server_ids [3] 1 2 (\<lambda>_. Some [[(5, 1)], [(11, 1)]])) =
    Some (Some ''stop'')"
  by code_simp+

section \<open>Text on the wire\<close>

lemma unat_byte: "k < 256 \<Longrightarrow> unat (word_of_nat k :: byte) = k"
  by (simp add: unat_of_nat take_bit_nat_eq_self)

definition scalar :: "rune \<Rightarrow> bool" where
  "scalar r \<longleftrightarrow> r < 0xD800 \<or> 0xDFFF < r \<and> r < 0x110000"

lemma base64_digits:
  "r = r div 4096 * 4096 + r div 64 mod 64 * 64 + r mod (64 :: nat)"
  "r = r div 262144 * 262144 + r div 4096 mod 64 * 4096 + r div 64 mod 64 * 64 + r mod (64 :: nat)"
proof -
  have "r div 4096 = r div 64 div 64" "r div 262144 = r div 4096 div 64" by (simp_all add: div_mult2_eq [symmetric])
  moreover have "r = r div 64 * 64 + r mod 64" "r div 64 = r div 64 div 64 * 64 + r div 64 mod 64"
    "r div 4096 = r div 4096 div 64 * 64 + r div 4096 mod 64" by simp_all
  ultimately show "r = r div 4096 * 4096 + r div 64 mod 64 * 64 + r mod 64"
    "r = r div 262144 * 262144 + r div 4096 mod 64 * 4096 + r div 64 mod 64 * 64 + r mod 64" by linarith+
qed

lemma decode_utf8_rune:
  assumes "scalar r"
  shows "decode_rune (utf8_rune r @ rest) = (r, length (utf8_rune r))"
proof -
  have r: "(if r < 0xD800 \<or> 0xDFFF < r \<and> r < 0x110000 then r else 0xFFFD) = r" using assms by (simp add: scalar_def)
  have small: "r div 64 mod 64 < 64" "r mod 64 < 64" "r div 4096 mod 64 < 64" by simp_all
  consider "r < 0x80" | "0x80 \<le> r" "r < 0x800" | "0x800 \<le> r" "r < 0x10000" | "0x10000 \<le> r" "r < 0x110000"
    using assms by (force simp: scalar_def)
  then show ?thesis
  proof cases
    case 1
    then show ?thesis using r by (simp add: utf8_rune_def decode_rune_def unat_byte)
  next
    case 2
    define a b where "a = r div 64" and "b = r mod 64"
    have ab: "r = a * 64 + b" "b < 64" "2 \<le> a" "a < 32" using 2 by (auto simp: a_def b_def)
    obtain x y where xy: "utf8_rune r = [x, y]" "unat x = 0xC0 + a" "unat y = 0x80 + b"
      using 2 r ab(2,4) unat_byte [of "0xC0 + a"] unat_byte [of "0x80 + b"] by (simp add: utf8_rune_def a_def b_def)
    then show ?thesis using ab by (simp add: decode_rune_def trail_def unat_byte Let_def)
  next
    case 3
    define a b c where "a = r div 4096" and "b = r div 64 mod 64" and "c = r mod 64"
    have abc: "r = a * 4096 + b * 64 + c" unfolding a_def b_def c_def by (rule base64_digits)
    have digits: "b < 64" "c < 64" "a < 16" using 3 by (auto simp: a_def b_def c_def)
    note abc = abc digits
    have edges: "a = 0 \<longrightarrow> 32 \<le> b" "a = 13 \<longrightarrow> b \<le> 31" using abc 3 assms by (auto simp: scalar_def)
    obtain x y z where xy: "utf8_rune r = [x, y, z]" "unat x = 0xE0 + a" "unat y = 0x80 + b" "unat z = 0x80 + c"
      using 3 r abc(2-4) unat_byte [of "0xE0 + a"] unat_byte [of "0x80 + b"] unat_byte [of "0x80 + c"]
      by (simp add: utf8_rune_def a_def b_def c_def)
    then show ?thesis using abc edges by (simp add: decode_rune_def trail_def unat_byte Let_def)
  next
    case 4
    define a b c d where "a = r div 262144" and "b = r div 4096 mod 64" and "c = r div 64 mod 64" and "d = r mod 64"
    have abcd: "r = a * 262144 + b * 4096 + c * 64 + d" unfolding a_def b_def c_def d_def by (rule base64_digits)
    have digits: "b < 64" "c < 64" "d < 64" "a < 5" using 4 by (auto simp: a_def b_def c_def d_def)
    note abcd = abcd digits
    have edges: "a = 0 \<longrightarrow> 16 \<le> b" "a = 4 \<longrightarrow> b \<le> 15" using abcd 4 by auto
    obtain w x y z where xy: "utf8_rune r = [w, x, y, z]" "unat w = 0xF0 + a" "unat x = 0x80 + b" "unat y = 0x80 + c" "unat z = 0x80 + d"
      using 4 r abcd(2-5) unat_byte [of "0xF0 + a"] unat_byte [of "0x80 + b"] unat_byte [of "0x80 + c"] unat_byte [of "0x80 + d"]
      by (simp add: utf8_rune_def a_def b_def c_def d_def)
    then show ?thesis using abcd edges by (simp add: decode_rune_def trail_def unat_byte Let_def)
  qed
qed

lemma utf8_rune_nonempty: "utf8_rune r \<noteq> []"
  by (simp add: utf8_rune_def Let_def)

definition fix_rune :: "rune \<Rightarrow> rune" where
  "fix_rune r = (if scalar r then r else 0xFFFD)"

lemma utf8_fix_rune: "utf8_rune (fix_rune r) = utf8_rune r" "scalar (fix_rune r)"
  by (simp_all add: fix_rune_def utf8_rune_def scalar_def Let_def)

text \<open>Encoded text decodes to its runes, whatever follows.\<close>

lemma go_runes_utf8: "go_runes (utf8 rs @ rest) = map fix_rune rs @ go_runes rest"
proof (induction rs)
  case (Cons r rs)
  have "utf8 (r # rs) @ rest = utf8_rune (fix_rune r) @ utf8 rs @ rest" by (simp add: utf8_def utf8_fix_rune)
  then have "go_runes (utf8 (r # rs) @ rest) = fix_rune r # go_runes (utf8 rs @ rest)"
    using decode_utf8_rune [OF utf8_fix_rune(2), of r "utf8 rs @ rest"] utf8_rune_nonempty [of "fix_rune r"]
    by (subst go_runes.simps) simp
  then show ?case using Cons by simp
qed (simp add: utf8_def)

lemma json_text_utf8: "json_text (utf8 rs @ rest) = utf8 rs @ json_text rest"
proof -
  have "utf8 (map fix_rune rs) = utf8 rs" by (simp add: utf8_def comp_def utf8_fix_rune)
  moreover have "utf8 (xs @ ys) = utf8 xs @ utf8 ys" for xs ys by (simp add: utf8_def)
  ultimately show ?thesis by (simp add: json_text_def go_runes_utf8)
qed

text \<open>
  The chunks are encoded one by one: tokens that are whole characters arrive as the response has them, a character that is
  split between two tokens is lost.
\<close>

lemma streamed_wire:
  assumes "\<forall>c \<in> set chunks. sc_index c = i \<longrightarrow> (\<exists>rs. f (sc_delta c) = utf8 rs)"
  shows "streamed (json_text \<circ> f) i chunks = json_text (streamed f i chunks)"
  using assms
proof (induction chunks)
  case (Cons c chunks)
  then show ?case using json_text_utf8 [where rest = "[]"] json_text_utf8 by (auto simp: json_text_def go_runes.simps [of "[]"] utf8_def)
qed (simp add: json_text_def go_runes.simps utf8_def)

definition bytes_tokenizer :: tokenizer where
  "bytes_tokenizer = plain_tokenizer\<lparr>tk_bytes := special_tokens @ [[0xC3], [0xA9]]\<rparr>"

lemma split_character_lost:
  "map_option (map (json_text \<circ> rr_content)) (server_generate example_unicode bytes_tokenizer [] server_ids [3] 1
      (\<lambda>_. Some [[(11, 1)], [(12, 1)], [(4, 1)]])) = Some [utf8 [0xE9]]"
  "map_option (streamed (json_text \<circ> sd_content) 0) (stream_completion bytes_tokenizer server_ids [3] 1 5
      (\<lambda>_. Some [[(11, 1)], [(12, 1)], [(4, 1)]])) = Some (utf8 [0xFFFD, 0xFFFD])"
  by code_simp+

section \<open>Choosing a generator\<close>

record 'm server =
  sr_tokenizer :: tokenizer
  sr_tools :: "tool list"
  sr_bank :: "'m bank option"
  sr_router :: "router option"
  sr_max_domains :: int
  sr_min_score :: f32
  sr_route_scope :: string
  sr_sequence_len :: int

text \<open>The engine over the server's model, an ensemble over the models of domains, or the nil interface.\<close>

datatype 'm generator = SingleModel | Ensemble "('m \<times> f32 \<times> string) list" | NoGenerator

definition routing_scope :: "'m server \<Rightarrow> string" where
  "routing_scope S = (if sr_route_scope S = '''' then ''last-turn'' else sr_route_scope S)"

fun acquire_scores :: "'m loader \<Rightarrow> score list \<Rightarrow> 'm bank \<Rightarrow> (('m \<times> f32 \<times> string) list \<times> 'm bank) option" where
  "acquire_scores loader [] b = Some ([], b)"
| "acquire_scores loader ((domain, x) # scores) b =
     (case acquire loader domain b of
        None \<Rightarrow> None
      | Some (Inl e, b) \<Rightarrow> acquire_scores loader scores b
      | Some (Inr m, b) \<Rightarrow> map_option (\<lambda>(weights, b). ((m, x, domain) # weights, b)) (acquire_scores loader scores b))"

definition ensemble_for_scores :: "'m loader \<Rightarrow> score list \<Rightarrow> 'm bank \<Rightarrow> ('m generator \<times> 'm bank) option" where
  "ensemble_for_scores loader scores b =
     map_option (\<lambda>(weights, b). (if weights = [] then NoGenerator else Ensemble weights, b)) (acquire_scores loader scores b)"

text \<open>A call that does not return is \<open>NoFuel\<close>.\<close>

definition ended :: "'a option \<Rightarrow> ('e, 'a) outcome" where
  "ended x = (case x of None \<Rightarrow> Inl NoFuel | Some y \<Rightarrow> Inr y)"

definition route_prompt :: "unicode \<Rightarrow> 'm server \<Rightarrow> chat_request \<Rightarrow> int list \<Rightarrow> int list" where
  "route_prompt U S r prompt =
     (let content = last_user_content (cr_messages r) in
      if routing_scope S = ''last-turn'' \<and> content \<noteq> [] then map int (encode U (sr_tokenizer S) content) else prompt)"

definition to_token_ids :: "int list \<Rightarrow> u32 list" where
  "to_token_ids prompt = map word_of_int prompt"

definition select_generator ::
  "unicode \<Rightarrow> router_math \<Rightarrow> 'm loader \<Rightarrow> 'm server \<Rightarrow> chat_request \<Rightarrow> int list \<Rightarrow> (unit, 'm generator \<times> string list \<times> 'm server) outcome" where
  "select_generator U M loader S r prompt =
     (case (sr_bank S, sr_router S) of
        (Some b, Some R) \<Rightarrow>
          (let max_domains = (if sr_max_domains S < 1 then 1 else sr_max_domains S) in
           if cr_model r \<noteq> '''' \<and> cr_model r \<in> set (ro_domains R) then
             obind (ended (ensemble_for_scores loader [(cr_model r, 0x3F800000)] b)) (\<lambda>(g, b).
               Inr (g, [cr_model r], S\<lparr>sr_bank := Some b\<rparr>))
           else
             obind (top_domains M R (to_token_ids (route_prompt U S r prompt)) max_domains (sr_min_score S)) (\<lambda>scores.
               if scores = [] then Inr (SingleModel, [], S)
               else obind (ended (ensemble_for_scores loader scores b)) (\<lambda>(g, b).
                 Inr (case g of NoGenerator \<Rightarrow> (SingleModel, [], S\<lparr>sr_bank := Some b\<rparr>) | _ \<Rightarrow> (g, map fst scores, S\<lparr>sr_bank := Some b\<rparr>)))))
      | _ \<Rightarrow> Inr (SingleModel, [], S))"

section \<open>Answering\<close>

definition run_tools :: "tool list \<Rightarrow> tool_run" where
  "run_tools tools expression = map_option (\<lambda>result. go_runes (go_string result)) (execute tools (hol_string expression))"

text \<open>
  The sampler of a generator for a prompt and options, which stands for models and random numbers; an ensemble calls the
  built-in tools, the engine the server's.
\<close>

type_synonym 'm samplers = "'m generator \<Rightarrow> int list \<Rightarrow> generation_options \<Rightarrow> sampler"

definition generator_run ::
  "unicode \<Rightarrow> 'm samplers \<Rightarrow> tool list \<Rightarrow> 'm server \<Rightarrow> gen_ids \<Rightarrow> 'm generator \<Rightarrow> int list \<Rightarrow> generation_options \<Rightarrow> gen_options \<Rightarrow>
    (unit, generation) outcome" where
  "generator_run U samplers builtin S G g prompt o' opts =
     (case g of
        SingleModel \<Rightarrow> Inr (\<lambda>yield. generate_with G (tool_result U (sr_tokenizer S) (run_tools (sr_tools S))) opts
          (samplers g prompt o') yield prompt (gn_samples o') (gn_max_tokens o'))
      | Ensemble _ \<Rightarrow> Inr (\<lambda>yield. ensemble_generate_with U (sr_tokenizer S) (Some (run_tools builtin)) G opts
          (samplers g prompt o') yield prompt (gn_samples o') (gn_max_tokens o'))
      | NoGenerator \<Rightarrow> Inl Panic)"

record chat_response =
  cp_choices :: "row_result list"
  cp_prompt_tokens :: nat
  cp_completion_tokens :: nat
  cp_total_tokens :: nat

datatype http_response = HttpError nat string | ChatJson "string list" chat_response | ChatStream "string list" "stream_chunk list"

record http_request =
  hq_method :: string
  hq_body :: "string + chat_request"
  hq_flusher :: bool

definition complete :: "string list \<Rightarrow> row_result list \<Rightarrow> http_response" where
  "complete domains rows =
     (let prompt = sum_list (map rr_prompt_len rows); completion = sum_list (map rr_completion rows) in
      ChatJson domains \<lparr>cp_choices = rows, cp_prompt_tokens = prompt, cp_completion_tokens = completion, cp_total_tokens = prompt + completion\<rparr>)"

definition thinking_gen_options :: "chat_request \<Rightarrow> gen_options" where
  "thinking_gen_options r =
     (let t = resolve_thinking r in \<lparr>go_thinking = (to_enabled t \<or> to_budget t > 0), go_budget = to_budget t\<rparr>)"

definition answer ::
  "unicode \<Rightarrow> 'm samplers \<Rightarrow> tool list \<Rightarrow> 'm server \<Rightarrow> chat_request \<Rightarrow> bool \<Rightarrow> int list \<Rightarrow> generation_options \<Rightarrow> 'm generator \<Rightarrow> string list \<Rightarrow>
    (unit, http_response) outcome" where
  "answer U samplers builtin S r flusher prompt o' g domains =
     (if cr_stream r \<and> \<not> flusher then Inr (HttpError 500 ''streaming unsupported'')
      else
        obind (gen_ids_of (sr_tokenizer S)) (\<lambda>G.
        obind (generator_run U samplers builtin S G g prompt o' (thinking_gen_options r)) (\<lambda>run.
          if cr_stream r
          then obind (ended (stream_completion (sr_tokenizer S) G prompt (gn_samples o') (gn_max_tokens o') run)) (\<lambda>chunks. Inr (ChatStream domains chunks))
          else obind (ended (server_generate U (sr_tokenizer S) (sr_tools S) G prompt (gn_samples o') run)) (\<lambda>rows. Inr (complete domains rows)))))"

definition handle_chat_completions ::
  "unicode \<Rightarrow> router_math \<Rightarrow> 'm loader \<Rightarrow> 'm samplers \<Rightarrow> tool list \<Rightarrow> 'm server \<Rightarrow> http_request \<Rightarrow> (unit, http_response \<times> 'm server) outcome" where
  "handle_chat_completions U M loader samplers builtin S q =
     (if hq_method q \<noteq> ''POST'' then Inr (HttpError 405 ''method not allowed'', S)
      else
        (case hq_body q of
           Inl e \<Rightarrow> Inr (HttpError 400 (''invalid request: '' @ e), S)
         | Inr r \<Rightarrow>
             if cr_messages r = [] then Inr (HttpError 400 ''messages must not be empty'', S)
             else
               obind (render_messages U (sr_tokenizer S) r) (\<lambda>ids.
                 let prompt = map int ids; r = r\<lparr>cr_messages := messages_after U r\<rparr>; o' = resolve_options r (sr_sequence_len S) in
                 obind (select_generator U M loader S r prompt) (\<lambda>(g, domains, S).
                 obind (answer U samplers builtin S r (hq_flusher q) prompt o' g domains) (\<lambda>response. Inr (response, S))))))"

section \<open>What is chosen\<close>

text \<open>The weights of an ensemble: of the scored domains those whose checkpoint can be loaded, with the models loaded.\<close>

definition loadable :: "'m loader \<Rightarrow> manifest \<Rightarrow> int \<Rightarrow> score list \<Rightarrow> ('m \<times> f32 \<times> string) list" where
  "loadable loader m vocab scores =
     concat (map (\<lambda>(domain, x). case direct loader m vocab domain of Inl _ \<Rightarrow> [] | Inr l \<Rightarrow> [(ld_model l, x, domain)]) scores)"

lemma acquire_scores_facts:
  assumes "load_manifest (Inr m) = Inr m" "bank_reach loader (new_bank m tok opts) b"
  shows "\<exists>b'. acquire_scores loader scores b = Some (loadable loader m (int (tk_vocab_size tok)) scores, b') \<and>
    bank_reach loader (new_bank m tok opts) b'"
  using assms(2)
proof (induction scores arbitrary: b)
  case (Cons s scores)
  let ?direct = "direct loader m (int (tk_vocab_size tok))"
  obtain domain x where s: "s = (domain, x)" by (cases s)
  from acquire_facts [OF assms(1) reach_inv [OF Cons.prems assms(1)], of domain] obtain r b1 where
    one: "acquire loader domain b = Some (r, b1)" "case ?direct domain of Inl e \<Rightarrow> r = Inl e | Inr l \<Rightarrow> r = Inr (ld_model l)"
    by (cases "?direct domain") auto
  have "bank_reach loader (new_bank m tok opts) b1" by (rule bank_reach.acquired [OF Cons.prems one(1)])
  from Cons.IH [OF this] one s show ?case by (auto simp: loadable_def split: sum.splits)
qed (simp add: loadable_def)

lemma ensemble_for_scores_facts:
  assumes "load_manifest (Inr m) = Inr m" "bank_reach loader (new_bank m tok opts) b"
    and "weights = loadable loader m (int (tk_vocab_size tok)) scores"
  shows "\<exists>b'. ensemble_for_scores loader scores b = Some (if weights = [] then NoGenerator else Ensemble weights, b') \<and>
    bank_reach loader (new_bank m tok opts) b'"
  using acquire_scores_facts [OF assms(1,2), of scores] assms(3) by (auto simp: ensemble_for_scores_def)


definition example_server :: "nat server" where
  "example_server = \<lparr>sr_tokenizer = plain_tokenizer, sr_tools = [], sr_bank = Some example_bank, sr_router = Some example_router,
     sr_max_domains = 3, sr_min_score = 0, sr_route_scope = [], sr_sequence_len = 8\<rparr>"


text \<open>
  A request that names a domain whose checkpoint cannot be loaded is not answered by the single model, as a routed one is:
  the nil generator is called.
\<close>

lemma pinned_domain_panics:
  assumes "sr_bank S = Some b" "bank_reach loader (new_bank m tok opts) b" "load_manifest (Inr m) = Inr m" "sr_router S = Some R"
    "cr_model r \<noteq> ''''" "cr_model r \<in> set (ro_domains R)" "direct loader m (int (tk_vocab_size tok)) (cr_model r) = Inl e"
  shows "\<exists>S'. select_generator U M loader S r prompt = (Inr (NoGenerator, [cr_model r], S') :: (unit, _) outcome)"
    "generator_run U samplers builtin S G NoGenerator prompt o' opts' = Inl Panic"
proof -
  have "loadable loader m (int (tk_vocab_size tok)) [(cr_model r, x)] = []" for x by (simp add: loadable_def assms(7))
  then show "\<exists>S'. select_generator U M loader S r prompt = (Inr (NoGenerator, [cr_model r], S') :: (unit, _) outcome)"
    using ensemble_for_scores_facts [OF assms(3,2) refl, of "[(cr_model r, 0x3F800000)]"]
    by (auto simp: select_generator_def assms(1,4-6) ended_def)
qed (simp add: generator_run_def)

section \<open>Every request ends\<close>

lemma returns_elem [simp]: "returns (elem_at xs i)"
  by (simp add: elem_at_def returns_intros)

lemma returns_hash_bucket [simp]: "returns (hash_bucket buckets tag xs)"
  by (simp add: hash_bucket_def Let_def returns_intros)

lemma returns_features [simp]: "returns (features M c tokens)"
  unfolding features_def by (intro returns_obind returns_if returns_omap) simp_all

lemma returns_ngram_predict [simp]: "returns (ngram_predict M c tokens)"
proof -
  have "returns (add_feature F c f out)" for F f out
    unfolding add_feature_def by (intro returns_omap returns_obind) simp_all
  moreover have "returns (case nc_bias c of None \<Rightarrow> if nc_classes c = 0 then Inr out else Inl Panic
      | Some bias \<Rightarrow> omap (\<lambda>cls. obind (elem_at (ts_data bias) cls) (\<lambda>b. Inr (fo_add F (out ! cls) b))) [0..<nc_classes c])" for F out
    by (auto split: option.split intro!: returns_omap returns_obind)
  ultimately show ?thesis
    unfolding ngram_predict_def ngram_logits_def
    by (intro returns_obind returns_ofold) (auto split: option.split intro!: returns_omap returns_obind)
qed

lemma returns_router_predict [simp]: "returns (router_predict M R tokens)"
proof -
  have "returns (head_predict M h tokens)" for h
    unfolding head_predict_def predict_features_def by (intro returns_obind returns_omap returns_ofold) simp_all
  then show ?thesis
    unfolding router_predict_def by (auto split: option.split intro!: returns_obind)
qed

lemma returns_top_domains [simp]: "returns (top_domains M R tokens k min_score)"
  unfolding top_domains_def route_def by (intro returns_obind returns_if) simp_all

lemma returns_encode_special [simp]: "returns (encode_special tok name)"
  by (simp add: encode_special_def split: option.split)

lemma returns_render [simp]: "returns (render_messages U tok r)"
  unfolding render_messages_def specials_of_def by (intro returns_obind) simp_all

lemma returns_gen_ids [simp]: "returns (gen_ids_of tok)"
  unfolding gen_ids_of_def by (intro returns_obind) simp_all

lemma loop_returns:
  assumes "\<forall>out. length (sampler out) = n" "max_tokens > 0"
  shows "\<exists>out. gen_loop G call opts sampler yield max_tokens 0 [] (replicate n s0) = Some out"
proof -
  have "rows_after G call opts sampler s0 n [] (replicate n s0)" by (simp add: rows_after_def offered_def)
  from gen_loop_facts [OF assms this, of 0 yield] assms(2) show ?thesis by auto
qed

lemma returns_answer:
  assumes "\<forall>g prompt o' out. length (samplers g prompt o' out) = gn_samples o'" "gn_max_tokens o' > 0"
  shows "returns (answer U samplers builtin S r flusher prompt o' g domains)"
proof -
  have run: "\<exists>columns. run yield = Some columns"
    if "generator_run U samplers builtin S G g prompt o' opts = Inr run" for G opts run yield
    using that loop_returns [OF assms(1) [THEN spec, THEN spec, THEN spec, of g prompt o'] assms(2)]
    by (auto simp: generator_run_def generate_with_def ensemble_generate_with_def split: generator.splits)
  have "returns (generator_run U samplers builtin S G g prompt o' opts)" for G opts
    by (simp add: generator_run_def split: generator.split)
  moreover have ends: "returns (ended (stream_completion tok G prompt n max_tokens run))" "returns (ended (server_generate U tok tools G prompt n run))"
    if "\<forall>yield. \<exists>columns. run yield = Some columns" for tok tools G n max_tokens run
  proof -
    from that [rule_format, of "\<lambda>columns. \<not> list_all st_finished (ss_rows (stream_columns tok G prompt n columns))"]
    show "returns (ended (stream_completion tok G prompt n max_tokens run))" by (auto simp: stream_completion_def ended_def)
    from that [rule_format, of "\<lambda>columns. \<not> list_all sv_finished (snd (serve_columns tok tools G prompt n columns))"]
    show "returns (ended (server_generate U tok tools G prompt n run))" by (auto simp: server_generate_def ended_def)
  qed
  ultimately show ?thesis
    unfolding answer_def by (intro returns_if returns_obind ends allI) (simp_all add: run)
qed

text \<open>A server whose bank, if it has one, is in a state that calls of \<open>Acquire\<close> lead to.\<close>

definition server_ok :: "'m loader \<Rightarrow> manifest \<Rightarrow> 'm server \<Rightarrow> bool" where
  "server_ok loader m S \<longleftrightarrow> 0 < sr_sequence_len S \<and> load_manifest (Inr m) = Inr m \<and>
     (case sr_bank S of None \<Rightarrow> True | Some b \<Rightarrow> \<exists>tok opts. bank_reach loader (new_bank m tok opts) b)"

lemma select_generator_ok:
  assumes "server_ok loader m S"
  shows "returns (select_generator U M loader S r prompt)"
    "select_generator U M loader S r prompt = Inr (g, domains, S') \<Longrightarrow> server_ok loader m S'"
proof -
  have ensemble: "\<exists>g b'. ensemble_for_scores loader scores b = Some (g, b') \<and> server_ok loader m (S\<lparr>sr_bank := Some b'\<rparr>)"
    if "sr_bank S = Some b" for scores b
  proof -
    have "load_manifest (Inr m) = Inr m" "\<exists>tok opts. bank_reach loader (new_bank m tok opts) b"
      using assms that by (simp_all add: server_ok_def)
    then obtain tok opts where "bank_reach loader (new_bank m tok opts) b" "load_manifest (Inr m) = Inr m" by blast
    from ensemble_for_scores_facts [OF this(2,1) refl, of scores] show ?thesis using assms by (auto simp: server_ok_def)
  qed
  have ended_ok: "returns (ended (ensemble_for_scores loader scores b))"
    "ended (ensemble_for_scores loader scores b) = Inr (g, b') \<Longrightarrow> server_ok loader m (S\<lparr>sr_bank := Some b'\<rparr>)"
    if "sr_bank S = Some b" for scores b g b'
    using ensemble [OF that, of scores] by (auto simp: ended_def)
  show "returns (select_generator U M loader S r prompt)"
    by (auto simp: select_generator_def Let_def split: option.split intro!: returns_obind returns_if ended_ok(1))
  show "server_ok loader m S'" if "select_generator U M loader S r prompt = Inr (g, domains, S')"
    using that assms
    by (auto simp: select_generator_def Let_def obind_def split: option.splits if_splits sum.splits generator.splits dest!: ended_ok(2))
qed

text \<open>
  C33. Every chat request is brought to an end: with a bank as calls of \<open>Acquire\<close> leave it and a positive context length, the
  handler never loops forever, for any method, body, number of samples, token limit and tools, whatever the models answer, on
  the streaming and on the plain path, with one model or an ensemble; the end may be a panic. The server it leaves, its bank
  included, is again one for which this holds, so a server answers any sequence of requests.
\<close>
theorem requests_return:
  assumes "server_ok loader m S"
    "\<forall>g prompt o' out. length (samplers g prompt o' out) = gn_samples o'"
  shows "returns (handle_chat_completions U M loader samplers builtin S q) \<and>
    (\<forall>response S'. handle_chat_completions U M loader samplers builtin S q = Inr (response, S') \<longrightarrow> server_ok loader m S')"
proof -
  have max_tokens: "0 < gn_max_tokens (resolve_options r (sr_sequence_len S))" for r
    using assms(1) by (simp add: resolve_options_def server_ok_def)
  note answered = returns_answer [OF assms(2) max_tokens]
  note routed = select_generator_ok [OF assms(1)]
  have "returns (handle_chat_completions U M loader samplers builtin S q)"
    by (auto simp: handle_chat_completions_def Let_def split: sum.split intro!: returns_obind returns_if answered routed(1))
  moreover have "server_ok loader m S'" if "handle_chat_completions U M loader samplers builtin S q = Inr (response, S')" for response S'
    using that assms(1)
    by (auto simp: handle_chat_completions_def Let_def obind_eq_Inr split: if_splits sum.splits dest!: routed(2))
  ultimately show ?thesis by blast
qed

definition example_http :: "http_request" where
  "example_http = \<lparr>hq_method = ''POST'', hq_body = Inr example_request, hq_flusher = True\<rparr>"

definition example_samplers :: "nat samplers" where
  "example_samplers g prompt o' out = replicate (gn_samples o') (if length out < 2 then 11 else 4)"

theorem requests_return_witness:
  "\<exists>response S'. handle_chat_completions example_unicode example_math_router example_loader example_samplers [] example_server example_http =
      Inr (response, S') \<and> server_ok example_loader example_manifest S'"
proof -
  have ok: "server_ok example_loader example_manifest example_server"
  proof -
    have "load_manifest (Inr example_manifest) = Inr example_manifest" by code_simp
    moreover have "bank_reach example_loader (new_bank example_manifest blank_tokenizer \<lparr>max_bytes = 60, max_models = 0\<rparr>) example_bank"
      unfolding example_bank_def by (rule bank_reach.start)
    ultimately show ?thesis by (auto simp: server_ok_def example_server_def)
  qed
  have shape: "\<forall>g prompt o' out. length (example_samplers g prompt o' out) = gn_samples o'"
    by (simp add: example_samplers_def)
  have "(case handle_chat_completions example_unicode example_math_router example_loader example_samplers [] example_server example_http of
      Inr _ \<Rightarrow> True | Inl _ \<Rightarrow> False)" by code_simp
  then obtain response S' where
    "handle_chat_completions example_unicode example_math_router example_loader example_samplers [] example_server example_http = Inr (response, S')"
    by (auto split: sum.splits)
  with requests_return [OF ok shape, of example_unicode example_math_router "[]" example_http] show ?thesis by blast
qed

end
