(* ===== verification/Spec2Isabelle.thy ===== *)
theory Spec2Isabelle
  imports Parquet_Reader Bank Model_Config Dataloader Pool Speculative Kv_Cache Kv_Ops Indexer Gguf Moe Flops Optimizer_Groups Server
begin

text \<open>
  A verification library for gonano, a Go program that trains small language models and serves them. The
  theories model the parts with logic of their own, as the Go code writes them, each under the names of the Go
  functions in snake case. The floating-point layers are not here: what the modelled code uses of them is an
  argument of its definitions.

  Reading data (src/data).
  \<^item> \<open>Parquet_Snappy\<close> (parquet/snappy.go): the Snappy block decoder, proved to accept exactly the well-formed blocks.
  \<^item> \<open>Parquet_Encoding\<close> (parquet/encoding.go): plain values and the RLE/bit-packed hybrid.
  \<^item> \<open>Parquet_Compact\<close> (parquet/compact.go): the Thrift compact reader, a state threaded through its methods; skipping
    a value of unknown type ends on every input.
  \<^item> \<open>Parquet_Metadata\<close> (parquet/metadata.go): the struct parsers; what was encoded is parsed back.
  \<^item> \<open>Parquet_Reader\<close> (parquet/reader.go): a file's footer, pages and columns. A column laid out as a writer does it
    is read completely; any file, a corrupt one too, is read or refused in the end.
  \<^item> \<open>Dataloader\<close> (dataloader.go): documents and conversations packed into batches; which documents a row holds,
    what is cropped, what is padded, when the loaders return.

  Text (src/tokenizer).
  \<^item> \<open>Bpe\<close> (bpe.go): training, proved to give the ranks that counting every pair afresh in each round gives.
  \<^item> \<open>Splitter\<close> (splitter.go): the pieces of a text. \<open>Tokenizer\<close> (tokenizer.go, special.go): encoding and decoding,
    with the round trip. \<open>Render\<close> (render.go): conversations to token ids and a loss mask.

  Inference (src/inference, src/bank).
  \<^item> \<open>Lru\<close>: the interface \<open>lru_store\<close> of a store with a recency order and a byte count. \<open>Bank\<close> (bank/bank.go) and
    \<open>Cache\<close> (prefix.go, cache.go) interpret it with their own operations and take their invariants from it.
  \<^item> \<open>Tools\<close> (tooluse.go): the tool registry and the calculator.
  \<^item> \<open>Engine\<close> (engine.go, ensemble.go): the row state machine (tool calls, thinking budget), the decode loop and
    batches. It decodes and encodes with \<open>Tokenizer\<close> and calls \<open>Tools\<close> through a function argument.
  \<^item> \<open>Speculative\<close> (speculative.go): drafting and verification, proved to deliver the greedy tokens to a prompt that fits the
    context. The target model is asked to be exact only within the capacity of its cache; beyond it the forward pass panics.

  Routing and serving (src/router, src/server).
  \<^item> \<open>Router\<close> (ngram.go, transformer.go, router.go, distill.go): hashed n-grams, the escalation to the transformer head, the
    choice of domains, bundles in the checkpoint format. A bundle is loaded as it was saved.
  \<^item> \<open>Chat\<close> (types.go and the first half of server.go): requests, their options and prompts, compared with those of
    \<open>Render\<close>. \<open>Server\<close> (server.go, handler.go): choosing the generator with \<open>Router\<close> and \<open>Bank\<close>, running \<open>Engine\<close>, collecting
    the response or streaming it. The two answers agree; the handler always returns.

  The model and its workers (src/model, src/internal/parallel).
  \<^item> \<open>Model_Config\<close> (config.go, preset.go, counts of flops.go and mla.go): configurations, their check, the presets.
  \<^item> \<open>Pool\<close> (pool.go): ranges shared out among goroutines. Their single reads and writes interleave; for calls without data
    races every interleaving ends as the sequential loop does.

  The KV cache (src/model).
  \<^item> \<open>Kv_Buffer\<close> (kvcache.go; compressTail and appendGlobalTail of compress_attention.go): the buffer a model writes its
    keys and values to, with compression state, indexer keys, latent rows; its operations and when it is well-formed.
  \<^item> \<open>Kv_Ops\<close>: writing appends to the live rows of one head only; a prefill makes all rows of a batch look like the
    source's row (but for the tails of a model with several heads, see the lemma \<open>prefill_tail_heads\<close>).
  \<^item> \<open>Kv_Codec\<close> (kvcache_codec.go): the byte format; what was written is read back, up to the parts that are not live.
  \<^item> \<open>Kv_Cache\<close>: \<open>Cache\<close> over these buffers. A hit has the live state that was stored, through the disk as well.

  The sparse indexer (src/model/indexer.go, src/kernels/simd/indexer.go, src/kernels/scalar/indexer.go).
  \<^item> \<open>Top_K\<close>: \<open>topKIndices\<close> with its bounded heap, proved to be a prefix of the stable sort on scores without NaN.
  \<^item> \<open>Indexer\<close>: scoring blocks and selecting them by super-blocks. The locale \<open>indexer_kernel\<close> states what a kernel
    promises, and is interpreted on the scalar kernels and on the SIMD ones, whose maxima need only have the order of the
    scalar ones. A token's selection is a function of its own row of scores: it does not depend on chunks or on the batch.
    Where the scores are those of the scalar loop, it does not depend either on whether a layer reselects within published
    pools. From 16 positions on the SIMD kernel adds by lanes, so its scores may round differently.

  Checkpoints (src/model/checkpoint).
  \<^item> \<open>Checkpoint\<close> (checkpoint.go, merge.go): files are read back as they were written, cut ones are refused; merging
    accepts exactly the models with the same parameters.
  \<^item> \<open>Gguf\<close> (gguf.go, gguf_read.go): export and import. The tensors survive; of the configuration only \<open>gguf_config\<close> does.

  \<open>Go_Base\<close> is the prelude: outcomes (\<open>Inl (Fail e)\<close> a returned error, \<open>Inl Panic\<close> a panic, \<open>Inl NoFuel\<close> the end of a
  bound), machine integers, \<open>make\<close>, slices and byte order, with the rules that components share; \<open>Go_Slices\<close> adds
  slice expressions, copying and loops over slices of slices; \<open>Go_Float\<close> the comparisons of float32 and \<open>Tensor\<close>.

  Bounds. \<open>rle_loop\<close> and \<open>pages_loop\<close> take a unit of fuel for each byte and up to two more, since every round consumes
  a byte or moves on in the file; the Thrift reader's \<open>skip\<close> a unit for each byte and each level; the calculator
  three units a character. That these are enough is the content of \<open>reader_total\<close>, \<open>skip_total\<close> and
  \<open>eval_arithmetic_total\<close>: no result is ever \<open>NoFuel\<close>. Loops that may really run for ever (refilling from a provider, eviction,
  decoding without a token limit) are partial functions into \<open>option\<close>, and the theorems say when they return; a run of
  the server's handler that does not return is \<open>NoFuel\<close>, which \<open>requests_return\<close> excludes.

  Parameters. Package unicode's character classes, the visiting order of maps, sha256, the clock, the loader of
  checkpoints, the sampler that stands for model and random numbers, the target model of speculative decoding, the
  encoder of the router, JSON codecs, the arithmetic of float64: each is an argument of the definitions, and each witness
  instantiates it. Nothing is assumed of them but what a theorem names.

  A float32 is the word of its bits. Comparisons are defined on the bits as IEEE 754 has them; arithmetic is the record
  \<open>float_ops\<close>, of which nothing is assumed, with one operation for a product added to a sum, since Go may fuse the two;
  it is taken to round the same way at every place of the code. The vector operations of package simd are the record \<open>simd_ops\<close>.
  The compressor and the indexer's projections are functions.

  Idealised. A configuration's integers are unbounded and its floats rational; the estimates of \<open>Flops\<close> are whole numbers,
  as float64 holds them up to \<open>2 ^ 53\<close>, which the theorem on them asks for. Memory suffices: no \<open>make\<close> or \<open>tensors.New\<close> fails for
  size. Goroutines see memory as Go promises it to programs without data races. A panic ends the run; what was written to a
  connection before it is not kept.

  Not modelled. The tensors, kernels, layers, optimizers and training loops are float32 arithmetic, for which the
  library has no account of rounding; net/http, executors and commands are operating-system I/O; JSON (the tokenizer's
  file, the manifest's text, requests and responses) is decoded and encoded by Go's library. \<open>generate_with\<close> is the plain loop:
  that \<open>GenerateWith\<close> hands eligible requests to \<open>speculativeGenerate\<close> is not in it. The remaining discrete parts (task
  evaluation, the trainer's schedule) are listed in the manifest as not modelled.
\<close>

end
